(* ===== verification/LJ_Prelude.thy ===== *)
theory LJ_Prelude
  imports Main "HOL-Library.Word"
begin

text \<open>
  Shared by all components: the types of the machine (bytes and 32/64-bit words), the
  error messages an operation can throw, the result type with its sequencing combinator,
  and generic list and word facts.

  A C function that may call \<open>lj_err_msg\<close> (which does not return) is a function
  into \<open>'a res\<close>: \<open>Inl e\<close> is the thrown error, \<open>Inr x\<close> the returned value.
  Two values of the error type are not messages of the program: \<open>DIVERGE\<close> stands for a
  loop that did not stop within the model's bound and \<open>OOB\<close> for an access outside
  the memory the code owns.  Theorems show that neither is reached.
\<close>

unbundle bit_operations_syntax

type_synonym byte = "8 word"
type_synonym u16 = "16 word"
type_synonym u32 = "32 word"
type_synonym u64 = "64 word"

datatype errmsg =
    ERR_TABOV | ERR_NANIDX | ERR_NILIDX | ERR_NEXTIDX | ERR_STROV
  | ERR_BCBAD | ERR_BCFMT | ERR_STKOV | ERR_MEM | TRERR_GFAIL | TRERR_BADTYPE
  | DIVERGE | OOB

type_synonym 'a res = "errmsg + 'a"

definition rbind :: "'a res \<Rightarrow> ('a \<Rightarrow> 'b res) \<Rightarrow> 'b res" where
  "rbind m f = (case m of Inl e \<Rightarrow> Inl e | Inr x \<Rightarrow> f x)"

lemma rbind_simps [simp]:
  "rbind (Inl e) f = Inl e"
  "rbind (Inr x) f = f x"
  by (simp_all add: rbind_def)

lemma rbind_cong [fundef_cong]:
  "m = m' \<Longrightarrow> (\<And>x. m' = Inr x \<Longrightarrow> f x = f' x) \<Longrightarrow> rbind m f = rbind m' f'"
  by (cases m') (auto simp: rbind_def)

lemma rbind_Inr_iff: "rbind m f = Inr y \<longleftrightarrow> (\<exists>x. m = Inr x \<and> f x = Inr y)"
  by (cases m) auto

lemma rbind_Inl_iff:
  "rbind m f = Inl e \<longleftrightarrow> m = Inl e \<or> (\<exists>x. m = Inr x \<and> f x = Inl e)"
  by (cases m) auto

lemma rbind_assoc: "rbind (rbind m f) g = rbind m (\<lambda>x. rbind (f x) g)"
  by (cases m) auto

subsection \<open>Lists\<close>

lemma nth_list_update_all:
  "(xs[i := x]) ! j = (if i = j \<and> j < length xs then x else xs ! j)"
  by (metis list_update_beyond not_less nth_list_update_eq nth_list_update_neq)

text \<open>Counting the elements of a list that satisfy a predicate.\<close>

abbreviation count_if :: "('a \<Rightarrow> bool) \<Rightarrow> 'a list \<Rightarrow> nat" where
  "count_if P xs \<equiv> length (filter P xs)"

lemma count_if_update:
  assumes "i < length xs"
  shows "count_if P (xs[i := x]) + (if P (xs ! i) then 1 else 0)
       = count_if P xs + (if P x then 1 else 0)"
proof -
  have xs: "xs = take i xs @ xs ! i # drop (Suc i) xs"
    using assms by (simp add: id_take_nth_drop)
  have "count_if P xs = count_if P (take i xs) + (if P (xs ! i) then 1 else 0)
      + count_if P (drop (Suc i) xs)"
    by (subst xs) simp
  moreover have "count_if P (xs[i := x]) = count_if P (take i xs) + (if P x then 1 else 0)
      + count_if P (drop (Suc i) xs)"
    using assms by (simp add: upd_conv_take_nth_drop)
  ultimately show ?thesis by simp
qed

lemma count_if_all_iff: "count_if P xs = length xs \<longleftrightarrow> (\<forall>i < length xs. P (xs ! i))"
  by (metis (no_types) all_nth_imp_all_set filter_id_conv in_set_conv_nth
      length_filter_less less_irrefl)

lemma count_if_split:
  "count_if P xs = count_if (\<lambda>x. P x \<and> Q x) xs + count_if (\<lambda>x. P x \<and> \<not> Q x) xs"
  by (induction xs) auto

text \<open>A chain of strictly decreasing ranks below \<open>n\<close> has at most \<open>n\<close> members.\<close>

lemma distinct_bounded_length:
  "distinct xs \<Longrightarrow> set xs \<subseteq> {..<n} \<Longrightarrow> length xs \<le> n"
  by (metis card_lessThan card_mono distinct_card finite_lessThan)

subsection \<open>Words\<close>

lemma unat_and_le: "unat (x AND y) \<le> unat (y :: 'a::len word)"
  by (metis word_and_le1 word_le_nat_alt)

lemma unat_and_lt_Suc [simp]: "unat (x AND y) < Suc (unat (y :: 'a::len word))"
  using unat_and_le less_Suc_eq_le by blast

lemma unat_byte_lt [simp]: "unat (b :: byte) < 256"
  using unsigned_less [of b] by simp

end
