(* ===== verification/LJ_Bits.thy ===== *)
theory LJ_Bits
  imports LJ_Prelude
begin

text \<open>
  Bit-level helpers of \<^verbatim>\<open>lj_def.h\<close>: find-last-set, rotation, byte swap and the little-endian
  32-bit loads.  Sizes and counts of the code that stay far below \<open>2^32\<close> are natural
  numbers; hash values and bit patterns are words.
\<close>

text \<open>\<open>lj_fls x\<close> is the index of the highest set bit; undefined in C for 0.\<close>

fun lj_fls :: "nat \<Rightarrow> nat" where
  "lj_fls n = (if n < 2 then 0 else Suc (lj_fls (n div 2)))"

declare lj_fls.simps [simp del]

lemma lj_fls_lower: "0 < n \<Longrightarrow> 2 ^ lj_fls n \<le> n"
proof (induction n rule: lj_fls.induct)
  case (1 n)
  then show ?case
    by (cases "n < 2") (auto simp: lj_fls.simps [of n])
qed

lemma lj_fls_upper: "n < 2 ^ Suc (lj_fls n)"
proof (induction n rule: lj_fls.induct)
  case (1 n)
  then show ?case
    by (cases "n < 2") (auto simp: lj_fls.simps [of n])
qed

lemma lj_fls_unique: "2 ^ k \<le> n \<Longrightarrow> n < 2 ^ Suc k \<Longrightarrow> lj_fls n = k"
proof -
  assume a: "2 ^ k \<le> n" "n < 2 ^ Suc k"
  then have "0 < n"
    by (metis gr_zeroI not_one_le_zero power_eq_0_iff le_zero_eq zero_neq_numeral)
  with a have "(2::nat) ^ k < 2 ^ Suc (lj_fls n)" "(2::nat) ^ lj_fls n < 2 ^ Suc k"
    using lj_fls_lower [of n] lj_fls_upper [of n] by linarith+
  then have "k < Suc (lj_fls n)" "lj_fls n < Suc k"
    by (metis one_less_numeral_iff power_strict_increasing_iff semiring_norm(76))+
  then show ?thesis by simp
qed

lemma lj_fls_le_iff: "0 < n \<Longrightarrow> lj_fls n \<le> k \<longleftrightarrow> n < 2 ^ Suc k"
proof
  assume "0 < n" "lj_fls n \<le> k"
  then show "n < 2 ^ Suc k"
    by (meson lj_fls_upper le_less_trans not_le order_less_le_trans power_increasing
        Suc_le_mono one_le_numeral)
next
  assume n: "0 < n" "n < 2 ^ Suc k"
  then have "(2::nat) ^ lj_fls n < 2 ^ Suc k" using lj_fls_lower [of n] by linarith
  then have "lj_fls n < Suc k"
    by (metis one_less_numeral_iff power_strict_increasing_iff semiring_norm(76))
  then show "lj_fls n \<le> k" by simp
qed

definition lj_rol :: "u32 \<Rightarrow> nat \<Rightarrow> u32" where
  "lj_rol x n = word_rotl n x"

text \<open>A little-endian load of four bytes, as \<open>*(const uint32_t *)p\<close> on x86 and x64.\<close>

definition le32 :: "byte \<Rightarrow> byte \<Rightarrow> byte \<Rightarrow> byte \<Rightarrow> u32" where
  "le32 b0 b1 b2 b3 = of_nat (unat b0 + 256 * (unat b1 + 256 * (unat b2 + 256 * unat b3)))"

definition byte_of :: "nat \<Rightarrow> u32 \<Rightarrow> byte" where
  "byte_of k x = ucast (drop_bit (8 * k) x)"

definition lj_bswap :: "u32 \<Rightarrow> u32" where
  "lj_bswap x = le32 (byte_of 3 x) (byte_of 2 x) (byte_of 1 x) (byte_of 0 x)"

lemma bytes4_lt:
  "a < (256::nat) \<Longrightarrow> b < 256 \<Longrightarrow> c < 256 \<Longrightarrow> d < 256 \<Longrightarrow>
     a + 256 * (b + 256 * (c + 256 * d)) < 4294967296"
  by simp

lemma unat_le32:
  "unat (le32 b0 b1 b2 b3) = unat b0 + 256 * (unat b1 + 256 * (unat b2 + 256 * unat b3))"
proof -
  have "unat b0 + 256 * (unat b1 + 256 * (unat b2 + 256 * unat b3)) < 4294967296"
    by (rule bytes4_lt) simp_all
  then show ?thesis unfolding le32_def by (subst of_nat_inverse [OF refl]) simp_all
qed

lemma unat_byte_of: "unat (byte_of k x) = unat x div 2 ^ (8 * k) mod 256"
  by (simp add: byte_of_def unsigned_ucast_eq unat_drop_bit_eq take_bit_eq_mod
      flip: drop_bit_eq_div)

lemma split256:
  "a < (256::nat) \<Longrightarrow> (a + 256 * r) div 256 = r"
  "a < (256::nat) \<Longrightarrow> (a + 256 * r) mod 256 = a"
  by simp_all

lemma byte_of_unat:
  "unat (byte_of 0 x) = unat x mod 256"
  "unat (byte_of 1 x) = unat x div 256 mod 256"
  "unat (byte_of 2 x) = unat x div 256 div 256 mod 256"
  "unat (byte_of 3 x) = unat x div 256 div 256 div 256 mod 256"
  by (simp_all add: unat_byte_of div_mult2_eq [symmetric])

lemma byte_of_le32 [simp]:
  "byte_of 0 (le32 b0 b1 b2 b3) = b0" "byte_of 1 (le32 b0 b1 b2 b3) = b1"
  "byte_of 2 (le32 b0 b1 b2 b3) = b2" "byte_of 3 (le32 b0 b1 b2 b3) = b3"
  unfolding word_unat_eq_iff byte_of_unat unat_le32 by (simp_all only: split256 unat_byte_lt mod_less)

lemma byte_of_Suc0_le32 [simp]: "byte_of (Suc 0) (le32 b0 b1 b2 b3) = b1"
  using byte_of_le32(2) by simp

lemma le32_eq_iff [simp]:
  "le32 a0 a1 a2 a3 = le32 b0 b1 b2 b3 \<longleftrightarrow> a0 = b0 \<and> a1 = b1 \<and> a2 = b2 \<and> a3 = b3"
  by (metis byte_of_le32)

lemma le32_byte_of: "le32 (byte_of 0 x) (byte_of 1 x) (byte_of 2 x) (byte_of 3 x) = x"
proof -
  have "unat x < 256 * (256 * (256 * 256))" using unsigned_less [of x] by simp
  then have "unat x div 256 div 256 div 256 < 256"
    by (metis div_mult2_eq less_mult_imp_div_less mult.commute)
  then show ?thesis
    unfolding word_unat_eq_iff unat_le32 byte_of_unat
    by (simp add: mod_div_mult_eq mult.commute)
qed

lemma lj_bswap_le32 [simp]: "lj_bswap (le32 b0 b1 b2 b3) = le32 b3 b2 b1 b0"
  unfolding lj_bswap_def by (simp only: byte_of_le32)

lemma lj_bswap_involution: "lj_bswap (lj_bswap x) = x"
  by (metis le32_byte_of lj_bswap_le32)

end
