(* ===== verification/LJ_SBuf.thy ===== *)
theory LJ_SBuf
  imports LJ_Bits
begin

text \<open>
  Resizable string buffers (\<^verbatim>\<open>SBuf\<close>, macros of \<^verbatim>\<open>lj_str.h\<close>, \<^verbatim>\<open>addstr\<close> and \<^verbatim>\<open>addchar\<close> of \<^verbatim>\<open>lj_str.c\<close>).
  The buffer memory is a list whose length is the allocated size \<open>sz\<close>; \<open>n\<close> bytes of it
  are in use.  A store at or past \<open>sz\<close> is the error \<open>OOB\<close>, so that the absence
  of buffer overflows is a theorem.  The locale \<open>byte_sink\<close> is what the clients (the string
  formatter and the bytecode writer) rely on: an append operation that succeeds on
  every well-formed state and appends exactly the given bytes.
\<close>

record sbuf =
  sb_buf :: "byte list"
  sb_n :: nat

definition sb_sz :: "sbuf \<Rightarrow> nat" where
  "sb_sz sb = length (sb_buf sb)"

definition sb_data :: "sbuf \<Rightarrow> byte list" where
  "sb_data sb = take (sb_n sb) (sb_buf sb)"

text \<open>\<open>realloc\<close>: the kept prefix, then memory with unspecified content (here 0).\<close>

definition lj_str_resizebuf :: "sbuf \<Rightarrow> nat \<Rightarrow> sbuf" where
  "lj_str_resizebuf sb nsz = sb\<lparr>sb_buf := take nsz (sb_buf sb) @ replicate (nsz - sb_sz sb) 0\<rparr>"

definition lj_str_resetbuf :: "sbuf \<Rightarrow> sbuf" where
  "lj_str_resetbuf sb = sb\<lparr>sb_n := 0\<rparr>"

definition lj_str_initbuf :: "sbuf \<Rightarrow> sbuf" where
  "lj_str_initbuf sb = sb\<lparr>sb_buf := []\<rparr>"

definition LJ_MIN_SBUF :: nat where "LJ_MIN_SBUF = 32"

definition lj_str_needbuf :: "sbuf \<Rightarrow> nat \<Rightarrow> sbuf" where
  "lj_str_needbuf sb sz =
     (if sz > sb_sz sb
      then lj_str_resizebuf sb (if sz < LJ_MIN_SBUF then LJ_MIN_SBUF else sz)
      else sb)"

text \<open>The loop \<open>while (need > sz) sz = sz * 2\<close>; it does not stop when \<open>sz\<close> is 0.\<close>

function sz_double :: "nat \<Rightarrow> nat \<Rightarrow> nat option" where
  "sz_double need sz =
     (if need \<le> sz then Some sz else if sz = 0 then None else sz_double need (sz * 2))"
  by pat_completeness auto
termination
  by (relation "measure (\<lambda>(need, sz). need - sz)") auto

declare sz_double.simps [simp del]

definition sb_grow :: "sbuf \<Rightarrow> nat \<Rightarrow> sbuf res" where
  "sb_grow sb len =
     (case sz_double (sb_n sb + len) (sb_sz sb * 2) of
        None \<Rightarrow> Inl DIVERGE
      | Some sz \<Rightarrow> Inr (lj_str_resizebuf sb sz))"

text \<open>Store one byte at position \<open>i\<close> of the buffer memory.\<close>

definition sb_store :: "sbuf \<Rightarrow> nat \<Rightarrow> byte \<Rightarrow> sbuf res" where
  "sb_store sb i b =
     (if i < sb_sz sb then Inr (sb\<lparr>sb_buf := (sb_buf sb)[i := b]\<rparr>) else Inl OOB)"

text \<open>The copy loop \<open>for (i = 0; i < len; i++) q[i] = p[i]\<close>.\<close>

fun sb_copy :: "sbuf \<Rightarrow> nat \<Rightarrow> byte list \<Rightarrow> sbuf res" where
  "sb_copy sb i [] = Inr sb"
| "sb_copy sb i (b # bs) = rbind (sb_store sb i b) (\<lambda>sb'. sb_copy sb' (Suc i) bs)"

definition addstr :: "sbuf \<Rightarrow> byte list \<Rightarrow> sbuf res" where
  "addstr sb str =
     rbind (if sb_n sb + length str > sb_sz sb then sb_grow sb (length str) else Inr sb)
       (\<lambda>sb. sb_copy (sb\<lparr>sb_n := sb_n sb + length str\<rparr>) (sb_n sb) str)"

definition addchar :: "sbuf \<Rightarrow> byte \<Rightarrow> sbuf res" where
  "addchar sb c =
     (let sb = (if sb_n sb + 1 > sb_sz sb then lj_str_resizebuf sb (sb_sz sb * 2) else sb)
      in rbind (sb_store sb (sb_n sb) c) (\<lambda>sb. Inr (sb\<lparr>sb_n := sb_n sb + 1\<rparr>)))"

subsection \<open>Facts\<close>

definition sbuf_ok :: "sbuf \<Rightarrow> bool" where
  "sbuf_ok sb \<longleftrightarrow> 0 < sb_sz sb \<and> sb_n sb \<le> sb_sz sb"

lemma sz_double_Some:
  "0 < sz \<Longrightarrow> \<exists>s. sz_double need sz = Some s \<and> need \<le> s \<and> sz \<le> s"
proof (induction need sz rule: sz_double.induct)
  case (1 need sz)
  show ?case
  proof (cases "need \<le> sz")
    case True
    then show ?thesis by (simp add: sz_double.simps [of need sz])
  next
    case False
    with "1.prems" obtain s where "sz_double need (sz * 2) = Some s" "need \<le> s" "sz * 2 \<le> s"
      using "1.IH" by auto
    with False "1.prems" show ?thesis by (auto simp: sz_double.simps [of need sz])
  qed
qed

lemma sb_sz_update [simp]: "sb_sz (sb\<lparr>sb_n := k\<rparr>) = sb_sz sb"
  by (simp add: sb_sz_def)

lemma resizebuf_simps [simp]:
  "sb_sz (lj_str_resizebuf sb nsz) = nsz"
  "sb_n (lj_str_resizebuf sb nsz) = sb_n sb"
  by (auto simp: lj_str_resizebuf_def sb_sz_def)

lemma resizebuf_data [simp]:
  "sb_n sb \<le> nsz \<Longrightarrow> sb_n sb \<le> sb_sz sb \<Longrightarrow> sb_data (lj_str_resizebuf sb nsz) = sb_data sb"
  by (simp add: sb_data_def lj_str_resizebuf_def sb_sz_def)

lemma sb_copy_append:
  assumes "i + length bs \<le> sb_sz sb"
  shows "sb_copy sb i bs =
    Inr (sb\<lparr>sb_buf := take i (sb_buf sb) @ bs @ drop (i + length bs) (sb_buf sb)\<rparr>)"
  using assms
proof (induction bs arbitrary: i sb)
  case Nil
  then show ?case by simp
next
  case (Cons b bs)
  then have i: "i < length (sb_buf sb)" by (simp add: sb_sz_def)
  with Cons.prems have "sb_copy sb i (b # bs) = sb_copy (sb\<lparr>sb_buf := (sb_buf sb)[i := b]\<rparr>) (Suc i) bs"
    by (simp add: sb_store_def sb_sz_def)
  also have "\<dots> = Inr (sb\<lparr>sb_buf := take (Suc i) ((sb_buf sb)[i := b]) @ bs
        @ drop (Suc i + length bs) ((sb_buf sb)[i := b])\<rparr>)"
    using Cons.prems by (subst Cons.IH) (simp_all add: sb_sz_def)
  also have "take (Suc i) ((sb_buf sb)[i := b]) = take i (sb_buf sb) @ [b]"
    using i by (simp add: take_Suc_conv_app_nth)
  finally show ?case by simp
qed

lemma sb_copy_appends:
  assumes "sb_n sb + length bs \<le> sb_sz sb"
  obtains sb' where
    "sb_copy (sb\<lparr>sb_n := sb_n sb + length bs\<rparr>) (sb_n sb) bs = Inr sb'"
    "sb_n sb' = sb_n sb + length bs" "sb_sz sb' = sb_sz sb"
    "sb_data sb' = sb_data sb @ bs"
proof
  let ?sb = "sb\<lparr>sb_n := sb_n sb + length bs,
      sb_buf := take (sb_n sb) (sb_buf sb) @ bs @ drop (sb_n sb + length bs) (sb_buf sb)\<rparr>"
  show "sb_copy (sb\<lparr>sb_n := sb_n sb + length bs\<rparr>) (sb_n sb) bs = Inr ?sb"
    using assms by (subst sb_copy_append) auto
  show "sb_n ?sb = sb_n sb + length bs" by simp
  show "sb_sz ?sb = sb_sz sb" using assms by (simp add: sb_sz_def)
  show "sb_data ?sb = sb_data sb @ bs" using assms by (simp add: sb_sz_def sb_data_def)
qed

lemma sb_grow_ok:
  assumes "sbuf_ok sb"
  obtains sb' where "sb_grow sb len = Inr sb'" "sb_n sb' = sb_n sb" "sb_data sb' = sb_data sb"
    "sb_n sb' + len \<le> sb_sz sb'" "sbuf_ok sb'"
proof -
  from assms obtain s where s: "sz_double (sb_n sb + len) (sb_sz sb * 2) = Some s"
      "sb_n sb + len \<le> s" "sb_sz sb * 2 \<le> s"
    using sz_double_Some [of "sb_sz sb * 2" "sb_n sb + len"] by (auto simp: sbuf_ok_def)
  show ?thesis
  proof (rule that)
    show "sb_grow sb len = Inr (lj_str_resizebuf sb s)" by (simp add: sb_grow_def s)
  qed (use s assms in \<open>auto simp: sbuf_ok_def\<close>)
qed

lemma addstr_ok:
  assumes "sbuf_ok sb"
  shows "\<exists>sb'. addstr sb str = Inr sb' \<and> sbuf_ok sb' \<and> sb_data sb' = sb_data sb @ str"
proof (cases "sb_n sb + length str > sb_sz sb")
  case True
  obtain sb1 where sb1: "sb_grow sb (length str) = Inr sb1" "sb_n sb1 = sb_n sb"
      "sb_data sb1 = sb_data sb" "sb_n sb1 + length str \<le> sb_sz sb1" "sbuf_ok sb1"
    using sb_grow_ok [OF assms] by metis
  obtain sb' where "sb_copy (sb1\<lparr>sb_n := sb_n sb1 + length str\<rparr>) (sb_n sb1) str = Inr sb'"
      "sb_n sb' = sb_n sb1 + length str" "sb_sz sb' = sb_sz sb1" "sb_data sb' = sb_data sb1 @ str"
    using sb_copy_appends [OF sb1(4)] by metis
  with True sb1 show ?thesis by (auto simp: addstr_def sbuf_ok_def)
next
  case False
  then have "sb_n sb + length str \<le> sb_sz sb" by simp
  then obtain sb' where "sb_copy (sb\<lparr>sb_n := sb_n sb + length str\<rparr>) (sb_n sb) str = Inr sb'"
      "sb_n sb' = sb_n sb + length str" "sb_sz sb' = sb_sz sb" "sb_data sb' = sb_data sb @ str"
    using sb_copy_appends by metis
  with False assms show ?thesis by (auto simp: addstr_def sbuf_ok_def)
qed

lemma addchar_ok:
  assumes "sbuf_ok sb"
  shows "\<exists>sb'. addchar sb c = Inr sb' \<and> sbuf_ok sb' \<and> sb_data sb' = sb_data sb @ [c]"
proof -
  define sb1 where
    "sb1 = (if sb_n sb + 1 > sb_sz sb then lj_str_resizebuf sb (sb_sz sb * 2) else sb)"
  have sb1: "sb_n sb1 < sb_sz sb1" "sb_n sb1 = sb_n sb" "sb_data sb1 = sb_data sb"
    using assms by (auto simp: sb1_def sbuf_ok_def)
  let ?r = "sb1\<lparr>sb_buf := (sb_buf sb1)[sb_n sb1 := c], sb_n := sb_n sb1 + 1\<rparr>"
  have "addchar sb c = Inr ?r"
    unfolding addchar_def Let_def sb1_def [symmetric] using sb1 by (simp add: sb_store_def)
  moreover have "sb_sz ?r = sb_sz sb1" by (simp add: sb_sz_def)
  then have "sbuf_ok ?r" using sb1 by (simp add: sbuf_ok_def)
  moreover have "sb_data ?r = sb_data sb @ [c]"
    using sb1 by (simp add: sb_data_def sb_sz_def take_Suc_conv_app_nth)
  ultimately show ?thesis by blast
qed

subsection \<open>The interface of the clients\<close>

locale byte_sink =
  fixes ok :: "'s \<Rightarrow> bool"
    and out :: "'s \<Rightarrow> byte list"
    and put :: "'s \<Rightarrow> byte list \<Rightarrow> 's res"
  assumes put_ok: "ok s \<Longrightarrow> \<exists>s'. put s bs = Inr s' \<and> ok s' \<and> out s' = out s @ bs"
begin

text \<open>A step of a client: it succeeds and appends the bytes \<open>bs\<close>.\<close>

definition appends :: "('s \<Rightarrow> 's res) \<Rightarrow> byte list \<Rightarrow> bool" where
  "appends f bs \<longleftrightarrow> (\<forall>s. ok s \<longrightarrow> (\<exists>s'. f s = Inr s' \<and> ok s' \<and> out s' = out s @ bs))"

lemma appends_put [intro!]: "appends (\<lambda>s. put s bs) bs"
  by (simp add: appends_def put_ok)

lemma appends_nop [intro!]: "appends Inr []"
  by (simp add: appends_def)

lemma appends_seq [intro]:
  "appends f xs \<Longrightarrow> appends g ys \<Longrightarrow> appends (\<lambda>s. rbind (f s) g) (xs @ ys)"
  unfolding appends_def by (metis append.assoc rbind_simps(2))

lemma appends_run:
  "appends f bs \<Longrightarrow> ok s \<Longrightarrow> \<exists>s'. f s = Inr s' \<and> ok s' \<and> out s' = out s @ bs"
  by (simp add: appends_def)

end

interpretation sbs: byte_sink sbuf_ok sb_data addstr
  by unfold_locales (rule addstr_ok)

lemma addchar_appends [intro!]: "sbs.appends (\<lambda>sb. addchar sb c) [c]"
  by (simp add: sbs.appends_def addchar_ok)

end
