(* ===== verification/LJ_Str.thy ===== *)
theory LJ_Str
  imports LJ_SBuf "HOL-Library.Multiset"
begin

text \<open>
  Strings (\<^verbatim>\<open>lj_str.c\<close>): word-wise comparison, hashing and interning, and number formatting.
  A string in memory is its data followed by other readable bytes; a 32-bit load
  outside that memory is the error \<open>OOB\<close>.  The string table is the array of hash chains
  of \<^verbatim>\<open>global_State\<close>, each chain a list of objects in \<open>nextgc\<close> order; an object carries the
  address the allocator gave it (\<open>so_id\<close>), which is what pointer comparison compares.
\<close>

definition rd32 :: "byte list \<Rightarrow> nat \<Rightarrow> u32 res" where
  "rd32 mem i = (if i + 4 \<le> length mem
     then Inr (le32 (mem ! i) (mem ! (i+1)) (mem ! (i+2)) (mem ! (i+3))) else Inl OOB)"

subsection \<open>Ordered comparison\<close>

function str_cmp_loop :: "byte list \<Rightarrow> byte list \<Rightarrow> int \<Rightarrow> nat \<Rightarrow> nat \<Rightarrow> int res" where
  "str_cmp_loop ma mb lendiff n i =
     (if i < n then
        rbind (rd32 ma i) (\<lambda>va. rbind (rd32 mb i) (\<lambda>vb.
          if va \<noteq> vb then
            (let va = lj_bswap va; vb = lj_bswap vb; d = int i - int n in
             if d \<ge> -3 then
               (let va = drop_bit (nat (32 + 8 * d)) va; vb = drop_bit (nat (32 + 8 * d)) vb in
                if va = vb then Inr lendiff else Inr (if va < vb then -1 else 1))
             else Inr (if va < vb then -1 else 1))
          else str_cmp_loop ma mb lendiff n (i + 4)))
      else Inr lendiff)"
  by pat_completeness auto
termination
  by (relation "measure (\<lambda>(ma, mb, l, n, i). n - i)") auto

declare str_cmp_loop.simps [simp del]

text \<open>\<open>la\<close> and \<open>lb\<close> are the lengths, \<open>ma\<close> and \<open>mb\<close> the memory at \<open>strdata\<close>.\<close>

definition lj_str_cmp :: "nat \<Rightarrow> byte list \<Rightarrow> nat \<Rightarrow> byte list \<Rightarrow> int res" where
  "lj_str_cmp la ma lb mb =
     str_cmp_loop ma mb (sint (of_nat la - of_nat lb :: u32)) (if la > lb then lb else la) 0"

subsection \<open>Equality of string data\<close>

function str_fastcmp :: "byte list \<Rightarrow> byte list \<Rightarrow> nat \<Rightarrow> nat \<Rightarrow> u32 res" where
  "str_fastcmp a b len i =
     rbind (rd32 a i) (\<lambda>x. rbind (rd32 b i) (\<lambda>y.
       let v = x XOR y in
       if v \<noteq> 0 then
         (let d = int i - int len in
          Inr (if d \<ge> -3 then push_bit (nat (32 + 8 * d)) v else 1))
       else if i + 4 < len then str_fastcmp a b len (i + 4) else Inr 0))"
  by pat_completeness auto
termination
  by (relation "measure (\<lambda>(a, b, len, i). len - i)") auto

declare str_fastcmp.simps [simp del]

subsection \<open>Hash value\<close>

definition getu32 :: "byte list \<Rightarrow> nat \<Rightarrow> u32" where
  "getu32 xs i = le32 (xs ! i) (xs ! (i+1)) (xs ! (i+2)) (xs ! (i+3))"

definition str_hash_mix :: "u32 \<Rightarrow> u32 \<Rightarrow> u32 \<Rightarrow> u32" where
  "str_hash_mix a b h =
     (let a = a XOR h; a = a - lj_rol h 11;
          b = b XOR a; b = b - lj_rol a 25;
          h = h XOR b in h - lj_rol b 16)"

definition str_hash :: "byte list \<Rightarrow> u32" where
  "str_hash xs =
     (let len = length xs; h = of_nat len in
      if len \<ge> 4 then
        (let a = getu32 xs 0;
             h = h XOR getu32 xs (len - 4);
             b = getu32 xs (len div 2 - 2);
             h = h XOR b; h = h - lj_rol b 14;
             b = b + getu32 xs (len div 4 - 1)
         in str_hash_mix a b h)
      else if len > 0 then
        (let a = ucast (xs ! 0);
             h = h XOR ucast (xs ! (len - 1));
             b = ucast (xs ! (len div 2));
             h = h XOR b; h = h - lj_rol b 14
         in str_hash_mix a b h)
      else 0)"

subsection \<open>The string table\<close>

record strobj =
  so_id :: nat
  so_marked :: byte
  so_reserved :: byte
  so_hash :: u32
  so_data :: "byte list"
  so_pad :: "byte list"

datatype gcphase =
  GCSpause | GCSpropagate | GCSatomic | GCSsweepstring | GCSsweep | GCSfinalize

record strtab =
  strhash :: "strobj list list"
  strmask :: u32
  strnum :: nat
  strempty :: strobj
  st_gcstate :: gcphase
  st_currentwhite :: byte

definition LJ_GC_WHITES :: byte where "LJ_GC_WHITES = 3"
definition LJ_MAX_STR :: nat where "LJ_MAX_STR = 0x7fffff00"
definition LJ_MAX_STRTAB :: nat where "LJ_MAX_STRTAB = 2 ^ 26"

definition so_isdead :: "strtab \<Rightarrow> strobj \<Rightarrow> bool" where
  "so_isdead g o' \<longleftrightarrow>
     so_marked o' AND (st_currentwhite g XOR LJ_GC_WHITES) AND LJ_GC_WHITES \<noteq> 0"

definition so_flipwhite :: "strobj \<Rightarrow> strobj" where
  "so_flipwhite o' = o'\<lparr>so_marked := so_marked o' XOR LJ_GC_WHITES\<rparr>"

text \<open>The memory at \<open>strdata\<close> of an object: data, the zero byte and what follows it.\<close>

definition so_mem :: "strobj \<Rightarrow> byte list" where
  "so_mem o' = so_data o' @ [0] @ so_pad o'"

fun resize_chain :: "u32 \<Rightarrow> strobj list list \<Rightarrow> strobj list \<Rightarrow> strobj list list" where
  "resize_chain newmask newhash [] = newhash"
| "resize_chain newmask newhash (p # ps) =
     (let h = unat (so_hash p AND newmask)
      in resize_chain newmask (newhash[h := p # newhash ! h]) ps)"

definition lj_str_resize :: "strtab \<Rightarrow> u32 \<Rightarrow> strtab" where
  "lj_str_resize g newmask =
     (if st_gcstate g = GCSsweepstring \<or> unat newmask \<ge> LJ_MAX_STRTAB - 1 then g
      else g\<lparr>strhash := foldl (resize_chain newmask) (replicate (Suc (unat newmask)) [])
                       (rev (strhash g)),
             strmask := newmask\<rparr>)"

text \<open>The search of a chain: the index of the first object that \<open>same\<close> accepts.\<close>

fun str_lookup :: "(strobj \<Rightarrow> bool res) \<Rightarrow> strobj list \<Rightarrow> nat option res" where
  "str_lookup same [] = Inr None"
| "str_lookup same (o' # os) =
     rbind (same o') (\<lambda>eq. if eq then Inr (Some 0)
       else rbind (str_lookup same os) (\<lambda>r. Inr (map_option Suc r)))"

text \<open>
  The fast comparison reads up to three bytes past the end of the argument; it is only
  used when the last byte is not within three bytes of the end of its page.
\<close>

definition str_fast_allowed :: "u64 \<Rightarrow> nat \<Rightarrow> bool" where
  "str_fast_allowed p len \<longleftrightarrow> (unat p + len - 1) mod 4096 \<le> 4096 - 4"

definition str_same :: "u64 \<Rightarrow> byte list \<Rightarrow> nat \<Rightarrow> strobj \<Rightarrow> bool res" where
  "str_same p str len sx =
     (if length (so_data sx) = len then
        (if str_fast_allowed p len
         then rbind (str_fastcmp str (so_mem sx) len 0) (\<lambda>v. Inr (v = 0))
         else Inr (take len str = so_data sx))
      else Inr False)"

text \<open>
  \<open>p\<close> is the address of the argument, \<open>str\<close> the readable memory there; \<open>fresh\<close> is the
  address of the memory the allocator returns and \<open>pad\<close> what follows the new string in it.
\<close>

definition lj_str_new ::
  "strtab \<Rightarrow> u64 \<Rightarrow> byte list \<Rightarrow> nat \<Rightarrow> nat \<Rightarrow> byte list \<Rightarrow> (strtab \<times> strobj) res" where
  "lj_str_new g p str lenx fresh pad =
     (if lenx \<ge> LJ_MAX_STR then Inl ERR_STROV
      else if lenx = 0 then Inr (g, strempty g)
      else
        (let h = str_hash (take lenx str); b = unat (h AND strmask g); chain = strhash g ! b in
         rbind (str_lookup (str_same p str lenx) chain) (\<lambda>r. case r of
           Some k \<Rightarrow>
             (let sx = chain ! k; sx' = (if so_isdead g sx then so_flipwhite sx else sx)
              in Inr (g\<lparr>strhash := (strhash g)[b := chain[k := sx']]\<rparr>, sx'))
         | None \<Rightarrow>
             (let s = \<lparr>so_id = fresh, so_marked = st_currentwhite g AND LJ_GC_WHITES,
                       so_reserved = 0, so_hash = h, so_data = take lenx str, so_pad = pad\<rparr>;
                  g' = g\<lparr>strhash := (strhash g)[b := s # chain], strnum := Suc (strnum g)\<rparr>
              in Inr (if strnum g > unat (strmask g)
                      then lj_str_resize g' (push_bit 1 (strmask g) + 1) else g', s)))))"

definition lj_str_free :: "strtab \<Rightarrow> strtab" where
  "lj_str_free g = g\<lparr>strnum := strnum g - 1\<rparr>"

subsection \<open>Formatting of integers\<close>

fun bufint_loop :: "nat \<Rightarrow> byte list \<Rightarrow> byte list" where
  "bufint_loop u acc =
     (let acc = (48 + of_nat (u mod 10)) # acc
      in if u div 10 = 0 then acc else bufint_loop (u div 10) acc)"

declare bufint_loop.simps [simp del]

text \<open>The characters written, from the returned pointer to the end of the buffer.\<close>

definition lj_str_bufint :: "32 word \<Rightarrow> byte list" where
  "lj_str_bufint k =
     (let u = (if k <s 0 then - k else k); s = bufint_loop (unat u) []
      in if k <s 0 then 45 # s else s)"

text \<open>
  \<open>num2str\<close> stands for \<^verbatim>\<open>lua_number2str\<close>, the C library's \<^verbatim>\<open>sprintf("%.14g")\<close>.
\<close>

definition lj_str_bufnum :: "(u64 \<Rightarrow> byte list) \<Rightarrow> u64 \<Rightarrow> byte list" where
  "lj_str_bufnum num2str n =
     (let hi = ucast (drop_bit 32 n) :: u32; lo = ucast n :: u32 in
      if push_bit 1 hi < 0xffe00000 then num2str n
      else if (hi AND 0x000fffff) OR lo \<noteq> 0 then [0x6e, 0x61, 0x6e]
      else if hi AND 0x80000000 = 0 then [0x69, 0x6e, 0x66]
      else [0x2d, 0x69, 0x6e, 0x66])"

subsection \<open>Comparison is lexicographic\<close>

fun lexcmp :: "byte list \<Rightarrow> byte list \<Rightarrow> int" where
  "lexcmp [] [] = 0"
| "lexcmp [] (b # bs) = -1"
| "lexcmp (a # as) [] = 1"
| "lexcmp (a # as) (b # bs) = (if a < b then -1 else if b < a then 1 else lexcmp as bs)"

lemma lexcmp_same_prefix [simp]: "lexcmp (p @ a) (p @ b) = lexcmp a b"
  by (induction p) auto

lemma lexcmp_prefix:
  "length p = length q \<Longrightarrow> p = q \<Longrightarrow> lexcmp (p @ a) (q @ b) = lexcmp a b"
  by simp

lemma lexcmp_lengths: "xs = [] \<or> ys = [] \<Longrightarrow> lexcmp xs ys = sgn (int (length xs) - int (length ys))"
  by (cases xs; cases ys) auto

lemma drop_nth_append: "i < length xs \<Longrightarrow> drop i xs = xs ! i # drop (Suc i) xs"
  by (simp add: Cons_nth_drop_Suc)

lemma horner_less:
  "a < (256::nat) \<Longrightarrow> b < 256 \<Longrightarrow> a + 256 * r < b + 256 * s \<longleftrightarrow> r < s \<or> r = s \<and> a < b"
  by auto

lemma horner_eq:
  "a < (256::nat) \<Longrightarrow> b < 256 \<Longrightarrow> a + 256 * r = b + 256 * s \<longleftrightarrow> r = s \<and> a = b"
  by (metis split256)

lemma le32_less:
  "le32 a3 a2 a1 a0 < le32 b3 b2 b1 b0 \<longleftrightarrow>
     a0 < b0 \<or> a0 = b0 \<and> (a1 < b1 \<or> a1 = b1 \<and> (a2 < b2 \<or> a2 = b2 \<and> a3 < b3))"
  by (simp only: word_less_nat_alt unat_le32 horner_less horner_eq unat_byte_lt
      word_unat_eq_iff)
     auto

lemma drop_bit_le32:
  "drop_bit 8 (le32 a3 a2 a1 a0) = le32 a2 a1 a0 0"
  "drop_bit 16 (le32 a3 a2 a1 a0) = le32 a1 a0 0 0"
  "drop_bit 24 (le32 a3 a2 a1 a0) = le32 a0 0 0 0"
proof -
  have d: "n div 2 ^ 8 = n div 256" "n div 2 ^ 16 = n div 256 div 256"
    "n div 2 ^ 24 = n div 256 div 256 div 256" for n :: nat
    by (simp_all flip: div_mult2_eq)
  have z: "unat (0 :: byte) = 0" by simp
  show "drop_bit 8 (le32 a3 a2 a1 a0) = le32 a2 a1 a0 0"
    "drop_bit 16 (le32 a3 a2 a1 a0) = le32 a1 a0 0 0"
    "drop_bit 24 (le32 a3 a2 a1 a0) = le32 a0 0 0 0"
    unfolding word_unat_eq_iff unat_drop_bit_eq drop_bit_eq_div [where ?'a = nat] unat_le32 d z
    by (simp_all only: split256 unat_byte_lt)  simp_all
qed

text \<open>The bytes at position \<open>i\<close> and the outcome of one 4-byte comparison.\<close>

lemma lexcmp_word:
  "lexcmp (a0 # a1 # a2 # a3 # as) (b0 # b1 # b2 # b3 # bs) =
     (if le32 a3 a2 a1 a0 = le32 b3 b2 b1 b0 then lexcmp as bs
      else if le32 a3 a2 a1 a0 < le32 b3 b2 b1 b0 then -1 else 1)"
  by (auto simp: le32_less)

text \<open>The memory behind a string: the data, then at least three readable bytes.\<close>

lemma drop_mem:
  assumes "i + k \<le> length a"
  shows "drop i a = map (\<lambda>j. (a @ p) ! (i + j)) [0..<k] @ drop (i + k) a"
  using assms
proof (induction k)
  case 0
  then show ?case by simp
next
  case (Suc k)
  then have "drop (i + k) a = a ! (i + k) # drop (i + Suc k) a"
    by (simp add: drop_nth_append)
  with Suc show ?case by (simp add: nth_append)
qed

lemma rd32_mem:
  "i < length a \<Longrightarrow> 3 \<le> length p \<Longrightarrow> rd32 (a @ p) i = Inr (le32 ((a @ p) ! i) ((a @ p) ! (i+1))
     ((a @ p) ! (i+2)) ((a @ p) ! (i+3)))"
  by (simp add: rd32_def)

lemma lexcmp_drop: "take i a = take i b \<Longrightarrow> lexcmp a b = lexcmp (drop i a) (drop i b)"
  by (metis append_take_drop_id lexcmp_same_prefix)

lemma take_upto_eq:
  "take i a = take i b \<Longrightarrow> drop i a = xs @ a' \<Longrightarrow> drop i b = xs @ b' \<Longrightarrow> length xs = k \<Longrightarrow>
     take (i + k) a = take (i + k) b"
  by (simp add: take_add)

lemma lexcmp_at_end:
  assumes "take (min (length a) (length b)) a = take (min (length a) (length b)) b"
  shows "lexcmp a b = sgn (int (length a) - int (length b))"
proof -
  let ?n = "min (length a) (length b)"
  have "lexcmp a b = lexcmp (drop ?n a) (drop ?n b)" by (rule lexcmp_drop [OF assms])
  also have "\<dots> = sgn (int (length (drop ?n a)) - int (length (drop ?n b)))"
    by (rule lexcmp_lengths) (simp add: min_def)
  finally show ?thesis by (simp add: min_def split: if_splits)
qed

text \<open>One word: either the strings agree up to the next position or the order is decided.\<close>

lemma str_cmp_word_full:
  fixes p q :: "byte list"
  defines "w \<equiv> \<lambda>m i. le32 (m ! i) (m ! (i+1)) (m ! (i+2)) (m ! (i+3))"
  assumes "i + 4 \<le> length a" "i + 4 \<le> length b" "take i a = take i b"
  shows "w (a @ p) i = w (b @ q) i \<Longrightarrow> take (i + 4) a = take (i + 4) b"
    and "w (a @ p) i \<noteq> w (b @ q) i \<Longrightarrow> lexcmp a b =
      (if lj_bswap (w (a @ p) i) < lj_bswap (w (b @ q) i) then -1 else 1)"
proof -
  have u: "[0..<4] = [0, 1, 2, 3]" by (simp add: upt_rec)
  have da: "drop i a = map (\<lambda>j. (a @ p) ! (i + j)) [0..<4] @ drop (i + 4) a"
    using assms by (intro drop_mem) simp
  have db: "drop i b = map (\<lambda>j. (b @ q) ! (i + j)) [0..<4] @ drop (i + 4) b"
    using assms by (intro drop_mem) simp
  show "take (i + 4) a = take (i + 4) b" if "w (a @ p) i = w (b @ q) i"
    using that by (intro take_upto_eq [OF assms(4) da]) (subst db, simp_all add: w_def u)
  show "lexcmp a b = (if lj_bswap (w (a @ p) i) < lj_bswap (w (b @ q) i) then -1 else 1)"
    if "w (a @ p) i \<noteq> w (b @ q) i"
    using that by (subst lexcmp_drop [OF assms(4)], subst da, subst db)
      (auto simp: u w_def lexcmp_word simp del: lexcmp.simps)
qed

lemma str_cmp_word_part:
  fixes p q :: "byte list"
  defines "w \<equiv> \<lambda>m i. le32 (m ! i) (m ! (i+1)) (m ! (i+2)) (m ! (i+3))"
  defines "t \<equiv> \<lambda>k m i. drop_bit (8 * (4 - k)) (lj_bswap (w m i))"
  assumes "i + k \<le> length a" "i + k \<le> length b" "take i a = take i b" "k \<in> {1, 2, 3}"
  shows "t k (a @ p) i = t k (b @ q) i \<longleftrightarrow> take (i + k) a = take (i + k) b"
    and "t k (a @ p) i \<noteq> t k (b @ q) i \<Longrightarrow>
      lexcmp a b = (if t k (a @ p) i < t k (b @ q) i then -1 else 1)"
proof -
  have u: "[0..<1] = [0]" "[0..<2] = [0, 1]" "[0..<3] = [0, 1, 2::nat]"
    by (simp_all add: upt_rec)
  have da: "drop i a = map (\<lambda>j. (a @ p) ! (i + j)) [0..<k] @ drop (i + k) a"
    using assms by (intro drop_mem) simp
  have db: "drop i b = map (\<lambda>j. (b @ q) ! (i + j)) [0..<k] @ drop (i + k) b"
    using assms by (intro drop_mem) simp
  have "take (i + k) a = take (i + k) b \<longleftrightarrow>
      map (\<lambda>j. (a @ p) ! (i + j)) [0..<k] = map (\<lambda>j. (b @ q) ! (i + j)) [0..<k]"
    by (simp add: take_add assms(5)) (subst da, subst db, simp)
  then show "t k (a @ p) i = t k (b @ q) i \<longleftrightarrow> take (i + k) a = take (i + k) b"
    using assms(6) by (elim insertE emptyE)
      (auto simp: u t_def w_def drop_bit_le32 simp del: map_eq_conv)
  show "lexcmp a b = (if t k (a @ p) i < t k (b @ q) i then -1 else 1)"
    if "t k (a @ p) i \<noteq> t k (b @ q) i"
    using that assms(6)
    by (subst lexcmp_drop [OF assms(5)], subst da, subst db)
      (elim insertE emptyE; auto simp: u t_def w_def drop_bit_le32 le32_less)
qed


lemma str_cmp_loop_spec:
  assumes "3 \<le> length p" "3 \<le> length q" "n = min (length a) (length b)"
    and "sgn l = sgn (int (length a) - int (length b))"
    and "take (min i n) a = take (min i n) b"
  shows "\<exists>r. str_cmp_loop (a @ p) (b @ q) l n i = Inr r \<and> sgn r = lexcmp a b"
  using assms(5)
proof (induction "n - i" arbitrary: i rule: less_induct)
  case less
  let ?w = "\<lambda>m. le32 (m ! i) (m ! (i+1)) (m ! (i+2)) (m ! (i+3))"
  show ?case
  proof (cases "i < n")
    case False
    with less.prems have "take n a = take n b" by (simp add: min_def split: if_splits)
    then have "lexcmp a b = sgn l" unfolding assms(3,4) by (rule lexcmp_at_end)
    with False show ?thesis by (simp add: str_cmp_loop.simps)
  next
    case True
    then have i: "i < length a" "i < length b" "take i a = take i b"
      using less.prems assms(3) by auto
    have rd: "rd32 (a @ p) i = Inr (?w (a @ p))" "rd32 (b @ q) i = Inr (?w (b @ q))"
      using i assms by (simp_all add: rd32_mem)
    have next_i: "str_cmp_loop (a @ p) (b @ q) l n i = str_cmp_loop (a @ p) (b @ q) l n (i + 4)"
      if "?w (a @ p) = ?w (b @ q)"
      using True that by (subst str_cmp_loop.simps) (simp add: rd)
    show ?thesis
    proof (cases "i + 4 \<le> n")
      case full: True
      then have le: "i + 4 \<le> length a" "i + 4 \<le> length b" using assms(3) by auto
      show ?thesis
      proof (cases "?w (a @ p) = ?w (b @ q)")
        case eq: True
        have "take (min (i + 4) n) a = take (min (i + 4) n) b"
          using str_cmp_word_full(1) [OF le i(3) eq] full by (simp add: min_def)
        with True have "\<exists>r. str_cmp_loop (a @ p) (b @ q) l n (i + 4) = Inr r \<and> sgn r = lexcmp a b"
          by (intro less.hyps) auto
        then show ?thesis by (simp only: next_i [OF eq])
      next
        case ne: False
        have "str_cmp_loop (a @ p) (b @ q) l n i =
            Inr (if lj_bswap (?w (a @ p)) < lj_bswap (?w (b @ q)) then -1 else 1)"
          using True full ne by (subst str_cmp_loop.simps) (simp add: rd Let_def)
        then show ?thesis using str_cmp_word_full(2) [OF le i(3) ne] by simp
      qed
    next
      case part: False
      define k where "k = n - i"
      let ?t = "\<lambda>m. drop_bit (8 * (4 - k)) (lj_bswap (?w m))"
      have k: "k \<in> {1, 2, 3}" "i + k \<le> length a" "i + k \<le> length b" "i + k = n"
        using True part assms(3) by (auto simp: k_def)
      have sh: "int i - int n \<ge> -3" "nat (32 + (8 * int i - 8 * int n)) = 8 * (4 - k)"
        using k by auto
      have fin: "lexcmp a b = sgn l" if "?t (a @ p) = ?t (b @ q)"
        using str_cmp_word_part(1) [OF k(2,3) i(3) k(1)] that k(4) assms(3,4)
        by (auto intro: lexcmp_at_end)
      show ?thesis
      proof (cases "?w (a @ p) = ?w (b @ q)")
        case eq: True
        have "str_cmp_loop (a @ p) (b @ q) l n (i + 4) = Inr l"
          using part by (subst str_cmp_loop.simps) simp
        then show ?thesis using fin eq by (simp only: next_i [OF eq]) simp
      next
        case ne: False
        have "str_cmp_loop (a @ p) (b @ q) l n i =
            Inr (if ?t (a @ p) = ?t (b @ q) then l
                 else if ?t (a @ p) < ?t (b @ q) then -1 else 1)"
          using True ne sh(1) by (subst str_cmp_loop.simps) (simp add: rd Let_def sh(2))
        then show ?thesis
          using fin str_cmp_word_part(2) [OF k(2,3) i(3) k(1)] by auto
      qed
    qed
  qed
qed

text \<open>Lengths below \<open>2^31\<close> make the 32-bit difference of the lengths exact.\<close>

lemma sint_len_diff:
  assumes "la < 2 ^ 31" "lb < 2 ^ 31"
  shows "sint (of_nat la - of_nat lb :: u32) = int la - int lb"
proof -
  have "of_nat la - of_nat lb = (word_of_int (int la - int lb) :: u32)" by simp
  then show ?thesis
    using assms by (simp only: sint_sbintrunc') (simp add: signed_take_bit_int_eq_self)
qed

subsection \<open>The fast comparison decides equality of the first \<open>len\<close> bytes\<close>

lemma xor_word_zero_iff [simp]: "x XOR y = 0 \<longleftrightarrow> x = (y :: 'a::len word)"
  by (metis xor.right_neutral xor.assoc xor_self_eq)

lemma split256_mod: "a < (256::nat) \<Longrightarrow> (a + 256 * r) mod (256 * m) = a + 256 * (r mod m)"
  by (simp add: mod_mult2_eq split256)

lemma push_bit_le32:
  "push_bit 8 (le32 a b c d) = le32 0 a b c"
  "push_bit 16 (le32 a b c d) = le32 0 0 a b"
  "push_bit 24 (le32 a b c d) = le32 0 0 0 a"
proof -
  have p: "unat (push_bit k x) = (2 ^ k * unat x) mod (256 * (256 * (256 * (256 * 1))))"
    for k and x :: u32
    by (simp add: unsigned_push_bit_eq push_bit_eq_mult [where ?'a = nat]
        take_bit_eq_mod [where ?'a = nat] mult.commute)
  have e: "2 ^ 8 * x = 0 + 256 * x" "2 ^ 16 * x = 0 + 256 * (0 + 256 * x)"
    "2 ^ 24 * x = 0 + 256 * (0 + 256 * (0 + 256 * x))" for x :: nat by simp_all
  have z: "unat (0 :: byte) = 0" "0 < (256::nat)" by simp_all
  show "push_bit 8 (le32 a b c d) = le32 0 a b c"
    "push_bit 16 (le32 a b c d) = le32 0 0 a b"
    "push_bit 24 (le32 a b c d) = le32 0 0 0 a"
    unfolding word_unat_eq_iff p unat_le32 e z(1)
    by (simp_all only: split256_mod unat_byte_lt z mod_by_1 add_0_right mult_0_right)
qed

lemma le32_zero [simp]: "le32 0 0 0 0 = 0"
  by (simp add: le32_def)

lemma push_bit_xor_word:
  "push_bit k (x XOR y) = push_bit k x XOR push_bit k (y :: 'a::len word)"
  by (simp add: push_bit_xor)

lemma str_fastcmp_part:
  fixes p q :: "byte list"
  defines "w \<equiv> \<lambda>m i. le32 (m ! i) (m ! (i+1)) (m ! (i+2)) (m ! (i+3))"
  assumes "i + k = length a" "length b = length a" "take i a = take i b" "k \<in> {1, 2, 3}"
  shows "push_bit (8 * (4 - k)) (w (a @ p) i XOR w (b @ q) i) = 0 \<longleftrightarrow> a = b"
proof -
  have u: "[0..<1] = [0]" "[0..<2] = [0, 1]" "[0..<3] = [0, 1, 2::nat]"
    by (simp_all add: upt_rec)
  have da: "drop i a = map (\<lambda>j. (a @ p) ! (i + j)) [0..<k] @ drop (i + k) a"
    using assms by (intro drop_mem) simp
  have db: "drop i b = map (\<lambda>j. (b @ q) ! (i + j)) [0..<k] @ drop (i + k) b"
    using assms by (intro drop_mem) simp
  have "a = b \<longleftrightarrow> drop i a = drop i b"
    using assms(4) by (metis append_take_drop_id)
  also have "\<dots> \<longleftrightarrow> map (\<lambda>j. (a @ p) ! (i + j)) [0..<k] = map (\<lambda>j. (b @ q) ! (i + j)) [0..<k]"
    using assms(2,3) by (subst da, subst db) simp
  finally show ?thesis
    unfolding push_bit_xor_word xor_word_zero_iff using assms(5)
    by (elim insertE emptyE) (auto simp: u w_def push_bit_le32 simp del: map_eq_conv)
qed

lemma str_fastcmp_loop_spec:
  assumes "3 \<le> length p" "3 \<le> length q" "length b = length a" "i < length a"
    and "take i a = take i b"
  shows "\<exists>v. str_fastcmp (a @ p) (b @ q) (length a) i = Inr v \<and> (v = 0 \<longleftrightarrow> a = b)"
  using assms(4,5)
proof (induction "length a - i" arbitrary: i rule: less_induct)
  case less
  define w where "w = (\<lambda>m. le32 (m ! i) (m ! (i+1)) (m ! (i+2)) (m ! (i+3)))"
  define va vb where "va = w (a @ p)" and "vb = w (b @ q)"
  have rd: "rd32 (a @ p) i = Inr va" "rd32 (b @ q) i = Inr vb"
    using less.prems assms(1,2,3) by (simp_all add: rd32_mem va_def vb_def w_def)
  show ?case
  proof (cases "i + 4 \<le> length a")
    case full: True
    then have le: "i + 4 \<le> length a" "i + 4 \<le> length b" using assms(3) by auto
    show ?thesis
    proof (cases "va = vb")
      case eq: True
      have tk: "take (i + 4) a = take (i + 4) b"
        by (rule str_cmp_word_full(1) [OF le less.prems(2) eq [unfolded va_def vb_def w_def]])
      have step: "str_fastcmp (a @ p) (b @ q) (length a) i =
          (if i + 4 < length a then str_fastcmp (a @ p) (b @ q) (length a) (i + 4) else Inr 0)"
        by (subst str_fastcmp.simps) (simp add: rd eq Let_def)
      show ?thesis
      proof (cases "i + 4 < length a")
        case True
        then show ?thesis using less.hyps [OF _ True tk] by (simp add: step)
      next
        case False
        then have "a = b" using tk assms(3) by (metis linorder_not_less take_all)
        with False step show ?thesis by simp
      qed
    next
      case ne: False
      have "str_fastcmp (a @ p) (b @ q) (length a) i = Inr 1"
        using full by (subst str_fastcmp.simps) (simp add: rd ne Let_def)
      moreover have "va = vb" if "a = b"
        using full that by (simp add: va_def vb_def w_def nth_append)
      ultimately show ?thesis using ne by auto
    qed
  next
    case part: False
    define k where "k = length a - i"
    have k: "k \<in> {1, 2, 3}" "i + k = length a" using part less.prems(1) by (auto simp: k_def)
    have sh: "nat (32 + (8 * int i - 8 * int (length a))) = 8 * (4 - k)"
      "- 3 \<le> int i - int (length a)" using k by auto
    have pt: "push_bit (8 * (4 - k)) (va XOR vb) = 0 \<longleftrightarrow> a = b"
      unfolding va_def vb_def w_def
      by (rule str_fastcmp_part [OF k(2) assms(3) less.prems(2) k(1)])
    have "str_fastcmp (a @ p) (b @ q) (length a) i =
        Inr (if va = vb then 0 else push_bit (8 * (4 - k)) (va XOR vb))"
      using part sh(2) by (subst str_fastcmp.simps) (simp add: rd Let_def sh(1))
    then show ?thesis using pt by auto
  qed
qed

subsection \<open>The string table invariant\<close>

definition so_ok :: "strobj \<Rightarrow> bool" where
  "so_ok o' \<longleftrightarrow> so_hash o' = str_hash (so_data o') \<and> so_data o' \<noteq> [] \<and> 2 \<le> length (so_pad o')"

definition in_chain :: "u32 \<Rightarrow> strobj list list \<Rightarrow> bool" where
  "in_chain hm cs \<longleftrightarrow> length cs = Suc (unat hm) \<and>
     (\<forall>i < length cs. \<forall>o' \<in> set (cs ! i). unat (so_hash o' AND hm) = i)"

definition all_objs :: "strtab \<Rightarrow> strobj list" where
  "all_objs g = concat (strhash g)"

definition strtab_ok :: "strtab \<Rightarrow> bool" where
  "strtab_ok g \<longleftrightarrow> in_chain (strmask g) (strhash g) \<and> (\<forall>o' \<in> set (all_objs g). so_ok o') \<and>
     distinct (map so_data (all_objs g)) \<and>
     distinct (so_id (strempty g) # map so_id (all_objs g)) \<and>
     strnum g = length (all_objs g) \<and> so_data (strempty g) = []"

text \<open>The interned contents with the address of their object.\<close>

definition str_pool :: "strtab \<Rightarrow> (byte list \<times> nat) set" where
  "str_pool g = (\<lambda>o'. (so_data o', so_id o')) ` set (strempty g # all_objs g)"

lemma mset_concat_update:
  "h < length cs \<Longrightarrow> mset (concat (cs[h := c])) + mset (cs ! h) = mset (concat cs) + mset c"
proof (induction cs arbitrary: h)
  case (Cons x cs)
  then show ?case
  proof (cases h)
    case (Suc k)
    with Cons have "mset (concat (cs[k := c])) + mset (cs ! k) = mset (concat cs) + mset c" by simp
    with Suc show ?thesis by (simp add: add.assoc)
  qed (simp add: ac_simps)
qed simp

lemma mset_concat_Cons:
  "h < length cs \<Longrightarrow> mset (concat (cs[h := p # cs ! h])) = add_mset p (mset (concat cs))"
  using mset_concat_update [of h cs "p # cs ! h"] by simp

lemma resize_chain_inv:
  assumes "in_chain m nh"
  shows "in_chain m (resize_chain m nh ps) \<and>
    mset (concat (resize_chain m nh ps)) = mset (concat nh) + mset ps"
  using assms
proof (induction ps arbitrary: nh)
  case (Cons p ps)
  let ?h = "unat (so_hash p AND m)"
  have h: "?h < length nh" using Cons.prems by (simp add: in_chain_def)
  have "in_chain m (nh[?h := p # nh ! ?h])"
    using Cons.prems h by (auto simp: in_chain_def nth_list_update)
  then show ?case using Cons.IH h by (simp add: mset_concat_Cons Let_def)
qed simp

lemma resize_foldl_inv:
  assumes "in_chain m nh"
  shows "in_chain m (foldl (resize_chain m) nh css) \<and>
    mset (concat (foldl (resize_chain m) nh css)) = mset (concat nh) + mset (concat css)"
  using assms
proof (induction css arbitrary: nh)
  case (Cons cs css)
  then show ?case using resize_chain_inv [OF Cons.prems, of cs] by (simp add: add.assoc)
qed simp

lemma mset_concat_rev: "mset (concat (rev css)) = mset (concat css)"
  by (induction css) (simp_all add: union_commute)

text \<open>Resizing moves the objects to other chains and loses none of them.\<close>

lemma lj_str_resize_objs:
  "mset (all_objs (lj_str_resize g m)) = mset (all_objs g)"
proof -
  have "in_chain m (replicate (Suc (unat m)) [])"
    by (auto simp: in_chain_def nth_append simp del: replicate.simps)
  from resize_foldl_inv [OF this, of "rev (strhash g)"] show ?thesis
    by (simp add: lj_str_resize_def all_objs_def mset_concat_rev concat_replicate_trivial
        del: replicate.simps)
qed

lemma lj_str_resize_in_chain:
  assumes "in_chain (strmask g) (strhash g)"
  shows "in_chain (strmask (lj_str_resize g m)) (strhash (lj_str_resize g m))"
proof -
  have "in_chain m (replicate (Suc (unat m)) [])"
    by (auto simp: in_chain_def nth_append simp del: replicate.simps)
  from resize_foldl_inv [OF this, of "rev (strhash g)"] assms show ?thesis
    by (simp add: lj_str_resize_def)
qed

lemma lj_str_resize_frame [simp]:
  "strempty (lj_str_resize g m) = strempty g" "strnum (lj_str_resize g m) = strnum g"
  by (simp_all add: lj_str_resize_def)

lemma strtab_ok_objs_cong:
  assumes "strtab_ok g" "mset (all_objs g') = mset (all_objs g)"
    "in_chain (strmask g') (strhash g')" "strempty g' = strempty g" "strnum g' = strnum g"
  shows "strtab_ok g'" "str_pool g' = str_pool g"
proof -
  have s: "set (all_objs g') = set (all_objs g)" using assms(2) by (metis set_mset_mset)
  have d: "distinct (map so_data (all_objs g')) = distinct (map so_data (all_objs g))"
    "distinct (map so_id (all_objs g')) = distinct (map so_id (all_objs g))"
    by (rule mset_eq_imp_distinct_iff, metis assms(2) mset_map)+
  show "strtab_ok g'"
    using assms s d mset_eq_length [OF assms(2)] by (simp add: strtab_ok_def)
  show "str_pool g' = str_pool g" using s assms(4) by (simp add: str_pool_def)
qed

lemma lj_str_resize_ok:
  assumes "strtab_ok g"
  shows "strtab_ok (lj_str_resize g m)" "str_pool (lj_str_resize g m) = str_pool g"
  using strtab_ok_objs_cong [OF assms lj_str_resize_objs lj_str_resize_in_chain] assms
  by (simp_all add: strtab_ok_def)


subsection \<open>Interning\<close>

lemma str_lookup_spec:
  assumes "\<forall>o' \<in> set c. same o' = Inr (P o')"
  obtains "str_lookup same c = Inr None" "\<forall>o' \<in> set c. \<not> P o'"
  | k where "str_lookup same c = Inr (Some k)" "k < length c" "P (c ! k)"
proof -
  have "(str_lookup same c = Inr None \<and> (\<forall>o' \<in> set c. \<not> P o')) \<or>
      (\<exists>k. str_lookup same c = Inr (Some k) \<and> k < length c \<and> P (c ! k))"
    using assms
  proof (induction c)
    case (Cons o' c)
    show ?case
    proof (cases "P o'")
      case True
      with Cons.prems show ?thesis by (intro disjI2 exI [of _ 0]) simp
    next
      case False
      from Cons consider "str_lookup same c = Inr None" "\<forall>o' \<in> set c. \<not> P o'"
        | k where "str_lookup same c = Inr (Some k)" "k < length c" "P (c ! k)" by auto
      then show ?thesis
        using False Cons.prems by cases auto
    qed
  qed simp
  with that show ?thesis by blast
qed

text \<open>
  What is readable at the argument: at least its \<open>len\<close> bytes, and everything up to the end
  of the page that holds the last of them.
\<close>

definition readable :: "u64 \<Rightarrow> byte list \<Rightarrow> nat \<Rightarrow> bool" where
  "readable p str len \<longleftrightarrow> len + (4095 - (unat p + len - 1) mod 4096) \<le> length str"

lemma str_same_spec:
  assumes "readable p str len" "0 < len" "so_ok sx"
  shows "str_same p str len sx = Inr (so_data sx = take len str)"
proof (cases "length (so_data sx) = len \<and> str_fast_allowed p len")
  case True
  let ?a = "take len str" and ?p = "drop len str"
  have l: "3 \<le> length ?p" "length (so_data sx) = length ?a" "0 < length ?a"
    using True assms(1,2) by (auto simp: readable_def str_fast_allowed_def)
  have "\<exists>v. str_fastcmp (?a @ ?p) (so_data sx @ ([0] @ so_pad sx)) (length ?a) 0 = Inr v \<and>
      (v = 0 \<longleftrightarrow> ?a = so_data sx)"
    using l assms(3) by (intro str_fastcmp_loop_spec) (auto simp: so_ok_def)
  moreover have "length ?a = len" using assms(1) by (simp add: readable_def)
  ultimately show ?thesis using True by (auto simp: str_same_def so_mem_def)
next
  case False
  moreover have "length (take len str) = len" using assms(1) by (simp add: readable_def)
  ultimately show ?thesis by (auto simp: str_same_def)
qed

lemma all_objs_bucket:
  assumes "strtab_ok g" "o' \<in> set (all_objs g)"
  shows "o' \<in> set (strhash g ! unat (str_hash (so_data o') AND strmask g))"
  using assms by (auto simp: strtab_ok_def all_objs_def in_chain_def in_set_conv_nth
      so_ok_def) (metis nth_mem in_set_conv_nth)

lemma strtab_ok_bucket:
  assumes "strtab_ok g"
  shows "unat (h AND strmask g) < length (strhash g)"
  using assms by (simp add: strtab_ok_def in_chain_def)

lemma set_all_objs_bucket:
  "i < length (strhash g) \<Longrightarrow> o' \<in> set (strhash g ! i) \<Longrightarrow> o' \<in> set (all_objs g)"
  by (auto simp: all_objs_def)

text \<open>The invariant depends on the key fields only, not on the marks.\<close>

definition so_key :: "strobj \<Rightarrow> byte list \<times> nat \<times> u32 \<times> byte list" where
  "so_key o' = (so_data o', so_id o', so_hash o', so_pad o')"

lemma in_chain_hashes:
  "in_chain hm cs \<longleftrightarrow> length (map (map so_hash) cs) = Suc (unat hm) \<and>
     (\<forall>i < length cs. \<forall>h \<in> set (map (map so_hash) cs ! i). unat (h AND hm) = i)"
  by (auto simp: in_chain_def)

lemma map_via_key:
  assumes "map so_key xs = map so_key ys"
  shows "map (f \<circ> so_key) xs = map (f \<circ> so_key) ys"
  using assms by (metis map_map)

lemma strtab_ok_key_cong:
  assumes "strtab_ok g" "map (map so_key) (strhash g') = map (map so_key) (strhash g)"
    and "strmask g' = strmask g" "strempty g' = strempty g" "strnum g' = strnum g"
  shows "strtab_ok g'" "str_pool g' = str_pool g"
proof -
  have K: "map so_key (all_objs g') = map so_key (all_objs g)"
    using assms(2) by (simp add: all_objs_def map_concat)
  have data: "map so_data (all_objs g') = map so_data (all_objs g)"
    using map_via_key [OF K, of fst] by (simp add: comp_def so_key_def)
  have ids: "map so_id (all_objs g') = map so_id (all_objs g)"
    using map_via_key [OF K, of "fst \<circ> snd"] by (simp add: comp_def so_key_def)
  have both: "map (\<lambda>o'. (so_data o', so_id o')) (all_objs g') =
      map (\<lambda>o'. (so_data o', so_id o')) (all_objs g)"
    using map_via_key [OF K, of "\<lambda>(d, i, h). (d, i)"] by (simp add: comp_def so_key_def)
  have oks: "map so_ok (all_objs g') = map so_ok (all_objs g)"
    using map_via_key [OF K, of "\<lambda>(d, i, h, p). h = str_hash d \<and> d \<noteq> [] \<and> 2 \<le> length p"]
    by (simp add: comp_def so_key_def so_ok_def [abs_def])
  have "map (map (fst \<circ> snd \<circ> snd)) (map (map so_key) (strhash g')) =
      map (map (fst \<circ> snd \<circ> snd)) (map (map so_key) (strhash g))"
    by (simp only: assms(2))
  then have hs: "map (map so_hash) (strhash g') = map (map so_hash) (strhash g)"
    by (simp add: comp_def so_key_def)
  have l: "length (strhash g') = length (strhash g)" using assms(2) by (metis length_map)
  have "in_chain (strmask g') (strhash g')"
    using assms(1) unfolding strtab_ok_def in_chain_hashes hs assms(3) l by simp
  moreover have "\<forall>o' \<in> set (all_objs g'). so_ok o'"
  proof -
    have "set (map so_ok (all_objs g')) \<subseteq> {True}"
      unfolding oks using assms(1) by (auto simp: strtab_ok_def)
    then show ?thesis by auto
  qed
  moreover have "length (all_objs g') = length (all_objs g)" using K by (metis length_map)
  ultimately show "strtab_ok g'"
    using assms(1) unfolding strtab_ok_def data ids assms(4,5) by simp
  show "str_pool g' = str_pool g"
    using arg_cong [OF both, of set] assms(4) by (simp add: str_pool_def)
qed

lemma strtab_remark:
  assumes "strtab_ok g" "b < length (strhash g)" "k < length (strhash g ! b)"
    and "so_key sx = so_key (strhash g ! b ! k)"
  defines "g' \<equiv> g\<lparr>strhash := (strhash g)[b := (strhash g ! b)[k := sx]]\<rparr>"
  shows "strtab_ok g'" "str_pool g' = str_pool g"
proof -
  have "map so_key ((strhash g ! b)[k := sx]) = map so_key (strhash g ! b)"
    by (simp add: map_update assms(4)) (metis assms(3) list_update_id nth_map)
  then have "map (map so_key) (strhash g') = map (map so_key) (strhash g)"
    by (simp add: g'_def map_update) (metis assms(2) list_update_id nth_map)
  then show "strtab_ok g'" "str_pool g' = str_pool g"
    using strtab_ok_key_cong [OF assms(1), of g'] by (simp_all add: g'_def)
qed


lemma strtab_insert:
  assumes "strtab_ok g" "so_ok s" "so_id s \<notin> snd ` str_pool g" "so_data s \<notin> fst ` str_pool g"
  defines "b \<equiv> unat (so_hash s AND strmask g)"
  defines "g' \<equiv> g\<lparr>strhash := (strhash g)[b := s # strhash g ! b], strnum := Suc (strnum g)\<rparr>"
  shows "strtab_ok g'" "str_pool g' = insert (so_data s, so_id s) (str_pool g)"
proof -
  have b: "b < length (strhash g)" using strtab_ok_bucket [OF assms(1)] by (simp add: b_def)
  have m: "mset (all_objs g') = mset (s # all_objs g)"
    using b by (simp add: all_objs_def g'_def mset_concat_Cons)
  have st: "set (all_objs g') = insert s (set (all_objs g))"
    using mset_eq_setD [OF m] by simp
  have d: "distinct (map so_data (all_objs g')) = distinct (map so_data (s # all_objs g))"
    "distinct (map so_id (all_objs g')) = distinct (map so_id (s # all_objs g))"
    by (rule mset_eq_imp_distinct_iff, metis m mset_map)+
  have c: "in_chain (strmask g') (strhash g')"
    using assms(1) b by (auto simp: strtab_ok_def in_chain_def g'_def nth_list_update b_def)
  have new: "so_data s \<notin> so_data ` set (all_objs g)" "so_id s \<notin> so_id ` set (all_objs g)"
    "so_id s \<noteq> so_id (strempty g)"
    using assms(3,4) by (simp_all add: str_pool_def image_image)
  show "strtab_ok g'"
    using assms(1,2) c d new mset_eq_length [OF m] st
    by (auto simp: strtab_ok_def g'_def)
  show "str_pool g' = insert (so_data s, so_id s) (str_pool g)"
    using st by (auto simp: str_pool_def g'_def)
qed

text \<open>
  \<open>lj_str_new\<close> on a well-formed table: it returns the object of the given contents, keeps
  every interned string at its address and adds at most the new one.
\<close>

lemma lj_str_new_ok:
  assumes "strtab_ok g" "lenx < LJ_MAX_STR" "0 < lenx \<longrightarrow> readable p str lenx"
    and "fresh \<notin> snd ` str_pool g" "2 \<le> length pad"
  obtains g' sx where "lj_str_new g p str lenx fresh pad = Inr (g', sx)" "strtab_ok g'"
    "so_data sx = take lenx str"
    "str_pool g' = insert (take lenx str, so_id sx) (str_pool g)"
    "so_id sx \<in> snd ` str_pool g \<or> so_id sx = fresh"
proof (cases "lenx = 0")
  case True
  with assms(1,2) have "lj_str_new g p str lenx fresh pad = Inr (g, strempty g)"
    "so_data (strempty g) = []"
    by (simp_all add: lj_str_new_def strtab_ok_def)
  with True assms(1) show ?thesis
    by (intro that [of g "strempty g"]) (auto simp: str_pool_def)
next
  case False
  let ?d = "take lenx str"
  define b where "b = unat (str_hash ?d AND strmask g)"
  have b: "b < length (strhash g)" using strtab_ok_bucket [OF assms(1)] by (simp add: b_def)
  have rd: "readable p str lenx" and dlen: "length ?d = lenx" "?d \<noteq> []"
    using assms(3) False by (auto simp: readable_def)
  have same: "\<forall>o' \<in> set (strhash g ! b). str_same p str lenx o' = Inr (so_data o' = ?d)"
    using rd False assms(1) b
    by (auto intro!: str_same_spec dest!: set_all_objs_bucket [OF b] simp: strtab_ok_def)
  show ?thesis
  proof (rule str_lookup_spec [OF same])
    fix k
    assume k: "str_lookup (str_same p str lenx) (strhash g ! b) = Inr (Some k)"
      "k < length (strhash g ! b)" "so_data (strhash g ! b ! k) = ?d"
    define sx where "sx = (let sx = strhash g ! b ! k
        in if so_isdead g sx then so_flipwhite sx else sx)"
    let ?g = "g\<lparr>strhash := (strhash g)[b := (strhash g ! b)[k := sx]]\<rparr>"
    have key: "so_key sx = so_key (strhash g ! b ! k)"
      by (simp add: sx_def so_key_def so_flipwhite_def Let_def)
    then have sxd: "so_data sx = ?d" "so_id sx = so_id (strhash g ! b ! k)"
      using k(3) by (simp_all add: so_key_def)
    have "lj_str_new g p str lenx fresh pad = Inr (?g, sx)"
      using assms(2) False k(1) by (simp add: lj_str_new_def b_def [symmetric] sx_def Let_def)
    moreover have mem: "(?d, so_id sx) \<in> str_pool g"
      using set_all_objs_bucket [OF b nth_mem [OF k(2)]] k(3) sxd
      by (simp add: str_pool_def) (metis (no_types, lifting) image_eqI)
    moreover have "so_id sx \<in> snd ` str_pool g" using mem by (metis image_eqI snd_conv)
    ultimately show ?thesis
      using that [OF _ strtab_remark(1) [OF assms(1) b k(2) key] sxd(1)]
        strtab_remark(2) [OF assms(1) b k(2) key] by (simp only: insert_absorb simp_thms)
  next
    assume no: "str_lookup (str_same p str lenx) (strhash g ! b) = Inr None"
      "\<forall>o' \<in> set (strhash g ! b). so_data o' \<noteq> ?d"
    define s where "s = \<lparr>so_id = fresh, so_marked = st_currentwhite g AND LJ_GC_WHITES,
        so_reserved = 0, so_hash = str_hash ?d, so_data = ?d, so_pad = pad\<rparr>"
    define g1 where "g1 = g\<lparr>strhash := (strhash g)[b := s # strhash g ! b],
        strnum := Suc (strnum g)\<rparr>"
    define g2 where "g2 = (if strnum g > unat (strmask g)
        then lj_str_resize g1 (push_bit 1 (strmask g) + 1) else g1)"
    have new: "?d \<notin> fst ` str_pool g"
    proof
      assume "?d \<in> fst ` str_pool g"
      then obtain o' where "o' \<in> set (all_objs g)" "so_data o' = ?d"
        using dlen(2) assms(1) by (auto simp: str_pool_def strtab_ok_def)
      with no(2) all_objs_bucket [OF assms(1), of o'] show False unfolding b_def by metis
    qed
    have sok: "so_ok s" using assms(5) dlen(2) by (simp add: so_ok_def s_def)
    have bs: "b = unat (so_hash s AND strmask g)" by (simp add: b_def s_def)
    have g1: "strtab_ok g1" "str_pool g1 = insert (?d, fresh) (str_pool g)"
      using strtab_insert [OF assms(1) sok] assms(4) new
      unfolding g1_def bs by (simp_all add: s_def)
    have g2: "strtab_ok g2" "str_pool g2 = str_pool g1"
      using lj_str_resize_ok [OF g1(1)] g1(1) by (simp_all add: g2_def)
    have "lj_str_new g p str lenx fresh pad = Inr (g2, s)"
      using assms(2) False no(1)
      by (simp add: lj_str_new_def b_def [symmetric] Let_def s_def g1_def g2_def)
    moreover have "so_data s = ?d" "so_id s = fresh" by (simp_all add: s_def)
    ultimately show ?thesis using that [OF _ g2(1)] g1(2) g2(2) by simp
  qed
qed


subsection \<open>The interface of the clients of the string table\<close>

text \<open>
  Clients compare strings by pointer.  What they rely on: the pool relates contents and
  addresses one to one, and interning adds the contents asked for and moves nothing.
\<close>

locale string_pool =
  fixes ok :: "'g \<Rightarrow> bool"
    and pool :: "'g \<Rightarrow> ('c \<times> 'a) set"
    and intern :: "'g \<Rightarrow> 'c \<Rightarrow> 'g \<Rightarrow> 'a \<Rightarrow> bool"
  assumes pool_inj: "ok g \<Longrightarrow> (s, i) \<in> pool g \<Longrightarrow> (t, j) \<in> pool g \<Longrightarrow> i = j \<longleftrightarrow> s = t"
    and intern_ok: "ok g \<Longrightarrow> intern g s g' i \<Longrightarrow> ok g'"
    and intern_pool: "ok g \<Longrightarrow> intern g s g' i \<Longrightarrow> pool g' = insert (s, i) (pool g)"
begin

lemma intern_same_address:
  assumes "ok g" "intern g s g1 i" "intern g1 t g2 j"
  shows "i = j \<longleftrightarrow> s = t"
proof -
  have g1: "ok g1" "(s, i) \<in> pool g1" using assms intern_ok intern_pool by blast+
  then have "ok g2" "(s, i) \<in> pool g2" "(t, j) \<in> pool g2"
    using assms(3) intern_ok intern_pool by blast+
  then show ?thesis by (rule pool_inj)
qed

lemma intern_known:
  "ok g \<Longrightarrow> (s, i) \<in> pool g \<Longrightarrow> intern g s g' j \<Longrightarrow> j = i \<and> pool g' = pool g"
  by (metis insertI1 insertI2 insert_absorb intern_ok intern_pool pool_inj)

end

definition str_interns :: "strtab \<Rightarrow> byte list \<Rightarrow> strtab \<Rightarrow> nat \<Rightarrow> bool" where
  "str_interns g s g' i \<longleftrightarrow> (\<exists>p str lenx fresh pad sx.
     lj_str_new g p str lenx fresh pad = Inr (g', sx) \<and> s = take lenx str \<and> i = so_id sx \<and>
     readable p str lenx \<and> fresh \<notin> snd ` str_pool g \<and> 2 \<le> length pad)"

lemma strtab_ok_pool_inj:
  assumes "strtab_ok g" "(s, i) \<in> str_pool g" "(t, j) \<in> str_pool g"
  shows "i = j \<longleftrightarrow> s = t"
proof -
  obtain x y where xy: "x \<in> set (strempty g # all_objs g)" "y \<in> set (strempty g # all_objs g)"
      "s = so_data x" "i = so_id x" "t = so_data y" "j = so_id y"
    using assms(2,3) by (auto simp: str_pool_def)
  have ne: "\<forall>o' \<in> set (all_objs g). so_data o' \<noteq> so_data (strempty g)"
    using assms(1) by (auto simp: strtab_ok_def so_ok_def)
  have "distinct (map so_data (strempty g # all_objs g))"
    using assms(1) ne by (auto simp: strtab_ok_def image_iff)
  then have d: "inj_on so_data (set (strempty g # all_objs g))"
    by (simp only: distinct_map)
  have "distinct (map so_id (strempty g # all_objs g))"
    using assms(1) by (simp add: strtab_ok_def)
  then have i: "inj_on so_id (set (strempty g # all_objs g))"
    by (simp only: distinct_map)
  show ?thesis
    using inj_on_eq_iff [OF d xy(1,2)] inj_on_eq_iff [OF i xy(1,2)] xy(3-6) by simp
qed

interpretation strpool: string_pool strtab_ok str_pool str_interns
proof
  fix g s i t j
  assume "strtab_ok g" "(s, i) \<in> str_pool g" "(t, j) \<in> str_pool g"
  then show "i = j \<longleftrightarrow> s = t" by (rule strtab_ok_pool_inj)
next
  fix g s g' i
  assume ok: "strtab_ok g" and int: "str_interns g s g' i"
  then obtain p str lenx fresh pad sx where
    r: "lj_str_new g p str lenx fresh pad = Inr (g', sx)" "s = take lenx str" "i = so_id sx"
      "readable p str lenx" "fresh \<notin> snd ` str_pool g" "2 \<le> length pad"
    by (auto simp: str_interns_def)
  then have "lenx < LJ_MAX_STR" by (auto simp: lj_str_new_def split: if_splits)
  with r(4) obtain g2 s2 where g2: "lj_str_new g p str lenx fresh pad = Inr (g2, s2)"
      "strtab_ok g2" "str_pool g2 = insert (take lenx str, so_id s2) (str_pool g)"
    using lj_str_new_ok [OF ok _ _ r(5,6)] by metis
  from g2(1) r(1) have "g2 = g'" "s2 = sx" by simp_all
  with g2 r(2,3) show "strtab_ok g'" and "str_pool g' = insert (s, i) (str_pool g)" by simp_all
qed

subsection \<open>Decimal digits\<close>

definition dec_val :: "byte list \<Rightarrow> nat" where
  "dec_val ds = foldl (\<lambda>v c. 10 * v + (unat c - 48)) 0 ds"

definition is_digit :: "byte \<Rightarrow> bool" where
  "is_digit c \<longleftrightarrow> 48 \<le> unat c \<and> unat c \<le> 57"

lemma unat_digit: "d < 10 \<Longrightarrow> unat (48 + of_nat d :: byte) = 48 + d"
  by (simp add: unat_word_ariths unat_of_nat)

lemma bufint_loop_digits:
  assumes "u < 10 ^ Suc k"
  shows "\<exists>ds. bufint_loop u acc = ds @ acc \<and> dec_val ds = u \<and> list_all is_digit ds \<and>
    ds \<noteq> [] \<and> length ds \<le> Suc k"
  using assms
proof (induction k arbitrary: u acc)
  case 0
  then show ?case
    by (intro exI [of _ "[48 + of_nat (u mod 10)]"])
      (simp add: bufint_loop.simps [of u] dec_val_def is_digit_def unat_digit)
next
  case (Suc k)
  let ?c = "48 + of_nat (u mod 10) :: byte"
  have c: "unat ?c = 48 + u mod 10" by (rule unat_digit) simp
  show ?case
  proof (cases "u div 10 = 0")
    case True
    then show ?thesis using c
      by (intro exI [of _ "[?c]"])
        (simp add: bufint_loop.simps [of u] dec_val_def is_digit_def)
  next
    case False
    have "u div 10 < 10 ^ Suc k" using Suc.prems by (simp add: less_mult_imp_div_less)
    from Suc.IH [OF this, of "?c # acc"] obtain ds where
      ds: "bufint_loop (u div 10) (?c # acc) = ds @ ?c # acc" "dec_val ds = u div 10"
        "list_all is_digit ds" "length ds \<le> Suc k" by auto
    then show ?thesis using False c
      by (intro exI [of _ "ds @ [?c]"])
        (auto simp add: bufint_loop.simps [of u] dec_val_def is_digit_def [of ?c])
  qed
qed

lemma int_nat_bounds:
  "int n = - s \<Longrightarrow> - (2 ^ 31) \<le> s \<Longrightarrow> n \<le> 2 ^ 31"
  "int n = s \<Longrightarrow> s < 2 ^ 31 \<Longrightarrow> n < 2 ^ 31"
  by simp_all

lemma unat_neg_sless:
  assumes "k <s (0 :: u32)"
  shows "int (unat (- k)) = - sint k" "unat (- k) \<le> 2 ^ 31"
proof -
  have s: "sint k < 0" "- (2 ^ 31) \<le> sint k"
    using assms sint_greater_eq [of k] by (simp_all add: word_sless_alt)
  have "- k = word_of_int (- sint k)" by simp
  then have "uint (- k) = - sint k"
    using s by (simp only: uint_word_of_int) simp
  then show *: "int (unat (- k)) = - sint k" by simp
  show "unat (- k) \<le> 2 ^ 31" by (rule int_nat_bounds(1) [OF * s(2)])
qed

lemma unat_pos_sless:
  assumes "\<not> k <s (0 :: u32)"
  shows "int (unat k) = sint k" "0 \<le> sint k" "unat k < 2 ^ 31"
proof -
  show s: "0 \<le> sint k" using assms by (simp add: word_sless_alt)
  have s': "sint k < 2 ^ 31" using sint_lt [of k] by simp
  have "k = word_of_int (sint k)" by simp
  then have "uint k = sint k mod 2 ^ 32" by (metis uint_word_of_int len_num1 len_bit0 mult_2
        numeral_Bit0 numeral_One)
  also have "\<dots> = sint k" using s s' by simp
  finally have "uint k = sint k" .
  then show *: "int (unat k) = sint k" by simp
  show "unat k < 2 ^ 31" by (rule int_nat_bounds(2) [OF * s'])
qed

lemma lj_str_bufint_digits:
  obtains ds where "lj_str_bufint k = (if k <s 0 then 45 # ds else ds)" "list_all is_digit ds"
    "ds \<noteq> []" "length ds \<le> 10" "int (dec_val ds) = \<bar>sint k\<bar>"
proof (cases "k <s 0")
  case True
  then have "sint k < 0" by (simp add: word_sless_alt)
  have "unat (- k) < 10 ^ Suc 9" using unat_neg_sless(2) [OF True] by simp
  from bufint_loop_digits [OF this, of "[]"] obtain ds where
    ds: "bufint_loop (unat (- k)) [] = ds" "dec_val ds = unat (- k)"
      "list_all is_digit ds" "ds \<noteq> []" "length ds \<le> 10" by auto
  show ?thesis
  proof (rule that)
    show "lj_str_bufint k = (if k <s 0 then 45 # ds else ds)"
      using True ds(1) by (simp add: lj_str_bufint_def)
    show "int (dec_val ds) = \<bar>sint k\<bar>"
      unfolding ds(2) unat_neg_sless(1) [OF True] using \<open>sint k < 0\<close> by simp
  qed (use ds in auto)
next
  case False
  have "unat k < 10 ^ Suc 9" using unat_pos_sless(3) [OF False] by simp
  from bufint_loop_digits [OF this, of "[]"] obtain ds where
    ds: "bufint_loop (unat k) [] = ds" "dec_val ds = unat k"
      "list_all is_digit ds" "ds \<noteq> []" "length ds \<le> 10" by auto
  show ?thesis
  proof (rule that)
    show "lj_str_bufint k = (if k <s 0 then 45 # ds else ds)"
      using False ds(1) by (simp add: lj_str_bufint_def)
    show "int (dec_val ds) = \<bar>sint k\<bar>"
      unfolding ds(2) unat_pos_sless(1) [OF False] using unat_pos_sless(2) [OF False] by simp
  qed (use ds in auto)
qed

end
