(* ===== verification/LJ_StrFmt.thy ===== *)
theory LJ_StrFmt
  imports LJ_Str
begin












subsection \<open>The text a format stands for\<close>









subsection \<open>Properties of the string component\<close>

text \<open>C14: \<open>lj_str_cmp\<close>, which compares four bytes at a time and reads past the end of both
  strings, never reads outside their memory and orders them by their unsigned bytes.\<close>

theorem lj_str_cmp_lexicographic:
  assumes "length a < 2 ^ 31" "length b < 2 ^ 31" "3 \<le> length p" "3 \<le> length q"
  shows "\<exists>r. lj_str_cmp (length a) (a @ p) (length b) (b @ q) = Inr r \<and> sgn r = lexcmp a b"
  unfolding lj_str_cmp_def sint_len_diff [OF assms(1,2)]
  by (rule str_cmp_loop_spec [OF assms(3,4)]) auto

theorem lj_str_cmp_lexicographic_witness:
  "\<exists>r. lj_str_cmp 5 [97, 98, 99, 100, 101, 0, 7, 7] 4 [97, 98, 99, 100, 0, 9, 9] = Inr r \<and>
     sgn r = lexcmp [97, 98, 99, 100, 101] [97, 98, 99, 100]"
proof -
  let ?a = "[97, 98, 99, 100, 101] :: byte list" and ?b = "[97, 98, 99, 100] :: byte list"
  have l: "length ?a = 5" "length ?b = 4" by simp_all
  show ?thesis
    using lj_str_cmp_lexicographic [of ?a ?b "[0, 7, 7]" "[0, 9, 9]", unfolded l] by simp
qed

text \<open>C12: on a well-formed string table \<open>lj_str_new\<close> returns an object with exactly the given
  contents, without reading outside the argument's readable memory; the table stays
  well-formed and every other string keeps its address.\<close>

theorem lj_str_new_correct:
  assumes "strtab_ok g" "lenx < LJ_MAX_STR" "readable p str lenx"
    and "fresh \<notin> snd ` str_pool g" "2 \<le> length pad"
  shows "\<exists>g' sx. lj_str_new g p str lenx fresh pad = Inr (g', sx) \<and> strtab_ok g' \<and>
    so_data sx = take lenx str \<and> str_pool g' = insert (take lenx str, so_id sx) (str_pool g)"
  using lj_str_new_ok [OF assms(1,2) _ assms(4,5)] assms(3) by metis

definition example_strtab :: strtab where
  "example_strtab = \<lparr>strhash = [[]], strmask = 0, strnum = 0,
     strempty = \<lparr>so_id = 0, so_marked = 0, so_reserved = 0, so_hash = 0, so_data = [], so_pad = []\<rparr>,
     st_gcstate = GCSpause, st_currentwhite = 1\<rparr>"

lemma example_strtab_ok: "strtab_ok example_strtab" "str_pool example_strtab = {([], 0)}"
  by (auto simp: strtab_ok_def example_strtab_def in_chain_def all_objs_def str_pool_def
      less_Suc_eq)

theorem lj_str_new_correct_witness:
  "\<exists>g' sx. lj_str_new example_strtab 0xffe [97, 98] 2 1 [0, 0] = Inr (g', sx) \<and> strtab_ok g' \<and>
    so_data sx = take 2 [97, 98] \<and> str_pool g' = insert (take 2 [97, 98], so_id sx) {([], 0)}"
  using lj_str_new_correct [OF example_strtab_ok(1), of 2 "0xffe" "[97, 98]" 1 "[0, 0]"]
  by (simp add: LJ_MAX_STR_def readable_def example_strtab_ok(2))

text \<open>C13: two strings interned one after the other are the same object exactly when their
  contents are equal, so the code may compare strings by pointer.\<close>

theorem lj_str_new_pointer_equality:
  assumes "strtab_ok g" "str_interns g s g1 i" "str_interns g1 t g2 j"
  shows "i = j \<longleftrightarrow> s = t"
  by (rule strpool.intern_same_address [OF assms])

lemma example_intern:
  "\<exists>g1. str_interns example_strtab [97, 98] g1 1 \<and> str_interns g1 [97, 98] g1 1"
proof -
  let ?s = "\<lparr>so_id = 1, so_marked = 1, so_reserved = 0, so_hash = str_hash [97, 98],
      so_data = [97, 98], so_pad = [0, 0]\<rparr>"
  let ?g0 = "example_strtab\<lparr>strhash := [[?s]], strnum := 1\<rparr>"
  have r: "readable 0xffe [97, 98] 2" "\<not> str_fast_allowed 0xffe 2"
    by (simp_all add: readable_def str_fast_allowed_def)
  have 1: "lj_str_new example_strtab 0xffe [97, 98] 2 1 [0, 0] = Inr (?g0, ?s)"
    by (simp add: lj_str_new_def LJ_MAX_STR_def example_strtab_def LJ_GC_WHITES_def Let_def)
  have 2: "lj_str_new ?g0 0xffe [97, 98] 2 2 [0, 0] = Inr (?g0, ?s)"
    using r(2) by (simp add: lj_str_new_def LJ_MAX_STR_def example_strtab_def Let_def
        str_same_def so_isdead_def LJ_GC_WHITES_def)
  have p: "2 \<notin> snd ` str_pool ?g0"
    by (auto simp: str_pool_def all_objs_def example_strtab_def)
  have "str_interns example_strtab [97, 98] ?g0 1"
    unfolding str_interns_def
    by (rule exI [where x = "0xffe"], rule exI [where x = "[97, 98]"], rule exI [where x = 2], rule exI [where x = 1],
        rule exI [where x = "[0, 0]"], rule exI [where x = ?s])
       (use 1 r(1) example_strtab_ok(2) in simp)
  moreover have "str_interns ?g0 [97, 98] ?g0 1"
    unfolding str_interns_def
    by (rule exI [where x = "0xffe"], rule exI [where x = "[97, 98]"], rule exI [where x = 2], rule exI [where x = 2],
        rule exI [where x = "[0, 0]"], rule exI [where x = ?s])
       (use 2 r(1) p in simp)
  ultimately show ?thesis by blast
qed

theorem lj_str_new_pointer_equality_witness:
  "\<exists>g1. str_interns example_strtab [97, 98] g1 1 \<and> ((1::nat) = 1 \<longleftrightarrow> [97, 98 :: byte] = [97, 98])"
  using example_intern lj_str_new_pointer_equality [OF example_strtab_ok(1)] by metis




end
