(* ===== verification/LJ_Obj.thy ===== *)
theory LJ_Obj
  imports LJ_Str
begin

text \<open>
  Tagged values (\<^verbatim>\<open>lj_obj.h\<close>, \<^verbatim>\<open>lj_obj.c\<close>) for the x64 build: single-number mode
  (\<^verbatim>\<open>LJ_DUALNUM\<close> is 0, so every number is a double and \<^verbatim>\<open>tvisint\<close> is false), 64-bit light user
  data and 32-bit references to collectable objects.  A number is its IEEE-754 bit
  pattern; the conversions between numbers and 32-bit integers are written on the bits.
  A string value is identified with its contents, which the string table justifies: two
  interned strings are the same object exactly when their contents are equal.
\<close>

datatype gctag = Upval | Thread | Proto | Func | Trace | Cdata | Tab | Udata

datatype tval =
    TNil | TFalse | TTrue
  | TLightud u64
  | TStr "byte list"
  | TGc gctag u32
  | TNum u64

definition tvisstr :: "tval \<Rightarrow> bool" where "tvisstr o' \<longleftrightarrow> (case o' of TStr _ \<Rightarrow> True | _ \<Rightarrow> False)"
definition tvisnum :: "tval \<Rightarrow> bool" where "tvisnum o' \<longleftrightarrow> (case o' of TNum _ \<Rightarrow> True | _ \<Rightarrow> False)"
definition tvispri :: "tval \<Rightarrow> bool" where "tvispri o' \<longleftrightarrow> o' \<in> {TNil, TFalse, TTrue}"

lemma tvis_simps [simp]:
  "tvisstr (TStr s)" "\<not> tvisstr (TNum n)" "\<not> tvisstr TNil" "\<not> tvisstr TFalse" "\<not> tvisstr TTrue"
  "\<not> tvisstr (TLightud p)" "\<not> tvisstr (TGc g r)"
  "tvisnum (TNum n)" "\<not> tvisnum (TStr s)" "\<not> tvisnum TNil" "\<not> tvisnum TFalse" "\<not> tvisnum TTrue"
  "\<not> tvisnum (TLightud p)" "\<not> tvisnum (TGc g r)"
  by (simp_all add: tvisstr_def tvisnum_def)

subsection \<open>Numbers\<close>

definition num_exp :: "u64 \<Rightarrow> nat" where "num_exp w = unat w div 2 ^ 52 mod 2 ^ 11"
definition num_man :: "u64 \<Rightarrow> nat" where "num_man w = unat w mod 2 ^ 52"
definition num_sgn :: "u64 \<Rightarrow> nat" where "num_sgn w = unat w div 2 ^ 63"

definition num_isnan :: "u64 \<Rightarrow> bool" where
  "num_isnan w \<longleftrightarrow> num_exp w = 2047 \<and> num_man w \<noteq> 0"

definition num_mzero :: u64 where "num_mzero = 0x8000000000000000"

text \<open>IEEE equality \<open>==\<close> of two numbers: NaN is unequal to everything, the zeros are equal.\<close>

definition num_eq :: "u64 \<Rightarrow> u64 \<Rightarrow> bool" where
  "num_eq a b \<longleftrightarrow> \<not> num_isnan a \<and> \<not> num_isnan b \<and>
     (a = b \<or> a \<in> {0, num_mzero} \<and> b \<in> {0, num_mzero})"

text \<open>The conversion \<open>(lua_Number)k\<close> of an \<open>int32_t\<close>; it is exact.\<close>

definition num_of_int :: "int \<Rightarrow> u64" where
  "num_of_int k =
     (if k = 0 then 0
      else (let a = nat \<bar>k\<bar>; p = lj_fls a in
        of_nat ((if k < 0 then 2 ^ 63 else 0) + (1023 + p) * 2 ^ 52 + (a - 2 ^ p) * 2 ^ (52 - p))))"

text \<open>
  The test \<open>n == (lua_Number)(k = lj_num2int(n))\<close> that the code makes wherever it narrows a
  number: \<open>Some k\<close> when it succeeds with \<open>k\<close>, \<open>None\<close> when it fails.
\<close>

definition num_toint :: "u64 \<Rightarrow> int option" where
  "num_toint w =
     (if num_exp w = 0 \<and> num_man w = 0 then Some 0
      else if num_exp w < 1023 \<or> num_exp w > 1023 + 31 then None
      else (let d = 2 ^ (52 - (num_exp w - 1023)); s = 2 ^ 52 + num_man w in
        if s mod d \<noteq> 0 then None
        else (let k = (if num_sgn w = 0 then int (s div d) else - int (s div d)) in
          if - (2 ^ 31) \<le> k \<and> k < 2 ^ 31 then Some k else None)))"

subsection \<open>Raw equality of two values\<close>

fun lj_obj_equal :: "tval \<Rightarrow> tval \<Rightarrow> bool" where
  "lj_obj_equal (TNum a) (TNum b) = num_eq a b"
| "lj_obj_equal o1 o2 = (o1 = o2)"

subsection \<open>Facts about numbers\<close>

definition int32 :: "int \<Rightarrow> bool" where "int32 k \<longleftrightarrow> - (2 ^ 31) \<le> k \<and> k < 2 ^ 31"

definition pack :: "nat \<Rightarrow> nat \<Rightarrow> nat \<Rightarrow> u64" where
  "pack s e m = of_nat (s * 2 ^ 63 + e * 2 ^ 52 + m)"

lemma pack_bound:
  "s < 2 \<Longrightarrow> e < 2 ^ 11 \<Longrightarrow> m < 2 ^ 52 \<Longrightarrow> s * 2 ^ 63 + e * 2 ^ 52 + m < (2::nat) ^ 64"
  by simp

lemma unat_pack:
  assumes "s < 2" "e < 2 ^ 11" "m < 2 ^ 52"
  shows "unat (pack s e m) = m + 2 ^ 52 * (e + 2 ^ 11 * s)"
proof -
  have "unat (pack s e m) = s * 2 ^ 63 + e * 2 ^ 52 + m"
    unfolding pack_def using pack_bound [OF assms]
    by (subst of_nat_inverse [OF refl]) simp_all
  then show ?thesis by simp
qed

lemma nat_split_at:
  "(m::nat) < d \<Longrightarrow> (m + d * x) div d = x" "(m::nat) < d \<Longrightarrow> (m + d * x) mod d = m"
  by simp_all

lemma pack_fields:
  assumes "s < 2" "e < 2 ^ 11" "m < 2 ^ 52"
  shows "num_sgn (pack s e m) = s" "num_exp (pack s e m) = e" "num_man (pack s e m) = m"
proof -
  have d: "n div 2 ^ 63 = n div 2 ^ 52 div 2 ^ 11" for n :: nat
    by (simp flip: div_mult2_eq)
  have "(m + 2 ^ 52 * (e + 2 ^ 11 * s)) div 2 ^ 52 = e + 2 ^ 11 * s"
    "(m + 2 ^ 52 * (e + 2 ^ 11 * s)) mod 2 ^ 52 = m"
    "(e + 2 ^ 11 * s) div 2 ^ 11 = s" "(e + 2 ^ 11 * s) mod 2 ^ 11 = e"
    by (rule nat_split_at, rule assms)+
  then show "num_sgn (pack s e m) = s" "num_exp (pack s e m) = e" "num_man (pack s e m) = m"
    unfolding num_sgn_def num_exp_def num_man_def unat_pack [OF assms] d by simp_all
qed

lemma num_fields_bound: "num_sgn w < 2" "num_exp w < 2 ^ 11" "num_man w < 2 ^ 52"
proof -
  have "unat w < 2 * 2 ^ 63" using unsigned_less [of w] by simp
  then show "num_sgn w < 2" unfolding num_sgn_def by (simp add: less_mult_imp_div_less)
qed (simp_all add: num_exp_def num_man_def)

lemma pack_of_fields: "pack (num_sgn w) (num_exp w) (num_man w) = w"
proof -
  have d: "unat w div 2 ^ 63 = unat w div 2 ^ 52 div 2 ^ 11" by (simp flip: div_mult2_eq)
  have "num_man w + 2 ^ 52 * (num_exp w + 2 ^ 11 * num_sgn w) = unat w"
    unfolding num_sgn_def num_exp_def num_man_def d
    by (simp only: mod_mult_div_eq mult.commute [of _ "_ div _"] mod_div_mult_eq
        add.commute [of "_ mod _"] div_mult_mod_eq)
  then show ?thesis
    unfolding word_unat_eq_iff using unat_pack [OF num_fields_bound] by simp
qed

lemma num_of_int_pack:
  assumes "k \<noteq> 0" "int32 k"
  defines "a \<equiv> nat \<bar>k\<bar>"
  defines "p \<equiv> lj_fls a"
  shows "num_of_int k = pack (if k < 0 then 1 else 0) (1023 + p) ((a - 2 ^ p) * 2 ^ (52 - p))"
    "p \<le> 31" "2 ^ p \<le> a" "(a - 2 ^ p) * 2 ^ (52 - p) < 2 ^ 52" "1023 + p < 2 ^ 11"
proof -
  have a: "0 < a" "a < 2 ^ Suc 31" using assms(1,2) by (auto simp: a_def int32_def)
  show p: "p \<le> 31" using a lj_fls_le_iff [of a 31] by (simp add: p_def)
  show pa: "2 ^ p \<le> a" using lj_fls_lower [OF a(1)] by (simp add: p_def)
  have "a - 2 ^ p < 2 ^ p" using lj_fls_upper [of a] pa by (simp add: p_def)
  then have "(a - 2 ^ p) * 2 ^ (52 - p) < 2 ^ p * 2 ^ (52 - p)" by simp
  also have "\<dots> = 2 ^ 52" using p by (simp flip: power_add)
  finally show "(a - 2 ^ p) * 2 ^ (52 - p) < 2 ^ 52" .
  show "1023 + p < 2 ^ 11" using p by simp
  show "num_of_int k = pack (if k < 0 then 1 else 0) (1023 + p) ((a - 2 ^ p) * 2 ^ (52 - p))"
    using assms(1) by (simp add: num_of_int_def pack_def Let_def a_def p_def)
qed

lemma num_toint_of_int:
  assumes "int32 k"
  shows "num_toint (num_of_int k) = Some k"
proof (cases "k = 0")
  case True
  then show ?thesis by (simp add: num_of_int_def num_toint_def num_exp_def num_man_def)
next
  case False
  define a p where "a = nat \<bar>k\<bar>" and "p = lj_fls a"
  note P = num_of_int_pack [OF False assms, folded a_def, folded p_def]
  have f: "num_sgn (num_of_int k) = (if k < 0 then 1 else 0)" "num_exp (num_of_int k) = 1023 + p"
    "num_man (num_of_int k) = (a - 2 ^ p) * 2 ^ (52 - p)"
    unfolding P(1) using P(4,5) by (auto simp: pack_fields)
  have "2 ^ 52 = (2::nat) ^ p * 2 ^ (52 - p)" using P(2) by (simp flip: power_add)
  then have s: "2 ^ 52 + (a - 2 ^ p) * 2 ^ (52 - p) = a * 2 ^ (52 - p)"
    unfolding \<open>2 ^ 52 = _\<close> add_mult_distrib [symmetric] using P(3) by simp
  have "num_exp (num_of_int k) - 1023 = p" by (simp add: f)
  then show ?thesis
    unfolding num_toint_def f using P(2) s assms
    by (auto simp: Let_def int32_def a_def)
qed

lemma num_toint_Some:
  assumes "num_toint w = Some k"
  shows "int32 k" "w = num_of_int k \<or> w = num_mzero \<and> k = 0"
proof -
  have "int32 k \<and> (w = num_of_int k \<or> w = num_mzero \<and> k = 0)"
  proof (cases "num_exp w = 0 \<and> num_man w = 0")
    case True
    then have "k = 0" "w = pack (num_sgn w) 0 0"
      using assms pack_of_fields [of w] by (simp_all add: num_toint_def)
    moreover have "num_sgn w = 0 \<or> num_sgn w = 1" using num_fields_bound(1) [of w] by auto
    ultimately show ?thesis
      by (auto simp: int32_def pack_def num_of_int_def num_mzero_def)
  next
    case False
    define p where "p = num_exp w - 1023"
    define a where "a = (2 ^ 52 + num_man w) div 2 ^ (52 - p)"
    have e: "num_exp w = 1023 + p" "p \<le> 31"
      using assms False by (auto simp: num_toint_def p_def split: if_splits)
    have dv: "(2 ^ 52 + num_man w) mod 2 ^ (52 - p) = 0"
      and k: "k = (if num_sgn w = 0 then int a else - int a)" "int32 k"
      using assms False e by (auto simp: num_toint_def a_def Let_def int32_def split: if_splits)
    have am: "2 ^ 52 + num_man w = a * 2 ^ (52 - p)"
      using dv unfolding a_def by (simp add: mod_0_imp_dvd)
    have pp: "2 ^ 52 = (2::nat) ^ p * 2 ^ (52 - p)" using e(2) by (simp flip: power_add)
    have "2 ^ p \<le> a"
    proof -
      have "2 ^ p * 2 ^ (52 - p) \<le> a * 2 ^ (52 - p)" using am pp by simp
      then show ?thesis by simp
    qed
    moreover have "a < 2 ^ Suc p"
    proof -
      have "a * 2 ^ (52 - p) < 2 * 2 ^ 52"
        unfolding am [symmetric] using num_fields_bound(3) [of w] by simp
      also have "\<dots> = 2 ^ Suc p * 2 ^ (52 - p)" by (simp only: pp power_Suc mult.assoc)
      finally show ?thesis by simp
    qed
    ultimately have p: "lj_fls a = p" "0 < a"
      by (rule lj_fls_unique) (metis \<open>2 ^ p \<le> a\<close> gr0I le_zero_eq power_not_zero zero_neq_numeral)
    have ka: "nat \<bar>k\<bar> = a" "k \<noteq> 0" "k < 0 \<longleftrightarrow> num_sgn w \<noteq> 0" using k p by auto
    have "num_man w = (a - 2 ^ p) * 2 ^ (52 - p)"
      using am pp by (simp add: diff_mult_distrib)
    moreover have "num_sgn w = (if k < 0 then 1 else 0)"
      using ka(3) num_fields_bound(1) [of w] by auto
    ultimately have "w = num_of_int k"
      using pack_of_fields [of w] num_of_int_pack(1) [OF ka(2) k(2)] e(1) p ka by simp
    with k show ?thesis by simp
  qed
  then show "int32 k" "w = num_of_int k \<or> w = num_mzero \<and> k = 0" by auto
qed

end
