(* ===== verification/LJ_Tab.thy ===== *)
theory LJ_Tab
  imports LJ_Obj
begin

text \<open>
  Tables (\<^verbatim>\<open>lj_tab.c\<close>, \<^verbatim>\<open>lj_tab.h\<close>): an array part and a hash part with chained scatter and
  Brent's variation.  Nodes are addressed by their index in the hash part; a table without
  a hash part points to the shared \<^verbatim>\<open>nilnode\<close>, modelled as a one-element hash part whose
  \<open>freetop\<close> is its first node.  \<^verbatim>\<open>TValue *\<close> results of the setters are slots, into which the
  caller stores the value.  Walks along the hash chains take the number of nodes as fuel and
  yield \<open>DIVERGE\<close> when it is used up.

  Inserting a key may rehash the table, which re-inserts all entries and then retries.  The
  recursion is unrolled: the operations that may insert take the operation \<open>nk\<close> to use for
  a new key as an argument, and \<open>newkey_n\<close> iterates this.
\<close>

record node =
  nd_val :: tval
  nd_key :: tval
  nd_next :: "nat option"

record gctab =
  tb_array :: "tval list"
  tb_node :: "node list"
  tb_freetop :: nat
  tb_colo :: "8 word"
  tb_nomm :: byte
  tb_marked :: byte
  tb_grayagain :: bool

datatype slot = ASlot nat | HSlot nat

definition LJ_MAX_HBITS :: nat where "LJ_MAX_HBITS = 26"
definition LJ_MAX_ABITS :: nat where "LJ_MAX_ABITS = 28"
definition LJ_MAX_ASIZE :: nat where "LJ_MAX_ASIZE = 2 ^ 27 + 1"
definition LJ_MAX_COLOSIZE :: nat where "LJ_MAX_COLOSIZE = 16"

definition tb_asize :: "gctab \<Rightarrow> nat" where "tb_asize t = length (tb_array t)"
definition tb_hmask :: "gctab \<Rightarrow> nat" where "tb_hmask t = length (tb_node t) - 1"

definition slot_put :: "gctab \<Rightarrow> slot \<Rightarrow> tval \<Rightarrow> gctab" where
  "slot_put t s v = (case s of
     ASlot i \<Rightarrow> t\<lparr>tb_array := (tb_array t)[i := v]\<rparr>
   | HSlot i \<Rightarrow> t\<lparr>tb_node := (tb_node t)[i := (tb_node t ! i)\<lparr>nd_val := v\<rparr>]\<rparr>)"

subsection \<open>Object hashing\<close>

definition hashrot :: "u32 \<Rightarrow> u32 \<Rightarrow> u32" where
  "hashrot lo hi =
     (let lo = lo XOR hi; hi = lj_rol hi 14;
          lo = lo - hi; hi = lj_rol hi 5;
          hi = hi XOR lo in hi - lj_rol lo 13)"

definition HASH_BIAS :: u32 where "HASH_BIAS = - 0x04c11db7"

definition hash_num :: "u64 \<Rightarrow> u32" where
  "hash_num w = hashrot (ucast w) (push_bit 1 (ucast (drop_bit 32 w)))"

definition hash_ref :: "u32 \<Rightarrow> u32" where
  "hash_ref r = hashrot r (r + HASH_BIAS)"

definition key_hash :: "tval \<Rightarrow> u32" where
  "key_hash k = (case k of
     TStr s \<Rightarrow> str_hash s
   | TNum w \<Rightarrow> hash_num w
   | TFalse \<Rightarrow> 0
   | TTrue \<Rightarrow> 1
   | TLightud p \<Rightarrow> hash_ref (ucast p)
   | TGc g r \<Rightarrow> hash_ref r
   | TNil \<Rightarrow> hash_ref 0)"

definition hashmask :: "nat \<Rightarrow> u32 \<Rightarrow> nat" where
  "hashmask hmask h = unat (h AND of_nat hmask)"

definition hashkey :: "gctab \<Rightarrow> tval \<Rightarrow> nat" where
  "hashkey t k = hashmask (tb_hmask t) (key_hash k)"

subsection \<open>Table creation and destruction\<close>

text \<open>Memory the allocator returns is not initialized; its content is unspecified.\<close>

definition uninit_tv :: tval where "uninit_tv = TLightud 0"

definition uninit_node :: node where
  "uninit_node = \<lparr>nd_val = uninit_tv, nd_key = uninit_tv, nd_next = Some 0\<rparr>"

definition nilnode :: node where
  "nilnode = \<lparr>nd_val = TNil, nd_key = TNil, nd_next = None\<rparr>"

definition newhpart :: "gctab \<Rightarrow> nat \<Rightarrow> gctab res" where
  "newhpart t hbits =
     (if hbits > LJ_MAX_HBITS then Inl ERR_TABOV
      else Inr (t\<lparr>tb_node := replicate (2 ^ hbits) uninit_node, tb_freetop := 2 ^ hbits\<rparr>))"

definition clearhpart :: "gctab \<Rightarrow> gctab" where
  "clearhpart t = t\<lparr>tb_node :=
     map (\<lambda>n. n\<lparr>nd_next := None, nd_key := TNil, nd_val := TNil\<rparr>) (tb_node t)\<rparr>"

definition clearapart :: "gctab \<Rightarrow> gctab" where
  "clearapart t = t\<lparr>tb_array := map (\<lambda>_. TNil) (tb_array t)\<rparr>"

text \<open>\<open>white\<close> is the mark the allocator gives to a new object.\<close>

definition newtab :: "byte \<Rightarrow> nat \<Rightarrow> nat \<Rightarrow> gctab res" where
  "newtab white asize hbits =
     (let t = \<lparr>tb_array = [], tb_node = [nilnode], tb_freetop = 0, tb_colo = 0,
               tb_nomm = NOT 0, tb_marked = white, tb_grayagain = False\<rparr> in
      rbind
        (if asize > 0 \<and> asize \<le> LJ_MAX_COLOSIZE
         then Inr (t\<lparr>tb_colo := of_nat asize, tb_array := replicate asize uninit_tv\<rparr>)
         else if asize > 0 then
           (if asize > LJ_MAX_ASIZE then Inl ERR_TABOV
            else Inr (t\<lparr>tb_array := replicate asize uninit_tv\<rparr>))
         else Inr t)
        (\<lambda>t. if hbits \<noteq> 0 then newhpart t hbits else Inr t))"

definition lj_tab_new :: "byte \<Rightarrow> nat \<Rightarrow> nat \<Rightarrow> gctab res" where
  "lj_tab_new white asize hbits =
     rbind (newtab white asize hbits) (\<lambda>t.
       let t = clearapart t in Inr (if tb_hmask t > 0 then clearhpart t else t))"

definition lj_tab_new1 :: "byte \<Rightarrow> u32 \<Rightarrow> gctab res" where
  "lj_tab_new1 white ahsize =
     rbind (newtab white (unat (ahsize AND 0xffffff)) (unat (drop_bit 24 ahsize))) (\<lambda>t.
       let t = clearapart t in Inr (if tb_hmask t > 0 then clearhpart t else t))"

definition hmask2hbits :: "nat \<Rightarrow> nat" where
  "hmask2hbits hmask = (if hmask > 0 then lj_fls hmask + 1 else 0)"

definition lj_tab_dup :: "byte \<Rightarrow> gctab \<Rightarrow> gctab res" where
  "lj_tab_dup white kt =
     rbind (newtab white (tb_asize kt) (hmask2hbits (tb_hmask kt))) (\<lambda>t.
       let t = t\<lparr>tb_nomm := 0\<rparr>;
           t = (if tb_asize kt > 0
                then t\<lparr>tb_array := map (\<lambda>i. tb_array kt ! i) [0..<tb_asize kt]\<rparr> else t)
       in Inr (if tb_hmask kt > 0
               then t\<lparr>tb_freetop := tb_freetop kt,
                      tb_node := map (\<lambda>i. tb_node kt ! i) [0..<Suc (tb_hmask kt)]\<rparr>
               else t))"

definition sizeof_Node :: nat where "sizeof_Node = 24"
definition sizeof_TValue :: nat where "sizeof_TValue = 8"
definition sizeof_GCtab :: nat where "sizeof_GCtab = 32"

text \<open>The sizes of the blocks that \<open>lj_tab_free\<close> returns to the allocator.\<close>

definition lj_tab_free :: "gctab \<Rightarrow> nat list" where
  "lj_tab_free t =
     (if tb_hmask t > 0 then [(tb_hmask t + 1) * sizeof_Node] else []) @
     (if tb_asize t > 0 \<and> tb_colo t \<le>s 0 then [tb_asize t * sizeof_TValue] else []) @
     (if tb_colo t \<noteq> 0
      then [unat (tb_colo t AND 0x7f) * sizeof_TValue + sizeof_GCtab]
      else [sizeof_GCtab])"

subsection \<open>Chains\<close>

fun chain_find :: "(tval \<Rightarrow> bool) \<Rightarrow> node list \<Rightarrow> nat \<Rightarrow> nat \<Rightarrow> nat option res" where
  "chain_find P ns 0 i = Inl DIVERGE"
| "chain_find P ns (Suc f) i =
     (if P (nd_key (ns ! i)) then Inr (Some i)
      else (case nd_next (ns ! i) of None \<Rightarrow> Inr None | Some j \<Rightarrow> chain_find P ns f j))"

text \<open>The tests of the four lookup loops.\<close>

definition is_num_key :: "u64 \<Rightarrow> tval \<Rightarrow> bool" where
  "is_num_key w k = (case k of TNum v \<Rightarrow> num_eq v w | _ \<Rightarrow> False)"

definition is_str_key :: "byte list \<Rightarrow> tval \<Rightarrow> bool" where
  "is_str_key s k = (case k of TStr v \<Rightarrow> v = s | _ \<Rightarrow> False)"

definition find_in :: "gctab \<Rightarrow> (tval \<Rightarrow> bool) \<Rightarrow> tval \<Rightarrow> nat option res" where
  "find_in t P k = chain_find P (tb_node t) (length (tb_node t)) (hashkey t k)"

subsection \<open>Table getters\<close>

definition inarray :: "gctab \<Rightarrow> int \<Rightarrow> bool" where
  "inarray t k \<longleftrightarrow> 0 \<le> k \<and> nat k < tb_asize t"

definition lj_tab_getinth :: "gctab \<Rightarrow> int \<Rightarrow> tval option res" where
  "lj_tab_getinth t key =
     (let k = num_of_int key in
      rbind (find_in t (is_num_key k) (TNum k)) (\<lambda>r.
        Inr (map_option (\<lambda>i. nd_val (tb_node t ! i)) r)))"

definition lj_tab_getstr :: "gctab \<Rightarrow> byte list \<Rightarrow> tval option res" where
  "lj_tab_getstr t key =
     rbind (find_in t (is_str_key key) (TStr key)) (\<lambda>r.
       Inr (map_option (\<lambda>i. nd_val (tb_node t ! i)) r))"

definition lj_tab_getint :: "gctab \<Rightarrow> int \<Rightarrow> tval option res" where
  "lj_tab_getint t key =
     (if inarray t key then Inr (Some (tb_array t ! nat key)) else lj_tab_getinth t key)"

definition or_nil :: "tval option res \<Rightarrow> tval res" where
  "or_nil r = rbind r (\<lambda>v. Inr (case v of None \<Rightarrow> TNil | Some v \<Rightarrow> v))"

definition genlookup :: "gctab \<Rightarrow> tval \<Rightarrow> tval res" where
  "genlookup t key =
     or_nil (rbind (find_in t (\<lambda>k. lj_obj_equal k key) key) (\<lambda>r.
       Inr (map_option (\<lambda>i. nd_val (tb_node t ! i)) r)))"

definition lj_tab_get :: "gctab \<Rightarrow> tval \<Rightarrow> tval res" where
  "lj_tab_get t key =
     (case key of
        TStr s \<Rightarrow> or_nil (lj_tab_getstr t s)
      | TNum nk \<Rightarrow>
          (case num_toint nk of
             Some k \<Rightarrow> or_nil (lj_tab_getint t k)
           | None \<Rightarrow> genlookup t key)
      | TNil \<Rightarrow> Inr TNil
      | _ \<Rightarrow> genlookup t key)"

subsection \<open>Table setters\<close>

type_synonym newkey_fn = "gctab \<Rightarrow> tval \<Rightarrow> (gctab \<times> slot) res"

definition tab_setinth :: "newkey_fn \<Rightarrow> gctab \<Rightarrow> int \<Rightarrow> (gctab \<times> slot) res" where
  "tab_setinth nk t key =
     (let k = num_of_int key in
      rbind (find_in t (is_num_key k) (TNum k)) (\<lambda>r.
        case r of Some i \<Rightarrow> Inr (t, HSlot i) | None \<Rightarrow> nk t (TNum k)))"

definition tab_setint :: "newkey_fn \<Rightarrow> gctab \<Rightarrow> int \<Rightarrow> (gctab \<times> slot) res" where
  "tab_setint nk t key =
     (if inarray t key then Inr (t, ASlot (nat key)) else tab_setinth nk t key)"

definition tab_setstr :: "newkey_fn \<Rightarrow> gctab \<Rightarrow> byte list \<Rightarrow> (gctab \<times> slot) res" where
  "tab_setstr nk t key =
     rbind (find_in t (is_str_key key) (TStr key)) (\<lambda>r.
       case r of Some i \<Rightarrow> Inr (t, HSlot i) | None \<Rightarrow> nk t (TStr key))"

definition tab_setgen :: "newkey_fn \<Rightarrow> gctab \<Rightarrow> tval \<Rightarrow> (gctab \<times> slot) res" where
  "tab_setgen nk t key =
     rbind (find_in t (\<lambda>k. lj_obj_equal k key) key) (\<lambda>r.
       case r of Some i \<Rightarrow> Inr (t, HSlot i) | None \<Rightarrow> nk t key)"

definition tab_set :: "newkey_fn \<Rightarrow> gctab \<Rightarrow> tval \<Rightarrow> (gctab \<times> slot) res" where
  "tab_set nk t key =
     (let t = t\<lparr>tb_nomm := 0\<rparr> in
      case key of
        TStr s \<Rightarrow> tab_setstr nk t s
      | TNum w \<Rightarrow>
          (case num_toint w of
             Some k \<Rightarrow> tab_setint nk t k
           | None \<Rightarrow> if num_isnan w then Inl ERR_NANIDX else tab_setgen nk t key)
      | TNil \<Rightarrow> Inl ERR_NILIDX
      | _ \<Rightarrow> tab_setgen nk t key)"

subsection \<open>Table resizing\<close>

text \<open>Reinsertion of the old array values \<open>i, i+1, \<dots>\<close> and of the old hash nodes.\<close>

fun reinsert_array :: "newkey_fn \<Rightarrow> gctab \<Rightarrow> nat \<Rightarrow> tval list \<Rightarrow> gctab res" where
  "reinsert_array nk t i [] = Inr t"
| "reinsert_array nk t i (v # vs) =
     (if v \<noteq> TNil then
        rbind (tab_setinth nk t (int i)) (\<lambda>(t, s). reinsert_array nk (slot_put t s v) (Suc i) vs)
      else reinsert_array nk t (Suc i) vs)"

fun reinsert_nodes :: "newkey_fn \<Rightarrow> gctab \<Rightarrow> node list \<Rightarrow> gctab res" where
  "reinsert_nodes nk t [] = Inr t"
| "reinsert_nodes nk t (n # ns) =
     (if nd_val n \<noteq> TNil then
        rbind (tab_set nk t (nd_key n)) (\<lambda>(t, s). reinsert_nodes nk (slot_put t s (nd_val n)) ns)
      else reinsert_nodes nk t ns)"

definition resizetab :: "newkey_fn \<Rightarrow> gctab \<Rightarrow> nat \<Rightarrow> nat \<Rightarrow> gctab res" where
  "resizetab nk t asize hbits =
     (let oldnode = tb_node t; oldasize = tb_asize t; oldhmask = tb_hmask t in
      rbind
        (if asize > oldasize then
           (if asize > LJ_MAX_ASIZE then Inl ERR_TABOV
            else Inr (t\<lparr>tb_colo := (if 0 <s tb_colo t then tb_colo t OR 0x80 else tb_colo t),
                        tb_array := tb_array t @ replicate (asize - oldasize) TNil\<rparr>))
         else Inr t) (\<lambda>t.
      rbind
        (if hbits \<noteq> 0 then rbind (newhpart t hbits) (\<lambda>t. Inr (clearhpart t))
         else Inr (t\<lparr>tb_node := [nilnode], tb_freetop := 0\<rparr>)) (\<lambda>t.
      rbind
        (if asize < oldasize then
           reinsert_array nk (t\<lparr>tb_array := take asize (tb_array t)\<rparr>) asize
             (drop asize (tb_array t))
         else Inr t) (\<lambda>t.
      if oldhmask > 0 then reinsert_nodes nk t oldnode else Inr t))))"

definition int_bin :: "int \<Rightarrow> nat" where
  "int_bin k = (if k > 2 then lj_fls (nat (k - 1)) else 0)"

definition countint :: "tval \<Rightarrow> nat list \<Rightarrow> nat list \<times> nat" where
  "countint key bins =
     (case key of
        TNum w \<Rightarrow>
          (case num_toint w of
             Some k \<Rightarrow>
               if 0 \<le> k \<and> nat k < LJ_MAX_ASIZE
               then (bins[int_bin k := Suc (bins ! int_bin k)], 1) else (bins, 0)
           | None \<Rightarrow> (bins, 0))
      | _ \<Rightarrow> (bins, 0))"

function countarray_loop ::
  "gctab \<Rightarrow> nat \<Rightarrow> nat \<Rightarrow> nat \<Rightarrow> nat list \<Rightarrow> nat list \<times> nat" where
  "countarray_loop t b i na bins =
     (if b < LJ_MAX_ABITS then
        (let top = 2 * 2 ^ b; capped = (top \<ge> tb_asize t);
             top = (if capped then tb_asize t - 1 else top) in
         if capped \<and> i > top then (bins, na)
         else
           (let n = count_if (\<lambda>j. tb_array t ! j \<noteq> TNil) [i..<Suc top] in
            countarray_loop t (Suc b) (max i (Suc top)) (na + n) (bins[b := bins ! b + n])))
      else (bins, na))"
  by pat_completeness auto
termination
  by (relation "measure (\<lambda>(t, b, i, na, bins). LJ_MAX_ABITS - b)") auto

declare countarray_loop.simps [simp del]

definition countarray :: "gctab \<Rightarrow> nat list \<Rightarrow> nat list \<times> nat" where
  "countarray t bins = (if tb_asize t = 0 then (bins, 0) else countarray_loop t 0 0 0 bins)"

text \<open>Returns the bins, the number of integer keys and the number of entries.\<close>

fun counthash_loop :: "node list \<Rightarrow> nat list \<Rightarrow> nat \<Rightarrow> nat \<Rightarrow> nat list \<times> nat \<times> nat" where
  "counthash_loop [] bins na tot = (bins, na, tot)"
| "counthash_loop (n # ns) bins na tot =
     (if nd_val n \<noteq> TNil
      then (let (bins, c) = countint (nd_key n) bins
            in counthash_loop ns bins (na + c) (Suc tot))
      else counthash_loop ns bins na tot)"

definition counthash :: "gctab \<Rightarrow> nat list \<Rightarrow> nat list \<times> nat \<times> nat" where
  "counthash t bins = counthash_loop (tb_node t) bins 0 0"

function bestasize_loop ::
  "nat list \<Rightarrow> nat \<Rightarrow> nat \<Rightarrow> nat \<Rightarrow> nat \<Rightarrow> nat \<Rightarrow> (nat \<times> nat) res" where
  "bestasize_loop bins nn b s na sz =
     (if 2 * nn > 2 ^ b \<and> s \<noteq> nn then
        (if b \<ge> length bins then Inl OOB
         else
           (let s' = (if bins ! b > 0 then s + bins ! b else s);
                take_it = (bins ! b > 0 \<and> 2 * s' > 2 ^ b)
            in bestasize_loop bins nn (Suc b) s' (if take_it then s' else na)
                 (if take_it then 2 * 2 ^ b + 1 else sz)))
      else Inr (na, sz))"
  by pat_completeness auto
termination
  by (relation "measure (\<lambda>(bins, nn, b, s, na, sz). length bins - b)") auto

declare bestasize_loop.simps [simp del]

text \<open>Returns the number of keys that go to the array part and its size.\<close>

definition bestasize :: "nat list \<Rightarrow> nat \<Rightarrow> (nat \<times> nat) res" where
  "bestasize bins nn = bestasize_loop bins nn 0 0 0 0"

definition hsize2hbits :: "nat \<Rightarrow> nat" where
  "hsize2hbits s = (if s \<noteq> 0 then (if s = 1 then 1 else 1 + lj_fls (s - 1)) else 0)"

definition rehashtab :: "newkey_fn \<Rightarrow> gctab \<Rightarrow> tval \<Rightarrow> gctab res" where
  "rehashtab nk t ek =
     (let bins = replicate LJ_MAX_ABITS 0;
          (bins, asize) = countarray t bins;
          tot = 1 + asize;
          (bins, na, nhash) = counthash t bins;
          asize = asize + na;
          tot = tot + nhash;
          (bins, c) = countint ek bins;
          asize = asize + c
      in rbind (bestasize bins asize) (\<lambda>(na, sz).
           resizetab nk t sz (hsize2hbits (tot - na))))"

definition tab_reasize :: "newkey_fn \<Rightarrow> gctab \<Rightarrow> nat \<Rightarrow> gctab res" where
  "tab_reasize nk t nasize = resizetab nk t (nasize + 1) (hmask2hbits (tb_hmask t))"

subsection \<open>Insertion of a new key\<close>

text \<open>Search downwards for a node with a nil key, from \<open>freetop\<close>.\<close>

fun find_free :: "node list \<Rightarrow> nat \<Rightarrow> nat option" where
  "find_free ns 0 = None"
| "find_free ns (Suc f) = (if nd_key (ns ! f) = TNil then Some f else find_free ns f)"

text \<open>The predecessor of node \<open>n\<close> on the chain that starts at \<open>c\<close>.\<close>

fun find_pred :: "node list \<Rightarrow> nat \<Rightarrow> nat \<Rightarrow> nat \<Rightarrow> nat res" where
  "find_pred ns n 0 c = Inl DIVERGE"
| "find_pred ns n (Suc f) c =
     (case nd_next (ns ! c) of
        None \<Rightarrow> Inl OOB
      | Some x \<Rightarrow> if x = n then Inr c else find_pred ns n f x)"

text \<open>Rechain pseudo-resurrected string keys with colliding hashes.\<close>

fun rechain :: "nat \<Rightarrow> nat \<Rightarrow> nat \<Rightarrow> node list \<Rightarrow> nat \<Rightarrow> node list res" where
  "rechain hmask n 0 ns freenode = Inl DIVERGE"
| "rechain hmask n (Suc f) ns freenode =
     (case nd_next (ns ! freenode) of
        None \<Rightarrow> Inr ns
      | Some nn \<Rightarrow>
          if tvisstr (nd_key (ns ! nn)) \<and> nd_val (ns ! nn) \<noteq> TNil \<and>
             hashmask hmask (key_hash (nd_key (ns ! nn))) = n
          then
            (let ns = ns[freenode := (ns ! freenode)\<lparr>nd_next := nd_next (ns ! nn)\<rparr>];
                 ns = ns[nn := (ns ! nn)\<lparr>nd_next := nd_next (ns ! n)\<rparr>];
                 ns = ns[n := (ns ! n)\<lparr>nd_next := Some nn\<rparr>]
             in rechain hmask n f ns freenode)
          else rechain hmask n f ns nn)"

definition norm_key :: "tval \<Rightarrow> tval" where
  "norm_key k = (if k = TNum num_mzero then TNum 0 else k)"

definition LJ_GC_BLACK :: byte where "LJ_GC_BLACK = 4"

definition anybarriert :: "gctab \<Rightarrow> gctab" where
  "anybarriert t =
     (if tb_marked t AND LJ_GC_BLACK \<noteq> 0
      then t\<lparr>tb_marked := tb_marked t AND NOT LJ_GC_BLACK, tb_grayagain := True\<rparr> else t)"

definition put_key :: "gctab \<Rightarrow> nat \<Rightarrow> tval \<Rightarrow> gctab \<times> slot" where
  "put_key t n key =
     (anybarriert (t\<lparr>tb_node := (tb_node t)[n := (tb_node t ! n)\<lparr>nd_key := norm_key key\<rparr>]\<rparr>), HSlot n)"

text \<open>The colliding node \<open>n\<close> does not belong to this chain: move it to \<open>fr\<close>.\<close>

definition move_colliding :: "nat \<Rightarrow> node list \<Rightarrow> nat \<Rightarrow> nat \<Rightarrow> nat \<Rightarrow> node list res" where
  "move_colliding hmask ns n fr collide =
     rbind (find_pred ns n (length ns) collide) (\<lambda>c.
       let ns = ns[c := (ns ! c)\<lparr>nd_next := Some fr\<rparr>];
           ns = ns[fr := (ns ! fr)\<lparr>nd_val := nd_val (ns ! n), nd_key := nd_key (ns ! n),
                                   nd_next := nd_next (ns ! n)\<rparr>];
           ns = ns[n := (ns ! n)\<lparr>nd_next := None, nd_val := TNil\<rparr>]
       in rechain hmask n (length ns) ns fr)"

definition insert_after :: "node list \<Rightarrow> nat \<Rightarrow> nat \<Rightarrow> node list" where
  "insert_after ns n fr =
     (let ns = ns[fr := (ns ! fr)\<lparr>nd_next := nd_next (ns ! n)\<rparr>]
      in ns[n := (ns ! n)\<lparr>nd_next := Some fr\<rparr>])"

definition newkey_step :: "newkey_fn \<Rightarrow> gctab \<Rightarrow> tval \<Rightarrow> (gctab \<times> slot) res" where
  "newkey_step nk t key =
     (let n = hashkey t key in
      if nd_val (tb_node t ! n) \<noteq> TNil \<or> tb_hmask t = 0 then
        (case find_free (tb_node t) (tb_freetop t) of
           None \<Rightarrow> rbind (rehashtab nk t key) (\<lambda>t. tab_set nk t key)
         | Some fr \<Rightarrow>
             (let t = t\<lparr>tb_freetop := fr\<rparr>;
                  collide = hashkey t (nd_key (tb_node t ! n)) in
              if collide \<noteq> n then
                rbind (move_colliding (tb_hmask t) (tb_node t) n fr collide) (\<lambda>ns.
                  Inr (put_key (t\<lparr>tb_node := ns\<rparr>) n key))
              else Inr (put_key (t\<lparr>tb_node := insert_after (tb_node t) n fr\<rparr>) fr key)))
      else Inr (put_key t n key))"

primrec newkey_n :: "nat \<Rightarrow> newkey_fn" where
  "newkey_n 0 = (\<lambda>t key. Inl DIVERGE)"
| "newkey_n (Suc f) = newkey_step (newkey_n f)"

text \<open>
  Two levels are enough (\<open>newkey_n_enough\<close> below): the insertions made while rehashing find a
  free node and do not rehash again.
\<close>

definition lj_tab_newkey :: newkey_fn where "lj_tab_newkey = newkey_n 2"

definition lj_tab_setinth :: "gctab \<Rightarrow> int \<Rightarrow> (gctab \<times> slot) res" where
  "lj_tab_setinth = tab_setinth lj_tab_newkey"

definition lj_tab_setint :: "gctab \<Rightarrow> int \<Rightarrow> (gctab \<times> slot) res" where
  "lj_tab_setint = tab_setint lj_tab_newkey"

definition lj_tab_setstr :: "gctab \<Rightarrow> byte list \<Rightarrow> (gctab \<times> slot) res" where
  "lj_tab_setstr = tab_setstr lj_tab_newkey"

definition lj_tab_set :: "gctab \<Rightarrow> tval \<Rightarrow> (gctab \<times> slot) res" where
  "lj_tab_set = tab_set lj_tab_newkey"

definition lj_tab_rehash :: "gctab \<Rightarrow> gctab res" where
  "lj_tab_rehash t = rehashtab lj_tab_newkey t TNil"

definition lj_tab_reasize :: "gctab \<Rightarrow> nat \<Rightarrow> gctab res" where
  "lj_tab_reasize = tab_reasize lj_tab_newkey"

subsection \<open>Traversal\<close>

definition keyindex :: "gctab \<Rightarrow> tval \<Rightarrow> int res" where
  "keyindex t key =
     (let hashpart =
        rbind (find_in t (\<lambda>k. lj_obj_equal k key) key) (\<lambda>r. case r of
          Some i \<Rightarrow> Inr (int (tb_asize t + i))
        | None \<Rightarrow>
            (case key of
               TNum w \<Rightarrow> if drop_bit 32 w = 0xfffe7fff then Inr (uint (ucast w :: u32) - 1)
                         else Inl ERR_NEXTIDX
             | _ \<Rightarrow> Inl ERR_NEXTIDX))
      in case key of
           TNil \<Rightarrow> Inr (-1)
         | TNum w \<Rightarrow> (case num_toint w of
             Some k \<Rightarrow> if inarray t k then Inr k else hashpart
           | None \<Rightarrow> hashpart)
         | _ \<Rightarrow> hashpart)"

function next_array :: "gctab \<Rightarrow> nat \<Rightarrow> nat" where
  "next_array t i =
     (if i < tb_asize t \<and> tb_array t ! i = TNil then next_array t (Suc i) else i)"
  by pat_completeness auto
termination
  by (relation "measure (\<lambda>(t, i). tb_asize t - i)") auto

function next_hash :: "gctab \<Rightarrow> nat \<Rightarrow> (tval \<times> tval) option" where
  "next_hash t i =
     (if i < length (tb_node t) then
        (if nd_val (tb_node t ! i) \<noteq> TNil
         then Some (nd_key (tb_node t ! i), nd_val (tb_node t ! i)) else next_hash t (Suc i))
      else None)"
  by pat_completeness auto
termination
  by (relation "measure (\<lambda>(t, i). length (tb_node t) - i)") auto

declare next_array.simps [simp del] next_hash.simps [simp del]

definition lj_tab_next :: "gctab \<Rightarrow> tval \<Rightarrow> (tval \<times> tval) option res" where
  "lj_tab_next t key =
     rbind (keyindex t key) (\<lambda>i0.
       let i = next_array t (nat (i0 + 1)) in
       Inr (if i < tb_asize t then Some (TNum (num_of_int (int i)), tb_array t ! i)
            else next_hash t (i - tb_asize t)))"

subsection \<open>Length\<close>

definition present :: "gctab \<Rightarrow> nat \<Rightarrow> bool res" where
  "present t j = rbind (lj_tab_getint t (int j)) (\<lambda>tv. Inr (tv \<noteq> None \<and> tv \<noteq> Some TNil))"

text \<open>\<open>while (tv(i) present) i++;\<close> the fuel is the number of slots.\<close>

fun linear_search :: "gctab \<Rightarrow> nat \<Rightarrow> nat \<Rightarrow> nat res" where
  "linear_search t 0 i = Inl DIVERGE"
| "linear_search t (Suc f) i =
     rbind (present t i) (\<lambda>p. if p then linear_search t f (Suc i) else Inr (i - 1))"

function bin_search :: "gctab \<Rightarrow> nat \<Rightarrow> nat \<Rightarrow> nat res" where
  "bin_search t i j =
     (if j - i > 1 then
        (let m = (i + j) div 2 in
         rbind (present t m) (\<lambda>p. if p then bin_search t m j else bin_search t i m))
      else Inr i)"
  by pat_completeness auto
termination
  by (relation "measure (\<lambda>(t, i, j). j - i)") auto

function unbound_loop :: "gctab \<Rightarrow> nat \<Rightarrow> nat \<Rightarrow> nat res" where
  "unbound_loop t i j =
     rbind (present t j) (\<lambda>p.
       if p then
         (if j = 0 then Inl DIVERGE
          else if 2 * j > 2147483647 - 2
          then linear_search t (tb_asize t + length (tb_node t) + 2) 1
          else unbound_loop t j (2 * j))
       else bin_search t i j)"
  by pat_completeness auto
termination
  by (relation "measure (\<lambda>(t, i, j). 2147483647 - j)") auto

declare bin_search.simps [simp del] unbound_loop.simps [simp del]

definition unbound_search :: "gctab \<Rightarrow> nat \<Rightarrow> nat res" where
  "unbound_search t j = unbound_loop t j (j + 1)"

function array_search :: "gctab \<Rightarrow> nat \<Rightarrow> nat \<Rightarrow> nat" where
  "array_search t i j =
     (if j - i > 1 then
        (let m = (i + j) div 2 in
         if tb_array t ! (m - 1) = TNil then array_search t i m else array_search t m j)
      else i - 1)"
  by pat_completeness auto
termination
  by (relation "measure (\<lambda>(t, i, j). j - i)") auto

declare array_search.simps [simp del]

definition lj_tab_len :: "gctab \<Rightarrow> nat res" where
  "lj_tab_len t =
     (let j = tb_asize t in
      if j > 1 \<and> tb_array t ! (j - 1) = TNil then Inr (array_search t 1 j)
      else
        (let j = (if j > 0 then j - 1 else j) in
         if tb_hmask t = 0 then Inr j else unbound_search t j))"

end
