(* ===== verification/LJ_TabChain.thy ===== *)
theory LJ_TabChain
  imports LJ_Tab
begin

text \<open>
  The hash chains.  \<open>nx ns\<close> is the successor function of the nodes \<open>ns\<close>, \<open>reach\<close> its
  reflexive-transitive closure.  The invariant \<open>hpart_ok mp ns\<close> says, for the main positions
  \<open>mp\<close>, that chains are finite and do not share nodes, that free nodes are on no chain and,
  the point of Brent's variation, that every key is reachable from its main position, whose
  node itself holds a key with that main position.
\<close>

definition nx :: "node list \<Rightarrow> nat \<Rightarrow> nat option" where
  "nx ns i = (if i < length ns then nd_next (ns ! i) else None)"

definition reach :: "(nat \<Rightarrow> nat option) \<Rightarrow> nat \<Rightarrow> nat \<Rightarrow> bool" where
  "reach f = (\<lambda>a b. f a = Some b)\<^sup>*\<^sup>*"

abbreviation ky :: "node list \<Rightarrow> nat \<Rightarrow> tval" where "ky ns i \<equiv> nd_key (ns ! i)"

definition kvalid :: "tval \<Rightarrow> bool" where
  "kvalid k \<longleftrightarrow> k \<noteq> TNil \<and> k \<noteq> TNum num_mzero \<and> (\<forall>w. k = TNum w \<longrightarrow> \<not> num_isnan w)"

definition links_ok :: "node list \<Rightarrow> bool" where
  "links_ok ns \<longleftrightarrow>
     (\<forall>i j. nx ns i = Some j \<longrightarrow> j < length ns \<and> ky ns j \<noteq> TNil \<and> ky ns i \<noteq> TNil) \<and>
     (\<exists>r :: nat \<Rightarrow> nat. \<forall>i j. nx ns i = Some j \<longrightarrow> r j < r i) \<and>
     (\<forall>i i' j. nx ns i = Some j \<longrightarrow> nx ns i' = Some j \<longrightarrow> i = i')"

definition mains_ok :: "(tval \<Rightarrow> nat) \<Rightarrow> node list \<Rightarrow> bool" where
  "mains_ok mp ns \<longleftrightarrow> (\<forall>i < length ns. ky ns i \<noteq> TNil \<longrightarrow>
     ky ns (mp (ky ns i)) \<noteq> TNil \<and> mp (ky ns (mp (ky ns i))) = mp (ky ns i) \<and>
     reach (nx ns) (mp (ky ns i)) i)"

definition keys_ok :: "node list \<Rightarrow> bool" where
  "keys_ok ns \<longleftrightarrow>
     (\<forall>i < length ns. ky ns i = TNil \<longrightarrow> nd_val (ns ! i) = TNil) \<and>
     (\<forall>i < length ns. ky ns i \<noteq> TNil \<longrightarrow> kvalid (ky ns i)) \<and>
     (\<forall>i < length ns. \<forall>j < length ns. ky ns i \<noteq> TNil \<longrightarrow> ky ns i = ky ns j \<longrightarrow> i = j)"

definition hpart_ok :: "(tval \<Rightarrow> nat) \<Rightarrow> node list \<Rightarrow> bool" where
  "hpart_ok mp ns \<longleftrightarrow> links_ok ns \<and> mains_ok mp ns \<and> keys_ok ns"

subsection \<open>Reachability\<close>

lemma reach_refl [simp, intro]: "reach f i i"
  by (simp add: reach_def)

lemma reach_step: "f i = Some j \<Longrightarrow> reach f j k \<Longrightarrow> reach f i k"
  unfolding reach_def by (rule converse_rtranclp_into_rtranclp)

lemma reach_snoc: "reach f i j \<Longrightarrow> f j = Some k \<Longrightarrow> reach f i k"
  unfolding reach_def by (rule rtranclp.rtrancl_into_rtrancl)

lemma reach_trans: "reach f i j \<Longrightarrow> reach f j k \<Longrightarrow> reach f i k"
  unfolding reach_def by (rule rtranclp_trans)

lemma reach_cases:
  assumes "reach f i k"
  obtains "i = k" | j where "f i = Some j" "reach f j k"
  using assms unfolding reach_def by (rule converse_rtranclpE) auto

lemma reach_rank:
  fixes r :: "nat \<Rightarrow> nat"
  assumes "reach f i j" "\<And>i j. f i = Some j \<Longrightarrow> r j < r i"
  shows "r j \<le> r i"
  using assms(1) unfolding reach_def
proof (induction rule: rtranclp.induct)
  case (rtrancl_into_rtrancl a b c)
  from assms(2) [OF rtrancl_into_rtrancl(2)] rtrancl_into_rtrancl(3)
  show ?case by (rule less_imp_le [OF less_le_trans])
qed (rule order_refl)

lemma reach_mono:
  assumes "reach f i j" "\<And>a b. f a = Some b \<Longrightarrow> reach g a b"
  shows "reach g i j"
  using assms(1) unfolding reach_def [of f]
  by (induction rule: rtranclp.induct) (auto intro: reach_trans assms(2))

text \<open>The nodes of the chain from \<open>i\<close>; following a link makes this set smaller.\<close>

definition chain_set :: "node list \<Rightarrow> nat \<Rightarrow> nat set" where
  "chain_set ns i = {j. reach (nx ns) i j}"

lemma links_rank:
  assumes "links_ok ns"
  obtains r :: "nat \<Rightarrow> nat" where "\<And>i j. nx ns i = Some j \<Longrightarrow> r j < r i"
  using assms unfolding links_ok_def by blast

lemma links_okD:
  assumes "links_ok ns" "nx ns i = Some j"
  shows "i < length ns" "j < length ns" "ky ns j \<noteq> TNil" "ky ns i \<noteq> TNil" "nx ns j \<noteq> Some j"
proof -
  obtain r :: "nat \<Rightarrow> nat" where r: "\<And>i j. nx ns i = Some j \<Longrightarrow> r j < r i"
    using links_rank [OF assms(1)] by blast
  show "nx ns j \<noteq> Some j" using r by blast
  show "i < length ns" using assms(2) by (simp add: nx_def split: if_splits)
qed (use assms in \<open>unfold links_ok_def, blast+\<close>)

lemma chain_set_bound:
  assumes "links_ok ns" "i < length ns"
  shows "chain_set ns i \<subseteq> {..<length ns}"
proof
  fix j
  assume "j \<in> chain_set ns i"
  then have "reach (nx ns) i j" by (simp add: chain_set_def)
  then have "j < length ns"
    unfolding reach_def using assms(2)
    by (induction rule: rtranclp.induct) (auto dest: links_okD(2) [OF assms(1)])
  then show "j \<in> {..<length ns}" by simp
qed

lemma chain_set_self [simp]: "i \<in> chain_set ns i"
  by (simp add: chain_set_def)

lemma chain_set_next:
  assumes "links_ok ns" "nx ns i = Some j"
  shows "chain_set ns i = insert i (chain_set ns j)" "i \<notin> chain_set ns j"
proof -
  show "chain_set ns i = insert i (chain_set ns j)"
    using assms(2) by (auto simp: chain_set_def elim: reach_cases intro: reach_step)
  obtain r :: "nat \<Rightarrow> nat" where r: "\<And>i j. nx ns i = Some j \<Longrightarrow> r j < r i"
    using links_rank [OF assms(1)] by blast
  show "i \<notin> chain_set ns j"
    using reach_rank [of "nx ns" j i r, OF _ r] r [OF assms(2)]
    by (auto simp: chain_set_def)
qed

lemma chain_set_end: "nx ns i = None \<Longrightarrow> chain_set ns i = {i}"
  by (auto simp: chain_set_def elim: reach_cases)

lemma card_chain_set:
  assumes "links_ok ns" "i < length ns"
  shows "card (chain_set ns i) \<le> length ns" "0 < card (chain_set ns i)" "finite (chain_set ns i)"
proof -
  have s: "chain_set ns i \<subseteq> {..<length ns}" by (rule chain_set_bound [OF assms])
  then show f: "finite (chain_set ns i)" by (rule finite_subset) simp
  show "card (chain_set ns i) \<le> length ns" using card_mono [OF _ s] by simp
  show "0 < card (chain_set ns i)"
    using f by (metis card_gt_0_iff chain_set_self empty_iff)
qed

lemma card_chain_set_next:
  assumes "links_ok ns" "nx ns i = Some j"
  shows "card (chain_set ns i) = Suc (card (chain_set ns j))"
  using chain_set_next [OF assms] card_chain_set(3) [OF assms(1) links_okD(2) [OF assms]] by simp

text \<open>Induction along a chain, with the fuel that is enough for it.\<close>

lemma chain_induct [consumes 2, case_names last step]:
  assumes "links_ok ns" "i < length ns"
    and "\<And>i. i < length ns \<Longrightarrow> nx ns i = None \<Longrightarrow> P i"
    and "\<And>i j. nx ns i = Some j \<Longrightarrow> P j \<Longrightarrow> P i"
  shows "P i"
  using assms(2)
proof (induction "card (chain_set ns i)" arbitrary: i rule: less_induct)
  case less
  show ?case
  proof (cases "nx ns i")
    case None
    with less.prems show ?thesis by (rule assms(3))
  next
    case (Some j)
    have "P j" using less.hyps [of j] card_chain_set_next [OF assms(1) Some]
        links_okD(2) [OF assms(1) Some] by simp
    with Some show ?thesis by (rule assms(4))
  qed
qed

lemma nx_lt: "i < length ns \<Longrightarrow> nx ns i = nd_next (ns ! i)"
  by (simp add: nx_def)

lemma chain_find_spec:
  assumes "links_ok ns" "i < length ns" "card (chain_set ns i) \<le> f"
  shows "chain_find P ns f i = Inr None \<and> (\<forall>j \<in> chain_set ns i. \<not> P (ky ns j)) \<or>
    (\<exists>j. chain_find P ns f i = Inr (Some j) \<and> j \<in> chain_set ns i \<and> P (ky ns j))"
  using assms
proof (induction arbitrary: f rule: chain_induct)
  case (last i)
  then obtain g where "f = Suc g"
    using card_chain_set(2) [OF assms(1) last(1)] by (cases f) auto
  with last show ?case by (auto simp: nx_lt chain_set_end split: option.splits)
next
  case (step i j)
  note n = links_okD [OF assms(1) step(1)]
  obtain g where g: "f = Suc g" "card (chain_set ns j) \<le> g"
    using step card_chain_set_next [OF assms(1) step(1)] by (cases f) auto
  show ?case
  proof (cases "P (ky ns i)")
    case True
    with g show ?thesis by auto
  next
    case False
    with g step(1) n(1) have "chain_find P ns f i = chain_find P ns g j" by (simp add: nx_lt)
    with step(2) [OF g(2)] False chain_set_next(1) [OF assms(1) step(1)] show ?thesis by auto
  qed
qed

lemma find_pred_spec:
  assumes "links_ok ns" "c < length ns" "card (chain_set ns c) \<le> f" "reach (nx ns) c n" "c \<noteq> n"
  shows "\<exists>p. find_pred ns n f c = Inr p \<and> nx ns p = Some n"
  using assms
proof (induction arbitrary: f rule: chain_induct)
  case (last i)
  then show ?case by (auto elim: reach_cases)
next
  case (step i j)
  note nn = links_okD [OF assms(1) step(1)]
  obtain g where g: "f = Suc g" "card (chain_set ns j) \<le> g"
    using step card_chain_set_next [OF assms(1) step(1)] by (cases f) auto
  have "reach (nx ns) j n" using step by (auto elim: reach_cases)
  then show ?case
    using step(1,2) g nn(1) by (cases "j = n") (auto simp: nx_lt)
qed

lemma rechain_noop:
  assumes "links_ok ns" "i < length ns" "card (chain_set ns i) \<le> f"
    and "\<forall>j < length ns. ky ns j \<noteq> TNil \<longrightarrow> hashmask hm (key_hash (ky ns j)) \<noteq> n"
  shows "rechain hm n f ns i = Inr ns"
  using assms
proof (induction arbitrary: f rule: chain_induct)
  case (last i)
  then obtain g where "f = Suc g"
    using card_chain_set(2) [OF assms(1) last(1)] by (cases f) auto
  with last show ?case by (auto simp: nx_lt)
next
  case (step i j)
  note nn = links_okD [OF assms(1) step(1)]
  obtain g where g: "f = Suc g" "card (chain_set ns j) \<le> g"
    using step card_chain_set_next [OF assms(1) step(1)] by (cases f) auto
  with step nn show ?case by (simp add: nx_lt)
qed

end
