(* ===== verification/LJ_TabNewkey.thy ===== *)
theory LJ_TabNewkey
  imports LJ_TabChain
begin

text \<open>
  The three ways in which a key enters the hash part, and what the hash part holds:
  \<open>hmap ns k\<close> is the value stored for the key \<open>k\<close>, nil when there is none.
\<close>

abbreviation vl :: "node list \<Rightarrow> nat \<Rightarrow> tval" where "vl ns i \<equiv> nd_val (ns ! i)"

definition hmap :: "node list \<Rightarrow> tval \<Rightarrow> tval" where
  "hmap ns k = (case List.find (\<lambda>nd. nd_key nd = k) ns of None \<Rightarrow> TNil | Some nd \<Rightarrow> nd_val nd)"

lemma find_cases_nth:
  obtains "List.find P xs = None" "\<And>i. i < length xs \<Longrightarrow> \<not> P (xs ! i)"
  | j where "List.find P xs = Some (xs ! j)" "j < length xs" "P (xs ! j)"
proof (cases "List.find P xs")
  case None
  then have "\<not> (\<exists>x. x \<in> set xs \<and> P x)" by (simp only: find_None_iff not_False_eq_True)
  then have "\<not> P (xs ! i)" if "i < length xs" for i using nth_mem [OF that] by blast
  with None show ?thesis by (rule that(1))
next
  case (Some x)
  then obtain j where "j < length xs" "P (xs ! j)" "x = xs ! j"
    unfolding find_Some_iff by blast
  with Some show ?thesis using that(2) by blast
qed

lemma hmap_none:
  assumes "\<forall>i < length ns. ky ns i \<noteq> k"
  shows "hmap ns k = TNil"
proof (rule find_cases_nth [of "\<lambda>nd. nd_key nd = k" ns])
  assume "List.find (\<lambda>nd. nd_key nd = k) ns = None"
  then show ?thesis unfolding hmap_def by (simp only: option.case)
qed (use assms in blast)

lemma keys_okD:
  assumes "keys_ok ns" "i < length ns"
  shows "vl ns i \<noteq> TNil \<Longrightarrow> ky ns i \<noteq> TNil" "ky ns i \<noteq> TNil \<Longrightarrow> kvalid (ky ns i)"
    "j < length ns \<Longrightarrow> ky ns i \<noteq> TNil \<Longrightarrow> ky ns i = ky ns j \<Longrightarrow> i = j"
  using assms unfolding keys_ok_def by blast+

lemma hmap_some:
  assumes "keys_ok ns" "i < length ns" "ky ns i = k" "k \<noteq> TNil"
  shows "hmap ns k = vl ns i"
proof (rule find_cases_nth [of "\<lambda>nd. nd_key nd = k" ns])
  fix j assume j: "List.find (\<lambda>nd. nd_key nd = k) ns = Some (ns ! j)" "j < length ns" "ky ns j = k"
  then have "i = j" using keys_okD(3) [OF assms(1,2) j(2)] assms(3,4) by simp
  with j show ?thesis by (simp add: hmap_def)
qed (use assms in blast)

lemma hmap_transfer:
  assumes "keys_ok ns'" "length ns' = length ns" "k \<noteq> TNil" "keys_ok ns"
    and fw: "\<And>i. i < length ns \<Longrightarrow> ky ns i = k \<Longrightarrow>
      vl ns i = TNil \<and> (\<forall>j < length ns. ky ns' j \<noteq> k)
      \<or> (\<exists>j < length ns. ky ns' j = k \<and> vl ns' j = vl ns i)"
    and bw: "\<And>j. j < length ns \<Longrightarrow> ky ns' j = k \<Longrightarrow> \<exists>i < length ns. ky ns i = k"
  shows "hmap ns' k = hmap ns k"
proof (cases "\<exists>i < length ns. ky ns i = k")
  case True
  then obtain i where i: "i < length ns" "ky ns i = k" by blast
  then have h: "hmap ns k = vl ns i" using hmap_some assms by blast
  from fw [OF i] show ?thesis
    using h hmap_none [of ns' k] hmap_some [OF assms(1), of _ k] assms(2,3) by auto
next
  case False
  then have "\<forall>i < length ns. ky ns' i \<noteq> k" using bw by blast
  with False show ?thesis using hmap_none assms(2) by metis
qed

text \<open>
  \<open>ns'\<close> is \<open>ns\<close> with the key \<open>k\<close> added at node \<open>i\<close>, which takes up the node \<open>fr\<close>.
\<close>

definition key_added ::
  "(tval \<Rightarrow> nat) \<Rightarrow> node list \<Rightarrow> tval \<Rightarrow> node list \<Rightarrow> nat \<Rightarrow> nat \<Rightarrow> bool" where
  "key_added mp ns k ns' i fr \<longleftrightarrow>
     hpart_ok mp ns' \<and> length ns' = length ns \<and> i < length ns \<and> ky ns' i = k \<and> vl ns' i = TNil \<and>
     (\<forall>k'. k' \<noteq> k \<longrightarrow> k' \<noteq> TNil \<longrightarrow> hmap ns' k' = hmap ns k') \<and>
     (\<forall>j < length ns. ky ns' j = TNil \<longleftrightarrow> j \<noteq> fr \<and> ky ns j = TNil) \<and>
     (\<forall>j < length ns. ky ns' j = TNil \<or> ky ns' j = k \<or> (\<exists>i < length ns. ky ns' j = ky ns i))"

definition new_for :: "(tval \<Rightarrow> nat) \<Rightarrow> node list \<Rightarrow> tval \<Rightarrow> bool" where
  "new_for mp ns k \<longleftrightarrow> kvalid k \<and> mp k < length ns \<and> (\<forall>i < length ns. ky ns i \<noteq> k)"

lemma mains_okD:
  assumes "mains_ok mp ns" "i < length ns" "ky ns i \<noteq> TNil"
  shows "ky ns (mp (ky ns i)) \<noteq> TNil" "mp (ky ns (mp (ky ns i))) = mp (ky ns i)"
    "reach (nx ns) (mp (ky ns i)) i"
  using assms unfolding mains_ok_def by blast+

lemma links_ok_cong:
  "length ns' = length ns \<Longrightarrow> nx ns' = nx ns \<Longrightarrow> (\<And>j. ky ns' j = TNil \<longleftrightarrow> ky ns j = TNil) \<Longrightarrow>
   links_ok ns' \<longleftrightarrow> links_ok ns"
  by (simp add: links_ok_def)

subsection \<open>The main position is unused\<close>

lemma put_unused:
  assumes ok: "hpart_ok mp ns" and new: "new_for mp ns k" and "vl ns (mp k) = TNil"
  defines "n \<equiv> mp k"
  defines "ns' \<equiv> ns[n := (ns ! n)\<lparr>nd_key := k\<rparr>]"
  shows "key_added mp ns k ns' n n"
proof -
  have l: "links_ok ns" and m: "mains_ok mp ns" and ks: "keys_ok ns"
    using ok by (auto simp: hpart_ok_def)
  have k: "kvalid k" "n < length ns" "\<And>i. i < length ns \<Longrightarrow> ky ns i \<noteq> k" "k \<noteq> TNil"
    using new by (auto simp: new_for_def n_def kvalid_def)
  have len: "length ns' = length ns" by (simp add: ns'_def)
  have key: "ky ns' i = (if i = n then k else ky ns i)" for i
    using k(2) by (simp add: ns'_def nth_list_update)
  have val: "vl ns' i = vl ns i" for i
    using k(2) by (simp add: ns'_def nth_list_update)
  have nxt: "nx ns' = nx ns"
    using k(2) by (auto simp: nx_def ns'_def nth_list_update fun_eq_iff)
  have l': "links_ok ns'"
    using l k(4) unfolding links_ok_def nxt len key by simp
  have m': "mains_ok mp ns'"
    unfolding mains_ok_def len key nxt
  proof (intro allI impI)
    fix i assume i: "i < length ns" "(if i = n then k else ky ns i) \<noteq> TNil"
    show "(if mp (if i = n then k else ky ns i) = n then k
            else ky ns (mp (if i = n then k else ky ns i))) \<noteq> TNil \<and>
        mp (if mp (if i = n then k else ky ns i) = n then k
            else ky ns (mp (if i = n then k else ky ns i))) = mp (if i = n then k else ky ns i) \<and>
        reach (nx ns) (mp (if i = n then k else ky ns i)) i"
      using i k(4) mains_okD [OF m i(1)] by (auto simp: n_def)
  qed
  have ks': "keys_ok ns'"
    using ks k assms(3) unfolding keys_ok_def len key val n_def by auto
  have h: "hmap ns' k' = hmap ns k'" if "k' \<noteq> k" "k' \<noteq> TNil" for k'
  proof (rule hmap_transfer [OF ks' len that(2) ks])
    fix i assume i: "i < length ns" "ky ns i = k'"
    then show "vl ns i = TNil \<and> (\<forall>j<length ns. ky ns' j \<noteq> k') \<or>
        (\<exists>j<length ns. ky ns' j = k' \<and> vl ns' j = vl ns i)"
      using that keys_okD(3) [OF ks i(1)] assms(3) unfolding key val n_def by metis
  next
    fix j assume "j < length ns" "ky ns' j = k'"
    then show "\<exists>i<length ns. ky ns i = k'" using that by (auto simp: key split: if_splits)
  qed
  show ?thesis
    unfolding key_added_def hpart_ok_def
    using l' m' ks' len k h assms(3) by (auto simp: key val n_def)
qed

subsection \<open>The main position holds a key of the same chain\<close>

lemma put_after:
  assumes ok: "hpart_ok mp ns" and new: "new_for mp ns k" and "vl ns (mp k) \<noteq> TNil"
    and main: "mp (ky ns (mp k)) = mp k" and fr: "fr < length ns" "ky ns fr = TNil"
  defines "n \<equiv> mp k"
  defines "ns1 \<equiv> insert_after ns n fr"
  defines "ns' \<equiv> ns1[fr := (ns1 ! fr)\<lparr>nd_key := k\<rparr>]"
  shows "key_added mp ns k ns' fr fr"
proof -
  have l: "links_ok ns" and m: "mains_ok mp ns" and ks: "keys_ok ns"
    using ok by (auto simp: hpart_ok_def)
  have k: "kvalid k" "n < length ns" "\<And>i. i < length ns \<Longrightarrow> ky ns i \<noteq> k" "k \<noteq> TNil"
    using new by (auto simp: new_for_def n_def kvalid_def)
  have kn: "ky ns n \<noteq> TNil" using keys_okD(1) [OF ks k(2)] assms(3) by (simp add: n_def)
  then have nf: "n \<noteq> fr" using fr by auto
  have len: "length ns' = length ns" by (simp add: ns'_def ns1_def insert_after_def Let_def)
  have key: "ky ns' i = (if i = fr then k else ky ns i)" for i
    using k(2) fr nf by (simp add: ns'_def ns1_def insert_after_def Let_def nth_list_update)
  have val: "vl ns' i = vl ns i" for i
    using k(2) fr by (simp add: ns'_def ns1_def insert_after_def Let_def nth_list_update)
  have nxt: "nx ns' = (nx ns)(fr := nx ns n, n := Some fr)"
    using k(2) fr nf by (auto simp: nx_def ns'_def ns1_def insert_after_def Let_def nth_list_update fun_eq_iff)
  have nofr: "nx ns i \<noteq> Some fr" "nx ns fr = None" for i
    using links_okD(3,4) [OF l] fr(2) by (metis, metis not_None_eq)
  have inj: "i = i'" if "nx ns i = Some j" "nx ns i' = Some j" for i i' j
    using l that unfolding links_ok_def by blast
  obtain r where r: "\<And>i j. nx ns i = Some j \<Longrightarrow> r j < (r i :: nat)"
    using links_rank [OF l] by blast
  have l': "links_ok ns'"
    unfolding links_ok_def len
  proof (intro conjI allI impI exI)
    fix i j assume "nx ns' i = Some j"
    then show "j < length ns" "ky ns' j \<noteq> TNil" "ky ns' i \<noteq> TNil"
      using links_okD [OF l] k fr kn by (auto simp: nxt key split: if_splits)
  next
    fix i j assume "nx ns' i = Some j"
    then show "(if j = fr then 2 * r n + 1 else 2 * r j + 2) < (if i = fr then 2 * r n + 1 else 2 * r i + 2)"
      using r [of i j] r [of n j] nf nofr by (auto simp: nxt split: if_splits)
  next
    fix i i' j assume "nx ns' i = Some j" "nx ns' i' = Some j"
    then show "i = i'"
      using inj [of i j i'] inj [of n j i'] inj [of i j n] nf nofr
      by (auto simp: nxt split: if_splits)
  qed
  have stp: "reach (nx ns') a b" if "nx ns a = Some b" for a b
  proof (cases "a = n")
    case True
    then have "nx ns' fr = Some b" "nx ns' n = Some fr" using that nf by (simp_all add: nxt)
    with True show ?thesis by (blast intro: reach_step)
  next
    case False
    then have "nx ns' a = Some b" using that nofr by (auto simp: nxt)
    then show ?thesis by (blast intro: reach_step)
  qed
  have rch: "reach (nx ns') a b" if "reach (nx ns) a b" for a b
    using that stp by (rule reach_mono)
  have m': "mains_ok mp ns'"
    unfolding mains_ok_def len
  proof (intro allI impI)
    fix i assume i: "i < length ns" "ky ns' i \<noteq> TNil"
    show "ky ns' (mp (ky ns' i)) \<noteq> TNil \<and> mp (ky ns' (mp (ky ns' i))) = mp (ky ns' i)
      \<and> reach (nx ns') (mp (ky ns' i)) i"
    proof (cases "i = fr")
      case True
      then have "nx ns' n = Some i" using nf by (simp add: nxt)
      then show ?thesis
        using True main kn nf by (auto simp: key n_def [symmetric] intro: reach_step)
    next
      case False
      then have "ky ns i \<noteq> TNil" using i by (simp add: key)
      note M = mains_okD [OF m i(1) this]
      then have "mp (ky ns i) \<noteq> fr" using fr by auto
      then show ?thesis using M False rch by (simp add: key)
    qed
  qed
  have vf: "vl ns fr = TNil" using keys_okD(1) [OF ks fr(1)] fr(2) by blast
  have ks': "keys_ok ns'"
    using ks k fr vf unfolding keys_ok_def len key val by auto
  have h: "hmap ns' k' = hmap ns k'" if "k' \<noteq> k" "k' \<noteq> TNil" for k'
  proof (rule hmap_transfer [OF ks' len that(2) ks])
    fix i assume i: "i < length ns" "ky ns i = k'"
    then show "vl ns i = TNil \<and> (\<forall>j<length ns. ky ns' j \<noteq> k') \<or>
        (\<exists>j<length ns. ky ns' j = k' \<and> vl ns' j = vl ns i)"
      using that fr unfolding key val by metis
  next
    fix j assume "j < length ns" "ky ns' j = k'"
    then show "\<exists>i<length ns. ky ns i = k'" using that by (auto simp: key split: if_splits)
  qed
  show ?thesis
    unfolding key_added_def hpart_ok_def
    using l' m' ks' len k h fr vf by (auto simp: key val)
qed

subsection \<open>The main position holds a key of another chain\<close>

definition moved :: "node list \<Rightarrow> nat \<Rightarrow> nat \<Rightarrow> nat \<Rightarrow> node list" where
  "moved ns n fr c =
     (let ns = ns[c := (ns ! c)\<lparr>nd_next := Some fr\<rparr>];
          ns = ns[fr := (ns ! fr)\<lparr>nd_val := nd_val (ns ! n), nd_key := nd_key (ns ! n),
                                  nd_next := nd_next (ns ! n)\<rparr>]
      in ns[n := (ns ! n)\<lparr>nd_next := None, nd_val := TNil\<rparr>])"

lemma moved_simps:
  assumes "c < length ns" "n < length ns" "fr < length ns" "c \<noteq> n" "c \<noteq> fr" "n \<noteq> fr"
  shows "length (moved ns n fr c) = length ns"
    "ky (moved ns n fr c) i = (if i = fr then ky ns n else ky ns i)"
    "vl (moved ns n fr c) i = (if i = fr then vl ns n else if i = n then TNil else vl ns i)"
    "nx (moved ns n fr c) = (nx ns)(c := Some fr, fr := nx ns n, n := None)"
  using assms
  by (auto simp: moved_def Let_def nth_list_update nx_def fun_eq_iff)

lemma moved_links:
  assumes l: "links_ok ns" and c: "nx ns c = Some n"
    and fr: "fr < length ns" "ky ns fr = TNil" and kn: "ky ns n \<noteq> TNil"
  shows "links_ok (moved ns n fr c)"
    "\<And>a b. reach (nx ns) a b \<Longrightarrow> a \<noteq> n \<Longrightarrow> reach (nx (moved ns n fr c)) a (if b = n then fr else b)"
proof -
  note C = links_okD [OF l c]
  have ne: "c \<noteq> n" "c \<noteq> fr" "n \<noteq> fr" using C fr kn c by auto
  note M = moved_simps [OF C(1,2) fr(1) ne]
  have nofr: "nx ns i \<noteq> Some fr" "nx ns fr = None" for i
    using links_okD(3,4) [OF l] fr(2) by (metis, metis not_None_eq)
  have inj: "i = i'" if "nx ns i = Some j" "nx ns i' = Some j" for i i' j
    using l that unfolding links_ok_def by blast
  obtain r where r: "\<And>i j. nx ns i = Some j \<Longrightarrow> r j < (r i :: nat)"
    using links_rank [OF l] by blast
  show "links_ok (moved ns n fr c)"
    unfolding links_ok_def M(1)
  proof (intro conjI allI impI exI)
    fix i j assume "nx (moved ns n fr c) i = Some j"
    then show "j < length ns" "ky (moved ns n fr c) j \<noteq> TNil" "ky (moved ns n fr c) i \<noteq> TNil"
      using links_okD [OF l] fr kn C by (auto simp: M(2,4) split: if_splits)
  next
    fix i j assume "nx (moved ns n fr c) i = Some j"
    then show "(r(fr := r n)) j < (r(fr := r n)) i"
      using r [of i j] r [of n j] r [OF c] ne nofr by (auto simp: M(4) split: if_splits)
  next
    fix i i' j assume "nx (moved ns n fr c) i = Some j" "nx (moved ns n fr c) i' = Some j"
    then show "i = i'"
      using inj [of i j i'] inj [of n j i'] inj [of i j n] ne nofr
      by (auto simp: M(4) split: if_splits)
  qed
  show "reach (nx (moved ns n fr c)) a (if b = n then fr else b)"
    if "reach (nx ns) a b" "a \<noteq> n" for a b
    using that(1) unfolding reach_def [of "nx ns"]
  proof (induction rule: rtranclp_induct)
    case base
    then show ?case using that(2) by simp
  next
    case (step b d)
    show ?case
    proof (cases "b = n")
      case True
      then have "nx (moved ns n fr c) fr = Some d" "d \<noteq> n"
        using step(2) ne links_okD(5) [OF l] by (auto simp: M(4))
      then show ?thesis using True step(3) by (auto intro: reach_snoc)
    next
      case False
      have "nx (moved ns n fr c) b = Some (if d = n then fr else d)"
        using step(2) False ne nofr inj [OF c, of b] c by (auto simp: M(4))
      then show ?thesis using False step(3) by (auto intro: reach_snoc)
    qed
  qed
qed

lemma put_moved:
  assumes ok: "hpart_ok mp ns" and new: "new_for mp ns k" and "vl ns (mp k) \<noteq> TNil"
    and main: "mp (ky ns (mp k)) \<noteq> mp k" and fr: "fr < length ns" "ky ns fr = TNil"
    and c: "nx ns c = Some (mp k)"
  defines "n \<equiv> mp k"
  defines "ns1 \<equiv> moved ns n fr c"
  defines "ns' \<equiv> ns1[n := (ns1 ! n)\<lparr>nd_key := k\<rparr>]"
  shows "key_added mp ns k ns' n fr"
proof -
  have l: "links_ok ns" and m: "mains_ok mp ns" and ks: "keys_ok ns"
    using ok by (auto simp: hpart_ok_def)
  have k: "kvalid k" "n < length ns" "\<And>i. i < length ns \<Longrightarrow> ky ns i \<noteq> k" "k \<noteq> TNil"
    using new by (auto simp: new_for_def n_def kvalid_def)
  have kn: "ky ns n \<noteq> TNil" using keys_okD(1) [OF ks k(2)] assms(3) by (simp add: n_def)
  have nomain: "mp (ky ns i) \<noteq> n" if "i < length ns" "ky ns i \<noteq> TNil" for i
    using mains_okD(2) [OF m that] main by (auto simp: n_def)
  note cn = c [folded n_def]
  note C = links_okD [OF l cn]
  have ne: "c \<noteq> n" "c \<noteq> fr" "n \<noteq> fr" using C fr kn cn by auto
  note M = moved_simps [OF C(1,2) fr(1) ne, folded ns1_def]
  note L = moved_links [OF l cn fr kn, folded ns1_def]
  have len: "length ns' = length ns" by (simp add: ns'_def M)
  have key: "ky ns' i = (if i = n then k else if i = fr then ky ns n else ky ns i)" for i
    using k(2) ne by (simp add: ns'_def M nth_list_update)
  have val: "vl ns' i = (if i = fr then vl ns n else if i = n then TNil else vl ns i)" for i
    using k(2) by (simp add: ns'_def M nth_list_update)
  have nxt: "nx ns' = nx ns1"
    using k(2) by (auto simp: nx_def ns'_def M(1-3) nth_list_update fun_eq_iff)
  have l': "links_ok ns'"
    using L(1) k(4) kn ne(3) by (subst links_ok_cong [of _ ns1]) (auto simp: len M(1,2) nxt key)
  have m': "mains_ok mp ns'"
    unfolding mains_ok_def len
  proof (intro allI impI)
    fix i assume i: "i < length ns" "ky ns' i \<noteq> TNil"
    show "ky ns' (mp (ky ns' i)) \<noteq> TNil \<and> mp (ky ns' (mp (ky ns' i))) = mp (ky ns' i)
      \<and> reach (nx ns') (mp (ky ns' i)) i"
    proof (cases "i = n")
      case True
      then show ?thesis using k(4) by (simp add: key n_def [symmetric])
    next
      case False
      define i0 where "i0 = (if i = fr then n else i)"
      have e: "ky ns' i = ky ns i0" and i0: "i0 < length ns" "ky ns i0 \<noteq> TNil"
        "(if i0 = n then fr else i0) = i"
        using False i k(2) kn by (auto simp: key i0_def)
      note m0 = mains_okD [OF m i0(1,2)]
      have mn: "mp (ky ns i0) \<noteq> n" "mp (ky ns i0) \<noteq> fr"
        using nomain [OF i0(1,2)] m0(1) fr(2) by auto
      have "ky ns' (mp (ky ns i0)) = ky ns (mp (ky ns i0))" using mn by (simp add: key)
      with m0 L(2) [OF m0(3) mn(1)] show ?thesis unfolding e nxt i0(3) by simp
    qed
  qed
  have inj: "i = j" if "i < length ns" "j < length ns" "ky ns i \<noteq> TNil" "ky ns i = ky ns j" for i j
    using keys_okD(3) [OF ks that] .
  have ks': "keys_ok ns'"
    unfolding keys_ok_def len
  proof (intro conjI allI impI)
    fix i assume i: "i < length ns"
    show "vl ns' i = TNil" if "ky ns' i = TNil"
      using that i keys_okD(1) [OF ks i] k(4) kn by (auto simp: key val split: if_splits)
    show "kvalid (ky ns' i)" if "ky ns' i \<noteq> TNil"
      using that keys_okD(2) [OF ks] i k(1,2) by (auto simp: key split: if_splits)
    fix j assume j: "j < length ns" "ky ns' i \<noteq> TNil" "ky ns' i = ky ns' j"
    define old where "old x = (if x = fr then n else x)" for x
    have old: "old x < length ns" "ky ns' x = ky ns (old x)" if "x < length ns" "x \<noteq> n" for x
      using that k(2) by (auto simp: key old_def)
    show "i = j"
    proof (cases "i = n \<or> j = n")
      case True
      have "ky ns' n = k" by (simp add: key)
      then show ?thesis using True j i k(3) old by metis
    next
      case False
      then have "ky ns (old i) \<noteq> TNil" "ky ns (old i) = ky ns (old j)"
        using old [OF i] old [OF j(1)] j by auto
      then have "old i = old j" using inj old(1) False i j(1) by blast
      then show ?thesis using False by (auto simp: old_def split: if_splits)
    qed
  qed
  have h: "hmap ns' k' = hmap ns k'" if k': "k' \<noteq> k" "k' \<noteq> TNil" for k'
  proof (rule hmap_transfer [OF ks' len that(2) ks])
    fix i assume i: "i < length ns" "ky ns i = k'"
    define j where "j = (if i = n then fr else i)"
    have "j < length ns" "ky ns' j = k'" "vl ns' j = vl ns i"
      using i k' fr ne by (auto simp: j_def key val)
    then show "vl ns i = TNil \<and> (\<forall>j<length ns. ky ns' j \<noteq> k') \<or>
        (\<exists>j<length ns. ky ns' j = k' \<and> vl ns' j = vl ns i)" by blast
  next
    fix j assume "j < length ns" "ky ns' j = k'"
    then show "\<exists>i<length ns. ky ns i = k'" using that k(2) by (auto simp: key split: if_splits)
  qed
  show ?thesis
    unfolding key_added_def hpart_ok_def
    using l' m' ks' len k h fr kn ne by (auto simp: key val)
qed

end
