(* ===== verification/LJ_TabSpec.thy ===== *)
theory LJ_TabSpec
  imports LJ_TabNewkey
begin

text \<open>
  The abstract view of a table: \<open>tab_map t\<close> is the finite map it stands for, \<open>tab_ok t\<close> its
  representation invariant and \<open>slot_for t s k\<close> says that the slot \<open>s\<close> belongs to the key \<open>k\<close>.
  Lookup computes the map; storing into a slot updates the map.
\<close>

definition key_int :: "tval \<Rightarrow> int option" where
  "key_int k = (case k of TNum w \<Rightarrow> num_toint w | _ \<Rightarrow> None)"

definition tab_map :: "gctab \<Rightarrow> tval \<Rightarrow> tval" where
  "tab_map t k =
     (case key_int k of
        Some i \<Rightarrow> if inarray t i then tb_array t ! nat i else hmap (tb_node t) (norm_key k)
      | None \<Rightarrow> if k = TNil then TNil else hmap (tb_node t) (norm_key k))"

definition tab_ok :: "gctab \<Rightarrow> bool" where
  "tab_ok t \<longleftrightarrow>
     hpart_ok (hashkey t) (tb_node t) \<and>
     (\<exists>b \<le> LJ_MAX_HBITS. length (tb_node t) = 2 ^ b) \<and>
     (tb_hmask t = 0 \<longrightarrow> tb_node t = [nilnode] \<and> tb_freetop t = 0) \<and>
     tb_freetop t \<le> length (tb_node t) \<and>
     (tb_hmask t > 0 \<longrightarrow> (\<forall>i < length (tb_node t). tb_freetop t \<le> i \<longrightarrow> ky (tb_node t) i \<noteq> TNil)) \<and>
     tb_asize t \<le> LJ_MAX_ASIZE \<and>
     (\<forall>i < length (tb_node t). \<forall>j. key_int (ky (tb_node t) i) = Some j \<longrightarrow> \<not> inarray t j)"

definition slot_for :: "gctab \<Rightarrow> slot \<Rightarrow> tval \<Rightarrow> bool" where
  "slot_for t s k \<longleftrightarrow> (case s of
     ASlot i \<Rightarrow> i < tb_asize t \<and> key_int k = Some (int i)
   | HSlot i \<Rightarrow> i < length (tb_node t) \<and> kvalid (norm_key k) \<and> ky (tb_node t) i = norm_key k \<and>
       (\<forall>j. key_int k = Some j \<longrightarrow> \<not> inarray t j))"

lemma tab_okD:
  assumes "tab_ok t"
  shows "hpart_ok (hashkey t) (tb_node t)" "links_ok (tb_node t)" "mains_ok (hashkey t) (tb_node t)"
    "keys_ok (tb_node t)" "0 < length (tb_node t)" "length (tb_node t) \<le> 2 ^ 26"
    "tb_freetop t \<le> length (tb_node t)" "tb_asize t \<le> LJ_MAX_ASIZE"
    "tb_hmask t = 0 \<Longrightarrow> tb_node t = [nilnode]" "tb_hmask t = 0 \<Longrightarrow> tb_freetop t = 0"
    "length (tb_node t) = Suc (tb_hmask t)"
proof -
  obtain b where b: "b \<le> 26" "length (tb_node t) = 2 ^ b"
    using assms by (auto simp: tab_ok_def LJ_MAX_HBITS_def)
  then show "0 < length (tb_node t)" by simp
  then show "length (tb_node t) = Suc (tb_hmask t)" by (simp add: tb_hmask_def)
  show "length (tb_node t) \<le> 2 ^ 26" unfolding b(2) using b(1) by (intro power_increasing) auto
qed (use assms in \<open>auto simp: tab_ok_def hpart_ok_def\<close>)

lemma hashkey_lt:
  assumes "0 < length (tb_node t)" "length (tb_node t) \<le> 2 ^ 26"
  shows "hashkey t k < length (tb_node t)"
proof -
  have "unat (of_nat (tb_hmask t) :: u32) = tb_hmask t"
    using assms by (subst of_nat_inverse [OF refl]) (simp_all add: tb_hmask_def)
  moreover have "unat (key_hash k AND of_nat (tb_hmask t)) \<le> unat (of_nat (tb_hmask t) :: u32)"
    by (rule unat_and_le)
  ultimately have "hashkey t k \<le> tb_hmask t" unfolding hashkey_def hashmask_def by simp
  moreover have "tb_hmask t < length (tb_node t)" unfolding tb_hmask_def using assms(1) by simp
  ultimately show ?thesis by (rule le_less_trans)
qed

lemmas tab_hashkey_lt = hashkey_lt [OF tab_okD(5,6)]

subsection \<open>Keys\<close>

lemma nan_no_int: "num_isnan w \<Longrightarrow> num_toint w = None"
  by (simp add: num_isnan_def num_toint_def)

lemma toint_mzero: "num_toint num_mzero = Some 0"
  by (simp add: num_toint_def num_mzero_def num_exp_def num_man_def)

lemma num_of_int_0 [simp]: "num_of_int 0 = 0"
  by (simp add: num_of_int_def)

lemma int_key_valid: "int32 k \<Longrightarrow> kvalid (TNum (num_of_int k))"
  using num_toint_of_int [of k] nan_no_int [of "num_of_int k"] toint_mzero
  by (cases "k = 0") (auto simp: kvalid_def num_mzero_def)

lemma key_int_Some:
  assumes "key_int k = Some i"
  shows "int32 i" "norm_key k = TNum (num_of_int i)" "key_int (norm_key k) = Some i"
proof -
  obtain w where w: "k = TNum w" "num_toint w = Some i"
    using assms by (auto simp: key_int_def split: tval.splits)
  show i: "int32 i" using num_toint_Some [OF w(2)] by simp
  show "norm_key k = TNum (num_of_int i)"
    using num_toint_Some(2) [OF w(2)] int_key_valid [OF i]
    by (auto simp: norm_key_def w(1) kvalid_def)
  then show "key_int (norm_key k) = Some i" by (simp add: key_int_def num_toint_of_int [OF i])
qed

lemma key_int_None_norm: "key_int k = None \<Longrightarrow> norm_key k = k"
  by (auto simp: norm_key_def key_int_def toint_mzero)

lemma kvalid_norm: "kvalid k \<Longrightarrow> norm_key k = k"
  by (auto simp: kvalid_def norm_key_def)

lemma key_int_norm: "key_int (norm_key k) = key_int k"
  by (cases "key_int k") (simp_all add: key_int_Some(3) key_int_None_norm)

lemma norm_norm [simp]: "norm_key (norm_key k) = norm_key k"
  by (auto simp: norm_key_def num_mzero_def)

lemma norm_nil [simp]: "norm_key k = TNil \<longleftrightarrow> k = TNil" "TNil = norm_key k \<longleftrightarrow> k = TNil"
  by (auto simp: norm_key_def)

lemma tab_map_norm: "tab_map t (norm_key k) = tab_map t k"
  by (simp add: tab_map_def key_int_norm split: option.split)

lemma num_eq_valid: "kvalid (TNum v) \<Longrightarrow> kvalid (TNum w) \<Longrightarrow> num_eq v w \<longleftrightarrow> v = w"
  by (auto simp: num_eq_def kvalid_def)

lemma num_eq_nan: "num_isnan w \<Longrightarrow> \<not> num_eq v w"
  by (simp add: num_eq_def)

lemma is_num_key_int: "int32 i \<Longrightarrow> kvalid k \<Longrightarrow> is_num_key (num_of_int i) k \<longleftrightarrow> k = TNum (num_of_int i)"
  by (cases k) (auto simp: is_num_key_def num_eq_valid int_key_valid)

lemma is_str_key_iff: "is_str_key s k \<longleftrightarrow> k = TStr s"
  by (cases k) (auto simp: is_str_key_def)

lemma obj_equal_key:
  assumes "kvalid k'" "key \<noteq> TNum num_mzero"
  shows "lj_obj_equal k' key \<longleftrightarrow> k' = key"
proof (cases "\<exists>v w. k' = TNum v \<and> key = TNum w")
  case True
  then obtain v w where [simp]: "k' = TNum v" "key = TNum w" by blast
  show ?thesis
    using assms num_eq_valid [of v w] num_eq_nan [of w v]
    by (cases "num_isnan w") (auto simp: kvalid_def)
next
  case False
  then show ?thesis by (cases k'; cases key) auto
qed

lemma obj_equal_nil: "key \<noteq> TNil \<Longrightarrow> \<not> lj_obj_equal TNil key"
  by (cases key) auto

subsection \<open>Lookup\<close>

lemma find_in_spec:
  assumes ok: "tab_ok t" and P: "\<And>k'. kvalid k' \<Longrightarrow> P k' \<longleftrightarrow> k' = k" and N: "\<not> P TNil"
  shows "find_in t P k = Inr None \<and> (\<forall>i < length (tb_node t). ky (tb_node t) i = k \<longrightarrow> k = TNil) \<or>
    (\<exists>i. find_in t P k = Inr (Some i) \<and> i < length (tb_node t) \<and> ky (tb_node t) i = k \<and> kvalid k)"
proof -
  let ?ns = "tb_node t" and ?h = "hashkey t k"
  note D = tab_okD [OF ok]
  have h: "?h < length ?ns" by (rule tab_hashkey_lt [OF ok ok])
  have Pk: "kvalid (ky ?ns i)" "ky ?ns i = k" if "i < length ?ns" "P (ky ?ns i)" for i
  proof -
    have "ky ?ns i \<noteq> TNil" using that(2) N by auto
    then show "kvalid (ky ?ns i)" by (rule keys_okD(2) [OF D(4) that(1)])
    with that(2) P show "ky ?ns i = k" by blast
  qed
  from chain_find_spec [OF D(2) h card_chain_set(1) [OF D(2) h], of P]
  show ?thesis
  proof
    assume a: "chain_find P ?ns (length ?ns) ?h = Inr None \<and> (\<forall>j \<in> chain_set ?ns ?h. \<not> P (ky ?ns j))"
    have "k = TNil" if i: "i < length ?ns" "ky ?ns i = k" for i
    proof (rule ccontr)
      assume k: "k \<noteq> TNil"
      then have kn: "ky ?ns i \<noteq> TNil" using i by simp
      have "reach (nx ?ns) ?h i" using mains_okD(3) [OF D(3) i(1) kn] i(2) by simp
      then have "\<not> P (ky ?ns i)" using a by (simp add: chain_set_def)
      moreover have "kvalid k" using keys_okD(2) [OF D(4) i(1) kn] i(2) by simp
      ultimately show False using P i(2) by simp
    qed
    with a show ?thesis by (simp add: find_in_def)
  next
    assume "\<exists>j. chain_find P ?ns (length ?ns) ?h = Inr (Some j) \<and> j \<in> chain_set ?ns ?h \<and> P (ky ?ns j)"
    then obtain j where j: "chain_find P ?ns (length ?ns) ?h = Inr (Some j)"
      "j \<in> chain_set ?ns ?h" "P (ky ?ns j)" by blast
    have jl: "j < length ?ns" using chain_set_bound [OF D(2) h] j(2) by auto
    have "kvalid k" using Pk [OF jl j(3)] by simp
    then show ?thesis using j(1) jl Pk(2) [OF jl j(3)] by (simp add: find_in_def)
  qed
qed

lemma hmap_of_find:
  assumes "tab_ok t" "\<And>k'. kvalid k' \<Longrightarrow> P k' \<longleftrightarrow> k' = k" "\<not> P TNil" "k \<noteq> TNil"
  shows "or_nil (rbind (find_in t P k) (\<lambda>r. Inr (map_option (\<lambda>i. vl (tb_node t) i) r)))
    = Inr (hmap (tb_node t) k)"
  using find_in_spec [OF assms(1), of P k, OF assms(2,3)]
proof
  assume "find_in t P k = Inr None \<and> (\<forall>i<length (tb_node t). ky (tb_node t) i = k \<longrightarrow> k = TNil)"
  then show ?thesis using hmap_none [of "tb_node t" k] assms(4) by (auto simp: or_nil_def)
next
  assume "\<exists>i. find_in t P k = Inr (Some i) \<and> i < length (tb_node t) \<and> ky (tb_node t) i = k \<and> kvalid k"
  then obtain i where i: "find_in t P k = Inr (Some i)" "i < length (tb_node t)" "ky (tb_node t) i = k"
    by blast
  show ?thesis
    using hmap_some [OF tab_okD(4) [OF assms(1)] i(2,3) assms(4)] i(1) by (simp add: or_nil_def)
qed

lemma hmap_nan: "tab_ok t \<Longrightarrow> num_isnan w \<Longrightarrow> hmap (tb_node t) (TNum w) = TNil"
  by (rule hmap_none) (use keys_okD(2) [OF tab_okD(4)] in \<open>fastforce simp: kvalid_def\<close>)

lemma lj_tab_getint_ok:
  assumes "tab_ok t" "int32 i"
  shows "or_nil (lj_tab_getint t i) = Inr (tab_map t (TNum (num_of_int i)))"
proof -
  have k: "key_int (TNum (num_of_int i)) = Some i"
    by (simp add: key_int_def num_toint_of_int [OF assms(2)])
  have n: "norm_key (TNum (num_of_int i)) = TNum (num_of_int i)"
    by (rule kvalid_norm [OF int_key_valid [OF assms(2)]])
  have "or_nil (lj_tab_getinth t i) = Inr (hmap (tb_node t) (TNum (num_of_int i)))"
    unfolding lj_tab_getinth_def Let_def
    by (rule hmap_of_find [OF assms(1)])
      (simp_all add: is_num_key_int assms(2), simp add: is_num_key_def)
  then show ?thesis
    by (auto simp: lj_tab_getint_def tab_map_def k n or_nil_def)
qed

lemma lj_tab_getstr_ok:
  assumes "tab_ok t"
  shows "or_nil (lj_tab_getstr t s) = Inr (tab_map t (TStr s))"
  unfolding lj_tab_getstr_def
  using hmap_of_find [OF assms, of "is_str_key s" "TStr s"]
  by (simp add: is_str_key_iff tab_map_def key_int_def norm_key_def)

lemma genlookup_ok:
  assumes "tab_ok t" "key_int k = None" "k \<noteq> TNil"
  shows "genlookup t k = Inr (tab_map t k)"
proof -
  have "k \<noteq> TNum num_mzero" using assms(2) by (auto simp: key_int_def toint_mzero)
  then have "genlookup t k = Inr (hmap (tb_node t) k)"
    unfolding genlookup_def using assms(1,3)
    by (intro hmap_of_find) (simp_all add: obj_equal_key obj_equal_nil)
  then show ?thesis using assms by (simp add: tab_map_def key_int_None_norm)
qed

lemma tab_get_map:
  assumes "tab_ok t"
  shows "lj_tab_get t k = Inr (tab_map t k)"
proof (cases "key_int k")
  case None
  show ?thesis
  proof (cases k)
    case TNil
    then show ?thesis by (simp add: lj_tab_get_def tab_map_def key_int_def)
  qed (use None genlookup_ok [OF assms None] lj_tab_getstr_ok [OF assms] in
    \<open>simp_all add: lj_tab_get_def key_int_def\<close>)
next
  case (Some i)
  then obtain w where w: "k = TNum w" "num_toint w = Some i"
    by (auto simp: key_int_def split: tval.splits)
  then show ?thesis
    using lj_tab_getint_ok [OF assms key_int_Some(1) [OF Some]] key_int_Some(2) [OF Some]
      tab_map_norm [of t k] by (simp add: lj_tab_get_def)
qed

end
