(* ===== verification/LJ_TabSet.thy ===== *)
theory LJ_TabSet
  imports LJ_TabSpec
begin

text \<open>
  Stores into slots and insertions that find room: the invariant is kept and the map
  changes at the key only.
\<close>

lemma hashkey_cong: "length (tb_node t') = length (tb_node t) \<Longrightarrow> hashkey t' = hashkey t"
  by (simp add: hashkey_def tb_hmask_def fun_eq_iff)

lemma tab_cong:
  assumes "tb_node t' = tb_node t" "tb_array t' = tb_array t" "tb_freetop t' = tb_freetop t"
  shows "tab_ok t' = tab_ok t" "tab_map t' = tab_map t" "slot_for t' = slot_for t"
    "find_in t' = find_in t" "inarray t' = inarray t"
proof -
  have h: "hashkey t' = hashkey t" by (rule hashkey_cong) (simp add: assms)
  have i: "inarray t' = inarray t" by (simp add: inarray_def tb_asize_def assms fun_eq_iff)
  show "tab_ok t' = tab_ok t" unfolding tab_ok_def h i tb_hmask_def tb_asize_def assms ..
  show "tab_map t' = tab_map t" unfolding tab_map_def i assms fun_eq_iff by simp
  show "slot_for t' = slot_for t" unfolding slot_for_def i assms tb_asize_def fun_eq_iff by simp
  show "find_in t' = find_in t" unfolding find_in_def h assms fun_eq_iff by simp
  show "inarray t' = inarray t" by (rule i)
qed

lemma anybarriert_simps [simp]:
  "tb_node (anybarriert t) = tb_node t" "tb_array (anybarriert t) = tb_array t"
  "tb_freetop (anybarriert t) = tb_freetop t"
  by (simp_all add: anybarriert_def)

lemmas tab_cong_barrier [simp] = tab_cong [OF anybarriert_simps]

lemma tab_cong_nomm [simp]:
  "tab_ok (t\<lparr>tb_nomm := x\<rparr>) = tab_ok t" "tab_map (t\<lparr>tb_nomm := x\<rparr>) = tab_map t"
  "slot_for (t\<lparr>tb_nomm := x\<rparr>) = slot_for t" "find_in (t\<lparr>tb_nomm := x\<rparr>) = find_in t"
  "inarray (t\<lparr>tb_nomm := x\<rparr>) = inarray t"
  by (simp_all add: tab_cong [of "t\<lparr>tb_nomm := x\<rparr>" t])

definition nkeys :: "gctab \<Rightarrow> nat" where
  "nkeys t = count_if (\<lambda>nd. nd_key nd \<noteq> TNil) (tb_node t)"

subsection \<open>Storing into a slot\<close>

lemma slot_put_array [simp]:
  "tb_asize (slot_put t s v) = tb_asize t" "inarray (slot_put t s v) = inarray t"
  by (auto simp: slot_put_def tb_asize_def inarray_def fun_eq_iff split: slot.split)

lemma slot_put_node:
  "length (tb_node (slot_put t s v)) = length (tb_node t)"
  "nd_key (tb_node (slot_put t s v) ! i) = nd_key (tb_node t ! i)"
  "nx (tb_node (slot_put t s v)) = nx (tb_node t)"
  "tb_freetop (slot_put t s v) = tb_freetop t"
  "tb_hmask (slot_put t s v) = tb_hmask t"
  "hashkey (slot_put t s v) = hashkey t"
proof -
  show l: "length (tb_node (slot_put t s v)) = length (tb_node t)"
    by (simp add: slot_put_def split: slot.split)
  show "hashkey (slot_put t s v) = hashkey t" by (rule hashkey_cong [OF l])
  show "tb_hmask (slot_put t s v) = tb_hmask t" by (simp add: tb_hmask_def l)
  show "nd_key (tb_node (slot_put t s v) ! i) = nd_key (tb_node t ! i)" for i
    by (cases s) (auto simp: slot_put_def nth_list_update_all split: slot.split)
  show "nx (tb_node (slot_put t s v)) = nx (tb_node t)"
    by (cases s) (auto simp: slot_put_def nx_def fun_eq_iff nth_list_update_all)
  show "tb_freetop (slot_put t s v) = tb_freetop t"
    by (simp add: slot_put_def split: slot.split)
qed

lemma slot_put_val:
  "nd_val (tb_node (slot_put t s v) ! i) =
     (if s = HSlot i \<and> i < length (tb_node t) then v else nd_val (tb_node t ! i))"
  by (cases s) (auto simp: slot_put_def nth_list_update_all)

lemma nkeys_eqI:
  "length (tb_node t') = length (tb_node t) \<Longrightarrow>
   (\<And>i. ky (tb_node t') i = TNil \<longleftrightarrow> ky (tb_node t) i = TNil) \<Longrightarrow> nkeys t' = nkeys t"
  unfolding nkeys_def length_filter_conv_card by simp

lemma tab_ok_put:
  assumes ok: "tab_ok t" and s: "slot_for t s k"
  shows "tab_ok (slot_put t s v)"
proof -
  let ?t = "slot_put t s v"
  note D = tab_okD [OF ok]
  have keys: "keys_ok (tb_node ?t)"
    using D(4) s unfolding keys_ok_def slot_put_node slot_put_val
    by (auto simp: slot_for_def kvalid_def)
  have "hpart_ok (hashkey ?t) (tb_node ?t)"
    using D(2,3) keys unfolding hpart_ok_def links_ok_def mains_ok_def slot_put_node by simp
  moreover have "tb_hmask t = 0 \<longrightarrow> tb_node ?t = [nilnode]"
  proof
    assume h: "tb_hmask t = 0"
    then have n: "tb_node t = [nilnode]" using D(9) by simp
    show "tb_node ?t = [nilnode]"
    proof (cases s)
      case (HSlot i)
      then have "ky (tb_node t) i \<noteq> TNil" "i < length (tb_node t)"
        using s by (auto simp: slot_for_def kvalid_def)
      then show ?thesis unfolding n by (simp add: nilnode_def)
    qed (simp add: slot_put_def n)
  qed
  ultimately show ?thesis
    using ok unfolding tab_ok_def slot_put_node slot_put_array by simp
qed

lemma same_norm_int: "norm_key k' = norm_key k \<Longrightarrow> key_int k' = key_int k"
  by (metis key_int_norm)

lemma tab_map_put:
  assumes ok: "tab_ok t" and s: "slot_for t s k"
  shows "tab_map (slot_put t s v) k' = (if norm_key k' = norm_key k then v else tab_map t k')"
proof (cases s)
  case (ASlot i)
  then have k: "key_int k = Some (int i)" "i < tb_asize t" "inarray t (int i)"
    using s by (auto simp: slot_for_def inarray_def)
  have nn: "norm_key k' = norm_key k \<longleftrightarrow> key_int k' = Some (int i)"
    using key_int_Some(2) [OF k(1)] key_int_Some(2) [of k' "int i"] k(1)
      same_norm_int [of k' k] by auto
  show ?thesis
    unfolding nn using k(2,3)
    by (auto simp: tab_map_def ASlot slot_put_def nth_list_update_all tb_asize_def inarray_def
        split: option.split)
next
  case (HSlot i)
  let ?t = "slot_put t s v"
  have i: "i < length (tb_node t)" "kvalid (norm_key k)" "ky (tb_node t) i = norm_key k"
    "\<And>j. key_int k = Some j \<Longrightarrow> \<not> inarray t j"
    using s HSlot by (auto simp: slot_for_def)
  have kn: "norm_key k \<noteq> TNil" using i(2) by (auto simp: kvalid_def)
  have K: "keys_ok (tb_node t)" "keys_ok (tb_node ?t)"
    using tab_okD(4) ok tab_ok_put [OF assms] by blast+
  have l: "length (tb_node ?t) = length (tb_node t)" by (rule slot_put_node)
  have arr: "tb_array ?t = tb_array t" by (simp add: slot_put_def HSlot)
  show ?thesis
  proof (cases "norm_key k' = norm_key k")
    case True
    have "hmap (tb_node ?t) (norm_key k) = v"
      using hmap_some [OF K(2), of i "norm_key k"] i kn
      by (simp add: slot_put_node slot_put_val HSlot)
    moreover have "key_int k' = key_int k" by (rule same_norm_int [OF True])
    moreover have "k' \<noteq> TNil"
    proof
      assume "k' = TNil"
      then have "norm_key k' = TNil" by (simp only: norm_nil)
      with True kn show False by simp
    qed
    ultimately show ?thesis using True i(4) by (auto simp: tab_map_def split: option.split)
  next
    case False
    have "hmap (tb_node ?t) (norm_key k') = hmap (tb_node t) (norm_key k')" if "k' \<noteq> TNil"
    proof (rule hmap_transfer [OF K(2) l _ K(1)])
      show "norm_key k' \<noteq> TNil" using that by simp
    next
      fix j assume j: "j < length (tb_node t)" "ky (tb_node t) j = norm_key k'"
      then have "j \<noteq> i" using False i(3) by metis
      then have "ky (tb_node ?t) j = norm_key k'" "vl (tb_node ?t) j = vl (tb_node t) j"
        using j by (simp_all add: slot_put_node slot_put_val HSlot)
      then show "vl (tb_node t) j = TNil \<and> (\<forall>ja<length (tb_node t). ky (tb_node ?t) ja \<noteq> norm_key k') \<or>
         (\<exists>ja<length (tb_node t). ky (tb_node ?t) ja = norm_key k' \<and>
            vl (tb_node ?t) ja = vl (tb_node t) j)"
        using j(1) by blast
    next
      fix j assume "j < length (tb_node t)" "ky (tb_node ?t) j = norm_key k'"
      then show "\<exists>i<length (tb_node t). ky (tb_node t) i = norm_key k'"
        by (auto simp: slot_put_node)
    qed
    moreover have "k' \<noteq> TNil" if "key_int k' = Some j" for j
      using that by (auto simp: key_int_def)
    ultimately show ?thesis using False by (auto simp: tab_map_def arr split: option.split)
  qed
qed

subsection \<open>Insertion without rehashing\<close>

definition new_key :: "gctab \<Rightarrow> tval \<Rightarrow> bool" where
  "new_key t k \<longleftrightarrow> kvalid k \<and> (\<forall>i < length (tb_node t). ky (tb_node t) i \<noteq> k) \<and>
     (\<forall>j. key_int k = Some j \<longrightarrow> \<not> inarray t j)"

text \<open>\<open>t'\<close> has the contents of \<open>t\<close>, and \<open>s\<close> is the slot of \<open>k\<close> in it.\<close>

definition has_slot :: "gctab \<Rightarrow> tval \<Rightarrow> gctab \<Rightarrow> slot \<Rightarrow> bool" where
  "has_slot t k t' s \<longleftrightarrow> tab_ok t' \<and> slot_for t' s k \<and> tab_map t' = tab_map t"

definition same_size :: "gctab \<Rightarrow> gctab \<Rightarrow> bool" where
  "same_size t t' \<longleftrightarrow> tb_asize t' = tb_asize t \<and> length (tb_node t') = length (tb_node t) \<and>
     nkeys t' \<le> Suc (nkeys t)"

lemma find_free_Some:
  assumes "find_free ns f = Some i"
  shows "i < f" "nd_key (ns ! i) = TNil" "\<forall>j. i < j \<longrightarrow> j < f \<longrightarrow> nd_key (ns ! j) \<noteq> TNil"
  using assms by (induction f) (auto split: if_splits simp: less_Suc_eq)

lemma find_free_None: "find_free ns f = None \<Longrightarrow> j < f \<Longrightarrow> nd_key (ns ! j) \<noteq> TNil"
  by (induction f) (auto split: if_splits simp: less_Suc_eq)

lemma nkeys_added:
  assumes "length (tb_node t') = length (tb_node t)"
    and "\<forall>j < length (tb_node t). ky (tb_node t') j = TNil \<longleftrightarrow> j \<noteq> fr \<and> ky (tb_node t) j = TNil"
  shows "nkeys t' \<le> Suc (nkeys t)"
proof -
  have "{i. i < length (tb_node t') \<and> ky (tb_node t') i \<noteq> TNil}
      \<subseteq> insert fr {i. i < length (tb_node t) \<and> ky (tb_node t) i \<noteq> TNil}"
    using assms by auto
  then have "nkeys t' \<le> card (insert fr {i. i < length (tb_node t) \<and> ky (tb_node t) i \<noteq> TNil})"
    unfolding nkeys_def length_filter_conv_card by (intro card_mono) auto
  also have "\<dots> \<le> Suc (nkeys t)"
    unfolding nkeys_def length_filter_conv_card by (simp add: card_insert_if)
  finally show ?thesis .
qed

lemma put_key_added:
  assumes ok: "tab_ok t" and new: "new_key t k" and h: "tb_hmask t > 0"
    and added: "key_added (hashkey t) (tb_node t) k (ns[i := (ns ! i)\<lparr>nd_key := k\<rparr>]) i fr"
    and ft: "f \<le> length (tb_node t)"
      "\<forall>j < length (tb_node t). f \<le> j \<longrightarrow> j = fr \<or> ky (tb_node t) j \<noteq> TNil"
  defines "r \<equiv> put_key (t\<lparr>tb_freetop := f, tb_node := ns\<rparr>) i k"
  shows "has_slot t k (fst r) (snd r)" "same_size t (fst r)"
proof -
  define ns' where "ns' = ns[i := (ns ! i)\<lparr>nd_key := k\<rparr>]"
  define t0 where "t0 = t\<lparr>tb_freetop := f, tb_node := ns'\<rparr>"
  have kv: "kvalid k" "norm_key k = k" "k \<noteq> TNil"
    using new kvalid_norm by (auto simp: new_key_def kvalid_def)
  note A = added [folded ns'_def, unfolded key_added_def]
  have r: "fst r = anybarriert t0" "snd r = HSlot i"
    by (simp_all add: r_def put_key_def t0_def ns'_def kv(2))
  have t0: "tb_node t0 = ns'" "tb_array t0 = tb_array t" "tb_freetop t0 = f"
    by (simp_all add: t0_def)
  have l: "length ns' = length (tb_node t)" using A by simp
  have hk: "hashkey t0 = hashkey t" by (rule hashkey_cong) (simp add: t0 l)
  have ia: "inarray t0 = inarray t" by (simp add: inarray_def tb_asize_def t0 fun_eq_iff)
  have hm: "tb_hmask t0 = tb_hmask t" by (simp add: tb_hmask_def t0 l)
  have ok0: "tab_ok t0"
    unfolding tab_ok_def hk hm ia t0 l
  proof (intro conjI)
    show "hpart_ok (hashkey t) ns'" using A by blast
    show "\<exists>b\<le>LJ_MAX_HBITS. length (tb_node t) = 2 ^ b" using ok by (simp add: tab_ok_def)
    show "tb_hmask t = 0 \<longrightarrow> ns' = [nilnode] \<and> f = 0" using h by simp
    show "f \<le> length (tb_node t)" by (rule ft)
    show "0 < tb_hmask t \<longrightarrow> (\<forall>i<length (tb_node t). f \<le> i \<longrightarrow> ky ns' i \<noteq> TNil)"
      using A ft(2) by metis
    show "tb_asize t0 \<le> LJ_MAX_ASIZE" using tab_okD(8) [OF ok] by (simp add: tb_asize_def t0)
    show "\<forall>i<length (tb_node t). \<forall>j. key_int (ky ns' i) = Some j \<longrightarrow> \<not> inarray t j"
    proof (intro allI impI)
      fix j m assume j: "j < length (tb_node t)" "key_int (ky ns' j) = Some m"
      then have "ky ns' j = k \<or> (\<exists>i<length (tb_node t). ky ns' j = ky (tb_node t) i)"
        using A by (auto simp: key_int_def)
      then show "\<not> inarray t m"
      proof
        assume "ky ns' j = k" then show ?thesis using new j(2) by (simp add: new_key_def)
      next
        assume "\<exists>i<length (tb_node t). ky ns' j = ky (tb_node t) i"
        then show ?thesis using ok j(2) unfolding tab_ok_def by metis
      qed
    qed
  qed
  have "slot_for t0 (HSlot i) k"
    using A kv new by (simp add: slot_for_def t0 l new_key_def ia)
  moreover have "tab_map t0 = tab_map t"
  proof
    fix k'
    have "hmap ns' (norm_key k') = hmap (tb_node t) (norm_key k')" if "k' \<noteq> TNil"
    proof (cases "norm_key k' = k")
      case True
      have "hmap ns' k = TNil"
        using hmap_some [of ns' i k] A l kv(3) by (simp add: hpart_ok_def)
      moreover have "hmap (tb_node t) k = TNil" using new hmap_none by (auto simp: new_key_def)
      ultimately show ?thesis using True by simp
    qed (use A that in auto)
    moreover have "k' \<noteq> TNil" if "key_int k' = Some j" for j
      using that by (auto simp: key_int_def)
    ultimately show "tab_map t0 k' = tab_map t k'"
      by (auto simp: tab_map_def ia t0 split: option.split)
  qed
  ultimately show "has_slot t k (fst r) (snd r)" using ok0 by (simp add: has_slot_def r)
  have "nkeys t0 \<le> Suc (nkeys t)"
    by (rule nkeys_added [of _ _ fr]) (use A l in \<open>auto simp: t0\<close>)
  then show "same_size t (fst r)"
    by (simp add: same_size_def r nkeys_def tb_asize_def t0 l)
qed

definition direct :: "gctab \<Rightarrow> tval \<Rightarrow> bool" where
  "direct t k \<longleftrightarrow> tb_hmask t > 0 \<and>
     (vl (tb_node t) (hashkey t k) = TNil \<or> find_free (tb_node t) (tb_freetop t) \<noteq> None)"

lemma move_colliding_moved:
  assumes ok: "tab_ok t" and "n < length (tb_node t)" "ky (tb_node t) n \<noteq> TNil"
    and "hashkey t (ky (tb_node t) n) \<noteq> n" and fr: "fr < length (tb_node t)" "ky (tb_node t) fr = TNil"
  shows "\<exists>c. nx (tb_node t) c = Some n \<and>
    move_colliding (tb_hmask t) (tb_node t) n fr (hashkey t (ky (tb_node t) n)) =
      Inr (moved (tb_node t) n fr c)"
proof -
  let ?ns = "tb_node t" and ?m = "hashkey t (ky (tb_node t) n)"
  note D = tab_okD [OF ok]
  have h: "?m < length ?ns" by (rule tab_hashkey_lt [OF ok ok])
  note M = mains_okD [OF D(3) assms(2,3)]
  obtain c where c: "find_pred ?ns n (length ?ns) ?m = Inr c" "nx ?ns c = Some n"
    using find_pred_spec [OF D(2) h card_chain_set(1) [OF D(2) h] M(3) assms(4)] by blast
  note C = links_okD [OF D(2) c(2)]
  have ne: "c \<noteq> n" "c \<noteq> fr" "n \<noteq> fr" using C fr assms(3) c(2) by auto
  note S = moved_simps [OF C(1) assms(2) fr(1) ne]
  have L: "links_ok (moved ?ns n fr c)" by (rule moved_links [OF D(2) c(2) fr assms(3)])
  have nm: "hashmask (tb_hmask t) (key_hash (ky (moved ?ns n fr c) j)) \<noteq> n"
    if j: "j < length ?ns" "ky (moved ?ns n fr c) j \<noteq> TNil" for j
  proof -
    obtain i where i: "i < length ?ns" "ky (moved ?ns n fr c) j = ky ?ns i"
      using j(1) assms(2) S(2) [of j] by (cases "j = fr") auto
    have "hashkey t (ky ?ns i) \<noteq> n"
      using mains_okD(2) [OF D(3) i(1)] assms(4) i(2) j(2) by auto
    then show ?thesis unfolding i(2) by (simp add: hashkey_def)
  qed
  have "rechain (tb_hmask t) n (length ?ns) (moved ?ns n fr c) fr = Inr (moved ?ns n fr c)"
    by (rule rechain_noop [OF L])
      (use fr(1) nm card_chain_set(1) [OF L, of fr] in \<open>simp_all add: S\<close>)
  then have "move_colliding (tb_hmask t) ?ns n fr ?m = Inr (moved ?ns n fr c)"
    unfolding move_colliding_def c(1) by (simp add: moved_def Let_def)
  with c(2) show ?thesis by blast
qed

lemma newkey_direct:
  assumes ok: "tab_ok t" and new: "new_key t k" and d: "direct t k"
  shows "\<exists>t' s. newkey_step nk t k = Inr (t', s) \<and> has_slot t k t' s \<and> same_size t t'"
proof -
  let ?ns = "tb_node t" and ?n = "hashkey t k"
  note D = tab_okD [OF ok]
  have n: "?n < length ?ns" by (rule tab_hashkey_lt [OF ok ok])
  have h: "tb_hmask t > 0" using d by (simp add: direct_def)
  have nf: "new_for (hashkey t) ?ns k" using new n by (simp add: new_for_def new_key_def)
  have ftl: "ky ?ns j \<noteq> TNil" if "j < length ?ns" "tb_freetop t \<le> j" for j
    using ok h that by (auto simp: tab_ok_def)
  show ?thesis
  proof (cases "vl ?ns ?n = TNil")
    case True
    have "newkey_step nk t k = Inr (put_key (t\<lparr>tb_freetop := tb_freetop t, tb_node := ?ns\<rparr>) ?n k)"
      using True h by (simp add: newkey_step_def)
    moreover note put_key_added [OF ok new h put_unused [OF D(1) nf True] D(7)]
    ultimately show ?thesis using ftl by (metis prod.collapse)
  next
    case False
    then obtain fr where f: "find_free ?ns (tb_freetop t) = Some fr"
      using d by (auto simp: direct_def)
    note F = find_free_Some [OF f]
    have fl: "fr < length ?ns" "fr \<le> length ?ns" using F(1) D(7) by simp_all
    have ft: "\<forall>j < length ?ns. fr \<le> j \<longrightarrow> j = fr \<or> ky ?ns j \<noteq> TNil"
      using F(3) ftl by (metis le_neq_implies_less not_less)
    have kn: "ky ?ns ?n \<noteq> TNil" using keys_okD(1) [OF D(4) n] False by blast
    show ?thesis
    proof (cases "hashkey t (ky ?ns ?n) = ?n")
      case True
      have "newkey_step nk t k =
          Inr (put_key (t\<lparr>tb_freetop := fr, tb_node := insert_after ?ns ?n fr\<rparr>) fr k)"
        using True False f by (simp add: newkey_step_def hashkey_def tb_hmask_def)
      moreover note put_key_added [OF ok new h put_after [OF D(1) nf False True fl(1) F(2)] fl(2) ft]
      ultimately show ?thesis by (metis prod.collapse)
    next
      case ne: False
      obtain c where c: "nx ?ns c = Some ?n"
        "move_colliding (tb_hmask t) ?ns ?n fr (hashkey t (ky ?ns ?n)) = Inr (moved ?ns ?n fr c)"
        using move_colliding_moved [OF ok n kn ne fl(1) F(2)] by blast
      have "newkey_step nk t k =
          Inr (put_key (t\<lparr>tb_freetop := fr, tb_node := moved ?ns ?n fr c\<rparr>) ?n k)"
        using ne False f c(2) by (simp add: newkey_step_def hashkey_def tb_hmask_def Let_def)
      moreover note put_key_added [OF ok new h put_moved [OF D(1) nf False ne fl(1) F(2) c(1)] fl(2) ft]
      ultimately show ?thesis by (metis prod.collapse)
    qed
  qed
qed

text \<open>With fewer keys than nodes there is room.\<close>

definition hcap :: "gctab \<Rightarrow> nat" where
  "hcap t = (if tb_hmask t = 0 then 0 else length (tb_node t))"

lemma direct_room:
  assumes "tab_ok t" "nkeys t < hcap t"
  shows "direct t k"
proof -
  have h: "tb_hmask t > 0" "nkeys t < length (tb_node t)"
    using assms(2) by (auto simp: hcap_def split: if_splits)
  obtain j where j: "j < length (tb_node t)" "ky (tb_node t) j = TNil"
    using h(2) count_if_all_iff [of "\<lambda>nd. nd_key nd \<noteq> TNil" "tb_node t"]
    unfolding nkeys_def by (metis less_irrefl)
  have "j < tb_freetop t"
    using assms(1) j h(1) unfolding tab_ok_def by (metis not_less)
  then have "find_free (tb_node t) (tb_freetop t) \<noteq> None" using find_free_None j(2) by metis
  then show ?thesis using h by (simp add: direct_def)
qed

end
