(* ===== verification/LJ_TabResize.thy ===== *)
theory LJ_TabResize
  imports LJ_TabSet
begin

text \<open>
  Resizing: the old entries are inserted again, and when the new hash part has a node for each
  of them no insertion rehashes, so the table keeps its contents.
\<close>

definition nk_ok :: "newkey_fn \<Rightarrow> bool" where
  "nk_ok nk \<longleftrightarrow> (\<forall>t k. tab_ok t \<longrightarrow> new_key t k \<longrightarrow> direct t k \<longrightarrow>
     (\<exists>t' s. nk t k = Inr (t', s) \<and> has_slot t k t' s \<and> same_size t t'))"

lemma nk_ok_newkey_n: "nk_ok (newkey_n (Suc f))"
  by (simp add: nk_ok_def newkey_direct)

lemma nk_okD:
  "nk_ok nk \<Longrightarrow> tab_ok t \<Longrightarrow> new_key t k \<Longrightarrow> direct t k \<Longrightarrow>
     \<exists>t' s. nk t k = Inr (t', s) \<and> has_slot t k t' s \<and> same_size t t'"
  unfolding nk_ok_def by blast

lemma slot_for_norm: "slot_for t s (norm_key k) = slot_for t s k"
  by (simp add: slot_for_def key_int_norm split: slot.split)

subsection \<open>The setters find the key or insert it\<close>

definition found_or_new ::
  "newkey_fn \<Rightarrow> gctab \<Rightarrow> tval \<Rightarrow> (gctab \<times> slot) res \<Rightarrow> bool" where
  "found_or_new nk t k r \<longleftrightarrow>
     (\<exists>s. r = Inr (t, s) \<and> has_slot t k t s) \<or> (new_key t (norm_key k) \<and> r = nk t (norm_key k))"

lemma find_or_new:
  assumes ok: "tab_ok t" and P: "\<And>k'. kvalid k' \<Longrightarrow> P k' \<longleftrightarrow> k' = norm_key k" "\<not> P TNil"
    and k: "kvalid (norm_key k)" "\<And>j. key_int k = Some j \<Longrightarrow> \<not> inarray t j"
  shows "found_or_new nk t k
    (rbind (find_in t P (norm_key k)) (\<lambda>r. case r of Some i \<Rightarrow> Inr (t, HSlot i) | None \<Rightarrow> nk t (norm_key k)))"
  using find_in_spec [OF ok P]
proof
  assume a: "find_in t P (norm_key k) = Inr None \<and>
    (\<forall>i<length (tb_node t). ky (tb_node t) i = norm_key k \<longrightarrow> norm_key k = TNil)"
  have "norm_key k \<noteq> TNil" using k(1) by (simp add: kvalid_def)
  with a have "new_key t (norm_key k)" using k by (auto simp: new_key_def key_int_norm)
  with a show ?thesis by (simp add: found_or_new_def)
next
  assume "\<exists>i. find_in t P (norm_key k) = Inr (Some i) \<and> i < length (tb_node t) \<and>
    ky (tb_node t) i = norm_key k \<and> kvalid (norm_key k)"
  then obtain i where i: "find_in t P (norm_key k) = Inr (Some i)" "i < length (tb_node t)"
    "ky (tb_node t) i = norm_key k" by blast
  then have "has_slot t k t (HSlot i)" using ok k by (simp add: has_slot_def slot_for_def)
  with i(1) show ?thesis by (simp add: found_or_new_def)
qed

lemma tab_setint_found:
  assumes ok: "tab_ok t" and i: "int32 i"
  shows "found_or_new nk t (TNum (num_of_int i)) (tab_setint nk t i)"
    "\<not> inarray t i \<Longrightarrow> tab_setint nk t i = tab_setinth nk t i"
proof -
  have k: "key_int (TNum (num_of_int i)) = Some i"
    by (simp add: key_int_def num_toint_of_int [OF i])
  have n: "norm_key (TNum (num_of_int i)) = TNum (num_of_int i)"
    by (rule kvalid_norm [OF int_key_valid [OF i]])
  show "found_or_new nk t (TNum (num_of_int i)) (tab_setint nk t i)"
  proof (cases "inarray t i")
    case True
    then have "has_slot t (TNum (num_of_int i)) t (ASlot (nat i))"
      using ok k by (simp add: has_slot_def slot_for_def inarray_def)
    with True show ?thesis by (simp add: found_or_new_def tab_setint_def)
  next
    case False
    then show ?thesis
      using find_or_new [OF ok, of "is_num_key (num_of_int i)" "TNum (num_of_int i)" nk, unfolded n]
        is_num_key_int [OF i] k int_key_valid [OF i]
      by (simp add: tab_setint_def tab_setinth_def Let_def) (simp add: is_num_key_def)
  qed
qed (simp add: tab_setint_def)

lemma tab_setstr_found:
  assumes "tab_ok t"
  shows "found_or_new nk t (TStr s) (tab_setstr nk t s)"
  using find_or_new [OF assms, of "is_str_key s" "TStr s" nk]
  by (simp add: is_str_key_iff tab_setstr_def norm_key_def kvalid_def key_int_def)

lemma tab_setgen_found:
  assumes "tab_ok t" "key_int k = None" "k \<noteq> TNil" "\<And>w. k = TNum w \<Longrightarrow> \<not> num_isnan w"
  shows "found_or_new nk t k (tab_setgen nk t k)"
proof -
  have mz: "k \<noteq> TNum num_mzero" using assms(2) by (auto simp: key_int_def toint_mzero)
  then have "norm_key k = k" "kvalid k" using assms(3,4) by (auto simp: norm_key_def kvalid_def)
  then show ?thesis
    using find_or_new [OF assms(1), of "\<lambda>k'. lj_obj_equal k' k" k nk] assms(2,3) mz
    by (simp add: tab_setgen_def obj_equal_key obj_equal_nil)
qed

lemma found_or_new_norm:
  "norm_key k' = norm_key k \<Longrightarrow> found_or_new nk t k' r \<Longrightarrow> found_or_new nk t k r"
  unfolding found_or_new_def has_slot_def
  by (metis slot_for_norm)

lemma tab_set_found:
  assumes ok: "tab_ok t" and k: "k \<noteq> TNil" "\<And>w. k = TNum w \<Longrightarrow> \<not> num_isnan w"
  shows "found_or_new nk (t\<lparr>tb_nomm := 0\<rparr>) k (tab_set nk t k)"
proof (cases "key_int k")
  case (Some i)
  then obtain w where w: "k = TNum w" "num_toint w = Some i"
    by (auto simp: key_int_def split: tval.splits)
  have "found_or_new nk (t\<lparr>tb_nomm := 0\<rparr>) (TNum (num_of_int i)) (tab_set nk t k)"
    using tab_setint_found(1) [of "t\<lparr>tb_nomm := 0\<rparr>" i nk] ok key_int_Some(1) [OF Some]
    by (simp add: tab_set_def w Let_def)
  then show ?thesis
    by (rule found_or_new_norm [rotated])
      (metis key_int_Some(2) [OF Some] norm_norm)
next
  case None
  have ok': "tab_ok (t\<lparr>tb_nomm := 0\<rparr>)" using ok by simp
  show ?thesis
    using None k tab_setgen_found [OF ok' None k, of nk] tab_setstr_found [OF ok', of nk]
    by (cases k) (auto simp: tab_set_def key_int_def Let_def)
qed

text \<open>With room for the key, or when it belongs to the array part, a setter succeeds.\<close>

definition needs_node :: "gctab \<Rightarrow> tval \<Rightarrow> bool" where
  "needs_node t k \<longleftrightarrow> (case key_int k of Some j \<Rightarrow> \<not> inarray t j | None \<Rightarrow> True)"

lemma found_or_new_room:
  assumes nk: "nk_ok nk" and ok: "tab_ok t" and f: "found_or_new nk t k r"
    and room: "needs_node t k \<Longrightarrow> nkeys t < hcap t"
  shows "\<exists>t' s. r = Inr (t', s) \<and> has_slot t k t' s \<and> same_size t t' \<and>
    nkeys t' \<le> nkeys t + (if needs_node t k then 1 else 0)"
  using f unfolding found_or_new_def
proof (elim disjE exE conjE)
  fix s assume "r = Inr (t, s)" "has_slot t k t s"
  then show ?thesis by (simp add: same_size_def)
next
  assume n: "new_key t (norm_key k)" "r = nk t (norm_key k)"
  then have need: "needs_node t k"
    by (simp add: new_key_def needs_node_def key_int_norm split: option.split)
  obtain t' s where "r = Inr (t', s)" "has_slot t (norm_key k) t' s" "same_size t t'"
    using nk_okD [OF nk ok n(1) direct_room [OF ok room [OF need]]] n(2) by auto
  then show ?thesis using need by (auto simp: has_slot_def slot_for_norm same_size_def)
qed

subsection \<open>Reinsertion\<close>

definition same_shape :: "gctab \<Rightarrow> gctab \<Rightarrow> bool" where
  "same_shape t t' \<longleftrightarrow> tb_asize t' = tb_asize t \<and> length (tb_node t') = length (tb_node t)"

lemma same_shape_simps:
  assumes "same_shape t t'"
  shows "hcap t' = hcap t" "inarray t' = inarray t" "needs_node t' = needs_node t"
proof -
  show i: "inarray t' = inarray t" using assms by (simp add: inarray_def same_shape_def fun_eq_iff)
  show "hcap t' = hcap t" using assms by (simp add: hcap_def same_shape_def tb_hmask_def)
  show "needs_node t' = needs_node t" unfolding needs_node_def i ..
qed

lemma same_shape_trans: "same_shape t t' \<Longrightarrow> same_shape t' t'' \<Longrightarrow> same_shape t t''"
  by (simp add: same_shape_def)

lemma store_room:
  assumes "nk_ok nk" "tab_ok t" "found_or_new nk t k r" "needs_node t k \<Longrightarrow> nkeys t < hcap t"
  obtains t' s where "r = Inr (t', s)" "tab_ok (slot_put t' s v)" "same_shape t (slot_put t' s v)"
    "nkeys (slot_put t' s v) \<le> nkeys t + (if needs_node t k then 1 else 0)"
    "\<And>k'. tab_map (slot_put t' s v) k' = (if norm_key k' = norm_key k then v else tab_map t k')"
proof -
  obtain t' s where t': "r = Inr (t', s)" "has_slot t k t' s" "same_size t t'"
    "nkeys t' \<le> nkeys t + (if needs_node t k then 1 else 0)"
    using found_or_new_room [OF assms] by blast
  have h: "tab_ok t'" "slot_for t' s k" "tab_map t' = tab_map t"
    using t'(2) by (simp_all add: has_slot_def)
  have "nkeys (slot_put t' s v) = nkeys t'" by (rule nkeys_eqI) (simp_all add: slot_put_node)
  moreover have "same_shape t (slot_put t' s v)"
    using t'(3) by (simp add: same_shape_def same_size_def slot_put_node)
  ultimately show ?thesis
    using that [OF t'(1) tab_ok_put [OF h(1,2)]] t'(4) tab_map_put [OF h(1,2)] h(3) by metis
qed

text \<open>The map \<open>f\<close> overridden by the non-nil array values \<open>vs\<close> from index \<open>i\<close> on.\<close>

definition arr_over :: "nat \<Rightarrow> tval list \<Rightarrow> (tval \<Rightarrow> tval) \<Rightarrow> tval \<Rightarrow> tval" where
  "arr_over i vs f k = (case key_int k of
     Some j \<Rightarrow> if int i \<le> j \<and> j < int (i + length vs) \<and> vs ! nat (j - int i) \<noteq> TNil
               then vs ! nat (j - int i) else f k
   | None \<Rightarrow> f k)"

lemma arr_over_Nil: "arr_over i [] f = f"
  by (auto simp: arr_over_def fun_eq_iff split: option.split)

lemma arr_over_Cons:
  "arr_over i (v # vs) f =
   arr_over (Suc i) vs (\<lambda>k. if v \<noteq> TNil \<and> key_int k = Some (int i) then v else f k)"
proof
  fix k
  show "arr_over i (v # vs) f k =
     arr_over (Suc i) vs (\<lambda>k. if v \<noteq> TNil \<and> key_int k = Some (int i) then v else f k) k"
  proof (cases "key_int k")
    case (Some j)
    consider "j < int i" | "j = int i" | m where "j = int (Suc i + m)"
      by (metis not_less_iff_gr_or_eq zless_iff_Suc_zadd add_Suc add_Suc_right of_nat_add)
    then show ?thesis
    proof cases
      case (3 m)
      then have "nat (j - int i) = Suc m" "nat (j - int (Suc i)) = m" by simp_all
      then show ?thesis by (simp add: arr_over_def Some 3)
    qed (simp_all add: arr_over_def Some)
  qed (simp add: arr_over_def)
qed

lemma reinsert_array_ok:
  assumes "nk_ok nk" "tab_ok t" "tb_asize t \<le> i" "i + length vs \<le> 2 ^ 31"
    and "nkeys t + count_if (\<lambda>v. v \<noteq> TNil) vs \<le> hcap t"
  shows "\<exists>t'. reinsert_array nk t i vs = Inr t' \<and> tab_ok t' \<and> same_shape t t' \<and>
    nkeys t' \<le> nkeys t + count_if (\<lambda>v. v \<noteq> TNil) vs \<and> tab_map t' = arr_over i vs (tab_map t)"
  using assms(2-)
proof (induction vs arbitrary: t i)
  case Nil
  then show ?case by (simp add: same_shape_def arr_over_Nil)
next
  case (Cons v vs)
  show ?case
  proof (cases "v = TNil")
    case True
    with Cons.IH [of t "Suc i"] Cons.prems show ?thesis by (simp add: arr_over_Cons)
  next
    case False
    have i: "int32 (int i)" using Cons.prems by (simp add: int32_def)
    have na: "\<not> inarray t (int i)" using Cons.prems by (simp add: inarray_def)
    note f = tab_setint_found [OF Cons.prems(1) i, of nk]
    have f': "found_or_new nk t (TNum (num_of_int (int i))) (tab_setinth nk t (int i))"
      using f(1) f(2) [OF na] by simp
    have room: "nkeys t < hcap t" using Cons.prems(4) False by simp
    let ?k = "TNum (num_of_int (int i))"
    have ki: "key_int ?k = Some (int i)" by (simp add: key_int_def num_toint_of_int [OF i])
    obtain t1 s where t1: "tab_setinth nk t (int i) = Inr (t1, s)" "tab_ok (slot_put t1 s v)"
      "same_shape t (slot_put t1 s v)"
      "nkeys (slot_put t1 s v) \<le> nkeys t + (if needs_node t ?k then 1 else 0)"
      "\<And>k'. tab_map (slot_put t1 s v) k' = (if norm_key k' = norm_key ?k then v else tab_map t k')"
      using store_room [OF assms(1) Cons.prems(1) f' room, of v] by blast
    have nk1: "nkeys (slot_put t1 s v) \<le> Suc (nkeys t)" using t1(4) by (simp split: if_splits)
    have nrm: "norm_key k' = norm_key ?k \<longleftrightarrow> key_int k' = Some (int i)" for k'
      using same_norm_int [of k' ?k] ki key_int_Some(2) [of k' "int i"] key_int_Some(2) [OF ki] by auto
    have m: "tab_map (slot_put t1 s v) = (\<lambda>k. if v \<noteq> TNil \<and> key_int k = Some (int i) then v else tab_map t k)"
      unfolding t1(5) nrm using False by (simp add: fun_eq_iff)
    note sh = same_shape_simps(1) [OF t1(3)]
    obtain t' where t': "reinsert_array nk (slot_put t1 s v) (Suc i) vs = Inr t'" "tab_ok t'"
      "same_shape (slot_put t1 s v) t'"
      "nkeys t' \<le> nkeys (slot_put t1 s v) + count_if (\<lambda>v. v \<noteq> TNil) vs"
      "tab_map t' = arr_over (Suc i) vs (tab_map (slot_put t1 s v))"
      using Cons.IH [OF t1(2), of "Suc i"] Cons.prems False nk1 sh t1(3)
      by (auto simp: same_shape_def)
    have "reinsert_array nk t i (v # vs) = Inr t'" using False t1(1) t'(1) by simp
    moreover have "tab_map t' = arr_over i (v # vs) (tab_map t)"
      unfolding t'(5) m arr_over_Cons ..
    ultimately show ?thesis
      using t'(2,4) nk1 same_shape_trans [OF t1(3) t'(3)] False by auto
  qed
qed

text \<open>The map \<open>f\<close> overridden by the non-nil values of the nodes \<open>ns\<close>.\<close>

primrec nodes_over :: "node list \<Rightarrow> (tval \<Rightarrow> tval) \<Rightarrow> tval \<Rightarrow> tval" where
  "nodes_over [] f k = f k"
| "nodes_over (n # ns) f k =
     nodes_over ns (\<lambda>k. if nd_val n \<noteq> TNil \<and> norm_key k = nd_key n then nd_val n else f k) k"

lemma reinsert_nodes_ok:
  assumes "nk_ok nk" "tab_ok t" "\<forall>n \<in> set ns. nd_val n \<noteq> TNil \<longrightarrow> kvalid (nd_key n)"
    and "nkeys t + count_if (\<lambda>n. nd_val n \<noteq> TNil \<and> needs_node t (nd_key n)) ns \<le> hcap t"
  shows "\<exists>t'. reinsert_nodes nk t ns = Inr t' \<and> tab_ok t' \<and> same_shape t t' \<and>
    nkeys t' \<le> nkeys t + count_if (\<lambda>n. nd_val n \<noteq> TNil \<and> needs_node t (nd_key n)) ns \<and>
    tab_map t' = nodes_over ns (tab_map t)"
  using assms(2-)
proof (induction ns arbitrary: t)
  case Nil
  then show ?case by (simp add: same_shape_def fun_eq_iff)
next
  case (Cons n ns)
  show ?case
  proof (cases "nd_val n = TNil")
    case True
    with Cons.IH [of t] Cons.prems show ?thesis by simp
  next
    case False
    let ?t = "t\<lparr>tb_nomm := 0\<rparr>" and ?k = "nd_key n" and ?v = "nd_val n"
    have kv: "kvalid ?k" using Cons.prems False by simp
    have f: "found_or_new nk ?t ?k (tab_set nk t ?k)"
      by (rule tab_set_found [OF Cons.prems(1)]) (use kv in \<open>auto simp: kvalid_def\<close>)
    have same: "nkeys ?t = nkeys t" "hcap ?t = hcap t" "needs_node ?t = needs_node t"
      by (simp_all add: nkeys_def hcap_def tb_hmask_def)
        (simp only: needs_node_def tab_cong_nomm fun_eq_iff simp_thms)
    have room: "nkeys ?t < hcap ?t" if "needs_node ?t ?k"
      using Cons.prems(3) False that unfolding same by simp
    have ok': "tab_ok ?t" using Cons.prems(1) by simp
    obtain t1 s where t1: "tab_set nk t ?k = Inr (t1, s)" "tab_ok (slot_put t1 s ?v)"
      "same_shape ?t (slot_put t1 s ?v)"
      "nkeys (slot_put t1 s ?v) \<le> nkeys ?t + (if needs_node ?t ?k then 1 else 0)"
      "\<And>k'. tab_map (slot_put t1 s ?v) k' = (if norm_key k' = norm_key ?k then ?v else tab_map ?t k')"
      using store_room [OF assms(1) ok' f room, of ?v] by blast
    have m: "tab_map (slot_put t1 s ?v) =
        (\<lambda>k. if ?v \<noteq> TNil \<and> norm_key k = ?k then ?v else tab_map t k)"
      unfolding t1(5) kvalid_norm [OF kv] using False by (simp add: fun_eq_iff)
    have shp: "same_shape t (slot_put t1 s ?v)" using t1(3) by (simp add: same_shape_def tb_asize_def)
    note sh = same_shape_simps [OF shp]
    note nk1 = t1(4) [unfolded same]
    obtain t' where t': "reinsert_nodes nk (slot_put t1 s ?v) ns = Inr t'" "tab_ok t'"
      "same_shape (slot_put t1 s ?v) t'"
      "nkeys t' \<le> nkeys (slot_put t1 s ?v) + count_if (\<lambda>n. nd_val n \<noteq> TNil \<and> needs_node t (nd_key n)) ns"
      "tab_map t' = nodes_over ns (tab_map (slot_put t1 s ?v))"
      using Cons.IH [OF t1(2)] Cons.prems(2,3) False nk1 unfolding sh by (auto split: if_splits)
    have "reinsert_nodes nk t (n # ns) = Inr t'" using False t1(1) t'(1) by simp
    moreover have "tab_map t' = nodes_over (n # ns) (tab_map t)"
      unfolding t'(5) m by (simp add: fun_eq_iff)
    ultimately show ?thesis
      using t'(2,4) nk1 same_shape_trans [OF shp t'(3)] False by (auto split: if_splits)
  qed
qed

subsection \<open>Resizing\<close>

definition in_size :: "nat \<Rightarrow> tval \<Rightarrow> bool" where
  "in_size n k \<longleftrightarrow> (case key_int k of Some j \<Rightarrow> 0 \<le> j \<and> nat j < n | None \<Rightarrow> False)"

lemma needs_node_in_size: "needs_node t k \<longleftrightarrow> \<not> in_size (tb_asize t) k"
  by (simp add: needs_node_def in_size_def inarray_def split: option.split)

definition arr_map :: "tval list \<Rightarrow> tval \<Rightarrow> tval" where
  "arr_map a k = (case key_int k of
     Some j \<Rightarrow> if 0 \<le> j \<and> nat j < length a then a ! nat j else TNil | None \<Rightarrow> TNil)"

lemma arr_map_grow: "arr_map (a @ replicate n TNil) = arr_map a"
  by (auto simp: arr_map_def fun_eq_iff nth_append split: option.split)

lemma arr_map_shrink: "arr_over n (drop n a) (arr_map (take n a)) = arr_map a"
proof
  fix k
  show "arr_over n (drop n a) (arr_map (take n a)) k = arr_map a k"
  proof (cases "key_int k")
    case (Some j)
    consider "j < 0" | m where "j = int m" by (metis int_cases2 negative_zless_0 not_less nat_0_le)
    then show ?thesis
    proof cases
      case (2 m)
      show ?thesis
        by (cases "m < n") (auto simp: arr_over_def arr_map_def Some 2 nat_diff_distrib')
    qed (simp add: arr_over_def arr_map_def Some)
  qed (simp add: arr_over_def arr_map_def)
qed

lemma fresh_table:
  assumes n: "tb_node t = replicate (2 ^ b) nilnode" "b \<le> LJ_MAX_HBITS"
    and f: "tb_freetop t = (if b = 0 then 0 else 2 ^ b)" and a: "tb_asize t \<le> LJ_MAX_ASIZE"
  shows "tab_ok t" "nkeys t = 0" "tab_map t = arr_map (tb_array t)"
    "hcap t = (if b = 0 then 0 else 2 ^ b)"
proof -
  have i: "ky (tb_node t) i = TNil" "vl (tb_node t) i = TNil" "nx (tb_node t) i = None"
    if "i < length (tb_node t)" for i
    using that by (simp_all add: n nilnode_def nx_def)
  have nxn: "nx (tb_node t) i = None" for i
    by (cases "i < length (tb_node t)") (simp add: i, simp add: nx_def)
  have hp: "hpart_ok (hashkey t) (tb_node t)"
    unfolding hpart_ok_def links_ok_def mains_ok_def keys_ok_def by (simp add: nxn i)
  have l: "length (tb_node t) = 2 ^ b" by (simp add: n)
  have hm: "tb_hmask t = 0 \<longleftrightarrow> b = 0"
    using one_less_power [of "2::nat" b] by (cases "b = 0") (auto simp: tb_hmask_def l)
  show "tab_ok t"
    unfolding tab_ok_def l
    using hp n(2) a hm f by (auto simp: n key_int_def nilnode_def)
  show "nkeys t = 0" by (simp add: nkeys_def n nilnode_def)
  show "hcap t = (if b = 0 then 0 else 2 ^ b)" by (simp add: hcap_def hm l)
  have "hmap (tb_node t) k = TNil" for k
    by (cases "\<exists>nd. List.find (\<lambda>nd. nd_key nd = k) (tb_node t) = Some nd")
      (auto simp: hmap_def find_Some_iff n nilnode_def split: option.split)
  then show "tab_map t = arr_map (tb_array t)"
    by (auto simp: fun_eq_iff tab_map_def arr_map_def inarray_def tb_asize_def key_int_def
        split: option.split tval.split)
qed

lemma nodes_over_none:
  "\<forall>n \<in> set ns. nd_val n \<noteq> TNil \<longrightarrow> norm_key k \<noteq> nd_key n \<Longrightarrow> nodes_over ns f k = f k"
  by (induction ns arbitrary: f) auto

lemma nodes_over_some:
  assumes "n \<in> set ns" "nd_val n \<noteq> TNil" "nd_key n = norm_key k"
    and "\<forall>m \<in> set ns. nd_val m \<noteq> TNil \<longrightarrow> nd_key m = norm_key k \<longrightarrow> nd_val m = nd_val n"
  shows "nodes_over ns f k = nd_val n"
  using assms
proof (induction ns arbitrary: f n)
  case (Cons m ns)
  show ?case
  proof (cases "\<exists>x \<in> set ns. nd_val x \<noteq> TNil \<and> nd_key x = norm_key k")
    case True
    then obtain x where x: "x \<in> set ns" "nd_val x \<noteq> TNil" "nd_key x = norm_key k" by blast
    then have v: "nd_val x = nd_val n" using Cons.prems(4) by simp
    have "nodes_over ns g k = nd_val x" for g
      by (rule Cons.IH [OF x]) (use Cons.prems(4) v in simp)
    then show ?thesis using v by simp
  next
    case False
    then have "n = m" using Cons.prems by auto
    moreover have "\<forall>n \<in> set ns. nd_val n \<noteq> TNil \<longrightarrow> norm_key k \<noteq> nd_key n"
      using False by metis
    ultimately show ?thesis
      using nodes_over_none [of ns k] Cons.prems(2,3) by simp
  qed
qed simp

lemma nodes_over_tab_map:
  assumes "tab_ok t"
  shows "nodes_over (tb_node t) (arr_map (tb_array t)) = tab_map t"
proof
  fix k
  let ?ns = "tb_node t" and ?f = "arr_map (tb_array t)"
  note K = tab_okD(4) [OF assms]
  show "nodes_over ?ns ?f k = tab_map t k"
  proof (cases "\<exists>i < length ?ns. vl ?ns i \<noteq> TNil \<and> ky ?ns i = norm_key k")
    case True
    then obtain i where i: "i < length ?ns" "vl ?ns i \<noteq> TNil" "ky ?ns i = norm_key k" by blast
    have kn: "ky ?ns i \<noteq> TNil" using keys_okD(1) [OF K i(1)] i(2) by simp
    have "m = ?ns ! i" if m: "m \<in> set ?ns" "nd_key m = norm_key k" for m
    proof -
      obtain j where j: "j < length ?ns" "m = ?ns ! j" using m(1) by (metis in_set_conv_nth)
      have "i = j" using keys_okD(3) [OF K i(1) j(1) kn] i(3) m(2) j(2) by simp
      with j show ?thesis by simp
    qed
    then have o: "nodes_over ?ns ?f k = vl ?ns i"
      using i by (intro nodes_over_some) (simp, simp, simp, blast)
    have h: "hmap ?ns (norm_key k) = vl ?ns i" using hmap_some [OF K i(1,3)] kn i(3) by simp
    have "\<not> inarray t j" if "key_int k = Some j" for j
      using assms i(1,3) that key_int_norm unfolding tab_ok_def by metis
    moreover have "k \<noteq> TNil" using kn i(3) by auto
    ultimately show ?thesis unfolding o by (simp add: tab_map_def h split: option.split)
  next
    case False
    then have "\<forall>n \<in> set ?ns. nd_val n \<noteq> TNil \<longrightarrow> norm_key k \<noteq> nd_key n"
      by (metis in_set_conv_nth)
    then have o: "nodes_over ?ns ?f k = ?f k" by (rule nodes_over_none)
    have h: "hmap ?ns (norm_key k) = TNil" if "k \<noteq> TNil"
    proof (cases "\<exists>i < length ?ns. ky ?ns i = norm_key k")
      case True
      then obtain i where i: "i < length ?ns" "ky ?ns i = norm_key k" by blast
      then show ?thesis using hmap_some [OF K i] False that by auto
    next
      case False
      then show ?thesis using hmap_none by blast
    qed
    have "k \<noteq> TNil" if "key_int k = Some j" for j using that by (auto simp: key_int_def)
    then show ?thesis
      unfolding o by (auto simp: tab_map_def arr_map_def h inarray_def tb_asize_def split: option.split)
  qed
qed

text \<open>The entries that go to the hash part when the array part has size \<open>n\<close>.\<close>

definition hash_entries :: "gctab \<Rightarrow> nat \<Rightarrow> nat" where
  "hash_entries t n = count_if (\<lambda>v. v \<noteq> TNil) (drop n (tb_array t)) +
     count_if (\<lambda>nd. nd_val nd \<noteq> TNil \<and> \<not> in_size n (nd_key nd)) (tb_node t)"

lemma resize_refill:
  assumes nk: "nk_ok nk" and ok: "tab_ok t" and b: "hbits \<le> LJ_MAX_HBITS"
    and a: "asize \<le> tb_asize t \<or> asize \<le> LJ_MAX_ASIZE"
    and room: "hash_entries t asize \<le> (if hbits = 0 then 0 else 2 ^ hbits)"
    and n: "tb_node t1 = replicate (2 ^ hbits) nilnode" "tb_freetop t1 = (if hbits = 0 then 0 else 2 ^ hbits)"
      "tb_array t1 = take asize (tb_array t @ replicate (asize - tb_asize t) TNil)"
  shows "\<exists>t'. rbind (if asize < tb_asize t then reinsert_array nk t1 asize (drop asize (tb_array t))
        else Inr t1)
      (\<lambda>t2. if tb_hmask t > 0 then reinsert_nodes nk t2 (tb_node t) else Inr t2) = Inr t' \<and>
    tab_ok t' \<and> same_shape t1 t' \<and> tab_map t' = tab_map t \<and> nkeys t' \<le> hash_entries t asize"
proof -
  let ?A = "tb_array t"
  have la: "tb_asize t1 = asize" by (simp add: tb_asize_def n)
  have ta: "tb_asize t \<le> LJ_MAX_ASIZE" by (rule tab_okD(8) [OF ok])
  have am: "asize \<le> LJ_MAX_ASIZE" using a ta by auto
  note F = fresh_table [OF n(1) b n(2), unfolded la, OF am]
  let ?L = "count_if (\<lambda>v. v \<noteq> TNil) (drop asize ?A)"
  let ?H = "count_if (\<lambda>nd. nd_val nd \<noteq> TNil \<and> \<not> in_size asize (nd_key nd)) (tb_node t)"
  have cap: "?L + ?H \<le> hcap t1" using room by (simp add: hash_entries_def F(4))
  have "\<exists>t2. (if asize < tb_asize t then reinsert_array nk t1 asize (drop asize ?A) else Inr t1) = Inr t2
     \<and> tab_ok t2 \<and> same_shape t1 t2 \<and> nkeys t2 \<le> ?L \<and> tab_map t2 = arr_map ?A"
  proof (cases "asize < tb_asize t")
    case True
    have "asize + length (drop asize ?A) \<le> 2 ^ 31"
      using True ta by (simp add: tb_asize_def LJ_MAX_ASIZE_def)
    with reinsert_array_ok [OF nk F(1), of asize "drop asize ?A"] la cap F(2)
    obtain t2 where "reinsert_array nk t1 asize (drop asize ?A) = Inr t2" "tab_ok t2" "same_shape t1 t2"
      "nkeys t2 \<le> ?L" "tab_map t2 = arr_over asize (drop asize ?A) (tab_map t1)" by auto
    then show ?thesis
      using True n(3) F(3) arr_map_shrink [of asize ?A] by (simp add: tb_asize_def)
  next
    case False
    then have "tab_map t1 = arr_map ?A"
      unfolding F(3) n(3) using arr_map_grow [of ?A] by (simp add: tb_asize_def)
    then show ?thesis using False F(1,2) by (simp add: same_shape_def)
  qed
  then obtain t2 where t2: "(if asize < tb_asize t then reinsert_array nk t1 asize (drop asize ?A) else Inr t1) = Inr t2"
     "tab_ok t2" "same_shape t1 t2" "nkeys t2 \<le> ?L" "tab_map t2 = arr_map ?A" by blast
  have sz: "tb_asize t2 = asize" "hcap t2 = hcap t1"
    using t2(3) la same_shape_simps by (auto simp: same_shape_def)
  show ?thesis
  proof (cases "tb_hmask t > 0")
    case True
    have kv: "\<forall>n \<in> set (tb_node t). nd_val n \<noteq> TNil \<longrightarrow> kvalid (nd_key n)"
      using keys_okD(1,2) [OF tab_okD(4) [OF ok]] by (metis in_set_conv_nth)
    have r: "nkeys t2 + count_if (\<lambda>n. nd_val n \<noteq> TNil \<and> needs_node t2 (nd_key n)) (tb_node t) \<le> hcap t2"
      using cap t2(4) unfolding needs_node_in_size sz by simp
    obtain t' where "reinsert_nodes nk t2 (tb_node t) = Inr t'" "tab_ok t'" "same_shape t2 t'"
      "nkeys t' \<le> nkeys t2 + ?H" "tab_map t' = nodes_over (tb_node t) (tab_map t2)"
      using reinsert_nodes_ok [OF nk t2(2) kv r] unfolding needs_node_in_size sz by blast
    then show ?thesis
      using True t2 same_shape_trans nodes_over_tab_map [OF ok] by (auto simp: hash_entries_def)
  next
    case False
    then have "tb_node t = [nilnode]" using tab_okD(9) [OF ok] by simp
    then have "tab_map t = arr_map ?A"
      using nodes_over_tab_map [OF ok] by (simp add: nilnode_def fun_eq_iff)
    then show ?thesis using False t2 by (auto simp: hash_entries_def)
  qed
qed

lemma clearhpart_new:
  "newhpart t b = (if b > LJ_MAX_HBITS then Inl ERR_TABOV
    else Inr (t\<lparr>tb_node := replicate (2 ^ b) uninit_node, tb_freetop := 2 ^ b\<rparr>))"
  "clearhpart (t\<lparr>tb_node := replicate n uninit_node, tb_freetop := m\<rparr>) =
    t\<lparr>tb_node := replicate n nilnode, tb_freetop := m\<rparr>"
  by (simp_all add: newhpart_def clearhpart_def uninit_node_def nilnode_def map_replicate_const)

lemma resizetab_ok:
  assumes nk: "nk_ok nk" and ok: "tab_ok t" and b: "hbits \<le> LJ_MAX_HBITS"
    and a: "asize \<le> tb_asize t \<or> asize \<le> LJ_MAX_ASIZE"
    and room: "hash_entries t asize \<le> (if hbits = 0 then 0 else 2 ^ hbits)"
  shows "\<exists>t'. resizetab nk t asize hbits = Inr t' \<and> tab_ok t' \<and> tb_asize t' = asize \<and>
    length (tb_node t') = 2 ^ hbits \<and> tab_map t' = tab_map t \<and> nkeys t' \<le> hash_entries t asize"
proof -
  define ta where "ta = (if asize > tb_asize t
    then t\<lparr>tb_colo := (if 0 <s tb_colo t then tb_colo t OR 0x80 else tb_colo t),
           tb_array := tb_array t @ replicate (asize - tb_asize t) TNil\<rparr> else t)"
  define tn where "tn = ta\<lparr>tb_node := replicate (2 ^ hbits) nilnode,
    tb_freetop := (if hbits = 0 then 0 else 2 ^ hbits)\<rparr>"
  define t1 where "t1 = (if asize < tb_asize t then tn\<lparr>tb_array := take asize (tb_array tn)\<rparr> else tn)"
  have t1: "tb_node t1 = replicate (2 ^ hbits) nilnode"
    "tb_freetop t1 = (if hbits = 0 then 0 else 2 ^ hbits)"
    "tb_array t1 = take asize (tb_array t @ replicate (asize - tb_asize t) TNil)"
    by (auto simp: t1_def tn_def ta_def tb_asize_def)
  have "resizetab nk t asize hbits =
    rbind (if asize < tb_asize t then reinsert_array nk t1 asize (drop asize (tb_array t)) else Inr t1)
      (\<lambda>t2. if tb_hmask t > 0 then reinsert_nodes nk t2 (tb_node t) else Inr t2)"
    using a b
    by (auto simp: resizetab_def Let_def clearhpart_new t1_def tn_def ta_def)
  then show ?thesis
    using resize_refill [OF nk ok b a room t1] t1
    by (auto simp: same_shape_def tb_asize_def)
qed

lemma resizetab_err:
  "asize > tb_asize t \<Longrightarrow> asize > LJ_MAX_ASIZE \<Longrightarrow> resizetab nk t asize hbits = Inl ERR_TABOV"
  "hbits > LJ_MAX_HBITS \<Longrightarrow> resizetab nk t asize hbits = Inl ERR_TABOV"
  by (auto simp: resizetab_def Let_def newhpart_def LJ_MAX_HBITS_def)

end
