(* ===== verification/LJ_TabRehash.thy ===== *)
theory LJ_TabRehash
  imports LJ_TabResize
begin

text \<open>
  Rehashing: the counting functions count the integer keys by bin, \<open>bestasize\<close> finds the size
  of the array part, and the hash part is made large enough for the remaining entries and the
  new key.  Hence two levels of insertion suffice, and every setter keeps the contents.
\<close>

definition ikeys :: "tval \<Rightarrow> int list" where
  "ikeys k = (case key_int k of
     Some j \<Rightarrow> if 0 \<le> j \<and> nat j < LJ_MAX_ASIZE then [j] else [] | None \<Rightarrow> [])"

definition akeys :: "gctab \<Rightarrow> int list" where
  "akeys t = map int (filter (\<lambda>j. tb_array t ! j \<noteq> TNil) [0..<tb_asize t])"

definition hkeys :: "node list \<Rightarrow> int list" where
  "hkeys ns = concat (map (\<lambda>n. if nd_val n \<noteq> TNil then ikeys (nd_key n) else []) ns)"

definition bins_ok :: "nat list \<Rightarrow> int list \<Rightarrow> bool" where
  "bins_ok bins ks \<longleftrightarrow> length bins = LJ_MAX_ABITS \<and>
     (\<forall>b < LJ_MAX_ABITS. bins ! b = count_if (\<lambda>k. int_bin k = b) ks)"

lemma int_bin_le:
  assumes "0 \<le> k"
  shows "int_bin k \<le> b \<longleftrightarrow> k \<le> 2 ^ Suc b"
proof (cases "k > 2")
  case True
  have "int_bin k \<le> b \<longleftrightarrow> nat (k - 1) < 2 ^ Suc b"
    using True lj_fls_le_iff [of "nat (k - 1)" b] by (simp add: int_bin_def)
  also have "\<dots> \<longleftrightarrow> k - 1 < 2 ^ Suc b"
    using True by (simp add: nat_less_iff)
  finally show ?thesis by auto
next
  case False
  have "(1::int) \<le> 2 ^ b" by (rule one_le_power) simp
  with False have "k \<le> 2 ^ Suc b" unfolding power_Suc by linarith
  then show ?thesis using False by (simp add: int_bin_def)
qed

lemma int_bin_max: "0 \<le> k \<Longrightarrow> nat k < LJ_MAX_ASIZE \<Longrightarrow> int_bin k \<le> 26"
  using int_bin_le [of k 26] by (simp add: LJ_MAX_ASIZE_def)

lemma ikeys_range: "k \<in> set (ikeys key) \<Longrightarrow> 0 \<le> k \<and> nat k < LJ_MAX_ASIZE"
  by (auto simp: ikeys_def split: option.splits if_splits)

subsection \<open>Counting\<close>

lemma countint_ikeys:
  "countint key bins = (case ikeys key of [] \<Rightarrow> (bins, 0)
     | k # _ \<Rightarrow> (bins[int_bin k := Suc (bins ! int_bin k)], 1))"
  by (auto simp: countint_def ikeys_def key_int_def split: tval.split option.split)

lemma countint_ok:
  assumes "bins_ok bins ks" "countint key bins = (bins', c)"
  shows "bins_ok bins' (ks @ ikeys key)" "c = length (ikeys key)"
proof -
  have "bins_ok bins' (ks @ ikeys key) \<and> c = length (ikeys key)"
  proof (cases "ikeys key")
    case Nil
    then show ?thesis using assms by (simp add: countint_ikeys)
  next
    case (Cons k xs)
    then have k: "0 \<le> k \<and> nat k < LJ_MAX_ASIZE" "ikeys key = [k]"
      by (auto simp: ikeys_def split: option.splits if_splits)
    then have "int_bin k < LJ_MAX_ABITS" using int_bin_max [of k] by (simp add: LJ_MAX_ABITS_def)
    then show ?thesis
      using assms k by (auto simp: countint_ikeys bins_ok_def nth_list_update)
  qed
  then show "bins_ok bins' (ks @ ikeys key)" "c = length (ikeys key)" by blast+
qed

lemma counthash_ok:
  assumes "bins_ok bins ks" "counthash_loop ns bins na n = (bins', na', n')"
  shows "bins_ok bins' (ks @ hkeys ns)" "na' = na + length (hkeys ns)"
    "n' = n + count_if (\<lambda>n. nd_val n \<noteq> TNil) ns"
proof -
  have "bins_ok bins' (ks @ hkeys ns) \<and> na' = na + length (hkeys ns) \<and>
    n' = n + count_if (\<lambda>n. nd_val n \<noteq> TNil) ns"
    using assms
  proof (induction ns arbitrary: bins ks na n)
    case Nil
    then show ?case by (simp add: hkeys_def)
  next
    case (Cons m ns)
    show ?case
    proof (cases "nd_val m = TNil")
      case True
      then show ?thesis using Cons.IH [OF Cons.prems(1)] Cons.prems(2) by (simp add: hkeys_def)
    next
      case False
      obtain b1 c where c: "countint (nd_key m) bins = (b1, c)" by (cases "countint (nd_key m) bins")
      note C = countint_ok [OF Cons.prems(1) c]
      have "counthash_loop ns b1 (na + c) (Suc n) = (bins', na', n')"
        using Cons.prems(2) False c by simp
      from Cons.IH [OF C(1) this] C(2) False show ?thesis by (simp add: hkeys_def)
    qed
  qed
  then show "bins_ok bins' (ks @ hkeys ns)" "na' = na + length (hkeys ns)"
    "n' = n + count_if (\<lambda>n. nd_val n \<noteq> TNil) ns" by blast+
qed

lemma count_upt: "count_if P [a..<b] = card {j. a \<le> j \<and> j < b \<and> P j}"
proof -
  have "count_if P [a..<b] = card (set (filter P [a..<b]))"
    by (rule distinct_card [symmetric]) simp
  also have "set (filter P [a..<b]) = {j. a \<le> j \<and> j < b \<and> P j}" by auto
  finally show ?thesis .
qed

lemma count_akeys:
  "count_if Q (akeys t) = card {j. j < tb_asize t \<and> tb_array t ! j \<noteq> TNil \<and> Q (int j)}"
proof -
  have "count_if Q (akeys t) = count_if (\<lambda>j. tb_array t ! j \<noteq> TNil \<and> Q (int j)) [0..<tb_asize t]"
    by (simp add: akeys_def filter_map o_def conj_commute)
  then show ?thesis by (simp add: count_upt)
qed

definition bin_start :: "nat \<Rightarrow> nat" where
  "bin_start b = (if b = 0 then 0 else Suc (2 ^ b))"

lemma int_bin_eq: "int_bin (int j) = b \<longleftrightarrow> bin_start b \<le> j \<and> j < bin_start (Suc b)"
proof -
  have le: "int_bin (int j) \<le> c \<longleftrightarrow> j < bin_start (Suc c)" for c
  proof -
    have "int j \<le> 2 ^ Suc c \<longleftrightarrow> int j \<le> int (2 ^ Suc c)" by simp
    then show ?thesis
      unfolding of_nat_le_iff using int_bin_le [of "int j" c]
      by (simp add: bin_start_def less_Suc_eq_le)
  qed
  show ?thesis
  proof (cases b)
    case 0
    then show ?thesis using le [of 0] by (simp add: bin_start_def)
  next
    case (Suc c)
    then show ?thesis using le [of c] le [of b] by auto
  qed
qed

definition arr_count :: "gctab \<Rightarrow> nat \<Rightarrow> nat \<Rightarrow> nat" where
  "arr_count t a b = card {j. a \<le> j \<and> j < b \<and> tb_array t ! j \<noteq> TNil}"

lemma arr_count_add: "a \<le> b \<Longrightarrow> arr_count t 0 a + arr_count t a b = arr_count t 0 b"
proof -
  assume "a \<le> b"
  then have "[0..<b] = [0..<a] @ [a..<b]" by (metis le0 le_add_diff_inverse upt_add_eq_append)
  then show ?thesis
    unfolding arr_count_def count_upt [symmetric] by simp
qed

lemma bin_count:
  assumes "i = min (bin_start b) (tb_asize t)" "i' = min (bin_start (Suc b)) (tb_asize t)"
  shows "count_if (\<lambda>k. int_bin k = b) (akeys t) = arr_count t i i'"
proof -
  have "{j. j < tb_asize t \<and> tb_array t ! j \<noteq> TNil \<and> int_bin (int j) = b}
      = {j. i \<le> j \<and> j < i' \<and> tb_array t ! j \<noteq> TNil}"
    unfolding int_bin_eq assms by auto
  then show ?thesis unfolding count_akeys arr_count_def by simp
qed

lemma length_akeys: "length (akeys t) = arr_count t 0 (tb_asize t)"
  using count_akeys [of "\<lambda>_. True" t] by (simp add: arr_count_def)

lemma bin_start_mono: "b \<le> c \<Longrightarrow> bin_start b \<le> bin_start c"
  by (auto simp: bin_start_def intro: power_increasing)

lemma countarray_end:
  assumes "tb_asize t \<le> bin_start b" "length bins = LJ_MAX_ABITS"
    and "\<forall>c < LJ_MAX_ABITS. bins ! c = (if c < b then count_if (\<lambda>k. int_bin k = c) (akeys t) else 0)"
  shows "bins_ok bins (akeys t)"
proof -
  have "count_if (\<lambda>k. int_bin k = c) (akeys t) = 0" if c: "\<not> c < b" for c
  proof -
    have "bin_start b \<le> bin_start c" using c bin_start_mono by simp
    then have "{j. j < tb_asize t \<and> tb_array t ! j \<noteq> TNil \<and> int_bin (int j) = c} = {}"
      using assms(1) by (auto simp: int_bin_eq)
    then show ?thesis by (simp only: count_akeys card.empty)
  qed
  then show ?thesis using assms by (simp add: bins_ok_def)
qed

lemma countarray_loop_ok:
  assumes a: "tb_asize t \<le> LJ_MAX_ASIZE" "0 < tb_asize t"
    and "b \<le> LJ_MAX_ABITS" "i = min (bin_start b) (tb_asize t)" "length bins = LJ_MAX_ABITS"
    and "na = arr_count t 0 i"
    and "\<forall>c < LJ_MAX_ABITS. bins ! c = (if c < b then count_if (\<lambda>k. int_bin k = c) (akeys t) else 0)"
    and "countarray_loop t b i na bins = (bins', na')"
  shows "bins_ok bins' (akeys t) \<and> na' = length (akeys t)"
  using assms(3-)
proof (induction "LJ_MAX_ABITS - b" arbitrary: b i na bins)
  case 0
  then have b: "b = LJ_MAX_ABITS" by simp
  have "tb_asize t \<le> bin_start b" using a(1) by (simp add: b bin_start_def LJ_MAX_ABITS_def LJ_MAX_ASIZE_def)
  moreover from this have "i = tb_asize t" using 0 by simp
  moreover have "countarray_loop t b i na bins = (bins, na)"
    by (subst countarray_loop.simps) (simp add: b)
  then have "bins' = bins" "na' = na" using 0(7) by simp_all
  ultimately show ?case using countarray_end [OF _ 0(4,6)] 0(5) length_akeys by metis
next
  case (Suc d)
  then have b: "b < LJ_MAX_ABITS" by simp
  define capped where "capped = (2 * 2 ^ b \<ge> tb_asize t)"
  define top where "top = (if capped then tb_asize t - 1 else 2 * 2 ^ b)"
  have bs: "bin_start (Suc b) = Suc (2 * 2 ^ b)" by (simp add: bin_start_def)
  have il: "i \<le> tb_asize t" "i \<le> bin_start b" using Suc.prems(2) by simp_all
  have unf: "countarray_loop t b i na bins =
    (if capped \<and> i > top then (bins, na)
     else let n = count_if (\<lambda>j. tb_array t ! j \<noteq> TNil) [i..<Suc top] in
       countarray_loop t (Suc b) (max i (Suc top)) (na + n) (bins[b := bins ! b + n]))"
    using b unfolding countarray_loop.simps [of t b] capped_def top_def Let_def by (simp only: if_True)
  show ?case
  proof (cases "capped \<and> i > top")
    case True
    then have "i = tb_asize t" using il by (auto simp: top_def)
    moreover from this have "tb_asize t \<le> bin_start b" using Suc.prems(2) by simp
    moreover have "bins' = bins" "na' = na" using True Suc.prems(6) unf by simp_all
    ultimately show ?thesis using countarray_end Suc.prems length_akeys by metis
  next
    case False
    define n where "n = count_if (\<lambda>j. tb_array t ! j \<noteq> TNil) [i..<Suc top]"
    have mono: "bin_start b \<le> bin_start (Suc b)" by (rule bin_start_mono) simp
    have i': "max i (Suc top) = min (bin_start (Suc b)) (tb_asize t)" "Suc top = min (bin_start (Suc b)) (tb_asize t)"
      using a(2) il mono by (auto simp: top_def capped_def bs)
    have "i \<le> Suc top" unfolding i'(2) using il mono by simp
    have n: "n = arr_count t i (Suc top)" by (simp only: n_def count_upt arr_count_def)
    have "countarray_loop t (Suc b) (max i (Suc top)) (na + n) (bins[b := bins ! b + n]) = (bins', na')"
      using Suc.prems(6) False unfolding unf n_def Let_def by simp
    moreover have "na + n = arr_count t 0 (max i (Suc top))"
      using arr_count_add [OF \<open>i \<le> Suc top\<close>, of t] Suc.prems(4) n i' by simp
    moreover have "bins ! b + n = count_if (\<lambda>k. int_bin k = b) (akeys t)"
      unfolding n i'(2) using bin_count [OF Suc.prems(2) refl] Suc.prems(5) b by simp
    ultimately show ?thesis
      using Suc.hyps(2) Suc.prems(3,5) b i'(1)
      by (intro Suc.hyps(1) [of "Suc b" "max i (Suc top)" "bins[b := bins ! b + n]" "na + n"])
        (auto simp: nth_list_update less_Suc_eq)
  qed
qed

lemma countarray_ok:
  assumes "tb_asize t \<le> LJ_MAX_ASIZE" "countarray t (replicate LJ_MAX_ABITS 0) = (bins, na)"
  shows "bins_ok bins (akeys t)" "na = length (akeys t)"
proof -
  have "bins_ok bins (akeys t) \<and> na = length (akeys t)"
  proof (cases "tb_asize t = 0")
    case True
    then show ?thesis using assms(2) by (auto simp: countarray_def akeys_def bins_ok_def)
  next
    case False
    then have "countarray_loop t 0 0 0 (replicate LJ_MAX_ABITS 0) = (bins, na)"
      using assms(2) by (simp add: countarray_def)
    then show ?thesis
      using False by (intro countarray_loop_ok [OF assms(1), of 0 0 "replicate LJ_MAX_ABITS 0" 0])
        (simp_all add: bin_start_def arr_count_def)
  qed
  then show "bins_ok bins (akeys t)" "na = length (akeys t)" by blast+
qed

subsection \<open>The size of the array part\<close>

lemma count_if_Suc:
  "count_if (\<lambda>k. f k < Suc b) ks = count_if (\<lambda>k. f k < b) ks + count_if (\<lambda>k. f k = b) ks"
  by (induction ks) auto

lemma count_if_all: "\<forall>k \<in> set ks. P k \<Longrightarrow> count_if P ks = length ks"
  by (simp add: filter_True)

lemma count_if_cong: "(\<And>k. k \<in> set ks \<Longrightarrow> P k \<longleftrightarrow> Q k) \<Longrightarrow> count_if P ks = count_if Q ks"
  by (metis (mono_tags, lifting) filter_cong)

definition asize_fits :: "int list \<Rightarrow> nat \<Rightarrow> nat \<Rightarrow> bool" where
  "asize_fits ks na sz \<longleftrightarrow> na = count_if (\<lambda>k. k < int sz) ks \<and> sz \<le> LJ_MAX_ASIZE \<and> sz \<le> 4 * na"

lemma bestasize_loop_ok:
  assumes ks: "\<forall>k \<in> set ks. 0 \<le> k \<and> nat k < LJ_MAX_ASIZE" and bins: "bins_ok bins ks"
    and "b \<le> LJ_MAX_ABITS" "s = count_if (\<lambda>k. int_bin k < b) ks" "asize_fits ks na sz"
  shows "\<exists>na' sz'. bestasize_loop bins (length ks) b s na sz = Inr (na', sz') \<and> asize_fits ks na' sz'"
  using assms(3-)
proof (induction "LJ_MAX_ABITS - b" arbitrary: b s na sz)
  case 0
  have "count_if (\<lambda>k. int_bin k < b) ks = length ks"
    by (rule count_if_all) (use ks int_bin_max 0 in \<open>fastforce simp: LJ_MAX_ABITS_def\<close>)
  then have "bestasize_loop bins (length ks) b s na sz = Inr (na, sz)"
    using 0 by (subst bestasize_loop.simps) simp
  with 0 show ?case by blast
next
  case (Suc d)
  have b: "b < LJ_MAX_ABITS" using Suc.hyps(2) by simp
  have bb: "bins ! b = count_if (\<lambda>k. int_bin k = b) ks" "length bins = LJ_MAX_ABITS"
    using bins b by (simp_all add: bins_ok_def)
  define s' where "s' = (if bins ! b > 0 then s + bins ! b else s)"
  define tk where "tk \<longleftrightarrow> bins ! b > 0 \<and> 2 * s' > 2 ^ b"
  have s': "s' = count_if (\<lambda>k. int_bin k < Suc b) ks"
    unfolding count_if_Suc s'_def Suc.prems(2) bb(1) by simp
  have fit: "asize_fits ks s' (2 * 2 ^ b + 1)" if tk
  proof -
    have "b \<le> 26"
    proof (rule ccontr)
      assume "\<not> b \<le> 26"
      then have "int_bin k \<noteq> b" if "k \<in> set ks" for k using ks that int_bin_max by fastforce
      then have "count_if (\<lambda>k. int_bin k = b) ks = 0" by (auto simp: filter_empty_conv)
      with \<open>tk\<close> show False by (simp add: tk_def bb(1))
    qed
    then have "(2::nat) ^ Suc b \<le> 2 ^ Suc 26" by (intro power_increasing) simp_all
    then have m: "2 * 2 ^ b + 1 \<le> LJ_MAX_ASIZE" by (simp add: LJ_MAX_ASIZE_def)
    have "count_if (\<lambda>k. int_bin k < Suc b) ks = count_if (\<lambda>k. k < int (2 * 2 ^ b + 1)) ks"
      using ks int_bin_le by (intro count_if_cong) (simp add: less_Suc_eq_le, linarith)
    with m that show ?thesis by (simp add: asize_fits_def s' tk_def)
  qed
  have unf: "bestasize_loop bins (length ks) b s na sz =
    (if 2 * length ks > 2 ^ b \<and> s \<noteq> length ks
     then bestasize_loop bins (length ks) (Suc b) s' (if tk then s' else na)
        (if tk then 2 * 2 ^ b + 1 else sz)
     else Inr (na, sz))"
    using b bb(2) unfolding bestasize_loop.simps [of bins "length ks" b] s'_def tk_def Let_def by simp
  have "asize_fits ks (if tk then s' else na) (if tk then 2 * 2 ^ b + 1 else sz)"
    using fit Suc.prems(3) by simp
  then show ?case
    unfolding unf using Suc.hyps b s' Suc.prems(3) by auto
qed

lemma bestasize_ok:
  assumes "\<forall>k \<in> set ks. 0 \<le> k \<and> nat k < LJ_MAX_ASIZE" "bins_ok bins ks"
  obtains na sz where "bestasize bins (length ks) = Inr (na, sz)" "asize_fits ks na sz"
proof -
  have "asize_fits ks 0 0" using assms(1) by (auto simp: asize_fits_def filter_empty_conv)
  then show ?thesis
    using bestasize_loop_ok [OF assms, of 0 0 0 0] that by (auto simp: bestasize_def)
qed

subsection \<open>Rehashing\<close>

definition entries :: "gctab \<Rightarrow> nat" where
  "entries t = count_if (\<lambda>v. v \<noteq> TNil) (tb_array t) + count_if (\<lambda>n. nd_val n \<noteq> TNil) (tb_node t)"

lemma ikeys_in_size:
  assumes "sz \<le> LJ_MAX_ASIZE"
  shows "count_if (\<lambda>k. k < int sz) (ikeys key) = (if in_size sz key then 1 else 0)"
  using assms by (auto simp: ikeys_def in_size_def split: option.split)

lemma akeys_in_size:
  "count_if (\<lambda>k. k < int sz) (akeys t) + count_if (\<lambda>v. v \<noteq> TNil) (drop sz (tb_array t))
    = length (akeys t)"
proof -
  have e: "length (akeys t) = count_if (\<lambda>v. v \<noteq> TNil) (tb_array t)"
    unfolding count_akeys [of "\<lambda>_. True", simplified] length_filter_conv_card by (simp add: tb_asize_def)
  have "count_if (\<lambda>k. k < int sz) (akeys t) = count_if (\<lambda>v. v \<noteq> TNil) (take sz (tb_array t))"
    by (subst count_akeys, subst length_filter_conv_card, rule arg_cong [where f = card])
      (auto simp: tb_asize_def)
  moreover have "count_if (\<lambda>v. v \<noteq> TNil) (take sz (tb_array t)) +
      count_if (\<lambda>v. v \<noteq> TNil) (drop sz (tb_array t)) = count_if (\<lambda>v. v \<noteq> TNil) (tb_array t)"
    by (metis append_take_drop_id filter_append length_append)
  ultimately show ?thesis using e by simp
qed

lemma hkeys_in_size:
  assumes "sz \<le> LJ_MAX_ASIZE"
  shows "count_if (\<lambda>k. k < int sz) (hkeys ns) +
      count_if (\<lambda>n. nd_val n \<noteq> TNil \<and> \<not> in_size sz (nd_key n)) ns
    = count_if (\<lambda>n. nd_val n \<noteq> TNil) ns"
  by (induction ns) (auto simp: hkeys_def ikeys_in_size [OF assms])

lemma hsize2hbits_ge: "s \<le> (if hsize2hbits s = 0 then 0 else 2 ^ hsize2hbits s)"
proof (cases "s \<le> 1")
  case True
  then show ?thesis by (cases "s = 0") (simp_all add: hsize2hbits_def)
next
  case False
  then show ?thesis using lj_fls_upper [of "s - 1"] by (simp add: hsize2hbits_def)
qed

lemma hsize2hbits_le: "s \<le> 2 ^ n \<Longrightarrow> 0 < n \<Longrightarrow> hsize2hbits s \<le> n"
proof (cases "s \<le> 1")
  case True
  then show "0 < n \<Longrightarrow> hsize2hbits s \<le> n" by (cases "s = 0") (simp_all add: hsize2hbits_def)
next
  case False
  assume "s \<le> 2 ^ n" "0 < n"
  then have "s - 1 < 2 ^ Suc (n - 1)" using False by simp
  then have "lj_fls (s - 1) \<le> n - 1" using lj_fls_le_iff [of "s - 1"] False by simp
  then show ?thesis using False \<open>0 < n\<close> by (simp add: hsize2hbits_def)
qed

lemma hkeys_range: "k \<in> set (hkeys ns) \<Longrightarrow> 0 \<le> k \<and> nat k < LJ_MAX_ASIZE"
  using ikeys_range by (auto simp: hkeys_def split: if_splits)

lemma rehashtab_ok:
  assumes nk: "nk_ok nk" and ok: "tab_ok t"
  shows "rehashtab nk t ek = Inl ERR_TABOV \<and> 2 ^ 26 \<le> entries t \<or>
    (\<exists>t'. rehashtab nk t ek = Inr t' \<and> tab_ok t' \<and> tab_map t' = tab_map t \<and>
      tb_asize t' \<le> LJ_MAX_ASIZE \<and> (needs_node t' ek \<longrightarrow> nkeys t' < hcap t'))"
proof -
  note A = tab_okD(8) [OF ok]
  obtain b1 n1 where c1: "countarray t (replicate LJ_MAX_ABITS 0) = (b1, n1)"
    by (cases "countarray t (replicate LJ_MAX_ABITS 0)")
  obtain b2 n2 h where c2: "counthash t b1 = (b2, n2, h)" by (cases "counthash t b1")
  obtain b3 n3 where c3: "countint ek b2 = (b3, n3)" by (cases "countint ek b2")
  define ks where "ks = akeys t @ hkeys (tb_node t) @ ikeys ek"
  note C1 = countarray_ok [OF A c1]
  note C2 = counthash_ok [OF C1(1) c2 [unfolded counthash_def]]
  note C3 = countint_ok [OF C2(1) c3]
  have bins: "bins_ok b3 ks" using C3(1) by (simp add: ks_def)
  have len: "n1 + n2 + n3 = length ks" using C1(2) C2(2) C3(2) by (simp add: ks_def)
  have rng: "\<forall>k \<in> set ks. 0 \<le> k \<and> nat k < LJ_MAX_ASIZE"
  proof
    fix k assume "k \<in> set ks"
    then consider "k \<in> set (akeys t)" | "k \<in> set (hkeys (tb_node t))" | "k \<in> set (ikeys ek)"
      by (auto simp: ks_def)
    then show "0 \<le> k \<and> nat k < LJ_MAX_ASIZE"
      using hkeys_range ikeys_range A by cases (auto simp: akeys_def)
  qed
  obtain na sz where best: "bestasize b3 (length ks) = Inr (na, sz)" "asize_fits ks na sz"
    using bestasize_ok [OF rng bins] .
  have sz: "sz \<le> LJ_MAX_ASIZE" using best(2) by (simp add: asize_fits_def)
  define tot where "tot = 1 + n1 + h"
  have unf: "rehashtab nk t ek = resizetab nk t sz (hsize2hbits (tot - na))"
    unfolding rehashtab_def c1 Let_def c2 c3 prod.case
    using best(1) len by (simp add: tot_def add.assoc)
  have need: "tot - na = hash_entries t sz + (if in_size sz ek then 0 else 1)"
  proof -
    have "na = count_if (\<lambda>k. k < int sz) (akeys t) + count_if (\<lambda>k. k < int sz) (hkeys (tb_node t)) +
        (if in_size sz ek then 1 else 0)"
      using best(2) ikeys_in_size [OF sz, of ek] by (simp add: asize_fits_def ks_def)
    then show ?thesis
      using akeys_in_size [of sz t] hkeys_in_size [OF sz, of "tb_node t"] C1(2) C2(3)
      unfolding tot_def hash_entries_def by (cases "in_size sz ek"; simp only: if_True if_False; linarith)
  qed
  have ent: "n1 + h = entries t"
  proof -
    have "length (akeys t) = count_if (\<lambda>v. v \<noteq> TNil) (tb_array t)"
      using akeys_in_size [of 0 t] akeys_def [of t] by simp
    then show ?thesis using C1(2) C2(3) by (simp add: entries_def)
  qed
  show ?thesis
  proof (cases "hsize2hbits (tot - na) \<le> LJ_MAX_HBITS")
    case True
    have room: "hash_entries t sz \<le> (if hsize2hbits (tot - na) = 0 then 0 else 2 ^ hsize2hbits (tot - na))"
      using hsize2hbits_ge [of "tot - na"] need by simp
    obtain t' where t': "rehashtab nk t ek = Inr t'" "tab_ok t'" "tb_asize t' = sz"
      "length (tb_node t') = 2 ^ hsize2hbits (tot - na)" "tab_map t' = tab_map t"
      "nkeys t' \<le> hash_entries t sz"
      using resizetab_ok [OF nk ok True _ room] sz unf by auto
    have "nkeys t' < hcap t'" if "needs_node t' ek"
    proof -
      have "nkeys t' < tot - na" using that t'(3,6) need by (simp add: needs_node_in_size)
      also have "\<dots> \<le> (if hsize2hbits (tot - na) = 0 then 0 else 2 ^ hsize2hbits (tot - na))"
        by (rule hsize2hbits_ge)
      also have "\<dots> \<le> hcap t'"
        using t'(4) one_less_power [of "2::nat" "hsize2hbits (tot - na)"]
        by (auto simp: hcap_def tb_hmask_def)
      finally show ?thesis .
    qed
    then show ?thesis using t' sz by blast
  next
    case False
    have "\<not> tot - na \<le> 2 ^ 26"
      using False hsize2hbits_le [of "tot - na" 26] by (auto simp: LJ_MAX_HBITS_def)
    then have "2 ^ 26 \<le> entries t" using ent by (simp add: tot_def)
    then show ?thesis using resizetab_err(2) unf False by simp
  qed
qed

subsection \<open>Insertion with rehashing\<close>

lemma find_free_not_direct:
  assumes "tab_ok t" "\<not> direct t k"
  shows "find_free (tb_node t) (tb_freetop t) = None"
    "vl (tb_node t) (hashkey t k) \<noteq> TNil \<or> tb_hmask t = 0"
  using assms tab_okD(10) [OF assms(1)] by (auto simp: direct_def)

text \<open>Two levels of insertion are enough.\<close>

lemma newkey_n_enough:
  assumes ok: "tab_ok t" and new: "new_key t k"
  shows "newkey_n (Suc (Suc f)) t k = Inl ERR_TABOV \<and> 2 ^ 26 \<le> entries t \<or>
    (\<exists>t' s. newkey_n (Suc (Suc f)) t k = Inr (t', s) \<and> has_slot t k t' s)"
proof (cases "direct t k")
  case True
  then show ?thesis using newkey_direct [OF assms True, of "newkey_n (Suc f)"] by auto
next
  case False
  note nd = find_free_not_direct [OF ok False]
  have unf: "newkey_n (Suc (Suc f)) t k =
      rbind (rehashtab (newkey_n (Suc f)) t k) (\<lambda>t. tab_set (newkey_n (Suc f)) t k)"
    using nd by (simp add: newkey_step_def)
  have kv: "k \<noteq> TNil" "\<And>w. k = TNum w \<Longrightarrow> \<not> num_isnan w"
    using new by (auto simp: new_key_def kvalid_def)
  from rehashtab_ok [OF nk_ok_newkey_n [of f] ok, of k]
  show ?thesis
  proof (elim disjE exE conjE)
    fix t' assume t': "rehashtab (newkey_n (Suc f)) t k = Inr t'" "tab_ok t'"
      "tab_map t' = tab_map t" "needs_node t' k \<longrightarrow> nkeys t' < hcap t'"
    let ?t = "t'\<lparr>tb_nomm := 0\<rparr>"
    have same: "nkeys ?t = nkeys t'" "hcap ?t = hcap t'" "needs_node ?t = needs_node t'"
      by (simp_all add: nkeys_def hcap_def tb_hmask_def)
        (simp only: needs_node_def tab_cong_nomm fun_eq_iff simp_thms)
    have ok': "tab_ok ?t" using t'(2) by simp
    have room: "nkeys ?t < hcap ?t" if "needs_node ?t k" using t'(4) that unfolding same by blast
    obtain t2 s where "tab_set (newkey_n (Suc f)) t' k = Inr (t2, s)" "has_slot ?t k t2 s"
      using found_or_new_room [OF nk_ok_newkey_n [of f] ok' tab_set_found [OF t'(2) kv] room] by blast
    then show ?thesis
      unfolding unf using t'(1,3) by (simp add: has_slot_def)
  next
    assume e: "rehashtab (newkey_n (Suc f)) t k = Inl ERR_TABOV" "2 ^ 26 \<le> entries t"
    show ?thesis unfolding unf e(1) using e(2) by simp
  qed
qed

lemma entries_nomm [simp]: "entries (t\<lparr>tb_nomm := x\<rparr>) = entries t"
  by (simp add: entries_def)

lemma found_or_new_set:
  assumes ok: "tab_ok t" and f: "found_or_new lj_tab_newkey t k r"
  shows "r = Inl ERR_TABOV \<and> 2 ^ 26 \<le> entries t \<or> (\<exists>t' s. r = Inr (t', s) \<and> has_slot t k t' s)"
  using f unfolding found_or_new_def
proof (elim disjE exE conjE)
  assume n: "new_key t (norm_key k)" "r = lj_tab_newkey t (norm_key k)"
  show ?thesis
    using newkey_n_enough [OF ok n(1), of 0] n(2)
    by (auto simp: lj_tab_newkey_def numeral_2_eq_2 has_slot_def slot_for_norm)
qed auto

end
