(* ===== verification/LJ_TabProps.thy ===== *)
theory LJ_TabProps
  imports LJ_TabRehash "HOL-Library.Code_Target_Nat"
begin

text \<open>
  Creation, duplication and resizing of tables, the map laws of lookup and assignment as an
  interface for the clients of tables, and the properties of the table operations.
\<close>

subsection \<open>Creation and duplication\<close>

lemma newtab_err:
  "newtab w a h = Inl e \<Longrightarrow> e = ERR_TABOV \<and> (a > LJ_MAX_ASIZE \<or> h > LJ_MAX_HBITS)"
  by (auto simp: newtab_def newhpart_def LJ_MAX_COLOSIZE_def Let_def split: if_splits)

lemma newtab_result:
  assumes "newtab w a h = Inr t"
  shows "tb_array t = replicate a uninit_tv" "a \<le> LJ_MAX_ASIZE" "h \<le> LJ_MAX_HBITS"
    "tb_node t = (if h = 0 then [nilnode] else replicate (2 ^ h) uninit_node)"
    "tb_freetop t = (if h = 0 then 0 else 2 ^ h)"
  using assms
  by (auto simp: newtab_def newhpart_def LJ_MAX_COLOSIZE_def LJ_MAX_ASIZE_def Let_def split: if_splits)

lemma newtab_succeeds:
  "a \<le> LJ_MAX_ASIZE \<Longrightarrow> h \<le> LJ_MAX_HBITS \<Longrightarrow> \<exists>t. newtab w a h = Inr t"
  by (auto simp: newtab_def newhpart_def Let_def)

lemma cleared:
  assumes t: "newtab w a h = Inr t0"
  defines "t \<equiv> (let t = clearapart t0 in if tb_hmask t > 0 then clearhpart t else t)"
  shows "tb_node t = replicate (2 ^ h) nilnode" "tb_freetop t = (if h = 0 then 0 else 2 ^ h)"
    "tb_array t = replicate a TNil"
proof -
  note R = newtab_result [OF t]
  have "tb_hmask (clearapart t0) > 0 \<longleftrightarrow> h \<noteq> 0"
    using one_less_power [of "2::nat" h] by (auto simp: tb_hmask_def clearapart_def R)
  then show "tb_node t = replicate (2 ^ h) nilnode" "tb_freetop t = (if h = 0 then 0 else 2 ^ h)"
    "tb_array t = replicate a TNil"
    by (auto simp: t_def R clearapart_def clearhpart_def Let_def map_replicate_const
        nilnode_def uninit_node_def)
qed

lemma lj_tab_new_ok:
  assumes "asize \<le> LJ_MAX_ASIZE" "hbits \<le> LJ_MAX_HBITS"
  shows "\<exists>t. lj_tab_new w asize hbits = Inr t \<and> tab_ok t \<and> (\<forall>k. tab_map t k = TNil) \<and>
    tb_asize t = asize \<and> length (tb_node t) = 2 ^ hbits"
proof -
  obtain t0 where t0: "newtab w asize hbits = Inr t0" using newtab_succeeds [OF assms] by blast
  define t where "t = (let t = clearapart t0 in if tb_hmask t > 0 then clearhpart t else t)"
  note C = cleared [OF t0, folded t_def]
  have "lj_tab_new w asize hbits = Inr t" by (simp add: lj_tab_new_def t0 t_def Let_def)
  moreover have "tb_asize t \<le> LJ_MAX_ASIZE" using C(3) assms by (simp add: tb_asize_def)
  note F = fresh_table [OF C(1) assms(2) C(2) this]
  moreover have "tab_map t k = TNil" for k
    by (auto simp: F(3) C(3) arr_map_def split: option.split)
  ultimately show ?thesis by (auto simp: C(1) tb_asize_def C(3))
qed

lemma lj_tab_new_err:
  "lj_tab_new w asize hbits = Inl e \<Longrightarrow> e = ERR_TABOV \<and> (asize > LJ_MAX_ASIZE \<or> hbits > LJ_MAX_HBITS)"
  using newtab_err by (auto simp: lj_tab_new_def rbind_Inl_iff Let_def split: if_splits)


lemma hmask2hbits_pow: "0 < b \<Longrightarrow> hmask2hbits (2 ^ b - 1) = b"
proof -
  assume b: "0 < b"
  then have "(2::nat) ^ b = 2 * 2 ^ (b - 1)" by (cases b) simp_all
  moreover have "(1::nat) \<le> 2 ^ (b - 1)" by simp
  ultimately have "lj_fls (2 ^ b - 1) = b - 1" by (intro lj_fls_unique) auto
  then show ?thesis using b one_less_power [of "2::nat" b] by (simp add: hmask2hbits_def)
qed


subsection \<open>Resizing\<close>

lemma hash_entries_le: "hash_entries t n \<le> count_if (\<lambda>v. v \<noteq> TNil) (drop n (tb_array t)) + length (tb_node t)"
  by (simp add: hash_entries_def)

lemma lj_tab_reasize_ok:
  assumes ok: "tab_ok t" and n: "tb_asize t \<le> nasize + 1" "nasize + 1 \<le> LJ_MAX_ASIZE"
  shows "\<exists>t'. lj_tab_reasize t nasize = Inr t' \<and> tab_ok t' \<and> tab_map t' = tab_map t \<and>
    tb_asize t' = nasize + 1"
proof -
  note D = tab_okD [OF ok]
  obtain b where b: "b \<le> LJ_MAX_HBITS" "length (tb_node t) = 2 ^ b" using ok by (auto simp: tab_ok_def)
  have hb: "hmask2hbits (tb_hmask t) = b"
    using hmask2hbits_pow [of b] by (cases "b = 0") (simp_all add: tb_hmask_def b hmask2hbits_def)
  have e: "drop (nasize + 1) (tb_array t) = []" using n(1) by (simp add: tb_asize_def)
  have room: "hash_entries t (nasize + 1) \<le> (if b = 0 then 0 else 2 ^ b)"
  proof (cases "b = 0")
    case True
    then have "tb_node t = [nilnode]" using D(9) b(2) by (simp add: tb_hmask_def)
    then show ?thesis using e by (simp add: hash_entries_def nilnode_def)
  next
    case False
    then show ?thesis using hash_entries_le [of t "nasize + 1"] e b(2) by simp
  qed
  show ?thesis
    unfolding lj_tab_reasize_def tab_reasize_def hb lj_tab_newkey_def numeral_2_eq_2
    using resizetab_ok [OF nk_ok_newkey_n [of 1] ok b(1) disjI2 [OF n(2)] room] by auto
qed

lemma lj_tab_rehash_ok:
  assumes "tab_ok t"
  shows "lj_tab_rehash t = Inl ERR_TABOV \<and> 2 ^ 26 \<le> entries t \<or>
    (\<exists>t'. lj_tab_rehash t = Inr t' \<and> tab_ok t' \<and> tab_map t' = tab_map t)"
  using rehashtab_ok [OF nk_ok_newkey_n [of 1] assms, of TNil]
  by (auto simp: lj_tab_rehash_def lj_tab_newkey_def numeral_2_eq_2 simp del: newkey_n.simps)

subsection \<open>Assignment\<close>

definition settable :: "tval \<Rightarrow> bool" where
  "settable k \<longleftrightarrow> k \<noteq> TNil \<and> (\<forall>w. k = TNum w \<longrightarrow> \<not> num_isnan w)"

definition assigns :: "gctab \<Rightarrow> tval \<Rightarrow> gctab \<Rightarrow> slot \<Rightarrow> bool" where
  "assigns t k t' s \<longleftrightarrow> tab_ok t' \<and> tab_map t' = tab_map t \<and>
     (\<forall>v. tab_ok (slot_put t' s v) \<and>
       (\<forall>k'. tab_map (slot_put t' s v) k' = (if norm_key k' = norm_key k then v else tab_map t k')))"

lemma has_slot_assigns: "has_slot t k t' s \<Longrightarrow> assigns t k t' s"
  by (auto simp: has_slot_def assigns_def tab_ok_put tab_map_put)

lemma found_assigns:
  assumes "tab_ok t" "found_or_new lj_tab_newkey t k r"
  shows "r = Inl ERR_TABOV \<and> 2 ^ 26 \<le> entries t \<or> (\<exists>t' s. r = Inr (t', s) \<and> assigns t k t' s)"
  using found_or_new_set [OF assms] has_slot_assigns by blast

lemma assigns_nomm: "assigns (t\<lparr>tb_nomm := x\<rparr>) k = assigns t k"
  by (simp only: assigns_def tab_cong_nomm fun_eq_iff simp_thms)

lemma lj_tab_set_ok:
  assumes "tab_ok t" "settable k"
  shows "lj_tab_set t k = Inl ERR_TABOV \<and> 2 ^ 26 \<le> entries t \<or>
    (\<exists>t' s. lj_tab_set t k = Inr (t', s) \<and> assigns t k t' s)"
  using found_assigns [OF _ tab_set_found, of t k, unfolded assigns_nomm] assms
  by (simp add: lj_tab_set_def settable_def)

lemma lj_tab_set_err:
  "lj_tab_set t TNil = Inl ERR_NILIDX"
  "num_isnan w \<Longrightarrow> lj_tab_set t (TNum w) = Inl ERR_NANIDX"
  by (simp_all add: lj_tab_set_def tab_set_def nan_no_int)

lemma lj_tab_setint_ok:
  assumes "tab_ok t" "int32 i"
  shows "lj_tab_setint t i = Inl ERR_TABOV \<and> 2 ^ 26 \<le> entries t \<or>
    (\<exists>t' s. lj_tab_setint t i = Inr (t', s) \<and> assigns t (TNum (num_of_int i)) t' s)"
  unfolding lj_tab_setint_def using found_assigns [OF assms(1) tab_setint_found(1) [OF assms]] .

lemma lj_tab_setstr_ok:
  assumes "tab_ok t"
  shows "lj_tab_setstr t s = Inl ERR_TABOV \<and> 2 ^ 26 \<le> entries t \<or>
    (\<exists>t' sl. lj_tab_setstr t s = Inr (t', sl) \<and> assigns t (TStr s) t' sl)"
  unfolding lj_tab_setstr_def using found_assigns [OF assms tab_setstr_found [OF assms]] .

subsection \<open>The interface of tables\<close>

text \<open>
  What the rest of the program relies on: lookup never fails, an assignment that succeeds
  changes the value of its key only, and it fails only when the table is full.
\<close>

primrec upd_list :: "('t \<Rightarrow> 'k \<Rightarrow> 'v \<Rightarrow> 't res) \<Rightarrow> 't \<Rightarrow> ('k \<times> 'v) list \<Rightarrow> 't res" where
  "upd_list upd t [] = Inr t"
| "upd_list upd t (p # ps) = rbind (upd t (fst p) (snd p)) (\<lambda>t. upd_list upd t ps)"

locale assoc_table =
  fixes ok :: "'t \<Rightarrow> bool" and get :: "'t \<Rightarrow> 'k \<Rightarrow> 'v res" and upd :: "'t \<Rightarrow> 'k \<Rightarrow> 'v \<Rightarrow> 't res"
    and norm :: "'k \<Rightarrow> 'k" and good :: "'k \<Rightarrow> bool"
  assumes get_total: "ok t \<Longrightarrow> \<exists>v. get t k = Inr v"
    and upd_ok: "ok t \<Longrightarrow> good k \<Longrightarrow> upd t k v = Inr t' \<Longrightarrow> ok t'"
    and get_upd: "ok t \<Longrightarrow> good k \<Longrightarrow> upd t k v = Inr t' \<Longrightarrow>
      get t' k' = (if norm k' = norm k then Inr v else get t k')"
    and upd_err: "ok t \<Longrightarrow> good k \<Longrightarrow> upd t k v = Inl e \<Longrightarrow> e = ERR_TABOV"
begin

primrec overlay :: "('k \<times> 'v) list \<Rightarrow> ('k \<Rightarrow> 'v res) \<Rightarrow> 'k \<Rightarrow> 'v res" where
  "overlay [] f k = f k"
| "overlay (p # ps) f k = overlay ps (\<lambda>k. if norm k = norm (fst p) then Inr (snd p) else f k) k"

lemma upd_all_ok:
  "ok t \<Longrightarrow> \<forall>p \<in> set ps. good (fst p) \<Longrightarrow> upd_list upd t ps = Inr t' \<Longrightarrow>
   ok t' \<and> get t' = overlay ps (get t)"
proof (induction ps arbitrary: t)
  case Nil
  then show ?case by (simp add: fun_eq_iff)
next
  case (Cons p ps)
  then obtain t1 where t1: "upd t (fst p) (snd p) = Inr t1" "upd_list upd t1 ps = Inr t'"
    by (auto simp: rbind_Inr_iff)
  have "good (fst p)" using Cons.prems by simp
  then have "ok t1" "get t1 = (\<lambda>k. if norm k = norm (fst p) then Inr (snd p) else get t k)"
    using upd_ok get_upd Cons.prems(1) t1(1) by (blast, simp add: fun_eq_iff)
  then show ?case using Cons.IH [of t1] Cons.prems(2) t1(2) by (auto simp: fun_eq_iff)
qed

lemma upd_all_err:
  "ok t \<Longrightarrow> \<forall>p \<in> set ps. good (fst p) \<Longrightarrow> upd_list upd t ps = Inl e \<Longrightarrow> e = ERR_TABOV"
  by (induction ps arbitrary: t) (auto simp: rbind_Inl_iff dest: upd_err upd_ok)

text \<open>The order of two assignments matters only when the keys are the same.\<close>

lemma upd_commute:
  assumes "ok t" "good k1" "good k2" "norm k1 \<noteq> norm k2"
    and "upd_list upd t [(k1, v1), (k2, v2)] = Inr t1" "upd_list upd t [(k2, v2), (k1, v1)] = Inr t2"
  shows "get t1 = get t2"
  using upd_all_ok [OF assms(1) _ assms(5)] upd_all_ok [OF assms(1) _ assms(6)] assms(2-4)
  by (auto simp: fun_eq_iff)

end

definition tab_assign :: "gctab \<Rightarrow> tval \<Rightarrow> tval \<Rightarrow> gctab res" where
  "tab_assign t k v = rbind (lj_tab_set t k) (\<lambda>(t, s). Inr (slot_put t s v))"

lemma tab_assign_ok:
  assumes "tab_ok t" "settable k"
  shows "tab_assign t k v = Inl ERR_TABOV \<and> 2 ^ 26 \<le> entries t \<or>
    (\<exists>t'. tab_assign t k v = Inr t' \<and> tab_ok t' \<and>
      (\<forall>k'. tab_map t' k' = (if norm_key k' = norm_key k then v else tab_map t k')))"
  using lj_tab_set_ok [OF assms] by (auto simp: tab_assign_def assigns_def)

interpretation ltab: assoc_table tab_ok lj_tab_get tab_assign norm_key settable
proof unfold_locales
  fix t k v t' k' e
  assume ok: "tab_ok t"
  show "\<exists>v. lj_tab_get t k = Inr v" using tab_get_map [OF ok] by simp
  assume k: "settable k"
  show "tab_ok t'" if "tab_assign t k v = Inr t'"
    using tab_assign_ok [OF ok k, of v] that by auto
  show "lj_tab_get t' k' = (if norm_key k' = norm_key k then Inr v else lj_tab_get t k')"
    if "tab_assign t k v = Inr t'"
    using tab_assign_ok [OF ok k, of v] that tab_get_map tab_get_map [OF ok] by auto
  show "e = ERR_TABOV" if "tab_assign t k v = Inl e"
    using tab_assign_ok [OF ok k, of v] that by auto
qed

subsection \<open>The properties\<close>

text \<open>A small table for the witnesses: array part of size 3, hash part with two nodes, both used.\<close>

definition sample_tab :: "gctab res" where
  "sample_tab = rbind (lj_tab_new 0 3 1) (\<lambda>t.
     upd_list tab_assign t [(TNum (num_of_int 2), TTrue), (TStr [0x61], TFalse), (TTrue, TStr [])])"

definition sample :: gctab where
  "sample = \<lparr>tb_array = [TNil, TNil, TTrue],
     tb_node = [\<lparr>nd_val = TFalse, nd_key = TStr [0x61], nd_next = None\<rparr>,
                \<lparr>nd_val = TStr [], nd_key = TTrue, nd_next = None\<rparr>],
     tb_freetop = 2, tb_colo = 3, tb_nomm = 0, tb_marked = 0, tb_grayagain = False\<rparr>"

lemma sample_tab_eq: "sample_tab = Inr sample"
  by code_simp

lemma settable_int: "int32 i \<Longrightarrow> settable (TNum (num_of_int i))"
  using int_key_valid [of i] by (auto simp: settable_def kvalid_def)

lemma sample_ok: "tab_ok sample"
proof -
  obtain t0 where t0: "lj_tab_new 0 3 1 = Inr t0" "tab_ok t0"
    using lj_tab_new_ok [of 3 1 0] by (auto simp: LJ_MAX_ASIZE_def LJ_MAX_HBITS_def)
  show ?thesis
    using ltab.upd_all_ok [OF t0(2) _ sample_tab_eq [unfolded sample_tab_def t0(1) rbind_simps]]
    by (simp add: settable_int int32_def) (simp add: settable_def)
qed

text \<open>C7: on a well-formed table \<^verbatim>\<open>lj_tab_get\<close> returns, for every key (numbers that are
  integers or not, both zeros, NaN, nil, strings and references), the value of the map the table
  stands for; no lookup loop runs past the end of its chain.\<close>

theorem lj_tab_get_map:
  assumes "tab_ok t"
  shows "lj_tab_get t k = Inr (tab_map t k)"
  by (rule tab_get_map [OF assms])

lemma lj_tab_get_map_witness:
  "tab_ok sample \<and> lj_tab_get sample (TStr [0x61]) = Inr (tab_map sample (TStr [0x61])) \<and>
   tab_map sample (TStr [0x61]) = TFalse"
proof (intro conjI sample_ok lj_tab_get_map)
  show "tab_map sample (TStr [0x61]) = TFalse"
    by (simp add: tab_map_def sample_def key_int_def norm_key_def hmap_def)
qed

text \<open>C1: an assignment \<^verbatim>\<open>*lj_tab_set(L, t, k) = v\<close> is a map update.  The call itself keeps
  the contents, although it may rehash the table and move every entry; storing into the slot
  it returns changes the value of \<open>k\<close> (where \<open>-0\<close> and \<open>0\<close> are one key) and of no other
  key; the result is well-formed again.  The only errors are a nil key, a NaN key, and table
  overflow, the latter for a table with at least \<open>2 ^ 26\<close> entries.\<close>

theorem lj_tab_set_updates_map:
  assumes "tab_ok t"
  shows "(case lj_tab_set t k of
      Inl e \<Rightarrow> e = ERR_NILIDX \<and> k = TNil \<or>
               e = ERR_NANIDX \<and> (\<exists>w. k = TNum w \<and> num_isnan w) \<or>
               e = ERR_TABOV \<and> 2 ^ 26 \<le> entries t
    | Inr (t', s) \<Rightarrow> k \<noteq> TNil \<and> (\<forall>w. k = TNum w \<longrightarrow> \<not> num_isnan w) \<and>
        tab_ok t' \<and> tab_map t' = tab_map t \<and>
        (\<forall>v. tab_ok (slot_put t' s v) \<and>
          (\<forall>k'. tab_map (slot_put t' s v) k' =
             (if norm_key k' = norm_key k then v else tab_map t k'))))"
proof (cases "settable k")
  case True
  then show ?thesis
    using lj_tab_set_ok [OF assms True] by (auto simp: settable_def assigns_def)
next
  case False
  then show ?thesis by (auto simp: settable_def lj_tab_set_err)
qed

lemma lj_tab_set_updates_map_witness:
  "tab_ok sample \<and> (\<exists>t' s. lj_tab_set sample (TStr [0x62]) = Inr (t', s) \<and>
     tb_hmask sample = 1 \<and> tb_hmask t' = 3 \<and>
     tab_map (slot_put t' s TTrue) (TStr [0x62]) = TTrue \<and>
     tab_map (slot_put t' s TTrue) (TStr [0x61]) = tab_map sample (TStr [0x61]))"
proof -
  have "case lj_tab_set sample (TStr [0x62]) of Inr (t', s) \<Rightarrow> tb_hmask t' = 3 | Inl _ \<Rightarrow> False"
    by code_simp
  then obtain t' s where e: "lj_tab_set sample (TStr [0x62]) = Inr (t', s)" "tb_hmask t' = 3"
    by (auto split: sum.splits)
  show ?thesis
    using lj_tab_set_updates_map [OF sample_ok, of "TStr [0x62]"] e sample_ok
    by (auto simp: norm_key_def tb_hmask_def sample_def)
qed

text \<open>C9: \<^verbatim>\<open>lj_tab_newkey\<close> terminates: whatever the number of levels of recursion beyond two
  that it is given, it inserts a key that is not in the table (or reports table overflow),
  since the insertions made while rehashing always find a free node.  No chain walk runs out
  of fuel and no missing predecessor is reached.\<close>

theorem newkey_terminates:
  assumes "tab_ok t" "kvalid k"
    and "\<forall>i < length (tb_node t). nd_key (tb_node t ! i) \<noteq> k"
    and "\<forall>j. key_int k = Some j \<longrightarrow> \<not> inarray t j"
  shows "(case newkey_n (f + 2) t k of
      Inl e \<Rightarrow> e = ERR_TABOV \<and> 2 ^ 26 \<le> entries t
    | Inr (t', s) \<Rightarrow> tab_ok t' \<and> tab_map t' = tab_map t \<and> slot_for t' s k)"
proof -
  have "new_key t k" using assms by (simp add: new_key_def)
  from newkey_n_enough [OF assms(1) this, of f] show ?thesis
    by (auto simp: has_slot_def simp del: newkey_n.simps)
qed

lemma newkey_terminates_witness:
  "case newkey_n (7 + 2) sample (TStr [0x62]) of
      Inl e \<Rightarrow> e = ERR_TABOV \<and> 2 ^ 26 \<le> entries sample
    | Inr (t', s) \<Rightarrow> tab_ok t' \<and> tab_map t' = tab_map sample \<and> slot_for t' s (TStr [0x62])"
  by (rule newkey_terminates [OF sample_ok])
    (simp_all add: kvalid_def tab_map_def key_int_def norm_key_def hmap_def sample_def less_Suc_eq nth_Cons')

text \<open>C17: \<^verbatim>\<open>lj_tab_new\<close> returns an empty, well-formed table with the requested array size and
  \<open>2 ^ hbits\<close> nodes, whatever the memory it was given held, and fails exactly when one of the
  sizes exceeds its limit.\<close>

theorem lj_tab_new_empty:
  "case lj_tab_new w asize hbits of
     Inl e \<Rightarrow> e = ERR_TABOV \<and> (asize > LJ_MAX_ASIZE \<or> hbits > LJ_MAX_HBITS)
   | Inr t \<Rightarrow> asize \<le> LJ_MAX_ASIZE \<and> hbits \<le> LJ_MAX_HBITS \<and> tab_ok t \<and> (\<forall>k. tab_map t k = TNil) \<and>
       tb_asize t = asize \<and> length (tb_node t) = 2 ^ hbits"
proof (cases "lj_tab_new w asize hbits")
  case (Inr t)
  then obtain t0 where "newtab w asize hbits = Inr t0" by (auto simp: lj_tab_new_def rbind_Inr_iff)
  note newtab_result(2,3) [OF this]
  then show ?thesis using lj_tab_new_ok [of asize hbits w] Inr by auto
qed (use lj_tab_new_err in auto)



text \<open>C19: \<^verbatim>\<open>lj_tab_reasize\<close>, used to make room for array elements, grows the array part to
  the requested size and keeps all entries; integer keys that the array part now covers move
  out of the hash part.\<close>

theorem lj_tab_reasize_keeps_map:
  assumes "tab_ok t" "tb_asize t \<le> nasize + 1" "nasize + 1 \<le> LJ_MAX_ASIZE"
  shows "\<exists>t'. lj_tab_reasize t nasize = Inr t' \<and> tab_ok t' \<and> tab_map t' = tab_map t \<and>
    tb_asize t' = nasize + 1"
  by (rule lj_tab_reasize_ok [OF assms])

lemma lj_tab_reasize_keeps_map_witness:
  "tb_asize sample = 3 \<and> (\<exists>t'. lj_tab_reasize sample 9 = Inr t' \<and> tab_ok t' \<and>
     tab_map t' = tab_map sample \<and> tb_asize t' = 10)"
  using lj_tab_reasize_keeps_map [OF sample_ok, of 9]
  by (simp add: sample_def tb_asize_def LJ_MAX_ASIZE_def)

text \<open>C15: rehashing chooses an array part of which at least a quarter is used: for bins that
  count the integer keys \<open>ks\<close> by magnitude, \<^verbatim>\<open>bestasize\<close> returns a size \<open>sz\<close> within the
  limit, the exact number of keys below it, and never reads past the bins.\<close>

theorem bestasize_quarter_full:
  assumes "\<forall>k \<in> set ks. 0 \<le> k \<and> nat k < LJ_MAX_ASIZE"
    and "length bins = LJ_MAX_ABITS"
    and "\<forall>b < LJ_MAX_ABITS. bins ! b = length (filter (\<lambda>k. int_bin k = b) ks)"
  shows "\<exists>na sz. bestasize bins (length ks) = Inr (na, sz) \<and> sz \<le> LJ_MAX_ASIZE \<and> sz \<le> 4 * na \<and>
    na = length (filter (\<lambda>k. k < int sz) ks)"
proof -
  have "bins_ok bins ks" using assms(2,3) by (simp add: bins_ok_def)
  from bestasize_ok [OF assms(1) this] show ?thesis by (metis asize_fits_def)
qed

lemma bestasize_quarter_full_witness:
  "\<exists>na sz. bestasize (5 # replicate 27 0) (length [0, 1, 2, 2, 1 :: int]) = Inr (na, sz) \<and>
    sz \<le> LJ_MAX_ASIZE \<and> sz \<le> 4 * na \<and> na = length (filter (\<lambda>k. k < int sz) [0, 1, 2, 2, 1 :: int])"
  by (rule bestasize_quarter_full)
    (auto simp: LJ_MAX_ASIZE_def LJ_MAX_ABITS_def int_bin_def nth_Cons')

end
