(* ===== verification/LJ_TabIter.thy ===== *)
theory LJ_TabIter
  imports LJ_TabProps
begin

text \<open>
  Traversal and length.  The entries of a table are numbered, array part first;
  \<open>entry_at t i\<close> is the entry with number \<open>i\<close>.  \<open>traverse\<close> is the loop of \<^verbatim>\<open>next\<close> and
  \<^verbatim>\<open>pairs\<close>: it calls \<open>lj_tab_next\<close> with nil first and then with the key it returned last.
\<close>

definition entry_at :: "gctab \<Rightarrow> nat \<Rightarrow> (tval \<times> tval) option" where
  "entry_at t i =
     (if i < tb_asize t then
        (if tb_array t ! i \<noteq> TNil then Some (TNum (num_of_int (int i)), tb_array t ! i) else None)
      else if i - tb_asize t < length (tb_node t) \<and> nd_val (tb_node t ! (i - tb_asize t)) \<noteq> TNil
      then Some (nd_key (tb_node t ! (i - tb_asize t)), nd_val (tb_node t ! (i - tb_asize t)))
      else None)"

definition nslots :: "gctab \<Rightarrow> nat" where
  "nslots t = tb_asize t + length (tb_node t)"

definition entry_list :: "gctab \<Rightarrow> nat \<Rightarrow> (tval \<times> tval) list" where
  "entry_list t i = List.map_filter (entry_at t) [i..<nslots t]"

fun traverse :: "nat \<Rightarrow> gctab \<Rightarrow> tval \<Rightarrow> (tval \<times> tval) list res" where
  "traverse 0 t k = Inl DIVERGE"
| "traverse (Suc f) t k = rbind (lj_tab_next t k) (\<lambda>r. case r of
     None \<Rightarrow> Inr []
   | Some (k', v) \<Rightarrow> rbind (traverse f t k') (\<lambda>xs. Inr ((k', v) # xs)))"

subsection \<open>The number of a key\<close>

lemma keyindex_nil: "keyindex t TNil = Inr (-1)"
  by (simp add: keyindex_def)

lemma keyindex_array:
  assumes "i < tb_asize t" "tab_ok t"
  shows "keyindex t (TNum (num_of_int (int i))) = Inr (int i)"
proof -
  have "int32 (int i)"
    using assms tab_okD(8) [OF assms(2)] by (simp add: int32_def LJ_MAX_ASIZE_def)
  then show ?thesis
    using assms(1) num_toint_of_int [of "int i"] by (simp add: keyindex_def inarray_def)
qed

lemma find_node:
  assumes ok: "tab_ok t" and i: "i < length (tb_node t)" "ky (tb_node t) i = k" "k \<noteq> TNil"
  shows "find_in t (\<lambda>k'. lj_obj_equal k' k) k = Inr (Some i)"
proof -
  note K = tab_okD(4) [OF ok]
  have kv: "kvalid k" using keys_okD(2) [OF K i(1)] i(2,3) by blast
  then have "k \<noteq> TNum num_mzero" by (simp add: kvalid_def)
  then have "find_in t (\<lambda>k'. lj_obj_equal k' k) k = Inr None \<and>
      (\<forall>i < length (tb_node t). ky (tb_node t) i = k \<longrightarrow> k = TNil) \<or>
    (\<exists>i. find_in t (\<lambda>k'. lj_obj_equal k' k) k = Inr (Some i) \<and> i < length (tb_node t) \<and>
      ky (tb_node t) i = k \<and> kvalid k)"
    using obj_equal_key obj_equal_nil [OF i(3)] by (intro find_in_spec [OF ok]) auto
  then obtain j where j: "find_in t (\<lambda>k'. lj_obj_equal k' k) k = Inr (Some j)"
    "j < length (tb_node t)" "ky (tb_node t) j = k"
    using i by blast
  have "i = j" using keys_okD(3) [OF K i(1) j(2)] i(2,3) j(3) by simp
  with j show ?thesis by simp
qed

lemma keyindex_node:
  assumes ok: "tab_ok t" and i: "i < length (tb_node t)" "ky (tb_node t) i = k" "k \<noteq> TNil"
  shows "keyindex t k = Inr (int (tb_asize t + i))"
proof -
  have "\<not> inarray t j" if "key_int k = Some j" for j
    using ok i(1,2) that unfolding tab_ok_def by blast
  then show ?thesis
    unfolding keyindex_def find_node [OF assms] Let_def rbind_simps
    using i(3) by (cases k) (auto simp: key_int_def split: option.split)
qed

lemma keyindex_entry:
  assumes ok: "tab_ok t" and e: "entry_at t i = Some (k, v)"
  shows "keyindex t k = Inr (int i)"
proof (cases "i < tb_asize t")
  case True
  then show ?thesis using e keyindex_array [OF True ok] by (auto simp: entry_at_def split: if_splits)
next
  case False
  define j where "j = i - tb_asize t"
  have i: "i = tb_asize t + j" using False by (simp add: j_def)
  have j: "j < length (tb_node t)" "vl (tb_node t) j \<noteq> TNil" "ky (tb_node t) j = k"
    using e False by (auto simp: entry_at_def j_def split: if_splits)
  have "k \<noteq> TNil" using keys_okD(1) [OF tab_okD(4) [OF ok] j(1,2)] j(3) by simp
  with keyindex_node [OF ok j(1,3)] show ?thesis by (simp add: i)
qed

subsection \<open>One step\<close>

lemma entry_list_step:
  "entry_list t i = (if i < nslots t then
     (case entry_at t i of None \<Rightarrow> entry_list t (Suc i) | Some e \<Rightarrow> e # entry_list t (Suc i)) else [])"
proof (cases "i < nslots t")
  case True
  then have "[i..<nslots t] = i # [Suc i..<nslots t]" by (rule upt_conv_Cons)
  then show ?thesis using True by (simp add: entry_list_def map_filter_simps split: option.split)
qed (simp add: entry_list_def map_filter_simps)

lemma next_hash_entry:
  "next_hash t i = (case entry_list t (tb_asize t + i) of [] \<Rightarrow> None | e # es \<Rightarrow> Some e)"
proof (induction t i rule: next_hash.induct)
  case (1 t i)
  show ?case
    using 1 by (subst next_hash.simps, subst entry_list_step) (auto simp: nslots_def entry_at_def)
qed

lemma next_array_entry:
  "(let i = next_array t i in
      if i < tb_asize t then Some (TNum (num_of_int (int i)), tb_array t ! i)
      else next_hash t (i - tb_asize t))
   = (case entry_list t i of [] \<Rightarrow> None | e # es \<Rightarrow> Some e)"
proof (induction t i rule: next_array.induct)
  case (1 t i)
  show ?case
  proof (cases "i < tb_asize t")
    case True
    then show ?thesis
      using 1 by (subst next_array.simps, subst entry_list_step) (auto simp: nslots_def entry_at_def)
  next
    case False
    then show ?thesis
      using next_hash_entry [of t "i - tb_asize t"] by (subst next_array.simps) simp
  qed
qed

lemma lj_tab_next_step:
  assumes "keyindex t k = Inr (int i - 1)"
  shows "lj_tab_next t k = Inr (case entry_list t i of [] \<Rightarrow> None | e # es \<Rightarrow> Some e)"
proof -
  have "nat (int i - 1 + 1) = i" by simp
  with next_array_entry [of t i] show ?thesis
    unfolding lj_tab_next_def assms rbind_simps Let_def by (simp only:)
qed

text \<open>Where the rest of the entries begins.\<close>

lemma entry_list_tail:
  assumes "entry_list t i = (k, v) # es"
  shows "\<exists>j \<ge> i. j < nslots t \<and> entry_at t j = Some (k, v) \<and> es = entry_list t (Suc j)"
  using assms
proof (induction "nslots t - i" arbitrary: i)
  case 0
  then show ?case by (simp add: entry_list_step [of t i])
next
  case (Suc n)
  have i: "i < nslots t" using Suc.hyps(2) by simp
  show ?case
  proof (cases "entry_at t i")
    case None
    then have "entry_list t (Suc i) = (k, v) # es" using Suc.prems i by (simp add: entry_list_step [of t i])
    then show ?thesis using Suc.hyps(1) [of "Suc i"] Suc.hyps(2) by (metis Suc_leD Suc_diff_Suc i nat.inject)
  next
    case (Some e)
    then show ?thesis using Suc.prems i by (auto simp: entry_list_step [of t i])
  qed
qed

lemma traverse_from:
  assumes ok: "tab_ok t" and k: "keyindex t k = Inr (int i - 1)" and f: "i \<le> nslots t" "nslots t < i + f"
  shows "traverse f t k = Inr (entry_list t i)"
  using k f
proof (induction f arbitrary: k i)
  case 0
  then show ?case by simp
next
  case (Suc f)
  note n = lj_tab_next_step [OF Suc.prems(1)]
  show ?case
  proof (cases "entry_list t i")
    case Nil
    then show ?thesis by (simp add: n)
  next
    case (Cons e es)
    obtain k' v where e: "e = (k', v)" by (cases e)
    obtain j where j: "j \<ge> i" "j < nslots t" "entry_at t j = Some (k', v)" "es = entry_list t (Suc j)"
      using entry_list_tail Cons e by blast
    have "traverse f t k' = Inr es"
      using Suc.IH [of k' "Suc j"] keyindex_entry [OF ok j(3)] j Suc.prems(3) by simp
    then show ?thesis by (simp add: n Cons e)
  qed
qed

subsection \<open>The entries\<close>

lemma set_entry_list: "set (entry_list t i) = {e. \<exists>j \<ge> i. j < nslots t \<and> entry_at t j = Some e}"
  by (auto simp: entry_list_def List.map_filter_def) force

lemma entry_at_inj:
  assumes "tab_ok t" "entry_at t i = Some (k, v)" "entry_at t j = Some (k, v')"
  shows "i = j"
  using keyindex_entry [OF assms(1,2)] keyindex_entry [OF assms(1,3)] by simp

lemma distinct_entry_list:
  assumes ok: "tab_ok t"
  shows "distinct (map fst (entry_list t i))"
proof (induction "nslots t - i" arbitrary: i)
  case 0
  then show ?case by (simp add: entry_list_step [of t i])
next
  case (Suc n)
  have i: "i < nslots t" using Suc.hyps(2) by simp
  have IH: "distinct (map fst (entry_list t (Suc i)))" using Suc by simp
  show ?case
  proof (cases "entry_at t i")
    case None
    then show ?thesis using IH i by (simp add: entry_list_step [of t i])
  next
    case (Some e)
    have "fst e \<notin> fst ` set (entry_list t (Suc i))"
    proof
      assume "fst e \<in> fst ` set (entry_list t (Suc i))"
      then obtain v j where "j \<ge> Suc i" "entry_at t j = Some (fst e, v)"
        unfolding set_entry_list by force
      then show False using entry_at_inj [OF ok, of i "fst e" "snd e" j v] Some by simp
    qed
    then show ?thesis using IH i Some by (simp add: entry_list_step [of t i])
  qed
qed

lemma key_int_nil [simp]: "key_int TNil = None"
  by (simp add: key_int_def)

lemma entry_iff:
  assumes ok: "tab_ok t"
  shows "(\<exists>i < nslots t. entry_at t i = Some (k, v)) \<longleftrightarrow> v \<noteq> TNil \<and> norm_key k = k \<and> tab_map t k = v"
proof
  assume "\<exists>i < nslots t. entry_at t i = Some (k, v)"
  then obtain i where i: "entry_at t i = Some (k, v)" by blast
  show "v \<noteq> TNil \<and> norm_key k = k \<and> tab_map t k = v"
  proof (cases "i < tb_asize t")
    case True
    then have e: "k = TNum (num_of_int (int i))" "v = tb_array t ! i" "v \<noteq> TNil"
      using i by (auto simp: entry_at_def split: if_splits)
    have i32: "int32 (int i)"
      using True tab_okD(8) [OF ok] by (simp add: int32_def LJ_MAX_ASIZE_def)
    have "key_int k = Some (int i)" by (simp add: e(1) key_int_def num_toint_of_int [OF i32])
    then show ?thesis
      using e True key_int_Some(2) [of k "int i"] by (simp add: tab_map_def inarray_def)
  next
    case False
    define j where "j = i - tb_asize t"
    have j: "j < length (tb_node t)" "vl (tb_node t) j = v" "v \<noteq> TNil" "ky (tb_node t) j = k"
      using i False by (auto simp: entry_at_def j_def split: if_splits)
    note K = tab_okD(4) [OF ok]
    have kn: "k \<noteq> TNil" using keys_okD(1) [OF K j(1)] j by simp
    then have kv: "norm_key k = k" using keys_okD(2) [OF K j(1)] j(4) kvalid_norm by simp
    have "\<not> inarray t m" if "key_int k = Some m" for m
      using ok j(1,4) that unfolding tab_ok_def by blast
    moreover have "hmap (tb_node t) k = v" using hmap_some [OF K j(1,4) kn] j(2) by simp
    ultimately show ?thesis using j(3) kn kv by (simp add: tab_map_def split: option.split)
  qed
next
  assume r: "v \<noteq> TNil \<and> norm_key k = k \<and> tab_map t k = v"
  show "\<exists>i < nslots t. entry_at t i = Some (k, v)"
  proof (cases "\<exists>j. key_int k = Some j \<and> inarray t j")
    case True
    then obtain j where j: "key_int k = Some j" "inarray t j" by blast
    then have "entry_at t (nat j) = Some (k, v)"
      using r key_int_Some(2) [OF j(1)] by (auto simp: entry_at_def inarray_def tab_map_def)
    moreover have "nat j < nslots t" using j(2) by (simp add: inarray_def nslots_def)
    ultimately show ?thesis by blast
  next
    case False
    then have h: "hmap (tb_node t) k = v" "k \<noteq> TNil"
      using r by (auto simp: tab_map_def split: option.splits if_splits)
    then obtain j where j: "j < length (tb_node t)" "ky (tb_node t) j = k"
      using hmap_none r by blast
    have "vl (tb_node t) j = v" using hmap_some [OF tab_okD(4) [OF ok] j h(2)] h(1) by simp
    then have "entry_at t (tb_asize t + j) = Some (k, v)" using j r by (simp add: entry_at_def)
    moreover have "tb_asize t + j < nslots t" using j(1) by (simp add: nslots_def)
    ultimately show ?thesis by blast
  qed
qed

text \<open>C10: traversal with \<^verbatim>\<open>lj_tab_next\<close>, as \<^verbatim>\<open>next\<close> and \<^verbatim>\<open>pairs\<close> do it, ends and enumerates
  each entry of the table exactly once: the list of the pairs has no repeated key and contains
  exactly the keys with a non-nil value, each with its value.\<close>

theorem lj_tab_next_enumerates:
  assumes "tab_ok t" "nslots t < f"
  shows "\<exists>es. traverse f t TNil = Inr es \<and> distinct (map fst es) \<and>
    (\<forall>k v. (k, v) \<in> set es \<longleftrightarrow> v \<noteq> TNil \<and> norm_key k = k \<and> tab_map t k = v)"
proof -
  have "traverse f t TNil = Inr (entry_list t 0)"
    by (rule traverse_from [OF assms(1)]) (use assms(2) in \<open>simp_all add: keyindex_nil\<close>)
  then show ?thesis
    using distinct_entry_list [OF assms(1), of 0] entry_iff [OF assms(1)]
    by (auto simp: set_entry_list)
qed

lemma lj_tab_next_enumerates_witness:
  "\<exists>es. traverse 6 sample TNil = Inr es \<and> distinct (map fst es) \<and>
    (\<forall>k v. (k, v) \<in> set es \<longleftrightarrow> v \<noteq> TNil \<and> norm_key k = k \<and> tab_map sample k = v)"
  by (rule lj_tab_next_enumerates [OF sample_ok]) (simp add: sample_def nslots_def tb_asize_def)

subsection \<open>Length\<close>

abbreviation ival :: "gctab \<Rightarrow> nat \<Rightarrow> tval" where
  "ival t j \<equiv> tab_map t (TNum (num_of_int (int j)))"

lemma ival_array: "tab_ok t \<Longrightarrow> j < tb_asize t \<Longrightarrow> ival t j = tb_array t ! j"
proof -
  assume a: "tab_ok t" "j < tb_asize t"
  have "int32 (int j)" using a tab_okD(8) [OF a(1)] by (simp add: int32_def LJ_MAX_ASIZE_def)
  then have "key_int (TNum (num_of_int (int j))) = Some (int j)"
    by (simp add: key_int_def num_toint_of_int)
  then show ?thesis using a(2) by (simp add: tab_map_def inarray_def)
qed

lemma present_ok:
  assumes "tab_ok t" "j < 2 ^ 31"
  shows "present t j = Inr (ival t j \<noteq> TNil)"
proof -
  have "or_nil (lj_tab_getint t (int j)) = Inr (ival t j)"
    by (rule lj_tab_getint_ok [OF assms(1)]) (use assms(2) in \<open>simp add: int32_def\<close>)
  then show ?thesis
    by (auto simp: present_def or_nil_def rbind_Inr_iff split: option.splits)
qed

definition border :: "gctab \<Rightarrow> nat \<Rightarrow> bool" where
  "border t n \<longleftrightarrow> (n = 0 \<or> ival t n \<noteq> TNil) \<and> ival t (n + 1) = TNil"

lemma array_search_border:
  assumes ok: "tab_ok t" and "i < j" "j \<le> tb_asize t" "1 \<le> i" "tb_array t ! (j - 1) = TNil"
    and "i = 1 \<or> tb_array t ! (i - 1) \<noteq> TNil"
  shows "border t (array_search t i j)"
  using assms(2-)
proof (induction "j - i" arbitrary: i j rule: less_induct)
  case less
  define m where "m = (i + j) div 2"
  show ?case
  proof (cases "j - i > 1")
    case True
    then have m: "i < m" "m < j" by (auto simp: m_def)
    have "array_search t i j =
        (if tb_array t ! (m - 1) = TNil then array_search t i m else array_search t m j)"
      using True by (subst array_search.simps) (simp add: m_def Let_def)
    moreover have "border t (array_search t i m)" if "tb_array t ! (m - 1) = TNil"
      by (rule less.hyps) (use less.prems m that in auto)
    moreover have "border t (array_search t m j)" if "tb_array t ! (m - 1) \<noteq> TNil"
      by (rule less.hyps) (use less.prems m that in auto)
    ultimately show ?thesis by simp
  next
    case False
    then have j: "j = Suc i" "array_search t i j = i - 1"
      using less.prems(1) by (auto simp: array_search.simps [of t i j])
    have "ival t i = TNil" using ival_array [OF ok, of i] less.prems j by simp
    moreover have "i = 1 \<or> ival t (i - 1) \<noteq> TNil"
      using ival_array [OF ok, of "i - 1"] less.prems by auto
    ultimately show ?thesis using less.prems(3) j by (auto simp: border_def)
  qed
qed

lemma bin_search_border:
  assumes ok: "tab_ok t" and "i < j" "j < 2 ^ 31" "ival t j = TNil" "i = 0 \<or> ival t i \<noteq> TNil"
  shows "\<exists>n. bin_search t i j = Inr n \<and> border t n"
  using assms(2-)
proof (induction "j - i" arbitrary: i j rule: less_induct)
  case less
  define m where "m = (i + j) div 2"
  show ?case
  proof (cases "j - i > 1")
    case True
    then have m: "i < m" "m < j" by (auto simp: m_def)
    have "present t m = Inr (ival t m \<noteq> TNil)" by (rule present_ok [OF ok]) (use m less.prems in simp)
    then have "bin_search t i j = (if ival t m \<noteq> TNil then bin_search t m j else bin_search t i m)"
      using True by (subst bin_search.simps) (simp add: m_def Let_def)
    moreover have "\<exists>n. bin_search t m j = Inr n \<and> border t n" if "ival t m \<noteq> TNil"
      by (rule less.hyps) (use less.prems m that in auto)
    moreover have "\<exists>n. bin_search t i m = Inr n \<and> border t n" if "ival t m = TNil"
      by (rule less.hyps) (use less.prems m that in auto)
    ultimately show ?thesis by auto
  next
    case False
    then have "j = Suc i" using less.prems(1) by simp
    then have "bin_search t i j = Inr i" by (subst bin_search.simps) simp
    then show ?thesis using less.prems \<open>j = Suc i\<close> by (simp add: border_def)
  qed
qed

lemma present_bound:
  assumes ok: "tab_ok t" and i: "i \<le> 2 ^ 31" and p: "\<forall>j. 1 \<le> j \<longrightarrow> j < i \<longrightarrow> ival t j \<noteq> TNil"
  shows "i - 1 \<le> nslots t"
proof -
  let ?k = "\<lambda>j. TNum (num_of_int (int j))"
  have "\<exists>n < nslots t. entry_at t n = Some (?k j, ival t j)" if "1 \<le> j" "j < i" for j
  proof -
    have "norm_key (?k j) = ?k j"
      by (rule kvalid_norm, rule int_key_valid) (use that i in \<open>simp add: int32_def\<close>)
    then show ?thesis using entry_iff [OF ok, of "?k j" "ival t j"] p that by blast
  qed
  then obtain g where g: "\<And>j. 1 \<le> j \<Longrightarrow> j < i \<Longrightarrow> g j < nslots t \<and> entry_at t (g j) = Some (?k j, ival t j)"
    by metis
  have "inj_on g {1..<i}"
  proof (rule inj_onI)
    fix a b assume a: "a \<in> {1..<i}" "b \<in> {1..<i}" "g a = g b"
    then have "num_of_int (int a) = num_of_int (int b)" using g [of a] g [of b] by simp
    moreover have "int32 (int a)" "int32 (int b)" using a i by (simp_all add: int32_def)
    ultimately show "a = b" using num_toint_of_int by (metis of_nat_eq_iff option.inject)
  qed
  then have "card {1..<i} \<le> card {..<nslots t}"
    by (rule card_inj_on_le) (use g in auto)
  then show ?thesis by simp
qed

lemma nslots_bound: "tab_ok t \<Longrightarrow> nslots t \<le> 2 ^ 28"
  using tab_okD(6,8) [of t] by (simp add: nslots_def LJ_MAX_ASIZE_def)

lemma linear_search_border:
  assumes ok: "tab_ok t" and "1 \<le> i" "i + f = nslots t + 3"
    and "\<forall>j. 1 \<le> j \<longrightarrow> j < i \<longrightarrow> ival t j \<noteq> TNil"
  shows "\<exists>n. linear_search t f i = Inr n \<and> border t n"
  using assms(2-)
proof (induction f arbitrary: i)
  case 0
  then have "i - 1 \<le> nslots t"
    using nslots_bound [OF ok] by (intro present_bound [OF ok]) auto
  with 0 show ?case by simp
next
  case (Suc f)
  have p: "present t i = Inr (ival t i \<noteq> TNil)"
    by (rule present_ok [OF ok]) (use Suc.prems nslots_bound [OF ok] in simp)
  show ?case
  proof (cases "ival t i = TNil")
    case True
    obtain m where m: "i = Suc m" using Suc.prems(1) by (cases i) auto
    have "m = 0 \<or> ival t m \<noteq> TNil" using Suc.prems(3) m by (cases m) auto
    then show ?thesis using p True by (simp add: m border_def)
  next
    case False
    then show ?thesis using p Suc.IH [of "Suc i"] Suc.prems by (auto simp: less_Suc_eq)
  qed
qed

lemma unbound_loop_border:
  assumes ok: "tab_ok t" and "i < j" "j \<le> 2147483645" "i = 0 \<or> ival t i \<noteq> TNil"
  shows "\<exists>n. unbound_loop t i j = Inr n \<and> border t n"
  using assms(2-)
proof (induction "2147483647 - j" arbitrary: i j rule: less_induct)
  case less
  have p: "present t j = Inr (ival t j \<noteq> TNil)"
    by (rule present_ok [OF ok]) (use less.prems in simp)
  show ?case
  proof (cases "ival t j = TNil")
    case True
    have "unbound_loop t i j = bin_search t i j"
      using p True by (subst unbound_loop.simps) simp
    then show ?thesis using bin_search_border [OF ok less.prems(1) _ True less.prems(3)] less.prems by simp
  next
    case False
    show ?thesis
    proof (cases "2 * j > 2147483647 - 2")
      case True
      have "unbound_loop t i j = linear_search t (nslots t + 2) 1"
        using p False True less.prems by (subst unbound_loop.simps) (simp add: nslots_def)
      then show ?thesis using linear_search_border [OF ok, of 1 "nslots t + 2"] by simp
    next
      case j2: False
      have "unbound_loop t i j = unbound_loop t j (2 * j)"
        using p False j2 less.prems by (subst unbound_loop.simps) simp
      moreover have "\<exists>n. unbound_loop t j (2 * j) = Inr n \<and> border t n"
        by (rule less.hyps) (use less.prems False j2 in auto)
      ultimately show ?thesis by simp
    qed
  qed
qed

text \<open>C11: the length of a table is a border: \<^verbatim>\<open>lj_tab_len\<close> terminates and returns an \<open>n\<close> such
  that \<open>t[n]\<close> is not nil, or \<open>n\<close> is 0, and \<open>t[n + 1]\<close> is nil, by binary search in the array
  part, or by doubling, binary and at worst linear search in the hash part.\<close>

theorem lj_tab_len_border:
  assumes "tab_ok t"
  shows "\<exists>n. lj_tab_len t = Inr n \<and>
    (n = 0 \<or> tab_map t (TNum (num_of_int (int n))) \<noteq> TNil) \<and>
    tab_map t (TNum (num_of_int (int (n + 1)))) = TNil"
proof -
  let ?a = "tb_asize t"
  have "\<exists>n. lj_tab_len t = Inr n \<and> border t n"
  proof (cases "?a > 1 \<and> tb_array t ! (?a - 1) = TNil")
    case True
    then show ?thesis using array_search_border [OF assms, of 1 ?a] by (simp add: lj_tab_len_def)
  next
    case False
    define j where "j = (if ?a > 0 then ?a - 1 else ?a)"
    have pj: "j = 0 \<or> ival t j \<noteq> TNil"
      using False ival_array [OF assms, of j] by (auto simp: j_def)
    show ?thesis
    proof (cases "tb_hmask t = 0")
      case True
      have a: "?a \<le> j + 1" "j < 2 ^ 28"
        using tab_okD(8) [OF assms] by (auto simp: j_def LJ_MAX_ASIZE_def)
      have i32: "int32 (int (j + 1))" using a(2) by (simp add: int32_def)
      have "key_int (TNum (num_of_int (int (j + 1)))) = Some (int (j + 1))"
        by (simp only: key_int_def tval.case num_toint_of_int [OF i32])
      then have "ival t (j + 1) = hmap [nilnode] (norm_key (TNum (num_of_int (int (j + 1)))))"
        using a(1) tab_okD(9) [OF assms True] by (auto simp: tab_map_def inarray_def)
      also have "\<dots> = TNil" by (simp add: hmap_def nilnode_def)
      finally show ?thesis using True False pj by (auto simp: lj_tab_len_def j_def border_def Let_def)
    next
      case h: False
      have "j + 1 \<le> 2147483645"
        using tab_okD(8) [OF assms] unfolding j_def LJ_MAX_ASIZE_def by (simp, linarith)
      then show ?thesis
        using unbound_loop_border [OF assms, of j "j + 1"] pj False h
        by (auto simp: lj_tab_len_def unbound_search_def j_def Let_def)
    qed
  qed
  then show ?thesis by (auto simp: border_def)
qed

lemma lj_tab_len_border_witness:
  "\<exists>n. lj_tab_len sample = Inr n \<and>
    (n = 0 \<or> tab_map sample (TNum (num_of_int (int n))) \<noteq> TNil) \<and>
    tab_map sample (TNum (num_of_int (int (n + 1)))) = TNil"
  by (rule lj_tab_len_border [OF sample_ok])

end
