(* ===== verification/LJ_Proto.thy ===== *)
theory LJ_Proto
  imports LJ_TabIter
begin

text \<open>
  Function prototypes (\<^verbatim>\<open>GCproto\<close> of \<^verbatim>\<open>lj_obj.h\<close>) with their constants, bytecode instructions
  (\<^verbatim>\<open>lj_bc.h\<close>) and the constants of the dump format (\<^verbatim>\<open>lj_bcdump.h\<close>).  The constant array is in
  the order of memory; a child prototype is a constant of its parent.  Debug information is
  the raw block with the offsets of its two inner parts.
\<close>

datatype dbginfo = Dbg (db_bytes: "byte list") (db_uvofs: nat) (db_varofs: nat)

datatype proto = Proto
    (pt_flags: byte) (pt_numparams: byte) (pt_framesize: byte)
    (pt_bc: "u32 list") (pt_uv: "u16 list") (pt_kgc: "kgc list") (pt_kn: "u64 list")
    (pt_trace: u16) (pt_chunkname: "byte list") (pt_firstline: u32) (pt_numline: u32)
    (pt_dbg: "dbginfo option")
  and kgc =
    KStr "byte list" | KChild proto | KTab gctab | KI64 u64 | KU64 u64 | KComplex u64 u64

definition PROTO_CHILD :: byte where "PROTO_CHILD = 1"
definition PROTO_VARARG :: byte where "PROTO_VARARG = 2"
definition PROTO_FFI :: byte where "PROTO_FFI = 4"
definition PROTO_ILOOP :: byte where "PROTO_ILOOP = 16"

subsection \<open>Instructions\<close>

definition bc_op :: "u32 \<Rightarrow> u32" where "bc_op i = i AND 0xff"
definition bc_a :: "u32 \<Rightarrow> u32" where "bc_a i = drop_bit 8 i AND 0xff"
definition bc_b :: "u32 \<Rightarrow> u32" where "bc_b i = drop_bit 24 i"
definition bc_c :: "u32 \<Rightarrow> u32" where "bc_c i = drop_bit 16 i AND 0xff"
definition bc_d :: "u32 \<Rightarrow> u32" where "bc_d i = drop_bit 16 i"

definition BCINS_AD :: "u32 \<Rightarrow> u32 \<Rightarrow> u32 \<Rightarrow> u32" where
  "BCINS_AD o' a d = o' OR push_bit 8 a OR push_bit 16 d"

definition BCINS_ABC :: "u32 \<Rightarrow> u32 \<Rightarrow> u32 \<Rightarrow> u32 \<Rightarrow> u32" where
  "BCINS_ABC o' a b c = o' OR push_bit 8 a OR push_bit 24 b OR push_bit 16 c"

definition BC_FORI :: nat where "BC_FORI = 73"
definition BC_JFORI :: nat where "BC_JFORI = 74"
definition BC_FORL :: nat where "BC_FORL = 75"
definition BC_IFORL :: nat where "BC_IFORL = 76"
definition BC_JFORL :: nat where "BC_JFORL = 77"
definition BC_IITERL :: nat where "BC_IITERL = 79"
definition BC_JITERL :: nat where "BC_JITERL = 80"
definition BC_ILOOP :: nat where "BC_ILOOP = 82"
definition BC_JLOOP :: nat where "BC_JLOOP = 83"
definition BC_FUNCF :: nat where "BC_FUNCF = 85"
definition BC_FUNCV :: nat where "BC_FUNCV = 88"

subsection \<open>The dump format\<close>

definition BCDUMP_HEAD1 :: byte where "BCDUMP_HEAD1 = 0x1b"
definition BCDUMP_HEAD2 :: byte where "BCDUMP_HEAD2 = 0x4c"
definition BCDUMP_HEAD3 :: byte where "BCDUMP_HEAD3 = 0x4a"
definition BCDUMP_VERSION :: byte where "BCDUMP_VERSION = 1"
definition BCDUMP_F_BE :: u32 where "BCDUMP_F_BE = 1"
definition BCDUMP_F_STRIP :: u32 where "BCDUMP_F_STRIP = 2"
definition BCDUMP_F_FFI :: u32 where "BCDUMP_F_FFI = 4"
definition BCDUMP_F_KNOWN :: u32 where "BCDUMP_F_KNOWN = BCDUMP_F_FFI * 2 - 1"

definition BCDUMP_KGC_CHILD :: u32 where "BCDUMP_KGC_CHILD = 0"
definition BCDUMP_KGC_TAB :: u32 where "BCDUMP_KGC_TAB = 1"
definition BCDUMP_KGC_I64 :: u32 where "BCDUMP_KGC_I64 = 2"
definition BCDUMP_KGC_U64 :: u32 where "BCDUMP_KGC_U64 = 3"
definition BCDUMP_KGC_COMPLEX :: u32 where "BCDUMP_KGC_COMPLEX = 4"
definition BCDUMP_KGC_STR :: u32 where "BCDUMP_KGC_STR = 5"

definition BCDUMP_KTAB_NIL :: u32 where "BCDUMP_KTAB_NIL = 0"
definition BCDUMP_KTAB_FALSE :: u32 where "BCDUMP_KTAB_FALSE = 1"
definition BCDUMP_KTAB_TRUE :: u32 where "BCDUMP_KTAB_TRUE = 2"
definition BCDUMP_KTAB_INT :: u32 where "BCDUMP_KTAB_INT = 3"
definition BCDUMP_KTAB_NUM :: u32 where "BCDUMP_KTAB_NUM = 4"
definition BCDUMP_KTAB_STR :: u32 where "BCDUMP_KTAB_STR = 5"

lemmas bcdump_kgc_defs = BCDUMP_KGC_CHILD_def BCDUMP_KGC_TAB_def BCDUMP_KGC_I64_def
  BCDUMP_KGC_U64_def BCDUMP_KGC_COMPLEX_def BCDUMP_KGC_STR_def
lemmas bcdump_ktab_defs = BCDUMP_KTAB_NIL_def BCDUMP_KTAB_FALSE_def BCDUMP_KTAB_TRUE_def
  BCDUMP_KTAB_INT_def BCDUMP_KTAB_NUM_def BCDUMP_KTAB_STR_def

definition lo32 :: "u64 \<Rightarrow> u32" where "lo32 w = ucast w"
definition hi32 :: "u64 \<Rightarrow> u32" where "hi32 w = ucast (drop_bit 32 w)"
definition join32 :: "u32 \<Rightarrow> u32 \<Rightarrow> u64" where "join32 lo hi = ucast lo OR push_bit 32 (ucast hi)"

text \<open>The low 32 bits of an \<open>int32_t\<close>.\<close>

definition u32_of_int :: "int \<Rightarrow> u32" where "u32_of_int k = of_int k"

end
