(* ===== verification/LJ_BcWrite.thy ===== *)
theory LJ_BcWrite
  imports LJ_Proto
begin

text \<open>
  The bytecode writer (\<^verbatim>\<open>lj_bcwrite.c\<close>).  Stores go to the buffer without a check; a store
  past its end is the error \<open>OOB\<close>.  The writer callback of the client is the parameter \<open>wfunc\<close>,
  a function from its own state and the block to the new state and a status.  \<open>startins\<close> gives
  the original instruction at the start of a compiled trace.
\<close>

subsection \<open>Output buffer handling\<close>

definition bcwrite_resize :: "sbuf \<Rightarrow> nat \<Rightarrow> sbuf res" where
  "bcwrite_resize sb len =
     (case sz_double (sb_n sb + len) (sb_sz sb * 2) of
        None \<Rightarrow> Inl DIVERGE
      | Some sz \<Rightarrow> Inr (lj_str_resizebuf sb sz))"

definition bcwrite_need :: "sbuf \<Rightarrow> nat \<Rightarrow> sbuf res" where
  "bcwrite_need sb len = (if sb_n sb + len > sb_sz sb then bcwrite_resize sb len else Inr sb)"

definition bcwrite_block :: "sbuf \<Rightarrow> byte list \<Rightarrow> sbuf res" where
  "bcwrite_block sb p = sb_copy (sb\<lparr>sb_n := sb_n sb + length p\<rparr>) (sb_n sb) p"

definition bcwrite_byte :: "sbuf \<Rightarrow> byte \<Rightarrow> sbuf res" where
  "bcwrite_byte sb b =
     rbind (sb_store sb (sb_n sb) b) (\<lambda>sb. Inr (sb\<lparr>sb_n := sb_n sb + 1\<rparr>))"

lemma drop_bit_7_less: "(0x80 :: u32) \<le> v \<Longrightarrow> unat (drop_bit 7 v) < unat v"
  by (simp add: unat_drop_bit_eq word_le_nat_alt drop_bit_eq_div [where ?'a = nat])

function bcwrite_uleb128 :: "sbuf \<Rightarrow> u32 \<Rightarrow> sbuf res" where
  "bcwrite_uleb128 sb v =
     (if v \<ge> 0x80
      then rbind (bcwrite_byte sb (ucast ((v AND 0x7f) OR 0x80)))
             (\<lambda>sb. bcwrite_uleb128 sb (drop_bit 7 v))
      else bcwrite_byte sb (ucast v))"
  by pat_completeness auto
termination
  by (relation "measure (\<lambda>(sb, v). unat v)") (auto simp: drop_bit_7_less)

declare bcwrite_uleb128.simps [simp del]

subsection \<open>Constants\<close>

definition bcwrite_ktabk :: "sbuf \<Rightarrow> tval \<Rightarrow> bool \<Rightarrow> sbuf res" where
  "bcwrite_ktabk sb o' narrow =
     rbind (bcwrite_need sb (1 + 10)) (\<lambda>sb.
       case o' of
         TStr str \<Rightarrow>
           rbind (bcwrite_need sb (5 + length str)) (\<lambda>sb.
           rbind (bcwrite_uleb128 sb (BCDUMP_KTAB_STR + of_nat (length str))) (\<lambda>sb.
             bcwrite_block sb str))
       | TNum w \<Rightarrow>
           (case (if narrow then num_toint w else None) of
              Some k \<Rightarrow>
                rbind (bcwrite_byte sb (ucast BCDUMP_KTAB_INT)) (\<lambda>sb.
                  bcwrite_uleb128 sb (u32_of_int k))
            | None \<Rightarrow>
                rbind (bcwrite_byte sb (ucast BCDUMP_KTAB_NUM)) (\<lambda>sb.
                rbind (bcwrite_uleb128 sb (lo32 w)) (\<lambda>sb.
                  bcwrite_uleb128 sb (hi32 w))))
       | TNil \<Rightarrow> bcwrite_byte sb (ucast BCDUMP_KTAB_NIL)
       | TFalse \<Rightarrow> bcwrite_byte sb (ucast (BCDUMP_KTAB_NIL + 1))
       | TTrue \<Rightarrow> bcwrite_byte sb (ucast (BCDUMP_KTAB_NIL + 2))
       | _ \<Rightarrow> Inl OOB)"

text \<open>The number of array slots up to the last one that is not nil.\<close>

fun last_used :: "tval list \<Rightarrow> nat \<Rightarrow> nat" where
  "last_used a 0 = 0"
| "last_used a (Suc i) = (if a ! i \<noteq> TNil then Suc i else last_used a i)"

fun bcwrite_karray :: "sbuf \<Rightarrow> tval list \<Rightarrow> sbuf res" where
  "bcwrite_karray sb [] = Inr sb"
| "bcwrite_karray sb (o' # os) =
     rbind (bcwrite_ktabk sb o' True) (\<lambda>sb. bcwrite_karray sb os)"

text \<open>The nodes come from the last to the first; \<open>i\<close> entries are still to be written.\<close>

fun bcwrite_khash :: "sbuf \<Rightarrow> node list \<Rightarrow> nat \<Rightarrow> sbuf res" where
  "bcwrite_khash sb [] i = Inl OOB"
| "bcwrite_khash sb (n # ns) i =
     (if nd_val n \<noteq> TNil then
        rbind (bcwrite_ktabk sb (nd_key n) False) (\<lambda>sb.
        rbind (bcwrite_ktabk sb (nd_val n) True) (\<lambda>sb.
          if i - 1 = 0 then Inr sb else bcwrite_khash sb ns (i - 1)))
      else bcwrite_khash sb ns i)"

definition bcwrite_ktab :: "sbuf \<Rightarrow> gctab \<Rightarrow> sbuf res" where
  "bcwrite_ktab sb t =
     (let narray = (if tb_asize t > 0 then last_used (tb_array t) (tb_asize t) else 0);
          nhash = (if tb_hmask t > 0
                   then length (filter (\<lambda>n. nd_val n \<noteq> TNil) (tb_node t)) else 0)
      in rbind (bcwrite_uleb128 sb (of_nat narray)) (\<lambda>sb.
         rbind (bcwrite_uleb128 sb (of_nat nhash)) (\<lambda>sb.
         rbind (if narray \<noteq> 0 then bcwrite_karray sb (take narray (tb_array t)) else Inr sb) (\<lambda>sb.
           if nhash \<noteq> 0 then bcwrite_khash sb (rev (tb_node t)) nhash else Inr sb))))"

definition kgc_need :: "kgc \<Rightarrow> nat" where
  "kgc_need k = (case k of
     KStr s \<Rightarrow> 5 + length s | KChild p \<Rightarrow> 1 | KTab t \<Rightarrow> 1 + 2 * 5
   | KI64 w \<Rightarrow> 1 + 4 * 5 | KU64 w \<Rightarrow> 1 + 4 * 5 | KComplex a b \<Rightarrow> 1 + 4 * 5)"

definition kgc_type :: "kgc \<Rightarrow> u32" where
  "kgc_type k = (case k of
     KStr s \<Rightarrow> BCDUMP_KGC_STR + of_nat (length s) | KChild p \<Rightarrow> BCDUMP_KGC_CHILD
   | KTab t \<Rightarrow> BCDUMP_KGC_TAB | KI64 w \<Rightarrow> BCDUMP_KGC_I64 | KU64 w \<Rightarrow> BCDUMP_KGC_U64
   | KComplex a b \<Rightarrow> BCDUMP_KGC_COMPLEX)"

definition bcwrite_w64 :: "sbuf \<Rightarrow> u64 \<Rightarrow> sbuf res" where
  "bcwrite_w64 sb w =
     rbind (bcwrite_uleb128 sb (lo32 w)) (\<lambda>sb. bcwrite_uleb128 sb (hi32 w))"

fun bcwrite_kgc :: "sbuf \<Rightarrow> kgc list \<Rightarrow> sbuf res" where
  "bcwrite_kgc sb [] = Inr sb"
| "bcwrite_kgc sb (k # ks) =
     rbind (bcwrite_need sb (kgc_need k)) (\<lambda>sb.
     rbind (bcwrite_uleb128 sb (kgc_type k)) (\<lambda>sb.
     rbind (case k of
         KStr s \<Rightarrow> bcwrite_block sb s
       | KTab t \<Rightarrow> bcwrite_ktab sb t
       | KChild p \<Rightarrow> Inr sb
       | KI64 w \<Rightarrow> bcwrite_w64 sb w
       | KU64 w \<Rightarrow> bcwrite_w64 sb w
       | KComplex a b \<Rightarrow> rbind (bcwrite_w64 sb a) (\<lambda>sb. bcwrite_w64 sb b)) (\<lambda>sb.
     bcwrite_kgc sb ks)))"

text \<open>\<open>p = &ctx->sb.buf[ctx->sb.n-1]; *p = (*p & 7) | x\<close>\<close>

definition sb_patch :: "sbuf \<Rightarrow> byte \<Rightarrow> sbuf res" where
  "sb_patch sb x =
     (let i = sb_n sb - 1 in
      if sb_n sb = 0 \<or> i \<ge> sb_sz sb then Inl OOB
      else sb_store sb i ((sb_buf sb ! i AND 7) OR x))"

definition bcwrite_knum1 :: "sbuf \<Rightarrow> u64 \<Rightarrow> sbuf res" where
  "bcwrite_knum1 sb w =
     (case num_toint w of
        Some k \<Rightarrow>
          (let u = u32_of_int k in
           rbind (bcwrite_uleb128 sb (2 * u OR (u AND 0x80000000))) (\<lambda>sb.
             if k < 0 then sb_patch sb (ucast (signed_drop_bit 27 u AND 0x18)) else Inr sb))
      | None \<Rightarrow>
          (let lo = lo32 w in
           rbind (bcwrite_uleb128 sb (1 + (2 * lo OR (lo AND 0x80000000)))) (\<lambda>sb.
           rbind (if lo \<ge> 0x80000000 then sb_patch sb (ucast (drop_bit 27 lo AND 0x18))
                  else Inr sb) (\<lambda>sb.
             bcwrite_uleb128 sb (hi32 w)))))"

fun bcwrite_knums :: "sbuf \<Rightarrow> u64 list \<Rightarrow> sbuf res" where
  "bcwrite_knums sb [] = Inr sb"
| "bcwrite_knums sb (w # ws) = rbind (bcwrite_knum1 sb w) (\<lambda>sb. bcwrite_knums sb ws)"

definition bcwrite_knum :: "sbuf \<Rightarrow> u64 list \<Rightarrow> sbuf res" where
  "bcwrite_knum sb kn = rbind (bcwrite_need sb (10 * length kn)) (\<lambda>sb. bcwrite_knums sb kn)"

subsection \<open>Bytecode\<close>

definition ins_bytes :: "u32 \<Rightarrow> byte list" where
  "ins_bytes i = [byte_of 0 i, byte_of 1 i, byte_of 2 i, byte_of 3 i]"

definition uv_bytes :: "u16 \<Rightarrow> byte list" where
  "uv_bytes u = [ucast u, ucast (drop_bit 8 u)]"

text \<open>
  The loop that undoes the changes the JIT compiler makes to loop instructions, on the copy
  at position \<open>p\<close> of the buffer.  The byte arithmetic wraps (\<open>JFORI\<close> is below \<open>IFORL\<close>).
\<close>

definition unpatch_ins :: "(u16 \<Rightarrow> u32) \<Rightarrow> byte list \<Rightarrow> nat \<Rightarrow> byte list" where
  "unpatch_ins startins buf p =
     (let op = unat (buf ! p) in
      if op = BC_IFORL \<or> op = BC_IITERL \<or> op = BC_ILOOP \<or> op = BC_JFORI
      then buf[p := buf ! p - of_nat BC_IFORL + of_nat BC_FORL]
      else if op = BC_JFORL \<or> op = BC_JITERL \<or> op = BC_JLOOP then
        (let rd = ucast (buf ! (p + 2)) + push_bit 8 (ucast (buf ! (p + 3)));
             ins = startins rd
         in buf[p := buf ! p - of_nat BC_JFORL + of_nat BC_FORL,
                p + 2 := ucast (bc_c ins), p + 3 := ucast (bc_b ins)])
      else buf)"

fun unpatch_loop :: "(u16 \<Rightarrow> u32) \<Rightarrow> byte list \<Rightarrow> nat \<Rightarrow> nat \<Rightarrow> byte list" where
  "unpatch_loop startins buf p 0 = buf"
| "unpatch_loop startins buf p (Suc n) =
     unpatch_loop startins (unpatch_ins startins buf p) (p + 4) n"

definition bcwrite_bytecode :: "(u16 \<Rightarrow> u32) \<Rightarrow> sbuf \<Rightarrow> proto \<Rightarrow> sbuf res" where
  "bcwrite_bytecode startins sb pt =
     (let p = sb_n sb; nbc = length (pt_bc pt) - 1 in
      rbind (bcwrite_block sb (concat (map ins_bytes (tl (pt_bc pt))))) (\<lambda>sb.
        Inr (if pt_flags pt AND PROTO_ILOOP \<noteq> 0 \<or> pt_trace pt \<noteq> 0
             then sb\<lparr>sb_buf := unpatch_loop startins (sb_buf sb) p nbc\<rparr> else sb)))"

subsection \<open>Prototypes\<close>

record 'w bcwctx =
  cx_sb :: sbuf
  cx_status :: int
  cx_wdata :: 'w

definition pt_sizedbg :: "proto \<Rightarrow> nat" where
  "pt_sizedbg pt = (case pt_dbg pt of None \<Rightarrow> 0 | Some d \<Rightarrow> length (db_bytes d))"

definition bcwrite_proto_head :: "bool \<Rightarrow> sbuf \<Rightarrow> proto \<Rightarrow> nat \<Rightarrow> sbuf res" where
  "bcwrite_proto_head strip sb pt sizedbg =
     rbind (bcwrite_byte sb (pt_flags pt AND (PROTO_CHILD OR PROTO_VARARG OR PROTO_FFI))) (\<lambda>sb.
     rbind (bcwrite_byte sb (pt_numparams pt)) (\<lambda>sb.
     rbind (bcwrite_byte sb (pt_framesize pt)) (\<lambda>sb.
     rbind (bcwrite_byte sb (of_nat (length (pt_uv pt)))) (\<lambda>sb.
     rbind (bcwrite_uleb128 sb (of_nat (length (pt_kgc pt)))) (\<lambda>sb.
     rbind (bcwrite_uleb128 sb (of_nat (length (pt_kn pt)))) (\<lambda>sb.
     rbind (bcwrite_uleb128 sb (of_nat (length (pt_bc pt) - 1))) (\<lambda>sb.
       if strip then Inr sb else
       rbind (bcwrite_uleb128 sb (of_nat sizedbg)) (\<lambda>sb.
         if sizedbg = 0 then Inr sb else
         rbind (bcwrite_uleb128 sb (pt_firstline pt)) (\<lambda>sb.
           bcwrite_uleb128 sb (pt_numline pt))))))))))"

definition bcwrite_proto_body :: "(u16 \<Rightarrow> u32) \<Rightarrow> bool \<Rightarrow> sbuf \<Rightarrow> proto \<Rightarrow> sbuf res" where
  "bcwrite_proto_body startins strip sb pt =
     (let sizedbg = (if strip then 0 else pt_sizedbg pt) in
      rbind (bcwrite_need ((lj_str_resetbuf sb)\<lparr>sb_n := 5\<rparr>)
               (4 + 6 * 5 + (length (pt_bc pt) - 1) * 4 + length (pt_uv pt) * 2)) (\<lambda>sb.
      rbind (bcwrite_proto_head strip sb pt sizedbg) (\<lambda>sb.
      rbind (bcwrite_bytecode startins sb pt) (\<lambda>sb.
      rbind (bcwrite_block sb (concat (map uv_bytes (pt_uv pt)))) (\<lambda>sb.
      rbind (bcwrite_kgc sb (pt_kgc pt)) (\<lambda>sb.
      rbind (bcwrite_knum sb (pt_kn pt)) (\<lambda>sb.
        if sizedbg = 0 then Inr sb else
        rbind (bcwrite_need sb sizedbg) (\<lambda>sb.
          bcwrite_block sb (case pt_dbg pt of None \<Rightarrow> [] | Some d \<Rightarrow> db_bytes d)))))))))"

definition bcwrite_pass ::
    "('w \<Rightarrow> byte list \<Rightarrow> 'w \<times> int) \<Rightarrow> 'w bcwctx \<Rightarrow> byte list \<Rightarrow> 'w bcwctx" where
  "bcwrite_pass wfunc ctx block =
     (case wfunc (cx_wdata ctx) block of (w, st) \<Rightarrow> ctx\<lparr>cx_wdata := w, cx_status := st\<rparr>)"

definition bcwrite_final ::
    "('w \<Rightarrow> byte list \<Rightarrow> 'w \<times> int) \<Rightarrow> 'w bcwctx \<Rightarrow> 'w bcwctx res" where
  "bcwrite_final wfunc ctx =
     (if cx_status ctx = 0 then
        (let sb = cx_sb ctx; n = sb_n sb - 5; nn = (lj_fls n + 8) * 9 div 2 ^ 6 in
         rbind (bcwrite_uleb128 (sb\<lparr>sb_n := 5 - nn\<rparr>) (of_nat n)) (\<lambda>sb.
           Inr (bcwrite_pass wfunc (ctx\<lparr>cx_sb := sb\<rparr>) (take (nn + n) (drop (5 - nn) (sb_buf sb))))))
      else Inr ctx)"

text \<open>The children come first, from the last constant to the first.\<close>

fun bcwrite_proto ::
    "(u16 \<Rightarrow> u32) \<Rightarrow> ('w \<Rightarrow> byte list \<Rightarrow> 'w \<times> int) \<Rightarrow> bool \<Rightarrow> 'w bcwctx \<Rightarrow> proto \<Rightarrow> 'w bcwctx res"
  and bcwrite_children ::
    "(u16 \<Rightarrow> u32) \<Rightarrow> ('w \<Rightarrow> byte list \<Rightarrow> 'w \<times> int) \<Rightarrow> bool \<Rightarrow> 'w bcwctx \<Rightarrow> kgc list \<Rightarrow> 'w bcwctx res"
where
  "bcwrite_proto startins wfunc strip ctx (Proto fl np fs bc uv kg kn tr cn fl1 nl db) =
     rbind (if fl AND PROTO_CHILD \<noteq> 0 then bcwrite_children startins wfunc strip ctx kg
            else Inr ctx) (\<lambda>ctx.
     rbind (bcwrite_proto_body startins strip (cx_sb ctx)
              (Proto fl np fs bc uv kg kn tr cn fl1 nl db)) (\<lambda>sb.
       bcwrite_final wfunc (ctx\<lparr>cx_sb := sb\<rparr>)))"
| "bcwrite_children startins wfunc strip ctx [] = Inr ctx"
| "bcwrite_children startins wfunc strip ctx (k # ks) =
     rbind (bcwrite_children startins wfunc strip ctx ks) (\<lambda>ctx.
       case k of KChild p \<Rightarrow> bcwrite_proto startins wfunc strip ctx p | _ \<Rightarrow> Inr ctx)"

subsection \<open>Header, footer and the whole dump\<close>

definition bcwrite_header ::
    "('w \<Rightarrow> byte list \<Rightarrow> 'w \<times> int) \<Rightarrow> bool \<Rightarrow> 'w bcwctx \<Rightarrow> proto \<Rightarrow> 'w bcwctx res" where
  "bcwrite_header wfunc strip ctx pt =
     (let name = pt_chunkname pt; len = length name in
      rbind (bcwrite_need (lj_str_resetbuf (cx_sb ctx)) (5 + 5 + len)) (\<lambda>sb.
      rbind (bcwrite_byte sb BCDUMP_HEAD1) (\<lambda>sb.
      rbind (bcwrite_byte sb BCDUMP_HEAD2) (\<lambda>sb.
      rbind (bcwrite_byte sb BCDUMP_HEAD3) (\<lambda>sb.
      rbind (bcwrite_byte sb BCDUMP_VERSION) (\<lambda>sb.
      rbind (bcwrite_byte sb (ucast ((if strip then BCDUMP_F_STRIP else 0)
               + (if pt_flags pt AND PROTO_FFI \<noteq> 0 then BCDUMP_F_FFI else 0)))) (\<lambda>sb.
      rbind (if strip then Inr sb else
             rbind (bcwrite_uleb128 sb (of_nat len)) (\<lambda>sb. bcwrite_block sb name)) (\<lambda>sb.
        Inr (bcwrite_pass wfunc (ctx\<lparr>cx_sb := sb\<rparr>) (take (sb_n sb) (sb_buf sb)))))))))))"

definition bcwrite_footer ::
    "('w \<Rightarrow> byte list \<Rightarrow> 'w \<times> int) \<Rightarrow> 'w bcwctx \<Rightarrow> 'w bcwctx" where
  "bcwrite_footer wfunc ctx = (if cx_status ctx = 0 then bcwrite_pass wfunc ctx [0] else ctx)"

definition cpwriter ::
    "(u16 \<Rightarrow> u32) \<Rightarrow> ('w \<Rightarrow> byte list \<Rightarrow> 'w \<times> int) \<Rightarrow> bool \<Rightarrow> 'w bcwctx \<Rightarrow> proto \<Rightarrow> 'w bcwctx res" where
  "cpwriter startins wfunc strip ctx pt =
     rbind (bcwrite_header wfunc strip (ctx\<lparr>cx_sb := lj_str_resizebuf (cx_sb ctx) 1024\<rparr>) pt) (\<lambda>ctx.
     rbind (bcwrite_proto startins wfunc strip ctx pt) (\<lambda>ctx.
       Inr (bcwrite_footer wfunc ctx)))"

text \<open>The protected call returns the error or the context, with the status of the writer.\<close>

definition lj_bcwrite ::
    "(u16 \<Rightarrow> u32) \<Rightarrow> ('w \<Rightarrow> byte list \<Rightarrow> 'w \<times> int) \<Rightarrow> proto \<Rightarrow> 'w \<Rightarrow> bool \<Rightarrow> ('w \<times> int) res" where
  "lj_bcwrite startins wfunc pt data strip =
     rbind (cpwriter startins wfunc strip
              \<lparr>cx_sb = lj_str_initbuf \<lparr>sb_buf = [], sb_n = 0\<rparr>, cx_status = 0, cx_wdata = data\<rparr> pt)
       (\<lambda>ctx. Inr (cx_wdata ctx, cx_status ctx))"

end
