(* ===== verification/LJ_BcEnc.thy ===== *)
theory LJ_BcEnc
  imports LJ_BcWrite
begin

text \<open>
  The dump format as pure functions from values to bytes, and the refinement: every
  operation of the writer appends the encoding to its buffer and never stores past the end
  of it, given the room it asked for.
\<close>

subsection \<open>ULEB128\<close>

fun enc_nat :: "nat \<Rightarrow> byte list" where
  "enc_nat n = (if n < 128 then [of_nat n] else of_nat (n mod 128 + 128) # enc_nat (n div 128))"

declare enc_nat.simps [simp del]

definition enc_u :: "u32 \<Rightarrow> byte list" where "enc_u v = enc_nat (unat v)"

lemma enc_nat_length: "n < 2 ^ (7 * k) \<Longrightarrow> 0 < k \<Longrightarrow> length (enc_nat n) \<le> k"
proof (induction k arbitrary: n)
  case (Suc k)
  show ?case
  proof (cases "n < 128")
    case False
    then have "0 < k" using Suc.prems by (cases k) auto
    moreover have "n div 128 < 2 ^ (7 * k)"
      using Suc.prems(1) by (simp add: less_mult_imp_div_less power_add mult.commute)
    ultimately show ?thesis using Suc.IH False by (simp add: enc_nat.simps [of n])
  qed (simp add: enc_nat.simps [of n])
qed simp

lemma enc_u_length: "length (enc_u v) \<le> 5"
  unfolding enc_u_def
proof (rule enc_nat_length)
  have "unat v < 2 ^ 32" using unsigned_less [of v] by simp
  then show "unat v < 2 ^ (7 * 5)" by simp
qed simp

lemma enc_nat_not_Nil [simp]: "enc_nat n \<noteq> []"
  by (simp add: enc_nat.simps [of n])

lemma nat_or_push:
  assumes "a < 2 ^ k"
  shows "(a OR push_bit k b :: nat) = a + 2 ^ k * b"
proof -
  have t: "take_bit k a = a" using assms by (simp add: take_bit_nat_eq_self)
  have "\<not> bit a n \<or> \<not> bit (push_bit k b) n" for n
    by (subst t [symmetric]) (simp add: bit_take_bit_iff bit_push_bit_iff)
  then have "a + push_bit k b = a OR push_bit k b" by (rule disjunctive_add)
  then show ?thesis by (simp add: push_bit_eq_mult mult.commute)
qed

lemma unat_or_push:
  fixes v x :: "'a::len word"
  assumes "unat v < 2 ^ k" "unat v + 2 ^ k * unat x < 2 ^ LENGTH('a)"
  shows "unat (v OR push_bit k x) = unat v + 2 ^ k * unat x"
proof -
  have "unat (push_bit k x) = take_bit LENGTH('a) (push_bit k (unat x))"
    by (rule unsigned_push_bit_eq)
  then have "unat (push_bit k x) = push_bit k (unat x)"
    using assms(2) by (simp add: push_bit_eq_mult [where ?'a = nat] take_bit_nat_eq_self mult.commute)
  then show ?thesis using nat_or_push [OF assms(1), of "unat x"] by (simp add: unsigned_or_eq)
qed

lemma unat_and_mask: "unat (v AND of_nat (2 ^ k - 1) :: 'a::len word) = unat v mod 2 ^ k"
proof -
  have "of_nat (2 ^ k - 1) = (Bit_Operations.mask k :: 'a word)"
    by (simp add: mask_eq_exp_minus_1 of_nat_diff)
  then have "v AND of_nat (2 ^ k - 1) = take_bit k v" by (simp only: take_bit_eq_mask)
  then show ?thesis by (simp only: unsigned_take_bit_eq take_bit_eq_mod [where ?'a = nat])
qed

lemmas unat_and_7f = unat_and_mask [of _ 7, simplified]

lemma uleb_byte: "ucast ((v AND 0x7f) OR 0x80 :: u32) = (of_nat (unat v mod 128 + 128) :: byte)"
proof -
  have "unat ((v AND 0x7f) OR push_bit 7 1) = unat v mod 128 + 2 ^ 7 * 1"
    by (subst unat_or_push) (simp_all add: unat_and_7f)
  then have "unat ((v AND 0x7f) OR 0x80 :: u32) = unat v mod 128 + 128" by (simp add: push_bit_eq_mult)
  then show ?thesis by (metis of_nat_unat)
qed

lemma uleb_last: "v < 0x80 \<Longrightarrow> ucast (v :: u32) = (of_nat (unat v) :: byte)"
  by simp

lemma bcwrite_byte_block: "sb_n sb < sb_sz sb \<Longrightarrow> bcwrite_byte sb b = bcwrite_block sb [b]"
  by (simp add: bcwrite_byte_def bcwrite_block_def sb_store_def sb_sz_def)

lemma block_block:
  assumes "sb_n sb + length xs + length ys \<le> sb_sz sb"
  shows "rbind (bcwrite_block sb xs) (\<lambda>sb. bcwrite_block sb ys) = bcwrite_block sb (xs @ ys)"
  using assms by (simp add: bcwrite_block_def sb_copy_append sb_sz_def ac_simps)

lemma bcwrite_uleb128_block:
  assumes "sb_n sb + length (enc_u v) \<le> sb_sz sb"
  shows "bcwrite_uleb128 sb v = bcwrite_block sb (enc_u v)"
  using assms
proof (induction sb v rule: bcwrite_uleb128.induct)
  case (1 sb v)
  show ?case
  proof (cases "v \<ge> 0x80")
    case True
    let ?b = "ucast ((v AND 0x7f) OR 0x80) :: byte"
    have n: "unat (drop_bit 7 v) = unat v div 128"
      by (simp add: unat_drop_bit_eq drop_bit_eq_div [where ?'a = nat])
    have e: "enc_u v = ?b # enc_u (drop_bit 7 v)"
      using True unfolding enc_u_def uleb_byte n by (simp add: enc_nat.simps [of "unat v"] word_le_nat_alt)
    have r: "sb_n sb < sb_sz sb" using "1.prems" e by simp
    obtain sb1 where s: "bcwrite_block sb [?b] = Inr sb1" "sb_n sb1 = sb_n sb + 1" "sb_sz sb1 = sb_sz sb"
      using sb_copy_appends [of sb "[?b]"] r by (auto simp: bcwrite_block_def)
    have "bcwrite_uleb128 sb v = rbind (bcwrite_block sb [?b]) (\<lambda>sb. bcwrite_block sb (enc_u (drop_bit 7 v)))"
      using True "1.IH" [of sb1] "1.prems" e s r
      by (simp add: bcwrite_uleb128.simps [of sb v] bcwrite_byte_block)
    then show ?thesis using block_block [of sb "[?b]"] "1.prems" by (simp add: e)
  next
    case False
    have "enc_u v = [ucast v]"
      using False uleb_last [of v] by (simp add: enc_u_def enc_nat.simps [of "unat v"] word_less_nat_alt word_le_nat_alt)
    with False "1.prems" show ?thesis
      by (simp add: bcwrite_uleb128.simps [of sb v] bcwrite_byte_block)
  qed
qed

subsection \<open>Buffers with room\<close>

text \<open>
  The writer asks for room first and then stores without a check.  \<open>emits r f bs\<close>: given room
  for \<open>r\<close> bytes, \<open>f\<close> succeeds and appends exactly \<open>bs\<close>; the buffer never shrinks.
\<close>

locale room_sink =
  fixes ok :: "'s \<Rightarrow> bool" and out :: "'s \<Rightarrow> byte list" and cap :: "'s \<Rightarrow> nat"
    and put :: "'s \<Rightarrow> byte list \<Rightarrow> 's res" and grow :: "'s \<Rightarrow> nat \<Rightarrow> 's res"
  assumes put_room: "ok s \<Longrightarrow> length (out s) + length bs \<le> cap s \<Longrightarrow>
      \<exists>s'. put s bs = Inr s' \<and> ok s' \<and> out s' = out s @ bs \<and> cap s' = cap s"
    and grow_room: "ok s \<Longrightarrow>
      \<exists>s'. grow s len = Inr s' \<and> ok s' \<and> out s' = out s \<and> length (out s) + len \<le> cap s' \<and> cap s \<le> cap s'"
    and ok_cap: "ok s \<Longrightarrow> length (out s) \<le> cap s"
begin

definition emits :: "nat \<Rightarrow> ('s \<Rightarrow> 's res) \<Rightarrow> byte list \<Rightarrow> bool" where
  "emits r f bs \<longleftrightarrow> (\<forall>s. ok s \<longrightarrow> length (out s) + r \<le> cap s \<longrightarrow>
     (\<exists>s'. f s = Inr s' \<and> ok s' \<and> out s' = out s @ bs \<and> cap s \<le> cap s'))"

lemma emitsD:
  "emits r f bs \<Longrightarrow> ok s \<Longrightarrow> length (out s) + r \<le> cap s \<Longrightarrow>
   \<exists>s'. f s = Inr s' \<and> ok s' \<and> out s' = out s @ bs \<and> cap s \<le> cap s'"
  by (simp add: emits_def)

lemma emits_put: "length bs \<le> r \<Longrightarrow> emits r (\<lambda>s. put s bs) bs"
  unfolding emits_def using put_room by (metis add_left_mono le_trans order_refl)

lemma emits_nop [simp, intro]: "emits r Inr []"
  by (simp add: emits_def)

lemma emits_mono: "emits r f bs \<Longrightarrow> r \<le> r' \<Longrightarrow> emits r' f bs"
  unfolding emits_def by (meson add_left_mono le_trans)

lemma emits_seq:
  assumes "emits r f xs" "emits r' g ys" "r \<le> q" "length xs + r' \<le> q"
  shows "emits q (\<lambda>s. rbind (f s) g) (xs @ ys)"
  unfolding emits_def
proof (intro allI impI)
  fix s assume s: "ok s" "length (out s) + q \<le> cap s"
  with assms(3) obtain s1 where s1: "f s = Inr s1" "ok s1" "out s1 = out s @ xs" "cap s \<le> cap s1"
    using emitsD [OF assms(1)] by (metis add_left_mono le_trans)
  have "length (out s1) + r' \<le> cap s1" using s(2) s1(3,4) assms(4) by simp
  then obtain s2 where "g s1 = Inr s2" "ok s2" "out s2 = out s1 @ ys" "cap s1 \<le> cap s2"
    using emitsD [OF assms(2) s1(2)] by blast
  then show "\<exists>s'. rbind (f s) g = Inr s' \<and> ok s' \<and> out s' = out s @ xs @ ys \<and> cap s \<le> cap s'"
    using s1 by auto
qed

lemma emits_seq0:
  assumes "emits r f xs" "emits 0 g ys"
  shows "emits r (\<lambda>s. rbind (f s) g) (xs @ ys)"
  unfolding emits_def
proof (intro allI impI)
  fix s assume s: "ok s" "length (out s) + r \<le> cap s"
  obtain s1 where s1: "f s = Inr s1" "ok s1" "out s1 = out s @ xs" "cap s \<le> cap s1"
    using emitsD [OF assms(1) s] by blast
  have "length (out s1) + 0 \<le> cap s1" using ok_cap [OF s1(2)] by simp
  then obtain s2 where "g s1 = Inr s2" "ok s2" "out s2 = out s1 @ ys" "cap s1 \<le> cap s2"
    using emitsD [OF assms(2) s1(2)] by blast
  then show "\<exists>s'. rbind (f s) g = Inr s' \<and> ok s' \<and> out s' = out s @ xs @ ys \<and> cap s \<le> cap s'"
    using s1 by auto
qed

lemma emits_need:
  assumes "emits r g bs" "r \<le> len"
  shows "emits q (\<lambda>s. rbind (grow s len) g) bs"
  unfolding emits_def
proof (intro allI impI)
  fix s assume s: "ok s"
  obtain s1 where s1: "grow s len = Inr s1" "ok s1" "out s1 = out s" "length (out s) + len \<le> cap s1"
    "cap s \<le> cap s1" using grow_room [OF s] by blast
  have "length (out s1) + r \<le> cap s1" using s1 assms(2) by simp
  then obtain s2 where "g s1 = Inr s2" "ok s2" "out s2 = out s1 @ bs" "cap s1 \<le> cap s2"
    using emitsD [OF assms(1) s1(2)] by blast
  then show "\<exists>s'. rbind (grow s len) g = Inr s' \<and> ok s' \<and> out s' = out s @ bs \<and> cap s \<le> cap s'"
    using s1 by auto
qed

end

sublocale room_sink \<subseteq> grown: byte_sink ok out "\<lambda>s bs. rbind (grow s (length bs)) (\<lambda>s. put s bs)"
proof unfold_locales
  fix s and bs :: "byte list"
  assume s: "ok s"
  obtain s1 where s1: "grow s (length bs) = Inr s1" "ok s1" "out s1 = out s"
    "length (out s) + length bs \<le> cap s1" using grow_room [OF s] by blast
  then show "\<exists>s'. rbind (grow s (length bs)) (\<lambda>s. put s bs) = Inr s' \<and> ok s' \<and> out s' = out s @ bs"
    using put_room [OF s1(2), of bs] by auto
qed

lemma data_length: "sbuf_ok sb \<Longrightarrow> length (sb_data sb) = sb_n sb"
  by (simp add: sb_data_def sb_sz_def sbuf_ok_def)

interpretation bw: room_sink sbuf_ok sb_data sb_sz bcwrite_block bcwrite_need
proof unfold_locales
  fix sb bs len assume ok: "sbuf_ok sb"
  show "\<exists>sb'. bcwrite_block sb bs = Inr sb' \<and> sbuf_ok sb' \<and> sb_data sb' = sb_data sb @ bs \<and> sb_sz sb' = sb_sz sb"
    if "length (sb_data sb) + length bs \<le> sb_sz sb"
  proof -
    have r: "sb_n sb + length bs \<le> sb_sz sb" using that data_length [OF ok] by simp
    then obtain sb' where "bcwrite_block sb bs = Inr sb'" "sb_n sb' = sb_n sb + length bs"
      "sb_sz sb' = sb_sz sb" "sb_data sb' = sb_data sb @ bs"
      unfolding bcwrite_block_def using sb_copy_appends by metis
    then show ?thesis using r ok by (auto simp: sbuf_ok_def)
  qed
  obtain s where s: "sz_double (sb_n sb + len) (sb_sz sb * 2) = Some s"
      "sb_n sb + len \<le> s" "sb_sz sb * 2 \<le> s"
    using sz_double_Some [of "sb_sz sb * 2" "sb_n sb + len"] ok by (auto simp: sbuf_ok_def)
  show "\<exists>sb'. bcwrite_need sb len = Inr sb' \<and> sbuf_ok sb' \<and> sb_data sb' = sb_data sb \<and>
      length (sb_data sb) + len \<le> sb_sz sb' \<and> sb_sz sb \<le> sb_sz sb'"
    using s ok unfolding data_length [OF ok]
    by (auto simp: bcwrite_need_def bcwrite_resize_def sbuf_ok_def)
  show "length (sb_data sb) \<le> sb_sz sb" using ok by (simp add: data_length) (simp add: sbuf_ok_def)
qed

subsection \<open>The operations of the writer\<close>

lemma emits_congI:
  "(\<And>sb. sbuf_ok sb \<Longrightarrow> sb_n sb + r \<le> sb_sz sb \<Longrightarrow> f sb = g sb) \<Longrightarrow> bw.emits r g bs \<Longrightarrow> bw.emits r f bs"
  unfolding bw.emits_def by (metis data_length)

lemma emits_byte: "1 \<le> r \<Longrightarrow> bw.emits r (\<lambda>sb. bcwrite_byte sb b) [b]"
  by (rule bw.emits_mono [of 1], rule emits_congI [OF _ bw.emits_put])
    (auto simp: bcwrite_byte_block)

lemma emits_u: "length (enc_u v) \<le> r \<Longrightarrow> bw.emits r (\<lambda>sb. bcwrite_uleb128 sb v) (enc_u v)"
  by (rule bw.emits_mono [of "length (enc_u v)"], rule emits_congI [OF _ bw.emits_put])
    (auto simp: bcwrite_uleb128_block)

lemma emits_u5: "bw.emits 5 (\<lambda>sb. bcwrite_uleb128 sb v) (enc_u v)"
  using emits_u enc_u_length by blast

definition enc_w64 :: "u64 \<Rightarrow> byte list" where "enc_w64 w = enc_u (lo32 w) @ enc_u (hi32 w)"

lemma enc_w64_length: "length (enc_w64 w) \<le> 10"
  using enc_u_length [of "lo32 w"] enc_u_length [of "hi32 w"] by (simp add: enc_w64_def)

lemma emits_w64: "bw.emits 10 (\<lambda>sb. bcwrite_w64 sb w) (enc_w64 w)"
  unfolding bcwrite_w64_def enc_w64_def
  by (rule bw.emits_seq [OF emits_u5 emits_u5]) (use enc_u_length [of "lo32 w"] in simp_all)

fun tmpl_val :: "tval \<Rightarrow> bool" where
  "tmpl_val (TLightud _) = False"
| "tmpl_val (TGc _ _) = False"
| "tmpl_val _ = True"

definition enc_ktabk :: "bool \<Rightarrow> tval \<Rightarrow> byte list" where
  "enc_ktabk narrow v = (case v of
     TStr s \<Rightarrow> enc_u (BCDUMP_KTAB_STR + of_nat (length s)) @ s
   | TNum w \<Rightarrow> (case (if narrow then num_toint w else None) of
        Some k \<Rightarrow> ucast BCDUMP_KTAB_INT # enc_u (u32_of_int k)
      | None \<Rightarrow> ucast BCDUMP_KTAB_NUM # enc_w64 w)
   | TNil \<Rightarrow> [ucast BCDUMP_KTAB_NIL]
   | TFalse \<Rightarrow> [ucast (BCDUMP_KTAB_NIL + 1)]
   | _ \<Rightarrow> [ucast (BCDUMP_KTAB_NIL + 2)])"

lemma emits_ktabk:
  assumes "tmpl_val v"
  shows "bw.emits q (\<lambda>sb. bcwrite_ktabk sb v narrow) (enc_ktabk narrow v)"
proof (cases v)
  case (TStr s)
  have "bw.emits 11 (\<lambda>sb. rbind (bcwrite_need sb (5 + length s)) (\<lambda>sb.
      rbind (bcwrite_uleb128 sb (BCDUMP_KTAB_STR + of_nat (length s))) (\<lambda>sb. bcwrite_block sb s)))
      (enc_ktabk narrow v)"
    unfolding enc_ktabk_def TStr tval.case
    by (rule bw.emits_need [OF bw.emits_seq [OF emits_u5 bw.emits_put [OF order_refl]] order_refl])
      (use enc_u_length in simp_all)
  then show ?thesis
    unfolding bcwrite_ktabk_def TStr tval.case by (rule bw.emits_need) simp
next
  case (TNum w)
  have b: "bw.emits 11 (\<lambda>sb. rbind (bcwrite_byte sb b) g) (b # bs)" if "bw.emits 10 g bs" for b g bs
    using bw.emits_seq [OF emits_byte [OF order_refl] that, of 11 b] by simp
  show ?thesis
  proof (cases "if narrow then num_toint w else None")
    case None
    then show ?thesis
      unfolding bcwrite_ktabk_def TNum tval.case enc_ktabk_def None option.case
      by (intro bw.emits_need [OF b [OF emits_w64 [unfolded bcwrite_w64_def]]]) simp
  next
    case (Some k)
    then show ?thesis
      unfolding bcwrite_ktabk_def TNum tval.case enc_ktabk_def Some option.case
      by (intro bw.emits_need [OF b [OF bw.emits_mono [OF emits_u5]]]) simp_all
  qed
qed (use assms in \<open>auto simp: bcwrite_ktabk_def enc_ktabk_def intro!: bw.emits_need [OF emits_byte [OF order_refl]]\<close>)

text \<open>Array and hash entries of a template table.\<close>

lemma emits_karray:
  "\<forall>v \<in> set vs. tmpl_val v \<Longrightarrow>
   bw.emits 0 (\<lambda>sb. bcwrite_karray sb vs) (concat (map (enc_ktabk True) vs))"
proof (induction vs)
  case (Cons v vs)
  then have "bw.emits 0 (\<lambda>sb. bcwrite_karray sb vs) (concat (map (enc_ktabk True) vs))" by simp
  moreover have "bw.emits 0 (\<lambda>sb. bcwrite_ktabk sb v True) (enc_ktabk True v)"
    by (rule emits_ktabk) (use Cons.prems in simp)
  ultimately show ?case by (simp add: bw.emits_seq0)
qed simp

definition enc_node :: "node \<Rightarrow> byte list" where
  "enc_node n = enc_ktabk False (nd_key n) @ enc_ktabk True (nd_val n)"

definition used_nodes :: "node list \<Rightarrow> node list" where
  "used_nodes ns = filter (\<lambda>n. nd_val n \<noteq> TNil) ns"

lemma emits_khash:
  assumes "\<forall>n \<in> set (used_nodes ns). tmpl_val (nd_key n) \<and> tmpl_val (nd_val n)"
    and "used_nodes ns \<noteq> []" "i = length (used_nodes ns)"
  shows "bw.emits 0 (\<lambda>sb. bcwrite_khash sb ns i) (concat (map enc_node (used_nodes ns)))"
  using assms
proof (induction ns arbitrary: i)
  case Nil
  then show ?case by (simp add: used_nodes_def)
next
  case (Cons n ns)
  show ?case
  proof (cases "nd_val n = TNil")
    case True
    then have "used_nodes (n # ns) = used_nodes ns" by (simp add: used_nodes_def)
    then show ?thesis using Cons.IH [of i] Cons.prems True by simp
  next
    case False
    then have u: "used_nodes (n # ns) = n # used_nodes ns" by (simp add: used_nodes_def)
    have i: "i - 1 = length (used_nodes ns)" using Cons.prems(3) u by simp
    have t: "tmpl_val (nd_key n)" "tmpl_val (nd_val n)" using Cons.prems(1) u by auto
    have r: "bw.emits 0 (\<lambda>sb. if i - 1 = 0 then Inr sb else bcwrite_khash sb ns (i - 1))
        (concat (map enc_node (used_nodes ns)))"
    proof (cases "i - 1 = 0")
      case True
      then show ?thesis using i by simp
    next
      case f: False
      then have "used_nodes ns \<noteq> []" using i by auto
      from Cons.IH [OF _ this i] f show ?thesis using Cons.prems(1) u by simp
    qed
    show ?thesis
      using bw.emits_seq0 [OF emits_ktabk [OF t(1)] bw.emits_seq0 [OF emits_ktabk [OF t(2)] r],
          of 0 False True] False
      unfolding u by (simp add: enc_node_def [of n])
  qed
qed

definition ktab_array :: "gctab \<Rightarrow> tval list" where
  "ktab_array t = take (last_used (tb_array t) (tb_asize t)) (tb_array t)"

definition enc_ktab :: "gctab \<Rightarrow> byte list" where
  "enc_ktab t =
     enc_u (of_nat (length (ktab_array t))) @ enc_u (of_nat (length (used_nodes (tb_node t)))) @
     concat (map (enc_ktabk True) (ktab_array t)) @
     concat (map enc_node (used_nodes (rev (tb_node t))))"

definition tmpl_tab :: "gctab \<Rightarrow> bool" where
  "tmpl_tab t \<longleftrightarrow> (\<forall>v \<in> set (tb_array t). tmpl_val v) \<and>
     (\<forall>n \<in> set (used_nodes (tb_node t)). tmpl_val (nd_key n) \<and> tmpl_val (nd_val n)) \<and>
     (tb_hmask t = 0 \<longrightarrow> used_nodes (tb_node t) = [])"

lemma last_used_le: "last_used a n \<le> n"
  by (induction a n rule: last_used.induct) auto

lemma ktab_array_length: "length (ktab_array t) = last_used (tb_array t) (tb_asize t)"
  using last_used_le [of "tb_array t" "tb_asize t"] by (simp add: ktab_array_def tb_asize_def)

lemma used_nodes_rev: "used_nodes (rev ns) = rev (used_nodes ns)"
  by (simp add: used_nodes_def rev_filter)

lemma emits_ktab:
  assumes "tmpl_tab t"
  shows "bw.emits 10 (\<lambda>sb. bcwrite_ktab sb t) (enc_ktab t)"
proof -
  define na nh where "na = length (ktab_array t)" and "nh = length (used_nodes (tb_node t))"
  have na: "(if tb_asize t > 0 then last_used (tb_array t) (tb_asize t) else 0) = na"
    unfolding na_def ktab_array_length by simp
  have nh: "(if tb_hmask t > 0 then length (filter (\<lambda>n. nd_val n \<noteq> TNil) (tb_node t)) else 0) = nh"
    using assms by (simp add: nh_def used_nodes_def tmpl_tab_def)
  have arr: "bw.emits 0 (\<lambda>sb. if na \<noteq> 0 then bcwrite_karray sb (take na (tb_array t)) else Inr sb)
      (concat (map (enc_ktabk True) (ktab_array t)))"
  proof (cases "na = 0")
    case True
    then show ?thesis by (simp add: na_def)
  next
    case False
    have "take na (tb_array t) = ktab_array t" by (simp add: na_def ktab_array_length) (simp add: ktab_array_def)
    moreover have "\<forall>v \<in> set (ktab_array t). tmpl_val v"
      using assms by (auto simp: tmpl_tab_def ktab_array_def dest: in_set_takeD)
    ultimately show ?thesis using emits_karray False by simp
  qed
  have hash: "bw.emits 0 (\<lambda>sb. if nh \<noteq> 0 then bcwrite_khash sb (rev (tb_node t)) nh else Inr sb)
      (concat (map enc_node (used_nodes (rev (tb_node t)))))"
  proof (cases "nh = 0")
    case True
    then show ?thesis by (simp add: nh_def used_nodes_rev)
  next
    case False
    then show ?thesis using emits_khash [of "rev (tb_node t)" nh] assms
      by (simp add: nh_def used_nodes_rev tmpl_tab_def)
  qed
  show ?thesis
    unfolding bcwrite_ktab_def na nh Let_def enc_ktab_def na_def [symmetric] nh_def [symmetric]
    by (rule bw.emits_seq [OF emits_u5 bw.emits_seq [OF emits_u5 bw.emits_seq0 [OF arr hash]]])
      (use enc_u_length in auto)
qed

subsection \<open>Constants of a prototype\<close>

definition enc_kgc :: "kgc \<Rightarrow> byte list" where
  "enc_kgc k = enc_u (kgc_type k) @ (case k of
       KStr s \<Rightarrow> s | KChild p \<Rightarrow> [] | KTab t \<Rightarrow> enc_ktab t | KI64 w \<Rightarrow> enc_w64 w | KU64 w \<Rightarrow> enc_w64 w
     | KComplex a b \<Rightarrow> enc_w64 a @ enc_w64 b)"

definition tmpl_kgc :: "kgc \<Rightarrow> bool" where
  "tmpl_kgc k \<longleftrightarrow> (\<forall>t. k = KTab t \<longrightarrow> tmpl_tab t)"

lemma enc_u_small: "unat v < 128 \<Longrightarrow> enc_u v = [ucast v]"
  by (simp add: enc_u_def enc_nat.simps [of "unat v"])

lemma emits_kgc:
  "\<forall>k \<in> set ks. tmpl_kgc k \<Longrightarrow> bw.emits 0 (\<lambda>sb. bcwrite_kgc sb ks) (concat (map enc_kgc ks))"
proof (induction ks)
  case (Cons k ks)
  define g where "g = (\<lambda>sb. case k of
         KStr s \<Rightarrow> bcwrite_block sb s
       | KTab t \<Rightarrow> bcwrite_ktab sb t
       | KChild p \<Rightarrow> Inr sb
       | KI64 w \<Rightarrow> bcwrite_w64 sb w
       | KU64 w \<Rightarrow> bcwrite_w64 sb w
       | KComplex a b \<Rightarrow> rbind (bcwrite_w64 sb a) (\<lambda>sb. bcwrite_w64 sb b))"
  define r where "r = (case k of KStr s \<Rightarrow> length s | KChild p \<Rightarrow> 0 | KTab t \<Rightarrow> 10
     | KI64 w \<Rightarrow> 10 | KU64 w \<Rightarrow> 10 | KComplex a b \<Rightarrow> 20)"
  have rest: "bw.emits 0 (\<lambda>sb. bcwrite_kgc sb ks) (concat (map enc_kgc ks))" using Cons by simp
  have g: "bw.emits r g (case k of
       KStr s \<Rightarrow> s | KChild p \<Rightarrow> [] | KTab t \<Rightarrow> enc_ktab t | KI64 w \<Rightarrow> enc_w64 w | KU64 w \<Rightarrow> enc_w64 w
     | KComplex a b \<Rightarrow> enc_w64 a @ enc_w64 b)"
  proof (cases k)
    case (KTab t)
    then show ?thesis using Cons.prems emits_ktab [of t] by (simp add: g_def r_def tmpl_kgc_def)
  next
    case (KComplex a b)
    have "bw.emits 20 (\<lambda>sb. rbind (bcwrite_w64 sb a) (\<lambda>sb. bcwrite_w64 sb b)) (enc_w64 a @ enc_w64 b)"
      by (rule bw.emits_seq [OF emits_w64 emits_w64]) (use enc_w64_length [of a] in simp_all)
    then show ?thesis by (simp add: KComplex g_def r_def)
  qed (simp_all add: g_def r_def bw.emits_put emits_w64)
  have t: "length (enc_u (kgc_type k)) + r \<le> kgc_need k"
  proof (cases k)
    case (KStr s)
    then show ?thesis using enc_u_length [of "kgc_type k"] by (simp add: r_def kgc_need_def)
  qed (simp_all add: kgc_type_def r_def kgc_need_def enc_u_small bcdump_kgc_defs)
  have "bw.emits (kgc_need k) (\<lambda>sb. rbind (bcwrite_uleb128 sb (kgc_type k)) g) (enc_kgc k)"
    unfolding enc_kgc_def
    by (rule bw.emits_seq [OF emits_u [OF order_refl] g]) (use t in simp_all)
  from bw.emits_need [OF bw.emits_seq0 [OF this rest] order_refl, of 0] show ?case
    by (simp add: g_def rbind_assoc)
qed simp

subsection \<open>33-bit numbers\<close>

lemma unat_lt32: "unat (v :: u32) < 2 ^ 32"
  using unsigned_less [of v] by simp

lemma enc_nat_5:
  assumes "2 ^ 28 \<le> n" "n < 2 ^ 35"
  shows "enc_nat n = 
    [of_nat (n mod 128 + 128), of_nat (n div 2 ^ 7 mod 128 + 128), of_nat (n div 2 ^ 14 mod 128 + 128),
     of_nat (n div 2 ^ 21 mod 128 + 128), of_nat (n div 2 ^ 28)]"
proof -
  have d: "n div 128 div 128 = n div 2 ^ 14" "n div 2 ^ 14 div 128 = n div 2 ^ 21"
    "n div 2 ^ 21 div 128 = n div 2 ^ 28" by (simp_all flip: div_mult2_eq)
  have l: "n div 2 ^ 28 < 128" using assms(2) by (simp add: less_mult_imp_div_less)
  have g: "\<not> n < 128" "\<not> n div 128 < 128" "\<not> n div 2 ^ 14 < 128" "\<not> n div 2 ^ 21 < 128"
    using assms(1) by (simp_all add: not_less less_eq_div_iff_mult_less_eq)
  have "enc_nat n = of_nat (n mod 128 + 128) # enc_nat (n div 128)"
    using g(1) by (simp add: enc_nat.simps [of n])
  moreover have "enc_nat (n div 128) = of_nat (n div 128 mod 128 + 128) # enc_nat (n div 2 ^ 14)"
    using g(2) by (simp only: enc_nat.simps [of "n div 128"] d if_False)
  moreover have "enc_nat (n div 2 ^ 14) = of_nat (n div 2 ^ 14 mod 128 + 128) # enc_nat (n div 2 ^ 21)"
    using g(3) by (simp only: enc_nat.simps [of "n div 2 ^ 14"] d if_False)
  moreover have "enc_nat (n div 2 ^ 21) = of_nat (n div 2 ^ 21 mod 128 + 128) # enc_nat (n div 2 ^ 28)"
    using g(4) by (simp only: enc_nat.simps [of "n div 2 ^ 21"] d if_False)
  moreover have "enc_nat (n div 2 ^ 28) = [of_nat (n div 2 ^ 28)]"
    using l by (simp only: enc_nat.simps [of "n div 2 ^ 28"] if_True)
  ultimately show ?thesis by simp
qed

definition spread33 :: "u32 \<Rightarrow> u32 \<Rightarrow> u32" where "spread33 f u = f + (2 * u OR (u AND 0x80000000))"

lemma bit_two: "bit (2 * u :: u32) n \<longleftrightarrow> 0 < n \<and> n < 32 \<and> bit u (n - 1)"
  by (cases n) (auto simp: bit_double_iff)

lemma bit_top: "bit (0x80000000 :: u32) n \<longleftrightarrow> n = 31"
proof -
  have "(0x80000000 :: u32) = push_bit 31 1" by (simp add: push_bit_eq_mult)
  then show ?thesis by (simp only: bit_push_bit_iff bit_1_iff) auto
qed

lemma spread33_or: "f \<in> {0, 1} \<Longrightarrow> spread33 f u = f OR (2 * u OR (u AND 0x80000000))"
  unfolding spread33_def
  by (rule disjunctive_add) (auto simp: bit_1_iff bit_or_iff bit_two bit_and_iff bit_top)

lemma unat_add_low: "n \<le> 32 \<Longrightarrow> unat (a + b :: u32) mod 2 ^ n = (unat a + unat b) mod 2 ^ n"
proof -
  assume "n \<le> 32"
  then have d: "2 ^ n dvd (2 ^ 32 :: nat)" by (rule le_imp_power_dvd)
  have "a + b = of_nat (unat a + unat b)" by simp
  then have "unat (a + b) = (unat a + unat b) mod 2 ^ 32"
    by (simp only: unat_of_nat) simp
  then show ?thesis by (simp only: mod_mod_cancel [OF d])
qed

lemma unat_take_bit: "unat (take_bit n a :: 'a::len word) = unat a mod 2 ^ n"
  by (simp only: unsigned_take_bit_eq take_bit_eq_mod [where ?'a = nat])

lemma spread33_low:
  "unat (spread33 f u) mod 2 ^ 28 = (2 * unat u + unat f) mod 2 ^ 28"
proof -
  let ?x = "2 * u OR (u AND 0x80000000)"
  have "take_bit 28 ?x = take_bit 28 (2 * u)"
    by (rule bit_word_eqI) (auto simp: bit_take_bit_iff bit_or_iff bit_and_iff bit_top)
  then have "unat ?x mod 2 ^ 28 = unat (u + u) mod 2 ^ 28" by (metis unat_take_bit mult_2)
  also have "\<dots> = (unat u + unat u) mod 2 ^ 28" by (rule unat_add_low) simp
  finally have x: "unat ?x mod 2 ^ 28 = (unat u + unat u) mod 2 ^ 28" .
  have "unat (spread33 f u) mod 2 ^ 28 = (unat f + unat ?x) mod 2 ^ 28"
    unfolding spread33_def by (rule unat_add_low) simp
  also have "\<dots> = (unat f + (unat u + unat u)) mod 2 ^ 28" using x by (rule mod_add_cong [OF refl])
  finally show ?thesis by (simp only: mult_2 add.commute [of "unat f"])
qed

lemma byte_bits: "(\<And>n. n \<in> {0, 1, 2, 3, 4, 5, 6, 7} \<Longrightarrow> bit a n = bit b n) \<Longrightarrow> a = (b :: byte)"
  by (rule bit_word_eqI) (auto simp: numeral_eq_Suc less_Suc_eq)

lemma bit_18: "bit (0x18 :: u32) n \<longleftrightarrow> n = 3 \<or> n = 4"
proof -
  have "(0x18 :: u32) = push_bit 3 (Bit_Operations.mask 2)" by (simp add: mask_eq_exp_minus_1 push_bit_eq_mult)
  then show ?thesis by (simp only: bit_push_bit_iff bit_mask_iff) auto
qed

lemma sdrop_27: "signed_drop_bit 27 u AND 0x18 = drop_bit 27 (u :: u32) AND 0x18"
  by (rule bit_word_eqI, simp only: bit_and_iff bit_18)
    (auto simp: bit_signed_drop_bit_iff bit_drop_bit_eq)

lemma spread33_last:
  assumes "f \<in> {0, 1 :: u32}"
  shows "(ucast (drop_bit 28 (spread33 f u)) AND 7) OR ucast (drop_bit 27 u AND 0x18) = (ucast (drop_bit 27 u) :: byte)"
proof -
  have b7: "bit (7 :: byte) n \<longleftrightarrow> n < 3" for n
  proof -
    have "(7 :: byte) = Bit_Operations.mask 3" by (simp add: mask_eq_exp_minus_1)
    then show ?thesis by (simp only: bit_mask_iff) auto
  qed
  have f: "\<not> bit f (28 + n)" for n using assms by (auto simp: bit_1_iff)
  show ?thesis
    unfolding spread33_or [OF assms]
    by (rule byte_bits)
      (auto simp: bit_or_iff bit_and_iff bit_ucast_iff bit_drop_bit_eq bit_two b7 bit_18 bit_top f
        dest: bit_imp_le_length)
qed

lemma spread33_small:
  assumes "unat u < 2 ^ 31" "f \<in> {0, 1 :: u32}"
  shows "unat (spread33 f u) = 2 * unat u + unat f"
proof -
  have "take_bit 31 u = u" using assms(1) by (simp add: word_unat_eq_iff unat_take_bit)
  then have "\<not> bit u 31" by (metis bit_take_bit_iff less_irrefl)
  then have "u AND 0x80000000 = 0" 
    by (intro bit_word_eqI) (simp only: bit_and_iff bit_top bit_0_eq bot_apply, auto)
  then have "spread33 f u = of_nat (unat f + 2 * unat u)" by (simp add: spread33_def)
  moreover have "unat f + 2 * unat u < 2 ^ 32" using assms by auto
  ultimately show ?thesis by (simp add: of_nat_inverse)
qed

lemma byte_of_div: "of_nat (unat (v :: u32) div 2 ^ k) = (ucast (drop_bit k v) :: byte)"
proof -
  have "unat v div 2 ^ k = unat (drop_bit k v)"
    by (simp add: unat_drop_bit_eq drop_bit_eq_div [where ?'a = nat])
  then show ?thesis by (simp only: of_nat_unat)
qed

definition enc33 :: "u32 \<Rightarrow> u32 \<Rightarrow> byte list" where "enc33 f u = enc_nat (2 * unat u + unat f)"

lemma spread33_big:
  assumes "2 ^ 31 \<le> unat u" "f \<in> {0, 1 :: u32}"
  shows "\<exists>xs x. enc_u (spread33 f u) = xs @ [x] \<and>
    enc33 f u = xs @ [(x AND 7) OR ucast (drop_bit 27 u AND 0x18)]"
proof -
  let ?V = "unat (spread33 f u)" and ?N = "2 * unat u + unat f"
  have fb: "unat f \<le> 1" using assms(2) by auto
  have b: "bit (spread33 f u) 31"
  proof -
    have "unat u div 2 ^ 31 = 1" using assms(1) unat_lt32 [of u]
      by (intro div_nat_eqI) simp_all
    then have "bit (unat u) 31" by (simp only: bit_iff_odd) simp
    then have "bit u 31" by (simp only: bit_unsigned_iff)
    then show ?thesis unfolding spread33_or [OF assms(2)] by (simp add: bit_or_iff bit_and_iff bit_top)
  qed
  have "2 ^ 28 \<le> ?V"
  proof -
    have "bit ?V 31" using b by (simp only: bit_unsigned_iff) simp
    then have "odd (?V div 2 ^ 31)" unfolding bit_iff_odd .
    then have "\<not> ?V < 2 ^ 31" using div_less [of ?V "2 ^ 31"] even_zero by metis
    then show ?thesis by simp
  qed
  moreover have "?V < 2 ^ 35" using unat_lt32 [of "spread33 f u"] by simp
  ultimately have v: "enc_nat ?V = [of_nat (?V mod 128 + 128), of_nat (?V div 2 ^ 7 mod 128 + 128),
     of_nat (?V div 2 ^ 14 mod 128 + 128), of_nat (?V div 2 ^ 21 mod 128 + 128), of_nat (?V div 2 ^ 28)]"
    by (rule enc_nat_5)
  have "2 ^ 28 \<le> ?N" using assms(1) by simp
  moreover have "?N < 2 ^ 35" using unat_lt32 [of u] fb by simp
  ultimately have n: "enc_nat ?N = [of_nat (?N mod 128 + 128), of_nat (?N div 2 ^ 7 mod 128 + 128),
     of_nat (?N div 2 ^ 14 mod 128 + 128), of_nat (?N div 2 ^ 21 mod 128 + 128), of_nat (?N div 2 ^ 28)]"
    by (rule enc_nat_5)
  have low: "?V div 2 ^ k mod 128 = ?N div 2 ^ k mod 128" if "k + 7 \<le> 28" for k
  proof -
    have e: "m div 2 ^ k mod 128 = m mod 2 ^ 28 div 2 ^ k mod 128" for m :: nat
      using that take_bit_take_bit [of 7 "28 - k" "drop_bit k m"] drop_bit_take_bit [of k 28 m]
      by (simp add: take_bit_eq_mod drop_bit_eq_div)
    show ?thesis unfolding e [of ?V] e [of ?N] spread33_low ..
  qed
  have x: "of_nat (?V div 2 ^ 28) = (ucast (drop_bit 28 (spread33 f u)) :: byte)"
    by (rule byte_of_div)
  have y: "of_nat (?N div 2 ^ 28) = (ucast (drop_bit 27 u) :: byte)"
  proof -
    have "?N div 2 ^ 28 = ?N div 2 div 2 ^ 27" by (simp flip: div_mult2_eq)
    also have "?N div 2 = unat u" using fb by simp
    finally show ?thesis using byte_of_div [of u 27] by simp
  qed
  show ?thesis
    unfolding enc_u_def enc33_def v n y x
    using low [of 0] low [of 7] low [of 14] low [of 21] spread33_last [OF assms(2), of u] by simp
qed

end
