(* ===== verification/LJ_BcEmit.thy ===== *)
theory LJ_BcEmit
  imports LJ_BcEnc
begin

text \<open>
  The remaining operations of the writer: number constants, bytecode, the whole prototype,
  the length prefix and the blocks passed to the client.
\<close>

subsection \<open>Number constants\<close>

definition enc_knum :: "u64 \<Rightarrow> byte list" where
  "enc_knum w = (case num_toint w of
     Some k \<Rightarrow> enc33 0 (u32_of_int k) | None \<Rightarrow> enc33 1 (lo32 w) @ enc_u (hi32 w))"

lemma emits_patch:
  assumes "bw.emits r f (xs @ [x])"
  shows "bw.emits r (\<lambda>sb. rbind (f sb) (\<lambda>sb. sb_patch sb y)) (xs @ [(x AND 7) OR y])"
  unfolding bw.emits_def
proof (intro allI impI)
  fix sb assume s: "sbuf_ok sb" "length (sb_data sb) + r \<le> sb_sz sb"
  obtain s1 where s1: "f sb = Inr s1" "sbuf_ok s1" "sb_data s1 = sb_data sb @ xs @ [x]" "sb_sz sb \<le> sb_sz s1"
    using bw.emitsD [OF assms s] by blast
  let ?i = "sb_n s1 - 1"
  have n: "sb_n s1 = length (sb_data sb) + length xs + 1"
    using data_length [OF s1(2)] s1(3) by simp
  then have i: "?i < sb_sz s1" "?i < sb_n s1" using s1(2) by (auto simp: sbuf_ok_def)
  have d: "take ?i (sb_buf s1) = sb_data sb @ xs" "sb_buf s1 ! ?i = x"
  proof -
    have e: "take (sb_n s1) (sb_buf s1) = (sb_data sb @ xs) @ [x]" using s1(3) by (simp add: sb_data_def)
    have "take ?i (take (sb_n s1) (sb_buf s1)) = sb_data sb @ xs" unfolding e using n by simp
    then show "take ?i (sb_buf s1) = sb_data sb @ xs" by (simp add: take_take min_def)
    have "take (sb_n s1) (sb_buf s1) ! ?i = x" unfolding e using n by (simp add: nth_append)
    then show "sb_buf s1 ! ?i = x" using i(2) by simp
  qed
  let ?s = "s1\<lparr>sb_buf := (sb_buf s1)[?i := (x AND 7) OR y]\<rparr>"
  have "sb_patch s1 y = Inr ?s" using i n d by (simp add: sb_patch_def sb_store_def Let_def)
  moreover have "sbuf_ok ?s" "sb_sz ?s = sb_sz s1" using s1(2) by (simp_all add: sbuf_ok_def sb_sz_def)
  moreover have "sb_data ?s = sb_data sb @ xs @ [(x AND 7) OR y]"
  proof -
    obtain m where m: "sb_n s1 = Suc m" using n by simp
    have "take (Suc m) ((sb_buf s1)[m := (x AND 7) OR y]) = take m (sb_buf s1) @ [(x AND 7) OR y]"
      using i(1) m by (simp add: take_Suc_conv_app_nth sb_sz_def)
    then show ?thesis using d(1) m by (simp add: sb_data_def)
  qed
  ultimately show "\<exists>s'. rbind (f sb) (\<lambda>sb. sb_patch sb y) = Inr s' \<and> sbuf_ok s' \<and>
      sb_data s' = sb_data sb @ xs @ [(x AND 7) OR y] \<and> sb_sz sb \<le> sb_sz s'"
    using s1 by auto
qed

lemma enc33_length: "f \<in> {0, 1} \<Longrightarrow> length (enc33 f u) \<le> 5"
  unfolding enc33_def
proof (rule enc_nat_length)
  assume "f \<in> {0, 1}"
  then show "2 * unat u + unat f < 2 ^ (7 * 5)" using unat_lt32 [of u] by auto
qed simp

lemma emits_33:
  assumes "f \<in> {0, 1}"
  shows "bw.emits 5 (\<lambda>sb. rbind (bcwrite_uleb128 sb (spread33 f u)) (\<lambda>sb.
      if 0x80000000 \<le> u then sb_patch sb (ucast (drop_bit 27 u AND 0x18)) else Inr sb)) (enc33 f u)"
proof (cases "0x80000000 \<le> u")
  case True
  then have "2 ^ 31 \<le> unat u" by (simp add: word_le_nat_alt)
  then obtain xs x where x: "enc_u (spread33 f u) = xs @ [x]"
    "enc33 f u = xs @ [(x AND 7) OR ucast (drop_bit 27 u AND 0x18)]" using spread33_big assms by blast
  show ?thesis using emits_patch [OF emits_u5 [of "spread33 f u", unfolded x(1)]] True by (simp add: x(2))
next
  case False
  then have "unat u < 2 ^ 31" by (simp add: word_le_nat_alt not_le)
  then have "enc_u (spread33 f u) = enc33 f u" using spread33_small assms by (simp add: enc_u_def enc33_def)
  with False show ?thesis using bw.emits_seq0 [OF emits_u5 [of "spread33 f u"] bw.emits_nop] by simp
qed

lemma u32_of_int_neg: "int32 k \<Longrightarrow> k < 0 \<longleftrightarrow> 0x80000000 \<le> u32_of_int k"
proof -
  assume k: "int32 k"
  have u: "uint (u32_of_int k) = k mod 2 ^ 32" by (simp add: u32_of_int_def uint_word_of_int)
  show ?thesis
  proof (cases "k < 0")
    case True
    then have "(k + 2 ^ 32) mod 2 ^ 32 = k + 2 ^ 32" using k by (intro mod_pos_pos_trivial) (auto simp: int32_def)
    then have "k mod 2 ^ 32 = k + 2 ^ 32" by simp
    then show ?thesis using True k by (simp add: word_le_def u int32_def)
  next
    case False
    then have "k mod 2 ^ 32 = k" using k by (intro mod_pos_pos_trivial) (auto simp: int32_def)
    then show ?thesis using False k by (simp add: word_le_def u int32_def)
  qed
qed

lemma emits_knum1: "bw.emits 10 (\<lambda>sb. bcwrite_knum1 sb w) (enc_knum w)"
proof (cases "num_toint w")
  case (Some k)
  note n = u32_of_int_neg [OF num_toint_Some(1) [OF Some]]
  have "bcwrite_knum1 sb w = rbind (bcwrite_uleb128 sb (spread33 0 (u32_of_int k))) (\<lambda>sb.
      if 0x80000000 \<le> u32_of_int k then sb_patch sb (ucast (drop_bit 27 (u32_of_int k) AND 0x18)) else Inr sb)" for sb
    unfolding n [symmetric] by (simp add: bcwrite_knum1_def Some spread33_def Let_def sdrop_27 cong: if_cong)
  then show ?thesis
    using bw.emits_mono [OF emits_33 [of 0 "u32_of_int k"], of 10] by (simp add: enc_knum_def Some)
next
  case None
  have "bcwrite_knum1 sb w = rbind (rbind (bcwrite_uleb128 sb (spread33 1 (lo32 w))) (\<lambda>sb.
      if 0x80000000 \<le> lo32 w then sb_patch sb (ucast (drop_bit 27 (lo32 w) AND 0x18)) else Inr sb))
      (\<lambda>sb. bcwrite_uleb128 sb (hi32 w))" for sb
    by (simp add: bcwrite_knum1_def None spread33_def Let_def rbind_assoc)
  moreover have "bw.emits 10 (\<lambda>sb. rbind (rbind (bcwrite_uleb128 sb (spread33 1 (lo32 w))) (\<lambda>sb.
      if 0x80000000 \<le> lo32 w then sb_patch sb (ucast (drop_bit 27 (lo32 w) AND 0x18)) else Inr sb))
      (\<lambda>sb. bcwrite_uleb128 sb (hi32 w))) (enc_knum w)"
    unfolding enc_knum_def None option.case
    by (rule bw.emits_seq [OF emits_33 emits_u5]) (use enc33_length [of 1 "lo32 w"] in simp_all)
  ultimately show ?thesis by simp
qed

lemma enc_knum_length: "length (enc_knum w) \<le> 10"
proof -
  have "length (enc33 0 u) \<le> 10" for u using enc33_length [of 0 u] by simp
  moreover have "length (enc33 1 (lo32 w)) \<le> 5" "length (enc_u (hi32 w)) \<le> 5"
    using enc33_length enc_u_length by simp_all
  ultimately show ?thesis by (auto simp: enc_knum_def split: option.split)
qed

lemma emits_knums: "bw.emits (10 * length ws) (\<lambda>sb. bcwrite_knums sb ws) (concat (map enc_knum ws))"
proof (induction ws)
  case (Cons w ws)
  have "bw.emits (10 * length (w # ws)) (\<lambda>sb. rbind (bcwrite_knum1 sb w) (\<lambda>sb. bcwrite_knums sb ws))
      (enc_knum w @ concat (map enc_knum ws))"
    by (rule bw.emits_seq [OF emits_knum1 Cons.IH]) (use enc_knum_length [of w] in simp_all)
  then show ?case by simp
qed simp

lemma emits_knum: "bw.emits q (\<lambda>sb. bcwrite_knum sb kn) (concat (map enc_knum kn))"
  unfolding bcwrite_knum_def by (rule bw.emits_need [OF emits_knums order_refl])


subsection \<open>Bytecode\<close>

text \<open>One instruction with the changes of the JIT compiler undone.\<close>

definition clean_ins :: "(u16 \<Rightarrow> u32) \<Rightarrow> u32 \<Rightarrow> u32" where
  "clean_ins startins i =
     (let op = unat (byte_of 0 i) in
      if op = BC_IFORL \<or> op = BC_IITERL \<or> op = BC_ILOOP \<or> op = BC_JFORI
      then le32 (byte_of 0 i - of_nat BC_IFORL + of_nat BC_FORL) (byte_of 1 i) (byte_of 2 i) (byte_of 3 i)
      else if op = BC_JFORL \<or> op = BC_JITERL \<or> op = BC_JLOOP then
        (let ins = startins (ucast (byte_of 2 i) + push_bit 8 (ucast (byte_of 3 i)))
         in le32 (byte_of 0 i - of_nat BC_JFORL + of_nat BC_FORL) (byte_of 1 i)
              (ucast (bc_c ins)) (ucast (bc_b ins)))
      else i)"

definition clean_bc :: "(u16 \<Rightarrow> u32) \<Rightarrow> proto \<Rightarrow> u32 list" where
  "clean_bc startins pt =
     (if pt_flags pt AND PROTO_ILOOP \<noteq> 0 \<or> pt_trace pt \<noteq> 0
      then map (clean_ins startins) (tl (pt_bc pt)) else tl (pt_bc pt))"

lemma unpatch_ins_at:
  "unpatch_ins st (xs @ ins_bytes i @ ys) (length xs) = xs @ ins_bytes (clean_ins st i) @ ys"
proof -
  have n: "(xs @ ins_bytes i @ ys) ! length xs = byte_of 0 i"
    "(xs @ ins_bytes i @ ys) ! (length xs + 2) = byte_of 2 i"
    "(xs @ ins_bytes i @ ys) ! (length xs + 3) = byte_of 3 i"
    by (simp_all add: ins_bytes_def nth_append)
  have u: "(xs @ ins_bytes i @ ys)[length xs := b] = xs @ [b, byte_of 1 i, byte_of 2 i, byte_of 3 i] @ ys"
    "(xs @ ins_bytes i @ ys)[length xs := b, length xs + 2 := c, length xs + 3 := d]
     = xs @ [b, byte_of 1 i, c, d] @ ys" for b c d
    by (simp_all add: ins_bytes_def list_update_append)
  have c: "xs @ ins_bytes (le32 b0 b1 b2 b3) @ ys = xs @ [b0, b1, b2, b3] @ ys" for b0 b1 b2 b3
    by (simp add: ins_bytes_def)
  let ?op = "unat (byte_of 0 i)"
  show ?thesis
  proof (cases "?op = BC_IFORL \<or> ?op = BC_IITERL \<or> ?op = BC_ILOOP \<or> ?op = BC_JFORI")
    case True
    show ?thesis by (simp only: unpatch_ins_def clean_ins_def Let_def n if_P [OF True] u(1) c)
  next
    case f: False
    show ?thesis
    proof (cases "?op = BC_JFORL \<or> ?op = BC_JITERL \<or> ?op = BC_JLOOP")
      case True
      show ?thesis
        by (simp only: unpatch_ins_def clean_ins_def Let_def n if_not_P [OF f] if_P [OF True] u(2) c)
    next
      case False
      show ?thesis
        by (simp only: unpatch_ins_def clean_ins_def Let_def n if_not_P [OF f] if_not_P [OF False])
    qed
  qed
qed

lemma unpatch_loop_at:
  "unpatch_loop st (xs @ concat (map ins_bytes is) @ ys) (length xs) (length is)
   = xs @ concat (map ins_bytes (map (clean_ins st) is)) @ ys"
proof (induction "is" arbitrary: xs)
  case (Cons i "is")
  have l: "length xs + 4 = length (xs @ ins_bytes (clean_ins st i))" by (simp add: ins_bytes_def)
  show ?case
    using Cons.IH [of "xs @ ins_bytes (clean_ins st i)"] unpatch_ins_at [of st xs i "concat (map ins_bytes is) @ ys"]
    by (simp add: l del: length_append)
qed simp

lemma length_ins_bytes [simp]: "length (concat (map ins_bytes is)) = 4 * length is"
  by (induction "is") (simp_all add: ins_bytes_def)

lemma emits_bytecode:
  assumes "4 * (length (pt_bc pt) - 1) \<le> r"
  shows "bw.emits r (\<lambda>sb. bcwrite_bytecode st sb pt) (concat (map ins_bytes (clean_bc st pt)))"
  unfolding bw.emits_def
proof (intro allI impI)
  fix sb assume s: "sbuf_ok sb" "length (sb_data sb) + r \<le> sb_sz sb"
  let ?is = "tl (pt_bc pt)"
  let ?bs = "concat (map ins_bytes ?is)"
  have r: "sb_n sb + length ?bs \<le> sb_sz sb" using s assms data_length [OF s(1)] by simp
  define sb1 where "sb1 = sb\<lparr>sb_n := sb_n sb + length ?bs,
      sb_buf := take (sb_n sb) (sb_buf sb) @ ?bs @ drop (sb_n sb + length ?bs) (sb_buf sb)\<rparr>"
  have b: "bcwrite_block sb ?bs = Inr sb1"
    unfolding bcwrite_block_def sb1_def using r by (subst sb_copy_append) simp_all
  have lt: "length (take (sb_n sb) (sb_buf sb)) = sb_n sb" using s(1) by (simp add: sbuf_ok_def sb_sz_def)
  let ?cs = "concat (map ins_bytes (map (clean_ins st) ?is))"
  have u: "unpatch_loop st (sb_buf sb1) (sb_n sb) (length (pt_bc pt) - 1) =
      take (sb_n sb) (sb_buf sb) @ ?cs @ drop (sb_n sb + length ?bs) (sb_buf sb)"
    using unpatch_loop_at [of st "take (sb_n sb) (sb_buf sb)" ?is] lt by (simp add: sb1_def)
  have fin: "\<exists>s'. Inr (sb1\<lparr>sb_buf := take (sb_n sb) (sb_buf sb) @ ds @ drop (sb_n sb + length ?bs) (sb_buf sb)\<rparr>) = Inr s' \<and>
      sbuf_ok s' \<and> sb_data s' = sb_data sb @ ds \<and> sb_sz sb \<le> sb_sz s'"
    if "length ds = length ?bs" for ds
    using that r s(1) lt by (auto simp: sb1_def sbuf_ok_def sb_sz_def sb_data_def)
  show "\<exists>s'. bcwrite_bytecode st sb pt = Inr s' \<and> sbuf_ok s' \<and>
      sb_data s' = sb_data sb @ concat (map ins_bytes (clean_bc st pt)) \<and> sb_sz sb \<le> sb_sz s'"
  proof (cases "pt_flags pt AND PROTO_ILOOP \<noteq> 0 \<or> pt_trace pt \<noteq> 0")
    case True
    have c: "clean_bc st pt = map (clean_ins st) ?is" using True by (simp only: clean_bc_def if_True)
    have "bcwrite_bytecode st sb pt = Inr (sb1\<lparr>sb_buf := unpatch_loop st (sb_buf sb1) (sb_n sb) (length (pt_bc pt) - 1)\<rparr>)"
      using True by (simp only: bcwrite_bytecode_def Let_def b rbind_simps if_True)
    moreover have "length ?cs = length ?bs" by (simp only: length_ins_bytes length_map)
    ultimately show ?thesis unfolding c u by (simp only: fin)
  next
    case False
    then have "bcwrite_bytecode st sb pt = Inr sb1" using b by (simp add: bcwrite_bytecode_def Let_def)
    moreover have "sb1 = sb1\<lparr>sb_buf := take (sb_n sb) (sb_buf sb) @ ?bs @ drop (sb_n sb + length ?bs) (sb_buf sb)\<rparr>"
      by (simp add: sb1_def)
    ultimately show ?thesis using fin [of ?bs] False by (simp add: clean_bc_def)
  qed
qed


subsection \<open>Prototypes\<close>

definition enc_head :: "bool \<Rightarrow> proto \<Rightarrow> nat \<Rightarrow> byte list" where
  "enc_head strip pt sizedbg =
     [pt_flags pt AND (PROTO_CHILD OR PROTO_VARARG OR PROTO_FFI), pt_numparams pt, pt_framesize pt,
      of_nat (length (pt_uv pt))] @
     enc_u (of_nat (length (pt_kgc pt))) @ enc_u (of_nat (length (pt_kn pt))) @
     enc_u (of_nat (length (pt_bc pt) - 1)) @
     (if strip then [] else enc_u (of_nat sizedbg) @
        (if sizedbg = 0 then [] else enc_u (pt_firstline pt) @ enc_u (pt_numline pt)))"

definition enc_body :: "(u16 \<Rightarrow> u32) \<Rightarrow> bool \<Rightarrow> proto \<Rightarrow> byte list" where
  "enc_body st strip pt =
     (let sizedbg = (if strip then 0 else pt_sizedbg pt) in
      enc_head strip pt sizedbg @
      concat (map ins_bytes (clean_bc st pt)) @ concat (map uv_bytes (pt_uv pt)) @
      concat (map enc_kgc (pt_kgc pt)) @ concat (map enc_knum (pt_kn pt)) @
      (if sizedbg = 0 then [] else case pt_dbg pt of None \<Rightarrow> [] | Some d \<Rightarrow> db_bytes d))"

lemma emits_byte_seq:
  "bw.emits r g bs \<Longrightarrow> Suc r \<le> q \<Longrightarrow> bw.emits q (\<lambda>sb. rbind (bcwrite_byte sb b) g) (b # bs)"
  using bw.emits_seq [OF emits_byte [OF order_refl], of r g bs q b] by simp

lemma emits_u_seq:
  "bw.emits r g bs \<Longrightarrow> 5 + r \<le> q \<Longrightarrow> bw.emits q (\<lambda>sb. rbind (bcwrite_uleb128 sb v) g) (enc_u v @ bs)"
  by (rule bw.emits_seq [OF emits_u5], assumption) (use enc_u_length [of v] in linarith)+

lemma emits_head: "bw.emits 34 (\<lambda>sb. bcwrite_proto_head strip sb pt d) (enc_head strip pt d)"
proof -
  have d: "bw.emits 15 (\<lambda>sb. if strip then Inr sb else rbind (bcwrite_uleb128 sb (of_nat d)) (\<lambda>sb.
         if d = 0 then Inr sb else
         rbind (bcwrite_uleb128 sb (pt_firstline pt)) (\<lambda>sb. bcwrite_uleb128 sb (pt_numline pt))))
      (if strip then [] else enc_u (of_nat d) @
        (if d = 0 then [] else enc_u (pt_firstline pt) @ enc_u (pt_numline pt)))"
  proof (cases strip)
    case False
    have "bw.emits 10 (\<lambda>sb. if d = 0 then Inr sb else
         rbind (bcwrite_uleb128 sb (pt_firstline pt)) (\<lambda>sb. bcwrite_uleb128 sb (pt_numline pt)))
        (if d = 0 then [] else enc_u (pt_firstline pt) @ enc_u (pt_numline pt))"
      using emits_u_seq [OF emits_u5, of 10 "pt_firstline pt" "pt_numline pt"] by simp
    from emits_u_seq [OF this, of 15 "of_nat d"] False show ?thesis by simp
  qed simp
  show ?thesis
    unfolding bcwrite_proto_head_def enc_head_def append_Cons append_Nil
    by (rule bw.emits_mono,
        (rule emits_byte_seq [OF _ order_refl] emits_u_seq [OF _ order_refl] d)+) simp
qed

lemma enc_head_length: "length (enc_head strip pt d) \<le> 34"
proof -
  have a: "length (enc_u v) \<le> 5" for v by (rule enc_u_length)
  show ?thesis
    using a [of "of_nat (length (pt_kgc pt))"] a [of "of_nat (length (pt_kn pt))"]
      a [of "of_nat (length (pt_bc pt) - 1)"] a [of "of_nat d"] a [of "pt_firstline pt"] a [of "pt_numline pt"] a [of 0]
    by (simp add: enc_head_def)
qed

lemma enc_head_not_Nil: "4 \<le> length (enc_head strip pt d)"
  by (simp add: enc_head_def)

lemma length_uv_bytes [simp]: "length (concat (map uv_bytes uv)) = 2 * length uv"
  by (induction uv) (simp_all add: uv_bytes_def)

lemma length_clean_bc [simp]: "length (clean_bc st pt) = length (pt_bc pt) - 1"
  by (simp add: clean_bc_def)

lemma body_ok:
  assumes "sbuf_ok sb" "5 \<le> sb_sz sb" "\<forall>k \<in> set (pt_kgc pt). tmpl_kgc k"
  shows "\<exists>sb' pre. bcwrite_proto_body st strip sb pt = Inr sb' \<and> sbuf_ok sb' \<and>
    sb_data sb' = pre @ enc_body st strip pt \<and> length pre = 5 \<and> sb_sz sb \<le> sb_sz sb'"
proof -
  define d where "d = (if strip then 0 else pt_sizedbg pt)"
  define sb0 where "sb0 = (lj_str_resetbuf sb)\<lparr>sb_n := 5\<rparr>"
  have s0: "sbuf_ok sb0" "sb_sz sb0 = sb_sz sb"
    using assms(1,2) by (simp_all add: sb0_def lj_str_resetbuf_def sbuf_ok_def sb_sz_def)
  have p: "length (sb_data sb0) = 5" using data_length [OF s0(1)] by (simp add: sb0_def)
  define f5 where "f5 = (\<lambda>sb. if d = 0 then Inr sb else rbind (bcwrite_need sb d) (\<lambda>sb.
          bcwrite_block sb (case pt_dbg pt of None \<Rightarrow> [] | Some d \<Rightarrow> db_bytes d)))"
  define f4 where "f4 = (\<lambda>sb. rbind (bcwrite_knum sb (pt_kn pt)) f5)"
  define f3 where "f3 = (\<lambda>sb. rbind (bcwrite_kgc sb (pt_kgc pt)) f4)"
  define f2 where "f2 = (\<lambda>sb. rbind (bcwrite_block sb (concat (map uv_bytes (pt_uv pt)))) f3)"
  define f1 where "f1 = (\<lambda>sb. rbind (bcwrite_bytecode st sb pt) f2)"
  define f0 where "f0 = (\<lambda>sb. rbind (bcwrite_proto_head strip sb pt d) f1)"
  define len where "len = 4 + 6 * 5 + (length (pt_bc pt) - 1) * 4 + length (pt_uv pt) * 2"
  define e5 where "e5 = (if d = 0 then [] else case pt_dbg pt of None \<Rightarrow> [] | Some d \<Rightarrow> db_bytes d)"
  have dbg: "bw.emits 0 f5 e5"
  proof (cases "d = 0")
    case False
    have "bw.emits d (\<lambda>sb. bcwrite_block sb (case pt_dbg pt of None \<Rightarrow> [] | Some d \<Rightarrow> db_bytes d))
        (case pt_dbg pt of None \<Rightarrow> [] | Some d \<Rightarrow> db_bytes d)"
      by (rule bw.emits_put) (use False in \<open>auto simp: d_def pt_sizedbg_def split: if_splits option.splits\<close>)
    then show ?thesis using bw.emits_need [OF _ order_refl] False by (simp add: f5_def e5_def)
  qed (simp add: f5_def e5_def)
  have 4: "bw.emits 0 f4 (concat (map enc_knum (pt_kn pt)) @ e5)"
    unfolding f4_def by (rule bw.emits_seq0 [OF emits_knum dbg])
  have 3: "bw.emits 0 f3 (concat (map enc_kgc (pt_kgc pt)) @ concat (map enc_knum (pt_kn pt)) @ e5)"
    unfolding f3_def by (rule bw.emits_seq0 [OF emits_kgc [OF assms(3)] 4])
  have 2: "bw.emits (2 * length (pt_uv pt)) f2 (concat (map uv_bytes (pt_uv pt)) @
      concat (map enc_kgc (pt_kgc pt)) @ concat (map enc_knum (pt_kn pt)) @ e5)"
    unfolding f2_def by (rule bw.emits_seq0 [OF bw.emits_put 3]) simp
  have 1: "bw.emits (4 * (length (pt_bc pt) - 1) + 2 * length (pt_uv pt)) f1
      (concat (map ins_bytes (clean_bc st pt)) @ concat (map uv_bytes (pt_uv pt)) @
       concat (map enc_kgc (pt_kgc pt)) @ concat (map enc_knum (pt_kn pt)) @ e5)"
    unfolding f1_def by (rule bw.emits_seq [OF emits_bytecode [OF order_refl] 2]) simp_all
  have b: "enc_body st strip pt = enc_head strip pt d @ concat (map ins_bytes (clean_bc st pt)) @
      concat (map uv_bytes (pt_uv pt)) @ concat (map enc_kgc (pt_kgc pt)) @
      concat (map enc_knum (pt_kn pt)) @ e5"
    unfolding enc_body_def Let_def d_def [symmetric] e5_def ..
  have 0: "bw.emits len f0 (enc_body st strip pt)"
    unfolding f0_def b
    by (rule bw.emits_seq [OF emits_head 1]) (use enc_head_length [of strip pt d] in \<open>simp_all add: len_def\<close>)
  have "\<exists>s'. rbind (bcwrite_need sb0 len) f0 = Inr s' \<and> sbuf_ok s' \<and>
      sb_data s' = sb_data sb0 @ enc_body st strip pt \<and> sb_sz sb0 \<le> sb_sz s'"
    by (rule bw.emitsD [OF bw.emits_need [OF 0 order_refl, of 0] s0(1)]) (use p s0(2) assms(2) in simp)
  moreover have "bcwrite_proto_body st strip sb pt = rbind (bcwrite_need sb0 len) f0"
    unfolding bcwrite_proto_body_def Let_def d_def [symmetric] sb0_def [symmetric] len_def [symmetric]
      f0_def f1_def f2_def f3_def f4_def f5_def ..
  ultimately show ?thesis using p s0(2) by auto
qed

subsection \<open>The length prefix\<close>

lemma fls_div128: "128 \<le> n \<Longrightarrow> lj_fls n = lj_fls (n div 128) + 7"
proof -
  assume n: "128 \<le> n"
  let ?k = "lj_fls (n div 128)"
  have p: "0 < n div 128" using n by (simp add: div_greater_zero_iff)
  have "2 ^ ?k * 128 \<le> n div 128 * 128" using lj_fls_lower [OF p] by simp
  also have "\<dots> \<le> n" by simp
  finally have l: "2 ^ (?k + 7) \<le> n" by (simp add: power_add)
  have "n < 2 ^ Suc ?k * 128" using lj_fls_upper [of "n div 128"] by (simp add: div_less_iff_less_mult)
  then have u: "n < 2 ^ Suc (?k + 7)" by (simp add: power_add)
  show ?thesis by (rule lj_fls_unique [OF l u])
qed

lemma enc_nat_length_fls: "0 < n \<Longrightarrow> length (enc_nat n) = lj_fls n div 7 + 1"
proof (induction n rule: enc_nat.induct)
  case (1 n)
  show ?case
  proof (cases "n < 128")
    case True
    then have "n < 2 ^ Suc 6" by simp
    then have "lj_fls n \<le> 6" using lj_fls_le_iff [OF "1.prems", of 6] by blast
    then show ?thesis using True by (simp add: enc_nat.simps [of n])
  next
    case False
    then have "length (enc_nat (n div 128)) = lj_fls (n div 128) div 7 + 1"
      using "1.IH" by (simp add: div_greater_zero_iff)
    then show ?thesis using False fls_div128 [of n] by (simp add: enc_nat.simps [of n])
  qed
qed

lemma nn_cases: "k < 32 \<Longrightarrow> (k + 8) * 9 div 64 = k div 7 + (1 :: nat)"
proof -
  assume "k < 32"
  then have "\<forall>k \<in> set [0..<32]. (k + 8) * 9 div 64 = k div 7 + (1 :: nat)"
    by (simp add: upt_rec)
  with \<open>k < 32\<close> show ?thesis by simp
qed

text \<open>The formula of the code for the length of the length.\<close>

lemma nn_length:
  assumes "0 < n" "n < 2 ^ 32"
  shows "(lj_fls n + 8) * 9 div 2 ^ 6 = length (enc_nat n)"
proof -
  have "lj_fls n \<le> 31" using lj_fls_le_iff [OF assms(1), of 31] assms(2) by simp
  then show ?thesis using nn_cases [of "lj_fls n"] enc_nat_length_fls [OF assms(1)] by simp
qed

subsection \<open>What the client's writer receives\<close>

text \<open>The blocks go to the writer one by one until it returns a status that is not 0.\<close>

fun feed :: "('w \<Rightarrow> byte list \<Rightarrow> 'w \<times> int) \<Rightarrow> 'w \<times> int \<Rightarrow> byte list list \<Rightarrow> 'w \<times> int" where
  "feed wfunc (w, st) [] = (w, st)"
| "feed wfunc (w, st) (b # bs) = (if st = 0 then feed wfunc (wfunc w b) bs else (w, st))"

lemma feed_stop: "st \<noteq> 0 \<Longrightarrow> feed wfunc (w, st) bs = (w, st)"
  by (cases bs) simp_all

lemma feed_append: "feed wfunc r (xs @ ys) = feed wfunc (feed wfunc r xs) ys"
proof (induction xs arbitrary: r)
  case Nil
  then show ?case by (cases r) simp
next
  case (Cons x xs)
  then show ?case by (cases r) (simp add: feed_stop)
qed

definition prefixed :: "byte list \<Rightarrow> byte list" where
  "prefixed body = enc_nat (length body) @ body"

fun proto_blocks :: "(u16 \<Rightarrow> u32) \<Rightarrow> bool \<Rightarrow> proto \<Rightarrow> byte list list"
  and kgc_blocks :: "(u16 \<Rightarrow> u32) \<Rightarrow> bool \<Rightarrow> kgc list \<Rightarrow> byte list list" where
  "proto_blocks st strip (Proto fl np fs bc uv kg kn tr cn fl1 nl db) =
     (if fl AND PROTO_CHILD \<noteq> 0 then kgc_blocks st strip kg else []) @
     [prefixed (enc_body st strip (Proto fl np fs bc uv kg kn tr cn fl1 nl db))]"
| "kgc_blocks st strip [] = []"
| "kgc_blocks st strip (k # ks) =
     kgc_blocks st strip ks @ (case k of KChild p \<Rightarrow> proto_blocks st strip p | _ \<Rightarrow> [])"

definition enc_header :: "bool \<Rightarrow> proto \<Rightarrow> byte list" where
  "enc_header strip pt =
     [BCDUMP_HEAD1, BCDUMP_HEAD2, BCDUMP_HEAD3, BCDUMP_VERSION,
      ucast ((if strip then BCDUMP_F_STRIP else 0) + (if pt_flags pt AND PROTO_FFI \<noteq> 0 then BCDUMP_F_FFI else 0))] @
     (if strip then [] else enc_u (of_nat (length (pt_chunkname pt))) @ pt_chunkname pt)"

definition dump_blocks :: "(u16 \<Rightarrow> u32) \<Rightarrow> bool \<Rightarrow> proto \<Rightarrow> byte list list" where
  "dump_blocks st strip pt = enc_header strip pt # proto_blocks st strip pt @ [[0]]"

text \<open>What can be dumped: constants of the supported types, and less than 4 GB of them.\<close>

fun dumpable :: "(u16 \<Rightarrow> u32) \<Rightarrow> bool \<Rightarrow> proto \<Rightarrow> bool"
  and dumpable_kgc :: "(u16 \<Rightarrow> u32) \<Rightarrow> bool \<Rightarrow> kgc list \<Rightarrow> bool" where
  "dumpable st strip (Proto fl np fs bc uv kg kn tr cn fl1 nl db) \<longleftrightarrow>
     dumpable_kgc st strip kg \<and>
     length (enc_body st strip (Proto fl np fs bc uv kg kn tr cn fl1 nl db)) < 2 ^ 32"
| "dumpable_kgc st strip [] \<longleftrightarrow> True"
| "dumpable_kgc st strip (k # ks) \<longleftrightarrow>
     tmpl_kgc k \<and> (case k of KChild p \<Rightarrow> dumpable st strip p | _ \<Rightarrow> True) \<and> dumpable_kgc st strip ks"

lemma dumpable_kgc_all: "dumpable_kgc st strip ks \<Longrightarrow> \<forall>k \<in> set ks. tmpl_kgc k"
  by (induction ks) auto

definition cx_ok :: "'w bcwctx \<Rightarrow> bool" where
  "cx_ok ctx \<longleftrightarrow> sbuf_ok (cx_sb ctx) \<and> 10 \<le> sb_sz (cx_sb ctx)"

abbreviation cx_res :: "'w bcwctx \<Rightarrow> 'w \<times> int" where
  "cx_res ctx \<equiv> (cx_wdata ctx, cx_status ctx)"

lemma bcwrite_pass_res:
  "cx_res (bcwrite_pass wfunc ctx b) = wfunc (cx_wdata ctx) b" "cx_sb (bcwrite_pass wfunc ctx b) = cx_sb ctx"
  by (simp_all add: bcwrite_pass_def split: prod.split)

lemma final_ok:
  assumes "cx_ok ctx" "sb_data (cx_sb ctx) = pre @ body" "length pre = 5" "0 < length body" "length body < 2 ^ 32"
  shows "\<exists>ctx'. bcwrite_final wfunc ctx = Inr ctx' \<and> cx_ok ctx' \<and>
    cx_res ctx' = feed wfunc (cx_res ctx) [prefixed body]"
proof (cases "cx_status ctx = 0")
  case False
  then show ?thesis using assms(1) by (auto simp: bcwrite_final_def)
next
  case True
  define sb n where "sb = cx_sb ctx" and "n = length body"
  have ok: "sbuf_ok sb" "10 \<le> sb_sz sb" using assms(1) by (simp_all add: cx_ok_def sb_def)
  have n: "sb_n sb = 5 + n" using data_length [OF ok(1)] assms(2,3) by (simp add: sb_def n_def)
  have nn: "(lj_fls n + 8) * 9 div 2 ^ 6 = length (enc_nat n)"
    by (rule nn_length) (use assms(4,5) in \<open>simp_all add: n_def\<close>)
  have un: "unat (of_nat n :: u32) = n" using assms(5) by (simp add: n_def of_nat_inverse)
  have l: "length (enc_nat n) \<le> 5" using enc_u_length [of "of_nat n"] by (simp add: enc_u_def un)
  define k where "k = 5 - length (enc_nat n)"
  define buf where "buf = take k (sb_buf sb) @ enc_nat n @ drop 5 (sb_buf sb)"
  have k: "k + length (enc_nat n) = 5" using l by (simp add: k_def)
  have "bcwrite_uleb128 (sb\<lparr>sb_n := k\<rparr>) (of_nat n) = bcwrite_block (sb\<lparr>sb_n := k\<rparr>) (enc_nat n)"
    using bcwrite_uleb128_block [of "sb\<lparr>sb_n := k\<rparr>" "of_nat n"] k ok(2) by (simp add: enc_u_def un)
  also have "\<dots> = Inr (sb\<lparr>sb_n := 5, sb_buf := buf\<rparr>)"
    unfolding bcwrite_block_def using k ok(2)
    by (subst sb_copy_append) (simp_all add: buf_def)
  finally have w: "bcwrite_uleb128 (sb\<lparr>sb_n := k\<rparr>) (of_nat n) = Inr (sb\<lparr>sb_n := 5, sb_buf := buf\<rparr>)" .
  have lb: "length buf = length (sb_buf sb)" using k ok(2) by (simp add: buf_def sb_sz_def)
  have body: "take n (drop 5 (sb_buf sb)) = body"
  proof -
    have "take n (drop 5 (sb_buf sb)) = drop 5 (take (5 + n) (sb_buf sb))" by (simp add: take_drop add.commute)
    also have "take (5 + n) (sb_buf sb) = pre @ body" using assms(2) n by (simp add: sb_data_def sb_def)
    finally show ?thesis using assms(3) by simp
  qed
  have "length (take k (sb_buf sb)) = k" using k ok(2) by (simp add: sb_sz_def)
  then have blk: "take (length (enc_nat n) + n) (drop k buf) = prefixed body"
    by (simp add: buf_def body prefixed_def flip: n_def)
  let ?ctx = "bcwrite_pass wfunc (ctx\<lparr>cx_sb := sb\<lparr>sb_n := 5, sb_buf := buf\<rparr>\<rparr>) (prefixed body)"
  have n5: "sb_n sb - 5 = n" using n by simp
  have "bcwrite_final wfunc ctx = Inr ?ctx"
    using True unfolding bcwrite_final_def Let_def sb_def [symmetric] n5 nn k_def [symmetric] w
    by (simp add: blk)
  moreover have "cx_ok ?ctx" using ok lb by (simp add: cx_ok_def bcwrite_pass_res sbuf_ok_def sb_sz_def)
  moreover have "cx_res ?ctx = feed wfunc (cx_res ctx) [prefixed body]"
    unfolding bcwrite_pass_res using True by (cases "wfunc (cx_wdata ctx) (prefixed body)") simp
  ultimately show ?thesis by blast
qed

lemma enc_body_nonempty: "0 < length (enc_body st strip pt)"
  using enc_head_not_Nil [of strip pt] by (simp add: enc_body_def Let_def enc_head_def)

lemma proto_ok:
  "dumpable st strip pt \<Longrightarrow> cx_ok ctx \<Longrightarrow>
   \<exists>ctx'. bcwrite_proto st wfunc strip ctx pt = Inr ctx' \<and> cx_ok ctx' \<and>
     cx_res ctx' = feed wfunc (cx_res ctx) (proto_blocks st strip pt)"
  "dumpable_kgc st strip ks \<Longrightarrow> cx_ok ctx \<Longrightarrow>
   \<exists>ctx'. bcwrite_children st wfunc strip ctx ks = Inr ctx' \<and> cx_ok ctx' \<and>
     cx_res ctx' = feed wfunc (cx_res ctx) (kgc_blocks st strip ks)"
proof (induction st strip pt and st strip ks arbitrary: ctx and ctx rule: proto_blocks_kgc_blocks.induct)
  case (1 st strip fl np fs bc uv kg kn tr cn fl1 nl db)
  let ?pt = "Proto fl np fs bc uv kg kn tr cn fl1 nl db"
  define pre where "pre = (if fl AND PROTO_CHILD \<noteq> 0 then kgc_blocks st strip kg else [])"
  obtain c1 where c1: "(if fl AND PROTO_CHILD \<noteq> 0 then bcwrite_children st wfunc strip ctx kg else Inr ctx) = Inr c1"
    "cx_ok c1" "cx_res c1 = feed wfunc (cx_res ctx) pre"
  proof (cases "fl AND PROTO_CHILD \<noteq> 0")
    case True
    then show ?thesis using "1.IH" [of ctx] "1.prems" that by (auto simp: pre_def)
  next
    case False
    then show ?thesis using "1.prems" that by (auto simp: pre_def)
  qed
  have t: "\<forall>k \<in> set (pt_kgc ?pt). tmpl_kgc k" 
    using "1.prems"(1) dumpable_kgc_all [of st strip kg] by simp
  have "sbuf_ok (cx_sb c1)" "5 \<le> sb_sz (cx_sb c1)" using c1(2) by (auto simp: cx_ok_def)
  from body_ok [OF this t, of st strip] obtain sb' p where b:
    "bcwrite_proto_body st strip (cx_sb c1) ?pt = Inr sb'" "sbuf_ok sb'"
    "sb_data sb' = p @ enc_body st strip ?pt" "length p = 5" "sb_sz (cx_sb c1) \<le> sb_sz sb'" by blast
  have o: "cx_ok (c1\<lparr>cx_sb := sb'\<rparr>)" using b c1(2) by (auto simp: cx_ok_def)
  have "length (enc_body st strip ?pt) < 2 ^ 32" using "1.prems"(1) by simp
  from final_ok [OF o _ b(4) enc_body_nonempty this, of wfunc] b(3)
  obtain c2 where c2: "bcwrite_final wfunc (c1\<lparr>cx_sb := sb'\<rparr>) = Inr c2" "cx_ok c2"
    "cx_res c2 = feed wfunc (cx_res c1) [prefixed (enc_body st strip ?pt)]" by auto
  have "bcwrite_proto st wfunc strip ctx ?pt = Inr c2"
    unfolding bcwrite_proto.simps c1(1) rbind_simps b(1) by (rule c2(1))
  moreover have "cx_res c2 = feed wfunc (cx_res ctx) (proto_blocks st strip ?pt)"
    unfolding proto_blocks.simps pre_def [symmetric] feed_append c1(3) [symmetric] by (rule c2(3))
  ultimately show ?case using c2(2) by blast
next
  case (2 st strip)
  then show ?case by simp
next
  case (3 st strip k ks)
  obtain c1 where c1: "bcwrite_children st wfunc strip ctx ks = Inr c1" "cx_ok c1"
    "cx_res c1 = feed wfunc (cx_res ctx) (kgc_blocks st strip ks)"
    using "3.IH"(1) [of ctx] "3.prems" by auto
  show ?case
  proof (cases "\<exists>p. k = KChild p")
    case True
    then obtain p where p: "k = KChild p" by blast
    obtain c2 where "bcwrite_proto st wfunc strip c1 p = Inr c2" "cx_ok c2"
      "cx_res c2 = feed wfunc (cx_res c1) (proto_blocks st strip p)"
      using "3.IH"(2) [OF p, of c1] "3.prems" p c1(2) by auto
    then show ?thesis using c1 p by (simp add: feed_append)
  next
    case False
    then show ?thesis using c1 by (cases k) (simp_all add: feed_append)
  qed
qed

subsection \<open>The whole dump\<close>

lemma header_ok:
  assumes "cx_ok ctx" "cx_status ctx = 0"
  shows "\<exists>ctx'. bcwrite_header wfunc strip ctx pt = Inr ctx' \<and> cx_ok ctx' \<and>
    cx_res ctx' = feed wfunc (cx_res ctx) [enc_header strip pt]"
proof -
  define name where "name = pt_chunkname pt"
  define sb0 where "sb0 = lj_str_resetbuf (cx_sb ctx)"
  have s0: "sbuf_ok sb0" "sb_data sb0 = []" "sb_sz sb0 = sb_sz (cx_sb ctx)"
    using assms(1) by (simp_all add: sb0_def lj_str_resetbuf_def cx_ok_def sbuf_ok_def sb_data_def)
  define fl :: byte where "fl = ucast ((if strip then BCDUMP_F_STRIP else 0)
               + (if pt_flags pt AND PROTO_FFI \<noteq> 0 then BCDUMP_F_FFI else 0))"
  define g where "g = (\<lambda>sb. if strip then Inr sb else
      rbind (bcwrite_uleb128 sb (of_nat (length name))) (\<lambda>sb. bcwrite_block sb name))"
  define ge where "ge = (if strip then [] else enc_u (of_nat (length name)) @ name)"
  define f where "f = (\<lambda>sb. rbind (bcwrite_byte sb BCDUMP_HEAD1) (\<lambda>sb.
      rbind (bcwrite_byte sb BCDUMP_HEAD2) (\<lambda>sb. rbind (bcwrite_byte sb BCDUMP_HEAD3) (\<lambda>sb.
      rbind (bcwrite_byte sb BCDUMP_VERSION) (\<lambda>sb. rbind (bcwrite_byte sb fl) g)))))"
  have "bw.emits (5 + length name) g ge"
  proof (cases strip)
    case False
    then show ?thesis
      unfolding g_def ge_def using emits_u_seq [OF bw.emits_put [OF order_refl, of name] order_refl] by simp
  qed (simp add: g_def ge_def)
  then have "bw.emits (5 + 5 + length name) f ([BCDUMP_HEAD1, BCDUMP_HEAD2, BCDUMP_HEAD3, BCDUMP_VERSION, fl] @ ge)"
    unfolding f_def append_Cons append_Nil
    by (rule bw.emits_mono [OF emits_byte_seq [OF emits_byte_seq [OF emits_byte_seq [OF emits_byte_seq
        [OF emits_byte_seq [OF _ order_refl] order_refl] order_refl] order_refl] order_refl]]) simp
  moreover have "[BCDUMP_HEAD1, BCDUMP_HEAD2, BCDUMP_HEAD3, BCDUMP_VERSION, fl] @ ge = enc_header strip pt"
    by (simp add: enc_header_def ge_def fl_def name_def)
  ultimately have "bw.emits (5 + 5 + length name) f (enc_header strip pt)" by simp
  from bw.emitsD [OF bw.emits_need [OF this order_refl, of 0] s0(1)] s0
  obtain s1 where s1: "rbind (bcwrite_need sb0 (5 + 5 + length name)) f = Inr s1" "sbuf_ok s1"
    "sb_data s1 = enc_header strip pt" "sb_sz sb0 \<le> sb_sz s1" by auto
  let ?ctx = "bcwrite_pass wfunc (ctx\<lparr>cx_sb := s1\<rparr>) (enc_header strip pt)"
  have h: "bcwrite_header wfunc strip ctx pt =
      rbind (rbind (bcwrite_need sb0 (5 + 5 + length name)) f) (\<lambda>sb.
        Inr (bcwrite_pass wfunc (ctx\<lparr>cx_sb := sb\<rparr>) (take (sb_n sb) (sb_buf sb))))"
    unfolding bcwrite_header_def Let_def f_def g_def sb0_def name_def fl_def rbind_assoc ..
  have "bcwrite_header wfunc strip ctx pt = Inr ?ctx"
    unfolding h s1(1) rbind_simps using s1(3) by (simp add: sb_data_def)
  moreover have "cx_ok ?ctx" using s1 s0(3) assms(1) by (auto simp: cx_ok_def bcwrite_pass_res)
  moreover have "cx_res ?ctx = feed wfunc (cx_res ctx) [enc_header strip pt]"
    unfolding bcwrite_pass_res using assms(2) by (cases "wfunc (cx_wdata ctx) (enc_header strip pt)") simp
  ultimately show ?thesis by blast
qed

lemma footer_res: "cx_res (bcwrite_footer wfunc ctx) = feed wfunc (cx_res ctx) [[0]]"
proof (cases "cx_status ctx = 0")
  case True
  then show ?thesis
    by (cases "wfunc (cx_wdata ctx) [0]") (simp add: bcwrite_footer_def bcwrite_pass_def)
qed (simp add: bcwrite_footer_def)

lemma bcwrite_dump:
  assumes "dumpable st strip pt"
  shows "lj_bcwrite st wfunc pt data strip = Inr (feed wfunc (data, 0) (dump_blocks st strip pt))"
proof -
  let ?c0 = "\<lparr>cx_sb = lj_str_initbuf \<lparr>sb_buf = [], sb_n = 0\<rparr>, cx_status = 0, cx_wdata = data\<rparr>"
  let ?c1 = "?c0\<lparr>cx_sb := lj_str_resizebuf (cx_sb ?c0) 1024\<rparr>"
  have o: "cx_ok ?c1" "cx_status ?c1 = 0" "cx_res ?c1 = (data, 0)"
    by (simp_all add: cx_ok_def sbuf_ok_def lj_str_initbuf_def)
  obtain c2 where c2: "bcwrite_header wfunc strip ?c1 pt = Inr c2" "cx_ok c2"
    "cx_res c2 = feed wfunc (data, 0) [enc_header strip pt]"
    using header_ok [OF o(1,2), of wfunc strip pt] o(3) by auto
  obtain c3 where c3: "bcwrite_proto st wfunc strip c2 pt = Inr c3"
    "cx_res c3 = feed wfunc (cx_res c2) (proto_blocks st strip pt)"
    using proto_ok(1) [OF assms c2(2)] by blast
  have "cpwriter st wfunc strip ?c0 pt = Inr (bcwrite_footer wfunc c3)"
    unfolding cpwriter_def c2(1) rbind_simps c3(1) ..
  moreover have "cx_res (bcwrite_footer wfunc c3) = feed wfunc (data, 0) (dump_blocks st strip pt)"
    unfolding footer_res c3(2) c2(3) dump_blocks_def feed_append [symmetric] by simp
  ultimately show ?thesis by (simp add: lj_bcwrite_def)
qed

end
