(* ===== verification/LJ_BcRead.thy ===== *)
theory LJ_BcRead
  imports LJ_Proto
begin

text \<open>
  The bytecode reader (\<^verbatim>\<open>lj_bcread.c\<close>) on the fields of the lexer state it uses.  \<open>ls_in\<close> is
  the memory from \<open>ls->p\<close> on, \<open>ls->n\<close> its length; \<open>ls_sbn\<close> and \<open>ls_sbsz\<close> are the bytes in use and
  the size of the token buffer, \<open>ls_src\<close> the blocks the client's reader function will return
  (then it returns none).  The prototypes read so far are on \<open>ls_stack\<close>.

  The checks of the C code are assertions that release builds leave out: reading more than
  the \<open>n\<close> available bytes, copying more than the buffer holds, accessing an array of the
  prototype out of bounds, or shifting a word by 32 or more is the error \<open>OOB\<close>.
\<close>

record lexst =
  ls_in :: "byte list"
  ls_sbn :: nat
  ls_sbsz :: nat
  ls_current :: int
  ls_src :: "byte list list"
  ls_flags :: u32
  ls_chunkname :: "byte list"
  ls_chunkarg :: "byte list"
  ls_stack :: "proto list"

definition ls_n :: "lexst \<Rightarrow> nat" where "ls_n ls = length (ls_in ls)"

definition bcread_swap :: "lexst \<Rightarrow> bool" where
  "bcread_swap ls \<longleftrightarrow> ls_flags ls AND BCDUMP_F_BE \<noteq> 0"

definition LJ_MAX_MEM :: nat where "LJ_MAX_MEM = 0x7fffff00"

text \<open>The text of an error: the chunk name without its mark, and the message.\<close>

definition bcread_error :: "lexst \<Rightarrow> byte list \<Rightarrow> byte list" where
  "bcread_error ls msg =
     (let name = ls_chunkarg ls;
          c = (case name of [] \<Rightarrow> 0 | b # bs \<Rightarrow> b);
          name = (if c = BCDUMP_HEAD1 then map (\<lambda>c. of_nat (of_char c)) ''(binary)''
                  else if c = 0x40 \<or> c = 0x3d then tl name else name)
      in name @ [0x3a, 0x20] @ msg)"

subsection \<open>Input buffer handling\<close>

definition bcread_resize :: "lexst \<Rightarrow> nat \<Rightarrow> lexst res" where
  "bcread_resize ls len =
     (if ls_sbsz ls < len then
        (case sz_double len (ls_sbsz ls * 2) of
           None \<Rightarrow> Inl DIVERGE
         | Some sz \<Rightarrow> Inr (ls\<lparr>ls_sbsz := sz\<rparr>))
      else Inr ls)"

text \<open>Move or copy the remaining bytes to the start of the buffer.\<close>

definition fill_copy :: "lexst \<Rightarrow> nat \<Rightarrow> lexst res" where
  "fill_copy ls len =
     rbind (if ls_n ls \<noteq> 0 then
              (if ls_sbn ls \<noteq> 0 then Inr ls
               else rbind (bcread_resize ls len) (\<lambda>ls.
                 if ls_n ls \<le> ls_sbsz ls then Inr ls else Inl OOB))
            else Inr ls)
       (\<lambda>ls. Inr (ls\<lparr>ls_sbn := ls_n ls\<rparr>))"

text \<open>The loop of \<open>bcread_fill\<close>, one block of the reader for each iteration.\<close>

fun fill_loop :: "byte list list \<Rightarrow> lexst \<Rightarrow> nat \<Rightarrow> bool \<Rightarrow> lexst res" where
  "fill_loop src ls len nd =
     rbind (fill_copy ls len) (\<lambda>ls.
       case src of
         [] \<Rightarrow> (if nd then Inl ERR_BCBAD else Inr (ls\<lparr>ls_current := -1, ls_src := []\<rparr>))
       | buf # rest \<Rightarrow>
           if buf = [] then
             (if nd then Inl ERR_BCBAD else Inr (ls\<lparr>ls_current := -1, ls_src := rest\<rparr>))
           else
             rbind (if ls_sbn ls \<noteq> 0 then
                      (let n = ls_sbn ls + length buf in
                       rbind (bcread_resize ls (if n < len then len else n)) (\<lambda>ls.
                         if n \<le> ls_sbsz ls
                         then Inr (ls\<lparr>ls_sbn := n, ls_in := ls_in ls @ buf, ls_src := rest\<rparr>)
                         else Inl OOB))
                    else Inr (ls\<lparr>ls_in := buf, ls_src := rest\<rparr>)) (\<lambda>ls.
               if ls_n ls < len then fill_loop rest ls len nd else Inr ls))"

declare fill_loop.simps [simp del]

definition bcread_fill :: "lexst \<Rightarrow> nat \<Rightarrow> bool \<Rightarrow> lexst res" where
  "bcread_fill ls len nd =
     (if len > LJ_MAX_MEM \<or> ls_current ls < 0 then Inl ERR_BCBAD
      else fill_loop (ls_src ls) ls len nd)"

definition bcread_need :: "lexst \<Rightarrow> nat \<Rightarrow> lexst res" where
  "bcread_need ls len = (if ls_n ls < len then bcread_fill ls len True else Inr ls)"

definition bcread_want :: "lexst \<Rightarrow> nat \<Rightarrow> lexst res" where
  "bcread_want ls len = (if ls_n ls < len then bcread_fill ls len False else Inr ls)"

type_synonym 'a rd = "lexst \<Rightarrow> (lexst \<times> 'a) res"

definition rd_bind :: "'a rd \<Rightarrow> ('a \<Rightarrow> 'b rd) \<Rightarrow> 'b rd" where
  "rd_bind m f ls = rbind (m ls) (\<lambda>(ls, x). f x ls)"

definition rd_ret :: "'a \<Rightarrow> 'a rd" where
  "rd_ret x ls = Inr (ls, x)"

definition bcread_mem :: "nat \<Rightarrow> byte list rd" where
  "bcread_mem len ls =
     (if len \<le> ls_n ls then Inr (ls\<lparr>ls_in := drop len (ls_in ls)\<rparr>, take len (ls_in ls))
      else Inl OOB)"

text \<open>\<open>memcpy\<close> of the block to a destination that has room for it.\<close>

definition bcread_block :: "nat \<Rightarrow> byte list rd" where
  "bcread_block len = bcread_mem len"

definition bcread_byte :: "byte rd" where
  "bcread_byte ls =
     (case ls_in ls of [] \<Rightarrow> Inl OOB | b # bs \<Rightarrow> Inr (ls\<lparr>ls_in := bs\<rparr>, b))"

text \<open>The loop of the two ULEB128 readers: the value so far and the last shift.\<close>

fun uleb128_loop :: "u32 \<Rightarrow> int \<Rightarrow> byte list \<Rightarrow> (byte list \<times> u32) res" where
  "uleb128_loop v sh [] = Inl OOB"
| "uleb128_loop v sh (b # bs) =
     (let sh = sh + 7 in
      if sh \<ge> 32 then Inl OOB
      else (let v = v OR push_bit (nat sh) (ucast (b AND 0x7f)) in
            if b \<ge> 0x80 then uleb128_loop v sh bs else Inr (bs, v)))"

definition bcread_uleb128 :: "u32 rd" where
  "bcread_uleb128 ls =
     (case ls_in ls of
        [] \<Rightarrow> Inl OOB
      | b # bs \<Rightarrow>
          rbind (if b \<ge> 0x80 then uleb128_loop (ucast b AND 0x7f) 0 bs else Inr (bs, ucast b))
            (\<lambda>(bs, v). Inr (ls\<lparr>ls_in := bs\<rparr>, v)))"

definition bcread_uleb128_33 :: "u32 rd" where
  "bcread_uleb128_33 ls =
     (case ls_in ls of
        [] \<Rightarrow> Inl OOB
      | b # bs \<Rightarrow>
          (let v = drop_bit 1 (ucast b) :: u32 in
           rbind (if v \<ge> 0x40 then uleb128_loop (v AND 0x3f) (- 1) bs else Inr (bs, v))
             (\<lambda>(bs, v). Inr (ls\<lparr>ls_in := bs\<rparr>, v))))"

subsection \<open>Debug information\<close>

fun swap16 :: "nat \<Rightarrow> byte list \<Rightarrow> byte list res" where
  "swap16 0 p = Inr p"
| "swap16 (Suc n) (a # b # p) = rbind (swap16 n p) (\<lambda>p. Inr (b # a # p))"
| "swap16 (Suc n) p = Inl OOB"

fun swap32 :: "nat \<Rightarrow> byte list \<Rightarrow> byte list res" where
  "swap32 0 p = Inr p"
| "swap32 (Suc n) (a # b # c # d # p) = rbind (swap32 n p) (\<lambda>p. Inr (d # c # b # a # p))"
| "swap32 (Suc n) p = Inl OOB"

definition bcread_dbg :: "nat \<Rightarrow> u32 \<Rightarrow> nat \<Rightarrow> byte list rd" where
  "bcread_dbg sizebc numline sizedbg =
     rd_bind (bcread_block sizedbg) (\<lambda>p ls.
       let n = sizebc - 1; nl = sint numline in
       rbind (if bcread_swap ls \<and> nl \<ge> 256
              then (if nl < 65536 then swap16 n p else swap32 n p) else Inr p)
         (\<lambda>p. Inr (ls, p)))"

text \<open>The loop \<open>if (n) while (*p++ || --n) ;\<close> skips \<open>n\<close> zero-terminated names.\<close>

fun skip_names :: "byte list \<Rightarrow> nat \<Rightarrow> nat \<Rightarrow> nat res" where
  "skip_names p 0 i = Inr i"
| "skip_names [] (Suc n) i = Inl OOB"
| "skip_names (b # p) (Suc n) i =
     (if b \<noteq> 0 then skip_names p (Suc n) (i + 1) else skip_names p n (i + 1))"

definition bcread_varinfo :: "byte list \<Rightarrow> nat \<Rightarrow> nat \<Rightarrow> nat res" where
  "bcread_varinfo dbg uvofs sizeuv = skip_names (drop uvofs dbg) sizeuv uvofs"

subsection \<open>Constants\<close>

definition rd_str :: "nat \<Rightarrow> byte list rd" where
  "rd_str len = rd_bind (bcread_mem len) (\<lambda>p ls.
     if len \<ge> LJ_MAX_STR then Inl ERR_STROV else Inr (ls, p))"

definition bcread_ktabk :: "tval rd" where
  "bcread_ktabk =
     rd_bind bcread_uleb128 (\<lambda>tp.
       if tp \<ge> BCDUMP_KTAB_STR then
         rd_bind (rd_str (unat (tp - BCDUMP_KTAB_STR))) (\<lambda>s. rd_ret (TStr s))
       else if tp = BCDUMP_KTAB_INT then
         rd_bind bcread_uleb128 (\<lambda>v. rd_ret (TNum (num_of_int (sint v))))
       else if tp = BCDUMP_KTAB_NUM then
         rd_bind bcread_uleb128 (\<lambda>lo. rd_bind bcread_uleb128 (\<lambda>hi. rd_ret (TNum (join32 lo hi))))
       else rd_ret (if tp = BCDUMP_KTAB_NIL then TNil
                    else if tp = BCDUMP_KTAB_FALSE then TFalse else TTrue))"

fun rd_array :: "nat \<Rightarrow> tval list rd" where
  "rd_array 0 = rd_ret []"
| "rd_array (Suc n) = rd_bind bcread_ktabk (\<lambda>v. rd_bind (rd_array n) (\<lambda>vs. rd_ret (v # vs)))"

text \<open>The slot for the key is made before the value is read.\<close>

fun rd_hash :: "nat \<Rightarrow> gctab \<Rightarrow> gctab rd" where
  "rd_hash 0 t = rd_ret t"
| "rd_hash (Suc n) t =
     rd_bind bcread_ktabk (\<lambda>key ls.
       rbind (lj_tab_set t key) (\<lambda>(t, s).
         rd_bind bcread_ktabk (\<lambda>v. rd_hash n (slot_put t s v)) ls))"

definition bcread_ktab :: "byte \<Rightarrow> gctab rd" where
  "bcread_ktab white =
     rd_bind bcread_uleb128 (\<lambda>narray. rd_bind bcread_uleb128 (\<lambda>nhash ls.
       rbind (lj_tab_new white (unat narray) (hsize2hbits (unat nhash))) (\<lambda>t.
         rd_bind (rd_array (unat narray)) (\<lambda>vs. rd_hash (unat nhash) (t\<lparr>tb_array := vs\<rparr>)) ls)))"

definition rd_w64 :: "u64 rd" where
  "rd_w64 = rd_bind bcread_uleb128 (\<lambda>lo. rd_bind bcread_uleb128 (\<lambda>hi. rd_ret (join32 lo hi)))"

definition rd_child :: "kgc rd" where
  "rd_child ls = (case ls_stack ls of
     [] \<Rightarrow> Inl ERR_BCBAD | p # ps \<Rightarrow> Inr (ls\<lparr>ls_stack := ps\<rparr>, KChild p))"

definition bcread_kgc1 :: "byte \<Rightarrow> kgc rd" where
  "bcread_kgc1 white =
     rd_bind bcread_uleb128 (\<lambda>tp.
       if tp \<ge> BCDUMP_KGC_STR then
         rd_bind (rd_str (unat (tp - BCDUMP_KGC_STR))) (\<lambda>s. rd_ret (KStr s))
       else if tp = BCDUMP_KGC_TAB then
         rd_bind (bcread_ktab white) (\<lambda>t. rd_ret (KTab t))
       else if tp \<noteq> BCDUMP_KGC_CHILD then
         rd_bind rd_w64 (\<lambda>a.
           if tp = BCDUMP_KGC_COMPLEX then rd_bind rd_w64 (\<lambda>b. rd_ret (KComplex a b))
           else if tp = BCDUMP_KGC_I64 then rd_ret (KI64 a) else rd_ret (KU64 a))
       else rd_child)"

fun bcread_kgc :: "byte \<Rightarrow> nat \<Rightarrow> kgc list rd" where
  "bcread_kgc white 0 = rd_ret []"
| "bcread_kgc white (Suc n) =
     rd_bind (bcread_kgc1 white) (\<lambda>k. rd_bind (bcread_kgc white n) (\<lambda>ks. rd_ret (k # ks)))"

definition bcread_knum1 :: "u64 rd" where
  "bcread_knum1 ls =
     (case ls_in ls of
        [] \<Rightarrow> Inl OOB
      | b # bs \<Rightarrow>
          rd_bind bcread_uleb128_33 (\<lambda>lo.
            if b AND 1 \<noteq> 0 then rd_bind bcread_uleb128 (\<lambda>hi. rd_ret (join32 lo hi))
            else rd_ret (num_of_int (sint lo))) ls)"

fun bcread_knum :: "nat \<Rightarrow> u64 list rd" where
  "bcread_knum 0 = rd_ret []"
| "bcread_knum (Suc n) =
     rd_bind bcread_knum1 (\<lambda>w. rd_bind (bcread_knum n) (\<lambda>ws. rd_ret (w # ws)))"

subsection \<open>Bytecode and upvalue references\<close>

fun words_le :: "byte list \<Rightarrow> u32 list" where
  "words_le (a # b # c # d # p) = le32 a b c d # words_le p"
| "words_le p = []"

fun halves_le :: "byte list \<Rightarrow> u16 list" where
  "halves_le (a # b # p) = (ucast a OR push_bit 8 (ucast b)) # halves_le p"
| "halves_le p = []"

definition bcread_bytecode :: "byte \<Rightarrow> byte \<Rightarrow> nat \<Rightarrow> u32 list rd" where
  "bcread_bytecode flags framesize sizebc =
     rd_bind (bcread_block ((sizebc - 1) * 4)) (\<lambda>p ls.
       let bc = words_le p;
           bc0 = BCINS_AD (if flags AND PROTO_VARARG \<noteq> 0 then of_nat BC_FUNCV else of_nat BC_FUNCF)
                   (ucast framesize) 0
       in Inr (ls, bc0 # (if bcread_swap ls then map lj_bswap bc else bc)))"

definition bcread_uv :: "nat \<Rightarrow> u16 list rd" where
  "bcread_uv sizeuv =
     (if sizeuv \<noteq> 0 then
        rd_bind (bcread_block (sizeuv * 2)) (\<lambda>p ls.
          let uv = halves_le p in
          Inr (ls, if bcread_swap ls then map (\<lambda>u. drop_bit 8 u OR push_bit 8 u) uv else uv))
      else rd_ret [])"

subsection \<open>Prototypes\<close>

definition sizeof_GCproto :: nat where "sizeof_GCproto = 64"

text \<open>
  The size of the prototype with all its arrays.  The code computes it modulo \<open>2 ^ 32\<close>; a
  larger true size makes the arrays exceed the block.
\<close>

definition bcread_sizept :: "nat \<Rightarrow> nat \<Rightarrow> nat \<Rightarrow> nat \<Rightarrow> nat \<Rightarrow> nat" where
  "bcread_sizept sizebc sizekgc sizekn sizeuv sizedbg =
     (let sizept = sizeof_GCproto + sizebc * 4 + sizekgc * 4;
          sizept = (sizept + 7) div 8 * 8;
          sizept = sizept + sizekn * 8;
          sizept = sizept + (sizeuv + 1) div 2 * 2 * 2
      in sizept + sizedbg)"

definition rd_proto_head :: "(byte \<times> byte \<times> byte \<times> byte \<times> nat \<times> nat \<times> nat \<times> nat \<times> u32 \<times> u32) rd" where
  "rd_proto_head =
     rd_bind bcread_byte (\<lambda>flags. rd_bind bcread_byte (\<lambda>numparams.
     rd_bind bcread_byte (\<lambda>framesize. rd_bind bcread_byte (\<lambda>sizeuv.
     rd_bind bcread_uleb128 (\<lambda>sizekgc. rd_bind bcread_uleb128 (\<lambda>sizekn.
     rd_bind bcread_uleb128 (\<lambda>sizebc ls.
       if ls_flags ls AND BCDUMP_F_STRIP \<noteq> 0
       then rd_ret (flags, numparams, framesize, sizeuv, unat sizekgc, unat sizekn,
                    unat sizebc + 1, 0, 0, 0) ls
       else rd_bind bcread_uleb128 (\<lambda>sizedbg.
              if sizedbg = 0
              then rd_ret (flags, numparams, framesize, sizeuv, unat sizekgc, unat sizekn,
                           unat sizebc + 1, 0, 0, 0)
              else rd_bind bcread_uleb128 (\<lambda>firstline. rd_bind bcread_uleb128 (\<lambda>numline.
                     rd_ret (flags, numparams, framesize, sizeuv, unat sizekgc, unat sizekn,
                             unat sizebc + 1, unat sizedbg, firstline, numline)))) ls)))))))"

definition rd_dbg :: "nat \<Rightarrow> nat \<Rightarrow> u32 \<Rightarrow> nat \<Rightarrow> dbginfo option rd" where
  "rd_dbg sizebc sizeuv numline sizedbg =
     (if sizedbg = 0 then rd_ret None else
        (let nl = sint numline;
             sizeli = (sizebc - 1) * 2 ^ (if nl < 256 then 0 else if nl < 65536 then 1 else 2)
         in rd_bind (bcread_dbg sizebc numline sizedbg) (\<lambda>p ls.
              rbind (bcread_varinfo p sizeli sizeuv) (\<lambda>v. Inr (ls, Some (Dbg p sizeli v))))))"

definition rd_proto_body :: "byte \<Rightarrow> proto rd" where
  "rd_proto_body white =
     rd_bind rd_proto_head (\<lambda>(flags, numparams, framesize, sizeuv, sizekgc, sizekn, sizebc,
                               sizedbg, firstline, numline).
       if bcread_sizept sizebc sizekgc sizekn (unat sizeuv) sizedbg \<ge> 2 ^ 32 then (\<lambda>ls. Inl OOB)
       else
         rd_bind (bcread_bytecode flags framesize sizebc) (\<lambda>bc.
         rd_bind (bcread_uv (unat sizeuv)) (\<lambda>uv.
         rd_bind (bcread_kgc white sizekgc) (\<lambda>kgc.
         rd_bind (bcread_knum sizekn) (\<lambda>kn.
         rd_bind (rd_dbg sizebc (unat sizeuv) numline sizedbg) (\<lambda>dbg ls.
           Inr (ls, Proto flags numparams framesize bc uv kgc kn 0 (ls_chunkname ls)
                      firstline numline dbg)))))))"

definition bcread_proto :: "byte \<Rightarrow> proto option rd" where
  "bcread_proto white ls =
     (if ls_n ls > 0 \<and> hd (ls_in ls) = 0 then Inr (ls\<lparr>ls_in := tl (ls_in ls)\<rparr>, None)
      else
        rbind (bcread_want ls 5) (\<lambda>ls.
          rd_bind bcread_uleb128 (\<lambda>len ls.
            if len = 0 then Inr (ls, None)
            else
              rbind (bcread_need ls (unat len)) (\<lambda>ls.
                let startn = ls_n ls in
                rd_bind (rd_proto_body white) (\<lambda>pt ls.
                  if unat len \<noteq> startn - ls_n ls then Inl ERR_BCBAD
                  else Inr (ls, Some pt)) ls)) ls))"

subsection \<open>The whole dump\<close>

text \<open>Loading the FFI library on demand does not touch the reader state.\<close>

definition bcread_header :: "bool rd" where
  "bcread_header ls =
     rbind (bcread_want ls (3 + 5 + 5)) (\<lambda>ls.
       rd_bind bcread_byte (\<lambda>b.
         if b \<noteq> BCDUMP_HEAD2 then rd_ret False else
       rd_bind bcread_byte (\<lambda>b.
         if b \<noteq> BCDUMP_HEAD3 then rd_ret False else
       rd_bind bcread_byte (\<lambda>b.
         if b \<noteq> BCDUMP_VERSION then rd_ret False else
       rd_bind bcread_uleb128 (\<lambda>flags ls.
         let ls = ls\<lparr>ls_flags := flags\<rparr> in
         if flags AND NOT BCDUMP_F_KNOWN \<noteq> 0 then Inr (ls, False)
         else if flags AND BCDUMP_F_STRIP \<noteq> 0 then
           (if length (ls_chunkarg ls) \<ge> LJ_MAX_STR then Inl ERR_STROV
            else Inr (ls\<lparr>ls_chunkname := ls_chunkarg ls\<rparr>, True))
         else rd_bind bcread_uleb128 (\<lambda>len ls.
           rbind (bcread_need ls (unat len)) (\<lambda>ls.
             rd_bind (rd_str (unat len)) (\<lambda>s ls.
               Inr (ls\<lparr>ls_chunkname := s\<rparr>, True)) ls)) ls)))) ls)"

text \<open>All input that is left; every prototype takes at least one byte of it.\<close>

definition ls_total :: "lexst \<Rightarrow> nat" where
  "ls_total ls = length (ls_in ls) + length (concat (ls_src ls))"

fun bcread_protos :: "byte \<Rightarrow> nat \<Rightarrow> lexst \<Rightarrow> lexst res" where
  "bcread_protos white 0 ls = Inl DIVERGE"
| "bcread_protos white (Suc f) ls =
     rbind (bcread_proto white ls) (\<lambda>(ls, r).
       case r of
         None \<Rightarrow> Inr ls
       | Some pt \<Rightarrow> bcread_protos white f (ls\<lparr>ls_stack := pt # ls_stack ls\<rparr>))"

definition lj_bcread :: "byte \<Rightarrow> lexst \<Rightarrow> (lexst \<times> proto) res" where
  "lj_bcread white ls =
     rbind (bcread_header (ls\<lparr>ls_sbn := 0, ls_stack := []\<rparr>)) (\<lambda>(ls, ok).
       if \<not> ok then Inl ERR_BCFMT
       else
         rbind (bcread_protos white (Suc (ls_total ls)) ls) (\<lambda>ls.
           if ls_n ls > 0 then Inl ERR_BCBAD
           else case ls_stack ls of
                  [pt] \<Rightarrow> Inr (ls\<lparr>ls_stack := []\<rparr>, pt)
                | _ \<Rightarrow> Inl ERR_BCBAD))"

end
