(* ===== verification/LJ_BcDec.thy ===== *)
theory LJ_BcDec
  imports LJ_BcEmit LJ_BcRead
begin

text \<open>
  Reading back what the writer encodes.  \<open>reads fl f bs x\<close>: with the flags \<open>fl\<close>, on input that
  starts with \<open>bs\<close> the reader function \<open>f\<close> consumes exactly \<open>bs\<close>, whatever follows, and returns
  \<open>x\<close>.  The locale \<open>codec\<close> is the round-trip law of one kind of element; sequences follow.
\<close>

definition reads :: "u32 \<Rightarrow> 'a rd \<Rightarrow> byte list \<Rightarrow> 'a \<Rightarrow> bool" where
  "reads fl f bs x \<longleftrightarrow> (\<forall>ls rest. ls_flags ls = fl \<longrightarrow> ls_in ls = bs @ rest \<longrightarrow>
     f ls = Inr (ls\<lparr>ls_in := rest\<rparr>, x))"

lemma readsI:
  "(\<And>ls rest. ls_flags ls = fl \<Longrightarrow> ls_in ls = bs @ rest \<Longrightarrow> f ls = Inr (ls\<lparr>ls_in := rest\<rparr>, x)) \<Longrightarrow>
   reads fl f bs x"
  by (simp add: reads_def)

lemma readsD:
  "reads fl f bs x \<Longrightarrow> ls_flags ls = fl \<Longrightarrow> ls_in ls = bs @ rest \<Longrightarrow> f ls = Inr (ls\<lparr>ls_in := rest\<rparr>, x)"
  by (simp add: reads_def)

lemma reads_ret [simp]: "reads fl (rd_ret x) [] x"
  by (simp add: reads_def rd_ret_def)

lemma reads_bind:
  assumes "reads fl f bs x" "reads fl (g x) cs y"
  shows "reads fl (rd_bind f g) (bs @ cs) y"
proof (rule readsI)
  fix ls :: lexst and rest assume a: "ls_flags ls = fl" "ls_in ls = (bs @ cs) @ rest"
  then have "f ls = Inr (ls\<lparr>ls_in := cs @ rest\<rparr>, x)" by (intro readsD [OF assms(1)]) simp_all
  moreover have "g x (ls\<lparr>ls_in := cs @ rest\<rparr>) = Inr (ls\<lparr>ls_in := rest\<rparr>, y)"
    using readsD [OF assms(2), of "ls\<lparr>ls_in := cs @ rest\<rparr>" rest] a(1) by simp
  ultimately show "rd_bind f g ls = Inr (ls\<lparr>ls_in := rest\<rparr>, y)" by (simp add: rd_bind_def)
qed

lemma reads_map:
  assumes "reads fl f bs x"
  shows "reads fl (rd_bind f (\<lambda>x. rd_ret (h x))) bs (h x)"
  using reads_bind [OF assms, of "\<lambda>x. rd_ret (h x)" "[]"] by simp

fun rd_rep :: "nat \<Rightarrow> 'a rd \<Rightarrow> 'a list rd" where
  "rd_rep 0 f = rd_ret []"
| "rd_rep (Suc n) f = rd_bind f (\<lambda>x. rd_bind (rd_rep n f) (\<lambda>xs. rd_ret (x # xs)))"

lemma rd_rep_array: "rd_array n = rd_rep n bcread_ktabk"
  by (induction n) simp_all

lemma rd_rep_knum: "bcread_knum n = rd_rep n bcread_knum1"
  by (induction n) simp_all

locale codec =
  fixes enc :: "'a \<Rightarrow> byte list" and dec :: "'a rd" and good :: "'a \<Rightarrow> bool"
  assumes dec_enc: "good x \<Longrightarrow> reads fl dec (enc x) x"
begin

lemma reads_list:
  "\<forall>x \<in> set xs. good x \<Longrightarrow> reads fl (rd_rep (length xs) dec) (concat (map enc xs)) xs"
proof (induction xs)
  case (Cons x xs)
  have "reads fl (rd_bind (rd_rep (length xs) dec) (\<lambda>xs. rd_ret (x # xs))) (concat (map enc xs)) (x # xs)"
    using Cons by (intro reads_map) simp
  from reads_bind [of fl dec "enc x" x "\<lambda>x. rd_bind (rd_rep (length xs) dec) (\<lambda>xs. rd_ret (x # xs))", OF dec_enc this]
  show ?case using Cons.prems by simp
qed simp

text \<open>No encoding is a proper prefix of another: the format is self-delimiting.\<close>

lemma prefix_free:
  assumes "good x" "good y" "enc x @ bs = enc y @ cs"
  shows "x = y" "bs = cs"
proof -
  let ?ls = "\<lparr>ls_in = enc x @ bs, ls_sbn = 0, ls_sbsz = 0, ls_current = 0, ls_src = [], ls_flags = 0,
    ls_chunkname = [], ls_chunkarg = [], ls_stack = []\<rparr>"
  have "dec ?ls = Inr (?ls\<lparr>ls_in := bs\<rparr>, x)" by (rule readsD [OF dec_enc [OF assms(1)]]) simp_all
  moreover have "dec ?ls = Inr (?ls\<lparr>ls_in := cs\<rparr>, y)"
    by (rule readsD [OF dec_enc [OF assms(2)]]) (simp_all add: assms(3))
  ultimately show "x = y" "bs = cs" by simp_all
qed

end

subsection \<open>ULEB128\<close>

lemma byte_nat: "n < 256 \<Longrightarrow> unat (of_nat n :: byte) = n"
  by (rule of_nat_inverse [OF refl]) simp

lemma byte_cont: "0x80 \<le> (b :: byte) \<longleftrightarrow> 128 \<le> unat b"
  by (simp add: word_le_nat_alt)

lemma enc_nat_small:
  assumes "n < 128"
  obtains b where "enc_nat n = [b]" "unat b = n" "\<not> 0x80 \<le> b"
  using that [of "of_nat n"] assms byte_nat [of n]
  by (simp only: byte_cont enc_nat.simps [of n] if_True)

lemma enc_nat_big:
  assumes "\<not> n < 128"
  obtains b where "enc_nat n = b # enc_nat (n div 128)" "unat b = n mod 128 + 128" "0x80 \<le> b"
proof (rule that)
  have u: "unat (of_nat (n mod 128 + 128) :: byte) = n mod 128 + 128" by (rule byte_nat) simp
  then show "unat (of_nat (n mod 128 + 128) :: byte) = n mod 128 + 128" .
  show "0x80 \<le> (of_nat (n mod 128 + 128) :: byte)" unfolding byte_cont u by simp
  show "enc_nat n = of_nat (n mod 128 + 128) # enc_nat (n div 128)"
    using assms by (simp only: enc_nat.simps [of n] if_False)
qed

lemma uleb128_loop_enc:
  assumes "unat v < 2 ^ nat (sh + 7)" "- 7 \<le> sh" "0 < m" "unat v + m * 2 ^ nat (sh + 7) < 2 ^ 32"
  shows "uleb128_loop v sh (enc_nat m @ rest) = Inr (rest, of_nat (unat v + m * 2 ^ nat (sh + 7)))"
  using assms
proof (induction m arbitrary: v sh rule: enc_nat.induct)
  case (1 m)
  let ?k = "nat (sh + 7)"
  have "2 ^ ?k \<le> m * 2 ^ ?k" using "1.prems"(3) by simp
  then have "(2 :: nat) ^ ?k < 2 ^ 32" using "1.prems"(4) by linarith
  then have "?k < 32" by (rule power_less_imp_less_exp [rotated]) simp
  then have sh: "sh + 7 < 32" by linarith
  have step: "unat (v OR push_bit ?k (ucast (b AND 0x7f))) = unat v + unat b mod 128 * 2 ^ ?k"
    if "unat b mod 128 \<le> m" for b :: byte
  proof -
    have u: "unat (ucast (b AND 0x7f) :: u32) = unat b mod 128"
      using unat_and_7f [of b] by (simp add: unsigned_ucast_eq take_bit_nat_eq_self)
    have "unat b mod 128 * 2 ^ ?k \<le> m * 2 ^ ?k" by (rule mult_right_mono [OF that]) simp
    then have "unat v + unat b mod 128 * 2 ^ ?k < 2 ^ 32" using "1.prems"(4) by linarith
    then have "unat v + 2 ^ ?k * (unat b mod 128) < 2 ^ 32" by (simp only: mult.commute)
    then show ?thesis using unat_or_push [of v ?k "ucast (b AND 0x7f)"] "1.prems"(1) u
      by (simp add: mult.commute)
  qed
  show ?case
  proof (cases "m < 128")
    case True
    then obtain b where e: "enc_nat m = [b]" and b: "unat b = m" "\<not> 0x80 \<le> b" by (rule enc_nat_small)
    have "unat (v OR push_bit ?k (ucast (b AND 0x7f))) = unat v + m * 2 ^ ?k"
      using step [of b] b(1) True by simp
    then have "v OR push_bit ?k (ucast (b AND 0x7f)) = of_nat (unat v + m * 2 ^ ?k)"
      by (metis of_nat_unat ucast_id)
    then show ?thesis using sh b(2) by (simp add: e Let_def)
  next
    case False
    then obtain b where e: "enc_nat m = b # enc_nat (m div 128)"
      and b: "unat b = m mod 128 + 128" "0x80 \<le> b" by (rule enc_nat_big)
    let ?v = "v OR push_bit ?k (ucast (b AND 0x7f))"
    have v: "unat ?v = unat v + m mod 128 * 2 ^ ?k"
      using step [of b] b(1) False by simp
    have k7: "nat (sh + 7 + 7) = ?k + 7" using "1.prems"(2) by simp
    have "m mod 128 * 2 ^ ?k \<le> 127 * 2 ^ ?k" by (rule mult_right_mono) simp_all
    then have "unat ?v < 2 ^ ?k + 127 * 2 ^ ?k" using v "1.prems"(1) by linarith
    then have p1: "unat ?v < 2 ^ nat (sh + 7 + 7)" unfolding k7 by (simp add: power_add)
    have "m div 128 * 2 ^ (?k + 7) = m div 128 * 128 * 2 ^ ?k" by (simp add: power_add)
    moreover have "(m mod 128 + m div 128 * 128) * 2 ^ ?k = m * 2 ^ ?k" by (simp only: mod_div_mult_eq)
    ultimately have t: "unat ?v + m div 128 * 2 ^ nat (sh + 7 + 7) = unat v + m * 2 ^ ?k"
      unfolding v k7 by (simp only: add_mult_distrib add.assoc)
    have "uleb128_loop ?v (sh + 7) (enc_nat (m div 128) @ rest) =
        Inr (rest, of_nat (unat ?v + m div 128 * 2 ^ nat (sh + 7 + 7)))"
      by (rule "1.IH") (use False p1 "1.prems" t in \<open>simp_all add: div_greater_zero_iff\<close>)
    note this [unfolded t]
    then show ?thesis using sh b(2) by (simp add: e Let_def)
  qed
qed


lemma reads_u: "reads fl bcread_uleb128 (enc_u v) v"
proof (rule readsI)
  fix ls :: lexst and rest assume i: "ls_in ls = enc_u v @ rest"
  let ?n = "unat v"
  show "bcread_uleb128 ls = Inr (ls\<lparr>ls_in := rest\<rparr>, v)"
  proof (cases "?n < 128")
    case True
    then obtain b where e: "enc_nat ?n = [b]" and b: "unat b = ?n" "\<not> 0x80 \<le> b" by (rule enc_nat_small)
    have "(ucast b :: u32) = v" by (rule word_unat_eq_iff [THEN iffD2])
      (use b(1) True in \<open>simp add: unsigned_ucast_eq take_bit_nat_eq_self\<close>)
    then show ?thesis using i b(2) by (simp add: bcread_uleb128_def enc_u_def e)
  next
    case False
    then obtain b where e: "enc_nat ?n = b # enc_nat (?n div 128)"
      and b: "unat b = ?n mod 128 + 128" "0x80 \<le> b" by (rule enc_nat_big)
    let ?v = "ucast b AND 0x7f :: u32"
    have v: "unat ?v = ?n mod 128"
      using b(1) by (simp add: unat_and_7f unsigned_ucast_eq take_bit_nat_eq_self)
    have t: "unat ?v + ?n div 128 * 2 ^ nat (0 + 7) = ?n" unfolding v by simp
    have "uleb128_loop ?v 0 (enc_nat (?n div 128) @ rest)
        = Inr (rest, of_nat (unat ?v + ?n div 128 * 2 ^ nat (0 + 7)))"
      by (rule uleb128_loop_enc) (use v False t unat_lt32 [of v] in \<open>simp_all add: div_greater_zero_iff\<close>)
    then show ?thesis using i b(2) unfolding t by (simp add: bcread_uleb128_def enc_u_def e)
  qed
qed

text \<open>The 33-bit form: the flag bit is read from the first byte, the value from the rest.\<close>

lemma enc33_cons:
  assumes "f \<in> {0, 1}"
  obtains b bs where "enc33 f u = b # bs" "b AND 1 \<noteq> 0 \<longleftrightarrow> f = 1"
    "\<And>rest. (let v = drop_bit 1 (ucast b) :: u32 in
       if v \<ge> 0x40 then uleb128_loop (v AND 0x3f) (- 1) (bs @ rest) else Inr (bs @ rest, v)) = Inr (rest, u)"
proof -
  define n where "n = 2 * unat u + unat f"
  have f: "unat f \<le> 1" "unat f = 1 \<longleftrightarrow> f = 1" using assms by auto
  have odd: "odd n \<longleftrightarrow> f = 1" using assms by (auto simp: n_def)
  have n2: "n div 2 = unat u" using f(1) by (simp add: n_def)
  have b1: "b AND 1 \<noteq> 0 \<longleftrightarrow> odd (unat b)" for b :: byte
    by (simp add: and_one_eq odd_iff_mod_2_eq_one word_unat_eq_iff unat_mod)
  show ?thesis
  proof (cases "n < 128")
    case True
    then obtain b where e: "enc_nat n = [b]" and b: "unat b = n" "\<not> 0x80 \<le> b" by (rule enc_nat_small)
    have v: "unat (drop_bit 1 (ucast b) :: u32) = unat u"
      using b True n2 by (simp add: unat_drop_bit_eq drop_bit_eq_div [where ?'a = nat] unsigned_ucast_eq take_bit_nat_eq_self)
    then have v': "(drop_bit 1 (ucast b) :: u32) = u" by (simp only: word_unat_eq_iff)
    have "\<not> u \<ge> 0x40" using True n2 by (auto simp: word_le_nat_alt)
    then show ?thesis
      using that [of b "[]"] e b(1) odd b1 [of b] v' by (simp add: enc33_def n_def [symmetric])
  next
    case False
    then obtain b where e: "enc_nat n = b # enc_nat (n div 128)"
      and b: "unat b = n mod 128 + 128" "0x80 \<le> b" by (rule enc_nat_big)
    let ?v = "drop_bit 1 (ucast b) :: u32"
    have v: "unat ?v = n mod 128 div 2 + 64"
      using b by (simp add: unat_drop_bit_eq drop_bit_eq_div [where ?'a = nat] unsigned_ucast_eq take_bit_nat_eq_self)
    have m: "n mod 128 div 2 = unat u mod 64" "n div 128 = unat u div 64"
      unfolding n2 [symmetric] by (simp_all add: mod_mult2_eq [of n 2 64, simplified] div_mult2_eq [of n 2 64, simplified])
    have v3: "unat (?v AND 0x3f) = unat u mod 64"
      using unat_and_mask [of ?v 6] v m(1) by simp
    have t: "unat (?v AND 0x3f) + n div 128 * 2 ^ nat (- 1 + 7) = unat u" unfolding v3 m by simp
    have "uleb128_loop (?v AND 0x3f) (- 1) (enc_nat (n div 128) @ rest) =
        Inr (rest, of_nat (unat (?v AND 0x3f) + n div 128 * 2 ^ nat (- 1 + 7)))" for rest
      by (rule uleb128_loop_enc) (use v3 False t unat_lt32 [of u] in \<open>simp_all add: div_greater_zero_iff\<close>)
    moreover have "?v \<ge> 0x40" using v by (simp add: word_le_nat_alt)
    moreover have "odd (unat b) \<longleftrightarrow> odd n" unfolding b(1) by (simp add: even_mod_2_iff mod_mod_cancel odd_iff_mod_2_eq_one)
    ultimately show ?thesis
      using that [of b "enc_nat (n div 128)"] e odd b1 [of b] unfolding t
      by (simp add: enc33_def n_def [symmetric])
  qed
qed


interpretation u32c: codec enc_u bcread_uleb128 "\<lambda>_. True"
  by unfold_locales (rule reads_u)

lemma join_lo_hi: "join32 (lo32 w) (hi32 w) = w"
  unfolding join32_def lo32_def hi32_def
  by (rule bit_word_eqI)
    (auto simp: bit_or_iff bit_push_bit_iff bit_ucast_iff bit_drop_bit_eq dest: bit_imp_le_length)

lemma reads_w64: "reads fl rd_w64 (enc_w64 w) w"
  unfolding rd_w64_def enc_w64_def
  by (rule reads_bind [OF reads_u])
    (use reads_map [OF reads_u, where fl = fl and h = "\<lambda>hi. join32 (lo32 w) hi"] in \<open>metis join_lo_hi\<close>)

interpretation w64c: codec enc_w64 rd_w64 "\<lambda>_. True"
  by unfold_locales (rule reads_w64)

subsection \<open>Number constants\<close>

definition plain_num :: "u64 \<Rightarrow> bool" where "plain_num w \<longleftrightarrow> w \<noteq> num_mzero"

lemma sint_u32_of_int: "int32 k \<Longrightarrow> sint (u32_of_int k) = k"
  by (simp add: u32_of_int_def int32_def sint_sbintrunc' signed_take_bit_int_eq_self)

lemma narrowed: "num_toint w = Some k \<Longrightarrow> plain_num w \<Longrightarrow> num_of_int (sint (u32_of_int k)) = w"
  using num_toint_Some [of w k] sint_u32_of_int [of k] by (auto simp: plain_num_def)

lemma knum1_eq:
  assumes "ls_in ls = enc33 f u @ rest" "f \<in> {0, 1}"
  shows "bcread_knum1 ls =
    (if f = 1 then rd_bind bcread_uleb128 (\<lambda>hi. rd_ret (join32 u hi)) (ls\<lparr>ls_in := rest\<rparr>)
     else Inr (ls\<lparr>ls_in := rest\<rparr>, num_of_int (sint u)))"
proof -
  obtain b bs where b: "enc33 f u = b # bs" "b AND 1 \<noteq> 0 \<longleftrightarrow> f = 1"
    "\<And>rest. (let v = drop_bit 1 (ucast b) :: u32 in
       if v \<ge> 0x40 then uleb128_loop (v AND 0x3f) (- 1) (bs @ rest) else Inr (bs @ rest, v)) = Inr (rest, u)"
    using enc33_cons [OF assms(2)] by metis
  have "bcread_uleb128_33 ls = Inr (ls\<lparr>ls_in := rest\<rparr>, u)"
    using b(3) [of rest] assms(1) b(1) unfolding bcread_uleb128_33_def Let_def by simp
  then show ?thesis using b(2) assms(1) b(1) unfolding bcread_knum1_def rd_bind_def
    by (simp add: rd_ret_def)
qed

lemma reads_knum:
  assumes "plain_num w"
  shows "reads fl bcread_knum1 (enc_knum w) w"
proof (rule readsI)
  fix ls :: lexst and rest assume a: "ls_flags ls = fl" "ls_in ls = enc_knum w @ rest"
  show "bcread_knum1 ls = Inr (ls\<lparr>ls_in := rest\<rparr>, w)"
  proof (cases "num_toint w")
    case (Some k)
    then show ?thesis using knum1_eq [of ls 0 "u32_of_int k" rest] a(2) narrowed [OF Some assms]
      by (simp add: enc_knum_def)
  next
    case None
    let ?ls = "ls\<lparr>ls_in := enc_u (hi32 w) @ rest\<rparr>"
    have "bcread_knum1 ls = rd_bind bcread_uleb128 (\<lambda>hi. rd_ret (join32 (lo32 w) hi)) ?ls"
      using knum1_eq [of ls 1 "lo32 w" "enc_u (hi32 w) @ rest"] a(2) None by (simp add: enc_knum_def)
    also have "\<dots> = Inr (?ls\<lparr>ls_in := rest\<rparr>, join32 (lo32 w) (hi32 w))"
      by (rule readsD [OF reads_map [OF reads_u, where fl = fl and h = "\<lambda>hi. join32 (lo32 w) hi"]])
        (simp_all add: a(1))
    finally show ?thesis by (simp add: join_lo_hi)
  qed
qed

interpretation knc: codec enc_knum bcread_knum1 plain_num
  by unfold_locales (rule reads_knum)

subsection \<open>Template tables\<close>

definition tmpl_good :: "tval \<Rightarrow> bool" where
  "tmpl_good v \<longleftrightarrow> tmpl_val v \<and> (\<forall>w. v = TNum w \<longrightarrow> plain_num w) \<and>
     (\<forall>s. v = TStr s \<longrightarrow> length s < LJ_MAX_STR)"

lemma reads_str: "length s < LJ_MAX_STR \<Longrightarrow> reads fl (rd_str (length s)) s s"
  by (rule readsI) (simp add: rd_str_def rd_bind_def bcread_mem_def ls_n_def)

lemma unat_tag_len: "n < LJ_MAX_STR \<Longrightarrow> unat (5 + of_nat n :: u32) = 5 + n"
proof -
  assume "n < LJ_MAX_STR"
  then have "unat (of_nat (5 + n) :: u32) = 5 + n" by (intro of_nat_inverse [OF refl]) (simp add: LJ_MAX_STR_def)
  then show ?thesis by simp
qed

lemma tag_len:
  assumes "n < LJ_MAX_STR"
  shows "(5 :: u32) \<le> 5 + of_nat n" "unat (5 + of_nat n - 5 :: u32) = n"
  using unat_tag_len [OF assms] assms
  by (auto simp: word_le_nat_alt LJ_MAX_STR_def unat_of_nat)

lemma reads_ktabk:
  assumes "tmpl_good v"
  shows "reads fl bcread_ktabk (enc_ktabk narrow v) v"
proof -
  have tag: "reads fl bcread_ktabk (ucast t # bs) v"
    if "unat t < 128" "reads fl (if t \<ge> BCDUMP_KTAB_STR then
         rd_bind (rd_str (unat (t - BCDUMP_KTAB_STR))) (\<lambda>s. rd_ret (TStr s))
       else if t = BCDUMP_KTAB_INT then
         rd_bind bcread_uleb128 (\<lambda>v. rd_ret (TNum (num_of_int (sint v))))
       else if t = BCDUMP_KTAB_NUM then
         rd_bind bcread_uleb128 (\<lambda>lo. rd_bind bcread_uleb128 (\<lambda>hi. rd_ret (TNum (join32 lo hi))))
       else rd_ret (if t = BCDUMP_KTAB_NIL then TNil
                    else if t = BCDUMP_KTAB_FALSE then TFalse else TTrue)) bs v" for t bs
  proof -
    have "ucast t # bs = enc_u t @ bs" by (simp add: enc_u_small [OF that(1)])
    then show ?thesis
      unfolding bcread_ktabk_def by (simp only:) (rule reads_bind [OF reads_u], rule that(2))
  qed
  show ?thesis
  proof (cases v)
    case (TStr s)
    then have l: "length s < LJ_MAX_STR" using assms by (simp add: tmpl_good_def)
    note t = tag_len [OF l]
    have "reads fl (rd_bind (rd_str (unat (5 + of_nat (length s) - 5 :: u32))) (\<lambda>s. rd_ret (TStr s))) s (TStr s)"
      unfolding t(2) by (rule reads_map [OF reads_str [OF l]])
    then show ?thesis
      unfolding bcread_ktabk_def TStr enc_ktabk_def tval.case
      using t(1) by (intro reads_bind [OF reads_u]) (simp add: bcdump_ktab_defs)
  next
    case (TNum w)
    then have p: "plain_num w" using assms by (simp add: tmpl_good_def)
    show ?thesis
    proof (cases "if narrow then num_toint w else None")
      case (Some k)
      then have "num_toint w = Some k" by (simp split: if_splits)
      from reads_map [OF reads_u, where h = "\<lambda>v. TNum (num_of_int (sint v))"] narrowed [OF this p]
      have "reads fl (rd_bind bcread_uleb128 (\<lambda>v. rd_ret (TNum (num_of_int (sint v))))) (enc_u (u32_of_int k)) v"
        by (metis TNum)
      then show ?thesis
        unfolding TNum enc_ktabk_def tval.case Some option.case
        by (intro tag [unfolded TNum]) (simp_all add: bcdump_ktab_defs TNum)
    next
      case None
      have "reads fl (rd_bind bcread_uleb128 (\<lambda>lo. rd_bind bcread_uleb128 (\<lambda>hi. rd_ret (TNum (join32 lo hi)))))
          (enc_w64 w) v"
        unfolding enc_w64_def using reads_map [OF reads_u, where h = "\<lambda>hi. TNum (join32 (lo32 w) hi)"]
        by (intro reads_bind [OF reads_u]) (metis TNum join_lo_hi)
      then show ?thesis
        unfolding TNum enc_ktabk_def tval.case None option.case
        by (intro tag [unfolded TNum]) (simp_all add: bcdump_ktab_defs TNum)
    qed
  next
    case TNil
    then show ?thesis using tag [of BCDUMP_KTAB_NIL "[]"]
      by (simp add: enc_ktabk_def bcdump_ktab_defs word_le_nat_alt)
  next
    case TFalse
    then show ?thesis using tag [of BCDUMP_KTAB_FALSE "[]"]
      by (simp add: enc_ktabk_def bcdump_ktab_defs word_le_nat_alt)
  next
    case TTrue
    then show ?thesis using tag [of BCDUMP_KTAB_TRUE "[]"]
      by (simp add: enc_ktabk_def bcdump_ktab_defs word_le_nat_alt)
  qed (use assms in \<open>simp_all add: tmpl_good_def\<close>)
qed

interpretation ktc: codec "enc_ktabk True" bcread_ktabk tmpl_good
  by unfold_locales (rule reads_ktabk)

interpretation kkc: codec "enc_ktabk False" bcread_ktabk tmpl_good
  by unfold_locales (rule reads_ktabk)


definition tab_good :: "gctab \<Rightarrow> bool" where
  "tab_good t \<longleftrightarrow> tab_ok t \<and> tmpl_tab t \<and> (\<forall>v \<in> set (ktab_array t). tmpl_good v) \<and>
     (\<forall>n \<in> set (used_nodes (tb_node t)). tmpl_good (nd_key n) \<and> tmpl_good (nd_val n))"

lemma reads_node_key:
  "tmpl_good (nd_key n) \<Longrightarrow> tmpl_good (nd_val n) \<Longrightarrow>
   ls_in ls = enc_node n @ rest \<Longrightarrow>
   bcread_ktabk ls = Inr (ls\<lparr>ls_in := enc_ktabk True (nd_val n) @ rest\<rparr>, nd_key n)"
  by (rule readsD [OF reads_ktabk]) (simp_all add: enc_node_def)

text \<open>Reading the hash entries is the reinsertion of nodes that resizing a table does.\<close>

lemma rd_hash_reinsert:
  assumes "\<forall>n \<in> set ns. nd_val n \<noteq> TNil \<and> tmpl_good (nd_key n) \<and> tmpl_good (nd_val n)"
    and "reinsert_nodes lj_tab_newkey t ns = Inr t'"
    and "ls_in ls = concat (map enc_node ns) @ rest"
  shows "rd_hash (length ns) t ls = Inr (ls\<lparr>ls_in := rest\<rparr>, t')"
  using assms
proof (induction ns arbitrary: t ls)
  case Nil
  then show ?case by (simp add: rd_ret_def)
next
  case (Cons n ns)
  have g: "tmpl_good (nd_key n)" "tmpl_good (nd_val n)" "nd_val n \<noteq> TNil" using Cons.prems(1) by simp_all
  obtain t1 s where t1: "lj_tab_set t (nd_key n) = Inr (t1, s)"
    "reinsert_nodes lj_tab_newkey (slot_put t1 s (nd_val n)) ns = Inr t'"
    using Cons.prems(2) g(3) by (auto simp: lj_tab_set_def rbind_Inr_iff)
  let ?r = "concat (map enc_node ns) @ rest"
  have k: "bcread_ktabk ls = Inr (ls\<lparr>ls_in := enc_ktabk True (nd_val n) @ ?r\<rparr>, nd_key n)"
    using Cons.prems(3) by (intro reads_node_key g) simp
  have v: "bcread_ktabk (ls\<lparr>ls_in := enc_ktabk True (nd_val n) @ ?r\<rparr>) = Inr (ls\<lparr>ls_in := ?r\<rparr>, nd_val n)"
    using readsD [OF reads_ktabk [OF g(2)], of "ls\<lparr>ls_in := enc_ktabk True (nd_val n) @ ?r\<rparr>" _ True ?r]
    by simp
  have "rd_hash (length ns) (slot_put t1 s (nd_val n)) (ls\<lparr>ls_in := ?r\<rparr>) = Inr (ls\<lparr>ls_in := ?r\<rparr>\<lparr>ls_in := rest\<rparr>, t')"
    using Cons.IH [OF _ t1(2), of "ls\<lparr>ls_in := ?r\<rparr>"] Cons.prems(1) by simp
  then show ?case using k v t1(1) by (simp add: rd_bind_def)
qed

lemma set_used_nodes: "n \<in> set (used_nodes ns) \<longleftrightarrow> n \<in> set ns \<and> nd_val n \<noteq> TNil"
  by (auto simp: used_nodes_def)

lemma nodes_over_used_rev:
  assumes "tab_ok t"
  shows "nodes_over (used_nodes (rev (tb_node t))) f = nodes_over (tb_node t) f"
proof
  fix k
  let ?ns = "tb_node t" and ?us = "used_nodes (rev (tb_node t))"
  have s: "n \<in> set ?us \<longleftrightarrow> n \<in> set ?ns \<and> nd_val n \<noteq> TNil" for n by (simp add: set_used_nodes)
  note K = tab_okD(4) [OF assms]
  have uniq: "m = n" if mn: "m \<in> set ?ns" "n \<in> set ?ns" "nd_val n \<noteq> TNil" "nd_key m = nd_key n" for m n
  proof -
    obtain i j where i: "i < length ?ns" "n = ?ns ! i" and j: "j < length ?ns" "m = ?ns ! j"
      using mn(1,2) by (metis in_set_conv_nth)
    have ki: "ky ?ns i \<noteq> TNil" using keys_okD(1) [OF K i(1)] mn(3) i(2) by simp
    have "ky ?ns i = ky ?ns j" using mn(4) unfolding i(2) j(2) by (rule sym)
    then have "i = j" by (rule keys_okD(3) [OF K i(1) j(1) ki])
    then show ?thesis using i j by simp
  qed
  show "nodes_over ?us f k = nodes_over ?ns f k"
  proof (cases "\<exists>n \<in> set ?ns. nd_val n \<noteq> TNil \<and> nd_key n = norm_key k")
    case True
    then obtain n where n: "n \<in> set ?ns" "nd_val n \<noteq> TNil" "nd_key n = norm_key k" by blast
    have o: "\<forall>m \<in> set ?ns. nd_val m \<noteq> TNil \<longrightarrow> nd_key m = norm_key k \<longrightarrow> nd_val m = nd_val n"
      using uniq [OF _ n(1,2)] n(3) by metis
    then have ou: "\<forall>m \<in> set ?us. nd_val m \<noteq> TNil \<longrightarrow> nd_key m = norm_key k \<longrightarrow> nd_val m = nd_val n"
      using s by blast
    have nu: "n \<in> set ?us" using s n(1,2) by blast
    show ?thesis unfolding nodes_over_some [OF n o] nodes_over_some [OF nu n(2,3) ou] ..
  next
    case False
    then have a: "\<forall>n \<in> set ?ns. nd_val n \<noteq> TNil \<longrightarrow> norm_key k \<noteq> nd_key n" by metis
    then have u: "\<forall>n \<in> set ?us. nd_val n \<noteq> TNil \<longrightarrow> norm_key k \<noteq> nd_key n" using s by blast
    show ?thesis unfolding nodes_over_none [OF a] nodes_over_none [OF u] ..
  qed
qed

lemma last_used_nil:
  "last_used a n \<le> i \<Longrightarrow> i < n \<Longrightarrow> a ! i = TNil"
  by (induction a n rule: last_used.induct) (auto split: if_splits simp: less_Suc_eq)

lemma arr_map_ktab: "arr_map (ktab_array t) = arr_map (tb_array t)"
proof
  fix k
  have "tb_array t ! i = TNil" if "length (ktab_array t) \<le> i" "i < length (tb_array t)" for i
    using last_used_nil that by (simp add: ktab_array_length tb_asize_def)
  moreover have "ktab_array t ! i = tb_array t ! i" if "i < length (ktab_array t)" for i
    using that by (simp add: ktab_array_def)
  moreover have "length (ktab_array t) \<le> length (tb_array t)" by (simp add: ktab_array_def)
  ultimately show "arr_map (ktab_array t) k = arr_map (tb_array t) k"
    unfolding arr_map_def by (cases "key_int k") (auto simp: not_less)
qed

lemma nk_newkey: "nk_ok lj_tab_newkey"
  using nk_ok_newkey_n [of 1] by (simp add: lj_tab_newkey_def numeral_2_eq_2 del: newkey_n.simps)

lemma reads_ktab:
  assumes "tab_good t"
  shows "\<exists>t'. reads fl (bcread_ktab white) (enc_ktab t) t' \<and> tab_ok t' \<and> tab_map t' = tab_map t"
proof -
  define vs us where "vs = ktab_array t" and "us = used_nodes (rev (tb_node t))"
  have ok: "tab_ok t" using assms by (simp add: tab_good_def)
  note D = tab_okD [OF ok]
  have la: "length vs \<le> LJ_MAX_ASIZE"
  proof -
    have "length vs \<le> tb_asize t" by (simp add: vs_def ktab_array_def tb_asize_def)
    then show ?thesis using D(8) by simp
  qed
  have lu: "length us \<le> 2 ^ 26"
  proof -
    have "length us \<le> length (tb_node t)" by (simp add: us_def used_nodes_def le_trans [OF length_filter_le])
    then show ?thesis using D(6) by simp
  qed
  have un: "unat (of_nat (length vs) :: u32) = length vs" "unat (of_nat (length us) :: u32) = length us"
    using la lu by (simp_all add: of_nat_inverse LJ_MAX_ASIZE_def)
  define b where "b = hsize2hbits (length us)"
  have b: "b \<le> LJ_MAX_HBITS" unfolding b_def LJ_MAX_HBITS_def by (rule hsize2hbits_le [OF lu]) simp
  obtain t0' where t0': "newtab white (length vs) b = Inr t0'" using newtab_succeeds [OF la b] by blast
  define t0 where "t0 = (let t = clearapart t0' in if tb_hmask t > 0 then clearhpart t else t)"
  have t0: "lj_tab_new white (length vs) b = Inr t0" by (simp add: lj_tab_new_def t0' t0_def Let_def)
  note C = cleared [OF t0', folded t0_def]
  define t1 where "t1 = t0\<lparr>tb_array := vs\<rparr>"
  have "tb_node t1 = replicate (2 ^ b) nilnode" "tb_freetop t1 = (if b = 0 then 0 else 2 ^ b)"
    "tb_asize t1 \<le> LJ_MAX_ASIZE" using C la by (simp_all add: t1_def tb_asize_def)
  note F = fresh_table [OF this(1) b this(2,3)]
  have key: "nd_val n \<noteq> TNil \<and> kvalid (nd_key n) \<and> tmpl_good (nd_key n) \<and> tmpl_good (nd_val n)"
    if n: "n \<in> set us" for n
  proof -
    have u: "n \<in> set (tb_node t)" "nd_val n \<noteq> TNil" using n by (simp_all add: us_def set_used_nodes)
    then obtain i where i: "i < length (tb_node t)" "tb_node t ! i = n" by (metis in_set_conv_nth)
    then have "ky (tb_node t) i \<noteq> TNil" using keys_okD(1) [OF D(4) i(1)] u(2) by simp
    then have "kvalid (nd_key n)" using keys_okD(2) [OF D(4) i(1)] i(2) by simp
    then show ?thesis using u assms by (simp add: tab_good_def set_used_nodes)
  qed
  have cap: "nkeys t1 + count_if (\<lambda>n. nd_val n \<noteq> TNil \<and> needs_node t1 (nd_key n)) us \<le> hcap t1"
  proof -
    have "count_if (\<lambda>n. nd_val n \<noteq> TNil \<and> needs_node t1 (nd_key n)) us \<le> length us" by (rule length_filter_le)
    also have "\<dots> \<le> hcap t1" using hsize2hbits_ge [of "length us"] by (simp only: F(4) b_def)
    finally show ?thesis by (simp add: F(2))
  qed
  obtain t' where t': "reinsert_nodes lj_tab_newkey t1 us = Inr t'" "tab_ok t'"
    "tab_map t' = nodes_over us (tab_map t1)"
    using reinsert_nodes_ok [OF nk_newkey F(1) _ cap] key by blast
  have m: "tab_map t' = tab_map t"
    unfolding t'(3) F(3) by (simp add: t1_def us_def vs_def nodes_over_used_rev [OF ok] arr_map_ktab nodes_over_tab_map [OF ok])
  have "reads fl (bcread_ktab white) (enc_ktab t) t'"
  proof -
    have e: "enc_ktab t = enc_u (of_nat (length vs)) @ enc_u (of_nat (length us)) @
        concat (map (enc_ktabk True) vs) @ concat (map enc_node us)"
      by (simp add: enc_ktab_def vs_def us_def used_nodes_rev)
    have h: "reads fl (rd_hash (length us) t1) (concat (map enc_node us)) t'"
      by (rule readsI, rule rd_hash_reinsert [OF _ t'(1)]) (use key in auto)
    have "\<forall>v \<in> set vs. tmpl_good v" using assms by (simp add: tab_good_def vs_def)
    from ktc.reads_list [OF this] have a: "reads fl (rd_array (length vs)) (concat (map (enc_ktabk True) vs)) vs"
      by (simp add: rd_rep_array)
    have ah: "reads fl (rd_bind (rd_array (length vs)) (\<lambda>vs. rd_hash (length us) (t0\<lparr>tb_array := vs\<rparr>)))
        (concat (map (enc_ktabk True) vs) @ concat (map enc_node us)) t'"
      by (rule reads_bind [OF a]) (use h in \<open>simp add: t1_def\<close>)
    have "reads fl (\<lambda>ls. rbind (lj_tab_new white (unat (of_nat (length vs) :: u32)) (hsize2hbits (unat (of_nat (length us) :: u32)))) (\<lambda>t.
         rd_bind (rd_array (unat (of_nat (length vs) :: u32))) (\<lambda>vs. rd_hash (unat (of_nat (length us) :: u32)) (t\<lparr>tb_array := vs\<rparr>)) ls))
        (concat (map (enc_ktabk True) vs) @ concat (map enc_node us)) t'"
      unfolding un b_def [symmetric] t0 rbind_simps using ah by simp
    then show ?thesis
      unfolding bcread_ktab_def e by (intro reads_bind [OF reads_u])
  qed
  then show ?thesis using t'(2) m by blast
qed

end
