(* ===== verification/LJ_BcRound.thy ===== *)
theory LJ_BcRound
  imports LJ_BcDec
begin

text \<open>
  Loading a dump gives back the prototype that was written, for every way the client's reader
  cuts the dump into blocks.
\<close>

subsection \<open>Filling the buffer\<close>

definition ls_data :: "lexst \<Rightarrow> byte list" where
  "ls_data ls = ls_in ls @ concat (ls_src ls)"

definition ls_ok :: "lexst \<Rightarrow> bool" where
  "ls_ok ls \<longleftrightarrow> 0 < ls_sbsz ls \<and> (\<forall>c \<in> set (ls_src ls). c \<noteq> []) \<and>
     (ls_current ls < 0 \<longrightarrow> ls_src ls = [])"

text \<open>The parts of the state that only the format reader changes.\<close>

definition same_rest :: "lexst \<Rightarrow> lexst \<Rightarrow> bool" where
  "same_rest ls ls' \<longleftrightarrow> ls_flags ls' = ls_flags ls \<and> ls_chunkname ls' = ls_chunkname ls \<and>
     ls_chunkarg ls' = ls_chunkarg ls \<and> ls_stack ls' = ls_stack ls"

lemma same_rest_trans: "same_rest a b \<Longrightarrow> same_rest b c \<Longrightarrow> same_rest a c"
  by (simp add: same_rest_def)

lemma resize_ok:
  assumes "0 < ls_sbsz ls"
  shows "\<exists>sz. bcread_resize ls len = Inr (ls\<lparr>ls_sbsz := sz\<rparr>) \<and> len \<le> sz \<and> 0 < sz"
proof (cases "ls_sbsz ls < len")
  case True
  obtain s where "sz_double len (ls_sbsz ls * 2) = Some s" "len \<le> s" "ls_sbsz ls * 2 \<le> s"
    using sz_double_Some [of "ls_sbsz ls * 2" len] assms by auto
  then show ?thesis using True assms by (auto simp: bcread_resize_def)
next
  case False
  then show ?thesis using assms by (auto simp: bcread_resize_def intro!: exI [of _ "ls_sbsz ls"])
qed

lemma fill_copy_ok:
  assumes "0 < ls_sbsz ls" "ls_n ls < len"
  shows "\<exists>sz. fill_copy ls len = Inr (ls\<lparr>ls_sbsz := sz, ls_sbn := ls_n ls\<rparr>) \<and> 0 < sz"
proof -
  obtain sz where sz: "bcread_resize ls len = Inr (ls\<lparr>ls_sbsz := sz\<rparr>)" "len \<le> sz" "0 < sz"
    using resize_ok [OF assms(1)] by blast
  have n: "ls_n (ls\<lparr>ls_sbsz := sz\<rparr>) = ls_n ls" by (simp add: ls_n_def)
  show ?thesis
  proof (cases "ls_n ls \<noteq> 0 \<and> ls_sbn ls = 0")
    case True
    then show ?thesis using sz assms(2) n by (auto simp: fill_copy_def)
  next
    case False
    then have "fill_copy ls len = Inr (ls\<lparr>ls_sbn := ls_n ls\<rparr>)" by (auto simp: fill_copy_def)
    then show ?thesis using assms(1) by (auto intro!: exI [of _ "ls_sbsz ls"])
  qed
qed

lemma fill_loop_ok:
  assumes "0 < ls_sbsz ls" "\<forall>c \<in> set src. c \<noteq> []" "ls_n ls < len" "0 \<le> ls_current ls"
  shows "(case fill_loop src ls len nd of
      Inl e \<Rightarrow> e = ERR_BCBAD \<and> nd \<and> length (ls_in ls @ concat src) < len
    | Inr ls' \<Rightarrow> ls_ok ls' \<and> same_rest ls ls' \<and> ls_data ls' = ls_in ls @ concat src \<and>
        (len \<le> ls_n ls' \<or> \<not> nd \<and> ls_src ls' = [] \<and> length (ls_in ls @ concat src) < len))"
  using assms
proof (induction src ls len nd rule: fill_loop.induct)
  case (1 src ls len nd)
  obtain sz where c: "fill_copy ls len = Inr (ls\<lparr>ls_sbsz := sz, ls_sbn := ls_n ls\<rparr>)" "0 < sz"
    using fill_copy_ok "1.prems" by blast
  define l1 where "l1 = ls\<lparr>ls_sbsz := sz, ls_sbn := ls_n ls\<rparr>"
  show ?case
  proof (cases src)
    case Nil
    show ?thesis
      using c "1.prems"(2-) unfolding Nil fill_loop.simps [of "[]" ls len nd]
      by (auto simp: ls_ok_def same_rest_def ls_data_def ls_n_def)
  next
    case (Cons buf rest)
    then have b: "buf \<noteq> []" "\<forall>c \<in> set rest. c \<noteq> []" using "1.prems"(2) by auto
    define app where "app = (if ls_sbn l1 \<noteq> 0 then
                      (let n = ls_sbn l1 + length buf in
                       rbind (bcread_resize l1 (if n < len then len else n)) (\<lambda>ls.
                         if n \<le> ls_sbsz ls
                         then Inr (ls\<lparr>ls_sbn := n, ls_in := ls_in ls @ buf, ls_src := rest\<rparr>)
                         else Inl OOB))
                    else Inr (l1\<lparr>ls_in := buf, ls_src := rest\<rparr>))"
    have st: "fill_loop src ls len nd = rbind app (\<lambda>ls. if ls_n ls < len then fill_loop rest ls len nd else Inr ls)"
      unfolding Cons by (subst fill_loop.simps) (simp add: c(1) b(1) app_def l1_def)
    obtain l2 where l2: "app = Inr l2" "ls_in l2 = ls_in ls @ buf" "ls_src l2 = rest" "0 < ls_sbsz l2"
      "ls_current l2 = ls_current ls" "same_rest ls l2"
    proof (cases "ls_sbn l1 \<noteq> 0")
      case True
      let ?n = "ls_sbn l1 + length buf"
      obtain sz' where r: "bcread_resize l1 (if ?n < len then len else ?n) = Inr (l1\<lparr>ls_sbsz := sz'\<rparr>)"
        "(if ?n < len then len else ?n) \<le> sz'" "0 < sz'"
        using resize_ok [of l1] c(2) by (auto simp: l1_def)
      then have "app = Inr (l1\<lparr>ls_sbsz := sz', ls_sbn := ?n, ls_in := ls_in l1 @ buf, ls_src := rest\<rparr>)"
        using True by (auto simp: app_def Let_def split: if_splits)
      from that [OF this] r(3) show ?thesis by (simp add: l1_def same_rest_def)
    next
      case False
      then have "ls_in ls = []" by (simp add: l1_def ls_n_def)
      with False show ?thesis using that c(2) by (simp add: app_def l1_def same_rest_def)
    qed
    show ?thesis
    proof (cases "ls_n l2 < len")
      case True
      note IH = "1.IH" [OF c(1) Cons b(1) l2(1) [unfolded app_def l1_def] True l2(4) b(2) True]
      show ?thesis
        using IH "1.prems"(4) l2 True unfolding st
        by (auto simp: Cons same_rest_def split: sum.splits)
    next
      case False
      then show ?thesis using l2 b(2) "1.prems"(4) unfolding st
        by (auto simp: Cons ls_ok_def ls_data_def)
    qed
  qed
qed

lemma need_ok:
  assumes "ls_ok ls" "len \<le> LJ_MAX_MEM" "len \<le> length (ls_data ls)"
  shows "\<exists>ls'. bcread_need ls len = Inr ls' \<and> ls_ok ls' \<and> same_rest ls ls' \<and> ls_data ls' = ls_data ls \<and>
    len \<le> ls_n ls'"
proof (cases "ls_n ls < len")
  case True
  then have "ls_src ls \<noteq> []" using assms(3) by (auto simp: ls_data_def ls_n_def)
  then have c: "0 \<le> ls_current ls" "0 < ls_sbsz ls" "\<forall>c \<in> set (ls_src ls). c \<noteq> []"
    using assms(1) by (auto simp: ls_ok_def)
  show ?thesis
    using fill_loop_ok [OF c(2,3) True c(1), of True] True c(1) assms(2,3)
    by (auto simp: bcread_need_def bcread_fill_def ls_data_def split: sum.splits)
next
  case False
  then show ?thesis using assms(1) by (simp add: bcread_need_def same_rest_def)
qed

lemma want_ok:
  assumes "ls_ok ls" "len \<le> LJ_MAX_MEM" "ls_n ls < len \<longrightarrow> 0 \<le> ls_current ls"
  shows "\<exists>ls'. bcread_want ls len = Inr ls' \<and> ls_ok ls' \<and> same_rest ls ls' \<and> ls_data ls' = ls_data ls \<and>
    (len \<le> ls_n ls' \<or> ls_src ls' = [])"
proof (cases "ls_n ls < len")
  case True
  then have c: "0 \<le> ls_current ls" "0 < ls_sbsz ls" "\<forall>c \<in> set (ls_src ls). c \<noteq> []"
    using assms(1,3) by (auto simp: ls_ok_def)
  show ?thesis
    using fill_loop_ok [OF c(2,3) True c(1), of False] True c(1) assms(2)
    by (auto simp: bcread_want_def bcread_fill_def ls_data_def split: sum.splits)
next
  case False
  then show ?thesis using assms(1) by (simp add: bcread_want_def same_rest_def)
qed

subsection \<open>What loading gives back\<close>

definition children :: "kgc list \<Rightarrow> proto list" where
  "children ks = concat (map (\<lambda>k. case k of KChild p \<Rightarrow> [p] | _ \<Rightarrow> []) ks)"

lemma children_simps [simp]:
  "children [] = []"
  "children (k # ks) = (case k of KChild p \<Rightarrow> [p] | _ \<Rightarrow> []) @ children ks"
  by (simp_all add: children_def)

definition head_ins :: "byte \<Rightarrow> byte \<Rightarrow> u32" where
  "head_ins flags framesize =
     BCINS_AD (if flags AND PROTO_VARARG \<noteq> 0 then of_nat BC_FUNCV else of_nat BC_FUNCF) (ucast framesize) 0"

definition dump_flags :: "byte \<Rightarrow> byte" where
  "dump_flags fl = fl AND (PROTO_CHILD OR PROTO_VARARG OR PROTO_FFI)"

text \<open>
  \<open>same_proto\<close>: the loaded prototype \<open>q\<close> is the dumped one, without the changes of the JIT
  compiler, with the flags that matter, the chunk name of the dump and, in a stripped dump,
  without debug information.  Tables are equal as maps.
\<close>

fun same_proto :: "(u16 \<Rightarrow> u32) \<Rightarrow> bool \<Rightarrow> byte list \<Rightarrow> proto \<Rightarrow> proto \<Rightarrow> bool"
  and same_kgcs :: "(u16 \<Rightarrow> u32) \<Rightarrow> bool \<Rightarrow> byte list \<Rightarrow> kgc list \<Rightarrow> kgc list \<Rightarrow> bool" where
  "same_proto st strip cn (Proto fl np fs bc uv kg kn tr cn0 fl1 nl db) q \<longleftrightarrow>
     pt_flags q = dump_flags fl \<and> pt_numparams q = np \<and> pt_framesize q = fs \<and>
     pt_bc q = head_ins (dump_flags fl) fs # clean_bc st (Proto fl np fs bc uv kg kn tr cn0 fl1 nl db) \<and>
     pt_uv q = uv \<and> same_kgcs st strip cn kg (pt_kgc q) \<and> pt_kn q = kn \<and> pt_trace q = 0 \<and>
     pt_chunkname q = cn \<and>
     (if strip \<or> db = None then pt_firstline q = 0 \<and> pt_numline q = 0 \<and> pt_dbg q = None
      else pt_firstline q = fl1 \<and> pt_numline q = nl \<and> pt_dbg q = db)"
| "same_kgcs st strip cn [] ks' \<longleftrightarrow> ks' = []"
| "same_kgcs st strip cn (k # ks) ks' \<longleftrightarrow>
     (case ks' of [] \<Rightarrow> False
      | k' # ks'' \<Rightarrow>
          (case k of
             KChild p \<Rightarrow> (case k' of KChild q \<Rightarrow> same_proto st strip cn p q | _ \<Rightarrow> False)
           | KTab t \<Rightarrow> (case k' of KTab t' \<Rightarrow> tab_ok t' \<and> tab_map t' = tab_map t | _ \<Rightarrow> False)
           | _ \<Rightarrow> k' = k) \<and>
          same_kgcs st strip cn ks ks'')"

definition kgc_good :: "kgc \<Rightarrow> bool" where
  "kgc_good k = (case k of KStr s \<Rightarrow> length s < LJ_MAX_STR | KTab t \<Rightarrow> tab_good t | _ \<Rightarrow> True)"

definition dbg_good :: "nat \<Rightarrow> nat \<Rightarrow> u32 \<Rightarrow> dbginfo option \<Rightarrow> bool" where
  "dbg_good sizebc sizeuv numline db = (case db of None \<Rightarrow> True
   | Some (Dbg p uvofs varofs) \<Rightarrow>
       p \<noteq> [] \<and>
       uvofs = (sizebc - 1) * 2 ^ (if sint numline < 256 then 0 else if sint numline < 65536 then 1 else 2) \<and>
       bcread_varinfo p uvofs sizeuv = Inr varofs)"

fun loadable :: "(u16 \<Rightarrow> u32) \<Rightarrow> bool \<Rightarrow> proto \<Rightarrow> bool"
  and loadable_kgc :: "(u16 \<Rightarrow> u32) \<Rightarrow> bool \<Rightarrow> kgc list \<Rightarrow> bool" where
  "loadable st strip (Proto fl np fs bc uv kg kn tr cn fl1 nl db) \<longleftrightarrow>
     loadable_kgc st strip kg \<and> (children kg \<noteq> [] \<longrightarrow> fl AND PROTO_CHILD \<noteq> 0) \<and>
     bc \<noteq> [] \<and> length uv < 256 \<and> (\<forall>w \<in> set kn. plain_num w) \<and>
     (\<not> strip \<longrightarrow> dbg_good (length bc) (length uv) nl db) \<and>
     bcread_sizept (length bc) (length kg) (length kn) (length uv)
       (if strip then 0 else pt_sizedbg (Proto fl np fs bc uv kg kn tr cn fl1 nl db)) < 2 ^ 32 \<and>
     length (enc_body st strip (Proto fl np fs bc uv kg kn tr cn fl1 nl db)) \<le> LJ_MAX_MEM"
| "loadable_kgc st strip [] \<longleftrightarrow> True"
| "loadable_kgc st strip (k # ks) \<longleftrightarrow>
     kgc_good k \<and> (case k of KChild p \<Rightarrow> loadable st strip p | _ \<Rightarrow> True) \<and> loadable_kgc st strip ks"

lemma tmpl_of_good: "kgc_good k \<Longrightarrow> tmpl_kgc k"
  by (cases k) (simp_all add: kgc_good_def tmpl_kgc_def tab_good_def)

lemma dumpable_loadable:
  "loadable st strip pt \<Longrightarrow> dumpable st strip pt"
  "loadable_kgc st strip ks \<Longrightarrow> dumpable_kgc st strip ks"
  by (induction st strip pt and st strip ks rule: loadable_loadable_kgc.induct)
    (auto simp: LJ_MAX_MEM_def tmpl_of_good split: kgc.splits)

lemma loadable_kgc_good: "loadable_kgc st strip ks \<Longrightarrow> \<forall>k \<in> set ks. kgc_good k"
  by (induction ks) auto

subsection \<open>Reading one prototype\<close>

lemma kgc1_ok:
  assumes "kgc_good k" "\<forall>p. k \<noteq> KChild p" "ls_in ls = enc_kgc k @ rest"
  shows "\<exists>k'. bcread_kgc1 white ls = Inr (ls\<lparr>ls_in := rest\<rparr>, k') \<and>
    (case k of KTab t \<Rightarrow> (case k' of KTab t' \<Rightarrow> tab_ok t' \<and> tab_map t' = tab_map t | _ \<Rightarrow> False) | _ \<Rightarrow> k' = k)"
proof -
  define g where "g = (\<lambda>tp. if tp \<ge> BCDUMP_KGC_STR then
         rd_bind (rd_str (unat (tp - BCDUMP_KGC_STR))) (\<lambda>s. rd_ret (KStr s))
       else if tp = BCDUMP_KGC_TAB then
         rd_bind (bcread_ktab white) (\<lambda>t. rd_ret (KTab t))
       else if tp \<noteq> BCDUMP_KGC_CHILD then
         rd_bind rd_w64 (\<lambda>a.
           if tp = BCDUMP_KGC_COMPLEX then rd_bind rd_w64 (\<lambda>b. rd_ret (KComplex a b))
           else if tp = BCDUMP_KGC_I64 then rd_ret (KI64 a) else rd_ret (KU64 a))
       else rd_child)"
  have run: ?thesis if "reads (ls_flags ls) (g (kgc_type k)) bs k'" "enc_kgc k = enc_u (kgc_type k) @ bs"
    "(case k of KTab t \<Rightarrow> (case k' of KTab t' \<Rightarrow> tab_ok t' \<and> tab_map t' = tab_map t | _ \<Rightarrow> False) | _ \<Rightarrow> k' = k)"
    for bs k'
  proof -
    have "reads (ls_flags ls) (bcread_kgc1 white) (enc_kgc k) k'"
      unfolding bcread_kgc1_def g_def [symmetric] that(2) by (rule reads_bind [OF reads_u], rule that(1))
    from readsD [OF this refl assms(3)] that(3) show ?thesis by blast
  qed
  show ?thesis
  proof (cases k)
    case (KStr s)
    then have l: "length s < LJ_MAX_STR" using assms(1) by (simp add: kgc_good_def)
    have "reads (ls_flags ls) (g (kgc_type k)) s k"
      using tag_len [OF l] reads_map [OF reads_str [OF l], where h = KStr]
      by (simp add: g_def KStr kgc_type_def BCDUMP_KGC_STR_def)
    from run [OF this] show ?thesis by (simp add: KStr enc_kgc_def)
  next
    case (KTab t)
    then obtain t' where t': "reads (ls_flags ls) (bcread_ktab white) (enc_ktab t) t'" "tab_ok t'" "tab_map t' = tab_map t"
      using reads_ktab assms(1) unfolding kgc_good_def by fastforce
    have "reads (ls_flags ls) (g (kgc_type k)) (enc_ktab t) (KTab t')"
      using reads_map [OF t'(1), where h = KTab] by (simp add: g_def KTab kgc_type_def bcdump_kgc_defs word_le_nat_alt)
    from run [OF this] t' show ?thesis by (simp add: KTab enc_kgc_def)
  next
    case (KI64 w)
    have "reads (ls_flags ls) (g (kgc_type k)) (enc_w64 w) k"
      using reads_map [OF reads_w64, where h = KI64] by (simp add: g_def KI64 kgc_type_def bcdump_kgc_defs word_le_nat_alt)
    from run [OF this] show ?thesis by (simp add: KI64 enc_kgc_def)
  next
    case (KU64 w)
    have "reads (ls_flags ls) (g (kgc_type k)) (enc_w64 w) k"
      using reads_map [OF reads_w64, where h = KU64] by (simp add: g_def KU64 kgc_type_def bcdump_kgc_defs word_le_nat_alt)
    from run [OF this] show ?thesis by (simp add: KU64 enc_kgc_def)
  next
    case (KComplex a b)
    have "reads (ls_flags ls) (rd_bind rd_w64 (\<lambda>b. rd_ret (KComplex a b))) (enc_w64 b) k"
      using reads_map [OF reads_w64, where h = "KComplex a"] by (simp add: KComplex)
    from reads_bind [OF reads_w64 [of _ a], where g = "\<lambda>a. rd_bind rd_w64 (\<lambda>b. rd_ret (KComplex a b))", OF this]
    have "reads (ls_flags ls) (g (kgc_type k)) (enc_w64 a @ enc_w64 b) k"
      by (simp add: g_def KComplex kgc_type_def bcdump_kgc_defs word_le_nat_alt)
    from run [OF this] show ?thesis by (simp add: KComplex enc_kgc_def)
  next
    case (KChild p)
    then show ?thesis using assms(2) by simp
  qed
qed

lemma child_ok:
  assumes "ls_in ls = enc_kgc (KChild p) @ rest" "ls_stack ls = q # qs"
  shows "bcread_kgc1 white ls = Inr (ls\<lparr>ls_in := rest, ls_stack := qs\<rparr>, KChild q)"
proof -
  have "bcread_uleb128 ls = Inr (ls\<lparr>ls_in := rest\<rparr>, BCDUMP_KGC_CHILD)"
    by (rule readsD [OF reads_u refl]) (use assms(1) in \<open>simp add: enc_kgc_def kgc_type_def\<close>)
  then show ?thesis
    using assms(2) by (simp add: bcread_kgc1_def rd_bind_def rd_child_def bcdump_kgc_defs word_le_nat_alt)
qed

lemma kgc_ok:
  assumes "\<forall>k \<in> set ks. kgc_good k" "list_all2 (same_proto st strip cn) (children ks) cs"
    and "ls_in ls = concat (map enc_kgc ks) @ rest" "ls_stack ls = cs @ s"
  shows "\<exists>ks'. bcread_kgc white (length ks) ls = Inr (ls\<lparr>ls_in := rest, ls_stack := s\<rparr>, ks') \<and>
    same_kgcs st strip cn ks ks'"
  using assms
proof (induction ks arbitrary: cs ls)
  case Nil
  then show ?case by (simp add: rd_ret_def)
next
  case (Cons k ks)
  let ?r = "concat (map enc_kgc ks) @ rest"
  show ?case
  proof (cases "\<exists>p. k = KChild p")
    case True
    then obtain p where p: "k = KChild p" by blast
    then obtain q qs where q: "cs = q # qs" "same_proto st strip cn p q"
      "list_all2 (same_proto st strip cn) (children ks) qs"
      using Cons.prems(2) by (auto simp: list_all2_Cons1)
    let ?ls = "ls\<lparr>ls_in := ?r, ls_stack := qs @ s\<rparr>"
    have 1: "bcread_kgc1 white ls = Inr (?ls, KChild q)"
      by (rule child_ok) (use Cons.prems(3,4) p q(1) in simp_all)
    obtain ks' where "bcread_kgc white (length ks) ?ls = Inr (?ls\<lparr>ls_in := rest, ls_stack := s\<rparr>, ks')"
      "same_kgcs st strip cn ks ks'"
      using Cons.IH [OF _ q(3), of ?ls] Cons.prems(1) by auto
    then show ?thesis using 1 q(2) by (simp add: p rd_bind_def rd_ret_def)
  next
    case False
    let ?ls = "ls\<lparr>ls_in := ?r\<rparr>"
    obtain k' where k': "bcread_kgc1 white ls = Inr (?ls, k')"
      "(case k of KTab t \<Rightarrow> (case k' of KTab t' \<Rightarrow> tab_ok t' \<and> tab_map t' = tab_map t | _ \<Rightarrow> False) | _ \<Rightarrow> k' = k)"
      using kgc1_ok [of k ls ?r white] Cons.prems(1,3) False by auto
    have "children (k # ks) = children ks" using False by (cases k) simp_all
    then obtain ks' where "bcread_kgc white (length ks) ?ls = Inr (?ls\<lparr>ls_in := rest, ls_stack := s\<rparr>, ks')"
      "same_kgcs st strip cn ks ks'"
      using Cons.IH [of cs ?ls] Cons.prems by auto
    then show ?thesis using k' False by (cases k) (simp_all add: rd_bind_def rd_ret_def)
  qed
qed


lemma reads_byte: "reads fl bcread_byte [b] b"
  by (rule readsI) (simp add: bcread_byte_def)

lemma reads_block: "n = length p \<Longrightarrow> reads fl (bcread_block n) p p"
  by (rule readsI) (simp add: bcread_block_def bcread_mem_def ls_n_def)

lemma words_le_ins: "words_le (concat (map ins_bytes is)) = is"
  by (induction "is") (simp_all add: ins_bytes_def le32_byte_of [simplified])

lemma halves_le_uv: "halves_le (concat (map uv_bytes uv)) = uv"
proof (induction uv)
  case (Cons u uv)
  have "ucast (ucast u :: byte) OR push_bit 8 (ucast (ucast (drop_bit 8 u) :: byte)) = u"
    by (rule bit_word_eqI)
      (auto simp: bit_or_iff bit_push_bit_iff bit_ucast_iff bit_drop_bit_eq dest: bit_imp_le_length)
  with Cons show ?case by (simp add: uv_bytes_def)
qed simp

lemma reads_bytecode:
  assumes "fl AND BCDUMP_F_BE = 0" "n = Suc (length is)"
  shows "reads fl (bcread_bytecode flags fs n) (concat (map ins_bytes is)) (head_ins flags fs # is)"
proof (rule readsI)
  fix ls :: lexst and rest assume a: "ls_flags ls = fl" "ls_in ls = concat (map ins_bytes is) @ rest"
  have "bcread_block ((n - 1) * 4) ls = Inr (ls\<lparr>ls_in := rest\<rparr>, concat (map ins_bytes is))"
    by (rule readsD [OF reads_block a]) (simp add: assms(2))
  then show "bcread_bytecode flags fs n ls = Inr (ls\<lparr>ls_in := rest\<rparr>, head_ins flags fs # is)"
    using assms(1) a(1) by (simp add: bcread_bytecode_def rd_bind_def bcread_swap_def head_ins_def words_le_ins)
qed

lemma reads_uv:
  assumes "fl AND BCDUMP_F_BE = 0" "n = length uv"
  shows "reads fl (bcread_uv n) (concat (map uv_bytes uv)) uv"
proof (cases "n = 0")
  case True
  then show ?thesis using assms(2) by (simp add: bcread_uv_def)
next
  case False
  show ?thesis
  proof (rule readsI)
    fix ls :: lexst and rest assume a: "ls_flags ls = fl" "ls_in ls = concat (map uv_bytes uv) @ rest"
    have "bcread_block (n * 2) ls = Inr (ls\<lparr>ls_in := rest\<rparr>, concat (map uv_bytes uv))"
      by (rule readsD [OF reads_block a]) (simp add: assms(2))
    then show "bcread_uv n ls = Inr (ls\<lparr>ls_in := rest\<rparr>, uv)"
      using assms(1) a(1) False by (simp add: bcread_uv_def rd_bind_def bcread_swap_def halves_le_uv)
  qed
qed

lemma unat32: "n < 2 ^ 32 \<Longrightarrow> unat (of_nat n :: u32) = n"
  by (simp add: of_nat_inverse)

lemma reads_head:
  assumes "(fl AND BCDUMP_F_STRIP \<noteq> 0) = strip" "length (pt_uv pt) < 256"
    "length (pt_kgc pt) < 2 ^ 32" "length (pt_kn pt) < 2 ^ 32" "length (pt_bc pt) - 1 < 2 ^ 32" "d < 2 ^ 32"
    and "pt_bc pt \<noteq> []" "strip \<longrightarrow> d = 0"
  shows "reads fl rd_proto_head (enc_head strip pt d)
    (dump_flags (pt_flags pt), pt_numparams pt, pt_framesize pt, of_nat (length (pt_uv pt)),
     length (pt_kgc pt), length (pt_kn pt), length (pt_bc pt), d,
     if d = 0 then 0 else pt_firstline pt, if d = 0 then 0 else pt_numline pt)"
proof -
  let ?u = "\<lambda>n. of_nat n :: u32"
  define res where "res = (\<lambda>d' l n. (dump_flags (pt_flags pt), pt_numparams pt, pt_framesize pt,
     of_nat (length (pt_uv pt)) :: byte, unat (?u (length (pt_kgc pt))), unat (?u (length (pt_kn pt))),
     unat (?u (length (pt_bc pt) - 1)) + 1, d' :: nat, l :: u32, n :: u32))"
  define dtl where "dtl = (\<lambda>sizedbg :: u32. if sizedbg = 0 then rd_ret (res 0 0 0)
     else rd_bind bcread_uleb128 (\<lambda>firstline. rd_bind bcread_uleb128 (\<lambda>numline.
       rd_ret (res (unat sizedbg) firstline numline))))"
  define tl1 where "tl1 = (\<lambda>ls. if ls_flags ls AND BCDUMP_F_STRIP \<noteq> 0 then rd_ret (res 0 0 0) ls
     else rd_bind bcread_uleb128 dtl ls)"
  define l n where "l = (if d = 0 then 0 else pt_firstline pt)" and "n = (if d = 0 then 0 else pt_numline pt)"
  have dt: "reads fl (dtl (?u d)) (if d = 0 then [] else enc_u (pt_firstline pt) @ enc_u (pt_numline pt)) (res d l n)"
  proof (cases "d = 0")
    case True
    then show ?thesis by (simp add: dtl_def l_def n_def)
  next
    case False
    then have z: "?u d \<noteq> 0" using unat32 [OF assms(6)] by auto
    have "reads fl (rd_bind bcread_uleb128 (\<lambda>numline. rd_ret (res d (pt_firstline pt) numline)))
        (enc_u (pt_numline pt)) (res d l n)"
      using reads_map [OF reads_u, where h = "res d (pt_firstline pt)"] False by (simp add: l_def n_def)
    then have "reads fl (rd_bind bcread_uleb128 (\<lambda>firstline. rd_bind bcread_uleb128 (\<lambda>numline.
       rd_ret (res d firstline numline)))) (enc_u (pt_firstline pt) @ enc_u (pt_numline pt)) (res d l n)"
      by (rule reads_bind [OF reads_u])
    then show ?thesis using False z by (simp add: dtl_def unat32 [OF assms(6)])
  qed
  have t: "reads fl tl1 (if strip then [] else enc_u (?u d) @
        (if d = 0 then [] else enc_u (pt_firstline pt) @ enc_u (pt_numline pt))) (res d l n)"
  proof (cases strip)
    case True
    then have "d = 0" using assms(8) by simp
    then show ?thesis using True assms(1) by (auto simp: reads_def tl1_def rd_ret_def l_def n_def)
  next
    case False
    have "reads fl (rd_bind bcread_uleb128 dtl) (enc_u (?u d) @
        (if d = 0 then [] else enc_u (pt_firstline pt) @ enc_u (pt_numline pt))) (res d l n)"
      by (rule reads_bind [OF reads_u], rule dt)
    then show ?thesis using False assms(1) by (auto simp: reads_def tl1_def)
  qed
  have r: "res d l n = (dump_flags (pt_flags pt), pt_numparams pt, pt_framesize pt, of_nat (length (pt_uv pt)),
     length (pt_kgc pt), length (pt_kn pt), length (pt_bc pt), d, l, n)"
    using assms(3-5,7) by (simp add: res_def unat32)
  have "reads fl rd_proto_head ([pt_flags pt AND (PROTO_CHILD OR PROTO_VARARG OR PROTO_FFI)] @ [pt_numparams pt] @
      [pt_framesize pt] @ [of_nat (length (pt_uv pt))] @ enc_u (?u (length (pt_kgc pt))) @ enc_u (?u (length (pt_kn pt))) @
      enc_u (?u (length (pt_bc pt) - 1)) @
      (if strip then [] else enc_u (?u d) @
        (if d = 0 then [] else enc_u (pt_firstline pt) @ enc_u (pt_numline pt)))) (res d l n)"
    unfolding rd_proto_head_def
    by (intro reads_bind [OF reads_byte] reads_bind [OF reads_u])
      (use t in \<open>simp only: tl1_def dtl_def res_def dump_flags_def\<close>)
  then show ?thesis unfolding r unfolding l_def n_def enc_head_def dump_flags_def by simp
qed

lemma reads_dbg:
  assumes "fl AND BCDUMP_F_BE = 0" "dbg_good n m nl db"
  shows "reads fl (rd_dbg n m nl (case db of None \<Rightarrow> 0 | Some d \<Rightarrow> length (db_bytes d)))
    (case db of None \<Rightarrow> [] | Some d \<Rightarrow> db_bytes d) db"
proof (cases db)
  case None
  then show ?thesis by (simp add: rd_dbg_def)
next
  case (Some dd)
  obtain p u v where d: "dd = Dbg p u v" by (cases dd)
  show ?thesis
  proof (rule readsI)
    fix ls :: lexst and rest
    assume a: "ls_flags ls = fl" "ls_in ls = (case db of None \<Rightarrow> [] | Some d \<Rightarrow> db_bytes d) @ rest"
    then have "bcread_block (length p) ls = Inr (ls\<lparr>ls_in := rest\<rparr>, p)"
      by (intro readsD [OF reads_block refl]) (simp_all add: Some d)
    then have "bcread_dbg n nl (length p) ls = Inr (ls\<lparr>ls_in := rest\<rparr>, p)"
      using assms(1) a(1) by (simp add: bcread_dbg_def rd_bind_def bcread_swap_def Let_def)
    moreover have "p \<noteq> []" "(n - 1) * 2 ^ (if sint nl < 256 then 0 else if sint nl < 65536 then 1 else 2) = u"
      "bcread_varinfo p u m = Inr v"
      using assms(2) unfolding Some d dbg_good_def option.case dbginfo.case by blast+
    ultimately show "rd_dbg n m nl (case db of None \<Rightarrow> 0 | Some d \<Rightarrow> length (db_bytes d)) ls = Inr (ls\<lparr>ls_in := rest\<rparr>, db)"
      unfolding rd_dbg_def rd_bind_def Let_def Some d option.case dbginfo.sel by simp
  qed
qed


text \<open>The conditions on the flags of the dump under which the body is read.\<close>

definition flags_for :: "bool \<Rightarrow> u32 \<Rightarrow> bool" where
  "flags_for strip fl \<longleftrightarrow> fl AND BCDUMP_F_BE = 0 \<and> (fl AND BCDUMP_F_STRIP \<noteq> 0) = strip"

lemma sizept_bounds:
  assumes "bcread_sizept a b c u d < 2 ^ 32"
  shows "a < 2 ^ 32" "b < 2 ^ 32" "c < 2 ^ 32" "d < 2 ^ 32"
proof -
  let ?s = "(sizeof_GCproto + a * 4 + b * 4 + 7) div 8 * 8"
  have s: "a * 4 + b * 4 \<le> ?s" by (simp add: sizeof_GCproto_def)
  have "?s + c * 8 + d \<le> bcread_sizept a b c u d" by (simp add: bcread_sizept_def Let_def)
  with s assms show "a < 2 ^ 32" "b < 2 ^ 32" "c < 2 ^ 32" "d < 2 ^ 32" by linarith+
qed

lemma loadable_iff:
  "loadable st strip pt \<longleftrightarrow>
     loadable_kgc st strip (pt_kgc pt) \<and> (children (pt_kgc pt) \<noteq> [] \<longrightarrow> pt_flags pt AND PROTO_CHILD \<noteq> 0) \<and>
     pt_bc pt \<noteq> [] \<and> length (pt_uv pt) < 256 \<and> (\<forall>w \<in> set (pt_kn pt). plain_num w) \<and>
     (\<not> strip \<longrightarrow> dbg_good (length (pt_bc pt)) (length (pt_uv pt)) (pt_numline pt) (pt_dbg pt)) \<and>
     bcread_sizept (length (pt_bc pt)) (length (pt_kgc pt)) (length (pt_kn pt)) (length (pt_uv pt))
       (if strip then 0 else pt_sizedbg pt) < 2 ^ 32 \<and>
     length (enc_body st strip pt) \<le> LJ_MAX_MEM"
  by (cases pt) (simp only: loadable.simps proto.sel)

lemma loadable_Proto:
  assumes "loadable st strip pt"
  shows "\<forall>k \<in> set (pt_kgc pt). kgc_good k" "pt_bc pt \<noteq> []" "length (pt_uv pt) < 256"
    "\<forall>w \<in> set (pt_kn pt). plain_num w"
    "\<not> strip \<Longrightarrow> dbg_good (length (pt_bc pt)) (length (pt_uv pt)) (pt_numline pt) (pt_dbg pt)"
    "bcread_sizept (length (pt_bc pt)) (length (pt_kgc pt)) (length (pt_kn pt)) (length (pt_uv pt))
       (if strip then 0 else pt_sizedbg pt) < 2 ^ 32"
    "length (enc_body st strip pt) \<le> LJ_MAX_MEM"
proof -
  have "loadable_kgc st strip (pt_kgc pt)" using assms unfolding loadable_iff by blast
  then show "\<forall>k \<in> set (pt_kgc pt). kgc_good k" by (rule loadable_kgc_good)
qed (use assms in \<open>unfold loadable_iff, blast+\<close>)

lemma body_read:
  assumes l: "loadable st strip pt" and f: "flags_for strip (ls_flags ls)"
    and cs: "list_all2 (same_proto st strip (ls_chunkname ls)) (children (pt_kgc pt)) cs"
    and i: "ls_in ls = enc_body st strip pt @ rest" and s: "ls_stack ls = cs @ s"
  shows "\<exists>q. rd_proto_body white ls = Inr (ls\<lparr>ls_in := rest, ls_stack := s\<rparr>, q) \<and>
    same_proto st strip (ls_chunkname ls) pt q"
proof -
  note L = loadable_Proto [OF l]
  define d where "d = (if strip then 0 else pt_sizedbg pt)"
  define db where "db = (if strip then None else pt_dbg pt)"
  note B = sizept_bounds [OF L(6), folded d_def]
  have fl: "ls_flags ls AND BCDUMP_F_BE = 0" "(ls_flags ls AND BCDUMP_F_STRIP \<noteq> 0) = strip"
    using f by (simp_all add: flags_for_def)
  have d: "d = (case db of None \<Rightarrow> 0 | Some d \<Rightarrow> length (db_bytes d))"
    by (simp add: d_def db_def pt_sizedbg_def)
  define dbs where "dbs = (case db of None \<Rightarrow> [] | Some d \<Rightarrow> db_bytes d)"
  define nl l1 where "nl = (if d = 0 then 0 else pt_numline pt)" and "l1 = (if d = 0 then 0 else pt_firstline pt)"
  have gd: "dbg_good (length (pt_bc pt)) (length (pt_uv pt)) nl db"
  proof (cases db)
    case None
    then show ?thesis by (simp add: dbg_good_def)
  next
    case (Some x)
    then have g: "dbg_good (length (pt_bc pt)) (length (pt_uv pt)) (pt_numline pt) db"
      using L(5) by (simp add: db_def split: if_splits)
    then have "d \<noteq> 0" by (simp add: d Some dbg_good_def split: dbginfo.splits)
    then show ?thesis using g by (simp add: nl_def)
  qed
  let ?B = "concat (map ins_bytes (clean_bc st pt))" and ?U = "concat (map uv_bytes (pt_uv pt))"
  let ?K = "concat (map enc_kgc (pt_kgc pt))" and ?N = "concat (map enc_knum (pt_kn pt))"
  have e: "enc_body st strip pt = enc_head strip pt d @ ?B @ ?U @ ?K @ ?N @ dbs"
  proof -
    have "(if d = 0 then [] else case pt_dbg pt of None \<Rightarrow> [] | Some d \<Rightarrow> db_bytes d) = dbs"
      by (auto simp: dbs_def d_def db_def pt_sizedbg_def split: option.split)
    then show ?thesis unfolding enc_body_def Let_def d_def [symmetric] by simp
  qed
  define l2 where "l2 = ls\<lparr>ls_in := ?B @ ?U @ ?K @ ?N @ dbs @ rest\<rparr>"
  have h: "rd_proto_head ls = Inr (l2,
     (dump_flags (pt_flags pt), pt_numparams pt, pt_framesize pt, of_nat (length (pt_uv pt)),
      length (pt_kgc pt), length (pt_kn pt), length (pt_bc pt), d, l1, nl))"
    unfolding l2_def l1_def nl_def
    by (rule readsD [OF reads_head [OF fl(2)] refl])
      (use L B i in \<open>simp_all add: e d_def\<close>)
  have u: "unat (of_nat (length (pt_uv pt)) :: byte) = length (pt_uv pt)"
    using L(3) by (rule byte_nat)
  define q0 where "q0 = head_ins (dump_flags (pt_flags pt)) (pt_framesize pt) # clean_bc st pt"
  define l3 l4 l5 l6 where "l3 = ls\<lparr>ls_in := ?U @ ?K @ ?N @ dbs @ rest\<rparr>" and "l4 = ls\<lparr>ls_in := ?K @ ?N @ dbs @ rest\<rparr>"
    and "l5 = ls\<lparr>ls_in := ?N @ dbs @ rest, ls_stack := s\<rparr>" and "l6 = ls\<lparr>ls_in := dbs @ rest, ls_stack := s\<rparr>"
  have b: "bcread_bytecode (dump_flags (pt_flags pt)) (pt_framesize pt) (length (pt_bc pt)) l2 = Inr (l3, q0)"
    using readsD [OF reads_bytecode [OF fl(1), of "length (pt_bc pt)" "clean_bc st pt"], of l2] L(2)
    by (simp add: l2_def l3_def q0_def)
  have uv: "bcread_uv (length (pt_uv pt)) l3 = Inr (l4, pt_uv pt)"
    using readsD [OF reads_uv [OF fl(1) refl], of l3] by (simp add: l3_def l4_def)
  have s4: "ls_stack l4 = cs @ s" "ls_in l4 = ?K @ ?N @ dbs @ rest" using s by (simp_all add: l4_def)
  obtain ks' where k: "bcread_kgc white (length (pt_kgc pt)) l4 = Inr (l5, ks')"
    "same_kgcs st strip (ls_chunkname ls) (pt_kgc pt) ks'"
    using kgc_ok [OF L(1) cs s4(2,1)] by (auto simp: l4_def l5_def)
  have n: "bcread_knum (length (pt_kn pt)) l5 = Inr (l6, pt_kn pt)"
    unfolding rd_rep_knum using readsD [OF knc.reads_list [OF L(4)], of l5] by (simp add: l5_def l6_def)
  have dr: "rd_dbg (length (pt_bc pt)) (length (pt_uv pt)) nl d l6 = Inr (ls\<lparr>ls_in := rest, ls_stack := s\<rparr>, db)"
    using readsD [OF reads_dbg [OF fl(1) gd], of l6 rest] by (simp add: l6_def d dbs_def)
  let ?q = "Proto (dump_flags (pt_flags pt)) (pt_numparams pt) (pt_framesize pt) q0 (pt_uv pt) ks' (pt_kn pt) 0
      (ls_chunkname ls) l1 nl db"
  have "\<not> bcread_sizept (length (pt_bc pt)) (length (pt_kgc pt)) (length (pt_kn pt)) (length (pt_uv pt)) d \<ge> 2 ^ 32"
    using L(6) by (simp add: d_def not_le)
  then have "rd_proto_body white ls = Inr (ls\<lparr>ls_in := rest, ls_stack := s\<rparr>, ?q)"
    unfolding rd_proto_body_def rd_bind_def h rbind_simps prod.case u
    by (simp only: if_False) (simp add: b uv k(1) n dr)
  moreover have "same_proto st strip (ls_chunkname ls) pt ?q"
  proof (cases pt)
    case (Proto fl np fs bc uv kg kn tr cn fl1 nl1 db1)
    have "d = 0 \<longleftrightarrow> strip \<or> db1 = None"
    proof (cases strip)
      case False
      then show ?thesis using gd by (auto simp: d db_def Proto dbg_good_def split: option.splits dbginfo.splits)
    qed (simp add: d_def)
    then show ?thesis using k(2) by (simp add: Proto q0_def l1_def nl_def db_def)
  qed
  ultimately show ?thesis by blast
qed

lemma in_prefix:
  assumes "ls_data ls = bs @ rest" "length bs \<le> ls_n ls \<or> ls_src ls = []"
  obtains r where "ls_in ls = bs @ r" "r @ concat (ls_src ls) = rest"
proof -
  have "length bs \<le> length (ls_in ls)" using assms by (auto simp: ls_data_def ls_n_def)
  moreover have "take (length bs) (ls_data ls) = bs" "drop (length bs) (ls_data ls) = rest"
    unfolding assms(1) by simp_all
  ultimately have "take (length bs) (ls_in ls) = bs" "drop (length bs) (ls_in ls) @ concat (ls_src ls) = rest"
    by (simp_all add: ls_data_def)
  then show ?thesis using that by (metis append_take_drop_id)
qed

lemma ls_ok_in: "ls_ok (ls\<lparr>ls_in := x\<rparr>) = ls_ok ls" "ls_ok (ls\<lparr>ls_stack := s\<rparr>) = ls_ok ls"
  "ls_ok (ls\<lparr>ls_in := x, ls_stack := s\<rparr>) = ls_ok ls"
  by (simp_all add: ls_ok_def)

lemma ls_n_in [simp]: "ls_n (ls\<lparr>ls_in := x\<rparr>) = length x" "ls_n (ls\<lparr>ls_in := x, ls_stack := s\<rparr>) = length x"
  by (simp_all add: ls_n_def)

lemma enc_nat_hd: "0 < n \<Longrightarrow> hd (enc_nat n) \<noteq> 0"
proof (cases "n < 128")
  case True
  then obtain b where "enc_nat n = [b]" "unat b = n" "\<not> 0x80 \<le> b" by (rule enc_nat_small)
  then show "0 < n \<Longrightarrow> ?thesis" by auto
next
  case False
  then obtain b where "enc_nat n = b # enc_nat (n div 128)" "unat b = n mod 128 + 128" "0x80 \<le> b" by (rule enc_nat_big)
  then show ?thesis by auto
qed

lemma proto_read:
  assumes l: "loadable st strip pt" and f: "flags_for strip (ls_flags ls)"
    and cs: "list_all2 (same_proto st strip (ls_chunkname ls)) (children (pt_kgc pt)) cs"
    and d: "ls_data ls = prefixed (enc_body st strip pt) @ rest" and s: "ls_stack ls = cs @ s"
    and ok: "ls_ok ls"
  shows "\<exists>ls' q. bcread_proto white ls = Inr (ls', Some q) \<and> ls_ok ls' \<and> ls_data ls' = rest \<and>
    same_rest (ls\<lparr>ls_stack := s\<rparr>) ls' \<and> same_proto st strip (ls_chunkname ls) pt q"
proof -
  let ?body = "enc_body st strip pt"
  let ?n = "length ?body"
  have n0: "0 < ?n" by (rule enc_body_nonempty)
  have nm: "?n \<le> LJ_MAX_MEM" using loadable_Proto(7) [OF l] .
  then have n32: "?n < 2 ^ 32" by (simp add: LJ_MAX_MEM_def)
  have un: "unat (of_nat ?n :: u32) = ?n" by (rule unat32 [OF n32])
  have en: "enc_nat ?n = enc_u (of_nat ?n)" by (simp add: enc_u_def un)
  have d': "ls_data ls = enc_u (of_nat ?n) @ ?body @ rest" using d by (simp add: prefixed_def en)
  have nz: "\<not> (ls_n ls > 0 \<and> hd (ls_in ls) = 0)"
  proof
    assume a: "ls_n ls > 0 \<and> hd (ls_in ls) = 0"
    then have "hd (ls_data ls) = 0" by (simp add: ls_data_def ls_n_def)
    moreover have "hd (ls_data ls) = hd (enc_nat ?n)" by (simp add: d prefixed_def)
    ultimately show False using enc_nat_hd [OF n0] by simp
  qed
  have dl: "5 \<le> length (ls_data ls)"
  proof -
    have "0 < length (enc_nat ?n)" by simp
    moreover have "4 \<le> ?n" using enc_head_not_Nil [of strip pt] by (simp add: enc_body_def Let_def enc_head_def)
    ultimately show ?thesis unfolding d prefixed_def length_append by linarith
  qed
  have "ls_n ls < 5 \<longrightarrow> 0 \<le> ls_current ls"
    using ok dl by (auto simp: ls_ok_def ls_data_def ls_n_def)
  then obtain l1 where l1: "bcread_want ls 5 = Inr l1" "ls_ok l1" "same_rest ls l1" "ls_data l1 = ls_data ls"
    "5 \<le> ls_n l1 \<or> ls_src l1 = []"
    using want_ok [OF ok, of 5] by (auto simp: LJ_MAX_MEM_def)
  have "length (enc_u (of_nat ?n)) \<le> ls_n l1 \<or> ls_src l1 = []"
    using l1(5) enc_u_length [of "of_nat ?n"] by auto
  then obtain r1 where r1: "ls_in l1 = enc_u (of_nat ?n) @ r1" "r1 @ concat (ls_src l1) = ?body @ rest"
    using in_prefix [of l1] l1(4) d' by metis
  define l2 where "l2 = l1\<lparr>ls_in := r1\<rparr>"
  have u: "bcread_uleb128 l1 = Inr (l2, of_nat ?n)"
    unfolding l2_def by (rule readsD [OF reads_u refl r1(1)])
  have d2: "ls_data l2 = ?body @ rest" using r1(2) by (simp add: l2_def ls_data_def)
  have o2: "ls_ok l2" using l1(2) by (simp add: l2_def ls_ok_in)
  obtain l3 where l3: "bcread_need l2 ?n = Inr l3" "ls_ok l3" "same_rest l2 l3" "ls_data l3 = ?body @ rest" "?n \<le> ls_n l3"
    using need_ok [OF o2 nm] d2 by auto
  obtain r3 where r3: "ls_in l3 = ?body @ r3" "r3 @ concat (ls_src l3) = rest"
    using in_prefix [OF l3(4)] l3(5) by blast
  have sr: "same_rest ls l3" using l1(3) l3(3) by (simp add: same_rest_def l2_def)
  then have c3: "ls_chunkname l3 = ls_chunkname ls" "ls_flags l3 = ls_flags ls" "ls_stack l3 = cs @ s"
    using s by (simp_all add: same_rest_def)
  obtain q where q: "rd_proto_body white l3 = Inr (l3\<lparr>ls_in := r3, ls_stack := s\<rparr>, q)"
    "same_proto st strip (ls_chunkname ls) pt q"
    using body_read [OF l, of l3 cs r3 s white] f cs r3(1) c3 by auto
  have nz2: "(of_nat ?n :: u32) \<noteq> 0" using un n0 by auto
  have "?n = ls_n l3 - length r3" by (simp add: ls_n_def r3(1))
  then have "bcread_proto white ls = Inr (l3\<lparr>ls_in := r3, ls_stack := s\<rparr>, Some q)"
    unfolding bcread_proto_def if_not_P [OF nz] l1(1) rbind_simps rd_bind_def u prod.case if_not_P [OF nz2] un l3(1)
      Let_def q(1) by simp
  moreover have "ls_data (l3\<lparr>ls_in := r3, ls_stack := s\<rparr>) = rest" using r3(2) by (simp add: ls_data_def)
  moreover have "same_rest (ls\<lparr>ls_stack := s\<rparr>) (l3\<lparr>ls_in := r3, ls_stack := s\<rparr>)"
    using sr by (simp add: same_rest_def)
  ultimately show ?thesis using q(2) l3(2) ls_ok_in(3) by blast
qed

lemma protos_read:
  "loadable st strip pt \<Longrightarrow> ls_ok ls \<Longrightarrow> flags_for strip (ls_flags ls) \<Longrightarrow>
   ls_data ls = concat (proto_blocks st strip pt) @ rest \<Longrightarrow>
   \<exists>ls' q. (\<forall>f. bcread_protos white (length (proto_blocks st strip pt) + f) ls = bcread_protos white f ls') \<and>
     ls_ok ls' \<and> ls_data ls' = rest \<and> same_rest (ls\<lparr>ls_stack := q # ls_stack ls\<rparr>) ls' \<and>
     same_proto st strip (ls_chunkname ls) pt q"
  "loadable_kgc st strip ks \<Longrightarrow> ls_ok ls \<Longrightarrow> flags_for strip (ls_flags ls) \<Longrightarrow>
   ls_data ls = concat (kgc_blocks st strip ks) @ rest \<Longrightarrow>
   \<exists>ls' cs. (\<forall>f. bcread_protos white (length (kgc_blocks st strip ks) + f) ls = bcread_protos white f ls') \<and>
     ls_ok ls' \<and> ls_data ls' = rest \<and> same_rest (ls\<lparr>ls_stack := cs @ ls_stack ls\<rparr>) ls' \<and>
     list_all2 (same_proto st strip (ls_chunkname ls)) (children ks) cs"
proof (induction st strip pt and st strip ks arbitrary: ls rest and ls rest rule: proto_blocks_kgc_blocks.induct)
  case (1 st strip fl np fs bc uv kg kn tr cn fl1 nl db)
  let ?pt = "Proto fl np fs bc uv kg kn tr cn fl1 nl db"
  let ?last = "prefixed (enc_body st strip ?pt)"
  define pre where "pre = (if fl AND PROTO_CHILD \<noteq> 0 then kgc_blocks st strip kg else [])"
  have b: "proto_blocks st strip ?pt = pre @ [?last]" by (simp add: pre_def)
  have d: "ls_data ls = concat pre @ ?last @ rest" using "1.prems"(4) unfolding b by simp
  obtain l1 cs where l1: "\<forall>f. bcread_protos white (length pre + f) ls = bcread_protos white f l1" "ls_ok l1"
    "ls_data l1 = ?last @ rest" "same_rest (ls\<lparr>ls_stack := cs @ ls_stack ls\<rparr>) l1"
    "list_all2 (same_proto st strip (ls_chunkname ls)) (children kg) cs"
  proof (cases "fl AND PROTO_CHILD \<noteq> 0")
    case True
    have k: "loadable_kgc st strip kg" using "1.prems"(1) by simp
    show ?thesis using "1.IH" [OF True k "1.prems"(2,3), of "?last @ rest"] d that True by (auto simp: pre_def)
  next
    case False
    then have "children kg = []" using "1.prems"(1) by auto
    then show ?thesis using that [of ls "[]"] "1.prems"(2) d False by (simp add: pre_def same_rest_def)
  qed
  have s1: "ls_chunkname l1 = ls_chunkname ls" "ls_flags l1 = ls_flags ls" "ls_stack l1 = cs @ ls_stack ls"
    using l1(4) by (simp_all add: same_rest_def)
  obtain l2 q where l2: "bcread_proto white l1 = Inr (l2, Some q)" "ls_ok l2" "ls_data l2 = rest"
    "same_rest (l1\<lparr>ls_stack := ls_stack ls\<rparr>) l2" "same_proto st strip (ls_chunkname ls) ?pt q"
    using proto_read [OF "1.prems"(1), of l1 cs rest "ls_stack ls" white] "1.prems"(3) l1 s1 by auto
  let ?ls = "l2\<lparr>ls_stack := q # ls_stack l2\<rparr>"
  have "bcread_protos white (length (proto_blocks st strip ?pt) + f) ls = bcread_protos white f ?ls" for f
    using l1(1) [rule_format, of "Suc f"] l2(1) unfolding b by simp
  moreover have "same_rest (ls\<lparr>ls_stack := q # ls_stack ls\<rparr>) ?ls"
    using l2(4) s1 l1(4) by (simp add: same_rest_def)
  moreover have "ls_ok ?ls" "ls_data ?ls = rest" using l2 by (simp_all add: ls_ok_in ls_data_def)
  ultimately show ?case using l2(5) by blast
next
  case (2 st strip)
  then show ?case by (intro exI [of _ ls] exI [of _ "[]"]) (simp add: same_rest_def)
next
  case (3 st strip k ks)
  have kk: "loadable_kgc st strip ks" using "3.prems"(1) by simp
  show ?case
  proof (cases "\<exists>p. k = KChild p")
    case True
    then obtain p where p: "k = KChild p" by blast
    then have lp: "loadable st strip p" using "3.prems"(1) by simp
    obtain l1 cs where l1: "\<forall>f. bcread_protos white (length (kgc_blocks st strip ks) + f) ls = bcread_protos white f l1"
      "ls_ok l1" "ls_data l1 = concat (proto_blocks st strip p) @ rest"
      "same_rest (ls\<lparr>ls_stack := cs @ ls_stack ls\<rparr>) l1"
      "list_all2 (same_proto st strip (ls_chunkname ls)) (children ks) cs"
      using "3.IH"(1) [OF kk "3.prems"(2,3), of "concat (proto_blocks st strip p) @ rest"] "3.prems"(4) p by auto
    have s1: "ls_chunkname l1 = ls_chunkname ls" "ls_flags l1 = ls_flags ls" "ls_stack l1 = cs @ ls_stack ls"
      using l1(4) by (simp_all add: same_rest_def)
    have f1: "flags_for strip (ls_flags l1)" using "3.prems"(3) s1 by simp
    obtain l2 q where l2: "\<forall>f. bcread_protos white (length (proto_blocks st strip p) + f) l1 = bcread_protos white f l2"
      "ls_ok l2" "ls_data l2 = rest" "same_rest (l1\<lparr>ls_stack := q # ls_stack l1\<rparr>) l2"
      "same_proto st strip (ls_chunkname ls) p q"
      using "3.IH"(2) [OF p lp l1(2) f1 l1(3)] s1 by auto
    have "bcread_protos white (length (kgc_blocks st strip (k # ks)) + f) ls = bcread_protos white f l2" for f
      using l1(1) [rule_format, of "length (proto_blocks st strip p) + f"] l2(1) by (simp add: p add.assoc)
    moreover have "same_rest (ls\<lparr>ls_stack := (q # cs) @ ls_stack ls\<rparr>) l2"
      using l2(4) l1(4) s1 by (simp add: same_rest_def)
    moreover have "list_all2 (same_proto st strip (ls_chunkname ls)) (children (k # ks)) (q # cs)"
      using l1(5) l2(5) by (simp add: p)
    ultimately show ?thesis using l2(2,3) by blast
  next
    case False
    then have "kgc_blocks st strip (k # ks) = kgc_blocks st strip ks" "children (k # ks) = children ks"
      by (cases k; simp)+
    then show ?thesis using "3.IH"(1) [OF kk "3.prems"(2,3), of rest] "3.prems"(4) by metis
  qed
qed


subsection \<open>The whole dump\<close>

lemma footer_read:
  assumes "ls_ok ls" "ls_data ls = [0]"
  shows "\<exists>ls'. bcread_proto white ls = Inr (ls', None) \<and> ls_in ls' = [] \<and> ls_stack ls' = ls_stack ls"
proof (cases "ls_n ls > 0")
  case True
  then have "ls_in ls = [0]" using assms(2) by (cases "ls_in ls") (auto simp: ls_data_def ls_n_def)
  then show ?thesis by (simp add: bcread_proto_def ls_n_def)
next
  case False
  then have e: "ls_in ls = []" by (simp add: ls_n_def)
  then have "ls_src ls \<noteq> []" using assms(2) by (auto simp: ls_data_def)
  then have "0 \<le> ls_current ls" using assms(1) by (auto simp: ls_ok_def)
  then obtain l1 where l1: "bcread_want ls 5 = Inr l1" "same_rest ls l1" "ls_data l1 = [0]" "5 \<le> ls_n l1 \<or> ls_src l1 = []"
    using want_ok [OF assms(1), of 5] assms(2) by (auto simp: LJ_MAX_MEM_def)
  then have "length [0 :: byte] \<le> ls_n l1 \<or> ls_src l1 = []" by auto
  then obtain r where r: "ls_in l1 = [0] @ r" "r @ concat (ls_src l1) = []"
    using in_prefix [of l1 "[0]" "[]"] l1(3) by auto
  have "enc_u 0 = [0]" by (simp add: enc_u_small)
  then have "bcread_uleb128 l1 = Inr (l1\<lparr>ls_in := []\<rparr>, 0)"
    using readsD [OF reads_u [of "ls_flags l1" 0] refl, of "[]"] r by simp
  then show ?thesis
    using False l1(1,2) by (simp add: bcread_proto_def rd_bind_def same_rest_def)
qed

definition dump_name :: "bool \<Rightarrow> proto \<Rightarrow> byte list \<Rightarrow> byte list" where
  "dump_name strip pt chunkarg = (if strip then chunkarg else pt_chunkname pt)"

definition header_flags :: "bool \<Rightarrow> proto \<Rightarrow> u32" where
  "header_flags strip pt =
     (if strip then BCDUMP_F_STRIP else 0) + (if pt_flags pt AND PROTO_FFI \<noteq> 0 then BCDUMP_F_FFI else 0)"

lemma header_flags_ok:
  "flags_for strip (header_flags strip pt)" "header_flags strip pt AND NOT BCDUMP_F_KNOWN = 0"
  "unat (header_flags strip pt) < 128"
  by (auto simp: flags_for_def header_flags_def BCDUMP_F_BE_def BCDUMP_F_STRIP_def BCDUMP_F_FFI_def BCDUMP_F_KNOWN_def)

lemma rd_bind_Inr: "m ls = Inr (ls', x) \<Longrightarrow> rd_bind m f ls = f x ls'"
  by (simp add: rd_bind_def)

lemma header_read:
  assumes ok: "ls_ok ls" "0 \<le> ls_current ls" and d: "ls_data ls = tl (enc_header strip pt) @ rest"
    and len: "length (dump_name strip pt (ls_chunkarg ls)) < LJ_MAX_STR"
  shows "\<exists>ls'. bcread_header ls = Inr (ls', True) \<and> ls_ok ls' \<and> ls_data ls' = rest \<and>
    ls_stack ls' = ls_stack ls \<and> flags_for strip (ls_flags ls') \<and>
    ls_chunkname ls' = dump_name strip pt (ls_chunkarg ls)"
proof -
  let ?fl = "header_flags strip pt" and ?name = "pt_chunkname pt"
  note F = header_flags_ok [of strip pt]
  have strip: "(?fl AND BCDUMP_F_STRIP \<noteq> 0) = strip" using F(1) by (simp add: flags_for_def)
  define tail where "tail = (if strip then [] else enc_u (of_nat (length ?name)) @ ?name)"
  have h: "tl (enc_header strip pt) = [BCDUMP_HEAD2] @ [BCDUMP_HEAD3] @ [BCDUMP_VERSION] @ enc_u ?fl @ tail"
    unfolding enc_u_small [OF F(3)] by (simp add: enc_header_def tail_def header_flags_def [symmetric])
  obtain l1 where l1: "bcread_want ls (3 + 5 + 5) = Inr l1" "ls_ok l1" "same_rest ls l1"
    "ls_data l1 = ls_data ls" "3 + 5 + 5 \<le> ls_n l1 \<or> ls_src l1 = []"
    using want_ok [OF ok(1), of "3 + 5 + 5"] ok(2) by (auto simp: LJ_MAX_MEM_def)
  define pre where "pre = [BCDUMP_HEAD2] @ [BCDUMP_HEAD3] @ [BCDUMP_VERSION] @ enc_u ?fl @
      (if strip then [] else enc_u (of_nat (length ?name)))"
  have "length pre \<le> ls_n l1 \<or> ls_src l1 = []"
    using l1(5) enc_u_length [of ?fl] enc_u_length [of "of_nat (length ?name)"] by (auto simp: pre_def)
  moreover have "ls_data l1 = pre @ (if strip then [] else ?name) @ rest"
    unfolding l1(4) d h pre_def tail_def by simp
  ultimately obtain r where r: "ls_in l1 = pre @ r" "r @ concat (ls_src l1) = (if strip then [] else ?name) @ rest"
    using in_prefix by metis
  define r0 where "r0 = (if strip then [] else enc_u (of_nat (length ?name))) @ r"
  define l2 where "l2 = l1\<lparr>ls_in := r0\<rparr>"
  define fin where "fin = (\<lambda>flags ls.
         let ls = ls\<lparr>ls_flags := flags\<rparr> in
         if flags AND NOT BCDUMP_F_KNOWN \<noteq> 0 then Inr (ls, False)
         else if flags AND BCDUMP_F_STRIP \<noteq> 0 then
           (if length (ls_chunkarg ls) \<ge> LJ_MAX_STR then Inl ERR_STROV
            else Inr (ls\<lparr>ls_chunkname := ls_chunkarg ls\<rparr>, True))
         else rd_bind bcread_uleb128 (\<lambda>len ls.
           rbind (bcread_need ls (unat len)) (\<lambda>ls.
             rd_bind (rd_str (unat len)) (\<lambda>s ls.
               Inr (ls\<lparr>ls_chunkname := s\<rparr>, True)) ls)) ls)"
  have u: "bcread_uleb128 (l1\<lparr>ls_in := enc_u ?fl @ r0\<rparr>) = Inr (l2, ?fl)"
    using readsD [OF reads_u [of "ls_flags l1" ?fl], of "l1\<lparr>ls_in := enc_u ?fl @ r0\<rparr>" r0] by (simp add: l2_def)
  have i: "ls_in l1 = BCDUMP_HEAD2 # BCDUMP_HEAD3 # BCDUMP_VERSION # enc_u ?fl @ r0"
    using r(1) by (simp add: pre_def r0_def)
  have run: "bcread_header ls = fin ?fl l2"
    unfolding bcread_header_def l1(1) rbind_simps fin_def [symmetric]
    by (simp add: rd_bind_Inr bcread_byte_def i u)
  have st: "ls_stack l2 = ls_stack ls" "ls_chunkarg l2 = ls_chunkarg ls" using l1(3) by (simp_all add: l2_def same_rest_def)
  show ?thesis
  proof (cases strip)
    case True
    let ?ls = "l2\<lparr>ls_flags := ?fl, ls_chunkname := ls_chunkarg l2\<rparr>"
    have "fin ?fl l2 = Inr (?ls, True)"
      using True strip F(2) len st by (simp add: fin_def Let_def dump_name_def)
    moreover have "ls_ok ?ls" using l1(2) by (simp add: l2_def ls_ok_def)
    moreover have "ls_data ?ls = rest" using r(2) True by (simp add: l2_def ls_data_def r0_def)
    ultimately show ?thesis using run F(1) st True by (simp add: dump_name_def)
  next
    case False
    have ln: "length ?name < LJ_MAX_STR" using len False by (simp add: dump_name_def)
    then have un: "unat (of_nat (length ?name) :: u32) = length ?name" by (intro unat32) (simp add: LJ_MAX_STR_def)
    let ?l2 = "l2\<lparr>ls_flags := ?fl\<rparr>"
    define l3 where "l3 = ?l2\<lparr>ls_in := r\<rparr>"
    have u2: "bcread_uleb128 ?l2 = Inr (l3, of_nat (length ?name))"
      unfolding l3_def by (rule readsD [OF reads_u refl]) (use False in \<open>simp add: l2_def r0_def\<close>)
    have o3: "ls_ok l3" using l1(2) by (simp add: l3_def l2_def ls_ok_def)
    have d3: "ls_data l3 = ?name @ rest" using r(2) False by (simp add: l3_def l2_def ls_data_def)
    have "length ?name \<le> LJ_MAX_MEM" using ln by (simp add: LJ_MAX_MEM_def LJ_MAX_STR_def)
    from need_ok [OF o3 this] d3
    obtain l4 where l4: "bcread_need l3 (length ?name) = Inr l4" "ls_ok l4" "same_rest l3 l4"
      "ls_data l4 = ?name @ rest" "length ?name \<le> ls_n l4" by auto
    then obtain r4 where r4: "ls_in l4 = ?name @ r4" "r4 @ concat (ls_src l4) = rest"
      using in_prefix [OF l4(4)] by blast
    have s: "rd_str (length ?name) l4 = Inr (l4\<lparr>ls_in := r4\<rparr>, ?name)"
      by (rule readsD [OF reads_str [OF ln] refl r4(1)])
    have "fin ?fl l2 = Inr (l4\<lparr>ls_in := r4, ls_chunkname := ?name\<rparr>, True)"
      using False strip F(2) u2 by (simp add: fin_def Let_def rd_bind_def un l4(1) s)
    moreover have "ls_data (l4\<lparr>ls_in := r4, ls_chunkname := ?name\<rparr>) = rest" using r4(2) by (simp add: ls_data_def)
    moreover have "ls_ok (l4\<lparr>ls_in := r4, ls_chunkname := ?name\<rparr>)" using l4(2) by (simp add: ls_ok_def)
    ultimately show ?thesis
      using run l4(3) st F(1) False by (simp add: l3_def same_rest_def dump_name_def)
  qed
qed

lemma length_le_concat: "\<forall>b \<in> set bs. b \<noteq> [] \<Longrightarrow> length bs \<le> length (concat bs)"
  by (induction bs) (auto simp: Suc_le_eq neq_Nil_conv)

lemma bcread_dump:
  assumes "loadable st strip pt" "ls_ok ls" "0 \<le> ls_current ls"
    and "ls_data ls = tl (concat (dump_blocks st strip pt))"
    and "length (dump_name strip pt (ls_chunkarg ls)) < LJ_MAX_STR"
  shows "\<exists>ls' q. lj_bcread white ls = Inr (ls', q) \<and>
    same_proto st strip (dump_name strip pt (ls_chunkarg ls)) pt q"
proof -
  let ?l0 = "ls\<lparr>ls_sbn := 0, ls_stack := []\<rparr>" and ?bs = "proto_blocks st strip pt"
  have o0: "ls_ok ?l0" "0 \<le> ls_current ?l0" using assms(2,3) by (simp_all add: ls_ok_def)
  have d0: "ls_data ?l0 = tl (enc_header strip pt) @ concat ?bs @ [0]"
    using assms(4) by (simp add: dump_blocks_def ls_data_def enc_header_def)
  obtain l1 where l1: "bcread_header ?l0 = Inr (l1, True)" "ls_ok l1" "ls_data l1 = concat ?bs @ [0]"
    "ls_stack l1 = []" "flags_for strip (ls_flags l1)" "ls_chunkname l1 = dump_name strip pt (ls_chunkarg ls)"
    using header_read [OF o0 d0] assms(5) by auto
  obtain l2 q where l2: "\<forall>f. bcread_protos white (length ?bs + f) l1 = bcread_protos white f l2" "ls_ok l2"
    "ls_data l2 = [0]" "same_rest (l1\<lparr>ls_stack := q # ls_stack l1\<rparr>) l2"
    "same_proto st strip (ls_chunkname l1) pt q"
    using protos_read(1) [OF assms(1) l1(2,5,3), where white = white] by blast
  obtain l3 where l3: "bcread_proto white l2 = Inr (l3, None)" "ls_in l3 = []" "ls_stack l3 = ls_stack l2"
    using footer_read [OF l2(2,3)] by blast
  have "length ?bs \<le> length (concat ?bs)"
  proof -
    have "b \<noteq> []" if "b \<in> set ?bs" for b using that
    proof (cases "b = []")
      case True
      have "[] \<notin> set (proto_blocks st strip pt)" "[] \<notin> set (kgc_blocks st strip ks)" for ks
        by (induction st strip pt and st strip ks rule: proto_blocks_kgc_blocks.induct)
          (auto simp: prefixed_def split: kgc.splits)
      then show ?thesis using that True by simp
    qed
    then show ?thesis by (intro length_le_concat) blast
  qed
  moreover have "ls_total l1 = length (ls_data l1)" by (simp add: ls_total_def ls_data_def)
  then have "ls_total l1 = length (concat ?bs) + 1" by (simp only: l1(3)) simp
  ultimately have "length ?bs \<le> ls_total l1" by simp
  then obtain f where "ls_total l1 = length ?bs + f" using le_Suc_ex by blast
  then have t: "Suc (ls_total l1) = length ?bs + Suc f" by simp
  have "bcread_protos white (length ?bs + Suc f) l1 = bcread_protos white (Suc f) l2" using l2(1) by blast
  also have "\<dots> = Inr l3" using l3(1) by simp
  finally have p: "bcread_protos white (Suc (ls_total l1)) l1 = Inr l3" unfolding t .
  have "ls_stack l3 = [q]" using l3(3) l2(4) l1(4) by (simp add: same_rest_def)
  then have "lj_bcread white ls = Inr (l3\<lparr>ls_stack := []\<rparr>, q)"
    unfolding lj_bcread_def l1(1) rbind_simps prod.case p by (simp add: l3(2) ls_n_def)
  then show ?thesis using l2(5) l1(6) by auto
qed

end
