(* ===== verification/LJ_BcProps.thy ===== *)
theory LJ_BcProps
  imports LJ_BcRound
begin

text \<open>
  Loading ends on every input, and the properties of the dump format.
\<close>

subsection \<open>Loading ends\<close>

text \<open>\<open>tame f\<close>: from any state \<open>f\<close> does not run forever, and no input is left unaccounted.\<close>

definition tame_res :: "lexst \<Rightarrow> (lexst \<times> 'a) res \<Rightarrow> bool" where
  "tame_res ls r \<longleftrightarrow> (case r of Inl e \<Rightarrow> e \<noteq> DIVERGE
     | Inr (ls', x) \<Rightarrow> 0 < ls_sbsz ls' \<and> ls_total ls' \<le> ls_total ls)"

definition tame :: "'a rd \<Rightarrow> bool" where
  "tame f \<longleftrightarrow> (\<forall>ls. 0 < ls_sbsz ls \<longrightarrow> tame_res ls (f ls))"

lemma tameD: "tame f \<Longrightarrow> 0 < ls_sbsz ls \<Longrightarrow> tame_res ls (f ls)"
  by (simp add: tame_def)

lemma tame_ret [intro, simp]: "tame (rd_ret x)"
  by (simp add: tame_def tame_res_def rd_ret_def)

lemma tame_const_ret [intro, simp]: "tame (\<lambda>ls. Inr (ls, h ls))"
  by (simp add: tame_def tame_res_def)

lemma tame_err [intro, simp]: "e \<noteq> DIVERGE \<Longrightarrow> tame (\<lambda>ls. Inl e)"
  by (simp add: tame_def tame_res_def)

lemma tame_bind [intro]:
  assumes "tame f" "\<And>x. tame (g x)"
  shows "tame (rd_bind f g)"
  unfolding tame_def
proof (intro allI impI)
  fix ls :: lexst assume s: "0 < ls_sbsz ls"
  show "tame_res ls (rd_bind f g ls)"
  proof (cases "f ls")
    case (Inl e)
    then show ?thesis using tameD [OF assms(1) s] by (simp add: rd_bind_def tame_res_def)
  next
    case (Inr p)
    obtain ls' x where p: "p = (ls', x)" by (cases p)
    have l: "0 < ls_sbsz ls'" "ls_total ls' \<le> ls_total ls"
      using tameD [OF assms(1) s] by (simp_all add: Inr p tame_res_def)
    have "tame_res ls' (g x ls')" using tameD [OF assms(2) l(1)] .
    then show ?thesis using l by (auto simp: rd_bind_def Inr p tame_res_def split: sum.splits)
  qed
qed

lemma tame_if [intro]: "tame f \<Longrightarrow> tame g \<Longrightarrow> tame (if b then f else g)"
  by simp

lemma tame_if_state [intro]: "tame f \<Longrightarrow> tame g \<Longrightarrow> tame (\<lambda>ls. if h ls then f ls else g ls)"
  by (simp add: tame_def)

lemma tame_mem [intro]: "tame (bcread_mem n)"
  by (auto simp: tame_def tame_res_def bcread_mem_def ls_total_def)

lemma tame_block [intro]: "tame (bcread_block n)"
  by (simp add: bcread_block_def tame_mem)

lemma tame_byte [intro]: "tame bcread_byte"
  by (auto simp: tame_def tame_res_def bcread_byte_def ls_total_def split: list.split)

lemma uleb128_loop_end:
  "case uleb128_loop v sh bs of Inl e \<Rightarrow> e = OOB | Inr (r, x) \<Rightarrow> length r < length bs"
  by (induction v sh bs rule: uleb128_loop.induct) (auto simp: Let_def less_SucI split: sum.splits)

lemma tame_u [intro]: "tame bcread_uleb128"
  unfolding tame_def
proof (intro allI impI)
  fix ls :: lexst assume s: "0 < ls_sbsz ls"
  show "tame_res ls (bcread_uleb128 ls)"
  proof (cases "ls_in ls")
    case (Cons b bs)
    show ?thesis using s uleb128_loop_end [where v = "ucast b AND 0x7f" and sh = 0 and bs = bs]
      by (auto simp: bcread_uleb128_def Cons tame_res_def ls_total_def rbind_def split: sum.splits)
  qed (simp add: bcread_uleb128_def tame_res_def)
qed

lemma tame_u33 [intro]: "tame bcread_uleb128_33"
  unfolding tame_def
proof (intro allI impI)
  fix ls :: lexst assume s: "0 < ls_sbsz ls"
  show "tame_res ls (bcread_uleb128_33 ls)"
  proof (cases "ls_in ls")
    case (Cons b bs)
    show ?thesis using s uleb128_loop_end [where v = "drop_bit 1 (ucast b) AND 0x3f" and sh = "- 1" and bs = bs]
      by (auto simp: bcread_uleb128_33_def Cons tame_res_def ls_total_def rbind_def Let_def split: sum.splits)
  qed (simp add: bcread_uleb128_33_def tame_res_def)
qed

lemma tame_str [intro]: "tame (rd_str n)"
  unfolding rd_str_def by (intro tame_bind tame_mem tame_if_state) simp_all

lemma tame_ktabk [intro]: "tame bcread_ktabk"
  unfolding bcread_ktabk_def by (intro tame_bind tame_if tame_u tame_str tame_ret)

lemma tame_array [intro]: "tame (rd_array n)"
  by (induction n) (auto simp del: fun_upd_apply)


lemma tame_rbind:
  assumes "r \<noteq> Inl DIVERGE" "\<And>x. r = Inr x \<Longrightarrow> tame (g x)"
  shows "tame (\<lambda>ls. rbind r (\<lambda>x. g x ls))"
  using assms by (cases r) (auto simp: tame_def tame_res_def)

lemma tame_rbind2:
  assumes "r \<noteq> Inl DIVERGE" "\<And>a b. r = Inr (a, b) \<Longrightarrow> tame (g a b)"
  shows "tame (\<lambda>ls. rbind r (\<lambda>(a, b). g a b ls))"
  using assms by (cases r) (auto simp: tame_def tame_res_def)

text \<open>Every key the input can hold is either refused or set without losing the invariant.\<close>

lemma set_any_key:
  assumes "tab_ok t"
  shows "lj_tab_set t k \<noteq> Inl DIVERGE" "lj_tab_set t k = Inr (t', s) \<Longrightarrow> tab_ok (slot_put t' s v)"
proof -
  have "(\<exists>e. lj_tab_set t k = Inl e \<and> e \<noteq> DIVERGE) \<or>
    (\<exists>t' s. lj_tab_set t k = Inr (t', s) \<and> tab_ok (slot_put t' s v))"
  proof (cases "settable k")
    case True
    then show ?thesis using lj_tab_set_ok [OF assms True] by (auto simp: assigns_def)
  next
    case False
    then show ?thesis using lj_tab_set_err by (auto simp: settable_def)
  qed
  then show "lj_tab_set t k \<noteq> Inl DIVERGE" "lj_tab_set t k = Inr (t', s) \<Longrightarrow> tab_ok (slot_put t' s v)"
    by auto
qed

lemma tame_hash: "tab_ok t \<Longrightarrow> tame (rd_hash n t)"
proof (induction n arbitrary: t)
  case (Suc n)
  have "tame (\<lambda>ls. rbind (lj_tab_set t key) (\<lambda>(t, s).
         rd_bind bcread_ktabk (\<lambda>v. rd_hash n (slot_put t s v)) ls))" for key
    by (rule tame_rbind2 [OF set_any_key(1) [OF Suc.prems]])
      (use set_any_key(2) [OF Suc.prems] Suc.IH in auto)
  then show ?case by (simp add: tame_bind tame_ktabk)
qed simp

lemma rd_array_length:
  "rd_array n ls = Inr (ls', vs) \<Longrightarrow> length vs = n"
  by (induction n arbitrary: ls ls' vs) (auto simp: rd_ret_def rd_bind_def rbind_Inr_iff)

lemma tame_bind_post:
  assumes "tame f" "\<And>x ls ls'. f ls = Inr (ls', x) \<Longrightarrow> tame (g x)"
  shows "tame (rd_bind f g)"
proof -
  have "tame (rd_bind f (\<lambda>x. if \<exists>ls ls'. f ls = Inr (ls', x) then g x else (\<lambda>ls. Inl OOB)))"
    by (rule tame_bind [OF assms(1)]) (use assms(2) in auto)
  moreover have "rd_bind f (\<lambda>x. if \<exists>ls ls'. f ls = Inr (ls', x) then g x else (\<lambda>ls. Inl OOB)) = rd_bind f g"
    by (rule ext) (auto simp: rd_bind_def rbind_def split: sum.split)
  ultimately show ?thesis by simp
qed

lemma new_then_fill:
  assumes "lj_tab_new white a b = Inr t" "length vs = a"
  shows "tab_ok (t\<lparr>tb_array := vs\<rparr>)"
proof -
  obtain t0 where t0: "newtab white a b = Inr t0" using assms(1) by (auto simp: lj_tab_new_def rbind_Inr_iff)
  note R = newtab_result(2,3) [OF t0]
  have t: "t = (let t = clearapart t0 in if tb_hmask t > 0 then clearhpart t else t)"
    using assms(1) by (simp add: lj_tab_new_def t0 Let_def)
  note C = cleared [OF t0, folded t]
  show ?thesis
    by (rule fresh_table(1) [of _ b]) (use C R assms(2) in \<open>simp_all add: tb_asize_def\<close>)
qed

lemma tame_ktab [intro]: "tame (bcread_ktab white)"
proof -
  have "tame (\<lambda>ls. rbind (lj_tab_new white a b) (\<lambda>t.
         rd_bind (rd_array a) (\<lambda>vs. rd_hash n (t\<lparr>tb_array := vs\<rparr>)) ls))" for a b n
  proof (rule tame_rbind)
    show "lj_tab_new white a b \<noteq> Inl DIVERGE" using lj_tab_new_err by blast
    show "tame (rd_bind (rd_array a) (\<lambda>vs. rd_hash n (t\<lparr>tb_array := vs\<rparr>)))" if "lj_tab_new white a b = Inr t" for t
      by (rule tame_bind_post [OF tame_array tame_hash [OF new_then_fill [OF that rd_array_length]]])
  qed
  then show ?thesis unfolding bcread_ktab_def by (intro tame_bind tame_u)
qed

lemma tame_w64 [intro]: "tame rd_w64"
  unfolding rd_w64_def by (intro tame_bind tame_u tame_ret)

lemma tame_child [intro]: "tame rd_child"
  by (auto simp: tame_def tame_res_def rd_child_def ls_total_def split: list.split)

lemma tame_kgc [intro]: "tame (bcread_kgc white n)"
proof (induction n)
  case (Suc n)
  have "tame (bcread_kgc1 white)"
    unfolding bcread_kgc1_def
    by (intro tame_bind tame_if tame_u tame_str tame_ret tame_ktab tame_w64 tame_child)
  then show ?case using Suc by (auto intro!: tame_bind)
qed simp

lemma tame_knum [intro]: "tame (bcread_knum n)"
proof (induction n)
  case (Suc n)
  have "tame (rd_bind bcread_uleb128_33 (\<lambda>lo.
            if b then rd_bind bcread_uleb128 (\<lambda>hi. rd_ret (join32 lo hi))
            else rd_ret (num_of_int (sint lo))))" for b
    by (intro tame_bind tame_if tame_u tame_u33 tame_ret)
  then have "tame bcread_knum1" unfolding bcread_knum1_def tame_def
    by (auto simp: tame_res_def split: list.split)
  then show ?case using Suc by (auto intro!: tame_bind)
qed simp

lemma swap16_end: "swap16 n p \<noteq> Inl DIVERGE"
  by (induction n p rule: swap16.induct) (auto simp: rbind_Inl_iff)

lemma swap32_end: "swap32 n p \<noteq> Inl DIVERGE"
  by (induction n p rule: swap32.induct) (auto simp: rbind_Inl_iff)

lemma skip_end: "skip_names p n i \<noteq> Inl DIVERGE"
  by (induction p n i rule: skip_names.induct) auto

lemma tame_dbg [intro]: "tame (rd_dbg a b c d)"
proof -
  have s: "tame (\<lambda>ls. rbind (if bcread_swap ls \<and> q
              then (if q' then swap16 n p else swap32 n p) else Inr p) (\<lambda>p. Inr (ls, p)))" for q q' n p
    using swap16_end [of n p] swap32_end [of n p] by (auto simp: tame_def tame_res_def rbind_def split: sum.split)
  have "tame (bcread_dbg a c d)"
    unfolding bcread_dbg_def Let_def by (intro tame_bind tame_block s)
  moreover have "tame (\<lambda>ls. rbind (bcread_varinfo p u b) (\<lambda>v. Inr (ls, Some (Dbg p u v))))" for p u
    using skip_end by (auto simp: bcread_varinfo_def intro!: tame_rbind)
  ultimately show ?thesis unfolding rd_dbg_def Let_def by (intro tame_if tame_bind tame_ret)
qed

lemma tame_body: "tame (rd_proto_body white)"
proof -
  have h: "tame rd_proto_head"
    unfolding rd_proto_head_def
    by (intro tame_bind tame_byte tame_u tame_if_state tame_if tame_ret)
  have b: "tame (bcread_bytecode f s n)" "tame (bcread_uv m)" for f s n m
    unfolding bcread_bytecode_def bcread_uv_def Let_def
    by (intro tame_bind tame_block tame_const_ret tame_if tame_ret)+
  show ?thesis
    unfolding rd_proto_body_def
    by (rule tame_bind [OF h]) (auto intro!: tame_bind b tame_kgc tame_knum tame_dbg tame_const_ret tame_if)
qed


lemma resize_end:
  "0 < ls_sbsz ls \<Longrightarrow> case bcread_resize ls len of Inl e \<Rightarrow> e \<noteq> DIVERGE
   | Inr ls' \<Rightarrow> 0 < ls_sbsz ls' \<and> ls_in ls' = ls_in ls \<and> ls_src ls' = ls_src ls"
  using resize_ok [of ls len] by auto

lemma fill_loop_end:
  "0 < ls_sbsz ls \<Longrightarrow> case fill_loop src ls len nd of Inl e \<Rightarrow> e \<noteq> DIVERGE
   | Inr ls' \<Rightarrow> 0 < ls_sbsz ls' \<and> ls_total ls' \<le> length (ls_in ls) + length (concat src)"
proof (induction src arbitrary: ls)
  case Nil
  have "case fill_copy ls len of Inl e \<Rightarrow> e \<noteq> DIVERGE
   | Inr ls' \<Rightarrow> 0 < ls_sbsz ls' \<and> ls_in ls' = ls_in ls"
    using Nil resize_end [OF Nil, of len] by (auto simp: fill_copy_def rbind_def split: sum.splits)
  then show ?case
    unfolding fill_loop.simps [of "[]"] by (auto simp: rbind_def ls_total_def split: sum.splits)
next
  case (Cons buf rest)
  have c: "case fill_copy ls len of Inl e \<Rightarrow> e \<noteq> DIVERGE
   | Inr ls' \<Rightarrow> 0 < ls_sbsz ls' \<and> ls_in ls' = ls_in ls \<and> ls_sbn ls' = length (ls_in ls)"
    using Cons.prems resize_end [OF Cons.prems, of len]
    by (auto simp: fill_copy_def rbind_def ls_n_def split: sum.splits)
  show ?case
  proof (cases "fill_copy ls len")
    case (Inl e)
    then show ?thesis using c unfolding fill_loop.simps [of "buf # rest"] by simp
  next
    case (Inr l1)
    then have l1: "0 < ls_sbsz l1" "ls_in l1 = ls_in ls" "ls_sbn l1 = length (ls_in ls)" using c by simp_all
    define app where "app = (if ls_sbn l1 \<noteq> 0 then
                      (let n = ls_sbn l1 + length buf in
                       rbind (bcread_resize l1 (if n < len then len else n)) (\<lambda>ls.
                         if n \<le> ls_sbsz ls
                         then Inr (ls\<lparr>ls_sbn := n, ls_in := ls_in ls @ buf, ls_src := rest\<rparr>)
                         else Inl OOB))
                    else Inr (l1\<lparr>ls_in := buf, ls_src := rest\<rparr>))"
    have a: "case app of Inl e \<Rightarrow> e \<noteq> DIVERGE
     | Inr l2 \<Rightarrow> 0 < ls_sbsz l2 \<and> ls_in l2 = ls_in ls @ buf \<and> ls_src l2 = rest"
    proof (cases "ls_sbn l1 \<noteq> 0")
      case True
      define n m where "n = ls_sbn l1 + length buf" and "m = (if n < len then len else n)"
      have "app = rbind (bcread_resize l1 m) (\<lambda>ls. if n \<le> ls_sbsz ls
          then Inr (ls\<lparr>ls_sbn := n, ls_in := ls_in ls @ buf, ls_src := rest\<rparr>) else Inl OOB)"
        using True unfolding app_def n_def m_def Let_def by simp
      then show ?thesis using l1 resize_end [OF l1(1), of m]
        by (cases "bcread_resize l1 m") simp_all
    next
      case False
      then show ?thesis using l1 by (simp add: app_def)
    qed
    have st: "fill_loop (buf # rest) ls len nd = (if buf = [] then
             (if nd then Inl ERR_BCBAD else Inr (l1\<lparr>ls_current := -1, ls_src := rest\<rparr>))
           else rbind app (\<lambda>ls. if ls_n ls < len then fill_loop rest ls len nd else Inr ls))"
      unfolding fill_loop.simps [of "buf # rest"] Inr rbind_simps app_def by simp
    show ?thesis
    proof (cases "buf = []")
      case True
      then show ?thesis using l1 unfolding st by (simp add: ls_total_def)
    next
      case False
      show ?thesis
      proof (cases app)
        case (Inl e)
        then show ?thesis using a False unfolding st by simp
      next
        case (Inr l2)
        then have l2: "0 < ls_sbsz l2" "ls_in l2 = ls_in ls @ buf" "ls_src l2 = rest" using a by simp_all
        then show ?thesis using Cons.IH [OF l2(1)] False unfolding st Inr
          by (auto simp: ls_total_def split: sum.splits)
      qed
    qed
  qed
qed

lemma fill_end:
  assumes "0 < ls_sbsz ls"
  shows "case bcread_want ls n of Inl e \<Rightarrow> e \<noteq> DIVERGE | Inr ls' \<Rightarrow> 0 < ls_sbsz ls' \<and> ls_total ls' \<le> ls_total ls"
    "case bcread_need ls n of Inl e \<Rightarrow> e \<noteq> DIVERGE | Inr ls' \<Rightarrow> 0 < ls_sbsz ls' \<and> ls_total ls' \<le> ls_total ls"
  using fill_loop_end [OF assms, of "ls_src ls" n True] fill_loop_end [OF assms, of "ls_src ls" n False] assms
  by (auto simp: bcread_want_def bcread_need_def bcread_fill_def ls_total_def split: sum.splits)

lemma tame_fill:
  assumes "tame f"
  shows "tame (\<lambda>ls. rbind (bcread_want ls n) f)" "tame (\<lambda>ls. rbind (bcread_need ls n) f)"
proof -
  have "tame_res ls (rbind r f)" if r: "case r of Inl e \<Rightarrow> e \<noteq> DIVERGE
     | Inr ls' \<Rightarrow> 0 < ls_sbsz ls' \<and> ls_total ls' \<le> ls_total ls" for ls r
  proof (cases r)
    case (Inr l1)
    then show ?thesis using r tameD [OF assms, of l1] by (auto simp: tame_res_def split: sum.splits)
  qed (use r in \<open>simp add: tame_res_def\<close>)
  then show "tame (\<lambda>ls. rbind (bcread_want ls n) f)" "tame (\<lambda>ls. rbind (bcread_need ls n) f)"
    using fill_end by (simp_all add: tame_def)
qed

lemma proto_end:
  assumes "0 < ls_sbsz ls"
  shows "case bcread_proto white ls of Inl e \<Rightarrow> e \<noteq> DIVERGE
   | Inr (ls', r) \<Rightarrow> 0 < ls_sbsz ls' \<and> ls_total ls' < ls_total ls"
proof (cases "ls_n ls > 0 \<and> hd (ls_in ls) = 0")
  case True
  then show ?thesis using assms by (simp add: bcread_proto_def ls_total_def ls_n_def)
next
  case False
  define f where "f = (\<lambda>(len :: u32) ls. if len = 0 then Inr (ls, None)
            else rbind (bcread_need ls (unat len)) (\<lambda>ls.
                let startn = ls_n ls in
                rd_bind (rd_proto_body white) (\<lambda>pt ls.
                  if unat len \<noteq> startn - ls_n ls then Inl ERR_BCBAD
                  else Inr (ls, Some pt)) ls))"
  have f: "tame (f len)" for len
  proof -
    have "tame (rd_bind (rd_proto_body white) (\<lambda>pt ls.
        if unat len \<noteq> n - ls_n ls then Inl ERR_BCBAD else Inr (ls, Some pt)))" for n
      by (intro tame_bind tame_body tame_if_state) simp_all
    then have "tame (\<lambda>ls. let startn = ls_n ls in
                rd_bind (rd_proto_body white) (\<lambda>pt ls.
                  if unat len \<noteq> startn - ls_n ls then Inl ERR_BCBAD
                  else Inr (ls, Some pt)) ls)" by (simp add: tame_def Let_def)
    from tame_fill(2) [OF this] show ?thesis unfolding f_def by (simp add: tame_if_state)
  qed
  have e: "bcread_proto white ls = rbind (bcread_want ls 5) (rd_bind bcread_uleb128 f)"
    unfolding bcread_proto_def if_not_P [OF False] f_def ..
  show ?thesis
  proof (cases "bcread_want ls 5")
    case (Inl e')
    then show ?thesis using fill_end(1) [OF assms, of 5] by (simp add: e)
  next
    case (Inr l1)
    then have l1: "0 < ls_sbsz l1" "ls_total l1 \<le> ls_total ls" using fill_end(1) [OF assms, of 5] by simp_all
    show ?thesis
    proof (cases "bcread_uleb128 l1")
      case (Inl e')
      then show ?thesis using tameD [OF tame_u l1(1)] Inr by (simp add: e rd_bind_def tame_res_def)
    next
      case u: (Inr p)
      obtain l2 v where p: "p = (l2, v)" by (cases p)
      have "length (ls_in l2) < length (ls_in l1)" "ls_src l2 = ls_src l1" "ls_sbsz l2 = ls_sbsz l1"
        using u uleb128_loop_end
        by (auto simp: p bcread_uleb128_def rbind_def split: list.splits if_splits sum.splits)
          (metis less_SucI old.sum.simps(6) uleb128_loop_end case_prod_conv)
      then have "ls_total l2 < ls_total l1" "0 < ls_sbsz l2" using l1(1) by (simp_all add: ls_total_def)
      then show ?thesis
        using tameD [OF f, of l2 v] l1(2) Inr u
        by (auto simp: e rd_bind_def p tame_res_def split: sum.splits)
    qed
  qed
qed

lemma protos_end:
  "0 < ls_sbsz ls \<Longrightarrow> ls_total ls < n \<Longrightarrow> bcread_protos white n ls \<noteq> Inl DIVERGE"
proof (induction n arbitrary: ls)
  case (Suc n)
  show ?case
  proof (cases "bcread_proto white ls")
    case (Inl e)
    then show ?thesis using proto_end [OF Suc.prems(1), of white] by simp
  next
    case (Inr p)
    obtain l1 r where p: "p = (l1, r)" by (cases p)
    then have l1: "0 < ls_sbsz l1" "ls_total l1 < ls_total ls"
      using proto_end [OF Suc.prems(1), of white] Inr by simp_all
    show ?thesis
    proof (cases r)
      case (Some q)
      have "ls_total (l1\<lparr>ls_stack := q # ls_stack l1\<rparr>) < n" using l1(2) Suc.prems(2) by (simp add: ls_total_def)
      from Suc.IH [OF _ this] l1(1) show ?thesis by (simp add: Inr p Some)
    qed (simp add: Inr p)
  qed
qed simp

lemma tame_header: "tame bcread_header"
proof -
  have up: "tame (\<lambda>ls. f (ls\<lparr>ls_flags := x\<rparr>))" if "tame f" for f :: "bool rd" and x
    unfolding tame_def
  proof (intro allI impI)
    fix ls :: lexst assume "0 < ls_sbsz ls"
    then have "tame_res (ls\<lparr>ls_flags := x\<rparr>) (f (ls\<lparr>ls_flags := x\<rparr>))" by (intro tameD [OF that]) simp
    moreover have "ls_total (ls\<lparr>ls_flags := x\<rparr>) = ls_total ls" by (simp add: ls_total_def)
    ultimately show "tame_res ls (f (ls\<lparr>ls_flags := x\<rparr>))" unfolding tame_res_def by (simp only:)
  qed
  have nm: "tame (\<lambda>ls. Inr (ls\<lparr>ls_chunkname := h ls\<rparr>, x))" for h and x :: bool
    by (simp add: tame_def tame_res_def ls_total_def)
  have "tame (\<lambda>ls. if flags AND NOT BCDUMP_F_KNOWN \<noteq> 0 then Inr (ls, False)
         else if flags AND BCDUMP_F_STRIP \<noteq> 0 then
           (if length (ls_chunkarg ls) \<ge> LJ_MAX_STR then Inl ERR_STROV
            else Inr (ls\<lparr>ls_chunkname := ls_chunkarg ls\<rparr>, True))
         else rd_bind bcread_uleb128 (\<lambda>len ls.
           rbind (bcread_need ls (unat len)) (\<lambda>ls.
             rd_bind (rd_str (unat len)) (\<lambda>s ls.
               Inr (ls\<lparr>ls_chunkname := s\<rparr>, True)) ls)) ls)" for flags
    by (intro tame_if_state tame_bind tame_u tame_fill tame_str nm tame_const_ret tame_err) simp
  from up [OF this] have f: "tame (\<lambda>ls. let ls = ls\<lparr>ls_flags := flags\<rparr> in
         if flags AND NOT BCDUMP_F_KNOWN \<noteq> 0 then Inr (ls, False)
         else if flags AND BCDUMP_F_STRIP \<noteq> 0 then
           (if length (ls_chunkarg ls) \<ge> LJ_MAX_STR then Inl ERR_STROV
            else Inr (ls\<lparr>ls_chunkname := ls_chunkarg ls\<rparr>, True))
         else rd_bind bcread_uleb128 (\<lambda>len ls.
           rbind (bcread_need ls (unat len)) (\<lambda>ls.
             rd_bind (rd_str (unat len)) (\<lambda>s ls.
               Inr (ls\<lparr>ls_chunkname := s\<rparr>, True)) ls)) ls)" for flags
    by (simp add: Let_def)
  show ?thesis
    unfolding bcread_header_def
    by (intro tame_fill tame_bind tame_byte tame_u tame_if tame_ret f)
qed

lemma bcread_ends:
  assumes "0 < ls_sbsz ls"
  shows "lj_bcread white ls \<noteq> Inl DIVERGE"
proof -
  let ?l0 = "ls\<lparr>ls_sbn := 0, ls_stack := []\<rparr>"
  have h: "tame_res ?l0 (bcread_header ?l0)" by (rule tameD [OF tame_header]) (simp add: assms)
  show ?thesis
  proof (cases "bcread_header ?l0")
    case (Inl e)
    then show ?thesis using h by (simp add: lj_bcread_def tame_res_def)
  next
    case (Inr p)
    obtain l1 okh where p: "p = (l1, okh)" by (cases p)
    then have "0 < ls_sbsz l1" using h Inr by (simp add: tame_res_def)
    from protos_end [OF this lessI, of white] show ?thesis
      by (auto simp: lj_bcread_def Inr p rbind_Inl_iff split: if_splits list.splits simp del: bcread_protos.simps)
  qed
qed

end
