(* ===== verification/LJ_TracePatch.thy ===== *)
theory LJ_TracePatch
  imports LJ_BcDec
begin

text \<open>
  How the trace compiler patches the bytecode of a prototype (\<^verbatim>\<open>trace_stop\<close>, \<^verbatim>\<open>trace_unpatch\<close> of
  \<^verbatim>\<open>lj_trace.c\<close>), and what the bytecode writer makes of patched instructions.
\<close>

definition BC_RET :: nat where "BC_RET = 70"
definition BC_RET0 :: nat where "BC_RET0 = 71"
definition BC_RET1 :: nat where "BC_RET1 = 72"
definition BC_ITERL :: nat where "BC_ITERL = 78"
definition BC_LOOP :: nat where "BC_LOOP = 81"
definition BC_JMP :: nat where "BC_JMP = 84"
definition BC_JFUNCF :: nat where "BC_JFUNCF = 87"

lemmas bc_defs = BC_RET_def BC_RET0_def BC_RET1_def BC_FORI_def BC_JFORI_def BC_FORL_def BC_IFORL_def
  BC_JFORL_def BC_ITERL_def BC_IITERL_def BC_JITERL_def BC_LOOP_def BC_ILOOP_def BC_JLOOP_def BC_JMP_def
  BC_FUNCF_def BC_JFUNCF_def

definition op_of :: "u32 \<Rightarrow> nat" where "op_of i = unat (bc_op i)"

definition bc_j :: "u32 \<Rightarrow> int" where "bc_j i = uint (bc_d i) - 0x8000"

definition setbc_op :: "u32 \<Rightarrow> nat \<Rightarrow> u32" where
  "setbc_op i x = le32 (of_nat x) (byte_of 1 i) (byte_of 2 i) (byte_of 3 i)"

definition setbc_d :: "u32 \<Rightarrow> u16 \<Rightarrow> u32" where
  "setbc_d i x = le32 (byte_of 0 i) (byte_of 1 i) (ucast x) (ucast (drop_bit 8 x))"

definition jump_target :: "nat \<Rightarrow> u32 \<Rightarrow> nat" where
  "jump_target pc i = nat (int pc + bc_j i)"

text \<open>
  The root-trace cases of \<open>trace_stop\<close> on the bytecode \<open>bc\<close>, with the trace starting at \<open>pc\<close>.
\<close>

definition trace_patch :: "u32 list \<Rightarrow> nat \<Rightarrow> u32 \<Rightarrow> u16 \<Rightarrow> byte \<Rightarrow> u32 list" where
  "trace_patch bc pc startins traceno snslots =
     (let op = op_of startins;
          bc = (if op = BC_FORL
                then bc[jump_target pc startins := setbc_op (bc ! jump_target pc startins) BC_JFORI]
                else bc)
      in if op = BC_FORL \<or> op = BC_LOOP \<or> op = BC_ITERL \<or> op = BC_FUNCF
         then bc[pc := setbc_d (setbc_op (bc ! pc) (op + BC_JLOOP - BC_LOOP)) traceno]
         else if op = BC_RET \<or> op = BC_RET0 \<or> op = BC_RET1
         then bc[pc := BCINS_AD (of_nat BC_JLOOP) (ucast snslots) (ucast traceno)]
         else bc)"

text \<open>A jump to a \<open>JITERL\<close> replaces the instruction of the trace \<open>T\<close> only if it is its own.\<close>

definition trace_unpatch :: "u32 list \<Rightarrow> nat \<Rightarrow> u32 \<Rightarrow> u32 list" where
  "trace_unpatch bc pc startins =
     (let op = op_of startins; o2 = op_of (bc ! pc) in
      if op = BC_JMP then bc
      else if o2 = BC_JFORL then
        (let bc = bc[pc := startins]; p = jump_target pc startins
         in bc[p := setbc_op (bc ! p) BC_FORI])
      else if o2 = BC_JITERL \<or> o2 = BC_JLOOP then bc[pc := startins]
      else if o2 = BC_JMP then
        (let p = jump_target pc (bc ! pc) + 2
         in if op_of (bc ! p) = BC_JITERL then bc[p := startins] else bc)
      else if o2 = BC_JFUNCF then bc[pc := startins]
      else bc)"

lemma op_of_byte: "op_of i = unat (byte_of 0 i)"
proof -
  have "unat (i AND 0xff) = unat i mod 2 ^ 8" using unat_and_mask [of i 8] by simp
  then show ?thesis by (simp add: op_of_def bc_op_def byte_of_unat)
qed

lemma op_of_setbc: "x < 256 \<Longrightarrow> op_of (setbc_op i x) = x" "op_of (setbc_d i d) = op_of i"
  by (simp_all add: op_of_byte setbc_op_def setbc_d_def byte_nat)

lemma setbc_op_idem: "op_of i = x \<Longrightarrow> setbc_op (setbc_op i y) x = i"
proof -
  assume "op_of i = x"
  then have "of_nat x = byte_of 0 i" by (auto simp: op_of_byte)
  then show ?thesis using le32_byte_of [of i] by (simp add: setbc_op_def)
qed

lemma byte_AD: "byte_of 0 (BCINS_AD (of_nat n) (ucast (a :: byte)) d) = of_nat n" if "n < 256"
proof -
  have "bit (byte_of 0 (BCINS_AD (of_nat n) (ucast a) d)) k = bit (of_nat n :: byte) k" for k
    by (auto simp: byte_of_def BCINS_AD_def bit_ucast_iff bit_or_iff bit_push_bit_iff bit_of_nat_iff
        dest: bit_imp_le_length)
  then show ?thesis by (rule bit_word_eqI)
qed


lemma op_AD: "n < 256 \<Longrightarrow> op_of (BCINS_AD (of_nat n) (ucast (a :: byte)) d) = n"
  by (simp only: op_of_byte byte_AD byte_nat)





lemma unpatch_simple:
  assumes "op_of startins \<noteq> BC_JMP" "op_of (bc ! pc) \<in> {BC_JLOOP, BC_JITERL, BC_JFUNCF}"
  shows "trace_unpatch bc pc startins = bc[pc := startins]"
proof -
  have "op_of (bc ! pc) \<noteq> BC_JFORL" "op_of (bc ! pc) = BC_JFUNCF \<Longrightarrow> op_of (bc ! pc) \<noteq> BC_JMP"
    using assms(2) by (auto simp: bc_defs)
  then show ?thesis using assms by (auto simp: trace_unpatch_def Let_def)
qed

subsection \<open>The properties\<close>

text \<open>C27: flushing a root trace undoes what compiling it did to the bytecode, for every
  instruction at which a root trace can start.\<close>

theorem trace_unpatch_restores:
  assumes "pc < length bc" "bc ! pc = startins"
    and "op_of startins \<in> {BC_FORL, BC_LOOP, BC_ITERL, BC_FUNCF, BC_RET, BC_RET0, BC_RET1}"
    and "op_of startins = BC_FORL \<Longrightarrow> jump_target pc startins < length bc \<and>
      jump_target pc startins \<noteq> pc \<and> op_of (bc ! jump_target pc startins) = BC_FORI"
  shows "trace_unpatch (trace_patch bc pc startins tno ns) pc startins = bc"
proof -
  let ?i = "setbc_d (setbc_op startins (op_of startins + BC_JLOOP - BC_LOOP)) tno"
  let ?a = "BCINS_AD (of_nat BC_JLOOP) (ucast ns) (ucast tno)"
  have "op_of startins = BC_FORL \<or> op_of startins \<in> {BC_LOOP, BC_ITERL, BC_FUNCF} \<or>
      op_of startins \<in> {BC_RET, BC_RET0, BC_RET1}" using assms(3) by auto
  note cs = this
  have same: "bc[pc := startins] = bc" using list_update_id [of bc pc] assms(2) by simp
  from cs
  show ?thesis
  proof (elim disjE)
    assume 1: "op_of startins = BC_FORL"
    let ?p = "jump_target pc startins"
    have p: "?p < length bc" "?p \<noteq> pc" "op_of (bc ! ?p) = BC_FORI" using assms(4) [OF 1] by simp_all
    have o: "op_of ?i = BC_JFORL" unfolding op_of_setbc(2) 1 by (subst op_of_setbc(1)) (simp_all add: bc_defs)
    have b: "trace_patch bc pc startins tno ns = bc[?p := setbc_op (bc ! ?p) BC_JFORI, pc := ?i]"
      using 1 p(2) assms(2) by (simp add: trace_patch_def Let_def)
    have n: "bc[?p := setbc_op (bc ! ?p) BC_JFORI, pc := ?i] ! pc = ?i" using assms(1) by simp
    have "trace_unpatch (trace_patch bc pc startins tno ns) pc startins =
        (let bc' = bc[?p := setbc_op (bc ! ?p) BC_JFORI, pc := ?i, pc := startins] in
         bc'[?p := setbc_op (bc' ! ?p) BC_FORI])"
    proof -
      have ne: "BC_FORL \<noteq> BC_JMP" by (simp add: bc_defs)
      show ?thesis
        unfolding b trace_unpatch_def Let_def 1 n [unfolded 1] o [unfolded 1] if_not_P [OF ne] if_P [OF refl] ..
    qed
    also have "\<dots> = bc"
      using p assms(1,2) setbc_op_idem [OF p(3), of BC_JFORI]
      by (auto simp: Let_def list_eq_iff_nth_eq nth_list_update)
    finally show ?thesis .
  next
    assume 2: "op_of startins \<in> {BC_LOOP, BC_ITERL, BC_FUNCF}"
    have o: "op_of ?i \<in> {BC_JLOOP, BC_JITERL, BC_JFUNCF}"
      unfolding op_of_setbc(2) using 2 by (auto simp: bc_defs op_of_setbc(1))
    have b: "trace_patch bc pc startins tno ns = bc[pc := ?i]"
      using 2 assms(2) by (auto simp: trace_patch_def Let_def bc_defs)
    have "op_of startins \<noteq> BC_JMP" using 2 by (auto simp: bc_defs)
    from unpatch_simple [OF this, of "bc[pc := ?i]" pc] show ?thesis
      unfolding b using o assms(1) by (simp add: same)
  next
    assume 3: "op_of startins \<in> {BC_RET, BC_RET0, BC_RET1}"
    have o: "op_of ?a = BC_JLOOP" by (rule op_AD) (simp add: bc_defs)
    have b: "trace_patch bc pc startins tno ns = bc[pc := ?a]"
      using 3 by (auto simp: trace_patch_def Let_def bc_defs)
    have "op_of startins \<noteq> BC_JMP" using 3 by (auto simp: bc_defs)
    from unpatch_simple [OF this, of "bc[pc := ?a]" pc] show ?thesis
      unfolding b using o assms(1) by (simp add: same)
  qed
qed



text \<open>Instructions for the witnesses: a loop and a return.\<close>

definition loop_bc :: "u32 list" where
  "loop_bc = [le32 73 0 2 0x80, le32 1 0 0 0, le32 75 0 0xfe 0x7f]"

lemma loop_bc_facts:
  "bc_j (le32 75 0 0xfe 0x7f) = - 2" "op_of (le32 75 0 0xfe 0x7f) = BC_FORL" "op_of (le32 73 0 2 0x80) = BC_FORI"
  by (simp add: bc_j_def bc_d_def le32_def, simp_all add: op_of_byte bc_defs)

lemma trace_unpatch_restores_witness:
  "trace_unpatch (trace_patch loop_bc 2 (le32 75 0 0xfe 0x7f) 7 3) 2 (le32 75 0 0xfe 0x7f) = loop_bc"
  by (rule trace_unpatch_restores) (simp_all add: loop_bc_def loop_bc_facts jump_target_def)



end
