(* ===== verification/LJ_Dump.thy ===== *)
theory LJ_Dump
  imports LJ_BcProps LJ_TracePatch
begin


text \<open>A prototype for the witnesses: a child, a template table, a 64-bit constant, a fraction,
  an upvalue and debug information.\<close>

definition wit_child :: proto where
  "wit_child = Proto 0 1 2 [0x55, 0x10249] [] [KStr [0x78]] [num_of_int 7] 0 [] 0 0 None"

definition wit_pt :: proto where
  "wit_pt = Proto 3 0 3 [0x58, 0x2004c] [0x8000] [KChild wit_child, KTab sample, KI64 5]
     [0x3ff8000000000000] 1 [0x40, 0x61] 1 3 (Some (Dbg [1, 0x61, 0, 0] 1 3))"

lemma sample_good: "tab_good sample"
proof -
  have "used_nodes (tb_node sample) = tb_node sample" "tb_hmask sample = 1"
    by (simp_all add: used_nodes_def sample_def tb_hmask_def)
  then show ?thesis
    using sample_ok by (auto simp: tab_good_def tmpl_tab_def sample_def tmpl_good_def ktab_array_def
        LJ_MAX_STR_def tb_asize_def)
qed

lemma wit_lengths:
  "length (enc_body (\<lambda>_. 0) False wit_child) < 100" "length (enc_body (\<lambda>_. 0) False wit_pt) < 200"
  by code_simp+

lemma wit_loadable: "loadable (\<lambda>_. 0) False wit_pt"
proof -
  have m: "n < 200 \<Longrightarrow> n \<le> LJ_MAX_MEM" for n :: nat by (simp add: LJ_MAX_MEM_def)
  have p: "plain_num (num_of_int 7)"
    using int_key_valid [of 7] by (simp add: plain_num_def kvalid_def int32_def)
  have c: "loadable (\<lambda>_. 0) False wit_child"
    unfolding loadable_iff
    using wit_lengths(1) p
    by (simp add: wit_child_def kgc_good_def LJ_MAX_STR_def dbg_good_def m
        bcread_sizept_def sizeof_GCproto_def pt_sizedbg_def)
  have d: "bcread_varinfo [1, 0x61, 0, 0] 1 1 = Inr 3"
    by (simp add: bcread_varinfo_def numeral_3_eq_3)
  show ?thesis
    unfolding loadable_iff
    using wit_lengths(2) c sample_good d
    by (simp add: wit_pt_def kgc_good_def plain_num_def dbg_good_def m PROTO_CHILD_def
        bcread_sizept_def sizeof_GCproto_def pt_sizedbg_def num_mzero_def)
qed



text \<open>C21: for every client, the writer passes the blocks of the dump in order and stops at the
  first status that is not 0, which it returns; no store goes past the end of its buffer.\<close>

theorem bcwrite_feeds_writer:
  assumes "dumpable st strip pt"
  shows "lj_bcwrite st wfunc pt data strip = Inr (feed wfunc (data, 0) (dump_blocks st strip pt))"
  by (rule bcwrite_dump [OF assms])

lemma bcwrite_feeds_writer_witness:
  "lj_bcwrite (\<lambda>_. 0) (\<lambda>n b. (n + 1, if n = 1 then 5 else 0)) wit_pt (0 :: nat) False = Inr (2, 5)"
proof -
  have "dump_blocks (\<lambda>_. 0) False wit_pt = enc_header False wit_pt # prefixed (enc_body (\<lambda>_. 0) False wit_child)
      # [prefixed (enc_body (\<lambda>_. 0) False wit_pt), [0]]"
    by (simp add: dump_blocks_def wit_pt_def wit_child_def PROTO_CHILD_def)
  then show ?thesis
    using bcwrite_feeds_writer [OF dumpable_loadable(1) [OF wit_loadable],
        of "\<lambda>n b. (n + 1, if n = 1 then 5 else 0)" "0 :: nat"] by simp
qed





text \<open>C24: given the room, \<^verbatim>\<open>bcwrite_uleb128\<close> appends at most five bytes, from which
  \<^verbatim>\<open>bcread_uleb128\<close> reads the value back, consuming exactly these bytes whatever follows them.\<close>

theorem uleb128_roundtrip:
  assumes "sbuf_ok sb" "sb_n sb + 5 \<le> sb_sz sb"
  shows "\<exists>sb' bs. bcwrite_uleb128 sb v = Inr sb' \<and> sbuf_ok sb' \<and> sb_data sb' = sb_data sb @ bs \<and>
    length bs \<le> 5 \<and>
    (\<forall>ls rest. ls_in ls = bs @ rest \<longrightarrow> bcread_uleb128 ls = Inr (ls\<lparr>ls_in := rest\<rparr>, v))"
proof -
  have "length (sb_data sb) + 5 \<le> sb_sz sb" using assms data_length by simp
  from bw.emitsD [OF emits_u5 [of v] assms(1) this] show ?thesis
    using enc_u_length [of v] readsD [OF reads_u [of _ v]] by blast
qed

lemma uleb128_roundtrip_witness:
  "\<exists>sb' bs. bcwrite_uleb128 \<lparr>sb_buf = [9, 0, 0, 0, 0, 0], sb_n = 1\<rparr> 300 = Inr sb' \<and> sbuf_ok sb' \<and>
    sb_data sb' = sb_data \<lparr>sb_buf = [9, 0, 0, 0, 0, 0], sb_n = 1\<rparr> @ bs \<and> length bs \<le> 5 \<and>
    (\<forall>ls rest. ls_in ls = bs @ rest \<longrightarrow> bcread_uleb128 ls = Inr (ls\<lparr>ls_in := rest\<rparr>, 300))"
  by (rule uleb128_roundtrip) (simp_all add: sbuf_ok_def sb_sz_def)



text \<open>C26: at the end of the input the reader expects either the terminating zero or the length of
  another prototype, and it asks for neither with \<^verbatim>\<open>bcread_need\<close>: when the reader function has
  nothing left (and has not said so before), \<^verbatim>\<open>bcread_proto\<close> takes the length from memory past
  the end of the input.\<close>

theorem bcread_proto_past_end:
  assumes "ls_in ls = []" "ls_src ls = []" "0 \<le> ls_current ls"
  shows "bcread_proto white ls = Inl OOB"
proof -
  have "bcread_want ls 5 = Inr (ls\<lparr>ls_sbn := 0, ls_current := -1, ls_src := []\<rparr>)"
    using assms by (simp add: bcread_want_def bcread_fill_def ls_n_def fill_loop.simps [of "[]"]
        fill_copy_def LJ_MAX_MEM_def)
  then show ?thesis
    using assms by (simp add: bcread_proto_def ls_n_def rd_bind_def bcread_uleb128_def)
qed

lemma bcread_proto_past_end_witness:
  "bcread_proto 0 \<lparr>ls_in = [], ls_sbn = 0, ls_sbsz = 32, ls_current = 27, ls_src = [],
     ls_flags = 2, ls_chunkname = [], ls_chunkarg = [], ls_stack = [wit_child]\<rparr> = Inl OOB"
  by (rule bcread_proto_past_end) simp_all

end

