(* ===== verification/LJ_IR.thy ===== *)
theory LJ_IR
  imports LJ_Obj
begin

text \<open>
  The intermediate representation of the trace compiler (\<^verbatim>\<open>lj_ir.h\<close>): opcodes, types,
  instructions and references, and the part of the compiler state (\<^verbatim>\<open>jit_State\<close>, \<^verbatim>\<open>lj_jit.h\<close>)
  that the emitter (\<^verbatim>\<open>lj_ir.c\<close>) and the FOLD engine use.

  References are natural numbers; constants are below \<open>REF_BIAS\<close> and grow downwards,
  instructions are above and grow upwards.  A reference that does not fit 16 bits is the
  error \<open>OOB\<close>.  The overlapping fields of the C union \<open>IRIns\<close> are separate fields: the two
  operands, the 32-bit literal (also the address of an object or pointer constant) and the
  address of a 64-bit constant.
\<close>

section \<open>Opcodes and types\<close>

text \<open>
  The opcodes, in the groups of the definition of the enumeration: guarded assertions, miscellaneous, constants, bit operations, arithmetic,
  arithmetic with overflow check, references to memory, loads, stores, allocations, barriers, conversions and calls.
\<close>

datatype (plugins only: code) irop_guard =
    I_LT | I_GE | I_LE | I_GT | I_ULT | I_UGE | I_ULE | I_UGT | I_EQ | I_NE | I_ABC | I_RETF

datatype (plugins only: code) irop_misc =
    I_NOP | I_BASE | I_PVAL | I_GCSTEP | I_HIOP | I_LOOP | I_USE | I_PHI | I_RENAME

datatype (plugins only: code) irop_const =
    I_KPRI | I_KINT | I_KGC | I_KPTR | I_KKPTR | I_KNULL | I_KNUM | I_KINT64 | I_KSLOT

datatype (plugins only: code) irop_bit =
    I_BNOT | I_BSWAP | I_BAND | I_BOR | I_BXOR | I_BSHL | I_BSHR | I_BSAR | I_BROL | I_BROR

datatype (plugins only: code) irop_arith =
    I_ADD | I_SUB | I_MUL | I_DIV | I_MOD | I_POW | I_NEG | I_ABS | I_ATAN2 | I_LDEXP | I_MIN | I_MAX | I_FPMATH

datatype (plugins only: code) irop_ov =
    I_ADDOV | I_SUBOV | I_MULOV

datatype (plugins only: code) irop_memref =
    I_AREF | I_HREFK | I_HREF | I_NEWREF | I_UREFO | I_UREFC | I_FREF | I_STRREF

datatype (plugins only: code) irop_load =
    I_ALOAD | I_HLOAD | I_ULOAD | I_FLOAD | I_XLOAD | I_SLOAD | I_VLOAD

datatype (plugins only: code) irop_store =
    I_ASTORE | I_HSTORE | I_USTORE | I_FSTORE | I_XSTORE

datatype (plugins only: code) irop_alloc =
    I_SNEW | I_XSNEW | I_TNEW | I_TDUP | I_CNEW | I_CNEWI

datatype (plugins only: code) irop_barrier =
    I_TBAR | I_OBAR | I_XBAR

datatype (plugins only: code) irop_conv =
    I_CONV | I_TOBIT | I_TOSTR | I_STRTO

datatype (plugins only: code) irop_call =
    I_CALLN | I_CALLL | I_CALLS | I_CALLXS | I_CARG

datatype (plugins only: code) irop =
    IrOp_guard irop_guard | IrOp_misc irop_misc | IrOp_const irop_const | IrOp_bit irop_bit | IrOp_arith irop_arith
  | IrOp_ov irop_ov | IrOp_memref irop_memref | IrOp_load irop_load | IrOp_store irop_store | IrOp_alloc irop_alloc
  | IrOp_barrier irop_barrier | IrOp_conv irop_conv | IrOp_call irop_call

abbreviation IR_LT :: irop where "IR_LT \<equiv> IrOp_guard I_LT"
abbreviation IR_GE :: irop where "IR_GE \<equiv> IrOp_guard I_GE"
abbreviation IR_LE :: irop where "IR_LE \<equiv> IrOp_guard I_LE"
abbreviation IR_GT :: irop where "IR_GT \<equiv> IrOp_guard I_GT"
abbreviation IR_ULT :: irop where "IR_ULT \<equiv> IrOp_guard I_ULT"
abbreviation IR_UGE :: irop where "IR_UGE \<equiv> IrOp_guard I_UGE"
abbreviation IR_ULE :: irop where "IR_ULE \<equiv> IrOp_guard I_ULE"
abbreviation IR_UGT :: irop where "IR_UGT \<equiv> IrOp_guard I_UGT"
abbreviation IR_EQ :: irop where "IR_EQ \<equiv> IrOp_guard I_EQ"
abbreviation IR_NE :: irop where "IR_NE \<equiv> IrOp_guard I_NE"
abbreviation IR_ABC :: irop where "IR_ABC \<equiv> IrOp_guard I_ABC"
abbreviation IR_RETF :: irop where "IR_RETF \<equiv> IrOp_guard I_RETF"

abbreviation IR_NOP :: irop where "IR_NOP \<equiv> IrOp_misc I_NOP"
abbreviation IR_BASE :: irop where "IR_BASE \<equiv> IrOp_misc I_BASE"
abbreviation IR_PVAL :: irop where "IR_PVAL \<equiv> IrOp_misc I_PVAL"
abbreviation IR_GCSTEP :: irop where "IR_GCSTEP \<equiv> IrOp_misc I_GCSTEP"
abbreviation IR_HIOP :: irop where "IR_HIOP \<equiv> IrOp_misc I_HIOP"
abbreviation IR_LOOP :: irop where "IR_LOOP \<equiv> IrOp_misc I_LOOP"
abbreviation IR_USE :: irop where "IR_USE \<equiv> IrOp_misc I_USE"
abbreviation IR_PHI :: irop where "IR_PHI \<equiv> IrOp_misc I_PHI"
abbreviation IR_RENAME :: irop where "IR_RENAME \<equiv> IrOp_misc I_RENAME"

abbreviation IR_KPRI :: irop where "IR_KPRI \<equiv> IrOp_const I_KPRI"
abbreviation IR_KINT :: irop where "IR_KINT \<equiv> IrOp_const I_KINT"
abbreviation IR_KGC :: irop where "IR_KGC \<equiv> IrOp_const I_KGC"
abbreviation IR_KPTR :: irop where "IR_KPTR \<equiv> IrOp_const I_KPTR"
abbreviation IR_KKPTR :: irop where "IR_KKPTR \<equiv> IrOp_const I_KKPTR"
abbreviation IR_KNULL :: irop where "IR_KNULL \<equiv> IrOp_const I_KNULL"
abbreviation IR_KNUM :: irop where "IR_KNUM \<equiv> IrOp_const I_KNUM"
abbreviation IR_KINT64 :: irop where "IR_KINT64 \<equiv> IrOp_const I_KINT64"
abbreviation IR_KSLOT :: irop where "IR_KSLOT \<equiv> IrOp_const I_KSLOT"

abbreviation IR_BNOT :: irop where "IR_BNOT \<equiv> IrOp_bit I_BNOT"
abbreviation IR_BSWAP :: irop where "IR_BSWAP \<equiv> IrOp_bit I_BSWAP"
abbreviation IR_BAND :: irop where "IR_BAND \<equiv> IrOp_bit I_BAND"
abbreviation IR_BOR :: irop where "IR_BOR \<equiv> IrOp_bit I_BOR"
abbreviation IR_BXOR :: irop where "IR_BXOR \<equiv> IrOp_bit I_BXOR"
abbreviation IR_BSHL :: irop where "IR_BSHL \<equiv> IrOp_bit I_BSHL"
abbreviation IR_BSHR :: irop where "IR_BSHR \<equiv> IrOp_bit I_BSHR"
abbreviation IR_BSAR :: irop where "IR_BSAR \<equiv> IrOp_bit I_BSAR"
abbreviation IR_BROL :: irop where "IR_BROL \<equiv> IrOp_bit I_BROL"
abbreviation IR_BROR :: irop where "IR_BROR \<equiv> IrOp_bit I_BROR"

abbreviation IR_ADD :: irop where "IR_ADD \<equiv> IrOp_arith I_ADD"
abbreviation IR_SUB :: irop where "IR_SUB \<equiv> IrOp_arith I_SUB"
abbreviation IR_MUL :: irop where "IR_MUL \<equiv> IrOp_arith I_MUL"
abbreviation IR_DIV :: irop where "IR_DIV \<equiv> IrOp_arith I_DIV"
abbreviation IR_MOD :: irop where "IR_MOD \<equiv> IrOp_arith I_MOD"
abbreviation IR_POW :: irop where "IR_POW \<equiv> IrOp_arith I_POW"
abbreviation IR_NEG :: irop where "IR_NEG \<equiv> IrOp_arith I_NEG"
abbreviation IR_ABS :: irop where "IR_ABS \<equiv> IrOp_arith I_ABS"
abbreviation IR_ATAN2 :: irop where "IR_ATAN2 \<equiv> IrOp_arith I_ATAN2"
abbreviation IR_LDEXP :: irop where "IR_LDEXP \<equiv> IrOp_arith I_LDEXP"
abbreviation IR_MIN :: irop where "IR_MIN \<equiv> IrOp_arith I_MIN"
abbreviation IR_MAX :: irop where "IR_MAX \<equiv> IrOp_arith I_MAX"
abbreviation IR_FPMATH :: irop where "IR_FPMATH \<equiv> IrOp_arith I_FPMATH"

abbreviation IR_ADDOV :: irop where "IR_ADDOV \<equiv> IrOp_ov I_ADDOV"
abbreviation IR_SUBOV :: irop where "IR_SUBOV \<equiv> IrOp_ov I_SUBOV"
abbreviation IR_MULOV :: irop where "IR_MULOV \<equiv> IrOp_ov I_MULOV"

abbreviation IR_AREF :: irop where "IR_AREF \<equiv> IrOp_memref I_AREF"
abbreviation IR_HREFK :: irop where "IR_HREFK \<equiv> IrOp_memref I_HREFK"
abbreviation IR_HREF :: irop where "IR_HREF \<equiv> IrOp_memref I_HREF"
abbreviation IR_NEWREF :: irop where "IR_NEWREF \<equiv> IrOp_memref I_NEWREF"
abbreviation IR_UREFO :: irop where "IR_UREFO \<equiv> IrOp_memref I_UREFO"
abbreviation IR_UREFC :: irop where "IR_UREFC \<equiv> IrOp_memref I_UREFC"
abbreviation IR_FREF :: irop where "IR_FREF \<equiv> IrOp_memref I_FREF"
abbreviation IR_STRREF :: irop where "IR_STRREF \<equiv> IrOp_memref I_STRREF"

abbreviation IR_ALOAD :: irop where "IR_ALOAD \<equiv> IrOp_load I_ALOAD"
abbreviation IR_HLOAD :: irop where "IR_HLOAD \<equiv> IrOp_load I_HLOAD"
abbreviation IR_ULOAD :: irop where "IR_ULOAD \<equiv> IrOp_load I_ULOAD"
abbreviation IR_FLOAD :: irop where "IR_FLOAD \<equiv> IrOp_load I_FLOAD"
abbreviation IR_XLOAD :: irop where "IR_XLOAD \<equiv> IrOp_load I_XLOAD"
abbreviation IR_SLOAD :: irop where "IR_SLOAD \<equiv> IrOp_load I_SLOAD"
abbreviation IR_VLOAD :: irop where "IR_VLOAD \<equiv> IrOp_load I_VLOAD"

abbreviation IR_ASTORE :: irop where "IR_ASTORE \<equiv> IrOp_store I_ASTORE"
abbreviation IR_HSTORE :: irop where "IR_HSTORE \<equiv> IrOp_store I_HSTORE"
abbreviation IR_USTORE :: irop where "IR_USTORE \<equiv> IrOp_store I_USTORE"
abbreviation IR_FSTORE :: irop where "IR_FSTORE \<equiv> IrOp_store I_FSTORE"
abbreviation IR_XSTORE :: irop where "IR_XSTORE \<equiv> IrOp_store I_XSTORE"

abbreviation IR_SNEW :: irop where "IR_SNEW \<equiv> IrOp_alloc I_SNEW"
abbreviation IR_XSNEW :: irop where "IR_XSNEW \<equiv> IrOp_alloc I_XSNEW"
abbreviation IR_TNEW :: irop where "IR_TNEW \<equiv> IrOp_alloc I_TNEW"
abbreviation IR_TDUP :: irop where "IR_TDUP \<equiv> IrOp_alloc I_TDUP"
abbreviation IR_CNEW :: irop where "IR_CNEW \<equiv> IrOp_alloc I_CNEW"
abbreviation IR_CNEWI :: irop where "IR_CNEWI \<equiv> IrOp_alloc I_CNEWI"

abbreviation IR_TBAR :: irop where "IR_TBAR \<equiv> IrOp_barrier I_TBAR"
abbreviation IR_OBAR :: irop where "IR_OBAR \<equiv> IrOp_barrier I_OBAR"
abbreviation IR_XBAR :: irop where "IR_XBAR \<equiv> IrOp_barrier I_XBAR"

abbreviation IR_CONV :: irop where "IR_CONV \<equiv> IrOp_conv I_CONV"
abbreviation IR_TOBIT :: irop where "IR_TOBIT \<equiv> IrOp_conv I_TOBIT"
abbreviation IR_TOSTR :: irop where "IR_TOSTR \<equiv> IrOp_conv I_TOSTR"
abbreviation IR_STRTO :: irop where "IR_STRTO \<equiv> IrOp_conv I_STRTO"

abbreviation IR_CALLN :: irop where "IR_CALLN \<equiv> IrOp_call I_CALLN"
abbreviation IR_CALLL :: irop where "IR_CALLL \<equiv> IrOp_call I_CALLL"
abbreviation IR_CALLS :: irop where "IR_CALLS \<equiv> IrOp_call I_CALLS"
abbreviation IR_CALLXS :: irop where "IR_CALLXS \<equiv> IrOp_call I_CALLXS"
abbreviation IR_CARG :: irop where "IR_CARG \<equiv> IrOp_call I_CARG"

datatype (plugins only: code size) irtype =
    IRT_NIL | IRT_FALSE | IRT_TRUE | IRT_LIGHTUD | IRT_STR | IRT_P32 | IRT_THREAD | IRT_PROTO
  | IRT_FUNC | IRT_P64 | IRT_CDATA | IRT_TAB | IRT_UDATA | IRT_FLOAT | IRT_NUM
  | IRT_I8 | IRT_U8 | IRT_I16 | IRT_U16 | IRT_INT | IRT_U32 | IRT_I64 | IRT_U64 | IRT_SOFTFP

text \<open>The numbers of the types as they occur in the operand of a conversion.\<close>

primrec irt_num :: "irtype \<Rightarrow> nat" where
  "irt_num IRT_NIL = 0" | "irt_num IRT_FALSE = 1" | "irt_num IRT_TRUE = 2"
| "irt_num IRT_LIGHTUD = 3" | "irt_num IRT_STR = 4" | "irt_num IRT_P32 = 5"
| "irt_num IRT_THREAD = 6" | "irt_num IRT_PROTO = 7" | "irt_num IRT_FUNC = 8"
| "irt_num IRT_P64 = 9" | "irt_num IRT_CDATA = 10" | "irt_num IRT_TAB = 11"
| "irt_num IRT_UDATA = 12" | "irt_num IRT_FLOAT = 13" | "irt_num IRT_NUM = 14"
| "irt_num IRT_I8 = 15" | "irt_num IRT_U8 = 16" | "irt_num IRT_I16 = 17"
| "irt_num IRT_U16 = 18" | "irt_num IRT_INT = 19" | "irt_num IRT_U32 = 20"
| "irt_num IRT_I64 = 21" | "irt_num IRT_U64 = 22" | "irt_num IRT_SOFTFP = 23"

text \<open>A result type with its flags; the mark bit is not used here.\<close>

record irt1 =
  irt_ty :: irtype
  irt_phi :: bool
  irt_guard :: bool

definition IRT :: "irtype \<Rightarrow> irt1" where
  "IRT t = \<lparr>irt_ty = t, irt_phi = False, irt_guard = False\<rparr>"

definition IRTG :: "irtype \<Rightarrow> irt1" where
  "IRTG t = \<lparr>irt_ty = t, irt_phi = False, irt_guard = True\<rparr>"

definition irt_is64 :: "irtype \<Rightarrow> bool" where
  "irt_is64 t \<longleftrightarrow> t = IRT_NUM \<or> t = IRT_I64 \<or> t = IRT_U64 \<or> t = IRT_P64 \<or> t = IRT_LIGHTUD"

section \<open>Instructions and compiler state\<close>

definition REF_BIAS :: nat where "REF_BIAS = 0x8000"
definition REF_TRUE :: nat where "REF_TRUE = REF_BIAS - 3"
definition REF_NIL :: nat where "REF_NIL = REF_BIAS - 1"
definition REF_BASE :: nat where "REF_BASE = REF_BIAS"
definition REF_DROP :: nat where "REF_DROP = 0xffff"

text \<open>
  An operand can be a literal; the code relies on literals being smaller than the references
  of the constants.  The literals of the instructions treated here are below \<open>REF_LIT\<close>.
\<close>

definition REF_LIT :: nat where "REF_LIT = 0x4000"

definition irref_isk :: "nat \<Rightarrow> bool" where "irref_isk ref \<longleftrightarrow> ref < REF_BIAS"

text \<open>A 64-bit constant is given by the number of its array and its index there.\<close>

type_synonym kaddr = "nat \<times> nat"

record irins =
  ir_o :: irop
  ir_t :: irt1
  ir_op1 :: nat
  ir_op2 :: nat
  ir_prev :: nat
  ir_i :: u32
  ir_k :: kaddr

definition ir_none :: irins where
  "ir_none = \<lparr>ir_o = IR_NOP, ir_t = IRT IRT_NIL, ir_op1 = 0, ir_op2 = 0, ir_prev = 0, ir_i = 0, ir_k = (0, 0)\<rparr>"

record jit =
  j_ir :: "nat \<Rightarrow> irins"
  j_nk :: nat
  j_nins :: nat
  j_irbotlim :: nat
  j_irtoplim :: nat
  j_chain :: "irop \<Rightarrow> nat"
  j_k64 :: "u64 list list"
  j_fins :: irins
  j_fleft :: irins
  j_fright :: irins
  j_guardemit :: bool
  j_opt_fold :: bool
  j_opt_cse :: bool
  j_opt_abc :: bool
  j_opt_fwd :: bool
  j_opt_dse :: bool
  j_scev_idx :: nat
  j_scev_dir :: bool
  j_scev_start :: nat
  j_scev_stop :: nat

definition lj_ir_set :: "jit \<Rightarrow> irop \<Rightarrow> irt1 \<Rightarrow> nat \<Rightarrow> nat \<Rightarrow> jit" where
  "lj_ir_set J oo t a b = J\<lparr>j_fins := (j_fins J)\<lparr>ir_o := oo, ir_t := t, ir_op1 := a, ir_op2 := b\<rparr>\<rparr>"

section \<open>Emitter\<close>

definition LJ_MIN_IRSZ :: nat where "LJ_MIN_IRSZ = 32"

text \<open>Growing the buffer keeps the contents at their references; only the limits change.\<close>

definition lj_ir_growtop :: "jit \<Rightarrow> jit" where
  "lj_ir_growtop J =
     (let szins = j_irtoplim J - j_irbotlim J in
      if szins \<noteq> 0 then J\<lparr>j_irtoplim := j_irbotlim J + 2 * szins\<rparr>
      else (let bot = REF_BASE - LJ_MIN_IRSZ div 4
            in J\<lparr>j_irbotlim := bot, j_irtoplim := bot + LJ_MIN_IRSZ\<rparr>))"

definition lj_ir_growbot :: "jit \<Rightarrow> jit res" where
  "lj_ir_growbot J =
     (let szins = j_irtoplim J - j_irbotlim J;
          up = (j_nins J + szins div 2 < j_irtoplim J);
          ofs = (if up then szins div 4 else if szins \<ge> 256 then 128 else szins div 2);
          bot = j_irbotlim J - ofs
      in if ofs > j_irbotlim J then Inl OOB
         else Inr (J\<lparr>j_irbotlim := bot,
                     j_irtoplim := (if up then j_irtoplim J - ofs else bot + 2 * szins)\<rparr>))"

definition lj_ir_nextins :: "jit \<Rightarrow> (jit \<times> nat) res" where
  "lj_ir_nextins J =
     (let ref = j_nins J;
          J = (if ref \<ge> j_irtoplim J then lj_ir_growtop J else J)
      in if ref \<ge> REF_DROP then Inl OOB else Inr (J\<lparr>j_nins := ref + 1\<rparr>, ref))"

definition lj_ir_emit :: "jit \<Rightarrow> (jit \<times> nat) res" where
  "lj_ir_emit J =
     rbind (lj_ir_nextins J) (\<lambda>(J, ref).
       let fins = j_fins J; op = ir_o fins;
           ir = (j_ir J ref)\<lparr>ir_prev := j_chain J op, ir_o := op, ir_op1 := ir_op1 fins,
                  ir_op2 := ir_op2 fins, ir_t := ir_t fins\<rparr>
       in Inr (J\<lparr>j_ir := (j_ir J)(ref := ir), j_chain := (j_chain J)(op := ref),
                 j_guardemit := (j_guardemit J \<or> irt_guard (ir_t fins))\<rparr>, ref))"

text \<open>Undo everything emitted from \<open>ref\<close> on.\<close>

fun rollback_loop :: "nat \<Rightarrow> jit \<Rightarrow> jit" where
  "rollback_loop 0 J = J"
| "rollback_loop (Suc n) J =
     (let nins = j_nins J - 1; ir = j_ir J nins
      in rollback_loop n (J\<lparr>j_nins := nins, j_chain := (j_chain J)(ir_o ir := ir_prev ir)\<rparr>))"

definition lj_ir_rollback :: "jit \<Rightarrow> nat \<Rightarrow> jit" where
  "lj_ir_rollback J ref = rollback_loop (j_nins J - ref) J"

section \<open>Interning of constants\<close>

definition ir_nextk :: "jit \<Rightarrow> (jit \<times> nat) res" where
  "ir_nextk J =
     (let ref = j_nk J in
      rbind (if ref \<le> j_irbotlim J then lj_ir_growbot J else Inr J) (\<lambda>J.
        if ref \<le> REF_LIT then Inl OOB else Inr (J\<lparr>j_nk := ref - 1\<rparr>, ref - 1)))"

text \<open>
  Follow a chain down to the limit: the first reference above \<open>lim\<close> whose instruction has
  the property, or 0.  All references are below \<open>2 ^ 16\<close>, which bounds the steps.
\<close>

fun chain_walk :: "(nat \<Rightarrow> irins) \<Rightarrow> nat \<Rightarrow> (nat \<Rightarrow> irins \<Rightarrow> bool) \<Rightarrow> nat \<Rightarrow> nat \<Rightarrow> nat res" where
  "chain_walk ir lim P 0 ref = Inl DIVERGE"
| "chain_walk ir lim P (Suc n) ref =
     (if ref > lim then
        (if P ref (ir ref) then Inr ref else chain_walk ir lim P n (ir_prev (ir ref)))
      else Inr 0)"

definition ir_walk :: "jit \<Rightarrow> nat \<Rightarrow> (nat \<Rightarrow> irins \<Rightarrow> bool) \<Rightarrow> nat \<Rightarrow> nat res" where
  "ir_walk J lim P ref = chain_walk (j_ir J) lim P 0x10000 ref"

text \<open>
  The functions that intern a constant search the chain of its opcode and otherwise add an
  instruction; \<open>upd\<close> stores the literal.
\<close>

definition ir_internk ::
    "jit \<Rightarrow> irop \<Rightarrow> irtype \<Rightarrow> (irins \<Rightarrow> bool) \<Rightarrow> (irins \<Rightarrow> irins) \<Rightarrow> (jit \<times> nat) res" where
  "ir_internk J oo t same upd =
     rbind (ir_walk J 0 (\<lambda>_. same) (j_chain J oo)) (\<lambda>ref.
       if ref \<noteq> 0 then Inr (J, ref)
       else rbind (ir_nextk J) (\<lambda>(J, ref).
              let ir = upd ((j_ir J ref)\<lparr>ir_t := IRT t, ir_o := oo, ir_prev := j_chain J oo\<rparr>)
              in Inr (J\<lparr>j_ir := (j_ir J)(ref := ir), j_chain := (j_chain J)(oo := ref)\<rparr>, ref)))"

definition lj_ir_kint :: "jit \<Rightarrow> u32 \<Rightarrow> (jit \<times> nat) res" where
  "lj_ir_kint J k = ir_internk J IR_KINT IRT_INT (\<lambda>ir. ir_i ir = k) (\<lambda>ir. ir\<lparr>ir_i := k\<rparr>)"

definition LJ_MIN_K64SZ :: nat where "LJ_MIN_K64SZ = 16"

text \<open>The first position of a constant in the chained arrays, the last array being \<open>n\<close>.\<close>

fun k64_index :: "u64 list \<Rightarrow> u64 \<Rightarrow> nat \<Rightarrow> nat option" where
  "k64_index [] u i = None"
| "k64_index (x # xs) u i = (if x = u then Some i else k64_index xs u (i + 1))"

fun k64_search :: "u64 list list \<Rightarrow> u64 \<Rightarrow> nat \<Rightarrow> kaddr option" where
  "k64_search [] u n = None"
| "k64_search (k # ks) u n =
     (case k64_index k u 0 of Some i \<Rightarrow> Some (n, i) | None \<Rightarrow> k64_search ks u (n + 1))"

definition lj_ir_k64_find :: "jit \<Rightarrow> u64 \<Rightarrow> jit \<times> kaddr" where
  "lj_ir_k64_find J u64 =
     (case k64_search (j_k64 J) u64 0 of
        Some tv \<Rightarrow> (J, tv)
      | None \<Rightarrow>
          (let ks = j_k64 J;
               ks = (if ks \<noteq> [] \<and> length (last ks) < LJ_MIN_K64SZ then ks else ks @ [[]]);
               kp = last ks
           in (J\<lparr>j_k64 := butlast ks @ [kp @ [u64]]\<rparr>, (length ks - 1, length kp))))"

definition k64_val :: "u64 list list \<Rightarrow> kaddr \<Rightarrow> u64" where
  "k64_val ks a = ks ! fst a ! snd a"

definition lj_ir_k64 :: "jit \<Rightarrow> irop \<Rightarrow> kaddr \<Rightarrow> (jit \<times> nat) res" where
  "lj_ir_k64 J op tv =
     ir_internk J op (if op = IR_KNUM then IRT_NUM else IRT_I64) (\<lambda>ir. ir_k ir = tv) (\<lambda>ir. ir\<lparr>ir_k := tv\<rparr>)"

definition lj_ir_knum_u64 :: "jit \<Rightarrow> u64 \<Rightarrow> (jit \<times> nat) res" where
  "lj_ir_knum_u64 J u64 = (case lj_ir_k64_find J u64 of (J, tv) \<Rightarrow> lj_ir_k64 J IR_KNUM tv)"

definition lj_ir_kint64 :: "jit \<Rightarrow> u64 \<Rightarrow> (jit \<times> nat) res" where
  "lj_ir_kint64 J u64 = (case lj_ir_k64_find J u64 of (J, tv) \<Rightarrow> lj_ir_k64 J IR_KINT64 tv)"

text \<open>Objects and pointers are given by their 32-bit addresses.\<close>

definition lj_ir_kgc :: "jit \<Rightarrow> u32 \<Rightarrow> irtype \<Rightarrow> (jit \<times> nat) res" where
  "lj_ir_kgc J p t = ir_internk J IR_KGC t (\<lambda>ir. ir_i ir = p) (\<lambda>ir. ir\<lparr>ir_i := p\<rparr>)"

definition lj_ir_kptr_op :: "jit \<Rightarrow> irop \<Rightarrow> u32 \<Rightarrow> (jit \<times> nat) res" where
  "lj_ir_kptr_op J op p = ir_internk J op IRT_P32 (\<lambda>ir. ir_i ir = p) (\<lambda>ir. ir\<lparr>ir_i := p\<rparr>)"

definition lj_ir_knull :: "jit \<Rightarrow> irtype \<Rightarrow> (jit \<times> nat) res" where
  "lj_ir_knull J t =
     ir_internk J IR_KNULL t (\<lambda>ir. irt_ty (ir_t ir) = t) (\<lambda>ir. ir\<lparr>ir_i := 0\<rparr>)"

definition lj_ir_kslot :: "jit \<Rightarrow> nat \<Rightarrow> nat \<Rightarrow> (jit \<times> nat) res" where
  "lj_ir_kslot J key slot =
     ir_internk J IR_KSLOT IRT_P32 (\<lambda>ir. ir_op1 ir = key \<and> ir_op2 ir = slot)
       (\<lambda>ir. ir\<lparr>ir_op1 := key, ir_op2 := slot\<rparr>)"

text \<open>An exact 32-bit integer other than -0 becomes an integer constant.\<close>

definition numistrueint :: "u64 \<Rightarrow> u32 option" where
  "numistrueint n =
     (case num_toint n of
        Some k \<Rightarrow> if k = 0 \<and> n \<noteq> 0 then None else Some (of_int k)
      | None \<Rightarrow> None)"

definition lj_ir_knumint :: "jit \<Rightarrow> u64 \<Rightarrow> (jit \<times> nat) res" where
  "lj_ir_knumint J n =
     (case numistrueint n of Some k \<Rightarrow> lj_ir_kint J k | None \<Rightarrow> lj_ir_knum_u64 J n)"

section \<open>Start of a trace\<close>

text \<open>The instructions for the fixed references.\<close>

definition record_setup_ir :: "jit \<Rightarrow> nat \<Rightarrow> nat \<Rightarrow> (jit \<times> nat) res" where
  "record_setup_ir J parent exitno =
     rbind (lj_ir_emit (lj_ir_set (J\<lparr>j_chain := (\<lambda>_. 0), j_scev_idx := REF_NIL\<rparr>)
              IR_BASE (IRT IRT_P32) parent exitno)) (\<lambda>(J, ref).
       let k = (\<lambda>t. ir_none\<lparr>ir_t := IRT t, ir_o := IR_KPRI\<rparr>)
       in Inr (J\<lparr>j_ir := (j_ir J)(REF_NIL := k IRT_NIL, REF_NIL - 1 := k IRT_FALSE,
                                  REF_NIL - 2 := k IRT_TRUE),
                 j_nk := REF_TRUE\<rparr>, ref))"

end
