(* ===== verification/LJ_Carith.thy ===== *)
theory LJ_Carith
  imports LJ_IR "HOL-Library.Signed_Division"
begin

text \<open>
  Integer arithmetic helpers: the 32-bit modulo of \<^verbatim>\<open>lj_vmmath.c\<close>, the 64-bit division, modulo
  and power of \<^verbatim>\<open>lj_carith.c\<close>, rotation and byte swap of \<^verbatim>\<open>lj_def.h\<close> at both widths.  C division
  truncates; a division by zero that the code does not test for is the error \<open>OOB\<close>.
\<close>

section \<open>Definitions\<close>

definition lj_vm_modi :: "u32 \<Rightarrow> u32 \<Rightarrow> u32 res" where
  "lj_vm_modi a b =
     (if b = 0 then Inl OOB else
      (let ua = (if a <s 0 then - a else a);
           ub = (if b <s 0 then - b else b);
           y = ua mod ub;
           y = (if y \<noteq> 0 \<and> (a XOR b) <s 0 then y - ub else y);
           y = (if (y XOR b) <s 0 then - y else y)
       in Inr y))"

definition lj_carith_divu64 :: "u64 \<Rightarrow> u64 \<Rightarrow> u64" where
  "lj_carith_divu64 a b = (if b = 0 then 0x8000000000000000 else a div b)"

definition lj_carith_divi64 :: "u64 \<Rightarrow> u64 \<Rightarrow> u64" where
  "lj_carith_divi64 a b =
     (if b = 0 \<or> (a = 0x8000000000000000 \<and> b = - 1) then 0x8000000000000000
      else of_int (sint a sdiv sint b))"

definition lj_carith_modu64 :: "u64 \<Rightarrow> u64 \<Rightarrow> u64" where
  "lj_carith_modu64 a b = (if b = 0 then 0x8000000000000000 else a mod b)"

definition lj_carith_modi64 :: "u64 \<Rightarrow> u64 \<Rightarrow> u64" where
  "lj_carith_modi64 a b =
     (if b = 0 then 0x8000000000000000
      else if a = 0x8000000000000000 \<and> b = - 1 then 0
      else of_int (sint a smod sint b))"

lemma drop_bit_1_less [unfolded One_nat_def]: "k \<noteq> 0 \<Longrightarrow> unat (drop_bit 1 (k :: u64)) < unat k"
  by (simp add: unat_drop_bit_eq drop_bit_eq_div [where ?'a = nat] word_unat_eq_iff)

text \<open>The two loops of the power function: squaring for the trailing zeros of the exponent,
  then one round for each further bit.\<close>

function pow_zeros :: "u64 \<Rightarrow> u64 \<Rightarrow> u64 \<times> u64" where
  "pow_zeros x k = (if k AND 1 = 0 \<and> k \<noteq> 0 then pow_zeros (x * x) (drop_bit 1 k) else (x, k))"
  by pat_completeness auto
termination
  by (relation "measure (\<lambda>(x, k). unat k)") (auto simp: drop_bit_1_less)

function pow_bits :: "u64 \<Rightarrow> u64 \<Rightarrow> u64 \<Rightarrow> u64" where
  "pow_bits x y k =
     (let x = x * x in
      if k = 1 \<or> k = 0 then y * x
      else pow_bits x (if k AND 1 \<noteq> 0 then y * x else y) (drop_bit 1 k))"
  by pat_completeness auto
termination
  by (relation "measure (\<lambda>(x, y, k). unat k)") (auto simp: drop_bit_1_less)

declare pow_zeros.simps [simp del] pow_bits.simps [simp del]

definition lj_carith_powu64 :: "u64 \<Rightarrow> u64 \<Rightarrow> u64" where
  "lj_carith_powu64 x k =
     (if k = 0 then 1
      else case pow_zeros x k of
             (x, k) \<Rightarrow> (let k' = drop_bit 1 k in if k' \<noteq> 0 then pow_bits x x k' else x))"

definition lj_carith_powi64 :: "u64 \<Rightarrow> u64 \<Rightarrow> u64" where
  "lj_carith_powi64 x k =
     (if k = 0 then 1
      else if k <s 0 then
        (if x = 0 then 0x7fffffffffffffff
         else if x = 1 then 1
         else if x = - 1 then (if k AND 1 \<noteq> 0 then - 1 else 1)
         else 0)
      else lj_carith_powu64 x k)"

definition lj_bswap64 :: "u64 \<Rightarrow> u64" where
  "lj_bswap64 x = ucast (lj_bswap (ucast (drop_bit 32 x))) OR push_bit 32 (ucast (lj_bswap (ucast x)))"

section \<open>Power\<close>

lemma even_iff_and: "k AND 1 = (0 :: u64) \<longleftrightarrow> even (unat k)"
proof -
  have "unat (k AND 1) = unat k mod 2" by (simp add: and_one_eq unat_mod)
  then show ?thesis by (metis even_iff_mod_2_eq_zero unat_eq_zero)
qed

lemma unat_half: "unat (drop_bit 1 (k :: u64)) = unat k div 2"
  by (simp add: unat_drop_bit_eq drop_bit_eq_div [where ?'a = nat])

lemma pow_zeros:
  "k \<noteq> 0 \<Longrightarrow> pow_zeros x k = (x', k') \<Longrightarrow> x' ^ unat k' = x ^ unat k \<and> odd (unat k')"
proof (induction x k rule: pow_zeros.induct)
  case (1 x k)
  show ?case
  proof (cases "even (unat k)")
    case True
    then have r: "pow_zeros (x * x) (drop_bit 1 k) = (x', k')" "k AND 1 = 0"
      using 1 by (simp_all add: pow_zeros.simps [of x k] even_iff_and)
    have "drop_bit 1 k \<noteq> 0"
      using True 1(2) unat_half [of k] by (auto simp: word_unat_eq_iff elim!: evenE)
    then have "x' ^ unat k' = (x * x) ^ (unat k div 2) \<and> odd (unat k')"
      using 1(1) r 1(2) unat_half by metis
    moreover have "(x * x) ^ (unat k div 2) = x ^ unat k"
      using True by (metis dvd_mult_div_cancel power2_eq_square power_mult)
    ultimately show ?thesis by simp
  next
    case False
    then show ?thesis using 1 by (simp add: pow_zeros.simps [of x k] even_iff_and)
  qed
qed

lemma pow_bits: "k \<noteq> 0 \<Longrightarrow> pow_bits x y k = y * (x * x) ^ unat k"
proof (induction x y k rule: pow_bits.induct)
  case (1 x y k)
  show ?case
  proof (cases "k = 1")
    case True
    then show ?thesis by (subst pow_bits.simps) (simp add: Let_def)
  next
    case False
    have h: "unat (drop_bit 1 k) = unat k div 2" by (rule unat_half)
    have "2 \<le> unat k" using False 1(2) by (metis One_nat_def Suc_leI Suc_1 le_eq_less_or_eq less_Suc_eq
          neq0_conv not_less_eq unat_1 unat_eq_zero word_unat_eq_iff)
    then have nz: "drop_bit 1 k \<noteq> 0" using h by (auto simp: word_unat_eq_iff)
    have r: "pow_bits x y k = pow_bits (x * x) (if k AND 1 \<noteq> 0 then y * (x * x) else y) (drop_bit 1 k)"
      by (subst pow_bits.simps) (simp only: Let_def False 1(2) if_False simp_thms)
    have ih: "pow_bits x y k = (if odd (unat k) then y * (x * x) else y) * ((x * x) * (x * x)) ^ (unat k div 2)"
      unfolding r using 1(1) [OF refl _ nz] False 1(2) by (simp only: h even_iff_and simp_thms)
    define q where "q = unat k div 2"
    have e: "((x * x) * (x * x)) ^ q = (x * x) ^ (2 * q)"
      by (simp only: power_mult power2_eq_square)
    have "unat k = (if odd (unat k) then Suc (2 * q) else 2 * q)" by (simp add: q_def)
    then show ?thesis
      unfolding ih q_def [symmetric] e
      by (cases "odd (unat k)") (simp_all only: if_True if_False power_Suc mult.assoc simp_thms)
  qed
qed

lemma powu64_eq: "lj_carith_powu64 x k = x ^ unat k"
proof (cases "k = 0")
  case True
  then show ?thesis by (simp add: lj_carith_powu64_def)
next
  case False
  obtain x' k' where z: "pow_zeros x k = (x', k')" by fastforce
  have p: "x' ^ unat k' = x ^ unat k" "odd (unat k')" using pow_zeros [OF False z] by simp_all
  have d: "unat k' = 2 * unat (drop_bit 1 k') + 1" using p(2) unat_half [of k'] by simp
  have "(if drop_bit 1 k' \<noteq> 0 then pow_bits x' x' (drop_bit 1 k') else x') = x' ^ unat k'"
    unfolding d by (auto simp: pow_bits power_mult power2_eq_square)
  then show ?thesis using False z p(1) by (simp only: lj_carith_powu64_def Let_def if_False prod.case)
qed

section \<open>Modulo and division\<close>

lemma sless_zero_iff: "(a :: 'a::len word) <s 0 \<longleftrightarrow> sint a < 0"
  by (simp add: word_sless_alt)

lemma sint32_range: "- 2147483648 \<le> sint (a :: u32)" "sint (a :: u32) \<le> 2147483647"
  using sint_greater_eq [of a] sint_lt [of a] by simp_all


lemma uint_of_sint:
  "uint (a :: 'a::len word) = (if sint a < 0 then sint a + 2 ^ LENGTH('a) else sint a)"
proof -
  have r: "- (2 ^ (LENGTH('a) - 1)) \<le> sint a" "sint a < 2 ^ (LENGTH('a) - 1)"
    using sint_greater_eq [of a] sint_lt [of a] by simp_all
  have p: "(2 :: int) ^ LENGTH('a) = 2 * 2 ^ (LENGTH('a) - 1)"
    by (metis len_gt_0 power_eq_if neq0_conv)
  have u: "uint a = sint a mod 2 ^ LENGTH('a)" by (simp add: uint_sint take_bit_eq_mod)
  show ?thesis
  proof (cases "sint a < 0")
    case True
    have "sint a mod 2 ^ LENGTH('a) = (sint a + 2 ^ LENGTH('a)) mod 2 ^ LENGTH('a)" by simp
    also have "\<dots> = sint a + 2 ^ LENGTH('a)"
      using True r p by (intro mod_pos_pos_trivial) linarith+
    finally show ?thesis using True u by simp
  next
    case False
    then show ?thesis using u r p by (simp add: mod_pos_pos_trivial)
  qed
qed

lemma sint_of_int:
  "- (2 ^ (LENGTH('a) - 1)) \<le> k \<Longrightarrow> k < 2 ^ (LENGTH('a) - 1) \<Longrightarrow> sint (of_int k :: 'a::len word) = k"
  by (simp add: signed_take_bit_int_eq_self sint_sbintrunc')

text \<open>The magnitude of a signed word, also of the most negative one.\<close>

lemma uint_abs_word:
  "uint (if (a :: 'a::len word) <s 0 then - a else a) = \<bar>sint a\<bar>"
proof (cases "sint a < 0")
  case True
  have "uint (- a) = (- uint a) mod 2 ^ LENGTH('a)" by (simp add: uint_word_ariths)
  also have "- uint a = - sint a - 2 ^ LENGTH('a)"
    using True uint_of_sint [of a] by simp
  also have "(- sint a - 2 ^ LENGTH('a)) mod 2 ^ LENGTH('a) = (- sint a) mod 2 ^ LENGTH('a)"
    by (rule minus_mod_self2)
  also have "\<dots> = - sint a"
  proof (rule mod_pos_pos_trivial)
    have "- sint a \<le> 2 ^ (LENGTH('a) - 1)" using sint_greater_eq [of a] by simp
    also have "\<dots> < 2 ^ LENGTH('a)" by simp
    finally show "- sint a < 2 ^ LENGTH('a)" .
  qed (use True in simp)
  finally show ?thesis using True by (simp add: sless_zero_iff)
next
  case False
  then show ?thesis using uint_of_sint [of a] by (simp add: sless_zero_iff)
qed

lemma sless_zero_xor:
  "(a XOR b) <s 0 \<longleftrightarrow> (sint (a :: 'a::len word) < 0) \<noteq> (sint b < 0)"
  by (simp add: sless_zero_iff bit_last_iff [symmetric] bit_xor_iff)

lemma mod_floor_abs:
  fixes A B :: int
  assumes "B \<noteq> 0"
  defines "Y \<equiv> \<bar>A\<bar> mod \<bar>B\<bar>"
  shows "A mod B = (if Y = 0 then 0 else if (A < 0) \<noteq> (B < 0) then (if B < 0 then Y - \<bar>B\<bar> else \<bar>B\<bar> - Y)
      else if B < 0 then - Y else Y)"
proof (cases "A < 0"; cases "B < 0")
  assume n: "A < 0" "B < 0"
  then show ?thesis using mod_minus_minus [of "- A" "- B"] by (simp add: Y_def)
next
  assume n: "A < 0" "\<not> B < 0"
  then show ?thesis using zmod_zminus1_eq_if [of "- A" B] assms(1) by (simp add: Y_def)
next
  assume n: "\<not> A < 0" "B < 0"
  then show ?thesis using zmod_zminus2_eq_if [of A "- B"] by (simp add: Y_def)
next
  assume n: "\<not> A < 0" "\<not> B < 0"
  then show ?thesis by (simp add: Y_def)
qed

text \<open>The 32-bit modulo is the floored one: the result has the sign of the divisor.\<close>

lemma modi_floor:
  assumes "b \<noteq> 0"
  shows "lj_vm_modi a b = Inr (of_int (sint a mod sint b))"
proof -
  define A B Y where d: "A = sint a" "B = sint b" "Y = \<bar>A\<bar> mod \<bar>B\<bar>"
  have B: "B \<noteq> 0" using assms uint_of_sint [of b] by (auto simp: d uint_0_iff)
  have R: "\<bar>B\<bar> \<le> 2 ^ 31" "0 \<le> Y" "Y < \<bar>B\<bar>"
    using sint32_range [of b] B by (auto simp: d)
  define y where "y = (if a <s 0 then - a else a) mod (if b <s 0 then - b else b)"
  have uy: "uint y = Y" unfolding y_def by (simp add: uint_mod uint_abs_word d)
  have y: "y = of_int Y" by (simp only: uy [symmetric] word_of_int_uint)
  have ub: "(if b <s 0 then - b else b) = of_int \<bar>B\<bar>"
    by (simp only: d(2) uint_abs_word [symmetric] word_of_int_uint)
  define z where "z = (if y \<noteq> 0 \<and> (a XOR b) <s 0 then y - (if b <s 0 then - b else b) else y)"
  define Z where "Z = (if Y \<noteq> 0 \<and> (A < 0) \<noteq> (B < 0) then Y - \<bar>B\<bar> else Y)"
  have y0: "y = 0 \<longleftrightarrow> Y = 0" using uy by (metis uint_0_iff)
  have z: "z = of_int Z"
    unfolding z_def Z_def sless_zero_xor ub y0 d(1,2) [symmetric] by (simp add: y)
  have sz: "sint z = Z"
    unfolding z by (rule sint_of_int) (use R in \<open>auto simp: Z_def\<close>)
  have "(if (Z < 0) \<noteq> (B < 0) then - Z else Z) = A mod B"
    unfolding mod_floor_abs [OF B, of A, folded d(3)] Z_def
    using R(2,3) B by (cases "Y = 0"; cases "A < 0"; cases "B < 0") simp_all
  then have "(if (z XOR b) <s 0 then - z else z) = of_int (A mod B)"
    unfolding sless_zero_xor sz d(2) [symmetric] by (simp only: z of_int_minus [symmetric] if_distrib [symmetric])
  then show ?thesis
    by (simp only: lj_vm_modi_def Let_def y_def [symmetric] z_def [symmetric] assms if_False d)
qed

lemma sint64_range: "- 9223372036854775808 \<le> sint (a :: u64)" "sint (a :: u64) \<le> 9223372036854775807"
  using sint_greater_eq [of a] sint_lt [of a] by simp_all

lemma sint_0_iff [simp]: "sint (b :: 'a::len word) = 0 \<longleftrightarrow> b = 0"
  using uint_of_sint [of b] by (auto simp: uint_0_iff)

text \<open>Signed division truncates; only the quotient of the two excluded operands overflows.\<close>

lemma divi64_trunc:
  assumes "b \<noteq> 0" "\<not> (a = 0x8000000000000000 \<and> b = - 1)"
  shows "sint (lj_carith_divi64 a b) = sint a sdiv sint b"
    and "sint (lj_carith_modi64 a b) = sint a smod sint b"
proof -
  define A B where d: "A = sint a" "B = sint b"
  have B: "B \<noteq> 0" using assms by (simp add: d)
  have r: "\<bar>A\<bar> \<le> 9223372036854775808" "\<bar>B\<bar> \<le> 9223372036854775808"
    using sint64_range [of a] sint64_range [of b] by (auto simp: d)
  have q: "- \<bar>A\<bar> \<le> A sdiv B" "A sdiv B \<le> \<bar>A\<bar>" using sdiv_int_range [of A B] by simp_all
  have top: "A sdiv B \<noteq> 9223372036854775808"
  proof
    assume e: "A sdiv B = 9223372036854775808"
    then have "A = - 9223372036854775808" using q r sint64_range [of a] by (simp add: d)
    moreover from this e have "B = - 1" using int_sdiv_negated_is_minus1 [of A B] by simp
    ultimately have "of_int (sint a) = (of_int (- 9223372036854775808) :: u64)" "of_int (sint b) = (of_int (- 1) :: u64)"
      by (simp_all only: d)
    then show False using assms(2) by simp
  qed
  show "sint (lj_carith_divi64 a b) = sint a sdiv sint b"
  proof -
    have "lj_carith_divi64 a b = of_int (A sdiv B)" using assms by (auto simp: lj_carith_divi64_def d)
    then show ?thesis using q r top sint_of_int [of "A sdiv B", where ?'a = 64] by (simp add: d)
  qed
  show "sint (lj_carith_modi64 a b) = sint a smod sint b"
  proof -
    have "lj_carith_modi64 a b = of_int (A smod B)" using assms by (auto simp: lj_carith_modi64_def d)
    moreover have "- \<bar>B\<bar> < A smod B" "A smod B < \<bar>B\<bar>" using smod_int_range [OF B, of A] by simp_all
    ultimately show ?thesis using r sint_of_int [of "A smod B", where ?'a = 64] by (simp add: d)
  qed
qed

text \<open>Quotient and remainder belong together, also where the quotient overflows.\<close>

lemma div_mod_64:
  assumes "b \<noteq> 0"
  shows "lj_carith_divu64 a b * b + lj_carith_modu64 a b = a"
    and "lj_carith_divi64 a b * b + lj_carith_modi64 a b = a"
proof -
  show "lj_carith_divu64 a b * b + lj_carith_modu64 a b = a"
    using assms by (simp add: lj_carith_divu64_def lj_carith_modu64_def div_mult_mod_eq)
  show "lj_carith_divi64 a b * b + lj_carith_modi64 a b = a"
  proof (cases "a = 0x8000000000000000 \<and> b = - 1")
    case True
    then show ?thesis by (simp add: lj_carith_divi64_def lj_carith_modi64_def)
  next
    case False
    have "lj_carith_divi64 a b * b + lj_carith_modi64 a b =
        of_int (sint a sdiv sint b) * of_int (sint b) + of_int (sint a smod sint b)"
      using False assms by (simp only: lj_carith_divi64_def lj_carith_modi64_def of_int_sint scast_id if_False simp_thms)
    also have "\<dots> = of_int (sint a sdiv sint b * sint b + sint a smod sint b)" by simp
    also have "\<dots> = a" by (simp only: sdiv_mult_smod_eq) simp
    finally show ?thesis .
  qed
qed

end
