(* ===== verification/LJ_FoldK.thy ===== *)
theory LJ_FoldK
  imports LJ_Carith
begin

text \<open>
  Fold functions of \<^verbatim>\<open>lj_opt_fold.c\<close>, first part: results of fold functions (\<^verbatim>\<open>lj_iropt.h\<close>),
  constant folding of numbers, 32-bit and 64-bit integers, conversions and equality checks.
  Floating-point arithmetic is that of the machine (\<^verbatim>\<open>lj_vm_foldarith\<close> is assembler on this
  target): the parameter \<open>fp\<close> on the bit patterns of numbers.

  A fold function gets the function for the recursive calls of the engine, \<open>ff\<close>, and the
  compiler state with the instruction \<open>j_fins\<close> and its operands \<open>j_fleft\<close> and \<open>j_fright\<close>.
\<close>

section \<open>Results of fold functions\<close>

datatype foldres = NEXTFOLD | RETRYFOLD | KINTFOLD | FAILFOLD | DROPFOLD | FoldRef nat

type_synonym fres = "(jit \<times> foldres) res"
type_synonym refold = "jit \<Rightarrow> (jit \<times> nat) res"
type_synonym rule = "refold \<Rightarrow> jit \<Rightarrow> fres"

record fpops =
  fp_arith :: "irop \<Rightarrow> u64 \<Rightarrow> u64 \<Rightarrow> u64"
  fp_fpm :: "nat \<Rightarrow> u64 \<Rightarrow> u64"
  fp_eq :: "u64 \<Rightarrow> u64 \<Rightarrow> bool"
  fp_lt :: "u64 \<Rightarrow> u64 \<Rightarrow> bool"
  fp_le :: "u64 \<Rightarrow> u64 \<Rightarrow> bool"
  fp_tobit :: "u64 \<Rightarrow> u32"
  fp_toi32 :: "u64 \<Rightarrow> u32"
  fp_tou32 :: "u64 \<Rightarrow> u32"
  fp_toi64 :: "u64 \<Rightarrow> u64"
  fp_tou64 :: "u64 \<Rightarrow> u64"
  fp_ofi64 :: "int \<Rightarrow> u64"

definition fold_ret :: "jit \<Rightarrow> foldres \<Rightarrow> fres" where
  "fold_ret J r = Inr (J, r)"

abbreviation fo :: "jit \<Rightarrow> irop" where "fo J \<equiv> ir_o (j_fins J)"
abbreviation fop1 :: "jit \<Rightarrow> nat" where "fop1 J \<equiv> ir_op1 (j_fins J)"
abbreviation fop2 :: "jit \<Rightarrow> nat" where "fop2 J \<equiv> ir_op2 (j_fins J)"
abbreviation ft :: "jit \<Rightarrow> irt1" where "ft J \<equiv> ir_t (j_fins J)"

definition set_o :: "irop \<Rightarrow> jit \<Rightarrow> jit" where "set_o x J = J\<lparr>j_fins := (j_fins J)\<lparr>ir_o := x\<rparr>\<rparr>"
definition set_t :: "irt1 \<Rightarrow> jit \<Rightarrow> jit" where "set_t x J = J\<lparr>j_fins := (j_fins J)\<lparr>ir_t := x\<rparr>\<rparr>"
definition set_op1 :: "nat \<Rightarrow> jit \<Rightarrow> jit" where "set_op1 x J = J\<lparr>j_fins := (j_fins J)\<lparr>ir_op1 := x\<rparr>\<rparr>"
definition set_op2 :: "nat \<Rightarrow> jit \<Rightarrow> jit" where "set_op2 x J = J\<lparr>j_fins := (j_fins J)\<lparr>ir_op2 := x\<rparr>\<rparr>"

definition INTFOLD :: "jit \<Rightarrow> u32 \<Rightarrow> fres" where
  "INTFOLD J k = Inr (J\<lparr>j_fins := (j_fins J)\<lparr>ir_i := k\<rparr>\<rparr>, KINTFOLD)"

definition fold_ref :: "(jit \<times> nat) res \<Rightarrow> fres" where
  "fold_ref m = rbind m (\<lambda>(J, r). Inr (J, FoldRef r))"

definition INT64FOLD :: "jit \<Rightarrow> u64 \<Rightarrow> fres" where
  "INT64FOLD J k = fold_ref (lj_ir_kint64 J k)"

definition CONDFOLD :: "jit \<Rightarrow> bool \<Rightarrow> fres" where
  "CONDFOLD J c = Inr (J, if c then DROPFOLD else FAILFOLD)"

definition LEFTFOLD :: "jit \<Rightarrow> fres" where "LEFTFOLD J = Inr (J, FoldRef (fop1 J))"
definition RIGHTFOLD :: "jit \<Rightarrow> fres" where "RIGHTFOLD J = Inr (J, FoldRef (fop2 J))"
definition EMITFOLD :: "jit \<Rightarrow> fres" where "EMITFOLD J = fold_ref (lj_ir_emit J)"

text \<open>Retry with the second operand being a constant that is interned first.\<close>

definition retry_op2 :: "(jit \<times> nat) res \<Rightarrow> fres" where
  "retry_op2 m = rbind m (\<lambda>(J, r). Inr (set_op2 r J, RETRYFOLD))"

definition kleft64 :: "jit \<Rightarrow> u64" where "kleft64 J = k64_val (j_k64 J) (ir_k (j_fleft J))"
definition kright64 :: "jit \<Rightarrow> u64" where "kright64 J = k64_val (j_k64 J) (ir_k (j_fright J))"

definition emitir :: "refold \<Rightarrow> jit \<Rightarrow> irop \<Rightarrow> irt1 \<Rightarrow> nat \<Rightarrow> nat \<Rightarrow> (jit \<times> nat) res" where
  "emitir ff J oo t a b = ff (lj_ir_set J oo t a b)"

definition fnum_one :: u64 where "fnum_one = 0x3ff0000000000000"

section \<open>Numbers\<close>

definition kfold_numarith :: "fpops \<Rightarrow> rule" where
  "kfold_numarith fp ff J =
     fold_ref (lj_ir_knum_u64 J (fp_arith fp (fo J) (kleft64 J) (kright64 J)))"

definition kfold_ldexp :: rule where
  "kfold_ldexp ff J = fold_ret J NEXTFOLD"

definition kfold_fpmath :: "fpops \<Rightarrow> rule" where
  "kfold_fpmath fp ff J = fold_ref (lj_ir_knum_u64 J (fp_fpm fp (fop2 J) (kleft64 J)))"

definition kfold_numpow :: "fpops \<Rightarrow> rule" where
  "kfold_numpow fp ff J =
     fold_ref (lj_ir_knum_u64 J
       (fp_arith fp IR_POW (kleft64 J) (num_of_int (sint (ir_i (j_fright J))))))"

definition lj_ir_numcmp :: "fpops \<Rightarrow> u64 \<Rightarrow> u64 \<Rightarrow> irop \<Rightarrow> bool" where
  "lj_ir_numcmp fp a b op =
     (if op = IR_EQ then fp_eq fp a b
      else if op = IR_NE then \<not> fp_eq fp a b
      else if op = IR_LT then fp_lt fp a b
      else if op = IR_GE then fp_le fp b a
      else if op = IR_LE then fp_le fp a b
      else if op = IR_GT then fp_lt fp b a
      else if op = IR_ULT then \<not> fp_le fp b a
      else if op = IR_UGE then \<not> fp_lt fp a b
      else if op = IR_ULE then \<not> fp_lt fp b a
      else if op = IR_UGT then \<not> fp_le fp a b
      else False)"

definition kfold_numcomp :: "fpops \<Rightarrow> rule" where
  "kfold_numcomp fp ff J = CONDFOLD J (lj_ir_numcmp fp (kleft64 J) (kright64 J) (fo J))"

section \<open>32-bit integers\<close>

definition lj_ror :: "u32 \<Rightarrow> nat \<Rightarrow> u32" where "lj_ror x n = word_rotr n x"

definition kfold_intop :: "u32 \<Rightarrow> u32 \<Rightarrow> irop \<Rightarrow> u32 res" where
  "kfold_intop k1 k2 op =
     (let sh = unat (k2 AND 31) in
      if op = IR_ADD then Inr (k1 + k2)
      else if op = IR_SUB then Inr (k1 - k2)
      else if op = IR_MUL then Inr (k1 * k2)
      else if op = IR_MOD then lj_vm_modi k1 k2
      else if op = IR_NEG then Inr (- k1)
      else if op = IR_BAND then Inr (k1 AND k2)
      else if op = IR_BOR then Inr (k1 OR k2)
      else if op = IR_BXOR then Inr (k1 XOR k2)
      else if op = IR_BSHL then Inr (push_bit sh k1)
      else if op = IR_BSHR then Inr (drop_bit sh k1)
      else if op = IR_BSAR then Inr (signed_drop_bit sh k1)
      else if op = IR_BROL then Inr (lj_rol k1 sh)
      else if op = IR_BROR then Inr (lj_ror k1 sh)
      else if op = IR_MIN then Inr (if k1 <s k2 then k1 else k2)
      else if op = IR_MAX then Inr (if k2 <s k1 then k1 else k2)
      else Inr k1)"

definition kfold_intarith :: rule where
  "kfold_intarith ff J =
     rbind (kfold_intop (ir_i (j_fleft J)) (ir_i (j_fright J)) (fo J)) (INTFOLD J)"

text \<open>The sum or product is computed as a double and is exact if it is in the range of
  \<open>int32_t\<close>; a result outside this range makes the overflow check fail.\<close>

definition kfold_intovarith :: rule where
  "kfold_intovarith ff J =
     (let a = sint (ir_i (j_fleft J)); b = sint (ir_i (j_fright J));
          n = (if fo J = IR_ADDOV then a + b else if fo J = IR_SUBOV then a - b else a * b)
      in if n < - (2 ^ 31) \<or> n \<ge> 2 ^ 31 then fold_ret J FAILFOLD else INTFOLD J (of_int n))"

definition kfold_bnot :: rule where
  "kfold_bnot ff J = INTFOLD J (NOT (ir_i (j_fleft J)))"

definition kfold_bswap :: rule where
  "kfold_bswap ff J = INTFOLD J (lj_bswap (ir_i (j_fleft J)))"

definition kfold_intcomp :: rule where
  "kfold_intcomp ff J =
     (let a = ir_i (j_fleft J); b = ir_i (j_fright J); op = fo J in
      if op = IR_LT then CONDFOLD J (a <s b)
      else if op = IR_GE then CONDFOLD J (b \<le>s a)
      else if op = IR_LE then CONDFOLD J (a \<le>s b)
      else if op = IR_GT then CONDFOLD J (b <s a)
      else if op = IR_ULT then CONDFOLD J (a < b)
      else if op = IR_UGE then CONDFOLD J (b \<le> a)
      else if op = IR_ULE then CONDFOLD J (a \<le> b)
      else if op = IR_ABC \<or> op = IR_UGT then CONDFOLD J (b < a)
      else fold_ret J FAILFOLD)"

definition kfold_intcomp0 :: rule where
  "kfold_intcomp0 ff J = fold_ret J (if ir_i (j_fright J) = 0 then DROPFOLD else NEXTFOLD)"

section \<open>64-bit integers\<close>

definition kfold_int64arith_op :: "u64 \<Rightarrow> u64 \<Rightarrow> irop \<Rightarrow> u64" where
  "kfold_int64arith_op k1 k2 op =
     (if op = IR_ADD then k1 + k2
      else if op = IR_SUB then k1 - k2
      else if op = IR_MUL then k1 * k2
      else if op = IR_BAND then k1 AND k2
      else if op = IR_BOR then k1 OR k2
      else if op = IR_BXOR then k1 XOR k2
      else k1)"

definition kfold_int64arith :: rule where
  "kfold_int64arith ff J = INT64FOLD J (kfold_int64arith_op (kleft64 J) (kright64 J) (fo J))"

definition kfold_int64arith2 :: rule where
  "kfold_int64arith2 ff J =
     (let k1 = kleft64 J; k2 = kright64 J in
      INT64FOLD J
        (if irt_ty (ft J) = IRT_I64 then
           (if fo J = IR_DIV then lj_carith_divi64 k1 k2
            else if fo J = IR_MOD then lj_carith_modi64 k1 k2 else lj_carith_powi64 k1 k2)
         else
           (if fo J = IR_DIV then lj_carith_divu64 k1 k2
            else if fo J = IR_MOD then lj_carith_modu64 k1 k2 else lj_carith_powu64 k1 k2)))"

definition kfold_int64shift :: rule where
  "kfold_int64shift ff J =
     (let k = kleft64 J; sh = unat (ir_i (j_fright J) AND 63); op = fo J in
      INT64FOLD J
        (if op = IR_BSHL then push_bit sh k
         else if op = IR_BSHR then drop_bit sh k
         else if op = IR_BSAR then signed_drop_bit sh k
         else if op = IR_BROL then word_rotl sh k
         else if op = IR_BROR then word_rotr sh k
         else k))"

definition kfold_bnot64 :: rule where
  "kfold_bnot64 ff J = INT64FOLD J (NOT (kleft64 J))"

definition kfold_bswap64 :: rule where
  "kfold_bswap64 ff J = INT64FOLD J (lj_bswap64 (kleft64 J))"

text \<open>Both operands are \<open>uint64_t\<close> here, for the signed comparisons, too.\<close>

definition kfold_int64comp :: rule where
  "kfold_int64comp ff J =
     (let a = kleft64 J; b = kright64 J; op = fo J in
      if op = IR_LT then CONDFOLD J (a < b)
      else if op = IR_GE then CONDFOLD J (b \<le> a)
      else if op = IR_LE then CONDFOLD J (a \<le> b)
      else if op = IR_GT then CONDFOLD J (b < a)
      else if op = IR_ULT then CONDFOLD J (a < b)
      else if op = IR_UGE then CONDFOLD J (b \<le> a)
      else if op = IR_ULE then CONDFOLD J (a \<le> b)
      else if op = IR_UGT then CONDFOLD J (b < a)
      else fold_ret J FAILFOLD)"

definition kfold_int64comp0 :: rule where
  "kfold_int64comp0 ff J = fold_ret J (if kright64 J = 0 then DROPFOLD else NEXTFOLD)"

section \<open>Pointers\<close>

definition kfold_add_kptr :: rule where
  "kfold_add_kptr ff J =
     fold_ref (lj_ir_kptr_op J (ir_o (j_fleft J)) (ir_i (j_fleft J) + ucast (kright64 J)))"

definition kfold_add_kright :: rule where
  "kfold_add_kright ff J =
     (if ir_o (j_fleft J) = IR_KINT \<or> ir_o (j_fleft J) = IR_KINT64
      then Inr (set_op2 (fop1 J) (set_op1 (fop2 J) J), RETRYFOLD)
      else fold_ret J NEXTFOLD)"

section \<open>Conversions\<close>

definition irconv_src :: "nat \<Rightarrow> nat" where "irconv_src op2 = op2 mod 32"
definition irconv_dst :: "nat \<Rightarrow> nat" where "irconv_dst op2 = op2 div 32 mod 32"
definition irconv_trunc :: "nat \<Rightarrow> bool" where "irconv_trunc op2 \<longleftrightarrow> op2 div 0x400 mod 2 = 1"
definition irconv_sext :: "nat \<Rightarrow> bool" where "irconv_sext op2 \<longleftrightarrow> op2 div 0x800 mod 2 = 1"
definition irconv_mode :: "nat \<Rightarrow> nat" where "irconv_mode op2 = op2 mod 0x1000"

definition IRCONV :: "irtype \<Rightarrow> irtype \<Rightarrow> nat" where
  "IRCONV dst src = 32 * irt_num dst + irt_num src"

definition IRCONV_SEXT :: nat where "IRCONV_SEXT = 0x800"

definition kfold_tobit :: "fpops \<Rightarrow> rule" where
  "kfold_tobit fp ff J = INTFOLD J (fp_tobit fp (kleft64 J))"

definition kfold_conv_kint_num :: rule where
  "kfold_conv_kint_num ff J =
     fold_ref (lj_ir_knum_u64 J (num_of_int (sint (ir_i (j_fleft J)))))"

definition kfold_conv_kintu32_num :: "fpops \<Rightarrow> rule" where
  "kfold_conv_kintu32_num fp ff J =
     fold_ref (lj_ir_knum_u64 J (fp_ofi64 fp (uint (ir_i (j_fleft J)))))"

definition kfold_conv_kint_ext :: rule where
  "kfold_conv_kint_ext ff J =
     (let k = ir_i (j_fleft J); src = irconv_src (fop2 J) in
      INTFOLD J (if src = irt_num IRT_I8 then scast (ucast k :: 8 word)
                 else if src = irt_num IRT_U8 then ucast (ucast k :: 8 word)
                 else if src = irt_num IRT_I16 then scast (ucast k :: 16 word)
                 else ucast (ucast k :: 16 word)))"

definition kfold_conv_kint_i64 :: rule where
  "kfold_conv_kint_i64 ff J =
     INT64FOLD J (if irconv_sext (fop2 J) then scast (ir_i (j_fleft J)) else ucast (ir_i (j_fleft J)))"

definition kfold_conv_kint64_num_i64 :: "fpops \<Rightarrow> rule" where
  "kfold_conv_kint64_num_i64 fp ff J =
     fold_ref (lj_ir_knum_u64 J (fp_ofi64 fp (sint (kleft64 J))))"

definition kfold_conv_kint64_num_u64 :: "fpops \<Rightarrow> rule" where
  "kfold_conv_kint64_num_u64 fp ff J =
     fold_ref (lj_ir_knum_u64 J (fp_ofi64 fp (uint (kleft64 J))))"

definition kfold_conv_kint64_int_i64 :: rule where
  "kfold_conv_kint64_int_i64 ff J = INTFOLD J (ucast (kleft64 J))"

text \<open>\<open>lj_num2int\<close> gives an integer equal to the number when there is one.\<close>

definition kfold_conv_knum_int_num :: "fpops \<Rightarrow> rule" where
  "kfold_conv_knum_int_num fp ff J =
     (let n = kleft64 J in
      if \<not> irconv_trunc (fop2 J) then
        (case num_toint n of
           Some k \<Rightarrow> INTFOLD J (of_int k)
         | None \<Rightarrow> if irt_guard (ft J) then fold_ret J FAILFOLD else INTFOLD J (fp_tobit fp n))
      else INTFOLD J (fp_toi32 fp n))"

definition kfold_conv_knum_u32_num :: "fpops \<Rightarrow> rule" where
  "kfold_conv_knum_u32_num fp ff J = INTFOLD J (fp_tou32 fp (kleft64 J))"

definition kfold_conv_knum_i64_num :: "fpops \<Rightarrow> rule" where
  "kfold_conv_knum_i64_num fp ff J = INT64FOLD J (fp_toi64 fp (kleft64 J))"

definition kfold_conv_knum_u64_num :: "fpops \<Rightarrow> rule" where
  "kfold_conv_knum_u64_num fp ff J = INT64FOLD J (fp_tou64 fp (kleft64 J))"

section \<open>Equality checks of constants\<close>

definition kfold_kref :: rule where
  "kfold_kref ff J = CONDFOLD J ((fop1 J = fop2 J) \<noteq> (fo J = IR_NE))"

end
