(* ===== verification/LJ_FoldR.thy ===== *)
theory LJ_FoldR
  imports LJ_FoldK
begin

text \<open>
  Fold functions of \<^verbatim>\<open>lj_opt_fold.c\<close>, second part: algebraic simplification of number and integer
  instructions, conversions, reassociation, elimination of array bounds checks, commutativity.
  The target is x64: shifts and rotations mask their count, 32-bit operations extend their
  result with zeros.
\<close>

section \<open>Shortcuts\<close>

definition is_phi :: "irins \<Rightarrow> bool" where "is_phi ir \<longleftrightarrow> irt_phi (ir_t ir)"

definition IRFPM_TRUNC :: nat where "IRFPM_TRUNC = 2"

definition shortcut_round :: rule where
  "shortcut_round ff J = (if ir_op2 (j_fleft J) \<le> IRFPM_TRUNC then LEFTFOLD J else fold_ret J NEXTFOLD)"

definition shortcut_left :: rule where
  "shortcut_left ff J = LEFTFOLD J"

definition shortcut_dropleft :: rule where
  "shortcut_dropleft ff J =
     (if is_phi (j_fleft J) then fold_ret J NEXTFOLD
      else fold_ret (set_op1 (ir_op1 (j_fleft J)) J) RETRYFOLD)"

definition shortcut_leftleft :: rule where
  "shortcut_leftleft ff J =
     (if is_phi (j_fleft J) then fold_ret J NEXTFOLD
      else fold_ret J (FoldRef (ir_op1 (j_fleft J))))"

section \<open>Numbers\<close>

definition simplify_numadd_negx :: rule where
  "simplify_numadd_negx ff J =
     (if is_phi (j_fleft J) then fold_ret J NEXTFOLD
      else fold_ret (set_op2 (ir_op1 (j_fleft J)) (set_op1 (fop2 J) (set_o IR_SUB J))) RETRYFOLD)"

definition simplify_numadd_xneg :: rule where
  "simplify_numadd_xneg ff J =
     (if is_phi (j_fright J) then fold_ret J NEXTFOLD
      else fold_ret (set_op2 (ir_op1 (j_fright J)) (set_o IR_SUB J)) RETRYFOLD)"

definition simplify_numsub_k :: "fpops \<Rightarrow> rule" where
  "simplify_numsub_k fp ff J = (if fp_eq fp (kright64 J) 0 then LEFTFOLD J else fold_ret J NEXTFOLD)"

definition simplify_numsub_negk :: "fpops \<Rightarrow> rule" where
  "simplify_numsub_negk fp ff J =
     (if is_phi (j_fleft J) then fold_ret J NEXTFOLD
      else rbind (lj_ir_knum_u64 (set_op2 (ir_op1 (j_fleft J)) J) (fp_arith fp IR_NEG (kright64 J) 0))
             (\<lambda>(J, r). fold_ret (set_op1 r J) RETRYFOLD))"

definition simplify_numsub_xneg :: rule where
  "simplify_numsub_xneg ff J =
     (if is_phi (j_fright J) then fold_ret J NEXTFOLD
      else fold_ret (set_op2 (ir_op1 (j_fright J)) (set_o IR_ADD J)) RETRYFOLD)"

text \<open>The operand of a negation is the sign mask; it is given by its value.\<close>

definition simplify_nummuldiv_k :: "fpops \<Rightarrow> rule" where
  "simplify_nummuldiv_k fp ff J =
     (let u = kright64 J; ex = unat (drop_bit 52 u AND 0x7ff) in
      if fp_eq fp u fnum_one then LEFTFOLD J
      else if fp_eq fp u 0xbff0000000000000 then
        retry_op2 (lj_ir_knum_u64 (set_o IR_NEG J) 0x8000000000000000)
      else if fo J = IR_MUL \<and> fp_eq fp u 0x4000000000000000 then
        fold_ret (set_op2 (fop1 J) (set_o IR_ADD J)) RETRYFOLD
      else if fo J = IR_DIV \<and> u AND 0xfffffffffffff = 0 \<and> 1 \<le> ex \<and> ex \<le> 0x7fd then
        retry_op2 (lj_ir_knum_u64 (set_o IR_MUL J)
          ((u AND 0x8000000000000000) OR push_bit 52 (of_nat (0x7fe - ex))))
      else fold_ret J NEXTFOLD)"

definition simplify_nummuldiv_negk :: "fpops \<Rightarrow> rule" where
  "simplify_nummuldiv_negk fp ff J =
     (if is_phi (j_fleft J) then fold_ret J NEXTFOLD
      else retry_op2 (lj_ir_knum_u64 (set_op1 (ir_op1 (j_fleft J)) J) (fp_arith fp IR_NEG (kright64 J) 0)))"

definition simplify_nummuldiv_negneg :: rule where
  "simplify_nummuldiv_negneg ff J =
     (if is_phi (j_fleft J) \<or> is_phi (j_fright J) then fold_ret J NEXTFOLD
      else fold_ret (set_op2 (ir_op1 (j_fright J)) (set_op1 (ir_op1 (j_fleft J)) J)) RETRYFOLD)"

text \<open>Unrolling of a power: the loops over the zeros and over the other bits of the exponent.\<close>

function xk_zeros :: "refold \<Rightarrow> jit \<Rightarrow> nat \<Rightarrow> nat \<Rightarrow> (jit \<times> nat \<times> nat) res" where
  "xk_zeros ff J ref k =
     (if even k \<and> k \<noteq> 0 then
        rbind (emitir ff J IR_MUL (IRT IRT_NUM) ref ref) (\<lambda>(J, ref). xk_zeros ff J ref (k div 2))
      else Inr (J, ref, k))"
  by pat_completeness auto
termination
  by (relation "measure (\<lambda>(ff, J, ref, k). k)") auto

function xk_bits :: "refold \<Rightarrow> jit \<Rightarrow> nat \<Rightarrow> nat \<Rightarrow> nat \<Rightarrow> (jit \<times> nat) res" where
  "xk_bits ff J ref tmp k =
     (if k \<le> 1 then emitir ff J IR_MUL (IRT IRT_NUM) ref tmp
      else
        rbind (if odd k then emitir ff J IR_MUL (IRT IRT_NUM) ref tmp else Inr (J, ref)) (\<lambda>(J, ref).
        rbind (emitir ff J IR_MUL (IRT IRT_NUM) tmp tmp) (\<lambda>(J, tmp).
          xk_bits ff J ref tmp (k div 2))))"
  by pat_completeness auto
termination
  by (relation "measure (\<lambda>(ff, J, ref, tmp, k). k)") auto

declare xk_zeros.simps [simp del] xk_bits.simps [simp del]

definition simplify_numpow_xk :: rule where
  "simplify_numpow_xk ff J =
     (let k = sint (ir_i (j_fright J)); ref = fop1 J in
      if k = 0 then fold_ref (lj_ir_knum_u64 J fnum_one)
      else if k = 1 then LEFTFOLD J
      else if k < - 65536 \<or> k > 65536 then fold_ret J NEXTFOLD
      else
        rbind (if k < 0 then
                 rbind (lj_ir_knum_u64 J fnum_one) (\<lambda>(J, one). emitir ff J IR_DIV (IRT IRT_NUM) one ref)
               else Inr (J, ref)) (\<lambda>(J, ref).
        rbind (xk_zeros ff J ref (nat \<bar>k\<bar>)) (\<lambda>(J, ref, k).
          if k div 2 \<noteq> 0 then
            rbind (emitir ff J IR_MUL (IRT IRT_NUM) ref ref) (\<lambda>(J, tmp).
              fold_ref (xk_bits ff J ref tmp (k div 2)))
          else fold_ret J (FoldRef ref))))"

definition simplify_numpow_kx :: "fpops \<Rightarrow> rule" where
  "simplify_numpow_kx fp ff J =
     (if fp_eq fp (kleft64 J) 0x4000000000000000 then
        rbind (ff (set_op2 (IRCONV IRT_NUM IRT_INT) (set_op1 (fop2 J) (set_o IR_CONV J)))) (\<lambda>(J, r).
        rbind (lj_ir_knum_u64 (set_op2 r J) fnum_one) (\<lambda>(J, one).
          fold_ret (set_o IR_LDEXP (set_op1 one J)) RETRYFOLD))
      else fold_ret J NEXTFOLD)"

section \<open>Conversions\<close>

abbreviation left_src :: "jit \<Rightarrow> nat" where "left_src J \<equiv> irconv_src (ir_op2 (j_fleft J))"

definition shortcut_conv_num_int :: rule where
  "shortcut_conv_num_int ff J =
     (if \<not> is_phi (j_fleft J) \<and> left_src J = irt_num IRT_NUM \<and> irt_guard (ir_t (j_fleft J))
      then fold_ret J (FoldRef (ir_op1 (j_fleft J))) else fold_ret J NEXTFOLD)"

definition simplify_conv_int_num :: rule where
  "simplify_conv_int_num ff J =
     (if left_src J = irconv_dst (fop2 J)
      then fold_ret J (FoldRef (ir_op1 (j_fleft J))) else fold_ret J NEXTFOLD)"

definition simplify_conv_i64_num :: rule where
  "simplify_conv_i64_num ff J =
     (if is_phi (j_fleft J) then fold_ret J NEXTFOLD
      else if left_src J = irt_num IRT_INT then
        fold_ret (set_op2 (IRCONV IRT_I64 IRT_INT + IRCONV_SEXT) (set_op1 (ir_op1 (j_fleft J)) J)) RETRYFOLD
      else if left_src J = irt_num IRT_U32 then fold_ret J (FoldRef (ir_op1 (j_fleft J)))
      else fold_ret J NEXTFOLD)"

definition simplify_conv_int_i64 :: rule where
  "simplify_conv_int_i64 ff J =
     (let src = left_src J; dst = irconv_dst (fop2 J) in
      if is_phi (j_fleft J) then fold_ret J NEXTFOLD
      else if src = irt_num IRT_INT \<or> src = irt_num IRT_U32 then
        (if src = dst then fold_ret J (FoldRef (ir_op1 (j_fleft J)))
         else fold_ret (set_op1 (ir_op1 (j_fleft J)) (set_op2 (32 * dst + src) J)) RETRYFOLD)
      else fold_ret J NEXTFOLD)"

definition simplify_conv_flt_num :: rule where
  "simplify_conv_flt_num ff J =
     (if \<not> is_phi (j_fleft J) \<and> left_src J = irt_num IRT_FLOAT
      then fold_ret J (FoldRef (ir_op1 (j_fleft J))) else fold_ret J NEXTFOLD)"

definition simplify_tobit_conv :: rule where
  "simplify_tobit_conv ff J =
     (if left_src J = irt_num IRT_INT then fold_ret J (FoldRef (ir_op1 (j_fleft J)))
      else if left_src J = irt_num IRT_U32 then
        fold_ret (set_op2 (IRCONV IRT_INT IRT_U32) (set_op1 (ir_op1 (j_fleft J)) (set_o IR_CONV J))) RETRYFOLD
      else fold_ret J NEXTFOLD)"

definition simplify_floor_conv :: rule where
  "simplify_floor_conv ff J =
     (if left_src J = irt_num IRT_INT \<or> left_src J = irt_num IRT_U32
      then LEFTFOLD J else fold_ret J NEXTFOLD)"

definition simplify_conv_sext :: rule where
  "simplify_conv_sext ff J =
     (let L = j_fleft J; addk = (ir_o L = IR_ADD \<and> irref_isk (ir_op2 L));
          ofs = (if addk then sint (ir_i (j_ir J (ir_op2 L))) else 0);
          ref = (if addk then ir_op1 L else fop1 J);
          lo = (if j_scev_dir J then j_scev_start J else j_scev_stop J)
      in if \<not> irconv_sext (fop2 J) \<or> is_phi L then fold_ret J NEXTFOLD
         else if ir_o L = IR_XLOAD \<and> (irt_ty (ir_t L) = IRT_U8 \<or> irt_ty (ir_t L) = IRT_U16) then LEFTFOLD J
         else if ref = j_scev_idx J \<and> lo \<noteq> 0 \<and> sint (ir_i (j_ir J lo)) + ofs \<ge> 0 then LEFTFOLD J
         else fold_ret J NEXTFOLD)"

definition simplify_conv_narrow :: rule where
  "simplify_conv_narrow ff J =
     (let op = ir_o (j_fleft J); t = irt_ty (ft J); op1 = ir_op1 (j_fleft J);
          op2 = ir_op2 (j_fleft J); mode = fop2 J
      in if is_phi (j_fleft J) then fold_ret J NEXTFOLD
         else
           rbind (emitir ff J IR_CONV (IRT IRT_INT) op1 mode) (\<lambda>(J, op1).
           rbind (emitir ff J IR_CONV (IRT IRT_INT) op2 mode) (\<lambda>(J, op2).
             fold_ret (lj_ir_set J op (IRT t) op1 op2) RETRYFOLD)))"

text \<open>A conversion with a stronger check may be reused.\<close>

definition cse_conv :: rule where
  "cse_conv ff J =
     (if j_opt_cse J then
        (let op1 = fop1 J; op2 = irconv_mode (fop2 J); guard = irt_guard (ft J) in
         rbind (ir_walk J op1 (\<lambda>_ ir. ir_op1 ir = op1 \<and> irconv_mode (ir_op2 ir) = op2 \<and>
                                  (guard \<longrightarrow> irt_guard (ir_t ir))) (j_chain J IR_CONV)) (\<lambda>ref.
           if ref \<noteq> 0 then fold_ret J (FoldRef ref) else EMITFOLD J))
      else EMITFOLD J)"

section \<open>Integers\<close>

definition simplify_intadd_k :: rule where
  "simplify_intadd_k ff J = (if ir_i (j_fright J) = 0 then LEFTFOLD J else fold_ret J NEXTFOLD)"

definition fold_simplify_intmul_k :: rule where
  "fold_simplify_intmul_k ff J =
     (let k = ir_i (j_fright J) in
      if k = 0 then RIGHTFOLD J
      else if k = 1 then LEFTFOLD J
      else if k = 2 then fold_ret (set_op2 (fop1 J) (set_o IR_ADDOV J)) RETRYFOLD
      else fold_ret J NEXTFOLD)"

definition simplify_intsub_k :: rule where
  "simplify_intsub_k ff J =
     (let k = ir_i (j_fright J) in
      if k = 0 then LEFTFOLD J
      else retry_op2 (lj_ir_kint (set_o IR_ADD J) (- k)))"

definition simplify_intsub_kleft :: rule where
  "simplify_intsub_kleft ff J =
     (if (if ir_o (j_fleft J) = IR_KINT then ir_i (j_fleft J) = 0 else kleft64 J = 0)
      then fold_ret (set_op1 (fop2 J) (set_o IR_NEG J)) RETRYFOLD
      else fold_ret J NEXTFOLD)"

definition simplify_intadd_k64 :: rule where
  "simplify_intadd_k64 ff J = (if kright64 J = 0 then LEFTFOLD J else fold_ret J NEXTFOLD)"

definition simplify_intsub_k64 :: rule where
  "simplify_intsub_k64 ff J =
     (let k = kright64 J in
      if k = 0 then LEFTFOLD J
      else retry_op2 (lj_ir_kint64 (set_o IR_ADD J) (- k)))"

text \<open>Multiplication with a positive constant.\<close>

definition simplify_intmul_k :: "jit \<Rightarrow> u32 \<Rightarrow> fres" where
  "simplify_intmul_k J k =
     (if k = 1 then LEFTFOLD J
      else if k AND (k - 1) = 0 then
        retry_op2 (lj_ir_kint (set_o IR_BSHL J) (of_nat (lj_fls (unat k))))
      else fold_ret J NEXTFOLD)"

definition simplify_intmul_k32 :: rule where
  "simplify_intmul_k32 ff J =
     (let k = ir_i (j_fright J) in
      if k = 0 then INTFOLD J 0
      else if 0 <s k then simplify_intmul_k J k
      else fold_ret J NEXTFOLD)"

definition simplify_intmul_k64 :: rule where
  "simplify_intmul_k64 ff J =
     (if kright64 J = 0 then INT64FOLD J 0
      else if kright64 J < 0x80000000 then simplify_intmul_k J (ucast (kright64 J))
      else fold_ret J NEXTFOLD)"

definition simplify_intmod_k :: rule where
  "simplify_intmod_k ff J =
     (let k = ir_i (j_fright J) in
      if 0 <s k \<and> k AND (k - 1) = 0
      then retry_op2 (lj_ir_kint (set_o IR_BAND J) (k - 1))
      else fold_ret J NEXTFOLD)"

definition simplify_intmod_kleft :: rule where
  "simplify_intmod_kleft ff J = (if ir_i (j_fleft J) = 0 then INTFOLD J 0 else fold_ret J NEXTFOLD)"

definition zerofold :: "jit \<Rightarrow> fres" where
  "zerofold J = (if irt_is64 (irt_ty (ft J)) then INT64FOLD J 0 else INTFOLD J 0)"

definition simplify_intsub :: rule where
  "simplify_intsub ff J =
     (if fop1 J = fop2 J \<and> irt_ty (ft J) \<noteq> IRT_NUM then zerofold J else fold_ret J NEXTFOLD)"

definition simplify_intsubadd_leftcancel :: rule where
  "simplify_intsubadd_leftcancel ff J =
     (let L = j_fleft J in
      if irt_ty (ft J) \<noteq> IRT_NUM \<and> \<not> is_phi L then
        (if fop2 J = ir_op1 L then fold_ret J (FoldRef (ir_op2 L))
         else if fop2 J = ir_op2 L then fold_ret J (FoldRef (ir_op1 L))
         else fold_ret J NEXTFOLD)
      else fold_ret J NEXTFOLD)"

text \<open>\<open>0 - j\<close> with the 32-bit constant 0.\<close>

definition retry_zero_sub :: "jit \<Rightarrow> nat \<Rightarrow> fres" where
  "retry_zero_sub J j =
     rbind (lj_ir_kint J 0) (\<lambda>(J, r). fold_ret (set_op2 j (set_op1 r J)) RETRYFOLD)"

definition simplify_intsubsub_leftcancel :: rule where
  "simplify_intsubsub_leftcancel ff J =
     (let L = j_fleft J in
      if irt_ty (ft J) \<noteq> IRT_NUM \<and> \<not> is_phi L \<and> fop2 J = ir_op1 L
      then retry_zero_sub J (ir_op2 L) else fold_ret J NEXTFOLD)"

definition simplify_intsubsub_rightcancel :: rule where
  "simplify_intsubsub_rightcancel ff J =
     (let R = j_fright J in
      if irt_ty (ft J) \<noteq> IRT_NUM \<and> \<not> is_phi R \<and> fop1 J = ir_op1 R
      then fold_ret J (FoldRef (ir_op2 R)) else fold_ret J NEXTFOLD)"

definition simplify_intsubadd_rightcancel :: rule where
  "simplify_intsubadd_rightcancel ff J =
     (let R = j_fright J in
      if irt_ty (ft J) \<noteq> IRT_NUM \<and> \<not> is_phi R then
        (if fop1 J = ir_op1 R then retry_zero_sub J (ir_op2 R)
         else if fop1 J = ir_op2 R then retry_zero_sub J (ir_op1 R)
         else fold_ret J NEXTFOLD)
      else fold_ret J NEXTFOLD)"

definition simplify_intsubaddadd_cancel :: rule where
  "simplify_intsubaddadd_cancel ff J =
     (let L = j_fleft J; R = j_fright J;
          retry = (\<lambda>a b. fold_ret (set_op2 b (set_op1 a J)) RETRYFOLD)
      in if irt_ty (ft J) \<noteq> IRT_NUM \<and> \<not> is_phi L \<and> \<not> is_phi R then
           (if ir_op1 L = ir_op1 R then retry (ir_op2 L) (ir_op2 R)
            else if ir_op1 L = ir_op2 R then retry (ir_op2 L) (ir_op1 R)
            else if ir_op2 L = ir_op1 R then retry (ir_op1 L) (ir_op2 R)
            else if ir_op2 L = ir_op2 R then retry (ir_op1 L) (ir_op1 R)
            else fold_ret J NEXTFOLD)
         else fold_ret J NEXTFOLD)"

text \<open>The value of an integer constant operand, sign-extended.\<close>

definition kvalue :: "jit \<Rightarrow> irins \<Rightarrow> int" where
  "kvalue J ir = (if ir_o ir = IR_KINT then sint (ir_i ir) else sint (k64_val (j_k64 J) (ir_k ir)))"

definition simplify_band_k :: rule where
  "simplify_band_k ff J =
     (let k = kvalue J (j_fright J) in
      if k = 0 then RIGHTFOLD J else if k = - 1 then LEFTFOLD J else fold_ret J NEXTFOLD)"

definition simplify_bor_k :: rule where
  "simplify_bor_k ff J =
     (let k = kvalue J (j_fright J) in
      if k = 0 then LEFTFOLD J else if k = - 1 then RIGHTFOLD J else fold_ret J NEXTFOLD)"

definition simplify_bxor_k :: rule where
  "simplify_bxor_k ff J =
     (let k = kvalue J (j_fright J) in
      if k = 0 then LEFTFOLD J
      else if k = - 1 then fold_ret (set_op2 0 (set_o IR_BNOT J)) RETRYFOLD
      else fold_ret J NEXTFOLD)"

definition shift_mask :: "jit \<Rightarrow> u32" where
  "shift_mask J = (if irt_is64 (irt_ty (ft J)) then 63 else 31)"

definition simplify_shift_ik :: rule where
  "simplify_shift_ik ff J =
     (let mask = shift_mask J; k = ir_i (j_fright J) AND mask in
      if k = 0 then LEFTFOLD J
      else if k = 1 \<and> fo J = IR_BSHL then fold_ret (set_op2 (fop1 J) (set_o IR_ADD J)) RETRYFOLD
      else if k \<noteq> ir_i (j_fright J) then retry_op2 (lj_ir_kint J k)
      else if fo J = IR_BROR then retry_op2 (lj_ir_kint (set_o IR_BROL J) (- k AND mask))
      else fold_ret J NEXTFOLD)"

definition simplify_shift_andk :: rule where
  "simplify_shift_andk ff J =
     (let R = j_fright J; irk = j_ir J (ir_op2 R); mask = shift_mask J in
      if \<not> is_phi R \<and> ir_o irk = IR_KINT \<and> ir_i irk AND mask = mask
      then fold_ret (set_op2 (ir_op1 R) J) RETRYFOLD
      else fold_ret J NEXTFOLD)"

definition simplify_shift1_ki :: rule where
  "simplify_shift1_ki ff J = (if kvalue J (j_fleft J) = 0 then LEFTFOLD J else fold_ret J NEXTFOLD)"

definition simplify_shift2_ki :: rule where
  "simplify_shift2_ki ff J =
     (let k = kvalue J (j_fleft J) in
      if k = 0 \<or> k = - 1 then LEFTFOLD J else fold_ret J NEXTFOLD)"

definition simplify_shiftk_andk :: rule where
  "simplify_shiftk_andk ff J =
     (let L = j_fleft J; irk = j_ir J (ir_op2 L) in
      if \<not> is_phi L \<and> ir_o irk = IR_KINT then
        rbind (kfold_intop (ir_i irk) (ir_i (j_fright J)) (fo J)) (\<lambda>k.
        rbind (ff (set_op1 (ir_op1 L) J)) (\<lambda>(J, r).
        rbind (lj_ir_kint (set_op1 r J) k) (\<lambda>(J, rk).
          fold_ret (set_o IR_BAND (set_t (IRT IRT_INT) (set_op2 rk J))) RETRYFOLD)))
      else fold_ret J NEXTFOLD)"

definition simplify_andk_shiftk :: rule where
  "simplify_andk_shiftk ff J =
     (let L = j_fleft J; irk = j_ir J (ir_op2 L) in
      if ir_o irk = IR_KINT then
        rbind (kfold_intop (- 1) (ir_i irk) (ir_o L)) (\<lambda>k.
          if k = ir_i (j_fright J) then LEFTFOLD J else fold_ret J NEXTFOLD)
      else fold_ret J NEXTFOLD)"

section \<open>Reassociation\<close>

definition reassoc_intarith_k :: rule where
  "reassoc_intarith_k ff J =
     (let L = j_fleft J; irk = j_ir J (ir_op2 L) in
      if ir_o irk = IR_KINT then
        rbind (kfold_intop (ir_i irk) (ir_i (j_fright J)) (fo J)) (\<lambda>k.
          if k = ir_i irk then LEFTFOLD J
          else if is_phi L then fold_ret J NEXTFOLD
          else retry_op2 (lj_ir_kint (set_op1 (ir_op1 L) J) k))
      else fold_ret J NEXTFOLD)"

definition reassoc_intarith_k64 :: rule where
  "reassoc_intarith_k64 ff J =
     (let L = j_fleft J; irk = j_ir J (ir_op2 L) in
      if ir_o irk = IR_KINT64 \<and> \<not> is_phi L then
        retry_op2 (lj_ir_kint64 (set_op1 (ir_op1 L) J)
          (kfold_int64arith_op (k64_val (j_k64 J) (ir_k irk)) (kright64 J) (fo J)))
      else fold_ret J NEXTFOLD)"

definition reassoc_dup :: rule where
  "reassoc_dup ff J =
     (if fop2 J = ir_op1 (j_fleft J) \<or> fop2 J = ir_op2 (j_fleft J)
      then LEFTFOLD J else fold_ret J NEXTFOLD)"

definition reassoc_bxor :: rule where
  "reassoc_bxor ff J =
     (let L = j_fleft J in
      if is_phi L then fold_ret J NEXTFOLD
      else if fop2 J = ir_op1 L then fold_ret J (FoldRef (ir_op2 L))
      else if fop2 J = ir_op2 L then fold_ret J (FoldRef (ir_op1 L))
      else fold_ret J NEXTFOLD)"

definition reassoc_shift :: rule where
  "reassoc_shift ff J =
     (let L = j_fleft J; irk = j_ir J (ir_op2 L) in
      if \<not> is_phi L \<and> ir_o irk = IR_KINT then
        (let mask = shift_mask J;
             k = (ir_i irk AND mask) + (ir_i (j_fright J) AND mask);
             retry = (\<lambda>k. retry_op2 (lj_ir_kint (set_op1 (ir_op1 L) J) k))
         in if mask < k then
              (if fo J = IR_BSHL \<or> fo J = IR_BSHR then
                 (if mask = 31 then INTFOLD J 0 else INT64FOLD J 0)
               else if fo J = IR_BSAR then retry mask
               else retry (k AND mask))
            else retry k)
      else fold_ret J NEXTFOLD)"

definition reassoc_minmax_k :: "fpops \<Rightarrow> rule" where
  "reassoc_minmax_k fp ff J =
     (let L = j_fleft J; irk = j_ir J (ir_op2 L) in
      if ir_o irk = IR_KNUM then
        (let a = k64_val (j_k64 J) (ir_k irk); y = fp_arith fp (fo J) a (kright64 J) in
         if fp_eq fp a y then LEFTFOLD J
         else if is_phi L then fold_ret J NEXTFOLD
         else retry_op2 (lj_ir_knum_u64 (set_op1 (ir_op1 L) J) y))
      else if ir_o irk = IR_KINT then
        rbind (kfold_intop (ir_i irk) (ir_i (j_fright J)) (fo J)) (\<lambda>y.
          if ir_i irk = y then LEFTFOLD J
          else if is_phi L then fold_ret J NEXTFOLD
          else retry_op2 (lj_ir_kint (set_op1 (ir_op1 L) J) y))
      else fold_ret J NEXTFOLD)"

definition reassoc_minmax_left :: rule where
  "reassoc_minmax_left ff J =
     (if fop2 J = ir_op1 (j_fleft J) \<or> fop2 J = ir_op2 (j_fleft J)
      then RIGHTFOLD J else fold_ret J NEXTFOLD)"

definition reassoc_minmax_right :: rule where
  "reassoc_minmax_right ff J =
     (if fop1 J = ir_op1 (j_fright J) \<or> fop1 J = ir_op2 (j_fright J)
      then LEFTFOLD J else fold_ret J NEXTFOLD)"

section \<open>Array bounds checks\<close>

definition abc_fwd :: rule where
  "abc_fwd ff J =
     (let R = j_fright J; add2 = j_ir J (ir_op1 R) in
      if j_opt_abc J \<and> irref_isk (ir_op2 R) \<and> ir_o add2 = IR_ADD \<and> irref_isk (ir_op2 add2) \<and>
         ir_i (j_ir J (ir_op2 R)) = - ir_i (j_ir J (ir_op2 add2))
      then
        rbind (ir_walk J (max (ir_op1 add2) (fop1 J))
                 (\<lambda>_ ir. ir_op1 ir = fop1 J \<and> ir_op2 ir = ir_op1 add2) (j_chain J IR_ABC)) (\<lambda>ref.
          fold_ret J (if ref \<noteq> 0 then DROPFOLD else NEXTFOLD))
      else fold_ret J NEXTFOLD)"

definition abc_k :: rule where
  "abc_k ff J =
     (if j_opt_abc J then
        rbind (ir_walk J (fop1 J) (\<lambda>_ ir. ir_op1 ir = fop1 J \<and> irref_isk (ir_op2 ir)) (j_chain J IR_ABC))
          (\<lambda>ref.
             if ref \<noteq> 0 then
               (let ir = j_ir J ref; k = ir_i (j_ir J (ir_op2 ir)) in
                fold_ret (if k <s ir_i (j_fright J)
                          then J\<lparr>j_ir := (j_ir J)(ref := ir\<lparr>ir_op2 := fop2 J\<rparr>)\<rparr> else J) DROPFOLD)
             else EMITFOLD J)
      else fold_ret J NEXTFOLD)"

definition abc_invar :: rule where
  "abc_invar ff J =
     (if irt_ty (ft J) \<noteq> IRT_INT \<and> fop1 J < j_chain J IR_LOOP \<and> \<not> is_phi (j_ir J (fop1 J))
      then fold_ret J DROPFOLD else fold_ret J NEXTFOLD)"

section \<open>Commutativity\<close>

definition swap_ops :: "jit \<Rightarrow> jit" where
  "swap_ops J = set_op2 (fop1 J) (set_op1 (fop2 J) J)"

definition comm_swap :: rule where
  "comm_swap ff J =
     (if fop1 J < fop2 J then fold_ret (swap_ops J) RETRYFOLD else fold_ret J NEXTFOLD)"

definition comm_equal :: rule where
  "comm_equal ff J =
     (if fop1 J = fop2 J \<and> irt_ty (ft J) \<noteq> IRT_NUM then CONDFOLD J (fo J = IR_EQ)
      else comm_swap ff J)"

text \<open>\<open>o ^ 3\<close>, and the truth of a comparison of equal operands, \<open>(o ^ (o >> 1)) & 1\<close>.\<close>

definition cmp_flip :: "irop \<Rightarrow> irop" where
  "cmp_flip op =
     (if op = IR_LT then IR_GT else if op = IR_GT then IR_LT
      else if op = IR_GE then IR_LE else if op = IR_LE then IR_GE
      else if op = IR_ULT then IR_UGT else if op = IR_UGT then IR_ULT
      else if op = IR_UGE then IR_ULE else if op = IR_ULE then IR_UGE else op)"

definition cmp_refl :: "irop \<Rightarrow> bool" where
  "cmp_refl op \<longleftrightarrow> op = IR_GE \<or> op = IR_LE \<or> op = IR_UGE \<or> op = IR_ULE"

definition comm_comp :: rule where
  "comm_comp ff J =
     (if fop1 J = fop2 J \<and> irt_ty (ft J) \<noteq> IRT_NUM then CONDFOLD J (cmp_refl (fo J))
      else if fop1 J < fop2 J then fold_ret (set_o (cmp_flip (fo J)) (swap_ops J)) RETRYFOLD
      else fold_ret J NEXTFOLD)"

definition comm_dup :: rule where
  "comm_dup ff J = (if fop1 J = fop2 J then LEFTFOLD J else comm_swap ff J)"

definition comm_bxor :: rule where
  "comm_bxor ff J = (if fop1 J = fop2 J then zerofold J else comm_swap ff J)"

end
