(* ===== verification/LJ_Fold.thy ===== *)
theory LJ_Fold
  imports LJ_FoldR
begin

text \<open>
  The FOLD engine (\<^verbatim>\<open>lj_opt_fold\<close>, \<^verbatim>\<open>lj_opt_cse\<close> of \<^verbatim>\<open>lj_opt_fold.c\<close>): the table of the fold
  rules for comparisons, bit operations, arithmetic and conversions, in the order of the
  source, the lookup from the most to the least specific key, and common-subexpression
  elimination.  The rules for the other opcodes (memory references, loads, stores, calls,
  strings) and the narrowing of number conversions are the parameter \<open>others\<close>.
\<close>

section \<open>Common-subexpression elimination\<close>

definition same_op12 :: "irins \<Rightarrow> irins \<Rightarrow> bool" where
  "same_op12 i j \<longleftrightarrow> ir_op1 i = ir_op1 j \<and> ir_op2 i = ir_op2 j"

definition lj_opt_cse :: "jit \<Rightarrow> (jit \<times> nat) res" where
  "lj_opt_cse J =
     (let fins = j_fins J in
      if j_opt_cse J then
        rbind (ir_walk J (max (ir_op1 fins) (ir_op2 fins)) (\<lambda>_ ir. same_op12 ir fins)
                 (j_chain J (ir_o fins))) (\<lambda>ref.
          if ref \<noteq> 0 then Inr (J, ref) else lj_ir_emit J)
      else lj_ir_emit J)"

definition lj_opt_cselim :: "jit \<Rightarrow> nat \<Rightarrow> (jit \<times> nat) res" where
  "lj_opt_cselim J lim =
     rbind (ir_walk J lim (\<lambda>_ ir. same_op12 ir (j_fins J)) (j_chain J (fo J))) (\<lambda>ref.
       if ref \<noteq> 0 then Inr (J, ref) else lj_ir_emit J)"

definition cse_rule :: rule where
  "cse_rule ff J = fold_ref (lj_opt_cse J)"

section \<open>Rule table\<close>

text \<open>The keys of the operands; a literal or unused second operand matches by its lowest ten bits.\<close>

datatype lkey = LAny | LNo | LOp irop
datatype rkey = RAny | RLit nat | ROp irop

type_synonym fkey = "irop \<times> lkey \<times> rkey"

definition kfold_num_table :: "fpops \<Rightarrow> (rule \<times> fkey list) list" where
  "kfold_num_table fp = [
   (kfold_numarith fp, [(IR_ADD, LOp IR_KNUM, ROp IR_KNUM), (IR_SUB, LOp IR_KNUM, ROp IR_KNUM),
      (IR_MUL, LOp IR_KNUM, ROp IR_KNUM), (IR_DIV, LOp IR_KNUM, ROp IR_KNUM),
      (IR_NEG, LOp IR_KNUM, ROp IR_KNUM), (IR_ABS, LOp IR_KNUM, ROp IR_KNUM),
      (IR_ATAN2, LOp IR_KNUM, ROp IR_KNUM), (IR_LDEXP, LOp IR_KNUM, ROp IR_KNUM),
      (IR_MIN, LOp IR_KNUM, ROp IR_KNUM), (IR_MAX, LOp IR_KNUM, ROp IR_KNUM)]),
   (kfold_ldexp, [(IR_LDEXP, LOp IR_KNUM, ROp IR_KINT)]),
   (kfold_fpmath fp, [(IR_FPMATH, LOp IR_KNUM, RAny)]),
   (kfold_numpow fp, [(IR_POW, LOp IR_KNUM, ROp IR_KINT)]),
   (kfold_numcomp fp, [(IR_EQ, LOp IR_KNUM, ROp IR_KNUM), (IR_NE, LOp IR_KNUM, ROp IR_KNUM),
      (IR_LT, LOp IR_KNUM, ROp IR_KNUM), (IR_GE, LOp IR_KNUM, ROp IR_KNUM),
      (IR_LE, LOp IR_KNUM, ROp IR_KNUM), (IR_GT, LOp IR_KNUM, ROp IR_KNUM),
      (IR_ULT, LOp IR_KNUM, ROp IR_KNUM), (IR_UGE, LOp IR_KNUM, ROp IR_KNUM),
      (IR_ULE, LOp IR_KNUM, ROp IR_KNUM), (IR_UGT, LOp IR_KNUM, ROp IR_KNUM)])]"

definition kfold_int_table :: "(rule \<times> fkey list) list" where
  "kfold_int_table = [
   (kfold_intarith, [(IR_ADD, LOp IR_KINT, ROp IR_KINT), (IR_SUB, LOp IR_KINT, ROp IR_KINT),
      (IR_MUL, LOp IR_KINT, ROp IR_KINT), (IR_MOD, LOp IR_KINT, ROp IR_KINT),
      (IR_NEG, LOp IR_KINT, ROp IR_KINT), (IR_BAND, LOp IR_KINT, ROp IR_KINT),
      (IR_BOR, LOp IR_KINT, ROp IR_KINT), (IR_BXOR, LOp IR_KINT, ROp IR_KINT),
      (IR_BSHL, LOp IR_KINT, ROp IR_KINT), (IR_BSHR, LOp IR_KINT, ROp IR_KINT),
      (IR_BSAR, LOp IR_KINT, ROp IR_KINT), (IR_BROL, LOp IR_KINT, ROp IR_KINT),
      (IR_BROR, LOp IR_KINT, ROp IR_KINT), (IR_MIN, LOp IR_KINT, ROp IR_KINT),
      (IR_MAX, LOp IR_KINT, ROp IR_KINT)]),
   (kfold_intovarith, [(IR_ADDOV, LOp IR_KINT, ROp IR_KINT),
      (IR_SUBOV, LOp IR_KINT, ROp IR_KINT), (IR_MULOV, LOp IR_KINT, ROp IR_KINT)]),
   (kfold_bnot, [(IR_BNOT, LOp IR_KINT, RLit 0)]),
   (kfold_bswap, [(IR_BSWAP, LOp IR_KINT, RLit 0)]),
   (kfold_intcomp, [(IR_LT, LOp IR_KINT, ROp IR_KINT), (IR_GE, LOp IR_KINT, ROp IR_KINT),
      (IR_LE, LOp IR_KINT, ROp IR_KINT), (IR_GT, LOp IR_KINT, ROp IR_KINT),
      (IR_ULT, LOp IR_KINT, ROp IR_KINT), (IR_UGE, LOp IR_KINT, ROp IR_KINT),
      (IR_ULE, LOp IR_KINT, ROp IR_KINT), (IR_UGT, LOp IR_KINT, ROp IR_KINT),
      (IR_ABC, LOp IR_KINT, ROp IR_KINT)]),
   (kfold_intcomp0, [(IR_UGE, LAny, ROp IR_KINT)])]"

definition kfold_int64_table :: "(rule \<times> fkey list) list" where
  "kfold_int64_table = [
   (kfold_int64arith, [(IR_ADD, LOp IR_KINT64, ROp IR_KINT64),
      (IR_SUB, LOp IR_KINT64, ROp IR_KINT64), (IR_MUL, LOp IR_KINT64, ROp IR_KINT64),
      (IR_BAND, LOp IR_KINT64, ROp IR_KINT64), (IR_BOR, LOp IR_KINT64, ROp IR_KINT64),
      (IR_BXOR, LOp IR_KINT64, ROp IR_KINT64)]),
   (kfold_int64arith2, [(IR_DIV, LOp IR_KINT64, ROp IR_KINT64),
      (IR_MOD, LOp IR_KINT64, ROp IR_KINT64), (IR_POW, LOp IR_KINT64, ROp IR_KINT64)]),
   (kfold_int64shift, [(IR_BSHL, LOp IR_KINT64, ROp IR_KINT),
      (IR_BSHR, LOp IR_KINT64, ROp IR_KINT), (IR_BSAR, LOp IR_KINT64, ROp IR_KINT),
      (IR_BROL, LOp IR_KINT64, ROp IR_KINT), (IR_BROR, LOp IR_KINT64, ROp IR_KINT)]),
   (kfold_bnot64, [(IR_BNOT, LOp IR_KINT64, RLit 0)]),
   (kfold_bswap64, [(IR_BSWAP, LOp IR_KINT64, RLit 0)]),
   (kfold_int64comp, [(IR_LT, LOp IR_KINT64, ROp IR_KINT64),
      (IR_GE, LOp IR_KINT64, ROp IR_KINT64), (IR_LE, LOp IR_KINT64, ROp IR_KINT64),
      (IR_GT, LOp IR_KINT64, ROp IR_KINT64), (IR_ULT, LOp IR_KINT64, ROp IR_KINT64),
      (IR_UGE, LOp IR_KINT64, ROp IR_KINT64), (IR_ULE, LOp IR_KINT64, ROp IR_KINT64),
      (IR_UGT, LOp IR_KINT64, ROp IR_KINT64)]),
   (kfold_int64comp0, [(IR_UGE, LAny, ROp IR_KINT64)])]"

definition kfold_ptr_table :: "(rule \<times> fkey list) list" where
  "kfold_ptr_table = [
   (kfold_add_kptr, [(IR_ADD, LOp IR_KPTR, ROp IR_KINT), (IR_ADD, LOp IR_KPTR, ROp IR_KINT64),
      (IR_ADD, LOp IR_KKPTR, ROp IR_KINT), (IR_ADD, LOp IR_KKPTR, ROp IR_KINT64)]),
   (kfold_add_kright, [(IR_ADD, LAny, ROp IR_KGC), (IR_ADD, LAny, ROp IR_KPTR),
      (IR_ADD, LAny, ROp IR_KKPTR)])]"

definition kfold_conv_table :: "fpops \<Rightarrow> (rule \<times> fkey list) list" where
  "kfold_conv_table fp = [
   (kfold_tobit fp, [(IR_TOBIT, LOp IR_KNUM, ROp IR_KNUM)]),
   (kfold_conv_kint_num, [(IR_CONV, LOp IR_KINT, RLit (IRCONV IRT_NUM IRT_INT))]),
   (kfold_conv_kintu32_num fp, [(IR_CONV, LOp IR_KINT, RLit (IRCONV IRT_NUM IRT_U32))]),
   (kfold_conv_kint_ext, [(IR_CONV, LOp IR_KINT, RLit (IRCONV IRT_INT IRT_I8)),
      (IR_CONV, LOp IR_KINT, RLit (IRCONV IRT_INT IRT_U8)),
      (IR_CONV, LOp IR_KINT, RLit (IRCONV IRT_INT IRT_I16)),
      (IR_CONV, LOp IR_KINT, RLit (IRCONV IRT_INT IRT_U16))]),
   (kfold_conv_kint_i64, [(IR_CONV, LOp IR_KINT, RLit (IRCONV IRT_I64 IRT_INT)),
      (IR_CONV, LOp IR_KINT, RLit (IRCONV IRT_U64 IRT_INT)),
      (IR_CONV, LOp IR_KINT, RLit (IRCONV IRT_I64 IRT_U32)),
      (IR_CONV, LOp IR_KINT, RLit (IRCONV IRT_U64 IRT_U32))]),
   (kfold_conv_kint64_num_i64 fp, [(IR_CONV, LOp IR_KINT64, RLit (IRCONV IRT_NUM IRT_I64))]),
   (kfold_conv_kint64_num_u64 fp, [(IR_CONV, LOp IR_KINT64, RLit (IRCONV IRT_NUM IRT_U64))]),
   (kfold_conv_kint64_int_i64, [(IR_CONV, LOp IR_KINT64, RLit (IRCONV IRT_INT IRT_I64)),
      (IR_CONV, LOp IR_KINT64, RLit (IRCONV IRT_U32 IRT_I64))]),
   (kfold_conv_knum_int_num fp, [(IR_CONV, LOp IR_KNUM, RLit (IRCONV IRT_INT IRT_NUM))]),
   (kfold_conv_knum_u32_num fp, [(IR_CONV, LOp IR_KNUM, RLit (IRCONV IRT_U32 IRT_NUM))]),
   (kfold_conv_knum_i64_num fp, [(IR_CONV, LOp IR_KNUM, RLit (IRCONV IRT_I64 IRT_NUM))]),
   (kfold_conv_knum_u64_num fp, [(IR_CONV, LOp IR_KNUM, RLit (IRCONV IRT_U64 IRT_NUM))])]"

text \<open>Checks for a null field are not folded, since a field load is not a constant.\<close>

definition kref_table :: "(rule \<times> fkey list) list" where
  "kref_table = [
   (cse_rule, [(IR_EQ, LOp IR_FLOAD, ROp IR_KNULL), (IR_NE, LOp IR_FLOAD, ROp IR_KNULL)]),
   (kfold_kref, [(IR_EQ, LAny, ROp IR_KNULL), (IR_NE, LAny, ROp IR_KNULL),
      (IR_EQ, LOp IR_KNULL, RAny), (IR_NE, LOp IR_KNULL, RAny),
      (IR_EQ, LOp IR_KINT, ROp IR_KINT), (IR_NE, LOp IR_KINT, ROp IR_KINT),
      (IR_EQ, LOp IR_KINT64, ROp IR_KINT64), (IR_NE, LOp IR_KINT64, ROp IR_KINT64),
      (IR_EQ, LOp IR_KGC, ROp IR_KGC), (IR_NE, LOp IR_KGC, ROp IR_KGC)])]"

definition shortcut_table :: "(rule \<times> fkey list) list" where
  "shortcut_table = [
   (shortcut_round, [(IR_FPMATH, LOp IR_FPMATH, RLit 0), (IR_FPMATH, LOp IR_FPMATH, RLit 1),
      (IR_FPMATH, LOp IR_FPMATH, RLit 2)]),
   (shortcut_left, [(IR_ABS, LOp IR_ABS, ROp IR_KNUM)]),
   (shortcut_dropleft, [(IR_ABS, LOp IR_NEG, ROp IR_KNUM)]),
   (shortcut_leftleft, [(IR_NEG, LOp IR_NEG, RAny), (IR_BNOT, LOp IR_BNOT, RLit 0),
      (IR_BSWAP, LOp IR_BSWAP, RLit 0)])]"

definition num_table :: "fpops \<Rightarrow> (rule \<times> fkey list) list" where
  "num_table fp = [
   (simplify_numadd_negx, [(IR_ADD, LOp IR_NEG, RAny)]),
   (simplify_numadd_xneg, [(IR_ADD, LAny, ROp IR_NEG)]),
   (simplify_numsub_k fp, [(IR_SUB, LAny, ROp IR_KNUM)]),
   (simplify_numsub_negk fp, [(IR_SUB, LOp IR_NEG, ROp IR_KNUM)]),
   (simplify_numsub_xneg, [(IR_SUB, LAny, ROp IR_NEG)]),
   (simplify_nummuldiv_k fp, [(IR_MUL, LAny, ROp IR_KNUM), (IR_DIV, LAny, ROp IR_KNUM)]),
   (simplify_nummuldiv_negk fp, [(IR_MUL, LOp IR_NEG, ROp IR_KNUM),
      (IR_DIV, LOp IR_NEG, ROp IR_KNUM)]),
   (simplify_nummuldiv_negneg, [(IR_MUL, LOp IR_NEG, ROp IR_NEG),
      (IR_DIV, LOp IR_NEG, ROp IR_NEG)]),
   (simplify_numpow_xk, [(IR_POW, LAny, ROp IR_KINT)]),
   (simplify_numpow_kx fp, [(IR_POW, LOp IR_KNUM, RAny)])]"

definition conv_num_table :: "(rule \<times> fkey list) list" where
  "conv_num_table = [
   (shortcut_conv_num_int, [(IR_CONV, LOp IR_CONV, RLit (IRCONV IRT_NUM IRT_INT))]),
   (simplify_conv_int_num, [(IR_CONV, LOp IR_CONV, RLit (IRCONV IRT_INT IRT_NUM)),
      (IR_CONV, LOp IR_CONV, RLit (IRCONV IRT_U32 IRT_NUM))]),
   (simplify_conv_i64_num, [(IR_CONV, LOp IR_CONV, RLit (IRCONV IRT_I64 IRT_NUM)),
      (IR_CONV, LOp IR_CONV, RLit (IRCONV IRT_U64 IRT_NUM))]),
   (simplify_conv_int_i64, [(IR_CONV, LOp IR_CONV, RLit (IRCONV IRT_INT IRT_I64)),
      (IR_CONV, LOp IR_CONV, RLit (IRCONV IRT_INT IRT_U64)),
      (IR_CONV, LOp IR_CONV, RLit (IRCONV IRT_U32 IRT_I64)),
      (IR_CONV, LOp IR_CONV, RLit (IRCONV IRT_U32 IRT_U64))]),
   (simplify_conv_flt_num, [(IR_CONV, LOp IR_CONV, RLit (IRCONV IRT_FLOAT IRT_NUM))]),
   (simplify_tobit_conv, [(IR_TOBIT, LOp IR_CONV, ROp IR_KNUM)]),
   (simplify_floor_conv, [(IR_FPMATH, LOp IR_CONV, RLit 0), (IR_FPMATH, LOp IR_CONV, RLit 1),
      (IR_FPMATH, LOp IR_CONV, RLit 2)])]"

definition conv_int_table :: "(rule \<times> fkey list) list" where
  "conv_int_table = [
   (simplify_conv_sext, [(IR_CONV, LAny, RLit (IRCONV IRT_I64 IRT_INT)),
      (IR_CONV, LAny, RLit (IRCONV IRT_U64 IRT_INT))]),
   (simplify_conv_narrow, [(IR_CONV, LOp IR_ADD, RLit (IRCONV IRT_INT IRT_I64)),
      (IR_CONV, LOp IR_SUB, RLit (IRCONV IRT_INT IRT_I64)),
      (IR_CONV, LOp IR_MUL, RLit (IRCONV IRT_INT IRT_I64)),
      (IR_CONV, LOp IR_ADD, RLit (IRCONV IRT_INT IRT_U64)),
      (IR_CONV, LOp IR_SUB, RLit (IRCONV IRT_INT IRT_U64)),
      (IR_CONV, LOp IR_MUL, RLit (IRCONV IRT_INT IRT_U64)),
      (IR_CONV, LOp IR_ADD, RLit (IRCONV IRT_U32 IRT_I64)),
      (IR_CONV, LOp IR_SUB, RLit (IRCONV IRT_U32 IRT_I64)),
      (IR_CONV, LOp IR_MUL, RLit (IRCONV IRT_U32 IRT_I64)),
      (IR_CONV, LOp IR_ADD, RLit (IRCONV IRT_U32 IRT_U64)),
      (IR_CONV, LOp IR_SUB, RLit (IRCONV IRT_U32 IRT_U64)),
      (IR_CONV, LOp IR_MUL, RLit (IRCONV IRT_U32 IRT_U64))]),
   (cse_conv, [(IR_CONV, LAny, RAny)])]"

definition int_table :: "(rule \<times> fkey list) list" where
  "int_table = [
   (simplify_intadd_k, [(IR_ADD, LAny, ROp IR_KINT), (IR_ADDOV, LAny, ROp IR_KINT),
      (IR_SUBOV, LAny, ROp IR_KINT)]),
   (fold_simplify_intmul_k, [(IR_MULOV, LAny, ROp IR_KINT)]),
   (simplify_intsub_k, [(IR_SUB, LAny, ROp IR_KINT)]),
   (simplify_intsub_kleft, [(IR_SUB, LOp IR_KINT, RAny), (IR_SUB, LOp IR_KINT64, RAny)]),
   (simplify_intadd_k64, [(IR_ADD, LAny, ROp IR_KINT64)]),
   (simplify_intsub_k64, [(IR_SUB, LAny, ROp IR_KINT64)]),
   (simplify_intmul_k32, [(IR_MUL, LAny, ROp IR_KINT)]),
   (simplify_intmul_k64, [(IR_MUL, LAny, ROp IR_KINT64)]),
   (simplify_intmod_k, [(IR_MOD, LAny, ROp IR_KINT)]),
   (simplify_intmod_kleft, [(IR_MOD, LOp IR_KINT, RAny)])]"

definition intsub_table :: "(rule \<times> fkey list) list" where
  "intsub_table = [
   (simplify_intsub, [(IR_SUB, LAny, RAny), (IR_SUBOV, LAny, RAny)]),
   (simplify_intsubadd_leftcancel, [(IR_SUB, LOp IR_ADD, RAny)]),
   (simplify_intsubsub_leftcancel, [(IR_SUB, LOp IR_SUB, RAny)]),
   (simplify_intsubsub_rightcancel, [(IR_SUB, LAny, ROp IR_SUB)]),
   (simplify_intsubadd_rightcancel, [(IR_SUB, LAny, ROp IR_ADD)]),
   (simplify_intsubaddadd_cancel, [(IR_SUB, LOp IR_ADD, ROp IR_ADD)])]"

definition bit_table :: "(rule \<times> fkey list) list" where
  "bit_table = [
   (simplify_band_k, [(IR_BAND, LAny, ROp IR_KINT), (IR_BAND, LAny, ROp IR_KINT64)]),
   (simplify_bor_k, [(IR_BOR, LAny, ROp IR_KINT), (IR_BOR, LAny, ROp IR_KINT64)]),
   (simplify_bxor_k, [(IR_BXOR, LAny, ROp IR_KINT), (IR_BXOR, LAny, ROp IR_KINT64)]),
   (simplify_shift_ik, [(IR_BSHL, LAny, ROp IR_KINT), (IR_BSHR, LAny, ROp IR_KINT),
      (IR_BSAR, LAny, ROp IR_KINT), (IR_BROL, LAny, ROp IR_KINT), (IR_BROR, LAny, ROp IR_KINT)]),
   (simplify_shift_andk, [(IR_BSHL, LAny, ROp IR_BAND), (IR_BSHR, LAny, ROp IR_BAND),
      (IR_BSAR, LAny, ROp IR_BAND), (IR_BROL, LAny, ROp IR_BAND), (IR_BROR, LAny, ROp IR_BAND)]),
   (simplify_shift1_ki, [(IR_BSHL, LOp IR_KINT, RAny), (IR_BSHR, LOp IR_KINT, RAny),
      (IR_BSHL, LOp IR_KINT64, RAny), (IR_BSHR, LOp IR_KINT64, RAny)]),
   (simplify_shift2_ki, [(IR_BSAR, LOp IR_KINT, RAny), (IR_BROL, LOp IR_KINT, RAny),
      (IR_BROR, LOp IR_KINT, RAny), (IR_BSAR, LOp IR_KINT64, RAny),
      (IR_BROL, LOp IR_KINT64, RAny), (IR_BROR, LOp IR_KINT64, RAny)]),
   (simplify_shiftk_andk, [(IR_BSHL, LOp IR_BAND, ROp IR_KINT),
      (IR_BSHR, LOp IR_BAND, ROp IR_KINT), (IR_BROL, LOp IR_BAND, ROp IR_KINT),
      (IR_BROR, LOp IR_BAND, ROp IR_KINT)]),
   (simplify_andk_shiftk, [(IR_BAND, LOp IR_BSHL, ROp IR_KINT),
      (IR_BAND, LOp IR_BSHR, ROp IR_KINT)])]"

definition reassoc_table :: "fpops \<Rightarrow> (rule \<times> fkey list) list" where
  "reassoc_table fp = [
   (reassoc_intarith_k, [(IR_ADD, LOp IR_ADD, ROp IR_KINT), (IR_MUL, LOp IR_MUL, ROp IR_KINT),
      (IR_BAND, LOp IR_BAND, ROp IR_KINT), (IR_BOR, LOp IR_BOR, ROp IR_KINT),
      (IR_BXOR, LOp IR_BXOR, ROp IR_KINT)]),
   (reassoc_intarith_k64, [(IR_ADD, LOp IR_ADD, ROp IR_KINT64),
      (IR_MUL, LOp IR_MUL, ROp IR_KINT64), (IR_BAND, LOp IR_BAND, ROp IR_KINT64),
      (IR_BOR, LOp IR_BOR, ROp IR_KINT64), (IR_BXOR, LOp IR_BXOR, ROp IR_KINT64)]),
   (reassoc_dup, [(IR_MIN, LOp IR_MIN, RAny), (IR_MAX, LOp IR_MAX, RAny),
      (IR_BAND, LOp IR_BAND, RAny), (IR_BOR, LOp IR_BOR, RAny)]),
   (reassoc_bxor, [(IR_BXOR, LOp IR_BXOR, RAny)]),
   (reassoc_shift, [(IR_BSHL, LOp IR_BSHL, ROp IR_KINT), (IR_BSHR, LOp IR_BSHR, ROp IR_KINT),
      (IR_BSAR, LOp IR_BSAR, ROp IR_KINT), (IR_BROL, LOp IR_BROL, ROp IR_KINT),
      (IR_BROR, LOp IR_BROR, ROp IR_KINT)]),
   (reassoc_minmax_k fp, [(IR_MIN, LOp IR_MIN, ROp IR_KNUM), (IR_MAX, LOp IR_MAX, ROp IR_KNUM),
      (IR_MIN, LOp IR_MIN, ROp IR_KINT), (IR_MAX, LOp IR_MAX, ROp IR_KINT)]),
   (reassoc_minmax_left, [(IR_MIN, LOp IR_MAX, RAny), (IR_MAX, LOp IR_MIN, RAny)]),
   (reassoc_minmax_right, [(IR_MIN, LAny, ROp IR_MAX), (IR_MAX, LAny, ROp IR_MIN)])]"

definition abc_table :: "(rule \<times> fkey list) list" where
  "abc_table = [
   (abc_fwd, [(IR_ABC, LAny, ROp IR_ADD)]),
   (abc_k, [(IR_ABC, LAny, ROp IR_KINT)]),
   (abc_invar, [(IR_ABC, LAny, RAny)])]"

definition comm_table :: "(rule \<times> fkey list) list" where
  "comm_table = [
   (comm_swap, [(IR_ADD, LAny, RAny), (IR_MUL, LAny, RAny), (IR_ADDOV, LAny, RAny),
      (IR_MULOV, LAny, RAny)]),
   (comm_equal, [(IR_EQ, LAny, RAny), (IR_NE, LAny, RAny)]),
   (comm_comp, [(IR_LT, LAny, RAny), (IR_GE, LAny, RAny), (IR_LE, LAny, RAny),
      (IR_GT, LAny, RAny), (IR_ULT, LAny, RAny), (IR_UGE, LAny, RAny), (IR_ULE, LAny, RAny),
      (IR_UGT, LAny, RAny)]),
   (comm_dup, [(IR_BAND, LAny, RAny), (IR_BOR, LAny, RAny), (IR_MIN, LAny, RAny),
      (IR_MAX, LAny, RAny)]),
   (comm_bxor, [(IR_BXOR, LAny, RAny)])]"

section \<open>Engine\<close>

definition fold_table :: "fpops \<Rightarrow> (rule \<times> fkey list) list" where
  "fold_table fp =
     kfold_num_table fp @ kfold_int_table @ kfold_int64_table @ kfold_ptr_table @ kfold_conv_table fp @ kref_table @ shortcut_table @ num_table fp @ conv_num_table @ conv_int_table @ int_table @
     intsub_table @ bit_table @ reassoc_table fp @ abc_table @ comm_table"

type_synonym others = "fkey \<Rightarrow> rule option"

definition fold_lookup :: "fpops \<Rightarrow> others \<Rightarrow> fkey \<Rightarrow> rule option" where
  "fold_lookup fp others key =
     (case find (\<lambda>(f, ks). key \<in> set ks) (fold_table fp) of
        Some (f, ks) \<Rightarrow> Some f
      | None \<Rightarrow> others key)"

text \<open>The operands are copied and their opcodes become part of the key.\<close>

definition fold_load :: "jit \<Rightarrow> jit" where
  "fold_load J =
     (let J = (if fop1 J \<ge> j_nk J then J\<lparr>j_fleft := j_ir J (fop1 J)\<rparr> else J)
      in if fop2 J \<ge> j_nk J then J\<lparr>j_fright := j_ir J (fop2 J)\<rparr> else J)"

definition fold_key :: "jit \<Rightarrow> fkey" where
  "fold_key J =
     (fo J,
      if fop1 J \<ge> j_nk J then LOp (ir_o (j_ir J (fop1 J))) else LNo,
      if fop2 J \<ge> j_nk J then ROp (ir_o (j_ir J (fop2 J))) else RLit (fop2 J mod 0x400))"

definition fold_keys :: "fkey \<Rightarrow> fkey list" where
  "fold_keys key = (case key of (o', l, r) \<Rightarrow> [(o', l, r), (o', LAny, r), (o', l, RAny), (o', LAny, RAny)])"

fun try_keys :: "(fkey \<Rightarrow> rule option) \<Rightarrow> refold \<Rightarrow> fkey list \<Rightarrow> jit \<Rightarrow> fres" where
  "try_keys lookup ff [] J = fold_ret J NEXTFOLD"
| "try_keys lookup ff (k # ks) J =
     (case lookup k of
        None \<Rightarrow> try_keys lookup ff ks J
      | Some f \<Rightarrow> rbind (f ff J) (\<lambda>(J, r).
          if r = NEXTFOLD then try_keys lookup ff ks J else fold_ret J r))"

datatype irmkind = IRM_N | IRM_A | IRM_L | IRM_S

definition irm_kind :: "irop \<Rightarrow> irmkind" where
  "irm_kind op =
     (if op \<in> {IR_HREF, IR_UREFO, IR_UREFC, IR_ALOAD, IR_HLOAD, IR_ULOAD, IR_FLOAD, IR_XLOAD,
               IR_SLOAD, IR_VLOAD, IR_CALLL} then IRM_L
      else if op \<in> {IR_RETF, IR_GCSTEP, IR_HIOP, IR_LOOP, IR_USE, IR_PHI, IR_RENAME, IR_NEWREF,
               IR_ASTORE, IR_HSTORE, IR_USTORE, IR_FSTORE, IR_XSTORE, IR_TBAR, IR_OBAR, IR_XBAR,
               IR_CALLS, IR_CALLXS} then IRM_S
      else if op \<in> {IR_XSNEW, IR_TNEW, IR_TDUP, IR_CNEW} then IRM_A
      else IRM_N)"

text \<open>With optimizations disabled the instruction goes to CSE or is emitted as it is.\<close>

definition fold_entry :: "refold \<Rightarrow> refold" where
  "fold_entry retry J =
     (if \<not> j_opt_fold J \<and> irm_kind (fo J) = IRM_N then lj_opt_cse J
      else if \<not> (j_opt_fold J \<and> j_opt_fwd J \<and> j_opt_cse J) \<and> irm_kind (fo J) = IRM_L \<and> fo J \<noteq> IR_SLOAD
      then lj_ir_emit J
      else if \<not> (j_opt_fold J \<and> j_opt_dse J) \<and> irm_kind (fo J) = IRM_S then lj_ir_emit J
      else retry J)"

fun fold_retry :: "fpops \<Rightarrow> others \<Rightarrow> nat \<Rightarrow> refold" where
  "fold_retry fp others 0 J = Inl DIVERGE"
| "fold_retry fp others (Suc n) J =
     rbind (try_keys (fold_lookup fp others) (fold_entry (fold_retry fp others n))
              (fold_keys (fold_key J)) (fold_load J)) (\<lambda>(J, r).
       case r of
         NEXTFOLD \<Rightarrow> lj_opt_cse J
       | FoldRef ref \<Rightarrow> Inr (J, ref)
       | RETRYFOLD \<Rightarrow> fold_retry fp others n J
       | KINTFOLD \<Rightarrow> lj_ir_kint J (ir_i (j_fins J))
       | FAILFOLD \<Rightarrow> Inl TRERR_GFAIL
       | DROPFOLD \<Rightarrow> Inr (J, REF_DROP))"

declare fold_retry.simps [simp del]

text \<open>The number of retries and nested calls is bounded by \<open>FOLD_MAX\<close>.\<close>

definition FOLD_MAX :: nat where "FOLD_MAX = 0x1000000"

definition lj_opt_fold :: "fpops \<Rightarrow> others \<Rightarrow> refold" where
  "lj_opt_fold fp others = fold_entry (fold_retry fp others FOLD_MAX)"

end
