(* ===== verification/LJ_IRWf.thy ===== *)
theory LJ_IRWf
  imports LJ_IR
begin

text \<open>
  Well-formedness of the intermediate representation: constants below the bias, instructions
  above it with operands before them, one chain for each opcode with exactly its
  instructions, constants interned.  The emitter and the functions that intern constants
  keep it.
\<close>

section \<open>Constants, widths\<close>

definition kop :: "irop \<Rightarrow> bool" where
  "kop op \<longleftrightarrow> op \<in> {IR_KPRI, IR_KINT, IR_KGC, IR_KPTR, IR_KKPTR, IR_KNULL, IR_KNUM, IR_KINT64, IR_KSLOT}"

definition w32 :: "irtype \<Rightarrow> bool" where
  "w32 t \<longleftrightarrow> t \<in> {IRT_I8, IRT_U8, IRT_I16, IRT_U16, IRT_INT, IRT_U32}"

definition w64 :: "irtype \<Rightarrow> bool" where
  "w64 t \<longleftrightarrow> t \<in> {IRT_I64, IRT_U64}"

lemma width_disj: "w32 t \<Longrightarrow> \<not> w64 t" "w64 t \<Longrightarrow> \<not> w32 t"
  by (auto simp: w32_def w64_def)

lemma width_is64: "w32 t \<Longrightarrow> \<not> irt_is64 t" "w64 t \<Longrightarrow> irt_is64 t"
  "w32 t \<Longrightarrow> t \<noteq> IRT_NUM" "w64 t \<Longrightarrow> t \<noteq> IRT_NUM"
  by (auto simp: w32_def w64_def irt_is64_def)

lemma width_IRT [simp]: "w32 IRT_INT" "\<not> w64 IRT_INT" "w64 IRT_I64" "\<not> w32 IRT_I64" "w32 IRT_U32"
  "\<not> w32 IRT_NUM" "\<not> w64 IRT_NUM" "w64 IRT_U64"
  by (simp_all add: w32_def w64_def)

text \<open>Addresses of 64-bit constants.\<close>

definition k64_addr :: "u64 list list \<Rightarrow> kaddr \<Rightarrow> bool" where
  "k64_addr ks a \<longleftrightarrow> fst a < length ks \<and> snd a < length (ks ! fst a)"

definition k64_ext :: "u64 list list \<Rightarrow> u64 list list \<Rightarrow> bool" where
  "k64_ext ks ks' \<longleftrightarrow> (\<forall>a. k64_addr ks a \<longrightarrow> k64_addr ks' a \<and> k64_val ks' a = k64_val ks a)"

section \<open>Chains\<close>

fun is_chain :: "(nat \<Rightarrow> irins) \<Rightarrow> nat \<Rightarrow> nat list \<Rightarrow> bool" where
  "is_chain ir r [] \<longleftrightarrow> r = 0"
| "is_chain ir r (x # xs) \<longleftrightarrow> r = x \<and> x \<noteq> 0 \<and> is_chain ir (ir_prev (ir x)) xs"

lemma is_chain_0 [simp]: "is_chain ir 0 xs \<longleftrightarrow> xs = []"
  by (cases xs) auto

lemma is_chain_cong:
  "is_chain ir r xs \<Longrightarrow> (\<And>x. x \<in> set xs \<Longrightarrow> ir_prev (ir' x) = ir_prev (ir x)) \<Longrightarrow> is_chain ir' r xs"
  by (induction xs arbitrary: r) auto

lemma chain_walk_found:
  "is_chain ir r xs \<Longrightarrow> length xs < n \<Longrightarrow>
     \<exists>s. chain_walk ir lim P n r = Inr s \<and> (s \<noteq> 0 \<longrightarrow> s \<in> set xs \<and> lim < s \<and> P s (ir s))"
proof (induction xs arbitrary: r n)
  case Nil
  then show ?case by (cases n) auto
next
  case (Cons x xs)
  then obtain m where n: "n = Suc m" by (cases n) auto
  have "\<exists>s. chain_walk ir lim P m (ir_prev (ir x)) = Inr s \<and> (s \<noteq> 0 \<longrightarrow> s \<in> set xs \<and> lim < s \<and> P s (ir s))"
    using Cons n by simp
  then show ?case using Cons.prems n by auto
qed

text \<open>With no limit the search is complete.\<close>

lemma chain_walk_none:
  "is_chain ir r xs \<Longrightarrow> chain_walk ir 0 P n r = Inr 0 \<Longrightarrow> x \<in> set xs \<Longrightarrow> \<not> P x (ir x)"
proof (induction xs arbitrary: r n)
  case (Cons y ys)
  then obtain m where n: "n = Suc m" by (cases n) auto
  show ?case using Cons n by (auto split: if_splits)
qed simp

section \<open>The invariant\<close>

definition kins_ok :: "jit \<Rightarrow> irins \<Rightarrow> bool" where
  "kins_ok J i \<longleftrightarrow> kop (ir_o i) \<and>
     (ir_o i = IR_KINT \<longrightarrow> irt_ty (ir_t i) = IRT_INT) \<and>
     (ir_o i = IR_KINT64 \<longrightarrow> irt_ty (ir_t i) = IRT_I64 \<and> k64_addr (j_k64 J) (ir_k i)) \<and>
     (ir_o i = IR_KNUM \<longrightarrow> k64_addr (j_k64 J) (ir_k i)) \<and>
     (ir_o i \<notin> {IR_KINT, IR_KINT64} \<longrightarrow> \<not> w32 (irt_ty (ir_t i)) \<and> \<not> w64 (irt_ty (ir_t i)))"

definition chain_refs :: "jit \<Rightarrow> irop \<Rightarrow> nat set" where
  "chain_refs J op = {r. j_nk J \<le> r \<and> r < j_nins J \<and> ir_o (j_ir J r) = op \<and> op \<noteq> IR_KPRI}"

definition chain_ok :: "jit \<Rightarrow> irop \<Rightarrow> bool" where
  "chain_ok J op \<longleftrightarrow> (\<exists>xs. is_chain (j_ir J) (j_chain J op) xs \<and> set xs = chain_refs J op \<and>
     (if kop op then sorted_wrt (<) xs else sorted_wrt (>) xs))"

text \<open>The constants that are interned by their literal or their address.\<close>

definition same_k :: "irins \<Rightarrow> irins \<Rightarrow> bool" where
  "same_k i j \<longleftrightarrow> ir_o i = ir_o j \<and>
     (ir_o i \<in> {IR_KINT, IR_KGC} \<and> ir_i i = ir_i j \<or> ir_o i \<in> {IR_KINT64, IR_KNUM} \<and> ir_k i = ir_k j)"

definition ir_bounds :: "jit \<Rightarrow> bool" where
  "ir_bounds J \<longleftrightarrow> REF_LIT \<le> j_nk J \<and> j_nk J \<le> REF_TRUE \<and> REF_BIAS < j_nins J \<and> j_nins J \<le> REF_DROP \<and>
     j_irbotlim J \<le> j_nk J \<and> j_nins J \<le> j_irtoplim J"

definition ir_valid :: "jit \<Rightarrow> nat \<Rightarrow> bool" where
  "ir_valid J r \<longleftrightarrow> j_nk J \<le> r \<and> r < j_nins J"

definition irwf :: "jit \<Rightarrow> bool" where
  "irwf J \<longleftrightarrow> ir_bounds J \<and>
     (\<forall>r. ir_valid J r \<and> r < REF_BIAS \<longrightarrow> kins_ok J (j_ir J r)) \<and>
     (\<forall>r. ir_valid J r \<and> REF_BIAS \<le> r \<longrightarrow> \<not> kop (ir_o (j_ir J r)) \<and> ir_op1 (j_ir J r) < r \<and> ir_op2 (j_ir J r) < r) \<and>
     (\<forall>op. chain_ok J op) \<and>
     distinct (concat (j_k64 J)) \<and>
     (\<forall>r s. ir_valid J r \<and> ir_valid J s \<and> r < REF_BIAS \<and> s < REF_BIAS \<and> same_k (j_ir J r) (j_ir J s) \<longrightarrow> r = s)"

lemma irwfD:
  assumes "irwf J"
  shows "ir_bounds J" "\<And>r. ir_valid J r \<Longrightarrow> r < REF_BIAS \<Longrightarrow> kins_ok J (j_ir J r)"
    "\<And>r. ir_valid J r \<Longrightarrow> REF_BIAS \<le> r \<Longrightarrow> \<not> kop (ir_o (j_ir J r)) \<and> ir_op1 (j_ir J r) < r \<and> ir_op2 (j_ir J r) < r"
    "\<And>op. chain_ok J op" "distinct (concat (j_k64 J))"
    "\<And>r s. ir_valid J r \<Longrightarrow> ir_valid J s \<Longrightarrow> r < REF_BIAS \<Longrightarrow> s < REF_BIAS \<Longrightarrow>
       same_k (j_ir J r) (j_ir J s) \<Longrightarrow> r = s"
  using assms by (auto simp: irwf_def)

lemma irwfI:
  assumes "ir_bounds J" "\<And>r. ir_valid J r \<Longrightarrow> r < REF_BIAS \<Longrightarrow> kins_ok J (j_ir J r)"
    "\<And>r. ir_valid J r \<Longrightarrow> REF_BIAS \<le> r \<Longrightarrow> \<not> kop (ir_o (j_ir J r)) \<and> ir_op1 (j_ir J r) < r \<and> ir_op2 (j_ir J r) < r"
    "\<And>op. chain_ok J op" "distinct (concat (j_k64 J))"
    "\<And>r s. ir_valid J r \<Longrightarrow> ir_valid J s \<Longrightarrow> r < REF_BIAS \<Longrightarrow> s < REF_BIAS \<Longrightarrow>
       same_k (j_ir J r) (j_ir J s) \<Longrightarrow> r = s"
  shows "irwf J"
  unfolding irwf_def by (intro conjI allI impI; (elim conjE)?) (use assms in blast)+

lemma ref_defs: "REF_TRUE < REF_BIAS" "REF_BIAS < REF_DROP" "REF_DROP < 0x10000" "0 < REF_TRUE" "REF_BIAS = 0x8000"
  by (simp_all add: REF_TRUE_def REF_BIAS_def REF_DROP_def)

text \<open>The state changes only in fields that the invariant does not read.\<close>

definition same_ir :: "jit \<Rightarrow> jit \<Rightarrow> bool" where
  "same_ir J J' \<longleftrightarrow> j_ir J' = j_ir J \<and> j_nk J' = j_nk J \<and> j_nins J' = j_nins J \<and> j_chain J' = j_chain J \<and>
     j_k64 J' = j_k64 J \<and> j_irbotlim J' = j_irbotlim J \<and> j_irtoplim J' = j_irtoplim J"

lemma same_irD:
  assumes "same_ir J J'"
  shows "irwf J' = irwf J" "ir_valid J' = ir_valid J" "ir_bounds J' = ir_bounds J"
proof -
  note s = assms [unfolded same_ir_def]
  have v: "ir_valid J' = ir_valid J" by (rule ext) (simp only: ir_valid_def s)
  have b: "ir_bounds J' = ir_bounds J" by (simp only: ir_bounds_def s)
  have k: "kins_ok J' = kins_ok J" by (rule ext) (simp only: kins_ok_def s)
  have c: "chain_ok J' = chain_ok J" by (rule ext) (simp only: chain_ok_def chain_refs_def s)
  show "irwf J' = irwf J" by (simp only: irwf_def v b k c s)
  show "ir_valid J' = ir_valid J" "ir_bounds J' = ir_bounds J" by fact+
qed

section \<open>Walking a chain\<close>

lemma kop_valid:
  assumes "irwf J" "ir_valid J r"
  shows "kop (ir_o (j_ir J r)) \<longleftrightarrow> r < REF_BIAS"
proof (cases "r < REF_BIAS")
  case True
  then show ?thesis using irwfD(2) [OF assms(1,2)] by (simp add: kins_ok_def)
next
  case False
  then show ?thesis using irwfD(3) [OF assms(1,2)] by simp
qed

lemma chain_length:
  assumes "irwf J" "set xs = chain_refs J op" "sorted_wrt (<) xs \<or> sorted_wrt (>) xs"
  shows "length xs < 0x10000"
proof -
  have "distinct xs"
  proof (cases "sorted_wrt (<) xs")
    case False
    then have "sorted_wrt (<) (rev xs)" using assms(3) by (simp add: sorted_wrt_rev)
    then show ?thesis by (simp add: strict_sorted_iff)
  qed (simp add: strict_sorted_iff)
  moreover have "set xs \<subseteq> {..<0xffff}"
  proof
    fix r assume "r \<in> set xs"
    then have "r < j_nins J" unfolding assms(2) by (simp add: chain_refs_def)
    then show "r \<in> {..<0xffff}" using irwfD(1) [OF assms(1)] by (simp add: ir_bounds_def REF_DROP_def)
  qed
  ultimately have "length xs \<le> 0xffff" by (rule distinct_bounded_length)
  then show ?thesis by simp
qed

lemma ir_walk_ok:
  assumes "irwf J"
  shows "\<exists>s. ir_walk J lim P (j_chain J op) = Inr s \<and>
    (s \<noteq> 0 \<longrightarrow> s \<in> chain_refs J op \<and> lim < s \<and> P s (j_ir J s)) \<and>
    (s = 0 \<and> lim = 0 \<longrightarrow> (\<forall>r \<in> chain_refs J op. \<not> P r (j_ir J r)))"
proof -
  obtain xs where x: "is_chain (j_ir J) (j_chain J op) xs" "set xs = chain_refs J op"
    "if kop op then sorted_wrt (<) xs else sorted_wrt (>) xs"
    using irwfD(4) [OF assms] unfolding chain_ok_def by blast
  have "length xs < 0x10000" by (rule chain_length [OF assms x(2)]) (use x(3) in \<open>auto split: if_splits\<close>)
  from chain_walk_found [OF x(1) this, of lim P] show ?thesis
    using chain_walk_none [OF x(1)] x(2) unfolding ir_walk_def by blast
qed

lemma chain_refs_valid: "r \<in> chain_refs J op \<Longrightarrow> ir_valid J r \<and> ir_o (j_ir J r) = op"
  by (simp add: chain_refs_def ir_valid_def)

section \<open>Results with a postcondition\<close>

text \<open>The result satisfies \<open>Q\<close>, an error satisfies \<open>E\<close>.\<close>

definition okr :: "(errmsg \<Rightarrow> bool) \<Rightarrow> ('a \<Rightarrow> bool) \<Rightarrow> 'a res \<Rightarrow> bool" where
  "okr E Q m = (case m of Inl e \<Rightarrow> E e | Inr x \<Rightarrow> Q x)"

abbreviation ok_oob :: "('a \<Rightarrow> bool) \<Rightarrow> 'a res \<Rightarrow> bool" where
  "ok_oob \<equiv> okr (\<lambda>e. e = OOB)"

lemma okr_simps [simp]: "okr E Q (Inl e) = E e" "okr E Q (Inr x) = Q x"
  by (simp_all add: okr_def)

lemma okr_bind: "okr E Q m \<Longrightarrow> (\<And>x. Q x \<Longrightarrow> okr E R (f x)) \<Longrightarrow> okr E R (rbind m f)"
  by (cases m) auto

lemma okr_weaken: "okr E Q m \<Longrightarrow> (\<And>e. E e \<Longrightarrow> E' e) \<Longrightarrow> (\<And>x. Q x \<Longrightarrow> R x) \<Longrightarrow> okr E' R m"
  by (cases m) auto

lemma okr_Inr: "okr E Q m \<Longrightarrow> m = Inr x \<Longrightarrow> Q x"
  by simp

section \<open>Extension of the representation\<close>

text \<open>Instructions stay as they are; only the index of a bounds check may be raised.\<close>

definition same_ins :: "irins \<Rightarrow> irins \<Rightarrow> bool" where
  "same_ins i i' \<longleftrightarrow> i' = i \<or> ir_o i = IR_ABC \<and> i' = i\<lparr>ir_op2 := ir_op2 i'\<rparr>"

definition ir_keeps :: "jit \<Rightarrow> jit \<Rightarrow> bool" where
  "ir_keeps J J' \<longleftrightarrow> j_nk J' \<le> j_nk J \<and> j_nins J \<le> j_nins J' \<and>
     (\<forall>r. ir_valid J r \<longrightarrow> same_ins (j_ir J r) (j_ir J' r)) \<and> k64_ext (j_k64 J) (j_k64 J')"

text \<open>The rest of the compiler state.\<close>

definition same_env :: "jit \<Rightarrow> jit \<Rightarrow> bool" where
  "same_env J J' \<longleftrightarrow> j_opt_fold J' = j_opt_fold J \<and> j_opt_cse J' = j_opt_cse J \<and> j_opt_abc J' = j_opt_abc J \<and>
     j_opt_fwd J' = j_opt_fwd J \<and> j_opt_dse J' = j_opt_dse J \<and>
     j_scev_idx J' = j_scev_idx J \<and> j_scev_dir J' = j_scev_dir J \<and>
     j_scev_start J' = j_scev_start J \<and> j_scev_stop J' = j_scev_stop J"

definition same_regs :: "jit \<Rightarrow> jit \<Rightarrow> bool" where
  "same_regs J J' \<longleftrightarrow> j_fins J' = j_fins J \<and> j_fleft J' = j_fleft J \<and> j_fright J' = j_fright J"

lemma same_ins_refl [simp]: "same_ins i i" by (simp add: same_ins_def)

lemma same_ins_trans: "same_ins i j \<Longrightarrow> same_ins j k \<Longrightarrow> same_ins i k"
  unfolding same_ins_def by (elim disjE; cases i; cases j; cases k; simp)

lemma same_insD:
  assumes "same_ins i i'"
  shows "ir_o i' = ir_o i" "ir_t i' = ir_t i" "ir_op1 i' = ir_op1 i" "ir_prev i' = ir_prev i" "ir_i i' = ir_i i"
    "ir_k i' = ir_k i" "ir_o i \<noteq> IR_ABC \<Longrightarrow> i' = i"
proof -
  have c: "i' = i \<or> ir_o i = IR_ABC \<and> i' = i\<lparr>ir_op2 := ir_op2 i'\<rparr>" using assms by (simp only: same_ins_def)
  show "ir_o i' = ir_o i" using c by (metis irins.select_convs(1) irins.surjective irins.update_convs(4))
  show "ir_t i' = ir_t i" using c by (metis irins.select_convs(2) irins.surjective irins.update_convs(4))
  show "ir_op1 i' = ir_op1 i" using c by (metis irins.select_convs(3) irins.surjective irins.update_convs(4))
  show "ir_prev i' = ir_prev i" using c by (metis irins.select_convs(5) irins.surjective irins.update_convs(4))
  show "ir_i i' = ir_i i" using c by (metis irins.select_convs(6) irins.surjective irins.update_convs(4))
  show "ir_k i' = ir_k i" using c by (metis irins.select_convs(7) irins.surjective irins.update_convs(4))
  show "ir_o i \<noteq> IR_ABC \<Longrightarrow> i' = i" using c by simp
qed

lemma k64_ext_refl [simp]: "k64_ext ks ks" by (simp add: k64_ext_def)
lemma k64_ext_trans: "k64_ext a b \<Longrightarrow> k64_ext b c \<Longrightarrow> k64_ext a c" by (simp add: k64_ext_def)

lemma ir_keeps_refl [simp]: "ir_keeps J J" by (simp add: ir_keeps_def)

lemma keeps_valid: "ir_keeps J J' \<Longrightarrow> ir_valid J r \<Longrightarrow> ir_valid J' r"
  by (auto simp: ir_keeps_def ir_valid_def)

lemma keeps_ins: "ir_keeps J J' \<Longrightarrow> ir_valid J r \<Longrightarrow> same_ins (j_ir J r) (j_ir J' r)"
  by (simp add: ir_keeps_def)

lemma ir_keeps_trans:
  assumes "ir_keeps J1 J2" "ir_keeps J2 J3"
  shows "ir_keeps J1 J3"
proof -
  have "same_ins (j_ir J1 r) (j_ir J3 r)" if "ir_valid J1 r" for r
    using same_ins_trans keeps_ins [OF assms(1) that] keeps_ins [OF assms(2) keeps_valid [OF assms(1) that]] by blast
  then show ?thesis using assms by (auto simp: ir_keeps_def intro: k64_ext_trans)
qed

lemma same_env_refl [simp]: "same_env J J" by (simp add: same_env_def)
lemma same_env_trans: "same_env J1 J2 \<Longrightarrow> same_env J2 J3 \<Longrightarrow> same_env J1 J3" by (simp add: same_env_def)
lemma same_regs_refl [simp]: "same_regs J J" by (simp add: same_regs_def)

lemma same_ir_keeps: "same_ir J J' \<Longrightarrow> ir_keeps J J'"
  by (auto simp: same_ir_def ir_keeps_def)

section \<open>New references\<close>

lemma growbot_ok:
  assumes "j_irbotlim J + 4 \<le> j_nins J" "j_nins J \<le> j_irtoplim J" "lj_ir_growbot J = Inr J'"
  shows "j_irbotlim J' < j_irbotlim J" "j_nins J \<le> j_irtoplim J'"
    "J' = J\<lparr>j_irbotlim := j_irbotlim J', j_irtoplim := j_irtoplim J'\<rparr>"
proof -
  define szins where "szins = j_irtoplim J - j_irbotlim J"
  define up where "up \<longleftrightarrow> j_nins J + szins div 2 < j_irtoplim J"
  define ofs where "ofs = (if up then szins div 4 else if szins \<ge> 256 then 128 else szins div 2)"
  have s: "4 \<le> szins" "j_irtoplim J = j_irbotlim J + szins" using assms(1,2) by (simp_all add: szins_def)
  have o: "1 \<le> ofs" "ofs \<le> szins div 2" using s(1) by (auto simp: ofs_def)
  have g: "ofs \<le> j_irbotlim J" "J' = J\<lparr>j_irbotlim := j_irbotlim J - ofs,
      j_irtoplim := (if up then j_irtoplim J - ofs else j_irbotlim J - ofs + 2 * szins)\<rparr>"
  proof -
    have "(if ofs > j_irbotlim J then Inl OOB else Inr (J\<lparr>j_irbotlim := j_irbotlim J - ofs,
        j_irtoplim := (if up then j_irtoplim J - ofs else j_irbotlim J - ofs + 2 * szins)\<rparr>)) = Inr J'"
      using assms(3) by (simp only: lj_ir_growbot_def Let_def szins_def [symmetric] up_def [symmetric] ofs_def [symmetric])
    then show "ofs \<le> j_irbotlim J" "J' = J\<lparr>j_irbotlim := j_irbotlim J - ofs,
        j_irtoplim := (if up then j_irtoplim J - ofs else j_irbotlim J - ofs + 2 * szins)\<rparr>"
      by (cases "ofs > j_irbotlim J"; simp)+
  qed
  show "j_irbotlim J' < j_irbotlim J" using g o by simp
  show "j_nins J \<le> j_irtoplim J'"
  proof (cases up)
    case True
    then have "ofs = szins div 4" "j_nins J + szins div 2 < j_irtoplim J" by (simp_all add: ofs_def up_def)
    then show ?thesis using g True by simp
  next
    case False
    then show ?thesis using g s o assms(2) by simp
  qed
  show "J' = J\<lparr>j_irbotlim := j_irbotlim J', j_irtoplim := j_irtoplim J'\<rparr>" by (subst g(2)) (simp add: g(2))
qed

text \<open>The buffer has room for the next constant and for the next instruction.\<close>

lemma nextk_ok:
  assumes "ir_bounds J"
  shows "ok_oob (\<lambda>(J', r). r = j_nk J - 1 \<and> REF_LIT < j_nk J \<and>
     J' = J\<lparr>j_nk := r, j_irbotlim := j_irbotlim J', j_irtoplim := j_irtoplim J'\<rparr> \<and>
     j_irbotlim J' \<le> r \<and> j_nins J \<le> j_irtoplim J') (ir_nextk J)"
proof -
  have b: "j_irbotlim J \<le> j_nk J" "j_nins J \<le> j_irtoplim J" "j_nk J + 4 \<le> j_nins J"
    using assms by (auto simp: ir_bounds_def REF_TRUE_def REF_BIAS_def)
  show ?thesis
  proof (cases "j_nk J \<le> j_irbotlim J")
    case False
    then show ?thesis using b by (cases "j_nk J \<le> REF_LIT") (simp_all add: ir_nextk_def Let_def)
  next
    case True
    show ?thesis
    proof (cases "lj_ir_growbot J")
      case (Inl e)
      then show ?thesis using True by (auto simp: ir_nextk_def lj_ir_growbot_def Let_def split: if_splits)
    next
      case (Inr J')
      have g: "j_irbotlim J' < j_irbotlim J" "j_nins J \<le> j_irtoplim J'"
        "J' = J\<lparr>j_irbotlim := j_irbotlim J', j_irtoplim := j_irtoplim J'\<rparr>"
        using growbot_ok [OF _ b(2) Inr] b by simp_all
      have "J'\<lparr>j_nk := x\<rparr> = J\<lparr>j_nk := x, j_irbotlim := j_irbotlim J', j_irtoplim := j_irtoplim J'\<rparr>" for x
        by (subst g(3)) simp
      then show ?thesis using True Inr b g(1,2) by (cases "j_nk J \<le> REF_LIT") (simp_all add: ir_nextk_def Let_def)
    qed
  qed
qed

lemma nextins_ok:
  assumes "ir_bounds J"
  shows "ok_oob (\<lambda>(J', r). r = j_nins J \<and> r < REF_DROP \<and>
     J' = J\<lparr>j_nins := r + 1, j_irbotlim := j_irbotlim J', j_irtoplim := j_irtoplim J'\<rparr> \<and>
     j_irbotlim J' \<le> j_nk J \<and> r + 1 \<le> j_irtoplim J') (lj_ir_nextins J)"
proof -
  have b: "j_irbotlim J \<le> j_nk J" "j_nins J \<le> j_irtoplim J" "j_nk J + 4 \<le> j_nins J"
    using assms by (auto simp: ir_bounds_def REF_TRUE_def REF_BIAS_def)
  then show ?thesis
    by (auto simp: lj_ir_nextins_def Let_def lj_ir_growtop_def)
qed

section \<open>Interning\<close>

lemma chain_push:
  assumes "chain_ok J op" "r \<noteq> 0" "ir_prev (ir' r) = j_chain J op" "j_ir J' = ir'" "j_chain J' op = r"
    "\<And>y. y \<in> chain_refs J op \<Longrightarrow> ir' y = j_ir J y"
    "chain_refs J' op = insert r (chain_refs J op)"
    "\<And>y. y \<in> chain_refs J op \<Longrightarrow> (if kop op then r < y else y < r)"
  shows "chain_ok J' op"
proof -
  obtain xs where x: "is_chain (j_ir J) (j_chain J op) xs" "set xs = chain_refs J op"
    "if kop op then sorted_wrt (<) xs else sorted_wrt (>) xs"
    using assms(1) by (auto simp: chain_ok_def)
  have "is_chain ir' (j_chain J op) xs"
    by (rule is_chain_cong [OF x(1)]) (simp add: assms(6) x(2))
  then have c: "is_chain (j_ir J') (j_chain J' op) (r # xs)" by (simp add: assms(2-5))
  have s: "set (r # xs) = chain_refs J' op" by (simp add: x(2) assms(7))
  have "if kop op then sorted_wrt (<) (r # xs) else sorted_wrt (>) (r # xs)"
    using x(3) assms(8) x(2) by auto
  then show ?thesis unfolding chain_ok_def using c s by blast
qed

lemma chain_other:
  assumes "chain_ok J op'" "\<And>r. r \<in> chain_refs J op' \<Longrightarrow> j_ir J' r = j_ir J r"
    "chain_refs J' op' = chain_refs J op'" "j_chain J' op' = j_chain J op'"
  shows "chain_ok J' op'"
proof -
  obtain xs where x: "is_chain (j_ir J) (j_chain J op') xs" "set xs = chain_refs J op'"
     "if kop op' then sorted_wrt (<) xs else sorted_wrt (>) xs"
    using assms(1) by (auto simp: chain_ok_def)
  have "is_chain (j_ir J') (j_chain J op') xs"
    by (rule is_chain_cong [OF x(1)]) (use x(2) assms(2) in simp)
  then show ?thesis unfolding chain_ok_def using x(2,3) assms(3,4) by auto
qed

lemma add_const_wf:
  assumes wf: "irwf J" and nl: "REF_LIT < j_nk J"
    and k: "kins_ok J i" "ir_o i \<noteq> IR_KPRI" "ir_prev i = j_chain J (ir_o i)"
    and u: "\<And>r. ir_valid J r \<Longrightarrow> r < REF_BIAS \<Longrightarrow> \<not> same_k i (j_ir J r)"
    and f: "j_nk J' = j_nk J - 1" "j_ir J' = (j_ir J)(j_nk J - 1 := i)"
      "j_chain J' = (j_chain J)(ir_o i := j_nk J - 1)" "j_nins J' = j_nins J" "j_k64 J' = j_k64 J"
      "j_irbotlim J' \<le> j_nk J - 1" "j_nins J \<le> j_irtoplim J'"
  shows "irwf J' \<and> ir_keeps J J' \<and> ir_valid J' (j_nk J - 1) \<and> j_nk J - 1 < REF_BIAS"
proof -
  let ?r = "j_nk J - 1"
  have n: "2 \<le> j_nk J" using nl by (simp add: REF_LIT_def)
  have b: "j_nk J \<le> REF_TRUE" "REF_BIAS < j_nins J" "j_nins J \<le> REF_DROP"
    using irwfD(1) [OF wf] by (simp_all add: ir_bounds_def)
  have r: "?r < REF_BIAS" "?r < j_nk J" "?r \<noteq> 0" using b n ref_defs by simp_all
  have v: "ir_valid J' s \<longleftrightarrow> s = ?r \<or> ir_valid J s" for s
    using f(1,4) n b ref_defs by (auto simp: ir_valid_def)
  have nv: "\<not> ir_valid J ?r"
  proof -
    have "\<not> j_nk J \<le> j_nk J - 1" using n by linarith
    then show ?thesis unfolding ir_valid_def by blast
  qed
  have old: "j_ir J' s = j_ir J s" if "ir_valid J s" for s using that nv f(2) by auto
  have new: "j_ir J' ?r = i" using f(2) by simp
  have kop: "kop (ir_o i)" using k(1) by (simp add: kins_ok_def)
  have kk: "kins_ok J' = kins_ok J" by (rule ext) (simp only: kins_ok_def f(5))
  have cr: "chain_refs J' op = (if op = ir_o i then insert ?r (chain_refs J op) else chain_refs J op)" for op
  proof -
    have "s \<in> chain_refs J' op \<longleftrightarrow> (s = ?r \<and> op = ir_o i) \<or> s \<in> chain_refs J op" for s
    proof (cases "s = ?r")
      case True
      then show ?thesis using v [of s] new nv k(2) chain_refs_valid [of s J op]
        by (auto simp: chain_refs_def ir_valid_def)
    next
      case False
      then show ?thesis using v [of s] f(1,2,4) n by (auto simp: chain_refs_def)
    qed
    then show ?thesis by auto
  qed
  have above: "\<And>y. y \<in> chain_refs J op \<Longrightarrow> ?r < y" for op using n by (auto simp: chain_refs_def)
  have ch: "chain_ok J' op" for op
  proof (cases "op = ir_o i")
    case True
    show ?thesis unfolding True
    proof (rule chain_push [where r = ?r and ir' = "j_ir J'" and J = J])
      show "chain_ok J (ir_o i)" by (rule irwfD(4) [OF wf])
      show "\<And>y. y \<in> chain_refs J (ir_o i) \<Longrightarrow> j_ir J' y = j_ir J y" using old chain_refs_valid by blast
      show "\<And>y. y \<in> chain_refs J (ir_o i) \<Longrightarrow> if kop (ir_o i) then ?r < y else y < ?r"
        using above kop by simp
    qed (use r k new cr [of "ir_o i"] f(3) in simp_all)
  next
    case False
    show ?thesis
      by (rule chain_other [OF irwfD(4) [OF wf]]) (use False cr [of op] f(3) old chain_refs_valid in auto)
  qed
  have u': "r = s" if a: "ir_valid J' r" "ir_valid J' s" "r < REF_BIAS" "s < REF_BIAS" "same_k (j_ir J' r) (j_ir J' s)" for r s
  proof -
    have sym: "same_k x y \<Longrightarrow> same_k y x" for x y by (auto simp: same_k_def)
    show ?thesis
    proof (cases "r = ?r"; cases "s = ?r")
      assume "r = ?r" "s \<noteq> ?r"
      then show ?thesis using a v new old u by metis
    next
      assume "r \<noteq> ?r" "s = ?r"
      then show ?thesis using a v new old u sym by metis
    next
      assume c: "r \<noteq> ?r" "s \<noteq> ?r"
      then have "ir_valid J r" "ir_valid J s" using a v by blast+
      then show ?thesis using irwfD(6) [OF wf] a old by metis
    qed simp
  qed
  have "ir_bounds J'" unfolding ir_bounds_def f(1,4) using f(6,7) b nl by linarith
  moreover have "kins_ok J' (j_ir J' s)" if "ir_valid J' s" "s < REF_BIAS" for s
    using that v [of s] new old irwfD(2) [OF wf] k(1) kk by metis
  moreover have "\<not> kop (ir_o (j_ir J' s)) \<and> ir_op1 (j_ir J' s) < s \<and> ir_op2 (j_ir J' s) < s"
    if "ir_valid J' s" "REF_BIAS \<le> s" for s
  proof -
    have "ir_valid J s" using that v [of s] r by auto
    then show ?thesis using irwfD(3) [OF wf] that(2) old by simp
  qed
  moreover have "distinct (concat (j_k64 J'))" using irwfD(5) [OF wf] f(5) by simp
  ultimately have "irwf J'" using ch u' by (intro irwfI) blast+
  moreover have "ir_keeps J J'" using f old by (simp add: ir_keeps_def)
  ultimately show ?thesis using v r by simp
qed

text \<open>
  Interning: a constant with the property \<open>same\<close> is found or added.  The literal is set by
  \<open>upd\<close>, and two constants with the same literal have the property together.
\<close>

lemma internk_ok:
  assumes wf: "irwf J" and o: "kop op" "op \<noteq> IR_KPRI"
    and u: "\<And>i. ir_o (upd i) = ir_o i" "\<And>i. ir_t (upd i) = ir_t i" "\<And>i. ir_prev (upd i) = ir_prev i"
    and s: "\<And>i. irt_ty (ir_t i) = t \<Longrightarrow> same (upd i)"
    and k: "\<And>i. ir_o i = op \<Longrightarrow> ir_t i = IRT t \<Longrightarrow> kins_ok J (upd i)"
    and d: "\<And>i j. ir_o i = op \<Longrightarrow> same_k (upd i) j \<Longrightarrow> same j"
  shows "ok_oob (\<lambda>(J', r). irwf J' \<and> ir_keeps J J' \<and> same_env J J' \<and> same_regs J J' \<and> j_nins J' = j_nins J \<and>
     j_k64 J' = j_k64 J \<and> (\<forall>s. ir_valid J s \<longrightarrow> j_ir J' s = j_ir J s) \<and>
     ir_valid J' r \<and> r < REF_BIAS \<and> ir_o (j_ir J' r) = op \<and> same (j_ir J' r)) (ir_internk J op t same upd)"
proof -
  obtain w where w: "ir_walk J 0 (\<lambda>_. same) (j_chain J op) = Inr w"
    "w \<noteq> 0 \<Longrightarrow> w \<in> chain_refs J op \<and> same (j_ir J w)"
    "w = 0 \<Longrightarrow> \<forall>r \<in> chain_refs J op. \<not> same (j_ir J r)"
    using ir_walk_ok [OF wf, of 0 "\<lambda>_. same" op] by auto
  show ?thesis
  proof (cases "w = 0")
    case False
    then have c: "w \<in> chain_refs J op" "same (j_ir J w)" using w(2) by simp_all
    then have "ir_valid J w" "ir_o (j_ir J w) = op" using chain_refs_valid by blast+
    moreover from this have "w < REF_BIAS" using kop_valid [OF wf] o by metis
    ultimately show ?thesis using wf c(2) False w(1) by (simp add: ir_internk_def)
  next
    case True
    have "ir_internk J op t same upd = rbind (ir_nextk J) (\<lambda>(J, ref).
        let ir = upd ((j_ir J ref)\<lparr>ir_t := IRT t, ir_o := op, ir_prev := j_chain J op\<rparr>)
        in Inr (J\<lparr>j_ir := (j_ir J)(ref := ir), j_chain := (j_chain J)(op := ref)\<rparr>, ref))"
      using w(1) True by (simp add: ir_internk_def)
    moreover have "ok_oob (\<lambda>(J', r). irwf J' \<and> ir_keeps J J' \<and> same_env J J' \<and> same_regs J J' \<and> j_nins J' = j_nins J \<and>
       j_k64 J' = j_k64 J \<and> (\<forall>s. ir_valid J s \<longrightarrow> j_ir J' s = j_ir J s) \<and>
       ir_valid J' r \<and> r < REF_BIAS \<and> ir_o (j_ir J' r) = op \<and> same (j_ir J' r)) \<dots>"
    proof (rule okr_bind [OF nextk_ok [OF irwfD(1) [OF wf]]])
      fix x :: "jit \<times> nat"
      obtain J1 r where x: "x = (J1, r)" by (cases x)
      assume "case x of (J', r) \<Rightarrow> r = j_nk J - 1 \<and> REF_LIT < j_nk J \<and>
         J' = J\<lparr>j_nk := r, j_irbotlim := j_irbotlim J', j_irtoplim := j_irtoplim J'\<rparr> \<and>
         j_irbotlim J' \<le> r \<and> j_nins J \<le> j_irtoplim J'"
      then have "r = j_nk J - 1 \<and> REF_LIT < j_nk J \<and>
         J1 = J\<lparr>j_nk := r, j_irbotlim := j_irbotlim J1, j_irtoplim := j_irtoplim J1\<rparr> \<and>
         j_irbotlim J1 \<le> r \<and> j_nins J \<le> j_irtoplim J1"
        unfolding x prod.case .
      then have n: "r = j_nk J - 1" "REF_LIT < j_nk J" "j_irbotlim J1 \<le> r" "j_nins J \<le> j_irtoplim J1"
        and e: "J1 = J\<lparr>j_nk := r, j_irbotlim := j_irbotlim J1, j_irtoplim := j_irtoplim J1\<rparr>"
        by blast+
      define i where "i = upd ((j_ir J r)\<lparr>ir_t := IRT t, ir_o := op, ir_prev := j_chain J op\<rparr>)"
      define J2 where "J2 = J1\<lparr>j_ir := (j_ir J)(r := i), j_chain := (j_chain J)(op := r)\<rparr>"
      have sel: "j_ir J1 = j_ir J" "j_chain J1 = j_chain J"
        by (subst e, simp)+
      have f: "j_nk J2 = j_nk J - 1" "j_ir J2 = (j_ir J)(j_nk J - 1 := i)" "j_nins J2 = j_nins J"
        "j_k64 J2 = j_k64 J" "j_irbotlim J2 = j_irbotlim J1" "j_irtoplim J2 = j_irtoplim J1"
        "same_env J J2" "same_regs J J2" "j_chain J2 = (j_chain J)(op := j_nk J - 1)"
        unfolding J2_def by (subst e, simp add: n(1) same_env_def same_regs_def)+
      have i: "ir_o i = op" "ir_t i = IRT t" "ir_prev i = j_chain J op" by (simp_all add: i_def u)
      have ki: "kins_ok J i" unfolding i_def by (rule k) simp_all
      have un: "\<not> same_k i (j_ir J q)" if "ir_valid J q" "q < REF_BIAS" for q
      proof
        assume c: "same_k i (j_ir J q)"
        then have "ir_o (j_ir J q) = op" using i by (simp add: same_k_def)
        then have "q \<in> chain_refs J op" using that o by (simp add: chain_refs_def ir_valid_def)
        moreover have "same (j_ir J q)" using d [OF _ c [unfolded i_def]] by simp
        ultimately show False using w(3) True by blast
      qed
      have w: "irwf J2 \<and> ir_keeps J J2 \<and> ir_valid J2 (j_nk J - 1) \<and> j_nk J - 1 < REF_BIAS"
        by (rule add_const_wf [where i = i, OF wf n(2) ki]) (use i o un f n in simp_all)
      have old: "\<forall>s. ir_valid J s \<longrightarrow> j_ir J2 s = j_ir J s"
      proof (intro allI impI)
        fix s assume "ir_valid J s"
        then have "s \<noteq> j_nk J - 1" using n(2) by (auto simp: ir_valid_def)
        then show "j_ir J2 s = j_ir J s" by (simp add: f(2))
      qed
      have sm: "same i" unfolding i_def by (rule s) (simp add: IRT_def)
      have E: "(case x of (J, ref) \<Rightarrow>
          let ir = upd ((j_ir J ref)\<lparr>ir_t := IRT t, ir_o := op, ir_prev := j_chain J op\<rparr>)
          in Inr (J\<lparr>j_ir := (j_ir J)(ref := ir), j_chain := (j_chain J)(op := ref)\<rparr>, ref)) = Inr (J2, r)"
        by (simp add: x Let_def i_def J2_def sel)
      then show "ok_oob (\<lambda>(J', r). irwf J' \<and> ir_keeps J J' \<and> same_env J J' \<and> same_regs J J' \<and>
         j_nins J' = j_nins J \<and> j_k64 J' = j_k64 J \<and> (\<forall>s. ir_valid J s \<longrightarrow> j_ir J' s = j_ir J s) \<and>
         ir_valid J' r \<and> r < REF_BIAS \<and> ir_o (j_ir J' r) = op \<and> same (j_ir J' r))
        (case x of (J, ref) \<Rightarrow>
          let ir = upd ((j_ir J ref)\<lparr>ir_t := IRT t, ir_o := op, ir_prev := j_chain J op\<rparr>)
          in Inr (J\<lparr>j_ir := (j_ir J)(ref := ir), j_chain := (j_chain J)(op := ref)\<rparr>, ref))"
        unfolding E okr_simps prod.case n(1)
        using w f(2,3,4,7,8) old sm i by (simp only: fun_upd_same simp_thms)
    qed
    ultimately show ?thesis by simp
  qed
qed

end
