(* ===== verification/LJ_IROps.thy ===== *)
theory LJ_IROps
  imports LJ_IRWf
begin

text \<open>
  What the emitter, the interning of constants and the undoing of instructions do to a
  well-formed representation.
\<close>

section \<open>64-bit constants\<close>

lemma k64_index_Some: "k64_index xs u i = Some j \<Longrightarrow> i \<le> j \<and> j - i < length xs \<and> xs ! (j - i) = u"
proof (induction xs arbitrary: i)
  case (Cons x xs)
  show ?case
  proof (cases "x = u")
    case False
    then have "i + 1 \<le> j \<and> j - (i + 1) < length xs \<and> xs ! (j - (i + 1)) = u" using Cons by simp
    then show ?thesis by (auto simp: nth_Cons' Suc_diff_Suc)
  qed (use Cons in simp)
qed simp

lemma k64_index_None: "k64_index xs u i = None \<Longrightarrow> u \<notin> set xs"
  by (induction xs arbitrary: i) (auto split: if_splits)

lemma k64_search_Some:
  "k64_search ks u n = Some a \<Longrightarrow> n \<le> fst a \<and> fst a - n < length ks \<and>
     snd a < length (ks ! (fst a - n)) \<and> ks ! (fst a - n) ! snd a = u"
proof (induction ks arbitrary: n)
  case (Cons k ks)
  show ?case
  proof (cases "k64_index k u 0")
    case None
    then have "n + 1 \<le> fst a \<and> fst a - (n + 1) < length ks \<and> snd a < length (ks ! (fst a - (n + 1))) \<and>
        ks ! (fst a - (n + 1)) ! snd a = u" using Cons by simp
    then show ?thesis by (auto simp: nth_Cons' Suc_diff_Suc)
  next
    case (Some i)
    then show ?thesis using Cons.prems k64_index_Some [OF Some] by auto
  qed
qed simp

lemma k64_search_None: "k64_search ks u n = None \<Longrightarrow> u \<notin> set (concat ks)"
  by (induction ks arbitrary: n) (auto split: option.splits dest: k64_index_None)

lemma k64_val_inj:
  "distinct (concat ks) \<Longrightarrow> k64_addr ks a \<Longrightarrow> k64_addr ks b \<Longrightarrow> k64_val ks a = k64_val ks b \<Longrightarrow> a = b"
proof (induction ks arbitrary: a b)
  case (Cons k ks)
  obtain i j where a: "a = (i, j)" by (cases a)
  obtain i' j' where b: "b = (i', j')" by (cases b)
  have notin: "\<And>i j. i < length ks \<Longrightarrow> j < length (ks ! i) \<Longrightarrow> ks ! i ! j \<notin> set k"
    using Cons.prems(1) by (auto simp: disjoint_iff) (metis nth_mem UN_iff)
  show ?case
  proof (cases i; cases i')
    assume c: "i = 0" "i' = 0"
    have "distinct k" using Cons.prems(1) by simp
    then show ?thesis using c Cons.prems a b by (simp add: k64_addr_def k64_val_def nth_eq_iff_index_eq)
  next
    fix m assume c: "i = 0" "i' = Suc m"
    have e: "k ! j = ks ! m ! j'" using c Cons.prems a b by (simp add: k64_addr_def k64_val_def)
    have "k ! j \<in> set k" using c Cons.prems(2) a by (simp add: k64_addr_def)
    then have "ks ! m ! j' \<in> set k" using e by simp
    then show ?thesis using notin [of m j'] c Cons.prems(3) b by (simp add: k64_addr_def)
  next
    fix m assume c: "i = Suc m" "i' = 0"
    have e: "k ! j' = ks ! m ! j" using c Cons.prems a b by (simp add: k64_addr_def k64_val_def)
    have "k ! j' \<in> set k" using c Cons.prems(3) b by (simp add: k64_addr_def)
    then have "ks ! m ! j \<in> set k" using e by simp
    then show ?thesis using notin [of m j] c Cons.prems(2) a by (simp add: k64_addr_def)
  next
    fix m m' assume c: "i = Suc m" "i' = Suc m'"
    have "(m, j) = (m', j')"
      by (rule Cons.IH) (use Cons.prems a b c in \<open>simp_all add: k64_addr_def k64_val_def\<close>)
    then show ?thesis using a b c by simp
  qed
qed (simp add: k64_addr_def)

text \<open>A new constant goes to the last array or to a new one; no constant moves.\<close>

lemma k64_push:
  fixes u :: u64
  assumes "ks \<noteq> []"
  defines "ks' \<equiv> butlast ks @ [last ks @ [u]]"
  shows "k64_ext ks ks'" "set (concat ks') = insert u (set (concat ks))"
    "distinct (concat ks) \<Longrightarrow> u \<notin> set (concat ks) \<Longrightarrow> distinct (concat ks')"
    "k64_addr ks' (length ks - 1, length (last ks))" "k64_val ks' (length ks - 1, length (last ks)) = u"
proof -
  have ks: "ks = butlast ks @ [last ks]" using assms(1) by simp
  have len: "length ks' = length ks" using assms(1) by (simp add: ks'_def)
  show "k64_ext ks ks'"
    unfolding k64_ext_def
  proof (intro allI impI)
    fix a assume a: "k64_addr ks a"
    show "k64_addr ks' a \<and> k64_val ks' a = k64_val ks a"
    proof (cases "fst a < length ks - 1")
      case True
      then have "ks' ! fst a = ks ! fst a" by (simp add: ks'_def nth_append nth_butlast)
      then show ?thesis using a len by (simp add: k64_addr_def k64_val_def)
    next
      case False
      then have i: "fst a = length ks - 1" using a unfolding k64_addr_def by linarith
      then have n: "ks ! fst a = last ks" "ks' ! fst a = last ks @ [u]"
        using assms(1) by (simp_all add: last_conv_nth ks'_def nth_append)
      then show ?thesis using a len by (simp add: k64_addr_def k64_val_def nth_append)
    qed
  qed
  have "concat ks = concat (butlast ks) @ last ks" by (subst ks) (simp del: append_butlast_last_id)
  then have c: "concat ks' = concat ks @ [u]" by (simp add: ks'_def)
  then show "set (concat ks') = insert u (set (concat ks))" by (metis set_append list.set(1,2) Un_insert_right sup_bot_right)
  show "distinct (concat ks')" if "distinct (concat ks)" "u \<notin> set (concat ks)" unfolding c using that by simp
  show "k64_addr ks' (length ks - 1, length (last ks))" "k64_val ks' (length ks - 1, length (last ks)) = u"
    using assms(1) by (simp_all add: k64_addr_def k64_val_def ks'_def nth_append)
qed

lemma irwf_k64:
  assumes "irwf J" "k64_ext (j_k64 J) ks" "distinct (concat ks)" "same_ir (J\<lparr>j_k64 := ks\<rparr>) J'"
  shows "irwf J'" "ir_keeps J J'"
proof -
  have a: "\<And>a. k64_addr (j_k64 J) a \<Longrightarrow> k64_addr ks a" using assms(2) unfolding k64_ext_def by blast
  have v: "ir_valid (J\<lparr>j_k64 := ks\<rparr>) = ir_valid J" by (rule ext) (simp add: ir_valid_def)
  have k: "kins_ok J i \<Longrightarrow> kins_ok (J\<lparr>j_k64 := ks\<rparr>) i" for i using a by (auto simp: kins_ok_def)
  have b: "ir_bounds (J\<lparr>j_k64 := ks\<rparr>) = ir_bounds J" by (simp add: ir_bounds_def)
  have c: "chain_ok (J\<lparr>j_k64 := ks\<rparr>) = chain_ok J"
    by (rule ext) (simp add: chain_ok_def chain_refs_def)
  have "irwf (J\<lparr>j_k64 := ks\<rparr>)"
    by (rule irwfI) (use irwfD [OF assms(1)] k assms(3) in \<open>simp_all add: v b c\<close>)
  then show "irwf J'" using same_irD(1) [OF assms(4)] by simp
  show "ir_keeps J J'" using assms(2,4) by (auto simp: same_ir_def ir_keeps_def)
qed

lemma k64_find_ok:
  assumes "irwf J" "lj_ir_k64_find J u = (J', a)"
  shows "irwf J'" "ir_keeps J J'" "same_env J J'" "same_regs J J'" "j_nins J' = j_nins J" "j_nk J' = j_nk J" "j_ir J' = j_ir J"
    "k64_addr (j_k64 J') a" "k64_val (j_k64 J') a = u"
proof -
  let ?P = "irwf J' \<and> ir_keeps J J' \<and> same_env J J' \<and> same_regs J J' \<and> j_nins J' = j_nins J \<and> j_nk J' = j_nk J \<and>
    j_ir J' = j_ir J \<and> k64_addr (j_k64 J') a \<and> k64_val (j_k64 J') a = u"
  have ?P
  proof (cases "k64_search (j_k64 J) u 0")
    case (Some tv)
    then have "J' = J" "a = tv" using assms(2) by (simp_all add: lj_ir_k64_find_def)
    then show ?thesis using assms(1) k64_search_Some [OF Some] by (simp add: k64_addr_def k64_val_def)
  next
    case None
    define ks where "ks = (if j_k64 J \<noteq> [] \<and> length (last (j_k64 J)) < LJ_MIN_K64SZ then j_k64 J else j_k64 J @ [[]])"
    have ne: "ks \<noteq> []" by (simp add: ks_def)
    have cc: "concat ks = concat (j_k64 J)" by (simp add: ks_def)
    have ex: "k64_ext (j_k64 J) ks" by (simp add: ks_def k64_ext_def k64_addr_def k64_val_def nth_append)
    let ?ks = "butlast ks @ [last ks @ [u]]"
    have J': "J' = J\<lparr>j_k64 := ?ks\<rparr>" "a = (length ks - 1, length (last ks))"
      using assms(2) None by (simp_all add: lj_ir_k64_find_def Let_def ks_def [symmetric])
    note p = k64_push [OF ne, of u]
    have d: "distinct (concat ?ks)" using p(3) cc irwfD(5) [OF assms(1)] k64_search_None [OF None] by simp
    have e: "k64_ext (j_k64 J) ?ks" by (rule k64_ext_trans [OF ex p(1)])
    have s: "same_ir (J\<lparr>j_k64 := ?ks\<rparr>) J'" by (simp add: J' same_ir_def)
    show ?thesis using irwf_k64 [OF assms(1) e d s] p(4,5) by (simp add: J' same_env_def same_regs_def)
  qed
  then show "irwf J'" "ir_keeps J J'" "same_env J J'" "same_regs J J'" "j_nins J' = j_nins J" "j_nk J' = j_nk J" "j_ir J' = j_ir J"
    "k64_addr (j_k64 J') a" "k64_val (j_k64 J') a = u" by blast+
qed

section \<open>Interning of integers\<close>

text \<open>A constant was found or added, nothing else changed.\<close>

definition k_added :: "jit \<Rightarrow> jit \<Rightarrow> nat \<Rightarrow> bool" where
  "k_added J J' r \<longleftrightarrow> irwf J' \<and> ir_keeps J J' \<and> same_env J J' \<and> same_regs J J' \<and> j_nins J' = j_nins J \<and>
     (\<forall>s. ir_valid J s \<longrightarrow> j_ir J' s = j_ir J s) \<and> ir_valid J' r \<and> r < REF_BIAS"

lemma kint_ok:
  assumes "irwf J"
  shows "ok_oob (\<lambda>(J', r). k_added J J' r \<and> ir_o (j_ir J' r) = IR_KINT \<and> ir_i (j_ir J' r) = k) (lj_ir_kint J k)"
  unfolding lj_ir_kint_def
  by (rule okr_weaken [OF internk_ok [OF assms]])
     (auto simp: kop_def kins_ok_def IRT_def same_k_def k_added_def)

lemma k64_ok:
  assumes "irwf J" "op = IR_KINT64 \<or> op = IR_KNUM" "k64_addr (j_k64 J) a"
  shows "ok_oob (\<lambda>(J', r). k_added J J' r \<and> ir_o (j_ir J' r) = op \<and> ir_k (j_ir J' r) = a \<and> j_k64 J' = j_k64 J)
    (lj_ir_k64 J op a)"
  unfolding lj_ir_k64_def
  by (rule okr_weaken [OF internk_ok [OF assms(1)]])
     (use assms in \<open>auto simp: kop_def kins_ok_def IRT_def same_k_def k_added_def\<close>)

lemma k_added_trans:
  assumes "irwf J1" "ir_keeps J J1" "same_env J J1" "same_regs J J1" "j_nins J1 = j_nins J" "j_nk J1 = j_nk J" "j_ir J1 = j_ir J"
    "k_added J1 J' r"
  shows "k_added J J' r"
proof -
  have "ir_valid J1 = ir_valid J" using assms(5,6) by (simp add: ir_valid_def fun_eq_iff)
  then show ?thesis using assms by (auto simp: k_added_def same_regs_def intro: ir_keeps_trans same_env_trans)
qed

lemma kint64_ok:
  assumes "irwf J"
  shows "ok_oob (\<lambda>(J', r). k_added J J' r \<and> ir_o (j_ir J' r) = IR_KINT64 \<and>
    k64_val (j_k64 J') (ir_k (j_ir J' r)) = u) (lj_ir_kint64 J u)"
proof -
  obtain J1 a where f: "lj_ir_k64_find J u = (J1, a)" by (cases "lj_ir_k64_find J u")
  note g = k64_find_ok [OF assms f]
  show ?thesis
    unfolding lj_ir_kint64_def f prod.case
    by (rule okr_weaken [OF k64_ok [OF g(1) disjI1 [OF refl] g(8)]])
       (use g k_added_trans [OF g(1-7)] in auto)
qed

lemma knum_ok:
  assumes "irwf J"
  shows "ok_oob (\<lambda>(J', r). k_added J J' r \<and> ir_o (j_ir J' r) = IR_KNUM \<and>
    k64_val (j_k64 J') (ir_k (j_ir J' r)) = u) (lj_ir_knum_u64 J u)"
proof -
  obtain J1 a where f: "lj_ir_k64_find J u = (J1, a)" by (cases "lj_ir_k64_find J u")
  note g = k64_find_ok [OF assms f]
  show ?thesis
    unfolding lj_ir_knum_u64_def f prod.case
    by (rule okr_weaken [OF k64_ok [OF g(1) disjI2 [OF refl] g(8)]])
       (use g k_added_trans [OF g(1-7)] in auto)
qed

section \<open>Emitting an instruction\<close>

lemma add_ins_wf:
  assumes wf: "irwf J" and r: "j_nins J < REF_DROP"
    and k: "\<not> kop (ir_o i)" "ir_prev i = j_chain J (ir_o i)" "ir_op1 i < j_nins J" "ir_op2 i < j_nins J"
    and f: "j_nk J' = j_nk J" "j_ir J' = (j_ir J)(j_nins J := i)"
      "j_chain J' = (j_chain J)(ir_o i := j_nins J)" "j_nins J' = j_nins J + 1" "j_k64 J' = j_k64 J"
      "j_irbotlim J' \<le> j_nk J" "j_nins J + 1 \<le> j_irtoplim J'"
  shows "irwf J' \<and> ir_keeps J J'"
proof -
  let ?r = "j_nins J"
  have b: "REF_LIT \<le> j_nk J" "j_nk J \<le> REF_TRUE" "REF_BIAS < j_nins J" "j_nins J \<le> REF_DROP"
    using irwfD(1) [OF wf] by (simp_all add: ir_bounds_def)
  have rb: "REF_BIAS \<le> ?r" "?r \<noteq> 0" "j_nk J \<le> ?r" using b ref_defs by linarith+
  have v: "ir_valid J' s \<longleftrightarrow> s = ?r \<or> ir_valid J s" for s
    using f(1,4) rb by (auto simp: ir_valid_def)
  have nv: "\<not> ir_valid J ?r" by (simp add: ir_valid_def)
  have old: "j_ir J' s = j_ir J s" if "ir_valid J s" for s using that nv f(2) by auto
  have new: "j_ir J' ?r = i" using f(2) by simp
  have kk: "kins_ok J' = kins_ok J" by (rule ext) (simp only: kins_ok_def f(5))
  have pri: "ir_o i \<noteq> IR_KPRI" using k(1) by (auto simp: kop_def)
  have cr: "chain_refs J' op = (if op = ir_o i then insert ?r (chain_refs J op) else chain_refs J op)" for op
  proof -
    have "s \<in> chain_refs J' op \<longleftrightarrow> (s = ?r \<and> op = ir_o i) \<or> s \<in> chain_refs J op" for s
    proof (cases "s = ?r")
      case True
      then show ?thesis using f(1,4) new pri rb by (auto simp: chain_refs_def)
    next
      case False
      then show ?thesis using v [of s] f(1,2,4) by (auto simp: chain_refs_def)
    qed
    then show ?thesis by auto
  qed
  have below: "\<And>y. y \<in> chain_refs J op \<Longrightarrow> y < ?r" for op by (auto simp: chain_refs_def)
  have ch: "chain_ok J' op" for op
  proof (cases "op = ir_o i")
    case True
    show ?thesis unfolding True
    proof (rule chain_push [where r = ?r and ir' = "j_ir J'" and J = J])
      show "chain_ok J (ir_o i)" by (rule irwfD(4) [OF wf])
      show "\<And>y. y \<in> chain_refs J (ir_o i) \<Longrightarrow> j_ir J' y = j_ir J y" using old chain_refs_valid by blast
      show "\<And>y. y \<in> chain_refs J (ir_o i) \<Longrightarrow> if kop (ir_o i) then ?r < y else y < ?r"
        using below k(1) by simp
    qed (use rb k new cr [of "ir_o i"] f(3) in simp_all)
  next
    case False
    show ?thesis
      by (rule chain_other [OF irwfD(4) [OF wf]]) (use False cr [of op] f(3) old chain_refs_valid in auto)
  qed
  have ko: "ir_valid J s" "j_ir J' s = j_ir J s" if "ir_valid J' s" "s < REF_BIAS" for s
    using that v [of s] old rb(1) by auto
  have "ir_bounds J'" unfolding ir_bounds_def f(1,4) using f(6,7) b r by linarith
  moreover have "kins_ok J' (j_ir J' s)" if "ir_valid J' s" "s < REF_BIAS" for s
    using ko [OF that] irwfD(2) [OF wf] that kk by simp
  moreover have "\<not> kop (ir_o (j_ir J' s)) \<and> ir_op1 (j_ir J' s) < s \<and> ir_op2 (j_ir J' s) < s"
    if "ir_valid J' s" "REF_BIAS \<le> s" for s
  proof (cases "s = ?r")
    case True
    then show ?thesis using new k by simp
  next
    case False
    then have "ir_valid J s" using that v [of s] by auto
    then show ?thesis using irwfD(3) [OF wf] that(2) old by simp
  qed
  moreover have "distinct (concat (j_k64 J'))" using irwfD(5) [OF wf] f(5) by simp
  moreover have "x = y" if "ir_valid J' x" "ir_valid J' y" "x < REF_BIAS" "y < REF_BIAS" "same_k (j_ir J' x) (j_ir J' y)" for x y
    using ko that irwfD(6) [OF wf] by metis
  ultimately have "irwf J'" using ch by (intro irwfI) blast+
  moreover have "ir_keeps J J'" using f old by (simp add: ir_keeps_def)
  ultimately show ?thesis by simp
qed

text \<open>An instruction was added at the end.\<close>

definition ins_added :: "jit \<Rightarrow> jit \<Rightarrow> nat \<Rightarrow> bool" where
  "ins_added J J' r \<longleftrightarrow> irwf J' \<and> ir_keeps J J' \<and> same_env J J' \<and> r = j_nins J \<and> j_nins J' = r + 1 \<and>
     r < REF_DROP \<and> j_nk J' = j_nk J \<and> j_k64 J' = j_k64 J \<and> (\<forall>s. ir_valid J s \<longrightarrow> j_ir J' s = j_ir J s) \<and>
     ir_o (j_ir J' r) = ir_o (j_fins J) \<and> ir_t (j_ir J' r) = ir_t (j_fins J) \<and>
     ir_op1 (j_ir J' r) = ir_op1 (j_fins J) \<and> ir_op2 (j_ir J' r) = ir_op2 (j_fins J) \<and>
     j_irbotlim J' \<le> j_nk J' \<and> r < j_irtoplim J' \<and>
     j_guardemit J' = (j_guardemit J \<or> irt_guard (ir_t (j_fins J)))"

lemma emit_ok:
  assumes wf: "irwf J" and o: "\<not> kop (ir_o (j_fins J))" "ir_op1 (j_fins J) < j_nins J" "ir_op2 (j_fins J) < j_nins J"
  shows "ok_oob (\<lambda>(J', r). ins_added J J' r) (lj_ir_emit J)"
  unfolding lj_ir_emit_def
proof (rule okr_bind [OF nextins_ok [OF irwfD(1) [OF wf]]])
  fix x :: "jit \<times> nat"
  obtain J1 r where x: "x = (J1, r)" by (cases x)
  assume "case x of (J', r) \<Rightarrow> r = j_nins J \<and> r < REF_DROP \<and>
     J' = J\<lparr>j_nins := r + 1, j_irbotlim := j_irbotlim J', j_irtoplim := j_irtoplim J'\<rparr> \<and>
     j_irbotlim J' \<le> j_nk J \<and> r + 1 \<le> j_irtoplim J'"
  then have "r = j_nins J \<and> r < REF_DROP \<and>
     J1 = J\<lparr>j_nins := r + 1, j_irbotlim := j_irbotlim J1, j_irtoplim := j_irtoplim J1\<rparr> \<and>
     j_irbotlim J1 \<le> j_nk J \<and> r + 1 \<le> j_irtoplim J1"
    unfolding x prod.case .
  then have n: "r = j_nins J" "r < REF_DROP" "j_irbotlim J1 \<le> j_nk J" "r + 1 \<le> j_irtoplim J1"
    and e: "J1 = J\<lparr>j_nins := r + 1, j_irbotlim := j_irbotlim J1, j_irtoplim := j_irtoplim J1\<rparr>"
    by blast+
  have sel: "j_fins J1 = j_fins J" "j_chain J1 = j_chain J" "j_ir J1 = j_ir J" "j_guardemit J1 = j_guardemit J"
    by (subst e, simp)+
  define f where "f = j_fins J"
  define i where "i = (j_ir J r)\<lparr>ir_prev := j_chain J (ir_o f), ir_o := ir_o f, ir_op1 := ir_op1 f,
    ir_op2 := ir_op2 f, ir_t := ir_t f\<rparr>"
  define J2 where "J2 = J1\<lparr>j_ir := (j_ir J)(r := i), j_chain := (j_chain J)(ir_o f := r),
    j_guardemit := (j_guardemit J \<or> irt_guard (ir_t f))\<rparr>"
  have g: "j_nk J2 = j_nk J" "j_ir J2 = (j_ir J)(j_nins J := i)" "j_nins J2 = j_nins J + 1"
    "j_k64 J2 = j_k64 J" "j_irbotlim J2 = j_irbotlim J1" "j_irtoplim J2 = j_irtoplim J1"
    "same_env J J2" "j_chain J2 = (j_chain J)(ir_o i := j_nins J)"
    "j_guardemit J2 = (j_guardemit J \<or> irt_guard (ir_t f))"
    unfolding J2_def by (subst e, simp add: n(1) same_env_def i_def)+
  have i: "ir_o i = ir_o f" "ir_t i = ir_t f" "ir_op1 i = ir_op1 f" "ir_op2 i = ir_op2 f"
    "ir_prev i = j_chain J (ir_o i)" by (simp_all add: i_def)
  have w: "irwf J2 \<and> ir_keeps J J2"
    by (rule add_ins_wf [where i = i, OF wf]) (use i o g n in \<open>simp_all add: f_def\<close>)
  have old: "\<forall>s. ir_valid J s \<longrightarrow> j_ir J2 s = j_ir J s"
    using g(2) by (auto simp: ir_valid_def)
  have new: "j_ir J2 r = i" using g(2) n(1) by simp
  have E: "(case x of (J, ref) \<Rightarrow> let fins = j_fins J; op = ir_o fins;
       ir = (j_ir J ref)\<lparr>ir_prev := j_chain J op, ir_o := op, ir_op1 := ir_op1 fins, ir_op2 := ir_op2 fins, ir_t := ir_t fins\<rparr>
     in Inr (J\<lparr>j_ir := (j_ir J)(ref := ir), j_chain := (j_chain J)(op := ref),
               j_guardemit := (j_guardemit J \<or> irt_guard (ir_t fins))\<rparr>, ref)) = Inr (J2, r)"
    by (simp add: x Let_def i_def J2_def sel f_def)
  show "ok_oob (\<lambda>(J', r). ins_added J J' r) (case x of (J, ref) \<Rightarrow> let fins = j_fins J; op = ir_o fins;
       ir = (j_ir J ref)\<lparr>ir_prev := j_chain J op, ir_o := op, ir_op1 := ir_op1 fins, ir_op2 := ir_op2 fins, ir_t := ir_t fins\<rparr>
     in Inr (J\<lparr>j_ir := (j_ir J)(ref := ir), j_chain := (j_chain J)(op := ref),
               j_guardemit := (j_guardemit J \<or> irt_guard (ir_t fins))\<rparr>, ref))"
    unfolding E okr_simps prod.case ins_added_def new i f_def [symmetric]
    using w g(1,3-7,9) old n by simp
qed

section \<open>Rollback\<close>

lemma rollback_loop_sel:
  "j_ir (rollback_loop n J) = j_ir J" "j_nk (rollback_loop n J) = j_nk J" "j_nins (rollback_loop n J) = j_nins J - n"
  by (induction n arbitrary: J) (simp_all add: Let_def)

text \<open>Undoing one instruction: the chain of its opcode loses its head.\<close>

lemma rollback1:
  assumes wf: "irwf J" and n: "REF_BIAS + 1 < j_nins J"
    and f: "J' = J\<lparr>j_nins := j_nins J - 1, j_chain := (j_chain J)(ir_o (j_ir J (j_nins J - 1)) := ir_prev (j_ir J (j_nins J - 1)))\<rparr>"
  shows "irwf J'"
proof -
  let ?r = "j_nins J - 1"
  let ?op = "ir_o (j_ir J ?r)"
  have b: "REF_LIT \<le> j_nk J" "j_nk J \<le> REF_TRUE" "j_nins J \<le> REF_DROP" "j_irbotlim J \<le> j_nk J" "j_nins J \<le> j_irtoplim J"
    using irwfD(1) [OF wf] by (simp_all add: ir_bounds_def)
  have s: "j_ir J' = j_ir J" "j_nk J' = j_nk J" "j_nins J' = ?r" "j_k64 J' = j_k64 J" "j_irbotlim J' = j_irbotlim J"
    "j_irtoplim J' = j_irtoplim J" "j_chain J' = (j_chain J)(?op := ir_prev (j_ir J ?r))" by (simp_all add: f)
  have rv: "ir_valid J ?r" "REF_BIAS \<le> ?r" using b(2) n ref_defs by (simp_all add: ir_valid_def)
  have v: "ir_valid J' q \<Longrightarrow> ir_valid J q" for q using s(2,3) by (auto simp: ir_valid_def)
  have kk: "kins_ok J' = kins_ok J" by (rule ext) (simp only: kins_ok_def s)
  have nk: "\<not> kop ?op" using irwfD(3) [OF wf rv] by simp
  then have pri: "?op \<noteq> IR_KPRI" by (auto simp: kop_def)
  have cr: "chain_refs J' op = chain_refs J op - {?r}" for op
    using s(1-3) by (auto simp: chain_refs_def)
  have rin: "?r \<in> chain_refs J ?op" using rv pri by (simp add: chain_refs_def ir_valid_def)
  have ch: "chain_ok J' op" for op
  proof (cases "op = ?op")
    case False
    then have "?r \<notin> chain_refs J op" by (auto simp: chain_refs_def)
    then have "chain_refs J' op = chain_refs J op" using cr by blast
    moreover have "j_chain J' op = j_chain J op" unfolding s(7) using False by (rule fun_upd_other)
    ultimately show ?thesis using irwfD(4) [OF wf, of op] by (simp only: chain_ok_def s(1))
  next
    case True
    have nkop: "\<not> kop op" using nk by (simp only: True not_False_eq_True)
    obtain xs where x: "is_chain (j_ir J) (j_chain J op) xs" "set xs = chain_refs J op" "sorted_wrt (>) xs"
      using irwfD(4) [OF wf, of op] nkop unfolding chain_ok_def by (simp only: if_False) blast
    have "?r \<in> set xs" unfolding x(2) True by (rule rin)
    then obtain y ys where xs: "xs = y # ys" by (cases xs) auto
    have le: "q \<le> ?r" if "q \<in> set xs" for q
    proof -
      have "q < j_nins J" using that unfolding x(2) chain_refs_def by blast
      then show ?thesis by linarith
    qed
    have srt: "\<forall>z \<in> set ys. z < y" "sorted_wrt (>) ys" using x(3) unfolding xs by simp_all
    have y: "y = ?r"
    proof (rule ccontr)
      assume c: "y \<noteq> ?r"
      have "?r \<in> set ys" using \<open>?r \<in> set xs\<close> c unfolding xs by auto
      then have "?r < y" using srt(1) by blast
      moreover have "y \<le> ?r" by (rule le) (simp add: xs)
      ultimately show False by linarith
    qed
    have "?r \<notin> set ys" using srt(1) y by blast
    moreover have "insert ?r (set ys) = chain_refs J op" using x(2) unfolding xs y by (simp only: list.set)
    ultimately have ys: "set ys = chain_refs J' op" unfolding cr by blast
    have "is_chain (j_ir J) (ir_prev (j_ir J y)) ys" using x(1) unfolding xs by (simp only: is_chain.simps)
    moreover have "j_chain J' op = ir_prev (j_ir J y)" unfolding s(7) y True by (rule fun_upd_same)
    ultimately have "is_chain (j_ir J') (j_chain J' op) ys" by (simp only: s(1))
    then show ?thesis using nkop ys srt(2) unfolding chain_ok_def by (simp only: if_False) blast
  qed
  show ?thesis
  proof (rule irwfI)
    show "ir_bounds J'" unfolding ir_bounds_def s using b n by linarith
    show "kins_ok J' (j_ir J' q)" if "ir_valid J' q" "q < REF_BIAS" for q
      unfolding kk s(1) using irwfD(2) [OF wf v [OF that(1)] that(2)] .
    show "\<not> kop (ir_o (j_ir J' q)) \<and> ir_op1 (j_ir J' q) < q \<and> ir_op2 (j_ir J' q) < q"
      if "ir_valid J' q" "REF_BIAS \<le> q" for q
      unfolding s(1) using irwfD(3) [OF wf v [OF that(1)] that(2)] .
    show "distinct (concat (j_k64 J'))" unfolding s(4) by (rule irwfD(5) [OF wf])
    show "x = y" if "ir_valid J' x" "ir_valid J' y" "x < REF_BIAS" "y < REF_BIAS" "same_k (j_ir J' x) (j_ir J' y)" for x y
      using that v irwfD(6) [OF wf] s(1) by metis
  qed (rule ch)
qed

lemma rollback_loop_wf: "irwf J \<Longrightarrow> REF_BIAS + n < j_nins J \<Longrightarrow> irwf (rollback_loop n J)"
proof (induction n arbitrary: J)
  case (Suc n)
  let ?J = "J\<lparr>j_nins := j_nins J - 1, j_chain := (j_chain J)(ir_o (j_ir J (j_nins J - 1)) := ir_prev (j_ir J (j_nins J - 1)))\<rparr>"
  have "irwf ?J" by (rule rollback1 [OF Suc.prems(1) _ refl]) (use Suc.prems(2) in simp)
  then have "irwf (rollback_loop n ?J)" by (rule Suc.IH) (use Suc.prems(2) in simp)
  then show ?case by (simp add: Let_def)
qed simp

text \<open>The head of a chain is determined by the instructions.\<close>

lemma chain_head_unique:
  assumes "chain_ok J op" "chain_ok J' op" "chain_refs J op = chain_refs J' op"
  shows "j_chain J op = j_chain J' op"
proof -
  have hd: "is_chain ir r xs \<Longrightarrow> r = (case xs of [] \<Rightarrow> 0 | x # _ \<Rightarrow> x)" for ir r xs by (cases xs) auto
  obtain xs where x: "is_chain (j_ir J) (j_chain J op) xs" "set xs = chain_refs J op"
    "if kop op then sorted_wrt (<) xs else sorted_wrt (>) xs" using assms(1) unfolding chain_ok_def by blast
  obtain ys where y: "is_chain (j_ir J') (j_chain J' op) ys" "set ys = chain_refs J' op"
    "if kop op then sorted_wrt (<) ys else sorted_wrt (>) ys" using assms(2) unfolding chain_ok_def by blast
  have eq: "set xs = set ys" using x(2) y(2) assms(3) by simp
  have "xs = ys"
  proof (cases "kop op")
    case True
    then show ?thesis using x(3) y(3) eq by (simp add: strict_sorted_equal)
  next
    case False
    then have "sorted_wrt (<) (rev xs)" "sorted_wrt (<) (rev ys)" using x(3) y(3) by (simp_all add: sorted_wrt_rev)
    then have "rev xs = rev ys" using strict_sorted_equal eq by (metis set_rev)
    then show ?thesis by simp
  qed
  then show ?thesis using hd [OF x(1)] hd [OF y(1)] by simp
qed

end
