(* ===== verification/LJ_IRSem.thy ===== *)
theory LJ_IRSem
  imports LJ_Fold LJ_IROps
begin

text \<open>
  The meaning of integer instructions on x64 (LJ_DUALNUM is 0): the value of a reference for
  given results of the instructions that are not treated here (loads, calls, numbers), the
  truth of guards, and the typing of the operands.  32-bit values are kept zero-extended, the
  way the machine registers hold them; the count of a shift is masked.
\<close>

section \<open>Integer instructions\<close>

datatype opclass = OCmp | OAbc | OConv | OBun | OShift | OBit | ORing | O32 | OOther

definition opcl :: "irop \<Rightarrow> opclass" where
  "opcl op =
     (if op \<in> {IR_LT, IR_GE, IR_LE, IR_GT, IR_ULT, IR_UGE, IR_ULE, IR_UGT, IR_EQ, IR_NE} then OCmp
      else if op = IR_ABC then OAbc
      else if op = IR_CONV then OConv
      else if op \<in> {IR_BNOT, IR_BSWAP} then OBun
      else if op \<in> {IR_BSHL, IR_BSHR, IR_BSAR, IR_BROL, IR_BROR} then OShift
      else if op \<in> {IR_BAND, IR_BOR, IR_BXOR} then OBit
      else if op \<in> {IR_ADD, IR_SUB, IR_MUL, IR_NEG} then ORing
      else if op \<in> {IR_MIN, IR_MAX, IR_MOD, IR_ADDOV, IR_SUBOV, IR_MULOV} then O32
      else OOther)"

lemma opcl_simps [simp]:
  "opcl IR_LT = OCmp" "opcl IR_GE = OCmp" "opcl IR_LE = OCmp" "opcl IR_GT = OCmp" "opcl IR_ULT = OCmp"
  "opcl IR_UGE = OCmp" "opcl IR_ULE = OCmp" "opcl IR_UGT = OCmp" "opcl IR_EQ = OCmp" "opcl IR_NE = OCmp"
  "opcl IR_ABC = OAbc" "opcl IR_CONV = OConv" "opcl IR_BNOT = OBun" "opcl IR_BSWAP = OBun"
  "opcl IR_BSHL = OShift" "opcl IR_BSHR = OShift" "opcl IR_BSAR = OShift" "opcl IR_BROL = OShift"
  "opcl IR_BROR = OShift" "opcl IR_BAND = OBit" "opcl IR_BOR = OBit" "opcl IR_BXOR = OBit"
  "opcl IR_ADD = ORing" "opcl IR_SUB = ORing" "opcl IR_MUL = ORing" "opcl IR_NEG = ORing"
  "opcl IR_MIN = O32" "opcl IR_MAX = O32" "opcl IR_MOD = O32" "opcl IR_ADDOV = O32" "opcl IR_SUBOV = O32"
  "opcl IR_MULOV = O32" "opcl IR_XLOAD = OOther"
  by (simp_all add: opcl_def)

lemma opcl_iff:
  "opcl op = OAbc \<longleftrightarrow> op = IR_ABC" "opcl op = OConv \<longleftrightarrow> op = IR_CONV"
  "opcl op = OBun \<longleftrightarrow> op = IR_BNOT \<or> op = IR_BSWAP"
  by (auto simp: opcl_def)

definition scmp :: "irop \<Rightarrow> bool" where
  "scmp op \<longleftrightarrow> op = IR_LT \<or> op = IR_GE \<or> op = IR_LE \<or> op = IR_GT"

definition ovop :: "irop \<Rightarrow> bool" where
  "ovop op \<longleftrightarrow> op = IR_ADDOV \<or> op = IR_SUBOV \<or> op = IR_MULOV"

definition a32 :: "irtype \<Rightarrow> bool" where "a32 t \<longleftrightarrow> t = IRT_INT \<or> t = IRT_U32"

text \<open>Conversions between integers, by their literal.\<close>

definition conv64 :: "nat \<Rightarrow> bool" where
  "conv64 lit \<longleftrightarrow> irconv_dst lit = irt_num IRT_I64 \<or> irconv_dst lit = irt_num IRT_U64"

definition conv32 :: "nat \<Rightarrow> bool" where
  "conv32 lit \<longleftrightarrow> irconv_dst lit = irt_num IRT_INT \<or> irconv_dst lit = irt_num IRT_U32"

definition src64 :: "nat \<Rightarrow> bool" where
  "src64 lit \<longleftrightarrow> irconv_src lit = irt_num IRT_I64 \<or> irconv_src lit = irt_num IRT_U64"

definition src32 :: "nat \<Rightarrow> bool" where
  "src32 lit \<longleftrightarrow> irconv_src lit = irt_num IRT_INT \<or> irconv_src lit = irt_num IRT_U32"

definition src_small :: "nat \<Rightarrow> bool" where
  "src_small lit \<longleftrightarrow> irconv_src lit \<in> {irt_num IRT_I8, irt_num IRT_U8, irt_num IRT_I16, irt_num IRT_U16}"

definition int_conv :: "nat \<Rightarrow> bool" where
  "int_conv lit \<longleftrightarrow> conv32 lit \<and> (src64 lit \<or> src32 lit \<or> src_small lit) \<or> conv64 lit \<and> src32 lit"

text \<open>The instructions that have a meaning here.\<close>

definition sem_ins :: "irins \<Rightarrow> bool" where
  "sem_ins i =
     (case opcl (ir_o i) of
        OAbc \<Rightarrow> True
      | OConv \<Rightarrow> int_conv (ir_op2 i)
      | O32 \<Rightarrow> a32 (irt_ty (ir_t i))
      | OOther \<Rightarrow> False
      | _ \<Rightarrow> a32 (irt_ty (ir_t i)) \<or> w64 (irt_ty (ir_t i)))"

definition pure_guard :: "irop \<Rightarrow> bool" where "pure_guard op \<longleftrightarrow> opcl op = OCmp \<or> opcl op = OAbc"

definition val_ins :: "irins \<Rightarrow> bool" where
  "val_ins i \<longleftrightarrow> sem_ins i \<and> \<not> pure_guard (ir_o i)"

definition wide :: "irins \<Rightarrow> bool" where "wide i = w64 (irt_ty (ir_t i))"

section \<open>Values\<close>

definition shc :: "'a::len word \<Rightarrow> nat" where "shc b = unat b mod LENGTH('a)"

definition arith :: "irop \<Rightarrow> 'a::len word \<Rightarrow> 'a word \<Rightarrow> 'a word" where
  "arith op a b =
     (if op = IR_ADD \<or> op = IR_ADDOV then a + b
      else if op = IR_SUB \<or> op = IR_SUBOV then a - b
      else if op = IR_MUL \<or> op = IR_MULOV then a * b
      else if op = IR_NEG then - a
      else if op = IR_BAND then a AND b
      else if op = IR_BOR then a OR b
      else if op = IR_BXOR then a XOR b
      else if op = IR_BNOT then NOT a
      else if op = IR_BSHL then push_bit (shc b) a
      else if op = IR_BSHR then drop_bit (shc b) a
      else if op = IR_BSAR then signed_drop_bit (shc b) a
      else if op = IR_BROL then word_rotl (shc b) a
      else if op = IR_BROR then word_rotr (shc b) a
      else if op = IR_MIN then (if sint a < sint b then a else b)
      else if op = IR_MAX then (if sint b < sint a then a else b)
      else if op = IR_MOD then of_int (sint a mod sint b)
      else 0)"

lemma arith_simps [simp]:
  "arith IR_ADD a b = a + b" "arith IR_SUB a b = a - b" "arith IR_MUL a b = a * b"
  "arith IR_ADDOV a b = a + b" "arith IR_SUBOV a b = a - b" "arith IR_MULOV a b = a * b"
  "arith IR_NEG a b = - a" "arith IR_BAND a b = a AND b" "arith IR_BOR a b = a OR b"
  "arith IR_BXOR a b = a XOR b" "arith IR_BNOT a b = NOT a"
  "arith IR_BSHL a b = push_bit (shc b) a" "arith IR_BSHR a b = drop_bit (shc b) a"
  "arith IR_BSAR a b = signed_drop_bit (shc b) a" "arith IR_BROL a b = word_rotl (shc b) a"
  "arith IR_BROR a b = word_rotr (shc b) a" "arith IR_MIN a b = (if sint a < sint b then a else b)"
  "arith IR_MAX a b = (if sint b < sint a then a else b)" "arith IR_MOD a b = of_int (sint a mod sint b)"
  by (simp_all add: arith_def)

text \<open>Conversions: from the small types, then to 64 or 32 bits.\<close>

definition convval :: "nat \<Rightarrow> u64 \<Rightarrow> u64" where
  "convval lit a =
     (let s = irconv_src lit in
      if s = irt_num IRT_I8 then ucast (scast (ucast a :: 8 word) :: u32)
      else if s = irt_num IRT_U8 then ucast (ucast a :: 8 word)
      else if s = irt_num IRT_I16 then ucast (scast (ucast a :: 16 word) :: u32)
      else if s = irt_num IRT_U16 then ucast (ucast a :: 16 word)
      else if conv64 lit \<and> irconv_sext lit then scast (ucast a :: u32)
      else ucast (ucast a :: u32))"

definition opval :: "irins \<Rightarrow> u64 \<Rightarrow> u64 \<Rightarrow> u64" where
  "opval i a b =
     (if ir_o i = IR_CONV then convval (ir_op2 i) a
      else if ir_o i = IR_BSWAP then (if wide i then lj_bswap64 a else ucast (lj_bswap (ucast a)))
      else if wide i then arith (ir_o i) a b
      else ucast (arith (ir_o i) (ucast a :: u32) (ucast b)))"

text \<open>The results of the other instructions, cut to their types.\<close>

definition opq :: "irtype \<Rightarrow> u64 \<Rightarrow> u64" where
  "opq t v = (if t = IRT_U8 then ucast (ucast v :: 8 word)
              else if t = IRT_U16 then ucast (ucast v :: 16 word)
              else if w32 t then ucast (ucast v :: u32) else v)"

definition kval :: "jit \<Rightarrow> irins \<Rightarrow> u64" where
  "kval J i = (if ir_o i = IR_KINT then ucast (ir_i i)
               else if ir_o i = IR_KINT64 then k64_val (j_k64 J) (ir_k i) else 0)"

function den :: "jit \<Rightarrow> (nat \<Rightarrow> u64) \<Rightarrow> nat \<Rightarrow> u64" where
  "den J \<rho> r =
     (let i = j_ir J r in
      if r < REF_BIAS then kval J i
      else if val_ins i \<and> ir_op1 i < r \<and> ir_op2 i < r
      then opval i (den J \<rho> (ir_op1 i)) (den J \<rho> (ir_op2 i))
      else opq (irt_ty (ir_t i)) (\<rho> r))"
  by pat_completeness auto
termination
  by (relation "measure (\<lambda>(J, \<rho>, r). r)") auto

declare den.simps [simp del]

definition ival :: "jit \<Rightarrow> (nat \<Rightarrow> u64) \<Rightarrow> irins \<Rightarrow> u64" where
  "ival J \<rho> i = opval i (den J \<rho> (ir_op1 i)) (den J \<rho> (ir_op2 i))"

section \<open>Guards\<close>

definition cmpval :: "irop \<Rightarrow> 'a::len word \<Rightarrow> 'a word \<Rightarrow> bool" where
  "cmpval op a b =
     (if op = IR_LT then sint a < sint b
      else if op = IR_GE then sint a \<ge> sint b
      else if op = IR_LE then sint a \<le> sint b
      else if op = IR_GT then sint a > sint b
      else if op = IR_ULT then a < b
      else if op = IR_UGE then a \<ge> b
      else if op = IR_ULE then a \<le> b
      else if op = IR_UGT then a > b
      else if op = IR_EQ then a = b
      else if op = IR_NE then a \<noteq> b
      else True)"

lemma cmpval_simps [simp]:
  "cmpval IR_LT a b \<longleftrightarrow> sint a < sint b" "cmpval IR_GE a b \<longleftrightarrow> sint a \<ge> sint b"
  "cmpval IR_LE a b \<longleftrightarrow> sint a \<le> sint b" "cmpval IR_GT a b \<longleftrightarrow> sint a > sint b"
  "cmpval IR_ULT a b \<longleftrightarrow> a < b" "cmpval IR_UGE a b \<longleftrightarrow> a \<ge> b" "cmpval IR_ULE a b \<longleftrightarrow> a \<le> b"
  "cmpval IR_UGT a b \<longleftrightarrow> a > b" "cmpval IR_EQ a b \<longleftrightarrow> a = b" "cmpval IR_NE a b \<longleftrightarrow> a \<noteq> b"
  by (simp_all add: cmpval_def)

definition noov :: "irop \<Rightarrow> u32 \<Rightarrow> u32 \<Rightarrow> bool" where
  "noov op a b =
     (let n = (if op = IR_ADDOV then sint a + sint b else if op = IR_SUBOV then sint a - sint b
               else sint a * sint b)
      in - (2 ^ 31) \<le> n \<and> n < 2 ^ 31)"

definition gval :: "irins \<Rightarrow> u64 \<Rightarrow> u64 \<Rightarrow> bool" where
  "gval i a b =
     (if ir_o i = IR_ABC then (ucast b :: u32) < ucast a
      else if opcl (ir_o i) = OCmp
      then (if wide i then cmpval (ir_o i) a b else cmpval (ir_o i) (ucast a :: u32) (ucast b))
      else if ovop (ir_o i) then noov (ir_o i) (ucast a) (ucast b)
      else True)"

definition gok :: "jit \<Rightarrow> (nat \<Rightarrow> u64) \<Rightarrow> irins \<Rightarrow> bool" where
  "gok J \<rho> i = gval i (den J \<rho> (ir_op1 i)) (den J \<rho> (ir_op2 i))"

text \<open>All guards of the trace hold.\<close>

definition tr :: "jit \<Rightarrow> (nat \<Rightarrow> u64) \<Rightarrow> bool" where
  "tr J \<rho> \<longleftrightarrow> (\<forall>r. ir_valid J r \<and> REF_BIAS \<le> r \<and> sem_ins (j_ir J r) \<longrightarrow> gok J \<rho> (j_ir J r))"

section \<open>Typing\<close>

abbreviation ity :: "jit \<Rightarrow> nat \<Rightarrow> irtype" where "ity J r \<equiv> irt_ty (ir_t (j_ir J r))"

text \<open>Operands of the width of the instruction; the 32-bit constant 0 also occurs in some 64-bit instructions.\<close>

definition os :: "jit \<Rightarrow> bool \<Rightarrow> nat \<Rightarrow> bool" where
  "os J w r \<longleftrightarrow> ir_valid J r \<and> (if w then w64 (ity J r) else w32 (ity J r))"

definition k0 :: "jit \<Rightarrow> nat \<Rightarrow> bool" where
  "k0 J r \<longleftrightarrow> ir_valid J r \<and> ir_o (j_ir J r) = IR_KINT \<and> ir_i (j_ir J r) = 0"

definition oz :: "jit \<Rightarrow> bool \<Rightarrow> nat \<Rightarrow> bool" where
  "oz J w r \<longleftrightarrow> os J w r \<or> w \<and> k0 J r"

definition opnds_ok :: "jit \<Rightarrow> irins \<Rightarrow> bool" where
  "opnds_ok J i =
     (let w = wide i; a = ir_op1 i; b = ir_op2 i in
      case opcl (ir_o i) of
        OAbc \<Rightarrow> os J False a \<and> os J False b \<and> (irref_isk b \<longrightarrow> 0 \<le> sint (ir_i (j_ir J b)))
      | OConv \<Rightarrow> b < REF_LIT \<and> (if conv64 b then w64 (irt_ty (ir_t i)) else a32 (irt_ty (ir_t i))) \<and>
          oz J (src64 b) a
      | OBun \<Rightarrow> os J w a \<and> b = 0
      | OShift \<Rightarrow> oz J w a \<and> os J False b
      | ORing \<Rightarrow> oz J w a \<and> oz J w b
      | O32 \<Rightarrow> os J False a \<and> os J False b
      | _ \<Rightarrow> os J w a \<and> os J w b)"

text \<open>The constant folding rules leave no 64-bit instruction with only 32-bit operands.\<close>

definition strict :: "jit \<Rightarrow> irins \<Rightarrow> bool" where
  "strict J i \<longleftrightarrow> \<not> (wide i \<and> (opcl (ir_o i) = ORing \<and> k0 J (ir_op1 i) \<and> k0 J (ir_op2 i) \<or>
     opcl (ir_o i) = OShift \<and> k0 J (ir_op1 i)))"

definition ins_ok :: "jit \<Rightarrow> irins \<Rightarrow> bool" where
  "ins_ok J i \<longleftrightarrow>
     (if sem_ins i then opnds_ok J i \<and> strict J i
      else (case opcl (ir_o i) of
              OConv \<Rightarrow> w32 (irt_ty (ir_t i)) \<or> w64 (irt_ty (ir_t i)) \<longrightarrow> \<not> src32 (ir_op2 i)
            | OOther \<Rightarrow> True
            | O32 \<Rightarrow> \<not> w32 (irt_ty (ir_t i)) \<and> ir_valid J (ir_op1 i) \<and> \<not> os J False (ir_op1 i)
            | _ \<Rightarrow> \<not> w32 (irt_ty (ir_t i)) \<and> \<not> w64 (irt_ty (ir_t i)) \<and> ir_valid J (ir_op1 i) \<and>
                 \<not> os J False (ir_op1 i) \<and> \<not> os J True (ir_op1 i)))"

definition jwf :: "jit \<Rightarrow> bool" where
  "jwf J \<longleftrightarrow> irwf J \<and> (\<forall>r. ir_valid J r \<and> REF_BIAS \<le> r \<longrightarrow> ins_ok J (j_ir J r))"

text \<open>An instruction to fold.\<close>

definition fin_ok :: "jit \<Rightarrow> irins \<Rightarrow> bool" where
  "fin_ok J i \<longleftrightarrow> sem_ins i \<and> opnds_ok J i \<and>
     (ir_o i = IR_ABC \<longrightarrow> irt_ty (ir_t i) = IRT_INT) \<and>
     (scmp (ir_o i) \<and> wide i \<longrightarrow> \<not> (irref_isk (ir_op1 i) \<and> irref_isk (ir_op2 i))) \<and>
     (ir_o i = IR_MOD \<longrightarrow> \<not> k0 J (ir_op2 i))"

text \<open>Results of an instruction: a zero-extended load may stand for its extension.\<close>

definition res_ok :: "jit \<Rightarrow> bool \<Rightarrow> nat \<Rightarrow> bool" where
  "res_ok J w r \<longleftrightarrow> oz J w r \<or>
     w \<and> ir_valid J r \<and> ir_o (j_ir J r) = IR_XLOAD \<and> (ity J r = IRT_U8 \<or> ity J r = IRT_U16)"

lemma jwfD: "jwf J \<Longrightarrow> irwf J" "jwf J \<Longrightarrow> ir_valid J r \<Longrightarrow> REF_BIAS \<le> r \<Longrightarrow> ins_ok J (j_ir J r)"
  by (simp_all add: jwf_def)

lemma a32_w: "a32 t \<Longrightarrow> w32 t" "a32 t \<Longrightarrow> \<not> w64 t" "w64 t \<Longrightarrow> \<not> a32 t"
  by (auto simp: a32_def w32_def w64_def)

lemma os_valid: "os J w r \<Longrightarrow> ir_valid J r" "oz J w r \<Longrightarrow> ir_valid J r"
  by (auto simp: os_def oz_def k0_def)

section \<open>Operands are valid\<close>

text \<open>The second operand of these is a literal.\<close>

definition lit2 :: "irop \<Rightarrow> bool" where "lit2 op \<longleftrightarrow> opcl op = OConv \<or> opcl op = OBun"

lemma opval_lit2: "lit2 (ir_o i) \<Longrightarrow> opval i a b = opval i a c"
  by (auto simp: lit2_def opcl_iff opval_def)

lemma opnds_valid:
  assumes "opnds_ok J i"
  shows "ir_valid J (ir_op1 i)" "lit2 (ir_o i) \<Longrightarrow> ir_op2 i < REF_LIT" "\<not> lit2 (ir_o i) \<Longrightarrow> ir_valid J (ir_op2 i)"
  using assms by (auto simp: opnds_ok_def Let_def lit2_def REF_LIT_def split: opclass.splits dest: os_valid)

lemma lit_not_valid: "irwf J \<Longrightarrow> r < REF_LIT \<Longrightarrow> \<not> ir_valid J r"
  using irwfD(1) [of J] by (simp add: ir_valid_def ir_bounds_def)

section \<open>Values stay when the representation is extended\<close>

lemma den_ins:
  assumes "jwf J" "ir_valid J r" "val_ins (j_ir J r)" "REF_BIAS \<le> r"
  shows "den J \<rho> r = ival J \<rho> (j_ir J r)"
proof -
  have "ir_op1 (j_ir J r) < r \<and> ir_op2 (j_ir J r) < r"
    using irwfD(3) [OF jwfD(1) [OF assms(1)] assms(2,4)] by simp
  then show ?thesis using assms(3,4) by (subst den.simps) (simp add: Let_def ival_def)
qed

lemma den_k: "r < REF_BIAS \<Longrightarrow> den J \<rho> r = kval J (j_ir J r)"
  by (subst den.simps) simp

lemma den_opq: "REF_BIAS \<le> r \<Longrightarrow> \<not> val_ins (j_ir J r) \<Longrightarrow> den J \<rho> r = opq (ity J r) (\<rho> r)"
  by (subst den.simps) (simp add: Let_def)

lemma same_ins_sem:
  assumes "same_ins i i'"
  shows "sem_ins i' = sem_ins i" "val_ins i' = val_ins i" "wide i' = wide i"
proof -
  note s = same_insD [OF assms]
  show "sem_ins i' = sem_ins i"
  proof (cases "ir_o i = IR_ABC")
    case True
    then show ?thesis by (simp add: sem_ins_def s(1))
  next
    case False
    then show ?thesis using s(7) by simp
  qed
  then show "val_ins i' = val_ins i" "wide i' = wide i" by (simp_all add: val_ins_def wide_def s(1,2))
qed

lemma val_ins_not_ABC: "val_ins i \<Longrightarrow> ir_o i \<noteq> IR_ABC"
  by (auto simp: val_ins_def pure_guard_def)

lemma kval_keeps:
  assumes "irwf J" "ir_keeps J J'" "ir_valid J r" "r < REF_BIAS"
  shows "kval J' (j_ir J' r) = kval J (j_ir J r)"
proof -
  have k: "kins_ok J (j_ir J r)" by (rule irwfD(2) [OF assms(1,3,4)])
  then have "ir_o (j_ir J r) \<noteq> IR_ABC" by (auto simp: kins_ok_def kop_def)
  then have s: "j_ir J' r = j_ir J r" using same_insD(7) [OF keeps_ins [OF assms(2,3)]] by simp
  show ?thesis
  proof (cases "ir_o (j_ir J r) = IR_KINT64")
    case True
    then have "k64_addr (j_k64 J) (ir_k (j_ir J r))" using k by (simp only: kins_ok_def simp_thms)
    then have "k64_val (j_k64 J') (ir_k (j_ir J r)) = k64_val (j_k64 J) (ir_k (j_ir J r))"
      using assms(2) unfolding ir_keeps_def k64_ext_def by blast
    then show ?thesis by (simp only: kval_def s)
  qed (simp add: kval_def s)
qed

lemma den_keeps:
  assumes wf: "jwf J" "irwf J'" and k: "ir_keeps J J'"
  shows "ir_valid J r \<Longrightarrow> den J' \<rho> r = den J \<rho> r"
proof (induction r rule: less_induct)
  case (less r)
  note s = keeps_ins [OF k less.prems]
  show ?case
  proof (cases "r < REF_BIAS")
    case True
    then show ?thesis using kval_keeps [OF jwfD(1) [OF wf(1)] k less.prems True] by (simp add: den_k)
  next
    case False
    then have b: "REF_BIAS \<le> r" by simp
    show ?thesis
    proof (cases "val_ins (j_ir J r)")
      case False
      then have "\<not> val_ins (j_ir J' r)" using same_ins_sem(2) [OF s] by simp
      then show ?thesis using False b den_opq same_insD(2) [OF s] by simp
    next
      case True
      have i: "j_ir J' r = j_ir J r" using same_insD(7) [OF s] val_ins_not_ABC [OF True] by simp
      have lt: "ir_op1 (j_ir J r) < r" "ir_op2 (j_ir J r) < r"
        using irwfD(3) [OF jwfD(1) [OF wf(1)] less.prems b] by simp_all
      have ok: "opnds_ok J (j_ir J r)"
        using jwfD(2) [OF wf(1) less.prems b] True by (simp add: ins_ok_def val_ins_def)
      have e1: "den J' \<rho> (ir_op1 (j_ir J r)) = den J \<rho> (ir_op1 (j_ir J r))"
        by (rule less.IH [OF lt(1) opnds_valid(1) [OF ok]])
      have e2: "opval (j_ir J r) a (den J' \<rho> (ir_op2 (j_ir J r))) = opval (j_ir J r) a (den J \<rho> (ir_op2 (j_ir J r)))" for a
      proof (cases "lit2 (ir_o (j_ir J r))")
        case False
        then show ?thesis using less.IH [OF lt(2) opnds_valid(3) [OF ok False]] by simp
      qed (rule opval_lit2)
      show ?thesis
        using True b lt e1 e2 by (subst (1 2) den.simps) (simp add: Let_def i)
    qed
  qed
qed

lemma ival_keeps:
  assumes "jwf J" "irwf J'" "ir_keeps J J'" "opnds_ok J i"
  shows "ival J' \<rho> i = ival J \<rho> i" "gok J' \<rho> i = gok J \<rho> i"
proof -
  note d = den_keeps [OF assms(1-3)]
  note v = opnds_valid [OF assms(4)]
  show "ival J' \<rho> i = ival J \<rho> i"
  proof (cases "lit2 (ir_o i)")
    case True
    then show ?thesis unfolding ival_def d [OF v(1)] by (rule opval_lit2 [of i])
  next
    case False
    then show ?thesis by (simp only: ival_def d [OF v(1)] d [OF v(3) [OF False]])
  qed
  show "gok J' \<rho> i = gok J \<rho> i"
  proof (cases "lit2 (ir_o i)")
    case True
    then show ?thesis by (auto simp: gok_def gval_def lit2_def opcl_iff ovop_def)
  next
    case False
    then show ?thesis by (simp only: gok_def d [OF v(1)] d [OF v(3) [OF False]])
  qed
qed

lemma ops_keep:
  assumes "ir_keeps J J'" "ir_valid J r"
  shows "os J' w r = os J w r" "k0 J' r = k0 J r" "oz J' w r = oz J w r" "ity J' r = ity J r"
    "ir_o (j_ir J' r) = ir_o (j_ir J r)" "ir_i (j_ir J' r) = ir_i (j_ir J r)"
proof -
  note s = same_insD [OF keeps_ins [OF assms]] and v = keeps_valid [OF assms]
  show "os J' w r = os J w r" "k0 J' r = k0 J r" using s v assms(2) by (simp_all add: os_def k0_def)
  then show "oz J' w r = oz J w r" by (simp add: oz_def)
qed (rule same_insD [OF keeps_ins [OF assms]]; fail | simp add: same_insD [OF keeps_ins [OF assms]])+

lemma opnds_keep:
  assumes "ir_keeps J J'" "opnds_ok J i"
  shows "opnds_ok J' i"
proof -
  note o1 = ops_keep [OF assms(1) opnds_valid(1) [OF assms(2)]]
  show ?thesis
  proof (cases "lit2 (ir_o i)")
    case True
    then show ?thesis using assms(2) o1 by (auto simp: opnds_ok_def Let_def lit2_def)
  next
    case False
    note o2 = ops_keep [OF assms(1) opnds_valid(3) [OF assms(2) False]]
    show ?thesis using assms(2) False by (simp only: opnds_ok_def Let_def o1 o2)
  qed
qed


section \<open>Extensions\<close>

lemma strict_keep: "ir_keeps J J' \<Longrightarrow> opnds_ok J i \<Longrightarrow> strict J' i = strict J i"
  using ops_keep(2) [of J J' "ir_op1 i"] ops_keep(2) [of J J' "ir_op2 i"] opnds_valid [of J i]
  by (cases "lit2 (ir_o i)") (auto simp: strict_def lit2_def)

lemma ins_ok_keep:
  assumes "ir_keeps J J'" "ins_ok J i"
  shows "ins_ok J' i"
proof (cases "sem_ins i")
  case True
  then show ?thesis using opnds_keep [OF assms(1)] strict_keep [OF assms(1)] assms(2) by (simp add: ins_ok_def)
next
  case False
  show ?thesis
  proof (cases "ir_valid J (ir_op1 i)")
    case True
    then show ?thesis using assms(2) False ops_keep [OF assms(1) True] keeps_valid [OF assms(1) True]
      by (auto simp: ins_ok_def split: opclass.splits)
  next
    case nv: False
    then show ?thesis using assms(2) False by (auto simp: ins_ok_def split: opclass.splits)
  qed
qed

definition ext :: "jit \<Rightarrow> jit \<Rightarrow> bool" where
  "ext J J' \<longleftrightarrow> jwf J' \<and> ir_keeps J J' \<and> same_env J J' \<and> (\<forall>\<rho>. tr J' \<rho> = tr J \<rho>)"

lemma extD: "ext J J' \<Longrightarrow> jwf J'" "ext J J' \<Longrightarrow> ir_keeps J J'" "ext J J' \<Longrightarrow> same_env J J'"
  "ext J J' \<Longrightarrow> tr J' \<rho> = tr J \<rho>"
  by (simp_all add: ext_def)

lemma ext_refl: "jwf J \<Longrightarrow> ext J J" by (simp add: ext_def)

lemma ext_trans: "ext J1 J2 \<Longrightarrow> ext J2 J3 \<Longrightarrow> ext J1 J3"
  unfolding ext_def by (meson ir_keeps_trans same_env_trans)

text \<open>No instructions are added: only constants.\<close>

lemma ext_consts:
  assumes wf: "jwf J" "irwf J'" and k: "ir_keeps J J'" "same_env J J'" "j_nins J' = j_nins J"
    and s: "\<And>s. ir_valid J s \<Longrightarrow> j_ir J' s = j_ir J s"
  shows "ext J J'"
proof -
  have b: "j_nk J \<le> REF_TRUE" using irwfD(1) [OF jwfD(1) [OF wf(1)]] by (simp add: ir_bounds_def)
  have v: "ir_valid J r" if "ir_valid J' r" "REF_BIAS \<le> r" for r
    using that b k(3) ref_defs by (simp add: ir_valid_def)
  have i: "j_ir J' r = j_ir J r" "ins_ok J (j_ir J r)" if "ir_valid J' r" "REF_BIAS \<le> r" for r
    using s [OF v [OF that]] jwfD(2) [OF wf(1) v [OF that] that(2)] by simp_all
  have "jwf J'" unfolding jwf_def using wf(2) i ins_ok_keep [OF k(1)] by metis
  moreover have "tr J' \<rho> = tr J \<rho>" for \<rho>
  proof -
    have "(ir_valid J' r \<and> REF_BIAS \<le> r \<and> sem_ins (j_ir J' r) \<longrightarrow> gok J' \<rho> (j_ir J' r)) =
        (ir_valid J r \<and> REF_BIAS \<le> r \<and> sem_ins (j_ir J r) \<longrightarrow> gok J \<rho> (j_ir J r))" for r
    proof (cases "ir_valid J r \<and> REF_BIAS \<le> r \<and> sem_ins (j_ir J r)")
      case True
      then have "opnds_ok J (j_ir J r)" using jwfD(2) [OF wf(1)] by (simp add: ins_ok_def)
      then have "gok J' \<rho> (j_ir J r) = gok J \<rho> (j_ir J r)" by (rule ival_keeps(2) [OF wf k(1)])
      then show ?thesis using True s keeps_valid [OF k(1)] by simp
    next
      case False
      then show ?thesis using v i by metis
    qed
    then show ?thesis unfolding tr_def by blast
  qed
  ultimately show ?thesis using k by (simp add: ext_def)
qed

lemma ext_k: "jwf J \<Longrightarrow> k_added J J' r \<Longrightarrow> ext J J'"
  by (rule ext_consts) (auto simp: k_added_def)

lemma ext_regs:
  assumes "jwf J" "same_ir J J'" "same_env J J'"
  shows "ext J J'"
proof -
  have "irwf J'" using same_irD(1) [OF assms(2)] jwfD(1) [OF assms(1)] by simp
  then show ?thesis
    by (intro ext_consts [OF assms(1)]) (use assms same_ir_keeps in \<open>simp_all add: same_ir_def\<close>)
qed

lemma same_set_regs:
  "same_ir J (set_o x J)" "same_ir J (set_t y J)" "same_ir J (set_op1 a J)" "same_ir J (set_op2 b J)"
  "same_ir J (lj_ir_set J x y a b)" "same_ir J (J\<lparr>j_fins := f\<rparr>)"
  "same_env J (set_o x J)" "same_env J (set_t y J)" "same_env J (set_op1 a J)" "same_env J (set_op2 b J)"
  "same_env J (lj_ir_set J x y a b)" "same_env J (J\<lparr>j_fins := f\<rparr>)"
  by (simp_all add: same_ir_def same_env_def set_o_def set_t_def set_op1_def set_op2_def lj_ir_set_def)

section \<open>A new instruction\<close>

lemma added_ins:
  assumes wf: "jwf J" and a: "ins_added J J' r" and ok: "ins_ok J (j_fins J)"
  shows "jwf J'" "\<And>\<rho>. tr J' \<rho> = (tr J \<rho> \<and> (sem_ins (j_fins J) \<longrightarrow> gok J \<rho> (j_fins J)))"
    "ir_valid J' r" "REF_BIAS \<le> r"
proof -
  have irwf: "irwf J'" "ir_keeps J J'" and r: "r = j_nins J" "j_nins J' = r + 1" "j_nk J' = j_nk J"
    and s: "\<And>s. ir_valid J s \<Longrightarrow> j_ir J' s = j_ir J s"
    and f: "ir_o (j_ir J' r) = fo J" "ir_t (j_ir J' r) = ft J" "ir_op1 (j_ir J' r) = fop1 J" "ir_op2 (j_ir J' r) = fop2 J"
    using a unfolding ins_added_def by blast+
  have b: "j_nk J \<le> REF_TRUE" "REF_BIAS < j_nins J"
    using irwfD(1) [OF jwfD(1) [OF wf]] by (simp_all add: ir_bounds_def)
  show v: "ir_valid J' r" "REF_BIAS \<le> r" using b r ref_defs by (simp_all add: ir_valid_def)
  have vv: "ir_valid J' q \<longleftrightarrow> q = r \<or> ir_valid J q" for q using b r ref_defs by (auto simp: ir_valid_def)
  have sem: "sem_ins (j_ir J' r) = sem_ins (j_fins J)" by (simp only: sem_ins_def f)
  have op: "opnds_ok J0 (j_ir J' r) = opnds_ok J0 (j_fins J)" for J0
    by (simp only: opnds_ok_def f wide_def)
  have io: "ins_ok J0 (j_ir J' r) = ins_ok J0 (j_fins J)" for J0
    by (simp only: ins_ok_def sem op f strict_def wide_def)
  have gk: "gok J0 \<rho> (j_ir J' r) = gok J0 \<rho> (j_fins J)" for J0 \<rho>
    by (simp only: gok_def gval_def wide_def f)
  have "ins_ok J' (j_ir J' q)" if "ir_valid J' q" "REF_BIAS \<le> q" for q
  proof (cases "q = r")
    case True
    then show ?thesis using io ins_ok_keep [OF irwf(2) ok] by simp
  next
    case False
    then have "ir_valid J q" using that vv by simp
    then show ?thesis using s jwfD(2) [OF wf _ that(2)] ins_ok_keep [OF irwf(2)] by simp
  qed
  then show w: "jwf J'" using irwf(1) by (simp add: jwf_def)
  show "tr J' \<rho> = (tr J \<rho> \<and> (sem_ins (j_fins J) \<longrightarrow> gok J \<rho> (j_fins J)))" for \<rho>
  proof -
    have old: "gok J' \<rho> (j_ir J' q) = gok J \<rho> (j_ir J q)" "j_ir J' q = j_ir J q"
      if "ir_valid J q" "REF_BIAS \<le> q" "sem_ins (j_ir J q)" for q
    proof -
      have "opnds_ok J (j_ir J q)" using jwfD(2) [OF wf that(1,2)] that(3) by (simp add: ins_ok_def)
      then show "gok J' \<rho> (j_ir J' q) = gok J \<rho> (j_ir J q)"
        using ival_keeps(2) [OF wf irwf] s [OF that(1)] by simp
    qed (rule s [OF that(1)])
    have new: "gok J' \<rho> (j_ir J' r) = gok J \<rho> (j_fins J)" if "sem_ins (j_fins J)"
    proof -
      have "opnds_ok J (j_fins J)" using ok that by (simp add: ins_ok_def)
      then show ?thesis using ival_keeps(2) [OF wf irwf] gk by simp
    qed
    show ?thesis
    proof
      assume t: "tr J' \<rho>"
      have "gok J \<rho> (j_ir J q)" if "ir_valid J q" "REF_BIAS \<le> q" "sem_ins (j_ir J q)" for q
        using t old [OF that] that vv unfolding tr_def by metis
      moreover have "sem_ins (j_fins J) \<longrightarrow> gok J \<rho> (j_fins J)"
        using t new v sem unfolding tr_def by metis
      ultimately show "tr J \<rho> \<and> (sem_ins (j_fins J) \<longrightarrow> gok J \<rho> (j_fins J))" unfolding tr_def by blast
    next
      assume t: "tr J \<rho> \<and> (sem_ins (j_fins J) \<longrightarrow> gok J \<rho> (j_fins J))"
      have "gok J' \<rho> (j_ir J' q)" if q: "ir_valid J' q" "REF_BIAS \<le> q" "sem_ins (j_ir J' q)" for q
      proof (cases "q = r")
        case True
        then show ?thesis using t new sem q(3) by simp
      next
        case False
        then have "ir_valid J q" using q(1) vv by simp
        then show ?thesis using t old s q unfolding tr_def by metis
      qed
      then show "tr J' \<rho>" unfolding tr_def by blast
    qed
  qed
qed

end
