(* ===== verification/LJ_FoldPre.thy ===== *)
theory LJ_FoldPre
  imports LJ_IRSem
begin

text \<open>
  What a fold function owes to the engine: the result has the value of the instruction, a
  retried instruction has its value and a smaller measure.  Common-subexpression elimination
  meets the specification of the engine.
\<close>

section \<open>Values at both widths\<close>

abbreviation d32 :: "jit \<Rightarrow> (nat \<Rightarrow> u64) \<Rightarrow> nat \<Rightarrow> u32" where
  "d32 J \<rho> r \<equiv> ucast (den J \<rho> r)"

lemma ucast_down_up [simp]: "ucast (ucast (x :: u32) :: u64) = x"
  by (simp add: ucast_down_ucast_id is_down)

lemma ucast_small [simp]:
  "ucast (ucast (ucast (x :: 8 word) :: u64) :: u32) = (ucast x :: u64)"
  "ucast (ucast (ucast (y :: 16 word) :: u64) :: u32) = (ucast y :: u64)"
  by (rule bit_word_eqI; auto simp: bit_simps dest: bit_imp_le_length)+

lemma rot_0 [simp]: "word_rotl n (0 :: 'a::len word) = 0" "word_rotr n (0 :: 'a::len word) = 0"
  by (rule bit_word_eqI; simp add: bit_word_rotl_iff bit_word_rotr_iff)+

definition arithop :: "irop \<Rightarrow> bool" where
  "arithop op \<longleftrightarrow> opcl op \<in> {OShift, OBit, ORing, O32} \<or> op = IR_BNOT"

lemma arithop_simps [simp]:
  "arithop IR_ADD" "arithop IR_SUB" "arithop IR_MUL" "arithop IR_NEG" "arithop IR_BAND" "arithop IR_BOR"
  "arithop IR_BXOR" "arithop IR_BNOT" "arithop IR_BSHL" "arithop IR_BSHR" "arithop IR_BSAR" "arithop IR_BROL"
  "arithop IR_BROR" "arithop IR_MIN" "arithop IR_MAX" "arithop IR_MOD" "arithop IR_ADDOV" "arithop IR_SUBOV"
  "arithop IR_MULOV"
  by (simp_all add: arithop_def)

lemma ival_arith:
  assumes "arithop (ir_o i)"
  shows "ival J \<rho> i = (if wide i then arith (ir_o i) (den J \<rho> (ir_op1 i)) (den J \<rho> (ir_op2 i))
    else ucast (arith (ir_o i) (d32 J \<rho> (ir_op1 i)) (d32 J \<rho> (ir_op2 i))))"
proof -
  have "ir_o i \<noteq> IR_CONV" "ir_o i \<noteq> IR_BSWAP" using assms by (auto simp: arithop_def)
  then show ?thesis by (simp add: ival_def opval_def)
qed

lemma kins_w:
  assumes "irwf J" "ir_valid J r" "r < REF_BIAS"
  shows "w32 (ity J r) \<Longrightarrow> ir_o (j_ir J r) = IR_KINT" "w64 (ity J r) \<Longrightarrow> ir_o (j_ir J r) = IR_KINT64"
    "ir_o (j_ir J r) = IR_KINT \<Longrightarrow> ity J r = IRT_INT" "ir_o (j_ir J r) = IR_KINT64 \<Longrightarrow> ity J r = IRT_I64"
proof -
  have k: "kins_ok J (j_ir J r)" by (rule irwfD(2) [OF assms])
  show "ir_o (j_ir J r) = IR_KINT \<Longrightarrow> ity J r = IRT_INT" "ir_o (j_ir J r) = IR_KINT64 \<Longrightarrow> ity J r = IRT_I64"
    using k by (simp_all add: kins_ok_def)
  then show "w32 (ity J r) \<Longrightarrow> ir_o (j_ir J r) = IR_KINT" "w64 (ity J r) \<Longrightarrow> ir_o (j_ir J r) = IR_KINT64"
    using k unfolding kins_ok_def by (metis insert_iff singletonD width_IRT(2,4))+
qed

text \<open>32-bit values are zero-extended.\<close>

lemma os_range:
  assumes wf: "jwf J" and o: "os J False r"
  shows "ucast (d32 J \<rho> r) = den J \<rho> r"
proof -
  have v: "ir_valid J r" "w32 (ity J r)" using o by (simp_all add: os_def)
  show ?thesis
  proof (cases "r < REF_BIAS")
    case True
    then show ?thesis using kins_w(1) [OF jwfD(1) [OF wf] v(1)] v(2) by (simp add: den_k kval_def)
  next
    case False
    then have b: "REF_BIAS \<le> r" by simp
    let ?i = "j_ir J r"
    show ?thesis
    proof (cases "val_ins ?i")
      case True
      have ok: "opnds_ok J ?i" using jwfD(2) [OF wf v(1) b] True by (simp add: ins_ok_def val_ins_def)
      have nw: "\<not> wide ?i" using v(2) width_disj by (auto simp: wide_def)
      have d: "den J \<rho> r = ival J \<rho> ?i" by (rule den_ins [OF wf v(1) True b])
      show ?thesis
      proof (cases "ir_o ?i = IR_CONV")
        case True
        then have "\<not> conv64 (ir_op2 ?i)" using ok nw by (simp add: opnds_ok_def wide_def Let_def split: if_splits)
        then show ?thesis using True unfolding d by (simp add: ival_def opval_def convval_def Let_def)
      next
        case False
        then show ?thesis using nw unfolding d by (simp add: ival_def opval_def)
      qed
    next
      case False
      then show ?thesis using v(2) b by (auto simp: den_opq opq_def)
    qed
  qed
qed

lemma k0_den: "irwf J \<Longrightarrow> k0 J r \<Longrightarrow> den J \<rho> r = 0"
  using kop_valid [of J r] by (simp add: k0_def den_k kval_def kop_def)

lemma k0_os: "irwf J \<Longrightarrow> k0 J r \<Longrightarrow> os J False r"
  using kop_valid [of J r] kins_w(3) [of J r] by (simp add: k0_def os_def kop_def)

lemma oz_both:
  assumes "irwf J" "oz J True r" "oz J False r"
  shows "k0 J r"
  using assms width_disj by (auto simp: oz_def os_def)

lemma os_both: "os J True r \<Longrightarrow> os J False r \<Longrightarrow> False"
  using width_disj by (auto simp: os_def)

section \<open>Instructions with the same operands\<close>

lemma opnds_ok_cl:
  "opcl (ir_o i) = OAbc \<Longrightarrow> opnds_ok J i \<longleftrightarrow> os J False (ir_op1 i) \<and> os J False (ir_op2 i) \<and>
     (irref_isk (ir_op2 i) \<longrightarrow> 0 \<le> sint (ir_i (j_ir J (ir_op2 i))))"
  "opcl (ir_o i) = OConv \<Longrightarrow> opnds_ok J i \<longleftrightarrow> ir_op2 i < REF_LIT \<and>
     (if conv64 (ir_op2 i) then w64 (irt_ty (ir_t i)) else a32 (irt_ty (ir_t i))) \<and> oz J (src64 (ir_op2 i)) (ir_op1 i)"
  "opcl (ir_o i) = OBun \<Longrightarrow> opnds_ok J i \<longleftrightarrow> os J (wide i) (ir_op1 i) \<and> ir_op2 i = 0"
  "opcl (ir_o i) = OShift \<Longrightarrow> opnds_ok J i \<longleftrightarrow> oz J (wide i) (ir_op1 i) \<and> os J False (ir_op2 i)"
  "opcl (ir_o i) = ORing \<Longrightarrow> opnds_ok J i \<longleftrightarrow> oz J (wide i) (ir_op1 i) \<and> oz J (wide i) (ir_op2 i)"
  "opcl (ir_o i) = O32 \<Longrightarrow> opnds_ok J i \<longleftrightarrow> os J False (ir_op1 i) \<and> os J False (ir_op2 i)"
  "opcl (ir_o i) = OBit \<Longrightarrow> opnds_ok J i \<longleftrightarrow> os J (wide i) (ir_op1 i) \<and> os J (wide i) (ir_op2 i)"
  "opcl (ir_o i) = OCmp \<Longrightarrow> opnds_ok J i \<longleftrightarrow> os J (wide i) (ir_op1 i) \<and> os J (wide i) (ir_op2 i)"
  by (simp_all add: opnds_ok_def Let_def)

lemma sem_cases:
  assumes "sem_ins i"
  shows "opcl (ir_o i) \<noteq> OOther" "opcl (ir_o i) = OConv \<Longrightarrow> int_conv (ir_op2 i)"
    "opcl (ir_o i) \<noteq> OAbc \<Longrightarrow> opcl (ir_o i) \<noteq> OConv \<Longrightarrow> a32 (irt_ty (ir_t i)) \<or> w64 (irt_ty (ir_t i))"
    "opcl (ir_o i) = O32 \<Longrightarrow> \<not> wide i"
  using assms a32_w by (auto simp: sem_ins_def wide_def split: opclass.splits)

lemma same_ops_sem:
  assumes wf: "jwf J" and i: "sem_ins i" "opnds_ok J i" and j: "ins_ok J j"
    and s: "ir_o j = ir_o i" "ir_op1 j = ir_op1 i" "ir_op2 j = ir_op2 i \<or> ir_o i = IR_CONV \<and> int_conv (ir_op2 j)"
  shows "sem_ins j"
proof (cases "opcl (ir_o i)")
  case OConv
  then show ?thesis using i(1) s by (auto simp: sem_ins_def opcl_iff)
next
  case OAbc
  then show ?thesis using s(1) by (simp add: sem_ins_def)
next
  case OOther
  then show ?thesis using i(1) by (simp add: sem_ins_def)
next
  case O32
  then have "os J False (ir_op1 j)" using i(2) s by (simp add: opnds_ok_def Let_def)
  then show ?thesis using j O32 s(1) by (auto simp: ins_ok_def split: if_splits)
qed (rule ccontr, use i(2) j s k0_os [OF jwfD(1) [OF wf], of "ir_op1 i"] in
    \<open>auto simp: opnds_ok_def ins_ok_def Let_def oz_def split: if_splits bool.splits; (cases "wide i"; simp)\<close>)+


lemma mode_conv:
  assumes "irconv_mode a = irconv_mode b"
  shows "irconv_src a = irconv_src b" "irconv_dst a = irconv_dst b" "irconv_sext a = irconv_sext b"
    "conv64 a = conv64 b" "int_conv a = int_conv b" "convval a = convval b" "src64 a = src64 b"
proof -
  have m: "a mod 4096 = b mod 4096" using assms by (simp add: irconv_mode_def)
  have "a mod 4096 mod 32 = b mod 4096 mod 32" using m by simp
  then show s: "irconv_src a = irconv_src b" by (simp add: irconv_src_def mod_mod_cancel)
  have dm': "x mod (m * n) div m = x div m mod n" if "0 < m" for x m n :: nat
    using that by (simp add: mod_mult2_eq)
  have dm: "x mod 1024 div 32 = x div 32 mod 32" "x mod 4096 div 2048 = x div 2048 mod 2" for x :: nat
    using dm' [of 32 x 32] dm' [of 2048 x 2] by simp_all
  have "a mod 4096 mod 1024 div 32 = b mod 4096 mod 1024 div 32" using m by simp
  then show d: "irconv_dst a = irconv_dst b" using dm(1) [of a] dm(1) [of b]
    by (simp add: irconv_dst_def mod_mod_cancel)
  have "a mod 4096 div 2048 = b mod 4096 div 2048" using m by simp
  then show x: "irconv_sext a = irconv_sext b" using dm(2) [of a] dm(2) [of b]
    by (simp add: irconv_sext_def)
  show c: "conv64 a = conv64 b" by (simp add: conv64_def d)
  show "int_conv a = int_conv b" by (simp add: int_conv_def conv32_def c src64_def src32_def src_small_def s d)
  show "convval a = convval b" by (rule ext) (simp only: convval_def s x c)
  show "src64 a = src64 b" by (simp add: src64_def s)
qed

definition same_lit :: "irins \<Rightarrow> irins \<Rightarrow> bool" where
  "same_lit i j \<longleftrightarrow> ir_op2 j = ir_op2 i \<or> ir_o i = IR_CONV \<and> irconv_mode (ir_op2 j) = irconv_mode (ir_op2 i)"

text \<open>An instruction with the operands of another one has its width and its value.\<close>

lemma same_width:
  assumes wf: "jwf J" and i: "sem_ins i" "opnds_ok J i" "strict J i" and j: "sem_ins j" "opnds_ok J j" "strict J j"
    and s: "ir_o j = ir_o i" "ir_op1 j = ir_op1 i" "same_lit i j"
  shows "opcl (ir_o i) \<noteq> OAbc \<Longrightarrow> wide j = wide i"
proof (cases "opcl (ir_o i)")
  case OAbc
  then show "opcl (ir_o i) \<noteq> OAbc \<Longrightarrow> wide j = wide i" by simp
next
  case OOther
  then show ?thesis using sem_cases(1) [OF i(1)] by simp
next
  case O32
  then show ?thesis using sem_cases(4) [OF i(1)] sem_cases(4) [OF j(1)] s(1) by simp
next
  case OConv
  then have "irconv_mode (ir_op2 j) = irconv_mode (ir_op2 i)" using s(3) unfolding same_lit_def by metis
  then have "conv64 (ir_op2 j) = conv64 (ir_op2 i)" by (rule mode_conv(4))
  then show ?thesis using OConv i(2) j(2) s(1) a32_w by (auto simp: opnds_ok_cl wide_def split: if_splits)
next
  case OShift
  then have "oz J (wide i) (ir_op1 i)" "oz J (wide j) (ir_op1 i)" using i(2) j(2) s by (simp_all add: opnds_ok_cl)
  then show ?thesis using oz_both [OF jwfD(1) [OF wf], of "ir_op1 i"] i(3) j(3) OShift s
    by (cases "wide i"; cases "wide j") (simp_all add: strict_def)
next
  case ORing
  then have "ir_op2 j = ir_op2 i" using s(3) by (auto simp: same_lit_def)
  then show ?thesis using oz_both [OF jwfD(1) [OF wf], of "ir_op1 i"] oz_both [OF jwfD(1) [OF wf], of "ir_op2 i"] i(2,3) j(2,3) ORing s
    by (cases "wide i"; cases "wide j") (simp_all add: strict_def opnds_ok_cl)
next
  case OBun
  then show ?thesis using os_both [of J "ir_op1 i"] i(2) j(2) s by (cases "wide i"; cases "wide j") (simp_all add: opnds_ok_cl)
next
  case OBit
  then show ?thesis using os_both [of J "ir_op1 i"] i(2) j(2) s by (cases "wide i"; cases "wide j") (simp_all add: opnds_ok_cl)
next
  case OCmp
  then show ?thesis using os_both [of J "ir_op1 i"] i(2) j(2) s by (cases "wide i"; cases "wide j") (simp_all add: opnds_ok_cl)
qed

lemma same_val:
  assumes s: "ir_o j = ir_o i" "ir_op1 j = ir_op1 i" "same_lit i j" "opcl (ir_o i) \<noteq> OAbc \<Longrightarrow> wide j = wide i"
  shows "\<not> pure_guard (ir_o i) \<Longrightarrow> ival J \<rho> j = ival J \<rho> i" "gok J \<rho> j = gok J \<rho> i"
proof -
  have l: "ir_op2 j = ir_op2 i" if "ir_o i \<noteq> IR_CONV" using s(3) that by (simp add: same_lit_def)
  show "ival J \<rho> j = ival J \<rho> i" if np: "\<not> pure_guard (ir_o i)"
  proof (cases "ir_o i = IR_CONV")
    case True
    have "irconv_mode (ir_op2 j) = irconv_mode (ir_op2 i)" using s(3) unfolding same_lit_def by metis
    then have "convval (ir_op2 j) = convval (ir_op2 i)" by (rule mode_conv(6))
    then show ?thesis using True s(1,2) by (simp add: ival_def opval_def)
  next
    case False
    then show ?thesis using l s(1,2,4) np by (simp add: ival_def opval_def pure_guard_def)
  qed
  show "gok J \<rho> j = gok J \<rho> i"
  proof (cases "ir_o i = IR_CONV")
    case True
    then show ?thesis using s(1) by (simp add: gok_def gval_def ovop_def)
  next
    case False
    show ?thesis
    proof (cases "opcl (ir_o i) = OAbc")
      case True
      then show ?thesis using l [OF False] s(1,2) by (simp add: gok_def gval_def opcl_iff)
    next
      case nc: False
      show ?thesis by (simp only: gok_def gval_def l [OF False] s(1,2) s(4) [OF nc])
    qed
  qed
qed

section \<open>Specification of the engine and of the fold functions\<close>

definition rank :: "irop \<Rightarrow> nat" where
  "rank op =
     (if op = IR_CONV then 9
      else if op = IR_MUL \<or> op = IR_MULOV then 8
      else if op = IR_BROR then 7
      else if opcl op = OShift then 6
      else if op = IR_ADD \<or> op = IR_SUB \<or> op = IR_ADDOV \<or> op = IR_SUBOV \<or> op = IR_MOD then 5
      else if op = IR_BXOR then 4
      else if op = IR_BAND \<or> op = IR_BOR then 3
      else if op = IR_NEG then 2
      else 1)"

definition pos :: "nat \<Rightarrow> nat" where "pos r = r + 1 - REF_BIAS"

definition b2n :: "bool \<Rightarrow> nat" where "b2n b = (if b then 1 else 0)"

text \<open>A shift by a constant that is not masked yet.\<close>

definition unmasked :: "jit \<Rightarrow> irins \<Rightarrow> bool" where
  "unmasked J i \<longleftrightarrow> opcl (ir_o i) = OShift \<and>
     \<not> (irref_isk (ir_op2 i) \<and> ir_i (j_ir J (ir_op2 i)) AND (if wide i then 63 else 31) = ir_i (j_ir J (ir_op2 i)))"

definition meas :: "jit \<Rightarrow> irins \<Rightarrow> nat" where
  "meas J i = rank (ir_o i) * 2 ^ 20 + 8 * (pos (ir_op1 i) + pos (ir_op2 i)) + 4 * b2n (ir_o i = IR_SUB) +
     2 * b2n (unmasked J i) + b2n (ir_op1 i < ir_op2 i)"

definition fold_post :: "jit \<Rightarrow> (jit \<times> nat) res \<Rightarrow> bool" where
  "fold_post J res =
     okr (\<lambda>e. e = OOB \<or> e = TRERR_GFAIL \<and> (\<forall>\<rho>. tr J \<rho> \<longrightarrow> \<not> gok J \<rho> (j_fins J)))
       (\<lambda>(J', r). jwf J' \<and> ir_keeps J J' \<and> same_env J J' \<and>
          (\<forall>\<rho>. tr J' \<rho> = (tr J \<rho> \<and> gok J \<rho> (j_fins J))) \<and>
          (if pure_guard (fo J) then r = REF_DROP \<or> ir_valid J' r
           else res_ok J' (wide (j_fins J)) r \<and> (\<forall>\<rho>. tr J' \<rho> \<longrightarrow> den J' \<rho> r = ival J \<rho> (j_fins J)))) res"

definition step_post :: "jit \<Rightarrow> jit \<times> foldres \<Rightarrow> bool" where
  "step_post J x =
     (case x of (J', r) \<Rightarrow>
       (case r of
          NEXTFOLD \<Rightarrow> J' = J
        | RETRYFOLD \<Rightarrow>
            ext J J' \<and> fin_ok J' (j_fins J') \<and> pure_guard (fo J') = pure_guard (fo J) \<and>
            wide (j_fins J') = wide (j_fins J) \<and> meas J' (j_fins J') < meas J (j_fins J) \<and>
            (\<forall>\<rho>. tr J \<rho> \<longrightarrow> gok J' \<rho> (j_fins J') = gok J \<rho> (j_fins J) \<and>
               (\<not> pure_guard (fo J) \<longrightarrow> ival J' \<rho> (j_fins J') = ival J \<rho> (j_fins J)))
        | KINTFOLD \<Rightarrow>
            ext J J' \<and> \<not> pure_guard (fo J) \<and> (wide (j_fins J) \<longrightarrow> ir_i (j_fins J') = 0) \<and>
            (\<forall>\<rho>. tr J \<rho> \<longrightarrow> gok J \<rho> (j_fins J) \<and> ival J \<rho> (j_fins J) = ucast (ir_i (j_fins J')))
        | FAILFOLD \<Rightarrow> \<forall>\<rho>. tr J \<rho> \<longrightarrow> \<not> gok J \<rho> (j_fins J)
        | DROPFOLD \<Rightarrow> pure_guard (fo J) \<and> jwf J' \<and> ir_keeps J J' \<and> same_env J J' \<and>
            (\<forall>\<rho>. tr J' \<rho> = (tr J \<rho> \<and> gok J \<rho> (j_fins J)))
        | FoldRef q \<Rightarrow> fold_post J (Inr (J', q))))"

text \<open>No loop variable is known: the index of the scalar evolution is nil.\<close>

definition scev_off :: "jit \<Rightarrow> bool" where
  "scev_off J \<longleftrightarrow> j_scev_idx J = REF_NIL \<and> ir_o (j_ir J REF_NIL) = IR_KPRI"

lemma nil_valid: "irwf J \<Longrightarrow> ir_valid J REF_NIL"
  using irwfD(1) [of J] by (simp add: ir_bounds_def ir_valid_def REF_TRUE_def REF_NIL_def REF_BIAS_def)

lemma scev_keeps: "irwf J \<Longrightarrow> ir_keeps J J' \<Longrightarrow> same_env J J' \<Longrightarrow> scev_off J \<Longrightarrow> scev_off J'"
  using same_insD(1) [OF keeps_ins [OF _ nil_valid]] by (simp add: scev_off_def same_env_def)

lemma scev_os:
  assumes "irwf J" "scev_off J"
  shows "\<not> os J w REF_NIL"
proof -
  have v: "ir_valid J REF_NIL" by (rule nil_valid [OF assms(1)])
  have "REF_NIL < REF_BIAS" by (simp add: REF_NIL_def REF_BIAS_def)
  then show ?thesis using kins_w(1,2) [OF assms(1) v] assms(2) by (cases w) (auto simp: os_def scev_off_def)
qed

definition ff_ok :: "nat \<Rightarrow> refold \<Rightarrow> bool" where
  "ff_ok m ff \<longleftrightarrow> (\<forall>J. jwf J \<and> fin_ok J (j_fins J) \<and> strict J (j_fins J) \<and> scev_off J \<and>
     meas J (j_fins J) < m \<longrightarrow> fold_post J (ff J))"

section \<open>Emitting and reusing an instruction\<close>

lemma fin_lt:
  assumes "jwf J" "opnds_ok J i"
  shows "ir_op1 i < j_nins J" "ir_op2 i < j_nins J"
proof -
  have b: "REF_BIAS < j_nins J" using irwfD(1) [OF jwfD(1) [OF assms(1)]] by (simp add: ir_bounds_def)
  show "ir_op1 i < j_nins J" using opnds_valid(1) [OF assms(2)] by (simp add: ir_valid_def)
  show "ir_op2 i < j_nins J"
    using opnds_valid(2,3) [OF assms(2)] b by (cases "lit2 (ir_o i)") (simp_all add: ir_valid_def REF_LIT_def REF_BIAS_def)
qed

lemma sem_not_kop: "sem_ins i \<Longrightarrow> \<not> kop (ir_o i)"
  by (auto simp: sem_ins_def kop_def opcl_def)

lemma val_type:
  assumes "sem_ins i" "opnds_ok J i" "\<not> pure_guard (ir_o i)"
  shows "if wide i then w64 (irt_ty (ir_t i)) else w32 (irt_ty (ir_t i))"
  using sem_cases(3) [OF assms(1)] assms a32_w
  by (cases "opcl (ir_o i) = OConv") (auto simp: wide_def pure_guard_def opnds_ok_cl split: if_splits)

lemma emit_post:
  assumes wf: "jwf J" and f: "fin_ok J (j_fins J)" "strict J (j_fins J)"
  shows "fold_post J (lj_ir_emit J)"
proof -
  have s: "sem_ins (j_fins J)" "opnds_ok J (j_fins J)" using f(1) by (simp_all add: fin_ok_def)
  have io: "ins_ok J (j_fins J)" using s f(2) by (simp add: ins_ok_def)
  show ?thesis
    unfolding fold_post_def
  proof (rule okr_weaken [OF emit_ok [OF jwfD(1) [OF wf] sem_not_kop [OF s(1)] fin_lt [OF wf s(2)]]])
    fix x :: "jit \<times> nat"
    obtain J' r where x: "x = (J', r)" by (cases x)
    assume "case x of (J', r) \<Rightarrow> ins_added J J' r"
    then have a: "ins_added J J' r" by (simp only: x prod.case)
    note ad = added_ins [OF wf a io]
    have k: "ir_keeps J J'" "same_env J J'" "irwf J'" using a unfolding ins_added_def by blast+
    have fl: "ir_o (j_ir J' r) = fo J" "ir_t (j_ir J' r) = ft J" "ir_op1 (j_ir J' r) = fop1 J" "ir_op2 (j_ir J' r) = fop2 J"
      using a unfolding ins_added_def by blast+
    have t: "tr J' \<rho> = (tr J \<rho> \<and> gok J \<rho> (j_fins J))" for \<rho> using ad(2) s(1) by simp
    have v: "res_ok J' (wide (j_fins J)) r \<and> (\<forall>\<rho>. den J' \<rho> r = ival J \<rho> (j_fins J))" if np: "\<not> pure_guard (fo J)"
    proof -
      have si: "sem_ins (j_ir J' r)" using s(1) by (simp only: sem_ins_def fl)
      then have "val_ins (j_ir J' r)" using np by (simp add: val_ins_def fl)
      then have "den J' \<rho> r = ival J' \<rho> (j_ir J' r)" for \<rho> by (rule den_ins [OF ad(1) ad(3) _ ad(4)])
      also have "ival J' \<rho> (j_ir J' r) = ival J' \<rho> (j_fins J)" for \<rho> by (simp only: ival_def opval_def wide_def fl)
      also have "ival J' \<rho> (j_fins J) = ival J \<rho> (j_fins J)" for \<rho> by (rule ival_keeps(1) [OF wf k(3,1) s(2)])
      finally have "\<forall>\<rho>. den J' \<rho> r = ival J \<rho> (j_fins J)" by blast
      moreover have "os J' (wide (j_fins J)) r"
        using val_type [OF s np] ad(3) unfolding os_def fl by simp
      ultimately show ?thesis by (simp add: res_ok_def oz_def)
    qed
    show "case x of (J', r) \<Rightarrow> jwf J' \<and> ir_keeps J J' \<and> same_env J J' \<and>
          (\<forall>\<rho>. tr J' \<rho> = (tr J \<rho> \<and> gok J \<rho> (j_fins J))) \<and>
          (if pure_guard (fo J) then r = REF_DROP \<or> ir_valid J' r
           else res_ok J' (wide (j_fins J)) r \<and> (\<forall>\<rho>. tr J' \<rho> \<longrightarrow> den J' \<rho> r = ival J \<rho> (j_fins J)))"
      unfolding x prod.case using ad(1,3) k(1,2) t v by (cases "pure_guard (fo J)") simp_all
  qed simp
qed

lemma hit_post:
  assumes wf: "jwf J" and f: "fin_ok J (j_fins J)" "strict J (j_fins J)"
    and r: "r \<in> chain_refs J (fo J)" "ir_op1 (j_ir J r) = fop1 J" "same_lit (j_fins J) (j_ir J r)"
  shows "fold_post J (Inr (J, r))"
proof -
  let ?i = "j_fins J" and ?j = "j_ir J r"
  have s: "sem_ins ?i" "opnds_ok J ?i" using f(1) by (simp_all add: fin_ok_def)
  have v: "ir_valid J r" "ir_o ?j = fo J" using chain_refs_valid [OF r(1)] by simp_all
  have b: "REF_BIAS \<le> r" using kop_valid [OF jwfD(1) [OF wf] v(1)] sem_not_kop [OF s(1)] v(2) by simp
  have io: "ins_ok J ?j" by (rule jwfD(2) [OF wf v(1) b])
  have "ir_op2 ?j = ir_op2 ?i \<or> ir_o ?i = IR_CONV \<and> int_conv (ir_op2 ?j)"
  proof (cases "ir_op2 ?j = ir_op2 ?i")
    case False
    then have c: "ir_o ?i = IR_CONV" "irconv_mode (ir_op2 ?j) = irconv_mode (ir_op2 ?i)"
      using r(3) by (simp_all add: same_lit_def)
    moreover have "int_conv (ir_op2 ?i)" using sem_cases(2) [OF s(1)] c(1) by simp
    ultimately show ?thesis using mode_conv(5) by blast
  qed simp
  then have sj: "sem_ins ?j" by (rule same_ops_sem [OF wf s io v(2) r(2)])
  then have oj: "opnds_ok J ?j" "strict J ?j" using io by (simp_all add: ins_ok_def)
  note w = same_width [OF wf s f(2) sj oj v(2) r(2,3)]
  note vv = same_val [OF v(2) r(2,3) w]
  have t: "tr J \<rho> = (tr J \<rho> \<and> gok J \<rho> ?i)" for \<rho>
    using v(1) b sj vv(2) unfolding tr_def by blast
  have "os J (wide ?i) r" if "\<not> pure_guard (fo J)"
  proof -
    have "wide ?j = wide ?i" using w that by (simp add: pure_guard_def)
    then show ?thesis using val_type [OF sj oj(1)] that v by (simp add: os_def)
  qed
  moreover have "den J \<rho> r = ival J \<rho> ?i" if "\<not> pure_guard (fo J)" for \<rho>
    using den_ins [OF wf v(1) _ b] sj that vv(1) v(2) by (simp add: val_ins_def)
  ultimately show ?thesis
    unfolding fold_post_def okr_simps prod.case using wf t v(1)
    by (cases "pure_guard (fo J)") (simp_all add: res_ok_def oz_def)
qed

lemma cse_post:
  assumes wf: "jwf J" and f: "fin_ok J (j_fins J)" "strict J (j_fins J)"
  shows "fold_post J (lj_opt_cse J)"
proof (cases "j_opt_cse J")
  case False
  then show ?thesis using emit_post [OF assms] by (simp add: lj_opt_cse_def Let_def)
next
  case True
  obtain w where w: "ir_walk J (max (fop1 J) (fop2 J)) (\<lambda>_ ir. same_op12 ir (j_fins J)) (j_chain J (fo J)) = Inr w"
    "w \<noteq> 0 \<Longrightarrow> w \<in> chain_refs J (fo J) \<and> same_op12 (j_ir J w) (j_fins J)"
    using ir_walk_ok [OF jwfD(1) [OF wf], of "max (fop1 J) (fop2 J)" "\<lambda>_ ir. same_op12 ir (j_fins J)" "fo J"] by auto
  have e: "lj_opt_cse J = (if w \<noteq> 0 then Inr (J, w) else lj_ir_emit J)"
    using True w(1) by (simp add: lj_opt_cse_def Let_def)
  show ?thesis
  proof (cases "w = 0")
    case True
    then show ?thesis using emit_post [OF assms] e by simp
  next
    case False
    then have "fold_post J (Inr (J, w))"
      using w(2) by (intro hit_post [OF assms]) (simp_all add: same_op12_def same_lit_def)
    then show ?thesis using e False by simp
  qed
qed

end
