(* ===== verification/LJ_FoldBase.thy ===== *)
theory LJ_FoldBase
  imports LJ_FoldPre
begin

text \<open>
  Common steps of the proofs about fold functions: what is known about the operands from the
  key, and one lemma for each kind of result.
\<close>

section \<open>Registers\<close>

lemma regs_simps [simp]:
  "j_fins (set_o x J) = (j_fins J)\<lparr>ir_o := x\<rparr>" "j_fins (set_t y J) = (j_fins J)\<lparr>ir_t := y\<rparr>"
  "j_fins (set_op1 a J) = (j_fins J)\<lparr>ir_op1 := a\<rparr>" "j_fins (set_op2 b J) = (j_fins J)\<lparr>ir_op2 := b\<rparr>"
  "j_ir (set_o x J) = j_ir J" "j_ir (set_t y J) = j_ir J" "j_ir (set_op1 a J) = j_ir J" "j_ir (set_op2 b J) = j_ir J"
  by (simp_all add: set_o_def set_t_def set_op1_def set_op2_def)

lemma same_ir_trans: "same_ir J1 J2 \<Longrightarrow> same_ir J2 J3 \<Longrightarrow> same_ir J1 J3" by (simp add: same_ir_def)

lemma same_regs_comp:
  "same_ir J J1 \<Longrightarrow> same_ir J (set_o x J1)" "same_ir J J1 \<Longrightarrow> same_ir J (set_t y J1)"
  "same_ir J J1 \<Longrightarrow> same_ir J (set_op1 a J1)" "same_ir J J1 \<Longrightarrow> same_ir J (set_op2 b J1)"
  "same_env J J1 \<Longrightarrow> same_env J (set_o x J1)" "same_env J J1 \<Longrightarrow> same_env J (set_t y J1)"
  "same_env J J1 \<Longrightarrow> same_env J (set_op1 a J1)" "same_env J J1 \<Longrightarrow> same_env J (set_op2 b J1)"
  "same_ir J J"
  by (simp_all add: same_ir_def same_env_def set_o_def set_t_def set_op1_def set_op2_def)

lemma den_same:
  assumes "same_ir J J'"
  shows "den J' \<rho> r = den J \<rho> r"
proof (induction r rule: less_induct)
  case (less r)
  have s: "j_ir J' = j_ir J" "j_k64 J' = j_k64 J" using assms by (simp_all add: same_ir_def)
  show ?case
  proof (cases "r < REF_BIAS")
    case True
    then show ?thesis by (simp add: den_k kval_def s)
  next
    case False
    then show ?thesis using less by (subst (1 2) den.simps) (simp add: Let_def s)
  qed
qed

lemma sem_same:
  assumes "same_ir J J'"
  shows "ival J' \<rho> i = ival J \<rho> i" "gok J' \<rho> i = gok J \<rho> i" "os J' w r = os J w r" "oz J' w r = oz J w r"
    "fin_ok J' i = fin_ok J i" "meas J' i = meas J i" "k0 J' r = k0 J r"
proof -
  have s: "j_ir J' = j_ir J" "ir_valid J' = ir_valid J" using assms same_irD(2) [OF assms] by (simp_all add: same_ir_def)
  show "ival J' \<rho> i = ival J \<rho> i" "gok J' \<rho> i = gok J \<rho> i" by (simp_all only: ival_def gok_def den_same [OF assms])
  show o: "os J' w r = os J w r" "k0 J' r = k0 J r" for w r by (simp_all only: os_def k0_def s)
  show z: "oz J' w r = oz J w r" for w r by (simp only: oz_def o)
  show "fin_ok J' i = fin_ok J i" by (simp only: fin_ok_def opnds_ok_def o z s)
  show "meas J' i = meas J i" by (simp only: meas_def unmasked_def s)
qed

section \<open>Rules\<close>

definition fpre :: "refold \<Rightarrow> jit \<Rightarrow> bool" where
  "fpre ff J \<longleftrightarrow> jwf J \<and> fin_ok J (j_fins J) \<and> scev_off J \<and> j_fleft J = j_ir J (fop1 J) \<and>
     (ir_valid J (fop2 J) \<longrightarrow> j_fright J = j_ir J (fop2 J)) \<and> ff_ok (meas J (j_fins J)) ff"

definition key_match :: "jit \<Rightarrow> fkey \<Rightarrow> bool" where
  "key_match J k =
     (case k of (op, l, r) \<Rightarrow>
        fo J = op \<and> (l = LAny \<or> l = LOp (ir_o (j_fleft J))) \<and>
        (r = RAny \<or> (ir_valid J (fop2 J) \<and> r = ROp (ir_o (j_fright J))) \<or>
         (\<not> ir_valid J (fop2 J) \<and> r = RLit (fop2 J mod 0x400))))"

text \<open>A fold function fails when no references are left, or when the guard cannot hold.\<close>

definition fold_err :: "jit \<Rightarrow> errmsg \<Rightarrow> bool" where
  "fold_err J e \<longleftrightarrow> e = OOB \<or> e = TRERR_GFAIL \<and> (\<forall>\<rho>. tr J \<rho> \<longrightarrow> \<not> gok J \<rho> (j_fins J))"

definition rule_ok :: "fkey \<Rightarrow> rule \<Rightarrow> bool" where
  "rule_ok k f \<longleftrightarrow> (\<forall>ff J. fpre ff J \<and> key_match J k \<longrightarrow> okr (fold_err J) (step_post J) (f ff J))"

lemma rule_okI':
  "(\<And>ff J. fpre ff J \<Longrightarrow> key_match J k \<Longrightarrow> okr (fold_err J) (step_post J) (f ff J)) \<Longrightarrow> rule_ok k f"
  by (simp add: rule_ok_def)

lemma ok_oob_err: "ok_oob Q m \<Longrightarrow> okr (fold_err J) Q m"
  by (erule okr_weaken) (simp_all add: fold_err_def)

lemma rule_okI:
  "(\<And>ff J. fpre ff J \<Longrightarrow> key_match J k \<Longrightarrow> ok_oob (step_post J) (f ff J)) \<Longrightarrow> rule_ok k f"
  by (rule rule_okI', rule ok_oob_err)

lemma fpreD:
  assumes "fpre ff J"
  shows "jwf J" "irwf J" "fin_ok J (j_fins J)" "sem_ins (j_fins J)" "opnds_ok J (j_fins J)"
    "scev_off J" "j_fleft J = j_ir J (fop1 J)"
    "ir_valid J (fop2 J) \<Longrightarrow> j_fright J = j_ir J (fop2 J)" "ff_ok (meas J (j_fins J)) ff"
    "ir_valid J (fop1 J)"
  using assms opnds_valid(1) jwfD(1) by (auto simp: fpre_def fin_ok_def)

lemma keyD:
  assumes "fpre ff J" "key_match J (op, l, r)"
  shows "fo J = op" "l = LOp x \<Longrightarrow> ir_o (j_ir J (fop1 J)) = x"
    "r = ROp y \<Longrightarrow> ir_valid J (fop2 J)" "r = ROp y \<Longrightarrow> ir_o (j_ir J (fop2 J)) = y"
    "r = RLit n \<Longrightarrow> fop2 J mod 0x400 = n"
  using assms fpreD(7,8) [OF assms(1)] by (auto simp: key_match_def)

section \<open>Operands\<close>

lemma ins_k:
  assumes "jwf J" "ir_valid J r" "ir_o (j_ir J r) = IR_KINT"
  shows "r < REF_BIAS" "den J \<rho> r = ucast (ir_i (j_ir J r))" "os J False r" "oz J True r \<longleftrightarrow> ir_i (j_ir J r) = 0"
    "d32 J \<rho> r = ir_i (j_ir J r)" "\<not> os J True r"
proof -
  show b: "r < REF_BIAS" using kop_valid [OF jwfD(1) [OF assms(1)] assms(2)] assms(3) by (simp add: kop_def)
  show d: "den J \<rho> r = ucast (ir_i (j_ir J r))" by (simp add: den_k [OF b] kval_def assms(3))
  have t: "ity J r = IRT_INT" by (rule kins_w(3) [OF jwfD(1) [OF assms(1)] assms(2) b assms(3)])
  then show "os J False r" "oz J True r \<longleftrightarrow> ir_i (j_ir J r) = 0" "\<not> os J True r"
    using assms(2,3) by (auto simp: os_def oz_def k0_def)
  show "d32 J \<rho> r = ir_i (j_ir J r)" by (simp add: d)
qed

lemma ins_k64:
  assumes "jwf J" "ir_valid J r" "ir_o (j_ir J r) = IR_KINT64"
  shows "r < REF_BIAS" "den J \<rho> r = k64_val (j_k64 J) (ir_k (j_ir J r))" "os J True r" "\<not> os J False r" "\<not> oz J False r"
    "\<not> k0 J r"
proof -
  show b: "r < REF_BIAS" using kop_valid [OF jwfD(1) [OF assms(1)] assms(2)] assms(3) by (simp add: kop_def)
  show "den J \<rho> r = k64_val (j_k64 J) (ir_k (j_ir J r))" by (simp add: den_k [OF b] kval_def assms(3))
  have t: "ity J r = IRT_I64" by (rule kins_w(4) [OF jwfD(1) [OF assms(1)] assms(2) b assms(3)])
  then show "os J True r" "\<not> os J False r" "\<not> oz J False r" "\<not> k0 J r"
    using assms(2,3) by (simp_all add: os_def oz_def k0_def)
qed

text \<open>An operand that is an integer instruction itself.\<close>

lemma opnd_ins:
  assumes wf: "jwf J" and r: "oz J w r" "ir_o (j_ir J r) \<noteq> IR_KINT"
    and c: "opcl (ir_o (j_ir J r)) \<in> {OBun, OShift, OBit, ORing} \<or> opcl (ir_o (j_ir J r)) = O32 \<and> \<not> w"
  shows "sem_ins (j_ir J r)" "opnds_ok J (j_ir J r)" "wide (j_ir J r) = w" "den J \<rho> r = ival J \<rho> (j_ir J r)"
    "REF_BIAS \<le> r" "ir_op1 (j_ir J r) < r" "ir_op2 (j_ir J r) < r" "os J w r"
proof -
  have v: "ir_valid J r" by (rule os_valid(2) [OF r(1)])
  show o: "os J w r" using r by (auto simp: oz_def k0_def)
  have "\<not> kop (ir_o (j_ir J r))" using c by (auto simp: kop_def opcl_def)
  then show b: "REF_BIAS \<le> r" using kop_valid [OF jwfD(1) [OF wf] v] by simp
  have io: "ins_ok J (j_ir J r)" by (rule jwfD(2) [OF wf v b])
  have t: "if w then w64 (ity J r) else w32 (ity J r)" using o by (simp add: os_def)
  show s: "sem_ins (j_ir J r)"
    using io t c by (auto simp: ins_ok_def split: if_splits)
  then show "opnds_ok J (j_ir J r)" using io by (simp add: ins_ok_def)
  show "wide (j_ir J r) = w" using t width_disj by (cases w) (auto simp: wide_def)
  have "val_ins (j_ir J r)" using s c by (auto simp: val_ins_def pure_guard_def)
  then show "den J \<rho> r = ival J \<rho> (j_ir J r)" by (rule den_ins [OF wf v _ b])
  show "ir_op1 (j_ir J r) < r" "ir_op2 (j_ir J r) < r" using irwfD(3) [OF jwfD(1) [OF wf] v b] by simp_all
qed

lemma opnd_arith:
  assumes wf: "jwf J" and r: "oz J w r" "ir_o (j_ir J r) = op" "arithop op" "opcl op \<noteq> O32 \<or> \<not> w"
  shows "w \<Longrightarrow> den J \<rho> r = arith op (den J \<rho> (ir_op1 (j_ir J r))) (den J \<rho> (ir_op2 (j_ir J r)))"
    "\<not> w \<Longrightarrow> d32 J \<rho> r = arith op (d32 J \<rho> (ir_op1 (j_ir J r))) (d32 J \<rho> (ir_op2 (j_ir J r)))"
proof -
  have "ir_o (j_ir J r) \<noteq> IR_KINT" using r(2,3) by (auto simp: arithop_def opcl_def)
  moreover have "opcl (ir_o (j_ir J r)) \<in> {OBun, OShift, OBit, ORing} \<or> opcl (ir_o (j_ir J r)) = O32 \<and> \<not> w"
    using r(2-4) by (auto simp: arithop_def)
  ultimately have "den J \<rho> r = ival J \<rho> (j_ir J r)" "wide (j_ir J r) = w"
    using opnd_ins(3,4) [OF wf r(1)] by blast+
  then show "w \<Longrightarrow> den J \<rho> r = arith op (den J \<rho> (ir_op1 (j_ir J r))) (den J \<rho> (ir_op2 (j_ir J r)))"
    "\<not> w \<Longrightarrow> d32 J \<rho> r = arith op (d32 J \<rho> (ir_op1 (j_ir J r))) (d32 J \<rho> (ir_op2 (j_ir J r)))"
    using ival_arith [of "j_ir J r" J \<rho>] r(2,3) by simp_all
qed

section \<open>Results\<close>

lemma gok_val: "opcl (ir_o i) \<noteq> OCmp \<Longrightarrow> opcl (ir_o i) \<noteq> OAbc \<Longrightarrow> \<not> ovop (ir_o i) \<Longrightarrow> gok J \<rho> i"
  by (auto simp: gok_def gval_def opcl_iff)

lemma ref_eqI:
  assumes "jwf J" "oz J (wide i) r" "arithop (ir_o i)"
    "wide i \<Longrightarrow> den J \<rho> r = arith (ir_o i) (den J \<rho> (ir_op1 i)) (den J \<rho> (ir_op2 i))"
    "\<not> wide i \<Longrightarrow> d32 J \<rho> r = arith (ir_o i) (d32 J \<rho> (ir_op1 i)) (d32 J \<rho> (ir_op2 i))"
  shows "den J \<rho> r = ival J \<rho> i"
proof (cases "wide i")
  case True
  then show ?thesis using assms by (simp add: ival_arith)
next
  case False
  then have "den J \<rho> r = ucast (d32 J \<rho> r)" using os_range [OF assms(1), of r \<rho>] assms(2) by (simp add: oz_def)
  then show ?thesis using False assms by (simp add: ival_arith)
qed

lemma ival_eqI:
  assumes "arithop (ir_o i)" "arithop (ir_o j)" "wide j = wide i"
    "wide i \<Longrightarrow> arith (ir_o j) (den J' \<rho> (ir_op1 j)) (den J' \<rho> (ir_op2 j)) = arith (ir_o i) (den J \<rho> (ir_op1 i)) (den J \<rho> (ir_op2 i))"
    "\<not> wide i \<Longrightarrow> arith (ir_o j) (d32 J' \<rho> (ir_op1 j)) (d32 J' \<rho> (ir_op2 j)) = arith (ir_o i) (d32 J \<rho> (ir_op1 i)) (d32 J \<rho> (ir_op2 i))"
  shows "ival J' \<rho> j = ival J \<rho> i"
  using assms by (cases "wide i") (simp_all add: ival_arith)

lemma ref_post:
  assumes "jwf J" "res_ok J (wide (j_fins J)) r" "\<not> pure_guard (fo J)"
    "\<And>\<rho>. tr J \<rho> \<Longrightarrow> gok J \<rho> (j_fins J) \<and> den J \<rho> r = ival J \<rho> (j_fins J)"
  shows "step_post J (J, FoldRef r)"
  using assms by (auto simp: step_post_def fold_post_def)

lemma int_post:
  assumes "jwf J" "\<not> pure_guard (fo J)" "wide (j_fins J) \<Longrightarrow> k = 0"
    "\<And>\<rho>. tr J \<rho> \<Longrightarrow> gok J \<rho> (j_fins J) \<and> ival J \<rho> (j_fins J) = ucast k"
  shows "ok_oob (step_post J) (INTFOLD J k)"
  using assms ext_regs [OF assms(1) same_set_regs(6,12)]
  by (auto simp: INTFOLD_def step_post_def)

lemma int64_post:
  assumes "jwf J" "\<not> pure_guard (fo J)" "wide (j_fins J)"
    "\<And>\<rho>. tr J \<rho> \<Longrightarrow> gok J \<rho> (j_fins J) \<and> ival J \<rho> (j_fins J) = k"
  shows "ok_oob (step_post J) (INT64FOLD J k)"
  unfolding INT64FOLD_def fold_ref_def
proof (rule okr_bind [OF kint64_ok [OF jwfD(1) [OF assms(1)]]])
  fix x :: "jit \<times> nat"
  obtain J' r where x: "x = (J', r)" by (cases x)
  assume "case x of (J', r) \<Rightarrow> k_added J J' r \<and> ir_o (j_ir J' r) = IR_KINT64 \<and> k64_val (j_k64 J') (ir_k (j_ir J' r)) = k"
  then have a: "k_added J J' r" "ir_o (j_ir J' r) = IR_KINT64" "k64_val (j_k64 J') (ir_k (j_ir J' r)) = k"
    unfolding x prod.case by blast+
  have e: "ext J J'" by (rule ext_k [OF assms(1) a(1)])
  have v: "ir_valid J' r" using a(1) by (simp add: k_added_def)
  note k = ins_k64 [OF extD(1) [OF e] v a(2)]
  have "step_post J (J', FoldRef r)"
    unfolding step_post_def prod.case foldres.case fold_post_def okr_simps
    using extD [OF e] assms(2-4) k(2,3) a(3) by (auto simp: res_ok_def oz_def)
  then show "ok_oob (step_post J) (case x of (J, r) \<Rightarrow> Inr (J, FoldRef r))" by (simp add: x)
qed

lemma next_post [simp]: "ok_oob (step_post J) (fold_ret J NEXTFOLD)"
  by (simp add: fold_ret_def step_post_def)

lemma cond_post:
  assumes "jwf J" "pure_guard (fo J)" "\<And>\<rho>. tr J \<rho> \<Longrightarrow> gok J \<rho> (j_fins J) = c"
  shows "ok_oob (step_post J) (CONDFOLD J c)"
  using assms by (cases c) (auto simp: CONDFOLD_def step_post_def)

lemma retry_post:
  assumes "jwf J" "same_ir J J'" "same_env J J'" "fin_ok J (j_fins J')" "pure_guard (fo J') = pure_guard (fo J)"
    "wide (j_fins J') = wide (j_fins J)" "meas J (j_fins J') < meas J (j_fins J)"
    "\<And>\<rho>. tr J \<rho> \<Longrightarrow> gok J \<rho> (j_fins J') = gok J \<rho> (j_fins J)"
    "\<And>\<rho>. tr J \<rho> \<Longrightarrow> \<not> pure_guard (fo J) \<Longrightarrow> ival J \<rho> (j_fins J') = ival J \<rho> (j_fins J)"
  shows "ok_oob (step_post J) (fold_ret J' RETRYFOLD)"
  using assms ext_regs [OF assms(1-3)] sem_same [OF assms(2)]
  by (simp add: fold_ret_def step_post_def)

text \<open>The second operand becomes a constant.\<close>

definition kref :: "jit \<Rightarrow> jit \<Rightarrow> nat \<Rightarrow> bool" where
  "kref J J' r \<longleftrightarrow> ext J J' \<and> ir_valid J' r \<and> r < REF_BIAS"

lemma retry_k_post:
  assumes "jwf J" "same_ir J J1" "same_env J J1" "ok_oob (\<lambda>(J', r). k_added J1 J' r \<and> P J' r) m"
    "\<And>J' r. kref J J' r \<Longrightarrow> P J' r \<Longrightarrow>
       fin_ok J' ((j_fins J1)\<lparr>ir_op2 := r\<rparr>) \<and> pure_guard (fo J1) = pure_guard (fo J) \<and>
       wide (j_fins J1) = wide (j_fins J) \<and> meas J' ((j_fins J1)\<lparr>ir_op2 := r\<rparr>) < meas J (j_fins J) \<and>
       (\<forall>\<rho>. tr J \<rho> \<longrightarrow> gok J' \<rho> ((j_fins J1)\<lparr>ir_op2 := r\<rparr>) = gok J \<rho> (j_fins J) \<and>
          (\<not> pure_guard (fo J) \<longrightarrow> ival J' \<rho> ((j_fins J1)\<lparr>ir_op2 := r\<rparr>) = ival J \<rho> (j_fins J)))"
  shows "ok_oob (step_post J) (retry_op2 m)"
  unfolding retry_op2_def
proof (rule okr_bind [OF assms(4)])
  fix x :: "jit \<times> nat"
  obtain J' r where x: "x = (J', r)" by (cases x)
  assume "case x of (J', r) \<Rightarrow> k_added J1 J' r \<and> P J' r"
  then have a: "k_added J1 J' r" "P J' r" unfolding x prod.case by blast+
  have e1: "ext J J1" by (rule ext_regs [OF assms(1-3)])
  have e2: "ext J1 J'" by (rule ext_k [OF extD(1) [OF e1] a(1)])
  have e: "ext J J'" by (rule ext_trans [OF e1 e2])
  have f: "j_fins J' = j_fins J1" using a(1) by (simp add: k_added_def same_regs_def)
  have k: "kref J J' r" using e a(1) by (simp add: kref_def k_added_def)
  note p = assms(5) [OF k a(2)]
  have s: "same_ir J' (set_op2 r J')" "same_env J' (set_op2 r J')" by (rule same_set_regs)+
  have e3: "ext J (set_op2 r J')" by (rule ext_trans [OF e ext_regs [OF extD(1) [OF e] s]])
  have "step_post J (set_op2 r J', RETRYFOLD)"
    unfolding step_post_def prod.case foldres.case using e3 p f sem_same [OF s(1)] by (simp add: wide_def)
  then show "ok_oob (step_post J) (case x of (J, r) \<Rightarrow> Inr (set_op2 r J, RETRYFOLD))" by (simp add: x)
qed

end
