(* ===== verification/LJ_FoldOkK.thy ===== *)
theory LJ_FoldOkK
  imports LJ_FoldBase
begin

text \<open>
  Soundness of the fold functions, first part: keys that do not occur for integer
  instructions, and constant folding.
\<close>

section \<open>Keys that do not match an integer instruction\<close>

lemma opnds_oz:
  assumes "opnds_ok J i"
  shows "\<exists>w. oz J w (ir_op1 i)" "\<not> lit2 (ir_o i) \<Longrightarrow> \<exists>w. oz J w (ir_op2 i)"
  using assms by (cases "opcl (ir_o i)"; auto simp: opnds_ok_def Let_def oz_def lit2_def)+

lemma oz_kop:
  assumes "irwf J" "oz J w r" "kop (ir_o (j_ir J r))"
  shows "ir_o (j_ir J r) = IR_KINT \<or> ir_o (j_ir J r) = IR_KINT64"
proof -
  have v: "ir_valid J r" by (rule os_valid(2) [OF assms(2)])
  have b: "r < REF_BIAS" using kop_valid [OF assms(1) v] assms(3) by simp
  show ?thesis using assms(2) kins_w(1,2) [OF assms(1) v b] by (auto simp: oz_def os_def k0_def split: if_splits)
qed

lemma vac_other: "opcl op = OOther \<Longrightarrow> rule_ok (op, l, r) f"
proof (rule rule_okI)
  fix ff J assume o: "opcl op = OOther" and p: "fpre ff J" and k: "key_match J (op, l, r)"
  then have "opcl (fo J) = OOther" using keyD(1) [OF p k] by simp
  then show "ok_oob (step_post J) (f ff J)" using sem_cases(1) [OF fpreD(4) [OF p]] by simp
qed

lemma vac_left:
  assumes "kop x" "x \<noteq> IR_KINT" "x \<noteq> IR_KINT64"
  shows "rule_ok (op, LOp x, r) f"
proof (rule rule_okI)
  fix ff J assume p: "fpre ff J" and k: "key_match J (op, LOp x, r)"
  have "ir_o (j_ir J (fop1 J)) = x" using keyD(2) [OF p k refl] .
  then show "ok_oob (step_post J) (f ff J)" using opnds_oz(1) [OF fpreD(5) [OF p]] oz_kop [OF fpreD(2) [OF p]] assms by metis
qed

lemma vac_right:
  assumes "kop x" "x \<noteq> IR_KINT" "x \<noteq> IR_KINT64"
  shows "rule_ok (op, l, ROp x) f"
proof (rule rule_okI)
  fix ff J assume p: "fpre ff J" and k: "key_match J (op, l, ROp x)"
  have v: "ir_o (j_ir J (fop2 J)) = x" "ir_valid J (fop2 J)" using keyD(3,4) [OF p k refl] by simp_all
  have "\<not> lit2 (fo J)" using opnds_valid(2) [OF fpreD(5) [OF p]] v(2) lit_not_valid [OF fpreD(2) [OF p]] by blast
  then show "ok_oob (step_post J) (f ff J)"
    using opnds_oz(2) [OF fpreD(5) [OF p]] oz_kop [OF fpreD(2) [OF p]] assms v(1) by metis
qed

lemma lit_key:
  "irconv_src (n mod 0x400) = irconv_src n" "irconv_dst (n mod 0x400) = irconv_dst n"
  "int_conv (n mod 0x400) = int_conv n" "conv64 (n mod 0x400) = conv64 n" "src64 (n mod 0x400) = src64 n"
  "src32 (n mod 0x400) = src32 n" "src_small (n mod 0x400) = src_small n"
proof -
  show s: "irconv_src (n mod 0x400) = irconv_src n" by (simp add: irconv_src_def mod_mod_cancel)
  have "n mod (32 * 32) div 32 = n div 32 mod 32" by (simp only: mod_mult2_eq)
  then show d: "irconv_dst (n mod 0x400) = irconv_dst n" by (simp add: irconv_dst_def)
  show "int_conv (n mod 0x400) = int_conv n" "conv64 (n mod 0x400) = conv64 n" "src64 (n mod 0x400) = src64 n"
    "src32 (n mod 0x400) = src32 n" "src_small (n mod 0x400) = src_small n"
    by (simp_all add: int_conv_def conv64_def conv32_def src64_def src32_def src_small_def s d)
qed

lemma vac_conv:
  assumes "\<not> int_conv n"
  shows "rule_ok (IR_CONV, l, RLit n) f"
proof (rule rule_okI)
  fix ff J assume p: "fpre ff J" and k: "key_match J (IR_CONV, l, RLit n)"
  have "int_conv (fop2 J)" using sem_cases(2) [OF fpreD(4) [OF p]] keyD(1) [OF p k] by simp
  moreover have "fop2 J mod 0x400 = n" by (rule keyD(5) [OF p k refl])
  ultimately show "ok_oob (step_post J) (f ff J)" using lit_key(3) [of "fop2 J"] assms by simp
qed

lemma vac_32:
  assumes "opcl op = O32"
  shows "rule_ok (op, LOp IR_KINT64, r) f" "rule_ok (op, l, ROp IR_KINT64) f"
proof -
  have o: "os J False (fop1 J)" "os J False (fop2 J)" if "fpre ff J" "fo J = op" for ff J
    using fpreD(5) [OF that(1)] assms that(2) by (simp_all add: opnds_ok_cl)
  show "rule_ok (op, LOp IR_KINT64, r) f"
  proof (rule rule_okI)
    fix ff J assume p: "fpre ff J" and k: "key_match J (op, LOp IR_KINT64, r)"
    then show "ok_oob (step_post J) (f ff J)"
      using ins_k64(4) [OF fpreD(1,10) [OF p] keyD(2) [OF p k refl]] o [OF p keyD(1) [OF p k]] by simp
  qed
  show "rule_ok (op, l, ROp IR_KINT64) f"
  proof (rule rule_okI)
    fix ff J assume p: "fpre ff J" and k: "key_match J (op, l, ROp IR_KINT64)"
    then show "ok_oob (step_post J) (f ff J)"
      using ins_k64(4) [OF fpreD(1) [OF p] keyD(3,4) [OF p k refl]] o [OF p keyD(1) [OF p k]] by simp
  qed
qed

section \<open>32-bit constants\<close>

lemma shc32: "shc (k :: u32) = unat (k AND 31)"
proof -
  have "k AND 31 = k AND mask 5" by (simp add: mask_eq_exp_minus_1)
  then have "unat (k AND 31) = unat k mod 2 ^ 5"
    by (simp only: take_bit_eq_mask [symmetric] unsigned_take_bit_eq) (simp only: take_bit_eq_mod)
  then show ?thesis by (simp add: shc_def)
qed

lemma shc64: "shc (k :: u64) = unat (k AND 63)"
proof -
  have "k AND 63 = k AND mask 6" by (simp add: mask_eq_exp_minus_1)
  then have "unat (k AND 63) = unat k mod 2 ^ 6"
    by (simp only: take_bit_eq_mask [symmetric] unsigned_take_bit_eq) (simp only: take_bit_eq_mod)
  then show ?thesis by (simp add: shc_def)
qed

lemma shc64_32: "shc (ucast (k :: u32) :: u64) = unat (k AND 63)"
proof -
  have "k AND 63 = k AND mask 6" by (simp add: mask_eq_exp_minus_1)
  then have "unat (k AND 63) = unat k mod 2 ^ 6"
    by (simp only: take_bit_eq_mask [symmetric] unsigned_take_bit_eq) (simp only: take_bit_eq_mod)
  then show ?thesis by (simp add: shc_def unsigned_ucast_eq take_bit_eq_mod mod_mod_cancel)
qed

definition kf_op :: "irop \<Rightarrow> bool" where
  "kf_op op \<longleftrightarrow> op \<in> {IR_ADD, IR_SUB, IR_MUL, IR_MOD, IR_NEG, IR_BAND, IR_BOR, IR_BXOR, IR_BSHL, IR_BSHR,
     IR_BSAR, IR_BROL, IR_BROR, IR_MIN, IR_MAX}"

lemma kfold_intop_arith:
  assumes "kf_op op" "op = IR_MOD \<Longrightarrow> k2 \<noteq> 0"
  shows "kfold_intop k1 k2 op = Inr (arith op k1 k2)"
proof -
  from assms(1) consider "op = IR_ADD" | "op = IR_SUB" | "op = IR_MUL" | "op = IR_MOD" | "op = IR_NEG" | "op = IR_BAND"
    | "op = IR_BOR" | "op = IR_BXOR" | "op = IR_BSHL" | "op = IR_BSHR" | "op = IR_BSAR" | "op = IR_BROL" | "op = IR_BROR"
    | "op = IR_MIN" | "op = IR_MAX" unfolding kf_op_def by blast
  then show ?thesis
  proof cases
    case 4
    then show ?thesis using modi_floor [OF assms(2)] by (simp add: kfold_intop_def)
  qed (simp_all add: kfold_intop_def Let_def shc32 lj_rol_def lj_ror_def word_sless_alt)
qed

lemma kf_op_arith: "kf_op op \<Longrightarrow> arithop op" "kf_op op \<Longrightarrow> \<not> ovop op" "kf_op op \<Longrightarrow> opcl op \<noteq> OBun"
  by (auto simp: kf_op_def ovop_def)

lemma arith_guard: "arithop op \<Longrightarrow> \<not> pure_guard op" "arithop op \<Longrightarrow> opcl op \<noteq> OCmp" "arithop op \<Longrightarrow> opcl op \<noteq> OAbc"
  by (auto simp: arithop_def pure_guard_def)

lemma zero_arith: "opcl op = ORing \<Longrightarrow> arith op 0 0 = (0 :: 'a::len word)"
  "opcl op = OShift \<Longrightarrow> arith op 0 b = (0 :: 'a::len word)"
  by (auto simp: opcl_def arith_def split: if_splits)

lemma ok_kfold_intarith:
  assumes "kf_op op"
  shows "rule_ok (op, LOp IR_KINT, ROp IR_KINT) kfold_intarith"
proof (rule rule_okI)
  fix ff J assume p: "fpre ff J" and k: "key_match J (op, LOp IR_KINT, ROp IR_KINT)"
  note o = keyD(1) [OF p k] and ol = keyD(2) [OF p k refl] and v = keyD(3) [OF p k refl] and or = keyD(4) [OF p k refl]
  note wf = fpreD(1) [OF p] and L = fpreD(7) [OF p] and R = fpreD(8) [OF p v] and ok = fpreD(5) [OF p]
  note ka = ins_k [OF wf fpreD(10) [OF p] ol] and kb = ins_k [OF wf v or]
  let ?a = "ir_i (j_ir J (fop1 J))" and ?b = "ir_i (j_ir J (fop2 J))"
  have m: "?b \<noteq> 0" if "op = IR_MOD"
    using fpreD(3) [OF p] that o v or by (auto simp: fin_ok_def k0_def)
  have e: "kfold_intarith ff J = INTFOLD J (arith op ?a ?b)"
    using kfold_intop_arith [OF assms m] by (simp add: kfold_intarith_def L R o)
  have w: "?a = 0 \<and> (opcl op = ORing \<and> ?b = 0 \<or> opcl op = OShift)" if "wide (j_fins J)"
  proof -
    have "opcl op \<noteq> O32" using sem_cases(4) [OF fpreD(4) [OF p]] that o by auto
    then have "opcl op \<in> {OShift, OBit, ORing}" using assms by (auto simp: kf_op_def)
    then show ?thesis using ok that o ka(4,6) kb(4) by (auto simp: opnds_ok_cl)
  qed
  show "ok_oob (step_post J) (kfold_intarith ff J)"
    unfolding e
  proof (rule int_post [OF wf])
    show "\<not> pure_guard (fo J)" using arith_guard(1) kf_op_arith(1) [OF assms] o by simp
    show "arith op ?a ?b = 0" if "wide (j_fins J)" using w [OF that] zero_arith by auto
    fix \<rho>
    have "ival J \<rho> (j_fins J) = ucast (arith op ?a ?b)"
    proof (cases "wide (j_fins J)")
      case True
      have "arith op 0 (den J \<rho> (fop2 J)) = 0" "arith op 0 ?b = 0"
        using w [OF True] zero_arith kb(2) by auto
      then show ?thesis using True w [OF True] o ka(2) kf_op_arith(1) [OF assms] by (simp add: ival_arith)
    next
      case False
      then show ?thesis using o ka(5) kb(5) kf_op_arith(1) [OF assms] by (simp add: ival_arith)
    qed
    then show "gok J \<rho> (j_fins J) \<and> ival J \<rho> (j_fins J) = ucast (arith op ?a ?b)"
      using gok_val [of "j_fins J"] o kf_op_arith [OF assms] arith_guard [of op] by simp
  qed
qed

lemma ok_kfold_intovarith:
  assumes "ovop op"
  shows "rule_ok (op, LOp IR_KINT, ROp IR_KINT) kfold_intovarith"
proof (rule rule_okI)
  fix ff J assume p: "fpre ff J" and k: "key_match J (op, LOp IR_KINT, ROp IR_KINT)"
  note o = keyD(1) [OF p k] and ol = keyD(2) [OF p k refl] and v = keyD(3) [OF p k refl] and or = keyD(4) [OF p k refl]
  note wf = fpreD(1) [OF p] and L = fpreD(7) [OF p] and R = fpreD(8) [OF p v]
  note ka = ins_k [OF wf fpreD(10) [OF p] ol] and kb = ins_k [OF wf v or]
  let ?a = "ir_i (j_ir J (fop1 J))" and ?b = "ir_i (j_ir J (fop2 J))"
  define n where "n = (if op = IR_ADDOV then sint ?a + sint ?b else if op = IR_SUBOV then sint ?a - sint ?b
      else sint ?a * sint ?b)"
  have op: "opcl op = O32" "arithop op" using assms by (auto simp: ovop_def)
  have nw: "\<not> wide (j_fins J)" using sem_cases(4) [OF fpreD(4) [OF p]] o op by simp
  have ng: "\<not> pure_guard (fo J)" using op o by (simp add: pure_guard_def)
  have e: "kfold_intovarith ff J = (if n < - (2 ^ 31) \<or> n \<ge> 2 ^ 31 then fold_ret J FAILFOLD else INTFOLD J (of_int n))"
    by (simp add: kfold_intovarith_def L R o n_def)
  have g: "gok J \<rho> (j_fins J) \<longleftrightarrow> - (2 ^ 31) \<le> n \<and> n < 2 ^ 31" for \<rho>
  proof -
    have "gok J \<rho> (j_fins J) = noov op ?a ?b"
      using o op assms ka(5) kb(5) by (auto simp: gok_def gval_def)
    then show ?thesis by (simp add: noov_def n_def Let_def)
  qed
  have "of_int n = arith op ?a ?b" using assms by (auto simp: ovop_def n_def)
  then have val: "ival J \<rho> (j_fins J) = ucast (of_int n :: u32)" for \<rho>
    using nw op o ka(5) kb(5) by (simp add: ival_arith)
  show "ok_oob (step_post J) (kfold_intovarith ff J)"
  proof (cases "n < - (2 ^ 31) \<or> n \<ge> 2 ^ 31")
    case True
    then show ?thesis unfolding e using g by (auto simp: fold_ret_def step_post_def)
  next
    case False
    then have "ok_oob (step_post J) (INTFOLD J (of_int n))"
      by (intro int_post [OF wf ng]) (use nw g val in simp_all)
    then show ?thesis unfolding e using False by simp
  qed
qed

lemma ok_kfold_bnot: "rule_ok (IR_BNOT, LOp IR_KINT, r) kfold_bnot"
proof (rule rule_okI)
  fix ff J assume p: "fpre ff J" and k: "key_match J (IR_BNOT, LOp IR_KINT, r)"
  note o = keyD(1) [OF p k] and ol = keyD(2) [OF p k refl] and L = fpreD(7) [OF p] and wf = fpreD(1) [OF p]
  note ka = ins_k [OF wf fpreD(10) [OF p] ol]
  have nw: "\<not> wide (j_fins J)" using fpreD(5) [OF p] o ka(6) by (auto simp: opnds_ok_cl)
  show "ok_oob (step_post J) (kfold_bnot ff J)"
    unfolding kfold_bnot_def L
    by (rule int_post [OF wf]) (use o nw ka(5) in \<open>simp_all add: pure_guard_def ival_arith gok_val ovop_def\<close>)
qed

lemma ok_kfold_bswap: "rule_ok (IR_BSWAP, LOp IR_KINT, r) kfold_bswap"
proof (rule rule_okI)
  fix ff J assume p: "fpre ff J" and k: "key_match J (IR_BSWAP, LOp IR_KINT, r)"
  note o = keyD(1) [OF p k] and ol = keyD(2) [OF p k refl] and L = fpreD(7) [OF p] and wf = fpreD(1) [OF p]
  note ka = ins_k [OF wf fpreD(10) [OF p] ol]
  have nw: "\<not> wide (j_fins J)" using fpreD(5) [OF p] o ka(6) by (auto simp: opnds_ok_cl)
  show "ok_oob (step_post J) (kfold_bswap ff J)"
    unfolding kfold_bswap_def L
    by (rule int_post [OF wf]) (use o nw ka(5) in \<open>simp_all add: pure_guard_def ival_def opval_def gok_val ovop_def\<close>)
qed

lemma ok_kfold_intcomp:
  assumes "opcl op = OCmp \<and> op \<noteq> IR_EQ \<and> op \<noteq> IR_NE \<or> op = IR_ABC"
  shows "rule_ok (op, LOp IR_KINT, ROp IR_KINT) kfold_intcomp"
proof (rule rule_okI)
  fix ff J assume p: "fpre ff J" and k: "key_match J (op, LOp IR_KINT, ROp IR_KINT)"
  note o = keyD(1) [OF p k] and ol = keyD(2) [OF p k refl] and v = keyD(3) [OF p k refl] and or = keyD(4) [OF p k refl]
  note wf = fpreD(1) [OF p] and L = fpreD(7) [OF p] and R = fpreD(8) [OF p v]
  note ka = ins_k [OF wf fpreD(10) [OF p] ol] and kb = ins_k [OF wf v or]
  let ?a = "ir_i (j_ir J (fop1 J))" and ?b = "ir_i (j_ir J (fop2 J))"
  have pg: "pure_guard (fo J)" using assms o by (auto simp: pure_guard_def)
  define c where "c = (if op = IR_ABC then ?b < ?a else cmpval op ?a ?b)"
  have ops: "op = IR_LT \<or> op = IR_GE \<or> op = IR_LE \<or> op = IR_GT \<or> op = IR_ULT \<or> op = IR_UGE \<or> op = IR_ULE \<or> op = IR_UGT \<or> op = IR_ABC"
    using assms by (auto simp: opcl_def split: if_splits)
  then have e: "kfold_intcomp ff J = CONDFOLD J c"
    by (elim disjE) (simp_all add: kfold_intcomp_def Let_def L R o c_def word_sless_alt word_sle_eq)
  have "gok J \<rho> (j_fins J) = c" for \<rho>
  proof (cases "op = IR_ABC")
    case True
    then show ?thesis using o ka(5) kb(5) by (simp add: gok_def gval_def c_def)
  next
    case False
    then have cl: "opcl op = OCmp" using assms by simp
    then have "\<not> wide (j_fins J)" using fpreD(5) [OF p] o ka(6) by (auto simp: opnds_ok_cl)
    then show ?thesis using o cl False ka(5) kb(5) by (simp add: gok_def gval_def c_def)
  qed
  then show "ok_oob (step_post J) (kfold_intcomp ff J)" unfolding e by (rule cond_post [OF wf pg])
qed

lemma drop_post:
  assumes "jwf J" "pure_guard (fo J)" "\<And>\<rho>. tr J \<rho> \<Longrightarrow> gok J \<rho> (j_fins J)"
  shows "ok_oob (step_post J) (fold_ret J DROPFOLD)"
  using assms by (auto simp: fold_ret_def step_post_def)

lemma ok_kfold_intcomp0: "rule_ok (IR_UGE, LAny, ROp IR_KINT) kfold_intcomp0"
proof (rule rule_okI)
  fix ff J assume p: "fpre ff J" and k: "key_match J (IR_UGE, LAny, ROp IR_KINT)"
  note o = keyD(1) [OF p k] and v = keyD(3) [OF p k refl] and or = keyD(4) [OF p k refl]
  note wf = fpreD(1) [OF p] and R = fpreD(8) [OF p v] and kb = ins_k [OF wf v or]
  have nw: "\<not> wide (j_fins J)" using fpreD(5) [OF p] o kb(6) by (auto simp: opnds_ok_cl)
  show "ok_oob (step_post J) (kfold_intcomp0 ff J)"
  proof (cases "ir_i (j_fright J) = 0")
    case True
    then have "ok_oob (step_post J) (fold_ret J DROPFOLD)"
      by (intro drop_post [OF wf]) (use o nw kb(5) R in \<open>simp_all add: pure_guard_def gok_def gval_def\<close>)
    then show ?thesis using True by (simp add: kfold_intcomp0_def)
  next
    case False
    then show ?thesis by (simp add: kfold_intcomp0_def)
  qed
qed


section \<open>64-bit constants\<close>

lemma ok_kfold_int64arith:
  assumes "op = IR_ADD \<or> op = IR_SUB \<or> op = IR_MUL \<or> op = IR_BAND \<or> op = IR_BOR \<or> op = IR_BXOR"
  shows "rule_ok (op, LOp IR_KINT64, ROp IR_KINT64) kfold_int64arith"
proof (rule rule_okI)
  fix ff J assume p: "fpre ff J" and k: "key_match J (op, LOp IR_KINT64, ROp IR_KINT64)"
  note o = keyD(1) [OF p k] and ol = keyD(2) [OF p k refl] and v = keyD(3) [OF p k refl] and or = keyD(4) [OF p k refl]
  note wf = fpreD(1) [OF p] and L = fpreD(7) [OF p] and R = fpreD(8) [OF p v]
  note ka = ins_k64 [OF wf fpreD(10) [OF p] ol] and kb = ins_k64 [OF wf v or]
  have cl: "opcl op = ORing \<or> opcl op = OBit" "arithop op" "\<not> ovop op" using assms by (auto simp: ovop_def)
  have w: "wide (j_fins J)" using fpreD(5) [OF p] o cl(1) ka(4,5) by (cases "wide (j_fins J)") (auto simp: opnds_ok_cl)
  have a: "kfold_int64arith_op x y op = arith op x y" for x y
    using assms by (auto simp: kfold_int64arith_op_def)
  show "ok_oob (step_post J) (kfold_int64arith ff J)"
    unfolding kfold_int64arith_def
  proof (rule int64_post [OF wf _ w])
    show "\<not> pure_guard (fo J)" using cl(2) o arith_guard(1) by simp
    fix \<rho>
    show "gok J \<rho> (j_fins J) \<and> ival J \<rho> (j_fins J) = kfold_int64arith_op (kleft64 J) (kright64 J) (fo J)"
      using gok_val [of "j_fins J"] arith_guard [OF cl(2)] cl(2,3) o w ka(2) kb(2)
      by (simp add: a ival_arith kleft64_def kright64_def L R)
  qed
qed

lemma ok_kfold_int64shift:
  assumes "opcl op = OShift"
  shows "rule_ok (op, LOp IR_KINT64, ROp IR_KINT) kfold_int64shift"
proof (rule rule_okI)
  fix ff J assume p: "fpre ff J" and k: "key_match J (op, LOp IR_KINT64, ROp IR_KINT)"
  note o = keyD(1) [OF p k] and ol = keyD(2) [OF p k refl] and v = keyD(3) [OF p k refl] and or = keyD(4) [OF p k refl]
  note wf = fpreD(1) [OF p] and L = fpreD(7) [OF p] and R = fpreD(8) [OF p v]
  note ka = ins_k64 [OF wf fpreD(10) [OF p] ol] and kb = ins_k [OF wf v or]
  have cl: "arithop op" "\<not> ovop op" using assms by (auto simp: ovop_def arithop_def)
  have w: "wide (j_fins J)" using fpreD(5) [OF p] o assms ka(5) by (cases "wide (j_fins J)") (auto simp: opnds_ok_cl)
  have ops: "op = IR_BSHL \<or> op = IR_BSHR \<or> op = IR_BSAR \<or> op = IR_BROL \<or> op = IR_BROR"
    using assms by (auto simp: opcl_def split: if_splits)
  let ?k = "kleft64 J" and ?b = "ir_i (j_ir J (fop2 J))"
  have e: "kfold_int64shift ff J = INT64FOLD J (arith op ?k (ucast ?b))"
    using ops by (elim disjE) (simp_all add: kfold_int64shift_def Let_def o R shc64_32)
  show "ok_oob (step_post J) (kfold_int64shift ff J)"
    unfolding e
  proof (rule int64_post [OF wf _ w])
    show "\<not> pure_guard (fo J)" using cl o arith_guard(1) by simp
    fix \<rho>
    show "gok J \<rho> (j_fins J) \<and> ival J \<rho> (j_fins J) = arith op ?k (ucast ?b)"
      using gok_val [of "j_fins J"] arith_guard [OF cl(1)] cl o w ka(2) kb(2)
      by (simp add: ival_arith kleft64_def L)
  qed
qed

lemma ok_kfold_bnot64: "rule_ok (IR_BNOT, LOp IR_KINT64, r) kfold_bnot64"
proof (rule rule_okI)
  fix ff J assume p: "fpre ff J" and k: "key_match J (IR_BNOT, LOp IR_KINT64, r)"
  note o = keyD(1) [OF p k] and ol = keyD(2) [OF p k refl] and L = fpreD(7) [OF p] and wf = fpreD(1) [OF p]
  note ka = ins_k64 [OF wf fpreD(10) [OF p] ol]
  have w: "wide (j_fins J)" using fpreD(5) [OF p] o ka(4) by (cases "wide (j_fins J)") (auto simp: opnds_ok_cl)
  show "ok_oob (step_post J) (kfold_bnot64 ff J)"
    unfolding kfold_bnot64_def
    by (rule int64_post [OF wf]) (use o w ka(2) L in \<open>simp_all add: pure_guard_def ival_arith gok_val ovop_def kleft64_def\<close>)
qed

lemma ok_kfold_bswap64: "rule_ok (IR_BSWAP, LOp IR_KINT64, r) kfold_bswap64"
proof (rule rule_okI)
  fix ff J assume p: "fpre ff J" and k: "key_match J (IR_BSWAP, LOp IR_KINT64, r)"
  note o = keyD(1) [OF p k] and ol = keyD(2) [OF p k refl] and L = fpreD(7) [OF p] and wf = fpreD(1) [OF p]
  note ka = ins_k64 [OF wf fpreD(10) [OF p] ol]
  have w: "wide (j_fins J)" using fpreD(5) [OF p] o ka(4) by (cases "wide (j_fins J)") (auto simp: opnds_ok_cl)
  show "ok_oob (step_post J) (kfold_bswap64 ff J)"
    unfolding kfold_bswap64_def
    by (rule int64_post [OF wf]) (use o w ka(2) L in \<open>simp_all add: pure_guard_def ival_def opval_def gok_val ovop_def kleft64_def\<close>)
qed

text \<open>Unsigned comparisons; the signed ones of two constants are excluded (see the findings).\<close>

lemma ok_kfold_int64comp:
  assumes "opcl op = OCmp" "op \<noteq> IR_EQ" "op \<noteq> IR_NE"
  shows "rule_ok (op, LOp IR_KINT64, ROp IR_KINT64) kfold_int64comp"
proof (rule rule_okI)
  fix ff J assume p: "fpre ff J" and k: "key_match J (op, LOp IR_KINT64, ROp IR_KINT64)"
  note o = keyD(1) [OF p k] and ol = keyD(2) [OF p k refl] and v = keyD(3) [OF p k refl] and or = keyD(4) [OF p k refl]
  note wf = fpreD(1) [OF p] and L = fpreD(7) [OF p] and R = fpreD(8) [OF p v]
  note ka = ins_k64 [OF wf fpreD(10) [OF p] ol] and kb = ins_k64 [OF wf v or]
  have w: "wide (j_fins J)" using fpreD(5) [OF p] o assms(1) ka(4) by (cases "wide (j_fins J)") (auto simp: opnds_ok_cl)
  have pg: "pure_guard (fo J)" using assms o by (simp add: pure_guard_def)
  have "\<not> scmp op" using fpreD(3) [OF p] o w ka(1) kb(1) by (simp add: fin_ok_def irref_isk_def)
  then have ops: "op = IR_ULT \<or> op = IR_UGE \<or> op = IR_ULE \<or> op = IR_UGT"
    using assms by (auto simp: opcl_def scmp_def split: if_splits)
  then have e: "kfold_int64comp ff J = CONDFOLD J (cmpval op (kleft64 J) (kright64 J))"
    by (elim disjE) (simp_all add: kfold_int64comp_def Let_def o)
  have "op \<noteq> IR_ABC" using assms(1) by auto
  then have "gok J \<rho> (j_fins J) = cmpval op (kleft64 J) (kright64 J)" for \<rho>
    using o w assms(1) ka(2) kb(2) by (simp add: gok_def gval_def kleft64_def kright64_def L R)
  then show "ok_oob (step_post J) (kfold_int64comp ff J)" unfolding e by (rule cond_post [OF wf pg])
qed

lemma ok_kfold_int64comp0: "rule_ok (IR_UGE, LAny, ROp IR_KINT64) kfold_int64comp0"
proof (rule rule_okI)
  fix ff J assume p: "fpre ff J" and k: "key_match J (IR_UGE, LAny, ROp IR_KINT64)"
  note o = keyD(1) [OF p k] and v = keyD(3) [OF p k refl] and or = keyD(4) [OF p k refl]
  note wf = fpreD(1) [OF p] and R = fpreD(8) [OF p v] and kb = ins_k64 [OF wf v or]
  have w: "wide (j_fins J)" using fpreD(5) [OF p] o kb(4) by (cases "wide (j_fins J)") (auto simp: opnds_ok_cl)
  show "ok_oob (step_post J) (kfold_int64comp0 ff J)"
  proof (cases "kright64 J = 0")
    case True
    then have "ok_oob (step_post J) (fold_ret J DROPFOLD)"
      by (intro drop_post [OF wf]) (use o w kb(2) R in \<open>simp_all add: pure_guard_def gok_def gval_def kright64_def\<close>)
    then show ?thesis using True by (simp add: kfold_int64comp0_def)
  next
    case False
    then show ?thesis by (simp add: kfold_int64comp0_def)
  qed
qed

section \<open>Conversions of constants\<close>

text \<open>What an integer conversion is, from the literal in the key.\<close>

lemma conv_fin:
  assumes p: "fpre ff J" and k: "key_match J (IR_CONV, l, r)"
  shows "int_conv (fop2 J)" "fop2 J < REF_LIT" "wide (j_fins J) = conv64 (fop2 J)" "oz J (src64 (fop2 J)) (fop1 J)"
    "ival J \<rho> (j_fins J) = convval (fop2 J) (den J \<rho> (fop1 J))" "gok J \<rho> (j_fins J)" "\<not> pure_guard (fo J)"
    "\<not> ir_valid J (fop2 J)"
proof -
  note o = keyD(1) [OF p k]
  show "int_conv (fop2 J)" using sem_cases(2) [OF fpreD(4) [OF p]] o by simp
  have ok: "fop2 J < REF_LIT \<and> (if conv64 (fop2 J) then w64 (irt_ty (ft J)) else a32 (irt_ty (ft J))) \<and>
      oz J (src64 (fop2 J)) (fop1 J)" using fpreD(5) [OF p] o by (simp add: opnds_ok_cl)
  then show "fop2 J < REF_LIT" "oz J (src64 (fop2 J)) (fop1 J)" by simp_all
  then show "\<not> ir_valid J (fop2 J)" using lit_not_valid [OF fpreD(2) [OF p]] by blast
  show "wide (j_fins J) = conv64 (fop2 J)" using ok a32_w by (auto simp: wide_def split: if_splits)
  show "ival J \<rho> (j_fins J) = convval (fop2 J) (den J \<rho> (fop1 J))" using o by (simp add: ival_def opval_def)
  show "gok J \<rho> (j_fins J)" "\<not> pure_guard (fo J)" using o by (simp_all add: gok_val ovop_def pure_guard_def)
qed

lemma src_excl: "src_small n \<Longrightarrow> \<not> src64 n" "src32 n \<Longrightarrow> \<not> src64 n" "src32 n \<Longrightarrow> \<not> src_small n"
  "src64 n \<Longrightarrow> \<not> src_small n" "conv64 n \<Longrightarrow> int_conv n \<Longrightarrow> src32 n" "conv64 n \<Longrightarrow> \<not> conv32 n"
  by (auto simp: src_small_def src64_def src32_def int_conv_def conv64_def conv32_def)

lemma convval_wide: "src32 n \<Longrightarrow> conv64 n \<Longrightarrow>
    convval n a = (if irconv_sext n then scast (ucast a :: u32) else ucast (ucast a :: u32))"
  and convval_nop: "\<not> src_small n \<Longrightarrow> \<not> conv64 n \<Longrightarrow> convval n a = ucast (ucast a :: u32)"
  by (auto simp: convval_def src32_def src_small_def Let_def)

lemma IRCONV_simps [simp]:
  "irconv_src (IRCONV d s) = irt_num s mod 32" "irconv_dst (IRCONV d s) = (irt_num d + irt_num s div 32) mod 32"
  by (simp_all add: IRCONV_def irconv_src_def irconv_dst_def)

lemma ok_kfold_conv_kint_ext:
  assumes "src_small n"
  shows "rule_ok (IR_CONV, LOp IR_KINT, RLit n) kfold_conv_kint_ext"
proof (rule rule_okI)
  fix ff J assume p: "fpre ff J" and k: "key_match J (IR_CONV, LOp IR_KINT, RLit n)"
  note c = conv_fin [OF p k] and L = fpreD(7) [OF p] and wf = fpreD(1) [OF p]
  note ka = ins_k [OF wf fpreD(10) [OF p] keyD(2) [OF p k refl]]
  have s: "src_small (fop2 J)" using lit_key(7) [of "fop2 J"] keyD(5) [OF p k refl] assms by simp
  have nw: "\<not> wide (j_fins J)" using c(1,3) src_excl(3,5) s by blast
  let ?i = "ir_i (j_ir J (fop1 J))"
  show "ok_oob (step_post J) (kfold_conv_kint_ext ff J)"
    unfolding kfold_conv_kint_ext_def Let_def L
  proof (rule int_post [OF wf c(7)])
    fix \<rho>
    have uu: "ucast (ucast ?i :: u64) = (ucast ?i :: 8 word)" "ucast (ucast ?i :: u64) = (ucast ?i :: 16 word)"
      by (rule bit_word_eqI; auto simp: bit_simps)+
    have "ucast (ucast (x :: 8 word) :: u32) = (ucast x :: u64)" "ucast (ucast (y :: 16 word) :: u32) = (ucast y :: u64)" for x y
      by (rule bit_word_eqI; auto simp: bit_simps dest: bit_imp_le_length)+
    then show "gok J \<rho> (j_fins J) \<and> ival J \<rho> (j_fins J) =
      ucast (if irconv_src (fop2 J) = irt_num IRT_I8 then scast (ucast ?i :: 8 word)
             else if irconv_src (fop2 J) = irt_num IRT_U8 then ucast (ucast ?i :: 8 word)
             else if irconv_src (fop2 J) = irt_num IRT_I16 then scast (ucast ?i :: 16 word)
             else ucast (ucast ?i :: 16 word) :: u32)"
      using c(5,6) s ka(2) by (auto simp: convval_def Let_def src_small_def uu)
  qed (use nw in simp)
qed

lemma ok_kfold_conv_kint_i64:
  assumes "conv64 n" "src32 n"
  shows "rule_ok (IR_CONV, LOp IR_KINT, RLit n) kfold_conv_kint_i64"
proof (rule rule_okI)
  fix ff J assume p: "fpre ff J" and k: "key_match J (IR_CONV, LOp IR_KINT, RLit n)"
  note c = conv_fin [OF p k] and L = fpreD(7) [OF p] and wf = fpreD(1) [OF p]
  note ka = ins_k [OF wf fpreD(10) [OF p] keyD(2) [OF p k refl]]
  have s: "src32 (fop2 J)" "conv64 (fop2 J)"
    using lit_key(4,6) [of "fop2 J"] keyD(5) [OF p k refl] assms by simp_all
  show "ok_oob (step_post J) (kfold_conv_kint_i64 ff J)"
    unfolding kfold_conv_kint_i64_def L
    by (rule int64_post [OF wf c(7)]) (use c s ka(2) in \<open>simp_all add: convval_wide\<close>)
qed

lemma ok_kfold_conv_kint64_int_i64:
  assumes "\<not> conv64 n" "\<not> src_small n"
  shows "rule_ok (IR_CONV, LOp IR_KINT64, RLit n) kfold_conv_kint64_int_i64"
proof (rule rule_okI)
  fix ff J assume p: "fpre ff J" and k: "key_match J (IR_CONV, LOp IR_KINT64, RLit n)"
  note c = conv_fin [OF p k] and L = fpreD(7) [OF p] and wf = fpreD(1) [OF p]
  note ka = ins_k64 [OF wf fpreD(10) [OF p] keyD(2) [OF p k refl]]
  have s: "\<not> conv64 (fop2 J)" "\<not> src_small (fop2 J)"
    using lit_key(4,7) [of "fop2 J"] keyD(5) [OF p k refl] assms by simp_all
  show "ok_oob (step_post J) (kfold_conv_kint64_int_i64 ff J)"
    unfolding kfold_conv_kint64_int_i64_def
    by (rule int_post [OF wf c(7)]) (use c s ka(2) L in \<open>simp_all add: convval_nop kleft64_def\<close>)
qed

section \<open>Equality of constants\<close>

text \<open>Constants are interned: the same reference means the same value.\<close>

lemma kint_unique:
  assumes "jwf J" "ir_valid J a" "ir_valid J b" "ir_o (j_ir J a) = IR_KINT" "ir_o (j_ir J b) = IR_KINT"
  shows "ir_i (j_ir J a) = ir_i (j_ir J b) \<longleftrightarrow> a = b"
  using irwfD(6) [OF jwfD(1) [OF assms(1)] assms(2,3)] ins_k(1) [OF assms(1,2,4)] ins_k(1) [OF assms(1,3,5)] assms(4,5)
  by (auto simp: same_k_def)

lemma kint64_unique:
  assumes "jwf J" "ir_valid J a" "ir_valid J b" "ir_o (j_ir J a) = IR_KINT64" "ir_o (j_ir J b) = IR_KINT64"
  shows "k64_val (j_k64 J) (ir_k (j_ir J a)) = k64_val (j_k64 J) (ir_k (j_ir J b)) \<longleftrightarrow> a = b"
proof
  assume e: "k64_val (j_k64 J) (ir_k (j_ir J a)) = k64_val (j_k64 J) (ir_k (j_ir J b))"
  note w = jwfD(1) [OF assms(1)]
  have b: "a < REF_BIAS" "b < REF_BIAS" using ins_k64(1) [OF assms(1)] assms(2-5) by blast+
  have ad: "k64_addr (j_k64 J) (ir_k (j_ir J a))" "k64_addr (j_k64 J) (ir_k (j_ir J b))"
    using irwfD(2) [OF w assms(2) b(1)] irwfD(2) [OF w assms(3) b(2)] assms(4,5) unfolding kins_ok_def by blast+
  have "ir_k (j_ir J a) = ir_k (j_ir J b)" by (rule k64_val_inj [OF irwfD(5) [OF w] ad e])
  then show "a = b" using irwfD(6) [OF w assms(2,3) b] assms(4,5) by (simp add: same_k_def)
qed simp

lemma ok_kfold_kref:
  assumes "op = IR_EQ \<or> op = IR_NE" "x = IR_KINT \<or> x = IR_KINT64"
  shows "rule_ok (op, LOp x, ROp x) kfold_kref"
proof (rule rule_okI)
  fix ff J assume p: "fpre ff J" and k: "key_match J (op, LOp x, ROp x)"
  note o = keyD(1) [OF p k] and ol = keyD(2) [OF p k refl] and v = keyD(3) [OF p k refl] and or = keyD(4) [OF p k refl]
  note wf = fpreD(1) [OF p] and va = fpreD(10) [OF p]
  have cl: "opcl op = OCmp" "op \<noteq> IR_ABC" using assms(1) by auto
  have os: "os J (wide (j_fins J)) (fop1 J)" using fpreD(5) [OF p] o cl by (simp add: opnds_ok_cl)
  have w: "wide (j_fins J) = (x = IR_KINT64)"
    using os ins_k(6) [OF wf va] ins_k64(4) [OF wf va] ol assms(2) by (cases "wide (j_fins J)") auto
  have eq: "(if x = IR_KINT64 then den J \<rho> (fop1 J) = den J \<rho> (fop2 J) else d32 J \<rho> (fop1 J) = d32 J \<rho> (fop2 J)) \<longleftrightarrow> fop1 J = fop2 J" for \<rho>
  proof (cases "x = IR_KINT64")
    case True
    then show ?thesis using kint64_unique [OF wf va v] ol or ins_k64(2) [OF wf va] ins_k64(2) [OF wf v] by simp
  next
    case False
    then have "x = IR_KINT" using assms(2) by simp
    then show ?thesis using kint_unique [OF wf va v] ol or ins_k(5) [OF wf va] ins_k(5) [OF wf v] by simp
  qed
  have "gok J \<rho> (j_fins J) = (if op = IR_EQ then fop1 J = fop2 J else fop1 J \<noteq> fop2 J)" for \<rho>
    unfolding eq [of \<rho>, symmetric] using assms(1) o cl w by (elim disjE) (simp_all add: gok_def gval_def)
  then have "gok J \<rho> (j_fins J) = ((fop1 J = fop2 J) \<noteq> (fo J = IR_NE))" for \<rho>
    using assms(1) o by auto
  then show "ok_oob (step_post J) (kfold_kref ff J)"
    unfolding kfold_kref_def by (intro cond_post [OF wf]) (use o cl in \<open>simp_all add: pure_guard_def\<close>)
qed

end
