(* ===== verification/LJ_FoldOkA.thy ===== *)
theory LJ_FoldOkA
  imports LJ_FoldOkK
begin

text \<open>
  Soundness of the fold functions, second part: retried instructions, negations and
  conversions.
\<close>

section \<open>Measure\<close>

lemma pos_less: "REF_BIAS \<le> s \<Longrightarrow> r < s \<Longrightarrow> pos r < pos s"
  by (auto simp: pos_def)

lemma pos_k [simp]: "r < REF_BIAS \<Longrightarrow> pos r = 0" by (simp add: pos_def)

lemma b2n_le: "b2n b \<le> 1" by (simp add: b2n_def)

lemma meas_split: "meas J i = rank (ir_o i) * 1048576 + 8 * (pos (ir_op1 i) + pos (ir_op2 i)) + 4 * b2n (ir_o i = IR_SUB) +
     2 * b2n (unmasked J i) + b2n (ir_op1 i < ir_op2 i)"
  by (simp add: meas_def)

lemma meas_num: "r' \<le> r \<Longrightarrow> p' < p \<Longrightarrow> a \<le> 1 \<Longrightarrow> b \<le> 1 \<Longrightarrow> c \<le> 1 \<Longrightarrow>
    r' * 1048576 + 8 * p' + 4 * a + 2 * b + c < r * 1048576 + 8 * p + 4 * a' + 2 * b' + (c' :: nat)"
  by linarith

lemma meas_ops:
  assumes "rank (ir_o j) \<le> rank (ir_o i)" "pos (ir_op1 j) + pos (ir_op2 j) < pos (ir_op1 i) + pos (ir_op2 i)"
  shows "meas J' j < meas J i"
  unfolding meas_split by (rule meas_num [OF assms b2n_le b2n_le b2n_le])

lemma meas_num':
  fixes r :: nat
  assumes "r' + 1 \<le> r" "p' \<le> 0x8000" "q' \<le> 0x8000" "a \<le> 1" "b \<le> 1" "c \<le> 1"
  shows "r' * 1048576 + 8 * (p' + q') + 4 * a + 2 * b + c < r * 1048576 + 8 * p + 4 * a' + 2 * b' + (c' :: nat)"
proof -
  have "8 * (p' + q') \<le> 524288" using assms(2,3) by simp
  moreover have "r' * 1048576 + 1048576 \<le> r * 1048576" using mult_le_mono1 [OF assms(1), of 1048576] by simp
  ultimately show ?thesis using assms(4-6) by linarith
qed

lemma meas_rank:
  assumes "rank (ir_o j) < rank (ir_o i)" "ir_op1 j < 0x10000" "ir_op2 j < 0x10000"
  shows "meas J' j < meas J i"
proof -
  have "pos (ir_op1 j) \<le> 0x8000" "pos (ir_op2 j) \<le> 0x8000" using assms(2,3) by (simp_all add: pos_def REF_BIAS_def)
  then show ?thesis unfolding meas_split by (intro meas_num' b2n_le) (use assms(1) in simp_all)
qed

lemma valid_lt: "irwf J \<Longrightarrow> ir_valid J r \<Longrightarrow> r < 0x10000"
  using irwfD(1) [of J] by (simp add: ir_valid_def ir_bounds_def REF_DROP_def)

lemma fin_op_lt:
  assumes "jwf J" "opnds_ok J i"
  shows "ir_op1 i < 0x10000" "ir_op2 i < 0x10000"
proof -
  have "j_nins J \<le> REF_DROP" using irwfD(1) [OF jwfD(1) [OF assms(1)]] by (simp add: ir_bounds_def)
  then show "ir_op1 i < 0x10000" "ir_op2 i < 0x10000" using fin_lt [OF assms] ref_defs(3) by linarith+
qed

section \<open>Retried instructions\<close>

lemma arith_retry:
  assumes p: "fpre ff J" and s: "same_ir J J'" "same_env J J'" and o: "arithop (fo J)" "\<not> ovop (fo J)"
    and o': "arithop (fo J')" "\<not> ovop (fo J')" and f: "fin_ok J (j_fins J')" "wide (j_fins J') = wide (j_fins J)"
    and m: "meas J (j_fins J') < meas J (j_fins J)"
    and w: "\<And>\<rho>. wide (j_fins J) \<Longrightarrow> arith (fo J') (den J \<rho> (fop1 J')) (den J \<rho> (fop2 J')) =
      arith (fo J) (den J \<rho> (fop1 J)) (den J \<rho> (fop2 J))"
      "\<And>\<rho>. \<not> wide (j_fins J) \<Longrightarrow> arith (fo J') (d32 J \<rho> (fop1 J')) (d32 J \<rho> (fop2 J')) =
      arith (fo J) (d32 J \<rho> (fop1 J)) (d32 J \<rho> (fop2 J))"
  shows "ok_oob (step_post J) (fold_ret J' RETRYFOLD)"
proof (rule retry_post [OF fpreD(1) [OF p] s f(1) _ f(2) m])
  show "pure_guard (fo J') = pure_guard (fo J)" using arith_guard(1) o(1) o'(1) by simp
  show "gok J \<rho> (j_fins J') = gok J \<rho> (j_fins J)" for \<rho>
    using gok_val [of "j_fins J"] gok_val [of "j_fins J'"] arith_guard [OF o(1)] arith_guard [OF o'(1)] o(2) o'(2) by simp
  show "ival J \<rho> (j_fins J') = ival J \<rho> (j_fins J)" for \<rho>
    by (rule ival_eqI [OF o(1) o'(1) f(2)]) (use w in simp_all)
qed

text \<open>The second operand becomes a 32-bit or a 64-bit constant.\<close>

lemma arith_retry_k:
  assumes p: "fpre ff J" and s: "same_ir J J1" "same_env J J1" and o: "arithop (fo J)" "\<not> ovop (fo J)"
    and o': "arithop (fo J1)" "\<not> ovop (fo J1)" "wide (j_fins J1) = wide (j_fins J)" and a: "ir_valid J (fop1 J1)"
    and q: "ok_oob (\<lambda>(J', r). k_added J1 J' r \<and> P J' r) m"
    and f: "\<And>J' r. kref J J' r \<Longrightarrow> P J' r \<Longrightarrow>
       fin_ok J' ((j_fins J1)\<lparr>ir_op2 := r\<rparr>) \<and> meas J' ((j_fins J1)\<lparr>ir_op2 := r\<rparr>) < meas J (j_fins J)"
    and v: "\<And>J' r \<rho>. kref J J' r \<Longrightarrow> P J' r \<Longrightarrow> (wide (j_fins J) \<longrightarrow> den J' \<rho> r = k) \<and> (\<not> wide (j_fins J) \<longrightarrow> d32 J' \<rho> r = kv)"
    and w: "\<And>\<rho>. wide (j_fins J) \<Longrightarrow> arith (fo J1) (den J \<rho> (fop1 J1)) k = arith (fo J) (den J \<rho> (fop1 J)) (den J \<rho> (fop2 J))"
      "\<And>\<rho>. \<not> wide (j_fins J) \<Longrightarrow> arith (fo J1) (d32 J \<rho> (fop1 J1)) kv = arith (fo J) (d32 J \<rho> (fop1 J)) (d32 J \<rho> (fop2 J))"
  shows "ok_oob (step_post J) (retry_op2 m)"
proof (rule retry_k_post [OF fpreD(1) [OF p] s q])
  fix J' r assume k: "kref J J' r" and P: "P J' r"
  let ?i = "(j_fins J1)\<lparr>ir_op2 := r\<rparr>"
  have e: "ext J J'" using k by (simp add: kref_def)
  have d: "den J' \<rho> (fop1 J1) = den J \<rho> (fop1 J1)" for \<rho>
    by (rule den_keeps [OF fpreD(1) [OF p] jwfD(1) [OF extD(1) [OF e]] extD(2) [OF e] a])
  have wd: "wide ?i = wide (j_fins J)" using o'(3) by (simp add: wide_def)
  have g: "gok J' \<rho> ?i = gok J \<rho> (j_fins J)" for \<rho>
    using gok_val [of "j_fins J"] gok_val [of ?i] arith_guard [OF o(1)] arith_guard [OF o'(1)] o(2) o'(2) by simp
  have "ival J' \<rho> ?i = ival J \<rho> (j_fins J)" for \<rho>
    by (rule ival_eqI) (use o(1) o'(1) wd w [of \<rho>] v [OF k P, of \<rho>] d in simp_all)
  then show "fin_ok J' ?i \<and> pure_guard (fo J1) = pure_guard (fo J) \<and> wide (j_fins J1) = wide (j_fins J) \<and>
      meas J' ?i < meas J (j_fins J) \<and> (\<forall>\<rho>. tr J \<rho> \<longrightarrow> gok J' \<rho> ?i = gok J \<rho> (j_fins J) \<and>
        (\<not> pure_guard (fo J) \<longrightarrow> ival J' \<rho> ?i = ival J \<rho> (j_fins J)))"
    using f [OF k P] g o'(3) arith_guard(1) [OF o(1)] arith_guard(1) [OF o'(1)] by simp
qed

text \<open>Typing of an instruction with a new constant.\<close>

lemma kref_kint:
  assumes "kref J J' r" "ir_o (j_ir J' r) = IR_KINT \<and> ir_i (j_ir J' r) = k"
  shows "os J' False r" "oz J' True r = (k = 0)" "den J' \<rho> r = ucast k" "d32 J' \<rho> r = k" "k0 J' r = (k = 0)"
proof -
  have e: "jwf J'" "ir_valid J' r" using assms(1) extD(1) by (auto simp: kref_def)
  note i = ins_k [OF e conjunct1 [OF assms(2)]]
  show "os J' False r" "oz J' True r = (k = 0)" "den J' \<rho> r = ucast k" "d32 J' \<rho> r = k" using i assms(2) by simp_all
  show "k0 J' r = (k = 0)" using assms(2) e(2) by (simp add: k0_def)
qed

lemma kref_kint64:
  assumes "kref J J' r" "ir_o (j_ir J' r) = IR_KINT64 \<and> k64_val (j_k64 J') (ir_k (j_ir J' r)) = k"
  shows "os J' True r" "oz J' True r" "den J' \<rho> r = k"
proof -
  have e: "jwf J'" "ir_valid J' r" using assms(1) extD(1) by (auto simp: kref_def)
  note i = ins_k64 [OF e conjunct1 [OF assms(2)]]
  then show "os J' True r" "oz J' True r" "den J' \<rho> r = k" using assms(2) by (simp_all add: oz_def)
qed

lemma kref_ops:
  assumes "kref J J' r" "ir_valid J x"
  shows "os J' w x = os J w x" "oz J' w x = oz J w x" "k0 J' x = k0 J x" "ir_o (j_ir J' x) = ir_o (j_ir J x)"
    "ir_i (j_ir J' x) = ir_i (j_ir J x)"
  using ops_keep [OF extD(2) assms(2)] assms(1) by (auto simp: kref_def)

text \<open>Instructions of the classes that the rules produce.\<close>

lemma fin_ring:
  "opcl (ir_o i) = ORing \<Longrightarrow> a32 (irt_ty (ir_t i)) \<or> w64 (irt_ty (ir_t i)) \<Longrightarrow> oz J (wide i) (ir_op1 i) \<Longrightarrow>
     oz J (wide i) (ir_op2 i) \<Longrightarrow> fin_ok J i"
  by (auto simp: fin_ok_def sem_ins_def opnds_ok_cl scmp_def)

lemma fin_shift:
  "opcl (ir_o i) = OShift \<Longrightarrow> a32 (irt_ty (ir_t i)) \<or> w64 (irt_ty (ir_t i)) \<Longrightarrow> oz J (wide i) (ir_op1 i) \<Longrightarrow>
     os J False (ir_op2 i) \<Longrightarrow> fin_ok J i"
  by (auto simp: fin_ok_def sem_ins_def opnds_ok_cl scmp_def)

lemma fin_bit:
  "opcl (ir_o i) = OBit \<Longrightarrow> a32 (irt_ty (ir_t i)) \<or> w64 (irt_ty (ir_t i)) \<Longrightarrow> os J (wide i) (ir_op1 i) \<Longrightarrow>
     os J (wide i) (ir_op2 i) \<Longrightarrow> fin_ok J i"
  by (auto simp: fin_ok_def sem_ins_def opnds_ok_cl scmp_def)

lemma fin_32:
  "opcl (ir_o i) = O32 \<Longrightarrow> a32 (irt_ty (ir_t i)) \<Longrightarrow> os J False (ir_op1 i) \<Longrightarrow> os J False (ir_op2 i) \<Longrightarrow>
     (ir_o i = IR_MOD \<Longrightarrow> \<not> k0 J (ir_op2 i)) \<Longrightarrow> fin_ok J i"
  by (auto simp: fin_ok_def sem_ins_def opnds_ok_cl scmp_def)

lemma fin_ty: "fpre ff J \<Longrightarrow> opcl (fo J) \<noteq> OAbc \<Longrightarrow> opcl (fo J) \<noteq> OConv \<Longrightarrow> a32 (irt_ty (ft J)) \<or> w64 (irt_ty (ft J))"
  using sem_cases(3) [OF fpreD(4)] by blast

lemma wide_upd [simp]: "wide (i\<lparr>ir_o := x\<rparr>) = wide i" "wide (i\<lparr>ir_op1 := a\<rparr>) = wide i" "wide (i\<lparr>ir_op2 := b\<rparr>) = wide i"
  by (simp_all add: wide_def)

section \<open>Negations\<close>

lemma ring_ops: "fpre ff J \<Longrightarrow> opcl (fo J) = ORing \<Longrightarrow> oz J (wide (j_fins J)) (fop1 J) \<and> oz J (wide (j_fins J)) (fop2 J)"
  using fpreD(5) [of ff J] by (simp add: opnds_ok_cl)

text \<open>An operand that is a negation: its operand and its value.\<close>

lemma neg_opnd:
  assumes "jwf J" "oz J w r" "ir_o (j_ir J r) = IR_NEG"
  shows "oz J w (ir_op1 (j_ir J r))" "pos (ir_op1 (j_ir J r)) < pos r"
    "w \<Longrightarrow> den J \<rho> r = - den J \<rho> (ir_op1 (j_ir J r))" "\<not> w \<Longrightarrow> d32 J \<rho> r = - d32 J \<rho> (ir_op1 (j_ir J r))"
proof -
  have n: "ir_o (j_ir J r) \<noteq> IR_KINT" "opcl (ir_o (j_ir J r)) \<in> {OBun, OShift, OBit, ORing} \<or> opcl (ir_o (j_ir J r)) = O32 \<and> \<not> w"
    using assms(3) by simp_all
  note i = opnd_ins [OF assms(1,2) n]
  show "oz J w (ir_op1 (j_ir J r))" using i(2,3) assms(3) by (simp add: opnds_ok_cl)
  show "pos (ir_op1 (j_ir J r)) < pos r" by (rule pos_less [OF i(5,6)])
  show "w \<Longrightarrow> den J \<rho> r = - den J \<rho> (ir_op1 (j_ir J r))" "\<not> w \<Longrightarrow> d32 J \<rho> r = - d32 J \<rho> (ir_op1 (j_ir J r))"
    using opnd_arith [OF assms, of \<rho>] by simp_all
qed

lemma ok_leftleft_neg: "rule_ok (IR_NEG, LOp IR_NEG, r) shortcut_leftleft"
proof (rule rule_okI)
  fix ff J assume p: "fpre ff J" and k: "key_match J (IR_NEG, LOp IR_NEG, r)"
  note o = keyD(1) [OF p k] and wf = fpreD(1) [OF p] and L = fpreD(7) [OF p]
  have z: "oz J (wide (j_fins J)) (fop1 J)" using ring_ops [OF p] o by simp
  note n = neg_opnd [OF wf z keyD(2) [OF p k refl]]
  have "step_post J (J, FoldRef (ir_op1 (j_fleft J)))"
  proof (rule ref_post [OF wf])
    show "res_ok J (wide (j_fins J)) (ir_op1 (j_fleft J))" using n(1) by (simp add: res_ok_def L)
    show "\<not> pure_guard (fo J)" by (simp add: o pure_guard_def)
    show "gok J \<rho> (j_fins J) \<and> den J \<rho> (ir_op1 (j_fleft J)) = ival J \<rho> (j_fins J)" for \<rho>
      using ref_eqI [OF wf, of "j_fins J" "ir_op1 (j_fleft J)" \<rho>] n o L by (simp add: gok_val ovop_def)
  qed
  then show "ok_oob (step_post J) (shortcut_leftleft ff J)" 
    by (cases "is_phi (j_fleft J)") (simp_all add: shortcut_leftleft_def, simp add: fold_ret_def)
qed

end
