(* ===== verification/LJ_FoldOkB.thy ===== *)
theory LJ_FoldOkB
  imports LJ_FoldOkA
begin

text \<open>
  Soundness of the fold functions, third part: negations and conversions.
\<close>

section \<open>Results of arithmetic instructions\<close>

lemma step_if: "(c \<Longrightarrow> ok_oob Q A) \<Longrightarrow> (\<not> c \<Longrightarrow> ok_oob Q B) \<Longrightarrow> ok_oob Q (if c then A else B)"
  by simp

lemma dir_fold: "LEFTFOLD J = fold_ret J (FoldRef (fop1 J))" "RIGHTFOLD J = fold_ret J (FoldRef (fop2 J))"
  by (simp_all add: LEFTFOLD_def RIGHTFOLD_def fold_ret_def)

lemma arith_ref_g:
  assumes p: "fpre ff J" and o: "arithop (fo J)" and z: "oz J (wide (j_fins J)) r" and g: "\<And>\<rho>. gok J \<rho> (j_fins J)"
    and w: "\<And>\<rho>. wide (j_fins J) \<Longrightarrow> den J \<rho> r = arith (fo J) (den J \<rho> (fop1 J)) (den J \<rho> (fop2 J))"
      "\<And>\<rho>. \<not> wide (j_fins J) \<Longrightarrow> d32 J \<rho> r = arith (fo J) (d32 J \<rho> (fop1 J)) (d32 J \<rho> (fop2 J))"
  shows "ok_oob (step_post J) (fold_ret J (FoldRef r))"
proof -
  have "step_post J (J, FoldRef r)"
  proof (rule ref_post [OF fpreD(1) [OF p]])
    show "res_ok J (wide (j_fins J)) r" using z by (simp add: res_ok_def)
    show "\<not> pure_guard (fo J)" by (rule arith_guard(1) [OF o])
    show "gok J \<rho> (j_fins J) \<and> den J \<rho> r = ival J \<rho> (j_fins J)" for \<rho>
      using g ref_eqI [OF fpreD(1) [OF p], of "j_fins J" r \<rho>] z o w by simp
  qed
  then show ?thesis by (simp add: fold_ret_def)
qed

lemma arith_gok: "arithop (fo J) \<Longrightarrow> \<not> ovop (fo J) \<Longrightarrow> gok J \<rho> (j_fins J)"
  using gok_val [of "j_fins J"] arith_guard by simp

lemma arith_ref:
  assumes "fpre ff J" "arithop (fo J)" "oz J (wide (j_fins J)) r" "\<not> ovop (fo J)"
    "\<And>\<rho>. wide (j_fins J) \<Longrightarrow> den J \<rho> r = arith (fo J) (den J \<rho> (fop1 J)) (den J \<rho> (fop2 J))"
    "\<And>\<rho>. \<not> wide (j_fins J) \<Longrightarrow> d32 J \<rho> r = arith (fo J) (d32 J \<rho> (fop1 J)) (d32 J \<rho> (fop2 J))"
  shows "ok_oob (step_post J) (fold_ret J (FoldRef r))"
  by (rule arith_ref_g [OF assms(1-3) arith_gok [OF assms(2,4)] assms(5,6)])

text \<open>An operand that is an arithmetic instruction.\<close>

lemma opd:
  assumes wf: "jwf J" and r: "oz J w r" "ir_o (j_ir J r) = x"
    and c: "opcl x \<in> {OShift, OBit, ORing} \<or> opcl x = O32 \<and> \<not> w"
  shows "oz J w (ir_op1 (j_ir J r))" "opcl x = OShift \<Longrightarrow> os J False (ir_op2 (j_ir J r))"
    "opcl x \<noteq> OShift \<Longrightarrow> oz J w (ir_op2 (j_ir J r))" "opcl x = OBit \<Longrightarrow> os J w (ir_op1 (j_ir J r)) \<and> os J w (ir_op2 (j_ir J r))"
    "pos (ir_op1 (j_ir J r)) < pos r" "pos (ir_op2 (j_ir J r)) < pos r"
    "w \<Longrightarrow> den J \<rho> r = arith x (den J \<rho> (ir_op1 (j_ir J r))) (den J \<rho> (ir_op2 (j_ir J r)))"
    "\<not> w \<Longrightarrow> d32 J \<rho> r = arith x (d32 J \<rho> (ir_op1 (j_ir J r))) (d32 J \<rho> (ir_op2 (j_ir J r)))"
proof -
  have n: "ir_o (j_ir J r) \<noteq> IR_KINT" using r(2) c by (auto simp: opcl_def)
  have cc: "opcl (ir_o (j_ir J r)) \<in> {OBun, OShift, OBit, ORing} \<or> opcl (ir_o (j_ir J r)) = O32 \<and> \<not> w" using r(2) c by auto
  note i = opnd_ins [OF wf r(1) n cc]
  have a: "arithop x" "opcl x \<noteq> O32 \<or> \<not> w" using c by (auto simp: arithop_def)
  have e: "opcl (ir_o (j_ir J r)) = opcl x" using r(2) by simp
  show "oz J w (ir_op1 (j_ir J r))" "opcl x = OShift \<Longrightarrow> os J False (ir_op2 (j_ir J r))"
    "opcl x \<noteq> OShift \<Longrightarrow> oz J w (ir_op2 (j_ir J r))"
    "opcl x = OBit \<Longrightarrow> os J w (ir_op1 (j_ir J r)) \<and> os J w (ir_op2 (j_ir J r))"
    using i(2,3) c e by (auto simp: opnds_ok_cl oz_def)
  show "pos (ir_op1 (j_ir J r)) < pos r" "pos (ir_op2 (j_ir J r)) < pos r" using pos_less [OF i(5)] i(6,7) by blast+
  show "w \<Longrightarrow> den J \<rho> r = arith x (den J \<rho> (ir_op1 (j_ir J r))) (den J \<rho> (ir_op2 (j_ir J r)))"
    "\<not> w \<Longrightarrow> d32 J \<rho> r = arith x (d32 J \<rho> (ir_op1 (j_ir J r))) (d32 J \<rho> (ir_op2 (j_ir J r)))"
    by (rule opnd_arith [OF wf r a]; assumption)+
qed

section \<open>Negations\<close>

lemma bswap64_involution: "lj_bswap64 (lj_bswap64 x) = x"
proof -
  have b: "ucast (drop_bit 32 (ucast (a :: u32) OR push_bit 32 (ucast b) :: u64)) = (b :: u32)"
    "ucast (ucast (a :: u32) OR push_bit 32 (ucast b) :: u64) = a" for a b :: u32
    by (rule bit_word_eqI; auto simp: bit_simps dest: bit_imp_le_length)+
  have "ucast (ucast (drop_bit 32 x) :: u32) = drop_bit 32 x"
    by (rule bit_word_eqI) (auto simp: bit_simps dest: bit_imp_le_length)
  then have e: "ucast (ucast x :: u32) OR push_bit 32 (ucast (ucast (drop_bit 32 x) :: u32)) = x"
    by (intro bit_word_eqI) (auto simp: bit_simps, metis le_add_diff_inverse not_less)
  show ?thesis unfolding lj_bswap64_def b lj_bswap_involution by (rule e)
qed

lemma ok_leftleft_bnot: "rule_ok (IR_BNOT, LOp IR_BNOT, r) shortcut_leftleft"
proof (rule rule_okI)
  fix ff J assume p: "fpre ff J" and k: "key_match J (IR_BNOT, LOp IR_BNOT, r)"
  note o = keyD(1) [OF p k] and wf = fpreD(1) [OF p] and L = fpreD(7) [OF p]
  have z: "oz J (wide (j_fins J)) (fop1 J)" using fpreD(5) [OF p] o by (simp add: opnds_ok_cl oz_def)
  note ol = keyD(2) [OF p k refl]
  note i = opnd_ins [OF wf z] and v = opnd_arith [OF wf z ol]
  have n: "oz J (wide (j_fins J)) (ir_op1 (j_fleft J))" using i(2,3) ol by (simp add: L opnds_ok_cl oz_def)
  show "ok_oob (step_post J) (shortcut_leftleft ff J)"
    unfolding shortcut_leftleft_def
    by (rule step_if, simp, rule arith_ref [OF p]) (use n v o L in \<open>simp_all add: ovop_def\<close>)
qed

lemma ok_leftleft_bswap: "rule_ok (IR_BSWAP, LOp IR_BSWAP, r) shortcut_leftleft"
proof (rule rule_okI)
  fix ff J assume p: "fpre ff J" and k: "key_match J (IR_BSWAP, LOp IR_BSWAP, r)"
  note o = keyD(1) [OF p k] and wf = fpreD(1) [OF p] and L = fpreD(7) [OF p]
  have z: "oz J (wide (j_fins J)) (fop1 J)" using fpreD(5) [OF p] o by (simp add: opnds_ok_cl oz_def)
  note ol = keyD(2) [OF p k refl]
  note i = opnd_ins [OF wf z]
  let ?x = "ir_op1 (j_fleft J)"
  have n: "os J (wide (j_fins J)) ?x" using i(2,3) ol by (simp add: L opnds_ok_cl)
  have "step_post J (J, FoldRef ?x)"
  proof (rule ref_post [OF wf])
    show "res_ok J (wide (j_fins J)) ?x" using n by (simp add: res_ok_def oz_def)
    show "\<not> pure_guard (fo J)" using o by (simp add: pure_guard_def)
    fix \<rho>
    have "den J \<rho> (fop1 J) = ival J \<rho> (j_ir J (fop1 J))" "wide (j_ir J (fop1 J)) = wide (j_fins J)"
      using i(3,4) ol by simp_all
    then have "ival J \<rho> (j_fins J) = (if wide (j_fins J) then den J \<rho> ?x else ucast (d32 J \<rho> ?x))"
      using o ol by (simp add: ival_def opval_def L bswap64_involution lj_bswap_involution)
    also have "\<dots> = den J \<rho> ?x" using os_range [OF wf] n by (cases "wide (j_fins J)") simp_all
    finally show "gok J \<rho> (j_fins J) \<and> den J \<rho> ?x = ival J \<rho> (j_fins J)"
      using o by (simp add: gok_val ovop_def)
  qed
  then show "ok_oob (step_post J) (shortcut_leftleft ff J)"
    by (cases "is_phi (j_fleft J)") (simp_all add: shortcut_leftleft_def, simp add: fold_ret_def)
qed

lemma rank_simps [simp]:
  "rank IR_ADD = 5" "rank IR_SUB = 5" "rank IR_ADDOV = 5" "rank IR_SUBOV = 5" "rank IR_MOD = 5" "rank IR_MUL = 8"
  "rank IR_MULOV = 8" "rank IR_NEG = 2" "rank IR_BNOT = 1" "rank IR_BAND = 3" "rank IR_BOR = 3" "rank IR_BXOR = 4"
  "rank IR_CONV = 9" "rank IR_BROR = 7" "rank IR_BROL = 6" "rank IR_BSHL = 6" "rank IR_BSHR = 6" "rank IR_BSAR = 6"
  by (simp_all add: rank_def)

lemma ok_numadd_negx: "rule_ok (IR_ADD, LOp IR_NEG, r) simplify_numadd_negx"
proof (rule rule_okI)
  fix ff J assume p: "fpre ff J" and k: "key_match J (IR_ADD, LOp IR_NEG, r)"
  note o = keyD(1) [OF p k] and wf = fpreD(1) [OF p] and L = fpreD(7) [OF p]
  have z: "oz J (wide (j_fins J)) (fop1 J)" "oz J (wide (j_fins J)) (fop2 J)" using ring_ops [OF p] o by simp_all
  note n = opd [OF wf z(1) keyD(2) [OF p k refl]]
  have t: "a32 (irt_ty (ft J)) \<or> w64 (irt_ty (ft J))" using fin_ty [OF p] o by simp
  show "ok_oob (step_post J) (simplify_numadd_negx ff J)"
    unfolding simplify_numadd_negx_def
  proof (rule step_if, simp, rule arith_retry [OF p])
    show "fin_ok J (j_fins (set_op2 (ir_op1 (j_fleft J)) (set_op1 (fop2 J) (set_o IR_SUB J))))"
      by (rule fin_ring) (use z n t in \<open>simp_all add: L\<close>)
    show "meas J (j_fins (set_op2 (ir_op1 (j_fleft J)) (set_op1 (fop2 J) (set_o IR_SUB J)))) < meas J (j_fins J)"
      by (rule meas_ops) (use n o in \<open>simp_all add: L\<close>)
  qed (use n o in \<open>simp_all add: L same_regs_comp ovop_def\<close>)
qed

lemma ok_xneg:
  assumes "op = IR_ADD \<and> f = simplify_numadd_xneg \<or> op = IR_SUB \<and> f = simplify_numsub_xneg"
  shows "rule_ok (op, l, ROp IR_NEG) f"
proof (rule rule_okI)
  fix ff J assume p: "fpre ff J" and k: "key_match J (op, l, ROp IR_NEG)"
  note o = keyD(1) [OF p k] and wf = fpreD(1) [OF p] and v = keyD(3) [OF p k refl] and or = keyD(4) [OF p k refl]
  note R = fpreD(8) [OF p v]
  have cl: "opcl op = ORing" "arithop op" "\<not> ovop op" using assms by (auto simp: ovop_def)
  have z: "oz J (wide (j_fins J)) (fop1 J)" "oz J (wide (j_fins J)) (fop2 J)" using ring_ops [OF p] o cl by simp_all
  note n = opd [OF wf z(2) or]
  have t: "a32 (irt_ty (ft J)) \<or> w64 (irt_ty (ft J))" using fin_ty [OF p] o cl by simp
  have e: "f ff J = (if is_phi (j_fright J) then fold_ret J NEXTFOLD
      else fold_ret (set_op2 (ir_op1 (j_fright J)) (set_o (if op = IR_ADD then IR_SUB else IR_ADD) J)) RETRYFOLD)"
    using assms by (auto simp: simplify_numadd_xneg_def simplify_numsub_xneg_def)
  show "ok_oob (step_post J) (f ff J)"
    unfolding e
  proof (rule step_if, simp, rule arith_retry [OF p])
    show "fin_ok J (j_fins (set_op2 (ir_op1 (j_fright J)) (set_o (if op = IR_ADD then IR_SUB else IR_ADD) J)))"
      by (rule fin_ring) (use z n t in \<open>simp_all add: R\<close>)
    show "meas J (j_fins (set_op2 (ir_op1 (j_fright J)) (set_o (if op = IR_ADD then IR_SUB else IR_ADD) J))) < meas J (j_fins J)"
      by (rule meas_ops) (use n o assms in \<open>auto simp: R\<close>)
  qed (use n o assms in \<open>auto simp: R same_regs_comp ovop_def\<close>)
qed

lemma ok_mul_negneg: "rule_ok (IR_MUL, LOp IR_NEG, ROp IR_NEG) simplify_nummuldiv_negneg"
proof (rule rule_okI)
  fix ff J assume p: "fpre ff J" and k: "key_match J (IR_MUL, LOp IR_NEG, ROp IR_NEG)"
  note o = keyD(1) [OF p k] and wf = fpreD(1) [OF p] and L = fpreD(7) [OF p] and R = fpreD(8) [OF p keyD(3) [OF p k refl]]
  have z: "oz J (wide (j_fins J)) (fop1 J)" "oz J (wide (j_fins J)) (fop2 J)" using ring_ops [OF p] o by simp_all
  note n = opd [OF wf z(1) keyD(2) [OF p k refl]] and m = opd [OF wf z(2) keyD(4) [OF p k refl]]
  have t: "a32 (irt_ty (ft J)) \<or> w64 (irt_ty (ft J))" using fin_ty [OF p] o by simp
  show "ok_oob (step_post J) (simplify_nummuldiv_negneg ff J)"
    unfolding simplify_nummuldiv_negneg_def
  proof (rule step_if, simp, rule arith_retry [OF p])
    show "fin_ok J (j_fins (set_op2 (ir_op1 (j_fright J)) (set_op1 (ir_op1 (j_fleft J)) J)))"
      by (rule fin_ring) (use z n m t o in \<open>simp_all add: L R\<close>)
    show "meas J (j_fins (set_op2 (ir_op1 (j_fright J)) (set_op1 (ir_op1 (j_fleft J)) J))) < meas J (j_fins J)"
      by (rule meas_ops) (use n(5) m(5) o in \<open>simp_all add: L R\<close>)
  qed (use n m o in \<open>simp_all add: L R same_regs_comp ovop_def\<close>)
qed

section \<open>Conversions\<close>

lemma conv_lit:
  assumes "d = IRT_INT \<or> d = IRT_U32" "s = IRT_I64 \<or> s = IRT_U64"
  shows "src64 (IRCONV d s)" "conv32 (IRCONV d s)" "\<not> conv64 (IRCONV d s)"
  using assms by (auto simp: src64_def conv32_def conv64_def)

text \<open>A conversion from 32 to 64 bits as an operand.\<close>

lemma opd_conv:
  assumes wf: "jwf J" and r: "oz J True r" "ir_o (j_ir J r) = IR_CONV" and s: "src32 (ir_op2 (j_ir J r))"
  shows "os J False (ir_op1 (j_ir J r))" "pos (ir_op1 (j_ir J r)) < pos r" "d32 J \<rho> r = d32 J \<rho> (ir_op1 (j_ir J r))"
proof -
  let ?i = "j_ir J r"
  have v: "ir_valid J r" by (rule os_valid(2) [OF r(1)])
  have o: "os J True r" using r by (auto simp: oz_def k0_def)
  then have w: "w64 (ity J r)" by (simp add: os_def)
  have b: "REF_BIAS \<le> r" using kop_valid [OF jwfD(1) [OF wf] v] r(2) by (simp add: kop_def)
  have io: "ins_ok J ?i" by (rule jwfD(2) [OF wf v b])
  have si: "sem_ins ?i"
  proof (rule ccontr)
    assume "\<not> sem_ins ?i"
    then show False using io w r(2) s by (simp add: ins_ok_def)
  qed
  then have ok: "opnds_ok J ?i" using io by (simp add: ins_ok_def)
  then have c: "conv64 (ir_op2 ?i)" using w r(2) a32_w(3) by (auto simp: opnds_ok_cl split: if_splits)
  show "os J False (ir_op1 ?i)" using ok r(2) src_excl(2) [OF s] by (simp add: opnds_ok_cl oz_def)
  show "pos (ir_op1 ?i) < pos r" using irwfD(3) [OF jwfD(1) [OF wf] v b] pos_less [OF b] by blast
  have "val_ins ?i" using si r(2) by (simp add: val_ins_def pure_guard_def)
  then have "den J \<rho> r = convval (ir_op2 ?i) (den J \<rho> (ir_op1 ?i))"
    using den_ins [OF wf v _ b] r(2) by (simp add: ival_def opval_def)
  moreover have "ucast (scast (x :: u32) :: u64) = x" for x by (rule bit_word_eqI) (auto simp: bit_simps)
  ultimately show "d32 J \<rho> r = d32 J \<rho> (ir_op1 ?i)" using convval_wide [OF s c] by simp
qed

lemma fin_conv:
  assumes "ir_o i = IR_CONV" "int_conv (ir_op2 i)" "ir_op2 i < REF_LIT" "oz J (src64 (ir_op2 i)) (ir_op1 i)"
    "if conv64 (ir_op2 i) then w64 (irt_ty (ir_t i)) else a32 (irt_ty (ir_t i))"
  shows "fin_ok J i" "strict J i" "wide i = conv64 (ir_op2 i)"
  using assms a32_w by (auto simp: fin_ok_def sem_ins_def opnds_ok_cl scmp_def strict_def wide_def split: if_splits)

lemma ok_simplify_conv_int_i64:
  assumes "\<not> conv64 n" "src64 n"
  shows "rule_ok (IR_CONV, LOp IR_CONV, RLit n) simplify_conv_int_i64"
proof (rule rule_okI)
  fix ff J assume p: "fpre ff J" and k: "key_match J (IR_CONV, LOp IR_CONV, RLit n)"
  note c = conv_fin [OF p k] and o = keyD(1) [OF p k] and L = fpreD(7) [OF p] and wf = fpreD(1) [OF p]
  have s: "src64 (fop2 J)" "\<not> conv64 (fop2 J)" using lit_key(4,5) [of "fop2 J"] keyD(5) [OF p k refl] assms by simp_all
  then have d: "conv32 (fop2 J)" "\<not> src_small (fop2 J)" using c(1) src_excl(4) by (auto simp: int_conv_def)
  have z: "oz J True (fop1 J)" using c(4) s by simp
  let ?x = "ir_op1 (j_fleft J)" and ?d = "irconv_dst (fop2 J)"
  define lit where "lit = 32 * ?d + left_src J"
  have nw: "\<not> wide (j_fins J)" using c(3) s by simp
  have "ok_oob (step_post J) (fold_ret J (FoldRef ?x)) \<and>
      ok_oob (step_post J) (fold_ret (set_op1 ?x (set_op2 lit J)) RETRYFOLD)"
    if ls: "left_src J = irt_num IRT_INT \<or> left_src J = irt_num IRT_U32"
  proof -
    have "src32 (ir_op2 (j_ir J (fop1 J)))" using ls by (simp add: src32_def L)
    note x = opd_conv [OF wf z keyD(2) [OF p k refl] this, folded L]
    have v: "ival J \<rho> (j_fins J) = den J \<rho> ?x" for \<rho>
      using c(5) convval_nop [OF d(2) s(2)] x(3) os_range [OF wf x(1)] by simp
    have dl: "?d < 32" by (simp add: irconv_dst_def)
    have l: "irconv_src lit = left_src J" "irconv_dst lit = ?d" using ls dl by (auto simp: lit_def irconv_src_def irconv_dst_def)
    then have l2: "src32 lit" "\<not> conv64 lit" "conv32 lit" "lit < REF_LIT"
      using ls s(2) d(1) dl by (auto simp: src32_def conv64_def conv32_def lit_def REF_LIT_def)
    let ?J = "set_op1 ?x (set_op2 lit J)"
    have f: "fin_ok J (j_fins ?J)" "wide (j_fins ?J) = wide (j_fins J)"
    proof -
      have cc: "ir_o (j_fins ?J) = IR_CONV" "int_conv (ir_op2 (j_fins ?J))" "ir_op2 (j_fins ?J) < REF_LIT"
        "oz J (src64 (ir_op2 (j_fins ?J))) (ir_op1 (j_fins ?J))"
        using o l2 x(1) src_excl(2) [OF l2(1)] by (simp_all add: int_conv_def oz_def)
      have "if conv64 (ir_op2 (j_fins ?J)) then w64 (irt_ty (ft ?J)) else a32 (irt_ty (ft ?J))"
        using fpreD(5) [OF p] o s(2) l2(2) by (simp add: opnds_ok_cl)
      note fc = fin_conv [OF cc this]
      show "fin_ok J (j_fins ?J)" by (rule fc(1))
      show "wide (j_fins ?J) = wide (j_fins J)" using fc(3) nw l2(2) by simp
    qed
    have "step_post J (J, FoldRef ?x)"
      by (rule ref_post [OF wf]) (use x(1) nw c(6,7) v in \<open>simp_all add: res_ok_def oz_def\<close>)
    moreover have "ok_oob (step_post J) (fold_ret ?J RETRYFOLD)"
    proof (rule retry_post [OF wf])
      show "meas J (j_fins ?J) < meas J (j_fins J)"
      proof (rule meas_ops)
        have "lit < REF_BIAS" using l2(4) by (simp add: REF_LIT_def REF_BIAS_def)
        then show "pos (ir_op1 (j_fins ?J)) + pos (ir_op2 (j_fins ?J)) < pos (fop1 J) + pos (fop2 J)"
          using x(2) by simp
      qed simp
      show "gok J \<rho> (j_fins ?J) = gok J \<rho> (j_fins J)" for \<rho> using c(6) o by (simp add: gok_val ovop_def)
      show "ival J \<rho> (j_fins ?J) = ival J \<rho> (j_fins J)" for \<rho>
        using v o convval_nop [OF src_excl(3) [OF l2(1)] l2(2)] os_range [OF wf x(1)] by (simp add: ival_def opval_def)
    qed (use f o in \<open>simp_all add: same_regs_comp\<close>)
    ultimately show ?thesis by (simp add: fold_ret_def)
  qed
  then show "ok_oob (step_post J) (simplify_conv_int_i64 ff J)"
    unfolding simplify_conv_int_i64_def Let_def lit_def by (intro step_if) simp_all
qed

lemma ok_simplify_conv_sext:
  assumes "conv64 n" "src32 n"
  shows "rule_ok (IR_CONV, LAny, RLit n) simplify_conv_sext"
proof (rule rule_okI)
  fix ff J assume p: "fpre ff J" and k: "key_match J (IR_CONV, LAny, RLit n)"
  note c = conv_fin [OF p k] and L = fpreD(7) [OF p] and wf = fpreD(1) [OF p] and sc = fpreD(6) [OF p]
  have s: "src32 (fop2 J)" "conv64 (fop2 J)" using lit_key(4,6) [of "fop2 J"] keyD(5) [OF p k refl] assms by simp_all
  have os: "os J False (fop1 J)" using c(4) src_excl(2) [OF s(1)] by (simp add: oz_def)
  have nil: "fop1 J \<noteq> j_scev_idx J" using scev_os [OF jwfD(1) [OF wf] sc] os sc by (auto simp: scev_off_def)
  have nil2: "ir_op1 (j_fleft J) \<noteq> j_scev_idx J" if "ir_o (j_fleft J) = IR_ADD"
  proof -
    have "os J False (ir_op1 (j_ir J (fop1 J)))" using opd(1) [OF wf, of False "fop1 J" IR_ADD] os that by (simp add: L oz_def)
    then show ?thesis using scev_os [OF jwfD(1) [OF wf] sc] sc by (auto simp: scev_off_def L)
  qed
  have xl: "ok_oob (step_post J) (LEFTFOLD J)"
    if x: "irconv_sext (fop2 J)" "ir_o (j_fleft J) = IR_XLOAD" "ity J (fop1 J) = IRT_U8 \<or> ity J (fop1 J) = IRT_U16"
  proof -
    have b: "REF_BIAS \<le> fop1 J" using kop_valid [OF jwfD(1) [OF wf] os_valid(1) [OF os]] x(2) by (simp add: kop_def L)
    have "\<not> val_ins (j_ir J (fop1 J))" using x(2) by (simp add: val_ins_def sem_ins_def L)
    then have d: "den J \<rho> (fop1 J) = opq (ity J (fop1 J)) (\<rho> (fop1 J))" for \<rho> by (rule den_opq [OF b])
    have ss: "scast (ucast (ucast (y :: 8 word) :: u64) :: u32) = (ucast y :: u64)" "scast (ucast (ucast (z :: 16 word) :: u64) :: u32) = (ucast z :: u64)" for y z
      by (rule bit_word_eqI; auto simp: bit_simps min_def dest: bit_imp_le_length split: if_splits)+
    have "step_post J (J, FoldRef (fop1 J))"
    proof (rule ref_post [OF wf _ c(7)])
      show "res_ok J (wide (j_fins J)) (fop1 J)" using x(2,3) c(3) s(2) os_valid(1) [OF os] by (simp add: res_ok_def L)
      show "gok J \<rho> (j_fins J) \<and> den J \<rho> (fop1 J) = ival J \<rho> (j_fins J)" for \<rho>
        using c(5,6) convval_wide [OF s] x(1,3) d ss by (auto simp: opq_def)
    qed
    then show ?thesis by (simp add: LEFTFOLD_def)
  qed
  show "ok_oob (step_post J) (simplify_conv_sext ff J)"
    unfolding simplify_conv_sext_def Let_def
    by (intro step_if) (use xl nil nil2 in \<open>auto simp: L split: if_splits\<close>)
qed

end
