(* ===== verification/LJ_FoldOkC.thy ===== *)
theory LJ_FoldOkC
  imports LJ_FoldOkB
begin

text \<open>
  Soundness of the fold functions, fourth part: narrowing of 64-bit arithmetic, common
  conversions, integer instructions with a constant operand.
\<close>

section \<open>Nested calls\<close>

lemma ff_call:
  assumes p: "fpre ff J" and e: "ext J J1" and f: "fin_ok J1 (j_fins J1)" "strict J1 (j_fins J1)"
    and m: "meas J1 (j_fins J1) < meas J (j_fins J)" and g: "\<not> pure_guard (fo J1)" "\<And>\<rho>. gok J1 \<rho> (j_fins J1)"
  shows "okr (fold_err J) (\<lambda>(J2, r). ext J1 J2 \<and> res_ok J2 (wide (j_fins J1)) r \<and>
    (\<forall>\<rho>. tr J2 \<rho> \<longrightarrow> den J2 \<rho> r = ival J1 \<rho> (j_fins J1))) (ff J1)"
proof -
  have "scev_off J1" by (rule scev_keeps [OF fpreD(2) [OF p] extD(2,3) [OF e] fpreD(6) [OF p]])
  then have "fold_post J1 (ff J1)" using fpreD(9) [OF p] extD(1) [OF e] f m unfolding ff_ok_def by blast
  then show ?thesis
    unfolding fold_post_def
  proof (rule okr_weaken)
    fix x assume "x = OOB \<or> x = TRERR_GFAIL \<and> (\<forall>\<rho>. tr J1 \<rho> \<longrightarrow> \<not> gok J1 \<rho> (j_fins J1))"
    then show "fold_err J x" using g(2) extD(4) [OF e] by (auto simp: fold_err_def)
  next
    fix x :: "jit \<times> nat"
    obtain J2 r where x: "x = (J2, r)" by (cases x)
    assume "case x of (J', r) \<Rightarrow> jwf J' \<and> ir_keeps J1 J' \<and> same_env J1 J' \<and>
          (\<forall>\<rho>. tr J' \<rho> = (tr J1 \<rho> \<and> gok J1 \<rho> (j_fins J1))) \<and>
          (if pure_guard (fo J1) then r = REF_DROP \<or> ir_valid J' r
           else res_ok J' (wide (j_fins J1)) r \<and> (\<forall>\<rho>. tr J' \<rho> \<longrightarrow> den J' \<rho> r = ival J1 \<rho> (j_fins J1)))"
    then show "case x of (J2, r) \<Rightarrow> ext J1 J2 \<and> res_ok J2 (wide (j_fins J1)) r \<and>
        (\<forall>\<rho>. tr J2 \<rho> \<longrightarrow> den J2 \<rho> r = ival J1 \<rho> (j_fins J1))"
      unfolding x prod.case using g by (simp add: ext_def)
  qed
qed

lemma res_ok_32: "res_ok J False r \<Longrightarrow> os J False r"
  by (simp add: res_ok_def oz_def)

lemma IRT_ty [simp]: "irt_ty (IRT t) = t" by (simp add: IRT_def)

section \<open>Narrowing\<close>

lemma ucast_arith:
  "ucast (a + b :: u64) = (ucast a + ucast b :: u32)" "ucast (a - b :: u64) = (ucast a - ucast b :: u32)"
  "ucast (a * b :: u64) = (ucast a * ucast b :: u32)"
  by (simp_all add: word_uint_eq_iff unsigned_ucast_eq uint_word_ariths take_bit_eq_mod mod_simps mod_mod_cancel)

text \<open>The conversion of an operand to 32 bits.\<close>

lemma conv_call:
  assumes p: "fpre ff J" and e: "ext J J0" and c: "int_conv n" "n < REF_LIT" "src64 n" "\<not> conv64 n"
    and a: "oz J True a" "pos a < pos (fop1 J)" and o: "fo J = IR_CONV"
  shows "okr (fold_err J) (\<lambda>(J2, r). ext J0 J2 \<and> os J2 False r \<and> (\<forall>\<rho>. tr J2 \<rho> \<longrightarrow> d32 J2 \<rho> r = d32 J \<rho> a))
    (emitir ff J0 IR_CONV (IRT IRT_INT) a n)"
proof -
  let ?J = "lj_ir_set J0 IR_CONV (IRT IRT_INT) a n"
  note s = same_set_regs(5,11) [of J0 IR_CONV "IRT IRT_INT" a n]
  have e1: "ext J0 ?J" by (rule ext_regs [OF extD(1) [OF e] s])
  have e2: "ext J ?J" by (rule ext_trans [OF e e1])
  have v: "ir_valid J a" by (rule os_valid(2) [OF a(1)])
  have z: "oz ?J True a" using ops_keep(3) [OF extD(2) [OF e2] v] a(1) by simp
  have fi: "j_fins ?J = (j_fins J0)\<lparr>ir_o := IR_CONV, ir_t := IRT IRT_INT, ir_op1 := a, ir_op2 := n\<rparr>"
    by (simp add: lj_ir_set_def)
  have fc: "fin_ok ?J (j_fins ?J)" "strict ?J (j_fins ?J)" "\<not> wide (j_fins ?J)"
    using fin_conv [of "j_fins ?J" ?J] c z by (simp_all add: fi a32_def)
  have m: "meas ?J (j_fins ?J) < meas J (j_fins J)"
    by (rule meas_ops) (use o a(2) c(2) in \<open>simp_all add: fi REF_LIT_def REF_BIAS_def\<close>)
  have d: "den ?J \<rho> a = den J \<rho> a" for \<rho>
    by (rule den_keeps [OF fpreD(1) [OF p] jwfD(1) [OF extD(1) [OF e2]] extD(2) [OF e2] v])
  have sm: "\<not> src_small n" using src_excl(4) c(3) by blast
  have iv: "ival ?J \<rho> (j_fins ?J) = ucast (d32 J \<rho> a)" for \<rho>
    using convval_nop [OF sm c(4)] d by (simp add: fi ival_def opval_def)
  show ?thesis
    unfolding emitir_def
  proof (rule okr_weaken [OF ff_call [OF p e2 fc(1,2) m]])
    fix x :: "jit \<times> nat"
    obtain J2 r where x: "x = (J2, r)" by (cases x)
    assume "case x of (J2, r) \<Rightarrow> ext ?J J2 \<and> res_ok J2 (wide (j_fins ?J)) r \<and>
      (\<forall>\<rho>. tr J2 \<rho> \<longrightarrow> den J2 \<rho> r = ival ?J \<rho> (j_fins ?J))"
    then show "case x of (J2, r) \<Rightarrow> ext J0 J2 \<and> os J2 False r \<and> (\<forall>\<rho>. tr J2 \<rho> \<longrightarrow> d32 J2 \<rho> r = d32 J \<rho> a)"
      unfolding x prod.case using ext_trans [OF e1] res_ok_32 fc(3) iv by simp
  qed (simp_all add: fi pure_guard_def gok_val ovop_def)
qed

lemma ok_simplify_conv_narrow:
  assumes "\<not> conv64 n" "src64 n" "op = IR_ADD \<or> op = IR_SUB \<or> op = IR_MUL"
  shows "rule_ok (IR_CONV, LOp op, RLit n) simplify_conv_narrow"
proof (rule rule_okI')
  fix ff J assume p: "fpre ff J" and k: "key_match J (IR_CONV, LOp op, RLit n)"
  note c = conv_fin [OF p k] and o = keyD(1) [OF p k] and L = fpreD(7) [OF p] and wf = fpreD(1) [OF p]
  note ol = keyD(2) [OF p k refl]
  have s: "src64 (fop2 J)" "\<not> conv64 (fop2 J)" using lit_key(4,5) [of "fop2 J"] keyD(5) [OF p k refl] assms by simp_all
  have sm: "\<not> src_small (fop2 J)" using src_excl(4) s(1) by blast
  have cl: "opcl op = ORing" using assms(3) by auto
  have z: "oz J True (fop1 J)" using c(4) s by simp
  let ?a = "ir_op1 (j_fleft J)" and ?b = "ir_op2 (j_fleft J)" and ?t = "irt_ty (ft J)"
  note d = opd [OF wf z ol, folded L]
  have ab: "oz J True ?a" "oz J True ?b" "pos ?a < pos (fop1 J)" "pos ?b < pos (fop1 J)" using d cl by simp_all
  have t: "a32 ?t" using fpreD(5) [OF p] o s(2) by (simp add: opnds_ok_cl)
  have val: "ival J \<rho> (j_fins J) = ucast (arith op (d32 J \<rho> ?a) (d32 J \<rho> ?b))" for \<rho>
    using c(5) convval_nop [OF sm s(2)] d(7) assms(3) by (auto simp: ucast_arith)
  have "okr (fold_err J) (step_post J)
      (rbind (emitir ff J IR_CONV (IRT IRT_INT) ?a (fop2 J)) (\<lambda>(J1, r1).
       rbind (emitir ff J1 IR_CONV (IRT IRT_INT) ?b (fop2 J)) (\<lambda>(J2, r2).
         fold_ret (lj_ir_set J2 op (IRT ?t) r1 r2) RETRYFOLD)))"
  proof (rule okr_bind [OF conv_call [OF p ext_refl [OF wf] c(1,2) s(1,2) ab(1,3) o]])
    fix x :: "jit \<times> nat"
    obtain J1 r1 where x: "x = (J1, r1)" by (cases x)
    assume "case x of (J2, r) \<Rightarrow> ext J J2 \<and> os J2 False r \<and> (\<forall>\<rho>. tr J2 \<rho> \<longrightarrow> d32 J2 \<rho> r = d32 J \<rho> ?a)"
    then have e1: "ext J J1" and r1: "os J1 False r1" "\<And>\<rho>. tr J1 \<rho> \<Longrightarrow> d32 J1 \<rho> r1 = d32 J \<rho> ?a" by (simp_all add: x)
    show "okr (fold_err J) (step_post J) (case x of (J1, r1) \<Rightarrow>
       rbind (emitir ff J1 IR_CONV (IRT IRT_INT) ?b (fop2 J)) (\<lambda>(J2, r2).
         fold_ret (lj_ir_set J2 op (IRT ?t) r1 r2) RETRYFOLD))"
      unfolding x prod.case
    proof (rule okr_bind [OF conv_call [OF p e1 c(1,2) s(1,2) ab(2,4) o]])
      fix y :: "jit \<times> nat"
      obtain J2 r2 where y: "y = (J2, r2)" by (cases y)
      assume "case y of (J2, r) \<Rightarrow> ext J1 J2 \<and> os J2 False r \<and> (\<forall>\<rho>. tr J2 \<rho> \<longrightarrow> d32 J2 \<rho> r = d32 J \<rho> ?b)"
      then have e2: "ext J1 J2" and r2: "os J2 False r2" "\<And>\<rho>. tr J2 \<rho> \<Longrightarrow> d32 J2 \<rho> r2 = d32 J \<rho> ?b" by (simp_all add: y)
      let ?J = "lj_ir_set J2 op (IRT ?t) r1 r2"
      note sr = same_set_regs(5,11) [of J2 op "IRT ?t" r1 r2]
      have e3: "ext J2 ?J" by (rule ext_regs [OF extD(1) [OF e2] sr])
      have e: "ext J ?J" by (rule ext_trans [OF e1 ext_trans [OF e2 e3]])
      note v1 = os_valid(1) [OF r1(1)] and v2 = os_valid(1) [OF r2(1)]
      have fi: "j_fins ?J = (j_fins J2)\<lparr>ir_o := op, ir_t := IRT ?t, ir_op1 := r1, ir_op2 := r2\<rparr>"
        by (simp add: lj_ir_set_def)
      have o2: "os J2 False r1" using ops_keep(1) [OF extD(2) [OF e2] v1] r1(1) by simp
      have nw: "\<not> wide (j_fins ?J)" using t a32_w(2) by (simp add: fi wide_def)
      have "fin_ok J2 (j_fins ?J)"
        by (rule fin_ring) (use cl t nw o2 r2(1) in \<open>simp_all add: fi oz_def\<close>)
      then have f: "fin_ok ?J (j_fins ?J)" using sem_same(5) [OF sr(1)] by simp
      have m: "meas ?J (j_fins ?J) < meas J (j_fins J)"
      proof (rule meas_rank)
        show "rank (ir_o (j_fins ?J)) < rank (fo J)" using o assms(3) by (auto simp: fi)
        show "ir_op1 (j_fins ?J) < 0x10000" "ir_op2 (j_fins ?J) < 0x10000"
          using valid_lt [OF jwfD(1) [OF extD(1) [OF e2]]] os_valid(1) [OF o2] v2 by (simp_all add: fi)
      qed
      have dd: "d32 ?J \<rho> r1 = d32 J \<rho> ?a" "d32 ?J \<rho> r2 = d32 J \<rho> ?b" if "tr J \<rho>" for \<rho>
      proof -
        have t1: "tr J1 \<rho>" using extD(4) [OF e1] that by simp
        then have t2: "tr J2 \<rho>" using extD(4) [OF e2] by simp
        have "den J2 \<rho> r1 = den J1 \<rho> r1"
          by (rule den_keeps [OF extD(1) [OF e1] jwfD(1) [OF extD(1) [OF e2]] extD(2) [OF e2] v1])
        then show "d32 ?J \<rho> r1 = d32 J \<rho> ?a" "d32 ?J \<rho> r2 = d32 J \<rho> ?b"
          using r1(2) [OF t1] r2(2) [OF t2] den_same [OF sr(1)] by simp_all
      qed
      have ar: "arithop op" "\<not> ovop op" using assms(3) by (auto simp: ovop_def)
      have gv: "gok ?J \<rho> (j_fins ?J)" "gok J \<rho> (j_fins J)" for \<rho>
        using gok_val [of "j_fins ?J"] arith_guard(2,3) [OF ar(1)] ar(2) c(6) by (simp_all add: fi)
      have iv: "ival ?J \<rho> (j_fins ?J) = ival J \<rho> (j_fins J)" if "tr J \<rho>" for \<rho>
        unfolding val using ival_arith [of "j_fins ?J" ?J \<rho>] ar(1) nw dd [OF that] by (simp add: fi)
      have "wide (j_fins ?J) = wide (j_fins J)" "pure_guard (fo ?J) = pure_guard (fo J)"
        using nw c(3,7) s(2) arith_guard(1) [OF ar(1)] by (simp_all add: fi)
      then show "okr (fold_err J) (step_post J) (case y of (J2, r2) \<Rightarrow> fold_ret (lj_ir_set J2 op (IRT ?t) r1 r2) RETRYFOLD)"
        unfolding y prod.case fold_ret_def okr_simps step_post_def foldres.case using e f m gv iv by simp
    qed
  qed
  moreover have "simplify_conv_narrow ff J = (if is_phi (j_fleft J) then fold_ret J NEXTFOLD else
      rbind (emitir ff J IR_CONV (IRT IRT_INT) ?a (fop2 J)) (\<lambda>(J1, r1).
       rbind (emitir ff J1 IR_CONV (IRT IRT_INT) ?b (fop2 J)) (\<lambda>(J2, r2).
         fold_ret (lj_ir_set J2 op (IRT ?t) r1 r2) RETRYFOLD)))"
    using ol by (simp add: simplify_conv_narrow_def Let_def L)
  ultimately show "okr (fold_err J) (step_post J) (simplify_conv_narrow ff J)"
    using ok_oob_err [OF next_post] by simp
qed

section \<open>Common conversions\<close>

lemma fold_ref_post:
  assumes "fold_post J m" "\<And>e. m = Inl e \<Longrightarrow> e = OOB"
  shows "ok_oob (step_post J) (fold_ref m)"
proof (cases m)
  case (Inl e)
  then show ?thesis using assms(2) by (simp add: fold_ref_def)
next
  case (Inr x)
  then show ?thesis using assms(1) by (cases x) (simp add: fold_ref_def step_post_def)
qed

lemma EMIT_post:
  assumes p: "fpre ff J" and s: "strict J (j_fins J)"
  shows "ok_oob (step_post J) (EMITFOLD J)"
  unfolding EMITFOLD_def
proof (rule fold_ref_post [OF emit_post [OF fpreD(1,3) [OF p] s]])
  fix e assume e: "lj_ir_emit J = Inl e"
  show "e = OOB"
    using emit_ok [OF fpreD(2) [OF p] sem_not_kop [OF fpreD(4) [OF p]] fin_lt [OF fpreD(1,5) [OF p]]] unfolding e by simp
qed

lemma ok_cse_conv: "rule_ok (IR_CONV, l, r) cse_conv"
proof (rule rule_okI)
  fix ff J assume p: "fpre ff J" and k: "key_match J (IR_CONV, l, r)"
  note wf = fpreD(1) [OF p] and o = keyD(1) [OF p k]
  have st: "strict J (j_fins J)" using o by (simp add: strict_def)
  let ?P = "\<lambda>(_ :: nat) ir. ir_op1 ir = fop1 J \<and> irconv_mode (ir_op2 ir) = irconv_mode (fop2 J) \<and> (irt_guard (ft J) \<longrightarrow> irt_guard (ir_t ir))"
  obtain s where s: "ir_walk J (fop1 J) ?P (j_chain J IR_CONV) = Inr s"
    "s \<noteq> 0 \<Longrightarrow> s \<in> chain_refs J IR_CONV \<and> ?P s (j_ir J s)"
    using ir_walk_ok [OF jwfD(1) [OF wf], of "fop1 J" ?P IR_CONV] by auto
  have e: "cse_conv ff J = (if j_opt_cse J then (if s \<noteq> 0 then fold_ret J (FoldRef s) else EMITFOLD J) else EMITFOLD J)"
    using s(1) by (simp add: cse_conv_def Let_def)
  show "ok_oob (step_post J) (cse_conv ff J)"
    unfolding e
  proof (intro step_if EMIT_post [OF p st])
    assume "s \<noteq> 0"
    then have "fold_post J (Inr (J, s))"
      using s(2) o by (intro hit_post [OF wf fpreD(3) [OF p] st]) (simp_all add: same_lit_def)
    then show "ok_oob (step_post J) (fold_ret J (FoldRef s))" by (simp add: fold_ret_def step_post_def)
  qed
qed

end
