(* ===== verification/LJ_FoldOkD.thy ===== *)
theory LJ_FoldOkD
  imports LJ_FoldOkC
begin

text \<open>
  Soundness of the fold functions, fifth part: integer arithmetic.
\<close>

section \<open>Overflow checks\<close>

lemma gok_ov: "ovop (ir_o i) \<Longrightarrow> gok J \<rho> i = noov (ir_o i) (d32 J \<rho> (ir_op1 i)) (d32 J \<rho> (ir_op2 i))"
  by (auto simp: gok_def gval_def ovop_def)

lemma noov_simps [simp]:
  "noov IR_ADDOV a 0" "noov IR_SUBOV a 0" "noov IR_MULOV a 0" "noov IR_MULOV a 1" "noov IR_SUBOV a a"
  "noov IR_MULOV a 2 = noov IR_ADDOV a a"
  using sint_ge [of a] sint_lt [of a] by (simp_all add: noov_def)

lemma sub_ops: "fpre ff J \<Longrightarrow> opcl (fo J) = O32 \<Longrightarrow> os J False (fop1 J) \<and> os J False (fop2 J) \<and> \<not> wide (j_fins J)"
  using fpreD(5) [of ff J] sem_cases(4) [OF fpreD(4)] by (simp add: opnds_ok_cl)

section \<open>Constant operands\<close>

lemma ok_intadd_k:
  assumes "op = IR_ADD \<or> op = IR_ADDOV \<or> op = IR_SUBOV"
  shows "rule_ok (op, l, ROp IR_KINT) simplify_intadd_k"
proof (rule rule_okI)
  fix ff J assume p: "fpre ff J" and k: "key_match J (op, l, ROp IR_KINT)"
  note o = keyD(1) [OF p k] and v = keyD(3) [OF p k refl] and wf = fpreD(1) [OF p]
  note kb = ins_k [OF wf v keyD(4) [OF p k refl]] and R = fpreD(8) [OF p v]
  have z: "oz J (wide (j_fins J)) (fop1 J)" using ring_ops [OF p] sub_ops [OF p] o assms by (auto simp: oz_def)
  have ar: "arithop (fo J)" using assms o by auto
  show "ok_oob (step_post J) (simplify_intadd_k ff J)"
    unfolding simplify_intadd_k_def dir_fold
  proof (rule step_if)
    assume "ir_i (j_fright J) = 0"
    then have kz: "den J \<rho> (fop2 J) = 0" for \<rho> using kb(2) by (simp add: R)
    show "ok_oob (step_post J) (fold_ret J (FoldRef (fop1 J)))"
    proof (rule arith_ref_g [OF p ar z])
      show "gok J \<rho> (j_fins J)" for \<rho>
      proof (cases "op = IR_ADD")
        case True
        then show ?thesis using o arith_gok [OF ar] by (simp add: ovop_def)
      next
        case False
        then show ?thesis using assms o kz gok_ov [of "j_fins J"] by (auto simp: ovop_def)
      qed
    qed (use assms o kz in auto)
  qed simp
qed

lemma ok_intmulov_k: "rule_ok (IR_MULOV, l, ROp IR_KINT) fold_simplify_intmul_k"
proof (rule rule_okI)
  fix ff J assume p: "fpre ff J" and k: "key_match J (IR_MULOV, l, ROp IR_KINT)"
  note o = keyD(1) [OF p k] and v = keyD(3) [OF p k refl] and wf = fpreD(1) [OF p]
  note kb = ins_k [OF wf v keyD(4) [OF p k refl]] and R = fpreD(8) [OF p v]
  have z: "os J False (fop1 J)" "\<not> wide (j_fins J)" using sub_ops [OF p] o by simp_all
  have t: "a32 (irt_ty (ft J))" using fpreD(4) [OF p] o by (simp add: sem_ins_def)
  have ar: "arithop (fo J)" "ovop (fo J)" using o by (auto simp: ovop_def)
  have g: "gok J \<rho> (j_fins J) = noov IR_MULOV (d32 J \<rho> (fop1 J)) (ir_i (j_fright J))" for \<rho>
    using gok_ov [of "j_fins J"] ar(2) o kb(5) by (simp add: R)
  show "ok_oob (step_post J) (fold_simplify_intmul_k ff J)"
    unfolding fold_simplify_intmul_k_def dir_fold Let_def
  proof (intro step_if)
    assume "ir_i (j_fright J) = 0"
    then show "ok_oob (step_post J) (fold_ret J (FoldRef (fop2 J)))"
      by (intro arith_ref_g [OF p ar(1)]) (use z o kb(2,3) g in \<open>simp_all add: R oz_def\<close>)
  next
    assume "ir_i (j_fright J) = 1"
    then show "ok_oob (step_post J) (fold_ret J (FoldRef (fop1 J)))"
      by (intro arith_ref_g [OF p ar(1)]) (use z o kb(5) g in \<open>simp_all add: R oz_def\<close>)
  next
    assume k2: "ir_i (j_fright J) = 2"
    let ?J = "set_op2 (fop1 J) (set_o IR_ADDOV J)"
    have nw: "\<not> wide (j_fins ?J)" using z(2) by simp
    show "ok_oob (step_post J) (fold_ret ?J RETRYFOLD)"
    proof (rule retry_post [OF wf])
      show "fin_ok J (j_fins ?J)" by (rule fin_32) (use z t in simp_all)
      show "meas J (j_fins ?J) < meas J (j_fins J)"
        by (rule meas_rank) (use o fin_op_lt [OF wf fpreD(5) [OF p]] in simp_all)
      have "gok J \<rho> (j_fins ?J) = noov IR_ADDOV (d32 J \<rho> (fop1 J)) (d32 J \<rho> (fop1 J))" for \<rho>
        using gok_ov [of "j_fins ?J" J \<rho>] by (simp add: ovop_def)
      then show "gok J \<rho> (j_fins ?J) = gok J \<rho> (j_fins J)" for \<rho> using g k2 by simp
      show "ival J \<rho> (j_fins ?J) = ival J \<rho> (j_fins J)" for \<rho>
        by (rule ival_eqI) (use z o k2 kb(5) in \<open>simp_all add: R\<close>)
    qed (use o z in \<open>simp_all add: same_regs_comp pure_guard_def\<close>)
  qed simp
qed

lemma retry_kint:
  assumes p: "fpre ff J" and s: "same_ir J J1" "same_env J J1" and o: "arithop (fo J)" "\<not> ovop (fo J)"
    and o': "arithop (fo J1)" "\<not> ovop (fo J1)" "wide (j_fins J1) = wide (j_fins J)" and a: "ir_valid J (fop1 J1)"
    and f: "\<And>J' r. kref J J' r \<Longrightarrow> ir_o (j_ir J' r) = IR_KINT \<and> ir_i (j_ir J' r) = c \<Longrightarrow>
       fin_ok J' ((j_fins J1)\<lparr>ir_op2 := r\<rparr>)"
      "\<And>J' r. kref J J' r \<Longrightarrow> ir_o (j_ir J' r) = IR_KINT \<and> ir_i (j_ir J' r) = c \<Longrightarrow>
       meas J' ((j_fins J1)\<lparr>ir_op2 := r\<rparr>) < meas J (j_fins J)"
    and w: "\<And>\<rho>. wide (j_fins J) \<Longrightarrow> arith (fo J1) (den J \<rho> (fop1 J1)) (ucast c) = arith (fo J) (den J \<rho> (fop1 J)) (den J \<rho> (fop2 J))"
      "\<And>\<rho>. \<not> wide (j_fins J) \<Longrightarrow> arith (fo J1) (d32 J \<rho> (fop1 J1)) c = arith (fo J) (d32 J \<rho> (fop1 J)) (d32 J \<rho> (fop2 J))"
  shows "ok_oob (step_post J) (retry_op2 (lj_ir_kint J1 c))"
proof (rule arith_retry_k [OF p s o o' a kint_ok [of J1 c], where kv = c and k = "ucast c"])
  show "irwf J1" using same_irD(1) [OF s(1)] fpreD(2) [OF p] by simp
qed (use kref_kint f w in auto)

lemma retry_kint64:
  assumes p: "fpre ff J" and s: "same_ir J J1" "same_env J J1" and o: "arithop (fo J)" "\<not> ovop (fo J)"
    and o': "arithop (fo J1)" "\<not> ovop (fo J1)" "wide (j_fins J1) = wide (j_fins J)" and a: "ir_valid J (fop1 J1)"
    and wd: "wide (j_fins J)"
    and f: "\<And>J' r. kref J J' r \<Longrightarrow> ir_o (j_ir J' r) = IR_KINT64 \<and> k64_val (j_k64 J') (ir_k (j_ir J' r)) = c \<Longrightarrow>
       fin_ok J' ((j_fins J1)\<lparr>ir_op2 := r\<rparr>)"
      "\<And>J' r. kref J J' r \<Longrightarrow> ir_o (j_ir J' r) = IR_KINT64 \<and> k64_val (j_k64 J') (ir_k (j_ir J' r)) = c \<Longrightarrow>
       meas J' ((j_fins J1)\<lparr>ir_op2 := r\<rparr>) < meas J (j_fins J)"
    and w: "\<And>\<rho>. arith (fo J1) (den J \<rho> (fop1 J1)) c = arith (fo J) (den J \<rho> (fop1 J)) (den J \<rho> (fop2 J))"
  shows "ok_oob (step_post J) (retry_op2 (lj_ir_kint64 J1 c))"
proof (rule arith_retry_k [OF p s o o' a kint64_ok [of J1 c], where kv = 0 and k = c])
  show "irwf J1" using same_irD(1) [OF s(1)] fpreD(2) [OF p] by simp
qed (use kref_kint64 f w wd in auto)

lemma meas_sub:
  assumes "ir_o i = IR_SUB" "ir_o j = IR_ADD" "ir_op1 j = ir_op1 i" "ir_op2 i < REF_BIAS" "ir_op2 j < REF_BIAS"
  shows "meas J' j < meas J i"
  using assms b2n_le [of "ir_op1 j < ir_op2 j"] by (simp add: meas_def b2n_def unmasked_def)

lemma ok_intsub_k: "rule_ok (IR_SUB, l, ROp IR_KINT) simplify_intsub_k"
proof (rule rule_okI)
  fix ff J assume p: "fpre ff J" and k: "key_match J (IR_SUB, l, ROp IR_KINT)"
  note o = keyD(1) [OF p k] and v = keyD(3) [OF p k refl] and wf = fpreD(1) [OF p]
  note kb = ins_k [OF wf v keyD(4) [OF p k refl]] and R = fpreD(8) [OF p v]
  have z: "oz J (wide (j_fins J)) (fop1 J)" "oz J (wide (j_fins J)) (fop2 J)" using ring_ops [OF p] o by simp_all
  have t: "a32 (irt_ty (ft J)) \<or> w64 (irt_ty (ft J))" using fin_ty [OF p] o by simp
  let ?k = "ir_i (j_fright J)" and ?J = "set_o IR_ADD J"
  show "ok_oob (step_post J) (simplify_intsub_k ff J)"
    unfolding simplify_intsub_k_def dir_fold Let_def
  proof (intro step_if)
    assume "?k = 0"
    then show "ok_oob (step_post J) (fold_ret J (FoldRef (fop1 J)))"
      by (intro arith_ref [OF p]) (use z o kb(2) in \<open>simp_all add: R ovop_def\<close>)
  next
    assume "?k \<noteq> 0"
    then have nw: "\<not> wide (j_fins J)" using z(2) kb(4) by (cases "wide (j_fins J)") (simp_all add: R)
    show "ok_oob (step_post J) (retry_op2 (lj_ir_kint ?J (- ?k)))"
    proof (rule retry_kint [OF p same_set_regs(1,7)])
      fix J' r assume kr: "kref J J' r" and P: "ir_o (j_ir J' r) = IR_KINT \<and> ir_i (j_ir J' r) = - ?k"
      note q = kref_kint [OF kr P] and ok = kref_ops [OF kr fpreD(10) [OF p]]
      show "fin_ok J' ((j_fins ?J)\<lparr>ir_op2 := r\<rparr>)"
        by (rule fin_ring) (use z(1) t q(1) nw ok in \<open>simp_all add: oz_def\<close>)
      show "meas J' ((j_fins ?J)\<lparr>ir_op2 := r\<rparr>) < meas J (j_fins J)"
        by (rule meas_sub) (use o kr kb(1) in \<open>simp_all add: kref_def\<close>)
    qed (use nw o kb(5) fpreD(10) [OF p] in \<open>simp_all add: R ovop_def\<close>)
  qed
qed

lemma ok_intsub_kleft:
  assumes "x = IR_KINT \<or> x = IR_KINT64"
  shows "rule_ok (IR_SUB, LOp x, r) simplify_intsub_kleft"
proof (rule rule_okI)
  fix ff J assume p: "fpre ff J" and k: "key_match J (IR_SUB, LOp x, r)"
  note o = keyD(1) [OF p k] and wf = fpreD(1) [OF p] and L = fpreD(7) [OF p] and ol = keyD(2) [OF p k refl]
  have z: "oz J (wide (j_fins J)) (fop2 J)" using ring_ops [OF p] o by simp_all
  have t: "a32 (irt_ty (ft J)) \<or> w64 (irt_ty (ft J))" using fin_ty [OF p] o by simp
  let ?J = "set_op1 (fop2 J) (set_o IR_NEG J)"
  show "ok_oob (step_post J) (simplify_intsub_kleft ff J)"
    unfolding simplify_intsub_kleft_def
  proof (rule step_if)
    assume "if ir_o (j_fleft J) = IR_KINT then ir_i (j_fleft J) = 0 else kleft64 J = 0"
    then have d: "den J \<rho> (fop1 J) = 0" for \<rho>
      using assms ol ins_k(2) [OF wf fpreD(10) [OF p]] ins_k64(2) [OF wf fpreD(10) [OF p]] by (auto simp: L kleft64_def)
    show "ok_oob (step_post J) (fold_ret ?J RETRYFOLD)"
    proof (rule arith_retry [OF p])
      show "fin_ok J (j_fins ?J)" by (rule fin_ring) (use z t in simp_all)
      show "meas J (j_fins ?J) < meas J (j_fins J)"
        by (rule meas_rank) (use o fin_op_lt [OF wf fpreD(5) [OF p]] in simp_all)
    qed (use o d in \<open>simp_all add: ovop_def same_regs_comp\<close>)
  qed simp
qed

lemma ok_intadd_k64: "rule_ok (IR_ADD, l, ROp IR_KINT64) simplify_intadd_k64"
proof (rule rule_okI)
  fix ff J assume p: "fpre ff J" and k: "key_match J (IR_ADD, l, ROp IR_KINT64)"
  note o = keyD(1) [OF p k] and v = keyD(3) [OF p k refl] and wf = fpreD(1) [OF p]
  note kb = ins_k64 [OF wf v keyD(4) [OF p k refl]] and R = fpreD(8) [OF p v]
  have z: "oz J (wide (j_fins J)) (fop1 J)" "oz J (wide (j_fins J)) (fop2 J)" using ring_ops [OF p] o by simp_all
  show "ok_oob (step_post J) (simplify_intadd_k64 ff J)"
    unfolding simplify_intadd_k64_def dir_fold
    by (rule step_if, rule arith_ref [OF p]) (use z o kb(2) in \<open>simp_all add: R ovop_def kright64_def\<close>)
qed

lemma ok_intsub_k64: "rule_ok (IR_SUB, l, ROp IR_KINT64) simplify_intsub_k64"
proof (rule rule_okI)
  fix ff J assume p: "fpre ff J" and k: "key_match J (IR_SUB, l, ROp IR_KINT64)"
  note o = keyD(1) [OF p k] and v = keyD(3) [OF p k refl] and wf = fpreD(1) [OF p]
  note kb = ins_k64 [OF wf v keyD(4) [OF p k refl]] and R = fpreD(8) [OF p v]
  have z: "oz J (wide (j_fins J)) (fop1 J)" "oz J (wide (j_fins J)) (fop2 J)" using ring_ops [OF p] o by simp_all
  have t: "a32 (irt_ty (ft J)) \<or> w64 (irt_ty (ft J))" using fin_ty [OF p] o by simp
  have w: "wide (j_fins J)" using z(2) kb(5) by (cases "wide (j_fins J)") simp_all
  let ?k = "kright64 J" and ?J = "set_o IR_ADD J"
  show "ok_oob (step_post J) (simplify_intsub_k64 ff J)"
    unfolding simplify_intsub_k64_def dir_fold Let_def
  proof (intro step_if)
    assume "?k = 0"
    then show "ok_oob (step_post J) (fold_ret J (FoldRef (fop1 J)))"
      by (intro arith_ref [OF p]) (use z o kb(2) w in \<open>simp_all add: R ovop_def kright64_def\<close>)
  next
    show "ok_oob (step_post J) (retry_op2 (lj_ir_kint64 ?J (- ?k)))"
    proof (rule retry_kint64 [OF p same_set_regs(1,7)])
      fix J' r assume kr: "kref J J' r" and P: "ir_o (j_ir J' r) = IR_KINT64 \<and> k64_val (j_k64 J') (ir_k (j_ir J' r)) = - ?k"
      note q = kref_kint64 [OF kr P] and ok = kref_ops [OF kr fpreD(10) [OF p]]
      show "fin_ok J' ((j_fins ?J)\<lparr>ir_op2 := r\<rparr>)"
        by (rule fin_ring) (use z(1) t q(2) w ok in simp_all)
      show "meas J' ((j_fins ?J)\<lparr>ir_op2 := r\<rparr>) < meas J (j_fins J)"
        by (rule meas_sub) (use o kr kb(1) in \<open>simp_all add: kref_def\<close>)
    qed (use w o kb(2) fpreD(10) [OF p] in \<open>simp_all add: R ovop_def kright64_def\<close>)
  qed
qed

section \<open>Powers of two\<close>

lemma pow2_fls:
  fixes k :: u32
  assumes "k \<noteq> 0" "k AND (k - 1) = 0"
  shows "unat k = 2 ^ lj_fls (unat k)" "lj_fls (unat k) < 32"
proof -
  let ?n = "lj_fls (unat k)"
  have p: "0 < unat k" using assms(1) by (simp add: unat_gt_0)
  have l: "2 ^ ?n \<le> unat k" "unat k < 2 * 2 ^ ?n" using lj_fls_lower [OF p] lj_fls_upper [of "unat k"] by simp_all
  have u: "unat k < 2 ^ 32" using unsigned_less [of k] by simp
  show n: "?n < 32" by (rule ccontr) (use l(1) u power_increasing [of 32 ?n "2 :: nat"] in simp)
  have b: "bit w ?n" if "2 ^ ?n \<le> unat w" "unat w < 2 * 2 ^ ?n" for w :: u32
  proof -
    have "unat w div 2 ^ ?n = 1" using that by (intro div_nat_eqI) simp_all
    then have "bit (unat w) ?n" by (simp add: bit_iff_odd)
    then show ?thesis by (simp add: bit_unsigned_iff)
  qed
  show "unat k = 2 ^ ?n"
  proof (rule ccontr)
    assume "unat k \<noteq> 2 ^ ?n"
    then have "2 ^ ?n < unat k" using l by simp
    moreover have "unat (k - 1) = unat k - 1" using assms(1) by (simp add: unat_minus_one)
    ultimately have "2 ^ ?n \<le> unat (k - 1)" "unat (k - 1) < 2 * 2 ^ ?n" using l by simp_all
    then have "bit (k - 1) ?n" by (rule b)
    then have "bit (k AND (k - 1)) ?n" using b [OF l] by (simp add: bit_and_iff)
    then show False using assms(2) by simp
  qed
qed

lemma pow2_word:
  fixes k :: u32
  assumes "k \<noteq> 0" "k AND (k - 1) = 0"
  shows "k = 2 ^ lj_fls (unat k)" "ucast k = (2 ^ lj_fls (unat k) :: u64)"
    "shc (of_nat (lj_fls (unat k)) :: u32) = lj_fls (unat k)"
    "shc (ucast (of_nat (lj_fls (unat k)) :: u32) :: u64) = lj_fls (unat k)"
proof -
  note f = pow2_fls [OF assms]
  have "of_nat (unat k) = (2 ^ lj_fls (unat k) :: u32)" "of_nat (unat k) = (2 ^ lj_fls (unat k) :: u64)"
    using f(1) by (metis of_nat_numeral of_nat_power)+
  moreover have "of_nat (unat k) = k" "of_nat (unat k) = (ucast k :: u64)" by simp_all
  ultimately show "k = 2 ^ lj_fls (unat k)" "ucast k = (2 ^ lj_fls (unat k) :: u64)" by simp_all
  have "unat (of_nat (lj_fls (unat k)) :: u32) = lj_fls (unat k)"
    using f(2) by (simp add: unat_of_nat)
  then show "shc (of_nat (lj_fls (unat k)) :: u32) = lj_fls (unat k)"
    "shc (ucast (of_nat (lj_fls (unat k)) :: u32) :: u64) = lj_fls (unat k)"
    using f(2) by (simp_all add: shc_def unsigned_ucast_eq take_bit_eq_mod)
qed

lemma ok_mul_k:
  assumes p: "fpre ff J" and o: "fo J = IR_MUL" and k: "k \<noteq> 0" and b: "fop2 J < REF_BIAS"
    and v: "\<And>\<rho>. wide (j_fins J) \<Longrightarrow> den J \<rho> (fop2 J) = ucast k" "\<And>\<rho>. \<not> wide (j_fins J) \<Longrightarrow> d32 J \<rho> (fop2 J) = k"
  shows "ok_oob (step_post J) (simplify_intmul_k J k)"
  unfolding simplify_intmul_k_def dir_fold
proof (intro step_if)
  note wf = fpreD(1) [OF p]
  have z: "oz J (wide (j_fins J)) (fop1 J)" using ring_ops [OF p] o by simp
  have t: "a32 (irt_ty (ft J)) \<or> w64 (irt_ty (ft J))" using fin_ty [OF p] o by simp
  show "ok_oob (step_post J) (fold_ret J (FoldRef (fop1 J)))" if "k = 1"
    by (rule arith_ref [OF p]) (use z o v that in \<open>simp_all add: ovop_def\<close>)
  assume e: "k AND (k - 1) = 0"
  note pw = pow2_word [OF k e]
  let ?c = "of_nat (lj_fls (unat k)) :: u32" and ?J = "set_o IR_BSHL J"
  show "ok_oob (step_post J) (retry_op2 (lj_ir_kint ?J ?c))"
  proof (rule retry_kint [OF p same_set_regs(1,7)])
    fix J' r assume kr: "kref J J' r" and P: "ir_o (j_ir J' r) = IR_KINT \<and> ir_i (j_ir J' r) = ?c"
    note q = kref_kint [OF kr P] and ok = kref_ops [OF kr fpreD(10) [OF p]]
    show "fin_ok J' ((j_fins ?J)\<lparr>ir_op2 := r\<rparr>)"
      by (rule fin_shift) (use z t q(1) ok in simp_all)
    show "meas J' ((j_fins ?J)\<lparr>ir_op2 := r\<rparr>) < meas J (j_fins J)"
      by (rule meas_rank) (use o kr fin_op_lt(1) [OF wf fpreD(5) [OF p]] in \<open>simp_all add: kref_def REF_BIAS_def\<close>)
  next
    fix \<rho> assume "wide (j_fins J)"
    then show "arith (fo ?J) (den J \<rho> (fop1 ?J)) (ucast ?c) = arith (fo J) (den J \<rho> (fop1 J)) (den J \<rho> (fop2 J))"
      using o v(1) pw(2,4) by (simp add: push_bit_eq_mult)
  next
    fix \<rho> assume "\<not> wide (j_fins J)"
    then have v2: "d32 J \<rho> (fop2 J) = 2 ^ lj_fls (unat k)" using v(2) [of \<rho>] pw(1) by simp
    show "arith (fo ?J) (d32 J \<rho> (fop1 ?J)) ?c = arith (fo J) (d32 J \<rho> (fop1 J)) (d32 J \<rho> (fop2 J))"
      unfolding v2 using o pw(3) by (simp add: push_bit_eq_mult)
  qed (use o fpreD(10) [OF p] in \<open>simp_all add: ovop_def\<close>)
qed simp

lemma ok_intmul_k32: "rule_ok (IR_MUL, l, ROp IR_KINT) simplify_intmul_k32"
proof (rule rule_okI)
  fix ff J assume p: "fpre ff J" and k: "key_match J (IR_MUL, l, ROp IR_KINT)"
  note o = keyD(1) [OF p k] and v = keyD(3) [OF p k refl] and wf = fpreD(1) [OF p]
  note kb = ins_k [OF wf v keyD(4) [OF p k refl]] and R = fpreD(8) [OF p v]
  have z: "oz J (wide (j_fins J)) (fop2 J)" using ring_ops [OF p] o by simp_all
  let ?k = "ir_i (j_fright J)"
  have w: "\<not> wide (j_fins J)" if "?k \<noteq> 0" using z kb(4) that by (cases "wide (j_fins J)") (simp_all add: R)
  show "ok_oob (step_post J) (simplify_intmul_k32 ff J)"
    unfolding simplify_intmul_k32_def Let_def
  proof (intro step_if)
    assume "?k = 0"
    then show "ok_oob (step_post J) (INTFOLD J 0)"
      by (intro int_post [OF wf]) (use o kb(2) in \<open>simp_all add: R pure_guard_def gok_val ovop_def ival_arith\<close>)
  next
    assume "?k \<noteq> 0"
    then show "ok_oob (step_post J) (simplify_intmul_k J ?k)"
      by (intro ok_mul_k [OF p o]) (use w kb(1,5) in \<open>simp_all add: R\<close>)
  qed simp
qed

lemma ok_intmul_k64: "rule_ok (IR_MUL, l, ROp IR_KINT64) simplify_intmul_k64"
proof (rule rule_okI)
  fix ff J assume p: "fpre ff J" and k: "key_match J (IR_MUL, l, ROp IR_KINT64)"
  note o = keyD(1) [OF p k] and v = keyD(3) [OF p k refl] and wf = fpreD(1) [OF p]
  note kb = ins_k64 [OF wf v keyD(4) [OF p k refl]] and R = fpreD(8) [OF p v]
  have z: "oz J (wide (j_fins J)) (fop2 J)" using ring_ops [OF p] o by simp_all
  have w: "wide (j_fins J)" using z kb(5) by (cases "wide (j_fins J)") simp_all
  let ?k = "kright64 J"
  show "ok_oob (step_post J) (simplify_intmul_k64 ff J)"
    unfolding simplify_intmul_k64_def
  proof (intro step_if)
    assume "?k = 0"
    then show "ok_oob (step_post J) (INT64FOLD J 0)"
      by (intro int64_post [OF wf]) (use o w kb(2) in \<open>simp_all add: R kright64_def pure_guard_def gok_val ovop_def ival_arith\<close>)
  next
    assume nz: "?k \<noteq> 0" and lt: "?k < 0x80000000"
    have "unat ?k < 2 ^ 32" using lt by (simp add: word_less_nat_alt)
    then have u: "ucast (ucast ?k :: u32) = ?k"
      by (simp only: word_unat_eq_iff unsigned_ucast_eq unsigned_take_bit_eq) (simp add: take_bit_eq_mod)
    then have "ucast ?k \<noteq> (0 :: u32)" using nz by auto
    then show "ok_oob (step_post J) (simplify_intmul_k J (ucast ?k))"
      by (intro ok_mul_k [OF p o]) (use w kb(1,2) u in \<open>simp_all add: R kright64_def\<close>)
  qed simp
qed

section \<open>Remainders\<close>

lemma mod_pow2:
  fixes a k :: u32
  assumes "0 <s k" "k AND (k - 1) = 0"
  shows "of_int (sint a mod sint k) = a AND (k - 1)"
proof -
  let ?n = "lj_fls (unat k)"
  have k: "k \<noteq> 0" "0 < sint k" using assms(1) by (auto simp: word_sless_alt)
  note pw = pow2_word(1) [OF k(1) assms(2)] and n = pow2_fls [OF k(1) assms(2)]
  have n31: "?n < 31"
  proof (rule ccontr)
    assume "\<not> ?n < 31"
    then have "?n = 31" using n(2) by simp
    then have "k = 2 ^ 31" using pw by simp
    then show False using k(2) by simp
  qed
  have "(2 :: int) ^ ?n < 2 ^ 31" using n31 by (simp only: power_strict_increasing_iff)
  then have "uint k < 2 ^ 31" using n(1) by (metis of_nat_numeral of_nat_power uint_nat)
  moreover have "- (2 ^ 31) \<le> uint k" by (rule order_trans [OF _ uint_ge_0]) simp
  ultimately have "signed_take_bit 31 (uint k) = uint k" by (intro signed_take_bit_int_eq_self)
  then have "sint k = int (unat k)" by (simp add: sint_uint)
  moreover have "int (unat k) = 2 ^ ?n" using n(1) by (metis of_nat_numeral of_nat_power)
  ultimately have s: "sint k = 2 ^ ?n" by simp
  have m: "k - 1 = mask ?n" using pw by (simp add: mask_eq_exp_minus_1)
  have "of_int (sint a mod 2 ^ ?n) = take_bit ?n a"
    by (rule bit_word_eqI) (use n31 in \<open>auto simp: take_bit_eq_mod [symmetric] bit_simps\<close>)
  then show ?thesis unfolding s m by (simp add: take_bit_eq_mask)
qed

lemma ok_intmod_k: "rule_ok (IR_MOD, l, ROp IR_KINT) simplify_intmod_k"
proof (rule rule_okI)
  fix ff J assume p: "fpre ff J" and k: "key_match J (IR_MOD, l, ROp IR_KINT)"
  note o = keyD(1) [OF p k] and v = keyD(3) [OF p k refl] and wf = fpreD(1) [OF p]
  note kb = ins_k [OF wf v keyD(4) [OF p k refl]] and R = fpreD(8) [OF p v]
  have z: "os J False (fop1 J)" "\<not> wide (j_fins J)" using sub_ops [OF p] o by simp_all
  have t: "a32 (irt_ty (ft J))" using fpreD(4) [OF p] o by (simp add: sem_ins_def)
  let ?k = "ir_i (j_fright J)" and ?J = "set_o IR_BAND J"
  show "ok_oob (step_post J) (simplify_intmod_k ff J)"
    unfolding simplify_intmod_k_def Let_def
  proof (rule step_if)
    assume c: "0 <s ?k \<and> ?k AND (?k - 1) = 0"
    show "ok_oob (step_post J) (retry_op2 (lj_ir_kint ?J (?k - 1)))"
    proof (rule retry_kint [OF p same_set_regs(1,7)])
      fix J' r assume kr: "kref J J' r" and P: "ir_o (j_ir J' r) = IR_KINT \<and> ir_i (j_ir J' r) = ?k - 1"
      note q = kref_kint [OF kr P] and ok = kref_ops [OF kr fpreD(10) [OF p]]
      show "fin_ok J' ((j_fins ?J)\<lparr>ir_op2 := r\<rparr>)"
        by (rule fin_bit) (use z t q(1) ok in simp_all)
      show "meas J' ((j_fins ?J)\<lparr>ir_op2 := r\<rparr>) < meas J (j_fins J)"
        by (rule meas_rank) (use o kr fin_op_lt(1) [OF wf fpreD(5) [OF p]] in \<open>simp_all add: kref_def REF_BIAS_def\<close>)
    next
      fix \<rho> assume "\<not> wide (j_fins J)"
      show "arith (fo ?J) (d32 J \<rho> (fop1 ?J)) (?k - 1) = arith (fo J) (d32 J \<rho> (fop1 J)) (d32 J \<rho> (fop2 J))"
        using o kb(5) mod_pow2 [OF conjunct1 [OF c] conjunct2 [OF c]] by (simp add: R)
    qed (use o z(2) fpreD(10) [OF p] in \<open>simp_all add: ovop_def\<close>)
  qed simp
qed

lemma ok_intmod_kleft: "rule_ok (IR_MOD, LOp IR_KINT, r) simplify_intmod_kleft"
proof (rule rule_okI)
  fix ff J assume p: "fpre ff J" and k: "key_match J (IR_MOD, LOp IR_KINT, r)"
  note o = keyD(1) [OF p k] and wf = fpreD(1) [OF p] and L = fpreD(7) [OF p]
  note ka = ins_k [OF wf fpreD(10) [OF p] keyD(2) [OF p k refl]]
  have nw: "\<not> wide (j_fins J)" using sub_ops [OF p] o by simp
  show "ok_oob (step_post J) (simplify_intmod_kleft ff J)"
    unfolding simplify_intmod_kleft_def
    by (rule step_if, rule int_post [OF wf])
      (use o nw ka(5) in \<open>simp_all add: L pure_guard_def gok_val ovop_def ival_arith\<close>)
qed

section \<open>Differences\<close>

lemma type_wide:
  assumes "fpre ff J" "opcl (fo J) \<noteq> OAbc" "opcl (fo J) \<noteq> OConv"
  shows "irt_is64 (irt_ty (ft J)) = wide (j_fins J)" "irt_ty (ft J) \<noteq> IRT_NUM"
  using fin_ty [OF assms] width_is64 a32_w(1) a32_w(2) unfolding wide_def by blast+

lemma zero_post:
  assumes p: "fpre ff J" and o: "arithop (fo J)" "opcl (fo J) \<noteq> OConv" and v: "\<And>\<rho>. gok J \<rho> (j_fins J) \<and> ival J \<rho> (j_fins J) = 0"
  shows "ok_oob (step_post J) (zerofold J)"
proof (cases "wide (j_fins J)")
  case True
  then have "ok_oob (step_post J) (INT64FOLD J 0)"
    by (intro int64_post [OF fpreD(1) [OF p] arith_guard(1) [OF o(1)]]) (use v in simp_all)
  then show ?thesis using type_wide(1) [OF p arith_guard(3) [OF o(1)] o(2)] True by (simp add: zerofold_def)
next
  case False
  then have "ok_oob (step_post J) (INTFOLD J 0)"
    by (intro int_post [OF fpreD(1) [OF p] arith_guard(1) [OF o(1)]]) (use v in simp_all)
  then show ?thesis using type_wide(1) [OF p arith_guard(3) [OF o(1)] o(2)] False by (simp add: zerofold_def)
qed

lemma ok_intsub:
  assumes "op = IR_SUB \<or> op = IR_SUBOV"
  shows "rule_ok (op, l, r) simplify_intsub"
proof (rule rule_okI)
  fix ff J assume p: "fpre ff J" and k: "key_match J (op, l, r)"
  note o = keyD(1) [OF p k]
  have a: "arithop (fo J)" "opcl (fo J) \<noteq> OConv" using o assms by auto
  have g: "gok J \<rho> (j_fins J)" if "fop1 J = fop2 J" for \<rho>
    using assms arith_gok [OF a(1)] gok_ov [of "j_fins J"] o that by (auto simp: ovop_def)
  show "ok_oob (step_post J) (simplify_intsub ff J)"
    unfolding simplify_intsub_def
    by (rule step_if, rule zero_post [OF p a]) (use assms o g a(1) in \<open>auto simp: ival_arith\<close>)
qed

lemma ok_intsubadd_leftcancel: "rule_ok (IR_SUB, LOp IR_ADD, r) simplify_intsubadd_leftcancel"
proof (rule rule_okI)
  fix ff J assume p: "fpre ff J" and k: "key_match J (IR_SUB, LOp IR_ADD, r)"
  note o = keyD(1) [OF p k] and wf = fpreD(1) [OF p] and L = fpreD(7) [OF p]
  have z: "oz J (wide (j_fins J)) (fop1 J)" using ring_ops [OF p] o by simp
  note d = opd [OF wf z keyD(2) [OF p k refl], folded L]
  show "ok_oob (step_post J) (simplify_intsubadd_leftcancel ff J)"
    unfolding simplify_intsubadd_leftcancel_def Let_def
    by (intro step_if arith_ref [OF p]) (use d o in \<open>simp_all add: ovop_def\<close>)
qed

lemma ok_intsubsub_rightcancel: "rule_ok (IR_SUB, l, ROp IR_SUB) simplify_intsubsub_rightcancel"
proof (rule rule_okI)
  fix ff J assume p: "fpre ff J" and k: "key_match J (IR_SUB, l, ROp IR_SUB)"
  note o = keyD(1) [OF p k] and wf = fpreD(1) [OF p] and R = fpreD(8) [OF p keyD(3) [OF p k refl]]
  have z: "oz J (wide (j_fins J)) (fop2 J)" using ring_ops [OF p] o by simp
  note d = opd [OF wf z keyD(4) [OF p k refl], folded R]
  show "ok_oob (step_post J) (simplify_intsubsub_rightcancel ff J)"
    unfolding simplify_intsubsub_rightcancel_def Let_def
    by (intro step_if arith_ref [OF p]) (use d o in \<open>simp_all add: ovop_def\<close>)
qed

lemma ok_retry_zero:
  assumes p: "fpre ff J" and o: "fo J = IR_SUB" and j: "oz J (wide (j_fins J)) j" "pos j < pos (fop1 J) + pos (fop2 J)"
    and v: "\<And>\<rho>. wide (j_fins J) \<Longrightarrow> - den J \<rho> j = den J \<rho> (fop1 J) - den J \<rho> (fop2 J)"
      "\<And>\<rho>. \<not> wide (j_fins J) \<Longrightarrow> - d32 J \<rho> j = d32 J \<rho> (fop1 J) - d32 J \<rho> (fop2 J)"
  shows "ok_oob (step_post J) (retry_zero_sub J j)"
  unfolding retry_zero_sub_def
proof (rule okr_bind [OF kint_ok [OF fpreD(2) [OF p]]])
  note wf = fpreD(1) [OF p]
  fix x :: "jit \<times> nat"
  obtain J' r where x: "x = (J', r)" by (cases x)
  assume "case x of (J', r) \<Rightarrow> k_added J J' r \<and> ir_o (j_ir J' r) = IR_KINT \<and> ir_i (j_ir J' r) = 0"
  then have a: "k_added J J' r" "ir_o (j_ir J' r) = IR_KINT \<and> ir_i (j_ir J' r) = 0" unfolding x prod.case by blast+
  have e1: "ext J J'" by (rule ext_k [OF wf a(1)])
  have kr: "kref J J' r" using e1 a(1) by (simp add: kref_def k_added_def)
  have fi: "j_fins J' = j_fins J" using a(1) by (simp add: k_added_def same_regs_def)
  note q = kref_kint [OF kr a(2)] and oj = kref_ops [OF kr os_valid(2) [OF j(1)]]
  let ?J = "set_op2 j (set_op1 r J')"
  have s: "same_ir J' ?J" "same_env J' ?J" by (intro same_regs_comp same_env_refl)+
  have e2: "ext J' ?J" by (rule ext_regs [OF extD(1) [OF e1] s])
  have e: "ext J ?J" by (rule ext_trans [OF e1 e2])
  have t: "a32 (irt_ty (ft J)) \<or> w64 (irt_ty (ft J))" using fin_ty [OF p] o by simp
  have zr: "oz J' w r" for w using q(1,2) by (cases w) (simp_all add: oz_def)
  have "fin_ok J' (j_fins ?J)"
    by (rule fin_ring) (use o t zr j(1) oj in \<open>simp_all add: fi\<close>)
  then have f: "fin_ok ?J (j_fins ?J)" using sem_same(5) [OF s(1)] by simp
  have m: "meas ?J (j_fins ?J) < meas J (j_fins J)"
    by (rule meas_ops) (use j(2) kr in \<open>simp_all add: fi kref_def\<close>)
  have dj: "den ?J \<rho> j = den J \<rho> j" for \<rho>
    by (rule den_keeps [OF wf jwfD(1) [OF extD(1) [OF e]] extD(2) [OF e] os_valid(2) [OF j(1)]])
  have dr: "den ?J \<rho> r = 0" for \<rho> using q(3) [of \<rho>] den_same [OF s(1)] by simp
  have g: "gok ?J \<rho> (j_fins ?J)" "gok J \<rho> (j_fins J)" for \<rho> using o by (simp_all add: fi gok_val ovop_def)
  have iv: "ival ?J \<rho> (j_fins ?J) = ival J \<rho> (j_fins J)" for \<rho>
    by (rule ival_eqI) (use v o dj dr in \<open>simp_all add: fi\<close>)
  show "ok_oob (step_post J) (case x of (J, r) \<Rightarrow> fold_ret (set_op2 j (set_op1 r J)) RETRYFOLD)"
    unfolding x prod.case fold_ret_def okr_simps step_post_def foldres.case
    using e f m g iv by (simp add: fi)
qed

lemma ok_intsubsub_leftcancel: "rule_ok (IR_SUB, LOp IR_SUB, r) simplify_intsubsub_leftcancel"
proof (rule rule_okI)
  fix ff J assume p: "fpre ff J" and k: "key_match J (IR_SUB, LOp IR_SUB, r)"
  note o = keyD(1) [OF p k] and wf = fpreD(1) [OF p] and L = fpreD(7) [OF p]
  have z: "oz J (wide (j_fins J)) (fop1 J)" using ring_ops [OF p] o by simp
  note d = opd [OF wf z keyD(2) [OF p k refl], folded L]
  show "ok_oob (step_post J) (simplify_intsubsub_leftcancel ff J)"
    unfolding simplify_intsubsub_leftcancel_def Let_def
    by (intro step_if ok_retry_zero [OF p o]) (use d o in simp_all)
qed

lemma ok_intsubadd_rightcancel: "rule_ok (IR_SUB, l, ROp IR_ADD) simplify_intsubadd_rightcancel"
proof (rule rule_okI)
  fix ff J assume p: "fpre ff J" and k: "key_match J (IR_SUB, l, ROp IR_ADD)"
  note o = keyD(1) [OF p k] and wf = fpreD(1) [OF p] and R = fpreD(8) [OF p keyD(3) [OF p k refl]]
  have z: "oz J (wide (j_fins J)) (fop2 J)" using ring_ops [OF p] o by simp
  note d = opd [OF wf z keyD(4) [OF p k refl], folded R]
  show "ok_oob (step_post J) (simplify_intsubadd_rightcancel ff J)"
    unfolding simplify_intsubadd_rightcancel_def Let_def
    by (intro step_if ok_retry_zero [OF p o]) (use d o in simp_all)
qed

lemma ok_intsubaddadd_cancel: "rule_ok (IR_SUB, LOp IR_ADD, ROp IR_ADD) simplify_intsubaddadd_cancel"
proof (rule rule_okI)
  fix ff J assume p: "fpre ff J" and k: "key_match J (IR_SUB, LOp IR_ADD, ROp IR_ADD)"
  note o = keyD(1) [OF p k] and wf = fpreD(1) [OF p] and L = fpreD(7) [OF p] and R = fpreD(8) [OF p keyD(3) [OF p k refl]]
  have z: "oz J (wide (j_fins J)) (fop1 J)" "oz J (wide (j_fins J)) (fop2 J)" using ring_ops [OF p] o by simp_all
  have t: "a32 (irt_ty (ft J)) \<or> w64 (irt_ty (ft J))" using fin_ty [OF p] o by simp
  note d = opd [OF wf z(1) keyD(2) [OF p k refl], folded L] and e = opd [OF wf z(2) keyD(4) [OF p k refl], folded R]
  have r: "ok_oob (step_post J) (fold_ret (set_op2 b (set_op1 a J)) RETRYFOLD)"
    if x: "oz J (wide (j_fins J)) a" "oz J (wide (j_fins J)) b" "pos a < pos (fop1 J)" "pos b < pos (fop2 J)"
      "\<And>\<rho>. wide (j_fins J) \<Longrightarrow> den J \<rho> a - den J \<rho> b = den J \<rho> (fop1 J) - den J \<rho> (fop2 J)"
      "\<And>\<rho>. \<not> wide (j_fins J) \<Longrightarrow> d32 J \<rho> a - d32 J \<rho> b = d32 J \<rho> (fop1 J) - d32 J \<rho> (fop2 J)" for a b
  proof (rule arith_retry [OF p])
    show "fin_ok J (j_fins (set_op2 b (set_op1 a J)))" by (rule fin_ring) (use x t o in simp_all)
    show "meas J (j_fins (set_op2 b (set_op1 a J))) < meas J (j_fins J)" by (rule meas_ops) (use x in simp_all)
  qed (use x o in \<open>simp_all add: same_regs_comp ovop_def\<close>)
  show "ok_oob (step_post J) (simplify_intsubaddadd_cancel ff J)"
    unfolding simplify_intsubaddadd_cancel_def Let_def
    by (intro step_if r) (use d e in simp_all)
qed

end
