(* ===== verification/LJ_FoldOkE.thy ===== *)
theory LJ_FoldOkE
  imports LJ_FoldOkD
begin

text \<open>
  Soundness of the fold functions, sixth part: bit operations and shifts.
\<close>

section \<open>Bit operations with a constant\<close>

lemma bit_ops: "fpre ff J \<Longrightarrow> opcl (fo J) = OBit \<Longrightarrow> os J (wide (j_fins J)) (fop1 J) \<and> os J (wide (j_fins J)) (fop2 J)"
  using fpreD(5) [of ff J] by (simp add: opnds_ok_cl)

lemma sint_words [simp]:
  "sint (w :: 'a::len word) = 0 \<longleftrightarrow> w = 0" "sint (w :: 'a::len word) = - 1 \<longleftrightarrow> w = - 1"
  "- 1 = sint (w :: 'a::len word) \<longleftrightarrow> w = - 1"
proof -
  show "sint w = 0 \<longleftrightarrow> w = 0" by (simp add: signed_eq_0_iff)
  show m: "sint w = - 1 \<longleftrightarrow> w = - 1" by (metis sint_n1 signed_word_eqI)
  show "- 1 = sint w \<longleftrightarrow> w = - 1" using m by auto
qed

text \<open>The value of an integer constant operand.\<close>

lemma kval_right:
  assumes p: "fpre ff J" and k: "key_match J (op, l, ROp x)" and x: "x = IR_KINT \<or> x = IR_KINT64"
    and os: "os J (wide (j_fins J)) (fop2 J)"
  shows "wide (j_fins J) = (x = IR_KINT64)"
    "kvalue J (j_fright J) = (if wide (j_fins J) then sint (den J \<rho> (fop2 J)) else sint (d32 J \<rho> (fop2 J)))"
proof -
  note v = keyD(3) [OF p k refl] and wf = fpreD(1) [OF p] and o = keyD(4) [OF p k refl]
  note R = fpreD(8) [OF p v]
  show w: "wide (j_fins J) = (x = IR_KINT64)"
    using ins_k(6) [OF wf v] ins_k64(4) [OF wf v] o os x by (cases "wide (j_fins J)") auto
  show "kvalue J (j_fright J) = (if wide (j_fins J) then sint (den J \<rho> (fop2 J)) else sint (d32 J \<rho> (fop2 J)))"
    using w x o ins_k(5) [OF wf v] ins_k64(2) [OF wf v] by (auto simp: kvalue_def R)
qed

lemma ok_bit_k:
  assumes "op = IR_BAND \<and> f = simplify_band_k \<or> op = IR_BOR \<and> f = simplify_bor_k" "x = IR_KINT \<or> x = IR_KINT64"
  shows "rule_ok (op, l, ROp x) f"
proof (rule rule_okI)
  fix ff J assume p: "fpre ff J" and k: "key_match J (op, l, ROp x)"
  note o = keyD(1) [OF p k]
  have ar: "arithop (fo J)" "\<not> ovop (fo J)" using o assms(1) by (auto simp: ovop_def)
  have z: "os J (wide (j_fins J)) (fop1 J)" "os J (wide (j_fins J)) (fop2 J)" using bit_ops [OF p] o assms(1) by auto
  note kv = kval_right(2) [OF p k assms(2) z(2)]
  have e: "f ff J = (if kvalue J (j_fright J) = (if op = IR_BAND then 0 else - 1) then RIGHTFOLD J
      else if kvalue J (j_fright J) = (if op = IR_BAND then - 1 else 0) then LEFTFOLD J else fold_ret J NEXTFOLD)"
    using assms(1) by (auto simp: simplify_band_k_def simplify_bor_k_def Let_def)
  show "ok_oob (step_post J) (f ff J)"
    unfolding e dir_fold
    by (intro step_if arith_ref [OF p] ar next_post)
      (use assms(1) o z kv in \<open>auto simp: oz_def split: if_splits\<close>)
qed

lemma ok_bxor_k:
  assumes "x = IR_KINT \<or> x = IR_KINT64"
  shows "rule_ok (IR_BXOR, l, ROp x) simplify_bxor_k"
proof (rule rule_okI)
  fix ff J assume p: "fpre ff J" and k: "key_match J (IR_BXOR, l, ROp x)"
  note o = keyD(1) [OF p k] and wf = fpreD(1) [OF p]
  have z: "os J (wide (j_fins J)) (fop1 J)" "os J (wide (j_fins J)) (fop2 J)" using bit_ops [OF p] o by auto
  have t: "a32 (irt_ty (ft J)) \<or> w64 (irt_ty (ft J))" using fin_ty [OF p] o by simp
  note kv = kval_right(2) [OF p k assms z(2)]
  let ?J = "set_op2 0 (set_o IR_BNOT J)"
  show "ok_oob (step_post J) (simplify_bxor_k ff J)"
    unfolding simplify_bxor_k_def Let_def dir_fold
  proof (intro step_if)
    assume "kvalue J (j_fright J) = 0"
    then show "ok_oob (step_post J) (fold_ret J (FoldRef (fop1 J)))"
      by (intro arith_ref [OF p]) (use o z kv in \<open>auto simp: oz_def ovop_def\<close>)
  next
    assume m: "kvalue J (j_fright J) = - 1"
    show "ok_oob (step_post J) (fold_ret ?J RETRYFOLD)"
    proof (rule arith_retry [OF p])
      show "fin_ok J (j_fins ?J)" using z(1) t by (auto simp: fin_ok_def sem_ins_def opnds_ok_cl scmp_def)
      show "meas J (j_fins ?J) < meas J (j_fins J)"
        by (rule meas_rank) (use o fin_op_lt [OF wf fpreD(5) [OF p]] in simp_all)
    qed (use o kv m in \<open>auto simp: ovop_def same_regs_comp\<close>)
  qed simp
qed

section \<open>Shifts\<close>

lemma shift_ops:
  "fpre ff J \<Longrightarrow> opcl (fo J) = OShift \<Longrightarrow> oz J (wide (j_fins J)) (fop1 J) \<and> os J False (fop2 J)"
  using fpreD(5) [of ff J] by (simp add: opnds_ok_cl)

lemma shift_opcl: "opcl op = OShift \<longleftrightarrow> op = IR_BSHL \<or> op = IR_BSHR \<or> op = IR_BSAR \<or> op = IR_BROL \<or> op = IR_BROR"
  by (auto simp: opcl_def)

lemma shift_arith: "opcl op = OShift \<Longrightarrow> arithop op" "opcl op = OShift \<Longrightarrow> \<not> ovop op"
  by (auto simp: shift_opcl ovop_def)

lemma rot_by_0 [simp]: "word_rotl 0 (a :: 'a::len word) = a" "word_rotr 0 a = a"
  by (rule bit_word_eqI; simp add: bit_word_rotl_iff bit_word_rotr_iff)+

lemma arith_sh_0: "opcl op = OShift \<Longrightarrow> shc b = 0 \<Longrightarrow> arith op a b = a"
  by (auto simp: shift_opcl)

lemma arith_sh_cong: "opcl op = OShift \<Longrightarrow> shc b = shc c \<Longrightarrow> arith op a b = arith op a c"
  by (auto simp: shift_opcl)

lemma mask_is: "fpre ff J \<Longrightarrow> opcl (fo J) = OShift \<Longrightarrow> shift_mask J = (if wide (j_fins J) then 63 else 31)"
  using type_wide(1) [of ff J] by (simp add: shift_mask_def)

text \<open>The count of a shift: the bits of the operand under the mask.\<close>

lemma shc_mask:
  assumes "jwf J" "os J False r"
  shows "shc (den J \<rho> r) = unat (d32 J \<rho> r AND 63)" "shc (d32 J \<rho> r) = unat (d32 J \<rho> r AND 31)"
proof -
  have "shc (ucast (d32 J \<rho> r) :: u64) = unat (d32 J \<rho> r AND 63)" by (rule shc64_32)
  then show "shc (den J \<rho> r) = unat (d32 J \<rho> r AND 63)" using os_range [OF assms] by simp
qed (rule shc32)

lemma and_mask_idem: "(k AND m) AND m = k AND (m :: u32)" by (simp add: and.assoc)

lemma rot_neg:
  fixes a :: "'a::len word"
  assumes "n < LENGTH('a)" "n \<noteq> 0"
  shows "word_rotl (LENGTH('a) - n) a = word_rotr n a"
  by (rule bit_word_eqI) (use assms in \<open>simp add: bit_word_rotl_iff bit_word_rotr_iff mod_simps\<close>)

lemma neg_mod:
  fixes u m q :: nat
  assumes "0 < u" "u < m"
  shows "(m * q + m - u) mod m = m - u"
proof -
  have e: "m * q + m - u = (m - u) + m * q" using assms by linarith
  show ?thesis unfolding e mod_mult_self2 using assms by simp
qed

lemma neg_mod_int: "0 < u \<Longrightarrow> u < m \<Longrightarrow> (- u) mod m = m - (u :: int)"
  by (simp add: zmod_zminus1_eq_if)

lemma uint_lt2p: "uint (w :: 'a::len word) < 2 ^ LENGTH('a)" and unat_lt2p: "unat w < 2 ^ LENGTH('a)"
  by (rule unsigned_less)+

lemma shc_neg:
  fixes k :: u32
  assumes "unat k < m" "k \<noteq> 0" "m = 32 \<or> m = 64"
  shows "unat (- k) mod m = m - unat k"
proof -
  have u: "0 < unat k" using assms(2) by (simp add: unat_gt_0)
  have "uint k < 2 ^ LENGTH(32)" by (rule uint_lt2p)
  then have lt: "uint k < 4294967296" by simp
  have pos: "0 < uint k" using u by (simp only: uint_nat of_nat_0_less_iff)
  have "uint (- k) = (- uint k) mod 4294967296" by (simp add: uint_word_ariths)
  also have "\<dots> = 4294967296 - uint k" by (rule neg_mod_int [OF pos lt])
  finally have "int (unat (- k)) = 4294967296 - int (unat k)" by (simp only: uint_nat)
  then have "unat (- k) = 4294967296 - unat k" by linarith
  then show ?thesis using assms(3) neg_mod [OF u assms(1), of "4294967296 div m - 1"] by auto
qed

lemma ror_rol:
  fixes k :: u32
  assumes "k \<noteq> 0"
  shows "unat k < 32 \<Longrightarrow> word_rotl (shc (- k AND 31)) (a :: u32) = word_rotr (shc k) a"
    "unat k < 64 \<Longrightarrow> word_rotl (shc (ucast (- k AND 63) :: u64)) (b :: u64) = word_rotr (shc (ucast k :: u64)) b"
proof -
  have z: "0 < unat k" using assms by (simp add: unat_gt_0)
  assume k: "unat k < 32"
  have "shc (- k AND 31) = shc (- k)" by (simp only: shc32 and_mask_idem)
  also have "\<dots> = 32 - unat k" using shc_neg [OF k assms] by (simp add: shc_def)
  finally show "word_rotl (shc (- k AND 31)) a = word_rotr (shc k) a"
    using k z rot_neg [of "unat k" a] by (simp add: shc_def)
next
  have z: "0 < unat k" using assms by (simp add: unat_gt_0)
  assume k: "unat k < 64"
  have u: "unat (ucast x :: u64) = unat (x :: u32)" for x
    using unat_lt2p [of x] by (simp only: unsigned_ucast_eq) (simp add: take_bit_eq_mod)
  have "shc (ucast (- k AND 63) :: u64) = shc (ucast (- k) :: u64)" by (simp only: shc64_32 and_mask_idem)
  also have "\<dots> = 64 - unat k" using shc_neg [OF k assms] by (simp add: shc_def u)
  finally show "word_rotl (shc (ucast (- k AND 63) :: u64)) b = word_rotr (shc (ucast k :: u64)) b"
    using k z rot_neg [of "unat k" b] by (simp add: shc_def u)
qed

lemma and_le_mask: "k AND m = (k :: u32) \<Longrightarrow> unat k \<le> unat m"
  by (metis word_and_le1 word_le_nat_alt)

lemma ok_shift_ik:
  assumes c: "opcl op = OShift"
  shows "rule_ok (op, l, ROp IR_KINT) simplify_shift_ik"
proof (rule rule_okI)
  fix ff J assume p: "fpre ff J" and k: "key_match J (op, l, ROp IR_KINT)"
  note o = keyD(1) [OF p k] and v = keyD(3) [OF p k refl] and wf = fpreD(1) [OF p] and or = keyD(4) [OF p k refl]
  note kb = ins_k [OF wf v or] and R = fpreD(8) [OF p v] and cl = c [folded o]
  note ar = shift_arith [OF cl]
  have z: "oz J (wide (j_fins J)) (fop1 J)" "os J False (fop2 J)" using shift_ops [OF p cl] by simp_all
  have t: "a32 (irt_ty (ft J)) \<or> w64 (irt_ty (ft J))" using fin_ty [OF p] cl by simp
  let ?c = "ir_i (j_fright J)" and ?m = "shift_mask J"
  note m = mask_is [OF p cl]
  let ?k = "?c AND ?m"
  have sh: "wide (j_fins J) \<Longrightarrow> shc (den J \<rho> (fop2 J)) = unat ?k" "\<not> wide (j_fins J) \<Longrightarrow> shc (d32 J \<rho> (fop2 J)) = unat ?k" for \<rho>
    using shc_mask [OF wf z(2), of \<rho>] kb(5) m by (simp_all add: R)
  have eqk: "(unat ?k = 0) = (?k = 0)" "(unat ?k = 1) = (?k = 1)" using word_unat_eq_iff [of ?k 0] word_unat_eq_iff [of ?k 1] by simp_all
  show "ok_oob (step_post J) (simplify_shift_ik ff J)"
    unfolding simplify_shift_ik_def Let_def dir_fold
  proof (intro step_if)
    assume "?k = 0"
    then show "ok_oob (step_post J) (fold_ret J (FoldRef (fop1 J)))"
      by (intro arith_ref [OF p ar(1) z(1) ar(2)]) (use sh arith_sh_0 [OF cl, where 'a = 64] arith_sh_0 [OF cl, where 'a = 32] in simp_all)
  next
    assume k1: "?k = 1 \<and> fo J = IR_BSHL"
    let ?J = "set_op2 (fop1 J) (set_o IR_ADD J)"
    show "ok_oob (step_post J) (fold_ret ?J RETRYFOLD)"
    proof (rule arith_retry [OF p _ _ ar])
      show "fin_ok J (j_fins ?J)" by (rule fin_ring) (use z t in simp_all)
      show "meas J (j_fins ?J) < meas J (j_fins J)"
        by (rule meas_rank) (use k1 fin_op_lt [OF wf fpreD(5) [OF p]] in simp_all)
    qed (use k1 sh in \<open>simp_all add: same_regs_comp ovop_def push_bit_eq_mult\<close>)
  next
    assume ne: "?k \<noteq> ?c"
    show "ok_oob (step_post J) (retry_op2 (lj_ir_kint J ?k))"
    proof (rule retry_kint [OF p _ _ ar ar])
      fix J' r assume kr: "kref J J' r" and P: "ir_o (j_ir J' r) = IR_KINT \<and> ir_i (j_ir J' r) = ?k"
      note q = kref_kint [OF kr P] and ok = kref_ops [OF kr fpreD(10) [OF p]]
      show "fin_ok J' ((j_fins J)\<lparr>ir_op2 := r\<rparr>)"
        by (rule fin_shift) (use z t q(1) ok cl in simp_all)
      have "\<not> unmasked J' ((j_fins J)\<lparr>ir_op2 := r\<rparr>)" "unmasked J (j_fins J)"
        using kr P ne m cl by (simp_all add: unmasked_def kref_def irref_isk_def and_mask_idem R wide_def [symmetric])
      moreover have "pos r = 0" "pos (fop2 J) = 0" using kr kb(1) by (simp_all add: kref_def)
      ultimately show "meas J' ((j_fins J)\<lparr>ir_op2 := r\<rparr>) < meas J (j_fins J)"
        using b2n_le [of "fop1 J < r"] by (simp add: meas_def b2n_def)
    next
      fix \<rho>
      show "wide (j_fins J) \<Longrightarrow> arith (fo J) (den J \<rho> (fop1 J)) (ucast ?k) = arith (fo J) (den J \<rho> (fop1 J)) (den J \<rho> (fop2 J))"
        by (rule arith_sh_cong [OF cl]) (use sh(1) m in \<open>simp add: shc64_32 and_mask_idem\<close>)
      show "\<not> wide (j_fins J) \<Longrightarrow> arith (fo J) (d32 J \<rho> (fop1 J)) ?k = arith (fo J) (d32 J \<rho> (fop1 J)) (d32 J \<rho> (fop2 J))"
        by (rule arith_sh_cong [OF cl]) (use sh(2) m in \<open>simp add: shc32 and_mask_idem\<close>)
    qed (use fpreD(10) [OF p] in \<open>simp_all add: same_regs_comp\<close>)
  next
    assume nz: "?k \<noteq> 0" and "\<not> ?k \<noteq> ?c" and r: "fo J = IR_BROR"
    then have kc: "?k = ?c" by simp
    have lt: "unat ?c \<le> unat ?m" by (rule and_le_mask [OF kc])
    have nz': "?c \<noteq> 0" using nz kc by simp
    show "ok_oob (step_post J) (retry_op2 (lj_ir_kint (set_o IR_BROL J) (- ?k AND ?m)))"
      unfolding kc
    proof (rule retry_kint [OF p same_set_regs(1,7) ar])
      fix J' r' assume kr: "kref J J' r'" and P: "ir_o (j_ir J' r') = IR_KINT \<and> ir_i (j_ir J' r') = - ?c AND ?m"
      note q = kref_kint [OF kr P] and ok = kref_ops [OF kr fpreD(10) [OF p]]
      show "fin_ok J' ((j_fins (set_o IR_BROL J))\<lparr>ir_op2 := r'\<rparr>)"
        by (rule fin_shift) (use z t q(1) ok in simp_all)
      show "meas J' ((j_fins (set_o IR_BROL J))\<lparr>ir_op2 := r'\<rparr>) < meas J (j_fins J)"
        by (rule meas_rank) (use r kr fin_op_lt(1) [OF wf fpreD(5) [OF p]] in \<open>simp_all add: kref_def REF_BIAS_def\<close>)
    next
      fix \<rho> assume w: "wide (j_fins J)"
      then have "unat ?c < 64" "den J \<rho> (fop2 J) = ucast ?c" using lt m kb(2) by (simp_all add: R)
      then show "arith (fo (set_o IR_BROL J)) (den J \<rho> (fop1 (set_o IR_BROL J))) (ucast (- ?c AND ?m)) =
          arith (fo J) (den J \<rho> (fop1 J)) (den J \<rho> (fop2 J))"
        using ror_rol(2) [OF nz'] r w m by simp
    next
      fix \<rho> assume w: "\<not> wide (j_fins J)"
      then have "unat ?c < 32" "d32 J \<rho> (fop2 J) = ?c" using lt m kb(5) by (simp_all add: R)
      then show "arith (fo (set_o IR_BROL J)) (d32 J \<rho> (fop1 (set_o IR_BROL J))) (- ?c AND ?m) =
          arith (fo J) (d32 J \<rho> (fop1 J)) (d32 J \<rho> (fop2 J))"
        using ror_rol(1) [OF nz'] r w m by simp
    qed (use fpreD(10) [OF p] in \<open>simp_all add: ovop_def\<close>)
  qed simp
qed

lemma ok_shift_andk:
  assumes c: "opcl op = OShift"
  shows "rule_ok (op, l, ROp IR_BAND) simplify_shift_andk"
proof (rule rule_okI)
  fix ff J assume p: "fpre ff J" and k: "key_match J (op, l, ROp IR_BAND)"
  note o = keyD(1) [OF p k] and v = keyD(3) [OF p k refl] and wf = fpreD(1) [OF p] and or = keyD(4) [OF p k refl]
  note R = fpreD(8) [OF p v] and cl = c [folded o]
  note ar = shift_arith [OF cl]
  have z: "oz J (wide (j_fins J)) (fop1 J)" "os J False (fop2 J)" using shift_ops [OF p cl] by simp_all
  then have z2: "oz J False (fop2 J)" by (simp add: oz_def)
  have t: "a32 (irt_ty (ft J)) \<or> w64 (irt_ty (ft J))" using fin_ty [OF p] cl by simp
  note d = opd [OF wf z2 or, folded R]
  have ops: "os J False (ir_op1 (j_fright J))" "os J False (ir_op2 (j_fright J))" using d(4) by simp_all
  let ?m = "shift_mask J" and ?J = "set_op2 (ir_op1 (j_fright J)) J"
  note m = mask_is [OF p cl]
  show "ok_oob (step_post J) (simplify_shift_andk ff J)"
    unfolding simplify_shift_andk_def Let_def
  proof (rule step_if)
    assume a: "\<not> is_phi (j_fright J) \<and> ir_o (j_ir J (ir_op2 (j_fright J))) = IR_KINT \<and> ir_i (j_ir J (ir_op2 (j_fright J))) AND ?m = ?m"
    note kk = ins_k(5) [OF wf os_valid(1) [OF ops(2)] conjunct1 [OF conjunct2 [OF a]]]
    have e: "d32 J \<rho> (fop2 J) AND ?m = d32 J \<rho> (ir_op1 (j_fright J)) AND ?m" for \<rho>
      using d(8) [of \<rho>] kk [of \<rho>] a by (simp add: and.assoc)
    show "ok_oob (step_post J) (fold_ret ?J RETRYFOLD)"
    proof (rule arith_retry [OF p same_set_regs(4,10) ar])
      show "fin_ok J (j_fins ?J)" by (rule fin_shift) (use z t ops(1) cl in simp_all)
      show "meas J (j_fins ?J) < meas J (j_fins J)" by (rule meas_ops) (use d(5) in simp_all)
    next
      fix \<rho>
      show "wide (j_fins J) \<Longrightarrow> arith (fo ?J) (den J \<rho> (fop1 ?J)) (den J \<rho> (fop2 ?J)) = arith (fo J) (den J \<rho> (fop1 J)) (den J \<rho> (fop2 J))"
        using arith_sh_cong [OF cl, of "den J \<rho> (ir_op1 (j_fright J))" "den J \<rho> (fop2 J)"]
          shc_mask(1) [OF wf ops(1), of \<rho>] shc_mask(1) [OF wf z(2), of \<rho>] e [of \<rho>] m by simp
      show "\<not> wide (j_fins J) \<Longrightarrow> arith (fo ?J) (d32 J \<rho> (fop1 ?J)) (d32 J \<rho> (fop2 ?J)) = arith (fo J) (d32 J \<rho> (fop1 J)) (d32 J \<rho> (fop2 J))"
        using arith_sh_cong [OF cl, of "d32 J \<rho> (ir_op1 (j_fright J))" "d32 J \<rho> (fop2 J)"]
          shc_mask(2) [OF wf ops(1), of \<rho>] shc_mask(2) [OF wf z(2), of \<rho>] e [of \<rho>] m by simp
    qed (use ar in simp_all)
  qed simp
qed

lemma kval_left:
  assumes p: "fpre ff J" and k: "key_match J (op, LOp x, r)" and x: "x = IR_KINT \<or> x = IR_KINT64"
    and oz: "oz J (wide (j_fins J)) (fop1 J)"
  shows "kvalue J (j_fleft J) = (if wide (j_fins J) then sint (den J \<rho> (fop1 J)) else sint (d32 J \<rho> (fop1 J)))"
proof -
  note v = fpreD(10) [OF p] and wf = fpreD(1) [OF p] and o = keyD(2) [OF p k refl] and L = fpreD(7) [OF p]
  have "x = IR_KINT64 \<Longrightarrow> wide (j_fins J)" "x = IR_KINT \<Longrightarrow> wide (j_fins J) \<Longrightarrow> ir_i (j_ir J (fop1 J)) = 0"
    using ins_k(4) [OF wf v] ins_k64(5) [OF wf v] o oz by (cases "wide (j_fins J)"; auto)+
  then show ?thesis
    using x o ins_k(2,5) [OF wf v] ins_k64(2) [OF wf v] by (auto simp: kvalue_def L)
qed

lemma shift_ones [simp]:
  "signed_drop_bit n (- 1 :: 'a::len word) = - 1" "word_rotl n (- 1 :: 'a word) = - 1" "word_rotr n (- 1 :: 'a word) = - 1"
  by (rule bit_word_eqI; simp add: bit_signed_drop_bit_iff bit_word_rotl_iff bit_word_rotr_iff)+

lemma ok_shift_ki:
  assumes "f = simplify_shift1_ki \<and> (op = IR_BSHL \<or> op = IR_BSHR) \<or> f = simplify_shift2_ki \<and> (op = IR_BSAR \<or> op = IR_BROL \<or> op = IR_BROR)"
    "x = IR_KINT \<or> x = IR_KINT64"
  shows "rule_ok (op, LOp x, r) f"
proof (rule rule_okI)
  fix ff J assume p: "fpre ff J" and k: "key_match J (op, LOp x, r)"
  note o = keyD(1) [OF p k]
  have cl: "opcl (fo J) = OShift" using o assms(1) by auto
  note ar = shift_arith [OF cl]
  have z: "oz J (wide (j_fins J)) (fop1 J)" using shift_ops [OF p cl] by simp
  note kv = kval_left [OF p k assms(2) z]
  have e: "f ff J = (if kvalue J (j_fleft J) = 0 \<or> (op \<noteq> IR_BSHL \<and> op \<noteq> IR_BSHR) \<and> kvalue J (j_fleft J) = - 1 then LEFTFOLD J else fold_ret J NEXTFOLD)"
    using assms(1) by (auto simp: simplify_shift1_ki_def simplify_shift2_ki_def Let_def)
  show "ok_oob (step_post J) (f ff J)"
    unfolding e dir_fold
  proof (rule step_if)
    assume c: "kvalue J (j_fleft J) = 0 \<or> (op \<noteq> IR_BSHL \<and> op \<noteq> IR_BSHR) \<and> kvalue J (j_fleft J) = - 1"
    show "ok_oob (step_post J) (fold_ret J (FoldRef (fop1 J)))"
    proof (rule arith_ref [OF p ar(1) z ar(2)])
      fix \<rho>
      show "wide (j_fins J) \<Longrightarrow> den J \<rho> (fop1 J) = arith (fo J) (den J \<rho> (fop1 J)) (den J \<rho> (fop2 J))"
        using c kv [of \<rho>] assms(1) o by auto
      show "\<not> wide (j_fins J) \<Longrightarrow> d32 J \<rho> (fop1 J) = arith (fo J) (d32 J \<rho> (fop1 J)) (d32 J \<rho> (fop2 J))"
        using c kv [of \<rho>] assms(1) o by auto
    qed
  qed simp
qed

text \<open>A shift distributes over the mask.\<close>

lemma shift_and:
  assumes "op = IR_BSHL \<or> op = IR_BSHR \<or> op = IR_BROL \<or> op = IR_BROR"
  shows "arith op (x AND y) n = arith op x n AND arith op y (n :: u32)"
  using assms by (elim disjE) (simp_all, (rule bit_word_eqI; simp add: bit_simps bit_word_rotl_iff bit_word_rotr_iff)+)

lemma ok_andk_shiftk:
  assumes "x = IR_BSHL \<or> x = IR_BSHR"
  shows "rule_ok (IR_BAND, LOp x, ROp IR_KINT) simplify_andk_shiftk"
proof (rule rule_okI)
  fix ff J assume p: "fpre ff J" and k: "key_match J (IR_BAND, LOp x, ROp IR_KINT)"
  note o = keyD(1) [OF p k] and v = keyD(3) [OF p k refl] and wf = fpreD(1) [OF p] and or = keyD(4) [OF p k refl] and ol = keyD(2) [OF p k refl]
  note kb = ins_k [OF wf v or] and R = fpreD(8) [OF p v] and L = fpreD(7) [OF p]
  have z: "os J (wide (j_fins J)) (fop1 J)" "os J (wide (j_fins J)) (fop2 J)" using bit_ops [OF p] o by auto
  have nw: "\<not> wide (j_fins J)" using z(2) kb(6) by (cases "wide (j_fins J)") simp_all
  have cl: "opcl x = OShift" "kf_op x" "x \<noteq> IR_MOD" using assms by (auto simp: kf_op_def)
  have zl: "oz J False (fop1 J)" using z(1) nw by (simp add: oz_def)
  note d = opd [OF wf zl ol, folded L]
  have i: "os J False (ir_op2 (j_fleft J))" using d(2) cl by simp
  let ?irk = "j_ir J (ir_op2 (j_fleft J))"
  show "ok_oob (step_post J) (simplify_andk_shiftk ff J)"
    unfolding simplify_andk_shiftk_def Let_def
  proof (rule step_if)
    assume ki: "ir_o ?irk = IR_KINT"
    note kk = ins_k(5) [OF wf os_valid(1) [OF i] ki]
    have e: "kfold_intop (- 1) (ir_i ?irk) (ir_o (j_fleft J)) = Inr (arith x (- 1) (ir_i ?irk))"
      using kfold_intop_arith [OF cl(2)] cl(3) ol by (simp add: L)
    have a: "arith x (y :: u32) n AND arith x (- 1) n = arith x y n" for y n
      using shift_and [of x y "- 1" n] assms by auto
    have "ok_oob (step_post J) (if arith x (- 1) (ir_i ?irk) = ir_i (j_fright J) then LEFTFOLD J else fold_ret J NEXTFOLD)"
      unfolding dir_fold
    proof (rule step_if)
      assume q: "arith x (- 1) (ir_i ?irk) = ir_i (j_fright J)"
      show "ok_oob (step_post J) (fold_ret J (FoldRef (fop1 J)))"
      proof (rule arith_ref [OF p])
        fix \<rho>
        have "d32 J \<rho> (fop1 J) = arith x (d32 J \<rho> (ir_op1 (j_fleft J))) (ir_i ?irk)" using d(8) [of \<rho>] kk [of \<rho>] cl(1) by simp
        then show "d32 J \<rho> (fop1 J) = arith (fo J) (d32 J \<rho> (fop1 J)) (d32 J \<rho> (fop2 J))"
          using a [of "d32 J \<rho> (ir_op1 (j_fleft J))" "ir_i ?irk"] o kb(5) [of \<rho>] q by (simp add: R)
      qed (use o nw zl in \<open>simp_all add: ovop_def\<close>)
    qed simp
    then show "ok_oob (step_post J) (rbind (kfold_intop (- 1) (ir_i ?irk) (ir_o (j_fleft J)))
        (\<lambda>k. if k = ir_i (j_fright J) then LEFTFOLD J else fold_ret J NEXTFOLD))"
      unfolding e by simp
  qed simp
qed

lemma ok_shiftk_andk:
  assumes "op = IR_BSHL \<or> op = IR_BSHR \<or> op = IR_BROL \<or> op = IR_BROR"
  shows "rule_ok (op, LOp IR_BAND, ROp IR_KINT) simplify_shiftk_andk"
proof (rule rule_okI')
  fix ff J assume p: "fpre ff J" and k: "key_match J (op, LOp IR_BAND, ROp IR_KINT)"
  note o = keyD(1) [OF p k] and v = keyD(3) [OF p k refl] and wf = fpreD(1) [OF p] and or = keyD(4) [OF p k refl] and ol = keyD(2) [OF p k refl]
  note kb = ins_k [OF wf v or] and R = fpreD(8) [OF p v] and L = fpreD(7) [OF p]
  have cl: "opcl (fo J) = OShift" "kf_op op" "op \<noteq> IR_MOD" using o assms by (auto simp: kf_op_def)
  have z: "oz J (wide (j_fins J)) (fop1 J)" "os J False (fop2 J)" using shift_ops [OF p cl(1)] by auto
  note d = opd [OF wf z(1) ol, folded L]
  let ?L = "j_fleft J" and ?irk = "j_ir J (ir_op2 (j_fleft J))" and ?c = "ir_i (j_fright J)"
  let ?J1 = "set_op1 (ir_op1 ?L) J"
  have main: "okr (fold_err J) (step_post J)
      (rbind (kfold_intop (ir_i ?irk) ?c (fo J)) (\<lambda>k.
       rbind (ff ?J1) (\<lambda>(J, r).
       rbind (lj_ir_kint (set_op1 r J) k) (\<lambda>(J, rk).
         fold_ret (set_o IR_BAND (set_t (IRT IRT_INT) (set_op2 rk J))) RETRYFOLD))))"
    if ki: "ir_o ?irk = IR_KINT"
  proof -
    have i: "os J (wide (j_fins J)) (ir_op1 ?L)" "os J (wide (j_fins J)) (ir_op2 ?L)" using d(4) by simp_all
    have nw: "\<not> wide (j_fins J)" using ins_k(6) [OF wf os_valid(1) [OF i(2)] ki] i(2) by (cases "wide (j_fins J)") simp_all
    note kk = ins_k(5) [OF wf os_valid(1) [OF i(2)] ki]
    have t: "a32 (irt_ty (ft J))" using fin_ty [OF p] cl nw by (auto simp: wide_def)
    have e: "kfold_intop (ir_i ?irk) ?c (fo J) = Inr (arith op (ir_i ?irk) ?c)"
      using kfold_intop_arith [OF cl(2)] cl(3) o by simp
    note sr = same_set_regs(3,9) [of J "ir_op1 ?L"]
    have e1: "ext J ?J1" by (rule ext_regs [OF wf sr])
    have "fin_ok J (j_fins ?J1)" by (rule fin_shift) (use cl t nw i(1) z(2) in \<open>simp_all add: oz_def\<close>)
    then have f: "fin_ok ?J1 (j_fins ?J1)" using sem_same(5) [OF sr(1)] by simp
    have st: "strict ?J1 (j_fins ?J1)" using nw by (simp add: strict_def)
    have m1: "meas ?J1 (j_fins ?J1) < meas J (j_fins J)" by (rule meas_ops) (use d(5) in simp_all)
    have ar: "arithop op" "\<not> ovop op" using shift_arith [OF cl(1)] o by simp_all
    have g1: "\<not> pure_guard (fo ?J1)" "gok ?J1 \<rho> (j_fins ?J1)" for \<rho>
      using arith_guard [OF ar(1)] ar o gok_val [of "j_fins ?J1"] by simp_all
    show ?thesis
      unfolding e rbind_simps
    proof (rule okr_bind [OF ff_call [OF p e1 f st m1 g1]])
      fix x :: "jit \<times> nat"
      obtain J2 r where x: "x = (J2, r)" by (cases x)
      assume "case x of (J2, r) \<Rightarrow> ext ?J1 J2 \<and> res_ok J2 (wide (j_fins ?J1)) r \<and>
        (\<forall>\<rho>. tr J2 \<rho> \<longrightarrow> den J2 \<rho> r = ival ?J1 \<rho> (j_fins ?J1))"
      then have e2: "ext ?J1 J2" and r: "os J2 False r" and dr: "\<And>\<rho>. tr J2 \<rho> \<Longrightarrow> den J2 \<rho> r = ival ?J1 \<rho> (j_fins ?J1)"
        using res_ok_32 nw by (simp_all add: x)
      let ?J3 = "set_op1 r J2"
      have e3: "ext J2 ?J3" by (rule ext_regs [OF extD(1) [OF e2] same_set_regs(3,9)])
      show "okr (fold_err J) (step_post J) (case x of (J, r) \<Rightarrow> rbind (lj_ir_kint (set_op1 r J) (arith op (ir_i ?irk) ?c)) (\<lambda>(J, rk).
         fold_ret (set_o IR_BAND (set_t (IRT IRT_INT) (set_op2 rk J))) RETRYFOLD))"
        unfolding x prod.case
      proof (rule okr_bind [OF ok_oob_err [OF kint_ok [OF jwfD(1) [OF extD(1) [OF e3]]]]])
        fix y :: "jit \<times> nat"
        obtain J4 rk where y: "y = (J4, rk)" by (cases y)
        assume "case y of (J', s) \<Rightarrow> k_added ?J3 J' s \<and> ir_o (j_ir J' s) = IR_KINT \<and> ir_i (j_ir J' s) = arith op (ir_i ?irk) ?c"
        then have a: "k_added ?J3 J4 rk" "ir_o (j_ir J4 rk) = IR_KINT \<and> ir_i (j_ir J4 rk) = arith op (ir_i ?irk) ?c"
          unfolding y prod.case by blast+
        have e4: "ext ?J3 J4" by (rule ext_k [OF extD(1) [OF e3] a(1)])
        have kr: "kref ?J3 J4 rk" using e4 a(1) by (simp add: kref_def k_added_def)
        note q = kref_kint [OF kr a(2)]
        let ?J = "set_o IR_BAND (set_t (IRT IRT_INT) (set_op2 rk J4))"
        have s4: "same_ir J4 ?J" "same_env J4 ?J" by (intro same_regs_comp same_env_refl)+
        have e5: "ext J4 ?J" by (rule ext_regs [OF extD(1) [OF e4] s4])
        have e24: "ext J2 J4" by (rule ext_trans [OF e3 e4])
        have eJ: "ext J ?J" by (rule ext_trans [OF e1 ext_trans [OF e2 ext_trans [OF e24 e5]]])
        have fi: "j_fins J4 = j_fins ?J3" using a(1) by (simp add: k_added_def same_regs_def)
        have r4: "os J4 False r" using ops_keep(1) [OF extD(2) [OF e24] os_valid(1) [OF r]] r by simp
        have nwJ: "\<not> wide (j_fins ?J)" by (simp add: wide_def)
        have "fin_ok J4 (j_fins ?J)" by (rule fin_bit) (use r4 q(1) nwJ in \<open>simp_all add: fi a32_def\<close>)
        then have fJ: "fin_ok ?J (j_fins ?J)" using sem_same(5) [OF s4(1)] by simp
        have mJ: "meas ?J (j_fins ?J) < meas J (j_fins J)"
        proof (rule meas_rank)
          show "rank (ir_o (j_fins ?J)) < rank (fo J)" using o assms by auto
          show "ir_op1 (j_fins ?J) < 0x10000" using valid_lt [OF jwfD(1) [OF extD(1) [OF e4]] os_valid(1) [OF r4]] by (simp add: fi)
          show "ir_op2 (j_fins ?J) < 0x10000" using kr by (simp add: kref_def REF_BIAS_def)
        qed
        have gJ: "gok ?J \<rho> (j_fins ?J)" "gok J \<rho> (j_fins J)" for \<rho>
          using arith_guard [OF ar(1)] ar o gok_val [of "j_fins J"] by (simp_all add: gok_val ovop_def)
        have iv: "ival ?J \<rho> (j_fins ?J) = ival J \<rho> (j_fins J)" if tr: "tr J \<rho>" for \<rho>
        proof -
          have t2: "tr J2 \<rho>" using tr extD(4) [OF e1] extD(4) [OF e2] by simp
          have "den ?J \<rho> r = den J2 \<rho> r"
            using den_keeps [OF extD(1) [OF e2] jwfD(1) [OF extD(1) [OF e4]] extD(2) [OF e24] os_valid(1) [OF r]]
              den_same [OF s4(1)] by simp
          moreover have "ival ?J1 \<rho> (j_fins ?J1) = ucast (arith op (d32 J \<rho> (ir_op1 ?L)) (d32 J \<rho> (fop2 J)))"
            using ival_arith [of "j_fins ?J1" ?J1 \<rho>] ar(1) o nw den_same [OF sr(1)] by simp
          ultimately have dr': "d32 ?J \<rho> r = arith op (d32 J \<rho> (ir_op1 ?L)) ?c"
            using dr [OF t2] kb(5) by (simp add: R)
          have dk: "d32 ?J \<rho> rk = arith op (ir_i ?irk) ?c" using q(4) [of \<rho>] den_same [OF s4(1)] by simp
          have "d32 J \<rho> (fop1 J) = d32 J \<rho> (ir_op1 ?L) AND ir_i ?irk" using d(8) [of \<rho>] nw kk [of \<rho>] by simp
          then have "arith op (d32 J \<rho> (fop1 J)) (d32 J \<rho> (fop2 J)) = d32 ?J \<rho> r AND d32 ?J \<rho> rk"
            using dr' dk shift_and [OF assms] kb(5) [of \<rho>] by (simp add: R)
          then show ?thesis
            using ival_arith [of "j_fins ?J" ?J \<rho>] ival_arith [of "j_fins J" J \<rho>] nw nwJ ar(1) o by (simp add: fi)
        qed
        have "pure_guard (fo ?J) = pure_guard (fo J)" using arith_guard(1) [OF ar(1)] o by (simp add: pure_guard_def)
        then show "okr (fold_err J) (step_post J) (case y of (J, rk) \<Rightarrow> fold_ret (set_o IR_BAND (set_t (IRT IRT_INT) (set_op2 rk J))) RETRYFOLD)"
          unfolding y prod.case fold_ret_def okr_simps step_post_def foldres.case using eJ fJ mJ gJ iv nw nwJ by simp
      qed
    qed
  qed
  show "okr (fold_err J) (step_post J) (simplify_shiftk_andk ff J)"
    unfolding simplify_shiftk_andk_def Let_def using main ok_oob_err [OF next_post] by simp
qed

end
