(* ===== verification/LJ_FoldOkF.thy ===== *)
theory LJ_FoldOkF
  imports LJ_FoldOkE
begin

text \<open>
  Soundness of the fold functions, seventh part: reassociation and commutativity.
\<close>

section \<open>Reassociation with constants\<close>

definition assoc_op :: "irop \<Rightarrow> bool" where
  "assoc_op op \<longleftrightarrow> op = IR_ADD \<or> op = IR_MUL \<or> op = IR_BAND \<or> op = IR_BOR \<or> op = IR_BXOR"

lemma assoc_opD:
  assumes "assoc_op op"
  shows "arithop op" "\<not> ovop op" "kf_op op" "op \<noteq> IR_MOD" "opcl op = ORing \<or> opcl op = OBit" "opcl op \<noteq> OShift"
    "arith op (arith op x y) z = arith op x (arith op y (z :: 'a::len word))"
    "kfold_int64arith_op u v op = arith op u v"
  using assms by (auto simp: assoc_op_def ovop_def kf_op_def kfold_int64arith_op_def ac_simps)

lemma arith_ops:
  assumes "fpre ff J" "opcl (fo J) = ORing \<or> opcl (fo J) = OBit \<or> opcl (fo J) = O32"
  shows "oz J (wide (j_fins J)) (fop1 J)" "oz J (wide (j_fins J)) (fop2 J)" "opcl (fo J) = O32 \<Longrightarrow> \<not> wide (j_fins J)"
    "opcl (fo J) = OBit \<Longrightarrow> os J (wide (j_fins J)) (fop1 J) \<and> os J (wide (j_fins J)) (fop2 J)"
  using fpreD(5) [OF assms(1)] sem_cases(4) [OF fpreD(4) [OF assms(1)]] assms(2) by (auto simp: opnds_ok_cl oz_def)

lemma fin_assoc:
  assumes "opcl (ir_o i) = ORing \<or> opcl (ir_o i) = OBit \<or> opcl (ir_o i) = O32 \<and> ir_o i \<noteq> IR_MOD"
    "a32 (irt_ty (ir_t i)) \<or> w64 (irt_ty (ir_t i))" "oz J (wide i) (ir_op1 i)" "oz J (wide i) (ir_op2 i)"
    "opcl (ir_o i) = OBit \<Longrightarrow> os J (wide i) (ir_op1 i) \<and> os J (wide i) (ir_op2 i)" "opcl (ir_o i) = O32 \<Longrightarrow> \<not> wide i"
  shows "fin_ok J i"
  using assms fin_ring [of i J] fin_bit [of i J] fin_32 [of i J] by (auto simp: wide_def oz_def)

lemma ok_reassoc_intarith_k:
  assumes a: "assoc_op op"
  shows "rule_ok (op, LOp op, ROp IR_KINT) reassoc_intarith_k"
proof (rule rule_okI)
  fix ff J assume p: "fpre ff J" and k: "key_match J (op, LOp op, ROp IR_KINT)"
  note o = keyD(1) [OF p k] and v = keyD(3) [OF p k refl] and wf = fpreD(1) [OF p] and or = keyD(4) [OF p k refl] and ol = keyD(2) [OF p k refl]
  note kb = ins_k [OF wf v or] and R = fpreD(8) [OF p v] and L = fpreD(7) [OF p] and as = assoc_opD [OF a]
  note z = arith_ops [OF p]
  have cl: "opcl (fo J) = ORing \<or> opcl (fo J) = OBit \<or> opcl (fo J) = O32" using as(5) o by auto
  have t: "a32 (irt_ty (ft J)) \<or> w64 (irt_ty (ft J))" using fin_ty [OF p] cl by auto
  have z1: "oz J (wide (j_fins J)) (fop1 J)" by (rule z(1) [OF cl])
  have c: "opcl op \<in> {OShift, OBit, ORing} \<or> opcl op = O32 \<and> \<not> wide (j_fins J)" using as(5) by auto
  note d = opd [OF wf z1 ol c, folded L]
  let ?L = "j_fleft J" and ?irk = "j_ir J (ir_op2 (j_fleft J))" and ?c = "ir_i (j_fright J)"
  have zi: "oz J (wide (j_fins J)) (ir_op2 ?L)" using d(3) as(6) by simp
  show "ok_oob (step_post J) (reassoc_intarith_k ff J)"
    unfolding reassoc_intarith_k_def Let_def
  proof (rule step_if)
    assume ki: "ir_o ?irk = IR_KINT"
    note kk = ins_k [OF wf os_valid(2) [OF zi] ki]
    have w: "ir_i ?irk = 0 \<and> ?c = 0 \<and> (op = IR_ADD \<or> op = IR_MUL)" if "wide (j_fins J)"
      using that z(2) [OF cl] z(4) [OF cl] zi kb(4,6) kk(4) o a by (auto simp: R assoc_op_def)
    have e: "kfold_intop (ir_i ?irk) ?c (fo J) = Inr (arith op (ir_i ?irk) ?c)"
      using kfold_intop_arith [OF as(3)] as(4) o by simp
    let ?k = "arith op (ir_i ?irk) ?c" and ?J = "set_op1 (ir_op1 ?L) J"
    have "ok_oob (step_post J) (if ?k = ir_i ?irk then LEFTFOLD J
          else if is_phi ?L then fold_ret J NEXTFOLD else retry_op2 (lj_ir_kint ?J ?k))"
      unfolding dir_fold
    proof (intro step_if)
      assume q: "?k = ir_i ?irk"
      show "ok_oob (step_post J) (fold_ret J (FoldRef (fop1 J)))"
      proof (rule arith_ref [OF p _ z1])
        fix \<rho>
        show "wide (j_fins J) \<Longrightarrow> den J \<rho> (fop1 J) = arith (fo J) (den J \<rho> (fop1 J)) (den J \<rho> (fop2 J))"
          using w d(7) [of \<rho>] kk(2) [of \<rho>] kb(2) [of \<rho>] o by (auto simp: R)
        show "\<not> wide (j_fins J) \<Longrightarrow> d32 J \<rho> (fop1 J) = arith (fo J) (d32 J \<rho> (fop1 J)) (d32 J \<rho> (fop2 J))"
          using q d(8) [of \<rho>] kk(5) [of \<rho>] kb(5) [of \<rho>] o by (simp add: R as(7))
      qed (use as o in simp_all)
    next
      assume q: "?k \<noteq> ir_i ?irk"
      then have nw: "\<not> wide (j_fins J)" using w by auto
      show "ok_oob (step_post J) (retry_op2 (lj_ir_kint ?J ?k))"
      proof (rule retry_kint [OF p same_set_regs(3,9)])
        fix J' r assume kr: "kref J J' r" and P: "ir_o (j_ir J' r) = IR_KINT \<and> ir_i (j_ir J' r) = ?k"
        note qk = kref_kint [OF kr P] and ok = kref_ops [OF kr os_valid(2) [OF d(1)]]
        have o1: "os J' False (ir_op1 ?L)" using d(1) nw ok by (simp add: oz_def)
        show "fin_ok J' ((j_fins ?J)\<lparr>ir_op2 := r\<rparr>)"
          by (rule fin_assoc) (use as(4) t cl o o1 nw qk(1) in \<open>simp_all add: oz_def\<close>)
        show "meas J' ((j_fins ?J)\<lparr>ir_op2 := r\<rparr>) < meas J (j_fins J)"
          by (rule meas_ops) (use d(5) kr in \<open>simp_all add: kref_def\<close>)
      next
        fix \<rho>
        show "\<not> wide (j_fins J) \<Longrightarrow> arith (fo ?J) (d32 J \<rho> (fop1 ?J)) ?k = arith (fo J) (d32 J \<rho> (fop1 J)) (d32 J \<rho> (fop2 J))"
          using d(8) [of \<rho>] kk(5) [of \<rho>] kb(5) [of \<rho>] o by (simp add: R as(7))
      qed (use as o nw os_valid(2) [OF d(1)] in simp_all)
    qed simp
    then show "ok_oob (step_post J) (rbind (kfold_intop (ir_i ?irk) ?c (fo J)) (\<lambda>k. if k = ir_i ?irk then LEFTFOLD J
          else if is_phi ?L then fold_ret J NEXTFOLD else retry_op2 (lj_ir_kint ?J k)))"
      unfolding e by simp
  qed simp
qed

lemma ok_reassoc_intarith_k64:
  assumes a: "assoc_op op"
  shows "rule_ok (op, LOp op, ROp IR_KINT64) reassoc_intarith_k64"
proof (rule rule_okI)
  fix ff J assume p: "fpre ff J" and k: "key_match J (op, LOp op, ROp IR_KINT64)"
  note o = keyD(1) [OF p k] and v = keyD(3) [OF p k refl] and wf = fpreD(1) [OF p] and or = keyD(4) [OF p k refl] and ol = keyD(2) [OF p k refl]
  note kb = ins_k64 [OF wf v or] and R = fpreD(8) [OF p v] and L = fpreD(7) [OF p] and as = assoc_opD [OF a]
  note z = arith_ops [OF p]
  have cl: "opcl (fo J) = ORing \<or> opcl (fo J) = OBit \<or> opcl (fo J) = O32" using as(5) o by auto
  have t: "a32 (irt_ty (ft J)) \<or> w64 (irt_ty (ft J))" using fin_ty [OF p] cl by auto
  have z1: "oz J (wide (j_fins J)) (fop1 J)" by (rule z(1) [OF cl])
  have w: "wide (j_fins J)" using z(2) [OF cl] kb(5) by (cases "wide (j_fins J)") simp_all
  have c: "opcl op \<in> {OShift, OBit, ORing} \<or> opcl op = O32 \<and> \<not> wide (j_fins J)" using as(5) by auto
  note d = opd [OF wf z1 ol c, folded L]
  let ?L = "j_fleft J" and ?irk = "j_ir J (ir_op2 (j_fleft J))"
  have zi: "oz J (wide (j_fins J)) (ir_op2 ?L)" using d(3) as(6) by simp
  show "ok_oob (step_post J) (reassoc_intarith_k64 ff J)"
    unfolding reassoc_intarith_k64_def Let_def
  proof (rule step_if)
    assume ki: "ir_o ?irk = IR_KINT64 \<and> \<not> is_phi ?L"
    note kk = ins_k64 [OF wf os_valid(2) [OF zi] conjunct1 [OF ki]]
    let ?k = "kfold_int64arith_op (k64_val (j_k64 J) (ir_k ?irk)) (kright64 J) (fo J)" and ?J = "set_op1 (ir_op1 ?L) J"
    show "ok_oob (step_post J) (retry_op2 (lj_ir_kint64 ?J ?k))"
    proof (rule retry_kint64 [OF p same_set_regs(3,9)])
      fix J' r assume kr: "kref J J' r" and P: "ir_o (j_ir J' r) = IR_KINT64 \<and> k64_val (j_k64 J') (ir_k (j_ir J' r)) = ?k"
      note qk = kref_kint64 [OF kr P] and ok = kref_ops [OF kr os_valid(2) [OF d(1)]]
      show "fin_ok J' ((j_fins ?J)\<lparr>ir_op2 := r\<rparr>)"
        by (rule fin_assoc) (use as(4,5) t o d(1,4) ok w qk(1,2) in auto)
      show "meas J' ((j_fins ?J)\<lparr>ir_op2 := r\<rparr>) < meas J (j_fins J)"
        by (rule meas_ops) (use d(5) kr in \<open>simp_all add: kref_def\<close>)
    next
      fix \<rho>
      show "arith (fo ?J) (den J \<rho> (fop1 ?J)) ?k = arith (fo J) (den J \<rho> (fop1 J)) (den J \<rho> (fop2 J))"
        using d(7) [of \<rho>] w kk(2) [of \<rho>] kb(2) [of \<rho>] o as(8) by (simp add: R kright64_def as(7))
    qed (use as o w os_valid(2) [OF d(1)] in simp_all)
  qed simp
qed

section \<open>Repeated operands\<close>

definition lat_op :: "irop \<Rightarrow> bool" where
  "lat_op op \<longleftrightarrow> op = IR_MIN \<or> op = IR_MAX \<or> op = IR_BAND \<or> op = IR_BOR"

lemma sint_eq: "sint x = sint y \<longleftrightarrow> x = (y :: 'a::len word)"
  by (auto dest: signed_word_eqI)

lemma lat_opD:
  assumes "lat_op op"
  shows "arithop op" "\<not> ovop op" "op \<noteq> IR_MOD" "opcl op = OBit \<or> opcl op = O32" "opcl op \<noteq> OShift"
    "arith op (arith op x y) x = arith op x (y :: 'a::len word)" "arith op (arith op x y) y = arith op x y"
    "arith op x x = x" "arith op x y = arith op y x"
  using assms by (auto simp: lat_op_def ovop_def sint_eq not_less ac_simps)

lemma ok_reassoc_dup:
  assumes a: "lat_op op"
  shows "rule_ok (op, LOp op, r) reassoc_dup"
proof (rule rule_okI)
  fix ff J assume p: "fpre ff J" and k: "key_match J (op, LOp op, r)"
  note o = keyD(1) [OF p k] and wf = fpreD(1) [OF p] and ol = keyD(2) [OF p k refl] and L = fpreD(7) [OF p] and la = lat_opD [OF a [folded keyD(1) [OF p k]]]
  have cl: "opcl (fo J) = ORing \<or> opcl (fo J) = OBit \<or> opcl (fo J) = O32" using la(4) by auto
  note z = arith_ops [OF p cl]
  have c: "opcl op \<in> {OShift, OBit, ORing} \<or> opcl op = O32 \<and> \<not> wide (j_fins J)" using la(4) z(3) o by auto
  note d = opd [OF wf z(1) ol c, folded L]
  show "ok_oob (step_post J) (reassoc_dup ff J)"
    unfolding reassoc_dup_def dir_fold
  proof (rule step_if)
    assume q: "fop2 J = ir_op1 (j_fleft J) \<or> fop2 J = ir_op2 (j_fleft J)"
    show "ok_oob (step_post J) (fold_ret J (FoldRef (fop1 J)))"
      by (rule arith_ref [OF p]) (use z(1) la(1,2) o [symmetric] q d(7,8) in \<open>auto simp: la(6,7)\<close>)
  qed simp
qed

lemma ok_reassoc_bxor: "rule_ok (IR_BXOR, LOp IR_BXOR, r) reassoc_bxor"
proof (rule rule_okI)
  fix ff J assume p: "fpre ff J" and k: "key_match J (IR_BXOR, LOp IR_BXOR, r)"
  note o = keyD(1) [OF p k] and wf = fpreD(1) [OF p] and ol = keyD(2) [OF p k refl] and L = fpreD(7) [OF p]
  have z: "oz J (wide (j_fins J)) (fop1 J)" using arith_ops(1) [OF p] o by simp
  note d = opd [OF wf z ol, folded L]
  show "ok_oob (step_post J) (reassoc_bxor ff J)"
    unfolding reassoc_bxor_def Let_def
    by (intro step_if arith_ref [OF p]) (use d o in \<open>auto simp: ovop_def ac_simps xor.assoc\<close>)
qed

lemma ok_reassoc_minmax_k:
  assumes "op = IR_MIN \<or> op = IR_MAX"
  shows "rule_ok (op, LOp op, ROp IR_KINT) (reassoc_minmax_k fp)"
proof (rule rule_okI)
  fix ff J assume p: "fpre ff J" and k: "key_match J (op, LOp op, ROp IR_KINT)"
  note o = keyD(1) [OF p k] and v = keyD(3) [OF p k refl] and wf = fpreD(1) [OF p] and or = keyD(4) [OF p k refl] and ol = keyD(2) [OF p k refl]
  note kb = ins_k [OF wf v or] and R = fpreD(8) [OF p v] and L = fpreD(7) [OF p]
  have cl: "opcl (fo J) = O32" "arithop op" "\<not> ovop op" "op \<noteq> IR_MOD" "kf_op op" "opcl op = O32"
    using assms o by (auto simp: ovop_def kf_op_def)
  have z: "os J False (fop1 J)" "\<not> wide (j_fins J)" using sub_ops [OF p cl(1)] by simp_all
  then have z1: "oz J (wide (j_fins J)) (fop1 J)" by (simp add: oz_def)
  have t: "a32 (irt_ty (ft J))" using fpreD(4) [OF p] cl(1) by (simp add: sem_ins_def)
  have c: "opcl op \<in> {OShift, OBit, ORing} \<or> opcl op = O32 \<and> \<not> wide (j_fins J)" using cl z(2) by auto
  note d = opd [OF wf z1 ol c, folded L]
  let ?L = "j_fleft J" and ?irk = "j_ir J (ir_op2 (j_fleft J))" and ?c = "ir_i (j_fright J)"
  have zi: "oz J False (ir_op2 ?L)" using d(3) cl(6) z(2) by simp
  have nk: "ir_o ?irk \<noteq> IR_KNUM" using oz_kop [OF jwfD(1) [OF wf] zi] by (auto simp: kop_def)
  have as: "arith op (arith op x y) w = arith op x (arith op y w)" for x y w :: u32
    using assms by (elim disjE) (auto simp: sint_eq)
  show "ok_oob (step_post J) (reassoc_minmax_k fp ff J)"
    unfolding reassoc_minmax_k_def Let_def if_not_P [OF nk]
  proof (rule step_if)
    assume ki: "ir_o ?irk = IR_KINT"
    note kk = ins_k [OF wf os_valid(2) [OF zi] ki]
    let ?k = "arith op (ir_i ?irk) ?c" and ?J = "set_op1 (ir_op1 ?L) J"
    have e: "kfold_intop (ir_i ?irk) ?c (fo J) = Inr ?k"
      using kfold_intop_arith [OF cl(5)] cl(4) o by simp
    have val: "arith op (d32 J \<rho> (fop1 J)) (d32 J \<rho> (fop2 J)) = arith op (d32 J \<rho> (ir_op1 ?L)) ?k" for \<rho>
      using d(8) [of \<rho>] z(2) kk(5) [of \<rho>] kb(5) [of \<rho>] as by (simp add: R)
    have "ok_oob (step_post J) (if ir_i ?irk = ?k then LEFTFOLD J
          else if is_phi ?L then fold_ret J NEXTFOLD else retry_op2 (lj_ir_kint ?J ?k))"
      unfolding dir_fold
    proof (intro step_if)
      assume q: "ir_i ?irk = ?k"
      show "ok_oob (step_post J) (fold_ret J (FoldRef (fop1 J)))"
      proof (rule arith_ref [OF p _ z1])
        fix \<rho>
        show "d32 J \<rho> (fop1 J) = arith (fo J) (d32 J \<rho> (fop1 J)) (d32 J \<rho> (fop2 J))"
          using val [of \<rho>] d(8) [of \<rho>] z(2) kk(5) [of \<rho>] o q by simp
      qed (use cl o z in simp_all)
    next
      show "ok_oob (step_post J) (retry_op2 (lj_ir_kint ?J ?k))"
      proof (rule retry_kint [OF p same_set_regs(3,9)])
        fix J' r assume kr: "kref J J' r" and P: "ir_o (j_ir J' r) = IR_KINT \<and> ir_i (j_ir J' r) = ?k"
        note qk = kref_kint [OF kr P] and ok = kref_ops [OF kr os_valid(2) [OF d(1)]]
        have o1: "os J' False (ir_op1 ?L)" using d(1) z(2) ok by (simp add: oz_def)
        show "fin_ok J' ((j_fins ?J)\<lparr>ir_op2 := r\<rparr>)"
          by (rule fin_32) (use cl t o o1 qk(1) in simp_all)
        show "meas J' ((j_fins ?J)\<lparr>ir_op2 := r\<rparr>) < meas J (j_fins J)"
          by (rule meas_ops) (use d(5) kr in \<open>simp_all add: kref_def\<close>)
      next
        fix \<rho>
        show "arith (fo ?J) (d32 J \<rho> (fop1 ?J)) ?k = arith (fo J) (d32 J \<rho> (fop1 J)) (d32 J \<rho> (fop2 J))"
          using val [of \<rho>] o by simp
      qed (use cl o z os_valid(2) [OF d(1)] in simp_all)
    qed simp
    then show "ok_oob (step_post J) (rbind (kfold_intop (ir_i ?irk) ?c (fo J)) (\<lambda>k. if ir_i ?irk = k then LEFTFOLD J
          else if is_phi ?L then fold_ret J NEXTFOLD else retry_op2 (lj_ir_kint ?J k)))"
      unfolding e by simp
  qed simp
qed

lemma ok_minmax:
  assumes "op = IR_MIN \<and> x = IR_MAX \<or> op = IR_MAX \<and> x = IR_MIN"
  shows "rule_ok (op, LOp x, r) reassoc_minmax_left" "rule_ok (op, l, ROp x) reassoc_minmax_right"
proof -
  have ab: "arith op (arith x a b) a = a" "arith op (arith x a b) b = b" "arith op a (arith x a b) = a" "arith op b (arith x a b) = b"
    for a b :: u32
    using assms by (auto simp: sint_eq not_less)
  have cl: "opcl op = O32" "opcl x = O32" "arithop op" "\<not> ovop op" using assms by (auto simp: ovop_def)
  show "rule_ok (op, LOp x, r) reassoc_minmax_left"
  proof (rule rule_okI)
    fix ff J assume p: "fpre ff J" and k: "key_match J (op, LOp x, r)"
    note o = keyD(1) [OF p k] and wf = fpreD(1) [OF p] and ol = keyD(2) [OF p k refl] and L = fpreD(7) [OF p]
    have z: "os J False (fop1 J)" "\<not> wide (j_fins J)" "os J False (fop2 J)" using sub_ops [OF p] cl o by simp_all
    then have z1: "oz J (wide (j_fins J)) (fop1 J)" by (simp add: oz_def)
    note d = opd [OF wf z1 ol, folded L]
    show "ok_oob (step_post J) (reassoc_minmax_left ff J)"
      unfolding reassoc_minmax_left_def dir_fold
      by (rule step_if, rule arith_ref [OF p]) (use z cl o d(8) ab in \<open>auto simp: oz_def\<close>)
  qed
  show "rule_ok (op, l, ROp x) reassoc_minmax_right"
  proof (rule rule_okI)
    fix ff J assume p: "fpre ff J" and k: "key_match J (op, l, ROp x)"
    note o = keyD(1) [OF p k] and wf = fpreD(1) [OF p] and v = keyD(3) [OF p k refl] and or = keyD(4) [OF p k refl]
    note R = fpreD(8) [OF p v]
    have z: "os J False (fop1 J)" "\<not> wide (j_fins J)" "os J False (fop2 J)" using sub_ops [OF p] cl o by simp_all
    then have z1: "oz J (wide (j_fins J)) (fop2 J)" by (simp add: oz_def)
    note d = opd [OF wf z1 or, folded R]
    show "ok_oob (step_post J) (reassoc_minmax_right ff J)"
      unfolding reassoc_minmax_right_def dir_fold
      by (rule step_if, rule arith_ref [OF p]) (use z cl o d(8) ab in \<open>auto simp: oz_def\<close>)
  qed
qed

section \<open>Reassociation of shifts\<close>

lemma sar_beyond:
  fixes a :: "'a::len word"
  assumes "LENGTH('a) - 1 \<le> n"
  shows "signed_drop_bit n a = signed_drop_bit (LENGTH('a) - 1) a"
proof (rule bit_word_eqI)
  fix k assume k: "k < LENGTH('a)"
  have l: "0 < LENGTH('a)" by simp
  have "(if LENGTH('a) - n \<le> k \<and> k < LENGTH('a) then LENGTH('a) - 1 else n + k) = LENGTH('a) - 1"
  proof (cases "LENGTH('a) - n \<le> k")
    case False
    then have "k = 0 \<and> n = LENGTH('a) - 1" using assms k by linarith
    then show ?thesis by simp
  qed (use k in simp)
  moreover have "(if LENGTH('a) - (LENGTH('a) - 1) \<le> k \<and> k < LENGTH('a) then LENGTH('a) - 1 else LENGTH('a) - 1 + k) = LENGTH('a) - 1"
    using k l by (cases "k = 0") simp_all
  ultimately show "bit (signed_drop_bit n a) k = bit (signed_drop_bit (LENGTH('a) - 1) a) k"
    by (simp only: bit_signed_drop_bit_iff)
qed

lemma rot_num: "a < N \<Longrightarrow> b < N \<Longrightarrow>
    (N - a) + (N - b) = (N - (if a + b < N then a + b else a + b - N)) + (if a + b < N then N else (0 :: nat))"
  by (cases "a + b < N") auto

lemma rot_index:
  fixes n m N :: nat
  assumes "0 < N"
  shows "((x + (N - n mod N)) mod N + (N - m mod N)) mod N = (x + (N - (m + n) mod N)) mod N"
proof -
  let ?a = "n mod N" and ?b = "m mod N"
  have ab: "?a < N" "?b < N" using assms by simp_all
  have "(m + n) mod N = (?b + ?a) mod N" by (rule mod_add_eq [symmetric])
  then have e: "(m + n) mod N = (?a + ?b) mod N" by (simp only: add.commute)
  have "(?a + ?b) mod N = (if ?a + ?b < N then ?a + ?b else ?a + ?b - N)"
  proof (cases "?a + ?b < N")
    case False
    then have "(?a + ?b) mod N = (?a + ?b - N) mod N" by (intro le_mod_geq) linarith
    also have "\<dots> = ?a + ?b - N" using ab by (intro mod_less) linarith
    finally show ?thesis using False by (simp only: if_False)
  qed (simp only: mod_less if_True)
  then have c: "(N - ?a) + (N - ?b) = (N - (m + n) mod N) + (if ?a + ?b < N then N else 0)"
    unfolding e using rot_num [OF ab] by (simp only:)
  have "((x + (N - ?a)) mod N + (N - ?b)) mod N = (x + ((N - ?a) + (N - ?b))) mod N"
    by (simp only: mod_add_left_eq add.assoc)
  also have "\<dots> = (x + (N - (m + n) mod N) + (if ?a + ?b < N then N else 0)) mod N" by (simp only: c add.assoc)
  also have "\<dots> = (x + (N - (m + n) mod N)) mod N" by (cases "?a + ?b < N") (simp_all only: if_True if_False mod_add_self2 add_0_right)
  finally show ?thesis .
qed

lemma shift_twice:
  fixes a :: "'a::len word"
  shows "op = IR_BSHL \<or> op = IR_BSHR \<or> op = IR_BSAR \<or> op = IR_BROL \<or> op = IR_BROR \<Longrightarrow> shc e = shc b + shc c \<Longrightarrow>
      arith op (arith op a b) c = arith op a e"
    "op = IR_BSHL \<or> op = IR_BSHR \<Longrightarrow> LENGTH('a) \<le> shc b + shc c \<Longrightarrow> arith op (arith op a b) c = 0"
    "op = IR_BSAR \<Longrightarrow> LENGTH('a) \<le> shc b + shc c \<Longrightarrow> shc e = LENGTH('a) - 1 \<Longrightarrow> arith op (arith op a b) c = arith op a e"
    "op = IR_BROL \<or> op = IR_BROR \<Longrightarrow> shc e = (shc b + shc c) mod LENGTH('a) \<Longrightarrow> arith op (arith op a b) c = arith op a e"
proof -
  have rr: "word_rotl n (word_rotl m a) = word_rotl (m + n) a" "word_rotr n (word_rotr m a) = word_rotr (m + n) a" for m n
  proof -
    show "word_rotl n (word_rotl m a) = word_rotl (m + n) a"
      by (rule bit_word_eqI) (simp only: bit_word_rotl_iff rot_index [OF len_gt_0], simp)
    show "word_rotr n (word_rotr m a) = word_rotr (m + n) a"
      by (rule bit_word_eqI) (simp add: bit_word_rotr_iff mod_simps ac_simps)
  qed
  have rm: "word_rotl (n mod LENGTH('a)) a = word_rotl n a" "word_rotr (n mod LENGTH('a)) a = word_rotr n a" for n
    by (rule bit_word_eqI; simp add: bit_word_rotl_iff bit_word_rotr_iff mod_simps)+
  show "op = IR_BSHL \<or> op = IR_BSHR \<or> op = IR_BSAR \<or> op = IR_BROL \<or> op = IR_BROR \<Longrightarrow> shc e = shc b + shc c \<Longrightarrow>
      arith op (arith op a b) c = arith op a e"
    by (elim disjE) (simp_all add: rr ac_simps)
  show "op = IR_BSHL \<or> op = IR_BSHR \<Longrightarrow> LENGTH('a) \<le> shc b + shc c \<Longrightarrow> arith op (arith op a b) c = 0"
    by (elim disjE) (simp_all add: add.commute)
  show "op = IR_BSAR \<Longrightarrow> LENGTH('a) \<le> shc b + shc c \<Longrightarrow> shc e = LENGTH('a) - 1 \<Longrightarrow> arith op (arith op a b) c = arith op a e"
    using sar_beyond [of "shc c + shc b" a] by simp
  show "op = IR_BROL \<or> op = IR_BROR \<Longrightarrow> shc e = (shc b + shc c) mod LENGTH('a) \<Longrightarrow> arith op (arith op a b) c = arith op a e"
    by (elim disjE) (simp_all add: rr rm)
qed

lemma shc_u64: "shc (ucast (k :: u32) :: u64) = unat k mod 64"
proof -
  have "unat (ucast k :: u64) = unat k"
    using unat_lt2p [of k] by (simp only: unsigned_ucast_eq) (simp add: take_bit_eq_mod)
  then show ?thesis by (simp add: shc_def)
qed

lemma and_mask_mod: "unat (k AND 63) = unat (k :: u32) mod 64" "unat (k AND 31) = unat (k :: u32) mod 32"
  using shc64_32 [of k] shc_u64 [of k] shc32 [of k] by (simp_all add: shc_def)

lemma ok_reassoc_shift:
  assumes c: "opcl op = OShift"
  shows "rule_ok (op, LOp op, ROp IR_KINT) reassoc_shift"
proof (rule rule_okI)
  fix ff J assume p: "fpre ff J" and k: "key_match J (op, LOp op, ROp IR_KINT)"
  note o = keyD(1) [OF p k] and v = keyD(3) [OF p k refl] and wf = fpreD(1) [OF p] and or = keyD(4) [OF p k refl] and ol = keyD(2) [OF p k refl]
  note kb = ins_k [OF wf v or] and R = fpreD(8) [OF p v] and L = fpreD(7) [OF p] and cl = c [folded o]
  note ar = shift_arith [OF cl]
  have z: "oz J (wide (j_fins J)) (fop1 J)" "os J False (fop2 J)" using shift_ops [OF p cl] by simp_all
  have t: "a32 (irt_ty (ft J)) \<or> w64 (irt_ty (ft J))" using fin_ty [OF p] cl by simp
  have cc: "opcl op \<in> {OShift, OBit, ORing} \<or> opcl op = O32 \<and> \<not> wide (j_fins J)" using c by simp
  note d = opd [OF wf z(1) ol cc, folded L]
  let ?L = "j_fleft J" and ?irk = "j_ir J (ir_op2 (j_fleft J))"
  let ?a = "ir_i ?irk" and ?b = "ir_i (j_fright J)" and ?m = "shift_mask J"
  note m = mask_is [OF p cl]
  define N :: nat where "N = (if wide (j_fins J) then 64 else 32)"
  let ?k = "(?a AND ?m) + (?b AND ?m)"
  have nm: "unat (x AND ?m) = unat x mod N" for x by (simp add: m N_def and_mask_mod)
  have N: "N = 32 \<or> N = 64" "unat ?m + 1 = N" by (simp_all add: N_def m)
  have lt: "unat x mod N < N" for x :: u32 using N(1) by auto
  have uk: "unat ?k = unat ?a mod N + unat ?b mod N"
    using N(1) lt [of ?a] lt [of ?b] by (simp add: unat_word_ariths nm) (auto simp: N_def)
  have mk: "?m < ?k \<longleftrightarrow> N \<le> unat ?a mod N + unat ?b mod N" using N(2) uk by (simp only: word_less_nat_alt) linarith
  have ops: "op = IR_BSHL \<or> op = IR_BSHR \<or> op = IR_BSAR \<or> op = IR_BROL \<or> op = IR_BROR" using c by (simp add: shift_opcl)
  show "ok_oob (step_post J) (reassoc_shift ff J)"
    unfolding reassoc_shift_def Let_def
  proof (rule step_if)
    assume ph: "\<not> is_phi ?L \<and> ir_o ?irk = IR_KINT"
    have i: "os J False (ir_op2 ?L)" using d(2) c by simp
    note kk = ins_k [OF wf os_valid(1) [OF i] conjunct2 [OF ph]]
    have val: "wide (j_fins J) \<Longrightarrow> arith op (den J \<rho> (fop1 J)) (den J \<rho> (fop2 J)) = arith op (arith op (den J \<rho> (ir_op1 ?L)) (ucast ?a)) (ucast ?b)"
      "\<not> wide (j_fins J) \<Longrightarrow> arith op (d32 J \<rho> (fop1 J)) (d32 J \<rho> (fop2 J)) = arith op (arith op (d32 J \<rho> (ir_op1 ?L)) ?a) ?b" for \<rho>
      using d(7,8) [of \<rho>] kk(2,5) [of \<rho>] kb(2,5) [of \<rho>] by (simp_all add: R)
    have s64: "wide (j_fins J) \<Longrightarrow> shc (ucast x :: u64) = unat x mod N" and s32: "\<not> wide (j_fins J) \<Longrightarrow> shc x = unat x mod N" for x :: u32
      by (simp_all add: shc_u64 N_def) (simp add: shc_def)
    let ?J = "set_op1 (ir_op1 ?L) J"
    have retry: "ok_oob (step_post J) (retry_op2 (lj_ir_kint ?J e))"
      if e: "unat ?a mod N + unat ?b mod N < N \<and> unat e mod N = unat ?a mod N + unat ?b mod N \<or>
        N \<le> unat ?a mod N + unat ?b mod N \<and> (op = IR_BSAR \<and> unat e mod N = N - 1 \<or>
          (op = IR_BROL \<or> op = IR_BROR) \<and> unat e mod N = (unat ?a mod N + unat ?b mod N) mod N)" for e
    proof (rule retry_kint [OF p same_set_regs(3,9)])
      fix J' r assume kr: "kref J J' r" and P: "ir_o (j_ir J' r) = IR_KINT \<and> ir_i (j_ir J' r) = e"
      note qk = kref_kint [OF kr P] and ok = kref_ops [OF kr os_valid(2) [OF d(1)]]
      show "fin_ok J' ((j_fins ?J)\<lparr>ir_op2 := r\<rparr>)" by (rule fin_shift) (use cl t d(1) ok qk(1) in simp_all)
      show "meas J' ((j_fins ?J)\<lparr>ir_op2 := r\<rparr>) < meas J (j_fins J)"
        by (rule meas_ops) (use d(5) kr in \<open>simp_all add: kref_def\<close>)
    next
      fix \<rho> assume w: "wide (j_fins J)"
      then have "LENGTH(64) = N" by (simp add: N_def)
      then have "arith op (arith op x (ucast ?a)) (ucast ?b) = arith op x (ucast e)" for x :: u64
        using e ops shift_twice(1,4) [of op "ucast e :: u64" "ucast ?a" "ucast ?b" x]
            shift_twice(3) [of op "ucast ?a :: u64" "ucast ?b" "ucast e" x] by (auto simp: s64 [OF w])
      then show "arith (fo ?J) (den J \<rho> (fop1 ?J)) (ucast e) = arith (fo J) (den J \<rho> (fop1 J)) (den J \<rho> (fop2 J))"
        using val(1) [OF w, of \<rho>] o by simp
    next
      fix \<rho> assume w: "\<not> wide (j_fins J)"
      then have "LENGTH(32) = N" by (simp add: N_def)
      then have "arith op (arith op x ?a) ?b = arith op x e" for x :: u32
        using e ops shift_twice(1,4) [of op e ?a ?b x] shift_twice(3) [of op ?a ?b e x] by (auto simp: s32 [OF w])
      then show "arith (fo ?J) (d32 J \<rho> (fop1 ?J)) e = arith (fo J) (d32 J \<rho> (fop1 J)) (d32 J \<rho> (fop2 J))"
        using val(2) [OF w, of \<rho>] o by simp
    qed (use ar os_valid(2) [OF d(1)] in simp_all)
    show "ok_oob (step_post J)
       (if ?m < ?k then (if fo J = IR_BSHL \<or> fo J = IR_BSHR then (if ?m = 31 then INTFOLD J 0 else INT64FOLD J 0)
               else if fo J = IR_BSAR then retry_op2 (lj_ir_kint ?J ?m)
               else retry_op2 (lj_ir_kint ?J (?k AND ?m)))
            else retry_op2 (lj_ir_kint ?J ?k))"
    proof (intro step_if)
      assume gt: "?m < ?k" and sh: "fo J = IR_BSHL \<or> fo J = IR_BSHR"
      have ge: "N \<le> unat ?a mod N + unat ?b mod N" using gt mk by simp
      have iv: "ival J \<rho> (j_fins J) = 0" for \<rho>
      proof (cases "wide (j_fins J)")
        case w: True
        have "LENGTH(64) = N" using w by (simp add: N_def)
        then show ?thesis
          using shift_twice(2) [of op "ucast ?a :: u64" "ucast ?b" "den J \<rho> (ir_op1 ?L)"] ge sh o val(1) [OF w, of \<rho>] ar(1) w
          by (simp add: ival_arith s64 [OF w])
      next
        case w: False
        have "LENGTH(32) = N" using w by (simp add: N_def)
        then show ?thesis
          using shift_twice(2) [of op ?a ?b "d32 J \<rho> (ir_op1 ?L)"] ge sh o val(2) [OF w, of \<rho>] ar(1) w
          by (simp add: ival_arith s32 [OF w])
      qed
      note g = arith_gok [OF ar] and ng = arith_guard(1) [OF ar(1)]
      show "?m = 31 \<Longrightarrow> ok_oob (step_post J) (INTFOLD J 0)" by (rule int_post [OF wf ng]) (use iv g in simp_all)
      show "?m \<noteq> 31 \<Longrightarrow> ok_oob (step_post J) (INT64FOLD J 0)"
        by (rule int64_post [OF wf ng]) (use iv g m in \<open>simp_all split: if_splits\<close>)
    next
      assume gt: "?m < ?k" and s: "fo J = IR_BSAR"
      have "unat ?m mod N = N - 1" using N by auto
      then show "ok_oob (step_post J) (retry_op2 (lj_ir_kint ?J ?m))" using gt mk s o by (intro retry) simp
    next
      assume gt: "?m < ?k" and s: "\<not> (fo J = IR_BSHL \<or> fo J = IR_BSHR)" "fo J \<noteq> IR_BSAR"
      have "unat (?k AND ?m) mod N = (unat ?a mod N + unat ?b mod N) mod N" by (simp add: nm uk)
      then show "ok_oob (step_post J) (retry_op2 (lj_ir_kint ?J (?k AND ?m)))" using gt mk s o ops by (intro retry) simp
    next
      assume gt: "\<not> ?m < ?k"
      then have l: "unat ?a mod N + unat ?b mod N < N" using mk by simp
      then have "unat ?k mod N = unat ?a mod N + unat ?b mod N" by (simp only: uk mod_less)
      then show "ok_oob (step_post J) (retry_op2 (lj_ir_kint ?J ?k))" using l by (intro retry) simp
    qed
  qed simp
qed

end
