(* ===== verification/LJ_FoldOkG.thy ===== *)
theory LJ_FoldOkG
  imports LJ_FoldOkF
begin

text \<open>
  Soundness of the fold functions, eighth part: commutativity and array bounds checks.
\<close>

section \<open>Swapped operands\<close>

lemma meas_swap:
  assumes "ir_op1 i < ir_op2 i" "ir_op1 j = ir_op2 i" "ir_op2 j = ir_op1 i" "rank (ir_o j) = rank (ir_o i)"
    "ir_o j \<noteq> IR_SUB" "opcl (ir_o j) \<noteq> OShift"
  shows "meas J' j < meas J i"
  using assms by (simp add: meas_def b2n_def unmasked_def)

lemma fins_swap [simp]: "j_fins (swap_ops J) = (j_fins J)\<lparr>ir_op1 := fop2 J, ir_op2 := fop1 J\<rparr>"
  by (simp add: swap_ops_def)

lemma same_swap: "same_ir J (swap_ops J)" "same_env J (swap_ops J)"
  by (simp_all add: swap_ops_def same_regs_comp)

lemma swap_arith:
  assumes p: "fpre ff J" and o: "opcl (fo J) = ORing \<or> opcl (fo J) = OBit \<or> opcl (fo J) = O32"
    and n: "arithop (fo J)" "fo J \<noteq> IR_SUB" "fo J \<noteq> IR_MOD" and lt: "fop1 J < fop2 J"
    and c: "\<And>x y :: u64. arith (fo J) x y = arith (fo J) y x" "\<And>x y :: u32. arith (fo J) x y = arith (fo J) y x"
    and g: "\<And>x y. ovop (fo J) \<Longrightarrow> noov (fo J) x y = noov (fo J) y x"
  shows "ok_oob (step_post J) (fold_ret (swap_ops J) RETRYFOLD)"
proof (rule retry_post [OF fpreD(1) [OF p] same_swap])
  note z = arith_ops [OF p o]
  have t: "a32 (irt_ty (ft J)) \<or> w64 (irt_ty (ft J))" using fin_ty [OF p] o by auto
  show "fin_ok J (j_fins (swap_ops J))"
    by (rule fin_assoc) (use o n(3) t z in \<open>auto simp: wide_def\<close>)
  show "meas J (j_fins (swap_ops J)) < meas J (j_fins J)"
    by (rule meas_swap) (use lt n o in auto)
  show "gok J \<rho> (j_fins (swap_ops J)) = gok J \<rho> (j_fins J)" for \<rho>
  proof (cases "ovop (fo J)")
    case True
    then show ?thesis using gok_ov [of "j_fins J"] gok_ov [of "j_fins (swap_ops J)"] g [OF True] by simp
  next
    case False
    then show ?thesis using gok_val [of "j_fins J"] gok_val [of "j_fins (swap_ops J)"] o by auto
  qed
  show "ival J \<rho> (j_fins (swap_ops J)) = ival J \<rho> (j_fins J)" for \<rho>
    by (rule ival_eqI) (use n c in \<open>simp_all add: wide_def\<close>)
qed (simp_all add: wide_def)

lemma comm_arith:
  assumes "op = IR_ADD \<or> op = IR_MUL \<or> op = IR_ADDOV \<or> op = IR_MULOV \<or> op = IR_BXOR \<or> lat_op op"
  shows "arith op x y = arith op y (x :: 'a::len word)" "ovop op \<Longrightarrow> noov op u v = noov op v u"
  using assms by (auto simp: lat_op_def ovop_def noov_def Let_def ac_simps sint_eq not_less)

lemma ok_comm_swap:
  assumes "op = IR_ADD \<or> op = IR_MUL \<or> op = IR_ADDOV \<or> op = IR_MULOV"
  shows "rule_ok (op, l, r) comm_swap"
proof (rule rule_okI)
  fix ff J assume p: "fpre ff J" and k: "key_match J (op, l, r)"
  note o = keyD(1) [OF p k]
  show "ok_oob (step_post J) (comm_swap ff J)"
    unfolding comm_swap_def
    by (rule step_if, rule swap_arith [OF p]) (use assms o comm_arith [of "fo J"] in auto)
qed

lemma ok_comm_dup:
  assumes a: "lat_op op"
  shows "rule_ok (op, l, r) comm_dup"
proof (rule rule_okI)
  fix ff J assume p: "fpre ff J" and k: "key_match J (op, l, r)"
  note o = keyD(1) [OF p k] and la = lat_opD [OF a [folded keyD(1) [OF p k]]]
  have cl: "opcl (fo J) = ORing \<or> opcl (fo J) = OBit \<or> opcl (fo J) = O32" using la(4) by auto
  note z = arith_ops [OF p cl]
  have s: "fo J \<noteq> IR_SUB" using la(4) by auto
  show "ok_oob (step_post J) (comm_dup ff J)"
    unfolding comm_dup_def comm_swap_def dir_fold
  proof (intro step_if)
    assume e: "fop1 J = fop2 J"
    show "ok_oob (step_post J) (fold_ret J (FoldRef (fop1 J)))"
      by (rule arith_ref [OF p la(1) z(1) la(2)]) (simp_all add: e la(8))
  next
    assume lt: "fop1 J < fop2 J"
    show "ok_oob (step_post J) (fold_ret (swap_ops J) RETRYFOLD)"
      by (rule swap_arith [OF p cl la(1) s la(3) lt la(9) la(9)]) (use la(2) in simp)
  qed simp
qed

lemma ok_comm_bxor: "rule_ok (IR_BXOR, l, r) comm_bxor"
proof (rule rule_okI)
  fix ff J assume p: "fpre ff J" and k: "key_match J (IR_BXOR, l, r)"
  note o = keyD(1) [OF p k]
  have ar: "arithop (fo J)" "\<not> ovop (fo J)" "opcl (fo J) \<noteq> OConv" using o by (simp_all add: ovop_def)
  show "ok_oob (step_post J) (comm_bxor ff J)"
    unfolding comm_bxor_def comm_swap_def
  proof (intro step_if)
    assume e: "fop1 J = fop2 J"
    show "ok_oob (step_post J) (zerofold J)"
      by (rule zero_post [OF p ar(1,3)]) (use arith_gok [OF ar(1,2)] o e in \<open>simp_all add: ival_arith\<close>)
  next
    assume lt: "fop1 J < fop2 J"
    show "ok_oob (step_post J) (fold_ret (swap_ops J) RETRYFOLD)"
      by (rule swap_arith [OF p]) (use o lt comm_arith [of "fo J"] ar in simp_all)
  qed simp
qed

section \<open>Comparisons\<close>

lemma gok_cmp:
  "opcl (ir_o i) = OCmp \<Longrightarrow> gok J \<rho> i = (if wide i then cmpval (ir_o i) (den J \<rho> (ir_op1 i)) (den J \<rho> (ir_op2 i))
     else cmpval (ir_o i) (d32 J \<rho> (ir_op1 i)) (d32 J \<rho> (ir_op2 i)))"
  by (auto simp: gok_def gval_def)

lemma cmp_opcl: "opcl op = OCmp \<longleftrightarrow> op = IR_LT \<or> op = IR_GE \<or> op = IR_LE \<or> op = IR_GT \<or> op = IR_ULT \<or> op = IR_UGE \<or>
    op = IR_ULE \<or> op = IR_UGT \<or> op = IR_EQ \<or> op = IR_NE"
  by (auto simp: opcl_def)

lemma rank_cmp: "opcl op = OCmp \<Longrightarrow> rank op = 1"
  by (auto simp: cmp_opcl rank_def)

lemma cmp_flip:
  assumes "opcl op = OCmp"
  shows "opcl (cmp_flip op) = OCmp" "scmp (cmp_flip op) = scmp op"
    "op \<noteq> IR_EQ \<Longrightarrow> op \<noteq> IR_NE \<Longrightarrow> cmpval (cmp_flip op) y x = cmpval op x (y :: 'a::len word)"
    "op = IR_EQ \<or> op = IR_NE \<Longrightarrow> cmpval op y x = cmpval op x y"
    "op \<noteq> IR_EQ \<Longrightarrow> op \<noteq> IR_NE \<Longrightarrow> cmpval op x x = cmp_refl op"
  using assms by (auto simp: cmp_opcl cmp_flip_def scmp_def cmp_refl_def)

lemma swap_cmp:
  assumes p: "fpre ff J" and o: "opcl (fo J) = OCmp" "opcl x = OCmp" "scmp x = scmp (fo J)" and lt: "fop1 J < fop2 J"
    and c: "\<And>u v :: u64. cmpval x v u = cmpval (fo J) u v" "\<And>u v :: u32. cmpval x v u = cmpval (fo J) u v"
  shows "ok_oob (step_post J) (fold_ret (set_o x (swap_ops J)) RETRYFOLD)"
proof (rule retry_post [OF fpreD(1) [OF p]])
  have z: "os J (wide (j_fins J)) (fop1 J)" "os J (wide (j_fins J)) (fop2 J)" using fpreD(5) [OF p] o(1) by (simp_all add: opnds_ok_cl)
  have t: "a32 (irt_ty (ft J)) \<or> w64 (irt_ty (ft J))" using fin_ty [OF p] o by simp
  have na: "x \<noteq> IR_ABC" "x \<noteq> IR_MOD" "x \<noteq> IR_SUB" using o(2) by auto
  have "opnds_ok J (j_fins (set_o x (swap_ops J)))" using z o(2) by (simp add: opnds_ok_cl wide_def)
  moreover have "sem_ins (j_fins (set_o x (swap_ops J)))" using o(2) t by (simp add: sem_ins_def)
  ultimately show "fin_ok J (j_fins (set_o x (swap_ops J)))"
    using fpreD(3) [OF p] o(3) na by (auto simp: fin_ok_def wide_def)
  show "meas J (j_fins (set_o x (swap_ops J))) < meas J (j_fins J)"
    by (rule meas_swap) (use lt o na rank_cmp in auto)
  show "gok J \<rho> (j_fins (set_o x (swap_ops J))) = gok J \<rho> (j_fins J)" for \<rho>
    using gok_cmp [of "j_fins J"] gok_cmp [of "j_fins (set_o x (swap_ops J))"] o c by (simp add: wide_def)
  have pg: "pure_guard (fo J)" using o(1) by (simp add: pure_guard_def)
  then show "\<not> pure_guard (fo J) \<Longrightarrow> ival J \<rho> (j_fins (set_o x (swap_ops J))) = ival J \<rho> (j_fins J)" for \<rho> by simp
  show "pure_guard (fo (set_o x (swap_ops J))) = pure_guard (fo J)" using o by (simp add: pure_guard_def)
qed (simp_all add: wide_def same_regs_comp same_swap)

lemma set_o_swap: "set_o (fo J) (swap_ops J) = swap_ops J"
  by (simp add: set_o_def swap_ops_def set_op1_def set_op2_def)

lemma ok_comm_equal:
  assumes "op = IR_EQ \<or> op = IR_NE"
  shows "rule_ok (op, l, r) comm_equal"
proof (rule rule_okI)
  fix ff J assume p: "fpre ff J" and k: "key_match J (op, l, r)"
  note o = keyD(1) [OF p k] and wf = fpreD(1) [OF p]
  have cl: "opcl (fo J) = OCmp" "fo J = IR_EQ \<or> fo J = IR_NE" using assms o by auto
  show "ok_oob (step_post J) (comm_equal ff J)"
    unfolding comm_equal_def comm_swap_def
  proof (intro step_if)
    assume e: "fop1 J = fop2 J \<and> irt_ty (ft J) \<noteq> IRT_NUM"
    show "ok_oob (step_post J) (CONDFOLD J (fo J = IR_EQ))"
      by (rule cond_post [OF wf]) (use cl e gok_cmp [of "j_fins J"] in \<open>auto simp: pure_guard_def\<close>)
  next
    assume lt: "fop1 J < fop2 J"
    have "ok_oob (step_post J) (fold_ret (set_o (fo J) (swap_ops J)) RETRYFOLD)"
      by (rule swap_cmp [OF p cl(1) cl(1) refl lt]) (rule cmp_flip(4) [OF cl])+
    then show "ok_oob (step_post J) (fold_ret (swap_ops J) RETRYFOLD)" by (simp only: set_o_swap)
  qed simp
qed

lemma ok_comm_comp:
  assumes "opcl op = OCmp" "op \<noteq> IR_EQ" "op \<noteq> IR_NE"
  shows "rule_ok (op, l, r) comm_comp"
proof (rule rule_okI)
  fix ff J assume p: "fpre ff J" and k: "key_match J (op, l, r)"
  note o = keyD(1) [OF p k] and wf = fpreD(1) [OF p]
  note f = cmp_flip [OF assms(1) [folded o]] and ne = assms(2,3) [folded o]
  have cl: "opcl (fo J) = OCmp" using assms o by simp
  show "ok_oob (step_post J) (comm_comp ff J)"
    unfolding comm_comp_def
  proof (intro step_if)
    assume e: "fop1 J = fop2 J \<and> irt_ty (ft J) \<noteq> IRT_NUM"
    have g: "gok J \<rho> (j_fins J) = cmp_refl (fo J)" for \<rho>
    proof (cases "wide (j_fins J)")
      case True
      then show ?thesis using gok_cmp [OF cl, of J \<rho>] e f(5) [OF ne, of "den J \<rho> (fop1 J)"] by simp
    next
      case False
      then show ?thesis using gok_cmp [OF cl, of J \<rho>] e f(5) [OF ne, of "d32 J \<rho> (fop1 J)"] by simp
    qed
    show "ok_oob (step_post J) (CONDFOLD J (cmp_refl (fo J)))"
      by (rule cond_post [OF wf]) (use cl g in \<open>simp_all add: pure_guard_def\<close>)
  next
    assume lt: "fop1 J < fop2 J"
    show "ok_oob (step_post J) (fold_ret (set_o (cmp_flip (fo J)) (swap_ops J)) RETRYFOLD)"
      by (rule swap_cmp [OF p cl f(1,2) lt]) (rule f(3) [OF ne])+
  qed simp
qed

section \<open>Array bounds checks\<close>

lemma abc_ops:
  assumes "fpre ff J" "fo J = IR_ABC"
  shows "os J False (fop1 J)" "os J False (fop2 J)" "irref_isk (fop2 J) \<Longrightarrow> 0 \<le> sint (ir_i (j_ir J (fop2 J)))"
    "pure_guard (fo J)" "\<And>\<rho>. gok J \<rho> (j_fins J) \<longleftrightarrow> d32 J \<rho> (fop2 J) < d32 J \<rho> (fop1 J)"
  using fpreD(5) [OF assms(1)] assms(2) by (auto simp: opnds_ok_cl pure_guard_def gok_def gval_def)

text \<open>A bounds check in the trace.\<close>

lemma abc_chain:
  assumes wf: "jwf J" and r: "r \<in> chain_refs J IR_ABC"
  shows "ir_valid J r" "ir_o (j_ir J r) = IR_ABC" "REF_BIAS \<le> r" "sem_ins (j_ir J r)" "opnds_ok J (j_ir J r)"
    "os J False (ir_op1 (j_ir J r))" "os J False (ir_op2 (j_ir J r))"
    "irref_isk (ir_op2 (j_ir J r)) \<Longrightarrow> 0 \<le> sint (ir_i (j_ir J (ir_op2 (j_ir J r))))"
    "tr J \<rho> \<Longrightarrow> d32 J \<rho> (ir_op2 (j_ir J r)) < d32 J \<rho> (ir_op1 (j_ir J r))"
proof -
  show v: "ir_valid J r" and o: "ir_o (j_ir J r) = IR_ABC" using chain_refs_valid [OF r] by simp_all
  show b: "REF_BIAS \<le> r" using kop_valid [OF jwfD(1) [OF wf] v] o by (simp add: kop_def)
  show s: "sem_ins (j_ir J r)" using o by (simp add: sem_ins_def)
  then show ok: "opnds_ok J (j_ir J r)" using jwfD(2) [OF wf v b] by (simp add: ins_ok_def)
  show "os J False (ir_op1 (j_ir J r))" "os J False (ir_op2 (j_ir J r))"
    "irref_isk (ir_op2 (j_ir J r)) \<Longrightarrow> 0 \<le> sint (ir_i (j_ir J (ir_op2 (j_ir J r))))"
    using ok o by (simp_all add: opnds_ok_cl)
  show "tr J \<rho> \<Longrightarrow> d32 J \<rho> (ir_op2 (j_ir J r)) < d32 J \<rho> (ir_op1 (j_ir J r))"
    using v b s o unfolding tr_def by (auto simp: gok_def gval_def)
qed

lemma w32_const:
  assumes "jwf J" "os J False r" "irref_isk r"
  shows "ir_o (j_ir J r) = IR_KINT"
  using kins_w(1) [OF jwfD(1) [OF assms(1)] os_valid(1) [OF assms(2)]] assms(2,3) by (simp add: os_def irref_isk_def)

lemma drop_ret:
  assumes "jwf J" "pure_guard (fo J)" "\<And>\<rho>. tr J \<rho> \<Longrightarrow> gok J \<rho> (j_fins J)"
  shows "ok_oob (step_post J) (fold_ret J DROPFOLD)"
  using assms by (auto simp: fold_ret_def step_post_def)

lemma ok_abc_fwd: "rule_ok (IR_ABC, l, ROp IR_ADD) abc_fwd"
proof (rule rule_okI)
  fix ff J assume p: "fpre ff J" and k: "key_match J (IR_ABC, l, ROp IR_ADD)"
  note o = keyD(1) [OF p k] and v = keyD(3) [OF p k refl] and wf = fpreD(1) [OF p] and or = keyD(4) [OF p k refl]
  note R = fpreD(8) [OF p v] and a = abc_ops [OF p o]
  have z: "oz J False (fop2 J)" using a(2) by (simp add: oz_def)
  note d = opd [OF wf z or, folded R]
  let ?R = "j_fright J" and ?A = "j_ir J (ir_op1 (j_fright J))"
  show "ok_oob (step_post J) (abc_fwd ff J)"
    unfolding abc_fwd_def Let_def
  proof (rule step_if)
    assume c: "j_opt_abc J \<and> irref_isk (ir_op2 ?R) \<and> ir_o ?A = IR_ADD \<and> irref_isk (ir_op2 ?A) \<and>
         ir_i (j_ir J (ir_op2 ?R)) = - ir_i (j_ir J (ir_op2 ?A))"
    have z1: "oz J False (ir_op1 ?R)" "oz J False (ir_op2 ?R)" using d(1,3) by simp_all
    have oA: "ir_o ?A = IR_ADD" using c by simp
    note e = opd [OF wf z1(1) oA]
    have z2: "oz J False (ir_op2 ?A)" using e(3) by simp
    have k1: "ir_o (j_ir J (ir_op2 ?R)) = IR_KINT" "ir_o (j_ir J (ir_op2 ?A)) = IR_KINT"
      using w32_const [OF wf] z1(2) z2 c by (simp_all add: oz_def)
    have val: "d32 J \<rho> (fop2 J) = d32 J \<rho> (ir_op1 ?A)" for \<rho>
      using d(8) [of \<rho>] e(8) [of \<rho>] ins_k(5) [OF wf os_valid(2) [OF z1(2)] k1(1), of \<rho>]
        ins_k(5) [OF wf os_valid(2) [OF z2] k1(2), of \<rho>] c by simp
    let ?P = "\<lambda>(_ :: nat) ir. ir_op1 ir = fop1 J \<and> ir_op2 ir = ir_op1 ?A"
    obtain s where s: "ir_walk J (max (ir_op1 ?A) (fop1 J)) ?P (j_chain J IR_ABC) = Inr s"
      "s \<noteq> 0 \<Longrightarrow> s \<in> chain_refs J IR_ABC \<and> ?P s (j_ir J s)"
      using ir_walk_ok [OF jwfD(1) [OF wf], of "max (ir_op1 ?A) (fop1 J)" ?P IR_ABC] by auto
    have "ok_oob (step_post J) (fold_ret J DROPFOLD)" if "s \<noteq> 0"
    proof (rule drop_ret [OF wf a(4)])
      fix \<rho> assume t: "tr J \<rho>"
      show "gok J \<rho> (j_fins J)" using abc_chain(9) [OF wf conjunct1 [OF s(2) [OF that]] t] s(2) [OF that] a(5) val by simp
    qed
    then show "ok_oob (step_post J) (rbind (ir_walk J (max (ir_op1 ?A) (fop1 J)) ?P (j_chain J IR_ABC))
        (\<lambda>ref. fold_ret J (if ref \<noteq> 0 then DROPFOLD else NEXTFOLD)))"
      unfolding s(1) by (cases "s = 0") simp_all
  qed simp
qed

text \<open>The constant index of a bounds check is replaced by a larger one.\<close>

lemma abc_upd:
  assumes wf: "jwf J" and r: "r \<in> chain_refs J IR_ABC" and c: "os J False c" "irref_isk c" "0 \<le> sint (ir_i (j_ir J c))"
  defines "J' \<equiv> J\<lparr>j_ir := (j_ir J)(r := (j_ir J r)\<lparr>ir_op2 := c\<rparr>)\<rparr>"
  shows "irwf J'" "ir_keeps J J'" "same_env J J'" "jwf J'"
    "\<And>\<rho>. tr J' \<rho> \<longleftrightarrow> (\<forall>q. ir_valid J q \<and> REF_BIAS \<le> q \<and> sem_ins (j_ir J q) \<and> q \<noteq> r \<longrightarrow> gok J \<rho> (j_ir J q)) \<and>
       d32 J \<rho> c < d32 J \<rho> (ir_op1 (j_ir J r))"
proof -
  note w = jwfD(1) [OF wf] and a = abc_chain [OF wf r]
  have v: "ir_valid J' = ir_valid J" by (simp add: J'_def ir_valid_def fun_eq_iff)
  have i: "j_ir J' q = (if q = r then (j_ir J r)\<lparr>ir_op2 := c\<rparr> else j_ir J q)" for q by (simp add: J'_def)
  have cr: "c < r" using c(2) a(3) by (simp add: irref_isk_def)
  have kq: "j_ir J' q = j_ir J q" if "q < REF_BIAS" for q using a(3) that by (simp add: i)
  show wf': "irwf J'"
  proof (rule irwfI)
    show "ir_bounds J'" using irwfD(1) [OF w] by (simp add: J'_def ir_bounds_def)
    show "kins_ok J' (j_ir J' q)" if "ir_valid J' q" "q < REF_BIAS" for q
    proof -
      have "kins_ok J (j_ir J q)" using irwfD(2) [OF w, of q] that by (simp only: v)
      moreover have "kins_ok J' x = kins_ok J x" for x by (simp add: kins_ok_def J'_def)
      ultimately show ?thesis by (simp only: kq [OF that(2)])
    qed
    show "\<not> kop (ir_o (j_ir J' q)) \<and> ir_op1 (j_ir J' q) < q \<and> ir_op2 (j_ir J' q) < q" if "ir_valid J' q" "REF_BIAS \<le> q" for q
      using irwfD(3) [OF w, of q] that cr by (cases "q = r") (simp_all add: v i)
    show "chain_ok J' op" for op
    proof -
      have cs: "chain_refs J' op = chain_refs J op" by (auto simp: chain_refs_def J'_def)
      obtain xs where xs: "is_chain (j_ir J) (j_chain J op) xs" "set xs = chain_refs J op"
        "if kop op then sorted_wrt (<) xs else sorted_wrt (>) xs"
        using irwfD(4) [OF w, of op] by (auto simp: chain_ok_def)
      have "is_chain (j_ir J') (j_chain J op) xs" by (rule is_chain_cong [OF xs(1)]) (simp add: i)
      then show ?thesis using xs cs by (auto simp: chain_ok_def J'_def)
    qed
    show "distinct (concat (j_k64 J'))" using irwfD(5) [OF w] by (simp add: J'_def)
    show "q = s" if "ir_valid J' q" "ir_valid J' s" "q < REF_BIAS" "s < REF_BIAS" "same_k (j_ir J' q) (j_ir J' s)" for q s
      using irwfD(6) [OF w, of q s] that kq by (simp add: v)
  qed
  show k: "ir_keeps J J'"
    using a(2) by (auto simp: ir_keeps_def i same_ins_def J'_def)
  show "same_env J J'" by (simp add: same_env_def J'_def)
  have new: "opnds_ok J' (j_ir J' r)" "sem_ins (j_ir J' r)"
  proof -
    have "opnds_ok J (j_ir J' r)" using a(2,6) c by (simp add: i opnds_ok_cl)
    then show "opnds_ok J' (j_ir J' r)" by (rule opnds_keep [OF k])
    show "sem_ins (j_ir J' r)" using a(2) by (simp add: i sem_ins_def)
  qed
  have "ins_ok J' (j_ir J' q)" if "ir_valid J q" "REF_BIAS \<le> q" for q
  proof (cases "q = r")
    case True
    then show ?thesis using new a(2) by (simp add: ins_ok_def strict_def i)
  next
    case False
    then show ?thesis using ins_ok_keep [OF k jwfD(2) [OF wf that]] by (simp add: i)
  qed
  then show "jwf J'" using wf' by (simp add: jwf_def v)
  show "tr J' \<rho> \<longleftrightarrow> (\<forall>q. ir_valid J q \<and> REF_BIAS \<le> q \<and> sem_ins (j_ir J q) \<and> q \<noteq> r \<longrightarrow> gok J \<rho> (j_ir J q)) \<and>
       d32 J \<rho> c < d32 J \<rho> (ir_op1 (j_ir J r))" for \<rho>
  proof -
    have dn: "den J' \<rho> q = den J \<rho> q" if "ir_valid J q" for q by (rule den_keeps [OF wf wf' k that])
    have g: "gok J' \<rho> (j_ir J' q) = gok J \<rho> (j_ir J q)" if "ir_valid J q" "REF_BIAS \<le> q" "sem_ins (j_ir J q)" "q \<noteq> r" for q
    proof -
      have "opnds_ok J (j_ir J q)" using jwfD(2) [OF wf that(1,2)] that(3) by (simp add: ins_ok_def)
      then show ?thesis using ival_keeps(2) [OF wf wf' k] that(4) by (simp add: i)
    qed
    have gr: "gok J' \<rho> (j_ir J' r) \<longleftrightarrow> d32 J \<rho> c < d32 J \<rho> (ir_op1 (j_ir J r))"
      using dn [OF os_valid(1) [OF c(1)]] dn [OF os_valid(1) [OF a(6)]] a(2) by (simp add: gok_def gval_def i)
    have s: "sem_ins (j_ir J' q) = sem_ins (j_ir J q)" if "q \<noteq> r" for q using that by (simp add: i)
    show ?thesis
    proof
      assume t: "tr J' \<rho>"
      have "gok J \<rho> (j_ir J q)" if "ir_valid J q" "REF_BIAS \<le> q" "sem_ins (j_ir J q)" "q \<noteq> r" for q
        using t g [OF that] that s unfolding tr_def v by metis
      moreover have "gok J' \<rho> (j_ir J' r)" using t a(1,3) new(2) unfolding tr_def v by blast
      ultimately show "(\<forall>q. ir_valid J q \<and> REF_BIAS \<le> q \<and> sem_ins (j_ir J q) \<and> q \<noteq> r \<longrightarrow> gok J \<rho> (j_ir J q)) \<and>
          d32 J \<rho> c < d32 J \<rho> (ir_op1 (j_ir J r))" using gr by blast
    next
      assume t: "(\<forall>q. ir_valid J q \<and> REF_BIAS \<le> q \<and> sem_ins (j_ir J q) \<and> q \<noteq> r \<longrightarrow> gok J \<rho> (j_ir J q)) \<and>
          d32 J \<rho> c < d32 J \<rho> (ir_op1 (j_ir J r))"
      have "gok J' \<rho> (j_ir J' q)" if "ir_valid J q" "REF_BIAS \<le> q" "sem_ins (j_ir J' q)" for q
      proof (cases "q = r")
        case True
        then show ?thesis using t gr by simp
      next
        case False
        then show ?thesis using t g that s by metis
      qed
      then show "tr J' \<rho>" unfolding tr_def v by blast
    qed
  qed
qed

lemma sint_less_word:
  assumes "0 \<le> sint (a :: u32)" "sint a \<le> sint b"
  shows "a \<le> b"
  using assms uint_of_sint [of a] uint_of_sint [of b] by (simp add: word_le_def)


lemma ok_abc_k: "rule_ok (IR_ABC, l, ROp IR_KINT) abc_k"
proof (rule rule_okI)
  fix ff J assume p: "fpre ff J" and k: "key_match J (IR_ABC, l, ROp IR_KINT)"
  note o = keyD(1) [OF p k] and v = keyD(3) [OF p k refl] and wf = fpreD(1) [OF p]
  note R = fpreD(8) [OF p v] and a = abc_ops [OF p o] and kb = ins_k [OF wf v keyD(4) [OF p k refl]]
  have st: "strict J (j_fins J)" using o by (simp add: strict_def)
  have kc: "irref_isk (fop2 J)" using kb(1) by (simp add: irref_isk_def)
  let ?P = "\<lambda>(_ :: nat) ir. ir_op1 ir = fop1 J \<and> irref_isk (ir_op2 ir)"
  obtain s where s: "ir_walk J (fop1 J) ?P (j_chain J IR_ABC) = Inr s"
    "s \<noteq> 0 \<Longrightarrow> s \<in> chain_refs J IR_ABC \<and> ?P s (j_ir J s)"
    using ir_walk_ok [OF jwfD(1) [OF wf], of "fop1 J" ?P IR_ABC] by auto
  let ?i = "j_ir J s"
  let ?J = "J\<lparr>j_ir := (j_ir J)(s := ?i\<lparr>ir_op2 := fop2 J\<rparr>)\<rparr>"
  have hit: "ok_oob (step_post J) (fold_ret (if ir_i (j_ir J (ir_op2 ?i)) <s ir_i (j_fright J) then ?J else J) DROPFOLD)" if nz: "s \<noteq> 0"
  proof -
    have r: "s \<in> chain_refs J IR_ABC" "ir_op1 ?i = fop1 J" "irref_isk (ir_op2 ?i)" using s(2) [OF nz] by simp_all
    note c = abc_chain [OF wf r(1)]
    have ki: "ir_o (j_ir J (ir_op2 ?i)) = IR_KINT" by (rule w32_const [OF wf c(7) r(3)])
    note kk = ins_k [OF wf os_valid(1) [OF c(7)] ki]
    let ?x = "ir_i (j_ir J (ir_op2 ?i))" and ?y = "ir_i (j_fright J)"
    have old: "tr J \<rho> \<Longrightarrow> ?x < d32 J \<rho> (fop1 J)" for \<rho> using c(9) [of \<rho>] kk(5) [of \<rho>] r(2) by simp
    have g: "gok J \<rho> (j_fins J) \<longleftrightarrow> ?y < d32 J \<rho> (fop1 J)" for \<rho> using a(5) kb(5) [of \<rho>] by (simp add: R)
    have xy: "0 \<le> sint ?x" "0 \<le> sint ?y" using c(8) [OF r(3)] a(3) [OF kc] by (simp_all add: R)
    show ?thesis
    proof (cases "?x <s ?y")
      case True
      have le: "?x \<le> ?y" by (rule sint_less_word [OF xy(1)]) (use True in \<open>simp add: word_sless_alt\<close>)
      note u = abc_upd [OF wf r(1) a(2) kc a(3) [OF kc]]
      have "tr ?J \<rho> \<longleftrightarrow> tr J \<rho> \<and> gok J \<rho> (j_fins J)" for \<rho>
      proof
        assume t: "tr ?J \<rho>"
        then have n: "?y < d32 J \<rho> (fop1 J)" and q: "\<And>q. ir_valid J q \<and> REF_BIAS \<le> q \<and> sem_ins (j_ir J q) \<and> q \<noteq> s \<Longrightarrow> gok J \<rho> (j_ir J q)"
          using u(5) [of \<rho>] kb(5) [of \<rho>] r(2) by (simp_all add: R)
        have "gok J \<rho> ?i" using n le c(2) r(2) kk(5) [of \<rho>] by (simp add: gok_def gval_def)
        then have "tr J \<rho>" using q unfolding tr_def by metis
        then show "tr J \<rho> \<and> gok J \<rho> (j_fins J)" using n g by simp
      next
        assume t: "tr J \<rho> \<and> gok J \<rho> (j_fins J)"
        then show "tr ?J \<rho>" using u(5) [of \<rho>] kb(5) [of \<rho>] r(2) g [of \<rho>] unfolding tr_def by (simp add: R)
      qed
      then show ?thesis using True u(2-4) a(4) by (simp add: fold_ret_def step_post_def)
    next
      case False
      have le: "?y \<le> ?x" by (rule sint_less_word [OF xy(2)]) (use False in \<open>simp add: word_sless_alt\<close>)
      have "ok_oob (step_post J) (fold_ret J DROPFOLD)"
        by (rule drop_ret [OF wf a(4)]) (use old g le in \<open>auto intro: le_less_trans\<close>)
      then show ?thesis using False by simp
    qed
  qed
  have "ok_oob (step_post J) (if s \<noteq> 0 then fold_ret (if ir_i (j_ir J (ir_op2 ?i)) <s ir_i (j_fright J) then ?J else J) DROPFOLD else EMITFOLD J)"
    by (rule step_if) (use hit EMIT_post [OF p st] in simp_all)
  then show "ok_oob (step_post J) (abc_k ff J)"
    unfolding abc_k_def s(1) rbind_simps Let_def by (cases "j_opt_abc J") simp_all
qed

lemma ok_abc_invar: "rule_ok (IR_ABC, l, r) abc_invar"
proof (rule rule_okI)
  fix ff J assume p: "fpre ff J" and k: "key_match J (IR_ABC, l, r)"
  have "irt_ty (ft J) = IRT_INT" using fpreD(3) [OF p] keyD(1) [OF p k] by (simp add: fin_ok_def)
  then show "ok_oob (step_post J) (abc_invar ff J)" by (simp add: abc_invar_def)
qed

end
