(* ===== verification/LJ_FoldTab.thy ===== *)
theory LJ_FoldTab
  imports LJ_FoldOkG
begin

text \<open>
  Every rule of the FOLD table is sound for the keys it is registered for.
\<close>

section \<open>The table\<close>

definition tab_ok :: "(rule \<times> fkey list) list \<Rightarrow> bool" where
  "tab_ok t \<longleftrightarrow> (\<forall>(f, ks) \<in> set t. \<forall>k \<in> set ks. rule_ok k f)"

lemma other_ops [simp]:
  "opcl IR_FPMATH = OOther" "opcl IR_ABS = OOther" "opcl IR_DIV = OOther" "opcl IR_POW = OOther" "opcl IR_ATAN2 = OOther"
  "opcl IR_LDEXP = OOther" "opcl IR_TOBIT = OOther"
  by (simp_all add: opcl_def)

lemma kop_k: "kop IR_KNUM" "kop IR_KGC" "kop IR_KPTR" "kop IR_KKPTR" "kop IR_KNULL"
  by (simp_all add: kop_def)

lemma conv_lits:
  "\<not> int_conv (IRCONV IRT_NUM s)" "\<not> int_conv (IRCONV IRT_FLOAT s)" "\<not> int_conv (IRCONV d IRT_NUM)"
  by (cases s; simp add: int_conv_def conv32_def conv64_def src64_def src32_def src_small_def)+

lemma conv_kinds:
  "src_small (IRCONV IRT_INT IRT_I8)" "src_small (IRCONV IRT_INT IRT_U8)" "src_small (IRCONV IRT_INT IRT_I16)"
  "src_small (IRCONV IRT_INT IRT_U16)"
  "d = IRT_I64 \<or> d = IRT_U64 \<Longrightarrow> s = IRT_INT \<or> s = IRT_U32 \<Longrightarrow> conv64 (IRCONV d s) \<and> src32 (IRCONV d s)"
  "d = IRT_INT \<or> d = IRT_U32 \<Longrightarrow> s = IRT_I64 \<or> s = IRT_U64 \<Longrightarrow> \<not> conv64 (IRCONV d s) \<and> src64 (IRCONV d s) \<and> \<not> src_small (IRCONV d s)"
  by (auto simp: src_small_def conv64_def src32_def src64_def)

lemmas vacs = vac_other vac_left vac_right vac_conv vac_32 kop_k conv_lits

lemma tab_num: "tab_ok (kfold_num_table fp)"
  by (simp add: tab_ok_def kfold_num_table_def vacs)

lemma tab_int: "tab_ok kfold_int_table"
  by (simp add: tab_ok_def kfold_int_table_def ok_kfold_intarith kf_op_def ok_kfold_intovarith ovop_def ok_kfold_bnot
      ok_kfold_bswap ok_kfold_intcomp ok_kfold_intcomp0)

lemma tab_int64: "tab_ok kfold_int64_table"
  by (simp add: tab_ok_def kfold_int64_table_def ok_kfold_int64arith vacs ok_kfold_int64shift ok_kfold_bnot64
      ok_kfold_bswap64 ok_kfold_int64comp ok_kfold_int64comp0)

lemma tab_ptr: "tab_ok kfold_ptr_table"
  by (simp add: tab_ok_def kfold_ptr_table_def vacs)

lemma tab_conv: "tab_ok (kfold_conv_table fp)"
  by (simp add: tab_ok_def kfold_conv_table_def vacs conv_kinds ok_kfold_conv_kint_ext ok_kfold_conv_kint_i64 ok_kfold_conv_kint64_int_i64)

lemma tab_kref: "tab_ok kref_table"
  by (simp add: tab_ok_def kref_table_def vacs ok_kfold_kref)

lemma tab_shortcut: "tab_ok shortcut_table"
  by (simp add: tab_ok_def shortcut_table_def vacs ok_leftleft_neg ok_leftleft_bnot ok_leftleft_bswap)

lemma tab_num2: "tab_ok (num_table fp)"
  by (simp add: tab_ok_def num_table_def vacs ok_numadd_negx ok_xneg ok_mul_negneg)

lemma tab_conv_num: "tab_ok conv_num_table"
  by (simp add: tab_ok_def conv_num_table_def vacs conv_kinds ok_simplify_conv_int_i64)

lemma tab_conv_int: "tab_ok conv_int_table"
  by (simp add: tab_ok_def conv_int_table_def conv_kinds ok_simplify_conv_sext ok_simplify_conv_narrow ok_cse_conv)

lemma tab_arith: "tab_ok int_table"
  by (simp add: tab_ok_def int_table_def ok_intadd_k ok_intmulov_k ok_intsub_k ok_intsub_kleft ok_intadd_k64 ok_intsub_k64
      ok_intmul_k32 ok_intmul_k64 ok_intmod_k ok_intmod_kleft)

lemma tab_intsub: "tab_ok intsub_table"
  by (simp add: tab_ok_def intsub_table_def ok_intsub ok_intsubadd_leftcancel ok_intsubsub_leftcancel
      ok_intsubsub_rightcancel ok_intsubadd_rightcancel ok_intsubaddadd_cancel)

lemma tab_bit: "tab_ok bit_table"
  by (simp add: tab_ok_def bit_table_def ok_bit_k ok_bxor_k ok_shift_ik ok_shift_andk ok_shift_ki ok_shiftk_andk ok_andk_shiftk)

lemma tab_reassoc: "tab_ok (reassoc_table fp)"
  by (simp add: tab_ok_def reassoc_table_def assoc_op_def lat_op_def ok_reassoc_intarith_k ok_reassoc_intarith_k64
      ok_reassoc_dup ok_reassoc_bxor ok_reassoc_shift ok_reassoc_minmax_k ok_minmax vacs)

lemma tab_abc: "tab_ok abc_table"
  by (simp add: tab_ok_def abc_table_def ok_abc_fwd ok_abc_k ok_abc_invar)

lemma tab_comm: "tab_ok comm_table"
  by (simp add: tab_ok_def comm_table_def ok_comm_swap ok_comm_equal ok_comm_comp ok_comm_dup lat_op_def ok_comm_bxor)

lemma tab_append: "tab_ok s \<Longrightarrow> tab_ok t \<Longrightarrow> tab_ok (s @ t)"
  by (auto simp: tab_ok_def)

theorem fold_table_ok: "tab_ok (fold_table fp)"
  unfolding fold_table_def
  by (intro tab_append tab_num tab_int tab_int64 tab_ptr tab_conv tab_kref tab_shortcut tab_num2 tab_conv_num tab_conv_int
      tab_arith tab_intsub tab_bit tab_reassoc tab_abc tab_comm)

end
