(* ===== verification/LJ_FoldEng.thy ===== *)
theory LJ_FoldEng
  imports LJ_FoldTab
begin

text \<open>
  Soundness and termination of the FOLD engine: the lookup finds only sound rules, every retry
  decreases the measure, and the instruction that is left for common-subexpression elimination
  is strict.
\<close>

section \<open>The rules of the other opcodes\<close>

text \<open>No rule that is not modelled has a key that occurs for an integer instruction.\<close>

definition no_int_key :: "fkey \<Rightarrow> bool" where
  "no_int_key k \<longleftrightarrow>
     (case k of (op, l, r) \<Rightarrow> opcl op = OOther \<or> (\<exists>x. r = ROp x \<and> kop x \<and> x \<noteq> IR_KINT \<and> x \<noteq> IR_KINT64) \<or>
        (op = IR_CONV \<and> (\<exists>n. r = RLit n \<and> \<not> int_conv n)))"

definition others_ok :: "others \<Rightarrow> bool" where
  "others_ok others \<longleftrightarrow> (\<forall>k f. others k = Some f \<longrightarrow> no_int_key k)"

lemma no_int_key_ok: "no_int_key k \<Longrightarrow> rule_ok k f"
  by (cases k) (auto simp: no_int_key_def intro: vac_other vac_right vac_conv)

lemma lookup_ok:
  assumes "others_ok others" "fold_lookup fp others k = Some f"
  shows "rule_ok k f"
proof (cases "find (\<lambda>(f, ks). k \<in> set ks) (fold_table fp)")
  case None
  then have "others k = Some f" using assms(2) by (simp add: fold_lookup_def)
  then have "no_int_key k" using assms(1) unfolding others_ok_def by blast
  then show ?thesis by (rule no_int_key_ok)
next
  case (Some x)
  obtain g ks where x: "x = (g, ks)" by (cases x)
  then have "(g, ks) \<in> set (fold_table fp)" "k \<in> set ks"
    using Some unfolding find_Some_iff by (auto intro: nth_mem simp del: in_set_conv_nth) (metis nth_mem)+
  moreover have "g = f" using Some x assms(2) by (simp add: fold_lookup_def)
  ultimately show ?thesis using fold_table_ok [of fp] unfolding tab_ok_def by blast
qed

section \<open>Operands of the engine\<close>

lemma fold_load_simps [simp]: "j_fins (fold_load J) = j_fins J" "j_ir (fold_load J) = j_ir J"
  by (simp_all add: fold_load_def Let_def)

lemma fold_load_same: "same_ir J (fold_load J)" "same_env J (fold_load J)"
  by (simp_all add: fold_load_def Let_def same_ir_def same_env_def)

lemma fold_load_regs:
  "j_nk J \<le> fop1 J \<Longrightarrow> j_fleft (fold_load J) = j_ir J (fop1 J)" "j_nk J \<le> fop2 J \<Longrightarrow> j_fright (fold_load J) = j_ir J (fop2 J)"
  by (simp_all add: fold_load_def Let_def)

lemma load_pre:
  assumes "jwf J" "fin_ok J (j_fins J)" "scev_off J" "ff_ok (meas J (j_fins J)) ff"
  shows "fpre ff (fold_load J)" "k \<in> set (fold_keys (fold_key J)) \<Longrightarrow> key_match (fold_load J) k"
proof -
  note s = fold_load_same [of J]
  have ok: "opnds_ok J (j_fins J)" using assms(2) by (simp add: fin_ok_def)
  have v: "ir_valid (fold_load J) = ir_valid J" by (rule same_irD(2) [OF s(1)])
  have v1: "ir_valid J (fop1 J)" by (rule opnds_valid(1) [OF ok])
  then have n1: "j_nk J \<le> fop1 J" by (simp add: ir_valid_def)
  have n2: "j_nk J \<le> fop2 J \<longleftrightarrow> ir_valid J (fop2 J)" using fin_lt(2) [OF assms(1) ok] by (simp add: ir_valid_def)
  have e: "ext J (fold_load J)" by (rule ext_regs [OF assms(1) s])
  have "scev_off (fold_load J)" by (rule scev_keeps [OF jwfD(1) [OF assms(1)] extD(2,3) [OF e] assms(3)])
  then show "fpre ff (fold_load J)"
    unfolding fpre_def using extD(1) [OF e] assms(2,4) sem_same(5,6) [OF s(1)] fold_load_regs n1 n2 by (simp add: v)
  show "k \<in> set (fold_keys (fold_key J)) \<Longrightarrow> key_match (fold_load J) k"
    using n1 n2 fold_load_regs [of J] by (auto simp: fold_keys_def fold_key_def key_match_def v)
qed

text \<open>All rules of the keys pass, or one of them decides.\<close>

lemma try_keys_ok:
  assumes "fpre ff J" "\<And>k f. k \<in> set ks \<Longrightarrow> lookup k = Some f \<Longrightarrow> rule_ok k f" "\<And>k. k \<in> set ks \<Longrightarrow> key_match J k"
  shows "okr (fold_err J) (\<lambda>(J', r). step_post J (J', r) \<and>
    (r = NEXTFOLD \<longrightarrow> (\<forall>k \<in> set ks. \<forall>f. lookup k = Some f \<longrightarrow> f ff J = Inr (J, NEXTFOLD)))) (try_keys lookup ff ks J)"
  using assms(2,3)
proof (induction ks)
  case Nil
  then show ?case by (simp add: fold_ret_def step_post_def)
next
  case (Cons k ks)
  have ih: "okr (fold_err J) (\<lambda>(J', r). step_post J (J', r) \<and>
    (r = NEXTFOLD \<longrightarrow> (\<forall>k \<in> set ks. \<forall>f. lookup k = Some f \<longrightarrow> f ff J = Inr (J, NEXTFOLD)))) (try_keys lookup ff ks J)"
    by (rule Cons.IH) (use Cons.prems in auto)
  show ?case
  proof (cases "lookup k")
    case None
    show ?thesis using ih None by (simp add: okr_def split: sum.splits)
  next
    case (Some f)
    have p: "okr (fold_err J) (step_post J) (f ff J)"
      using Cons.prems(1) [of k f] Cons.prems(2) [of k] Some assms(1) by (simp add: rule_ok_def)
    show ?thesis
    proof (cases "f ff J")
      case (Inl e)
      then show ?thesis using p Some by simp
    next
      case (Inr x)
      obtain J' r where x: "x = (J', r)" by (cases x)
      show ?thesis
      proof (cases "r = NEXTFOLD")
        case True
        then have "J' = J" using p Inr x by (simp add: step_post_def)
        then have fx: "f ff J = Inr (J, NEXTFOLD)" using Inr x True by simp
        have "okr (fold_err J) (\<lambda>(J', r). step_post J (J', r) \<and>
          (r = NEXTFOLD \<longrightarrow> (\<forall>k \<in> set (k # ks). \<forall>f. lookup k = Some f \<longrightarrow> f ff J = Inr (J, NEXTFOLD)))) (try_keys lookup ff ks J)"
          by (rule okr_weaken [OF ih]) (use fx Some in \<open>auto split: prod.splits\<close>)
        then show ?thesis using fx Some by simp
      next
        case False
        then show ?thesis using p Inr x Some by (simp add: fold_ret_def)
      qed
    qed
  qed
qed

section \<open>The instruction that passes all rules is strict\<close>

lemma lookup_ring:
  assumes "opcl op = ORing"
  shows "fold_lookup fp others (op, LOp IR_KINT, ROp IR_KINT) = Some kfold_intarith"
proof -
  have "op = IR_ADD \<or> op = IR_SUB \<or> op = IR_MUL \<or> op = IR_NEG" using assms by (auto simp: opcl_def split: if_splits)
  then show ?thesis
    by (elim disjE) (simp_all add: fold_lookup_def fold_table_def kfold_num_table_def kfold_int_table_def)
qed

lemma lookup_shift:
  assumes "opcl op = OShift"
  shows "fold_lookup fp others (op, LOp IR_KINT, RAny) = Some (if op = IR_BSHL \<or> op = IR_BSHR then simplify_shift1_ki else simplify_shift2_ki)"
proof -
  have "op = IR_BSHL \<or> op = IR_BSHR \<or> op = IR_BSAR \<or> op = IR_BROL \<or> op = IR_BROR" using assms by (simp add: shift_opcl)
  then show ?thesis
    by (elim disjE) (simp_all add: fold_lookup_def fold_table_def kfold_num_table_def kfold_int_table_def kfold_int64_table_def
      kfold_ptr_table_def kfold_conv_table_def kref_table_def shortcut_table_def num_table_def conv_num_table_def
      conv_int_table_def int_table_def intsub_table_def bit_table_def)
qed

lemma strict_next:
  assumes p: "fpre ff J" and n: "\<And>k f. k \<in> set (fold_keys (fold_key J)) \<Longrightarrow> fold_lookup fp others k = Some f \<Longrightarrow> f ff J = Inr (J, NEXTFOLD)"
  shows "strict J (j_fins J)"
proof (rule ccontr)
  assume "\<not> strict J (j_fins J)"
  then consider "opcl (fo J) = ORing" "k0 J (fop1 J)" "k0 J (fop2 J)" | "opcl (fo J) = OShift" "k0 J (fop1 J)"
    by (auto simp: strict_def)
  then show False
  proof cases
    case 1
    have k: "(fo J, LOp IR_KINT, ROp IR_KINT) \<in> set (fold_keys (fold_key J))"
      using 1 by (simp add: fold_keys_def fold_key_def k0_def ir_valid_def)
    have f: "kf_op (fo J)" "fo J \<noteq> IR_MOD" using 1(1) by (auto simp: opcl_def kf_op_def split: if_splits)
    show False using n [OF k lookup_ring [OF 1(1)]] kfold_intop_arith [OF f(1)] f(2)
      by (simp add: kfold_intarith_def INTFOLD_def)
  next
    case 2
    have "(fo J, LOp IR_KINT, RAny) \<in> set (fold_keys (fold_key J))"
      using 2 by (simp add: fold_keys_def fold_key_def k0_def ir_valid_def)
    note f = n [OF this lookup_shift [OF 2(1)]]
    have "kvalue J (j_fleft J) = 0" using 2(2) fpreD(7) [OF p] by (simp add: kvalue_def k0_def)
    then show False using f by (simp add: simplify_shift1_ki_def simplify_shift2_ki_def LEFTFOLD_def split: if_splits)
  qed
qed

section \<open>Retries\<close>

lemma post_trans:
  assumes e: "ext J J1" and s: "pure_guard (fo J1) = pure_guard (fo J)" "wide (j_fins J1) = wide (j_fins J)"
    and v: "\<And>\<rho>. tr J \<rho> \<Longrightarrow> gok J1 \<rho> (j_fins J1) = gok J \<rho> (j_fins J) \<and>
      (\<not> pure_guard (fo J) \<longrightarrow> ival J1 \<rho> (j_fins J1) = ival J \<rho> (j_fins J))"
    and p: "fold_post J1 m"
  shows "fold_post J m"
  unfolding fold_post_def
proof (rule okr_weaken [OF p [unfolded fold_post_def]])
  fix x assume "x = OOB \<or> x = TRERR_GFAIL \<and> (\<forall>\<rho>. tr J1 \<rho> \<longrightarrow> \<not> gok J1 \<rho> (j_fins J1))"
  then show "x = OOB \<or> x = TRERR_GFAIL \<and> (\<forall>\<rho>. tr J \<rho> \<longrightarrow> \<not> gok J \<rho> (j_fins J))" using extD(4) [OF e] v by auto
next
  fix x :: "jit \<times> nat"
  obtain J' r where x: "x = (J', r)" by (cases x)
  assume "case x of (J', r) \<Rightarrow> jwf J' \<and> ir_keeps J1 J' \<and> same_env J1 J' \<and>
      (\<forall>\<rho>. tr J' \<rho> = (tr J1 \<rho> \<and> gok J1 \<rho> (j_fins J1))) \<and>
      (if pure_guard (fo J1) then r = REF_DROP \<or> ir_valid J' r
       else res_ok J' (wide (j_fins J1)) r \<and> (\<forall>\<rho>. tr J' \<rho> \<longrightarrow> den J' \<rho> r = ival J1 \<rho> (j_fins J1)))"
  then have a: "jwf J'" "ir_keeps J1 J'" "same_env J1 J'" "\<And>\<rho>. tr J' \<rho> = (tr J1 \<rho> \<and> gok J1 \<rho> (j_fins J1))"
    "if pure_guard (fo J1) then r = REF_DROP \<or> ir_valid J' r
       else res_ok J' (wide (j_fins J1)) r \<and> (\<forall>\<rho>. tr J' \<rho> \<longrightarrow> den J' \<rho> r = ival J1 \<rho> (j_fins J1))"
    unfolding x prod.case by blast+
  have t: "tr J' \<rho> = (tr J \<rho> \<and> gok J \<rho> (j_fins J))" for \<rho> using a(4) [of \<rho>] extD(4) [OF e, of \<rho>] v [of \<rho>] by auto
  have k: "ir_keeps J J'" by (rule ir_keeps_trans [OF extD(2) [OF e] a(2)])
  have en: "same_env J J'" by (rule same_env_trans [OF extD(3) [OF e] a(3)])
  have r: "if pure_guard (fo J) then r = REF_DROP \<or> ir_valid J' r
       else res_ok J' (wide (j_fins J)) r \<and> (\<forall>\<rho>. tr J' \<rho> \<longrightarrow> den J' \<rho> r = ival J \<rho> (j_fins J))"
    using a(5) s t v by (cases "pure_guard (fo J)") simp_all
  show "case x of (J', r) \<Rightarrow> jwf J' \<and> ir_keeps J J' \<and> same_env J J' \<and>
      (\<forall>\<rho>. tr J' \<rho> = (tr J \<rho> \<and> gok J \<rho> (j_fins J))) \<and>
      (if pure_guard (fo J) then r = REF_DROP \<or> ir_valid J' r
       else res_ok J' (wide (j_fins J)) r \<and> (\<forall>\<rho>. tr J' \<rho> \<longrightarrow> den J' \<rho> r = ival J \<rho> (j_fins J)))"
    unfolding x prod.case by (intro conjI allI a(1) k en t r)
qed

lemma sem_irm: "sem_ins i \<Longrightarrow> irm_kind (ir_o i) = IRM_N"
  using sem_cases(1) [of i] by (cases "ir_o i"; rename_tac k, case_tac k) (auto simp: opcl_def irm_kind_def)

lemma entry_ok:
  assumes "jwf J" "fin_ok J (j_fins J)" "strict J (j_fins J)" "fold_post J (retry J)"
  shows "fold_post J (fold_entry retry J)"
proof -
  have "irm_kind (fo J) = IRM_N" using sem_irm assms(2) by (simp add: fin_ok_def)
  then show ?thesis using cse_post [OF assms(1-3)] assms(4) by (simp add: fold_entry_def)
qed

lemma kint_post:
  assumes e: "ext J J1" and k: "\<not> pure_guard (fo J)" "wide (j_fins J) \<Longrightarrow> k = 0"
    and v: "\<And>\<rho>. tr J \<rho> \<Longrightarrow> gok J \<rho> (j_fins J) \<and> ival J \<rho> (j_fins J) = ucast k"
  shows "fold_post J (lj_ir_kint J1 k)"
  unfolding fold_post_def
proof (rule okr_weaken [OF kint_ok [OF jwfD(1) [OF extD(1) [OF e]], of k]])
  fix x :: "jit \<times> nat"
  obtain J' r where x: "x = (J', r)" by (cases x)
  assume "case x of (J', r) \<Rightarrow> k_added J1 J' r \<and> ir_o (j_ir J' r) = IR_KINT \<and> ir_i (j_ir J' r) = k"
  then have a: "k_added J1 J' r" "ir_o (j_ir J' r) = IR_KINT \<and> ir_i (j_ir J' r) = k" unfolding x prod.case by blast+
  have e': "ext J J'" by (rule ext_trans [OF e ext_k [OF extD(1) [OF e] a(1)]])
  have kr: "kref J J' r" using e' a(1) by (simp add: kref_def k_added_def)
  note q = kref_kint [OF kr a(2)]
  have "res_ok J' (wide (j_fins J)) r" using q(1,2) k(2) by (cases "wide (j_fins J)") (simp_all add: res_ok_def oz_def)
  then show "case x of (J', r) \<Rightarrow> jwf J' \<and> ir_keeps J J' \<and> same_env J J' \<and>
      (\<forall>\<rho>. tr J' \<rho> = (tr J \<rho> \<and> gok J \<rho> (j_fins J))) \<and>
      (if pure_guard (fo J) then r = REF_DROP \<or> ir_valid J' r
       else res_ok J' (wide (j_fins J)) r \<and> (\<forall>\<rho>. tr J' \<rho> \<longrightarrow> den J' \<rho> r = ival J \<rho> (j_fins J)))"
    unfolding x prod.case using extD [OF e'] v q(3) k(1) by auto
qed simp

lemma retry_ok:
  assumes ot: "others_ok others"
  shows "jwf J \<Longrightarrow> fin_ok J (j_fins J) \<Longrightarrow> scev_off J \<Longrightarrow> meas J (j_fins J) < n \<Longrightarrow> fold_post J (fold_retry fp others n J)"
proof (induction n arbitrary: J)
  case (Suc n)
  let ?ff = "fold_entry (fold_retry fp others n)" and ?J = "fold_load J"
  note s = fold_load_same [of J]
  have ff: "ff_ok (meas J (j_fins J)) ?ff"
    unfolding ff_ok_def using Suc.IH Suc.prems(4) entry_ok by auto
  note pre = load_pre [OF Suc.prems(1-3) ff]
  have e: "ext J ?J" by (rule ext_regs [OF Suc.prems(1) s])
  have t: "okr (fold_err ?J) (\<lambda>(J', r). step_post ?J (J', r) \<and> (r = NEXTFOLD \<longrightarrow>
      (\<forall>k \<in> set (fold_keys (fold_key J)). \<forall>f. fold_lookup fp others k = Some f \<longrightarrow> f ?ff ?J = Inr (?J, NEXTFOLD))))
      (try_keys (fold_lookup fp others) ?ff (fold_keys (fold_key J)) ?J)"
    by (rule try_keys_ok [OF pre(1) lookup_ok [OF ot] pre(2)])
  have fp: "fold_post ?J (fold_retry fp others (Suc n) J)"
  proof (cases "try_keys (fold_lookup fp others) ?ff (fold_keys (fold_key J)) ?J")
    case (Inl x)
    then show ?thesis using t by (simp add: fold_retry.simps fold_post_def fold_err_def)
  next
    case (Inr x)
    obtain J' r where x: "x = (J', r)" by (cases x)
    have sp: "step_post ?J (J', r)" and nx: "r = NEXTFOLD \<Longrightarrow> k \<in> set (fold_keys (fold_key J)) \<Longrightarrow> fold_lookup fp others k = Some f \<Longrightarrow>
        f ?ff ?J = Inr (?J, NEXTFOLD)" for k f
      using t Inr x by auto
    show ?thesis
    proof (cases r)
      case NEXTFOLD
      have "fold_key ?J = fold_key J" using s(1) by (simp add: fold_key_def same_ir_def)
      then have "strict ?J (j_fins ?J)" using strict_next [OF pre(1)] nx [OF NEXTFOLD] by metis
      then have "fold_post ?J (lj_opt_cse ?J)" by (rule cse_post [OF fpreD(1,3) [OF pre(1)]])
      moreover have "J' = ?J" using sp NEXTFOLD by (simp add: step_post_def)
      ultimately show ?thesis using Inr x NEXTFOLD by (simp add: fold_retry.simps)
    next
      case RETRYFOLD
      have q: "ext ?J J'" "fin_ok J' (j_fins J')" "pure_guard (fo J') = pure_guard (fo ?J)" "wide (j_fins J') = wide (j_fins ?J)"
        "meas J' (j_fins J') < meas ?J (j_fins ?J)"
        "\<And>\<rho>. tr ?J \<rho> \<Longrightarrow> gok J' \<rho> (j_fins J') = gok ?J \<rho> (j_fins ?J) \<and>
               (\<not> pure_guard (fo ?J) \<longrightarrow> ival J' \<rho> (j_fins J') = ival ?J \<rho> (j_fins ?J))"
        using sp unfolding step_post_def prod.case RETRYFOLD foldres.case by blast+
      have m: "meas J' (j_fins J') < n" using q(5) Suc.prems(4) sem_same(6) [OF s(1)] by simp
      have sc: "scev_off J'" by (rule scev_keeps [OF fpreD(2) [OF pre(1)] extD(2,3) [OF q(1)] fpreD(6) [OF pre(1)]])
      have "fold_post J' (fold_retry fp others n J')" by (rule Suc.IH [OF extD(1) [OF q(1)] q(2) sc m])
      then have "fold_post ?J (fold_retry fp others n J')" by (intro post_trans [OF q(1,3,4)]) (use q(6) in blast)+
      then show ?thesis using Inr x RETRYFOLD by (simp add: fold_retry.simps)
    next
      case KINTFOLD
      have q: "ext ?J J'" "\<not> pure_guard (fo ?J)" "wide (j_fins ?J) \<Longrightarrow> ir_i (j_fins J') = 0"
        "\<And>\<rho>. tr ?J \<rho> \<Longrightarrow> gok ?J \<rho> (j_fins ?J) \<and> ival ?J \<rho> (j_fins ?J) = ucast (ir_i (j_fins J'))"
        using sp unfolding step_post_def prod.case KINTFOLD foldres.case by blast+
      show ?thesis using kint_post [OF q] Inr x KINTFOLD by (simp add: fold_retry.simps)
    next
      case FAILFOLD
      then show ?thesis using sp Inr x by (simp add: fold_retry.simps fold_post_def step_post_def)
    next
      case DROPFOLD
      then show ?thesis using sp Inr x by (simp add: fold_retry.simps fold_post_def step_post_def)
    next
      case (FoldRef q)
      then show ?thesis using sp Inr x by (simp add: fold_retry.simps step_post_def)
    qed
  qed
  show ?case by (rule post_trans [OF e _ _ _ fp]) (simp_all add: sem_same [OF s(1)])
qed simp

lemma rank_le: "rank op \<le> 9" by (simp add: rank_def)

lemma meas_num_max: "r \<le> 9 \<Longrightarrow> p \<le> 0x8000 \<Longrightarrow> q \<le> 0x8000 \<Longrightarrow> a \<le> 1 \<Longrightarrow> b \<le> 1 \<Longrightarrow> c \<le> (1 :: nat) \<Longrightarrow>
    r * 1048576 + 8 * (p + q) + 4 * a + 2 * b + c < 0x1000000"
  by simp

lemma meas_max:
  assumes "jwf J" "opnds_ok J i"
  shows "meas J i < FOLD_MAX"
proof -
  have "pos (ir_op1 i) \<le> 0x8000" "pos (ir_op2 i) \<le> 0x8000"
    using fin_op_lt [OF assms] by (simp_all add: pos_def REF_BIAS_def)
  then show ?thesis unfolding meas_split FOLD_MAX_def by (intro meas_num_max rank_le b2n_le)
qed

theorem fold_post_lj_opt_fold:
  assumes "jwf J" "fin_ok J (j_fins J)" "strict J (j_fins J)" "scev_off J" "others_ok others"
  shows "fold_post J (lj_opt_fold fp others J)"
  unfolding lj_opt_fold_def
  by (rule entry_ok [OF assms(1-3)], rule retry_ok [OF assms(5,1,2,4)], rule meas_max [OF assms(1)])
    (use assms(2) in \<open>simp add: fin_ok_def\<close>)

end
