(* ===== verification/LJ_FoldProps.thy ===== *)
theory LJ_FoldProps
  imports LJ_FoldEng
begin

text \<open>
  Properties of the emitter, of the interning of constants and of the FOLD engine.
\<close>

section \<open>Start of a trace\<close>

lemma setup_bounds:
  assumes "j_nins K = REF_BASE"
    "j_irbotlim K = j_irtoplim K \<and> j_irtoplim K \<le> REF_BASE \<or> j_irbotlim K \<le> REF_TRUE \<and> REF_BASE < j_irtoplim K"
  shows "\<exists>J1. lj_ir_nextins K = Inr (J1, REF_BASE) \<and>
    J1 = K\<lparr>j_nins := REF_BASE + 1, j_irbotlim := j_irbotlim J1, j_irtoplim := j_irtoplim J1\<rparr> \<and>
    j_irbotlim J1 \<le> REF_TRUE \<and> REF_BASE < j_irtoplim J1"
  using assms
  by (auto simp: lj_ir_nextins_def lj_ir_growtop_def Let_def REF_BASE_def REF_TRUE_def REF_BIAS_def REF_DROP_def LJ_MIN_IRSZ_def)

lemma setup_eq:
  assumes "j_nins J = REF_BASE"
    and b: "j_irbotlim J = j_irtoplim J \<and> j_irtoplim J \<le> REF_BASE \<or> j_irbotlim J \<le> REF_TRUE \<and> REF_BASE < j_irtoplim J"
  shows "\<exists>J'. record_setup_ir J parent exitno = Inr (J', REF_BASE) \<and> j_nins J' = REF_BASE + 1 \<and> j_nk J' = REF_TRUE \<and>
    j_k64 J' = j_k64 J \<and> j_chain J' = (\<lambda>_. 0)(IR_BASE := REF_BASE) \<and> j_irbotlim J' \<le> REF_TRUE \<and> REF_BASE < j_irtoplim J' \<and>
    j_scev_idx J' = REF_NIL \<and>
    (\<forall>r. REF_TRUE \<le> r \<and> r < REF_BASE \<longrightarrow> ir_o (j_ir J' r) = IR_KPRI \<and> irt_ty (ir_t (j_ir J' r)) \<in> {IRT_NIL, IRT_FALSE, IRT_TRUE}) \<and>
    ir_o (j_ir J' REF_BASE) = IR_BASE \<and> ir_op1 (j_ir J' REF_BASE) = parent \<and> ir_op2 (j_ir J' REF_BASE) = exitno \<and>
    ir_prev (j_ir J' REF_BASE) = 0"
proof -
  let ?J0 = "lj_ir_set (J\<lparr>j_chain := (\<lambda>_. 0), j_scev_idx := REF_NIL\<rparr>) IR_BASE (IRT IRT_P32) parent exitno"
  have c: "j_nins ?J0 = REF_BASE" "j_irbotlim ?J0 = j_irbotlim J" "j_irtoplim ?J0 = j_irtoplim J"
    using assms(1) by (simp_all add: lj_ir_set_def)
  obtain J1 where n: "lj_ir_nextins ?J0 = Inr (J1, REF_BASE)" and l: "j_irbotlim J1 \<le> REF_TRUE" "REF_BASE < j_irtoplim J1"
    and e: "J1 = ?J0\<lparr>j_nins := REF_BASE + 1, j_irbotlim := j_irbotlim J1, j_irtoplim := j_irtoplim J1\<rparr>"
    using setup_bounds [of ?J0, OF c(1)] b unfolding c(2,3) by blast
  have sel: "j_fins J1 = j_fins ?J0" "j_chain J1 = (\<lambda>_. 0)" "j_nins J1 = REF_BASE + 1" "j_k64 J1 = j_k64 J" "j_scev_idx J1 = REF_NIL"
    by (subst e, simp add: lj_ir_set_def)+
  have f: "ir_o (j_fins ?J0) = IR_BASE" "ir_op1 (j_fins ?J0) = parent" "ir_op2 (j_fins ?J0) = exitno"
    by (simp_all add: lj_ir_set_def)
  have r: "REF_TRUE \<le> x \<and> x < REF_BASE \<longleftrightarrow> x = REF_NIL \<or> x = REF_NIL - 1 \<or> x = REF_NIL - 2" for x
    by (auto simp: REF_TRUE_def REF_BASE_def REF_NIL_def REF_BIAS_def)
  have d: "REF_NIL \<noteq> REF_NIL - 1" "REF_NIL \<noteq> REF_NIL - 2" "REF_NIL - 1 \<noteq> REF_NIL - 2" "REF_BASE \<noteq> REF_NIL" "REF_BASE \<noteq> REF_NIL - 1" "REF_BASE \<noteq> REF_NIL - 2"
    by (simp_all add: REF_BASE_def REF_NIL_def REF_BIAS_def)
  show ?thesis
    unfolding record_setup_ir_def lj_ir_emit_def n rbind_simps prod.case Let_def r
    using l d by (auto simp: sel f)
qed

lemma setup_wf:
  assumes "j_nins J = REF_BASE" "distinct (concat (j_k64 J))" "parent < REF_BASE" "exitno < REF_BASE"
    "j_irbotlim J = j_irtoplim J \<and> j_irtoplim J \<le> REF_BASE \<or> j_irbotlim J \<le> REF_TRUE \<and> REF_BASE < j_irtoplim J"
  shows "\<exists>J'. record_setup_ir J parent exitno = Inr (J', REF_BASE) \<and> jwf J' \<and> scev_off J' \<and> (\<forall>\<rho>. tr J' \<rho>)"
proof -
  obtain J' where r: "record_setup_ir J parent exitno = Inr (J', REF_BASE)" and n: "j_nins J' = REF_BASE + 1" "j_nk J' = REF_TRUE"
    "j_k64 J' = j_k64 J" "j_chain J' = (\<lambda>_. 0)(IR_BASE := REF_BASE)" "j_irbotlim J' \<le> REF_TRUE" "REF_BASE < j_irtoplim J'"
    "j_scev_idx J' = REF_NIL"
    and k: "\<And>r. REF_TRUE \<le> r \<Longrightarrow> r < REF_BASE \<Longrightarrow> ir_o (j_ir J' r) = IR_KPRI \<and> irt_ty (ir_t (j_ir J' r)) \<in> {IRT_NIL, IRT_FALSE, IRT_TRUE}"
    and b: "ir_o (j_ir J' REF_BASE) = IR_BASE" "ir_op1 (j_ir J' REF_BASE) = parent" "ir_op2 (j_ir J' REF_BASE) = exitno"
      "ir_prev (j_ir J' REF_BASE) = 0"
    using setup_eq [OF assms(1,5)] by blast
  have rb: "REF_BASE = REF_BIAS" by (simp add: REF_BASE_def)
  have v: "ir_valid J' q \<longleftrightarrow> REF_TRUE \<le> q \<and> q \<le> REF_BASE" for q using n(1,2) by (auto simp: ir_valid_def)
  have q: "q = REF_BASE" if "ir_valid J' q" "REF_BIAS \<le> q" for q using that v rb by simp
  have kq: "ir_o (j_ir J' q) = IR_KPRI" "\<not> w32 (ity J' q)" "\<not> w64 (ity J' q)" if "ir_valid J' q" "q < REF_BIAS" for q
    using k [of q] that v rb by (auto simp: w32_def w64_def)
  have rt: "REF_TRUE < REF_BASE" using ref_defs(1) rb by simp
  have cr: "chain_refs J' op = (if op = IR_BASE then {REF_BASE} else {})" for op
  proof -
    have "x \<in> chain_refs J' op \<longleftrightarrow> op = IR_BASE \<and> x = REF_BASE" for x
    proof (cases "x < REF_BASE")
      case True
      then show ?thesis using k [of x] n(1,2) by (auto simp: chain_refs_def)
    next
      case False
      then show ?thesis using b(1) n(1,2) rt by (cases "x = REF_BASE") (auto simp: chain_refs_def)
    qed
    then show ?thesis by auto
  qed
  have w: "irwf J'"
  proof (rule irwfI)
    show "ir_bounds J'" using n ref_defs rb rt by (simp add: ir_bounds_def REF_LIT_def REF_TRUE_def REF_DROP_def)
    show "kins_ok J' (j_ir J' q)" if "ir_valid J' q" "q < REF_BIAS" for q
      using kq [OF that] by (simp add: kins_ok_def kop_def)
    show "\<not> kop (ir_o (j_ir J' q)) \<and> ir_op1 (j_ir J' q) < q \<and> ir_op2 (j_ir J' q) < q" if "ir_valid J' q" "REF_BIAS \<le> q" for q
      using q [OF that] b assms(3,4) by (simp add: kop_def)
    show "chain_ok J' op" for op
    proof (cases "op = IR_BASE")
      case True
      have "is_chain (j_ir J') (j_chain J' op) [REF_BASE]" using True n(4) b(4) rb ref_defs by simp
      then show ?thesis using cr [of op] True unfolding chain_ok_def by (intro exI [of _ "[REF_BASE]"]) simp
    next
      case False
      then show ?thesis using cr [of op] n(4) unfolding chain_ok_def by (intro exI [of _ "[]"]) simp
    qed
    show "distinct (concat (j_k64 J'))" using assms(2) n(3) by simp
    show "x = y" if "ir_valid J' x" "ir_valid J' y" "x < REF_BIAS" "y < REF_BIAS" "same_k (j_ir J' x) (j_ir J' y)" for x y
      using kq(1) [OF that(1,3)] that(5) by (simp add: same_k_def)
  qed
  have ns: "\<not> sem_ins (j_ir J' REF_BASE)" using b(1) by (simp add: sem_ins_def opcl_def)
  have "ins_ok J' (j_ir J' REF_BASE)" using ns b(1) by (simp add: ins_ok_def opcl_def)
  then have "jwf J'" using w q unfolding jwf_def by metis
  moreover have "scev_off J'"
  proof -
    have "REF_TRUE \<le> REF_NIL" "REF_NIL < REF_BASE" by (simp_all add: REF_NIL_def REF_TRUE_def REF_BASE_def REF_BIAS_def)
    then show ?thesis using n(7) k [of REF_NIL] by (simp add: scev_off_def)
  qed
  moreover have "tr J' \<rho>" for \<rho> using q ns unfolding tr_def by metis
  ultimately show ?thesis using r by blast
qed

section \<open>A trace to evaluate\<close>

text \<open>The state before the first trace, the start of a trace, and a trace with one integer slot.\<close>

definition jit0 :: jit where
  "jit0 = \<lparr>j_ir = (\<lambda>_. ir_none), j_nk = REF_BASE, j_nins = REF_BASE, j_irbotlim = 0, j_irtoplim = 0, j_chain = (\<lambda>_. 0),
     j_k64 = [], j_fins = ir_none, j_fleft = ir_none, j_fright = ir_none, j_guardemit = False, j_opt_fold = True,
     j_opt_cse = True, j_opt_abc = True, j_opt_fwd = True, j_opt_dse = True, j_scev_idx = 0, j_scev_dir = False,
     j_scev_start = 0, j_scev_stop = 0\<rparr>"

definition ok_state :: "(jit \<times> nat) res \<Rightarrow> jit" where
  "ok_state m = (case m of Inr (J, r) \<Rightarrow> J | Inl e \<Rightarrow> jit0)"

definition trace0 :: jit where "trace0 = ok_state (record_setup_ir jit0 0 0)"


lemma trace0: "record_setup_ir jit0 0 0 = Inr (trace0, REF_BASE)" "jwf trace0" "scev_off trace0" "tr trace0 \<rho>"
proof -
  have c: "j_nins jit0 = REF_BASE" "distinct (concat (j_k64 jit0))" "0 < REF_BASE"
    "j_irbotlim jit0 = j_irtoplim jit0 \<and> j_irtoplim jit0 \<le> REF_BASE \<or> j_irbotlim jit0 \<le> REF_TRUE \<and> REF_BASE < j_irtoplim jit0"
    by (simp_all add: jit0_def REF_BASE_def REF_BIAS_def)
  obtain J' where "record_setup_ir jit0 0 0 = Inr (J', REF_BASE)" "jwf J'" "scev_off J'" "\<forall>\<rho>. tr J' \<rho>"
    using setup_wf [OF c(1,2,3,3,4)] by blast
  then show "record_setup_ir jit0 0 0 = Inr (trace0, REF_BASE)" "jwf trace0" "scev_off trace0" "tr trace0 \<rho>"
    by (simp_all add: trace0_def ok_state_def)
qed

lemma trace0_eq:
  "j_nins trace0 = 0x8001" "j_nk trace0 = 0x7ffd" "j_chain trace0 = (\<lambda>_. 0)(IR_BASE := 0x8000)" "j_irbotlim trace0 = 0x7ff8"
  "j_irtoplim trace0 = 0x8018" "j_opt_fold trace0" "j_opt_cse trace0"
  "j_ir trace0 = (\<lambda>_. ir_none)(0x8000 := ir_none\<lparr>ir_o := IR_BASE, ir_t := IRT IRT_P32\<rparr>,
     0x7fff := ir_none\<lparr>ir_t := IRT IRT_NIL, ir_o := IR_KPRI\<rparr>, 0x7ffe := ir_none\<lparr>ir_t := IRT IRT_FALSE, ir_o := IR_KPRI\<rparr>,
     0x7ffd := ir_none\<lparr>ir_t := IRT IRT_TRUE, ir_o := IR_KPRI\<rparr>)"
  by (simp_all add: trace0_def ok_state_def record_setup_ir_def lj_ir_emit_def lj_ir_nextins_def lj_ir_growtop_def Let_def
      lj_ir_set_def jit0_def REF_BASE_def REF_TRUE_def REF_NIL_def REF_BIAS_def REF_DROP_def LJ_MIN_IRSZ_def ir_none_def)




section \<open>Instructions on the demonstration trace\<close>









lemmas fold_tables = fold_table_def kfold_num_table_def kfold_int_table_def kfold_int64_table_def
  kfold_ptr_table_def kfold_conv_table_def kref_table_def shortcut_table_def num_table_def conv_num_table_def
  conv_int_table_def int_table_def intsub_table_def bit_table_def reassoc_table_def abc_table_def comm_table_def



lemma walk1: "chain_walk ir 0 P 0x10000 0 = Inr 0"
    "\<not> P r (ir r) \<Longrightarrow> r \<noteq> 0 \<Longrightarrow> ir_prev (ir r) = 0 \<Longrightarrow> chain_walk ir 0 P 0x10000 r = Inr 0"
  using chain_walk.simps(2) [of ir 0 P 65535] chain_walk.simps(2) [of ir 0 P 65534 0] by simp_all

lemma kint_added:
  assumes "ir_walk J 0 (\<lambda>_ ir. ir_i ir = k) (j_chain J IR_KINT) = Inr 0" "j_irbotlim J < j_nk J" "REF_LIT < j_nk J" "n = j_nk J - 1"
  shows "lj_ir_kint J k = Inr (J\<lparr>j_nk := n, j_ir := (j_ir J)(n := (j_ir J n)\<lparr>ir_t := IRT IRT_INT, ir_o := IR_KINT,
    ir_prev := j_chain J IR_KINT, ir_i := k\<rparr>), j_chain := (j_chain J)(IR_KINT := n)\<rparr>, n)"
  using assms by (cases J) (simp add: lj_ir_kint_def ir_internk_def ir_nextk_def ir_walk_def Let_def)


lemma trace0_kints: "\<exists>J1 J2. lj_ir_kint trace0 5 = Inr (J1, 0x7ffc) \<and> lj_ir_kint J1 6 = Inr (J2, 0x7ffb)"
  by (intro exI conjI, rule kint_added, (simp add: trace0_eq REF_LIT_def ir_walk_def walk1; fail)+,
      rule kint_added) (simp_all add: trace0_eq REF_LIT_def ir_walk_def walk1)




section \<open>Helpers\<close>




lemma kint_twice:
  assumes "irwf J" "lj_ir_kint J a = Inr (J1, r)" "lj_ir_kint J1 b = Inr (J2, s)"
  shows "r = s \<longleftrightarrow> a = b"
proof -
  have a: "k_added J J1 r" "ir_o (j_ir J1 r) = IR_KINT" "ir_i (j_ir J1 r) = a"
    using kint_ok [OF assms(1), of a] assms(2) by simp_all
  then have w: "irwf J1" "ir_valid J1 r" "r < REF_BIAS" by (simp_all add: k_added_def)
  have b: "k_added J1 J2 s" "ir_o (j_ir J2 s) = IR_KINT" "ir_i (j_ir J2 s) = b"
    using kint_ok [OF w(1), of b] assms(3) by simp_all
  then have w2: "irwf J2" "ir_valid J2 s" "s < REF_BIAS" "j_ir J2 r = j_ir J1 r" "ir_valid J2 r"
    using w(2) by (auto simp: k_added_def ir_keeps_def ir_valid_def)
  show ?thesis
  proof
    assume "a = b"
    then have "same_k (j_ir J2 r) (j_ir J2 s)" using a b w2(4) by (simp add: same_k_def)
    then show "r = s" by (rule irwfD(6) [OF w2(1,5,2) w(3) w2(3)])
  qed (use a b w2(4) in auto)
qed


section \<open>Properties of the emitter\<close>

text \<open>C32: Recording starts from a well-formed trace: \<open>lj_record_setup\<close> places the constants nil, false and true
  and the base instruction whatever the buffer of the previous trace is, all the invariants of the
  optimizer hold and there is no guard yet.\<close>

theorem record_setup_wf:
  assumes "j_nins J = REF_BASE" "distinct (concat (j_k64 J))" "parent < REF_BASE" "exitno < REF_BASE"
    "j_irbotlim J = j_irtoplim J \<and> j_irtoplim J \<le> REF_BASE \<or> j_irbotlim J \<le> REF_TRUE \<and> REF_BASE < j_irtoplim J"
  shows "\<exists>J'. record_setup_ir J parent exitno = Inr (J', REF_BASE) \<and> jwf J' \<and> scev_off J' \<and> (\<forall>\<rho>. tr J' \<rho>)"
  by (rule setup_wf [OF assms])

lemma record_setup_wf_witness: "\<exists>J'. record_setup_ir jit0 0 0 = Inr (J', REF_BASE) \<and> jwf J' \<and> scev_off J' \<and> (\<forall>\<rho>. tr J' \<rho>)"
  by (rule record_setup_wf) (simp_all add: jit0_def REF_BASE_def REF_BIAS_def)

text \<open>C33: Interning: two 32-bit constants get the same reference exactly when they are equal, whatever was
  interned before.\<close>

theorem kint_interned:
  assumes "irwf J" "lj_ir_kint J a = Inr (J1, r)" "lj_ir_kint J1 b = Inr (J2, s)"
  shows "r = s \<longleftrightarrow> a = b"
  by (rule kint_twice [OF assms])

lemma kint_interned_witness: "\<exists>J1 J2. lj_ir_kint trace0 5 = Inr (J1, 0x7ffc) \<and> lj_ir_kint J1 6 = Inr (J2, 0x7ffb) \<and>
    ((0x7ffc :: nat) = 0x7ffb \<longleftrightarrow> (5 :: u32) = 6)"
  using trace0_kints kint_interned [OF jwfD(1) [OF trace0(2)], of 5 _ "0x7ffc" 6 _ "0x7ffb"] by blast



section \<open>Properties of FOLD\<close>











section \<open>Arithmetic\<close>

lemma sdiv_one: "2 \<le> \<bar>y :: int\<bar> \<Longrightarrow> 1 sdiv y = 0"
  by (simp add: signed_divide_int_def)

lemma sint_minus_one_pow: "sint ((- 1 :: u64) ^ n) = (- 1) ^ n"
  by (cases "even n") simp_all

lemma sint_pm1: "sint (x :: u64) = 1 \<Longrightarrow> x = 1" "sint (x :: u64) = - 1 \<Longrightarrow> x = - 1" "sint (x :: u64) = 0 \<Longrightarrow> x = 0"
proof -
  have e: "x = of_int (sint x)" by simp
  show "sint x = 1 \<Longrightarrow> x = 1" "sint x = - 1 \<Longrightarrow> x = - 1" "sint x = 0 \<Longrightarrow> x = 0" by (subst e, simp)+
qed

lemma powi64_neg:
  assumes "k <s 0" "x \<noteq> 0"
  shows "sint (lj_carith_powi64 x k) = 1 sdiv sint x ^ nat (- sint k)"
proof -
  have n: "0 < nat (- sint k)" using assms(1) by (simp add: word_sless_alt)
  have k0: "k \<noteq> 0" using assms(1) by auto
  have ev: "k AND 1 = 0 \<longleftrightarrow> even (nat (- sint k))"
    using even_iff_and [of k] assms(1) uint_of_sint [of k] sint64_range(1) [of k] by (simp add: word_sless_alt even_nat_iff unat_eq_nat_uint)
  consider "x = 1" | "x = - 1" | "x \<noteq> 1" "x \<noteq> - 1" by blast
  then show ?thesis
  proof cases
    case 1
    then show ?thesis using assms k0 by (simp add: lj_carith_powi64_def signed_divide_int_def)
  next
    case 2
    then show ?thesis using assms k0 ev
      by (cases "even (nat (- sint k))") (simp_all add: lj_carith_powi64_def signed_divide_int_def)
  next
    case 3
    then have "2 \<le> \<bar>sint x\<bar>" using sint_pm1 [of x] assms(2) by linarith
    then have "2 \<le> \<bar>sint x\<bar> ^ nat (- sint k)" using n self_le_power [of "\<bar>sint x\<bar>" "nat (- sint k)"] by linarith
    then show ?thesis using 3 assms k0 sdiv_one [of "sint x ^ nat (- sint k)"]
      by (simp add: lj_carith_powi64_def power_abs)
  qed
qed

text \<open>C35: The 64-bit power of the FFI is the power of its operands: repeated squaring computes \<open>x ^ k\<close> modulo
  \<open>2 ^ 64\<close>, a negative exponent gives the reciprocal rounded towards zero, and zero to a negative power the
  largest integer.\<close>

theorem carith_pow:
  "lj_carith_powu64 x k = x ^ unat k \<and>
   lj_carith_powi64 x k = (if \<not> k <s 0 then x ^ unat k else if x = 0 then 0x7fffffffffffffff
     else of_int (1 sdiv sint x ^ nat (- sint k)))"
proof (intro conjI)
  show p: "lj_carith_powu64 x k = x ^ unat k" by (rule powu64_eq)
  show "lj_carith_powi64 x k = (if \<not> k <s 0 then x ^ unat k else if x = 0 then 0x7fffffffffffffff
     else of_int (1 sdiv sint x ^ nat (- sint k)))"
  proof (cases "k <s 0 \<and> x \<noteq> 0")
    case True
    then have "of_int (sint (lj_carith_powi64 x k)) = (of_int (1 sdiv sint x ^ nat (- sint k)) :: u64)"
      using powi64_neg by simp
    then show ?thesis using True by simp
  next
    case False
    then show ?thesis by (auto simp: lj_carith_powi64_def p)
  qed
qed

text \<open>C36: Division and modulo are those of the language: the 32-bit modulo is floored, the signed 64-bit quotient
  and remainder truncate, quotient and remainder belong together, and the two operands whose quotient overflows
  wrap around.\<close>

theorem carith_division:
  assumes "b \<noteq> 0" "d \<noteq> 0"
  shows "lj_vm_modi c d = Inr (of_int (sint c mod sint d)) \<and>
    lj_carith_divi64 a b = (if a = 0x8000000000000000 \<and> b = - 1 then a else of_int (sint a sdiv sint b)) \<and>
    lj_carith_divi64 a b * b + lj_carith_modi64 a b = a \<and> lj_carith_divu64 a b * b + lj_carith_modu64 a b = a \<and>
    (\<not> (a = 0x8000000000000000 \<and> b = - 1) \<longrightarrow> sint (lj_carith_divi64 a b) = sint a sdiv sint b \<and>
       sint (lj_carith_modi64 a b) = sint a smod sint b)"
  using modi_floor [OF assms(2)] div_mod_64 [OF assms(1)] divi64_trunc [OF assms(1)] assms(1)
  by (auto simp: lj_carith_divi64_def)

lemma carith_division_witness:
  "lj_vm_modi (- 7) 3 = Inr (of_int (sint (- 7 :: u32) mod sint (3 :: u32))) \<and>
   sint (lj_carith_divi64 (- 7) 2) = sint (- 7 :: u64) sdiv sint (2 :: u64)"
proof -
  have "\<not> ((- 7 :: u64) = 0x8000000000000000 \<and> (2 :: u64) = - 1)" by simp
  then show ?thesis using carith_division [of 2 3 "- 7" "- 7"] by simp
qed

section \<open>Rules with a wrong result\<close>

text \<open>The signed order of two 64-bit constants is decided on the unsigned values: \<open>- 1 < 0\<close> fails.\<close>

lemma int64comp_ignores_sign:
  assumes "fo J = IR_LT" "kleft64 J = - 1" "kright64 J = 0"
  shows "kfold_int64comp ff J = Inr (J, FAILFOLD)" "cmpval IR_LT (kleft64 J) (kright64 J)"
  using assms by (simp_all add: kfold_int64comp_def CONDFOLD_def)

text \<open>The quotient of two negated operands is that of the operands only for numbers and signed integers, but
  the rule applies to unsigned 64-bit division, too.\<close>

lemma div_negneg_unsigned:
  "fold_lookup fp others (IR_DIV, LOp IR_NEG, ROp IR_NEG) = Some simplify_nummuldiv_negneg"
  "simplify_nummuldiv_negneg ff (set_t t J) = rbind (simplify_nummuldiv_negneg ff J) (\<lambda>(J, r). Inr (set_t t J, r))"
  "lj_carith_divu64 (- 4) (- 2) = 0" "lj_carith_divu64 4 2 = 2"
  by (simp_all add: fold_lookup_def fold_tables lj_carith_divu64_def simplify_nummuldiv_negneg_def fold_ret_def set_t_def set_op1_def set_op2_def)

text \<open>The search for a common subexpression compares the operands, not the type: a signed and an unsigned
  64-bit division of the same operands are the same instruction.\<close>

lemma cse_ignores_type:
  assumes "j_opt_cse J" "ir_walk J (max (fop1 J) (fop2 J)) (\<lambda>_ ir. same_op12 ir (j_fins J)) (j_chain J (fo J)) = Inr r" "r \<noteq> 0"
  shows "lj_opt_cse (set_t t J) = Inr (set_t t J, r)" "lj_carith_divi64 (- 7) 2 \<noteq> lj_carith_divu64 (- 7) 2"
  using assms by (simp_all add: lj_opt_cse_def set_t_def ir_walk_def same_op12_def lj_carith_divi64_def lj_carith_divu64_def signed_divide_int_def)

end
