(* ===== verification/LJ_OptDce.thy ===== *)
theory LJ_OptDce
  imports LJ_FoldProps
begin

text \<open>
  Dead-code elimination (\<^verbatim>\<open>lj_opt_dce.c\<close>).  The mark bit of the types is a predicate on
  references; the array of pointers into the opcode chains holds for each opcode the
  instruction whose link is pointed to, or none for the head of the chain.
\<close>

section \<open>Definitions\<close>

definition REF_FIRST :: nat where "REF_FIRST = REF_BIAS + 1"

text \<open>Instructions whose guard may be dropped when the result is not used.\<close>

definition irm_weak :: "irop \<Rightarrow> bool" where
  "irm_weak op \<longleftrightarrow> op \<in> {IR_ADDOV, IR_SUBOV, IR_MULOV, IR_UREFO, IR_UREFC, IR_TNEW, IR_TDUP, IR_CNEW, IR_CNEWI, IR_CONV}"

definition ir_sideeff :: "irins \<Rightarrow> bool" where
  "ir_sideeff ir \<longleftrightarrow> irt_guard (ir_t ir) \<and> \<not> irm_weak (ir_o ir) \<or> irm_kind (ir_o ir) = IRM_S"

record snapshot =
  sn_mapofs :: nat
  sn_nent :: nat

definition snap_ref :: "u32 \<Rightarrow> nat" where "snap_ref sn = unat (sn AND 0xffff)"

definition marksnap_entry :: "u32 \<Rightarrow> (nat \<Rightarrow> bool) \<Rightarrow> nat \<Rightarrow> bool" where
  "marksnap_entry sn mk = (let ref = snap_ref sn in if REF_FIRST \<le> ref then mk(ref := True) else mk)"

definition dce_marksnap :: "snapshot list \<Rightarrow> u32 list \<Rightarrow> (nat \<Rightarrow> bool) \<Rightarrow> nat \<Rightarrow> bool" where
  "dce_marksnap snaps snapmap mk =
     List.fold (\<lambda>s. List.fold marksnap_entry (take (sn_nent s) (drop (sn_mapofs s) snapmap))) snaps mk"

definition dce_markop :: "nat \<Rightarrow> (nat \<Rightarrow> bool) \<Rightarrow> nat \<Rightarrow> bool" where
  "dce_markop ref mk = (if REF_FIRST \<le> ref then mk(ref := True) else mk)"

text \<open>Store through a pointer into a chain.\<close>

definition dce_reroute :: "jit \<Rightarrow> irop \<Rightarrow> nat option \<Rightarrow> nat \<Rightarrow> jit" where
  "dce_reroute J op p v =
     (case p of None \<Rightarrow> J\<lparr>j_chain := (j_chain J)(op := v)\<rparr>
      | Some q \<Rightarrow> J\<lparr>j_ir := (j_ir J)(q := (j_ir J q)\<lparr>ir_prev := v\<rparr>)\<rparr>)"

definition dce_nop :: "irins \<Rightarrow> irins" where
  "dce_nop ir = ir\<lparr>ir_t := IRT IRT_NIL, ir_o := IR_NOP, ir_op1 := 0, ir_op2 := 0, ir_prev := 0\<rparr>"

type_synonym dce = "jit \<times> (nat \<Rightarrow> bool) \<times> (irop \<Rightarrow> nat option)"

definition dce_step :: "nat \<Rightarrow> dce \<Rightarrow> dce" where
  "dce_step ins D =
     (case D of (J, mk, pchain) \<Rightarrow>
        let ir = j_ir J ins;
            keep = (\<lambda>mk pchain. (J, dce_markop (ir_op2 ir) (dce_markop (ir_op1 ir) mk), pchain))
        in if mk ins then keep (mk(ins := False)) (pchain(ir_o ir := Some ins))
           else if \<not> ir_sideeff ir then
             (let J = dce_reroute J (ir_o ir) (pchain (ir_o ir)) (ir_prev ir)
              in (J\<lparr>j_ir := (j_ir J)(ins := dce_nop (j_ir J ins))\<rparr>, mk, pchain))
           else keep mk pchain)"

text \<open>The loop from the last instruction down to the first.\<close>

primrec dce_loop :: "nat \<Rightarrow> dce \<Rightarrow> dce" where
  "dce_loop 0 D = D"
| "dce_loop (Suc n) D = dce_loop n (dce_step (REF_FIRST + n) D)"

definition dce_propagate :: "jit \<Rightarrow> (nat \<Rightarrow> bool) \<Rightarrow> jit \<times> (nat \<Rightarrow> bool)" where
  "dce_propagate J mk = (case dce_loop (j_nins J - REF_FIRST) (J, mk, \<lambda>_. None) of (J, mk, pchain) \<Rightarrow> (J, mk))"

definition lj_opt_dce :: "bool \<Rightarrow> snapshot list \<Rightarrow> u32 list \<Rightarrow> jit \<Rightarrow> (nat \<Rightarrow> bool) \<Rightarrow> jit \<times> (nat \<Rightarrow> bool)" where
  "lj_opt_dce flag snaps snapmap J mk =
     (if flag then dce_propagate J (dce_marksnap snaps snapmap mk) else (J, mk))"

section \<open>The instructions that stay\<close>

text \<open>The same instruction, at another place of its chain.\<close>

definition relink :: "irins \<Rightarrow> irins \<Rightarrow> bool" where
  "relink i i' \<longleftrightarrow> i' = i\<lparr>ir_prev := ir_prev i'\<rparr>"


text \<open>The state of the loop before the instructions below \<open>b\<close>: \<open>K\<close> are the instructions kept so far.\<close>

definition dce_inv :: "jit \<Rightarrow> (nat \<Rightarrow> bool) \<Rightarrow> nat \<Rightarrow> nat set \<Rightarrow> jit \<Rightarrow> (nat \<Rightarrow> bool) \<Rightarrow> bool" where
  "dce_inv J0 mk0 b K J mk \<longleftrightarrow>
     K \<subseteq> {b ..< j_nins J0} \<and>
     (\<exists>I C. J = J0\<lparr>j_ir := I, j_chain := C\<rparr>) \<and>
     (\<forall>r. r < b \<or> j_nins J0 \<le> r \<longrightarrow> j_ir J r = j_ir J0 r) \<and>
     (\<forall>r \<in> K. relink (j_ir J0 r) (j_ir J r)) \<and>
     (\<forall>r. b \<le> r \<and> r < j_nins J0 \<and> r \<notin> K \<longrightarrow> \<not> ir_sideeff (j_ir J0 r) \<and> j_ir J r = dce_nop (j_ir J0 r)) \<and>
     (\<forall>r. r < b \<and> mk0 r \<longrightarrow> mk r) \<and> (\<forall>r. b \<le> r \<and> r < j_nins J0 \<longrightarrow> \<not> mk r) \<and>
     (\<forall>r. b \<le> r \<and> r < j_nins J0 \<and> mk0 r \<longrightarrow> r \<in> K) \<and>
     (\<forall>r \<in> K. \<forall>p \<in> {ir_op1 (j_ir J0 r), ir_op2 (j_ir J0 r)}. REF_FIRST \<le> p \<longrightarrow> p \<in> K \<or> p < b \<and> mk p)"

definition dce_chain :: "jit \<Rightarrow> nat \<Rightarrow> nat set \<Rightarrow> jit \<Rightarrow> (irop \<Rightarrow> nat option) \<Rightarrow> irop \<Rightarrow> bool" where
  "dce_chain J0 b K J pchain op \<longleftrightarrow>
     (\<exists>A B zs. is_chain (j_ir J) (j_chain J op) (A @ B @ zs) \<and> set zs = {r \<in> chain_refs J0 op. r < b} \<and>
        set (A @ B) \<subseteq> K \<inter> chain_refs J0 op \<and> sorted_wrt (>) (A @ B @ zs) \<and>
        (case pchain op of None \<Rightarrow> A = [] | Some q \<Rightarrow> A \<noteq> [] \<and> last A = q))"

text \<open>Redirecting the link of the last element of a part of the chain.\<close>

lemma is_chain_cut:
  assumes "is_chain ir r (A @ B @ z # zs)" "distinct (A @ B @ z # zs)" "A \<noteq> []"
    "\<And>x. x \<in> set (A @ zs) \<Longrightarrow> ir_prev (ir' x) = (if x = last A then ir_prev (ir z) else ir_prev (ir x))"
  shows "is_chain ir' r (A @ zs)"
  using assms
proof (induction A arbitrary: r)
  case (Cons a A)
  show ?case
  proof (cases "A = []")
    case True
    have tail: "is_chain ir (ir_prev (ir z)) zs" if "is_chain ir q (B @ z # zs)" for q
      using that by (induction B arbitrary: q) auto
    have "is_chain ir' (ir_prev (ir z)) zs"
      by (rule is_chain_cong [OF tail]) (use Cons.prems True in auto)
    then show ?thesis using Cons.prems True by simp
  next
    case False
    then have n: "a \<noteq> last A" using Cons.prems(2) by auto
    have "is_chain ir' (ir_prev (ir a)) (A @ zs)"
      by (rule Cons.IH) (use Cons.prems False in auto)
    then show ?thesis using Cons.prems(1,4) n False by simp
  qed
qed simp

lemma is_chain_tail: "is_chain ir q (B @ z # zs) \<Longrightarrow> is_chain ir (ir_prev (ir z)) zs"
  by (induction B arbitrary: q) auto

lemma sorted_dist: "sorted_wrt (>) (xs :: nat list) \<Longrightarrow> distinct xs"
  by (metis distinct_rev sorted_wrt_rev strict_sorted_iff)

lemma markop_simps: "dce_markop q mk r \<longleftrightarrow> mk r \<or> r = q \<and> REF_FIRST \<le> q"
  by (simp add: dce_markop_def)

lemma keep_inv:
  assumes "dce_inv J0 mk0 (Suc p) K J mk" "p < j_nins J0" "ir_op1 (j_ir J0 p) < p" "ir_op2 (j_ir J0 p) < p"
  shows "dce_inv J0 mk0 p (insert p K) J (dce_markop (ir_op2 (j_ir J0 p)) (dce_markop (ir_op1 (j_ir J0 p)) (mk(p := False))))"
proof -
  note d = assms(1) [unfolded dce_inv_def]
  have e: "j_ir J p = j_ir J0 p" using d by simp
  have r: "relink (j_ir J0 p) (j_ir J p)" by (simp add: e relink_def)
  show ?thesis unfolding dce_inv_def
  proof (intro conjI)
    show "insert p K \<subseteq> {p..<j_nins J0}" using d assms(2) by auto
    show "\<exists>I C. J = J0\<lparr>j_ir := I, j_chain := C\<rparr>" using d by blast
    show "\<forall>r. r < p \<or> j_nins J0 \<le> r \<longrightarrow> j_ir J r = j_ir J0 r" using d by simp
    show "\<forall>r\<in>insert p K. relink (j_ir J0 r) (j_ir J r)" using d r by blast
    show "\<forall>r. p \<le> r \<and> r < j_nins J0 \<and> r \<notin> insert p K \<longrightarrow> \<not> ir_sideeff (j_ir J0 r) \<and> j_ir J r = dce_nop (j_ir J0 r)"
      using d by (metis Suc_leI insertCI le_neq_implies_less)
    show "\<forall>r. r < p \<and> mk0 r \<longrightarrow> dce_markop (ir_op2 (j_ir J0 p)) (dce_markop (ir_op1 (j_ir J0 p)) (mk(p := False))) r"
      using d by (simp add: markop_simps)
    show "\<forall>r. p \<le> r \<and> r < j_nins J0 \<longrightarrow> \<not> dce_markop (ir_op2 (j_ir J0 p)) (dce_markop (ir_op1 (j_ir J0 p)) (mk(p := False))) r"
      using d assms(3,4) by (auto simp: markop_simps)
    show "\<forall>r. p \<le> r \<and> r < j_nins J0 \<and> mk0 r \<longrightarrow> r \<in> insert p K"
      using d by (metis Suc_leI insertCI le_neq_implies_less)
    show "\<forall>r\<in>insert p K. \<forall>q\<in>{ir_op1 (j_ir J0 r), ir_op2 (j_ir J0 r)}. REF_FIRST \<le> q \<longrightarrow>
        q \<in> insert p K \<or> q < p \<and> dce_markop (ir_op2 (j_ir J0 p)) (dce_markop (ir_op1 (j_ir J0 p)) (mk(p := False))) q"
    proof (intro ballI impI)
      fix r q assume r: "r \<in> insert p K" and q: "q \<in> {ir_op1 (j_ir J0 r), ir_op2 (j_ir J0 r)}" "REF_FIRST \<le> q"
      show "q \<in> insert p K \<or> q < p \<and> dce_markop (ir_op2 (j_ir J0 p)) (dce_markop (ir_op1 (j_ir J0 p)) (mk(p := False))) q"
      proof (cases "r = p")
        case True
        then show ?thesis using q assms(3,4) by (auto simp: markop_simps)
      next
        case False
        then have "q \<in> K \<or> q < Suc p \<and> mk q" using d r q by blast
        then show ?thesis by (auto simp: markop_simps)
      qed
    qed
  qed
qed

lemma reroute_sel:
  "j_ir (dce_reroute J op pc v) r = (if pc = Some r then (j_ir J r)\<lparr>ir_prev := v\<rparr> else j_ir J r)"
  "j_chain (dce_reroute J op pc v) = (if pc = None then (j_chain J)(op := v) else j_chain J)"
  by (auto simp: dce_reroute_def split: option.splits)

lemma reroute_eq: "J = J0\<lparr>j_ir := I, j_chain := C\<rparr> \<Longrightarrow> \<exists>I' C'. dce_reroute J op pc v = J0\<lparr>j_ir := I', j_chain := C'\<rparr>"
proof (cases pc)
  case (Some q)
  then show "J = J0\<lparr>j_ir := I, j_chain := C\<rparr> \<Longrightarrow> \<exists>I' C'. dce_reroute J op pc v = J0\<lparr>j_ir := I', j_chain := C'\<rparr>"
    by (intro exI [of _ "I(q := (I q)\<lparr>ir_prev := v\<rparr>)"] exI [of _ C]) (simp add: dce_reroute_def)
next
  case None
  then show "J = J0\<lparr>j_ir := I, j_chain := C\<rparr> \<Longrightarrow> \<exists>I' C'. dce_reroute J op pc v = J0\<lparr>j_ir := I', j_chain := C'\<rparr>"
    by (intro exI [of _ I] exI [of _ "C(op := v)"]) (simp add: dce_reroute_def)
qed

lemma drop_inv:
  assumes "dce_inv J0 mk0 (Suc p) K J mk" "p < j_nins J0" "\<not> mk p" "\<not> ir_sideeff (j_ir J0 p)" "\<And>q. pc = Some q \<Longrightarrow> q \<in> K"
    "J1 = dce_reroute J op pc v" "J' = J1\<lparr>j_ir := (j_ir J1)(p := dce_nop (j_ir J1 p))\<rparr>"
  shows "dce_inv J0 mk0 p K J' mk"
proof -
  note d = assms(1) [unfolded dce_inv_def]
  have e: "j_ir J p = j_ir J0 p" using d by simp
  have pK: "p \<notin> K" using d by auto
  have ir: "j_ir J' r = (if r = p then dce_nop (j_ir J0 p) else if pc = Some r then (j_ir J r)\<lparr>ir_prev := v\<rparr> else j_ir J r)" for r
    using assms(5) pK e by (auto simp: assms(6,7) reroute_sel)
  have K: "Suc p \<le> r \<and> r < j_nins J0" if "pc = Some r" for r using assms(5) [OF that] d by auto
  show ?thesis unfolding dce_inv_def
  proof (intro conjI)
    show "K \<subseteq> {p..<j_nins J0}" using d by auto
    obtain I C where "J = J0\<lparr>j_ir := I, j_chain := C\<rparr>" using d by blast
    then obtain I' C' where "J1 = J0\<lparr>j_ir := I', j_chain := C'\<rparr>" using reroute_eq assms(6) by blast
    then show "\<exists>I C. J' = J0\<lparr>j_ir := I, j_chain := C\<rparr>" unfolding assms(7)
      by (intro exI [of _ "I'(p := dce_nop (I' p))"] exI [of _ C']) simp
    show "\<forall>r. r < p \<or> j_nins J0 \<le> r \<longrightarrow> j_ir J' r = j_ir J0 r" using d K assms(2) by (auto simp: ir)
    show "\<forall>r\<in>K. relink (j_ir J0 r) (j_ir J' r)"
    proof
      fix r assume r: "r \<in> K"
      then have "relink (j_ir J0 r) (j_ir J r)" using d by blast
      then show "relink (j_ir J0 r) (j_ir J' r)" using pK r by (cases "j_ir J0 r"; cases "j_ir J r") (auto simp: ir relink_def)
    qed
    show "\<forall>r. p \<le> r \<and> r < j_nins J0 \<and> r \<notin> K \<longrightarrow> \<not> ir_sideeff (j_ir J0 r) \<and> j_ir J' r = dce_nop (j_ir J0 r)"
    proof (intro allI impI)
      fix r assume r: "p \<le> r \<and> r < j_nins J0 \<and> r \<notin> K"
      show "\<not> ir_sideeff (j_ir J0 r) \<and> j_ir J' r = dce_nop (j_ir J0 r)"
      proof (cases "r = p")
        case False
        then have "Suc p \<le> r" using r by simp
        then show ?thesis using d r False assms(5) by (auto simp: ir)
      qed (use assms(4) ir in simp)
    qed
    show "\<forall>r. r < p \<and> mk0 r \<longrightarrow> mk r" using d by simp
    show "\<forall>r. p \<le> r \<and> r < j_nins J0 \<longrightarrow> \<not> mk r" using d assms(3) by (metis Suc_leI le_neq_implies_less)
    have "\<not> mk0 p" using d assms(3) by blast
    then show "\<forall>r. p \<le> r \<and> r < j_nins J0 \<and> mk0 r \<longrightarrow> r \<in> K" using d by (metis Suc_leI le_neq_implies_less)
    show "\<forall>r\<in>K. \<forall>q\<in>{ir_op1 (j_ir J0 r), ir_op2 (j_ir J0 r)}. REF_FIRST \<le> q \<longrightarrow> q \<in> K \<or> q < p \<and> mk q"
      using d assms(3) less_Suc_eq by metis
  qed
qed

section \<open>Chains\<close>

lemma keep_chain:
  assumes "dce_chain J0 (Suc p) K J pc op" "p \<in> chain_refs J0 (ir_o (j_ir J0 p))"
    "pc' = pc \<or> pc' = pc(ir_o (j_ir J0 p) := Some p)"
  shows "dce_chain J0 p (insert p K) J pc' op"
proof -
  obtain A B zs where c: "is_chain (j_ir J) (j_chain J op) (A @ B @ zs)" "set zs = {r \<in> chain_refs J0 op. r < Suc p}"
    "set (A @ B) \<subseteq> K \<inter> chain_refs J0 op" "sorted_wrt (>) (A @ B @ zs)"
    "case pc op of None \<Rightarrow> A = [] | Some q \<Rightarrow> A \<noteq> [] \<and> last A = q"
    using assms(1) unfolding dce_chain_def by blast
  show ?thesis
  proof (cases "op = ir_o (j_ir J0 p)")
    case False
    then have "p \<notin> chain_refs J0 op" by (auto simp: chain_refs_def)
    then have "{r \<in> chain_refs J0 op. r < Suc p} = {r \<in> chain_refs J0 op. r < p}" by (auto simp: less_Suc_eq)
    then have z: "set zs = {r \<in> chain_refs J0 op. r < p}" using c(2) by simp
    have q: "pc' op = pc op" using assms(3) False by auto
    have "set (A @ B) \<subseteq> insert p K \<inter> chain_refs J0 op" using c(3) by blast
    then show ?thesis unfolding dce_chain_def q using c(1,4,5) z by blast
  next
    case True
    have "p \<in> set zs" using c(2) assms(2) True by simp
    then obtain z zs' where zs: "zs = z # zs'" by (cases zs) auto
    have srt: "sorted_wrt (>) zs" using c(4) by (simp add: sorted_wrt_append)
    have "z = p"
    proof (rule ccontr)
      assume "z \<noteq> p"
      then have "p \<in> set zs'" using \<open>p \<in> set zs\<close> zs by simp
      then have "p < z" using srt zs by simp
      moreover have "z < Suc p" using c(2) zs by auto
      ultimately show False by simp
    qed
    then have s: "set zs' = {r \<in> chain_refs J0 op. r < p}" using c(2) srt unfolding zs by (auto simp: less_Suc_eq)
    have pr: "p \<in> chain_refs J0 op" using assms(2) True by simp
    have l: "A @ B @ zs = A @ (B @ [p]) @ zs'" "A @ B @ zs = (A @ B @ [p]) @ [] @ zs'" unfolding zs \<open>z = p\<close> by simp_all
    have sub: "set (A @ (B @ [p])) \<subseteq> insert p K \<inter> chain_refs J0 op" "set ((A @ B @ [p]) @ []) \<subseteq> insert p K \<inter> chain_refs J0 op"
      using c(3) pr by auto
    show ?thesis
    proof (cases "pc' op = pc op")
      case True
      show ?thesis unfolding dce_chain_def True using c(1,4,5) s sub(1) unfolding l(1) by blast
    next
      case False
      then have q: "pc' op = Some p" using assms(3) True by auto
      have "case pc' op of None \<Rightarrow> A @ B @ [p] = [] | Some q \<Rightarrow> A @ B @ [p] \<noteq> [] \<and> last (A @ B @ [p]) = q" by (simp add: q)
      then show ?thesis unfolding dce_chain_def using c(1,4) s sub(2) unfolding l(2) by blast
    qed
  qed
qed

lemma drop_chain:
  assumes "dce_chain J0 (Suc p) K J pc op" "dce_chain J0 (Suc p) K J pc op'" "op' = ir_o (j_ir J0 p)" "p \<in> chain_refs J0 op'"
    "j_ir J p = j_ir J0 p" "p \<notin> K"
    "J1 = dce_reroute J op' (pc op') (ir_prev (j_ir J p))" "J' = J1\<lparr>j_ir := (j_ir J1)(p := i)\<rparr>"
  shows "dce_chain J0 p K J' pc op"
proof -
  obtain A B zs where c: "is_chain (j_ir J) (j_chain J op) (A @ B @ zs)" "set zs = {r \<in> chain_refs J0 op. r < Suc p}"
    "set (A @ B) \<subseteq> K \<inter> chain_refs J0 op" "sorted_wrt (>) (A @ B @ zs)"
    "case pc op of None \<Rightarrow> A = [] | Some q \<Rightarrow> A \<noteq> [] \<and> last A = q"
    using assms(1) unfolding dce_chain_def by blast
  have q: "q \<in> chain_refs J0 op'" if "pc op' = Some q" for q
    using assms(2) that unfolding dce_chain_def by (force dest: last_in_set)
  have ir: "ir_prev (j_ir J' r) = (if pc op' = Some r then ir_prev (j_ir J p) else ir_prev (j_ir J r))" if "r \<noteq> p" for r
    using that by (simp add: assms(7,8) reroute_sel)
  have ch: "j_chain J' = (if pc op' = None then (j_chain J)(op' := ir_prev (j_ir J p)) else j_chain J)"
    by (simp add: assms(7,8) reroute_sel)
  show ?thesis
  proof (cases "op = op'")
    case False
    then have np: "p \<notin> chain_refs J0 op" and nq: "pc op' = Some r \<Longrightarrow> r \<notin> chain_refs J0 op" for r
      using assms(3) q by (auto simp: chain_refs_def)
    have z: "set zs = {r \<in> chain_refs J0 op. r < p}" using np c(2) by (auto simp: less_Suc_eq)
    have "is_chain (j_ir J') (j_chain J' op) (A @ B @ zs)"
    proof -
      have "is_chain (j_ir J') (j_chain J op) (A @ B @ zs)"
        by (rule is_chain_cong [OF c(1)]) (use np nq c(2,3) ir in force)
      then show ?thesis using False ch by simp
    qed
    then show ?thesis unfolding dce_chain_def using z c(3-5) by blast
  next
    case True
    have "p \<in> set zs" using c(2) assms(4) True by simp
    then obtain z zs' where zs: "zs = z # zs'" by (cases zs) auto
    have srt: "sorted_wrt (>) zs" using c(4) by (simp add: sorted_wrt_append)
    have zp: "z = p"
    proof (rule ccontr)
      assume "z \<noteq> p"
      then have "p \<in> set zs'" using \<open>p \<in> set zs\<close> zs by simp
      then have "p < z" using srt zs by simp
      moreover have "z < Suc p" using c(2) zs by auto
      ultimately show False by simp
    qed
    then have s: "set zs' = {r \<in> chain_refs J0 op. r < p}" using c(2) srt unfolding zs by (auto simp: less_Suc_eq)
    have dist: "distinct (A @ B @ p # zs')" using sorted_dist [OF c(4)] unfolding zs zp .
    have c1: "is_chain (j_ir J) (j_chain J op) (A @ B @ p # zs')" using c(1) unfolding zs zp .
    have "is_chain (j_ir J') (j_chain J' op) (A @ zs')"
    proof (cases "pc op'")
      case None
      then have A: "A = []" using c(5) True by simp
      have "is_chain (j_ir J) (ir_prev (j_ir J p)) zs'" using is_chain_tail c1 A by fastforce
      then have "is_chain (j_ir J') (ir_prev (j_ir J p)) zs'"
        by (rule is_chain_cong) (use dist ir None in force)
      then show ?thesis using A ch None True by simp
    next
      case (Some w)
      then have A: "A \<noteq> []" "last A = w" using c(5) True by simp_all
      have "is_chain (j_ir J') (j_chain J op) (A @ zs')"
        by (rule is_chain_cut [OF c1 dist A(1)]) (use dist ir Some A in force)
      then show ?thesis using ch Some by simp
    qed
    moreover have "sorted_wrt (>) (A @ [] @ zs')" using c(4) unfolding zs by (auto simp: sorted_wrt_append)
    ultimately show ?thesis unfolding dce_chain_def using s c(3,5)
      by (intro exI [of _ A] exI [of _ "[]"] exI [of _ zs']) auto
  qed
qed

section \<open>The loop\<close>

lemma dce_step_ok:
  assumes wf: "irwf J0" and p: "p < j_nins J0" "REF_FIRST \<le> p" and i: "dce_inv J0 mk0 (Suc p) K J mk"
    and c: "\<And>op. \<not> kop op \<Longrightarrow> dce_chain J0 (Suc p) K J pc op"
    and st: "dce_step p (J, mk, pc) = (J', mk', pc')"
  shows "\<exists>K'. dce_inv J0 mk0 p K' J' mk' \<and> (\<forall>op. \<not> kop op \<longrightarrow> dce_chain J0 p K' J' pc' op)"
proof -
  have v: "ir_valid J0 p" "REF_BIAS \<le> p"
    using p irwfD(1) [OF wf] ref_defs(1) by (simp_all add: ir_valid_def REF_FIRST_def ir_bounds_def)
  have o: "\<not> kop (ir_o (j_ir J0 p))" "ir_op1 (j_ir J0 p) < p" "ir_op2 (j_ir J0 p) < p"
    using irwfD(3) [OF wf v] by simp_all
  have e: "j_ir J p = j_ir J0 p" "p \<notin> K" using i by (auto simp: dce_inv_def)
  have r: "p \<in> chain_refs J0 (ir_o (j_ir J0 p))" using v(1) o(1) by (auto simp: chain_refs_def ir_valid_def kop_def)
  show ?thesis
  proof (cases "mk p \<or> ir_sideeff (j_ir J0 p)")
    case True
    have m: "\<not> mk p \<Longrightarrow> mk(p := False) = mk" by (simp add: fun_upd_idem)
    have "J' = J" "mk' = dce_markop (ir_op2 (j_ir J0 p)) (dce_markop (ir_op1 (j_ir J0 p)) (mk(p := False)))"
      "pc' = pc \<or> pc' = pc(ir_o (j_ir J0 p) := Some p)"
      using st True m by (auto simp: dce_step_def e Let_def split: if_splits)
    then show ?thesis using keep_inv [OF i p(1) o(2,3)] keep_chain [OF c r] by metis
  next
    case False
    define J1 where "J1 = dce_reroute J (ir_o (j_ir J0 p)) (pc (ir_o (j_ir J0 p))) (ir_prev (j_ir J p))"
    have s: "J' = J1\<lparr>j_ir := (j_ir J1)(p := dce_nop (j_ir J1 p))\<rparr>" "mk' = mk" "pc' = pc"
      using st False by (auto simp: dce_step_def e Let_def J1_def)
    have q: "q \<in> K" if "pc (ir_o (j_ir J0 p)) = Some q" for q
      using c [OF o(1)] that unfolding dce_chain_def by (force dest: last_in_set)
    have "dce_inv J0 mk0 p K J' mk" by (rule drop_inv [OF i p(1) _ _ q J1_def s(1)]) (use False in auto)
    moreover have "dce_chain J0 p K J' pc op" if "\<not> kop op" for op
      by (rule drop_chain [OF c [OF that] c [OF o(1)] refl r e J1_def s(1)])
    ultimately show ?thesis using s by blast
  qed
qed

lemma dce_loop_ok:
  assumes wf: "irwf J0"
  shows "REF_FIRST + n \<le> j_nins J0 \<Longrightarrow> dce_inv J0 mk0 (REF_FIRST + n) K J mk \<Longrightarrow>
    (\<And>op. \<not> kop op \<Longrightarrow> dce_chain J0 (REF_FIRST + n) K J pc op) \<Longrightarrow> dce_loop n (J, mk, pc) = (J', mk', pc') \<Longrightarrow>
    \<exists>K'. dce_inv J0 mk0 REF_FIRST K' J' mk' \<and> (\<forall>op. \<not> kop op \<longrightarrow> dce_chain J0 REF_FIRST K' J' pc' op)"
proof (induction n arbitrary: K J mk pc)
  case (Suc n)
  obtain J1 mk1 pc1 where st: "dce_step (REF_FIRST + n) (J, mk, pc) = (J1, mk1, pc1)" by (metis prod_cases3)
  obtain K1 where k: "dce_inv J0 mk0 (REF_FIRST + n) K1 J1 mk1" "\<And>op. \<not> kop op \<Longrightarrow> dce_chain J0 (REF_FIRST + n) K1 J1 pc1 op"
    using dce_step_ok [OF wf _ _ _ _ st] Suc.prems(1-3) by (metis add_Suc_right le_add1 less_eq_Suc_le)
  show ?case by (rule Suc.IH [OF _ k]) (use Suc.prems(1,4) st in simp_all)
qed auto

lemma dce_start:
  assumes wf: "irwf J0" and m: "\<And>r. mk r \<Longrightarrow> r < j_nins J0"
  shows "dce_inv J0 mk (j_nins J0) {} J0 mk" "\<not> kop op \<Longrightarrow> dce_chain J0 (j_nins J0) {} J0 (\<lambda>_. None) op"
proof -
  have "J0 = J0\<lparr>j_ir := j_ir J0, j_chain := j_chain J0\<rparr>" by simp
  then have e: "\<exists>I C. J0 = J0\<lparr>j_ir := I, j_chain := C\<rparr>" by (intro exI)
  show "dce_inv J0 mk (j_nins J0) {} J0 mk" unfolding dce_inv_def
    by (intro conjI e) (use m in auto)
  assume "\<not> kop op"
  then obtain xs where "is_chain (j_ir J0) (j_chain J0 op) xs" "set xs = chain_refs J0 op" "sorted_wrt (>) xs"
    using irwfD(4) [OF wf, of op] unfolding chain_ok_def by auto
  moreover have "chain_refs J0 op = {r \<in> chain_refs J0 op. r < j_nins J0}" by (auto simp: chain_refs_def)
  ultimately show "dce_chain J0 (j_nins J0) {} J0 (\<lambda>_. None) op"
    unfolding dce_chain_def by (intro exI [of _ "[]"] exI [of _ xs] conjI) simp_all
qed

text \<open>What holds at the end.\<close>

lemma dce_propagate_ok:
  assumes wf: "irwf J0" and m: "\<And>r. mk r \<Longrightarrow> r < j_nins J0" and p: "dce_propagate J0 mk = (J', mk')"
  shows "\<exists>K pc. dce_inv J0 mk REF_FIRST K J' mk' \<and> (\<forall>op. \<not> kop op \<longrightarrow> dce_chain J0 REF_FIRST K J' pc op)"
proof -
  have n: "REF_FIRST \<le> j_nins J0" using irwfD(1) [OF wf] by (simp add: ir_bounds_def REF_FIRST_def)
  obtain pc' where l: "dce_loop (j_nins J0 - REF_FIRST) (J0, mk, \<lambda>_. None) = (J', mk', pc')"
    using p by (auto simp: dce_propagate_def split: prod.splits)
  show ?thesis using dce_loop_ok [OF wf _ _ _ l, of mk "{}"] dce_start [OF wf m] n by (auto simp: le_add_diff_inverse)
qed

section \<open>Meaning\<close>





section \<open>Snapshots\<close>

definition snap_refs :: "snapshot list \<Rightarrow> u32 list \<Rightarrow> nat set" where
  "snap_refs snaps snapmap = (\<Union>s \<in> set snaps. snap_ref ` set (take (sn_nent s) (drop (sn_mapofs s) snapmap)))"

lemma mark_entries: "List.fold marksnap_entry es mk r \<longleftrightarrow> mk r \<or> REF_FIRST \<le> r \<and> r \<in> snap_ref ` set es"
  by (induction es arbitrary: mk) (auto simp: marksnap_entry_def Let_def)

lemma marksnap_iff: "dce_marksnap snaps snapmap mk r \<longleftrightarrow> mk r \<or> REF_FIRST \<le> r \<and> r \<in> snap_refs snaps snapmap"
  unfolding dce_marksnap_def snap_refs_def by (induction snaps arbitrary: mk) (auto simp: mark_entries)

lemma dce_all:
  assumes wf: "irwf J" and n: "\<forall>r \<in> snap_refs snaps snapmap. r < j_nins J"
    and e: "lj_opt_dce True snaps snapmap J (\<lambda>_. False) = (J', mk')"
  shows "\<exists>K mk pc. snap_refs snaps snapmap \<subseteq> K \<union> {..<REF_FIRST} \<and> dce_inv J mk REF_FIRST K J' mk' \<and>
    (\<forall>op. \<not> kop op \<longrightarrow> dce_chain J REF_FIRST K J' pc op)"
proof -
  let ?mk = "dce_marksnap snaps snapmap (\<lambda>_. False)"
  have m: "?mk r \<Longrightarrow> r < j_nins J" for r using n by (auto simp: marksnap_iff)
  have p: "dce_propagate J ?mk = (J', mk')" using e by (simp add: lj_opt_dce_def)
  obtain K pc where k: "dce_inv J ?mk REF_FIRST K J' mk'" "\<forall>op. \<not> kop op \<longrightarrow> dce_chain J REF_FIRST K J' pc op"
    using dce_propagate_ok [OF wf m p] by blast
  have "\<forall>r. REF_FIRST \<le> r \<and> r < j_nins J \<and> ?mk r \<longrightarrow> r \<in> K" using k(1) unfolding dce_inv_def by (elim conjE)
  then have "r \<in> K" if "r \<in> snap_refs snaps snapmap" "REF_FIRST \<le> r" for r using n that unfolding marksnap_iff by blast
  then have "snap_refs snaps snapmap \<subseteq> K \<union> {..<REF_FIRST}" by (metis Un_iff lessThan_iff not_less subsetI)
  then show ?thesis using k by blast
qed



text \<open>The chains lead to instructions that stay.\<close>

lemma dce_chains:
  assumes "irwf J" "\<forall>r \<in> snap_refs snaps snapmap. r < j_nins J"
    "lj_opt_dce True snaps snapmap J (\<lambda>_. False) = (J', mk')" "\<not> kop op"
  shows "\<exists>xs. is_chain (j_ir J') (j_chain J' op) xs \<and> sorted_wrt (>) xs \<and>
    (\<forall>r \<in> set xs. r \<in> chain_refs J op \<and> relink (j_ir J r) (j_ir J' r))"
proof -
  obtain K mk pc where k: "dce_inv J mk REF_FIRST K J' mk'" "dce_chain J REF_FIRST K J' pc op"
    using dce_all [OF assms(1-3)] assms(4) by blast
  obtain A B zs where c: "is_chain (j_ir J') (j_chain J' op) (A @ B @ zs)" "set zs = {r \<in> chain_refs J op. r < REF_FIRST}"
    "set (A @ B) \<subseteq> K \<inter> chain_refs J op" "sorted_wrt (>) (A @ B @ zs)"
    using k(2) unfolding dce_chain_def by blast
  note d = k(1) [unfolded dce_inv_def]
  have "relink (j_ir J r) (j_ir J' r)" if "r \<in> set (A @ B @ zs)" for r
  proof (cases "r \<in> K")
    case False
    then have "j_ir J' r = j_ir J r" using d that c(2,3) by auto
    then show ?thesis by (simp add: relink_def)
  qed (use d in blast)
  then show ?thesis using c by (intro exI [of _ "A @ B @ zs"]) auto
qed

text \<open>An unmarked instruction that stays for its guard does not move the pointer into its chain, so the next
  one that is dropped takes it out of the chain: the load of slot 2 stays, but the chain is empty.\<close>

lemma dce_chain_loses_guard:
  "case lj_opt_dce True [] [] (trace0\<lparr>j_nins := 0x8003, j_chain := (j_chain trace0)(IR_SLOAD := 0x8002),
      j_ir := (j_ir trace0)(0x8001 := ir_none\<lparr>ir_o := IR_SLOAD, ir_t := IRT IRT_INT, ir_op1 := 1\<rparr>,
        0x8002 := ir_none\<lparr>ir_o := IR_SLOAD, ir_t := IRTG IRT_INT, ir_op1 := 2, ir_prev := 0x8001\<rparr>)\<rparr>) (\<lambda>_. False) of
    (J, mk) \<Rightarrow> ir_o (j_ir J 0x8002) = IR_SLOAD \<and> j_chain J IR_SLOAD = 0"
proof -
  have n: "(0x8003 :: nat) - REF_FIRST = Suc (Suc 0)" "REF_FIRST = 0x8001" by (simp_all add: REF_FIRST_def REF_BIAS_def)
  show ?thesis by (simp add: lj_opt_dce_def dce_propagate_def dce_marksnap_def n dce_step_def Let_def ir_sideeff_def irm_kind_def
      IRTG_def IRT_def irm_weak_def dce_reroute_def dce_markop_def numeral_2_eq_2 ir_none_def)
qed

end
