(* ===== verification/LJ_GC.thy ===== *)
theory LJ_GC
  imports LJ_IR LJ_Tab "HOL-Library.While_Combinator"
begin

unbundle bit_operations_syntax

text \<open>
  The garbage collector (\<^verbatim>\<open>lj_gc.c\<close>, \<^verbatim>\<open>lj_gc.h\<close>) and what it uses of upvalues, threads, traces
  and cdata.  Objects have addresses, 0 is the null reference; the heap is split by field: the
  contents of an object, its \<^verbatim>\<open>marked\<close> byte and the negative metamethod cache of a table are
  functions of the address.  Of a tagged value only the reference to a collectable object is kept,
  and whether it is nil.  Linked lists of objects are lists of addresses; \<open>gc_root\<close> is the list of all
  collectable objects in which the userdata follow the main thread, the position of the sweep is the object
  behind whose link it stopped.  The lists of gray and weak objects share a link field in the code.
  Stack slots are addressed by thread and index, so moving a stack is not visible.  The
  accounting of memory, which decides only when and how often steps run, is left out.
\<close>

section \<open>Objects\<close>

type_synonym addr = nat

datatype gcv = VNil | VPrim | VRef addr

record gcthread =
  th_stack :: "gcv list"
  th_top :: nat
  th_env :: addr
  th_frames :: "addr list"
  th_openuv :: "addr list"

record gctable =
  gt_metatable :: addr
  gt_array :: "gcv list"
  gt_node :: "(gcv \<times> gcv) list"

record gctrace =
  tr_traceno :: nat
  tr_const :: "(irop \<times> addr) list"
  tr_link :: nat
  tr_nextroot :: nat
  tr_nextside :: nat
  tr_startpt :: addr

record gcproto =
  gp_chunkname :: addr
  gp_kgc :: "addr list"
  gp_trace :: nat

datatype gcobj =
    OStr "byte list"
  | OUpval bool gcv addr nat
  | OThread gcthread
  | OProto gcproto
  | OFuncL addr addr "addr list"
  | OFuncC addr "gcv list"
  | OTrace gctrace
  | OCdata
  | OTab gctable
  | OUdata addr addr

text \<open>
  An upvalue has its state, its value when closed, and the stack slot of an open one; a function its
  environment, then prototype and upvalues or the upvalues of a C function; a userdata its metatable and
  environment.  A table with an empty hash part has no nodes; a node is a value and a key.
\<close>

record gcst =
  h_obj :: "addr \<Rightarrow> gcobj option"
  h_mark :: "addr \<Rightarrow> byte"
  h_nomm :: "addr \<Rightarrow> byte"
  gc_state :: gcphase
  gc_currentwhite :: byte
  gc_root :: "addr list"
  gc_sweep :: "addr option"
  gc_strhash :: "addr list list"
  gc_sweepstr :: nat
  gc_gray :: "addr list"
  gc_grayagain :: "addr list"
  gc_weak :: "addr list"
  gc_mmudata :: "addr list"
  gc_nocdatafin :: bool
  g_mainth :: addr
  g_registry :: gcv
  g_gcroot :: "addr list"
  g_uvhead :: "addr list"
  g_trace :: "nat \<Rightarrow> addr"
  g_curtrace :: gctrace
  g_jit_L :: addr
  g_finalizer :: addr

section \<open>Colours\<close>

definition LJ_GC_COLORS :: byte where "LJ_GC_COLORS = 7"
definition LJ_GC_FINALIZED :: byte where "LJ_GC_FINALIZED = 8"
definition LJ_GC_WEAKKEY :: int where "LJ_GC_WEAKKEY = 8"
definition LJ_GC_WEAKVAL :: int where "LJ_GC_WEAKVAL = 16"
definition LJ_GC_WEAK :: int where "LJ_GC_WEAK = 24"
definition LJ_GC_CDATA_FIN :: byte where "LJ_GC_CDATA_FIN = 16"

definition iswhite :: "gcst \<Rightarrow> addr \<Rightarrow> bool" where "iswhite g x \<longleftrightarrow> h_mark g x AND LJ_GC_WHITES \<noteq> 0"
definition isblack :: "gcst \<Rightarrow> addr \<Rightarrow> bool" where "isblack g x \<longleftrightarrow> h_mark g x AND LJ_GC_BLACK \<noteq> 0"
definition isgray :: "gcst \<Rightarrow> addr \<Rightarrow> bool" where "isgray g x \<longleftrightarrow> h_mark g x AND LJ_GC_COLORS = 0"
definition otherwhite :: "gcst \<Rightarrow> byte" where "otherwhite g = gc_currentwhite g XOR LJ_GC_WHITES"
definition curwhite :: "gcst \<Rightarrow> byte" where "curwhite g = gc_currentwhite g AND LJ_GC_WHITES"
definition isdead :: "gcst \<Rightarrow> addr \<Rightarrow> bool" where
  "isdead g x \<longleftrightarrow> h_mark g x AND otherwhite g AND LJ_GC_WHITES \<noteq> 0"

definition set_mark :: "addr \<Rightarrow> byte \<Rightarrow> gcst \<Rightarrow> gcst" where "set_mark x m g = g\<lparr>h_mark := (h_mark g)(x := m)\<rparr>"

definition newwhite :: "addr \<Rightarrow> gcst \<Rightarrow> gcst" where "newwhite x g = set_mark x (curwhite g) g"
definition makewhite :: "addr \<Rightarrow> gcst \<Rightarrow> gcst" where
  "makewhite x g = set_mark x ((h_mark g x AND NOT LJ_GC_COLORS) OR curwhite g) g"
definition black2gray :: "addr \<Rightarrow> gcst \<Rightarrow> gcst" where "black2gray x g = set_mark x (h_mark g x AND NOT LJ_GC_BLACK) g"
definition white2gray :: "addr \<Rightarrow> gcst \<Rightarrow> gcst" where "white2gray x g = set_mark x (h_mark g x AND NOT LJ_GC_WHITES) g"
definition gray2black :: "addr \<Rightarrow> gcst \<Rightarrow> gcst" where "gray2black x g = set_mark x (h_mark g x OR LJ_GC_BLACK) g"
definition markfinalized :: "addr \<Rightarrow> gcst \<Rightarrow> gcst" where "markfinalized x g = set_mark x (h_mark g x OR LJ_GC_FINALIZED) g"
definition isfinalized :: "gcst \<Rightarrow> addr \<Rightarrow> bool" where "isfinalized g x \<longleftrightarrow> h_mark g x AND LJ_GC_FINALIZED \<noteq> 0"
definition gc_mark_str :: "addr \<Rightarrow> gcst \<Rightarrow> gcst" where "gc_mark_str x g = white2gray x g"

definition set_obj :: "addr \<Rightarrow> gcobj \<Rightarrow> gcst \<Rightarrow> gcst" where "set_obj x ob g = g\<lparr>h_obj := (h_obj g)(x := Some ob)\<rparr>"

text \<open>The value of an upvalue: its own, or the stack slot.\<close>

definition stack_slot :: "gcst \<Rightarrow> addr \<Rightarrow> nat \<Rightarrow> gcv" where
  "stack_slot g th i = (case h_obj g th of Some (OThread t) \<Rightarrow> if i < length (th_stack t) then th_stack t ! i else VNil | _ \<Rightarrow> VNil)"

definition uvval :: "gcst \<Rightarrow> addr \<Rightarrow> gcv" where
  "uvval g x = (case h_obj g x of Some (OUpval closed tv th i) \<Rightarrow> if closed then tv else stack_slot g th i | _ \<Rightarrow> VNil)"

section \<open>Mark phase\<close>

definition mark_obj :: "(addr \<Rightarrow> gcst \<Rightarrow> gcst) \<Rightarrow> addr \<Rightarrow> gcst \<Rightarrow> gcst" where
  "mark_obj f x g = (if iswhite g x then f x g else g)"

definition mark_tv :: "(addr \<Rightarrow> gcst \<Rightarrow> gcst) \<Rightarrow> gcv \<Rightarrow> gcst \<Rightarrow> gcst" where
  "mark_tv f v g = (case v of VRef x \<Rightarrow> mark_obj f x g | _ \<Rightarrow> g)"

text \<open>
  \<open>gc_mark\<close> calls itself for the value of an upvalue and for the tables of a userdata, so it is at most
  three calls deep.
\<close>

primrec gc_mark_n :: "nat \<Rightarrow> addr \<Rightarrow> gcst \<Rightarrow> gcst" where
  "gc_mark_n 0 x g = g"
| "gc_mark_n (Suc n) x g =
     (let g = white2gray x g in
      case h_obj g x of
        Some (OUdata mt env) \<Rightarrow>
          (let g = gray2black x g; g = (if mt \<noteq> 0 then mark_obj (gc_mark_n n) mt g else g)
           in mark_obj (gc_mark_n n) env g)
      | Some (OUpval closed tv th i) \<Rightarrow>
          (let g = mark_tv (gc_mark_n n) (uvval g x) g in if closed then gray2black x g else g)
      | Some (OStr s) \<Rightarrow> g
      | Some OCdata \<Rightarrow> g
      | _ \<Rightarrow> g\<lparr>gc_gray := x # gc_gray g\<rparr>)"

definition gc_mark :: "addr \<Rightarrow> gcst \<Rightarrow> gcst" where "gc_mark = gc_mark_n 3"
definition gc_markobj :: "addr \<Rightarrow> gcst \<Rightarrow> gcst" where "gc_markobj = mark_obj gc_mark"
definition gc_marktv :: "gcv \<Rightarrow> gcst \<Rightarrow> gcst" where "gc_marktv = mark_tv gc_mark"

definition gc_mark_gcroot :: "gcst \<Rightarrow> gcst" where
  "gc_mark_gcroot g = List.fold (\<lambda>x g. if x \<noteq> 0 then gc_markobj x g else g) (g_gcroot g) g"

definition th_env_of :: "gcst \<Rightarrow> addr \<Rightarrow> addr" where
  "th_env_of g x = (case h_obj g x of Some (OThread t) \<Rightarrow> th_env t | _ \<Rightarrow> 0)"

definition gc_mark_start :: "gcst \<Rightarrow> gcst" where
  "gc_mark_start g =
     (let g = g\<lparr>gc_gray := [], gc_grayagain := [], gc_weak := []\<rparr>;
          g = gc_markobj (g_mainth g) g;
          g = gc_markobj (th_env_of g (g_mainth g)) g;
          g = gc_marktv (g_registry g) g;
          g = gc_mark_gcroot g
      in g\<lparr>gc_state := GCSpropagate\<rparr>)"

definition gc_mark_uv :: "gcst \<Rightarrow> gcst" where
  "gc_mark_uv g = List.fold (\<lambda>uv g. if isgray g uv then gc_marktv (uvval g uv) g else g) (g_uvhead g) g"

definition gc_mark_mmudata :: "gcst \<Rightarrow> gcst" where
  "gc_mark_mmudata g = List.fold (\<lambda>u g. gc_mark u (makewhite u g)) (gc_mmudata g) g"

section \<open>Fast metamethods\<close>

text \<open>
  \<open>lj_meta_fastg\<close>: the lookup of a metamethod by its interned name in a metatable, with the negative
  cache.  The chain walk of the hash part finds the node of the name when there is one.
\<close>

definition MM_gc :: nat where "MM_gc = 2"
definition MM_mode :: nat where "MM_mode = 3"

definition tab_of :: "gcst \<Rightarrow> addr \<Rightarrow> gctable" where
  "tab_of g x = (case h_obj g x of Some (OTab t) \<Rightarrow> t | _ \<Rightarrow> \<lparr>gt_metatable = 0, gt_array = [], gt_node = []\<rparr>)"

definition tab_getref :: "gcst \<Rightarrow> addr \<Rightarrow> addr \<Rightarrow> gcv option" where
  "tab_getref g mt name = map_option fst (find (\<lambda>(v, k). k = VRef name) (gt_node (tab_of g mt)))"

definition lj_meta_cache :: "addr \<Rightarrow> nat \<Rightarrow> addr \<Rightarrow> gcst \<Rightarrow> gcst \<times> gcv option" where
  "lj_meta_cache mt mm name g =
     (case tab_getref g mt name of
        Some v \<Rightarrow> if v = VNil then (g\<lparr>h_nomm := (h_nomm g)(mt := h_nomm g mt OR push_bit mm 1)\<rparr>, None) else (g, Some v)
      | None \<Rightarrow> (g\<lparr>h_nomm := (h_nomm g)(mt := h_nomm g mt OR push_bit mm 1)\<rparr>, None))"

definition lj_meta_fastg :: "addr \<Rightarrow> nat \<Rightarrow> gcst \<Rightarrow> gcst \<times> gcv option" where
  "lj_meta_fastg mt mm g =
     (if mt = 0 then (g, None)
      else if h_nomm g mt AND push_bit mm 1 \<noteq> 0 then (g, None)
      else lj_meta_cache mt mm (g_gcroot g ! mm) g)"

section \<open>Userdata with finalizers\<close>

text \<open>The part of a list behind an object; the list of userdata starts behind the main thread.\<close>

definition after :: "addr option \<Rightarrow> addr list \<Rightarrow> addr list" where
  "after p xs = (case p of None \<Rightarrow> xs | Some x \<Rightarrow> tl (dropWhile (\<lambda>y. y \<noteq> x) xs))"

definition udata_mt :: "gcst \<Rightarrow> addr \<Rightarrow> addr" where
  "udata_mt g x = (case h_obj g x of Some (OUdata mt env) \<Rightarrow> mt | _ \<Rightarrow> 0)"

definition separate1 :: "bool \<Rightarrow> addr \<Rightarrow> gcst \<Rightarrow> gcst" where
  "separate1 all x g =
     (if \<not> (iswhite g x \<or> all) \<or> isfinalized g x then g
      else (case lj_meta_fastg (udata_mt g x) MM_gc g of
              (g, None) \<Rightarrow> markfinalized x g
            | (g, Some mo) \<Rightarrow>
                (let g = markfinalized x g
                 in g\<lparr>gc_root := remove1 x (gc_root g), gc_mmudata := gc_mmudata g @ [x]\<rparr>)))"

definition lj_gc_separateudata :: "bool \<Rightarrow> gcst \<Rightarrow> gcst" where
  "lj_gc_separateudata all g = List.fold (separate1 all) (after (Some (g_mainth g)) (gc_root g)) g"

section \<open>Propagation phase\<close>

text \<open>The \<open>__mode\<close> string, up to its terminating zero.\<close>

fun weak_mode :: "byte list \<Rightarrow> int \<Rightarrow> int" where
  "weak_mode [] weak = weak"
| "weak_mode (c # cs) weak =
     (if c = 0 then weak
      else weak_mode cs (if c = 107 then weak OR LJ_GC_WEAKKEY
                         else if c = 118 then weak OR LJ_GC_WEAKVAL
                         else if c = 75 then NOT LJ_GC_WEAKVAL else weak))"

definition str_of :: "gcst \<Rightarrow> gcv \<Rightarrow> byte list option" where
  "str_of g v = (case v of VRef x \<Rightarrow> (case h_obj g x of Some (OStr s) \<Rightarrow> Some s | _ \<Rightarrow> None) | _ \<Rightarrow> None)"

definition gc_marknode :: "int \<Rightarrow> gcv \<times> gcv \<Rightarrow> gcst \<Rightarrow> gcst" where
  "gc_marknode weak n g =
     (case n of (v, k) \<Rightarrow>
        if v = VNil then g
        else (let g = (if weak AND LJ_GC_WEAKKEY = 0 then gc_marktv k g else g)
              in if weak AND LJ_GC_WEAKVAL = 0 then gc_marktv v g else g))"

definition tab_weak :: "gcst \<Rightarrow> gcv option \<Rightarrow> int" where
  "tab_weak g mode = (case mode of None \<Rightarrow> 0 | Some v \<Rightarrow> (case str_of g v of None \<Rightarrow> 0 | Some s \<Rightarrow> weak_mode s 0))"

definition gc_traverse_tab :: "addr \<Rightarrow> gcst \<Rightarrow> gcst \<times> int" where
  "gc_traverse_tab x g =
     (let t = tab_of g x; mt = gt_metatable t;
          g = (if mt \<noteq> 0 then gc_markobj mt g else g)
      in case lj_meta_fastg mt MM_mode g of (g, mode) \<Rightarrow>
        (let weak = tab_weak g mode;
             g = (if weak > 0
                  then (set_mark x ((h_mark g x AND NOT (word_of_int LJ_GC_WEAK)) OR word_of_int weak) g)\<lparr>gc_weak := x # gc_weak g\<rparr>
                  else g)
         in if weak = LJ_GC_WEAK then (g, 1)
            else (let g = (if weak AND LJ_GC_WEAKVAL = 0 then List.fold gc_marktv (gt_array t) g else g);
                      g = List.fold (gc_marknode weak) (gt_node t) g
                  in (g, weak))))"

definition gc_traverse_func :: "addr \<Rightarrow> gcst \<Rightarrow> gcst" where
  "gc_traverse_func x g =
     (case h_obj g x of
        Some (OFuncL env pt uvs) \<Rightarrow> List.fold gc_markobj uvs (gc_markobj pt (gc_markobj env g))
      | Some (OFuncC env uvs) \<Rightarrow> List.fold gc_marktv uvs (gc_markobj env g)
      | _ \<Rightarrow> g)"

definition gc_marktrace :: "nat \<Rightarrow> gcst \<Rightarrow> gcst" where
  "gc_marktrace traceno g =
     (let x = g_trace g traceno in
      if iswhite g x then (let g = white2gray x g in g\<lparr>gc_gray := x # gc_gray g\<rparr>) else g)"

definition gc_traverse_trace :: "gctrace \<Rightarrow> gcst \<Rightarrow> gcst" where
  "gc_traverse_trace T g =
     (if tr_traceno T = 0 then g
      else (let g = List.fold (\<lambda>(op, x) g. if op = IR_KGC then gc_markobj x g else g) (tr_const T) g;
                g = (if tr_link T \<noteq> 0 then gc_marktrace (tr_link T) g else g);
                g = (if tr_nextroot T \<noteq> 0 then gc_marktrace (tr_nextroot T) g else g);
                g = (if tr_nextside T \<noteq> 0 then gc_marktrace (tr_nextside T) g else g)
            in gc_markobj (tr_startpt T) g))"

definition gc_traverse_proto :: "gcproto \<Rightarrow> gcst \<Rightarrow> gcst" where
  "gc_traverse_proto pt g =
     (let g = gc_mark_str (gp_chunkname pt) g;
          g = List.fold gc_markobj (gp_kgc pt) g
      in if gp_trace pt \<noteq> 0 then gc_marktrace (gp_trace pt) g else g)"

definition gc_traverse_thread :: "addr \<Rightarrow> gcst \<Rightarrow> gcst" where
  "gc_traverse_thread x g =
     (case h_obj g x of
        Some (OThread th) \<Rightarrow>
          (let g = List.fold gc_marktv (drop 1 (take (th_top th) (th_stack th))) g;
               g = (if gc_state g = GCSatomic
                    then set_obj x (OThread (th\<lparr>th_stack :=
                           take (max 1 (th_top th)) (th_stack th) @ replicate (length (th_stack th) - max 1 (th_top th)) VNil\<rparr>)) g
                    else g);
               g = gc_markobj (th_env th) g
           in List.fold gc_markobj (th_frames th) g)
      | _ \<Rightarrow> g)"

definition propagatemark :: "gcst \<Rightarrow> gcst" where
  "propagatemark g =
     (let x = hd (gc_gray g); g = gray2black x g; g = g\<lparr>gc_gray := tl (gc_gray g)\<rparr> in
      case h_obj g x of
        Some (OTab t) \<Rightarrow> (case gc_traverse_tab x g of (g, weak) \<Rightarrow> if weak > 0 then black2gray x g else g)
      | Some (OThread th) \<Rightarrow>
          (let g = g\<lparr>gc_grayagain := x # gc_grayagain g\<rparr>; g = black2gray x g in gc_traverse_thread x g)
      | Some (OProto pt) \<Rightarrow> gc_traverse_proto pt g
      | Some (OTrace T) \<Rightarrow> gc_traverse_trace T g
      | _ \<Rightarrow> gc_traverse_func x g)"

definition gc_propagate_gray :: "gcst \<Rightarrow> gcst option" where
  "gc_propagate_gray = while_option (\<lambda>g. gc_gray g \<noteq> []) propagatemark"

section \<open>Write barriers\<close>

definition lj_gc_barrierf :: "addr \<Rightarrow> addr \<Rightarrow> gcst \<Rightarrow> gcst" where
  "lj_gc_barrierf x v g =
     (if gc_state g = GCSpropagate \<or> gc_state g = GCSatomic then gc_mark v g else makewhite x g)"

definition lj_gc_barrierback :: "addr \<Rightarrow> gcst \<Rightarrow> gcst" where
  "lj_gc_barrierback x g = (let g = black2gray x g in g\<lparr>gc_grayagain := x # gc_grayagain g\<rparr>)"

text \<open>The barrier for closed upvalues gets the address of the value in the upvalue \<open>uv\<close>.\<close>

definition lj_gc_barrieruv :: "addr \<Rightarrow> addr \<Rightarrow> gcst \<Rightarrow> gcst" where
  "lj_gc_barrieruv uv v g =
     (if gc_state g = GCSpropagate \<or> gc_state g = GCSatomic then gc_mark v g else makewhite uv g)"

definition lj_gc_barriertrace :: "nat \<Rightarrow> gcst \<Rightarrow> gcst" where
  "lj_gc_barriertrace traceno g =
     (if gc_state g = GCSpropagate \<or> gc_state g = GCSatomic then gc_marktrace traceno g else g)"

definition tviswhite :: "gcst \<Rightarrow> gcv \<Rightarrow> bool" where
  "tviswhite g v = (case v of VRef x \<Rightarrow> iswhite g x | _ \<Rightarrow> False)"

definition lj_gc_anybarriert :: "addr \<Rightarrow> gcst \<Rightarrow> gcst" where
  "lj_gc_anybarriert t g = (if isblack g t then lj_gc_barrierback t g else g)"

definition lj_gc_barriert :: "addr \<Rightarrow> gcv \<Rightarrow> gcst \<Rightarrow> gcst" where
  "lj_gc_barriert t v g = (if tviswhite g v \<and> isblack g t then lj_gc_barrierback t g else g)"

definition lj_gc_barrier :: "addr \<Rightarrow> gcv \<Rightarrow> gcst \<Rightarrow> gcst" where
  "lj_gc_barrier x v g = (case v of VRef y \<Rightarrow> if iswhite g y \<and> isblack g x then lj_gc_barrierf x y g else g | _ \<Rightarrow> g)"

section \<open>Upvalues\<close>

text \<open>Upvalues of a thread in the order of the code's sorted list, the highest slot first.\<close>

definition openuv_of :: "gcst \<Rightarrow> addr \<Rightarrow> addr list" where
  "openuv_of g L = (case h_obj g L of Some (OThread t) \<Rightarrow> th_openuv t | _ \<Rightarrow> [])"

definition set_openuv :: "addr \<Rightarrow> addr list \<Rightarrow> gcst \<Rightarrow> gcst" where
  "set_openuv L uvs g = (case h_obj g L of Some (OThread t) \<Rightarrow> set_obj L (OThread (t\<lparr>th_openuv := uvs\<rparr>)) g | _ \<Rightarrow> g)"

definition uv_slot :: "gcst \<Rightarrow> addr \<Rightarrow> nat" where
  "uv_slot g uv = (case h_obj g uv of Some (OUpval closed tv th i) \<Rightarrow> i | _ \<Rightarrow> 0)"

definition uv_isclosed :: "gcst \<Rightarrow> addr \<Rightarrow> bool" where
  "uv_isclosed g uv = (case h_obj g uv of Some (OUpval closed tv th i) \<Rightarrow> closed | _ \<Rightarrow> False)"

definition unlinkuv :: "addr \<Rightarrow> gcst \<Rightarrow> gcst" where "unlinkuv uv g = g\<lparr>g_uvhead := remove1 uv (g_uvhead g)\<rparr>"

definition mem_free :: "addr \<Rightarrow> gcst \<Rightarrow> gcst" where "mem_free x g = g\<lparr>h_obj := (h_obj g)(x := None)\<rparr>"

definition lj_func_freeuv :: "addr \<Rightarrow> gcst \<Rightarrow> gcst" where
  "lj_func_freeuv uv g = mem_free uv (if uv_isclosed g uv then g else unlinkuv uv g)"

definition lj_gc_closeuv :: "addr \<Rightarrow> gcst \<Rightarrow> gcst" where
  "lj_gc_closeuv uv g =
     (let v = uvval g uv;
          g = set_obj uv (OUpval True v 0 0) g;
          g = g\<lparr>gc_root := uv # gc_root g\<rparr>
      in if isgray g uv then
           (if gc_state g = GCSpropagate \<or> gc_state g = GCSatomic then
              (let g = gray2black uv g
               in case v of VRef x \<Rightarrow> if iswhite g x then lj_gc_barrierf uv x g else g | _ \<Rightarrow> g)
            else makewhite uv g)
         else g)"

fun closeuv_loop :: "addr \<Rightarrow> nat \<Rightarrow> addr list \<Rightarrow> gcst \<Rightarrow> gcst" where
  "closeuv_loop L level [] g = g"
| "closeuv_loop L level (uv # uvs) g =
     (if uv_slot g uv \<ge> level then
        (let g = set_openuv L uvs g;
             g = (if isdead g uv then lj_func_freeuv uv g else lj_gc_closeuv uv (unlinkuv uv g))
         in closeuv_loop L level uvs g)
      else g)"

definition lj_func_closeuv :: "addr \<Rightarrow> nat \<Rightarrow> gcst \<Rightarrow> gcst" where
  "lj_func_closeuv L level g = closeuv_loop L level (openuv_of g L) g"

text \<open>Find the open upvalue for a slot, or create one at the given fresh address.\<close>

fun finduv_split :: "gcst \<Rightarrow> nat \<Rightarrow> addr list \<Rightarrow> addr list \<times> addr list" where
  "finduv_split g slot [] = ([], [])"
| "finduv_split g slot (p # ps) =
     (if uv_slot g p > slot then (case finduv_split g slot ps of (xs, ys) \<Rightarrow> (p # xs, ys)) else ([], p # ps))"

definition func_finduv :: "addr \<Rightarrow> nat \<Rightarrow> addr \<Rightarrow> gcst \<Rightarrow> gcst \<times> addr" where
  "func_finduv L slot fresh g =
     (case finduv_split g slot (openuv_of g L) of (xs, ys) \<Rightarrow>
        if ys \<noteq> [] \<and> uv_slot g (hd ys) = slot
        then (if isdead g (hd ys) then set_mark (hd ys) (h_mark g (hd ys) XOR LJ_GC_WHITES) g else g, hd ys)
        else (let g = set_obj fresh (OUpval False VNil L slot) g;
                  g = newwhite fresh g;
                  g = set_openuv L (xs @ fresh # ys) g
              in (g\<lparr>g_uvhead := fresh # g_uvhead g\<rparr>, fresh)))"

section \<open>Sweep phase\<close>

definition lj_state_free :: "addr \<Rightarrow> gcst \<Rightarrow> gcst" where
  "lj_state_free L g = mem_free L (lj_func_closeuv L 0 g)"

definition lj_trace_free :: "addr \<Rightarrow> gctrace \<Rightarrow> gcst \<Rightarrow> gcst" where
  "lj_trace_free x T g =
     mem_free x (if tr_traceno T \<noteq> 0 then g\<lparr>g_trace := (g_trace g)(tr_traceno T := 0)\<rparr> else g)"

definition lj_cdata_free :: "addr \<Rightarrow> gcst \<Rightarrow> gcst" where
  "lj_cdata_free x g =
     (if h_mark g x AND LJ_GC_CDATA_FIN \<noteq> 0
      then (let g = markfinalized x (makewhite x g) in g\<lparr>gc_mmudata := gc_mmudata g @ [x]\<rparr>)
      else mem_free x g)"

definition gc_freefunc :: "addr \<Rightarrow> gcst \<Rightarrow> gcst" where
  "gc_freefunc x g =
     (case h_obj g x of
        Some (OUpval closed tv th i) \<Rightarrow> lj_func_freeuv x g
      | Some (OThread th) \<Rightarrow> lj_state_free x g
      | Some (OTrace T) \<Rightarrow> lj_trace_free x T g
      | Some OCdata \<Rightarrow> lj_cdata_free x g
      | _ \<Rightarrow> mem_free x g)"

text \<open>Black or current white, or fixed.\<close>

definition sweep_alive :: "gcst \<Rightarrow> addr \<Rightarrow> bool" where
  "sweep_alive g x \<longleftrightarrow> (h_mark g x XOR LJ_GC_WHITES) AND otherwhite g \<noteq> 0"

text \<open>A whole list of strings or upvalues: what stays of it.\<close>

fun fullsweep :: "addr list \<Rightarrow> gcst \<Rightarrow> gcst \<times> addr list" where
  "fullsweep [] g = (g, [])"
| "fullsweep (x # xs) g =
     (if sweep_alive g x then (case fullsweep xs (makewhite x g) of (g, ys) \<Rightarrow> (g, x # ys))
      else fullsweep xs (gc_freefunc x g))"

definition sweep_openuv :: "addr \<Rightarrow> gcst \<Rightarrow> gcst" where
  "sweep_openuv x g =
     (case h_obj g x of
        Some (OThread th) \<Rightarrow> (case fullsweep (th_openuv th) g of (g, uvs) \<Rightarrow> set_openuv x uvs g)
      | _ \<Rightarrow> g)"

text \<open>The list of all objects, from the position of the sweep, a limited number of them.\<close>

primrec gc_sweep_root :: "nat \<Rightarrow> gcst \<Rightarrow> gcst" where
  "gc_sweep_root 0 g = g"
| "gc_sweep_root (Suc lim) g =
     (case after (gc_sweep g) (gc_root g) of
        [] \<Rightarrow> g
      | x # xs \<Rightarrow>
          (let g = sweep_openuv x g in
           if sweep_alive g x then gc_sweep_root lim ((makewhite x g)\<lparr>gc_sweep := Some x\<rparr>)
           else gc_sweep_root lim (gc_freefunc x (g\<lparr>gc_root := remove1 x (gc_root g)\<rparr>))))"

section \<open>Weak tables\<close>

definition is_str :: "gcst \<Rightarrow> addr \<Rightarrow> bool" where "is_str g x \<longleftrightarrow> (case h_obj g x of Some (OStr s) \<Rightarrow> True | _ \<Rightarrow> False)"
definition is_udata :: "gcst \<Rightarrow> addr \<Rightarrow> bool" where "is_udata g x \<longleftrightarrow> (case h_obj g x of Some (OUdata mt env) \<Rightarrow> True | _ \<Rightarrow> False)"
definition is_cdata :: "gcst \<Rightarrow> addr \<Rightarrow> bool" where "is_cdata g x \<longleftrightarrow> h_obj g x = Some OCdata"

definition gc_mayclear :: "gcv \<Rightarrow> bool \<Rightarrow> gcst \<Rightarrow> gcst \<times> bool" where
  "gc_mayclear v val g =
     (case v of
        VRef x \<Rightarrow> if is_str g x then (gc_mark_str x g, False)
                  else if iswhite g x then (g, True)
                  else if is_udata g x \<and> val \<and> isfinalized g x then (g, True)
                  else (g, False)
      | _ \<Rightarrow> (g, False))"

fun clear_array :: "gcv list \<Rightarrow> gcst \<Rightarrow> gcst \<times> gcv list" where
  "clear_array [] g = (g, [])"
| "clear_array (v # vs) g =
     (case gc_mayclear v True g of (g, c) \<Rightarrow>
       (case clear_array vs g of (g, ws) \<Rightarrow> (g, (if c then VNil else v) # ws)))"

definition clear_node :: "gcv \<times> gcv \<Rightarrow> gcst \<Rightarrow> gcst \<times> (gcv \<times> gcv)" where
  "clear_node n g =
     (case n of (v, k) \<Rightarrow>
        if v = VNil then (g, n)
        else (case gc_mayclear k False g of (g, c) \<Rightarrow>
               if c then (g, (VNil, k))
               else (case gc_mayclear v True g of (g, c) \<Rightarrow> (g, (if c then VNil else v, k)))))"

fun clear_nodes :: "(gcv \<times> gcv) list \<Rightarrow> gcst \<Rightarrow> gcst \<times> (gcv \<times> gcv) list" where
  "clear_nodes [] g = (g, [])"
| "clear_nodes (n # ns) g =
     (case clear_node n g of (g, m) \<Rightarrow> (case clear_nodes ns g of (g, ms) \<Rightarrow> (g, m # ms)))"

definition clear_tab :: "addr \<Rightarrow> gcst \<Rightarrow> gcst" where
  "clear_tab x g =
     (let t = tab_of g x in
      case (if h_mark g x AND word_of_int LJ_GC_WEAKVAL \<noteq> 0 then clear_array (gt_array t) g else (g, gt_array t)) of
        (g, vs) \<Rightarrow>
          (case clear_nodes (gt_node t) g of
             (g, ns) \<Rightarrow> set_obj x (OTab (t\<lparr>gt_array := vs, gt_node := ns\<rparr>)) g))"

definition gc_clearweak :: "addr list \<Rightarrow> gcst \<Rightarrow> gcst" where "gc_clearweak xs g = List.fold clear_tab xs g"

section \<open>Finalizers\<close>

text \<open>
  The call of a finalizer runs the interpreter on arbitrary code; \<open>fin\<close> is what it does to the state.
\<close>

type_synonym fincall = "gcv \<Rightarrow> addr \<Rightarrow> gcst \<Rightarrow> gcst"

definition clear_value :: "addr \<Rightarrow> addr \<Rightarrow> gcst \<Rightarrow> gcst" where
  "clear_value x key g =
     (let t = tab_of g x
      in set_obj x (OTab (t\<lparr>gt_node := map (\<lambda>(v, k). (if k = VRef key then VNil else v, k)) (gt_node t)\<rparr>)) g)"

definition gc_finalize :: "fincall \<Rightarrow> gcst \<Rightarrow> gcst" where
  "gc_finalize fin g =
     (let x = hd (gc_mmudata g); g = g\<lparr>gc_mmudata := tl (gc_mmudata g)\<rparr> in
      if is_cdata g x then
        (let g = g\<lparr>gc_root := x # gc_root g\<rparr>; g = makewhite x g;
             g = set_mark x (h_mark g x AND NOT LJ_GC_CDATA_FIN) g
         in case tab_getref g (g_finalizer g) x of
              Some v \<Rightarrow> if v = VNil then g
                        else fin v x (clear_value (g_finalizer g) x (g\<lparr>gc_nocdatafin := False\<rparr>))
            | None \<Rightarrow> g)
      else
        (let g = g\<lparr>gc_root := takeWhile (\<lambda>y. y \<noteq> g_mainth g) (gc_root g) @ g_mainth g # x # after (Some (g_mainth g)) (gc_root g)\<rparr>;
             g = makewhite x g
         in case lj_meta_fastg (udata_mt g x) MM_gc g of
              (g, Some mo) \<Rightarrow> fin mo x g
            | (g, None) \<Rightarrow> g))"

section \<open>The collector\<close>

definition atomic :: "addr \<Rightarrow> gcst \<Rightarrow> gcst option" where
  "atomic L g =
     (case gc_propagate_gray (gc_mark_uv g) of None \<Rightarrow> None | Some g \<Rightarrow>
       (let g = g\<lparr>gc_gray := gc_weak g, gc_weak := []\<rparr>;
            g = gc_markobj L g;
            g = gc_traverse_trace (g_curtrace g) g
        in case gc_propagate_gray (gc_mark_gcroot g) of None \<Rightarrow> None | Some g \<Rightarrow>
         (case gc_propagate_gray (g\<lparr>gc_gray := gc_grayagain g, gc_grayagain := []\<rparr>) of None \<Rightarrow> None | Some g \<Rightarrow>
           (case gc_propagate_gray (gc_mark_mmudata (lj_gc_separateudata False g)) of None \<Rightarrow> None | Some g \<Rightarrow>
             (let g = gc_clearweak (gc_weak g) g
              in Some (g\<lparr>gc_currentwhite := otherwhite g, gc_sweep := None\<rparr>))))))"

definition GCSWEEPMAX :: nat where "GCSWEEPMAX = 40"

definition gc_onestep :: "fincall \<Rightarrow> addr \<Rightarrow> gcst \<Rightarrow> gcst option" where
  "gc_onestep fin L g =
     (case gc_state g of
        GCSpause \<Rightarrow> Some (gc_mark_start g)
      | GCSpropagate \<Rightarrow>
          if gc_gray g \<noteq> [] then Some (propagatemark g) else Some (g\<lparr>gc_state := GCSatomic\<rparr>)
      | GCSatomic \<Rightarrow>
          if g_jit_L g \<noteq> 0 then Some g
          else map_option (\<lambda>g. g\<lparr>gc_state := GCSsweepstring, gc_sweepstr := 0\<rparr>) (atomic L g)
      | GCSsweepstring \<Rightarrow>
          (let i = gc_sweepstr g; g = g\<lparr>gc_sweepstr := i + 1\<rparr> in
           case fullsweep (gc_strhash g ! i) g of (g, xs) \<Rightarrow>
             (let g = g\<lparr>gc_strhash := (gc_strhash g)[i := xs]\<rparr>
              in Some (if gc_sweepstr g \<ge> length (gc_strhash g) then g\<lparr>gc_state := GCSsweep\<rparr> else g)))
      | GCSsweep \<Rightarrow>
          (let g = gc_sweep_root GCSWEEPMAX g in
           Some (if after (gc_sweep g) (gc_root g) = []
                 then (if gc_mmudata g \<noteq> [] then g\<lparr>gc_state := GCSfinalize, gc_nocdatafin := True\<rparr>
                       else g\<lparr>gc_state := GCSpause\<rparr>)
                 else g))
      | GCSfinalize \<Rightarrow>
          if gc_mmudata g \<noteq> [] then (if g_jit_L g \<noteq> 0 then Some g else Some (gc_finalize fin g))
          else Some (g\<lparr>gc_state := GCSpause\<rparr>))"

text \<open>New objects.\<close>

definition lj_mem_newgco :: "addr \<Rightarrow> gcobj \<Rightarrow> gcst \<Rightarrow> gcst" where
  "lj_mem_newgco x ob g = newwhite x ((set_obj x ob g)\<lparr>gc_root := x # gc_root g\<rparr>)"

definition lj_udata_new :: "addr \<Rightarrow> addr \<Rightarrow> gcst \<Rightarrow> gcst" where
  "lj_udata_new x env g =
     newwhite x ((set_obj x (OUdata 0 env) g)\<lparr>gc_root :=
       takeWhile (\<lambda>y. y \<noteq> g_mainth g) (gc_root g) @ g_mainth g # x # after (Some (g_mainth g)) (gc_root g)\<rparr>)"

text \<open>
  Strings are interned: \<open>lj_str_new\<close> finds the string in its chain \<open>i\<close> or puts a new object at its head.
  The string table is rehashed by the hash field of the strings, \<open>hash\<close>.
\<close>

definition gc_str_new :: "nat \<Rightarrow> byte list \<Rightarrow> addr \<Rightarrow> gcst \<Rightarrow> gcst" where
  "gc_str_new i s fresh g =
     (case find (\<lambda>x. h_obj g x = Some (OStr s)) (gc_strhash g ! i) of
        Some x \<Rightarrow> if isdead g x then set_mark x (h_mark g x XOR LJ_GC_WHITES) g else g
      | None \<Rightarrow> (newwhite fresh (set_obj fresh (OStr s) g))\<lparr>gc_strhash := (gc_strhash g)[i := fresh # gc_strhash g ! i]\<rparr>)"

definition str_link :: "(addr \<Rightarrow> nat) \<Rightarrow> nat \<Rightarrow> addr \<Rightarrow> addr list list \<Rightarrow> addr list list" where
  "str_link hash n x cs = cs[hash x mod n := x # cs ! (hash x mod n)]"

definition gc_str_resize :: "(addr \<Rightarrow> nat) \<Rightarrow> nat \<Rightarrow> gcst \<Rightarrow> gcst" where
  "gc_str_resize hash n g =
     (if gc_state g = GCSsweepstring \<or> n \<ge> 2 ^ 26 then g
      else g\<lparr>gc_strhash := List.fold (str_link hash n) (concat (rev (gc_strhash g))) (replicate n [])\<rparr>)"

end
