(* ===== verification/LJ_GCMark.thy ===== *)
theory LJ_GCMark
  imports LJ_GC
begin

text \<open>
  The mark phase: what \<open>gc_mark\<close> and the traversals do to the colours, and the closure property
  they keep: an object that is not white and not waiting in a list refers only to objects that are not white.
\<close>

section \<open>Mark bytes\<close>

lemma mbyte_bits:
  assumes "n < 8"
  shows "bit (3 :: byte) n \<longleftrightarrow> n < 2" "bit (4 :: byte) n \<longleftrightarrow> n = 2" "bit (8 :: byte) n \<longleftrightarrow> n = 3"
    "bit (24 :: byte) n \<longleftrightarrow> n = 3 \<or> n = 4" "bit (- 4 :: byte) n \<longleftrightarrow> 2 \<le> n" "bit (- 5 :: byte) n \<longleftrightarrow> n \<noteq> 2"
    "bit (- 8 :: byte) n \<longleftrightarrow> 3 \<le> n" "bit (7 :: byte) n \<longleftrightarrow> n < 3" "bit (- 25 :: byte) n \<longleftrightarrow> n \<noteq> 3 \<and> n \<noteq> 4"
    "bit (16 :: byte) n \<longleftrightarrow> n = 4"
proof -
  consider "n = 0" | "n = 1" | "n = 2" | "n = 3" | "n = 4" | "n = 5" | "n = 6" | "n = 7" using assms by linarith
  then show "bit (3 :: byte) n \<longleftrightarrow> n < 2" "bit (4 :: byte) n \<longleftrightarrow> n = 2" "bit (8 :: byte) n \<longleftrightarrow> n = 3"
    "bit (24 :: byte) n \<longleftrightarrow> n = 3 \<or> n = 4" "bit (- 4 :: byte) n \<longleftrightarrow> 2 \<le> n" "bit (- 5 :: byte) n \<longleftrightarrow> n \<noteq> 2"
    "bit (- 8 :: byte) n \<longleftrightarrow> 3 \<le> n" "bit (7 :: byte) n \<longleftrightarrow> n < 3" "bit (- 25 :: byte) n \<longleftrightarrow> n \<noteq> 3 \<and> n \<noteq> 4"
    "bit (16 :: byte) n \<longleftrightarrow> n = 4"
    by (cases; simp add: bit_iff_odd)+
qed

lemma byte_eqI: "(\<And>n. n < 8 \<Longrightarrow> bit (a :: byte) n = bit b n) \<Longrightarrow> a = b"
  by (rule bit_word_eqI) simp

lemma byte_masks [simp]:
  fixes m :: byte
  shows "(m AND - 4) AND 3 = 0" "(m OR 4) AND 3 = m AND 3" "(m AND - 5) AND 3 = m AND 3" "(m OR 8) AND 3 = m AND 3"
    "(m AND - 4) AND 4 = m AND 4" "(m OR 4) AND 4 = 4" "(m AND - 5) AND 4 = 0"
    "(m AND - 4) AND 24 = m AND 24" "(m OR 4) AND 24 = m AND 24" "(m AND - 5) AND 24 = m AND 24"
    "(m AND - 25) AND 3 = m AND 3" "(m OR 16) AND 3 = m AND 3" "(m OR 24) AND 3 = m AND 3"
    "(m AND - 25 OR 8) AND 24 = 8" "(m AND - 25 OR 16) AND 24 = 16" "(m AND - 25 OR 24) AND 24 = 24"
  by (rule byte_eqI, auto simp: bit_and_iff bit_or_iff mbyte_bits simp del: bit_numeral_word_iff bit_neg_numeral_word_iff)+

lemma byte_no_white:
  assumes "(m :: byte) AND 3 = 0"
  shows "m AND - 4 = m"
proof (rule byte_eqI)
  fix n :: nat assume n: "n < 8"
  have "\<not> (bit m n \<and> bit (3 :: byte) n)" using arg_cong [OF assms, of "\<lambda>w. bit w n"] by (simp only: bit_and_iff bit_0_eq bot_apply bot_bool_def simp_thms)
  then show "bit (m AND - 4) n = bit m n"
    using mbyte_bits(1,5) [OF n] by (auto simp: bit_and_iff simp del: bit_numeral_word_iff bit_neg_numeral_word_iff)
qed

lemma set_mark_sel [simp]:
  "h_mark (set_mark x m g) = (h_mark g)(x := m)" "h_obj (set_mark x m g) = h_obj g" "h_nomm (set_mark x m g) = h_nomm g"
  "gc_gray (set_mark x m g) = gc_gray g" "gc_grayagain (set_mark x m g) = gc_grayagain g" "gc_weak (set_mark x m g) = gc_weak g"
  "gc_state (set_mark x m g) = gc_state g" "gc_currentwhite (set_mark x m g) = gc_currentwhite g" "g_trace (set_mark x m g) = g_trace g"
  "g_gcroot (set_mark x m g) = g_gcroot g" "g_uvhead (set_mark x m g) = g_uvhead g" "gc_mmudata (set_mark x m g) = gc_mmudata g"
  "gc_root (set_mark x m g) = gc_root g" "g_mainth (set_mark x m g) = g_mainth g" "g_registry (set_mark x m g) = g_registry g"
  "g_curtrace (set_mark x m g) = g_curtrace g" "gc_strhash (set_mark x m g) = gc_strhash g" "gc_sweep (set_mark x m g) = gc_sweep g"
  "gc_sweepstr (set_mark x m g) = gc_sweepstr g" "gc_nocdatafin (set_mark x m g) = gc_nocdatafin g" "g_jit_L (set_mark x m g) = g_jit_L g"
  "g_finalizer (set_mark x m g) = g_finalizer g"
  by (simp_all add: set_mark_def)

lemmas mark_defs = iswhite_def isblack_def LJ_GC_WHITES_def LJ_GC_BLACK_def white2gray_def gray2black_def black2gray_def

lemma iswhite_set_mark [simp]: "iswhite (set_mark x m g) y = (if y = x then m AND 3 \<noteq> 0 else iswhite g y)"
  by (simp add: iswhite_def LJ_GC_WHITES_def)

lemma iswhite_ops [simp]:
  "iswhite (white2gray x g) y \<longleftrightarrow> y \<noteq> x \<and> iswhite g y"
  "iswhite (gray2black x g) y = iswhite g y" "iswhite (black2gray x g) y = iswhite g y" "iswhite (markfinalized x g) y = iswhite g y"
  by (auto simp: mark_defs markfinalized_def LJ_GC_FINALIZED_def)

lemma isblack_ops [simp]:
  "isblack (white2gray x g) y = isblack g y" "isblack (gray2black x g) y \<longleftrightarrow> y = x \<or> isblack g y"
  "isblack (black2gray x g) y \<longleftrightarrow> y \<noteq> x \<and> isblack g y" "isblack (g\<lparr>gc_gray := xs\<rparr>) y = isblack g y"
  by (auto simp: mark_defs)

lemma iswhite_mark: "h_mark g' = h_mark g \<Longrightarrow> iswhite g' = iswhite g"
  by (simp add: iswhite_def fun_eq_iff)

section \<open>References\<close>

definition vrefs :: "gcv \<Rightarrow> addr set" where "vrefs v = (case v of VRef x \<Rightarrow> {x} | _ \<Rightarrow> {})"

lemma vrefs_simps [simp]: "vrefs VNil = {}" "vrefs VPrim = {}" "vrefs (VRef x) = {x}"
  by (simp_all add: vrefs_def)

definition node_refs :: "int \<Rightarrow> gcv \<times> gcv \<Rightarrow> addr set" where
  "node_refs w n =
     (case n of (v, k) \<Rightarrow>
        if v = VNil then {}
        else (if w AND LJ_GC_WEAKKEY = 0 then vrefs k else {}) \<union> (if w AND LJ_GC_WEAKVAL = 0 then vrefs v else {}))"

definition tab_refs :: "int \<Rightarrow> gctable \<Rightarrow> addr set" where
  "tab_refs w t = (if w AND LJ_GC_WEAKVAL = 0 then \<Union> (vrefs ` set (gt_array t)) else {}) \<union> \<Union> (node_refs w ` set (gt_node t))"

definition trace_refs :: "gcst \<Rightarrow> gctrace \<Rightarrow> addr set" where
  "trace_refs g T =
     (if tr_traceno T = 0 then {}
      else snd ` {c \<in> set (tr_const T). fst c = IR_KGC} \<union> g_trace g ` ({tr_link T, tr_nextroot T, tr_nextside T} - {0}) \<union> {tr_startpt T})"

text \<open>The mode of a table.\<close>

definition tab_mode :: "gcst \<Rightarrow> addr \<Rightarrow> int" where
  "tab_mode g x = tab_weak g (snd (lj_meta_fastg (gt_metatable (tab_of g x)) MM_mode g))"

text \<open>The references of an object, those of a table according to a mode.\<close>

definition refs_of :: "gcst \<Rightarrow> (addr \<Rightarrow> int) \<Rightarrow> addr \<Rightarrow> addr set" where
  "refs_of g w x =
     (case h_obj g x of
        None \<Rightarrow> {}
      | Some ob \<Rightarrow>
          (case ob of
             OStr s \<Rightarrow> {}
           | OUpval closed tv th i \<Rightarrow> vrefs (uvval g x)
           | OThread th \<Rightarrow> \<Union> (vrefs ` set (drop 1 (take (th_top th) (th_stack th)))) \<union> {th_env th} \<union> set (th_frames th)
           | OProto pt \<Rightarrow> {gp_chunkname pt} \<union> set (gp_kgc pt) \<union> (if gp_trace pt \<noteq> 0 then {g_trace g (gp_trace pt)} else {})
           | OFuncL env pt uvs \<Rightarrow> {env, pt} \<union> set uvs
           | OFuncC env uvs \<Rightarrow> {env} \<union> \<Union> (vrefs ` set uvs)
           | OTrace T \<Rightarrow> trace_refs g T
           | OCdata \<Rightarrow> {}
           | OTab t \<Rightarrow> (if gt_metatable t \<noteq> 0 then {gt_metatable t} else {}) \<union> tab_refs (w x) t
           | OUdata mt env \<Rightarrow> (if mt \<noteq> 0 then {mt} else {}) \<union> {env}))"

text \<open>The references that are followed, and all references that count (the keys of a table with mode K do not).\<close>

definition kids :: "gcst \<Rightarrow> addr \<Rightarrow> addr set" where "kids g = refs_of g (tab_mode g)"
definition refs :: "gcst \<Rightarrow> addr \<Rightarrow> addr set" where "refs g = refs_of g (\<lambda>x. if tab_mode g x < 0 then tab_mode g x else 0)"

section \<open>Marking\<close>

text \<open>What references depend on.\<close>

definition same_heap :: "gcst \<Rightarrow> gcst \<Rightarrow> bool" where
  "same_heap g g' \<longleftrightarrow> h_obj g' = h_obj g \<and> h_nomm g' = h_nomm g \<and> g_trace g' = g_trace g \<and> g_gcroot g' = g_gcroot g"

lemma same_heap_mode:
  assumes "same_heap g g'"
  shows "tab_mode g' = tab_mode g" "uvval g' = uvval g" "tab_of g' = tab_of g"
proof -
  note s = assms [unfolded same_heap_def]
  show t: "tab_of g' = tab_of g" by (intro ext) (simp only: tab_of_def s)
  have k: "stack_slot g' = stack_slot g" by (intro ext) (simp only: stack_slot_def s)
  show "uvval g' = uvval g" by (intro ext) (simp only: uvval_def s k)
  have "str_of g' = str_of g" by (intro ext) (simp only: str_of_def s)
  moreover have "snd (lj_meta_fastg mt mm g') = snd (lj_meta_fastg mt mm g)" for mt mm
    using s t by (simp add: lj_meta_fastg_def lj_meta_cache_def tab_getref_def split: option.split)
  ultimately show "tab_mode g' = tab_mode g" using t by (simp add: tab_mode_def tab_weak_def fun_eq_iff split: option.split)
qed

lemma same_heap_refs:
  assumes "same_heap g g'"
  shows "refs_of g' w = refs_of g w" "kids g' = kids g" "refs g' = refs g"
proof -
  note s = assms [unfolded same_heap_def]
  have t: "trace_refs g' = trace_refs g" by (intro ext) (simp only: trace_refs_def s)
  have r: "refs_of g' w = refs_of g w" for w
    by (intro ext) (simp only: refs_of_def t s same_heap_mode(2) [OF assms])
  show "refs_of g' w = refs_of g w" "kids g' = kids g" "refs g' = refs g"
    by (simp_all only: kids_def refs_def r same_heap_mode(1) [OF assms])
qed

lemma kids_refs: "kids g x \<subseteq> refs g x"
proof -
  have n: "node_refs w n \<subseteq> node_refs 0 n" for w n by (auto simp: node_refs_def split: prod.split)
  have "tab_refs w t \<subseteq> tab_refs 0 t" for w t
  proof -
    have "\<Union> (node_refs w ` set (gt_node t)) \<subseteq> \<Union> (node_refs 0 ` set (gt_node t))" using n by (intro UN_mono) auto
    then show ?thesis by (auto simp: tab_refs_def)
  qed
  then show ?thesis by (auto simp: kids_def refs_def refs_of_def split: option.splits gcobj.splits)
qed

text \<open>The objects that wait in a list to be traversed.\<close>

definition travobj :: "gcst \<Rightarrow> addr \<Rightarrow> bool" where
  "travobj g x \<longleftrightarrow> (case h_obj g x of Some (OThread th) \<Rightarrow> True | Some (OProto pt) \<Rightarrow> True | Some (OFuncL a b c) \<Rightarrow> True
      | Some (OFuncC a b) \<Rightarrow> True | Some (OTrace T) \<Rightarrow> True | Some (OTab t) \<Rightarrow> True | _ \<Rightarrow> False)"

lemma same_heap_trav:
  assumes "same_heap g g'"
  shows "travobj g' = travobj g"
proof -
  note s = assms [unfolded same_heap_def]
  show ?thesis by (intro ext) (simp only: travobj_def s)
qed

text \<open>Only colours and the gray list change.\<close>

definition only_marks :: "gcst \<Rightarrow> gcst \<Rightarrow> bool" where
  "only_marks g g' \<longleftrightarrow> (\<exists>mk gr. g' = g\<lparr>h_mark := mk, gc_gray := gr\<rparr>)"

lemma only_marks_trans: "only_marks g g1 \<Longrightarrow> only_marks g1 g2 \<Longrightarrow> only_marks g g2"
proof -
  assume "only_marks g g1" "only_marks g1 g2"
  then obtain mk1 gr1 mk2 gr2 where "g1 = g\<lparr>h_mark := mk1, gc_gray := gr1\<rparr>" "g2 = g1\<lparr>h_mark := mk2, gc_gray := gr2\<rparr>"
    unfolding only_marks_def by blast
  then have "g2 = g\<lparr>h_mark := mk2, gc_gray := gr2\<rparr>" by simp
  then show "only_marks g g2" unfolding only_marks_def by (intro exI)
qed

lemma only_marks_heap: "only_marks g g' \<Longrightarrow> same_heap g g'"
  by (auto simp: only_marks_def same_heap_def)

text \<open>The objects that are black once they are marked; the others are gray.\<close>

definition blackkind :: "gcst \<Rightarrow> addr \<Rightarrow> bool" where
  "blackkind g x \<longleftrightarrow> (case h_obj g x of Some (OUdata mt env) \<Rightarrow> True | Some (OUpval closed tv th i) \<Rightarrow> closed | _ \<Rightarrow> False)"

text \<open>Marking from \<open>g\<close> to \<open>g'\<close>; the references of the objects in \<open>E\<close> are still to be marked.\<close>

definition marksx :: "addr set \<Rightarrow> gcst \<Rightarrow> gcst \<Rightarrow> bool" where
  "marksx E g g' \<longleftrightarrow>
     only_marks g g' \<and>
     (\<exists>gr. gc_gray g' = gr @ gc_gray g \<and> distinct gr \<and> (\<forall>y \<in> set gr. iswhite g y \<and> \<not> iswhite g' y \<and> travobj g y)) \<and>
     (\<forall>y. \<not> iswhite g y \<or> iswhite g' y \<longrightarrow> h_mark g' y = h_mark g y) \<and>
     (\<forall>y. h_mark g' y AND 24 = h_mark g y AND 24) \<and>
     (\<forall>y. iswhite g y \<and> \<not> iswhite g' y \<and> y \<notin> E \<longrightarrow> y \<in> set (gc_gray g') \<or> \<not> travobj g y \<and> (\<forall>z \<in> kids g y. \<not> iswhite g' z)) \<and>
     (\<forall>y. iswhite g y \<and> \<not> iswhite g' y \<and> y \<notin> E \<longrightarrow> isblack g' y = (isblack g y \<or> blackkind g y))"

abbreviation marks :: "gcst \<Rightarrow> gcst \<Rightarrow> bool" where "marks \<equiv> marksx {}"

lemma marksxD:
  assumes "marksx E g g'"
  shows "only_marks g g'"
    "\<exists>gr. gc_gray g' = gr @ gc_gray g \<and> distinct gr \<and> (\<forall>y \<in> set gr. iswhite g y \<and> \<not> iswhite g' y \<and> travobj g y)"
    "\<not> iswhite g y \<or> iswhite g' y \<Longrightarrow> h_mark g' y = h_mark g y" "h_mark g' y AND 24 = h_mark g y AND 24"
    "iswhite g y \<Longrightarrow> \<not> iswhite g' y \<Longrightarrow> y \<notin> E \<Longrightarrow> y \<in> set (gc_gray g') \<or> \<not> travobj g y \<and> (\<forall>z \<in> kids g y. \<not> iswhite g' z)"
    "iswhite g y \<Longrightarrow> \<not> iswhite g' y \<Longrightarrow> y \<notin> E \<Longrightarrow> isblack g' y = (isblack g y \<or> blackkind g y)"
  using assms unfolding marksx_def by simp_all

lemma marksx_heap: "marksx E g g' \<Longrightarrow> same_heap g g'"
  by (rule only_marks_heap [OF marksxD(1)])

lemma marksx_mono: "marksx E g g' \<Longrightarrow> \<not> iswhite g x \<Longrightarrow> \<not> iswhite g' x"
  using marksxD(3) [of E g g' x] by (simp add: iswhite_def)

lemma marks_gray: "marksx E g g' \<Longrightarrow> set (gc_gray g) \<subseteq> set (gc_gray g')"
  using marksxD(2) [of E g g'] by auto

lemma marks_refl: "marks g g"
proof -
  have "g = g\<lparr>h_mark := h_mark g, gc_gray := gc_gray g\<rparr>" by simp
  then have "only_marks g g" unfolding only_marks_def by (intro exI)
  then show ?thesis by (simp add: marksx_def)
qed

lemma marks_trans:
  assumes "marksx E g g1" "marks g1 g2"
  shows "marksx E g g2"
proof -
  note h = same_heap_refs(2) [OF marksx_heap [OF assms(1)]]
  have t: "travobj g1 = travobj g" by (rule same_heap_trav [OF marksx_heap [OF assms(1)]])
  have bk: "blackkind g1 y = blackkind g y" for y using marksx_heap [OF assms(1)] by (simp add: blackkind_def same_heap_def)
  note m1 = marksx_mono [OF assms(1)] and m2 = marksx_mono [OF assms(2)]
  note d1 = marksxD [OF assms(1)] and d2 = marksxD [OF assms(2)]
  have w: "iswhite g1 y \<Longrightarrow> iswhite g y" "iswhite g2 y \<Longrightarrow> iswhite g1 y" for y using m1 m2 by blast+
  obtain gr1 where 1: "gc_gray g1 = gr1 @ gc_gray g" "distinct gr1" "\<And>y. y \<in> set gr1 \<Longrightarrow> iswhite g y \<and> \<not> iswhite g1 y \<and> travobj g y"
    using d1(2) by blast
  obtain gr2 where 2: "gc_gray g2 = gr2 @ gc_gray g1" "distinct gr2" "\<And>y. y \<in> set gr2 \<Longrightarrow> iswhite g1 y \<and> \<not> iswhite g2 y \<and> travobj g1 y"
    using d2(2) by blast
  show ?thesis unfolding marksx_def
  proof (intro conjI allI impI)
    show "only_marks g g2" by (rule only_marks_trans [OF d1(1) d2(1)])
    have "gc_gray g2 = (gr2 @ gr1) @ gc_gray g" using 1(1) 2(1) by simp
    moreover have "distinct (gr2 @ gr1)" using 1(2,3) 2(2,3) by auto
    moreover have "\<forall>y \<in> set (gr2 @ gr1). iswhite g y \<and> \<not> iswhite g2 y \<and> travobj g y"
      using 1(3) 2(3) w m2 unfolding t by auto
    ultimately show "\<exists>gr. gc_gray g2 = gr @ gc_gray g \<and> distinct gr \<and> (\<forall>y \<in> set gr. iswhite g y \<and> \<not> iswhite g2 y \<and> travobj g y)" by blast
    show "h_mark g2 y = h_mark g y" if "\<not> iswhite g y \<or> iswhite g2 y" for y
      using that d1(3) [of y] d2(3) [of y] w m1 by metis
    show "h_mark g2 y AND 24 = h_mark g y AND 24" for y using d1(4) d2(4) by simp
    fix y assume y: "iswhite g y \<and> \<not> iswhite g2 y \<and> y \<notin> E"
    show "isblack g2 y = (isblack g y \<or> blackkind g y)"
    proof (cases "iswhite g1 y")
      case True
      then have "isblack g1 y = isblack g y" using d1(3) [of y] by (simp add: isblack_def)
      then show ?thesis using d2(6) [of y] y True bk by simp
    next
      case False
      then have "isblack g2 y = isblack g1 y" using d2(3) [of y] by (simp add: isblack_def)
      then show ?thesis using d1(6) [of y] y False by simp
    qed
    show "y \<in> set (gc_gray g2) \<or> \<not> travobj g y \<and> (\<forall>z \<in> kids g y. \<not> iswhite g2 z)"
    proof (cases "iswhite g1 y")
      case True
      then show ?thesis using d2(5) [of y] y unfolding h t by blast
    next
      case False
      then show ?thesis using d1(5) [of y] y m2 marks_gray [OF assms(2)] by blast
    qed
  qed
qed

lemma marks_done:
  assumes "marksx {x} g g'" "\<And>z. z \<in> kids g x \<Longrightarrow> \<not> iswhite g' z" "\<not> travobj g x"
    "isblack g' x = (isblack g x \<or> blackkind g x)"
  shows "marks g g'"
proof -
  have "isblack g' y = (isblack g y \<or> blackkind g y)" if "iswhite g y" "\<not> iswhite g' y" for y
    using that marksxD(6) [OF assms(1), of y] assms(4) by (cases "y = x") auto
  moreover
  have "y \<in> set (gc_gray g') \<or> \<not> travobj g y \<and> (\<forall>z \<in> kids g y. \<not> iswhite g' z)" if "iswhite g y" "\<not> iswhite g' y" for y
    using that marksxD(5) [OF assms(1), of y] assms(2,3) by (cases "y = x") auto
  ultimately show ?thesis using marksxD(1-4) [OF assms(1)] unfolding marksx_def by simp
qed

text \<open>One object loses its white colour.\<close>

lemma marks_white2gray:
  assumes "iswhite g x"
  shows "marksx {x} g (white2gray x g)" "marksx {x} g (gray2black x (white2gray x g))"
    "travobj g x \<Longrightarrow> marks g ((white2gray x g)\<lparr>gc_gray := x # gc_gray g\<rparr>)"
proof -
  have o: "only_marks g (white2gray x g)" "only_marks g (gray2black x (white2gray x g))"
    "only_marks g ((white2gray x g)\<lparr>gc_gray := x # gc_gray g\<rparr>)"
    unfolding only_marks_def white2gray_def gray2black_def set_mark_def
    by (rule exI, rule exI [of _ "gc_gray g"], simp) (rule exI, rule exI [of _ "gc_gray g"], simp, rule exI, rule exI, simp)
  have m: "h_mark (white2gray x g) y AND 24 = h_mark g y AND 24" "h_mark (gray2black x (white2gray x g)) y AND 24 = h_mark g y AND 24" for y
    by (simp_all add: white2gray_def gray2black_def LJ_GC_WHITES_def LJ_GC_BLACK_def)
  have n: "h_mark (white2gray x g) y = h_mark g y" "h_mark (gray2black x (white2gray x g)) y = h_mark g y" if "y \<noteq> x" for y
    using that by (simp_all add: white2gray_def gray2black_def)
  have g: "gc_gray (white2gray x g) = gc_gray g" "gc_gray (gray2black x (white2gray x g)) = gc_gray g"
    by (simp_all add: white2gray_def gray2black_def)
  have n': "h_mark (white2gray x g) y = h_mark g y" "h_mark (gray2black x (white2gray x g)) y = h_mark g y" if "\<not> iswhite g y" for y
    using that n assms by (cases "y = x"; simp)+
  show "marksx {x} g (white2gray x g)" "marksx {x} g (gray2black x (white2gray x g))"
    unfolding marksx_def using o m n n' g assms by auto
  assume t: "travobj g x"
  have w: "iswhite (g'\<lparr>gc_gray := xs\<rparr>) = iswhite g'" for g' xs by (simp add: iswhite_def fun_eq_iff)
  have bk: "\<not> blackkind g x" using t by (auto simp: travobj_def blackkind_def split: option.splits gcobj.splits)
  show "marks g ((white2gray x g)\<lparr>gc_gray := x # gc_gray g\<rparr>)"
    unfolding marksx_def w using o m n n' g assms t bk by auto
qed

section \<open>Typing of the heap\<close>

definition is_tab :: "gcst \<Rightarrow> addr \<Rightarrow> bool" where "is_tab g x \<longleftrightarrow> (case h_obj g x of Some (OTab t) \<Rightarrow> True | _ \<Rightarrow> False)"
definition is_trace :: "gcst \<Rightarrow> addr \<Rightarrow> bool" where "is_trace g x \<longleftrightarrow> (case h_obj g x of Some (OTrace t) \<Rightarrow> True | _ \<Rightarrow> False)"
definition is_upval :: "gcst \<Rightarrow> addr \<Rightarrow> bool" where "is_upval g x \<longleftrightarrow> (case h_obj g x of Some (OUpval c v t i) \<Rightarrow> True | _ \<Rightarrow> False)"
definition is_thread :: "gcst \<Rightarrow> addr \<Rightarrow> bool" where "is_thread g x \<longleftrightarrow> (case h_obj g x of Some (OThread t) \<Rightarrow> True | _ \<Rightarrow> False)"

definition obj_ok :: "gcst \<Rightarrow> addr \<Rightarrow> bool" where
  "obj_ok g x \<longleftrightarrow>
     (case h_obj g x of
        None \<Rightarrow> True
      | Some ob \<Rightarrow>
          (case ob of
             OUpval c v t i \<Rightarrow> (\<forall>y \<in> vrefs (uvval g x). \<not> is_upval g y)
           | OUdata mt env \<Rightarrow> (mt \<noteq> 0 \<longrightarrow> is_tab g mt) \<and> is_tab g env
           | OProto pt \<Rightarrow> is_str g (gp_chunkname pt) \<and> (gp_trace pt \<noteq> 0 \<longrightarrow> is_trace g (g_trace g (gp_trace pt)))
           | OTrace T \<Rightarrow> tr_traceno T \<noteq> 0 \<longrightarrow> (\<forall>n \<in> {tr_link T, tr_nextroot T, tr_nextside T} - {0}. is_trace g (g_trace g n))
           | _ \<Rightarrow> True))"

text \<open>All references lead to objects of the right kind.\<close>

definition typed :: "gcst \<Rightarrow> bool" where
  "typed g \<longleftrightarrow> (\<forall>x. obj_ok g x \<and> (\<forall>y \<in> refs g x. h_obj g y \<noteq> None))"

lemma same_heap_kind:
  assumes "same_heap g g'"
  shows "is_tab g' = is_tab g" "is_trace g' = is_trace g" "is_upval g' = is_upval g" "is_str g' = is_str g" "is_thread g' = is_thread g"
proof -
  note s = assms [unfolded same_heap_def]
  show "is_tab g' = is_tab g" "is_trace g' = is_trace g" "is_upval g' = is_upval g" "is_str g' = is_str g" "is_thread g' = is_thread g"
    by (intro ext, simp only: is_tab_def is_trace_def is_upval_def is_str_def is_thread_def s)+
qed

lemma same_heap_obj_ok:
  assumes "same_heap g g'"
  shows "obj_ok g' = obj_ok g"
  by (intro ext) (simp only: obj_ok_def assms [unfolded same_heap_def] same_heap_kind [OF assms] same_heap_mode(2) [OF assms])

lemma same_heap_typed:
  assumes "same_heap g g'"
  shows "typed g' = typed g"
  by (simp only: typed_def assms [unfolded same_heap_def] same_heap_obj_ok [OF assms] same_heap_refs(3) [OF assms])

lemma typedD: "typed g \<Longrightarrow> y \<in> kids g x \<Longrightarrow> h_obj g y \<noteq> None" "typed g \<Longrightarrow> obj_ok g x"
  "typed g \<Longrightarrow> y \<in> refs g x \<Longrightarrow> h_obj g y \<noteq> None"
  using kids_refs [of g x] by (simp add: typed_def, blast) (simp_all add: typed_def)

lemma same_heap_refl [simp]: "same_heap g g" by (simp add: same_heap_def)

lemma same_heap_trans: "same_heap g g1 \<Longrightarrow> same_heap g1 g2 \<Longrightarrow> same_heap g g2"
  by (simp add: same_heap_def)

lemma heap_ops [simp]: "same_heap g (white2gray x g)" "same_heap g (gray2black x g)" "same_heap g (black2gray x g)"
  "same_heap g (g\<lparr>gc_gray := xs\<rparr>)" "same_heap g (g\<lparr>gc_grayagain := xs\<rparr>)" "same_heap g (g\<lparr>gc_weak := xs\<rparr>)"
  "same_heap g (set_mark x m g)"
  by (simp_all add: same_heap_def white2gray_def gray2black_def black2gray_def)

section \<open>\<open>gc_mark\<close> marks\<close>

definition mark_rank :: "gcst \<Rightarrow> addr \<Rightarrow> nat" where
  "mark_rank g x = (case h_obj g x of Some (OUpval c v t i) \<Rightarrow> 3 | Some (OUdata mt env) \<Rightarrow> 2 | _ \<Rightarrow> 1)"

definition marked_by :: "gcst \<Rightarrow> addr set \<Rightarrow> gcst \<Rightarrow> bool" where
  "marked_by g X g' \<longleftrightarrow> marks g g' \<and> (\<forall>z \<in> X. \<not> iswhite g' z)"

lemma mark_obj_ok:
  assumes "iswhite g x \<Longrightarrow> marked_by g {x} (f x g)"
  shows "marked_by g {x} (mark_obj f x g)"
  using assms marks_refl by (auto simp: mark_obj_def marked_by_def)

lemma mark_tv_ok:
  assumes "\<And>x. x \<in> vrefs v \<Longrightarrow> iswhite g x \<Longrightarrow> marked_by g {x} (f x g)"
  shows "marked_by g (vrefs v) (mark_tv f v g)"
proof (cases v)
  case (VRef x)
  then show ?thesis using mark_obj_ok [of g x f] assms by (simp add: mark_tv_def)
qed (simp_all add: mark_tv_def marked_by_def marks_refl)

lemma marked_trans:
  assumes "marksx E g g1" "marked_by g1 X g2"
  shows "marksx E g g2" "\<forall>z \<in> X. \<not> iswhite g2 z"
  using assms marks_trans by (auto simp: marked_by_def)

lemma mrank_simps:
  "is_tab g x \<Longrightarrow> mark_rank g x = 1" "\<not> is_upval g x \<Longrightarrow> mark_rank g x \<le> 2" "is_tab g x \<Longrightarrow> h_obj g x \<noteq> None" "1 \<le> mark_rank g x"
  by (auto simp: is_tab_def is_upval_def mark_rank_def split: option.splits gcobj.splits)

lemma same_heap_rank: "same_heap g g' \<Longrightarrow> mark_rank g' = mark_rank g"
  by (intro ext) (simp only: mark_rank_def same_heap_def)

text \<open>A newly marked object may be made black.\<close>

lemma marks_blacken:
  assumes "marksx {x} g g'" "iswhite g x" "\<not> iswhite g' x"
  shows "marksx {x} g (gray2black x g')"
proof -
  have "only_marks g' (gray2black x g')"
    unfolding only_marks_def gray2black_def set_mark_def by (rule exI, rule exI [of _ "gc_gray g'"]) simp
  then have o: "only_marks g (gray2black x g')" by (rule only_marks_trans [OF marksxD(1) [OF assms(1)]])
  have g: "gc_gray (gray2black x g') = gc_gray g'" by (simp add: gray2black_def)
  have m: "h_mark (gray2black x g') y AND 24 = h_mark g' y AND 24" for y by (simp add: gray2black_def LJ_GC_BLACK_def)
  have n: "h_mark (gray2black x g') y = h_mark g y" if "\<not> iswhite g y \<or> iswhite g' y" for y
    using marksxD(3) [OF assms(1) that] that assms(2,3) by (cases "y = x") (auto simp: gray2black_def)
  show ?thesis unfolding marksx_def iswhite_ops g m
    using o marksxD(2,4,5,6) [OF assms(1)] n by simp
qed

lemma gc_mark_n_ok:
  "mark_rank g x \<le> n \<Longrightarrow> typed g \<Longrightarrow> iswhite g x \<Longrightarrow> h_obj g x \<noteq> None \<Longrightarrow> marked_by g {x} (gc_mark_n n x g)"
proof (induction n arbitrary: g x)
  case 0
  then show ?case using mrank_simps(4) [of g x] by simp
next
  case (Suc n)
  obtain ob where ob: "h_obj g x = Some ob" using Suc.prems(4) by blast
  note w = marks_white2gray [OF Suc.prems(3)]
  let ?g1 = "white2gray x g"
  have ob1: "h_obj ?g1 x = Some ob" by (simp add: ob white2gray_def)
  have gray: "marked_by g {x} (?g1\<lparr>gc_gray := x # gc_gray ?g1\<rparr>)" if "travobj g x"
    using w(3) [OF that] by (simp add: marked_by_def white2gray_def set_mark_def LJ_GC_WHITES_def iswhite_def)
  have leaf: "marked_by g {x} ?g1" if "kids g x = {}" "\<not> travobj g x" and nb: "\<not> blackkind g x"
    using marks_done [OF w(1)] that nb by (simp add: marked_by_def)
  show ?case
  proof (cases ob)
    case (OUdata mt env)
    have k: "kids g x = (if mt \<noteq> 0 then {mt} else {}) \<union> {env}" using ob OUdata by (simp add: kids_def refs_of_def)
    have t: "mt \<noteq> 0 \<Longrightarrow> is_tab g mt" "is_tab g env" using typedD(2) [OF Suc.prems(2), of x] ob OUdata by (simp_all add: obj_ok_def)
    have n: "1 \<le> n" using Suc.prems(1) ob OUdata by (simp add: mark_rank_def)
    have m: "marked_by g' {y} (mark_obj (gc_mark_n n) y g')" if h: "same_heap g g'" and y: "is_tab g y" for g' y
    proof (rule mark_obj_ok, rule Suc.IH)
      note s = same_heap_kind [OF h] same_heap_typed [OF h]
      have y': "is_tab g' y" using y s(1) by simp
      show "mark_rank g' y \<le> n" using mrank_simps(1) [OF y'] n by simp
      show "typed g'" using Suc.prems(2) s by simp
      show "h_obj g' y \<noteq> None" by (rule mrank_simps(3) [OF y'])
    qed
    let ?g2 = "gray2black x ?g1"
    let ?g3 = "if mt \<noteq> 0 then mark_obj (gc_mark_n n) mt ?g2 else ?g2"
    have h2: "same_heap g ?g2" by (rule marksx_heap [OF w(2)])
    have m3: "marked_by ?g2 (if mt \<noteq> 0 then {mt} else {}) ?g3"
      using m [OF h2 t(1)] marks_refl by (simp add: marked_by_def)
    have m23: "marks ?g2 ?g3" using m3 unfolding marked_by_def by (rule conjunct1)
    have h3: "same_heap g ?g3" by (rule same_heap_trans [OF h2 marksx_heap [OF m23]])
    note m4 = m [OF h3 t(2)]
    let ?g4 = "mark_obj (gc_mark_n n) env ?g3"
    have m24: "marks ?g2 ?g4" by (rule marks_trans [OF m23]) (use m4 in \<open>simp add: marked_by_def\<close>)
    have n: "\<not> iswhite ?g4 z" if "z \<in> kids g x" for z
    proof (cases "z = env")
      case False
      then have "\<not> iswhite ?g3 z" using that k m3 by (auto simp: marked_by_def split: if_splits)
      then show ?thesis using m4 marksx_mono [of "{}" ?g3 ?g4] by (simp add: marked_by_def)
    qed (use m4 in \<open>simp add: marked_by_def\<close>)
    have b4: "isblack ?g4 x" using marksxD(3) [OF m24, of x] by (simp add: isblack_def [of _ x]) (simp add: gray2black_def LJ_GC_BLACK_def)
    have "marks g ?g4" by (rule marks_done [OF marks_trans [OF w(2) m24] n])
      (use ob OUdata b4 in \<open>simp_all add: travobj_def blackkind_def\<close>)
    moreover have "\<not> iswhite ?g4 x" by (rule marksx_mono [OF m24]) simp
    ultimately show ?thesis using ob1 OUdata by (simp add: marked_by_def Let_def)
  next
    case (OUpval c v th i)
    have k: "kids g x = vrefs (uvval g x)" using ob OUpval by (simp add: kids_def refs_of_def)
    have t: "y \<in> vrefs (uvval g x) \<Longrightarrow> \<not> is_upval g y" for y using typedD(2) [OF Suc.prems(2), of x] ob OUpval by (simp add: obj_ok_def)
    have n: "2 \<le> n" using Suc.prems(1) ob OUpval by (simp add: mark_rank_def)
    have h1: "same_heap g ?g1" by simp
    have m: "marked_by ?g1 (vrefs (uvval g x)) (mark_tv (gc_mark_n n) (uvval g x) ?g1)"
    proof (rule mark_tv_ok, rule Suc.IH)
      fix y assume y: "y \<in> vrefs (uvval g x)"
      show "mark_rank ?g1 y \<le> n" using mrank_simps(2) [OF t [OF y]] n same_heap_rank [OF h1] by simp
      show "typed ?g1" using Suc.prems(2) same_heap_typed [OF h1] by simp
      have "y \<in> kids g x" using y k by simp
      then show "h_obj ?g1 y \<noteq> None" using typedD(1) [OF Suc.prems(2)] by (simp add: white2gray_def)
    qed
    let ?g2 = "mark_tv (gc_mark_n n) (uvval g x) ?g1"
    have u: "uvval ?g1 x = uvval g x" using same_heap_mode(2) [OF h1] by simp
    let ?g3 = "if c then gray2black x ?g2 else ?g2"
    have m2: "marksx {x} g ?g2" by (rule marked_trans(1) [OF w(1) m])
    have nw: "\<not> iswhite ?g2 x" using marksx_mono [of "{}" ?g1 ?g2 x] m by (simp add: marked_by_def)
    have m3: "marksx {x} g ?g3" using marks_blacken [OF m2 Suc.prems(3) nw] m2 by simp
    have "isblack ?g2 x = isblack g x" using marksxD(3) [of "{}" ?g1 ?g2 x] m by (simp add: marked_by_def isblack_def white2gray_def LJ_GC_BLACK_def LJ_GC_WHITES_def)
    then have b: "isblack ?g3 x = (isblack g x \<or> blackkind g x)" using ob OUpval by (simp add: blackkind_def)
    have "marks g ?g3" by (rule marks_done [OF m3 _ _ b]) (use m k ob OUpval in \<open>simp_all add: marked_by_def travobj_def\<close>)
    then show ?thesis using ob1 OUpval u nw by (simp add: marked_by_def Let_def)
  qed (use gray leaf ob ob1 in \<open>simp_all add: travobj_def kids_def refs_of_def Let_def blackkind_def\<close>)
qed

lemma gc_mark_ok:
  assumes "typed g" "iswhite g x" "h_obj g x \<noteq> None"
  shows "marked_by g {x} (gc_mark x g)"
proof -
  have "mark_rank g x \<le> 3" by (simp add: mark_rank_def split: option.splits gcobj.splits)
  then show ?thesis unfolding gc_mark_def using assms by (intro gc_mark_n_ok)
qed

lemma gc_markobj_ok: "typed g \<Longrightarrow> h_obj g x \<noteq> None \<Longrightarrow> marked_by g {x} (gc_markobj x g)"
  unfolding gc_markobj_def by (rule mark_obj_ok) (rule gc_mark_ok)

lemma gc_marktv_ok: "typed g \<Longrightarrow> (\<And>x. x \<in> vrefs v \<Longrightarrow> h_obj g x \<noteq> None) \<Longrightarrow> marked_by g (vrefs v) (gc_marktv v g)"
  unfolding gc_marktv_def by (rule mark_tv_ok) (rule gc_mark_ok)

text \<open>Composition of marking steps.\<close>

lemma marked_refl: "marked_by g {} g" by (simp add: marked_by_def marks_refl)

lemma marked_comp:
  assumes "marked_by g X g1" "marked_by g1 Y g2"
  shows "marked_by g (X \<union> Y) g2"
  using assms marks_trans [of "{}" g g1 g2] marksx_mono [of "{}" g1 g2] by (auto simp: marked_by_def)

lemma marked_heap: "marked_by g X g' \<Longrightarrow> same_heap g g'"
  unfolding marked_by_def by (elim conjE) (rule marksx_heap)

lemma marked_fold:
  assumes "\<And>y g'. y \<in> set ys \<Longrightarrow> same_heap g g' \<Longrightarrow> marked_by g' (X y) (f y g')"
  shows "marked_by g (\<Union> (X ` set ys)) (List.fold f ys g)"
  using assms
proof (induction ys arbitrary: g)
  case (Cons y ys)
  have a: "marked_by g (X y) (f y g)" by (rule Cons.prems) simp_all
  have "marked_by (f y g) (\<Union> (X ` set ys)) (List.fold f ys (f y g))"
    by (rule Cons.IH) (use Cons.prems same_heap_trans [OF marked_heap [OF a]] in simp)
  from marked_comp [OF a this] show ?case by simp
qed (simp add: marked_refl)

lemma marked_if: "(b \<Longrightarrow> marked_by g X g') \<Longrightarrow> marked_by g (if b then X else {}) (if b then g' else g)"
  by (simp add: marked_refl)

text \<open>Preconditions carried along.\<close>

lemma heap_pre:
  assumes "same_heap g g'" "typed g"
  shows "typed g'" "h_obj g' = h_obj g" "g_trace g' = g_trace g"
  using assms same_heap_typed [OF assms(1)] by (simp_all add: same_heap_def)

lemma marktrace_ok:
  assumes "is_trace g (g_trace g n)"
  shows "marked_by g {g_trace g n} (gc_marktrace n g)"
proof -
  let ?x = "g_trace g n"
  have t: "travobj g ?x" using assms by (auto simp: is_trace_def travobj_def split: option.splits gcobj.splits)
  show ?thesis
  proof (cases "iswhite g ?x")
    case True
    then have "marks g ((white2gray ?x g)\<lparr>gc_gray := ?x # gc_gray g\<rparr>)" by (rule marks_white2gray(3) [OF _ t])
    then show ?thesis using True
      by (simp add: gc_marktrace_def Let_def marked_by_def white2gray_def set_mark_def iswhite_def LJ_GC_WHITES_def)
  qed (simp add: gc_marktrace_def Let_def marked_by_def marks_refl)
qed

section \<open>Traversals\<close>

lemma traverse_func_ok:
  assumes "typed g" "h_obj g x = Some (OFuncL a b c) \<or> h_obj g x = Some (OFuncC d e)"
  shows "marked_by g (kids g x) (gc_traverse_func x g)"
proof -
  have ex: "h_obj g y \<noteq> None" if "y \<in> kids g x" for y by (rule typedD(1) [OF assms(1) that])
  have o: "marked_by g' {y} (gc_markobj y g')" if "same_heap g g'" "y \<in> kids g x" for g' y
    using gc_markobj_ok [of g' y] heap_pre [OF that(1) assms(1)] ex [OF that(2)] by simp
  have v: "marked_by g' (vrefs v) (gc_marktv v g')" if "same_heap g g'" "vrefs v \<subseteq> kids g x" for g' v
    by (rule gc_marktv_ok) (use heap_pre [OF that(1) assms(1)] ex that(2) in auto)
  from assms(2) show ?thesis
  proof
    assume f: "h_obj g x = Some (OFuncL a b c)"
    then have k: "kids g x = {a} \<union> {b} \<union> \<Union> ((\<lambda>y. {y}) ` set c)" by (auto simp: kids_def refs_of_def)
    have 1: "marked_by g {a} (gc_markobj a g)" by (rule o) (simp_all add: k)
    have 2: "marked_by (gc_markobj a g) {b} (gc_markobj b (gc_markobj a g))" by (rule o [OF marked_heap [OF 1]]) (simp add: k)
    note 3 = marked_comp [OF 1 2]
    have 4: "marked_by (gc_markobj b (gc_markobj a g)) (\<Union> ((\<lambda>y. {y}) ` set c)) (List.fold gc_markobj c (gc_markobj b (gc_markobj a g)))"
      by (rule marked_fold) (use o same_heap_trans [OF marked_heap [OF 3]] k in auto)
    show ?thesis using marked_comp [OF 3 4] f k by (simp add: gc_traverse_func_def)
  next
    assume f: "h_obj g x = Some (OFuncC d e)"
    then have k: "kids g x = {d} \<union> \<Union> (vrefs ` set e)" by (simp add: kids_def refs_of_def)
    have 1: "marked_by g {d} (gc_markobj d g)" by (rule o) (simp_all add: k)
    have 2: "marked_by (gc_markobj d g) (\<Union> (vrefs ` set e)) (List.fold gc_marktv e (gc_markobj d g))"
      by (rule marked_fold) (use v same_heap_trans [OF marked_heap [OF 1]] k in auto)
    show ?thesis using marked_comp [OF 1 2] f k by (simp add: gc_traverse_func_def)
  qed
qed

lemma traverse_trace_ok:
  assumes "typed g" "\<And>y. y \<in> trace_refs g T \<Longrightarrow> h_obj g y \<noteq> None"
    "tr_traceno T \<noteq> 0 \<longrightarrow> (\<forall>n \<in> {tr_link T, tr_nextroot T, tr_nextside T} - {0}. is_trace g (g_trace g n))"
  shows "marked_by g (trace_refs g T) (gc_traverse_trace T g)"
proof (cases "tr_traceno T = 0")
  case True
  then show ?thesis by (simp add: gc_traverse_trace_def trace_refs_def marked_refl)
next
  case False
  let ?K = "\<Union> ((\<lambda>c. if fst c = IR_KGC then {snd c} else {}) ` set (tr_const T))"
  let ?L = "\<lambda>n. if n \<noteq> 0 then {g_trace g n} else {}"
  have k: "trace_refs g T = ?K \<union> ?L (tr_link T) \<union> ?L (tr_nextroot T) \<union> ?L (tr_nextside T) \<union> {tr_startpt T}"
    using False by (auto simp: trace_refs_def)
  have o: "marked_by g' {y} (gc_markobj y g')" if "same_heap g g'" "y \<in> trace_refs g T" for g' y
    using gc_markobj_ok [of g' y] heap_pre [OF that(1) assms(1)] assms(2) [OF that(2)] by simp
  have l: "marked_by g' (?L n) (if n \<noteq> 0 then gc_marktrace n g' else g')"
    if h: "same_heap g g'" and n: "n \<in> {tr_link T, tr_nextroot T, tr_nextside T}" for g' n
  proof (cases "n = 0")
    case z: False
    then have "is_trace g' (g_trace g' n)" using assms(3) False n same_heap_kind(2) [OF h] heap_pre(3) [OF h assms(1)] by auto
    then show ?thesis using marktrace_ok [of g' n] z heap_pre(3) [OF h assms(1)] by simp
  qed (simp add: marked_refl)
  let ?f = "\<lambda>(op, x) g. if op = IR_KGC then gc_markobj x g else g"
  have 1: "marked_by g ?K (List.fold ?f (tr_const T) g)"
  proof (rule marked_fold)
    fix c g' assume c: "c \<in> set (tr_const T)" "same_heap g g'"
    show "marked_by g' (if fst c = IR_KGC then {snd c} else {}) (?f c g')"
    proof (cases "fst c = IR_KGC")
      case True
      then have "snd c \<in> trace_refs g T" using c(1) unfolding k by force
      then show ?thesis using o [OF c(2)] True by (simp add: case_prod_beta)
    qed (simp add: case_prod_beta marked_refl)
  qed
  let ?g1 = "List.fold ?f (tr_const T) g"
  note h1 = marked_heap [OF 1]
  note 2 = marked_comp [OF 1 l [OF h1, of "tr_link T"]]
  let ?g2 = "if tr_link T \<noteq> 0 then gc_marktrace (tr_link T) ?g1 else ?g1"
  have h2: "same_heap g ?g2" by (rule marked_heap [OF 2]) simp
  note 3 = marked_comp [OF 2 l [OF h2, of "tr_nextroot T"]]
  let ?g3 = "if tr_nextroot T \<noteq> 0 then gc_marktrace (tr_nextroot T) ?g2 else ?g2"
  have h3: "same_heap g ?g3" by (rule marked_heap [OF 3]) simp_all
  note 4 = marked_comp [OF 3 l [OF h3, of "tr_nextside T"]]
  let ?g4 = "if tr_nextside T \<noteq> 0 then gc_marktrace (tr_nextside T) ?g3 else ?g3"
  have h4: "same_heap g ?g4" by (rule marked_heap [OF 4]) simp_all
  have 5: "marked_by ?g4 {tr_startpt T} (gc_markobj (tr_startpt T) ?g4)" by (rule o [OF h4]) (simp add: k)
  have "marked_by g (trace_refs g T) (gc_markobj (tr_startpt T) ?g4)"
    unfolding k by (rule marked_comp [OF 4 5]) simp_all
  then show ?thesis by (simp only: gc_traverse_trace_def Let_def False if_False)
qed

lemma mark_str_ok:
  assumes "is_str g x"
  shows "marked_by g {x} (gc_mark_str x g)"
proof (cases "iswhite g x")
  case True
  have k: "kids g x = {}" "\<not> travobj g x" using assms by (auto simp: is_str_def kids_def refs_of_def travobj_def split: option.splits gcobj.splits)
  have "\<not> blackkind g x" using assms by (auto simp: is_str_def blackkind_def split: option.splits gcobj.splits)
  then show ?thesis using marks_done [OF marks_white2gray(1) [OF True]] k by (simp add: marked_by_def gc_mark_str_def)
next
  case False
  then have m: "h_mark g x AND - 4 = h_mark g x" by (intro byte_no_white) (simp add: iswhite_def LJ_GC_WHITES_def)
  have "white2gray x g = g" by (simp add: white2gray_def set_mark_def LJ_GC_WHITES_def m)
  then show ?thesis using False by (simp add: gc_mark_str_def marked_by_def marks_refl)
qed

lemma traverse_proto_ok:
  assumes "typed g" "h_obj g x = Some (OProto pt)"
  shows "marked_by g (kids g x) (gc_traverse_proto pt g)"
proof -
  have k: "kids g x = {gp_chunkname pt} \<union> \<Union> ((\<lambda>y. {y}) ` set (gp_kgc pt)) \<union> (if gp_trace pt \<noteq> 0 then {g_trace g (gp_trace pt)} else {})"
    using assms(2) by (auto simp: kids_def refs_of_def)
  have t: "is_str g (gp_chunkname pt)" "gp_trace pt \<noteq> 0 \<Longrightarrow> is_trace g (g_trace g (gp_trace pt))"
    using typedD(2) [OF assms(1), of x] assms(2) by (simp_all add: obj_ok_def)
  have o: "marked_by g' {y} (gc_markobj y g')" if "same_heap g g'" "y \<in> kids g x" for g' y
    using gc_markobj_ok [of g' y] heap_pre [OF that(1) assms(1)] typedD(1) [OF assms(1) that(2)] by simp
  note 1 = mark_str_ok [OF t(1)]
  let ?g1 = "gc_mark_str (gp_chunkname pt) g"
  have 2: "marked_by ?g1 (\<Union> ((\<lambda>y. {y}) ` set (gp_kgc pt))) (List.fold gc_markobj (gp_kgc pt) ?g1)"
    by (rule marked_fold) (use o same_heap_trans [OF marked_heap [OF 1]] k in auto)
  note 3 = marked_comp [OF 1 2]
  let ?g2 = "List.fold gc_markobj (gp_kgc pt) ?g1"
  have "marked_by ?g2 (if gp_trace pt \<noteq> 0 then {g_trace g (gp_trace pt)} else {}) (if gp_trace pt \<noteq> 0 then gc_marktrace (gp_trace pt) ?g2 else ?g2)"
  proof (cases "gp_trace pt = 0")
    case False
    have "is_trace ?g2 (g_trace ?g2 (gp_trace pt))"
      using t(2) [OF False] same_heap_kind(2) [OF marked_heap [OF 3]] heap_pre(3) [OF marked_heap [OF 3] assms(1)] by simp
    then show ?thesis using marktrace_ok [of ?g2 "gp_trace pt"] False heap_pre(3) [OF marked_heap [OF 3] assms(1)] by simp
  qed (simp add: marked_refl)
  from marked_comp [OF 3 this] show ?thesis unfolding k by (simp only: gc_traverse_proto_def Let_def)
qed

text \<open>The slots of a thread.\<close>

lemma fold_slots_ok:
  assumes "typed g" "\<And>v y. v \<in> set vs \<Longrightarrow> y \<in> vrefs v \<Longrightarrow> h_obj g y \<noteq> None"
  shows "marked_by g (\<Union> (vrefs ` set vs)) (List.fold gc_marktv vs g)"
proof (rule marked_fold, rule gc_marktv_ok)
  fix v g' assume v: "v \<in> set vs" "same_heap g g'"
  show "typed g'" by (rule heap_pre(1) [OF v(2) assms(1)])
  show "h_obj g' y \<noteq> None" if "y \<in> vrefs v" for y
    using assms(2) [OF v(1) that] heap_pre(2) [OF v(2) assms(1)] by simp
qed

lemma fold_objs_ok:
  assumes "typed g" "\<And>y. y \<in> set ys \<Longrightarrow> h_obj g y \<noteq> None"
  shows "marked_by g (set ys) (List.fold gc_markobj ys g)"
proof -
  have "marked_by g (\<Union> ((\<lambda>y. {y}) ` set ys)) (List.fold gc_markobj ys g)"
  proof (rule marked_fold, rule gc_markobj_ok)
    fix y g' assume y: "y \<in> set ys" "same_heap g g'"
    show "typed g'" by (rule heap_pre(1) [OF y(2) assms(1)])
    show "h_obj g' y \<noteq> None" using assms(2) [OF y(1)] heap_pre(2) [OF y(2) assms(1)] by simp
  qed
  then show ?thesis by simp
qed

text \<open>Marking the nodes of a table.\<close>

lemma marknode_ok:
  assumes "typed g" "\<And>y. y \<in> node_refs w n \<Longrightarrow> h_obj g y \<noteq> None"
  shows "marked_by g (node_refs w n) (gc_marknode w n g)"
proof -
  obtain v k where n: "n = (v, k)" by (cases n)
  show ?thesis
  proof (cases "v = VNil")
    case True
    then show ?thesis by (simp add: n gc_marknode_def node_refs_def marked_refl)
  next
    case False
    let ?A = "if w AND LJ_GC_WEAKKEY = 0 then vrefs k else {}" and ?B = "if w AND LJ_GC_WEAKVAL = 0 then vrefs v else {}"
    have r: "node_refs w n = ?A \<union> ?B" using False by (simp add: n node_refs_def)
    let ?g1 = "if w AND LJ_GC_WEAKKEY = 0 then gc_marktv k g else g"
    have 1: "marked_by g ?A ?g1" by (rule marked_if, rule gc_marktv_ok [OF assms(1)]) (use assms(2) r in auto)
    have 2: "marked_by ?g1 ?B (if w AND LJ_GC_WEAKVAL = 0 then gc_marktv v ?g1 else ?g1)"
      by (rule marked_if, rule gc_marktv_ok) (use heap_pre [OF marked_heap [OF 1] assms(1)] assms(2) r in auto)
    show ?thesis unfolding r using marked_comp [OF 1 2] False by (simp only: n gc_marknode_def prod.case Let_def if_False)
  qed
qed

lemma tab_contents_ok:
  assumes "typed g" "\<And>y. y \<in> tab_refs w t \<Longrightarrow> h_obj g y \<noteq> None"
  shows "marked_by g (tab_refs w t) (List.fold (gc_marknode w) (gt_node t)
    (if w AND LJ_GC_WEAKVAL = 0 then List.fold gc_marktv (gt_array t) g else g))"
proof -
  let ?A = "if w AND LJ_GC_WEAKVAL = 0 then \<Union> (vrefs ` set (gt_array t)) else {}"
  let ?g1 = "if w AND LJ_GC_WEAKVAL = 0 then List.fold gc_marktv (gt_array t) g else g"
  have 1: "marked_by g ?A ?g1" by (rule marked_if, rule fold_slots_ok [OF assms(1)]) (use assms(2) in \<open>auto simp: tab_refs_def\<close>)
  have 2: "marked_by ?g1 (\<Union> (node_refs w ` set (gt_node t))) (List.fold (gc_marknode w) (gt_node t) ?g1)"
  proof (rule marked_fold, rule marknode_ok)
    fix n g' y assume n: "n \<in> set (gt_node t)" "same_heap ?g1 g'" "y \<in> node_refs w n"
    then have "h_obj g y \<noteq> None" using assms(2) by (auto simp: tab_refs_def)
    then show "h_obj g' y \<noteq> None" using heap_pre(2) [OF same_heap_trans [OF marked_heap [OF 1] n(2)] assms(1)] by simp
  next
    fix n g' assume "same_heap ?g1 g'"
    then show "typed g'" using heap_pre(1) [OF same_heap_trans [OF marked_heap [OF 1]] assms(1)] by blast
  qed
  show ?thesis using marked_comp [OF 1 2] by (simp only: tab_refs_def)
qed

end
