(* ===== verification/LJ_GCProp.thy ===== *)
theory LJ_GCProp
  imports LJ_GCMark
begin

text \<open>
  One step of propagation: \<open>propagatemark\<close> takes an object from the gray list, marks what it refers
  to, and files threads and weak tables for the atomic phase.  Along the way only stack slots above the top
  of a thread are cleared and the negative metamethod caches are filled, neither of which adds a reference.
\<close>

section \<open>The negative metamethod cache\<close>

definition meta_res :: "gcst \<Rightarrow> addr \<Rightarrow> nat \<Rightarrow> gcv option" where "meta_res g mt mm = snd (lj_meta_fastg mt mm g)"

lemma meta_res_eq:
  "meta_res g mt mm = (if mt = 0 \<or> h_nomm g mt AND push_bit mm 1 \<noteq> 0 then None
     else (case tab_getref g mt (g_gcroot g ! mm) of Some v \<Rightarrow> if v = VNil then None else Some v | None \<Rightarrow> None))"
  by (simp add: meta_res_def lj_meta_fastg_def lj_meta_cache_def split: option.split)

lemma tab_mode_meta: "tab_mode g x = tab_weak g (meta_res g (gt_metatable (tab_of g x)) MM_mode)"
  by (simp add: tab_mode_def meta_res_def)

lemma cache_bit:
  assumes "mm' \<noteq> mm"
  shows "((a :: byte) OR push_bit mm 1) AND push_bit mm' 1 = a AND push_bit mm' 1"
  by (rule byte_eqI) (use assms in \<open>auto simp: bit_simps\<close>)

lemma cache_absorb: "((a :: byte) OR p) AND p = p"
  by (rule byte_eqI) (auto simp: bit_simps)

definition cached :: "addr \<Rightarrow> nat \<Rightarrow> gcst \<Rightarrow> gcst" where
  "cached mt mm g = g\<lparr>h_nomm := (h_nomm g)(mt := h_nomm g mt OR push_bit mm 1)\<rparr>"

lemma fastg_state: "fst (lj_meta_fastg mt mm g) = g \<or> fst (lj_meta_fastg mt mm g) = cached mt mm g \<and> meta_res g mt mm = None"
  by (auto simp: lj_meta_fastg_def lj_meta_cache_def meta_res_def cached_def split: option.split)

lemma cached_meta:
  assumes "meta_res g mt mm = None"
  shows "meta_res (cached mt mm g) mt' mm' = meta_res g mt' mm'"
proof -
  have t: "tab_getref (cached mt mm g) = tab_getref g"
    by (intro ext) (simp add: tab_getref_def tab_of_def cached_def)
  show ?thesis
  proof (cases "mt' = mt")
    case True
    show ?thesis
    proof (cases "mm' = mm")
      case mm: True
      have "h_nomm (cached mt mm g) mt AND push_bit mm 1 = push_bit mm 1" by (simp add: cached_def cache_absorb)
      moreover have "h_nomm g mt AND push_bit mm 1 \<noteq> 0 \<Longrightarrow> push_bit mm (1 :: byte) \<noteq> 0" by (metis and_zero_eq)
      moreover have "g_gcroot (cached mt mm g) = g_gcroot g" by (simp add: cached_def)
      ultimately have "meta_res (cached mt mm g) mt mm = None"
        unfolding meta_res_eq [of "cached mt mm g"] t using assms unfolding meta_res_eq [of g]
        by (auto split: if_splits option.splits simp del: push_bit_of_1)
      then show ?thesis using True mm assms by simp
    next
      case False
      then show ?thesis unfolding meta_res_eq t using True cache_bit [OF False, of "h_nomm g mt"] by (simp add: cached_def del: push_bit_of_1)
    qed
  next
    case False
    then show ?thesis unfolding meta_res_eq t by (simp add: cached_def)
  qed
qed

section \<open>The heap up to cleared slots\<close>

definition clear_th :: "gcthread \<Rightarrow> gcthread" where
  "clear_th th = th\<lparr>th_stack := take (max 1 (th_top th)) (th_stack th) @ replicate (length (th_stack th) - max 1 (th_top th)) VNil\<rparr>"

lemma clear_th_sel [simp]:
  "th_top (clear_th th) = th_top th" "th_env (clear_th th) = th_env th" "th_frames (clear_th th) = th_frames th"
  "th_openuv (clear_th th) = th_openuv th" "length (th_stack (clear_th th)) = length (th_stack th)"
  "take (th_top th) (th_stack (clear_th th)) = take (th_top th) (th_stack th)"
  by (simp_all add: clear_th_def min_def)

lemma clear_th_nth:
  "i < length (th_stack th) \<Longrightarrow> th_stack (clear_th th) ! i = (if i < max 1 (th_top th) then th_stack th ! i else VNil)"
  by (auto simp: clear_th_def nth_append min_def)

lemma clear_th_idem [simp]: "clear_th (clear_th th) = clear_th th"
  by (simp add: clear_th_def min_def)

definition hrel :: "gcst \<Rightarrow> gcst \<Rightarrow> bool" where
  "hrel g g' \<longleftrightarrow>
     (\<forall>x. h_obj g' x = h_obj g x \<or> (\<exists>th. h_obj g x = Some (OThread th) \<and> h_obj g' x = Some (OThread (clear_th th)))) \<and>
     (\<forall>mt mm. meta_res g' mt mm = meta_res g mt mm) \<and>
     g_trace g' = g_trace g \<and> g_gcroot g' = g_gcroot g \<and> g_registry g' = g_registry g \<and> g_mainth g' = g_mainth g \<and>
     g_curtrace g' = g_curtrace g \<and> g_uvhead g' = g_uvhead g \<and> gc_state g' = gc_state g \<and> gc_currentwhite g' = gc_currentwhite g"

lemma hrelD:
  assumes "hrel g g'"
  shows "h_obj g' x = h_obj g x \<or> (\<exists>th. h_obj g x = Some (OThread th) \<and> h_obj g' x = Some (OThread (clear_th th)))"
    "meta_res g' mt mm = meta_res g mt mm" "g_trace g' = g_trace g" "g_gcroot g' = g_gcroot g" "g_registry g' = g_registry g"
    "g_mainth g' = g_mainth g" "g_curtrace g' = g_curtrace g" "g_uvhead g' = g_uvhead g" "gc_state g' = gc_state g"
    "gc_currentwhite g' = gc_currentwhite g"
  using assms unfolding hrel_def by simp_all

lemma hrel_refl [simp]: "hrel g g" by (simp add: hrel_def)

lemma hrel_trans: "hrel g g1 \<Longrightarrow> hrel g1 g2 \<Longrightarrow> hrel g g2"
proof -
  assume a: "hrel g g1" "hrel g1 g2"
  have "h_obj g2 x = h_obj g x \<or> (\<exists>th. h_obj g x = Some (OThread th) \<and> h_obj g2 x = Some (OThread (clear_th th)))" for x
  proof (cases "h_obj g1 x = h_obj g x")
    case True
    then show ?thesis using hrelD(1) [OF a(2), of x] by simp
  next
    case False
    then obtain th where "h_obj g x = Some (OThread th)" "h_obj g1 x = Some (OThread (clear_th th))"
      using hrelD(1) [OF a(1), of x] by blast
    then show ?thesis using hrelD(1) [OF a(2), of x] by auto
  qed
  then show "hrel g g2" using hrelD(2-) [OF a(1)] hrelD(2-) [OF a(2)] by (simp add: hrel_def)
qed

lemma hrel_kind:
  assumes "hrel g g'"
  shows "tab_of g' = tab_of g" "is_tab g' = is_tab g" "is_trace g' = is_trace g" "is_upval g' = is_upval g" "is_str g' = is_str g"
    "is_thread g' = is_thread g" "travobj g' = travobj g" "str_of g' = str_of g" "(h_obj g' x = None) = (h_obj g x = None)"
proof -
  note h = hrelD(1) [OF assms]
  have t: "tab_of g' y = tab_of g y" "is_tab g' y = is_tab g y" "is_trace g' y = is_trace g y" "is_upval g' y = is_upval g y"
    "is_str g' y = is_str g y" "is_thread g' y = is_thread g y" "travobj g' y = travobj g y" "(h_obj g' y = None) = (h_obj g y = None)"
    "(case h_obj g' y of Some (OStr s) \<Rightarrow> Some s | _ \<Rightarrow> None) = (case h_obj g y of Some (OStr s) \<Rightarrow> Some s | _ \<Rightarrow> None)" for y
    using h [of y] by (auto simp: tab_of_def is_tab_def is_trace_def is_upval_def is_str_def is_thread_def travobj_def)
  show "tab_of g' = tab_of g" "is_tab g' = is_tab g" "is_trace g' = is_trace g" "is_upval g' = is_upval g" "is_str g' = is_str g"
    "is_thread g' = is_thread g" "travobj g' = travobj g" "(h_obj g' x = None) = (h_obj g x = None)"
    using t by (simp_all add: fun_eq_iff)
  show "str_of g' = str_of g" using t(9) by (intro ext) (simp add: str_of_def split: gcv.split)
qed

lemma hrel_mode: "hrel g g' \<Longrightarrow> tab_mode g' = tab_mode g"
  by (intro ext) (simp add: tab_mode_meta hrelD(2) hrel_kind(1) hrel_kind(8) tab_weak_def split: option.split)

lemma hrel_slot: "hrel g g' \<Longrightarrow> stack_slot g' th i = stack_slot g th i \<or> stack_slot g' th i = VNil"
  using hrelD(1) [of g g' th] by (auto simp: stack_slot_def clear_th_nth split: option.splits gcobj.splits)

lemma hrel_uvval: "hrel g g' \<Longrightarrow> uvval g' x = uvval g x \<or> uvval g' x = VNil"
proof -
  assume a: "hrel g g'"
  show ?thesis
  proof (cases "h_obj g' x = h_obj g x")
    case True
    show ?thesis
    proof (cases "\<exists>v th i. h_obj g x = Some (OUpval False v th i)")
      case op: True
      then obtain v th i where o: "h_obj g x = Some (OUpval False v th i)" by blast
      show ?thesis using hrel_slot [OF a, of th i] True by (simp add: uvval_def o)
    qed (use True in \<open>auto simp: uvval_def split: option.split gcobj.split bool.split\<close>)
  next
    case False
    then show ?thesis using hrelD(1) [OF a, of x] by (auto simp: uvval_def)
  qed
qed

lemma hrel_refs_of:
  assumes "hrel g g'"
  shows "refs_of g' w x \<subseteq> refs_of g w x"
proof -
  have t: "trace_refs g' = trace_refs g" by (intro ext) (simp only: trace_refs_def hrelD(3) [OF assms])
  have u: "vrefs (uvval g' x) \<subseteq> vrefs (uvval g x)" using hrel_uvval [OF assms, of x] by auto
  from hrelD(1) [OF assms, of x] show ?thesis
  proof
    assume h: "h_obj g' x = h_obj g x"
    show ?thesis
    proof (cases "h_obj g x")
      case (Some ob)
      then show ?thesis using h u t hrelD(3) [OF assms] by (cases ob) (auto simp: refs_of_def)
    qed (simp add: h refs_of_def)
  next
    assume "\<exists>th. h_obj g x = Some (OThread th) \<and> h_obj g' x = Some (OThread (clear_th th))"
    then show ?thesis by (auto simp: refs_of_def)
  qed
qed

lemma hrel_refs:
  assumes "hrel g g'"
  shows "kids g' x \<subseteq> kids g x" "refs g' x \<subseteq> refs g x"
  unfolding kids_def refs_def hrel_mode [OF assms] by (rule hrel_refs_of [OF assms])+

lemma hrel_typed:
  assumes "hrel g g'" "typed g"
  shows "typed g'"
  unfolding typed_def
proof (intro allI conjI ballI)
  fix x
  note k = hrel_kind [OF assms(1)]
  have o: "obj_ok g x" by (rule typedD(2) [OF assms(2)])
  have u: "vrefs (uvval g' x) \<subseteq> vrefs (uvval g x)" using hrel_uvval [OF assms(1), of x] by auto
  from hrelD(1) [OF assms(1), of x] show "obj_ok g' x"
  proof
    assume h: "h_obj g' x = h_obj g x"
    show ?thesis
    proof (cases "h_obj g x")
      case (Some ob)
      then show ?thesis using h u o hrelD(3) [OF assms(1)] by (cases ob) (auto simp: obj_ok_def k)
    qed (simp add: h obj_ok_def)
  qed (auto simp: obj_ok_def)
  fix y assume "y \<in> refs g' x"
  then have "h_obj g y \<noteq> None" using hrel_refs(2) [OF assms(1), of x] typedD(3) [OF assms(2), of y x] by blast
  then show "h_obj g' y \<noteq> None" using k(9) by simp
qed

text \<open>What gives the relation.\<close>

lemma hrel_fields:
  assumes "h_obj g' = h_obj g" "h_nomm g' = h_nomm g" "g_trace g' = g_trace g" "g_gcroot g' = g_gcroot g" "g_registry g' = g_registry g"
    "g_mainth g' = g_mainth g" "g_curtrace g' = g_curtrace g" "g_uvhead g' = g_uvhead g" "gc_state g' = gc_state g"
    "gc_currentwhite g' = gc_currentwhite g"
  shows "hrel g g'"
proof -
  have t: "tab_getref g' = tab_getref g" by (intro ext) (simp only: tab_getref_def tab_of_def assms)
  have "meta_res g' mt mm = meta_res g mt mm" for mt mm by (simp only: meta_res_eq t assms)
  then show ?thesis by (simp add: hrel_def assms)
qed

lemma hrel_cached: "meta_res g mt mm = None \<Longrightarrow> hrel g (cached mt mm g)"
  using cached_meta [of g mt mm] by (simp add: hrel_def) (simp add: cached_def)

lemma hrel_fastg: "hrel g (fst (lj_meta_fastg mt mm g))"
  using fastg_state [of mt mm g] hrel_cached [of g mt mm] by auto

lemma hrel_clear:
  assumes "h_obj g x = Some (OThread th)"
  shows "hrel g (set_obj x (OThread (clear_th th)) g)"
proof -
  let ?g = "set_obj x (OThread (clear_th th)) g"
  have "tab_getref ?g = tab_getref g"
    by (intro ext) (use assms in \<open>simp add: tab_getref_def tab_of_def set_obj_def\<close>)
  then have "meta_res ?g mt mm = meta_res g mt mm" for mt mm by (simp add: meta_res_eq set_obj_def)
  then show ?thesis using assms by (simp add: hrel_def) (simp add: set_obj_def)
qed

lemma only_marks_hrel: "only_marks g g' \<Longrightarrow> hrel g g'"
  by (rule hrel_fields) (auto simp: only_marks_def)

section \<open>Parts of a step\<close>

text \<open>
  A part of a step that works on the object \<open>x\<close>: its mark byte may change, the others change only from
  white to marked, and marked objects are gray in the list or have their references marked.
\<close>

definition mstep :: "addr \<Rightarrow> gcst \<Rightarrow> gcst \<Rightarrow> bool" where
  "mstep x g g' \<longleftrightarrow>
     hrel g g' \<and> gc_root g' = gc_root g \<and> gc_mmudata g' = gc_mmudata g \<and> gc_strhash g' = gc_strhash g \<and>
     \<not> iswhite g x \<and> \<not> iswhite g' x \<and>
     (\<exists>gr. gc_gray g' = gr @ gc_gray g \<and> distinct gr \<and> (\<forall>y \<in> set gr. iswhite g y \<and> \<not> iswhite g' y \<and> travobj g y)) \<and>
     (\<forall>y. y \<noteq> x \<longrightarrow> \<not> iswhite g y \<or> iswhite g' y \<longrightarrow> h_mark g' y = h_mark g y) \<and>
     (\<forall>y. y \<noteq> x \<longrightarrow> h_mark g' y AND 24 = h_mark g y AND 24) \<and>
     (\<forall>y. iswhite g y \<longrightarrow> \<not> iswhite g' y \<longrightarrow> y \<in> set (gc_gray g') \<or> \<not> travobj g y \<and> (\<forall>z \<in> kids g' y. \<not> iswhite g' z)) \<and>
     (\<forall>y. iswhite g y \<longrightarrow> \<not> iswhite g' y \<longrightarrow> isblack g' y = (isblack g y \<or> blackkind g y))"

lemma mstepD:
  assumes "mstep x g g'"
  shows "hrel g g'" "gc_root g' = gc_root g" "gc_mmudata g' = gc_mmudata g" "gc_strhash g' = gc_strhash g"
    "\<not> iswhite g x" "\<not> iswhite g' x"
    "\<exists>gr. gc_gray g' = gr @ gc_gray g \<and> distinct gr \<and> (\<forall>y \<in> set gr. iswhite g y \<and> \<not> iswhite g' y \<and> travobj g y)"
    "y \<noteq> x \<Longrightarrow> \<not> iswhite g y \<or> iswhite g' y \<Longrightarrow> h_mark g' y = h_mark g y"
    "y \<noteq> x \<Longrightarrow> h_mark g' y AND 24 = h_mark g y AND 24"
    "iswhite g y \<Longrightarrow> \<not> iswhite g' y \<Longrightarrow> y \<in> set (gc_gray g') \<or> \<not> travobj g y \<and> (\<forall>z \<in> kids g' y. \<not> iswhite g' z)"
    "iswhite g y \<Longrightarrow> \<not> iswhite g' y \<Longrightarrow> isblack g' y = (isblack g y \<or> blackkind g y)"
  using assms unfolding mstep_def by simp_all

lemma mstep_mono: "mstep x g g' \<Longrightarrow> \<not> iswhite g y \<Longrightarrow> \<not> iswhite g' y"
  using mstepD(6) [of x g g'] mstepD(8) [of x g g' y] by (cases "y = x") (auto simp: iswhite_def)

lemma mstep_gray: "mstep x g g' \<Longrightarrow> set (gc_gray g) \<subseteq> set (gc_gray g')"
  using mstepD(7) [of x g g'] by auto

lemma mstep_trans:
  assumes "mstep x g g1" "mstep x g1 g2"
  shows "mstep x g g2"
proof -
  note d1 = mstepD [OF assms(1)] and d2 = mstepD [OF assms(2)]
  have t: "travobj g1 = travobj g" by (rule hrel_kind(7) [OF d1(1)])
  have bk: "blackkind g1 y = blackkind g y" for y using hrelD(1) [OF d1(1), of y] by (auto simp: blackkind_def)
  note m1 = mstep_mono [OF assms(1)] and m2 = mstep_mono [OF assms(2)]
  have w: "iswhite g1 y \<Longrightarrow> iswhite g y" "iswhite g2 y \<Longrightarrow> iswhite g1 y" for y using m1 m2 by blast+
  obtain gr1 where 1: "gc_gray g1 = gr1 @ gc_gray g" "distinct gr1" "\<And>y. y \<in> set gr1 \<Longrightarrow> iswhite g y \<and> \<not> iswhite g1 y \<and> travobj g y"
    using d1(7) by blast
  obtain gr2 where 2: "gc_gray g2 = gr2 @ gc_gray g1" "distinct gr2" "\<And>y. y \<in> set gr2 \<Longrightarrow> iswhite g1 y \<and> \<not> iswhite g2 y \<and> travobj g1 y"
    using d2(7) by blast
  show ?thesis unfolding mstep_def
  proof (intro conjI allI impI)
    show "hrel g g2" by (rule hrel_trans [OF d1(1) d2(1)])
    show "gc_root g2 = gc_root g" "gc_mmudata g2 = gc_mmudata g" "gc_strhash g2 = gc_strhash g" using d1(2-4) d2(2-4) by simp_all
    show "\<not> iswhite g x" "\<not> iswhite g2 x" by (rule d1(5), rule d2(6))
    have "gc_gray g2 = (gr2 @ gr1) @ gc_gray g" using 1(1) 2(1) by simp
    moreover have "distinct (gr2 @ gr1)" using 1(2,3) 2(2,3) by auto
    moreover have "\<forall>y \<in> set (gr2 @ gr1). iswhite g y \<and> \<not> iswhite g2 y \<and> travobj g y"
      using 1(3) 2(3) w m2 unfolding t by auto
    ultimately show "\<exists>gr. gc_gray g2 = gr @ gc_gray g \<and> distinct gr \<and> (\<forall>y \<in> set gr. iswhite g y \<and> \<not> iswhite g2 y \<and> travobj g y)" by blast
    show "h_mark g2 y = h_mark g y" if "y \<noteq> x" "\<not> iswhite g y \<or> iswhite g2 y" for y
      using that d1(8) [of y] d2(8) [of y] w m1 by metis
    show "h_mark g2 y AND 24 = h_mark g y AND 24" if "y \<noteq> x" for y using d1(9) d2(9) that by simp
    fix y assume y: "iswhite g y" "\<not> iswhite g2 y"
    then have yx: "y \<noteq> x" using d1(5) by blast
    show "isblack g2 y = (isblack g y \<or> blackkind g y)"
    proof (cases "iswhite g1 y")
      case True
      then have "isblack g1 y = isblack g y" using d1(8) [of y] yx by (simp add: isblack_def)
      then show ?thesis using d2(11) [of y] y True bk by simp
    next
      case False
      then have "isblack g2 y = isblack g1 y" using d2(8) [of y] yx by (simp add: isblack_def)
      then show ?thesis using d1(11) [of y] y False by simp
    qed
    show "y \<in> set (gc_gray g2) \<or> \<not> travobj g y \<and> (\<forall>z \<in> kids g2 y. \<not> iswhite g2 z)"
    proof (cases "iswhite g1 y")
      case True
      then show ?thesis using d2(10) [of y] y unfolding t by blast
    next
      case False
      then show ?thesis using d1(10) [of y] y m2 mstep_gray [OF assms(2)] hrel_refs(1) [OF d2(1), of y] by blast
    qed
  qed
qed

text \<open>Marking, the caches, cleared slots, and changes of the object itself are such parts.\<close>

lemma marks_mstep:
  assumes "marks g g'" "\<not> iswhite g x"
  shows "mstep x g g'"
proof -
  note d = marksxD [OF assms(1)]
  have k: "kids g' = kids g" by (rule same_heap_refs(2) [OF marksx_heap [OF assms(1)]])
  show ?thesis unfolding mstep_def k
  proof (intro conjI allI impI)
    show "hrel g g'" by (rule only_marks_hrel [OF d(1)])
    show "gc_root g' = gc_root g" "gc_mmudata g' = gc_mmudata g" "gc_strhash g' = gc_strhash g"
      using d(1) by (auto simp: only_marks_def)
    show "\<not> iswhite g x" "\<not> iswhite g' x" using assms(2) marksx_mono [OF assms(1) assms(2)] .
  qed (use d(2-6) in \<open>simp_all\<close>)
qed

lemma white_fields: "h_mark g' = h_mark g \<Longrightarrow> iswhite g' = iswhite g"
  by (simp add: iswhite_def fun_eq_iff)

lemma mstep_heap:
  assumes "hrel g g'" "gc_root g' = gc_root g" "gc_mmudata g' = gc_mmudata g" "gc_strhash g' = gc_strhash g"
    "gc_gray g' = gc_gray g" "h_mark g' = h_mark g" "\<not> iswhite g x"
  shows "mstep x g g'"
  using assms by (simp add: mstep_def white_fields [OF assms(6)])

lemma mstep_self:
  assumes "\<not> iswhite g x" "m AND 3 = 0"
  shows "mstep x g (set_mark x m g)"
proof -
  have "hrel g (set_mark x m g)" by (rule hrel_fields) simp_all
  then show ?thesis using assms by (simp add: mstep_def)
qed

lemma mstep_lists:
  "\<not> iswhite g x \<Longrightarrow> mstep x g (g\<lparr>gc_weak := ws\<rparr>)" "\<not> iswhite g x \<Longrightarrow> mstep x g (g\<lparr>gc_grayagain := gs\<rparr>)"
  by (rule mstep_heap, rule hrel_fields, simp_all)+

lemma mstep_fastg: "\<not> iswhite g x \<Longrightarrow> mstep x g (fst (lj_meta_fastg mt mm g))"
  using fastg_state [of mt mm g] hrel_fastg [of g mt mm] by (intro mstep_heap) (auto simp: cached_def)

lemma mstep_refl: "\<not> iswhite g x \<Longrightarrow> mstep x g g"
  by (rule mstep_heap) simp_all

section \<open>Traversals\<close>

text \<open>The modes a \<open>__mode\<close> string can give.\<close>

lemma weak_mode_range: "w \<in> {0, 8, 16, 24, - 17, - 1} \<Longrightarrow> weak_mode s w \<in> {0, 8, 16, 24, - 17, - 1}"
proof (induction s arbitrary: w)
  case (Cons c cs)
  have "(if c = 107 then w OR LJ_GC_WEAKKEY else if c = 118 then w OR LJ_GC_WEAKVAL else if c = 75 then NOT LJ_GC_WEAKVAL else w)
      \<in> {0, 8, 16, 24, - 17, - 1}"
    using Cons.prems by (auto simp: LJ_GC_WEAKKEY_def LJ_GC_WEAKVAL_def)
  then show ?case using Cons.IH Cons.prems by simp
qed simp

lemma tab_mode_range: "tab_mode g x \<in> {0, 8, 16, 24, - 17, - 1}"
  using weak_mode_range [of 0] by (simp add: tab_mode_def tab_weak_def split: option.split)

lemma tab_mode_pos: "0 < tab_mode g x \<Longrightarrow> tab_mode g x \<in> {8, 16, 24}"
  using tab_mode_range [of g x] by auto

lemma marked_mstep: "marked_by g X g' \<Longrightarrow> \<not> iswhite g x \<Longrightarrow> mstep x g g'"
  unfolding marked_by_def by (elim conjE) (rule marks_mstep)

lemma marked_lists:
  assumes "marked_by g X g'"
  shows "gc_weak g' = gc_weak g" "gc_grayagain g' = gc_grayagain g" "\<not> iswhite g x \<Longrightarrow> h_mark g' x = h_mark g x"
    "z \<in> X \<Longrightarrow> \<not> iswhite g' z"
  using marksxD(1,3) [of "{}" g g'] assms by (auto simp: marked_by_def only_marks_def)

lemma traverse_thread_ok:
  assumes "typed g" "h_obj g x = Some (OThread th)" "\<not> iswhite g x"
  shows "mstep x g (gc_traverse_thread x g)" "\<And>z. z \<in> kids g x \<Longrightarrow> \<not> iswhite (gc_traverse_thread x g) z"
    "gc_weak (gc_traverse_thread x g) = gc_weak g" "gc_grayagain (gc_traverse_thread x g) = gc_grayagain g"
    "h_mark (gc_traverse_thread x g) x = h_mark g x"
proof -
  let ?vs = "drop 1 (take (th_top th) (th_stack th))"
  have k: "kids g x = \<Union> (vrefs ` set ?vs) \<union> {th_env th} \<union> set (th_frames th)" using assms(2) by (simp add: kids_def refs_of_def)
  have ex: "h_obj g y \<noteq> None" if "y \<in> kids g x" for y by (rule typedD(1) [OF assms(1) that])
  let ?g1 = "List.fold gc_marktv ?vs g"
  have 1: "marked_by g (\<Union> (vrefs ` set ?vs)) ?g1" by (rule fold_slots_ok [OF assms(1)]) (use ex k in blast)
  have m1: "mstep x g ?g1" by (rule marked_mstep [OF 1 assms(3)])
  have ob: "h_obj ?g1 x = Some (OThread th)" using marked_heap [OF 1] assms(2) by (simp add: same_heap_def)
  define g2 where "g2 = (if gc_state ?g1 = GCSatomic then set_obj x (OThread (clear_th th)) ?g1 else ?g1)"
  have m2: "mstep x ?g1 g2"
    unfolding g2_def using mstepD(6) [OF m1] hrel_clear [OF ob]
    by (cases "gc_state ?g1 = GCSatomic") (simp_all add: mstep_refl, intro mstep_heap, simp_all add: set_obj_def)
  have l2: "gc_weak g2 = gc_weak ?g1" "gc_grayagain g2 = gc_grayagain ?g1" "h_mark g2 = h_mark ?g1"
    unfolding g2_def by (simp_all add: set_obj_def)
  note m12 = mstep_trans [OF m1 m2]
  have t2: "typed g2" by (rule hrel_typed [OF mstepD(1) [OF m12] assms(1)])
  have e2: "h_obj g2 y \<noteq> None" if "y \<in> kids g x" for y
    using ex [OF that] hrel_kind(9) [OF mstepD(1) [OF m12], of y] by simp
  let ?g3 = "gc_markobj (th_env th) g2"
  have 3: "marked_by g2 {th_env th} ?g3" by (rule gc_markobj_ok [OF t2 e2]) (simp add: k)
  have s3: "same_heap g2 ?g3" by (rule marked_heap [OF 3])
  have 4: "marked_by ?g3 (set (th_frames th)) (List.fold gc_markobj (th_frames th) ?g3)"
  proof (rule fold_objs_ok [OF heap_pre(1) [OF s3 t2]])
    show "h_obj ?g3 y \<noteq> None" if "y \<in> set (th_frames th)" for y using e2 [of y] heap_pre(2) [OF s3 t2] that by (simp add: k)
  qed
  note 34 = marked_comp [OF 3 4]
  have e: "gc_traverse_thread x g = List.fold gc_markobj (th_frames th) ?g3"
    unfolding gc_traverse_thread_def g2_def clear_th_def by (simp only: assms(2) option.case gcobj.case Let_def)
  have w2: "\<not> iswhite g2 x" by (rule mstepD(6) [OF m12])
  note m34 = marked_mstep [OF 34 w2]
  show "mstep x g (gc_traverse_thread x g)" unfolding e by (rule mstep_trans [OF m12 m34])
  show "gc_weak (gc_traverse_thread x g) = gc_weak g" "gc_grayagain (gc_traverse_thread x g) = gc_grayagain g"
    unfolding e using marked_lists(1,2) [OF 34] marked_lists(1,2) [OF 1] l2 by simp_all
  show "h_mark (gc_traverse_thread x g) x = h_mark g x"
    unfolding e using marked_lists(3) [OF 34 w2] marked_lists(3) [OF 1 assms(3)] l2 by simp
  fix z assume z: "z \<in> kids g x"
  show "\<not> iswhite (gc_traverse_thread x g) z"
  proof (cases "z \<in> {th_env th} \<union> set (th_frames th)")
    case True
    then show ?thesis unfolding e by (rule marked_lists(4) [OF 34])
  next
    case False
    then have "\<not> iswhite ?g1 z" using marked_lists(4) [OF 1, of z] z k by blast
    then show ?thesis unfolding e using mstep_mono [OF m34] mstep_mono [OF m2] by blast
  qed
qed

lemma weak_contents: "w = LJ_GC_WEAK \<Longrightarrow> tab_refs w t = {}"
  by (auto simp: tab_refs_def node_refs_def LJ_GC_WEAK_def LJ_GC_WEAKVAL_def LJ_GC_WEAKKEY_def split: prod.splits)

lemma traverse_tab_ok:
  assumes "typed g" "h_obj g x = Some (OTab t)" "\<not> iswhite g x" "gc_traverse_tab x g = (g', w)"
  shows "mstep x g g'" "\<And>z. z \<in> kids g x \<Longrightarrow> \<not> iswhite g' z" "0 < w \<longleftrightarrow> 0 < tab_mode g x"
    "gc_weak g' = (if 0 < tab_mode g x then x # gc_weak g else gc_weak g)" "gc_grayagain g' = gc_grayagain g"
    "h_mark g' x = (if 0 < tab_mode g x then h_mark g x AND NOT (word_of_int LJ_GC_WEAK) OR word_of_int (tab_mode g x) else h_mark g x)"
proof -
  let ?mt = "gt_metatable t" and ?w = "tab_mode g x"
  have to: "tab_of g x = t" using assms(2) by (simp add: tab_of_def)
  have k: "kids g x = (if ?mt \<noteq> 0 then {?mt} else {}) \<union> tab_refs ?w t" using assms(2) by (simp add: kids_def refs_of_def)
  have ex: "h_obj g y \<noteq> None" if "y \<in> kids g x" for y by (rule typedD(1) [OF assms(1) that])
  let ?g1 = "if ?mt \<noteq> 0 then gc_markobj ?mt g else g"
  have 1: "marked_by g (if ?mt \<noteq> 0 then {?mt} else {}) ?g1"
    by (rule marked_if, rule gc_markobj_ok [OF assms(1) ex]) (simp add: k)
  have m1: "mstep x g ?g1" by (rule marked_mstep [OF 1 assms(3)])
  let ?g2 = "fst (lj_meta_fastg ?mt MM_mode ?g1)"
  have m2: "mstep x ?g1 ?g2" by (rule mstep_fastg [OF mstepD(6) [OF m1]])
  note m12 = mstep_trans [OF m1 m2]
  note h2 = mstepD(1) [OF m12]
  have md: "snd (lj_meta_fastg ?mt MM_mode ?g1) = meta_res g ?mt MM_mode"
    using hrelD(2) [OF mstepD(1) [OF m1], of ?mt MM_mode] by (simp add: meta_res_def)
  have wk: "tab_weak ?g2 (snd (lj_meta_fastg ?mt MM_mode ?g1)) = ?w"
    unfolding tab_mode_meta to md tab_weak_def hrel_kind(8) [OF h2] by (rule refl)
  have l2: "gc_weak ?g2 = gc_weak g" "gc_grayagain ?g2 = gc_grayagain g" "h_mark ?g2 x = h_mark g x"
    using fastg_state [of ?mt MM_mode ?g1] marked_lists(1,2) [OF 1] marked_lists(3) [OF 1 assms(3)] by (auto simp: cached_def)
  let ?m = "h_mark ?g2 x AND NOT (word_of_int LJ_GC_WEAK) OR word_of_int ?w"
  define g3 where "g3 = (if ?w > 0 then (set_mark x ?m ?g2)\<lparr>gc_weak := x # gc_weak ?g2\<rparr> else ?g2)"
  have w2: "\<not> iswhite ?g2 x" by (rule mstepD(6) [OF m12])
  have m3: "mstep x ?g2 g3"
  proof (cases "?w > 0")
    case True
    have "(?m AND 3 = 0)"
    proof -
      have "?w \<in> {8, 16, 24}" using tab_mode_pos [OF True] .
      then show ?thesis using w2 by (auto simp: iswhite_def LJ_GC_WHITES_def LJ_GC_WEAK_def)
    qed
    then have a: "mstep x ?g2 (set_mark x ?m ?g2)" by (rule mstep_self [OF w2])
    show ?thesis unfolding g3_def using True mstep_trans [OF a mstep_lists(1) [OF mstepD(6) [OF a]]] by simp
  next
    case False
    then have "g3 = ?g2" unfolding g3_def by (rule if_not_P)
    then show ?thesis using mstep_refl [OF w2] by simp
  qed
  note m13 = mstep_trans [OF m12 m3]
  have t3: "typed g3" by (rule hrel_typed [OF mstepD(1) [OF m13] assms(1)])
  have e3: "h_obj g3 y \<noteq> None" if "y \<in> kids g x" for y
    using ex [OF that] hrel_kind(9) [OF mstepD(1) [OF m13], of y] by simp
  let ?g4 = "List.fold (gc_marknode ?w) (gt_node t) (if ?w AND LJ_GC_WEAKVAL = 0 then List.fold gc_marktv (gt_array t) g3 else g3)"
  have tr: "gc_traverse_tab x g = (if ?w = LJ_GC_WEAK then (g3, 1) else (?g4, ?w))"
    unfolding gc_traverse_tab_def g3_def
    by (simp only: to Let_def case_prod_beta wk)
  have w3: "\<not> iswhite g3 x" by (rule mstepD(6) [OF m3])
  have 4: "marked_by g3 (tab_refs ?w t) g'"
  proof (cases "?w = LJ_GC_WEAK")
    case True
    then show ?thesis using weak_contents [OF True] tr assms(4) by (simp add: marked_refl)
  next
    case False
    have "marked_by g3 (tab_refs ?w t) ?g4" by (rule tab_contents_ok [OF t3 e3]) (simp add: k)
    then show ?thesis using tr assms(4) False by simp
  qed
  show "mstep x g g'" by (rule mstep_trans [OF m13 marked_mstep [OF 4 w3]])
  show "0 < w \<longleftrightarrow> 0 < ?w" using tr assms(4) by (cases "?w = LJ_GC_WEAK") (auto simp: LJ_GC_WEAK_def)
  show "gc_weak g' = (if 0 < ?w then x # gc_weak g else gc_weak g)" "gc_grayagain g' = gc_grayagain g"
    "h_mark g' x = (if 0 < ?w then h_mark g x AND NOT (word_of_int LJ_GC_WEAK) OR word_of_int ?w else h_mark g x)"
    using marked_lists(1,2) [OF 4] marked_lists(3) [OF 4 w3] l2 by (simp_all add: g3_def)
  fix z assume z: "z \<in> kids g x"
  show "\<not> iswhite g' z"
  proof (cases "z \<in> tab_refs ?w t")
    case True
    then show ?thesis by (rule marked_lists(4) [OF 4])
  next
    case False
    then have "\<not> iswhite ?g1 z" using marked_lists(4) [OF 1, of z] z k by blast
    then show ?thesis using mstep_mono [OF mstep_trans [OF m2 m3]] mstep_mono [OF marked_mstep [OF 4 w3]] by blast
  qed
qed

section \<open>\<open>propagatemark\<close>\<close>

definition popped :: "addr \<Rightarrow> addr list \<Rightarrow> gcst \<Rightarrow> gcst" where "popped x xs g = (gray2black x g)\<lparr>gc_gray := xs\<rparr>"

lemma popped_sel [simp]:
  "h_obj (popped x xs g) = h_obj g" "h_mark (popped x xs g) = (h_mark g)(x := h_mark g x OR LJ_GC_BLACK)" "h_nomm (popped x xs g) = h_nomm g"
  "gc_gray (popped x xs g) = xs" "gc_grayagain (popped x xs g) = gc_grayagain g" "gc_weak (popped x xs g) = gc_weak g"
  "gc_root (popped x xs g) = gc_root g" "gc_mmudata (popped x xs g) = gc_mmudata g" "gc_strhash (popped x xs g) = gc_strhash g"
  by (simp_all add: popped_def gray2black_def)

lemma popped_white [simp]: "iswhite (popped x xs g) = iswhite g"
  by (simp add: fun_eq_iff iswhite_def LJ_GC_WHITES_def LJ_GC_BLACK_def)

lemma popped_heap: "same_heap g (popped x xs g)" "hrel g (popped x xs g)"
  by (simp_all add: same_heap_def popped_def gray2black_def hrel_fields)

text \<open>What one step does, apart from the removal from the gray list.\<close>

definition step_ok :: "addr \<Rightarrow> gcst \<Rightarrow> gcst \<Rightarrow> bool" where
  "step_ok x g g' \<longleftrightarrow>
     mstep x g g' \<and> (\<forall>z \<in> kids g x. \<not> iswhite g' z) \<and>
     gc_grayagain g' = (if is_thread g x then x # gc_grayagain g else gc_grayagain g) \<and>
     gc_weak g' = (if is_tab g x \<and> 0 < tab_mode g x then x # gc_weak g else gc_weak g) \<and>
     (is_tab g x \<longrightarrow> 0 < tab_mode g x \<longrightarrow> h_mark g' x AND 24 = word_of_int (tab_mode g x)) \<and>
     isblack g' x = (\<not> (is_thread g x \<or> is_tab g x \<and> 0 < tab_mode g x))"

lemma step_okD:
  assumes "step_ok x g g'"
  shows "mstep x g g'" "z \<in> kids g x \<Longrightarrow> \<not> iswhite g' z"
    "gc_grayagain g' = (if is_thread g x then x # gc_grayagain g else gc_grayagain g)"
    "gc_weak g' = (if is_tab g x \<and> 0 < tab_mode g x then x # gc_weak g else gc_weak g)"
    "is_tab g x \<Longrightarrow> 0 < tab_mode g x \<Longrightarrow> h_mark g' x AND 24 = word_of_int (tab_mode g x)"
    "isblack g' x = (\<not> (is_thread g x \<or> is_tab g x \<and> 0 < tab_mode g x))"
  using assms unfolding step_ok_def by auto

lemma step_plain:
  assumes "marked_by g (kids g x) g'" "\<not> iswhite g x" "isblack g x" "\<not> is_thread g x" "\<not> is_tab g x"
  shows "step_ok x g g'"
  unfolding step_ok_def using assms marked_mstep [OF assms(1,2)] marked_lists [OF assms(1)] by (simp add: isblack_def)

lemma propagatemark_ok:
  assumes "typed g" "gc_gray g = x # xs" "\<not> iswhite g x" "travobj g x"
  shows "step_ok x (popped x xs g) (propagatemark g)"
proof -
  let ?g = "popped x xs g"
  have ty: "typed ?g" using same_heap_typed [OF popped_heap(1)] assms(1) by simp
  have nw: "\<not> iswhite ?g x" using assms(3) by simp
  have bl: "isblack ?g x" by (simp add: isblack_def LJ_GC_BLACK_def)
  have g0: "(gray2black x g)\<lparr>gc_gray := tl (gc_gray (gray2black x g))\<rparr> = ?g" by (simp add: popped_def gray2black_def assms(2))
  have hdx: "hd (gc_gray g) = x" by (simp add: assms(2))
  obtain ob where ob: "h_obj ?g x = Some ob" using assms(4) by (auto simp: travobj_def split: option.splits)
  have e: "propagatemark g =
      (case h_obj ?g x of
        Some (OTab t) \<Rightarrow> (case gc_traverse_tab x ?g of (g, weak) \<Rightarrow> if weak > 0 then black2gray x g else g)
      | Some (OThread th) \<Rightarrow>
          (let g = ?g\<lparr>gc_grayagain := x # gc_grayagain ?g\<rparr>; g = black2gray x g in gc_traverse_thread x g)
      | Some (OProto pt) \<Rightarrow> gc_traverse_proto pt ?g
      | Some (OTrace T) \<Rightarrow> gc_traverse_trace T ?g
      | _ \<Rightarrow> gc_traverse_func x ?g)"
    by (simp only: propagatemark_def Let_def hdx g0)
  show ?thesis
  proof (cases ob)
    case (OThread th)
    let ?g1 = "?g\<lparr>gc_grayagain := x # gc_grayagain ?g\<rparr>"
    let ?g2 = "black2gray x ?g1"
    have m1: "mstep x ?g ?g1" by (rule mstep_lists(2) [OF nw])
    have w1: "\<not> iswhite ?g1 x" by (rule mstepD(6) [OF m1])
    have m2: "mstep x ?g1 ?g2" unfolding black2gray_def
      by (rule mstep_self [OF w1]) (use w1 in \<open>simp add: iswhite_def LJ_GC_WHITES_def LJ_GC_BLACK_def\<close>)
    note m12 = mstep_trans [OF m1 m2]
    have s: "same_heap ?g ?g2" by (simp add: same_heap_def black2gray_def)
    have t2: "typed ?g2" using same_heap_typed [OF s] ty by simp
    have o2: "h_obj ?g2 x = Some (OThread th)" using ob OThread by (simp add: black2gray_def)
    note t = traverse_thread_ok [OF t2 o2 mstepD(6) [OF m12]]
    have p: "propagatemark g = gc_traverse_thread x ?g2" unfolding e using ob OThread by (simp only: option.case gcobj.case Let_def)
    have k: "is_thread ?g x" "\<not> is_tab ?g x" using ob OThread by (simp_all add: is_thread_def is_tab_def)
    have kd: "kids ?g2 = kids ?g" by (rule same_heap_refs(2) [OF s])
    have "isblack (gc_traverse_thread x ?g2) x = isblack ?g2 x" by (simp only: isblack_def t(5))
    then have bg: "\<not> isblack (gc_traverse_thread x ?g2) x" by simp
    show ?thesis unfolding step_ok_def p
      using mstep_trans [OF m12 t(1)] t(2) t(3-5) k kd bg by (simp add: black2gray_def)
  next
    case (OTab tb)
    obtain g' w where tr: "gc_traverse_tab x ?g = (g', w)" by fastforce
    have o: "h_obj ?g x = Some (OTab tb)" using ob OTab by simp
    note t = traverse_tab_ok [OF ty o nw tr]
    have w': "\<not> iswhite g' x" by (rule mstepD(6) [OF t(1)])
    have p: "propagatemark g = (if 0 < tab_mode ?g x then black2gray x g' else g')"
      unfolding e using o tr t(3) by (simp only: option.case gcobj.case prod.case)
    have k: "\<not> is_thread ?g x" "is_tab ?g x" using o by (simp_all add: is_thread_def is_tab_def)
    show ?thesis
    proof (cases "0 < tab_mode ?g x")
      case True
      have m: "mstep x g' (black2gray x g')" unfolding black2gray_def
        by (rule mstep_self [OF w']) (use w' in \<open>simp add: iswhite_def LJ_GC_WHITES_def LJ_GC_BLACK_def\<close>)
      have h: "h_mark g' x AND 24 = word_of_int (tab_mode ?g x)"
        using t(6) tab_mode_pos [OF True] True by (auto simp: LJ_GC_WEAK_def)
      have n: "\<not> iswhite (black2gray x g') z" if "z \<in> kids ?g x" for z by (rule mstep_mono [OF m t(2) [OF that]])
      have "h_mark (black2gray x g') x AND 24 = h_mark g' x AND 24" by (simp add: black2gray_def LJ_GC_BLACK_def)
      then show ?thesis unfolding step_ok_def p
        using mstep_trans [OF t(1) m] n t(4,5) k True h by simp (simp add: black2gray_def)
    next
      case False
      then show ?thesis unfolding step_ok_def p
        using t(1,2,4,5,6) k bl by (simp add: isblack_def)
    qed
  next
    case (OProto pt)
    have o: "h_obj ?g x = Some (OProto pt)" using ob OProto by simp
    have p: "propagatemark g = gc_traverse_proto pt ?g" unfolding e using o by (simp only: option.case gcobj.case)
    show ?thesis unfolding p by (rule step_plain [OF traverse_proto_ok [OF ty o] nw bl]) (use o in \<open>simp_all add: is_thread_def is_tab_def\<close>)
  next
    case (OTrace T)
    have o: "h_obj ?g x = Some (OTrace T)" using ob OTrace by simp
    have p: "propagatemark g = gc_traverse_trace T ?g" unfolding e using o by (simp only: option.case gcobj.case)
    have kd: "kids ?g x = trace_refs ?g T" using o by (simp add: kids_def refs_of_def)
    have "marked_by ?g (kids ?g x) (gc_traverse_trace T ?g)" unfolding kd
    proof (rule traverse_trace_ok [OF ty])
      show "h_obj ?g y \<noteq> None" if "y \<in> trace_refs ?g T" for y by (rule typedD(1) [OF ty, of _ x]) (use that kd in simp)
      show "tr_traceno T \<noteq> 0 \<longrightarrow> (\<forall>n \<in> {tr_link T, tr_nextroot T, tr_nextside T} - {0}. is_trace ?g (g_trace ?g n))"
        using typedD(2) [OF ty, of x] o by (simp add: obj_ok_def)
    qed
    then show ?thesis unfolding p by (rule step_plain [OF _ nw bl]) (use o in \<open>simp_all add: is_thread_def is_tab_def\<close>)
  next
    case (OFuncL a b c)
    have o: "h_obj ?g x = Some (OFuncL a b c)" using ob OFuncL by simp
    have p: "propagatemark g = gc_traverse_func x ?g" unfolding e using o by (simp only: option.case gcobj.case)
    show ?thesis unfolding p by (rule step_plain [OF traverse_func_ok [OF ty disjI1 [OF o]] nw bl]) (use o in \<open>simp_all add: is_thread_def is_tab_def\<close>)
  next
    case (OFuncC a b)
    have o: "h_obj ?g x = Some (OFuncC a b)" using ob OFuncC by simp
    have p: "propagatemark g = gc_traverse_func x ?g" unfolding e using o by (simp only: option.case gcobj.case)
    show ?thesis unfolding p by (rule step_plain [OF traverse_func_ok [OF ty disjI2 [OF o]] nw bl]) (use o in \<open>simp_all add: is_thread_def is_tab_def\<close>)
  qed (use assms(4) ob in \<open>simp_all add: travobj_def\<close>)
qed

end
