(* ===== verification/LJ_GCDrain.thy ===== *)
theory LJ_GCDrain
  imports LJ_GCProp
begin

text \<open>
  Propagation until the gray list is empty.  The closure property is kept by marking and by each step,
  and every step marks new objects or shortens the list, so \<open>gc_propagate_gray\<close> returns on a finite heap.
\<close>

section \<open>Closure\<close>

text \<open>
  Apart from the objects in \<open>Y\<close>, what is not white refers only to what is not white: a table in the
  list of weak tables with the references that are followed, everything else with all of its references.
\<close>

definition closedg :: "addr set \<Rightarrow> gcst \<Rightarrow> bool" where
  "closedg Y g \<longleftrightarrow> (\<forall>x. \<not> iswhite g x \<longrightarrow> x \<notin> Y \<longrightarrow> (\<forall>y \<in> (if x \<in> set (gc_weak g) then kids g x else refs g x). \<not> iswhite g y))"

definition lists_ok :: "gcst \<Rightarrow> bool" where
  "lists_ok g \<longleftrightarrow> (\<forall>x \<in> set (gc_gray g) \<union> set (gc_grayagain g) \<union> set (gc_weak g). \<not> iswhite g x \<and> travobj g x)"

text \<open>The flags of the tables in the weak list are their modes.\<close>

definition weak_ok :: "gcst \<Rightarrow> bool" where
  "weak_ok g \<longleftrightarrow> (\<forall>x \<in> set (gc_weak g). is_tab g x \<and> 0 < tab_mode g x \<and> h_mark g x AND 24 = word_of_int (tab_mode g x))"

definition minv :: "bool \<Rightarrow> addr set \<Rightarrow> gcst \<Rightarrow> bool" where
  "minv b Y g \<longleftrightarrow> typed g \<and> finite (dom (h_obj g)) \<and> lists_ok g \<and> closedg (set (gc_gray g) \<union> Y) g \<and> (b \<longrightarrow> weak_ok g)"

definition adv :: "gcst \<Rightarrow> gcst \<Rightarrow> bool" where
  "adv g g' \<longleftrightarrow> hrel g g' \<and> (\<forall>x. \<not> iswhite g x \<longrightarrow> \<not> iswhite g' x) \<and> set (gc_grayagain g) \<subseteq> set (gc_grayagain g') \<and>
     set (gc_weak g) \<subseteq> set (gc_weak g') \<and> gc_root g' = gc_root g \<and> gc_mmudata g' = gc_mmudata g \<and> gc_strhash g' = gc_strhash g"

lemma minvD:
  assumes "minv b Y g"
  shows "typed g" "finite (dom (h_obj g))" "lists_ok g" "closedg (set (gc_gray g) \<union> Y) g" "b \<Longrightarrow> weak_ok g"
  using assms by (simp_all add: minv_def)

lemma advD:
  assumes "adv g g'"
  shows "hrel g g'" "\<not> iswhite g x \<Longrightarrow> \<not> iswhite g' x" "set (gc_grayagain g) \<subseteq> set (gc_grayagain g')"
    "set (gc_weak g) \<subseteq> set (gc_weak g')" "gc_root g' = gc_root g" "gc_mmudata g' = gc_mmudata g" "gc_strhash g' = gc_strhash g"
  using assms by (simp_all add: adv_def)

lemma adv_refl: "adv g g" by (simp add: adv_def)

lemma adv_trans: "adv g g1 \<Longrightarrow> adv g1 g2 \<Longrightarrow> adv g g2"
proof -
  assume a: "adv g g1" "adv g1 g2"
  show ?thesis unfolding adv_def
    using hrel_trans [OF advD(1) [OF a(1)] advD(1) [OF a(2)]] advD(2-) [OF a(1)] advD(2-) [OF a(2)] by auto
qed

lemma refs_kids: "\<not> (is_tab g x \<and> 0 < tab_mode g x) \<Longrightarrow> refs g x = kids g x"
proof -
  assume a: "\<not> (is_tab g x \<and> 0 < tab_mode g x)"
  show ?thesis
  proof (cases "is_tab g x")
    case True
    then have "(if tab_mode g x < 0 then tab_mode g x else 0) = tab_mode g x" using a by auto
    then show ?thesis by (simp only: kids_def refs_def refs_of_def)
  next
    case False
    then show ?thesis by (auto simp: kids_def refs_def refs_of_def is_tab_def split: option.splits gcobj.splits)
  qed
qed

lemma travobj_tab: "is_tab g x \<Longrightarrow> travobj g x"
  by (auto simp: is_tab_def travobj_def split: option.splits gcobj.splits)

lemma closedgD: "closedg Y g \<Longrightarrow> \<not> iswhite g x \<Longrightarrow> x \<notin> Y \<Longrightarrow> y \<in> (if x \<in> set (gc_weak g) then kids g x else refs g x) \<Longrightarrow> \<not> iswhite g y"
  unfolding closedg_def by blast

text \<open>An advance whose new objects are gray or have their references marked.\<close>

lemma closedg_adv:
  assumes "closedg (set (gc_gray g) \<union> Y) g" "hrel g g'" "\<And>y. \<not> iswhite g y \<Longrightarrow> \<not> iswhite g' y"
    "set (gc_gray g) - {x} \<subseteq> set (gc_gray g')" "set (gc_weak g) - {x} = set (gc_weak g') - {x}"
    "\<And>y. iswhite g y \<Longrightarrow> \<not> iswhite g' y \<Longrightarrow> y \<in> set (gc_gray g') \<or> \<not> travobj g y \<and> (\<forall>z \<in> kids g' y. \<not> iswhite g' z)"
    "\<not> iswhite g x \<Longrightarrow> x \<notin> set (gc_gray g') \<Longrightarrow> x \<notin> Y \<Longrightarrow> (\<forall>z \<in> (if x \<in> set (gc_weak g') then kids g' x else refs g' x). \<not> iswhite g' z)"
  shows "closedg (set (gc_gray g') \<union> Y) g'"
  unfolding closedg_def
proof (intro allI impI ballI)
  fix y z assume y: "\<not> iswhite g' y" "y \<notin> set (gc_gray g') \<union> Y" and z: "z \<in> (if y \<in> set (gc_weak g') then kids g' y else refs g' y)"
  show "\<not> iswhite g' z"
  proof (cases "iswhite g y")
    case True
    then have n: "\<not> travobj g y" "\<forall>z \<in> kids g' y. \<not> iswhite g' z" using assms(6) [OF True y(1)] y(2) by auto
    have "refs g' y = kids g' y"
      by (rule refs_kids) (use n(1) travobj_tab hrel_kind(2,7) [OF assms(2)] in metis)
    then show ?thesis using n(2) z by (auto split: if_splits)
  next
    case False
    show ?thesis
    proof (cases "y = x")
      case True
      then show ?thesis using assms(7) False y z by blast
    next
      case yx: False
      have "y \<notin> set (gc_gray g) \<union> Y" using y(2) assms(4) yx by blast
      moreover have "z \<in> (if y \<in> set (gc_weak g) then kids g y else refs g y)"
      proof -
        have "y \<in> set (gc_weak g') \<longleftrightarrow> y \<in> set (gc_weak g)" using assms(5) yx by blast
        then show ?thesis using z hrel_refs [OF assms(2), of y] by (auto split: if_splits)
      qed
      ultimately show ?thesis using assms(3) closedgD [OF assms(1) False] by blast
    qed
  qed
qed

text \<open>Marking.\<close>

lemma marks_minv:
  assumes "minv b Y g" "marks g g'"
  shows "minv b Y g'" "adv g g'"
proof -
  note d = marksxD [OF assms(2)] and m = minvD [OF assms(1)]
  have h: "same_heap g g'" by (rule marksx_heap [OF assms(2)])
  have k: "kids g' = kids g" by (rule same_heap_refs(2) [OF h])
  have l: "gc_weak g' = gc_weak g" "gc_grayagain g' = gc_grayagain g" "gc_root g' = gc_root g" "gc_mmudata g' = gc_mmudata g"
    "gc_strhash g' = gc_strhash g" using d(1) by (auto simp: only_marks_def)
  note mono = marksx_mono [OF assms(2)]
  show "adv g g'" unfolding adv_def using only_marks_hrel [OF d(1)] mono l by simp
  have "closedg (set (gc_gray g') \<union> Y) g'"
  proof (rule closedg_adv [OF m(4) only_marks_hrel [OF d(1)] mono, where x = 0], assumption)
    show "set (gc_gray g) - {0} \<subseteq> set (gc_gray g')" using marks_gray [OF assms(2)] by blast
    show "y \<in> set (gc_gray g') \<or> \<not> travobj g y \<and> (\<forall>z \<in> kids g' y. \<not> iswhite g' z)" if "iswhite g y" "\<not> iswhite g' y" for y
      using d(5) [OF that] k by simp
    assume z: "\<not> iswhite g 0" "0 \<notin> set (gc_gray g')" "0 \<notin> Y"
    then have "0 \<notin> set (gc_gray g) \<union> Y" using marks_gray [OF assms(2)] by blast
    then show "\<forall>z \<in> (if 0 \<in> set (gc_weak g') then kids g' 0 else refs g' 0). \<not> iswhite g' z"
      using closedgD [OF m(4) z(1)] mono unfolding l same_heap_refs(2,3) [OF h] by blast
  qed (simp add: l)
  moreover have "lists_ok g'"
  proof -
    obtain gr where gr: "gc_gray g' = gr @ gc_gray g" "\<forall>y \<in> set gr. iswhite g y \<and> \<not> iswhite g' y \<and> travobj g y" using d(2) by blast
    show ?thesis using m(3) mono gr unfolding lists_ok_def l same_heap_trav [OF h] by auto
  qed
  moreover have "b \<Longrightarrow> weak_ok g'"
    using m(5) d(4) unfolding weak_ok_def l same_heap_kind(1) [OF h] same_heap_mode(1) [OF h] by simp
  moreover have "typed g'" "dom (h_obj g') = dom (h_obj g)" using m(1) same_heap_typed [OF h] h by (simp_all add: same_heap_def)
  ultimately show "minv b Y g'" using m(2) by (simp add: minv_def)
qed

lemma marked_minv:
  assumes "minv b Y g" "marked_by g X g'"
  shows "minv b Y g'" "adv g g'" "z \<in> X \<Longrightarrow> \<not> iswhite g' z"
  using marks_minv [OF assms(1)] assms(2) by (simp_all add: marked_by_def)

section \<open>One step\<close>

definition whites :: "gcst \<Rightarrow> addr set" where "whites g = {x \<in> dom (h_obj g). iswhite g x}"

lemma step_minv:
  assumes "minv b Y g" "gc_gray g = x # xs"
  shows "minv b Y (propagatemark g)" "adv g (propagatemark g)"
    "card (whites (propagatemark g)) + length (gc_gray (propagatemark g)) < card (whites g) + length (gc_gray g)"
proof -
  let ?g' = "propagatemark g"
  note m = minvD [OF assms(1)]
  have x: "\<not> iswhite g x" "travobj g x" using m(3) assms(2) by (simp_all add: lists_ok_def)
  note s = step_okD [OF propagatemark_ok [OF m(1) assms(2) x]]
  note d = mstepD [OF s(1)]
  note hp = popped_heap [of g x xs]
  have h: "hrel g ?g'" by (rule hrel_trans [OF hp(2) d(1)])
  have mono: "\<not> iswhite ?g' y" if "\<not> iswhite g y" for y using mstep_mono [OF s(1), of y] that by simp
  have sub: "set xs \<subseteq> set (gc_gray ?g')" using mstep_gray [OF s(1)] by simp
  note k = same_heap_refs(2) [OF hp(1)] same_heap_kind(1,5) [OF hp(1)] same_heap_mode(1) [OF hp(1)] same_heap_trav [OF hp(1)]
  have wk: "gc_weak ?g' = (if is_tab g x \<and> 0 < tab_mode g x then x # gc_weak g else gc_weak g)" using s(4) by (simp add: k)
  have ga: "gc_grayagain ?g' = (if is_thread g x then x # gc_grayagain g else gc_grayagain g)" using s(3) by (simp add: k)
  have new: "y \<in> set (gc_gray ?g') \<or> \<not> travobj g y \<and> (\<forall>z \<in> kids ?g' y. \<not> iswhite ?g' z)" if "iswhite g y" "\<not> iswhite ?g' y" for y
    using d(10) [of y] that by (simp add: k)
  have kx: "\<forall>z \<in> kids ?g' x. \<not> iswhite ?g' z" using s(2) hrel_refs(1) [OF h, of x] by (auto simp: k)
  show a: "adv g ?g'" unfolding adv_def using h mono d(2-4) ga wk by auto
  have "closedg (set (gc_gray ?g') \<union> Y) ?g'"
  proof (rule closedg_adv [OF m(4) h mono _ _ new, where x = x])
    show "set (gc_gray g) - {x} \<subseteq> set (gc_gray ?g')" using sub assms(2) by auto
    show "set (gc_weak g) - {x} = set (gc_weak ?g') - {x}" using wk by auto
    show "\<forall>z \<in> (if x \<in> set (gc_weak ?g') then kids ?g' x else refs ?g' x). \<not> iswhite ?g' z"
    proof (cases "x \<in> set (gc_weak ?g')")
      case False
      then have "\<not> (is_tab g x \<and> 0 < tab_mode g x)" using wk by (auto split: if_splits)
      then have "refs ?g' x = kids ?g' x" by (intro refs_kids) (simp add: hrel_kind(2) [OF h] hrel_mode [OF h])
      then show ?thesis using kx False by simp
    qed (use kx in simp)
  qed
  moreover obtain gr where gr: "gc_gray ?g' = gr @ xs" "distinct gr" "\<forall>y \<in> set gr. iswhite g y \<and> \<not> iswhite ?g' y \<and> travobj g y"
    using d(7) by (auto simp: k)
  have "lists_ok ?g'" unfolding lists_ok_def hrel_kind(7) [OF h]
    using m(3) gr(1,3) mono x wk ga assms(2) by (auto simp: lists_ok_def split: if_splits)
  moreover have "b \<Longrightarrow> weak_ok ?g'"
  proof -
    assume b: b
    show ?thesis unfolding weak_ok_def hrel_kind(2) [OF h] hrel_mode [OF h]
    proof
      fix y assume y: "y \<in> set (gc_weak ?g')"
      show "is_tab g y \<and> 0 < tab_mode g y \<and> h_mark ?g' y AND 24 = word_of_int (tab_mode g y)"
      proof (cases "is_tab g x \<and> 0 < tab_mode g x \<and> y = x")
        case True
        then show ?thesis using s(5) by (simp add: k)
      next
        case False
        then have yw: "y \<in> set (gc_weak g)" using y wk by (auto split: if_splits)
        then have p: "is_tab g y" "0 < tab_mode g y" "h_mark g y AND 24 = word_of_int (tab_mode g y)" using m(5) [OF b] by (auto simp: weak_ok_def)
        then have "y \<noteq> x" using False by blast
        then show ?thesis using p d(9) [of y] by simp
      qed
    qed
  qed
  moreover have "dom (h_obj ?g') = dom (h_obj g)" using hrel_kind(9) [OF h] by (auto simp: dom_def)
  ultimately show "minv b Y ?g'" using m(2) hrel_typed [OF h m(1)] by (simp add: minv_def)
  have "whites ?g' \<subseteq> whites g - set gr" "set gr \<subseteq> whites g"
    using mono gr(3) hrel_kind(9) [OF h] by (auto simp: whites_def dom_def travobj_def split: option.splits)
  moreover have "finite (whites g)" using m(2) by (simp add: whites_def)
  ultimately have "card (whites ?g') + card (set gr) \<le> card (whites g)"
    by (metis card_Diff_subset card_mono finite_Diff finite_subset le_diff_conv2)
  then show "card (whites ?g') + length (gc_gray ?g') < card (whites g) + length (gc_gray g)"
    using gr(1) distinct_card [OF gr(2)] assms(2) by simp
qed

section \<open>All gray objects\<close>

lemma drain:
  assumes "minv b Y g"
  shows "\<exists>g'. gc_propagate_gray g = Some g' \<and> gc_gray g' = [] \<and> minv b Y g' \<and> adv g g'"
proof -
  let ?P = "\<lambda>g'. minv b Y g' \<and> adv g g'"
  have P: "?P (propagatemark s)" "card (whites (propagatemark s)) + length (gc_gray (propagatemark s)) < card (whites s) + length (gc_gray s)"
    if s: "?P s" "gc_gray s \<noteq> []" for s
  proof -
    obtain x xs where "gc_gray s = x # xs" using s(2) by (cases "gc_gray s") auto
    from step_minv [OF _ this] s(1) show "?P (propagatemark s)"
      "card (whites (propagatemark s)) + length (gc_gray (propagatemark s)) < card (whites s) + length (gc_gray s)"
      using adv_trans by blast+
  qed
  have "\<exists>t. while_option (\<lambda>g. gc_gray g \<noteq> []) propagatemark g = Some t"
    by (rule measure_while_option_Some [where P = ?P and f = "\<lambda>s. card (whites s) + length (gc_gray s)"]) (use P assms adv_refl in auto)
  then obtain t where t: "while_option (\<lambda>g. gc_gray g \<noteq> []) propagatemark g = Some t" by blast
  have "?P t" by (rule while_option_rule [where P = ?P, OF _ t]) (use P(1) assms adv_refl in auto)
  moreover have "gc_gray t = []" using while_option_stop [OF t] by simp
  ultimately show ?thesis using t by (simp add: gc_propagate_gray_def)
qed

end
