(* ===== verification/LJ_GCClear.thy ===== *)
theory LJ_GCClear
  imports LJ_GCDrain
begin

text \<open>
  Clearing of weak tables: it removes every entry that refers to an object about to be collected, marks the strings it
  leaves, and touches neither the mode of a table nor anything else.
\<close>

section \<open>Strings are marked\<close>

definition smark :: "gcst \<Rightarrow> gcst \<Rightarrow> bool" where
  "smark g g' \<longleftrightarrow> (\<exists>mk. g' = g\<lparr>h_mark := mk\<rparr>) \<and> (\<forall>x. iswhite g' x \<longrightarrow> iswhite g x) \<and>
     (\<forall>x. \<not> is_str g x \<longrightarrow> h_mark g' x = h_mark g x) \<and> (\<forall>x. h_mark g' x AND 24 = h_mark g x AND 24)"

lemma smarkD:
  assumes "smark g g'"
  shows "\<exists>mk. g' = g\<lparr>h_mark := mk\<rparr>" "\<not> iswhite g x \<Longrightarrow> \<not> iswhite g' x" "\<not> is_str g x \<Longrightarrow> h_mark g' x = h_mark g x"
    "h_mark g' x AND 24 = h_mark g x AND 24"
  using assms by (auto simp: smark_def)

lemma smark_refl: "smark g g"
proof -
  have "g = g\<lparr>h_mark := h_mark g\<rparr>" by simp
  then have "\<exists>mk. g = g\<lparr>h_mark := mk\<rparr>" by (intro exI)
  then show ?thesis by (simp add: smark_def)
qed

lemma smark_trans: "smark g g1 \<Longrightarrow> smark g1 g2 \<Longrightarrow> smark g g2"
proof -
  assume a: "smark g g1" "smark g1 g2"
  obtain mk1 mk2 where g: "g1 = g\<lparr>h_mark := mk1\<rparr>" "g2 = g1\<lparr>h_mark := mk2\<rparr>" using smarkD(1) [OF a(1)] smarkD(1) [OF a(2)] by blast
  then have "g2 = g\<lparr>h_mark := mk2\<rparr>" by simp
  then have e: "\<exists>mk. g2 = g\<lparr>h_mark := mk\<rparr>" by (intro exI)
  have s: "is_str g1 = is_str g" by (simp add: g(1) is_str_def fun_eq_iff)
  have "iswhite g x" if "iswhite g2 x" for x using that smarkD(2) [OF a(1)] smarkD(2) [OF a(2)] by blast
  moreover have "h_mark g2 x = h_mark g x" if "\<not> is_str g x" for x
    using that smarkD(3) [OF a(1), of x] smarkD(3) [OF a(2), of x] s by simp
  ultimately show "smark g g2" using e smarkD(4) [OF a(1)] smarkD(4) [OF a(2)] by (simp add: smark_def)
qed

lemma smark_str_of: "smark g g' \<Longrightarrow> str_of g' = str_of g" "smark g g' \<Longrightarrow> h_obj g' = h_obj g"
proof -
  show h: "h_obj g' = h_obj g" if "smark g g'" using smarkD(1) [OF that] by auto
  show "str_of g' = str_of g" if "smark g g'" by (intro ext) (simp only: str_of_def h [OF that])
qed

lemma smark_mark_str: "is_str g x \<Longrightarrow> smark g (gc_mark_str x g)"
proof -
  assume s: "is_str g x"
  have "\<exists>mk. gc_mark_str x g = g\<lparr>h_mark := mk\<rparr>" unfolding gc_mark_str_def white2gray_def set_mark_def by (rule exI) (rule refl)
  moreover have "h_mark (gc_mark_str x g) y AND 24 = h_mark g y AND 24" for y
    by (simp add: gc_mark_str_def white2gray_def LJ_GC_WHITES_def)
  moreover have "h_mark (gc_mark_str x g) y = h_mark g y" if "\<not> is_str g y" for y
    using that s by (auto simp: gc_mark_str_def white2gray_def)
  ultimately show ?thesis by (simp add: smark_def gc_mark_str_def)
qed

lemma mayclear_ok:
  assumes "gc_mayclear v b g = (g', c)"
  shows "smark g g'" "\<not> c \<Longrightarrow> z \<in> vrefs v \<Longrightarrow> \<not> iswhite g' z" "c \<Longrightarrow> str_of g v = None"
proof -
  show "smark g g'" using assms smark_refl smark_mark_str
    by (auto simp: gc_mayclear_def split: gcv.splits if_splits)
  show "\<not> c \<Longrightarrow> z \<in> vrefs v \<Longrightarrow> \<not> iswhite g' z" using assms
    by (auto simp: gc_mayclear_def gc_mark_str_def split: gcv.splits if_splits)
  show "c \<Longrightarrow> str_of g v = None" using assms
    by (auto simp: gc_mayclear_def str_of_def is_str_def split: gcv.splits if_splits option.splits gcobj.splits)
qed

section \<open>What clearing keeps\<close>

definition clr_val :: "gcst \<Rightarrow> gcv \<Rightarrow> gcv \<Rightarrow> bool" where "clr_val g v v' \<longleftrightarrow> v' = v \<or> v' = VNil \<and> str_of g v = None"

definition clr_node :: "gcst \<Rightarrow> gcv \<times> gcv \<Rightarrow> gcv \<times> gcv \<Rightarrow> bool" where
  "clr_node g n n' \<longleftrightarrow> snd n' = snd n \<and> (fst n' = fst n \<or> fst n' = VNil \<and> (str_of g (fst n) = None \<or> str_of g (snd n) = None))"

definition clr_tab :: "gcst \<Rightarrow> gctable \<Rightarrow> gctable \<Rightarrow> bool" where
  "clr_tab g t t' \<longleftrightarrow> gt_metatable t' = gt_metatable t \<and> list_all2 (clr_val g) (gt_array t) (gt_array t') \<and>
     list_all2 (clr_node g) (gt_node t) (gt_node t')"

definition crel :: "gcst \<Rightarrow> gcst \<Rightarrow> bool" where
  "crel g g' \<longleftrightarrow>
     (\<exists>mk ob. g' = g\<lparr>h_mark := mk, h_obj := ob\<rparr>) \<and>
     (\<forall>x. \<not> iswhite g x \<longrightarrow> \<not> iswhite g' x) \<and> (\<forall>x. \<not> is_str g x \<longrightarrow> h_mark g' x = h_mark g x) \<and>
     (\<forall>x. h_mark g' x AND 24 = h_mark g x AND 24) \<and>
     (\<forall>x. h_obj g' x = h_obj g x \<or> (\<exists>t t'. h_obj g x = Some (OTab t) \<and> h_obj g' x = Some (OTab t') \<and> clr_tab g t t'))"

lemma crelD:
  assumes "crel g g'"
  shows "\<exists>mk ob. g' = g\<lparr>h_mark := mk, h_obj := ob\<rparr>" "\<not> iswhite g x \<Longrightarrow> \<not> iswhite g' x" "\<not> is_str g x \<Longrightarrow> h_mark g' x = h_mark g x"
    "h_mark g' x AND 24 = h_mark g x AND 24"
    "h_obj g' x = h_obj g x \<or> (\<exists>t t'. h_obj g x = Some (OTab t) \<and> h_obj g' x = Some (OTab t') \<and> clr_tab g t t')"
  using assms unfolding crel_def by simp_all

lemma crel_fields:
  assumes "crel g g'"
  shows "gc_weak g' = gc_weak g" "h_nomm g' = h_nomm g" "g_gcroot g' = g_gcroot g" "g_trace g' = g_trace g" "gc_gray g' = gc_gray g"
    "gc_root g' = gc_root g" "gc_mmudata g' = gc_mmudata g" "gc_strhash g' = gc_strhash g" "g_registry g' = g_registry g" "g_mainth g' = g_mainth g"
    "g_curtrace g' = g_curtrace g" "gc_currentwhite g' = gc_currentwhite g" "gc_state g' = gc_state g" "g_uvhead g' = g_uvhead g"
    "gc_grayagain g' = gc_grayagain g"
  using crelD(1) [OF assms] by auto

lemma crel_kind:
  assumes "crel g g'"
  shows "is_tab g' x = is_tab g x" "is_str g' x = is_str g x" "is_thread g' x = is_thread g x" "(h_obj g' x = None) = (h_obj g x = None)"
    "str_of g' = str_of g" "is_udata g' x = is_udata g x" "is_cdata g' x = is_cdata g x"
proof -
  note h = crelD(5) [OF assms]
  show "is_tab g' x = is_tab g x" "is_str g' x = is_str g x" "is_thread g' x = is_thread g x" "(h_obj g' x = None) = (h_obj g x = None)"
    "is_udata g' x = is_udata g x" "is_cdata g' x = is_cdata g x"
    using h [of x] by (auto simp: is_tab_def is_str_def is_thread_def is_udata_def is_cdata_def)
  have "(case h_obj g' y of Some (OStr s) \<Rightarrow> Some s | _ \<Rightarrow> None) = (case h_obj g y of Some (OStr s) \<Rightarrow> Some s | _ \<Rightarrow> None)" for y
    using h [of y] by auto
  then show "str_of g' = str_of g" by (intro ext) (simp add: str_of_def split: gcv.split)
qed

lemma clr_find:
  "list_all2 (clr_node g) ns ns' \<Longrightarrow>
     (case find (\<lambda>n. snd n = key) ns of
        None \<Rightarrow> find (\<lambda>n. snd n = key) ns' = None
      | Some n \<Rightarrow> (\<exists>n'. find (\<lambda>n. snd n = key) ns' = Some n' \<and> clr_node g n n' \<and> snd n = key))"
proof (induction rule: list_all2_induct)
  case (Cons n ns n' ns')
  show ?case
  proof (cases "snd n = key")
    case True
    then show ?thesis using Cons.hyps(1) by (simp add: clr_node_def)
  next
    case False
    then have "snd n' \<noteq> key" using Cons.hyps(1) by (simp add: clr_node_def)
    then have "find (\<lambda>n. snd n = key) (n # ns) = find (\<lambda>n. snd n = key) ns" "find (\<lambda>n. snd n = key) (n' # ns') = find (\<lambda>n. snd n = key) ns'"
      using False by simp_all
    then show ?thesis using Cons.IH by (simp only:)
  qed
qed simp

lemma crel_getref:
  assumes "crel g g'" "is_str g name"
  shows "tab_getref g' mt name = tab_getref g mt name \<or>
    (\<exists>v. tab_getref g mt name = Some v \<and> tab_getref g' mt name = Some VNil \<and> str_of g v = None)"
proof (cases "h_obj g' mt = h_obj g mt")
  case True
  then show ?thesis by (simp add: tab_getref_def tab_of_def)
next
  case False
  then obtain t t' where t: "h_obj g mt = Some (OTab t)" "h_obj g' mt = Some (OTab t')" "clr_tab g t t'" using crelD(5) [OF assms(1), of mt] by blast
  then have tb: "tab_of g mt = t" "tab_of g' mt = t'" by (simp_all add: tab_of_def)
  have s: "str_of g (VRef name) \<noteq> None" using assms(2) by (auto simp: str_of_def is_str_def split: option.splits gcobj.splits)
  have l: "list_all2 (clr_node g) (gt_node t) (gt_node t')" using t(3) by (simp add: clr_tab_def)
  have e: "(\<lambda>(v, k). k = VRef name) = (\<lambda>n :: gcv \<times> gcv. snd n = VRef name)" by auto
  show ?thesis using clr_find [OF l, of "VRef name"] s unfolding tab_getref_def tb e
    by (cases "find (\<lambda>n. snd n = VRef name) (gt_node t)") (auto simp: clr_node_def)
qed

lemma crel_obj_ok:
  assumes "crel g g'" "obj_ok g x"
  shows "obj_ok g' x"
proof -
  have s: "stack_slot g' th i = stack_slot g th i" for th i using crelD(5) [OF assms(1), of th] by (auto simp: stack_slot_def)
  have u: "uvval g' x = uvval g x" using crelD(5) [OF assms(1), of x] s by (auto simp: uvval_def split: option.splits gcobj.splits)
  have k: "is_upval g' y = is_upval g y" "is_trace g' y = is_trace g y" for y
    using crelD(5) [OF assms(1), of y] by (auto simp: is_upval_def is_trace_def)
  note kk = crel_kind [OF assms(1)] crel_fields(4) [OF assms(1)]
  from crelD(5) [OF assms(1), of x] show ?thesis
  proof (elim disjE exE conjE)
    assume "h_obj g' x = h_obj g x"
    then show ?thesis using assms(2) by (simp add: obj_ok_def u k kk split: option.splits gcobj.splits)
  qed (simp add: obj_ok_def)
qed

text \<open>The name \<open>__mode\<close> is a string.\<close>

definition mode_name :: "gcst \<Rightarrow> bool" where "mode_name g \<longleftrightarrow> is_str g (g_gcroot g ! MM_mode)"

lemma crel_mode:
  assumes "crel g g'" "mode_name g"
  shows "tab_mode g' x = tab_mode g x"
proof -
  have mt: "gt_metatable (tab_of g' x) = gt_metatable (tab_of g x)"
    using crelD(5) [OF assms(1), of x] by (auto simp: tab_of_def clr_tab_def)
  let ?mt = "gt_metatable (tab_of g x)"
  from crel_getref [OF assms(1) assms(2) [unfolded mode_name_def], of ?mt] show ?thesis
    unfolding tab_mode_meta meta_res_eq mt crel_fields(2,3) [OF assms(1)] tab_weak_def crel_kind(5) [OF assms(1)]
    by (auto split: option.split)
qed

lemma clr_refs:
  assumes "clr_tab g t t'"
  shows "tab_refs w t' \<subseteq> tab_refs w t"
proof -
  have a: "\<Union> (vrefs ` set (gt_array t')) \<subseteq> \<Union> (vrefs ` set (gt_array t))"
  proof -
    have "list_all2 (clr_val g) vs vs' \<Longrightarrow> \<Union> (vrefs ` set vs') \<subseteq> \<Union> (vrefs ` set vs)" for vs vs'
      by (induction rule: list_all2_induct) (auto simp: clr_val_def)
    then show ?thesis using assms by (simp add: clr_tab_def)
  qed
  have r: "node_refs w n' \<subseteq> node_refs w n" if "clr_node g n n'" for n n'
    using that by (auto simp: clr_node_def node_refs_def split: prod.splits)
  have "\<Union> (node_refs w ` set ns') \<subseteq> \<Union> (node_refs w ` set ns)" if "list_all2 (clr_node g) ns ns'" for ns ns'
    using that
  proof (induction rule: list_all2_induct)
    case (Cons n ns n' ns')
    show ?case using Cons.IH r [OF Cons.hyps(1)] by auto
  qed simp
  then have n: "\<Union> (node_refs w ` set (gt_node t')) \<subseteq> \<Union> (node_refs w ` set (gt_node t))" using assms by (simp add: clr_tab_def)
  show ?thesis unfolding tab_refs_def using a n by auto
qed

lemma crel_refs_of:
  assumes "crel g g'"
  shows "refs_of g' w x \<subseteq> refs_of g w x"
proof -
  have t: "trace_refs g' = trace_refs g" by (intro ext) (simp only: trace_refs_def crel_fields(4) [OF assms])
  have s: "stack_slot g' th i = stack_slot g th i" for th i using crelD(5) [OF assms, of th] by (auto simp: stack_slot_def)
  have u: "uvval g' x = uvval g x" using crelD(5) [OF assms, of x] s by (auto simp: uvval_def split: option.splits gcobj.splits)
  from crelD(5) [OF assms, of x] show ?thesis
  proof
    assume h: "h_obj g' x = h_obj g x"
    show ?thesis
    proof (cases "h_obj g x")
      case (Some ob)
      then show ?thesis using h u t crel_fields(4) [OF assms] by (cases ob) (auto simp: refs_of_def)
    qed (simp add: h refs_of_def)
  next
    assume "\<exists>t t'. h_obj g x = Some (OTab t) \<and> h_obj g' x = Some (OTab t') \<and> clr_tab g t t'"
    then obtain t t' where t: "h_obj g x = Some (OTab t)" "h_obj g' x = Some (OTab t')" "clr_tab g t t'" by blast
    then show ?thesis using clr_refs [OF t(3), of "w x"] by (auto simp: refs_of_def clr_tab_def)
  qed
qed

lemma crel_refs:
  assumes "crel g g'" "mode_name g"
  shows "kids g' x \<subseteq> kids g x" "refs g' x \<subseteq> refs g x"
proof -
  have m: "tab_mode g' = tab_mode g" by (intro ext) (rule crel_mode [OF assms])
  show "kids g' x \<subseteq> kids g x" "refs g' x \<subseteq> refs g x"
    unfolding kids_def refs_def m by (rule crel_refs_of [OF assms(1)])+
qed

section \<open>Clearing one table\<close>

lemma clear_array_ok:
  "clear_array vs g = (g', ws) \<Longrightarrow>
     smark g g' \<and> list_all2 (clr_val g) vs ws \<and> (\<forall>z \<in> \<Union> (vrefs ` set ws). \<not> iswhite g' z)"
proof (induction vs g arbitrary: g' ws rule: clear_array.induct)
  case (1 g)
  then show ?case by (simp add: smark_refl)
next
  case (2 v vs g)
  obtain g1 c where m: "gc_mayclear v True g = (g1, c)" by fastforce
  obtain g2 us where r: "clear_array vs g1 = (g2, us)" by fastforce
  have g: "g' = g2" "ws = (if c then VNil else v) # us" using "2.prems" m r by simp_all
  note i = "2.IH" [OF m [symmetric] r] and mc = mayclear_ok [OF m]
  have "clr_val g v (if c then VNil else v)" using mc(3) by (simp add: clr_val_def)
  moreover have "list_all2 (clr_val g) vs us" using i smark_str_of(1) [OF mc(1)] by (simp add: clr_val_def [abs_def])
  moreover have "\<not> iswhite g2 z" if "z \<in> vrefs (if c then VNil else v)" for z
    using mc(2) [of z] that i smarkD(2) [of g1 g2 z] by (cases c) auto
  ultimately show ?case using i smark_trans [OF mc(1)] g by auto
qed

lemma clear_node_ok:
  assumes "clear_node n g = (g', n')"
  shows "smark g g'" "clr_node g n n'" "z \<in> node_refs 0 n' \<Longrightarrow> \<not> iswhite g' z"
proof -
  obtain v k where n: "n = (v, k)" by (cases n)
  have "smark g g' \<and> clr_node g n n' \<and> (\<forall>z \<in> node_refs 0 n'. \<not> iswhite g' z)"
  proof (cases "v = VNil")
    case True
    then show ?thesis using assms n by (auto simp: clear_node_def smark_refl clr_node_def node_refs_def)
  next
    case v: False
    obtain g1 c where m: "gc_mayclear k False g = (g1, c)" by fastforce
    note mc = mayclear_ok [OF m]
    show ?thesis
    proof (cases c)
      case True
      then have "g' = g1" "n' = (VNil, k)" using assms n v m by (simp_all add: clear_node_def)
      then show ?thesis using mc(1) mc(3) [OF True] by (simp add: clr_node_def node_refs_def n)
    next
      case False
      obtain g2 d where m2: "gc_mayclear v True g1 = (g2, d)" by fastforce
      note md = mayclear_ok [OF m2]
      have g: "g' = g2" "n' = (if d then VNil else v, k)" using assms n v m m2 False by (simp_all add: clear_node_def)
      have "str_of g v = None" if d using md(3) [OF that] smark_str_of(1) [OF mc(1)] by simp
      moreover have "\<not> iswhite g2 z" if "z \<in> vrefs k" for z using mc(2) [OF False that] smarkD(2) [OF md(1)] by blast
      ultimately show ?thesis using smark_trans [OF mc(1) md(1)] md(2) g n v
        by (auto simp: clr_node_def node_refs_def)
    qed
  qed
  then show "smark g g'" "clr_node g n n'" "z \<in> node_refs 0 n' \<Longrightarrow> \<not> iswhite g' z" by simp_all
qed

lemma clear_nodes_ok:
  "clear_nodes ns g = (g', ms) \<Longrightarrow>
     smark g g' \<and> list_all2 (clr_node g) ns ms \<and> (\<forall>z \<in> \<Union> (node_refs 0 ` set ms). \<not> iswhite g' z)"
proof (induction ns g arbitrary: g' ms rule: clear_nodes.induct)
  case (1 g)
  then show ?case by (simp add: smark_refl)
next
  case (2 n ns g)
  obtain g1 m where m: "clear_node n g = (g1, m)" by (cases "clear_node n g")
  obtain g2 us where r: "clear_nodes ns g1 = (g2, us)" by (cases "clear_nodes ns g1")
  have g: "g' = g2" "ms = m # us" using "2.prems" m r by simp_all
  note i = "2.IH" [OF m [symmetric] r] and mc = clear_node_ok [OF m]
  have "list_all2 (clr_node g) ns us" using i smark_str_of(1) [OF mc(1)] by (simp add: clr_node_def [abs_def])
  moreover have "\<not> iswhite g2 z" if "z \<in> node_refs 0 m" for z using mc(3) [OF that] i smarkD(2) [of g1 g2 z] by blast
  ultimately show ?case using i smark_trans [OF mc(1)] mc(2) g by auto
qed

text \<open>One table: the entries that stay refer to marked objects.\<close>

definition weak_entry :: "gcst \<Rightarrow> addr \<Rightarrow> bool" where
  "weak_entry g x \<longleftrightarrow> is_tab g x \<and> 0 < tab_mode g x \<and> h_mark g x AND 24 = word_of_int (tab_mode g x) \<and> (\<forall>z \<in> kids g x. \<not> iswhite g z)"

lemma flag_mode:
  assumes "weak_entry g x"
  shows "h_mark g x AND word_of_int LJ_GC_WEAKVAL \<noteq> 0 \<longleftrightarrow> tab_mode g x AND LJ_GC_WEAKVAL \<noteq> 0"
proof -
  have f: "h_mark g x AND 24 = word_of_int (tab_mode g x)" using assms by (simp add: weak_entry_def)
  have "h_mark g x AND 16 = (h_mark g x AND 24) AND 16"
    by (rule byte_eqI) (auto simp: bit_and_iff mbyte_bits simp del: bit_numeral_word_iff bit_neg_numeral_word_iff)
  then show ?thesis using f tab_mode_pos [of g x] assms by (auto simp: weak_entry_def LJ_GC_WEAKVAL_def)
qed

lemma smark_crel:
  assumes "smark g g1" "h_obj g x = Some (OTab t)" "clr_tab g t t'"
  shows "crel g (set_obj x (OTab t') g1)"
proof -
  obtain mk where m: "g1 = g\<lparr>h_mark := mk\<rparr>" using smarkD(1) [OF assms(1)] by blast
  have "set_obj x (OTab t') g1 = g\<lparr>h_mark := mk, h_obj := (h_obj g)(x := Some (OTab t'))\<rparr>" by (simp add: m set_obj_def)
  then have e: "\<exists>mk ob. set_obj x (OTab t') g1 = g\<lparr>h_mark := mk, h_obj := ob\<rparr>" by (intro exI)
  have h: "h_obj (set_obj x (OTab t') g1) y = (if y = x then Some (OTab t') else h_obj g y)" for y by (simp add: set_obj_def m)
  have k: "h_mark (set_obj x (OTab t') g1) = h_mark g1" by (simp add: set_obj_def)
  show ?thesis unfolding crel_def white_fields [OF k] h k
    using e smarkD(2-4) [OF assms(1)] assms(2,3) by simp
qed

lemma clear_tab_ok:
  assumes "weak_entry g x" "mode_name g"
  shows "crel g (clear_tab x g)" "z \<in> refs (clear_tab x g) x \<Longrightarrow> \<not> iswhite (clear_tab x g) z"
proof -
  obtain t where t: "h_obj g x = Some (OTab t)" using assms(1) by (auto simp: weak_entry_def is_tab_def split: option.splits gcobj.splits)
  have tb: "tab_of g x = t" by (simp add: tab_of_def t)
  let ?w = "tab_mode g x"
  obtain g1 vs where a: "(if h_mark g x AND word_of_int LJ_GC_WEAKVAL \<noteq> 0 then clear_array (gt_array t) g else (g, gt_array t)) = (g1, vs)"
    by fastforce
  obtain g2 ns where n: "clear_nodes (gt_node t) g1 = (g2, ns)" by (cases "clear_nodes (gt_node t) g1")
  let ?t = "t\<lparr>gt_array := vs, gt_node := ns\<rparr>"
  let ?g = "set_obj x (OTab ?t) g2"
  have e: "clear_tab x g = ?g" unfolding clear_tab_def tb Let_def a prod.case n by (rule refl)
  have kd: "kids g x = (if gt_metatable t \<noteq> 0 then {gt_metatable t} else {}) \<union> tab_refs ?w t" by (simp add: kids_def refs_of_def t)
  have kw: "\<not> iswhite g z" if "z \<in> kids g x" for z using assms(1) that by (simp add: weak_entry_def)
  have 1: "smark g g1 \<and> list_all2 (clr_val g) (gt_array t) vs \<and> (\<forall>z \<in> \<Union> (vrefs ` set vs). \<not> iswhite g1 z)"
  proof (cases "h_mark g x AND word_of_int LJ_GC_WEAKVAL \<noteq> 0")
    case True
    then show ?thesis using clear_array_ok a by simp
  next
    case False
    then have g: "g1 = g" "vs = gt_array t" using a by simp_all
    have "?w AND LJ_GC_WEAKVAL = 0" using flag_mode [OF assms(1)] False by simp
    then have "\<Union> (vrefs ` set vs) \<subseteq> kids g x" unfolding kd tab_refs_def g by auto
    then show ?thesis using g kw by (auto simp: smark_refl clr_val_def list_all2_same)
  qed
  have 2: "smark g1 g2" "list_all2 (clr_node g1) (gt_node t) ns" "\<forall>z \<in> \<Union> (node_refs 0 ` set ns). \<not> iswhite g2 z"
    using clear_nodes_ok [OF n] by simp_all
  have sm: "smark g g2" using smark_trans 1 2(1) by blast
  have "clr_node g1 = clr_node g" using smark_str_of(1) [of g g1] 1 by (simp add: clr_node_def fun_eq_iff)
  then have cl: "clr_tab g t ?t" using 1 2(2) by (simp add: clr_tab_def)
  note c = smark_crel [OF sm t cl]
  show "crel g (clear_tab x g)" unfolding e by (rule c)
  assume z: "z \<in> refs (clear_tab x g) x"
  have md: "tab_mode ?g x = ?w" by (rule crel_mode [OF c assms(2)])
  have "0 < ?w" using assms(1) by (simp add: weak_entry_def)
  then have w: "(if ?w < 0 then ?w else 0) = 0" by simp
  have ho: "h_obj ?g x = Some (OTab ?t)" by (simp add: set_obj_def)
  have gm: "gt_metatable ?t = gt_metatable t" by simp
  have "refs ?g x = (if gt_metatable t \<noteq> 0 then {gt_metatable t} else {}) \<union> tab_refs 0 ?t"
    by (simp only: refs_def refs_of_def md ho option.case gcobj.case w gm)
  then have "z \<in> (if gt_metatable t \<noteq> 0 then {gt_metatable t} else {}) \<union> tab_refs 0 ?t" using z unfolding e by simp
  moreover have "\<not> iswhite g2 y" if "y \<in> (if gt_metatable t \<noteq> 0 then {gt_metatable t} else {})" for y
    using kw [of y] smarkD(2) [OF sm] that unfolding kd by blast
  moreover have "\<not> iswhite g2 y" if "y \<in> tab_refs 0 ?t" for y
    using that 1 2(3) smarkD(2) [OF 2(1)] by (auto simp: tab_refs_def)
  moreover have "iswhite (clear_tab x g) = iswhite g2" unfolding e by (rule white_fields) (simp add: set_obj_def)
  ultimately show "\<not> iswhite (clear_tab x g) z" by auto
qed

section \<open>Clearing all of them\<close>

lemma crel_refl: "crel g g"
proof -
  have "g = g\<lparr>h_mark := h_mark g, h_obj := h_obj g\<rparr>" by simp
  then have "\<exists>mk ob. g = g\<lparr>h_mark := mk, h_obj := ob\<rparr>" by (intro exI)
  then show ?thesis by (simp add: crel_def)
qed

lemma clr_tab_trans: "clr_tab g t t1 \<Longrightarrow> clr_tab g t1 t2 \<Longrightarrow> clr_tab g t t2"
proof -
  assume a: "clr_tab g t t1" "clr_tab g t1 t2"
  have v: "clr_val g v w \<Longrightarrow> clr_val g w u \<Longrightarrow> clr_val g v u" for v w u by (auto simp: clr_val_def)
  have n: "clr_node g v w \<Longrightarrow> clr_node g w u \<Longrightarrow> clr_node g v u" for v w u by (auto simp: clr_node_def)
  have 1: "list_all2 (clr_val g) (gt_array t) (gt_array t1)" "list_all2 (clr_val g) (gt_array t1) (gt_array t2)"
    "list_all2 (clr_node g) (gt_node t) (gt_node t1)" "list_all2 (clr_node g) (gt_node t1) (gt_node t2)"
    using a by (simp_all add: clr_tab_def)
  have "list_all2 (clr_val g) (gt_array t) (gt_array t2)" by (rule list_all2_trans [OF _ 1(1,2)]) (rule v)
  moreover have "list_all2 (clr_node g) (gt_node t) (gt_node t2)" by (rule list_all2_trans [OF _ 1(3,4)]) (rule n)
  ultimately show ?thesis using a unfolding clr_tab_def by simp
qed

lemma crel_trans: "crel g g1 \<Longrightarrow> crel g1 g2 \<Longrightarrow> crel g g2"
proof -
  assume a: "crel g g1" "crel g1 g2"
  obtain mk1 ob1 mk2 ob2 where "g1 = g\<lparr>h_mark := mk1, h_obj := ob1\<rparr>" "g2 = g1\<lparr>h_mark := mk2, h_obj := ob2\<rparr>"
    using crelD(1) [OF a(1)] crelD(1) [OF a(2)] by blast
  then have "g2 = g\<lparr>h_mark := mk2, h_obj := ob2\<rparr>" by simp
  then have e: "\<exists>mk ob. g2 = g\<lparr>h_mark := mk, h_obj := ob\<rparr>" by (intro exI)
  have s: "str_of g1 = str_of g" "is_str g1 x = is_str g x" for x using crel_kind(2,5) [OF a(1)] by auto
  have c: "clr_tab g1 = clr_tab g" by (simp add: clr_tab_def clr_val_def [abs_def] clr_node_def [abs_def] s(1) fun_eq_iff)
  have h: "h_obj g2 x = h_obj g x \<or> (\<exists>t t'. h_obj g x = Some (OTab t) \<and> h_obj g2 x = Some (OTab t') \<and> clr_tab g t t')" for x
  proof (cases "h_obj g1 x = h_obj g x")
    case True
    then show ?thesis using crelD(5) [OF a(2), of x] unfolding c by auto
  next
    case False
    then obtain t t1 where t: "h_obj g x = Some (OTab t)" "h_obj g1 x = Some (OTab t1)" "clr_tab g t t1" using crelD(5) [OF a(1), of x] by blast
    then show ?thesis using crelD(5) [OF a(2), of x] clr_tab_trans [OF t(3)] unfolding c by auto
  qed
  have "h_mark g2 x = h_mark g x" if "\<not> is_str g x" for x using crelD(3) [OF a(1) that] crelD(3) [OF a(2), of x] that s(2) by simp
  moreover have "\<not> iswhite g2 x" if "\<not> iswhite g x" for x using crelD(2) [OF a(1) that] crelD(2) [OF a(2)] by blast
  ultimately show "crel g g2" unfolding crel_def using e h crelD(4) [OF a(1)] crelD(4) [OF a(2)] by simp
qed

lemma crel_entry:
  assumes "crel g g'" "mode_name g" "weak_entry g x"
  shows "weak_entry g' x"
  using assms(3) crelD(2,4) [OF assms(1)] crel_refs(1) [OF assms(1,2), of x] crel_mode [OF assms(1,2)] crel_kind(1) [OF assms(1)]
  unfolding weak_entry_def by (simp, blast)

lemma crel_name: "crel g g' \<Longrightarrow> mode_name g' = mode_name g"
  by (simp add: mode_name_def crel_kind(2) crel_fields(3))

lemma clearweak_ok:
  "\<forall>x \<in> set xs. weak_entry g x \<Longrightarrow> mode_name g \<Longrightarrow>
     crel g (gc_clearweak xs g) \<and> (\<forall>x \<in> set xs. \<forall>z \<in> refs (gc_clearweak xs g) x. \<not> iswhite (gc_clearweak xs g) z)"
proof (induction xs arbitrary: g)
  case Nil
  then show ?case by (simp add: gc_clearweak_def crel_refl)
next
  case (Cons x xs)
  let ?g1 = "clear_tab x g" and ?g2 = "gc_clearweak xs (clear_tab x g)"
  have "weak_entry g x" using Cons.prems(1) by simp
  note c = clear_tab_ok [OF this Cons.prems(2)]
  have n1: "mode_name ?g1" using crel_name [OF c(1)] Cons.prems(2) by simp
  have "crel ?g1 ?g2 \<and> (\<forall>x \<in> set xs. \<forall>z \<in> refs ?g2 x. \<not> iswhite ?g2 z)"
    by (rule Cons.IH [OF _ n1]) (use Cons.prems crel_entry [OF c(1) Cons.prems(2)] in simp)
  then have i: "crel ?g1 ?g2" "\<forall>x \<in> set xs. \<forall>z \<in> refs ?g2 x. \<not> iswhite ?g2 z" by simp_all
  have "\<not> iswhite ?g2 z" if "z \<in> refs ?g2 x" for z
    using crel_refs(2) [OF i(1) n1, of x] that c(2) crelD(2) [OF i(1)] by blast
  moreover have "gc_clearweak (x # xs) g = ?g2" by (simp add: gc_clearweak_def)
  ultimately show ?case using crel_trans [OF c(1) i(1)] i(2) by simp
qed

end
