(* ===== verification/LJ_GCAtomic.thy ===== *)
theory LJ_GCAtomic
  imports LJ_GCClear
begin

text \<open>
  The atomic phase: from the invariant of the mark phase it returns, and in the state it returns no object that can be
  reached from the roots is dead.
\<close>

section \<open>The invariant of the mark phase\<close>

definition is_openuv :: "gcst \<Rightarrow> addr \<Rightarrow> bool" where
  "is_openuv g x \<longleftrightarrow> (case h_obj g x of Some (OUpval closed tv th i) \<Rightarrow> \<not> closed | _ \<Rightarrow> False)"

definition cur_trace_ok :: "gcst \<Rightarrow> bool" where
  "cur_trace_ok g \<longleftrightarrow> (\<forall>y \<in> trace_refs g (g_curtrace g). h_obj g y \<noteq> None) \<and>
     (tr_traceno (g_curtrace g) \<noteq> 0 \<longrightarrow>
       (\<forall>n \<in> {tr_link (g_curtrace g), tr_nextroot (g_curtrace g), tr_nextside (g_curtrace g)} - {0}. is_trace g (g_trace g n)))"

text \<open>The roots exist and have the right kinds; the open upvalues are those of the global list.\<close>

definition roots_ok :: "gcst \<Rightarrow> bool" where
  "roots_ok g \<longleftrightarrow>
     is_thread g (g_mainth g) \<and> (\<forall>y \<in> vrefs (g_registry g). h_obj g y \<noteq> None) \<and>
     (\<forall>y \<in> set (g_gcroot g) - {0}. h_obj g y \<noteq> None) \<and> mode_name g \<and> cur_trace_ok g \<and>
     (\<forall>u \<in> set (gc_mmudata g). is_udata g u \<or> is_cdata g u) \<and>
     (\<forall>u \<in> set (after (Some (g_mainth g)) (gc_root g)). is_udata g u) \<and>
     (\<forall>x. is_openuv g x \<longleftrightarrow> x \<in> set (g_uvhead g)) \<and> gc_currentwhite g AND 3 \<in> {1, 2}"

text \<open>
  The mark phase keeps: whatever is marked and does not wait in a list, and is not an open upvalue, refers to marked objects only;
  the main thread and the registry are marked; open upvalues are not black.
\<close>

definition pending :: "gcst \<Rightarrow> addr set" where
  "pending g = set (gc_grayagain g) \<union> set (gc_weak g) \<union> {x. is_openuv g x}"

definition mark_inv :: "gcst \<Rightarrow> bool" where
  "mark_inv g \<longleftrightarrow> roots_ok g \<and> minv False (pending g) g \<and> (\<forall>x. is_openuv g x \<longrightarrow> \<not> isblack g x) \<and>
     \<not> iswhite g (g_mainth g) \<and> (\<forall>y \<in> vrefs (g_registry g). \<not> iswhite g y)"

section \<open>Roots and reachable objects\<close>

definition gc_roots :: "addr \<Rightarrow> gcst \<Rightarrow> addr set" where
  "gc_roots L g = {g_mainth g, L} \<union> vrefs (g_registry g) \<union> (set (g_gcroot g) - {0}) \<union> trace_refs g (g_curtrace g) \<union> set (gc_mmudata g)"

inductive gc_reach :: "addr \<Rightarrow> gcst \<Rightarrow> addr \<Rightarrow> bool" for L g where
  root: "x \<in> gc_roots L g \<Longrightarrow> gc_reach L g x"
| ref: "gc_reach L g x \<Longrightarrow> y \<in> refs g x \<Longrightarrow> gc_reach L g y"

section \<open>Parts of the atomic phase\<close>

text \<open>Progress from \<open>g\<close> to \<open>g'\<close>, whatever the lists of gray objects do.\<close>

definition prog :: "gcst \<Rightarrow> gcst \<Rightarrow> bool" where
  "prog g g' \<longleftrightarrow> hrel g g' \<and> (\<forall>x. \<not> iswhite g x \<longrightarrow> \<not> iswhite g' x)"

lemma progD: "prog g g' \<Longrightarrow> hrel g g'" "prog g g' \<Longrightarrow> \<not> iswhite g x \<Longrightarrow> \<not> iswhite g' x"
  by (simp_all add: prog_def)

lemma adv_prog: "adv g g' \<Longrightarrow> prog g g'" by (simp add: adv_def prog_def)

lemma prog_trans: "prog g g1 \<Longrightarrow> prog g1 g2 \<Longrightarrow> prog g g2"
  using hrel_trans by (auto simp: prog_def)

lemma minv_shrink:
  assumes "minv b (Y \<union> V) g" "\<And>x. x \<in> V \<Longrightarrow> \<not> iswhite g x \<Longrightarrow> x \<notin> set (gc_gray g) \<Longrightarrow> x \<notin> Y \<Longrightarrow> \<forall>z \<in> refs g x. \<not> iswhite g z"
  shows "minv b Y g"
proof -
  have "closedg (set (gc_gray g) \<union> Y) g"
    unfolding closedg_def
  proof (intro allI impI)
    fix x assume x: "\<not> iswhite g x" "x \<notin> set (gc_gray g) \<union> Y"
    show "\<forall>y \<in> (if x \<in> set (gc_weak g) then kids g x else refs g x). \<not> iswhite g y"
    proof (cases "x \<in> V")
      case True
      then show ?thesis using assms(2) [OF True x(1)] x(2) kids_refs [of g x] by auto
    next
      case False
      then show ?thesis using closedgD [OF minvD(4) [OF assms(1)] x(1)] x(2) by blast
    qed
  qed
  then show ?thesis using assms(1) by (simp add: minv_def)
qed

text \<open>Folds of marking where later parts depend on what is marked.\<close>

lemma marks_fold:
  assumes "\<And>y g'. y \<in> set ys \<Longrightarrow> marks g g' \<Longrightarrow> marked_by g' (X y) (f y g')"
  shows "marked_by g (\<Union> (X ` set ys)) (List.fold f ys g)"
  using assms
proof (induction ys arbitrary: g)
  case (Cons y ys)
  have a: "marked_by g (X y) (f y g)" by (rule Cons.prems) (simp_all add: marks_refl)
  then have m: "marks g (f y g)" by (simp add: marked_by_def)
  have "marked_by (f y g) (\<Union> (X ` set ys)) (List.fold f ys (f y g))"
    by (rule Cons.IH) (use Cons.prems marks_trans [OF m] in simp)
  from marked_comp [OF a this] show ?case by simp
qed (simp add: marked_refl)

lemma isgray_white: "isgray g x \<longleftrightarrow> \<not> iswhite g x \<and> \<not> isblack g x"
proof -
  have "h_mark g x AND 7 = 0 \<longleftrightarrow> h_mark g x AND 3 = 0 \<and> h_mark g x AND 4 = 0"
  proof -
    have "(h_mark g x AND 7) AND 3 = h_mark g x AND 3" "(h_mark g x AND 7) AND 4 = h_mark g x AND 4"
      "h_mark g x AND 7 = (h_mark g x AND 3) OR (h_mark g x AND 4)"
      by (rule byte_eqI, auto simp: bit_and_iff bit_or_iff mbyte_bits simp del: bit_numeral_word_iff bit_neg_numeral_word_iff)+
    then show ?thesis by (metis and_zero_eq bit.disj_zero_right and.commute)
  qed
  then show ?thesis by (simp add: isgray_def iswhite_def isblack_def LJ_GC_COLORS_def LJ_GC_WHITES_def LJ_GC_BLACK_def)
qed

lemma openuv_upval: "is_openuv g x \<Longrightarrow> is_upval g x" "is_openuv g x \<Longrightarrow> kids g x = vrefs (uvval g x)" "is_openuv g x \<Longrightarrow> \<not> travobj g x"
  by (auto simp: is_openuv_def is_upval_def kids_def refs_of_def travobj_def split: option.splits gcobj.splits)

lemma mark_uv_ok:
  assumes "typed g" "\<And>x. x \<in> set (g_uvhead g) \<Longrightarrow> is_openuv g x"
  shows "marks g (gc_mark_uv g)" "x \<in> set (g_uvhead g) \<Longrightarrow> isgray g x \<Longrightarrow> z \<in> kids g x \<Longrightarrow> \<not> iswhite (gc_mark_uv g) z"
proof -
  let ?f = "\<lambda>uv g. if isgray g uv then gc_marktv (uvval g uv) g else g"
  let ?X = "\<lambda>uv. if isgray g uv then kids g uv else {}"
  have "marked_by g (\<Union> (?X ` set (g_uvhead g))) (List.fold ?f (g_uvhead g) g)"
  proof (rule marks_fold)
    fix uv g' assume uv: "uv \<in> set (g_uvhead g)" "marks g g'"
    have h: "same_heap g g'" by (rule marksx_heap [OF uv(2)])
    have k: "kids g uv = vrefs (uvval g' uv)" using openuv_upval(2) [OF assms(2) [OF uv(1)]] same_heap_mode(2) [OF h] by simp
    have m: "marked_by g' (vrefs (uvval g' uv)) (gc_marktv (uvval g' uv) g')"
    proof (rule gc_marktv_ok [OF heap_pre(1) [OF h assms(1)]])
      show "h_obj g' y \<noteq> None" if "y \<in> vrefs (uvval g' uv)" for y
        using typedD(1) [OF assms(1), of y uv] that k heap_pre(2) [OF h assms(1)] by simp
    qed
    have "isgray g' uv" if "isgray g uv"
      using that marksxD(3) [OF uv(2), of uv] isgray_white [of g uv] by (simp add: isgray_def)
    then show "marked_by g' (?X uv) (?f uv g')" using m k by (auto simp: marked_by_def marks_refl)
  qed
  then show "marks g (gc_mark_uv g)" "x \<in> set (g_uvhead g) \<Longrightarrow> isgray g x \<Longrightarrow> z \<in> kids g x \<Longrightarrow> \<not> iswhite (gc_mark_uv g) z"
    by (auto simp: gc_mark_uv_def marked_by_def)
qed

lemma mark_uv_inv:
  assumes "mark_inv g"
  shows "minv False (set (gc_grayagain g) \<union> set (gc_weak g)) (gc_mark_uv g)" "adv g (gc_mark_uv g)"
proof -
  let ?g = "gc_mark_uv g"
  have uv: "is_openuv g x \<longleftrightarrow> x \<in> set (g_uvhead g)" for x using assms by (simp add: mark_inv_def roots_ok_def)
  have m: "minv False (pending g) g" using assms by (simp add: mark_inv_def)
  note mu = mark_uv_ok [OF minvD(1) [OF m], of, unfolded uv]
  have mk: "marks g ?g" by (rule mark_uv_ok(1) [OF minvD(1) [OF m]]) (simp add: uv)
  have gr: "\<not> iswhite ?g z" if "is_openuv g x" "\<not> iswhite g x" "z \<in> kids g x" for x z
    by (rule mark_uv_ok(2) [OF minvD(1) [OF m], of x])
      (use that assms in \<open>simp_all add: uv isgray_white mark_inv_def\<close>)
  note a = marks_minv [OF m mk]
  show "adv g ?g" by (rule a(2))
  show "minv False (set (gc_grayagain g) \<union> set (gc_weak g)) ?g"
  proof (rule minv_shrink)
    show "minv False (set (gc_grayagain g) \<union> set (gc_weak g) \<union> {x. is_openuv g x}) ?g" using a(1) by (simp add: pending_def)
    fix x assume x: "x \<in> {x. is_openuv g x}" "\<not> iswhite ?g x" "x \<notin> set (gc_gray ?g)"
    have h: "same_heap g ?g" by (rule marksx_heap [OF mk])
    have t: "\<not> is_tab ?g x" using x(1) openuv_upval(3) travobj_tab same_heap_kind(1) [OF h] by auto
    have "refs ?g x = kids g x" using refs_kids [of ?g x] t same_heap_refs(2) [OF h] by simp
    moreover have "\<forall>z \<in> kids g x. \<not> iswhite ?g z"
      using gr [of x] marksxD(5) [OF mk, of x] x by (cases "iswhite g x") auto
    ultimately show "\<forall>z \<in> refs ?g x. \<not> iswhite ?g z" by simp
  qed
qed

text \<open>Changes that touch neither colours nor the lists.\<close>

lemma minv_same:
  assumes "minv b Y g" "hrel g g'" "iswhite g' = iswhite g" "gc_gray g' = gc_gray g" "gc_grayagain g' = gc_grayagain g" "gc_weak g' = gc_weak g"
    "\<And>x. is_tab g x \<Longrightarrow> h_mark g' x AND 24 = h_mark g x AND 24"
  shows "minv b Y g'"
proof -
  note m = minvD [OF assms(1)] and k = hrel_kind [OF assms(2)]
  have "closedg (set (gc_gray g') \<union> Y) g'"
    unfolding closedg_def
  proof (intro allI impI ballI)
    fix x y assume x: "\<not> iswhite g' x" "x \<notin> set (gc_gray g') \<union> Y" "y \<in> (if x \<in> set (gc_weak g') then kids g' x else refs g' x)"
    have "y \<in> (if x \<in> set (gc_weak g) then kids g x else refs g x)" using x(3) hrel_refs [OF assms(2), of x] assms(6) by (auto split: if_splits)
    then show "\<not> iswhite g' y" using closedgD [OF m(4), of x y] x(1,2) by (simp add: assms(3,4))
  qed
  moreover have "lists_ok g'" using m(3) by (simp add: lists_ok_def assms(3-6) k(7))
  moreover have "b \<Longrightarrow> weak_ok g'" using m(5) assms(7) by (auto simp: weak_ok_def assms(6) k(2) hrel_mode [OF assms(2)])
  moreover have "dom (h_obj g') = dom (h_obj g)" using k(9) by (auto simp: dom_def)
  ultimately show ?thesis using m(2) hrel_typed [OF assms(2) m(1)] by (simp add: minv_def)
qed

lemma minv_regray:
  assumes "minv b Y g" "gc_gray g = []"
  shows "Y \<subseteq> Z \<union> set (gc_weak g) \<Longrightarrow> minv True Z (g\<lparr>gc_gray := gc_weak g, gc_weak := []\<rparr>)"
    "Y \<subseteq> set (gc_grayagain g) \<Longrightarrow> minv b {} (g\<lparr>gc_gray := gc_grayagain g, gc_grayagain := []\<rparr>)"
proof -
  note m = minvD [OF assms(1)]
  have "typed (g\<lparr>gc_gray := gc_weak g, gc_weak := []\<rparr>) = typed g" "typed (g\<lparr>gc_gray := gc_grayagain g, gc_grayagain := []\<rparr>) = typed g"
    by (rule same_heap_typed, simp add: same_heap_def)+
  note ty = this
  have r: "kids (g\<lparr>gc_gray := a, gc_weak := c\<rparr>) = kids g" "refs (g\<lparr>gc_gray := a, gc_weak := c\<rparr>) = refs g"
    "kids (g\<lparr>gc_gray := a, gc_grayagain := c\<rparr>) = kids g" "refs (g\<lparr>gc_gray := a, gc_grayagain := c\<rparr>) = refs g" for a c
    by (rule same_heap_refs, simp add: same_heap_def)+
  have w: "iswhite (g\<lparr>gc_gray := a, gc_weak := c\<rparr>) = iswhite g" "iswhite (g\<lparr>gc_gray := a, gc_grayagain := c\<rparr>) = iswhite g" for a c
    by (rule white_fields, simp)+
  have t: "travobj (g\<lparr>gc_gray := a, gc_weak := c\<rparr>) = travobj g" "travobj (g\<lparr>gc_gray := a, gc_grayagain := c\<rparr>) = travobj g" for a c
    by (rule same_heap_trav, simp add: same_heap_def)+
  show "minv True Z (g\<lparr>gc_gray := gc_weak g, gc_weak := []\<rparr>)" if "Y \<subseteq> Z \<union> set (gc_weak g)"
  proof -
    have "\<not> iswhite g y" if x: "\<not> iswhite g x" "x \<notin> set (gc_weak g) \<union> Z" "y \<in> refs g x" for x y
    proof -
      have "x \<notin> set (gc_gray g) \<union> Y" using x(2) \<open>Y \<subseteq> _\<close> assms(2) by auto
      then show ?thesis using closedgD [OF m(4) x(1)] x by auto
    qed
    then show ?thesis using m(1-3) unfolding minv_def ty closedg_def lists_ok_def weak_ok_def r w t by auto
  qed
  show "minv b {} (g\<lparr>gc_gray := gc_grayagain g, gc_grayagain := []\<rparr>)" if "Y \<subseteq> set (gc_grayagain g)"
  proof -
    have "\<not> iswhite g y" if x: "\<not> iswhite g x" "x \<notin> set (gc_grayagain g)" "y \<in> (if x \<in> set (gc_weak g) then kids g x else refs g x)" for x y
    proof -
      have "x \<notin> set (gc_gray g) \<union> Y" using x(2) \<open>Y \<subseteq> _\<close> assms(2) by auto
      then show ?thesis using closedgD [OF m(4) x(1)] x by auto
    qed
    moreover have "b \<Longrightarrow> weak_ok (g\<lparr>gc_gray := gc_grayagain g, gc_grayagain := []\<rparr>)"
    proof -
      have s: "same_heap g (g\<lparr>gc_gray := gc_grayagain g, gc_grayagain := []\<rparr>)" by (simp add: same_heap_def)
      show "b \<Longrightarrow> weak_ok (g\<lparr>gc_gray := gc_grayagain g, gc_grayagain := []\<rparr>)"
        using m(5) unfolding weak_ok_def same_heap_kind(1) [OF s] same_heap_mode(1) [OF s] by simp
    qed
    ultimately show ?thesis using m(1-3) unfolding minv_def ty closedg_def lists_ok_def r w t by auto
  qed
qed

section \<open>Userdata with finalizers\<close>

lemma separate1_ok:
  assumes "minv b Y g" "is_udata g u"
  shows "minv b Y (separate1 all u g)" "prog g (separate1 all u g)" "iswhite (separate1 all u g) = iswhite g"
    "set (gc_mmudata (separate1 all u g)) \<subseteq> insert u (set (gc_mmudata g))"
    "gc_gray (separate1 all u g) = gc_gray g" "gc_currentwhite (separate1 all u g) = gc_currentwhite g"
proof -
  let ?g1 = "fst (lj_meta_fastg (udata_mt g u) MM_gc g)"
  have f: "?g1 = g \<or> (\<exists>c. ?g1 = g\<lparr>h_nomm := c\<rparr>)"
    using fastg_state [of "udata_mt g u" MM_gc g] by (auto simp: cached_def)
  have h1: "hrel g ?g1" by (rule hrel_fastg)
  let ?g2 = "markfinalized u ?g1"
  have h2: "hrel ?g1 ?g2" by (rule hrel_fields) (simp_all add: markfinalized_def)
  have w2: "iswhite ?g2 = iswhite g" using f by (auto simp: fun_eq_iff iswhite_def markfinalized_def LJ_GC_WHITES_def LJ_GC_FINALIZED_def)
  have m2: "h_mark ?g2 x = h_mark g x" if "x \<noteq> u" for x using f that by (auto simp: markfinalized_def)
  have l2: "gc_gray ?g2 = gc_gray g" "gc_grayagain ?g2 = gc_grayagain g" "gc_weak ?g2 = gc_weak g" "gc_mmudata ?g2 = gc_mmudata g"
    "gc_currentwhite ?g2 = gc_currentwhite g"
    using f by (auto simp: markfinalized_def)
  have nt: "\<not> is_tab g u" using assms(2) by (auto simp: is_udata_def is_tab_def split: option.splits gcobj.splits)
  have g': "separate1 all u g = g \<or> separate1 all u g = ?g2 \<or>
      separate1 all u g = ?g2\<lparr>gc_root := remove1 u (gc_root ?g2), gc_mmudata := gc_mmudata ?g2 @ [u]\<rparr>"
    by (simp add: separate1_def Let_def case_prod_beta split: option.split)
  let ?g3 = "?g2\<lparr>gc_root := remove1 u (gc_root ?g2), gc_mmudata := gc_mmudata ?g2 @ [u]\<rparr>"
  have h3: "hrel ?g2 ?g3" by (rule hrel_fields) simp_all
  have w3: "iswhite ?g3 = iswhite ?g2" by (rule white_fields) simp
  note h12 = hrel_trans [OF h1 h2] and h13 = hrel_trans [OF hrel_trans [OF h1 h2] h3]
  have t: "x \<noteq> u" if "is_tab g x" for x using nt that by blast
  have M2: "minv b Y ?g2" by (rule minv_same [OF assms(1) h12 w2 l2(1-3)]) (use m2 t in simp)
  have M3: "minv b Y ?g3" by (rule minv_same [OF assms(1) h13 w3 [unfolded w2]]) (use m2 t l2 in simp_all)
  have "minv b Y g' \<and> prog g g' \<and> iswhite g' = iswhite g \<and> set (gc_mmudata g') \<subseteq> insert u (set (gc_mmudata g)) \<and>
      gc_gray g' = gc_gray g \<and> gc_currentwhite g' = gc_currentwhite g" if "g' = g \<or> g' = ?g2 \<or> g' = ?g3" for g'
    using that assms(1) M2 M3 h12 h13 w2 w3 l2 by (auto simp: prog_def)
  from this [OF g'] show "minv b Y (separate1 all u g)" "prog g (separate1 all u g)" "iswhite (separate1 all u g) = iswhite g"
    "set (gc_mmudata (separate1 all u g)) \<subseteq> insert u (set (gc_mmudata g))"
    "gc_gray (separate1 all u g) = gc_gray g" "gc_currentwhite (separate1 all u g) = gc_currentwhite g" by blast+
qed

lemma hrel_udata: "hrel g g' \<Longrightarrow> is_udata g' x = is_udata g x" "hrel g g' \<Longrightarrow> is_cdata g' x = is_cdata g x"
  using hrelD(1) [of g g' x] by (auto simp: is_udata_def is_cdata_def)

lemma separate_fold:
  "minv b Y g \<Longrightarrow> \<forall>u \<in> set us. is_udata g u \<Longrightarrow> g' = List.fold (separate1 all) us g \<Longrightarrow>
     minv b Y g' \<and> prog g g' \<and> set (gc_mmudata g') \<subseteq> set us \<union> set (gc_mmudata g) \<and> gc_gray g' = gc_gray g"
proof (induction us arbitrary: g)
  case Nil
  then show ?case by (simp add: prog_def)
next
  case (Cons u us)
  have u: "is_udata g u" using Cons.prems(2) by simp
  note s = separate1_ok [OF Cons.prems(1) u, of all]
  have "minv b Y g' \<and> prog (separate1 all u g) g' \<and> set (gc_mmudata g') \<subseteq> set us \<union> set (gc_mmudata (separate1 all u g)) \<and>
      gc_gray g' = gc_gray (separate1 all u g)"
    by (rule Cons.IH [OF s(1)]) (use Cons.prems hrel_udata(1) [OF progD(1) [OF s(2)]] in simp_all)
  then show ?case using prog_trans [OF s(2)] s(4,5) by auto
qed

lemma remark_ok:
  assumes "minv b Y g" "is_udata g u \<or> is_cdata g u" "gc_currentwhite g AND 3 \<in> {1, 2}"
  shows "minv b Y (gc_mark u (makewhite u g))" "prog g (gc_mark u (makewhite u g))" "\<not> iswhite (gc_mark u (makewhite u g)) u"
    "gc_mmudata (gc_mark u (makewhite u g)) = gc_mmudata g"
proof -
  let ?g0 = "makewhite u g" and ?g' = "gc_mark u (makewhite u g)"
  note m = minvD [OF assms(1)]
  have s: "same_heap g ?g0" by (simp add: same_heap_def makewhite_def)
  have wh: "(h_mark g u AND - 8 OR gc_currentwhite g AND 3) AND 3 \<noteq> 0"
  proof -
    have "(a AND - 8 OR c AND 3) AND 3 = c AND 3" for a c :: byte
      by (rule byte_eqI) (auto simp: bit_and_iff bit_or_iff mbyte_bits simp del: bit_numeral_word_iff bit_neg_numeral_word_iff)
    then show ?thesis using assms(3) by auto
  qed
  then have w0: "iswhite ?g0 u" by (simp add: makewhite_def curwhite_def LJ_GC_COLORS_def LJ_GC_WHITES_def)
  have wy: "iswhite ?g0 y = iswhite g y" if "y \<noteq> u" for y using that by (simp add: makewhite_def)
  have l0: "gc_gray ?g0 = gc_gray g" "gc_grayagain ?g0 = gc_grayagain g" "gc_weak ?g0 = gc_weak g" "gc_mmudata ?g0 = gc_mmudata g"
    by (simp_all add: makewhite_def)
  have ob: "h_obj ?g0 u \<noteq> None" using assms(2) by (auto simp: makewhite_def is_udata_def is_cdata_def split: option.splits)
  have nt: "\<not> travobj g u" using assms(2) by (auto simp: is_udata_def is_cdata_def travobj_def split: option.splits gcobj.splits)
  have "marked_by ?g0 {u} ?g'" by (rule gc_mark_ok [OF _ w0 ob]) (use same_heap_typed [OF s] m(1) in simp)
  then have mk: "marks ?g0 ?g'" and nu: "\<not> iswhite ?g' u" by (simp_all add: marked_by_def)
  note d = marksxD [OF mk]
  have s0: "same_heap ?g0 ?g'" by (rule marksx_heap [OF mk])
  note s' = same_heap_trans [OF s s0]
  have h: "hrel g ?g'"
  proof (rule hrel_trans [OF _ only_marks_hrel [OF d(1)]])
    show "hrel g ?g0" by (rule hrel_fields) (simp_all add: makewhite_def)
  qed
  have mono: "\<not> iswhite ?g' y" if "\<not> iswhite g y" for y
    using that nu marksx_mono [OF mk, of y] wy [of y] by (cases "y = u") auto
  have l: "gc_grayagain ?g' = gc_grayagain g" "gc_weak ?g' = gc_weak g" "gc_mmudata ?g' = gc_mmudata g"
    using d(1) l0 by (auto simp: only_marks_def)
  obtain gr where gr: "gc_gray ?g' = gr @ gc_gray g" "\<forall>y \<in> set gr. iswhite ?g0 y \<and> \<not> iswhite ?g' y \<and> travobj ?g0 y"
    using d(2) l0(1) by auto
  have tr: "travobj ?g0 = travobj g" "travobj ?g' = travobj g" by (rule same_heap_trav [OF s], rule same_heap_trav [OF s'])
  have "closedg (set (gc_gray ?g') \<union> Y) ?g'"
  proof (rule closedg_adv [OF m(4) h mono, where x = u], assumption)
    show "set (gc_gray g) - {u} \<subseteq> set (gc_gray ?g')" using gr(1) by auto
    show "set (gc_weak g) - {u} = set (gc_weak ?g') - {u}" by (simp add: l)
    show "y \<in> set (gc_gray ?g') \<or> \<not> travobj g y \<and> (\<forall>z \<in> kids ?g' y. \<not> iswhite ?g' z)" if "iswhite g y" "\<not> iswhite ?g' y" for y
      using d(5) [of y] that wy [of y] w0 same_heap_refs(2) [OF s0] tr by (cases "y = u") auto
    have "u \<in> set (gc_gray ?g') \<or> \<not> travobj ?g0 u \<and> (\<forall>z \<in> kids ?g0 u. \<not> iswhite ?g' z)" using d(5) [OF w0 nu] by simp
    moreover have "u \<notin> set (gc_gray ?g')" using m(3) gr nt tr by (auto simp: lists_ok_def)
    moreover have "refs ?g' u = kids ?g' u" by (rule refs_kids) (use nt tr(2) travobj_tab in metis)
    ultimately show "\<forall>z \<in> (if u \<in> set (gc_weak ?g') then kids ?g' u else refs ?g' u). \<not> iswhite ?g' z"
      using same_heap_refs(2) [OF s0] by simp
  qed
  moreover have "lists_ok ?g'" using m(3) mono gr tr unfolding lists_ok_def l by auto
  moreover have "b \<Longrightarrow> weak_ok ?g'"
  proof -
    assume b: b
    have "h_mark ?g' x AND 24 = h_mark g x AND 24" if "is_tab g x" for x
    proof -
      have "x \<noteq> u" using that nt travobj_tab by blast
      then show ?thesis using d(4) [of x] by (simp add: makewhite_def)
    qed
    then show ?thesis using m(5) [OF b] unfolding weak_ok_def l same_heap_kind(1) [OF s'] same_heap_mode(1) [OF s'] by simp
  qed
  moreover have "dom (h_obj ?g') = dom (h_obj g)" using s' by (simp add: same_heap_def)
  ultimately show "minv b Y ?g'" using m(2) hrel_typed [OF h m(1)] by (simp add: minv_def)
  show "prog g ?g'" using h mono by (simp add: prog_def)
  show "\<not> iswhite ?g' u" "gc_mmudata ?g' = gc_mmudata g" by (rule nu, rule l(3))
qed

lemma remark_fold:
  "minv b Y g \<Longrightarrow> \<forall>u \<in> set us. is_udata g u \<or> is_cdata g u \<Longrightarrow> gc_currentwhite g AND 3 \<in> {1, 2} \<Longrightarrow>
     g' = List.fold (\<lambda>u g. gc_mark u (makewhite u g)) us g \<Longrightarrow>
     minv b Y g' \<and> prog g g' \<and> (\<forall>u \<in> set us. \<not> iswhite g' u) \<and> gc_mmudata g' = gc_mmudata g"
proof (induction us arbitrary: g)
  case Nil
  then show ?case by (simp add: prog_def)
next
  case (Cons u us)
  have u: "is_udata g u \<or> is_cdata g u" using Cons.prems(2) by simp
  let ?g1 = "gc_mark u (makewhite u g)"
  note r = remark_ok [OF Cons.prems(1) u Cons.prems(3)]
  note h = progD(1) [OF r(2)]
  have "minv b Y g' \<and> prog ?g1 g' \<and> (\<forall>u \<in> set us. \<not> iswhite g' u) \<and> gc_mmudata g' = gc_mmudata ?g1"
    by (rule Cons.IH [OF r(1)]) (use Cons.prems hrel_udata [OF h] hrelD(10) [OF h] in simp_all)
  then show ?case using prog_trans [OF r(2)] progD(2) [of ?g1 g' u] r(3,4) by auto
qed

section \<open>The whole phase\<close>

text \<open>What holds after the atomic phase: from marked objects only marked objects are referred to, and the roots are marked.\<close>

definition all_marked :: "addr \<Rightarrow> gcst \<Rightarrow> bool" where
  "all_marked L g \<longleftrightarrow> (\<forall>x. \<not> iswhite g x \<longrightarrow> (\<forall>y \<in> refs g x. \<not> iswhite g y)) \<and>
     (\<forall>x y. y \<in> refs g x \<longrightarrow> h_obj g y \<noteq> None) \<and>
     (\<forall>x \<in> gc_roots L g. \<not> iswhite g x \<and> h_obj g x \<noteq> None)"

lemma reach_marked: "gc_reach L g x \<Longrightarrow> all_marked L g \<Longrightarrow> \<not> iswhite g x \<and> h_obj g x \<noteq> None"
  by (induction rule: gc_reach.induct) (auto simp: all_marked_def)

lemma not_white_dead: "\<not> iswhite g x \<Longrightarrow> \<not> isdead g x"
proof -
  assume "\<not> iswhite g x"
  then have "h_mark g x AND 3 = 0" by (simp add: iswhite_def LJ_GC_WHITES_def)
  moreover have "h_mark g x AND otherwhite g AND 3 = (h_mark g x AND 3) AND otherwhite g"
    by (simp only: and.assoc and.commute and.left_commute)
  ultimately show ?thesis by (simp add: isdead_def LJ_GC_WHITES_def)
qed

lemma roots_hrel:
  assumes "hrel g g'"
  shows "h_obj g' x \<noteq> None \<longleftrightarrow> h_obj g x \<noteq> None" "cur_trace_ok g \<Longrightarrow> cur_trace_ok g'" "mode_name g' = mode_name g"
proof -
  note d = hrelD [OF assms] and k = hrel_kind [OF assms]
  show e: "h_obj g' x \<noteq> None \<longleftrightarrow> h_obj g x \<noteq> None" using k(9) by simp
  have t: "trace_refs g' = trace_refs g" by (intro ext) (simp only: trace_refs_def d(3))
  show "cur_trace_ok g \<Longrightarrow> cur_trace_ok g'"
    unfolding cur_trace_ok_def t d(3,7) k(3) using k(9) by simp
  show "mode_name g' = mode_name g" unfolding mode_name_def d(4) k(5) by (rule refl)
qed

text \<open>From the state in which everything is marked: weak tables are cleared and the white colours exchanged.\<close>

lemma atomic_end:
  assumes "minv True {} g" "gc_gray g = []" "mode_name g" "\<And>x. x \<in> gc_roots L g \<Longrightarrow> \<not> iswhite g x \<and> h_obj g x \<noteq> None"
    "g' = (let g = gc_clearweak (gc_weak g) g in g\<lparr>gc_currentwhite := otherwhite g, gc_sweep := None\<rparr>)"
  shows "all_marked L g'" "\<And>x. (h_obj g' x = None) = (h_obj g x = None)" "typed g'"
proof -
  note m = minvD [OF assms(1)]
  let ?g1 = "gc_clearweak (gc_weak g) g"
  have w: "weak_entry g x" if "x \<in> set (gc_weak g)" for x
  proof -
    have "\<not> iswhite g x" using m(3) that by (simp add: lists_ok_def)
    then have "\<forall>z \<in> kids g x. \<not> iswhite g z" using closedgD [OF m(4), of x] that assms(2) by simp
    then show ?thesis using m(5) that by (simp add: weak_entry_def weak_ok_def)
  qed
  have c: "crel g ?g1" "\<And>x z. x \<in> set (gc_weak g) \<Longrightarrow> z \<in> refs ?g1 x \<Longrightarrow> \<not> iswhite ?g1 z"
    using clearweak_ok [of "gc_weak g" g] w assms(3) by blast+
  have g': "g' = ?g1\<lparr>gc_currentwhite := otherwhite ?g1, gc_sweep := None\<rparr>" using assms(5) by (simp add: Let_def)
  have s: "same_heap ?g1 g'" by (simp add: g' same_heap_def)
  have wh: "iswhite g' = iswhite ?g1" by (rule white_fields) (simp add: g')
  have ex: "h_obj g' y \<noteq> None \<longleftrightarrow> h_obj g y \<noteq> None" for y using crel_kind(4) [OF c(1), of y] by (simp add: g')
  then show "(h_obj g' y = None) = (h_obj g y = None)" for y by blast
  have tr: "trace_refs g' = trace_refs g" by (intro ext) (simp add: trace_refs_def g' crel_fields(4) [OF c(1)])
  have rt: "gc_roots L g' = gc_roots L g" unfolding gc_roots_def tr using crel_fields [OF c(1)] by (simp add: g')
  show "all_marked L g'"
    unfolding all_marked_def
  proof (intro conjI allI impI ballI)
    fix x y assume x: "\<not> iswhite g' x" and y: "y \<in> refs g' x"
    have y1: "y \<in> refs ?g1 x" using y same_heap_refs(3) [OF s] by simp
    show "\<not> iswhite g' y"
    proof (cases "x \<in> set (gc_weak g)")
      case True
      then show ?thesis using c(2) y1 wh by simp
    next
      case False
      have yg: "y \<in> refs g x" using crel_refs(2) [OF c(1) assms(3), of x] y1 by blast
      show ?thesis
      proof (cases "iswhite g x")
        case True
        then have "is_str g x" using crelD(3) [OF c(1), of x] x wh by (cases "is_str g x") (auto simp: iswhite_def)
        then show ?thesis using yg by (auto simp: is_str_def refs_def refs_of_def split: option.splits gcobj.splits)
      next
        case False
        then show ?thesis using closedgD [OF m(4), of x y] yg \<open>x \<notin> set (gc_weak g)\<close> assms(2) crelD(2) [OF c(1)] wh by simp
      qed
    qed
  next
    fix x y assume y: "y \<in> refs g' x"
    have "y \<in> refs g x" using y same_heap_refs(3) [OF s] crel_refs(2) [OF c(1) assms(3), of x] by auto
    then show "h_obj g' y \<noteq> None" using typedD(3) [OF m(1)] ex by blast
  next
    fix x assume "x \<in> gc_roots L g'"
    then have "x \<in> gc_roots L g" using rt by simp
    then show "\<not> iswhite g' x" "h_obj g' x \<noteq> None" using assms(4) [of x] crelD(2) [OF c(1), of x] wh ex by simp_all
  qed
  show "typed g'"
    unfolding typed_def
  proof (intro allI conjI ballI)
    fix x y assume y: "y \<in> refs g' x"
    have "y \<in> refs g x" using y same_heap_refs(3) [OF s] crel_refs(2) [OF c(1) assms(3), of x] by auto
    then show "h_obj g' y \<noteq> None" using typedD(3) [OF m(1)] ex by blast
  next
    fix x
    have "obj_ok ?g1 x" by (rule crel_obj_ok [OF c(1)]) (use m(1) in \<open>simp add: typed_def\<close>)
    then show "obj_ok g' x" using same_heap_obj_ok [OF s] by simp
  qed
qed

text \<open>The phase in four parts.\<close>

lemma atomic_part1:
  assumes "mark_inv g"
  shows "\<exists>g2 g3. gc_propagate_gray (gc_mark_uv g) = Some g2 \<and> g3 = g2\<lparr>gc_gray := gc_weak g2, gc_weak := []\<rparr> \<and>
    minv True (set (gc_grayagain g)) g3 \<and> prog g g3 \<and> set (gc_grayagain g) \<subseteq> set (gc_grayagain g3) \<and>
    gc_root g3 = gc_root g \<and> gc_mmudata g3 = gc_mmudata g"
proof -
  let ?Y = "set (gc_grayagain g)"
  note 1 = mark_uv_inv [OF assms(1)]
  obtain g2 where 2: "gc_propagate_gray (gc_mark_uv g) = Some g2" "gc_gray g2 = []" "minv False (?Y \<union> set (gc_weak g)) g2" "adv (gc_mark_uv g) g2"
    using drain [OF 1(1)] by blast
  have a2: "adv g g2" by (rule adv_trans [OF 1(2) 2(4)])
  let ?g3 = "g2\<lparr>gc_gray := gc_weak g2, gc_weak := []\<rparr>"
  have m3: "minv True ?Y ?g3" by (rule minv_regray(1) [OF 2(3,2)]) (use advD(4) [OF a2] in blast)
  have "hrel g2 ?g3" by (rule hrel_fields) simp_all
  then have "prog g2 ?g3" by (simp add: prog_def iswhite_def)
  then have "prog g ?g3" by (rule prog_trans [OF adv_prog [OF a2]])
  then show ?thesis using 2(1) m3 advD(3,5,6) [OF a2] by auto
qed

lemma atomic_part2:
  assumes "minv True Y g" "h_obj g L \<noteq> None" "cur_trace_ok g" "\<And>x. x \<in> set (g_gcroot g) - {0} \<Longrightarrow> h_obj g x \<noteq> None"
    "g' = gc_mark_gcroot (let g = gc_markobj L g in gc_traverse_trace (g_curtrace g) g)"
  shows "minv True Y g'" "adv g g'" "x \<in> insert L (trace_refs g (g_curtrace g) \<union> (set (g_gcroot g) - {0})) \<Longrightarrow> \<not> iswhite g' x"
proof -
  let ?g4 = "gc_markobj L g"
  note m4 = marked_minv [OF assms(1) gc_markobj_ok [OF minvD(1) [OF assms(1)] assms(2)]]
  note h4 = advD(1) [OF m4(2)]
  let ?g5 = "gc_traverse_trace (g_curtrace ?g4) ?g4"
  have ct: "cur_trace_ok ?g4" by (rule roots_hrel(2) [OF h4 assms(3)])
  have k5: "marked_by ?g4 (trace_refs ?g4 (g_curtrace ?g4)) ?g5"
    by (rule traverse_trace_ok [OF minvD(1) [OF m4(1)]]) (use ct in \<open>simp_all add: cur_trace_ok_def\<close>)
  note m5 = marked_minv [OF m4(1) k5]
  have h5: "hrel g ?g5" by (rule hrel_trans [OF h4 advD(1) [OF m5(2)]])
  let ?g6 = "gc_mark_gcroot ?g5"
  have k6: "marked_by ?g5 (\<Union> ((\<lambda>x. if x \<noteq> 0 then {x} else {}) ` set (g_gcroot ?g5))) ?g6"
    unfolding gc_mark_gcroot_def
  proof (rule marked_fold, rule marked_if, rule gc_markobj_ok)
    fix x g' assume x: "x \<in> set (g_gcroot ?g5)" "same_heap ?g5 g'" "x \<noteq> 0"
    show "typed g'" by (rule heap_pre(1) [OF x(2) minvD(1) [OF m5(1)]])
    have "h_obj g x \<noteq> None" by (rule assms(4)) (use x(1,3) hrelD(4) [OF h5] in simp)
    then show "h_obj g' x \<noteq> None" using roots_hrel(1) [OF h5, of x] heap_pre(2) [OF x(2) minvD(1) [OF m5(1)]] by simp
  qed
  note m6 = marked_minv [OF m5(1) k6]
  have g': "g' = ?g6" using assms(5) by (simp only: Let_def)
  show "minv True Y g'" unfolding g' by (rule m6(1))
  show "adv g g'" unfolding g' by (rule adv_trans [OF adv_trans [OF m4(2) m5(2)] m6(2)])
  have t: "trace_refs ?g4 (g_curtrace ?g4) = trace_refs g (g_curtrace g)" using hrelD(3,7) [OF h4] by (simp only: trace_refs_def)
  have "\<not> iswhite ?g6 L" using m4(3) [of L] advD(2) [OF m5(2)] advD(2) [OF m6(2)] by blast
  moreover have "\<not> iswhite ?g6 x" if "x \<in> trace_refs g (g_curtrace g)" using that m5(3) [of x] advD(2) [OF m6(2)] t by blast
  moreover have "\<not> iswhite ?g6 x" if "x \<in> set (g_gcroot g) - {0}"
    by (rule m6(3)) (use that hrelD(4) [OF h5] in auto)
  ultimately show "x \<in> insert L (trace_refs g (g_curtrace g) \<union> (set (g_gcroot g) - {0})) \<Longrightarrow> \<not> iswhite g' x"
    unfolding g' by blast
qed

lemma atomic_part3:
  assumes "minv True Y g" "Y \<subseteq> set (gc_grayagain g)"
  shows "\<exists>g7 g9. gc_propagate_gray g = Some g7 \<and> gc_propagate_gray (g7\<lparr>gc_gray := gc_grayagain g7, gc_grayagain := []\<rparr>) = Some g9 \<and>
    minv True {} g9 \<and> gc_gray g9 = [] \<and> prog g g9 \<and> gc_root g9 = gc_root g \<and> gc_mmudata g9 = gc_mmudata g"
proof -
  obtain g7 where 7: "gc_propagate_gray g = Some g7" "gc_gray g7 = []" "minv True Y g7" "adv g g7"
    using drain [OF assms(1)] by blast
  let ?g8 = "g7\<lparr>gc_gray := gc_grayagain g7, gc_grayagain := []\<rparr>"
  have m8: "minv True {} ?g8" by (rule minv_regray(2) [OF 7(3,2)]) (use assms(2) advD(3) [OF 7(4)] in blast)
  obtain g9 where 9: "gc_propagate_gray ?g8 = Some g9" "gc_gray g9 = []" "minv True {} g9" "adv ?g8 g9" using drain [OF m8] by blast
  have "hrel g7 ?g8" by (rule hrel_fields) simp_all
  then have p8: "prog g7 ?g8" by (simp add: prog_def iswhite_def)
  have "prog g g9" by (rule prog_trans [OF prog_trans [OF adv_prog [OF 7(4)] p8] adv_prog [OF 9(4)]])
  then show ?thesis using 7(1) 9(1-3) advD(5,6) [OF 7(4)] advD(5,6) [OF 9(4)] by auto
qed

lemma atomic_part4:
  assumes "minv True {} g" "\<forall>u \<in> set (after (Some (g_mainth g)) (gc_root g)). is_udata g u"
    "\<forall>u \<in> set (gc_mmudata g). is_udata g u \<or> is_cdata g u" "gc_currentwhite g AND 3 \<in> {1, 2}"
  shows "\<exists>g'. gc_propagate_gray (gc_mark_mmudata (lj_gc_separateudata False g)) = Some g' \<and> minv True {} g' \<and> gc_gray g' = [] \<and>
    prog g g' \<and> (\<forall>u \<in> set (gc_mmudata g'). \<not> iswhite g' u \<and> h_obj g' u \<noteq> None)"
proof -
  let ?us = "after (Some (g_mainth g)) (gc_root g)"
  let ?g1 = "lj_gc_separateudata False g"
  have s1: "minv True {} ?g1" "prog g ?g1" "set (gc_mmudata ?g1) \<subseteq> set ?us \<union> set (gc_mmudata g)"
    using separate_fold [OF assms(1,2) lj_gc_separateudata_def] by simp_all
  let ?g2 = "gc_mark_mmudata ?g1"
  note h1 = progD(1) [OF s1(2)]
  have mm: "\<forall>u \<in> set (gc_mmudata ?g1). is_udata ?g1 u \<or> is_cdata ?g1 u"
    using s1(3) assms(2,3) hrel_udata [OF h1] by blast
  have cw: "gc_currentwhite ?g1 AND 3 \<in> {1, 2}" using assms(4) hrelD(10) [OF h1] by simp
  have s2: "minv True {} ?g2" "prog ?g1 ?g2" "\<forall>u \<in> set (gc_mmudata ?g1). \<not> iswhite ?g2 u" "gc_mmudata ?g2 = gc_mmudata ?g1"
    using remark_fold [OF s1(1) mm cw gc_mark_mmudata_def] by simp_all
  obtain g' where 3: "gc_propagate_gray ?g2 = Some g'" "gc_gray g' = []" "minv True {} g'" "adv ?g2 g'"
    using drain [OF s2(1)] by blast
  have p: "prog ?g1 g'" by (rule prog_trans [OF s2(2) adv_prog [OF 3(4)]])
  have "\<not> iswhite g' u \<and> h_obj g' u \<noteq> None" if u: "u \<in> set (gc_mmudata g')" for u
  proof -
    have u1: "u \<in> set (gc_mmudata ?g1)" using u advD(6) [OF 3(4)] s2(4) by simp
    have "h_obj ?g1 u \<noteq> None" using mm u1 by (auto simp: is_udata_def is_cdata_def split: option.splits)
    then show ?thesis using s2(3) u1 advD(2) [OF 3(4)] roots_hrel(1) [OF progD(1) [OF p], of u] by blast
  qed
  then show ?thesis using 3(1-3) prog_trans [OF s1(2) p] by blast
qed

lemma atomic_marks:
  assumes "mark_inv g" "is_thread g L"
  shows "\<exists>g'. atomic L g = Some g' \<and> all_marked L g' \<and> typed g' \<and> (\<forall>x. (h_obj g' x = None) = (h_obj g x = None))"
proof -
  have ro: "roots_ok g" using assms(1) by (simp add: mark_inv_def)
  let ?Y = "set (gc_grayagain g)"
  obtain g2 g3 where 1: "gc_propagate_gray (gc_mark_uv g) = Some g2" "g3 = g2\<lparr>gc_gray := gc_weak g2, gc_weak := []\<rparr>" "minv True ?Y g3"
    "prog g g3" "?Y \<subseteq> set (gc_grayagain g3)" "gc_root g3 = gc_root g" "gc_mmudata g3 = gc_mmudata g"
    using atomic_part1 [OF assms(1)] by blast
  note h3 = progD(1) [OF 1(4)]
  have L: "h_obj g L \<noteq> None" using assms(2) by (auto simp: is_thread_def split: option.splits)
  let ?g6 = "gc_mark_gcroot (let g = gc_markobj L g3 in gc_traverse_trace (g_curtrace g) g)"
  note 2 = atomic_part2 [OF 1(3) _ roots_hrel(2) [OF h3] _ refl, of L, unfolded hrelD(4) [OF h3]]
  have m6: "minv True ?Y ?g6" "adv g3 ?g6" "x \<in> insert L (trace_refs g3 (g_curtrace g3) \<union> (set (g_gcroot g) - {0})) \<Longrightarrow> \<not> iswhite ?g6 x" for x
    by (rule 2; use L ro roots_hrel(1) [OF h3] in \<open>simp add: roots_ok_def\<close>)+
  obtain g7 g9 where 3: "gc_propagate_gray ?g6 = Some g7" "gc_propagate_gray (g7\<lparr>gc_gray := gc_grayagain g7, gc_grayagain := []\<rparr>) = Some g9"
    "minv True {} g9" "gc_gray g9 = []" "prog ?g6 g9" "gc_root g9 = gc_root ?g6" "gc_mmudata g9 = gc_mmudata ?g6"
    using atomic_part3 [OF m6(1)] 1(5) advD(3) [OF m6(2)] by blast
  have p9: "prog g g9" by (rule prog_trans [OF prog_trans [OF 1(4) adv_prog [OF m6(2)]] 3(5)])
  note h9 = progD(1) [OF p9]
  have r9: "gc_root g9 = gc_root g" "gc_mmudata g9 = gc_mmudata g" using 3(6,7) advD(5,6) [OF m6(2)] 1(6,7) by simp_all
  obtain g12 where 4: "gc_propagate_gray (gc_mark_mmudata (lj_gc_separateudata False g9)) = Some g12" "minv True {} g12" "gc_gray g12 = []"
    "prog g9 g12" "\<forall>u \<in> set (gc_mmudata g12). \<not> iswhite g12 u \<and> h_obj g12 u \<noteq> None"
    using atomic_part4 [OF 3(3)] ro r9 hrelD(6,10) [OF h9] hrel_udata [OF h9] by (auto simp: roots_ok_def)
  have p12: "prog g g12" by (rule prog_trans [OF p9 4(4)])
  note h12 = progD(1) [OF p12]
  have p612: "prog ?g6 g12" by (rule prog_trans [OF 3(5) 4(4)])
  define g' where "g' = (let g = gc_clearweak (gc_weak g12) g12 in g\<lparr>gc_currentwhite := otherwhite g, gc_sweep := None\<rparr>)"
  have at: "atomic L g = Some g'"
    unfolding atomic_def g'_def by (simp only: 1(1) 1(2) [symmetric] 3(1) [unfolded Let_def] 3(2) 4(1) option.case Let_def)
  have roots: "\<not> iswhite g12 x \<and> h_obj g12 x \<noteq> None" if x: "x \<in> gc_roots L g12" for x
  proof -
    have tr: "trace_refs h (g_curtrace h) = trace_refs g (g_curtrace g)" if "hrel g h" for h
      using hrelD(3,7) [OF that] by (simp only: trace_refs_def)
    consider (a) "x \<in> insert (g_mainth g) (vrefs (g_registry g))"
      | (b) "x \<in> insert L (trace_refs g3 (g_curtrace g3) \<union> (set (g_gcroot g) - {0}))" | (c) "x \<in> set (gc_mmudata g12)"
      using x unfolding gc_roots_def tr [OF h12] tr [OF h3] hrelD(4-6) [OF h12] by blast
    then show ?thesis
    proof cases
      case a
      then have "\<not> iswhite g x" "h_obj g x \<noteq> None"
        using assms(1) ro by (auto simp: mark_inv_def roots_ok_def is_thread_def split: option.splits)
      then show ?thesis using progD(2) [OF p12] roots_hrel(1) [OF h12] by blast
    next
      case b
      have "h_obj g x \<noteq> None" using b ro L unfolding tr [OF h3] roots_ok_def cur_trace_ok_def by blast
      then show ?thesis using m6(3) [OF b] progD(2) [OF p612] roots_hrel(1) [OF h12, of x] by blast
    qed (use 4(5) in blast)
  qed
  have mn: "mode_name g12" using roots_hrel(3) [OF h12] ro by (simp add: roots_ok_def)
  note e = atomic_end [OF 4(2,3) mn roots g'_def]
  show ?thesis using at e(1-3) roots_hrel(1) [OF h12] by blast
qed

end
