(* ===== verification/LJ_GCMut.thy ===== *)
theory LJ_GCMut
  imports LJ_GCAtomic
begin

text \<open>
  The program that runs while a cycle marks: stores with their write barriers (\<^verbatim>\<open>lj_api.c\<close>, the upvalue store of
  \<^verbatim>\<open>vm_x86.dasc\<close>), new objects, upvalues that are created and closed.  What a store leaves in a table, a function or a
  stack is a parameter; that it refers to objects that exist is a premise of the step.  Every step keeps the colour invariant.
\<close>

section \<open>Stores\<close>

text \<open>The table as \<open>lj_tab_set\<close> and the store leave it; \<open>lj_tab_set\<close> also resets the negative metamethod cache.\<close>

definition lua_rawset :: "addr \<Rightarrow> gctable \<Rightarrow> gcst \<Rightarrow> gcst" where
  "lua_rawset x t g = lj_gc_anybarriert x (set_obj x (OTab t) (g\<lparr>h_nomm := (h_nomm g)(x := 0)\<rparr>))"

definition lua_rawseti :: "addr \<Rightarrow> gctable \<Rightarrow> gcv \<Rightarrow> gcst \<Rightarrow> gcst" where
  "lua_rawseti x t v g = lj_gc_barriert x v (set_obj x (OTab t) g)"

definition lua_setmetatable :: "addr \<Rightarrow> addr \<Rightarrow> gcst \<Rightarrow> gcst" where
  "lua_setmetatable x mt g =
     (case h_obj g x of
        Some (OTab t) \<Rightarrow>
          (let g = set_obj x (OTab (t\<lparr>gt_metatable := mt\<rparr>)) g in if mt \<noteq> 0 then lj_gc_barriert x (VRef mt) g else g)
      | Some (OUdata m env) \<Rightarrow>
          (let g = set_obj x (OUdata mt env) g in if mt \<noteq> 0 then lj_gc_barrier x (VRef mt) g else g)
      | _ \<Rightarrow> g)"

definition lua_setfenv :: "addr \<Rightarrow> addr \<Rightarrow> gcst \<Rightarrow> gcst" where
  "lua_setfenv x e g =
     (case h_obj g x of
        Some (OFuncL env pt uvs) \<Rightarrow> lj_gc_barrier x (VRef e) (set_obj x (OFuncL e pt uvs) g)
      | Some (OFuncC env uvs) \<Rightarrow> lj_gc_barrier x (VRef e) (set_obj x (OFuncC e uvs) g)
      | Some (OUdata mt env) \<Rightarrow> lj_gc_barrier x (VRef e) (set_obj x (OUdata mt e) g)
      | Some (OThread th) \<Rightarrow> lj_gc_barrier x (VRef e) (set_obj x (OThread (th\<lparr>th_env := e\<rparr>)) g)
      | _ \<Rightarrow> g)"

definition stack_store :: "addr \<Rightarrow> nat \<Rightarrow> gcv \<Rightarrow> gcst \<Rightarrow> gcst" where
  "stack_store th i v g =
     (case h_obj g th of Some (OThread t) \<Rightarrow> set_obj th (OThread (t\<lparr>th_stack := (th_stack t)[i := v]\<rparr>)) g | _ \<Rightarrow> g)"

definition uv_store :: "addr \<Rightarrow> gcv \<Rightarrow> gcst \<Rightarrow> gcst" where
  "uv_store uv v g =
     (case h_obj g uv of
        Some (OUpval closed tv th i) \<Rightarrow> if closed then set_obj uv (OUpval True v th i) g else stack_store th i v g
      | _ \<Rightarrow> g)"

text \<open>The instruction \<open>USETV\<close>.\<close>

definition vm_usetv :: "addr \<Rightarrow> gcv \<Rightarrow> gcst \<Rightarrow> gcst" where
  "vm_usetv uv v g =
     (let c = uv_isclosed g uv; g = uv_store uv v g in
      if c \<and> isblack g uv then (case v of VRef x \<Rightarrow> if iswhite g x then lj_gc_barrieruv uv x g else g | _ \<Rightarrow> g) else g)"

text \<open>\<open>lua_setupvalue\<close> has the barrier on the function, not on the upvalue.\<close>

definition lua_setupvalue :: "addr \<Rightarrow> nat \<Rightarrow> gcv \<Rightarrow> gcst \<Rightarrow> gcst" where
  "lua_setupvalue f n v g =
     (case h_obj g f of
        Some (OFuncL env pt uvs) \<Rightarrow> if n < length uvs then lj_gc_barrier f v (uv_store (uvs ! n) v g) else g
      | Some (OFuncC env uvs) \<Rightarrow> if n < length uvs then lj_gc_barrier f v (set_obj f (OFuncC env (uvs[n := v])) g) else g
      | _ \<Rightarrow> g)"

section \<open>The invariant\<close>

fun okind :: "gcobj \<Rightarrow> nat" where
  "okind (OStr s) = 0"
| "okind (OUpval closed tv th i) = (if closed then 1 else 2)"
| "okind (OThread th) = 3"
| "okind (OProto pt) = 4"
| "okind (OFuncL env pt uvs) = 5"
| "okind (OFuncC env uvs) = 6"
| "okind (OTrace T) = 7"
| "okind OCdata = 8"
| "okind (OTab t) = 9"
| "okind (OUdata mt env) = 10"

definition kind_at :: "gcst \<Rightarrow> addr \<Rightarrow> nat option" where "kind_at g x = map_option okind (h_obj g x)"

lemma okind_cdata [simp]: "okind ob = 8 \<longleftrightarrow> ob = OCdata" by (cases ob) simp_all

lemma kinds:
  "is_tab g x \<longleftrightarrow> kind_at g x = Some 9" "is_str g x \<longleftrightarrow> kind_at g x = Some 0" "is_thread g x \<longleftrightarrow> kind_at g x = Some 3"
  "is_udata g x \<longleftrightarrow> kind_at g x = Some 10" "is_cdata g x \<longleftrightarrow> kind_at g x = Some 8" "is_trace g x \<longleftrightarrow> kind_at g x = Some 7"
  "is_openuv g x \<longleftrightarrow> kind_at g x = Some 2" "h_obj g x = None \<longleftrightarrow> kind_at g x = None"
  "blackkind g x \<longleftrightarrow> kind_at g x = Some 1 \<or> kind_at g x = Some 10"
  "travobj g x \<longleftrightarrow> kind_at g x \<in> {Some 3, Some 4, Some 5, Some 6, Some 7, Some 9}"
  by (auto simp: kind_at_def is_tab_def is_str_def is_thread_def is_udata_def is_cdata_def is_trace_def is_openuv_def blackkind_def travobj_def
      split: option.splits gcobj.splits if_splits)

text \<open>
  Colours: white objects are not black; threads and open upvalues are never black; marked userdata and closed upvalues are black;
  what else is marked and not black waits in a list.  No object has the other white.
\<close>

definition colours :: "gcst \<Rightarrow> bool" where
  "colours g \<longleftrightarrow>
     (\<forall>x. h_obj g x \<noteq> None \<longrightarrow>
        (iswhite g x \<longrightarrow> \<not> isblack g x) \<and> (is_thread g x \<or> is_openuv g x \<longrightarrow> \<not> isblack g x) \<and>
        (\<not> iswhite g x \<longrightarrow> blackkind g x \<longrightarrow> isblack g x) \<and>
        (\<not> iswhite g x \<longrightarrow> \<not> isblack g x \<longrightarrow> travobj g x \<longrightarrow> x \<in> set (gc_gray g) \<union> set (gc_grayagain g) \<union> set (gc_weak g)) \<and>
        \<not> isdead g x)"

text \<open>The invariant, except that the objects in \<open>E\<close> may refer to white objects.\<close>

definition trix :: "addr set \<Rightarrow> gcst \<Rightarrow> bool" where
  "trix E g \<longleftrightarrow> roots_ok g \<and> minv False (pending g \<union> E) g \<and> colours g \<and> distinct (g_uvhead g)"

definition tri :: "addr set \<Rightarrow> gcst \<Rightarrow> bool" where
  "tri E g \<longleftrightarrow> trix E g \<and> \<not> iswhite g (g_mainth g) \<and>
     (\<forall>y \<in> vrefs (g_registry g). \<not> iswhite g y) \<and> (gc_state g = GCSpropagate \<or> gc_state g = GCSatomic)"

lemma triD:
  assumes "tri E g"
  shows "roots_ok g" "minv False (pending g \<union> E) g" "colours g" "\<not> iswhite g (g_mainth g)" "y \<in> vrefs (g_registry g) \<Longrightarrow> \<not> iswhite g y"
    "distinct (g_uvhead g)" "gc_state g = GCSpropagate \<or> gc_state g = GCSatomic"
  using assms by (simp_all add: tri_def trix_def)

lemma coloursD:
  assumes "colours g" "h_obj g x \<noteq> None"
  shows "iswhite g x \<Longrightarrow> \<not> isblack g x" "is_thread g x \<or> is_openuv g x \<Longrightarrow> \<not> isblack g x"
    "\<not> iswhite g x \<Longrightarrow> blackkind g x \<Longrightarrow> isblack g x"
    "\<not> iswhite g x \<Longrightarrow> \<not> isblack g x \<Longrightarrow> travobj g x \<Longrightarrow> x \<in> set (gc_gray g) \<union> set (gc_grayagain g) \<union> set (gc_weak g)"
    "\<not> isdead g x"
  using assms unfolding colours_def by blast+

lemma tri_mark_inv:
  assumes "tri {} g"
  shows "mark_inv g"
proof -
  have "\<not> isblack g x" if "is_openuv g x" for x
    by (rule coloursD(2) [OF triD(3) [OF assms]]) (use that in \<open>simp_all add: kinds\<close>)
  then show ?thesis using assms by (simp add: tri_def trix_def mark_inv_def)
qed

text \<open>The closure part, in terms of references only.\<close>

definition clos :: "addr set \<Rightarrow> gcst \<Rightarrow> bool" where
  "clos Y g \<longleftrightarrow> (\<forall>x. \<not> iswhite g x \<longrightarrow> x \<notin> Y \<longrightarrow> x \<notin> set (gc_gray g) \<union> pending g \<longrightarrow> (\<forall>y \<in> refs g x. \<not> iswhite g y))"

lemma minv_clos: "minv False (pending g \<union> E) g \<longleftrightarrow> typed g \<and> finite (dom (h_obj g)) \<and> lists_ok g \<and> clos E g"
proof -
  have "closedg (set (gc_gray g) \<union> (pending g \<union> E)) g = clos E g"
    unfolding closedg_def clos_def by (auto simp: pending_def)
  then show ?thesis by (auto simp: minv_def)
qed

lemma closD: "clos E g \<Longrightarrow> \<not> iswhite g x \<Longrightarrow> x \<notin> E \<Longrightarrow> x \<notin> set (gc_gray g) \<union> pending g \<Longrightarrow> y \<in> refs g x \<Longrightarrow> \<not> iswhite g y"
  unfolding clos_def by blast

lemma tri_shrink:
  assumes "tri (insert x E) g" "\<not> iswhite g x \<Longrightarrow> x \<notin> set (gc_gray g) \<union> pending g \<Longrightarrow> \<forall>y \<in> refs g x. \<not> iswhite g y"
  shows "tri E g"
proof -
  have c: "clos (insert x E) g" using triD(2) [OF assms(1)] by (simp only: minv_clos)
  have "clos E g" unfolding clos_def
  proof (intro allI impI ballI)
    fix z y assume z: "\<not> iswhite g z" "z \<notin> E" "z \<notin> set (gc_gray g) \<union> pending g" "y \<in> refs g z"
    show "\<not> iswhite g y" using assms(2) closD [OF c z(1)] z by (cases "z = x") auto
  qed
  then show ?thesis using triD(2) [OF assms(1)] assms(1) unfolding tri_def trix_def minv_clos by blast
qed

section \<open>A store into an object\<close>

text \<open>
  The contents of one object change, not its kind.  The new references exist, and the mode \<open>K\<close>, under which the keys of a table are not
  followed (the finalizer table of the FFI has it), neither comes nor goes.
\<close>

definition heap_ok :: "gcst \<Rightarrow> gcst \<Rightarrow> bool" where
  "heap_ok g g' \<longleftrightarrow> typed g' \<and> (\<forall>x. is_tab g x \<longrightarrow> (if tab_mode g' x < 0 then tab_mode g' x else 0) = (if tab_mode g x < 0 then tab_mode g x else 0))"

definition same_env :: "gcst \<Rightarrow> gcst \<Rightarrow> bool" where
  "same_env g g' \<longleftrightarrow> g_trace g' = g_trace g \<and> g_gcroot g' = g_gcroot g \<and> g_registry g' = g_registry g \<and> g_mainth g' = g_mainth g \<and>
     g_curtrace g' = g_curtrace g \<and> gc_state g' = gc_state g \<and> gc_currentwhite g' = gc_currentwhite g \<and> gc_mmudata g' = gc_mmudata g \<and>
     set (after (Some (g_mainth g)) (gc_root g')) = set (after (Some (g_mainth g)) (gc_root g))"

lemma same_envD:
  assumes "same_env g g'"
  shows "g_trace g' = g_trace g" "g_gcroot g' = g_gcroot g" "g_registry g' = g_registry g" "g_mainth g' = g_mainth g"
    "g_curtrace g' = g_curtrace g" "gc_state g' = gc_state g" "gc_currentwhite g' = gc_currentwhite g" "gc_mmudata g' = gc_mmudata g"
    "set (after (Some (g_mainth g)) (gc_root g')) = set (after (Some (g_mainth g)) (gc_root g))"
  using assms by (simp_all add: same_env_def)

text \<open>The roots when objects only keep their kinds or are new.\<close>

lemma roots_grow:
  assumes "roots_ok g" "same_env g g'" "\<And>x. h_obj g x \<noteq> None \<Longrightarrow> \<not> is_openuv g x \<Longrightarrow> kind_at g' x = kind_at g x"
    "\<And>x. is_openuv g' x \<longleftrightarrow> x \<in> set (g_uvhead g')" "\<And>x. h_obj g x \<noteq> None \<Longrightarrow> h_obj g' x \<noteq> None"
  shows "roots_ok g'"
proof -
  note e = same_envD [OF assms(2)]
  have k: "kind_at g' x = Some k" if "kind_at g x = Some k" "k \<noteq> 2" for x k using assms(3) [of x] that by (simp add: kinds)
  have ex: "kind_at g' x \<noteq> None" if "kind_at g x \<noteq> None" for x using assms(5) [of x] that by (simp add: kinds)
  have tr: "trace_refs g' = trace_refs g" by (intro ext) (simp only: trace_refs_def e(1))
  have "cur_trace_ok g'" using assms(1) k ex unfolding roots_ok_def cur_trace_ok_def tr e(1,5) by (simp add: kinds)
  then show ?thesis using assms(1,4) k ex unfolding roots_ok_def mode_name_def e by (auto simp: kinds)
qed

lemma refs_same:
  assumes "h_obj g' y = h_obj g y" "\<not> is_openuv g y" "g_trace g' = g_trace g"
    "is_tab g y \<Longrightarrow> (if tab_mode g' y < 0 then tab_mode g' y else 0) = (if tab_mode g y < 0 then tab_mode g y else 0)"
  shows "refs g' y = refs g y"
proof -
  have t: "trace_refs g' = trace_refs g" by (intro ext) (simp only: trace_refs_def assms(3))
  show ?thesis
  proof (cases "h_obj g y")
    case (Some ob)
    show ?thesis
    proof (cases ob)
      case (OUpval c v th i)
      then have c using assms(2) Some by (simp add: is_openuv_def)
      then have "uvval g' y = uvval g y" using Some OUpval assms(1) by (simp add: uvval_def)
      then show ?thesis using Some OUpval assms(1) by (simp add: refs_def refs_of_def)
    next
      case (OTab tb)
      then have "is_tab g y" using Some by (simp add: is_tab_def)
      from assms(4) [OF this] show ?thesis using Some OTab assms(1) by (simp only: refs_def refs_of_def option.case gcobj.case)
    qed (use Some assms(1,3) t in \<open>simp_all add: refs_def refs_of_def\<close>)
  qed (use assms(1) in \<open>simp add: refs_def refs_of_def\<close>)
qed

lemma store_tri:
  assumes "tri E g" "same_env g g'" "heap_ok g g'" "g_uvhead g' = g_uvhead g" "h_mark g' = h_mark g"
    "gc_gray g' = gc_gray g" "gc_grayagain g' = gc_grayagain g" "gc_weak g' = gc_weak g"
    "\<And>y. y \<noteq> x \<Longrightarrow> h_obj g' y = h_obj g y" "\<And>y. kind_at g' y = kind_at g y"
  shows "tri (insert x E) g'"
proof -
  note d = triD [OF assms(1)] and e = same_envD [OF assms(2)]
  have m: "typed g" "finite (dom (h_obj g))" "lists_ok g" "clos E g" using d(2) by (simp_all add: minv_clos)
  have w: "iswhite g' = iswhite g" "isblack g' = isblack g" using assms(5) by (simp_all add: iswhite_def isblack_def fun_eq_iff)
  have de: "isdead g' = isdead g" using assms(5) e(7) by (simp add: isdead_def otherwhite_def fun_eq_iff)
  have o: "is_openuv g' = is_openuv g" using assms(10) by (simp add: kinds fun_eq_iff)
  have t: "travobj g' = travobj g" "blackkind g' = blackkind g" "is_thread g' = is_thread g" using assms(10) by (simp_all add: kinds fun_eq_iff)
  have ex: "h_obj g' y = None \<longleftrightarrow> h_obj g y = None" for y using assms(10) by (simp add: kinds)
  have "roots_ok g'" by (rule roots_grow [OF d(1) assms(2)]) (use assms(10) d(1) in \<open>simp_all add: o ex roots_ok_def assms(4) kinds\<close>)
  moreover have "typed g'" using assms(3) by (simp add: heap_ok_def)
  moreover have "dom (h_obj g') = dom (h_obj g)" using ex by (auto simp: dom_def)
  moreover have "lists_ok g'" using m(3) by (simp add: lists_ok_def w t assms(6-8))
  moreover have pe: "pending g' = pending g" by (simp add: pending_def assms(7,8) o)
  moreover have "clos (insert x E) g'" unfolding clos_def w
  proof (intro allI impI ballI)
    fix y z assume y: "\<not> iswhite g y" "y \<notin> insert x E" "y \<notin> set (gc_gray g') \<union> pending g'" "z \<in> refs g' y"
    have "refs g' y = refs g y"
      by (rule refs_same) (use assms(3,9) y e(1) in \<open>simp_all add: heap_ok_def pending_def o\<close>)
    then show "\<not> iswhite g z" using closD [OF m(4) y(1)] y pe assms(6) by simp
  qed
  moreover have "colours g'" using d(3) unfolding colours_def w t o de ex assms(6-8) by simp
  ultimately show ?thesis using m(2) d unfolding tri_def trix_def minv_clos by (simp add: w e assms(4))
qed

text \<open>Marking.\<close>

lemma marks_trix:
  assumes "trix E g" "marks g g'"
  shows "trix E g'" "same_env g g'"
proof -
  have d: "roots_ok g" "minv False (pending g \<union> E) g" "colours g" "distinct (g_uvhead g)" using assms(1) by (simp_all add: trix_def)
  note k = marksxD [OF assms(2)]
  note mi = marks_minv [OF d(2) assms(2)]
  have h: "same_heap g g'" by (rule marksx_heap [OF assms(2)])
  have ob: "h_obj g' = h_obj g" using h by (simp add: same_heap_def)
  have kd: "kind_at g' x = kind_at g x" for x by (simp add: kind_at_def ob)
  have kk: "is_openuv g' = is_openuv g" "travobj g' = travobj g" "blackkind g' = blackkind g" "is_thread g' = is_thread g"
    using kd by (simp_all add: kinds fun_eq_iff)
  have l: "same_env g g'" "g_uvhead g' = g_uvhead g" "gc_grayagain g' = gc_grayagain g" "gc_weak g' = gc_weak g"
    using k(1) by (auto simp: only_marks_def same_env_def)
  note e = same_envD [OF l(1)]
  have pe: "pending g' = pending g" by (simp add: pending_def l kk)
  have "roots_ok g'" by (rule roots_grow [OF d(1) l(1)]) (use d(1) in \<open>simp_all add: kd kk l ob roots_ok_def kinds\<close>)
  moreover have "colours g'"
    unfolding colours_def
  proof (intro allI impI)
    fix x assume x: "h_obj g' x \<noteq> None"
    then have xg: "h_obj g x \<noteq> None" by (simp add: ob)
    note c = coloursD [OF d(3) xg]
    show "(iswhite g' x \<longrightarrow> \<not> isblack g' x) \<and> (is_thread g' x \<or> is_openuv g' x \<longrightarrow> \<not> isblack g' x) \<and>
        (\<not> iswhite g' x \<longrightarrow> blackkind g' x \<longrightarrow> isblack g' x) \<and>
        (\<not> iswhite g' x \<longrightarrow> \<not> isblack g' x \<longrightarrow> travobj g' x \<longrightarrow> x \<in> set (gc_gray g') \<union> set (gc_grayagain g') \<union> set (gc_weak g')) \<and>
        \<not> isdead g' x"
    proof (cases "iswhite g x \<and> \<not> iswhite g' x")
      case True
      have "isblack g' x = blackkind g x" using k(6) [of x] True c(1) by simp
      moreover have "\<not> (is_thread g x \<or> is_openuv g x) \<or> \<not> blackkind g x" by (auto simp: kinds)
      moreover have "blackkind g x \<Longrightarrow> \<not> travobj g x" by (auto simp: kinds)
      ultimately show ?thesis using True k(5) [of x] not_white_dead [of g' x] by (auto simp: kk)
    next
      case False
      then have hm: "h_mark g' x = h_mark g x" using k(3) [of x] by blast
      have w: "iswhite g' x = iswhite g x" "isblack g' x = isblack g x" "isdead g' x = isdead g x"
        by (simp_all add: iswhite_def isblack_def isdead_def otherwhite_def hm e(7))
      have "set (gc_gray g) \<subseteq> set (gc_gray g')" by (rule marks_gray [OF assms(2)])
      then show ?thesis using c unfolding w kk l(3,4) by blast
    qed
  qed
  ultimately show "trix E g'" using mi(1) d(4) unfolding trix_def by (simp add: pe e l)
  show "same_env g g'" by (rule l(1))
qed

lemma marks_tri:
  assumes "tri E g" "marks g g'"
  shows "tri E g'"
proof -
  have "trix E g" using assms(1) by (simp add: tri_def)
  note t = marks_trix [OF this assms(2)]
  show ?thesis using t(1) same_envD [OF t(2)] triD(4,5,7) [OF assms(1)] marksx_mono [OF assms(2)] by (simp add: tri_def)
qed


text \<open>The barrier for tables.\<close>

lemma barrierback_tri:
  assumes "tri E g" "is_tab g x" "isblack g x"
  shows "tri E (lj_gc_barrierback x g)"
proof -
  let ?g = "lj_gc_barrierback x g"
  note d = triD [OF assms(1)]
  have m: "typed g" "finite (dom (h_obj g))" "lists_ok g" "clos E g" using d(2) by (simp_all add: minv_clos)
  have ob: "h_obj ?g = h_obj g" by (simp add: lj_gc_barrierback_def Let_def black2gray_def)
  have hp: "same_heap g ?g" by (simp add: lj_gc_barrierback_def Let_def black2gray_def same_heap_def)
  have env: "same_env g ?g" by (simp add: lj_gc_barrierback_def Let_def black2gray_def same_env_def)
  have l: "gc_gray ?g = gc_gray g" "gc_grayagain ?g = x # gc_grayagain g" "gc_weak ?g = gc_weak g" "g_uvhead ?g = g_uvhead g"
    by (simp_all add: lj_gc_barrierback_def Let_def black2gray_def)
  have kd: "kind_at ?g y = kind_at g y" for y by (simp add: kind_at_def ob)
  have kk: "is_openuv ?g = is_openuv g" "travobj ?g = travobj g" "blackkind ?g = blackkind g" "is_thread ?g = is_thread g"
    using kd by (simp_all add: kinds fun_eq_iff)
  have hm: "h_mark ?g = h_mark (black2gray x g)" by (simp add: lj_gc_barrierback_def Let_def)
  have w: "iswhite ?g = iswhite g" using white_fields [OF hm] by (simp add: fun_eq_iff)
  have b: "isblack ?g y \<longleftrightarrow> y \<noteq> x \<and> isblack g y" for y using hm isblack_ops(3) [of x g y] by (simp add: isblack_def)
  have xe: "h_obj g x \<noteq> None" using assms(2) by (simp add: kinds)
  have xw: "\<not> iswhite g x" using coloursD(1) [OF d(3) xe] assms(3) by blast
  have "roots_ok ?g" by (rule roots_grow [OF d(1) env]) (use d(1) in \<open>simp_all add: kd kk l ob roots_ok_def kinds\<close>)
  moreover have "typed ?g" using same_heap_typed [OF hp] m(1) by simp
  moreover have "lists_ok ?g" using m(3) xw travobj_tab [OF assms(2)] by (simp add: lists_ok_def w kk l)
  moreover have "clos E ?g"
    using m(4) unfolding clos_def w same_heap_refs(3) [OF hp] l pending_def kk by auto
  moreover have "colours ?g" unfolding colours_def
  proof (intro allI impI)
    fix y assume "h_obj ?g y \<noteq> None"
    then have y: "h_obj g y \<noteq> None" by (simp add: ob)
    note c = coloursD [OF d(3) y]
    have "\<not> isdead ?g y"
    proof (cases "y = x")
      case True
      then show ?thesis using not_white_dead [of ?g x] xw w by simp
    next
      case False
      then have "h_mark ?g y = h_mark g y" by (simp add: hm black2gray_def)
      then show ?thesis using c(5) same_envD(7) [OF env] by (simp add: isdead_def otherwhite_def)
    qed
    moreover have "\<not> blackkind g x" using assms(2) by (simp add: kinds)
    ultimately show "(iswhite ?g y \<longrightarrow> \<not> isblack ?g y) \<and> (is_thread ?g y \<or> is_openuv ?g y \<longrightarrow> \<not> isblack ?g y) \<and>
        (\<not> iswhite ?g y \<longrightarrow> blackkind ?g y \<longrightarrow> isblack ?g y) \<and>
        (\<not> iswhite ?g y \<longrightarrow> \<not> isblack ?g y \<longrightarrow> travobj ?g y \<longrightarrow> y \<in> set (gc_gray ?g) \<union> set (gc_grayagain ?g) \<union> set (gc_weak ?g)) \<and>
        \<not> isdead ?g y"
      using c(1-4) unfolding w kk b l by auto
  qed
  ultimately show ?thesis using m(2) d(4-7) unfolding tri_def trix_def minv_clos by (simp add: w ob l same_envD [OF env])
qed

section \<open>Barriered stores\<close>

text \<open>What the stores do to the state before the barrier.\<close>

lemma store_obj_tri:
  assumes "tri E g" "h_obj g x = Some ob" "okind ob' = okind ob" "g1 = set_obj x ob' (g\<lparr>h_nomm := nm\<rparr>)" "heap_ok g g1"
  shows "tri (insert x E) g1" "isblack g1 = isblack g" "iswhite g1 = iswhite g" "refs g1 x = refs g1 x"
proof -
  show "tri (insert x E) g1"
    by (rule store_tri [OF assms(1) _ assms(5)])
      (use assms(2-4) in \<open>simp_all add: same_env_def set_obj_def kind_at_def\<close>)
  show "isblack g1 = isblack g" "iswhite g1 = iswhite g" by (simp_all add: assms(4) isblack_def iswhite_def set_obj_def fun_eq_iff)
qed simp

lemma tab_waits:
  assumes "tri (insert x E) g" "is_tab g x" "\<not> isblack g x"
  shows "tri E g"
proof (rule tri_shrink [OF assms(1)])
  assume "\<not> iswhite g x" "x \<notin> set (gc_gray g) \<union> pending g"
  then show "\<forall>y \<in> refs g x. \<not> iswhite g y"
    using coloursD(4) [OF triD(3) [OF assms(1)], of x] assms(2,3) travobj_tab [OF assms(2)] by (auto simp: pending_def kinds)
qed

lemma back_tri:
  assumes "tri (insert x E) g" "is_tab g x" "isblack g x"
  shows "tri E (lj_gc_barrierback x g)"
  by (rule tri_shrink [OF barrierback_tri [OF assms]]) (simp add: pending_def lj_gc_barrierback_def Let_def)

lemma anybarriert_tri:
  assumes "tri (insert x E) g" "is_tab g x"
  shows "tri E (lj_gc_anybarriert x g)"
  using back_tri [OF assms] tab_waits [OF assms] by (simp add: lj_gc_anybarriert_def)

lemma barriert_tri:
  assumes "tri (insert x E) g" "is_tab g x" "\<And>y. y \<in> refs g x \<Longrightarrow> y \<notin> vrefs v \<Longrightarrow> isblack g x \<Longrightarrow> x \<notin> set (gc_gray g) \<union> pending g \<Longrightarrow> \<not> iswhite g y"
  shows "tri E (lj_gc_barriert x v g)"
proof (cases "isblack g x")
  case True
  show ?thesis
  proof (cases "tviswhite g v")
    case False
    have "tri E g"
    proof (rule tri_shrink [OF assms(1)])
      assume n: "x \<notin> set (gc_gray g) \<union> pending g"
      show "\<forall>y \<in> refs g x. \<not> iswhite g y"
      proof
        fix y assume "y \<in> refs g x"
        then show "\<not> iswhite g y" using assms(3) [OF _ _ True n] False by (cases v) (auto simp: tviswhite_def)
      qed
    qed
    then show ?thesis using False by (simp add: lj_gc_barriert_def)
  qed (use back_tri [OF assms(1,2) True] True in \<open>simp add: lj_gc_barriert_def\<close>)
qed (use tab_waits [OF assms(1,2)] in \<open>simp add: lj_gc_barriert_def\<close>)

text \<open>The forward barrier marks the new value.\<close>

lemma mark_tri:
  assumes "tri E g" "iswhite g v" "h_obj g v \<noteq> None"
  shows "tri E (gc_mark v g)" "\<not> iswhite (gc_mark v g) v" "same_heap g (gc_mark v g)" "\<not> iswhite g y \<Longrightarrow> \<not> iswhite (gc_mark v g) y"
proof -
  have "typed g" by (rule minvD(1) [OF triD(2) [OF assms(1)]])
  then have m: "marks g (gc_mark v g)" "\<not> iswhite (gc_mark v g) v" using gc_mark_ok [OF _ assms(2,3)] by (simp_all add: marked_by_def)
  show "tri E (gc_mark v g)" by (rule marks_tri [OF assms(1) m(1)])
  show "\<not> iswhite (gc_mark v g) v" "same_heap g (gc_mark v g)" by (rule m(2), rule marksx_heap [OF m(1)])
  show "\<not> iswhite g y \<Longrightarrow> \<not> iswhite (gc_mark v g) y" by (rule marksx_mono [OF m(1)])
qed

lemma barrier_tri:
  assumes "tri (insert x E) g" "h_obj g x \<noteq> None" "\<And>y. y \<in> vrefs v \<Longrightarrow> h_obj g y \<noteq> None"
    "\<And>y. y \<in> refs g x \<Longrightarrow> y \<notin> vrefs v \<Longrightarrow> isblack g x \<Longrightarrow> x \<notin> set (gc_gray g) \<union> pending g \<Longrightarrow> \<not> iswhite g y"
    "travobj g x \<or> blackkind g x"
  shows "tri E (lj_gc_barrier x v g)"
proof (cases "\<exists>y. v = VRef y \<and> iswhite g y \<and> isblack g x")
  case True
  then obtain y where v: "v = VRef y" "iswhite g y" "isblack g x" by blast
  have e: "lj_gc_barrier x v g = gc_mark y g" using v triD(7) [OF assms(1)] by (auto simp: lj_gc_barrier_def lj_gc_barrierf_def)
  note m = mark_tri [OF assms(1) v(2) assms(3)]
  have ky: "y \<in> vrefs v" using v(1) by simp
  have o: "is_openuv (gc_mark y g) = is_openuv g" "gc_grayagain (gc_mark y g) = gc_grayagain g" "gc_weak (gc_mark y g) = gc_weak g"
    "set (gc_gray g) \<subseteq> set (gc_gray (gc_mark y g))"
  proof -
    have "typed g" by (rule minvD(1) [OF triD(2) [OF assms(1)]])
    then have m: "marks g (gc_mark y g)" using gc_mark_ok [OF _ v(2) assms(3) [OF ky]] by (simp add: marked_by_def)
    show "gc_grayagain (gc_mark y g) = gc_grayagain g" "gc_weak (gc_mark y g) = gc_weak g" "set (gc_gray g) \<subseteq> set (gc_gray (gc_mark y g))"
      using marksxD(1) [OF m] marks_gray [OF m] by (auto simp: only_marks_def)
    show "is_openuv (gc_mark y g) = is_openuv g" using marksx_heap [OF m] by (simp add: is_openuv_def same_heap_def fun_eq_iff)
  qed
  have "tri E (gc_mark y g)"
  proof (rule tri_shrink [OF m(1) [OF ky]])
    assume n: "x \<notin> set (gc_gray (gc_mark y g)) \<union> pending (gc_mark y g)"
    then have n': "x \<notin> set (gc_gray g) \<union> pending g" using o by (auto simp: pending_def)
    show "\<forall>z \<in> refs (gc_mark y g) x. \<not> iswhite (gc_mark y g) z"
    proof
      fix z assume "z \<in> refs (gc_mark y g) x"
      then have z: "z \<in> refs g x" using same_heap_refs(3) [OF m(3) [OF ky]] by simp
      show "\<not> iswhite (gc_mark y g) z"
        using assms(4) [OF z _ v(3) n'] m(2,4) [OF ky] v(1) by (cases "z = y") auto
    qed
  qed
  then show ?thesis using e by simp
next
  case False
  then have e: "lj_gc_barrier x v g = g" by (auto simp: lj_gc_barrier_def split: gcv.split)
  have "tri E g"
  proof (rule tri_shrink [OF assms(1)])
    assume n: "\<not> iswhite g x" "x \<notin> set (gc_gray g) \<union> pending g"
    show "\<forall>y \<in> refs g x. \<not> iswhite g y"
    proof (cases "isblack g x")
      case True
      show ?thesis
      proof
        fix y assume "y \<in> refs g x"
        then show "\<not> iswhite g y" using assms(4) [OF _ _ True n(2)] False True by (cases v) auto
      qed
    next
      case b: False
      then show ?thesis using coloursD(3,4) [OF triD(3) [OF assms(1)] assms(2) n(1)] assms(5) n(2) by (auto simp: pending_def)
    qed
  qed
  then show ?thesis using e by simp
qed

lemma tri_refs: "tri {} g \<Longrightarrow> \<not> iswhite g x \<Longrightarrow> x \<notin> set (gc_gray g) \<union> pending g \<Longrightarrow> y \<in> refs g x \<Longrightarrow> \<not> iswhite g y"
  using closD [of "{}" g x y] minv_clos [of g "{}"] triD(2) [of "{}" g] by simp

lemma tri_ok:
  assumes "tri E g" "h_obj g x \<noteq> None" "isblack g x"
  shows "\<not> iswhite g x"
  using coloursD(1) [OF triD(3) [OF assms(1)] assms(2)] assms(3) by blast

lemma rawset_tri:
  assumes "tri {} g" "h_obj g x = Some (OTab t)" "heap_ok g (set_obj x (OTab t') (g\<lparr>h_nomm := (h_nomm g)(x := 0)\<rparr>))"
  shows "tri {} (lua_rawset x t' g)"
proof -
  have "okind (OTab t') = okind (OTab t)" by simp
  from store_obj_tri(1) [OF assms(1,2) this refl assms(3)]
  show ?thesis unfolding lua_rawset_def by (rule anybarriert_tri) (simp add: is_tab_def set_obj_def)
qed

text \<open>Stores that add one reference; the rest of the references were there before.\<close>

lemma store_pre:
  assumes "tri {} g" "h_obj g x = Some ob" "okind ob' = okind ob" "heap_ok g (set_obj x ob' g)"
    "refs (set_obj x ob' g) x \<subseteq> refs g x \<union> vrefs v"
  shows "tri {x} (set_obj x ob' g)"
    "y \<in> refs (set_obj x ob' g) x \<Longrightarrow> y \<notin> vrefs v \<Longrightarrow> isblack (set_obj x ob' g) x \<Longrightarrow>
      x \<notin> set (gc_gray (set_obj x ob' g)) \<union> pending (set_obj x ob' g) \<Longrightarrow> \<not> iswhite (set_obj x ob' g) y"
    "h_obj (set_obj x ob' g) x \<noteq> None" "kind_at (set_obj x ob' g) x = kind_at g x"
proof -
  let ?g = "set_obj x ob' g"
  have e: "?g = set_obj x ob' (g\<lparr>h_nomm := h_nomm g\<rparr>)" by simp
  note s = store_obj_tri [OF assms(1-3) e assms(4)]
  show "tri {x} ?g" by (rule s(1))
  show "h_obj ?g x \<noteq> None" "kind_at ?g x = kind_at g x" using assms(2,3) by (simp_all add: set_obj_def kind_at_def)
  have k: "kind_at ?g y = kind_at g y" for y using assms(2,3) by (simp add: set_obj_def kind_at_def)
  have p: "set (gc_gray ?g) \<union> pending ?g = set (gc_gray g) \<union> pending g" by (simp add: pending_def kinds k) (simp add: set_obj_def)
  assume y: "y \<in> refs ?g x" "y \<notin> vrefs v" "isblack ?g x" "x \<notin> set (gc_gray ?g) \<union> pending ?g"
  have b: "\<not> iswhite g x" by (rule tri_ok [OF assms(1)]) (use assms(2) y(3) s(2) in simp_all)
  show "\<not> iswhite ?g y" using tri_refs [OF assms(1) b, of y] y(1,2,4) assms(5) p s(3) by auto
qed

lemma rawseti_tri:
  assumes "tri {} g" "h_obj g x = Some (OTab t)" "heap_ok g (set_obj x (OTab t') g)" "refs (set_obj x (OTab t') g) x \<subseteq> refs g x \<union> vrefs v"
  shows "tri {} (lua_rawseti x t' v g)"
proof -
  have k: "okind (OTab t') = okind (OTab t)" by simp
  note s = store_pre [OF assms(1,2) k assms(3,4)]
  show ?thesis unfolding lua_rawseti_def
    by (rule barriert_tri [OF s(1) _ s(2)]) (simp_all add: is_tab_def set_obj_def)
qed

lemma set_refs:
  assumes "h_obj g x = Some ob" "ob' = OTab t'" "ob = OTab t" "heap_ok g (set_obj x ob' g)" "gt_array t' = gt_array t" "gt_node t' = gt_node t" "gt_metatable t' = mt"
  shows "refs (set_obj x ob' g) x \<subseteq> refs g x \<union> (if mt \<noteq> 0 then {mt} else {})"
proof -
  let ?g = "set_obj x ob' g"
  have ho: "h_obj ?g x = Some (OTab t')" "h_obj g x = Some (OTab t)" using assms(1-3) by (simp_all add: set_obj_def)
  have w: "(if tab_mode ?g x < 0 then tab_mode ?g x else 0) = (if tab_mode g x < 0 then tab_mode g x else 0)"
    using assms(4) ho(2) by (simp add: heap_ok_def is_tab_def)
  have r: "refs ?g x = (if mt \<noteq> 0 then {mt} else {}) \<union> tab_refs (if tab_mode g x < 0 then tab_mode g x else 0) t'"
    by (simp only: refs_def refs_of_def ho(1) w assms(7) option.case gcobj.case)
  have r0: "refs g x = (if gt_metatable t \<noteq> 0 then {gt_metatable t} else {}) \<union> tab_refs (if tab_mode g x < 0 then tab_mode g x else 0) t"
    by (simp only: refs_def refs_of_def ho(2) option.case gcobj.case)
  have "tab_refs w t' = tab_refs w t" for w by (simp only: tab_refs_def assms(5,6))
  then show ?thesis unfolding r r0 by (simp only:) blast
qed

lemma setmetatable_tri:
  assumes "tri {} g" "heap_ok g (case h_obj g x of Some (OTab t) \<Rightarrow> set_obj x (OTab (t\<lparr>gt_metatable := mt\<rparr>)) g
      | Some (OUdata m env) \<Rightarrow> set_obj x (OUdata mt env) g | _ \<Rightarrow> g)"
  shows "tri {} (lua_setmetatable x mt g)"
proof -
  consider (tab) t where "h_obj g x = Some (OTab t)" | (ud) m env where "h_obj g x = Some (OUdata m env)"
    | (none) "lua_setmetatable x mt g = g"
    by (cases "h_obj g x"; cases "the (h_obj g x)"; simp add: lua_setmetatable_def)
  then show ?thesis
  proof cases
    case tab
    let ?ob = "OTab (t\<lparr>gt_metatable := mt\<rparr>)"
    let ?g = "set_obj x ?ob g"
    have h: "heap_ok g ?g" using assms(2) tab by simp
    have k: "okind ?ob = okind (OTab t)" by simp
    have r: "refs ?g x \<subseteq> refs g x \<union> (if mt \<noteq> 0 then {mt} else {})" by (rule set_refs [OF tab refl refl h]) simp_all
    have it: "is_tab ?g x" by (simp add: is_tab_def set_obj_def)
    show ?thesis
    proof (cases "mt = 0")
      case True
      then have "refs ?g x \<subseteq> refs g x \<union> vrefs VNil" using r by simp
      note s = store_pre [OF assms(1) tab k h this]
      have "tri {} (lj_gc_barriert x VNil ?g)" by (rule barriert_tri [OF s(1) it s(2)])
      then show ?thesis using tab True by (simp add: lua_setmetatable_def lj_gc_barriert_def tviswhite_def)
    next
      case False
      then have "refs ?g x \<subseteq> refs g x \<union> vrefs (VRef mt)" using r by simp
      note s = store_pre [OF assms(1) tab k h this]
      have "tri {} (lj_gc_barriert x (VRef mt) ?g)" by (rule barriert_tri [OF s(1) it s(2)])
      then show ?thesis using tab False by (simp add: lua_setmetatable_def Let_def)
    qed
  next
    case ud
    let ?ob = "OUdata mt env"
    let ?g = "set_obj x ?ob g"
    have h: "heap_ok g ?g" using assms(2) ud by simp
    have k: "okind ?ob = okind (OUdata m env)" by simp
    have ho: "h_obj ?g x = Some ?ob" by (simp add: set_obj_def)
    have r: "refs ?g x \<subseteq> refs g x \<union> (if mt \<noteq> 0 then {mt} else {})"
      unfolding refs_def refs_of_def by (simp only: ho ud option.case gcobj.case) auto
    have bk: "blackkind ?g x" by (simp add: blackkind_def ho)
    have ex: "h_obj ?g mt \<noteq> None" if "mt \<noteq> 0"
    proof -
      have "mt \<in> refs ?g x" using that by (simp add: refs_def refs_of_def ho)
      then show ?thesis using h typedD(3) by (auto simp: heap_ok_def)
    qed
    show ?thesis
    proof (cases "mt = 0")
      case True
      then have "refs ?g x \<subseteq> refs g x \<union> vrefs VNil" using r by simp
      note s = store_pre [OF assms(1) ud k h this]
      have "tri {} (lj_gc_barrier x VNil ?g)" by (rule barrier_tri [OF s(1) s(3) _ s(2) disjI2 [OF bk]]) simp
      then show ?thesis using ud True by (simp add: lua_setmetatable_def lj_gc_barrier_def)
    next
      case False
      then have "refs ?g x \<subseteq> refs g x \<union> vrefs (VRef mt)" using r by simp
      note s = store_pre [OF assms(1) ud k h this]
      have "tri {} (lj_gc_barrier x (VRef mt) ?g)" by (rule barrier_tri [OF s(1) s(3) _ s(2) disjI2 [OF bk]]) (use ex False in simp)
      then show ?thesis using ud False by (simp add: lua_setmetatable_def Let_def)
    qed
  qed (use assms(1) in simp)
qed

text \<open>The environment.\<close>

definition fenv_obj :: "addr \<Rightarrow> gcobj \<Rightarrow> gcobj" where
  "fenv_obj e ob = (case ob of OFuncL env pt uvs \<Rightarrow> OFuncL e pt uvs | OFuncC env uvs \<Rightarrow> OFuncC e uvs | OUdata mt env \<Rightarrow> OUdata mt e
     | OThread th \<Rightarrow> OThread (th\<lparr>th_env := e\<rparr>) | _ \<Rightarrow> ob)"

definition has_fenv :: "gcobj \<Rightarrow> bool" where "has_fenv ob \<longleftrightarrow> okind ob \<in> {3, 5, 6, 10}"

lemma setfenv_eq:
  "h_obj g x = Some ob \<Longrightarrow> lua_setfenv x e g = (if has_fenv ob then lj_gc_barrier x (VRef e) (set_obj x (fenv_obj e ob) g) else g)"
  by (cases ob) (simp_all add: lua_setfenv_def has_fenv_def fenv_obj_def)

lemma refs_obj: "h_obj g x = Some ob \<Longrightarrow> okind ob \<in> {3, 5, 6, 10} \<Longrightarrow>
  refs g x = (case ob of OThread th \<Rightarrow> \<Union> (vrefs ` set (drop 1 (take (th_top th) (th_stack th)))) \<union> {th_env th} \<union> set (th_frames th)
     | OFuncL env pt uvs \<Rightarrow> {env, pt} \<union> set uvs | OFuncC env uvs \<Rightarrow> {env} \<union> \<Union> (vrefs ` set uvs)
     | OUdata mt env \<Rightarrow> (if mt \<noteq> 0 then {mt} else {}) \<union> {env} | _ \<Rightarrow> {})"
  by (cases ob) (simp_all add: refs_def refs_of_def split: if_splits)

lemma refs_fenv:
  assumes "h_obj g x = Some ob" "has_fenv ob"
  shows "refs (set_obj x (fenv_obj e ob) g) x \<subseteq> refs g x \<union> vrefs (VRef e)" "e \<in> refs (set_obj x (fenv_obj e ob) g) x"
proof -
  have k: "okind ob \<in> {3, 5, 6, 10}" using assms(2) by (simp add: has_fenv_def)
  then have k': "okind (fenv_obj e ob) \<in> {3, 5, 6, 10}" by (cases ob) (simp_all add: fenv_obj_def split: if_splits)
  have ho: "h_obj (set_obj x (fenv_obj e ob) g) x = Some (fenv_obj e ob)" by (simp add: set_obj_def)
  note r = refs_obj [OF assms(1) k] refs_obj [OF ho k']
  show "refs (set_obj x (fenv_obj e ob) g) x \<subseteq> refs g x \<union> vrefs (VRef e)" unfolding r
    using k by (cases ob) (auto simp: fenv_obj_def split: if_splits)
  show "e \<in> refs (set_obj x (fenv_obj e ob) g) x" unfolding r
    using k by (cases ob) (auto simp: fenv_obj_def split: if_splits)
qed

lemma setfenv_tri:
  assumes "tri {} g" "h_obj g x = Some ob" "has_fenv ob" "heap_ok g (set_obj x (fenv_obj e ob) g)"
  shows "tri {} (lua_setfenv x e g)"
proof -
  let ?ob = "fenv_obj e ob"
  let ?g = "set_obj x ?ob g"
  have k: "okind ?ob = okind ob" using assms(3) by (cases ob) (simp_all add: fenv_obj_def has_fenv_def)
  have ho: "h_obj ?g x = Some ?ob" by (simp add: set_obj_def)
  note r = refs_fenv [OF assms(2,3), of e]
  note s = store_pre [OF assms(1,2) k assms(4) r(1)]
  have ty: "typed ?g" using assms(4) by (simp add: heap_ok_def)
  have ex: "h_obj ?g y \<noteq> None" if "y \<in> vrefs (VRef e)" for y using typedD(3) [OF ty r(2)] that by simp
  have ki: "kind_at ?g x = Some (okind ob)" by (simp add: kind_at_def ho k)
  have "okind ob \<in> {3, 5, 6, 10}" using assms(3) by (simp add: has_fenv_def)
  then have tb: "travobj ?g x \<or> blackkind ?g x" unfolding kinds(9,10) ki by auto
  have "tri {} (lj_gc_barrier x (VRef e) ?g)" by (rule barrier_tri [OF s(1) s(3) ex s(2) tb])
  then show ?thesis using setfenv_eq [OF assms(2)] assms(3) by simp
qed

text \<open>The stack, and upvalues.\<close>

lemma stack_tri:
  assumes "tri E g" "h_obj g th = Some (OThread t)" "heap_ok g (set_obj th (OThread t') g)"
  shows "tri E (set_obj th (OThread t') g)"
proof -
  let ?g = "set_obj th (OThread t') g"
  have e: "?g = set_obj th (OThread t') (g\<lparr>h_nomm := h_nomm g\<rparr>)" by simp
  have k: "okind (OThread t') = okind (OThread t)" by simp
  have s: "tri (insert th E) ?g" by (rule store_obj_tri(1) [OF assms(1,2) k e assms(3)])
  have ex: "h_obj ?g th \<noteq> None" "kind_at ?g th = Some 3" by (simp_all add: set_obj_def kind_at_def)
  have "\<not> isblack ?g th" by (rule coloursD(2) [OF triD(3) [OF s] ex(1)]) (simp add: kinds ex)
  then show ?thesis
    by (intro tri_shrink [OF s]) (use coloursD(4) [OF triD(3) [OF s] ex(1)] ex(2) in \<open>auto simp: pending_def kinds\<close>)
qed

lemma usetv_tri:
  assumes "tri {} g" "h_obj g uv = Some (OUpval c tv th i)" "heap_ok g (uv_store uv v g)"
  shows "tri {} (vm_usetv uv v g)"
proof (cases c)
  case True
  let ?ob = "OUpval True v th i"
  let ?g = "set_obj uv ?ob g"
  have us: "uv_store uv v g = ?g" using assms(2) True by (simp add: uv_store_def)
  have h: "heap_ok g ?g" using assms(3) us by simp
  have ho: "h_obj ?g uv = Some ?ob" by (simp add: set_obj_def)
  have k: "okind ?ob = okind (OUpval c tv th i)" using True by simp
  have r: "refs ?g uv = vrefs v" by (simp add: refs_def refs_of_def ho uvval_def)
  then have "refs ?g uv \<subseteq> refs g uv \<union> vrefs v" by simp
  note s = store_pre [OF assms(1,2) k h this]
  have ex: "h_obj ?g y \<noteq> None" if "y \<in> vrefs v" for y using that r h typedD(3) [of ?g y uv] by (simp add: heap_ok_def)
  have bk: "blackkind ?g uv" by (simp add: blackkind_def ho)
  have st: "gc_state ?g = gc_state g" "isblack ?g uv = isblack g uv" by (simp_all add: set_obj_def isblack_def)
  have "vm_usetv uv v g = lj_gc_barrier uv v ?g"
    using assms(2) True triD(7) [OF assms(1)] st
    by (auto simp: vm_usetv_def us lj_gc_barrier_def lj_gc_barrierf_def lj_gc_barrieruv_def uv_isclosed_def Let_def split: gcv.split)
  then show ?thesis using barrier_tri [OF s(1) s(3) ex s(2) disjI2 [OF bk]] by simp
next
  case False
  then have e: "vm_usetv uv v g = stack_store th i v g" and us: "uv_store uv v g = stack_store th i v g"
    using assms(2) by (simp_all add: vm_usetv_def uv_isclosed_def uv_store_def Let_def)
  show ?thesis
  proof (cases "\<exists>t. h_obj g th = Some (OThread t)")
    case True
    then obtain t where t: "h_obj g th = Some (OThread t)" by blast
    then show ?thesis using stack_tri [OF assms(1) t, of "t\<lparr>th_stack := (th_stack t)[i := v]\<rparr>"] assms(3) us e by (simp add: stack_store_def)
  next
    case False
    then have "stack_store th i v g = g" by (auto simp: stack_store_def split: option.splits gcobj.splits)
    then show ?thesis using e assms(1) by simp
  qed
qed

end
