(* ===== verification/LJ_GCInv.thy ===== *)
theory LJ_GCInv
  imports LJ_GCMut
begin

text \<open>
  New objects, upvalues and the steps of the collector keep the colour invariant; the start of a cycle establishes it.
  A cycle is then any interleaving of these steps.
\<close>

section \<open>New objects\<close>

lemma curwhite_colour:
  assumes "gc_currentwhite g AND 3 \<in> {1, 2}"
  shows "curwhite g AND 3 \<noteq> 0" "curwhite g AND 4 = 0" "curwhite g AND otherwhite g AND 3 = 0"
proof -
  let ?c = "gc_currentwhite g"
  have "(?c AND 3) AND 3 = ?c AND 3" "(?c AND 3) AND 4 = 0" "(?c AND 3) AND (?c XOR 3) AND 3 = (?c AND 3) AND ((?c AND 3) XOR 3)"
    by (rule byte_eqI, auto simp: bit_and_iff bit_xor_iff mbyte_bits simp del: bit_numeral_word_iff bit_neg_numeral_word_iff)+
  then show "curwhite g AND 3 \<noteq> 0" "curwhite g AND 4 = 0" "curwhite g AND otherwhite g AND 3 = 0"
    using assms by (auto simp: curwhite_def otherwhite_def LJ_GC_WHITES_def)
qed

lemma tri_mainth: "tri E g \<Longrightarrow> h_obj g x = None \<Longrightarrow> g_mainth g \<noteq> x"
  using triD(1) [of E g] by (auto simp: roots_ok_def kinds)

lemma new_tri:
  assumes "tri {} g" "h_obj g x = None" "h_obj g' = (h_obj g)(x := Some ob)" "h_mark g' = (h_mark g)(x := curwhite g)"
    "gc_gray g' = gc_gray g" "gc_grayagain g' = gc_grayagain g" "gc_weak g' = gc_weak g" "same_env g g'" "heap_ok g g'"
    "set (g_uvhead g') = (if okind ob = 2 then insert x (set (g_uvhead g)) else set (g_uvhead g))" "distinct (g_uvhead g')"
  shows "tri {} g'"
proof -
  note d = triD [OF assms(1)] and e = same_envD [OF assms(8)]
  have m: "typed g" "finite (dom (h_obj g))" "lists_ok g" "clos {} g" using d(2) minv_clos [of g "{}"] by simp_all
  have cw: "gc_currentwhite g AND 3 \<in> {1, 2}" using d(1) by (simp add: roots_ok_def)
  note c = curwhite_colour [OF cw]
  have kd: "kind_at g' y = (if y = x then Some (okind ob) else kind_at g y)" "kind_at g x = None" for y
    by (simp_all add: kind_at_def assms(2,3))
  have xl: "x \<notin> set (gc_gray g) \<union> set (gc_grayagain g) \<union> set (gc_weak g)" 
  proof -
    have "\<not> travobj g x" by (simp add: kinds kd(2))
    then show ?thesis using m(3) unfolding lists_ok_def by blast
  qed
  have w: "iswhite g' y = (y = x \<or> iswhite g y)" for y using c(1) by (simp add: iswhite_def assms(4) LJ_GC_WHITES_def)
  have b: "isblack g' y = (y \<noteq> x \<and> isblack g y)" for y using c(2) by (simp add: isblack_def assms(4) LJ_GC_BLACK_def)
  have de: "isdead g' y = (y \<noteq> x \<and> isdead g y)" for y
    using c(3) e(7) by (simp add: isdead_def otherwhite_def assms(4) LJ_GC_WHITES_def)
  have o: "is_openuv g' y = (if y = x then okind ob = 2 else is_openuv g y)" for y by (simp add: kinds kd)
  have ou: "is_openuv g y \<longleftrightarrow> y \<in> set (g_uvhead g)" for y using d(1) by (simp add: roots_ok_def)
  have xu: "x \<notin> set (g_uvhead g)" using ou [of x] kd(2) by (simp add: kinds)
  have "roots_ok g'"
  proof (rule roots_grow [OF d(1) assms(8)])
    show "is_openuv g' y \<longleftrightarrow> y \<in> set (g_uvhead g')" for y using o [of y] ou [of y] assms(10) xu by auto
    show "kind_at g' y = kind_at g y" if "h_obj g y \<noteq> None" for y using that assms(2) kd(1) by auto
    show "h_obj g' y \<noteq> None" if "h_obj g y \<noteq> None" for y using that by (simp add: assms(3))
  qed
  moreover have ty: "typed g'" using assms(9) by (simp add: heap_ok_def)
  moreover have "finite (dom (h_obj g'))" using m(2) by (simp add: assms(3))
  moreover have "lists_ok g'" using m(3) xl unfolding lists_ok_def assms(5-7) w kinds kd by auto
  moreover have "clos {} g'"
    unfolding clos_def
  proof (intro allI impI ballI)
    fix y z assume y: "\<not> iswhite g' y" "y \<notin> set (gc_gray g') \<union> pending g'" "z \<in> refs g' y"
    have yx: "y \<noteq> x" "\<not> iswhite g y" using y(1) by (auto simp: w)
    have ny: "\<not> is_openuv g y" using y(2) yx(1) by (auto simp: pending_def o)
    have "y \<notin> set (gc_gray g) \<union> pending g" using y(2) yx(1) ny by (auto simp: pending_def assms(5-7) o)
    moreover have "refs g' y = refs g y"
      by (rule refs_same) (use ny yx(1) assms(9) e(1) in \<open>simp_all add: assms(3) heap_ok_def\<close>)
    ultimately have nz: "\<not> iswhite g z" using closD [OF m(4) yx(2)] y(3) by blast
    have "h_obj g z \<noteq> None" using typedD(3) [OF m(1), of z y] \<open>refs g' y = refs g y\<close> y(3) by simp
    then show "\<not> iswhite g' z" using nz assms(2) by (auto simp: w)
  qed
  moreover have "colours g'"
    unfolding colours_def
  proof (intro allI impI)
    fix y assume y: "h_obj g' y \<noteq> None"
    show "(iswhite g' y \<longrightarrow> \<not> isblack g' y) \<and> (is_thread g' y \<or> is_openuv g' y \<longrightarrow> \<not> isblack g' y) \<and>
        (\<not> iswhite g' y \<longrightarrow> blackkind g' y \<longrightarrow> isblack g' y) \<and>
        (\<not> iswhite g' y \<longrightarrow> \<not> isblack g' y \<longrightarrow> travobj g' y \<longrightarrow> y \<in> set (gc_gray g') \<union> set (gc_grayagain g') \<union> set (gc_weak g')) \<and> \<not> isdead g' y"
    proof (cases "y = x")
      case False
      then have "h_obj g y \<noteq> None" using y assms(3) by simp
      from coloursD [OF d(3) this] show ?thesis using False by (simp add: w b de assms(5-7) kinds kd)
    qed (simp add: w b de)
  qed
  moreover have "\<not> iswhite g' (g_mainth g')" "\<forall>y \<in> vrefs (g_registry g'). \<not> iswhite g' y"
  proof -
    show "\<not> iswhite g' (g_mainth g')" using d(4) tri_mainth [OF assms(1,2)] by (simp add: w e)
    show "\<forall>y \<in> vrefs (g_registry g'). \<not> iswhite g' y"
    proof
      fix y assume "y \<in> vrefs (g_registry g')"
      then have "y \<in> vrefs (g_registry g)" by (simp add: e)
      then have "\<not> iswhite g y" "h_obj g y \<noteq> None" using d(1,5) by (simp_all add: roots_ok_def)
      then show "\<not> iswhite g' y" using assms(2) by (auto simp: w)
    qed
  qed
  ultimately show ?thesis using d(7) assms(11) minv_clos [of g' "{}"] by (simp add: tri_def trix_def e)
qed

lemma after_cons: "m \<noteq> x \<Longrightarrow> after (Some m) (x # xs) = after (Some m) xs"
  by (simp add: after_def)

lemma newgco_tri:
  assumes "tri {} g" "h_obj g x = None" "okind ob \<noteq> 2" "heap_ok g (lj_mem_newgco x ob g)"
  shows "tri {} (lj_mem_newgco x ob g)"
  by (rule new_tri [OF assms(1,2) _ _ _ _ _ _ assms(4)])
    (use assms(3) triD(6) [OF assms(1)] after_cons [OF tri_mainth [OF assms(1,2)]] in
      \<open>auto simp: lj_mem_newgco_def newwhite_def curwhite_def set_obj_def same_env_def\<close>)

lemma after_insert: "after (Some m) (takeWhile (\<lambda>y. y \<noteq> m) xs @ m # ys) = ys"
proof -
  have "dropWhile (\<lambda>y. y \<noteq> m) (takeWhile (\<lambda>y. y \<noteq> m) xs @ m # ys) = m # ys"
    by (induction xs) simp_all
  then show ?thesis by (simp add: after_def)
qed

lemma udata_new_tri:
  assumes "tri {} g" "h_obj g x = None" "heap_ok g (lj_udata_new x env g)"
  shows "tri {} (lj_udata_new x env g)"
proof -
  let ?g' = "lj_udata_new x env g"
  let ?old = "after (Some (g_mainth g)) (gc_root g)"
  have rt: "gc_root ?g' = takeWhile (\<lambda>y. y \<noteq> g_mainth g) (gc_root g) @ g_mainth g # x # ?old" by (simp add: lj_udata_new_def newwhite_def set_obj_def)
  have af: "after (Some (g_mainth g)) (gc_root ?g') = x # ?old" unfolding rt by (rule after_insert)
  define g1 where "g1 = ?g'\<lparr>gc_root := gc_root g\<rparr>"
  have s: "same_heap ?g' g1" by (simp add: g1_def same_heap_def)
  have "heap_ok g g1" using assms(3) unfolding heap_ok_def same_heap_typed [OF s] same_heap_mode(1) [OF s] .
  then have t: "tri {} g1"
    by (intro new_tri [OF assms(1,2), where ob = "OUdata 0 env"])
      (use triD(6) [OF assms(1)] in \<open>simp_all add: g1_def lj_udata_new_def newwhite_def curwhite_def set_obj_def same_env_def\<close>)
  have k: "kind_at ?g' y = kind_at g1 y" for y by (simp add: kind_at_def g1_def)
  have kx: "kind_at ?g' x = Some 10" by (simp add: kind_at_def lj_udata_new_def newwhite_def set_obj_def)
  have e: "g_mainth ?g' = g_mainth g1" "g_registry ?g' = g_registry g1" "g_gcroot ?g' = g_gcroot g1" "g_curtrace ?g' = g_curtrace g1"
    "g_trace ?g' = g_trace g1" "gc_mmudata ?g' = gc_mmudata g1" "g_uvhead ?g' = g_uvhead g1" "gc_currentwhite ?g' = gc_currentwhite g1"
    "gc_state ?g' = gc_state g1" "h_mark ?g' = h_mark g1" "gc_gray ?g' = gc_gray g1" "gc_grayagain ?g' = gc_grayagain g1" "gc_weak ?g' = gc_weak g1"
    "h_obj ?g' = h_obj g1"
    by (simp_all add: g1_def)
  have m: "g_mainth g1 = g_mainth g" by (simp add: g1_def lj_udata_new_def newwhite_def set_obj_def)
  have tr: "trace_refs ?g' = trace_refs g1" by (intro ext) (simp only: trace_refs_def e)
  have w: "iswhite ?g' = iswhite g1" "isblack ?g' = isblack g1" "isdead ?g' = isdead g1"
    by (simp_all add: iswhite_def isblack_def isdead_def otherwhite_def e fun_eq_iff)
  have "roots_ok ?g'"
  proof -
    have "\<forall>u \<in> set (after (Some (g_mainth ?g')) (gc_root ?g')). is_udata ?g' u"
      using triD(1) [OF assms(1)] triD(1) [OF t] af kx unfolding e(1) m by (auto simp: roots_ok_def kinds k m) (auto simp: g1_def)
    then show ?thesis using triD(1) [OF t] unfolding roots_ok_def kinds k e cur_trace_ok_def mode_name_def tr by simp
  qed
  moreover have "minv False (pending ?g' \<union> {}) ?g'"
  proof -
    have ty: "typed ?g'" using assms(3) by (simp add: heap_ok_def)
    have a: "finite (dom (h_obj g1))" "lists_ok g1" "clos {} g1" using triD(2) [OF t] minv_clos [of g1 "{}"] by simp_all
    have l: "lists_ok ?g'" using a(2) unfolding lists_ok_def e w kinds k .
    have c: "clos {} ?g'" using a(3) same_heap_refs(3) [OF s] unfolding clos_def pending_def e w kinds k by simp
    show ?thesis unfolding minv_clos e(14) using ty a(1) l c by blast
  qed
  moreover have "colours ?g'" using triD(3) [OF t] unfolding colours_def w e kinds k by simp
  ultimately show ?thesis using triD(4-7) [OF t] unfolding tri_def trix_def e w by blast
qed

section \<open>Upvalues\<close>

text \<open>The list of open upvalues of a thread is no reference.\<close>

lemma set_openuv_obj:
  "h_obj (set_openuv L uvs g) x = (case h_obj g x of Some (OThread t) \<Rightarrow> if x = L then Some (OThread (t\<lparr>th_openuv := uvs\<rparr>)) else h_obj g x | _ \<Rightarrow> h_obj g x)"
  by (auto simp: set_openuv_def set_obj_def split: option.splits gcobj.splits)

lemma set_openuv_sel [simp]:
  "h_mark (set_openuv L uvs g) = h_mark g" "h_nomm (set_openuv L uvs g) = h_nomm g" "g_trace (set_openuv L uvs g) = g_trace g"
  "g_gcroot (set_openuv L uvs g) = g_gcroot g" "g_uvhead (set_openuv L uvs g) = g_uvhead g" "gc_root (set_openuv L uvs g) = gc_root g"
  "gc_gray (set_openuv L uvs g) = gc_gray g" "gc_grayagain (set_openuv L uvs g) = gc_grayagain g" "gc_weak (set_openuv L uvs g) = gc_weak g"
  "gc_state (set_openuv L uvs g) = gc_state g" "gc_currentwhite (set_openuv L uvs g) = gc_currentwhite g"
  by (simp_all add: set_openuv_def set_obj_def split: option.split gcobj.split)

lemma set_openuv_kind: "kind_at (set_openuv L uvs g) x = kind_at g x"
  by (simp add: kind_at_def set_openuv_obj split: option.split gcobj.split)

lemma set_openuv_refs:
  "uvval (set_openuv L uvs g) = uvval g" "tab_mode (set_openuv L uvs g) = tab_mode g" "refs (set_openuv L uvs g) = refs g"
  "obj_ok (set_openuv L uvs g) = obj_ok g"
proof -
  let ?g = "set_openuv L uvs g"
  have sl: "stack_slot ?g th i = stack_slot g th i" for th i by (simp add: stack_slot_def set_openuv_obj split: option.split gcobj.split)
  show u: "uvval ?g = uvval g" by (intro ext) (simp add: uvval_def set_openuv_obj sl split: option.split gcobj.split)
  have t: "tab_of ?g = tab_of g" by (intro ext) (simp add: tab_of_def set_openuv_obj split: option.split gcobj.split)
  have s: "str_of ?g = str_of g" by (intro ext) (simp add: str_of_def set_openuv_obj split: option.split gcobj.split gcv.split)
  have gr: "tab_getref ?g = tab_getref g" by (intro ext) (simp only: tab_getref_def t)
  show m: "tab_mode ?g = tab_mode g" by (intro ext) (simp only: tab_mode_meta meta_res_eq gr t tab_weak_def s set_openuv_sel)
  have tr: "trace_refs ?g = trace_refs g" by (intro ext) (simp only: trace_refs_def set_openuv_sel)
  have "refs_of ?g w = refs_of g w" for w
    by (intro ext) (simp add: refs_of_def set_openuv_obj u tr split: option.split gcobj.split)
  then show "refs ?g = refs g" unfolding refs_def m by blast
  have kk: "is_tab ?g = is_tab g" "is_str ?g = is_str g" "is_trace ?g = is_trace g" by (intro ext, simp add: kinds set_openuv_kind)+
  have up: "is_upval ?g = is_upval g" by (intro ext) (simp add: is_upval_def set_openuv_obj split: option.split gcobj.split)
  show "obj_ok ?g = obj_ok g" by (intro ext) (simp add: obj_ok_def set_openuv_obj u kk up split: option.split gcobj.split)
qed

lemma set_openuv_heap: "typed g \<Longrightarrow> heap_ok g (set_openuv L uvs g)"
proof -
  assume t: "typed g"
  have "(h_obj (set_openuv L uvs g) y = None) = (h_obj g y = None)" for y by (simp add: kinds set_openuv_kind)
  then show ?thesis using t by (simp add: heap_ok_def typed_def set_openuv_refs)
qed

lemma set_openuv_tri:
  assumes "tri E g"
  shows "tri E (set_openuv L uvs g)"
proof (cases "h_obj g L")
  case (Some ob)
  show ?thesis
  proof (cases ob)
    case (OThread t)
    have ty: "typed g" by (rule minvD(1) [OF triD(2) [OF assms]])
    have e: "set_openuv L uvs g = set_obj L (OThread (t\<lparr>th_openuv := uvs\<rparr>)) g" using Some OThread by (simp add: set_openuv_def)
    have o: "h_obj g L = Some (OThread t)" using Some OThread by simp
    show ?thesis unfolding e by (rule stack_tri [OF assms o]) (use set_openuv_heap [OF ty, of L uvs] e in simp)
  qed (use Some assms in \<open>simp_all add: set_openuv_def\<close>)
qed (use assms in \<open>simp add: set_openuv_def\<close>)

end
