(* ===== verification/LJ_GCCyc.thy ===== *)
theory LJ_GCCyc
  imports LJ_GCInv
begin

text \<open>
  Upvalues that are created and closed, the steps of the collector, and the start of a cycle.  A cycle is any interleaving of
  these steps with the stores of the program; in all of its states the atomic phase is safe.
\<close>

lemma roots_uv: "roots_ok g \<Longrightarrow> is_openuv g x \<longleftrightarrow> x \<in> set (g_uvhead g)" "roots_ok g \<Longrightarrow> is_thread g (g_mainth g)"
  by (simp_all add: roots_ok_def)

lemma uvval_cong: "h_obj g' = h_obj g \<Longrightarrow> uvval g' = uvval g"
proof -
  assume h: "h_obj g' = h_obj g"
  have "stack_slot g' = stack_slot g" by (intro ext) (simp only: stack_slot_def h)
  then show ?thesis by (intro ext) (simp only: uvval_def h)
qed

section \<open>Creation of an upvalue\<close>

lemma finduv_parts: "finduv_split g slot uvs = (xs, ys) \<Longrightarrow> xs @ ys = uvs"
  by (induction uvs arbitrary: xs ys) (auto split: if_splits prod.splits)

lemma finduv_tri:
  assumes "tri {} g" "h_obj g fresh = None" "\<forall>uv \<in> set (openuv_of g L). is_openuv g uv" "heap_ok g (fst (func_finduv L slot fresh g))"
  shows "tri {} (fst (func_finduv L slot fresh g))"
proof -
  obtain xs ys where sp: "finduv_split g slot (openuv_of g L) = (xs, ys)" by (cases "finduv_split g slot (openuv_of g L)")
  have up: "xs @ ys = openuv_of g L" by (rule finduv_parts [OF sp])
  show ?thesis
  proof (cases "ys \<noteq> [] \<and> uv_slot g (hd ys) = slot")
    case True
    then have "hd ys \<in> set (openuv_of g L)" using up by (metis Un_iff list.set_sel(1) set_append)
    then have "h_obj g (hd ys) \<noteq> None" using assms(3) by (auto simp: kinds)
    then have "\<not> isdead g (hd ys)" by (rule coloursD(5) [OF triD(3) [OF assms(1)]])
    then show ?thesis using True assms(1) by (simp add: func_finduv_def sp)
  next
    case False
    let ?g1 = "set_openuv L (xs @ fresh # ys) g"
    let ?g' = "fst (func_finduv L slot fresh g)"
    let ?ob = "OUpval False VNil L slot"
    have Lf: "openuv_of g fresh = []" using assms(2) by (simp add: openuv_of_def)
    have t1: "tri {} ?g1" by (rule set_openuv_tri [OF assms(1)])
    have n1: "h_obj ?g1 fresh = None" using assms(2) by (simp add: set_openuv_obj)
    have fl: "func_finduv L slot fresh g = (let g = set_obj fresh ?ob g; g = newwhite fresh g; g = set_openuv L (xs @ fresh # ys) g
              in (g\<lparr>g_uvhead := fresh # g_uvhead g\<rparr>, fresh))"
      using False by (auto simp: func_finduv_def sp)
    let ?g2 = "set_openuv L (xs @ fresh # ys) (newwhite fresh (set_obj fresh ?ob g))"
    have g': "?g' = ?g2\<lparr>g_uvhead := fresh # g_uvhead ?g2\<rparr>" unfolding fl by (simp only: Let_def fst_conv)
    have ob: "h_obj ?g' = (h_obj ?g1)(fresh := Some ?ob)"
      unfolding g' by (rule ext) (use assms(2) in \<open>auto simp: set_openuv_obj newwhite_def set_obj_def split: option.splits gcobj.splits\<close>)
    have s: "h_mark ?g' = (h_mark ?g1)(fresh := curwhite ?g1)" "gc_gray ?g' = gc_gray ?g1" "gc_grayagain ?g' = gc_grayagain ?g1" "gc_weak ?g' = gc_weak ?g1"
      "g_uvhead ?g' = fresh # g_uvhead ?g1"
      unfolding g' by (simp_all add: newwhite_def curwhite_def set_obj_def)
    have env: "same_env ?g1 ?g'"
      unfolding g' by (simp add: same_env_def set_openuv_def newwhite_def set_obj_def split: option.split gcobj.split)
    have k: "is_tab ?g1 x = is_tab g x" for x by (simp add: kinds set_openuv_kind)
    have h: "heap_ok ?g1 ?g'" using assms(4) unfolding heap_ok_def k set_openuv_refs(2) .
    have "fresh \<notin> set (g_uvhead ?g1)" using roots_uv(1) [OF triD(1) [OF t1], of fresh] n1 by (auto simp: kinds)
    then show ?thesis
      by (intro new_tri [OF t1 n1 ob s(1-4) env h]) (use triD(6) [OF t1] s(5) in simp_all)
  qed
qed

section \<open>Closing upvalues\<close>

text \<open>The upvalue keeps its value, so what it refers to does not change.\<close>

definition closed_at :: "addr \<Rightarrow> gcst \<Rightarrow> gcst" where
  "closed_at uv g = (set_obj uv (OUpval True (uvval g uv) 0 0) g)\<lparr>gc_root := uv # gc_root g, g_uvhead := remove1 uv (g_uvhead g)\<rparr>"

lemma closed_at_obj: "h_obj (closed_at uv g) x = (if x = uv then Some (OUpval True (uvval g uv) 0 0) else h_obj g x)"
  by (simp add: closed_at_def set_obj_def)

lemma closed_at_sel [simp]:
  "h_mark (closed_at uv g) = h_mark g" "h_nomm (closed_at uv g) = h_nomm g" "g_trace (closed_at uv g) = g_trace g"
  "g_gcroot (closed_at uv g) = g_gcroot g" "gc_gray (closed_at uv g) = gc_gray g" "gc_grayagain (closed_at uv g) = gc_grayagain g"
  "gc_weak (closed_at uv g) = gc_weak g" "gc_state (closed_at uv g) = gc_state g" "gc_currentwhite (closed_at uv g) = gc_currentwhite g"
  "g_uvhead (closed_at uv g) = remove1 uv (g_uvhead g)" "gc_root (closed_at uv g) = uv # gc_root g"
  by (simp_all add: closed_at_def set_obj_def)

lemma closed_at_refs:
  assumes "is_openuv g uv"
  shows "uvval (closed_at uv g) = uvval g" "tab_mode (closed_at uv g) = tab_mode g" "refs (closed_at uv g) = refs g"
    "obj_ok (closed_at uv g) = obj_ok g" "\<And>x. kind_at (closed_at uv g) x = (if x = uv then Some 1 else kind_at g x)"
proof -
  let ?g = "closed_at uv g"
  obtain v th i where ob: "h_obj g uv = Some (OUpval False v th i)"
    using assms by (auto simp: is_openuv_def split: option.splits gcobj.splits)
  show kd: "kind_at ?g x = (if x = uv then Some 1 else kind_at g x)" for x by (simp add: kind_at_def closed_at_obj)
  have ss: "stack_slot ?g = stack_slot g" by (intro ext) (use ob in \<open>simp add: stack_slot_def closed_at_obj\<close>)
  show u: "uvval ?g = uvval g"
  proof
    fix x show "uvval ?g x = uvval g x"
    proof (cases "x = uv")
      case True
      then show ?thesis by (simp add: uvval_def [of ?g] closed_at_obj)
    next
      case False
      then have "h_obj ?g x = h_obj g x" by (simp add: closed_at_obj)
      then show ?thesis unfolding uvval_def ss by simp
    qed
  qed
  have t: "tab_of ?g = tab_of g" by (intro ext) (use ob in \<open>simp add: tab_of_def closed_at_obj\<close>)
  have s: "str_of ?g = str_of g" by (intro ext) (use ob in \<open>simp add: str_of_def closed_at_obj split: gcv.split\<close>)
  have gr: "tab_getref ?g = tab_getref g" by (intro ext) (simp only: tab_getref_def t)
  show m: "tab_mode ?g = tab_mode g" by (intro ext) (simp only: tab_mode_meta meta_res_eq gr t tab_weak_def s closed_at_sel)
  have tr: "trace_refs ?g = trace_refs g" by (intro ext) (simp only: trace_refs_def closed_at_sel)
  have "refs_of ?g w = refs_of g w" for w
  proof
    fix x show "refs_of ?g w x = refs_of g w x"
    proof (cases "x = uv")
      case False
      then have h: "h_obj ?g x = h_obj g x" by (simp add: closed_at_obj)
      show ?thesis unfolding refs_of_def u tr closed_at_sel h by (rule refl)
    qed (use ob in \<open>simp add: refs_of_def closed_at_obj u\<close>)
  qed
  then show "refs ?g = refs g" unfolding refs_def m by blast
  have kk: "is_tab ?g = is_tab g" "is_str ?g = is_str g" "is_trace ?g = is_trace g"
    using assms by (intro ext, simp add: kinds kd)+
  have up: "is_upval ?g = is_upval g" by (intro ext) (use ob in \<open>simp add: is_upval_def closed_at_obj\<close>)
  show "obj_ok ?g = obj_ok g"
  proof
    fix x show "obj_ok ?g x = obj_ok g x"
    proof (cases "x = uv")
      case False
      then have h: "h_obj ?g x = h_obj g x" by (simp add: closed_at_obj)
      show ?thesis unfolding obj_ok_def u kk up closed_at_sel h by (rule refl)
    qed (use ob in \<open>simp add: obj_ok_def closed_at_obj u up\<close>)
  qed
qed

lemma openuv_mainth:
  assumes "tri E g" "is_openuv g uv"
  shows "g_mainth g \<noteq> uv" "uv \<in> set (g_uvhead g)"
  using roots_uv(1) [OF triD(1) [OF assms(1)], of uv] roots_uv(2) [OF triD(1) [OF assms(1)]] assms(2) by (auto simp: kinds)

text \<open>After closing, a marked upvalue is black and its value may still be white.\<close>

lemma closed_at_tri:
  assumes "tri {} g" "is_openuv g uv"
  shows "tri {uv} (if isgray g uv then gray2black uv (closed_at uv g) else closed_at uv g)"
proof -
  let ?g1 = "closed_at uv g"
  let ?g = "if isgray g uv then gray2black uv ?g1 else ?g1"
  note d = triD [OF assms(1)] and r = closed_at_refs [OF assms(2)]
  have m: "typed g" "finite (dom (h_obj g))" "lists_ok g" "clos {} g" using d(2) minv_clos [of g "{}"] by simp_all
  have ue: "h_obj g uv \<noteq> None" using assms(2) by (simp add: kinds)
  have gw: "isgray g uv \<longleftrightarrow> \<not> iswhite g uv" using coloursD(2) [OF d(3) ue] assms(2) by (simp add: isgray_white)
  have s: "h_obj ?g = h_obj ?g1" "h_nomm ?g = h_nomm ?g1" "g_trace ?g = g_trace ?g1" "g_gcroot ?g = g_gcroot ?g1" "gc_gray ?g = gc_gray g"
    "gc_grayagain ?g = gc_grayagain g" "gc_weak ?g = gc_weak g" "g_uvhead ?g = remove1 uv (g_uvhead g)" "gc_currentwhite ?g = gc_currentwhite g"
    "gc_state ?g = gc_state g" "h_mark ?g1 = h_mark g"
    by (simp_all add: gray2black_def)
  have sh: "same_heap ?g1 ?g" using s(1-4) by (simp add: same_heap_def)
  have w: "iswhite ?g y = iswhite g y" for y by (simp add: white_fields [OF s(11)])
  have b: "isblack ?g y = (isblack g y \<or> y = uv \<and> isgray g uv)" for y by (auto simp: isblack_def [of ?g1] isblack_def [of g])
  have kd: "kind_at ?g x = (if x = uv then Some 1 else kind_at g x)" for x using r(5) [of x] by (simp only: kind_at_def s(1))
  have ku: "kind_at g uv = Some 2" using assms(2) by (simp add: kinds)
  have env: "same_env g ?g"
    using after_cons [OF openuv_mainth(1) [OF assms]] by (simp add: same_env_def gray2black_def closed_at_def set_obj_def)
  note e = same_envD [OF env]
  have ou: "is_openuv ?g x \<longleftrightarrow> x \<in> set (g_uvhead ?g)" for x
    using roots_uv(1) [OF d(1), of x] d(6) by (auto simp: s(8) kinds kd)
  have "roots_ok ?g"
  proof (rule roots_grow [OF d(1) env _ ou])
    show "kind_at ?g x = kind_at g x" if "\<not> is_openuv g x" for x using that assms(2) kd by auto
    show "h_obj ?g x \<noteq> None" if "h_obj g x \<noteq> None" for x using that kd ku by (simp add: kinds)
  qed
  moreover have "typed ?g"
  proof -
    have "typed ?g1" using m(1) ku unfolding typed_def r(3,4) kinds(8) r(5) by simp
    then show ?thesis using same_heap_typed [OF sh] by simp
  qed
  moreover have "finite (dom (h_obj ?g))"
  proof -
    have "h_obj ?g = (h_obj g)(uv := Some (OUpval True (uvval g uv) 0 0))" unfolding s(1) by (rule ext) (simp add: closed_at_obj)
    then show ?thesis using m(2) by simp
  qed
  moreover have "lists_ok ?g" unfolding lists_ok_def s(5-7) w kinds kd
  proof
    fix y assume y: "y \<in> set (gc_gray g) \<union> set (gc_grayagain g) \<union> set (gc_weak g)"
    then have "\<not> iswhite g y" "travobj g y" using m(3) by (auto simp: lists_ok_def)
    moreover have "y \<noteq> uv" using \<open>travobj g y\<close> ku by (auto simp: kinds)
    ultimately show "\<not> iswhite g y \<and> (if y = uv then Some 1 else kind_at g y) \<in> {Some 3, Some 4, Some 5, Some 6, Some 7, Some 9}"
      by (simp only: kinds if_False simp_thms)
  qed
  moreover have "clos {uv} ?g" unfolding clos_def w
  proof (intro allI impI ballI)
    fix y z assume y: "\<not> iswhite g y" "y \<notin> {uv}" "y \<notin> set (gc_gray ?g) \<union> pending ?g" "z \<in> refs ?g y"
    have "y \<notin> set (gc_gray g) \<union> pending g" using y(2,3) by (auto simp: pending_def s(5-7) kinds kd)
    then show "\<not> iswhite g z" using closD [OF m(4) y(1)] y(4) same_heap_refs(3) [OF sh] r(3) by simp
  qed
  moreover have "colours ?g" unfolding colours_def
  proof (intro allI impI)
    fix y assume y: "h_obj ?g y \<noteq> None"
    have "h_obj g y \<noteq> None" using y kd ku by (simp add: kinds split: if_splits)
    note c = coloursD [OF d(3) this]
    have dd: "\<not> isdead ?g y"
    proof (cases "y = uv \<and> isgray g uv")
      case True
      then show ?thesis using not_white_dead [of ?g y] w gw by simp
    next
      case False
      then have "h_mark ?g y = h_mark g y" by (auto simp: gray2black_def)
      then show ?thesis using c(5) s(9) by (simp add: isdead_def otherwhite_def)
    qed
    show "(iswhite ?g y \<longrightarrow> \<not> isblack ?g y) \<and> (is_thread ?g y \<or> is_openuv ?g y \<longrightarrow> \<not> isblack ?g y) \<and>
        (\<not> iswhite ?g y \<longrightarrow> blackkind ?g y \<longrightarrow> isblack ?g y) \<and>
        (\<not> iswhite ?g y \<longrightarrow> \<not> isblack ?g y \<longrightarrow> travobj ?g y \<longrightarrow> y \<in> set (gc_gray ?g) \<union> set (gc_grayagain ?g) \<union> set (gc_weak ?g)) \<and>
        \<not> isdead ?g y"
    proof (cases "y = uv")
      case True
      then show ?thesis using dd c(1) gw unfolding w b kinds kd by simp
    next
      case False
      then show ?thesis using c(1-4) dd unfolding w b s(5-7) kinds kd by simp
    qed
  qed
  moreover have "distinct (g_uvhead ?g)" using d(6) by (simp add: s(8))
  ultimately show ?thesis using d(4,5,7) unfolding tri_def trix_def minv_clos e s(10) w by blast
qed

lemma closeuv1_tri:
  assumes "tri {} g" "is_openuv g uv"
  shows "tri {} (lj_gc_closeuv uv (unlinkuv uv g))"
proof -
  let ?g1 = "closed_at uv g"
  let ?v = "uvval g uv"
  have u: "uvval (unlinkuv uv g) = uvval g" by (rule uvval_cong) (simp add: unlinkuv_def)
  have g1: "(set_obj uv (OUpval True ?v 0 0) (unlinkuv uv g))\<lparr>gc_root := uv # gc_root (set_obj uv (OUpval True ?v 0 0) (unlinkuv uv g))\<rparr> = ?g1"
    by (simp add: closed_at_def set_obj_def unlinkuv_def)
  have gy: "isgray ?g1 uv = isgray g uv" by (simp add: isgray_def)
  have st: "gc_state ?g1 = GCSpropagate \<or> gc_state ?g1 = GCSatomic" using triD(7) [OF assms(1)] by simp
  have lb: "lj_gc_closeuv uv (unlinkuv uv g) =
      (if isgray g uv then lj_gc_barrier uv ?v (gray2black uv ?g1) else ?g1)"
    unfolding lj_gc_closeuv_def u Let_def g1 gy using st by (simp add: lj_gc_barrier_def split: gcv.split)
  note t = closed_at_tri [OF assms]
  have ho: "h_obj ?g1 uv = Some (OUpval True ?v 0 0)" by (simp add: closed_at_obj)
  have ex: "h_obj ?g1 y \<noteq> None" if "y \<in> vrefs ?v" for y
  proof -
    have ty: "typed g" by (rule minvD(1) [OF triD(2) [OF assms(1)]])
    have "y \<in> kids g uv" using openuv_upval(2) [OF assms(2)] that by simp
    then have "h_obj g y \<noteq> None" by (rule typedD(1) [OF ty])
    then show ?thesis using closed_at_refs(5) [OF assms(2), of y] by (simp add: kinds)
  qed
  show ?thesis
  proof (cases "isgray g uv")
    case True
    let ?g2 = "gray2black uv ?g1"
    have t2: "tri {uv} ?g2" using t True by simp
    have ho2: "h_obj ?g2 = h_obj ?g1" by (simp add: gray2black_def)
    have "refs ?g2 uv = vrefs ?v" by (simp add: refs_def refs_of_def ho2 ho uvval_def)
    then have "tri {} (lj_gc_barrier uv ?v ?g2)"
      by (intro barrier_tri [OF t2]) (use ex in \<open>simp_all add: ho2 ho blackkind_def\<close>)
    then show ?thesis using lb True by simp
  next
    case False
    then have t2: "tri {uv} ?g1" using t by simp
    have ue: "h_obj g uv \<noteq> None" using assms(2) by (simp add: kinds)
    have wh: "iswhite g uv" using coloursD(2) [OF triD(3) [OF assms(1)] ue] assms(2) False by (simp add: isgray_white)
    have "tri {} ?g1" by (rule tri_shrink [OF t2]) (use wh in \<open>simp add: iswhite_def\<close>)
    then show ?thesis using lb False by simp
  qed
qed

lemma mark_kinds: "marks g g' \<Longrightarrow> kind_at g' x = kind_at g x"
  using marksx_heap [of "{}" g g'] by (simp add: kind_at_def same_heap_def)

lemma closeuv1_kind:
  assumes "tri {} g" "is_openuv g uv"
  shows "kind_at (lj_gc_closeuv uv (unlinkuv uv g)) x = (if x = uv then Some 1 else kind_at g x)"
proof -
  let ?g1 = "closed_at uv g"
  let ?v = "uvval g uv"
  have u: "uvval (unlinkuv uv g) = uvval g" by (rule uvval_cong) (simp add: unlinkuv_def)
  have g1: "(set_obj uv (OUpval True ?v 0 0) (unlinkuv uv g))\<lparr>gc_root := uv # gc_root (set_obj uv (OUpval True ?v 0 0) (unlinkuv uv g))\<rparr> = ?g1"
    by (simp add: closed_at_def set_obj_def unlinkuv_def)
  have st: "gc_state ?g1 = GCSpropagate \<or> gc_state ?g1 = GCSatomic" using triD(7) [OF assms(1)] by simp
  let ?g2 = "gray2black uv ?g1"
  have ob2: "h_obj ?g2 = h_obj ?g1" by (simp add: gray2black_def)
  have st2: "gc_state ?g2 = gc_state ?g1" by (simp add: gray2black_def)
  have mk: "h_obj (gc_mark y ?g2) = h_obj ?g1" if "?v = VRef y" "iswhite ?g2 y" "isgray g uv" for y
  proof -
    have t2: "tri {uv} ?g2" using closed_at_tri [OF assms] that(3) by simp
    have "y \<in> kids g uv" using openuv_upval(2) [OF assms(2)] that(1) by simp
    then have "h_obj g y \<noteq> None" by (rule typedD(1) [OF minvD(1) [OF triD(2) [OF assms(1)]]])
    then have "h_obj ?g2 y \<noteq> None" using closed_at_refs(5) [OF assms(2), of y] by (simp add: ob2 kinds)
    from mark_tri(3) [OF t2 that(2) this] show ?thesis by (simp add: same_heap_def ob2)
  qed
  have "h_obj (lj_gc_closeuv uv (unlinkuv uv g)) = h_obj ?g1"
    unfolding lj_gc_closeuv_def u Let_def g1 using st st2 mk ob2
    by (auto simp: lj_gc_barrierf_def isgray_def split: gcv.split)
  then show ?thesis using closed_at_refs(5) [OF assms(2), of x] by (simp add: kind_at_def)
qed

lemma closeuv_loop_tri:
  "tri {} g \<Longrightarrow> \<forall>uv \<in> set uvs. is_openuv g uv \<Longrightarrow> distinct uvs \<Longrightarrow> tri {} (closeuv_loop L level uvs g)"
proof (induction uvs arbitrary: g)
  case (Cons uv uvs)
  show ?case
  proof (cases "uv_slot g uv \<ge> level")
    case True
    let ?g1 = "set_openuv L uvs g"
    have t1: "tri {} ?g1" by (rule set_openuv_tri [OF Cons.prems(1)])
    have o1: "is_openuv ?g1 y = is_openuv g y" for y by (simp add: kinds set_openuv_kind)
    have ou: "is_openuv ?g1 uv" using Cons.prems(2) o1 by simp
    then have "h_obj ?g1 uv \<noteq> None" by (simp add: kinds)
    then have nd: "\<not> isdead ?g1 uv" by (rule coloursD(5) [OF triD(3) [OF t1]])
    let ?g2 = "lj_gc_closeuv uv (unlinkuv uv ?g1)"
    have t2: "tri {} ?g2" by (rule closeuv1_tri [OF t1 ou])
    have "\<forall>y \<in> set uvs. is_openuv ?g2 y"
      using Cons.prems(2,3) closeuv1_kind [OF t1 ou] by (auto simp: kinds set_openuv_kind)
    from Cons.IH [OF t2 this] Cons.prems(3) nd True show ?thesis by simp
  qed (use Cons.prems(1) in simp)
qed simp

lemma closeuv_tri: "tri {} g \<Longrightarrow> \<forall>uv \<in> set (openuv_of g L). is_openuv g uv \<Longrightarrow> distinct (openuv_of g L) \<Longrightarrow> tri {} (lj_func_closeuv L level g)"
  unfolding lj_func_closeuv_def by (rule closeuv_loop_tri)

section \<open>Steps of the collector\<close>

lemma propagate_tri:
  assumes "tri {} g" "gc_gray g = x # xs"
  shows "tri {} (propagatemark g)"
proof -
  let ?g' = "propagatemark g"
  note d = triD [OF assms(1)]
  have mi: "minv False (pending g) g" using d(2) by simp
  note m = minvD [OF mi]
  have x: "\<not> iswhite g x" "travobj g x" using m(3) assms(2) by (simp_all add: lists_ok_def)
  note s = step_okD [OF propagatemark_ok [OF m(1) assms(2) x]]
  note k = mstepD [OF s(1)]
  note st = step_minv [OF mi assms(2)]
  note h = advD(1) [OF st(2)]
  have kd: "kind_at ?g' y = kind_at g y" for y using hrelD(1) [OF h, of y] by (auto simp: kind_at_def)
  have kk: "is_openuv ?g' = is_openuv g" "travobj ?g' = travobj g" "blackkind ?g' = blackkind g" "is_thread ?g' = is_thread g" "is_tab ?g' = is_tab g"
    by (intro ext, simp add: kinds kd)+
  note e = hrelD(3-) [OF h]
  have env: "same_env g ?g'" using e advD(5,6) [OF st(2)] by (simp add: same_env_def)
  have pk: "is_thread (popped x xs g) x = is_thread g x" "is_tab (popped x xs g) x = is_tab g x" "tab_mode (popped x xs g) x = tab_mode g x"
    using same_heap_kind(1,5) [OF popped_heap(1)] same_heap_mode(1) [OF popped_heap(1)] by simp_all
  have pb: "blackkind (popped x xs g) y = blackkind g y" "isblack (popped x xs g) y = (y = x \<or> isblack g y)" for y
    by (auto simp: blackkind_def isblack_def LJ_GC_BLACK_def)
  have wk: "gc_weak ?g' = (if is_tab g x \<and> 0 < tab_mode g x then x # gc_weak g else gc_weak g)"
    and ga: "gc_grayagain ?g' = (if is_thread g x then x # gc_grayagain g else gc_grayagain g)"
    and bx: "isblack ?g' x = (\<not> (is_thread g x \<or> is_tab g x \<and> 0 < tab_mode g x))"
    using s(3,4,6) by (simp_all add: pk)
  have xs: "set xs \<subseteq> set (gc_gray ?g')" using mstep_gray [OF s(1)] by simp
  have ro: "roots_ok ?g'"
    by (rule roots_grow [OF d(1) env]) (use roots_uv(1) [OF d(1)] hrel_kind(9) [OF h] in \<open>simp_all add: kd kk e\<close>)
  have pe: "pending g \<subseteq> pending ?g'" using advD(3,4) [OF st(2)] by (auto simp: pending_def kk)
  have c': "clos {} ?g'"
    unfolding clos_def
  proof (intro allI impI ballI)
    fix y z assume y: "\<not> iswhite ?g' y" "y \<notin> set (gc_gray ?g') \<union> pending ?g'" "z \<in> refs ?g' y"
    then have "y \<notin> set (gc_gray ?g') \<union> pending g" "y \<notin> set (gc_weak ?g')" using pe by (auto simp: pending_def)
    then show "\<not> iswhite ?g' z" using closedgD [OF minvD(4) [OF st(1)] y(1)] y(3) by simp
  qed
  have co: "colours ?g'"
    unfolding colours_def
  proof (intro allI impI)
    fix y assume "h_obj ?g' y \<noteq> None"
    then have y: "h_obj g y \<noteq> None" using hrel_kind(9) [OF h, of y] by simp
    note c = coloursD [OF d(3) y]
    show "(iswhite ?g' y \<longrightarrow> \<not> isblack ?g' y) \<and> (is_thread ?g' y \<or> is_openuv ?g' y \<longrightarrow> \<not> isblack ?g' y) \<and>
        (\<not> iswhite ?g' y \<longrightarrow> blackkind ?g' y \<longrightarrow> isblack ?g' y) \<and>
        (\<not> iswhite ?g' y \<longrightarrow> \<not> isblack ?g' y \<longrightarrow> travobj ?g' y \<longrightarrow> y \<in> set (gc_gray ?g') \<union> set (gc_grayagain ?g') \<union> set (gc_weak ?g')) \<and>
        \<not> isdead ?g' y"
    proof (cases "y = x")
      case True
      have "\<not> iswhite ?g' x" by (rule k(6))
      moreover have "\<not> is_openuv g x" "\<not> blackkind g x" using x(2) by (auto simp: kinds)
      ultimately show ?thesis using bx wk ga not_white_dead [of ?g' x] by (auto simp: True kk)
    next
      case yx: False
      show ?thesis
      proof (cases "iswhite g y \<and> \<not> iswhite ?g' y")
        case True
        have "isblack ?g' y = blackkind g y" using k(11) [of y] True c(1) yx by (simp add: pb)
        moreover have "\<not> (is_thread g y \<or> is_openuv g y) \<or> \<not> blackkind g y" by (auto simp: kinds)
        moreover have "y \<in> set (gc_gray ?g') \<or> \<not> travobj g y" using k(10) [of y] True same_heap_trav [OF popped_heap(1)] by auto
        moreover have "blackkind g y \<Longrightarrow> \<not> travobj g y" by (auto simp: kinds)
        ultimately show ?thesis using True not_white_dead [of ?g' y] unfolding kk by blast
      next
        case False
        then have hm: "h_mark ?g' y = h_mark g y" using k(8) [OF yx] yx by auto
        have w: "iswhite ?g' y = iswhite g y" "isblack ?g' y = isblack g y" "isdead ?g' y = isdead g y"
          by (simp_all add: iswhite_def isblack_def isdead_def otherwhite_def hm e)
        have "set (gc_gray g) - {x} \<subseteq> set (gc_gray ?g')" using xs assms(2) by auto
        then show ?thesis using c yx advD(3,4) [OF st(2)] unfolding w kk by blast
      qed
    qed
  qed
  have "typed ?g'" "finite (dom (h_obj ?g'))" "lists_ok ?g'" using minvD(1-3) [OF st(1)] by simp_all
  then have "trix {} ?g'" using ro co c' d(6) e minv_clos [of ?g' "{}"] by (simp add: trix_def)
  then show ?thesis using d(4,5,7) advD(2) [OF st(2)] by (simp add: tri_def e)
qed

text \<open>Between two cycles all objects have the current white.\<close>

definition start_ok :: "gcst \<Rightarrow> bool" where
  "start_ok g \<longleftrightarrow> gc_state g = GCSpause \<and> roots_ok g \<and> typed g \<and> finite (dom (h_obj g)) \<and> distinct (g_uvhead g) \<and>
     (\<forall>x. h_obj g x \<noteq> None \<longrightarrow> iswhite g x \<and> \<not> isblack g x \<and> \<not> isdead g x)"

lemma refs_none: "h_obj g x = None \<Longrightarrow> refs g x = {}" by (simp add: refs_def refs_of_def)

lemma marked_trix:
  assumes "trix {} g" "marked_by g X g'"
  shows "trix {} g'" "same_env g g'" "z \<in> X \<Longrightarrow> \<not> iswhite g' z" "\<not> iswhite g z \<Longrightarrow> \<not> iswhite g' z" "h_obj g' = h_obj g"
proof -
  have m: "marks g g'" using assms(2) by (simp add: marked_by_def)
  show "trix {} g'" "same_env g g'" by (rule marks_trix [OF assms(1) m])+
  show "z \<in> X \<Longrightarrow> \<not> iswhite g' z" using assms(2) by (simp add: marked_by_def)
  show "\<not> iswhite g z \<Longrightarrow> \<not> iswhite g' z" by (rule marksx_mono [OF m])
  show "h_obj g' = h_obj g" using marksx_heap [OF m] by (simp add: same_heap_def)
qed

lemma trix_typed: "trix {} g \<Longrightarrow> typed g"
  by (simp add: trix_def minv_def)

text \<open>Marking the roots, from the state with empty lists.\<close>

lemma start_marks:
  assumes "trix {} g0" "g4 = gc_mark_gcroot (let g = gc_markobj (g_mainth g0) g0; g = gc_markobj (th_env_of g (g_mainth g)) g in gc_marktv (g_registry g) g)"
  shows "trix {} g4" "\<not> iswhite g4 (g_mainth g4)" "\<forall>y \<in> vrefs (g_registry g4). \<not> iswhite g4 y" "h_obj g4 = h_obj g0"
proof -
  have ro: "roots_ok g0" using assms(1) by (simp add: trix_def)
  have th0: "is_thread g0 (g_mainth g0)" by (rule roots_uv(2) [OF ro])
  then have ex0: "h_obj g0 (g_mainth g0) \<noteq> None" by (auto simp: is_thread_def split: option.splits)
  let ?g1 = "gc_markobj (g_mainth g0) g0"
  note m1 = marked_trix [OF assms(1) gc_markobj_ok [OF trix_typed [OF assms(1)] ex0]]
  let ?e = "th_env_of ?g1 (g_mainth ?g1)"
  have mt1: "g_mainth ?g1 = g_mainth g0" by (rule same_envD(4) [OF m1(2)])
  have "is_thread ?g1 (g_mainth g0)" using th0 unfolding is_thread_def m1(5) .
  then have "?e \<in> refs ?g1 (g_mainth g0)" unfolding mt1 by (auto simp: is_thread_def th_env_of_def refs_def refs_of_def split: option.splits gcobj.splits)
  then have ex1: "h_obj ?g1 ?e \<noteq> None" by (rule typedD(3) [OF trix_typed [OF m1(1)]])
  let ?g2 = "gc_markobj ?e ?g1"
  note m2 = marked_trix [OF m1(1) gc_markobj_ok [OF trix_typed [OF m1(1)] ex1]]
  have rg: "g_registry ?g2 = g_registry g0" using same_envD(3) [OF m1(2)] same_envD(3) [OF m2(2)] by simp
  let ?g3 = "gc_marktv (g_registry ?g2) ?g2"
  have ex2: "h_obj ?g2 y \<noteq> None" if "y \<in> vrefs (g_registry ?g2)" for y
    using that ro unfolding rg m2(5) m1(5) by (simp add: roots_ok_def)
  have "marked_by ?g2 (vrefs (g_registry ?g2)) ?g3" by (rule gc_marktv_ok [OF trix_typed [OF m2(1)] ex2])
  note m3 = marked_trix [OF m2(1) this]
  have gc3: "g_gcroot ?g3 = g_gcroot g0" using same_envD(2) [OF m1(2)] same_envD(2) [OF m2(2)] same_envD(2) [OF m3(2)] by simp
  have ob3: "h_obj ?g3 = h_obj g0" by (simp only: m3(5) m2(5) m1(5))
  have g4: "g4 = gc_mark_gcroot ?g3" using assms(2) by (simp only: Let_def)
  have "marked_by ?g3 (\<Union> ((\<lambda>x. if x \<noteq> 0 then {x} else {}) ` set (g_gcroot ?g3))) g4"
    unfolding g4 gc_mark_gcroot_def
  proof (rule marked_fold, rule marked_if, rule gc_markobj_ok)
    fix x g' assume x: "x \<in> set (g_gcroot ?g3)" "same_heap ?g3 g'" "x \<noteq> 0"
    show "typed g'" by (rule heap_pre(1) [OF x(2) trix_typed [OF m3(1)]])
    have "h_obj g' = h_obj g0" by (rule trans [OF heap_pre(2) [OF x(2) trix_typed [OF m3(1)]] ob3])
    moreover have "h_obj g0 x \<noteq> None" using x(1,3) ro unfolding gc3 by (simp add: roots_ok_def)
    ultimately show "h_obj g' x \<noteq> None" by simp
  qed
  note m4 = marked_trix [OF m3(1) this]
  show "trix {} g4" by (rule m4(1))
  show "h_obj g4 = h_obj g0" by (rule trans [OF m4(5) ob3])
  have "g_mainth g4 = g_mainth g0" using mt1 same_envD(4) [OF m2(2)] same_envD(4) [OF m3(2)] same_envD(4) [OF m4(2)] by simp
  moreover have "\<not> iswhite g4 (g_mainth g0)" by (rule m4(4) [OF m3(4) [OF m2(4) [OF m1(3)]]]) simp
  ultimately show "\<not> iswhite g4 (g_mainth g4)" by simp
  have "g_registry g4 = g_registry ?g2" using same_envD(3) [OF m3(2)] same_envD(3) [OF m4(2)] by simp
  then show "\<forall>y \<in> vrefs (g_registry g4). \<not> iswhite g4 y" using m4(4) [OF m3(3)] by simp
qed

text \<open>A change of fields the invariant does not see.\<close>

lemma trix_fields:
  assumes "trix {} g" "g' = g\<lparr>gc_state := st, gc_strhash := cs\<rparr>"
  shows "trix {} g'" "iswhite g' = iswhite g"
proof -
  have s: "same_heap g g'" by (simp add: assms(2) same_heap_def)
  have w: "iswhite g' = iswhite g" "isblack g' = isblack g" "isdead g' = isdead g"
    by (simp_all add: assms(2) iswhite_def isblack_def isdead_def otherwhite_def fun_eq_iff)
  have kd: "kind_at g' x = kind_at g x" for x by (simp add: assms(2) kind_at_def)
  have kk: "is_openuv g' = is_openuv g" "is_thread g' = is_thread g" "blackkind g' = blackkind g" "travobj g' = travobj g"
    by (intro ext, simp add: kinds kd)+
  have e: "gc_gray g' = gc_gray g" "gc_grayagain g' = gc_grayagain g" "gc_weak g' = gc_weak g" "h_obj g' = h_obj g" "g_uvhead g' = g_uvhead g"
    by (simp_all add: assms(2))
  have t: "roots_ok g" "typed g" "finite (dom (h_obj g))" "lists_ok g" "clos {} g" "colours g" "distinct (g_uvhead g)"
    using assms(1) minv_clos [of g "{}"] by (simp_all add: trix_def)
  have r: "g_trace g' = g_trace g" "g_gcroot g' = g_gcroot g" "g_registry g' = g_registry g" "g_mainth g' = g_mainth g" "g_curtrace g' = g_curtrace g"
    "gc_mmudata g' = gc_mmudata g" "gc_root g' = gc_root g" "gc_currentwhite g' = gc_currentwhite g"
    by (simp_all add: assms(2))
  have tr: "trace_refs g' = trace_refs g" by (intro ext) (simp only: trace_refs_def r)
  have "roots_ok g'" using t(1) unfolding roots_ok_def cur_trace_ok_def mode_name_def kinds kd tr r e(5) .
  moreover have "clos {} g'" using t(5) unfolding clos_def w same_heap_refs(3) [OF s] pending_def kk e .
  moreover have "colours g'" using t(6) unfolding colours_def w kk e .
  moreover have "lists_ok g'" using t(4) unfolding lists_ok_def w kk e .
  ultimately show "trix {} g'" using t(3,7) t(2) same_heap_typed [OF s] e minv_clos [of g' "{}"] by (simp add: trix_def)
  show "iswhite g' = iswhite g" by (rule w(1))
qed

lemma mark_start_tri:
  assumes "start_ok g"
  shows "tri {} (gc_mark_start g)" "h_obj (gc_mark_start g) = h_obj g"
proof -
  let ?g0 = "g\<lparr>gc_gray := [], gc_grayagain := [], gc_weak := []\<rparr>"
  have a: "roots_ok g" "typed g" "finite (dom (h_obj g))" "distinct (g_uvhead g)"
    "\<And>x. h_obj g x \<noteq> None \<Longrightarrow> iswhite g x \<and> \<not> isblack g x \<and> \<not> isdead g x"
    using assms by (simp_all add: start_ok_def)
  have s: "same_heap g ?g0" by (simp add: same_heap_def)
  have w: "iswhite ?g0 = iswhite g" "isblack ?g0 = isblack g" "isdead ?g0 = isdead g"
    by (simp_all add: iswhite_def isblack_def isdead_def otherwhite_def fun_eq_iff)
  have kd: "kind_at ?g0 x = kind_at g x" for x by (simp add: kind_at_def)
  have kk: "is_openuv ?g0 = is_openuv g" by (intro ext) (simp add: kinds kd)
  have "roots_ok ?g0"
    by (rule roots_grow [OF a(1)]) (use roots_uv(1) [OF a(1)] in \<open>simp_all add: same_env_def kd kk\<close>)
  moreover have "clos {} ?g0" using a(5) unfolding clos_def w same_heap_refs(3) [OF s] by (metis empty_iff refs_none)
  moreover have "colours ?g0" unfolding colours_def w using a(5) by simp
  moreover have "typed ?g0" using same_heap_typed [OF s] a(2) by simp
  ultimately have t0: "trix {} ?g0" using a(3,4) minv_clos [of ?g0 "{}"] by (simp add: trix_def lists_ok_def)
  let ?g4 = "gc_mark_gcroot (let g = gc_markobj (g_mainth ?g0) ?g0; g = gc_markobj (th_env_of g (g_mainth g)) g in gc_marktv (g_registry g) g)"
  note m = start_marks [OF t0 refl]
  have g': "gc_mark_start g = ?g4\<lparr>gc_state := GCSpropagate\<rparr>" by (simp only: gc_mark_start_def Let_def)
  have "gc_mark_start g = ?g4\<lparr>gc_state := GCSpropagate, gc_strhash := gc_strhash ?g4\<rparr>" unfolding g' by simp
  note f = trix_fields [OF m(1) this]
  have "g_mainth (gc_mark_start g) = g_mainth ?g4" "g_registry (gc_mark_start g) = g_registry ?g4" "gc_state (gc_mark_start g) = GCSpropagate"
    unfolding g' by simp_all
  then show "tri {} (gc_mark_start g)" using f m(2,3) unfolding tri_def by (simp only: simp_thms)
  show "h_obj (gc_mark_start g) = h_obj g" unfolding g' using m(4) by simp
qed

section \<open>A cycle\<close>

text \<open>A step of the program.  The state after the store is what the interpreter may leave: it refers to objects that exist.\<close>

inductive mutator :: "addr \<Rightarrow> gcst \<Rightarrow> gcst \<Rightarrow> bool" for L where
  stack: "h_obj g th = Some (OThread t) \<Longrightarrow> th_openuv t' = th_openuv t \<Longrightarrow> heap_ok g (set_obj th (OThread t') g) \<Longrightarrow>
    mutator L g (set_obj th (OThread t') g)"
| rawset: "h_obj g x = Some (OTab t) \<Longrightarrow> heap_ok g (set_obj x (OTab t') (g\<lparr>h_nomm := (h_nomm g)(x := 0)\<rparr>)) \<Longrightarrow>
    mutator L g (lua_rawset x t' g)"
| rawseti: "h_obj g x = Some (OTab t) \<Longrightarrow> heap_ok g (set_obj x (OTab t') g) \<Longrightarrow>
    refs (set_obj x (OTab t') g) x \<subseteq> refs g x \<union> vrefs v \<Longrightarrow> mutator L g (lua_rawseti x t' v g)"
| setmetatable: "heap_ok g (case h_obj g x of Some (OTab t) \<Rightarrow> set_obj x (OTab (t\<lparr>gt_metatable := mt\<rparr>)) g
      | Some (OUdata m env) \<Rightarrow> set_obj x (OUdata mt env) g | _ \<Rightarrow> g) \<Longrightarrow> mutator L g (lua_setmetatable x mt g)"
| setfenv: "h_obj g x = Some ob \<Longrightarrow> has_fenv ob \<Longrightarrow> heap_ok g (set_obj x (fenv_obj e ob) g) \<Longrightarrow> mutator L g (lua_setfenv x e g)"
| usetv: "h_obj g uv = Some (OUpval c tv th i) \<Longrightarrow> heap_ok g (uv_store uv v g) \<Longrightarrow> mutator L g (vm_usetv uv v g)"
| newgco: "h_obj g x = None \<Longrightarrow> okind ob \<notin> {0, 2, 7, 10} \<Longrightarrow> (\<forall>t. ob = OThread t \<longrightarrow> th_openuv t = []) \<Longrightarrow>
    heap_ok g (lj_mem_newgco x ob g) \<Longrightarrow> mutator L g (lj_mem_newgco x ob g)"
| udata_new: "h_obj g x = None \<Longrightarrow> heap_ok g (lj_udata_new x env g) \<Longrightarrow> mutator L g (lj_udata_new x env g)"
| finduv: "h_obj g fresh = None \<Longrightarrow> h_obj g L = Some (OThread t) \<Longrightarrow> 0 < slot \<Longrightarrow> slot < th_top t \<Longrightarrow> slot < length (th_stack t) \<Longrightarrow>
     \<forall>uv \<in> set (openuv_of g L). is_openuv g uv \<Longrightarrow> heap_ok g (fst (func_finduv L slot fresh g)) \<Longrightarrow>
    mutator L g (fst (func_finduv L slot fresh g))"
| closeuv: "\<forall>uv \<in> set (openuv_of g th). is_openuv g uv \<Longrightarrow> distinct (openuv_of g th) \<Longrightarrow> mutator L g (lj_func_closeuv th level g)"
| str_new: "h_obj g fresh = None \<Longrightarrow> i < length (gc_strhash g) \<Longrightarrow> \<forall>x \<in> set (gc_strhash g ! i). is_str g x \<Longrightarrow>
    heap_ok g (gc_str_new i s fresh g) \<Longrightarrow> mutator L g (gc_str_new i s fresh g)"
| str_resize: "0 < n \<Longrightarrow> mutator L g (gc_str_resize hash n g)"

lemma str_new_tri:
  assumes "tri {} g" "h_obj g fresh = None" "heap_ok g (gc_str_new i s fresh g)" "\<forall>x \<in> set (gc_strhash g ! i). is_str g x"
  shows "tri {} (gc_str_new i s fresh g)"
proof (cases "find (\<lambda>x. h_obj g x = Some (OStr s)) (gc_strhash g ! i)")
  case None
  then show ?thesis
    by (intro new_tri [OF assms(1,2) _ _ _ _ _ _ assms(3)])
      (use triD(6) [OF assms(1)] in \<open>auto simp: gc_str_new_def newwhite_def curwhite_def set_obj_def same_env_def\<close>)
next
  case (Some x)
  then have "h_obj g x \<noteq> None" by (auto simp: find_Some_iff)
  then have "\<not> isdead g x" by (rule coloursD(5) [OF triD(3) [OF assms(1)]])
  then show ?thesis using assms(1) Some by (simp add: gc_str_new_def)
qed

lemma str_resize_tri:
  assumes "tri {} g"
  shows "tri {} (gc_str_resize hash n g)"
proof (cases "gc_state g = GCSsweepstring \<or> n \<ge> 2 ^ 26")
  case False
  let ?cs = "List.fold (str_link hash n) (concat (rev (gc_strhash g))) (replicate n [])"
  have g': "gc_str_resize hash n g = g\<lparr>gc_state := gc_state g, gc_strhash := ?cs\<rparr>" using False by (simp add: gc_str_resize_def)
  have "trix {} g" using assms by (simp add: tri_def)
  note f = trix_fields [OF this g']
  show ?thesis using f assms unfolding tri_def by (simp add: g')
qed (use assms in \<open>simp add: gc_str_resize_def\<close>)

lemma mutator_tri: "mutator L g g' \<Longrightarrow> tri {} g \<Longrightarrow> tri {} g'"
proof (induction rule: mutator.induct)
  case (newgco g x ob)
  then show ?case by (intro newgco_tri) auto
qed (auto intro: stack_tri rawset_tri rawseti_tri setmetatable_tri setfenv_tri usetv_tri udata_new_tri finduv_tri closeuv_tri str_new_tri str_resize_tri)

text \<open>The states between the start of a cycle and its atomic phase.\<close>

inductive incr :: "gcst \<Rightarrow> bool" where
  start: "start_ok g \<Longrightarrow> gc_onestep fin L g = Some g' \<Longrightarrow> incr g'"
| step: "incr g \<Longrightarrow> gc_state g = GCSpropagate \<Longrightarrow> gc_onestep fin L g = Some g' \<Longrightarrow> incr g'"
| mut: "incr g \<Longrightarrow> mutator L g g' \<Longrightarrow> incr g'"

lemma incr_tri: "incr g \<Longrightarrow> tri {} g"
proof (induction rule: incr.induct)
  case (start g fin L g')
  then have "g' = gc_mark_start g" by (simp add: gc_onestep_def start_ok_def)
  then show ?case using mark_start_tri(1) [OF start(1)] by simp
next
  case (step g fin L g')
  show ?case
  proof (cases "gc_gray g")
    case Nil
    then have "g' = g\<lparr>gc_state := GCSatomic\<rparr>" using step(2,3) by (simp add: gc_onestep_def)
    also have "\<dots> = g\<lparr>gc_state := GCSatomic, gc_strhash := gc_strhash g\<rparr>" by simp
    finally have g': "g' = g\<lparr>gc_state := GCSatomic, gc_strhash := gc_strhash g\<rparr>" .
    have "trix {} g" using step(4) by (simp add: tri_def)
    note f = trix_fields [OF this g']
    show ?thesis using step(4) f unfolding tri_def by (simp add: g')
  next
    case (Cons x xs)
    then have "g' = propagatemark g" using step(2,3) by (simp add: gc_onestep_def)
    then show ?thesis using propagate_tri [OF step(4) Cons] by simp
  qed
next
  case (mut g L g')
  then show ?case using mutator_tri by blast
qed

end
